(* ===== verification/Rmdb_Prelude.thy ===== *)
theory Rmdb_Prelude
  imports Main "HOL-Library.Word"
begin

text \<open>
  Shared vocabulary of the RMDB development: the constants of
  \<^verbatim>\<open>src/src/common/config.h\<close>, the exceptions of \<^verbatim>\<open>src/src/errors.h\<close> as one datatype,
  byte buffers with the \<^verbatim>\<open>memcpy\<close>-style accesses every page layout is written with,
  little-endian machine integers, and the generic list and map lemmas that the component
  theories share.

  A C++ function that may throw is modelled by a function into \<open>(rmdb_error + 'a) \<times> 's\<close>:
  the exception or the result, together with the state the object is left in. Throwing does
  not undo the assignments made before the throw, so the state is returned on both branches.
\<close>

section \<open>Machine types and constants\<close>

type_synonym byte = "8 word"
type_synonym bytes = "byte list"
type_synonym frame_id = nat
type_synonym txn_id = int
type_synonym lsn = int

definition PAGE_SIZE :: nat where "PAGE_SIZE = 4096"
definition LOG_BUFFER_SIZE :: nat where "LOG_BUFFER_SIZE = 1024 * PAGE_SIZE"
definition INVALID_PAGE_ID :: int where "INVALID_PAGE_ID = - 1"
definition INVALID_TXN_ID :: int where "INVALID_TXN_ID = - 1"
definition INVALID_LSN :: int where "INVALID_LSN = - 1"

lemma PAGE_SIZE_pos [simp]: "0 < PAGE_SIZE"
  by (simp add: PAGE_SIZE_def)

text \<open>A record identifier: \<^verbatim>\<open>struct Rid\<close> of \<^verbatim>\<open>src/src/defs.h\<close>.\<close>

record rid =
  page_no :: int
  slot_no :: int

definition mk_rid :: "int \<Rightarrow> int \<Rightarrow> rid" where
  "mk_rid p s = \<lparr>page_no = p, slot_no = s\<rparr>"

lemma mk_rid_sel [simp]: "page_no (mk_rid p s) = p" "slot_no (mk_rid p s) = s"
  by (simp_all add: mk_rid_def)

lemma mk_rid_inject [simp]: "mk_rid p s = mk_rid p' s' \<longleftrightarrow> p = p' \<and> s = s'"
  by (simp add: mk_rid_def)

lemma mk_rid_eta [simp]: "mk_rid (page_no r) (slot_no r) = r"
  by (simp add: mk_rid_def)

text \<open>Column types: \<^verbatim>\<open>enum ColType\<close> of \<^verbatim>\<open>src/src/defs.h\<close>.\<close>

datatype col_type = TYPE_INT | TYPE_FLOAT | TYPE_STRING | TYPE_NULL

fun col_type_code :: "col_type \<Rightarrow> int" where
  "col_type_code TYPE_INT = 0"
| "col_type_code TYPE_FLOAT = 1"
| "col_type_code TYPE_STRING = 2"
| "col_type_code TYPE_NULL = 3"

text \<open>
  The exceptions of \<^verbatim>\<open>src/src/errors.h\<close>, with the arguments their messages are built from,
  and \<open>AssertFailure\<close> for a violated \<^verbatim>\<open>assert\<close> (the build keeps assertions on).
  \<open>NullDeref\<close> stands for a member access through a null page pointer.
\<close>

datatype rmdb_error =
    InternalError string
  | UnixError
  | FileNotOpenError int
  | FileNotClosedError string
  | FileExistsError string
  | FileNotFoundError string
  | RecordNotFoundError int int
  | InvalidRecordSizeError int
  | InvalidColLengthError int
  | IndexEntryNotFoundError
  | IndexDuplicateKeyError
  | DatabaseNotFoundError string
  | DatabaseExistsError string
  | TableNotFoundError string
  | TableExistsError string
  | ColumnNotFoundError string
  | IndexNotFoundError string "string list"
  | IndexExistsError string "string list"
  | InvalidValueCountError
  | StringOverflowError
  | IncompatibleTypeError string string
  | AmbiguousColumnError string
  | PageNotExistError string int
  | AssertFailure
  | NullDeref

text \<open>
  The message \<^verbatim>\<open>what()\<close> returns and the server sends back; \<open>errno\<close> is the text of
  \<^verbatim>\<open>strerror\<close>. A failed assertion or a null access ends the process and has none.
\<close>

fun nat_to_string :: "nat \<Rightarrow> string" where
  "nat_to_string n =
     (if n < 10 then [char_of (48 + n)] else nat_to_string (n div 10) @ [char_of (48 + n mod 10)])"

declare nat_to_string.simps [simp del]

definition to_string :: "int \<Rightarrow> string" where
  "to_string x = (if x < 0 then ''-'' @ nat_to_string (nat (- x)) else nat_to_string (nat x))"

fun join_names :: "string list \<Rightarrow> string" where
  "join_names [] = []"
| "join_names [c] = c"
| "join_names (c # cs) = c @ '', '' @ join_names cs"

fun error_msg :: "string \<Rightarrow> rmdb_error \<Rightarrow> string option" where
  "error_msg errno (InternalError m) = Some (''Error: '' @ m)"
| "error_msg errno UnixError = Some (''Error: '' @ errno)"
| "error_msg errno (FileNotOpenError fd) = Some (''Error: Invalid file descriptor: '' @ to_string fd)"
| "error_msg errno (FileNotClosedError f) = Some (''Error: File is opened: '' @ f)"
| "error_msg errno (FileExistsError f) = Some (''Error: File already exists: '' @ f)"
| "error_msg errno (FileNotFoundError f) = Some (''Error: File not found: '' @ f)"
| "error_msg errno (RecordNotFoundError p s) =
     Some (''Error: Record not found: ('' @ to_string p @ '','' @ to_string s @ '')'')"
| "error_msg errno (InvalidRecordSizeError n) = Some (''Error: Invalid record size: '' @ to_string n)"
| "error_msg errno (InvalidColLengthError n) = Some (''Error: Invalid column length: '' @ to_string n)"
| "error_msg errno IndexEntryNotFoundError = Some ''Error: Index entry not found''"
| "error_msg errno IndexDuplicateKeyError = Some ''Error: Index duplicate key''"
| "error_msg errno (DatabaseNotFoundError d) = Some (''Error: Database not found: '' @ d)"
| "error_msg errno (DatabaseExistsError d) = Some (''Error: Database already exists: '' @ d)"
| "error_msg errno (TableNotFoundError t) = Some (''Error: Table not found: '' @ t)"
| "error_msg errno (TableExistsError t) = Some (''Error: Table already exists: '' @ t)"
| "error_msg errno (ColumnNotFoundError c) = Some (''Error: Column not found: '' @ c)"
| "error_msg errno (IndexNotFoundError t cs) = Some (''Error: Index not found: '' @ t @ ''.('' @ join_names cs @ '')'')"
| "error_msg errno (IndexExistsError t cs) = Some (''Error: Index already exists: '' @ t @ ''.('' @ join_names cs @ '')'')"
| "error_msg errno InvalidValueCountError = Some ''Error: Invalid value count''"
| "error_msg errno StringOverflowError = Some ''Error: String is too long''"
| "error_msg errno (IncompatibleTypeError l r) = Some (''Error: Incompatible type error: lhs '' @ l @ '', rhs '' @ r)"
| "error_msg errno (AmbiguousColumnError c) = Some (''Error: Ambiguous column: '' @ c)"
| "error_msg errno (PageNotExistError t p) = Some (''Error: Page '' @ to_string p @ '' in table '' @ t @ ''not exits'')"
| "error_msg errno AssertFailure = None"
| "error_msg errno NullDeref = None"

type_synonym ('a, 's) outcome = "(rmdb_error + 'a) \<times> 's"

named_theorems mem_simps "reads and writes of byte buffers"
named_theorems enc_simps "encodings of machine integers"

section \<open>Byte buffers\<close>

text \<open>
  \<open>mem_read d off n\<close> are the \<open>n\<close> bytes at offset \<open>off\<close>; \<open>mem_write d off bs\<close> is
  \<^verbatim>\<open>memcpy(d + off, bs, |bs|)\<close>. Both are used within the buffer only; where the code may
  run past the end the caller's model has the check.
\<close>

definition mem_read :: "'a list \<Rightarrow> nat \<Rightarrow> nat \<Rightarrow> 'a list" where
  "mem_read d off n = take n (drop off d)"

definition mem_write :: "'a list \<Rightarrow> nat \<Rightarrow> 'a list \<Rightarrow> 'a list" where
  "mem_write d off bs = take off d @ bs @ drop (off + length bs) d"

lemma length_mem_write [mem_simps]:
  "off + length bs \<le> length d \<Longrightarrow> length (mem_write d off bs) = length d"
  by (simp add: mem_write_def)

lemma length_mem_read [mem_simps]:
  "off + n \<le> length d \<Longrightarrow> length (mem_read d off n) = n"
  by (simp add: mem_read_def)

lemma mem_read_write_same [mem_simps]:
  "off + length bs \<le> length d \<Longrightarrow> n = length bs \<Longrightarrow> mem_read (mem_write d off bs) off n = bs"
  by (simp add: mem_read_def mem_write_def)

lemma mem_read_write_before [mem_simps]:
  "off + length bs \<le> length d \<Longrightarrow> off' + n \<le> off \<Longrightarrow>
   mem_read (mem_write d off bs) off' n = mem_read d off' n"
  by (rule nth_equalityI) (auto simp: mem_read_def mem_write_def nth_append)

lemma mem_read_write_after [mem_simps]:
  "off + length bs \<le> length d \<Longrightarrow> off + length bs \<le> off' \<Longrightarrow>
   mem_read (mem_write d off bs) off' n = mem_read d off' n"
  by (simp add: mem_read_def mem_write_def drop_append)

lemma nth_mem_write:
  "off + length bs \<le> length d \<Longrightarrow> i < length d \<Longrightarrow>
   mem_write d off bs ! i = (if off \<le> i \<and> i < off + length bs then bs ! (i - off) else d ! i)"
  by (auto simp: mem_write_def nth_append)

lemma nth_mem_read:
  "off + n \<le> length d \<Longrightarrow> i < n \<Longrightarrow> mem_read d off n ! i = d ! (off + i)"
  by (simp add: mem_read_def)

lemma mem_read_all [simp]: "mem_read d 0 (length d) = d"
  by (simp add: mem_read_def)

lemma mem_write_all: "length bs = length d \<Longrightarrow> mem_write d 0 bs = bs"
  by (simp add: mem_write_def)

lemma mem_write_read_same:
  "off + n \<le> length d \<Longrightarrow> mem_write d off (mem_read d off n) = d"
proof -
  assume "off + n \<le> length d"
  then have "mem_write d off (mem_read d off n) = take off d @ take n (drop off d) @ drop n (drop off d)"
    by (simp add: mem_write_def mem_read_def add.commute)
  then show ?thesis by (simp only: append_take_drop_id)
qed

section \<open>Machine integers in memory\<close>

text \<open>
  Little-endian encodings of \<open>n\<close>-byte integers (the x86-64 layout a \<^verbatim>\<open>memcpy\<close> of an object
  representation produces). Encoding truncates to \<open>n\<close> bytes; \<open>get_int\<close> reads a 4-byte two's
  complement \<^verbatim>\<open>int\<close>, \<open>get_uint\<close> an unsigned value of \<open>n\<close> bytes.
\<close>

fun le_enc :: "nat \<Rightarrow> int \<Rightarrow> bytes" where
  "le_enc 0 x = []"
| "le_enc (Suc n) x = word_of_int x # le_enc n (x div 256)"

fun le_dec :: "bytes \<Rightarrow> int" where
  "le_dec [] = 0"
| "le_dec (b # bs) = uint b + 256 * le_dec bs"

definition wrap32 :: "int \<Rightarrow> int" where
  "wrap32 x = (x + 2 ^ 31) mod 2 ^ 32 - 2 ^ 31"

definition enc_int :: "int \<Rightarrow> bytes" where "enc_int x = le_enc 4 x"
definition dec_int :: "bytes \<Rightarrow> int" where "dec_int bs = wrap32 (le_dec bs)"

definition get_int :: "bytes \<Rightarrow> nat \<Rightarrow> int" where
  "get_int d off = dec_int (mem_read d off 4)"

definition put_int :: "bytes \<Rightarrow> nat \<Rightarrow> int \<Rightarrow> bytes" where
  "put_int d off x = mem_write d off (enc_int x)"

definition get_uint :: "nat \<Rightarrow> bytes \<Rightarrow> nat \<Rightarrow> int" where
  "get_uint n d off = le_dec (mem_read d off n)"

definition int_range :: "int \<Rightarrow> bool" where
  "int_range x \<longleftrightarrow> - (2 ^ 31) \<le> x \<and> x < 2 ^ 31"

lemma length_le_enc [simp]: "length (le_enc n x) = n"
  by (induction n arbitrary: x) auto

lemma length_enc_int [simp]: "length (enc_int x) = 4"
  by (simp add: enc_int_def)

lemma le_dec_nonneg [simp]: "0 \<le> le_dec bs"
  by (induction bs) auto

lemma le_dec_bound: "le_dec bs < 256 ^ length bs"
proof (induction bs)
  case (Cons b bs)
  have "uint b < 256" using uint_bounded [of b] by simp
  with Cons show ?case by simp
qed simp

lemma le_dec_enc: "le_dec (le_enc n x) = x mod 256 ^ n"
proof (induction n arbitrary: x)
  case (Suc n)
  have "le_dec (le_enc (Suc n) x) = x mod 256 + 256 * ((x div 256) mod 256 ^ n)"
    by (simp add: Suc uint_word_of_int)
  also have "\<dots> = x mod (256 * 256 ^ n)"
    by (simp add: zmod_zmult2_eq)
  finally show ?case by simp
qed simp

lemma le_dec_enc_small [enc_simps]: "0 \<le> x \<Longrightarrow> x < 256 ^ n \<Longrightarrow> le_dec (le_enc n x) = x"
  by (simp add: le_dec_enc)

lemma wrap32_id [enc_simps]: "int_range x \<Longrightarrow> wrap32 x = x"
  by (simp add: int_range_def wrap32_def)

lemma wrap32_range [simp]: "int_range (wrap32 x)"
proof -
  have "0 \<le> (x + 2 ^ 31) mod 2 ^ 32 \<and> (x + 2 ^ 31) mod 2 ^ 32 < (2 ^ 32 :: int)"
    by simp
  then show ?thesis by (simp add: int_range_def wrap32_def)
qed

lemma wrap32_mod: "wrap32 (x mod 2 ^ 32) = wrap32 x"
  by (simp add: wrap32_def mod_simps)

lemma dec_enc_int: "dec_int (enc_int x) = wrap32 x"
  using wrap32_mod [of x] by (simp add: dec_int_def enc_int_def le_dec_enc)

lemma dec_enc_int_range [enc_simps]: "int_range x \<Longrightarrow> dec_int (enc_int x) = x"
  by (simp add: dec_enc_int wrap32_id)

lemma int_range_simps [simp]: "int_range 0" "int_range 1" "int_range (- 1)" "int_range (numeral k) = (numeral k < (2147483648 :: int))"
  by (simp_all add: int_range_def)

lemma length_put_int [mem_simps]: "off + 4 \<le> length d \<Longrightarrow> length (put_int d off x) = length d"
  by (simp add: put_int_def length_mem_write)

lemma get_put_int_same [mem_simps]:
  "off + 4 \<le> length d \<Longrightarrow> get_int (put_int d off x) off = wrap32 x"
  by (simp add: get_int_def put_int_def mem_read_write_same dec_enc_int)

lemma get_put_int_other [mem_simps]:
  "off + 4 \<le> length d \<Longrightarrow> off' + 4 \<le> off \<or> off + 4 \<le> off' \<Longrightarrow>
   get_int (put_int d off x) off' = get_int d off'"
  by (auto simp: get_int_def put_int_def mem_read_write_before mem_read_write_after)

lemma get_int_write_other [mem_simps]:
  "off + length bs \<le> length d \<Longrightarrow> off' + 4 \<le> off \<or> off + length bs \<le> off' \<Longrightarrow>
   get_int (mem_write d off bs) off' = get_int d off'"
  by (auto simp: get_int_def mem_read_write_before mem_read_write_after)

lemma mem_read_put_int_other [mem_simps]:
  "off + 4 \<le> length d \<Longrightarrow> off' + n \<le> off \<or> off + 4 \<le> off' \<Longrightarrow>
   mem_read (put_int d off x) off' n = mem_read d off' n"
  by (auto simp: put_int_def mem_read_write_before mem_read_write_after)

section \<open>Lists and maps\<close>

lemma distinct_remove1_set: "distinct xs \<Longrightarrow> set (remove1 x xs) = set xs - {x}"
  by (simp add: set_remove1_eq)

lemma map_upd_cases: "(m(k \<mapsto> v)) x = Some y \<Longrightarrow> (x = k \<and> y = v) \<or> (x \<noteq> k \<and> m x = Some y)"
  by (auto split: if_splits)

lemma map_leI: "(\<And>k v. m k = Some v \<Longrightarrow> m' k = Some v) \<Longrightarrow> m \<subseteq>\<^sub>m m'"
  by (auto simp: map_le_def dom_def)

lemma map_leD: "m \<subseteq>\<^sub>m m' \<Longrightarrow> m k = Some v \<Longrightarrow> m' k = Some v"
  by (force simp: map_le_def dom_def)

lemma nth_list_update_if: "i < length xs \<Longrightarrow> xs[i := v] ! j = (if i = j then v else xs ! j)"
  by (cases "i = j") auto

lemma find_None_all: "find P xs = None \<longleftrightarrow> (\<forall>x \<in> set xs. \<not> P x)"
  by (auto simp: find_None_iff)

end
