(* ===== verification/Lru_Replacer.thy ===== *)
theory Lru_Replacer
  imports Rmdb_Prelude
begin

text \<open>
  The LRU replacement policy (\<^verbatim>\<open>src/src/replacer/lru_replacer.cpp\<close>) and the contract of the
  abstract class \<^verbatim>\<open>Replacer\<close> (\<^verbatim>\<open>replacer.h\<close>) as the locale \<open>replacer\<close>.

  \<^verbatim>\<open>LRUlist_\<close> is a \<^verbatim>\<open>std::list\<close> and \<^verbatim>\<open>LRUhash_\<close> maps a frame to an iterator into it. A list
  node has an identity of its own here (a number handed out by \<^verbatim>\<open>push_front\<close>), an iterator is
  the identity of the node it points to, and erasing through an iterator removes that node:
  that the hash table and the list agree is an invariant to prove, not a modelling choice.
\<close>

section \<open>State and operations\<close>

record lru =
  LRUlist :: "(nat \<times> frame_id) list"
  LRUhash :: "frame_id \<rightharpoonup> nat"
  next_node :: nat
  max_size :: nat

definition lru_new :: "nat \<Rightarrow> lru" where
  "lru_new num_pages =
     \<lparr>LRUlist = [], LRUhash = Map.empty, next_node = 0, max_size = num_pages\<rparr>"

definition list_erase :: "(nat \<times> frame_id) list \<Rightarrow> nat \<Rightarrow> (nat \<times> frame_id) list" where
  "list_erase xs it = filter (\<lambda>(n, _). n \<noteq> it) xs"

definition lru_victim :: "lru \<Rightarrow> frame_id option \<times> lru" where
  "lru_victim r =
     (if LRUlist r = [] then (None, r)
      else let victim_frame = snd (last (LRUlist r))
           in (Some victim_frame,
               r\<lparr>LRUlist := butlast (LRUlist r),
                 LRUhash := (LRUhash r)(victim_frame := None)\<rparr>))"

definition lru_pin :: "lru \<Rightarrow> frame_id \<Rightarrow> lru" where
  "lru_pin r f =
     (case LRUhash r f of
        None \<Rightarrow> r
      | Some it \<Rightarrow> r\<lparr>LRUlist := list_erase (LRUlist r) it, LRUhash := (LRUhash r)(f := None)\<rparr>)"

definition lru_unpin :: "lru \<Rightarrow> frame_id \<Rightarrow> lru" where
  "lru_unpin r f =
     (if LRUhash r f \<noteq> None then r
      else r\<lparr>LRUlist := (next_node r, f) # LRUlist r,
             LRUhash := (LRUhash r)(f \<mapsto> next_node r),
             next_node := Suc (next_node r)\<rparr>)"

definition lru_Size :: "lru \<Rightarrow> nat" where
  "lru_Size r = length (LRUlist r)"

section \<open>Invariant and abstraction\<close>

text \<open>The frames in list order, most recently unpinned first.\<close>

definition lru_frames :: "lru \<Rightarrow> frame_id list" where
  "lru_frames r = map snd (LRUlist r)"

definition lru_inv :: "lru \<Rightarrow> bool" where
  "lru_inv r \<longleftrightarrow>
     distinct (map fst (LRUlist r)) \<and> distinct (lru_frames r) \<and>
     (\<forall>(n, f) \<in> set (LRUlist r). n < next_node r) \<and>
     (\<forall>f n. LRUhash r f = Some n \<longleftrightarrow> (n, f) \<in> set (LRUlist r))"

lemma lru_invD:
  assumes "lru_inv r"
  shows "distinct (map fst (LRUlist r))" "distinct (lru_frames r)"
    and "\<And>n f. (n, f) \<in> set (LRUlist r) \<Longrightarrow> n < next_node r"
    and "\<And>f n. LRUhash r f = Some n \<longleftrightarrow> (n, f) \<in> set (LRUlist r)"
  using assms by (auto simp: lru_inv_def)

lemma lru_hash_None_iff: "lru_inv r \<Longrightarrow> LRUhash r f = None \<longleftrightarrow> f \<notin> set (lru_frames r)"
proof -
  assume inv: "lru_inv r"
  have "LRUhash r f \<noteq> None \<longleftrightarrow> (\<exists>n. (n, f) \<in> set (LRUlist r))"
    using lru_invD(4) [OF inv] by auto
  also have "\<dots> \<longleftrightarrow> f \<in> set (lru_frames r)"
    by (force simp: lru_frames_def)
  finally show ?thesis by auto
qed

lemma list_erase_set: "set (list_erase xs it) = {p \<in> set xs. fst p \<noteq> it}"
  by (auto simp: list_erase_def)

lemma list_erase_fst: "map fst (list_erase xs it) = filter (\<lambda>n. n \<noteq> it) (map fst xs)"
  by (induction xs) (auto simp: list_erase_def)

lemma list_erase_frames:
  "distinct (map fst xs) \<Longrightarrow> distinct (map snd xs) \<Longrightarrow> (it, f) \<in> set xs \<Longrightarrow>
   map snd (list_erase xs it) = removeAll f (map snd xs)"
proof (induction xs)
  case (Cons p xs)
  show ?case
  proof (cases "p = (it, f)")
    case True
    with Cons.prems have "it \<notin> fst ` set xs" "f \<notin> snd ` set xs"
      by auto
    then have "filter (\<lambda>(n, _). n \<noteq> it) xs = xs"
      by (force simp: filter_id_conv)
    with True \<open>f \<notin> snd ` set xs\<close> show ?thesis by (simp add: list_erase_def)
  next
    case False
    with Cons.prems have mem: "(it, f) \<in> set xs" by auto
    then have "it \<in> fst ` set xs" "f \<in> snd ` set xs"
      by (auto intro: rev_image_eqI)
    with Cons.prems have "fst p \<noteq> it" "snd p \<noteq> f"
      by auto
    with Cons mem show ?thesis by (auto simp: list_erase_def split: prod.splits)
  qed
qed simp

lemma lru_inv_new [simp]: "lru_inv (lru_new n)"
  by (simp add: lru_inv_def lru_new_def lru_frames_def)

lemma lru_frames_new [simp]: "lru_frames (lru_new n) = []"
  by (simp add: lru_new_def lru_frames_def)

section \<open>The operations refine operations on the list of frames\<close>

lemma lru_victim_refines:
  assumes "lru_inv r"
  shows "lru_frames r = [] \<Longrightarrow> lru_victim r = (None, r)"
    and "lru_frames r \<noteq> [] \<Longrightarrow>
           fst (lru_victim r) = Some (last (lru_frames r)) \<and>
           lru_frames (snd (lru_victim r)) = butlast (lru_frames r)"
  by (auto simp: lru_victim_def lru_frames_def Let_def last_map map_butlast)

lemma lru_pin_refines:
  assumes "lru_inv r"
  shows "lru_frames (lru_pin r f) = removeAll f (lru_frames r)"
proof (cases "LRUhash r f")
  case None
  with lru_hash_None_iff [OF assms, of f] show ?thesis by (simp add: lru_pin_def)
next
  case (Some it)
  then have "(it, f) \<in> set (LRUlist r)" using lru_invD(4) [OF assms] by simp
  with lru_invD(1,2) [OF assms] have "map snd (list_erase (LRUlist r) it) = removeAll f (lru_frames r)"
    by (simp add: lru_frames_def list_erase_frames)
  then show ?thesis by (simp add: lru_pin_def Some lru_frames_def)
qed

lemma lru_unpin_refines:
  assumes "lru_inv r"
  shows "lru_frames (lru_unpin r f) =
           (if f \<in> set (lru_frames r) then lru_frames r else f # lru_frames r)"
  using lru_hash_None_iff [OF assms, of f] by (auto simp: lru_unpin_def lru_frames_def)

lemma lru_inv_victim: "lru_inv r \<Longrightarrow> lru_inv (snd (lru_victim r))"
proof (cases "LRUlist r" rule: rev_cases)
  case (snoc xs p)
  assume inv: "lru_inv r"
  obtain n f where p: "p = (n, f)" by (cases p)
  note d = lru_invD [OF inv]
  have "f \<notin> snd ` set xs" using d(2) by (auto simp: snoc p lru_frames_def)
  then have "(m, f) \<notin> set xs" for m by (metis image_eqI snd_conv)
  then show ?thesis
    using d snoc p by (auto simp: lru_inv_def lru_victim_def lru_frames_def Let_def)
qed (simp add: lru_victim_def)

lemma lru_inv_pin: "lru_inv r \<Longrightarrow> lru_inv (lru_pin r f)"
proof (cases "LRUhash r f")
  case (Some it)
  assume inv: "lru_inv r"
  note d = lru_invD [OF inv]
  have mem: "(it, f) \<in> set (LRUlist r)" using d(4) Some by simp
  have uniq: "m = it \<longleftrightarrow> g = f" if "(m, g) \<in> set (LRUlist r)" for m g
    using that mem d(1,2) by (metis distinct_map fst_conv inj_onD lru_frames_def snd_conv)
  show ?thesis
    unfolding lru_inv_def
  proof (intro conjI allI)
    show "distinct (map fst (LRUlist (lru_pin r f)))"
      using d(1) by (simp add: lru_pin_def Some list_erase_fst)
    show "distinct (lru_frames (lru_pin r f))"
      using d(2) by (simp add: lru_pin_refines [OF inv] distinct_removeAll)
    show "\<forall>(n, g) \<in> set (LRUlist (lru_pin r f)). n < next_node (lru_pin r f)"
      using d(3) by (auto simp: lru_pin_def Some list_erase_set)
    show "LRUhash (lru_pin r f) g = Some n \<longleftrightarrow> (n, g) \<in> set (LRUlist (lru_pin r f))" for g n
      using d(4) [of g n] uniq [of n g] by (auto simp: lru_pin_def Some list_erase_set)
  qed
qed (simp add: lru_pin_def)

lemma lru_inv_unpin: "lru_inv r \<Longrightarrow> lru_inv (lru_unpin r f)"
proof (cases "LRUhash r f")
  case None
  assume inv: "lru_inv r"
  note d = lru_invD [OF inv]
  have f: "f \<notin> snd ` set (LRUlist r)"
    using lru_hash_None_iff [OF inv, of f] None by (simp add: lru_frames_def)
  have n: "next_node r \<notin> fst ` set (LRUlist r)"
    using d(3) by force
  show ?thesis
    using d f n None by (auto simp: lru_inv_def lru_unpin_def lru_frames_def less_Suc_eq image_iff)
qed (auto simp: lru_unpin_def)

lemma lru_Size_frames: "lru_Size r = length (lru_frames r)"
  by (simp add: lru_Size_def lru_frames_def)

lemmas lru_refines = lru_victim_refines lru_pin_refines lru_unpin_refines
lemmas lru_inv_ops = lru_inv_new lru_inv_victim lru_inv_pin lru_inv_unpin

section \<open>The contract of class Replacer\<close>

text \<open>
  What \<^verbatim>\<open>replacer.h\<close> promises about any replacement policy, over the set of frames it may
  evict: \<open>victim\<close> removes and returns one of them and fails only when there is none, \<open>pin\<close>
  takes a frame out, \<open>unpin\<close> puts it in, \<open>Size\<close> counts them.
\<close>

locale replacer =
  fixes victim :: "'r \<Rightarrow> frame_id option \<times> 'r"
    and pin :: "'r \<Rightarrow> frame_id \<Rightarrow> 'r"
    and unpin :: "'r \<Rightarrow> frame_id \<Rightarrow> 'r"
    and Size :: "'r \<Rightarrow> nat"
    and evictable :: "'r \<Rightarrow> frame_id set"
    and ok :: "'r \<Rightarrow> bool"
  assumes victim_None: "ok r \<Longrightarrow> fst (victim r) = None \<longleftrightarrow> evictable r = {}"
    and victim_Some: "ok r \<Longrightarrow> victim r = (Some f, r') \<Longrightarrow>
                        f \<in> evictable r \<and> evictable r' = evictable r - {f}"
    and victim_keeps: "ok r \<Longrightarrow> fst (victim r) = None \<Longrightarrow> snd (victim r) = r"
    and pin_evictable: "ok r \<Longrightarrow> evictable (pin r f) = evictable r - {f}"
    and unpin_evictable: "ok r \<Longrightarrow> evictable (unpin r f) = insert f (evictable r)"
    and Size_evictable: "ok r \<Longrightarrow> Size r = card (evictable r)"
    and finite_evictable: "ok r \<Longrightarrow> finite (evictable r)"
    and ok_victim: "ok r \<Longrightarrow> ok (snd (victim r))"
    and ok_pin: "ok r \<Longrightarrow> ok (pin r f)"
    and ok_unpin: "ok r \<Longrightarrow> ok (unpin r f)"
begin

fun drain :: "nat \<Rightarrow> 'r \<Rightarrow> frame_id list \<times> 'r" where
  "drain 0 r = ([], r)"
| "drain (Suc n) r =
     (case victim r of (None, r') \<Rightarrow> ([], r')
      | (Some f, r') \<Rightarrow> (let (fs, r'') = drain n r' in (f # fs, r'')))"

lemma victim_Size: "ok r \<Longrightarrow> victim r = (Some f, r') \<Longrightarrow> Size r = Suc (Size r')"
proof -
  assume ok: "ok r" and v: "victim r = (Some f, r')"
  have "ok r'" using ok_victim [OF ok] v by simp
  then show ?thesis
    using victim_Some [OF ok v] finite_evictable [OF ok] Size_evictable ok card_Suc_Diff1
    by metis
qed

lemma drain_all:
  assumes "ok r"
  shows "set (fst (drain (Size r) r)) = evictable r \<and> distinct (fst (drain (Size r) r)) \<and>
         Size (snd (drain (Size r) r)) = 0"
proof -
  have "\<lbrakk>ok r; Size r = n\<rbrakk> \<Longrightarrow> set (fst (drain n r)) = evictable r \<and>
          distinct (fst (drain n r)) \<and> Size (snd (drain n r)) = 0" for n
  proof (induction n arbitrary: r)
    case 0
    then show ?case using Size_evictable finite_evictable by force
  next
    case (Suc n)
    have ne: "evictable r \<noteq> {}"
      using Suc.prems Size_evictable [OF Suc.prems(1)] by auto
    obtain f r' where v: "victim r = (Some f, r')"
      using victim_None [OF Suc.prems(1)] ne by (cases "victim r") auto
    have r': "ok r'" "Size r' = n"
      using ok_victim [OF Suc.prems(1)] victim_Size [OF Suc.prems(1) v] v Suc.prems(2) by simp_all
    obtain fs r'' where d: "drain n r' = (fs, r'')" by (cases "drain n r'")
    have "drain (Suc n) r = (f # fs, r'')" by (simp add: v d)
    moreover have "set fs = evictable r - {f}" "distinct fs" "Size r'' = 0"
      using Suc.IH [OF r'] victim_Some [OF Suc.prems(1) v] by (simp_all add: d)
    ultimately show ?case
      using victim_Some [OF Suc.prems(1) v] by auto
  qed
  then show ?thesis using assms by blast
qed

lemma pinned_not_victim:
  assumes "ok r" and "victim (pin r f) = (Some g, r')"
  shows "g \<noteq> f"
  using victim_Some [OF ok_pin [OF assms(1)] assms(2)] by (simp add: pin_evictable [OF assms(1)])

end

interpretation lru: replacer lru_victim lru_pin lru_unpin lru_Size "\<lambda>r. set (lru_frames r)" lru_inv
proof unfold_locales
  fix r r' :: lru and f :: frame_id
  assume inv: "lru_inv r"
  show "fst (lru_victim r) = None \<longleftrightarrow> set (lru_frames r) = {}"
    using lru_victim_refines [OF inv] by (cases "lru_frames r = []") auto
  show "fst (lru_victim r) = None \<Longrightarrow> snd (lru_victim r) = r"
    by (auto simp: lru_victim_def Let_def split: if_splits)
  show "f \<in> set (lru_frames r) \<and> set (lru_frames r') = set (lru_frames r) - {f}"
    if v: "lru_victim r = (Some f, r')"
  proof (cases "lru_frames r" rule: rev_cases)
    case (snoc fs g)
    with lru_victim_refines(2) [OF inv] v have "f = g" "lru_frames r' = fs" by auto
    with lru_invD(2) [OF inv] snoc show ?thesis by auto
  qed (use lru_victim_refines(1) [OF inv] v in simp)
  show "set (lru_frames (lru_pin r f)) = set (lru_frames r) - {f}"
    by (simp add: lru_pin_refines [OF inv])
  show "set (lru_frames (lru_unpin r f)) = insert f (set (lru_frames r))"
    by (auto simp: lru_unpin_refines [OF inv])
  show "lru_Size r = card (set (lru_frames r))"
    using lru_invD(2) [OF inv] by (simp add: lru_Size_frames distinct_card)
qed (auto intro: lru_inv_ops)

text \<open>Victims leave in the order in which their frames were unpinned: least recent first.\<close>

lemma lru_drain_order:
  assumes "lru_inv r"
  shows "fst (lru.drain (lru_Size r) r) = rev (lru_frames r)"
proof -
  have "\<lbrakk>lru_inv r; length (lru_frames r) = n\<rbrakk> \<Longrightarrow> fst (lru.drain n r) = rev (lru_frames r)" for n
  proof (induction n arbitrary: r)
    case (Suc n)
    then obtain fs g where fg: "lru_frames r = fs @ [g]"
      by (cases "lru_frames r" rule: rev_cases) auto
    obtain r' where v: "lru_victim r = (Some g, r')" and fs: "lru_frames r' = fs"
      using lru_victim_refines(2) [OF Suc.prems(1)] fg by (cases "lru_victim r") auto
    have "lru_inv r'" using lru_inv_victim [OF Suc.prems(1)] v by simp
    with Suc.IH [of r'] Suc.prems fg fs have "fst (lru.drain n r') = rev fs" by simp
    then show ?case by (cases "lru.drain n r'") (simp add: v fg)
  qed simp
  then show ?thesis using assms by (simp add: lru_Size_frames)
qed

section \<open>Traces\<close>

text \<open>
  The replacer against its specification: a list of frames, most recently released first,
  from which the last one is evicted.
\<close>

datatype lru_op = Victim | Pin frame_id | Unpin frame_id

fun lru_step :: "lru \<Rightarrow> lru_op \<Rightarrow> frame_id option \<times> lru" where
  "lru_step r Victim = lru_victim r"
| "lru_step r (Pin f) = (None, lru_pin r f)"
| "lru_step r (Unpin f) = (None, lru_unpin r f)"

fun lru_spec_step :: "frame_id list \<Rightarrow> lru_op \<Rightarrow> frame_id option \<times> frame_id list" where
  "lru_spec_step fs Victim = (if fs = [] then (None, []) else (Some (last fs), butlast fs))"
| "lru_spec_step fs (Pin f) = (None, removeAll f fs)"
| "lru_spec_step fs (Unpin f) = (None, if f \<in> set fs then fs else f # fs)"

fun run_ops :: "('s \<Rightarrow> 'o \<Rightarrow> 'a \<times> 's) \<Rightarrow> 's \<Rightarrow> 'o list \<Rightarrow> 'a list \<times> 's" where
  "run_ops step s [] = ([], s)"
| "run_ops step s (x # xs) =
     (case step s x of (a, s') \<Rightarrow> case run_ops step s' xs of (as, t) \<Rightarrow> (a # as, t))"

lemma lru_step_refines:
  assumes "lru_inv r" and "lru_step r x = (a, r')"
  shows "lru_spec_step (lru_frames r) x = (a, lru_frames r')" and "lru_inv r'"
proof (atomize (full), cases x)
  case Victim
  then show "lru_spec_step (lru_frames r) x = (a, lru_frames r') \<and> lru_inv r'"
    using assms lru_victim_refines [OF assms(1)] lru_inv_victim [OF assms(1)]
    by (cases "lru_frames r = []") auto
qed (use assms lru_pin_refines lru_unpin_refines in \<open>auto intro: lru_inv_ops\<close>)

lemma run_ops_refines:
  assumes "\<And>s x a s'. I s \<Longrightarrow> step s x = (a, s') \<Longrightarrow> spec (h s) x = (a, h s') \<and> I s'" and "I s"
    and "run_ops step s xs = (as, t)"
  shows "run_ops spec (h s) xs = (as, h t) \<and> I t"
  using assms(2,3)
proof (induction xs arbitrary: s as)
  case (Cons x xs)
  obtain a s' where st: "step s x = (a, s')" by (cases "step s x")
  obtain as' t' where r: "run_ops step s' xs = (as', t')" by (cases "run_ops step s' xs")
  from assms(1) [OF Cons.prems(1) st] Cons.IH [of s' as'] Cons.prems(2) st r show ?case by auto
qed simp

text \<open>
  C23. For every sequence of operations on a fresh replacer, the victims it returns and the
  frames it holds are those of the specification: the frame evicted is always the one that was
  released least recently among those not pinned since.
\<close>

theorem lru_trace_refines:
  "run_ops lru_spec_step [] ops =
     (fst (run_ops lru_step (lru_new n) ops), lru_frames (snd (run_ops lru_step (lru_new n) ops)))"
proof -
  obtain as t where r: "run_ops lru_step (lru_new n) ops = (as, t)" by (cases "run_ops lru_step (lru_new n) ops")
  from run_ops_refines [of lru_inv lru_step lru_spec_step lru_frames "lru_new n" ops as t] lru_step_refines r
  show ?thesis by simp
qed

end
