(* ===== verification/Disk_Manager.thy ===== *)
theory Disk_Manager
  imports Rmdb_Prelude
begin

text \<open>
  The disk manager (\<^verbatim>\<open>src/src/storage/disk_manager.cpp\<close>) over a model of the POSIX calls it
  uses: a flat name space of regular files, file contents as byte lists, and a descriptor
  table in which \<^verbatim>\<open>open\<close> takes the lowest free number. \<open>max_bytes\<close> is the size at which the
  file system stops accepting data, so that a short \<^verbatim>\<open>write\<close> and the exception it causes are
  behaviours of the model. The directory operations shell out to \<^verbatim>\<open>mkdir\<close> and \<^verbatim>\<open>rm -r\<close> and
  are not modelled.
\<close>

section \<open>POSIX files\<close>

record ofile =
  of_inode :: nat
  of_offset :: nat

record posix =
  names :: "string \<rightharpoonup> nat"
  inodes :: "nat \<Rightarrow> bytes"
  fds :: "ofile option list"
  next_inode :: nat
  max_bytes :: nat

text \<open>Descriptors 0, 1 and 2 are taken by the standard streams.\<close>

definition posix_init :: "nat \<Rightarrow> posix" where
  "posix_init cap =
     \<lparr>names = Map.empty, inodes = (\<lambda>_. []),
      fds = map (\<lambda>i. Some \<lparr>of_inode = i, of_offset = 0\<rparr>) [0, 1, 2], next_inode = 3,
      max_bytes = cap\<rparr>"

definition fd_get :: "posix \<Rightarrow> int \<Rightarrow> ofile option" where
  "fd_get s fd = (if 0 \<le> fd \<and> nat fd < length (fds s) then fds s ! nat fd else None)"

definition fd_set :: "posix \<Rightarrow> int \<Rightarrow> ofile option \<Rightarrow> posix" where
  "fd_set s fd v = s\<lparr>fds := (fds s)[nat fd := v]\<rparr>"

fun first_free :: "'a option list \<Rightarrow> nat" where
  "first_free [] = 0"
| "first_free (None # xs) = 0"
| "first_free (Some _ # xs) = Suc (first_free xs)"

definition fd_alloc :: "posix \<Rightarrow> nat \<Rightarrow> int \<times> posix" where
  "fd_alloc s ino =
     (let i = first_free (fds s); f = Some \<lparr>of_inode = ino, of_offset = 0\<rparr>
      in (int i, s\<lparr>fds := (if i < length (fds s) then (fds s)[i := f] else fds s @ [f])\<rparr>))"

text \<open>\<^verbatim>\<open>open(path, O_RDWR)\<close> and \<^verbatim>\<open>open(path, O_CREAT, 0666)\<close>; \<^verbatim>\<open>None\<close> is the result -1.\<close>

definition sys_open :: "posix \<Rightarrow> string \<Rightarrow> bool \<Rightarrow> int option \<times> posix" where
  "sys_open s path creat =
     (case names s path of
        Some ino \<Rightarrow> (case fd_alloc s ino of (fd, s') \<Rightarrow> (Some fd, s'))
      | None \<Rightarrow>
          if creat then
            let ino = next_inode s;
                s1 = s\<lparr>names := (names s)(path \<mapsto> ino), inodes := (inodes s)(ino := []),
                       next_inode := Suc ino\<rparr>
            in (case fd_alloc s1 ino of (fd, s') \<Rightarrow> (Some fd, s'))
          else (None, s))"

definition sys_close :: "posix \<Rightarrow> int \<Rightarrow> bool \<times> posix" where
  "sys_close s fd = (case fd_get s fd of None \<Rightarrow> (False, s) | Some _ \<Rightarrow> (True, fd_set s fd None))"

definition sys_unlink :: "posix \<Rightarrow> string \<Rightarrow> bool \<times> posix" where
  "sys_unlink s path =
     (case names s path of None \<Rightarrow> (False, s)
      | Some _ \<Rightarrow> (True, s\<lparr>names := (names s)(path := None)\<rparr>))"

text \<open>\<^verbatim>\<open>lseek(fd, off, SEEK_SET)\<close>: fails on a closed descriptor and on a negative offset.\<close>

definition sys_lseek :: "posix \<Rightarrow> int \<Rightarrow> int \<Rightarrow> bool \<times> posix" where
  "sys_lseek s fd off =
     (case fd_get s fd of
        None \<Rightarrow> (False, s)
      | Some f \<Rightarrow> if off < 0 then (False, s)
                  else (True, fd_set s fd (Some (f\<lparr>of_offset := nat off\<rparr>))))"

definition sys_lseek_end :: "posix \<Rightarrow> int \<Rightarrow> bool \<times> posix" where
  "sys_lseek_end s fd =
     (case fd_get s fd of
        None \<Rightarrow> (False, s)
      | Some f \<Rightarrow> (True, fd_set s fd (Some (f\<lparr>of_offset := length (inodes s (of_inode f))\<rparr>))))"

text \<open>
  Storing bytes at an offset of a file: a gap beyond the old end reads as zeros. A write that
  would pass \<open>max_bytes\<close> is short, and a read stops at the end of the file.
\<close>

definition file_store :: "bytes \<Rightarrow> nat \<Rightarrow> bytes \<Rightarrow> bytes" where
  "file_store c off bs =
     (if bs = [] then c else mem_write (c @ replicate (off + length bs - length c) 0) off bs)"

definition sys_write :: "posix \<Rightarrow> int \<Rightarrow> bytes \<Rightarrow> int \<times> posix" where
  "sys_write s fd bs =
     (case fd_get s fd of
        None \<Rightarrow> (- 1, s)
      | Some f \<Rightarrow>
          let n = min (length bs) (max_bytes s - of_offset f);
              c = file_store (inodes s (of_inode f)) (of_offset f) (take n bs)
          in (int n, fd_set (s\<lparr>inodes := (inodes s)(of_inode f := c)\<rparr>) fd
                       (Some (f\<lparr>of_offset := of_offset f + n\<rparr>))))"

definition sys_read :: "posix \<Rightarrow> int \<Rightarrow> nat \<Rightarrow> bytes \<times> posix" where
  "sys_read s fd n =
     (case fd_get s fd of
        None \<Rightarrow> ([], s)
      | Some f \<Rightarrow>
          let bs = take n (drop (of_offset f) (inodes s (of_inode f)))
          in (bs, fd_set s fd (Some (f\<lparr>of_offset := of_offset f + length bs\<rparr>))))"

definition sys_file_size :: "posix \<Rightarrow> string \<Rightarrow> int" where
  "sys_file_size s path =
     (case names s path of None \<Rightarrow> - 1 | Some ino \<Rightarrow> int (length (inodes s ino)))"

section \<open>The disk manager\<close>

record disk_manager =
  path2fd :: "string \<rightharpoonup> int"
  fd2path :: "int \<rightharpoonup> string"
  log_fd :: int
  restart_fd :: int
  fd2pageno :: "int \<Rightarrow> int"
  os :: posix

definition MAX_FD :: int where "MAX_FD = 8192"
definition LOG_FILE_NAME :: string where "LOG_FILE_NAME = ''db.log''"
definition RESTART_FILE_NAME :: string where "RESTART_FILE_NAME = ''restart.log''"

definition dm_new :: "posix \<Rightarrow> disk_manager" where
  "dm_new s = \<lparr>path2fd = Map.empty, fd2path = Map.empty, log_fd = - 1, restart_fd = - 1,
               fd2pageno = (\<lambda>_. 0), os = s\<rparr>"

text \<open>
  The byte offset of a page. \<^verbatim>\<open>page_no * PAGE_SIZE\<close> is a product of two \<^verbatim>\<open>int\<close>s and is only
  then widened to \<^verbatim>\<open>off_t\<close>: it wraps at 2 GiB.
\<close>

definition page_offset :: "int \<Rightarrow> int" where
  "page_offset p = wrap32 (p * int PAGE_SIZE)"

definition dm_write_page :: "disk_manager \<Rightarrow> int \<Rightarrow> int \<Rightarrow> bytes \<Rightarrow> (unit, disk_manager) outcome" where
  "dm_write_page d fd p bs =
     (case sys_lseek (os d) fd (page_offset p) of
        (False, s) \<Rightarrow> (Inl (InternalError ''Failed to seek to page location''), d\<lparr>os := s\<rparr>)
      | (True, s) \<Rightarrow>
          (case sys_write s fd bs of
             (n, s') \<Rightarrow>
               if n \<noteq> int (length bs) then (Inl (InternalError ''DiskManager::write_page Error''), d\<lparr>os := s'\<rparr>)
               else (Inr (), d\<lparr>os := s'\<rparr>)))"

text \<open>
  \<open>dm_read_page d fd p buf n\<close> reads \<open>n\<close> bytes into \<open>buf\<close>; the buffer is returned on every
  branch, since a short read leaves what it got there before the exception is thrown.
\<close>

definition dm_read_page :: "disk_manager \<Rightarrow> int \<Rightarrow> int \<Rightarrow> bytes \<Rightarrow> nat \<Rightarrow>
    bytes \<times> (unit, disk_manager) outcome" where
  "dm_read_page d fd p buf n =
     (case sys_lseek (os d) fd (page_offset p) of
        (False, s) \<Rightarrow> (buf, Inl (InternalError ''Failed to seek to page location''), d\<lparr>os := s\<rparr>)
      | (True, s) \<Rightarrow>
          (case sys_read s fd n of
             (bs, s') \<Rightarrow>
               (mem_write buf 0 bs,
                if length bs \<noteq> n then Inl (InternalError ''DiskManager::read_page Error'') else Inr (),
                d\<lparr>os := s'\<rparr>)))"

definition dm_allocate_page :: "disk_manager \<Rightarrow> int \<Rightarrow> (int, disk_manager) outcome" where
  "dm_allocate_page d fd =
     (if 0 \<le> fd \<and> fd < MAX_FD
      then (Inr (fd2pageno d fd), d\<lparr>fd2pageno := (fd2pageno d)(fd := wrap32 (fd2pageno d fd + 1))\<rparr>)
      else (Inl AssertFailure, d))"

definition dm_set_fd2pageno :: "disk_manager \<Rightarrow> int \<Rightarrow> int \<Rightarrow> disk_manager" where
  "dm_set_fd2pageno d fd start = d\<lparr>fd2pageno := (fd2pageno d)(fd := start)\<rparr>"

definition dm_is_file :: "disk_manager \<Rightarrow> string \<Rightarrow> bool" where
  "dm_is_file d path \<longleftrightarrow> names (os d) path \<noteq> None"

definition dm_create_file :: "disk_manager \<Rightarrow> string \<Rightarrow> (unit, disk_manager) outcome" where
  "dm_create_file d path =
     (if dm_is_file d path then (Inl (FileExistsError path), d)
      else case sys_open (os d) path True of
             (None, s) \<Rightarrow> (Inl (FileNotOpenError (- 1)), d\<lparr>os := s\<rparr>)
           | (Some fd, s) \<Rightarrow> (Inr (), d\<lparr>os := snd (sys_close s fd)\<rparr>))"

definition dm_destroy_file :: "disk_manager \<Rightarrow> string \<Rightarrow> (unit, disk_manager) outcome" where
  "dm_destroy_file d path =
     (case sys_unlink (os d) path of
        (False, s) \<Rightarrow> (Inl (FileNotFoundError (''Failed to delete file: '' @ path)), d\<lparr>os := s\<rparr>)
      | (True, s) \<Rightarrow> (Inr (), d\<lparr>os := s\<rparr>))"

definition dm_open_file :: "disk_manager \<Rightarrow> string \<Rightarrow> (int, disk_manager) outcome" where
  "dm_open_file d path =
     (if path2fd d path \<noteq> None then (Inl (FileNotClosedError path), d)
      else case sys_open (os d) path False of
             (None, s) \<Rightarrow> (Inl (FileNotFoundError path), d\<lparr>os := s\<rparr>)
           | (Some fd, s) \<Rightarrow>
               (Inr fd, d\<lparr>os := s, path2fd := (path2fd d)(path \<mapsto> fd), fd2path := (fd2path d)(fd \<mapsto> path)\<rparr>))"

definition dm_close_file :: "disk_manager \<Rightarrow> int \<Rightarrow> (unit, disk_manager) outcome" where
  "dm_close_file d fd =
     (case fd2path d fd of
        None \<Rightarrow> (Inl (FileNotOpenError fd), d)
      | Some path \<Rightarrow>
          (case sys_close (os d) fd of
             (False, s) \<Rightarrow> (Inl (InternalError ''Failed to close file''), d\<lparr>os := s\<rparr>)
           | (True, s) \<Rightarrow>
               (Inr (), d\<lparr>os := s, path2fd := (path2fd d)(path := None), fd2path := (fd2path d)(fd := None)\<rparr>)))"

definition dm_get_file_size :: "disk_manager \<Rightarrow> string \<Rightarrow> int" where
  "dm_get_file_size d path = wrap32 (sys_file_size (os d) path)"

definition dm_get_file_name :: "disk_manager \<Rightarrow> int \<Rightarrow> rmdb_error + string" where
  "dm_get_file_name d fd =
     (case fd2path d fd of None \<Rightarrow> Inl (FileNotOpenError fd) | Some p \<Rightarrow> Inr p)"

definition dm_get_file_fd :: "disk_manager \<Rightarrow> string \<Rightarrow> (int, disk_manager) outcome" where
  "dm_get_file_fd d path =
     (case path2fd d path of None \<Rightarrow> dm_open_file d path | Some fd \<Rightarrow> (Inr fd, d))"

text \<open>
  The log file is opened on first use, read at an explicit offset and always written at its
  end. \<open>dm_read_log\<close> returns the count the code returns (-1 beyond the end) and the bytes.
\<close>

definition dm_log_fd :: "disk_manager \<Rightarrow> (int, disk_manager) outcome" where
  "dm_log_fd d =
     (if log_fd d = - 1
      then (case dm_open_file d LOG_FILE_NAME of
              (Inl e, d') \<Rightarrow> (Inl e, d')
            | (Inr fd, d') \<Rightarrow> (Inr fd, d'\<lparr>log_fd := fd\<rparr>))
      else (Inr (log_fd d), d))"

definition dm_read_log :: "disk_manager \<Rightarrow> int \<Rightarrow> int \<Rightarrow> (int \<times> bytes, disk_manager) outcome" where
  "dm_read_log d sz off =
     (case dm_log_fd d of
        (Inl e, d') \<Rightarrow> (Inl e, d')
      | (Inr fd, d1) \<Rightarrow>
          let file_size = dm_get_file_size d1 LOG_FILE_NAME
          in if off > file_size then (Inr (- 1, []), d1)
             else let n = min sz (file_size - off)
                  in if n = 0 then (Inr (0, []), d1)
                     else case sys_read (snd (sys_lseek (os d1) fd off)) fd (nat n) of
                            (bs, s) \<Rightarrow> if int (length bs) = n then (Inr (n, bs), d1\<lparr>os := s\<rparr>)
                                      else (Inl AssertFailure, d1\<lparr>os := s\<rparr>))"

definition dm_write_log :: "disk_manager \<Rightarrow> bytes \<Rightarrow> (unit, disk_manager) outcome" where
  "dm_write_log d bs =
     (case dm_log_fd d of
        (Inl e, d') \<Rightarrow> (Inl e, d')
      | (Inr fd, d1) \<Rightarrow>
          (case sys_write (snd (sys_lseek_end (os d1) fd)) fd bs of
             (n, s) \<Rightarrow> if n \<noteq> int (length bs) then (Inl UnixError, d1\<lparr>os := s\<rparr>) else (Inr (), d1\<lparr>os := s\<rparr>)))"

definition dm_get_log_size :: "disk_manager \<Rightarrow> int" where
  "dm_get_log_size d = dm_get_file_size d LOG_FILE_NAME"

definition dm_restart_fd :: "disk_manager \<Rightarrow> (int, disk_manager) outcome" where
  "dm_restart_fd d =
     (if restart_fd d = - 1
      then (case dm_open_file d RESTART_FILE_NAME of
              (Inl e, d') \<Rightarrow> (Inl e, d')
            | (Inr fd, d') \<Rightarrow> (Inr fd, d'\<lparr>restart_fd := fd\<rparr>))
      else (Inr (restart_fd d), d))"

definition dm_set_restart_log :: "disk_manager \<Rightarrow> int \<Rightarrow> (unit, disk_manager) outcome" where
  "dm_set_restart_log d off =
     (case dm_restart_fd d of
        (Inl e, d') \<Rightarrow> (Inl e, d')
      | (Inr fd, d1) \<Rightarrow>
          (Inr (), d1\<lparr>os := snd (sys_write (snd (sys_lseek (os d1) fd 0)) fd (enc_int off))\<rparr>))"

text \<open>
  \<^verbatim>\<open>file_size < sizeof(int)\<close> is an unsigned comparison: the size -1 of a missing file is not
  below 4.
\<close>

definition dm_get_restart_log :: "disk_manager \<Rightarrow> (int, disk_manager) outcome" where
  "dm_get_restart_log d =
     (case dm_restart_fd d of
        (Inl e, d') \<Rightarrow> (Inl e, d')
      | (Inr fd, d1) \<Rightarrow>
          let s1 = snd (sys_lseek (os d1) fd 0)
          in if 0 \<le> dm_get_file_size d1 RESTART_FILE_NAME \<and>
                dm_get_file_size d1 RESTART_FILE_NAME < 4 then (Inr 0, d1\<lparr>os := s1\<rparr>)
             else case sys_read s1 fd 4 of (bs, s2) \<Rightarrow> (Inr (dec_int bs), d1\<lparr>os := s2\<rparr>))"

section \<open>Descriptors\<close>

definition fd_inode :: "posix \<Rightarrow> int \<Rightarrow> nat option" where
  "fd_inode s fd = map_option of_inode (fd_get s fd)"

lemma fd_get_bounds: "fd_get s fd = Some f \<Longrightarrow> 0 \<le> fd \<and> nat fd < length (fds s)"
  by (auto simp: fd_get_def split: if_splits)

lemma fd_get_fd_set [simp]:
  "fd_get s fd = Some f \<Longrightarrow> fd_get (fd_set s fd v) fd' = (if fd' = fd then v else fd_get s fd')"
  by (auto simp: fd_get_def fd_set_def nth_list_update_if split: if_splits)

lemma fd_set_fields [simp]:
  "names (fd_set s fd v) = names s" "inodes (fd_set s fd v) = inodes s"
  "next_inode (fd_set s fd v) = next_inode s" "max_bytes (fd_set s fd v) = max_bytes s"
  by (simp_all add: fd_set_def)

lemma fd_get_inodes_update [simp]:
  "fd_get (s\<lparr>inodes := c\<rparr>) fd = fd_get s fd" "fd_get (s\<lparr>names := m\<rparr>) fd = fd_get s fd"
  "fd_get (s\<lparr>next_inode := n\<rparr>) fd = fd_get s fd"
  by (simp_all add: fd_get_def)

lemma fd_inode_update [simp]:
  "fd_inode (s\<lparr>inodes := c\<rparr>) fd = fd_inode s fd" "fd_inode (s\<lparr>names := m\<rparr>) fd = fd_inode s fd"
  by (simp_all add: fd_inode_def)

lemma first_free_nth: "first_free xs < length xs \<Longrightarrow> xs ! first_free xs = None"
  by (induction xs rule: first_free.induct) auto

lemma first_free_le: "first_free xs \<le> length xs"
  by (induction xs rule: first_free.induct) auto

lemma fd_alloc_props:
  assumes "fd_alloc s ino = (fd, s')"
  shows "fd_get s fd = None" and "0 \<le> fd"
    and "fd_get s' fd' = (if fd' = fd then Some \<lparr>of_inode = ino, of_offset = 0\<rparr> else fd_get s fd')"
    and "names s' = names s" "inodes s' = inodes s" "next_inode s' = next_inode s"
        "max_bytes s' = max_bytes s"
proof -
  have le: "first_free (fds s) \<le> length (fds s)" by (rule first_free_le)
  show "fd_get s fd = None" and "0 \<le> fd"
    using assms first_free_nth [of "fds s"] by (auto simp: fd_alloc_def Let_def fd_get_def)
  show "fd_get s' fd' = (if fd' = fd then Some \<lparr>of_inode = ino, of_offset = 0\<rparr> else fd_get s fd')"
    using assms le
    by (cases "first_free (fds s) < length (fds s)")
      (auto simp: fd_alloc_def Let_def fd_get_def nth_list_update_if nth_append)
  show "names s' = names s" "inodes s' = inodes s" "next_inode s' = next_inode s"
       "max_bytes s' = max_bytes s"
    using assms by (auto simp: fd_alloc_def Let_def)
qed

section \<open>The open-file tables\<close>

text \<open>
  The two tables are inverse to each other, describe open descriptors only, and no inode is
  open twice: a file that is reachable by name and open is listed under that name.
\<close>

definition dm_inv :: "disk_manager \<Rightarrow> bool" where
  "dm_inv d \<longleftrightarrow>
     (\<forall>p fd. path2fd d p = Some fd \<longleftrightarrow> fd2path d fd = Some p) \<and>
     (\<forall>fd p. fd2path d fd = Some p \<longrightarrow> fd_get (os d) fd \<noteq> None) \<and>
     (\<forall>p ino. names (os d) p = Some ino \<longrightarrow> ino < next_inode (os d)) \<and>
     (\<forall>p q ino. names (os d) p = Some ino \<and> names (os d) q = Some ino \<longrightarrow> p = q) \<and>
     (\<forall>fd ino. fd_inode (os d) fd = Some ino \<longrightarrow> ino < next_inode (os d)) \<and>
     (\<forall>fd fd' ino. fd_inode (os d) fd = Some ino \<and> fd_inode (os d) fd' = Some ino \<longrightarrow> fd = fd') \<and>
     (\<forall>fd p ino. fd_inode (os d) fd = Some ino \<and> names (os d) p = Some ino \<longrightarrow> path2fd d p = Some fd)"

lemma dm_invD:
  assumes "dm_inv d"
  shows dm_inv_tables: "path2fd d p = Some fd \<longleftrightarrow> fd2path d fd = Some p"
    and dm_inv_open: "fd2path d fd = Some p \<Longrightarrow> fd_get (os d) fd \<noteq> None"
    and dm_inv_names: "names (os d) p = Some ino \<Longrightarrow> ino < next_inode (os d)"
    and dm_inv_names_inj: "names (os d) p = Some ino \<Longrightarrow> names (os d) q = Some ino \<Longrightarrow> p = q"
    and dm_inv_inode: "fd_inode (os d) fd = Some ino \<Longrightarrow> ino < next_inode (os d)"
    and dm_inv_inode_inj: "fd_inode (os d) fd = Some ino \<Longrightarrow> fd_inode (os d) fd' = Some ino \<Longrightarrow> fd = fd'"
    and dm_inv_listed: "fd_inode (os d) fd = Some ino \<Longrightarrow> names (os d) p = Some ino \<Longrightarrow> path2fd d p = Some fd"
  using assms unfolding dm_inv_def by blast+

lemma dm_invI:
  assumes "\<And>p fd. path2fd d p = Some fd \<longleftrightarrow> fd2path d fd = Some p"
    and "\<And>fd p. fd2path d fd = Some p \<Longrightarrow> fd_get (os d) fd \<noteq> None"
    and "\<And>p ino. names (os d) p = Some ino \<Longrightarrow> ino < next_inode (os d)"
    and "\<And>p q ino. names (os d) p = Some ino \<Longrightarrow> names (os d) q = Some ino \<Longrightarrow> p = q"
    and "\<And>fd ino. fd_inode (os d) fd = Some ino \<Longrightarrow> ino < next_inode (os d)"
    and "\<And>fd fd' ino. fd_inode (os d) fd = Some ino \<Longrightarrow> fd_inode (os d) fd' = Some ino \<Longrightarrow> fd = fd'"
    and "\<And>fd p ino. fd_inode (os d) fd = Some ino \<Longrightarrow> names (os d) p = Some ino \<Longrightarrow> path2fd d p = Some fd"
  shows "dm_inv d"
  using assms unfolding dm_inv_def by blast

lemma fd_inode_init: "fd_inode (posix_init cap) fd = Some i \<Longrightarrow> fd = int i \<and> i < 3"
  by (auto simp: fd_inode_def fd_get_def posix_init_def nth_Cons split: if_splits nat.splits)

lemma dm_inv_new [simp]: "dm_inv (dm_new (posix_init cap))"
proof -
  have "names (posix_init cap) = Map.empty" "next_inode (posix_init cap) = 3"
    by (simp_all add: posix_init_def)
  then show ?thesis
    by (intro dm_invI) (auto simp: dm_new_def dest!: fd_inode_init)
qed

text \<open>Operations that only move offsets and store bytes keep the invariant.\<close>

definition posix_same :: "posix \<Rightarrow> posix \<Rightarrow> bool" where
  "posix_same s s' \<longleftrightarrow> names s' = names s \<and> next_inode s' = next_inode s \<and>
     max_bytes s' = max_bytes s \<and> fd_inode s' = fd_inode s"

lemma posix_same_refl [simp]: "posix_same s s"
  by (simp add: posix_same_def)

lemma posix_same_trans: "posix_same s t \<Longrightarrow> posix_same t u \<Longrightarrow> posix_same s u"
  by (simp add: posix_same_def)

lemma posix_same_get: "posix_same s s' \<Longrightarrow> fd_get s' fd = None \<longleftrightarrow> fd_get s fd = None"
  unfolding posix_same_def fd_inode_def by (metis map_option_is_None)

lemma dm_inv_same:
  assumes "posix_same (os d) s" and "dm_inv d"
  shows "dm_inv (d\<lparr>os := s\<rparr>)"
proof -
  have "dm_inv (d\<lparr>os := s\<rparr>) = dm_inv d"
    using assms(1) posix_same_get [OF assms(1)] by (simp add: dm_inv_def posix_same_def)
  with assms(2) show ?thesis by simp
qed

lemma posix_same_set:
  "fd_get s fd = Some f \<Longrightarrow> of_inode g = of_inode f \<Longrightarrow> posix_same s (fd_set s fd (Some g))"
  by (auto simp: posix_same_def fd_inode_def fun_eq_iff)

lemma sys_lseek_same: "posix_same s (snd (sys_lseek s fd off))"
  by (auto simp: sys_lseek_def intro: posix_same_set split: option.splits)

lemma sys_lseek_end_same: "posix_same s (snd (sys_lseek_end s fd))"
  by (auto simp: sys_lseek_end_def intro: posix_same_set split: option.splits)

lemma posix_same_inodes: "posix_same s t \<Longrightarrow> posix_same (s\<lparr>inodes := c\<rparr>) t"
  by (simp add: posix_same_def fd_inode_def fun_eq_iff)

lemma posix_same_inodes2: "posix_same (s\<lparr>inodes := c\<rparr>) t \<Longrightarrow> posix_same s t"
  by (simp add: posix_same_def fd_inode_def fun_eq_iff)

lemma sys_write_same: "posix_same s (snd (sys_write s fd bs))"
  by (auto simp: sys_write_def Let_def intro!: posix_same_inodes2 [OF posix_same_set] split: option.splits)

lemma sys_read_same: "posix_same s (snd (sys_read s fd n))"
  by (auto simp: sys_read_def Let_def intro: posix_same_set split: option.splits)

lemma dm_write_page_same:
  "\<exists>s. snd (dm_write_page d fd p bs) = d\<lparr>os := s\<rparr> \<and> posix_same (os d) s"
proof -
  obtain b s where l: "sys_lseek (os d) fd (page_offset p) = (b, s)" by (cases "sys_lseek (os d) fd (page_offset p)")
  obtain n s' where w: "sys_write s fd bs = (n, s')" by (cases "sys_write s fd bs")
  have "posix_same (os d) s" "posix_same s s'"
    using sys_lseek_same [of "os d" fd "page_offset p"] sys_write_same [of s fd bs] l w by simp_all
  then show ?thesis
    using posix_same_trans by (auto simp: dm_write_page_def l w split: bool.splits)
qed

lemma dm_read_page_same:
  "\<exists>s. snd (snd (dm_read_page d fd p buf n)) = d\<lparr>os := s\<rparr> \<and> posix_same (os d) s"
proof -
  obtain b s where l: "sys_lseek (os d) fd (page_offset p) = (b, s)" by (cases "sys_lseek (os d) fd (page_offset p)")
  obtain bs s' where w: "sys_read s fd n = (bs, s')" by (cases "sys_read s fd n")
  have "posix_same (os d) s" "posix_same s s'"
    using sys_lseek_same [of "os d" fd "page_offset p"] sys_read_same [of s fd n] l w by simp_all
  then show ?thesis
    using posix_same_trans by (auto simp: dm_read_page_def l w split: bool.splits)
qed

lemma dm_inv_write_page: "dm_inv d \<Longrightarrow> dm_inv (snd (dm_write_page d fd p bs))"
  using dm_write_page_same [of d fd p bs] dm_inv_same by auto

lemma dm_inv_read_page: "dm_inv d \<Longrightarrow> dm_inv (snd (snd (dm_read_page d fd p buf n)))"
  using dm_read_page_same [of d fd p buf n] dm_inv_same by auto

lemma dm_inv_log_fields [simp]:
  "dm_inv (d\<lparr>log_fd := x\<rparr>) = dm_inv d" "dm_inv (d\<lparr>restart_fd := x\<rparr>) = dm_inv d"
  "dm_inv (d\<lparr>fd2pageno := m\<rparr>) = dm_inv d"
  by (simp_all add: dm_inv_def)

lemma dm_inv_open_file:
  assumes inv: "dm_inv d"
  shows "dm_inv (snd (dm_open_file d path))"
proof (cases "path2fd d path = None \<and> names (os d) path \<noteq> None")
  case False
  then show ?thesis using inv by (auto simp: dm_open_file_def sys_open_def)
next
  case True
  then obtain ino where ino: "names (os d) path = Some ino" by blast
  obtain fd s where al: "fd_alloc (os d) ino = (fd, s)" by (cases "fd_alloc (os d) ino")
  note a = fd_alloc_props [OF al]
  let ?d = "d\<lparr>os := s, path2fd := (path2fd d)(path \<mapsto> fd), fd2path := (fd2path d)(fd \<mapsto> path)\<rparr>"
  have res: "snd (dm_open_file d path) = ?d"
    using True by (simp add: dm_open_file_def sys_open_def ino al)
  have inode: "fd_inode s x = (if x = fd then Some ino else fd_inode (os d) x)" for x
    by (simp add: fd_inode_def a(3))
  have fresh: "fd2path d fd = None"
    using dm_inv_open [OF inv, of fd] a(1) by (cases "fd2path d fd") auto
  have nofd: "path2fd d q \<noteq> Some fd" for q
    using dm_inv_tables [OF inv] fresh by simp
  have nolist: "fd2path d x \<noteq> Some path" for x
    using dm_inv_tables [OF inv, of path x] True by auto
  have noino: "fd_inode (os d) x \<noteq> Some ino" for x
    using dm_inv_listed [OF inv _ ino, of x] True by auto
  have "dm_inv ?d"
  proof (rule dm_invI, goal_cases)
    case (1 p x)
    show ?case using dm_inv_tables [OF inv, of p x] nofd nolist by auto
  next
    case (2 x p)
    then show ?case using dm_inv_open [OF inv] by (auto simp: a(3) split: if_splits)
  next
    case (3 p i)
    then show ?case using dm_inv_names [OF inv] by (simp add: a)
  next
    case (4 p q i)
    then show ?case using dm_inv_names_inj [OF inv] by (simp add: a)
  next
    case (5 x i)
    then show ?case using dm_inv_inode [OF inv] dm_inv_names [OF inv ino]
      by (auto simp: inode a split: if_splits)
  next
    case (6 x y i)
    then show ?case using dm_inv_inode_inj [OF inv] noino by (auto simp: inode split: if_splits)
  next
    case (7 x p i)
    show ?case
    proof (cases "x = fd")
      case True
      with 7 have "i = ino" by (simp add: inode)
      with 7 dm_inv_names_inj [OF inv ino, of p] True show ?thesis by (simp add: a)
    next
      case False
      with 7 have i: "fd_inode (os d) x = Some i" "names (os d) p = Some i" by (simp_all add: inode a)
      with noino ino have "p \<noteq> path" by auto
      with dm_inv_listed [OF inv i] show ?thesis by simp
    qed
  qed
  then show ?thesis by (simp add: res)
qed

lemma dm_inv_close_file:
  assumes inv: "dm_inv d"
  shows "dm_inv (snd (dm_close_file d fd))"
proof (cases "fd2path d fd")
  case None
  then show ?thesis using inv by (simp add: dm_close_file_def)
next
  case (Some path)
  obtain f where f: "fd_get (os d) fd = Some f" using dm_inv_open [OF inv Some] by blast
  let ?s = "fd_set (os d) fd None"
  let ?d = "d\<lparr>os := ?s, path2fd := (path2fd d)(path := None), fd2path := (fd2path d)(fd := None)\<rparr>"
  have res: "snd (dm_close_file d fd) = ?d"
    by (simp add: dm_close_file_def Some sys_close_def f)
  have inode: "fd_inode ?s x = (if x = fd then None else fd_inode (os d) x)" for x
    using f by (simp add: fd_inode_def)
  have tab: "path2fd d q = Some fd \<longleftrightarrow> q = path" for q
    using dm_inv_tables [OF inv, of q fd] Some by auto
  have tab2: "fd2path d x = Some path \<longleftrightarrow> x = fd" for x
    using dm_inv_tables [OF inv, of path x] tab [of path] by auto
  have "dm_inv ?d"
  proof (rule dm_invI, goal_cases)
    case (1 p x)
    show ?case using dm_inv_tables [OF inv, of p x] tab [of p] tab2 [of x] by auto
  next
    case (2 x p)
    then show ?case using dm_inv_open [OF inv] f by (auto split: if_splits)
  next
    case (3 p i)
    then show ?case using dm_inv_names [OF inv] by simp
  next
    case (4 p q i)
    then show ?case using dm_inv_names_inj [OF inv] by simp
  next
    case (5 x i)
    then show ?case using dm_inv_inode [OF inv] by (auto simp: inode split: if_splits)
  next
    case (6 x y i)
    then show ?case using dm_inv_inode_inj [OF inv] by (auto simp: inode split: if_splits)
  next
    case (7 x p i)
    then have "path2fd d p = Some x" "x \<noteq> fd"
      using dm_inv_listed [OF inv] by (auto simp: inode split: if_splits)
    then show ?case using tab [of path] by auto
  qed
  then show ?thesis by (simp add: res)
qed

lemma dm_inv_destroy_file: "dm_inv d \<Longrightarrow> dm_inv (snd (dm_destroy_file d path))"
proof (cases "names (os d) path")
  case (Some ino)
  assume inv: "dm_inv d"
  let ?d = "d\<lparr>os := (os d)\<lparr>names := (names (os d))(path := None)\<rparr>\<rparr>"
  have "dm_inv ?d"
    using dm_invD [OF inv] by (intro dm_invI) (auto split: if_splits)
  then show ?thesis by (simp add: dm_destroy_file_def sys_unlink_def Some)
qed (simp add: dm_destroy_file_def sys_unlink_def)

lemma dm_inv_create_file: "dm_inv d \<Longrightarrow> dm_inv (snd (dm_create_file d path))"
proof (cases "names (os d) path")
  case None
  assume inv: "dm_inv d"
  let ?n = "next_inode (os d)"
  let ?s1 = "(os d)\<lparr>names := (names (os d))(path \<mapsto> ?n), inodes := (inodes (os d))(?n := []),
                 next_inode := Suc ?n\<rparr>"
  obtain fd s where al: "fd_alloc ?s1 ?n = (fd, s)" by (cases "fd_alloc ?s1 ?n")
  note a = fd_alloc_props [OF al]
  have res: "snd (dm_create_file d path) = d\<lparr>os := fd_set s fd None\<rparr>"
    using None a(3) [of fd]
    by (simp add: dm_create_file_def dm_is_file_def sys_open_def Let_def al sys_close_def)
  have get: "fd_get (fd_set s fd None) x = fd_get (os d) x" for x
    using a(1) a(3) [of x] a(3) [of fd] by auto
  then have inode: "fd_inode (fd_set s fd None) x = fd_inode (os d) x" for x
    by (simp add: fd_inode_def)
  have old: "fd_inode (os d) x \<noteq> Some ?n" "names (os d) p \<noteq> Some ?n" for x p
    using dm_inv_inode [OF inv, of x ?n] dm_inv_names [OF inv, of p ?n] by auto
  have "dm_inv (d\<lparr>os := fd_set s fd None\<rparr>)"
  proof (rule dm_invI, goal_cases)
    case (1 p x)
    show ?case using dm_inv_tables [OF inv, of p x] by simp
  next
    case (2 x p)
    then show ?case using dm_inv_open [OF inv] by (simp add: get)
  next
    case (3 p i)
    then show ?case using dm_inv_names [OF inv] by (auto simp: a less_Suc_eq split: if_splits)
  next
    case (4 p q i)
    then show ?case using dm_inv_names_inj [OF inv] old by (auto simp: a split: if_splits)
  next
    case (5 x i)
    then show ?case using dm_inv_inode [OF inv] by (auto simp: a inode less_Suc_eq)
  next
    case (6 x y i)
    then show ?case using dm_inv_inode_inj [OF inv] by (simp add: inode)
  next
    case (7 x p i)
    then show ?case using dm_inv_listed [OF inv] old by (auto simp: a inode split: if_splits)
  qed
  then show ?thesis by (simp add: res)
qed (simp add: dm_create_file_def dm_is_file_def)

lemmas dm_inv_ops = dm_inv_new dm_inv_open_file dm_inv_close_file dm_inv_create_file
  dm_inv_destroy_file dm_inv_write_page dm_inv_read_page

section \<open>Page contents on disk\<close>

definition dm_file :: "disk_manager \<Rightarrow> int \<Rightarrow> bytes option" where
  "dm_file d fd = map_option (inodes (os d)) (fd_inode (os d) fd)"

definition dm_page :: "disk_manager \<Rightarrow> int \<Rightarrow> int \<Rightarrow> bytes option" where
  "dm_page d fd p =
     (case dm_file d fd of
        None \<Rightarrow> None
      | Some c \<Rightarrow> if 0 \<le> p \<and> nat p * PAGE_SIZE + PAGE_SIZE \<le> length c
                  then Some (mem_read c (nat p * PAGE_SIZE) PAGE_SIZE) else None)"

text \<open>
  A page address the disk manager can serve: the descriptor is open, the \<^verbatim>\<open>int\<close> product of
  the offset does not wrap, and \<open>n\<close> bytes from there stay below the file-size limit.
\<close>

definition addr_ok :: "disk_manager \<Rightarrow> int \<Rightarrow> int \<Rightarrow> nat \<Rightarrow> bool" where
  "addr_ok d fd p n \<longleftrightarrow> fd_inode (os d) fd \<noteq> None \<and> 0 \<le> p \<and> p < 2 ^ 19 \<and>
     nat p * PAGE_SIZE + n \<le> max_bytes (os d)"

lemma page_offset_small: "0 \<le> p \<Longrightarrow> p < 2 ^ 19 \<Longrightarrow> page_offset p = int (nat p * PAGE_SIZE)"
  by (simp add: page_offset_def PAGE_SIZE_def wrap32_id int_range_def)

lemma length_file_store:
  "bs \<noteq> [] \<Longrightarrow> length (file_store c off bs) = max (length c) (off + length bs)"
  by (simp add: file_store_def mem_write_def)

lemma file_store_read_same:
  "bs \<noteq> [] \<Longrightarrow> mem_read (file_store c off bs) off (length bs) = bs"
  by (simp add: file_store_def mem_read_write_same)

lemma mem_read_append: "off + n \<le> length xs \<Longrightarrow> mem_read (xs @ ys) off n = mem_read xs off n"
  by (simp add: mem_read_def)

lemma file_store_read_other:
  assumes "off' + n \<le> length c" and "off' + n \<le> off \<or> off + length bs \<le> off'"
  shows "mem_read (file_store c off bs) off' n = mem_read c off' n"
proof (cases "bs = []")
  case False
  let ?c = "c @ replicate (off + length bs - length c) 0"
  have "off + length bs \<le> length ?c" by simp
  then have "mem_read (mem_write ?c off bs) off' n = mem_read ?c off' n"
    using assms(2) by (auto intro: mem_read_write_before mem_read_write_after)
  with False assms(1) show ?thesis by (simp add: file_store_def mem_read_append)
qed (simp add: file_store_def)

lemma dm_write_page_ok:
  assumes "addr_ok d fd p (length bs)" and "fd_inode (os d) fd = Some ino"
  obtains s where "dm_write_page d fd p bs = (Inr (), d\<lparr>os := s\<rparr>)" and "posix_same (os d) s"
    and "inodes s = (inodes (os d))(ino := file_store (inodes (os d) ino) (nat p * PAGE_SIZE) bs)"
proof -
  obtain f where f: "fd_get (os d) fd = Some f" "of_inode f = ino"
    using assms(2) by (auto simp: fd_inode_def)
  have off: "page_offset p = int (nat p * PAGE_SIZE)"
    using assms(1) by (simp add: addr_ok_def page_offset_small)
  have n: "min (length bs) (max_bytes (os d) - nat p * PAGE_SIZE) = length bs"
    using assms(1) by (auto simp: addr_ok_def)
  define s1 where "s1 = fd_set (os d) fd (Some (f\<lparr>of_offset := nat p * PAGE_SIZE\<rparr>))"
  have l: "sys_lseek (os d) fd (page_offset p) = (True, s1)"
    by (simp add: sys_lseek_def f off s1_def del: of_nat_mult)
  have g1: "fd_get s1 fd = Some (f\<lparr>of_offset := nat p * PAGE_SIZE\<rparr>)"
    using f by (simp add: s1_def)
  obtain s2 where w: "sys_write s1 fd bs = (int (length bs), s2)"
    and c: "inodes s2 = (inodes (os d))(ino := file_store (inodes (os d) ino) (nat p * PAGE_SIZE) bs)"
    using n f(2) by (simp add: sys_write_def g1 Let_def) (simp add: s1_def)
  have "posix_same (os d) s2"
    using posix_same_trans [of "os d" s1 s2] sys_lseek_same [of "os d" fd "page_offset p"]
      sys_write_same [of s1 fd bs] by (simp add: l w)
  then show ?thesis using that c by (simp add: dm_write_page_def l w)
qed

lemma dm_read_page_ok:
  assumes "dm_page d fd p = Some c" and "p < 2 ^ 19" and "length buf = PAGE_SIZE"
  obtains s where "dm_read_page d fd p buf PAGE_SIZE = (c, Inr (), d\<lparr>os := s\<rparr>)"
    and "posix_same (os d) s" and "inodes s = inodes (os d)"
proof -
  obtain f where f: "fd_get (os d) fd = Some f"
    using assms(1) by (auto simp: dm_page_def dm_file_def fd_inode_def split: option.splits)
  have c: "c = mem_read (inodes (os d) (of_inode f)) (nat p * PAGE_SIZE) PAGE_SIZE"
    and len: "nat p * PAGE_SIZE + PAGE_SIZE \<le> length (inodes (os d) (of_inode f))" and p: "0 \<le> p"
    using assms(1) by (auto simp: dm_page_def dm_file_def fd_inode_def f split: if_splits)
  have off: "page_offset p = int (nat p * PAGE_SIZE)"
    using p assms(2) by (rule page_offset_small)
  define s1 where "s1 = fd_set (os d) fd (Some (f\<lparr>of_offset := nat p * PAGE_SIZE\<rparr>))"
  have l: "sys_lseek (os d) fd (page_offset p) = (True, s1)"
    by (simp add: sys_lseek_def f off s1_def del: of_nat_mult)
  have g1: "fd_get s1 fd = Some (f\<lparr>of_offset := nat p * PAGE_SIZE\<rparr>)"
    using f by (simp add: s1_def)
  obtain s2 where r: "sys_read s1 fd PAGE_SIZE = (c, s2)" and i: "inodes s2 = inodes (os d)"
    by (simp add: sys_read_def g1 Let_def c mem_read_def) (simp add: s1_def)
  have "posix_same (os d) s2"
    using posix_same_trans [of "os d" s1 s2] sys_lseek_same [of "os d" fd "page_offset p"]
      sys_read_same [of s1 fd PAGE_SIZE] by (simp add: l r)
  moreover have "length c = PAGE_SIZE" using len by (simp add: c length_mem_read)
  ultimately show ?thesis
    using that i assms(3) by (simp add: dm_read_page_def l r mem_write_all)
qed

text \<open>Reading never changes a file, whatever it returns.\<close>

lemma dm_read_page_inodes: "inodes (os (snd (snd (dm_read_page d fd p buf n)))) = inodes (os d)"
  by (auto simp: dm_read_page_def sys_lseek_def sys_read_def Let_def
      split: prod.splits bool.splits option.splits if_splits)

lemma dm_page_same:
  "posix_same (os d) s \<Longrightarrow> inodes s = inodes (os d) \<Longrightarrow> dm_page (d\<lparr>os := s\<rparr>) = dm_page d"
  by (intro ext) (simp add: dm_page_def dm_file_def posix_same_def)

lemma addr_ok_same: "posix_same (os d) s \<Longrightarrow> addr_ok (d\<lparr>os := s\<rparr>) = addr_ok d"
  by (intro ext) (simp add: addr_ok_def posix_same_def)

text \<open>A full-page write is read back, and no other page of any file changes.\<close>

lemma dm_write_page_dm_page:
  assumes inv: "dm_inv d" and ok: "addr_ok d fd p PAGE_SIZE" and len: "length bs = PAGE_SIZE"
  obtains d' where "dm_write_page d fd p bs = (Inr (), d')"
    and "dm_page d' fd p = Some bs"
    and "\<And>fd' p' c. (fd', p') \<noteq> (fd, p) \<Longrightarrow> dm_page d fd' p' = Some c \<Longrightarrow> dm_page d' fd' p' = Some c"
    and "posix_same (os d) (os d')" and "d' = d\<lparr>os := os d'\<rparr>"
proof -
  obtain ino where ino: "fd_inode (os d) fd = Some ino" using ok by (auto simp: addr_ok_def)
  obtain s where w: "dm_write_page d fd p bs = (Inr (), d\<lparr>os := s\<rparr>)"
    and same: "posix_same (os d) s"
    and c: "inodes s = (inodes (os d))(ino := file_store (inodes (os d) ino) (nat p * PAGE_SIZE) bs)"
    using dm_write_page_ok [OF _ ino, of p bs] ok len by auto
  have fi: "fd_inode s = fd_inode (os d)" using same by (simp add: posix_same_def)
  have ne: "bs \<noteq> []" using len by (auto simp: PAGE_SIZE_def)
  have p: "0 \<le> p" using ok by (simp add: addr_ok_def)
  have same_page: "dm_page (d\<lparr>os := s\<rparr>) fd p = Some bs"
    using p len file_store_read_same [OF ne, of "inodes (os d) ino" "nat p * PAGE_SIZE"]
    by (simp add: dm_page_def dm_file_def fi ino c length_file_store [OF ne])
  have other: "dm_page (d\<lparr>os := s\<rparr>) fd' p' = Some b"
    if neq: "(fd', p') \<noteq> (fd, p)" and b: "dm_page d fd' p' = Some b" for fd' p' b
  proof (cases "fd' = fd")
    case False
    then have "fd_inode (os d) fd' \<noteq> Some ino"
      using dm_inv_inode_inj [OF inv ino] by blast
    then show ?thesis
      using b by (auto simp: dm_page_def dm_file_def fi c split: option.splits if_splits)
  next
    case True
    let ?off = "nat p * PAGE_SIZE" and ?off' = "nat p' * PAGE_SIZE"
    have p': "0 \<le> p'" "?off' + PAGE_SIZE \<le> length (inodes (os d) ino)"
      and b': "b = mem_read (inodes (os d) ino) ?off' PAGE_SIZE"
      using b by (auto simp: True dm_page_def dm_file_def ino split: if_splits)
    have "nat p \<noteq> nat p'" using neq True p p'(1) by auto
    then have "Suc (nat p') \<le> nat p \<or> Suc (nat p) \<le> nat p'" by auto
    then have "Suc (nat p') * PAGE_SIZE \<le> ?off \<or> Suc (nat p) * PAGE_SIZE \<le> ?off'"
      using mult_le_mono1 by blast
    then have "?off' + PAGE_SIZE \<le> ?off \<or> ?off + length bs \<le> ?off'"
      using len by (simp add: algebra_simps)
    from file_store_read_other [OF p'(2) this]
    show ?thesis
      using p' by (simp add: True dm_page_def dm_file_def fi ino c b' length_file_store [OF ne])
  qed
  show ?thesis by (rule that [OF w same_page other]) (use same in simp_all)
qed

section \<open>Properties\<close>

lemma page_offset_alias: "page_offset (p + 2 ^ 20) = page_offset p"
proof -
  have "((p + 2 ^ 20) * 4096 + 2 ^ 31) mod 2 ^ 32 = ((p * 4096 + 2 ^ 31) + 2 ^ 32) mod (2 ^ 32 :: int)"
    by (simp add: algebra_simps)
  also have "\<dots> = (p * 4096 + 2 ^ 31) mod 2 ^ 32" by (rule mod_add_self2)
  finally show ?thesis by (simp add: page_offset_def wrap32_def PAGE_SIZE_def)
qed

lemma page_offset_negative:
  assumes "2 ^ 19 \<le> p" and "p < 2 ^ 20"
  shows "page_offset p < 0"
proof -
  have "(p * 4096 + 2 ^ 31) mod 2 ^ 32 = (p * 4096 + 2 ^ 31 - 2 ^ 32) mod (2 ^ 32 :: int)"
    using mod_add_self2 [of "p * 4096 + 2 ^ 31 - 2 ^ 32" "2 ^ 32 :: int"] by (simp add: add.commute)
  also have "\<dots> = p * 4096 + 2 ^ 31 - 2 ^ 32" using assms by (intro mod_pos_pos_trivial) simp_all
  finally show ?thesis using assms by (simp add: page_offset_def wrap32_def PAGE_SIZE_def)
qed

text \<open>Files and descriptors as a state machine: any sequence of file operations.\<close>

inductive dm_step :: "disk_manager \<Rightarrow> disk_manager \<Rightarrow> bool" where
  "dm_step d (snd (dm_create_file d path))"
| "dm_step d (snd (dm_destroy_file d path))"
| "dm_step d (snd (dm_open_file d path))"
| "dm_step d (snd (dm_close_file d fd))"
| "dm_step d (snd (dm_write_page d fd p bs))"
| "dm_step d (snd (snd (dm_read_page d fd p buf n)))"
| "dm_step d (snd (dm_allocate_page d fd))"
| "dm_step d (dm_set_fd2pageno d fd start)"
| "dm_step d (snd (dm_write_log d bs))"
| "dm_step d (snd (dm_read_log d sz off))"
| "dm_step d (snd (dm_set_restart_log d off))"
| "dm_step d (snd (dm_get_restart_log d))"

lemma dm_inv_log_fd: "dm_inv d \<Longrightarrow> dm_inv (snd (dm_log_fd d))"
  using dm_inv_open_file [of d LOG_FILE_NAME]
  by (auto simp: dm_log_fd_def split: prod.splits sum.splits)

lemma dm_inv_restart_fd: "dm_inv d \<Longrightarrow> dm_inv (snd (dm_restart_fd d))"
  using dm_inv_open_file [of d RESTART_FILE_NAME]
  by (auto simp: dm_restart_fd_def split: prod.splits sum.splits)

lemma dm_inv_os: "dm_inv d \<Longrightarrow> posix_same (os d) s1 \<Longrightarrow> posix_same s1 s \<Longrightarrow> dm_inv (d\<lparr>os := s\<rparr>)"
  using dm_inv_same posix_same_trans by blast

lemma dm_inv_write_log:
  assumes "dm_inv d" shows "dm_inv (snd (dm_write_log d bs))"
proof (cases "dm_log_fd d")
  case (Pair r d1)
  have i: "dm_inv d1" using dm_inv_log_fd [OF assms] Pair by simp
  show ?thesis
  proof (cases r)
    case (Inr fd)
    let ?s = "snd (sys_lseek_end (os d1) fd)"
    have "dm_inv (d1\<lparr>os := snd (sys_write ?s fd bs)\<rparr>)"
      by (rule dm_inv_os [OF i sys_lseek_end_same sys_write_same])
    then show ?thesis by (cases "sys_write ?s fd bs") (simp add: dm_write_log_def Pair Inr)
  qed (use i in \<open>simp add: dm_write_log_def Pair\<close>)
qed

lemma dm_inv_read_log:
  assumes "dm_inv d" shows "dm_inv (snd (dm_read_log d sz off))"
proof (cases "dm_log_fd d")
  case (Pair r d1)
  have i: "dm_inv d1" using dm_inv_log_fd [OF assms] Pair by simp
  show ?thesis
  proof (cases r)
    case (Inr fd)
    have "dm_inv (d1\<lparr>os := snd (sys_read (snd (sys_lseek (os d1) fd off)) fd n)\<rparr>)" for n
      by (rule dm_inv_os [OF i sys_lseek_same sys_read_same])
    then show ?thesis using i by (auto simp: dm_read_log_def Pair Inr Let_def split: prod.splits) (metis snd_conv)+
  qed (use i in \<open>simp add: dm_read_log_def Pair\<close>)
qed

lemma dm_inv_set_restart_log:
  assumes "dm_inv d" shows "dm_inv (snd (dm_set_restart_log d off))"
proof (cases "dm_restart_fd d")
  case (Pair r d1)
  have i: "dm_inv d1" using dm_inv_restart_fd [OF assms] Pair by simp
  show ?thesis
  proof (cases r)
    case (Inr fd)
    have "dm_inv (d1\<lparr>os := snd (sys_write (snd (sys_lseek (os d1) fd 0)) fd (enc_int off))\<rparr>)"
      by (rule dm_inv_os [OF i sys_lseek_same sys_write_same])
    then show ?thesis by (simp add: dm_set_restart_log_def Pair Inr)
  qed (use i in \<open>simp add: dm_set_restart_log_def Pair\<close>)
qed

lemma dm_inv_get_restart_log:
  assumes "dm_inv d" shows "dm_inv (snd (dm_get_restart_log d))"
proof (cases "dm_restart_fd d")
  case (Pair r d1)
  have i: "dm_inv d1" using dm_inv_restart_fd [OF assms] Pair by simp
  show ?thesis
  proof (cases r)
    case (Inr fd)
    let ?s = "snd (sys_lseek (os d1) fd 0)"
    have "dm_inv (d1\<lparr>os := snd (sys_read ?s fd 4)\<rparr>)" "dm_inv (d1\<lparr>os := ?s\<rparr>)"
      using dm_inv_os [OF i sys_lseek_same sys_read_same] dm_inv_same [OF sys_lseek_same i] by simp_all
    then show ?thesis by (cases "sys_read ?s fd 4") (auto simp: dm_get_restart_log_def Pair Inr Let_def)
  qed (use i in \<open>simp add: dm_get_restart_log_def Pair\<close>)
qed

lemma dm_step_inv: "dm_step d d' \<Longrightarrow> dm_inv d \<Longrightarrow> dm_inv d'"
  by (induction rule: dm_step.induct)
    (simp_all add: dm_inv_ops dm_inv_write_log dm_inv_read_log dm_inv_set_restart_log dm_inv_get_restart_log,
     simp_all add: dm_allocate_page_def dm_set_fd2pageno_def)

text \<open>
  C24. Whatever files are created, destroyed, opened, closed, written and read, also when a call
  fails, the path and descriptor tables stay inverse to each other, list open descriptors
  only, and no file is open under two descriptors.
\<close>

theorem dm_reachable_inv: "rtranclp dm_step (dm_new (posix_init cap)) d \<Longrightarrow> dm_inv d"
  by (induction rule: rtranclp_induct) (simp_all add: dm_step_inv)

theorem dm_reachable_inv_witness: "dm_inv (snd (dm_create_file (dm_new (posix_init 10)) ''a''))"
  by (rule dm_reachable_inv, rule r_into_rtranclp, rule dm_step.intros(1))

text \<open>
  A full page written to an address the manager can serve is the page read back
  afterwards, and every other page of every open file still reads as before.
\<close>

theorem dm_page_roundtrip:
  assumes "dm_inv d" and "addr_ok d fd p PAGE_SIZE" and "length bs = PAGE_SIZE" and "length buf = PAGE_SIZE"
  shows "\<exists>d'. dm_write_page d fd p bs = (Inr (), d') \<and>
           fst (dm_read_page d' fd p buf PAGE_SIZE) = bs \<and> fst (snd (dm_read_page d' fd p buf PAGE_SIZE)) = Inr () \<and>
           (\<forall>fd' p' c. (fd', p') \<noteq> (fd, p) \<longrightarrow> dm_page d fd' p' = Some c \<longrightarrow> dm_page d' fd' p' = Some c)"
proof -
  obtain d' where d': "dm_write_page d fd p bs = (Inr (), d')" "dm_page d' fd p = Some bs"
    "\<And>fd' p' c. (fd', p') \<noteq> (fd, p) \<Longrightarrow> dm_page d fd' p' = Some c \<Longrightarrow> dm_page d' fd' p' = Some c"
    by (rule dm_write_page_dm_page [OF assms(1-3)]) blast
  have "p < 2 ^ 19" using assms(2) by (simp add: addr_ok_def)
  from dm_read_page_ok [OF d'(2) this assms(4)] obtain s
    where "dm_read_page d' fd p buf PAGE_SIZE = (bs, Inr (), d'\<lparr>os := s\<rparr>)" by blast
  with d' show ?thesis by simp
qed

text \<open>A file \<^verbatim>\<open>t\<close> of \<open>n\<close> zero pages, open under descriptor 3.\<close>

definition sample_disk :: "nat \<Rightarrow> disk_manager" where
  "sample_disk n =
     \<lparr>path2fd = [''t'' \<mapsto> 3], fd2path = [3 \<mapsto> ''t''], log_fd = - 1, restart_fd = - 1,
      fd2pageno = (\<lambda>_. 0)(3 := int n),
      os = \<lparr>names = [''t'' \<mapsto> 3], inodes = (\<lambda>_. [])(3 := replicate (n * PAGE_SIZE) 0),
            fds = map (\<lambda>i. Some \<lparr>of_inode = i, of_offset = 0\<rparr>) [0, 1, 2, 3], next_inode = 4,
            max_bytes = 1000000\<rparr>\<rparr>"

lemma sample_fd: "fd_inode (os (sample_disk n)) fd = (if fd \<in> {0, 1, 2, 3} then Some (nat fd) else None)"
  by (auto simp: fd_inode_def fd_get_def sample_disk_def nth_Cons split: nat.splits)

lemma sample_dm_inv [simp]: "dm_inv (sample_disk n)"
proof (rule dm_invI)
  show "fd_get (os (sample_disk n)) fd \<noteq> None" if "fd2path (sample_disk n) fd = Some p" for fd p
    using that sample_fd [of n fd] by (auto simp: sample_disk_def fd_inode_def split: if_splits)
qed (auto simp: sample_fd, auto simp: sample_disk_def split: if_splits)

lemma sample_addr: "0 \<le> p \<Longrightarrow> p < 200 \<Longrightarrow> addr_ok (sample_disk n) 3 p PAGE_SIZE"
  by (simp add: addr_ok_def sample_fd) (simp add: sample_disk_def PAGE_SIZE_def)

lemma sample_page: "0 \<le> p \<Longrightarrow> p < int n \<Longrightarrow> dm_page (sample_disk n) 3 p = Some (replicate PAGE_SIZE 0)"
proof -
  assume p: "0 \<le> p" "p < int n"
  then have "Suc (nat p) * PAGE_SIZE \<le> n * PAGE_SIZE" by (intro mult_le_mono1) simp
  with p show ?thesis
    by (auto simp: dm_page_def dm_file_def sample_fd mem_read_def)
       (auto simp: sample_disk_def mem_read_def min_def algebra_simps)
qed

theorem dm_page_roundtrip_witness:
  "\<exists>d'. dm_write_page (sample_disk 2) 3 1 (replicate PAGE_SIZE 7) = (Inr (), d') \<and>
     fst (dm_read_page d' 3 1 (replicate PAGE_SIZE 0) PAGE_SIZE) = replicate PAGE_SIZE 7 \<and>
     dm_page d' 3 0 = Some (replicate PAGE_SIZE 0)"
  using dm_page_roundtrip [OF sample_dm_inv sample_addr, of 1 "replicate PAGE_SIZE 7" "replicate PAGE_SIZE 0" 2]
    sample_page [of 0 2] by fastforce

text \<open>
  C25. The byte offset is an \<^verbatim>\<open>int\<close> product: page numbers \<open>2^20\<close> apart address the same bytes, so
  that a write to one page overwrites the other, and every page number from \<open>2^19\<close> up to
  \<open>2^20\<close> (the first ones beyond 2 GiB) is refused with \<^verbatim>\<open>InternalError\<close>.
\<close>

theorem dm_page_address_wraps:
  "dm_write_page d fd (p + 2 ^ 20) bs = dm_write_page d fd p bs \<and>
   (2 ^ 19 \<le> p \<and> p < 2 ^ 20 \<longrightarrow>
      dm_write_page d fd p bs = (Inl (InternalError ''Failed to seek to page location''), d))"
proof -
  have "dm_write_page d fd (p + 2 ^ 20) bs = dm_write_page d fd p bs"
    unfolding dm_write_page_def page_offset_alias ..
  then show ?thesis
    using page_offset_negative [of p] by (auto simp: dm_write_page_def sys_lseek_def split: option.splits)
qed

theorem dm_page_address_wraps_witness:
  "fst (dm_write_page (sample_disk 1) 3 (2 ^ 19) []) = Inl (InternalError ''Failed to seek to page location'')"
  using dm_page_address_wraps [of "sample_disk 1" 3 "2 ^ 19" "[]"] by simp

end
