(* ===== verification/Buffer_Pool.thy ===== *)
theory Buffer_Pool
  imports Lru_Replacer Disk_Manager
begin

text \<open>
  The buffer pool manager (\<^verbatim>\<open>src/src/storage/buffer_pool_manager.cpp\<close>, \<^verbatim>\<open>page.h\<close>): an array of
  frames, the page table, the free list, the LRU replacer and the disk manager it sits on. A
  \<^verbatim>\<open>Page *\<close> handed to a client is the number of its frame. Every public operation runs under the
  pool latch, so an operation is one atomic step.

  The lemmas show that the pool implements a store of pages: \<open>bpm_view\<close> is the content a client
  sees for a page identifier, wherever it lives, and the operations change it only as the
  client asks.
\<close>

section \<open>State\<close>

record page_id =
  pfd :: int
  ppage :: int

definition mk_pid :: "int \<Rightarrow> int \<Rightarrow> page_id" where
  "mk_pid fd p = \<lparr>pfd = fd, ppage = p\<rparr>"

lemma mk_pid_sel [simp]: "pfd (mk_pid fd p) = fd" "ppage (mk_pid fd p) = p"
  by (simp_all add: mk_pid_def)

lemma mk_pid_inject [simp]: "mk_pid fd p = mk_pid fd' p' \<longleftrightarrow> fd = fd' \<and> p = p'"
  by (simp add: mk_pid_def)

lemma mk_pid_eta [simp]: "mk_pid (pfd q) (ppage q) = q"
  by (simp add: mk_pid_def)

lemma page_id_eqI: "pfd q = pfd q' \<Longrightarrow> ppage q = ppage q' \<Longrightarrow> q = (q' :: page_id)"
  by (cases q; cases q') simp

text \<open>\<^verbatim>\<open>PageId::operator<\<close> of \<^verbatim>\<open>page.h\<close>, as written there.\<close>

definition page_id_less :: "page_id \<Rightarrow> page_id \<Rightarrow> bool" where
  "page_id_less a b = (if pfd a < pfd b then True else ppage a < ppage b)"

record page =
  pg_id :: page_id
  pg_data :: bytes
  is_dirty :: bool
  pin_count :: int

record bpm =
  pages :: "page list"
  page_table :: "page_id \<rightharpoonup> frame_id"
  free_list :: "frame_id list"
  disk :: disk_manager
  repl :: lru

definition zero_page :: bytes where "zero_page = replicate PAGE_SIZE 0"

lemma length_zero_page [simp]: "length zero_page = PAGE_SIZE"
  by (simp add: zero_page_def)

text \<open>
  The constructor. A fresh \<^verbatim>\<open>Page\<close> has page number -1 and an uninitialised descriptor in its
  identifier, which is the parameter \<open>junk\<close>.
\<close>

definition bpm_new :: "nat \<Rightarrow> int \<Rightarrow> disk_manager \<Rightarrow> bpm" where
  "bpm_new pool_size junk d =
     \<lparr>pages = replicate pool_size
         \<lparr>pg_id = mk_pid junk INVALID_PAGE_ID, pg_data = zero_page, is_dirty = False, pin_count = 0\<rparr>,
      page_table = Map.empty, free_list = [0..<pool_size], disk = d, repl = lru_new pool_size\<rparr>"

definition frame :: "bpm \<Rightarrow> frame_id \<Rightarrow> page" where
  "frame s f = pages s ! f"

definition upd_frame :: "bpm \<Rightarrow> frame_id \<Rightarrow> (page \<Rightarrow> page) \<Rightarrow> bpm" where
  "upd_frame s f g = s\<lparr>pages := (pages s)[f := g (pages s ! f)]\<rparr>"

section \<open>Operations\<close>

definition bpm_mark_dirty :: "bpm \<Rightarrow> frame_id \<Rightarrow> bpm" where
  "bpm_mark_dirty s f = upd_frame s f (is_dirty_update (\<lambda>_. True))"

text \<open>What a client does through its \<^verbatim>\<open>Page *\<close>: overwrite the data of the frame.\<close>

definition bpm_store :: "bpm \<Rightarrow> frame_id \<Rightarrow> bytes \<Rightarrow> bpm" where
  "bpm_store s f bs = upd_frame s f (pg_data_update (\<lambda>_. bs))"

definition find_victim_page :: "bpm \<Rightarrow> frame_id option \<times> bpm" where
  "find_victim_page s =
     (case free_list s of
        f # fs \<Rightarrow> (Some f, s\<lparr>free_list := fs\<rparr>)
      | [] \<Rightarrow>
          (case lru_victim (repl s) of
             (Some f, r) \<Rightarrow> (Some f, s\<lparr>repl := r, page_table := (page_table s)(pg_id (frame s f) := None)\<rparr>)
           | (None, r) \<Rightarrow> (None, s\<lparr>repl := r\<rparr>)))"

definition write_back :: "bpm \<Rightarrow> frame_id \<Rightarrow> page_id \<Rightarrow> (unit, bpm) outcome" where
  "write_back s f q =
     (case dm_write_page (disk s) (pfd q) (ppage q) (pg_data (frame s f)) of
        (Inl e, d) \<Rightarrow> (Inl e, s\<lparr>disk := d\<rparr>)
      | (Inr _, d) \<Rightarrow> (Inr (), upd_frame (s\<lparr>disk := d\<rparr>) f (is_dirty_update (\<lambda>_. False))))"

definition update_page :: "bpm \<Rightarrow> frame_id \<Rightarrow> page_id \<Rightarrow> (unit, bpm) outcome" where
  "update_page s f new_id =
     (case (if is_dirty (frame s f) then write_back s f (pg_id (frame s f)) else (Inr (), s)) of
        (Inl e, s1) \<Rightarrow> (Inl e, s1)
      | (Inr _, s1) \<Rightarrow>
          (Inr (), upd_frame
             (s1\<lparr>page_table := (page_table s1)(pg_id (frame s1 f) := None, new_id \<mapsto> f)\<rparr>) f
             (\<lambda>p. p\<lparr>pg_data := zero_page, pg_id := new_id\<rparr>)))"

definition pin_frame :: "bpm \<Rightarrow> frame_id \<Rightarrow> bpm" where
  "pin_frame s f = upd_frame (s\<lparr>repl := lru_pin (repl s) f\<rparr>) f (pin_count_update (\<lambda>_. 1))"

definition bpm_fetch_page :: "bpm \<Rightarrow> page_id \<Rightarrow> (frame_id option, bpm) outcome" where
  "bpm_fetch_page s q =
     (case page_table s q of
        Some f \<Rightarrow>
          (Inr (Some f), upd_frame (s\<lparr>repl := lru_pin (repl s) f\<rparr>) f (pin_count_update (\<lambda>c. c + 1)))
      | None \<Rightarrow>
          (case find_victim_page s of
             (None, s1) \<Rightarrow> (Inr None, s1)
           | (Some f, s1) \<Rightarrow>
               (case update_page s1 f q of
                  (Inl e, s2) \<Rightarrow> (Inl e, s2)
                | (Inr _, s2) \<Rightarrow>
                    (case dm_read_page (disk s2) (pfd q) (ppage q) (pg_data (frame s2 f)) PAGE_SIZE of
                       (buf, r, d) \<Rightarrow>
                         let s3 = upd_frame (s2\<lparr>disk := d\<rparr>) f (pg_data_update (\<lambda>_. buf))
                         in (case r of
                               Inl e \<Rightarrow> (Inl e, s3)
                             | Inr _ \<Rightarrow> (Inr (Some f), pin_frame s3 f))))))"

definition bpm_unpin_page :: "bpm \<Rightarrow> page_id \<Rightarrow> bool \<Rightarrow> bool \<times> bpm" where
  "bpm_unpin_page s q dirty =
     (case page_table s q of
        None \<Rightarrow> (False, s)
      | Some f \<Rightarrow>
          if pin_count (frame s f) \<le> 0 then (False, s)
          else let s1 = upd_frame s f (pin_count_update (\<lambda>c. c - 1));
                   s2 = (if pin_count (frame s1 f) = 0 then s1\<lparr>repl := lru_unpin (repl s1) f\<rparr> else s1)
               in (True, if is_dirty (frame s2 f) then s2
                         else upd_frame s2 f (is_dirty_update (\<lambda>_. dirty))))"

definition bpm_flush_page :: "bpm \<Rightarrow> page_id \<Rightarrow> (bool, bpm) outcome" where
  "bpm_flush_page s q =
     (case page_table s q of
        None \<Rightarrow> (Inr False, s)
      | Some f \<Rightarrow> (case write_back s f q of (Inl e, s') \<Rightarrow> (Inl e, s') | (Inr _, s') \<Rightarrow> (Inr True, s')))"

definition bpm_new_page :: "bpm \<Rightarrow> int \<Rightarrow> ((page_id \<times> frame_id) option, bpm) outcome" where
  "bpm_new_page s fd =
     (case find_victim_page s of
        (None, s1) \<Rightarrow> (Inr None, s1)
      | (Some f, s1) \<Rightarrow>
          (case dm_allocate_page (disk s1) fd of
             (Inl e, d) \<Rightarrow> (Inl e, s1\<lparr>disk := d\<rparr>)
           | (Inr p, d) \<Rightarrow>
               (case update_page (s1\<lparr>disk := d\<rparr>) f (mk_pid fd p) of
                  (Inl e, s2) \<Rightarrow> (Inl e, s2)
                | (Inr _, s2) \<Rightarrow> (Inr (Some (mk_pid fd p, f)), pin_frame s2 f))))"

text \<open>
  \<^verbatim>\<open>delete_page\<close> reads \<^verbatim>\<open>it->second\<close> after erasing the entry; the value it read before is
  taken here.
\<close>

definition release_frame :: "bpm \<Rightarrow> page_id \<Rightarrow> frame_id \<Rightarrow> bpm" where
  "release_frame s q f =
     upd_frame (s\<lparr>page_table := (page_table s)(q := None), free_list := free_list s @ [f]\<rparr>) f
       (pg_data_update (\<lambda>_. zero_page))"

definition bpm_delete_page :: "bpm \<Rightarrow> page_id \<Rightarrow> (bool, bpm) outcome" where
  "bpm_delete_page s q =
     (case page_table s q of
        None \<Rightarrow> (Inr True, s)
      | Some f \<Rightarrow>
          if pin_count (frame s f) \<noteq> 0 then (Inr False, s)
          else (case (if is_dirty (frame s f) then write_back s f q else (Inr (), s)) of
                  (Inl e, s1) \<Rightarrow> (Inl e, s1)
                | (Inr _, s1) \<Rightarrow> (Inr True, release_frame s1 q f)))"

text \<open>
  The loops over the page table visit the entries in the iteration order of the hash map,
  which is the argument \<open>ord\<close>: any enumeration of the mapped identifiers. The first loop
  condition of \<^verbatim>\<open>flush_all_pages(int)\<close> is \<open>sel\<close>; \<^verbatim>\<open>flush_all_pages()\<close> takes every dirty page.
\<close>

fun flush_loop :: "bpm \<Rightarrow> (page_id \<Rightarrow> bool) \<Rightarrow> page_id list \<Rightarrow> (unit, bpm) outcome" where
  "flush_loop s sel [] = (Inr (), s)"
| "flush_loop s sel (q # qs) =
     (case page_table s q of
        None \<Rightarrow> flush_loop s sel qs
      | Some f \<Rightarrow>
          if sel q \<and> is_dirty (frame s f)
          then (case write_back s f (pg_id (frame s f)) of
                  (Inl e, s') \<Rightarrow> (Inl e, s')
                | (Inr _, s') \<Rightarrow> flush_loop s' sel qs)
          else flush_loop s sel qs)"

definition bpm_flush_all_pages_fd :: "bpm \<Rightarrow> int \<Rightarrow> page_id list \<Rightarrow> (unit, bpm) outcome" where
  "bpm_flush_all_pages_fd s fd ord = flush_loop s (\<lambda>q. pfd q = fd) ord"

definition bpm_flush_all_pages :: "bpm \<Rightarrow> page_id list \<Rightarrow> (unit, bpm) outcome" where
  "bpm_flush_all_pages s ord = flush_loop s (\<lambda>_. True) ord"

fun delete_loop :: "bpm \<Rightarrow> int \<Rightarrow> page_id list \<Rightarrow> (bool, bpm) outcome" where
  "delete_loop s fd [] = (Inr True, s)"
| "delete_loop s fd (q # qs) =
     (case page_table s q of
        None \<Rightarrow> delete_loop s fd qs
      | Some f \<Rightarrow>
          if pfd q = fd then
            if pin_count (frame s f) \<noteq> 0 then (Inr False, s)
            else (case (if is_dirty (frame s f) then write_back s f (pg_id (frame s f)) else (Inr (), s)) of
                    (Inl e, s1) \<Rightarrow> (Inl e, s1)
                  | (Inr _, s1) \<Rightarrow> delete_loop (release_frame s1 q f) fd qs)
          else delete_loop s fd qs)"

definition bpm_delete_all_pages :: "bpm \<Rightarrow> int \<Rightarrow> page_id list \<Rightarrow> (bool, bpm) outcome" where
  "bpm_delete_all_pages s fd ord = delete_loop s fd ord"

section \<open>Invariant and view\<close>

definition bpm_view :: "bpm \<Rightarrow> page_id \<Rightarrow> bytes option" where
  "bpm_view s q =
     (case page_table s q of Some f \<Rightarrow> Some (pg_data (frame s f))
      | None \<Rightarrow> dm_page (disk s) (pfd q) (ppage q))"

definition frame_ok :: "bpm \<Rightarrow> frame_id \<Rightarrow> bool" where
  "frame_ok s f \<longleftrightarrow>
     (if f \<in> set (free_list s)
      then page_table s (pg_id (frame s f)) = None \<and> \<not> is_dirty (frame s f) \<and> pin_count (frame s f) = 0
      else page_table s (pg_id (frame s f)) = Some f \<and> 0 \<le> pin_count (frame s f) \<and>
           (f \<in> set (lru_frames (repl s)) \<longleftrightarrow> pin_count (frame s f) = 0) \<and>
           (pin_count (frame s f) = 0 \<and> \<not> is_dirty (frame s f) \<longrightarrow>
              dm_page (disk s) (pfd (pg_id (frame s f))) (ppage (pg_id (frame s f))) = Some (pg_data (frame s f))) \<and>
           addr_ok (disk s) (pfd (pg_id (frame s f))) (ppage (pg_id (frame s f))) PAGE_SIZE) \<and>
     length (pg_data (frame s f)) = PAGE_SIZE"

text \<open>
  Every frame is either free or the home of exactly the page its identifier names; a mapped
  frame is in the replacer exactly when nobody holds it; an unpinned clean frame agrees with
  the disk; and the table points to frames that carry the identifier looked up.
\<close>

definition bpm_inv :: "bpm \<Rightarrow> bool" where
  "bpm_inv s \<longleftrightarrow>
     lru_inv (repl s) \<and> dm_inv (disk s) \<and>
     distinct (free_list s) \<and> set (free_list s) \<subseteq> {..<length (pages s)} \<and>
     set (lru_frames (repl s)) \<subseteq> {..<length (pages s)} \<and>
     (\<forall>q f. page_table s q = Some f \<longrightarrow> f < length (pages s) \<and> f \<notin> set (free_list s) \<and> pg_id (frame s f) = q) \<and>
     (\<forall>f < length (pages s). frame_ok s f)"


lemma upd_frame_fields [simp]:
  "length (pages (upd_frame s f g)) = length (pages s)"
  "page_table (upd_frame s f g) = page_table s" "free_list (upd_frame s f g) = free_list s"
  "disk (upd_frame s f g) = disk s" "repl (upd_frame s f g) = repl s"
  by (simp_all add: upd_frame_def)

lemma frame_upd_frame [simp]:
  "f < length (pages s) \<Longrightarrow> frame (upd_frame s f g) h = (if h = f then g (frame s f) else frame s h)"
  by (simp add: frame_def upd_frame_def nth_list_update_if)

lemma frame_update [simp]:
  "frame (s\<lparr>repl := r\<rparr>) f = frame s f" "frame (s\<lparr>disk := d\<rparr>) f = frame s f"
  "frame (s\<lparr>page_table := t\<rparr>) f = frame s f" "frame (s\<lparr>free_list := l\<rparr>) f = frame s f"
  by (simp_all add: frame_def)

lemma bpm_invD:
  assumes "bpm_inv s"
  shows bpm_inv_lru: "lru_inv (repl s)" and bpm_inv_dm: "dm_inv (disk s)"
    and bpm_inv_distinct: "distinct (free_list s)"
    and bpm_inv_free: "f \<in> set (free_list s) \<Longrightarrow> f < length (pages s)"
    and bpm_inv_evict: "f \<in> set (lru_frames (repl s)) \<Longrightarrow> f < length (pages s)"
    and bpm_inv_table: "page_table s q = Some f \<Longrightarrow>
          f < length (pages s) \<and> f \<notin> set (free_list s) \<and> pg_id (frame s f) = q"
    and bpm_inv_frame: "f < length (pages s) \<Longrightarrow> frame_ok s f"
  using assms unfolding bpm_inv_def by auto

lemma bpm_invI:
  assumes "lru_inv (repl s)" "dm_inv (disk s)" "distinct (free_list s)"
    and "\<And>f. f \<in> set (free_list s) \<Longrightarrow> f < length (pages s)"
    and "\<And>f. f \<in> set (lru_frames (repl s)) \<Longrightarrow> f < length (pages s)"
    and "\<And>q f. page_table s q = Some f \<Longrightarrow>
          f < length (pages s) \<and> f \<notin> set (free_list s) \<and> pg_id (frame s f) = q"
    and "\<And>f. f < length (pages s) \<Longrightarrow> frame_ok s f"
  shows "bpm_inv s"
  using assms unfolding bpm_inv_def by auto

text \<open>What \<open>frame_ok\<close> says of a mapped and of a free frame.\<close>

lemma frame_ok_mapped:
  "f \<notin> set (free_list s) \<Longrightarrow> frame_ok s f \<longleftrightarrow>
     page_table s (pg_id (frame s f)) = Some f \<and> 0 \<le> pin_count (frame s f) \<and>
     (f \<in> set (lru_frames (repl s)) \<longleftrightarrow> pin_count (frame s f) = 0) \<and>
     (pin_count (frame s f) = 0 \<and> \<not> is_dirty (frame s f) \<longrightarrow>
        dm_page (disk s) (pfd (pg_id (frame s f))) (ppage (pg_id (frame s f))) = Some (pg_data (frame s f))) \<and>
     addr_ok (disk s) (pfd (pg_id (frame s f))) (ppage (pg_id (frame s f))) PAGE_SIZE \<and>
     length (pg_data (frame s f)) = PAGE_SIZE"
  by (auto simp: frame_ok_def)

lemma frame_ok_free:
  "f \<in> set (free_list s) \<Longrightarrow> frame_ok s f \<longleftrightarrow>
     page_table s (pg_id (frame s f)) = None \<and> \<not> is_dirty (frame s f) \<and> pin_count (frame s f) = 0 \<and>
     length (pg_data (frame s f)) = PAGE_SIZE"
  by (auto simp: frame_ok_def)

lemma bpm_inv_mapped_frame:
  assumes "bpm_inv s" and "page_table s q = Some f"
  shows "f < length (pages s)" "f \<notin> set (free_list s)" "pg_id (frame s f) = q"
    and "0 \<le> pin_count (frame s f)"
    and "f \<in> set (lru_frames (repl s)) \<longleftrightarrow> pin_count (frame s f) = 0"
    and "pin_count (frame s f) = 0 \<Longrightarrow> \<not> is_dirty (frame s f) \<Longrightarrow>
           dm_page (disk s) (pfd q) (ppage q) = Some (pg_data (frame s f))"
    and "addr_ok (disk s) (pfd q) (ppage q) PAGE_SIZE"
    and "length (pg_data (frame s f)) = PAGE_SIZE"
proof -
  note t = bpm_inv_table [OF assms]
  have ok: "frame_ok s f" using bpm_inv_frame [OF assms(1)] t by simp
  note m = iffD1 [OF frame_ok_mapped [OF conjunct1 [OF conjunct2 [OF t]]] ok]
  show "f < length (pages s)" "f \<notin> set (free_list s)" "pg_id (frame s f) = q" using t by simp_all
  show "0 \<le> pin_count (frame s f)" using m by blast
  show "f \<in> set (lru_frames (repl s)) \<longleftrightarrow> pin_count (frame s f) = 0" using m by blast
  show "pin_count (frame s f) = 0 \<Longrightarrow> \<not> is_dirty (frame s f) \<Longrightarrow>
          dm_page (disk s) (pfd q) (ppage q) = Some (pg_data (frame s f))"
    using m t by simp
  show "addr_ok (disk s) (pfd q) (ppage q) PAGE_SIZE" using m t by simp
  show "length (pg_data (frame s f)) = PAGE_SIZE" using m by blast
qed

lemma bpm_inv_new: "dm_inv d \<Longrightarrow> bpm_inv (bpm_new n junk d)"
  by (rule bpm_invI) (auto simp: bpm_new_def frame_ok_def frame_def)

section \<open>Writing a frame back\<close>

text \<open>
  \<open>disk_le d d'\<close>: \<open>d'\<close> has every page of \<open>d\<close> with the same content, the same descriptors and
  the same limits.
\<close>

definition disk_le :: "disk_manager \<Rightarrow> disk_manager \<Rightarrow> bool" where
  "disk_le d d' \<longleftrightarrow> dm_inv d' \<and> posix_same (os d) (os d') \<and>
     (\<forall>fd p c. dm_page d fd p = Some c \<longrightarrow> dm_page d' fd p = Some c)"

lemma addr_ok_posix: "posix_same (os d) (os d') \<Longrightarrow> addr_ok d' fd p n = addr_ok d fd p n"
  by (simp add: addr_ok_def posix_same_def)

lemma disk_leD:
  assumes "disk_le d d'"
  shows disk_le_inv: "dm_inv d'" and disk_le_same: "posix_same (os d) (os d')"
    and disk_le_page: "dm_page d fd p = Some c \<Longrightarrow> dm_page d' fd p = Some c"
    and disk_le_addr: "addr_ok d' fd p n = addr_ok d fd p n"
  using assms by (auto simp: disk_le_def addr_ok_posix)

lemma disk_le_refl: "dm_inv d \<Longrightarrow> disk_le d d"
  by (simp add: disk_le_def)

lemma write_back_ok:
  assumes dm: "dm_inv (disk s)" and ok: "addr_ok (disk s) (pfd q) (ppage q) PAGE_SIZE"
    and len: "length (pg_data (frame s f)) = PAGE_SIZE"
  obtains d where "write_back s f q = (Inr (), upd_frame (s\<lparr>disk := d\<rparr>) f (is_dirty_update (\<lambda>_. False)))"
    and "dm_inv d" "posix_same (os (disk s)) (os d)" "dm_page d (pfd q) (ppage q) = Some (pg_data (frame s f))"
    and "\<And>q' c. q' \<noteq> q \<Longrightarrow> dm_page (disk s) (pfd q') (ppage q') = Some c \<Longrightarrow> dm_page d (pfd q') (ppage q') = Some c"
proof -
  obtain d where d: "dm_write_page (disk s) (pfd q) (ppage q) (pg_data (frame s f)) = (Inr (), d)"
    "dm_page d (pfd q) (ppage q) = Some (pg_data (frame s f))"
    "\<And>fd' p' c. (fd', p') \<noteq> (pfd q, ppage q) \<Longrightarrow> dm_page (disk s) fd' p' = Some c \<Longrightarrow> dm_page d fd' p' = Some c"
    "posix_same (os (disk s)) (os d)"
    by (rule dm_write_page_dm_page [OF dm ok len]) blast
  have "dm_inv d" using dm_inv_write_page [OF dm, of "pfd q" "ppage q" "pg_data (frame s f)"] d(1) by simp
  moreover have "dm_page d (pfd q') (ppage q') = Some c"
    if "q' \<noteq> q" "dm_page (disk s) (pfd q') (ppage q') = Some c" for q' c
    using d(3) [OF _ that(2)] that(1) page_id_eqI [of q' q] by blast
  ultimately show ?thesis using that d by (simp add: write_back_def)
qed

section \<open>Taking a frame for another page\<close>

text \<open>
  Between \<^verbatim>\<open>find_victim_page\<close> and the end of \<^verbatim>\<open>fetch_page\<close> or \<^verbatim>\<open>new_page\<close> one frame \<open>f\<close> is
  taken out of the bookkeeping: \<open>bpm_hole s f\<close> is the invariant for all the others. \<open>hole_view\<close>
  still shows the evicted page if its only copy is the dirty frame.
\<close>

definition bpm_hole :: "bpm \<Rightarrow> frame_id \<Rightarrow> bool" where
  "bpm_hole s f \<longleftrightarrow>
     lru_inv (repl s) \<and> dm_inv (disk s) \<and> distinct (free_list s) \<and>
     set (free_list s) \<subseteq> {..<length (pages s)} \<and> set (lru_frames (repl s)) \<subseteq> {..<length (pages s)} \<and>
     f < length (pages s) \<and> f \<notin> set (free_list s) \<and>
     (\<forall>q g. page_table s q = Some g \<longrightarrow>
        g < length (pages s) \<and> g \<notin> set (free_list s) \<and> g \<noteq> f \<and> pg_id (frame s g) = q) \<and>
     (\<forall>g < length (pages s). g \<noteq> f \<longrightarrow> frame_ok s g) \<and>
     length (pg_data (frame s f)) = PAGE_SIZE \<and> page_table s (pg_id (frame s f)) = None \<and>
     (is_dirty (frame s f) \<longrightarrow> addr_ok (disk s) (pfd (pg_id (frame s f))) (ppage (pg_id (frame s f))) PAGE_SIZE)"

lemma bpm_holeI:
  assumes "lru_inv (repl s)" "dm_inv (disk s)" "distinct (free_list s)"
    and "\<And>g. g \<in> set (free_list s) \<Longrightarrow> g < length (pages s)"
    and "\<And>g. g \<in> set (lru_frames (repl s)) \<Longrightarrow> g < length (pages s)"
    and "f < length (pages s)" "f \<notin> set (free_list s)"
    and "\<And>q g. page_table s q = Some g \<Longrightarrow>
        g < length (pages s) \<and> g \<notin> set (free_list s) \<and> g \<noteq> f \<and> pg_id (frame s g) = q"
    and "\<And>g. g < length (pages s) \<Longrightarrow> g \<noteq> f \<Longrightarrow> frame_ok s g"
    and "length (pg_data (frame s f)) = PAGE_SIZE" "page_table s (pg_id (frame s f)) = None"
    and "is_dirty (frame s f) \<Longrightarrow> addr_ok (disk s) (pfd (pg_id (frame s f))) (ppage (pg_id (frame s f))) PAGE_SIZE"
  shows "bpm_hole s f"
  using assms unfolding bpm_hole_def by auto

lemma bpm_holeD:
  assumes "bpm_hole s f"
  shows "lru_inv (repl s)" "dm_inv (disk s)" "distinct (free_list s)"
    and "g \<in> set (free_list s) \<Longrightarrow> g < length (pages s)"
    and "g \<in> set (lru_frames (repl s)) \<Longrightarrow> g < length (pages s)"
    and "f < length (pages s)" "f \<notin> set (free_list s)"
    and "page_table s q = Some g \<Longrightarrow>
        g < length (pages s) \<and> g \<notin> set (free_list s) \<and> g \<noteq> f \<and> pg_id (frame s g) = q"
    and "g < length (pages s) \<Longrightarrow> g \<noteq> f \<Longrightarrow> frame_ok s g"
    and "length (pg_data (frame s f)) = PAGE_SIZE" "page_table s (pg_id (frame s f)) = None"
    and "is_dirty (frame s f) \<Longrightarrow> addr_ok (disk s) (pfd (pg_id (frame s f))) (ppage (pg_id (frame s f))) PAGE_SIZE"
  using assms unfolding bpm_hole_def by auto

definition hole_view :: "bpm \<Rightarrow> frame_id \<Rightarrow> page_id \<Rightarrow> bytes option" where
  "hole_view s f q =
     (if q = pg_id (frame s f) \<and> is_dirty (frame s f) then Some (pg_data (frame s f)) else bpm_view s q)"

lemma find_victim_free:
  assumes inv: "bpm_inv s" and fl: "free_list s = f # fs"
  shows "bpm_hole (s\<lparr>free_list := fs\<rparr>) f" and "hole_view (s\<lparr>free_list := fs\<rparr>) f = bpm_view s"
proof -
  have f: "frame_ok s f" "f < length (pages s)" "f \<notin> set fs" "f \<in> set (free_list s)"
    using bpm_inv_frame [OF inv] bpm_inv_free [OF inv, of f] bpm_inv_distinct [OF inv] fl by auto
  have other: "frame_ok (s\<lparr>free_list := fs\<rparr>) g" if "g < length (pages s)" "g \<noteq> f" for g
    using bpm_inv_frame [OF inv that(1)] that(2) by (simp add: frame_ok_def fl)
  show "bpm_hole (s\<lparr>free_list := fs\<rparr>) f"
    using bpm_invD(1-6) [OF inv] f other frame_ok_free [OF f(4)] fl by (fastforce simp: bpm_hole_def)
  show "hole_view (s\<lparr>free_list := fs\<rparr>) f = bpm_view s"
    using f frame_ok_free [OF f(4)]
    by (auto simp: hole_view_def bpm_view_def fun_eq_iff split: option.splits)
qed


lemma find_victim_lru:
  assumes inv: "bpm_inv s" and fl: "free_list s = []" and v: "lru_victim (repl s) = (Some f, r)"
  defines "s1 \<equiv> s\<lparr>repl := r, page_table := (page_table s)(pg_id (frame s f) := None)\<rparr>"
  shows "bpm_hole s1 f" and "bpm_view s \<subseteq>\<^sub>m hole_view s1 f"
    and "page_table s (pg_id (frame s f)) = Some f" and "pin_count (frame s f) = 0"
proof -
  have lf: "f \<in> set (lru_frames (repl s))" "set (lru_frames r) = set (lru_frames (repl s)) - {f}"
    using lru.victim_Some [OF bpm_inv_lru [OF inv] v] by simp_all
  have li: "lru_inv r" using lru.ok_victim [OF bpm_inv_lru [OF inv]] v by simp
  have f: "f < length (pages s)" using bpm_inv_evict [OF inv lf(1)] .
  have map: "page_table s (pg_id (frame s f)) = Some f"
    using bpm_inv_frame [OF inv f] fl by (simp add: frame_ok_def)
  note m = bpm_inv_mapped_frame [OF inv map]
  have pin: "pin_count (frame s f) = 0" using m(5) lf(1) by blast
  have ids: "pg_id (frame s g) \<noteq> pg_id (frame s f)" if "g < length (pages s)" "g \<noteq> f" for g
    using bpm_inv_frame [OF inv that(1)] map that(2) fl by (auto simp: frame_ok_def)
  have other: "frame_ok s1 g" if "g < length (pages s)" "g \<noteq> f" for g
    using bpm_inv_frame [OF inv that(1)] that ids [OF that] lf(2) fl by (simp add: frame_ok_def s1_def)
  have tab: "g < length (pages s1) \<and> g \<notin> set (free_list s1) \<and> g \<noteq> f \<and> pg_id (frame s1 g) = q"
    if "page_table s1 q = Some g" for q g
  proof -
    have q: "page_table s q = Some g" "q \<noteq> pg_id (frame s f)" using that by (auto simp: s1_def split: if_splits)
    with bpm_inv_table [OF inv q(1)] show ?thesis by (auto simp: s1_def)
  qed
  show "bpm_hole s1 f"
  proof (rule bpm_holeI)
    show "g < length (pages s1)" if "g \<in> set (lru_frames (repl s1))" for g
      using that lf(2) bpm_inv_evict [OF inv] by (simp add: s1_def)
    show "addr_ok (disk s1) (pfd (pg_id (frame s1 f))) (ppage (pg_id (frame s1 f))) PAGE_SIZE"
      using m(7) by (simp add: s1_def)
    show "frame_ok s1 g" if "g < length (pages s1)" "g \<noteq> f" for g
      using other that by (simp add: s1_def)
    show "g < length (pages s1) \<and> g \<notin> set (free_list s1) \<and> g \<noteq> f \<and> pg_id (frame s1 g) = q"
      if "page_table s1 q = Some g" for q g
      using that by (rule tab)
  qed (use f li fl m(8) bpm_inv_dm [OF inv] in \<open>simp_all add: s1_def\<close>)
  show "page_table s (pg_id (frame s f)) = Some f" by (rule map)
  show "pin_count (frame s f) = 0" by (rule pin)
  show "bpm_view s \<subseteq>\<^sub>m hole_view s1 f"
  proof (rule map_leI)
    fix q c
    assume c: "bpm_view s q = Some c"
    show "hole_view s1 f q = Some c"
    proof (cases "q = pg_id (frame s f)")
      case True
      with c map m(6) pin show ?thesis
        by (cases "is_dirty (frame s f)") (auto simp: hole_view_def bpm_view_def s1_def)
    next
      case False
      with c show ?thesis by (auto simp: hole_view_def bpm_view_def s1_def split: option.splits)
    qed
  qed
qed

lemma find_victim_page_hole:
  assumes inv: "bpm_inv s" and v: "find_victim_page s = (Some f, s1)"
  shows "bpm_hole s1 f" and "bpm_view s \<subseteq>\<^sub>m hole_view s1 f" and "disk s1 = disk s"
    and "pages s1 = pages s" and "set (free_list s1) \<subseteq> set (tl (free_list s))"
    and "page_table s q = None \<Longrightarrow> page_table s1 q = None"
proof -
  consider (free) fs where "free_list s = f # fs" "s1 = s\<lparr>free_list := fs\<rparr>"
    | (lru) r where "free_list s = []" "lru_victim (repl s) = (Some f, r)"
        "s1 = s\<lparr>repl := r, page_table := (page_table s)(pg_id (frame s f) := None)\<rparr>"
    using v by (auto simp: find_victim_page_def split: list.splits prod.splits option.splits)
  then show "bpm_hole s1 f" and "bpm_view s \<subseteq>\<^sub>m hole_view s1 f" and "disk s1 = disk s"
    and "pages s1 = pages s" and "set (free_list s1) \<subseteq> set (tl (free_list s))"
    and "page_table s q = None \<Longrightarrow> page_table s1 q = None"
    by (cases; use find_victim_free [OF inv] find_victim_lru [OF inv] in simp)+
qed

lemma find_victim_page_None:
  assumes "bpm_inv s"
  shows "fst (find_victim_page s) = None \<longleftrightarrow> free_list s = [] \<and> lru_frames (repl s) = []"
  using lru.victim_None [OF bpm_inv_lru [OF assms]]
  by (auto simp: find_victim_page_def split: list.splits prod.splits option.splits)

text \<open>
  The frame is written back if dirty, renamed and cleared; then the caller fills it and pins
  it. No other frame that is free may still carry the identifier \<open>q\<close>: \<open>no_stale\<close>.
\<close>

definition no_stale :: "bpm \<Rightarrow> page_id \<Rightarrow> bool" where
  "no_stale s q \<longleftrightarrow> (\<forall>g \<in> set (free_list s). pg_id (frame s g) \<noteq> q)"

lemma update_page_hole:
  assumes hole: "bpm_hole s f" and q: "page_table s q = None"
  obtains s2 where "update_page s f q = (Inr (), s2)"
    and "s2 = upd_frame (s\<lparr>disk := disk s2, page_table := (page_table s)(q \<mapsto> f)\<rparr>) f
                (\<lambda>p. p\<lparr>pg_data := zero_page, pg_id := q, is_dirty := False\<rparr>)"
    and "disk_le (disk s) (disk s2) \<or> is_dirty (frame s f)"
    and "dm_inv (disk s2)" "posix_same (os (disk s)) (os (disk s2))"
    and "\<And>q' c. page_table s q' = None \<Longrightarrow> hole_view s f q' = Some c \<Longrightarrow>
           dm_page (disk s2) (pfd q') (ppage q') = Some c"
    and "\<And>q' c. q' \<noteq> pg_id (frame s f) \<Longrightarrow> dm_page (disk s) (pfd q') (ppage q') = Some c \<Longrightarrow>
           dm_page (disk s2) (pfd q') (ppage q') = Some c"
proof -
  note h = bpm_holeD [OF hole]
  let ?p = "frame s f"
  show ?thesis
  proof (cases "is_dirty ?p")
    case False
    define s2 where "s2 = upd_frame (s\<lparr>page_table := (page_table s)(q \<mapsto> f)\<rparr>) f
                (\<lambda>p. p\<lparr>pg_data := zero_page, pg_id := q, is_dirty := False\<rparr>)"
    have pg: "(pages s ! f)\<lparr>pg_data := zero_page, pg_id := q, is_dirty := False\<rparr> =
        (pages s ! f)\<lparr>pg_data := zero_page, pg_id := q\<rparr>"
      using False by (cases "pages s ! f") (simp add: frame_def)
    have t: "(page_table s)(pg_id ?p := None, q \<mapsto> f) = (page_table s)(q \<mapsto> f)"
      using h(11) by (auto simp: fun_eq_iff)
    have u: "update_page s f q = (Inr (), s2)"
      using False by (simp add: update_page_def s2_def t upd_frame_def pg)
    show ?thesis
    proof (rule that [OF u])
      show "s2 = upd_frame (s\<lparr>disk := disk s2, page_table := (page_table s)(q \<mapsto> f)\<rparr>) f
                (\<lambda>p. p\<lparr>pg_data := zero_page, pg_id := q, is_dirty := False\<rparr>)"
        by (simp add: s2_def)
    qed (use False h(2) in \<open>simp_all add: s2_def disk_le_refl hole_view_def bpm_view_def\<close>)
  next
    case True
    obtain d where d: "write_back s f (pg_id ?p) = (Inr (), upd_frame (s\<lparr>disk := d\<rparr>) f (is_dirty_update (\<lambda>_. False)))"
      "dm_inv d" "posix_same (os (disk s)) (os d)"
      "dm_page d (pfd (pg_id ?p)) (ppage (pg_id ?p)) = Some (pg_data ?p)"
      "\<And>q' c. q' \<noteq> pg_id ?p \<Longrightarrow> dm_page (disk s) (pfd q') (ppage q') = Some c \<Longrightarrow> dm_page d (pfd q') (ppage q') = Some c"
      by (rule write_back_ok [OF h(2) h(12) [OF True] h(10)]) blast
    define s2 where "s2 = upd_frame (s\<lparr>disk := d, page_table := (page_table s)(q \<mapsto> f)\<rparr>) f
                (\<lambda>p. p\<lparr>pg_data := zero_page, pg_id := q, is_dirty := False\<rparr>)"
    have t: "(page_table s)(pg_id ?p := None, q \<mapsto> f) = (page_table s)(q \<mapsto> f)"
      using h(11) by (auto simp: fun_eq_iff)
    have pg: "(pages s ! f)\<lparr>is_dirty := False, pg_data := zero_page, pg_id := q\<rparr> =
        (pages s ! f)\<lparr>pg_data := zero_page, pg_id := q, is_dirty := False\<rparr>"
      by (cases "pages s ! f") simp
    have u: "update_page s f q = (Inr (), s2)"
      using True d(1) h(6)
      by (simp add: update_page_def s2_def t) (simp add: upd_frame_def frame_def t pg)
    show ?thesis
    proof (rule that [OF u])
      show "s2 = upd_frame (s\<lparr>disk := disk s2, page_table := (page_table s)(q \<mapsto> f)\<rparr>) f
                (\<lambda>p. p\<lparr>pg_data := zero_page, pg_id := q, is_dirty := False\<rparr>)"
        by (simp add: s2_def)
      show "dm_page (disk s2) (pfd q') (ppage q') = Some c"
        if "page_table s q' = None" "hole_view s f q' = Some c" for q' c
        using that d(4,5) True by (auto simp: s2_def hole_view_def bpm_view_def split: if_splits)
    qed (use True d in \<open>simp_all add: s2_def\<close>)
  qed
qed

text \<open>Filling and pinning the renamed frame restores the invariant.\<close>

lemma hole_filled:
  assumes hole: "bpm_hole s f" and q: "page_table s q = None"
    and addr: "addr_ok (disk s) (pfd q) (ppage q) PAGE_SIZE" and stale: "no_stale s q"
    and d: "dm_inv d" "posix_same (os (disk s)) (os d)"
      "\<And>q' c. q' \<noteq> pg_id (frame s f) \<Longrightarrow> dm_page (disk s) (pfd q') (ppage q') = Some c \<Longrightarrow>
         dm_page d (pfd q') (ppage q') = Some c"
    and len: "length buf = PAGE_SIZE"
  defines "s' \<equiv> upd_frame (s\<lparr>disk := d, page_table := (page_table s)(q \<mapsto> f), repl := lru_pin (repl s) f\<rparr>) f
      (\<lambda>p. p\<lparr>pg_data := buf, pg_id := q, is_dirty := False, pin_count := 1\<rparr>)"
  shows "bpm_inv s'"
proof -
  note h = bpm_holeD [OF hole]
  have fr: "frame s' g = (if g = f then (frame s f)\<lparr>pg_data := buf, pg_id := q, is_dirty := False, pin_count := 1\<rparr> else frame s g)" for g
    using h(6) by (simp add: s'_def)
  have fields: "page_table s' = (page_table s)(q \<mapsto> f)" "free_list s' = free_list s" "disk s' = d"
      "length (pages s') = length (pages s)" "repl s' = lru_pin (repl s) f"
    by (simp_all add: s'_def)
  have lf: "set (lru_frames (repl s')) = set (lru_frames (repl s)) - {f}"
    using lru.pin_evictable [OF h(1)] by (simp add: fields)
  have addr': "addr_ok d = addr_ok (disk s)" using addr_ok_posix [OF d(2)] by (intro ext)
  have idf: "pg_id (frame s g) \<noteq> q" if "g < length (pages s)" "g \<noteq> f" for g
    using h(9) [OF that] q stale by (cases "g \<in> set (free_list s)") (auto simp: frame_ok_def no_stale_def)
  have idv: "pg_id (frame s g) \<noteq> pg_id (frame s f)" if "g < length (pages s)" "g \<noteq> f" "g \<notin> set (free_list s)" for g
    using h(9) [OF that(1,2)] that(3) h(11) by (auto simp: frame_ok_def)
  have other: "frame_ok s' g" if g: "g < length (pages s)" "g \<noteq> f" for g
    using h(9) [OF g] g(2) idf [OF g] idv [OF g] lf d(3) by (auto simp: frame_ok_def fr fields addr')
  have me: "frame_ok s' f"
    using h(7) lf addr len by (simp add: frame_ok_def fr fields addr')
  show ?thesis
  proof (rule bpm_invI)
    show "g < length (pages s') \<and> g \<notin> set (free_list s') \<and> pg_id (frame s' g) = r"
      if "page_table s' r = Some g" for r g
      using that h(6,7) h(8) [of r g] by (auto simp: fields fr split: if_splits)
    show "frame_ok s' g" if "g < length (pages s')" for g
      using that other [of g] me by (cases "g = f") (auto simp: fields)
  qed (use h d(1) lf lru.ok_pin [OF h(1)] in \<open>auto simp: fields\<close>)
qed

text \<open>Every other page is still seen with its content.\<close>

lemma hole_filled_view:
  fixes buf :: bytes and r :: lru
  assumes hole: "bpm_hole s f" and le: "bpm_view s0 \<subseteq>\<^sub>m hole_view s f"
    and d: "\<And>q' c. page_table s q' = None \<Longrightarrow> hole_view s f q' = Some c \<Longrightarrow> dm_page d (pfd q') (ppage q') = Some c"
    and q': "q' \<noteq> q" "bpm_view s0 q' = Some c"
  defines "s' \<equiv> upd_frame (s\<lparr>disk := d, page_table := (page_table s)(q \<mapsto> f), repl := r\<rparr>) f
      (\<lambda>p. p\<lparr>pg_data := buf, pg_id := q, is_dirty := False, pin_count := 1\<rparr>)"
  shows "bpm_view s' q' = Some c"
proof -
  note h = bpm_holeD [OF hole]
  have fr: "g \<noteq> f \<Longrightarrow> frame s' g = frame s g" for g using h(6) by (simp add: s'_def)
  have pt: "page_table s' = (page_table s)(q \<mapsto> f)" "disk s' = d" by (simp_all add: s'_def)
  have hv: "hole_view s f q' = Some c" by (rule map_leD [OF le q'(2)])
  show ?thesis
  proof (cases "page_table s q'")
    case None
    with q'(1) d [OF None hv] show ?thesis by (simp add: bpm_view_def pt)
  next
    case (Some g)
    with h(8) [OF Some] h(11) hv q'(1) show ?thesis
      by (auto simp: bpm_view_def hole_view_def fr pt split: if_splits)
  qed
qed

section \<open>The operations implement the page store\<close>

text \<open>
  \<open>bpm_room s q\<close>: the page is in the pool, or a frame can be found for it.
\<close>

definition bpm_room :: "bpm \<Rightarrow> bool" where
  "bpm_room s \<longleftrightarrow> free_list s \<noteq> [] \<or> lru_frames (repl s) \<noteq> []"

lemma frame_eq_update: "pg_data_update (\<lambda>_. pg_data p) p = p"
  by (cases p) simp

lemma bpm_fetch_mapped:
  assumes inv: "bpm_inv s" and q: "page_table s q = Some f"
  defines "s' \<equiv> upd_frame (s\<lparr>repl := lru_pin (repl s) f\<rparr>) f (pin_count_update (\<lambda>c. c + 1))"
  shows "bpm_fetch_page s q = (Inr (Some f), s')" and "bpm_inv s'" and "bpm_view s' = bpm_view s"
proof -
  note m = bpm_inv_mapped_frame [OF inv q]
  show "bpm_fetch_page s q = (Inr (Some f), s')" by (simp add: bpm_fetch_page_def q s'_def)
  have lf: "set (lru_frames (repl s')) = set (lru_frames (repl s)) - {f}"
    using lru.pin_evictable [OF bpm_inv_lru [OF inv]] by (simp add: s'_def)
  have fr: "frame s' g = (if g = f then (frame s f)\<lparr>pin_count := pin_count (frame s f) + 1\<rparr> else frame s g)" for g
    using m(1) by (simp add: s'_def)
  have ok: "frame_ok s' g" if g: "g < length (pages s)" for g
    using bpm_inv_frame [OF inv g] m lf by (cases "g = f") (simp_all add: frame_ok_def fr s'_def q)
  show "bpm_inv s'"
  proof (rule bpm_invI)
    show "lru_inv (repl s')" using lru.ok_pin [OF bpm_inv_lru [OF inv]] by (simp add: s'_def)
    show "g < length (pages s')" if "g \<in> set (lru_frames (repl s'))" for g
      using that lf bpm_inv_evict [OF inv] by (simp add: s'_def)
    show "g < length (pages s') \<and> g \<notin> set (free_list s') \<and> pg_id (frame s' g) = r"
      if "page_table s' r = Some g" for r g
      using that bpm_inv_table [OF inv, of r g] by (auto simp: fr) (auto simp: s'_def)
    show "frame_ok s' g" if "g < length (pages s')" for g using ok that by (simp add: s'_def)
  qed (use bpm_inv_dm [OF inv] bpm_inv_distinct [OF inv] bpm_inv_free [OF inv] in \<open>simp_all add: s'_def\<close>)
  show "bpm_view s' = bpm_view s"
    using fr by (auto simp: bpm_view_def s'_def fun_eq_iff split: option.splits)
qed

lemma no_stale_subset:
  "pages s1 = pages s \<Longrightarrow> set (free_list s1) \<subseteq> set (free_list s) \<Longrightarrow> no_stale s q \<Longrightarrow> no_stale s1 q"
  by (auto simp: no_stale_def frame_def)

lemma bpm_fetch_unmapped:
  assumes inv: "bpm_inv s" and q: "page_table s q = None" and c: "bpm_view s q = Some c"
    and addr: "addr_ok (disk s) (pfd q) (ppage q) PAGE_SIZE" and stale: "no_stale s q" and room: "bpm_room s"
  obtains f s' where "bpm_fetch_page s q = (Inr (Some f), s')" "bpm_inv s'" "page_table s' q = Some f"
    "pg_data (frame s' f) = c" "pin_count (frame s' f) = 1" "bpm_view s \<subseteq>\<^sub>m bpm_view s'"
    "posix_same (os (disk s)) (os (disk s'))" "dm_page (disk s') (pfd q) (ppage q) = Some c"
proof -
  obtain f s1 where v: "find_victim_page s = (Some f, s1)"
    using find_victim_page_None [OF inv] room
    by (cases "find_victim_page s") (auto simp: bpm_room_def)
  note fv = find_victim_page_hole [OF inv v]
  note h = bpm_holeD [OF fv(1)]
  have q1: "page_table s1 q = None" by (rule fv(6) [OF q])
  obtain s2 where u: "update_page s1 f q = (Inr (), s2)"
    and s2: "s2 = upd_frame (s1\<lparr>disk := disk s2, page_table := (page_table s1)(q \<mapsto> f)\<rparr>) f
                (\<lambda>p. p\<lparr>pg_data := zero_page, pg_id := q, is_dirty := False\<rparr>)"
    and d2: "dm_inv (disk s2)" "posix_same (os (disk s1)) (os (disk s2))"
      "\<And>q' c. page_table s1 q' = None \<Longrightarrow> hole_view s1 f q' = Some c \<Longrightarrow> dm_page (disk s2) (pfd q') (ppage q') = Some c"
      "\<And>q' c. q' \<noteq> pg_id (frame s1 f) \<Longrightarrow> dm_page (disk s1) (pfd q') (ppage q') = Some c \<Longrightarrow>
           dm_page (disk s2) (pfd q') (ppage q') = Some c"
    by (rule update_page_hole [OF fv(1) q1]) blast
  have hv: "hole_view s1 f q' = Some c'" if "bpm_view s q' = Some c'" for q' c'
    using map_leD [OF fv(2) that] .
  have f2: "frame s2 g = (if g = f then (frame s1 f)\<lparr>pg_data := zero_page, pg_id := q, is_dirty := False\<rparr> else frame s1 g)" for g
    using h(6) by (subst s2) simp
  have f2e: "pages s2 = (pages s1)[f := (pages s1 ! f)\<lparr>pg_data := zero_page, pg_id := q, is_dirty := False\<rparr>]"
      "page_table s2 = (page_table s1)(q \<mapsto> f)" "free_list s2 = free_list s1" "repl s2 = repl s1"
    by (subst s2, simp add: upd_frame_def)+
  have p19: "ppage q < 2 ^ 19" using addr by (simp add: addr_ok_def)
  have len2: "length (pg_data (frame s2 f)) = PAGE_SIZE" by (simp add: f2)
  obtain t where rd: "dm_read_page (disk s2) (pfd q) (ppage q) (pg_data (frame s2 f)) PAGE_SIZE = (c, Inr (), (disk s2)\<lparr>os := t\<rparr>)"
    and t: "posix_same (os (disk s2)) t" "inodes t = inodes (os (disk s2))"
    by (rule dm_read_page_ok [OF d2(3) [OF q1 hv [OF c]] p19 len2]) blast
  define d where "d = (disk s2)\<lparr>os := t\<rparr>"
  have dp: "dm_page d = dm_page (disk s2)" using dm_page_same [OF t] by (simp add: d_def)
  have dinv: "dm_inv d" using dm_inv_same [OF t(1) d2(1)] by (simp add: d_def)
  have same: "posix_same (os (disk s1)) (os d)" using posix_same_trans [OF d2(2) t(1)] by (simp add: d_def)
  define s' where "s' = upd_frame (s1\<lparr>disk := d, page_table := (page_table s1)(q \<mapsto> f), repl := lru_pin (repl s1) f\<rparr>) f
      (\<lambda>p. p\<lparr>pg_data := c, pg_id := q, is_dirty := False, pin_count := 1\<rparr>)"
  have fin: "pin_frame (upd_frame (s2\<lparr>disk := d\<rparr>) f (pg_data_update (\<lambda>_. c))) f = s'"
  proof -
    have pg: "(pages s1 ! f)\<lparr>pg_data := c, pg_id := q, is_dirty := False, pin_count := 1\<rparr> =
          (pages s1 ! f)\<lparr>pg_id := q, is_dirty := False, pg_data := c, pin_count := 1\<rparr>"
      by (cases "pages s1 ! f") simp
    show ?thesis
      using h(6) f2e
      by (intro bpm.equality) (simp_all add: pg pin_frame_def s'_def upd_frame_def frame_def)
  qed
  have res: "bpm_fetch_page s q = (Inr (Some f), s')"
    using fin by (simp add: bpm_fetch_page_def q v u rd d_def)
  have clen: "length c = PAGE_SIZE"
    using d2(3) [OF q1 hv [OF c]] by (auto simp: dm_page_def length_mem_read split: option.splits if_splits)
  have inv': "bpm_inv s'"
    unfolding s'_def
  proof (rule hole_filled [OF fv(1) q1 _ _ dinv same _ clen])
    show "addr_ok (disk s1) (pfd q) (ppage q) PAGE_SIZE" using addr by (simp add: fv(3))
    show "no_stale s1 q"
      using fv(5) by (intro no_stale_subset [OF fv(4) _ stale]) (cases "free_list s", auto)
  qed (use d2(4) dp in simp)
  have fr: "frame s' g = (if g = f then (frame s1 f)\<lparr>pg_data := c, pg_id := q, is_dirty := False, pin_count := 1\<rparr> else frame s1 g)" for g
    using h(6) by (simp add: s'_def)
  have pt: "page_table s' = (page_table s1)(q \<mapsto> f)" "disk s' = d" by (simp_all add: s'_def)
  have view: "bpm_view s' q' = Some c'" if "bpm_view s q' = Some c'" for q' c'
  proof (cases "q' = q")
    case True
    with that c show ?thesis by (simp add: bpm_view_def [of s'] fr pt)
  next
    case False
    from hole_filled_view [OF fv(1,2) _ False that, of d "lru_pin (repl s1) f" c] d2(3) dp
    show ?thesis by (simp add: s'_def)
  qed
  show ?thesis
  proof (rule that [OF res inv'])
    show "bpm_view s \<subseteq>\<^sub>m bpm_view s'" by (rule map_leI) (rule view)
    show "posix_same (os (disk s)) (os (disk s'))" using same by (simp add: pt fv(3))
    show "dm_page (disk s') (pfd q) (ppage q) = Some c" using d2(3) [OF q1 hv [OF c]] by (simp add: pt dp)
  qed (simp_all add: fr pt)
qed

text \<open>
  What a fetch promises: the page is mapped to the frame returned and pinned there, the frame
  holds its content, and no page loses its content.
\<close>

lemma bpm_fetch_ok:
  assumes inv: "bpm_inv s" and c: "bpm_view s q = Some c"
    and ok: "page_table s q = None \<Longrightarrow> addr_ok (disk s) (pfd q) (ppage q) PAGE_SIZE \<and> no_stale s q \<and> bpm_room s"
  obtains f s' where "bpm_fetch_page s q = (Inr (Some f), s')" "bpm_inv s'" "page_table s' q = Some f"
    "pg_data (frame s' f) = c" "0 < pin_count (frame s' f)" "bpm_view s \<subseteq>\<^sub>m bpm_view s'"
    "posix_same (os (disk s)) (os (disk s'))"
proof (cases "page_table s q")
  case None
  with ok have "addr_ok (disk s) (pfd q) (ppage q) PAGE_SIZE" "no_stale s q" "bpm_room s" by simp_all
  from bpm_fetch_unmapped [OF inv None c this] show ?thesis using that by (metis zero_less_one)
next
  case (Some f)
  note m = bpm_fetch_mapped [OF inv Some] bpm_inv_mapped_frame [OF inv Some]
  show ?thesis
    by (rule that [OF m(1,2)]) (use Some c m in \<open>simp_all add: bpm_view_def\<close>)
qed

text \<open>
  Operations that touch one mapped frame keep the invariant as soon as that frame is fine
  afterwards.
\<close>

lemma bpm_inv_frame_change:
  assumes inv: "bpm_inv s" and q: "page_table s q = Some f"
    and same: "page_table s' = page_table s" "free_list s' = free_list s" "length (pages s') = length (pages s)"
    and fr: "\<And>g. g \<noteq> f \<Longrightarrow> frame s' g = frame s g" "pg_id (frame s' f) = q"
    and lru: "lru_inv (repl s')" "set (lru_frames (repl s')) - {f} = set (lru_frames (repl s)) - {f}"
    and dk: "dm_inv (disk s')" "addr_ok (disk s') = addr_ok (disk s)"
      "\<And>q' c. q' \<noteq> q \<Longrightarrow> dm_page (disk s) (pfd q') (ppage q') = Some c \<Longrightarrow> dm_page (disk s') (pfd q') (ppage q') = Some c"
    and ok: "frame_ok s' f"
  shows "bpm_inv s'"
proof (rule bpm_invI)
  note m = bpm_inv_mapped_frame [OF inv q]
  have mem: "g \<in> set (lru_frames (repl s')) \<longleftrightarrow> g \<in> set (lru_frames (repl s))" if "g \<noteq> f" for g
    using lru(2) that by blast
  show "g < length (pages s')" if "g \<in> set (lru_frames (repl s'))" for g
    using that mem [of g] bpm_inv_evict [OF inv, of g] m(1) same by (cases "g = f") auto
  show "g < length (pages s')" if "g \<in> set (free_list s')" for g
    using that bpm_inv_free [OF inv, of g] same by simp
  show "g < length (pages s') \<and> g \<notin> set (free_list s') \<and> pg_id (frame s' g) = r"
    if "page_table s' r = Some g" for r g
    using that bpm_inv_table [OF inv, of r g] fr same m(3) by (cases "g = f") auto
  show "frame_ok s' g" if g: "g < length (pages s')" for g
  proof (cases "g = f")
    case False
    have "g \<notin> set (free_list s) \<Longrightarrow> pg_id (frame s g) \<noteq> q"
      using bpm_inv_frame [OF inv] g same False q by (auto simp: frame_ok_def)
    then show ?thesis
      using bpm_inv_frame [OF inv] g same False mem [OF False] dk(3) [of "pg_id (frame s g)"]
      by (auto simp: frame_ok_def fr dk(2))
  qed (use ok in simp)
qed (use lru dk bpm_inv_distinct [OF inv] same in simp_all)

text \<open>A client writes through the pointer it holds while the page is pinned.\<close>

lemma bpm_store_ok:
  assumes inv: "bpm_inv s" and q: "page_table s q = Some f" and pin: "0 < pin_count (frame s f)"
    and len: "length bs = PAGE_SIZE"
  shows "bpm_inv (bpm_store s f bs)" and "bpm_view (bpm_store s f bs) = (bpm_view s)(q \<mapsto> bs)"
proof -
  note m = bpm_inv_mapped_frame [OF inv q]
  show "bpm_inv (bpm_store s f bs)"
  proof (rule bpm_inv_frame_change [OF inv q])
    show "frame_ok (bpm_store s f bs) f"
      using m pin len q by (simp add: bpm_store_def frame_ok_def)
  qed (use m bpm_inv_lru [OF inv] bpm_inv_dm [OF inv] in \<open>simp_all add: bpm_store_def\<close>)
  have "bpm_view (bpm_store s f bs) r = ((bpm_view s)(q \<mapsto> bs)) r" for r
    using bpm_inv_mapped_frame(3) [OF inv, of r f] m(1,3) q
    by (cases "page_table s r") (auto simp: bpm_store_def bpm_view_def)
  then show "bpm_view (bpm_store s f bs) = (bpm_view s)(q \<mapsto> bs)" by (rule ext)
qed

lemma bpm_mark_dirty_ok:
  assumes inv: "bpm_inv s" and q: "page_table s q = Some f"
  shows "bpm_inv (bpm_mark_dirty s f)" and "bpm_view (bpm_mark_dirty s f) = bpm_view s"
proof -
  note m = bpm_inv_mapped_frame [OF inv q]
  show "bpm_inv (bpm_mark_dirty s f)"
  proof (rule bpm_inv_frame_change [OF inv q])
    show "frame_ok (bpm_mark_dirty s f) f"
      using m q by (simp add: bpm_mark_dirty_def frame_ok_def)
  qed (use m bpm_inv_lru [OF inv] bpm_inv_dm [OF inv] in \<open>simp_all add: bpm_mark_dirty_def\<close>)
  show "bpm_view (bpm_mark_dirty s f) = bpm_view s"
    using m(1) by (auto simp: bpm_mark_dirty_def bpm_view_def fun_eq_iff split: option.splits)
qed

text \<open>
  Unpinning. When the last holder unpins a page it has changed it must pass \<open>dirty\<close> (or have
  marked the page before), or the change may be lost with the frame: that is \<open>unpin_safe\<close>.
\<close>

definition unpin_safe :: "bpm \<Rightarrow> page_id \<Rightarrow> bool \<Rightarrow> bool" where
  "unpin_safe s q dirty \<longleftrightarrow>
     (\<forall>f. page_table s q = Some f \<longrightarrow> pin_count (frame s f) = 1 \<longrightarrow> \<not> is_dirty (frame s f) \<longrightarrow> \<not> dirty \<longrightarrow>
        dm_page (disk s) (pfd q) (ppage q) = Some (pg_data (frame s f)))"

lemma bpm_unpin_fields:
  assumes inv: "bpm_inv s" and q: "page_table s q = Some f" and pin: "0 < pin_count (frame s f)"
  obtains s' where "bpm_unpin_page s q dirty = (True, s')"
    and "page_table s' = page_table s" "free_list s' = free_list s" "length (pages s') = length (pages s)"
      "disk s' = disk s"
    and "\<And>g. frame s' g = (if g = f then (frame s f)\<lparr>pin_count := pin_count (frame s f) - 1,
            is_dirty := is_dirty (frame s f) \<or> dirty\<rparr> else frame s g)"
    and "repl s' = (if pin_count (frame s f) = 1 then lru_unpin (repl s) f else repl s)"
proof -
  note m = bpm_inv_mapped_frame [OF inv q]
  have rec: "p\<lparr>pin_count := k\<rparr> = p\<lparr>pin_count := k, is_dirty := True\<rparr>" if "is_dirty p" for p :: page and k
    using that by (cases p) simp
  obtain s' where s': "bpm_unpin_page s q dirty = (True, s')" by (simp add: bpm_unpin_page_def q pin not_le Let_def)
  show ?thesis
    by (rule that [OF s']) (use s' m pin q rec in \<open>auto simp: bpm_unpin_page_def Let_def\<close>)
qed

lemma bpm_unpin_ok:
  assumes inv: "bpm_inv s" and q: "page_table s q = Some f" and pin: "0 < pin_count (frame s f)"
    and safe: "unpin_safe s q dirty"
  obtains s' where "bpm_unpin_page s q dirty = (True, s')" "bpm_inv s'" "bpm_view s' = bpm_view s"
    "page_table s' = page_table s" "pin_count (frame s' f) = pin_count (frame s f) - 1" "disk s' = disk s"
proof -
  note m = bpm_inv_mapped_frame [OF inv q]
  obtain s' where s': "bpm_unpin_page s q dirty = (True, s')"
    and same: "page_table s' = page_table s" "free_list s' = free_list s" "length (pages s') = length (pages s)"
      "disk s' = disk s"
    and fr: "\<And>g. frame s' g = (if g = f then (frame s f)\<lparr>pin_count := pin_count (frame s f) - 1,
            is_dirty := is_dirty (frame s f) \<or> dirty\<rparr> else frame s g)"
    and rp: "repl s' = (if pin_count (frame s f) = 1 then lru_unpin (repl s) f else repl s)"
    by (rule bpm_unpin_fields [OF inv q pin]) blast
  have full: "f \<in> set (lru_frames (lru_unpin (repl s) f)) \<and> lru_inv (lru_unpin (repl s) f) \<and>
      set (lru_frames (lru_unpin (repl s) f)) - {f} = set (lru_frames (repl s)) - {f}"
    using lru.unpin_evictable [OF bpm_inv_lru [OF inv], of f] lru.ok_unpin [OF bpm_inv_lru [OF inv], of f] by auto
  have "bpm_inv s'"
  proof (rule bpm_inv_frame_change [OF inv q same(1,2,3)])
    show "frame_ok s' f"
      using m pin q full safe by (auto simp: frame_ok_def fr same rp unpin_safe_def)
  qed (use m full bpm_inv_lru [OF inv] bpm_inv_dm [OF inv] in \<open>auto simp: fr rp same\<close>)
  moreover have "bpm_view s' = bpm_view s"
    using fr same by (auto simp: bpm_view_def fun_eq_iff split: option.splits)
  ultimately show ?thesis using that [OF s'] same fr by simp
qed

lemma bpm_flush_ok:
  assumes inv: "bpm_inv s" and q: "page_table s q = Some f"
  obtains s' where "bpm_flush_page s q = (Inr True, s')" "write_back s f q = (Inr (), s')" "bpm_inv s'"
    "bpm_view s \<subseteq>\<^sub>m bpm_view s'"
    "page_table s' = page_table s" "frame s' f = (frame s f)\<lparr>is_dirty := False\<rparr>" "\<And>g. g \<noteq> f \<Longrightarrow> frame s' g = frame s g"
    "dm_page (disk s') (pfd q) (ppage q) = bpm_view s q"
    "\<And>q' c. q' \<noteq> q \<Longrightarrow> dm_page (disk s) (pfd q') (ppage q') = Some c \<Longrightarrow> dm_page (disk s') (pfd q') (ppage q') = Some c"
proof -
  note m = bpm_inv_mapped_frame [OF inv q]
  obtain d where d: "write_back s f q = (Inr (), upd_frame (s\<lparr>disk := d\<rparr>) f (is_dirty_update (\<lambda>_. False)))"
    "dm_inv d" "posix_same (os (disk s)) (os d)" "dm_page d (pfd q) (ppage q) = Some (pg_data (frame s f))"
    "\<And>q' c. q' \<noteq> q \<Longrightarrow> dm_page (disk s) (pfd q') (ppage q') = Some c \<Longrightarrow> dm_page d (pfd q') (ppage q') = Some c"
    by (rule write_back_ok [OF bpm_inv_dm [OF inv] m(7,8)]) blast
  define s' where "s' = upd_frame (s\<lparr>disk := d\<rparr>) f (is_dirty_update (\<lambda>_. False))"
  have fr: "frame s' g = (if g = f then (frame s f)\<lparr>is_dirty := False\<rparr> else frame s g)" for g
    using m(1) by (simp add: s'_def)
  have fields: "page_table s' = page_table s" "free_list s' = free_list s" "disk s' = d" "repl s' = repl s"
    "length (pages s') = length (pages s)" by (simp_all add: s'_def)
  have addr': "addr_ok d = addr_ok (disk s)" using addr_ok_posix [OF d(3)] by (intro ext)
  have "bpm_inv s'"
  proof (rule bpm_inv_frame_change [OF inv q])
    show "frame_ok s' f" using m q d(4) by (simp add: frame_ok_def fr fields addr')
  qed (use m bpm_inv_lru [OF inv] d addr' in \<open>simp_all add: fr fields\<close>)
  moreover have "write_back s f q = (Inr (), s')" using d(1) by (simp add: s'_def)
  moreover have "bpm_flush_page s q = (Inr True, s')" by (simp add: bpm_flush_page_def q d(1) s'_def)
  moreover have "bpm_view s \<subseteq>\<^sub>m bpm_view s'"
  proof (rule map_leI)
    show "bpm_view s' r = Some c" if "bpm_view s r = Some c" for r c
      using that d(5) [of r c] q by (cases "r = q"; cases "page_table s r") (auto simp: bpm_view_def fields fr)
  qed
  ultimately show ?thesis
    using that by (simp add: fr fields bpm_view_def q d(4,5))
qed

text \<open>
  The flush loops: every page they visit and find dirty is on disk afterwards with the content
  a client sees, and an unpinned clean one already was.
\<close>

definition on_disk :: "bpm \<Rightarrow> page_id \<Rightarrow> bool" where
  "on_disk s q \<longleftrightarrow> dm_page (disk s) (pfd q) (ppage q) = bpm_view s q"

lemma flush_loop_ok:
  assumes "bpm_inv s"
  shows "\<exists>s'. flush_loop s sel ord = (Inr (), s') \<and> bpm_inv s' \<and> bpm_view s \<subseteq>\<^sub>m bpm_view s' \<and>
           page_table s' = page_table s \<and>
           (\<forall>q. (on_disk s q \<and> bpm_view s q \<noteq> None \<or>
                 (q \<in> set ord \<and> sel q \<and> (\<exists>f. page_table s q = Some f \<and> is_dirty (frame s f)))) \<longrightarrow> on_disk s' q)"
  using assms
proof (induction ord arbitrary: s)
  case (Cons q qs)
  show ?case
  proof (cases "\<exists>f. page_table s q = Some f \<and> sel q \<and> is_dirty (frame s f)")
    case False
    then have "flush_loop s sel (q # qs) = flush_loop s sel qs" by (auto split: option.splits)
    with False Cons show ?thesis by fastforce
  next
    case True
    then obtain f where f: "page_table s q = Some f" "sel q" "is_dirty (frame s f)" by blast
    note id = bpm_inv_mapped_frame(3) [OF Cons.prems f(1)]
    obtain s1 where s1: "write_back s f q = (Inr (), s1)" "bpm_inv s1" "bpm_view s \<subseteq>\<^sub>m bpm_view s1"
      "page_table s1 = page_table s" "frame s1 f = (frame s f)\<lparr>is_dirty := False\<rparr>" "\<And>g. g \<noteq> f \<Longrightarrow> frame s1 g = frame s g"
      "dm_page (disk s1) (pfd q) (ppage q) = bpm_view s q"
      "\<And>q' c. q' \<noteq> q \<Longrightarrow> dm_page (disk s) (pfd q') (ppage q') = Some c \<Longrightarrow> dm_page (disk s1) (pfd q') (ppage q') = Some c"
      by (rule bpm_flush_ok [OF Cons.prems f(1)]) blast
    have step: "flush_loop s sel (q # qs) = flush_loop s1 sel qs" using f id s1(1) by simp
    have v1: "bpm_view s1 r = bpm_view s r" if "bpm_view s r \<noteq> None" for r
      using that map_leD [OF s1(3)] by fastforce
    have vq: "bpm_view s q \<noteq> None" by (simp add: bpm_view_def f)
    have q1: "on_disk s1 q" using s1(7) v1 [OF vq] by (simp add: on_disk_def)
    have keep: "on_disk s1 r" if "on_disk s r" "bpm_view s r \<noteq> None" for r
      using that q1 s1(8) [of r] v1 [of r] by (cases "r = q") (auto simp: on_disk_def)
    have dirty: "is_dirty (frame s1 g)" if "page_table s r = Some g" "is_dirty (frame s g)" "r \<noteq> q" for r g
      using that s1(6) [of g] bpm_inv_mapped_frame(3) [OF Cons.prems, of r g] id by (cases "g = f") auto
    from Cons.IH [OF s1(2)] obtain s' where s': "flush_loop s1 sel qs = (Inr (), s')" "bpm_inv s'" "bpm_view s1 \<subseteq>\<^sub>m bpm_view s'"
      "page_table s' = page_table s1"
      "\<And>r. on_disk s1 r \<and> bpm_view s1 r \<noteq> None \<or> (r \<in> set qs \<and> sel r \<and> (\<exists>f. page_table s1 r = Some f \<and> is_dirty (frame s1 f))) \<Longrightarrow> on_disk s' r"
      by blast
    have "on_disk s' r" if "on_disk s r \<and> bpm_view s r \<noteq> None \<or>
        (r \<in> set (q # qs) \<and> sel r \<and> (\<exists>f. page_table s r = Some f \<and> is_dirty (frame s f)))" for r
    proof (cases "r = q")
      case True
      then show ?thesis using q1 vq v1 by (intro s'(5)) auto
    next
      case False
      with that show ?thesis using keep [of r] v1 [of r] dirty [of r] s1(4) by (intro s'(5)) auto
    qed
    with s' s1(3,4) step map_le_trans show ?thesis by (metis (no_types, lifting))
  qed
qed auto

text \<open>A new page is the next number of its file; it starts as zeros, pinned once.\<close>

lemma bpm_hole_disk:
  assumes "bpm_hole s f" and "dm_inv d" and "dm_page d = dm_page (disk s)" and "addr_ok d = addr_ok (disk s)"
  shows "bpm_hole (s\<lparr>disk := d\<rparr>) f" and "hole_view (s\<lparr>disk := d\<rparr>) f = hole_view s f"
proof -
  note h = bpm_holeD [OF assms(1)]
  have "frame_ok (s\<lparr>disk := d\<rparr>) g = frame_ok s g" for g using assms(3,4) by (simp add: frame_ok_def)
  then show "bpm_hole (s\<lparr>disk := d\<rparr>) f"
    using h assms(2,4) by (intro bpm_holeI) simp_all
  show "hole_view (s\<lparr>disk := d\<rparr>) f = hole_view s f"
    by (auto simp: hole_view_def bpm_view_def assms(3) fun_eq_iff split: option.splits)
qed

lemma bpm_new_page_ok:
  assumes inv: "bpm_inv s" and fd: "0 \<le> fd" "fd < MAX_FD"
  defines "q \<equiv> mk_pid fd (fd2pageno (disk s) fd)"
  assumes q: "page_table s q = None"
    and addr: "addr_ok (disk s) fd (ppage q) PAGE_SIZE" and stale: "no_stale s q" and room: "bpm_room s"
  obtains f s' where "bpm_new_page s fd = (Inr (Some (q, f)), s')" "bpm_inv s'" "page_table s' q = Some f"
    "pg_data (frame s' f) = zero_page" "pin_count (frame s' f) = 1"
    "\<And>q' c. q' \<noteq> q \<Longrightarrow> bpm_view s q' = Some c \<Longrightarrow> bpm_view s' q' = Some c"
    "posix_same (os (disk s)) (os (disk s'))"
proof -
  obtain f s0 where v: "find_victim_page s = (Some f, s0)"
    using find_victim_page_None [OF inv] room by (cases "find_victim_page s") (auto simp: bpm_room_def)
  note fv = find_victim_page_hole [OF inv v]
  define d where "d = (disk s)\<lparr>fd2pageno := (fd2pageno (disk s))(fd := fd2pageno (disk s) fd + 1)\<rparr>"
  define s1 where "s1 = s0\<lparr>disk := d\<rparr>"
  have al: "dm_allocate_page (disk s0) fd = (Inr (ppage q), d)"
    using fd addr by (simp add: dm_allocate_page_def d_def fv(3) q_def addr_ok_def wrap32_id int_range_def)
  have dd: "dm_inv d" "dm_page d = dm_page (disk s0)" "addr_ok d = addr_ok (disk s0)" "os d = os (disk s)"
    using bpm_inv_dm [OF inv] by (simp_all add: d_def fv(3) dm_page_def dm_file_def addr_ok_def fun_eq_iff)
  note hd = bpm_hole_disk [OF fv(1) dd(1,2,3), folded s1_def]
  note h = bpm_holeD [OF hd(1)]
  have q1: "page_table s1 q = None" using fv(6) [OF q] by (simp add: s1_def)
  obtain s2 where u: "update_page s1 f q = (Inr (), s2)"
    and s2: "s2 = upd_frame (s1\<lparr>disk := disk s2, page_table := (page_table s1)(q \<mapsto> f)\<rparr>) f
                (\<lambda>p. p\<lparr>pg_data := zero_page, pg_id := q, is_dirty := False\<rparr>)"
    and d2: "dm_inv (disk s2)" "posix_same (os (disk s1)) (os (disk s2))"
      "\<And>q' c. page_table s1 q' = None \<Longrightarrow> hole_view s1 f q' = Some c \<Longrightarrow> dm_page (disk s2) (pfd q') (ppage q') = Some c"
      "\<And>q' c. q' \<noteq> pg_id (frame s1 f) \<Longrightarrow> dm_page (disk s1) (pfd q') (ppage q') = Some c \<Longrightarrow>
           dm_page (disk s2) (pfd q') (ppage q') = Some c"
    by (rule update_page_hole [OF hd(1) q1]) blast
  have f2e: "pages s2 = (pages s1)[f := (pages s1 ! f)\<lparr>pg_data := zero_page, pg_id := q, is_dirty := False\<rparr>]"
      "page_table s2 = (page_table s1)(q \<mapsto> f)" "free_list s2 = free_list s1" "repl s2 = repl s1"
    by (subst s2, simp add: upd_frame_def)+
  define s' where "s' = upd_frame (s1\<lparr>disk := disk s2, page_table := (page_table s1)(q \<mapsto> f), repl := lru_pin (repl s1) f\<rparr>) f
      (\<lambda>p. p\<lparr>pg_data := zero_page, pg_id := q, is_dirty := False, pin_count := 1\<rparr>)"
  have fin: "pin_frame s2 f = s'"
    using h(6) f2e by (intro bpm.equality) (simp_all add: pin_frame_def s'_def upd_frame_def frame_def)
  have "mk_pid fd (ppage q) = q" by (simp add: q_def)
  then have res: "bpm_new_page s fd = (Inr (Some (q, f)), s')"
    using fin u by (simp add: bpm_new_page_def v al s1_def)
  have inv': "bpm_inv s'"
    unfolding s'_def
  proof (rule hole_filled [OF hd(1) q1 _ _ d2(1,2) d2(4)])
    show "addr_ok (disk s1) (pfd q) (ppage q) PAGE_SIZE"
      using addr by (simp add: s1_def dd(3) fv(3)) (simp add: q_def)
    show "no_stale s1 q"
      using fv(4) subset_trans [OF fv(5), of "set (free_list s)"]
      by (intro no_stale_subset [OF _ _ stale]) (simp_all add: s1_def, cases "free_list s", auto)
  qed simp_all
  have fr: "frame s' f = (frame s1 f)\<lparr>pg_data := zero_page, pg_id := q, is_dirty := False, pin_count := 1\<rparr>"
    using h(6) by (simp add: s'_def)
  show ?thesis
  proof (rule that [OF res inv'])
    show "bpm_view s' q' = Some c" if "q' \<noteq> q" "bpm_view s q' = Some c" for q' c
      unfolding s'_def by (rule hole_filled_view [OF hd(1) _ d2(3) that]) (use fv(2) hd(2) in simp_all)
    show "posix_same (os (disk s)) (os (disk s'))" using d2(2) by (simp add: s'_def s1_def dd(4))
  qed (simp_all add: fr, simp add: s'_def)
qed

text \<open>
  Deleting a page. Its content goes to disk first if it was dirty, so the page is still seen;
  the frame becomes free but keeps its old identifier, which is why \<open>no_stale\<close> is a
  condition of the operations that map a page.
\<close>

lemma release_frame_ok:
  assumes inv: "bpm_inv s" and q: "page_table s q = Some f"
    and pin: "pin_count (frame s f) = 0" and clean: "\<not> is_dirty (frame s f)"
  shows "bpm_inv (release_frame s q f)" and "bpm_view (release_frame s q f) = bpm_view s"
    and "\<not> no_stale (release_frame s q f) q"
proof -
  note m = bpm_inv_mapped_frame [OF inv q]
  let ?s = "release_frame s q f"
  have fr: "frame ?s g = (if g = f then (frame s f)\<lparr>pg_data := zero_page\<rparr> else frame s g)" for g
    using m(1) by (simp add: release_frame_def)
  have fields: "page_table ?s = (page_table s)(q := None)" "free_list ?s = free_list s @ [f]"
      "length (pages ?s) = length (pages s)" "disk ?s = disk s" "repl ?s = repl s"
    by (simp_all add: release_frame_def)
  have tab: "page_table s r = Some g \<Longrightarrow> r \<noteq> q \<Longrightarrow> g \<noteq> f" for r g
    using bpm_inv_mapped_frame(3) [OF inv, of r g] m(3) by auto
  show "bpm_inv ?s"
  proof (rule bpm_invI)
    show "g < length (pages ?s) \<and> g \<notin> set (free_list ?s) \<and> pg_id (frame ?s g) = r"
      if "page_table ?s r = Some g" for r g
    proof -
      have r: "page_table s r = Some g" "r \<noteq> q" using that by (auto simp: fields split: if_splits)
      then show ?thesis using bpm_inv_table [OF inv r(1)] tab [OF r] by (simp add: fields fr)
    qed
    show "frame_ok ?s g" if g: "g < length (pages ?s)" for g
    proof (cases "g = f")
      case False
      have "g \<notin> set (free_list s) \<Longrightarrow> pg_id (frame s g) \<noteq> q"
        using bpm_inv_frame [OF inv] g False q by (auto simp: frame_ok_def fields)
      then show ?thesis
        using bpm_inv_frame [OF inv, of g] g False by (auto simp: frame_ok_def fr fields)
    qed (use m pin clean in \<open>simp add: frame_ok_def fr fields\<close>)
  qed (use bpm_inv_lru [OF inv] bpm_inv_dm [OF inv] bpm_inv_distinct [OF inv] bpm_inv_free [OF inv]
       bpm_inv_evict [OF inv] m in \<open>auto simp: fields\<close>)
  have "bpm_view ?s r = bpm_view s r" for r
    using tab [of r] m(6) [OF pin clean] q
    by (cases "r = q"; cases "page_table s r") (auto simp: bpm_view_def fields fr)
  then show "bpm_view ?s = bpm_view s" by (rule ext)
  show "\<not> no_stale ?s q" using m(3) by (auto simp: no_stale_def fields fr)
qed

lemma bpm_delete_ok:
  assumes inv: "bpm_inv s"
  obtains b s' where "bpm_delete_page s q = (Inr b, s')" "bpm_inv s'" "bpm_view s \<subseteq>\<^sub>m bpm_view s'"
    "b \<longleftrightarrow> page_table s' q = None"
    "\<not> b \<longleftrightarrow> (\<exists>f. page_table s q = Some f \<and> pin_count (frame s f) \<noteq> 0)"
proof (cases "page_table s q")
  case None
  then show ?thesis using that [of True s] inv by (simp add: bpm_delete_page_def)
next
  case (Some f)
  note m = bpm_inv_mapped_frame [OF inv Some]
  show ?thesis
  proof (cases "pin_count (frame s f) = 0")
    case False
    then show ?thesis using that [of False s] inv Some by (simp add: bpm_delete_page_def)
  next
    case True
    obtain s1 where s1: "(if is_dirty (frame s f) then write_back s f q else (Inr (), s)) = (Inr (), s1)"
      "bpm_inv s1" "bpm_view s \<subseteq>\<^sub>m bpm_view s1" "page_table s1 q = Some f"
      "frame s1 f = (frame s f)\<lparr>is_dirty := False\<rparr>"
    proof (cases "is_dirty (frame s f)")
      case True
      then show ?thesis using that Some by (auto intro: bpm_flush_ok [OF inv Some])
    next
      case False
      then have "frame s f = (frame s f)\<lparr>is_dirty := False\<rparr>" by (cases "frame s f") simp
      with that inv Some False show ?thesis by simp
    qed
    have p1: "pin_count (frame s1 f) = 0" "\<not> is_dirty (frame s1 f)" using True s1(5) by simp_all
    note r = release_frame_ok [OF s1(2,4) p1]
    have "page_table (release_frame s1 q f) q = None" by (simp add: release_frame_def)
    with that [of True "release_frame s1 q f"] r s1 True Some show ?thesis
      by (simp add: bpm_delete_page_def)
  qed
qed

section \<open>Pins, free frames and page numbers\<close>

definition pins :: "bpm \<Rightarrow> frame_id \<Rightarrow> int" where
  "pins s f = pin_count (frame s f)"

lemma dm_write_page_next [simp]: "fd2pageno (snd (dm_write_page d fd p bs)) = fd2pageno d"
  using dm_write_page_same [of d fd p bs] by auto

lemma dm_read_page_next [simp]: "fd2pageno (snd (snd (dm_read_page d fd p buf n))) = fd2pageno d"
  using dm_read_page_same [of d fd p buf n] by auto

lemma frame_upd_pin:
  "pin_count (frame (upd_frame s f g) h) =
     (if h = f \<and> f < length (pages s) then pin_count (g (frame s f)) else pin_count (frame s h))"
  by (cases "f < length (pages s)") (auto simp: frame_def upd_frame_def nth_list_update_if list_update_beyond not_less)

lemma frame_upd_id:
  "pg_id (frame (upd_frame s f g) h) =
     (if h = f \<and> f < length (pages s) then pg_id (g (frame s f)) else pg_id (frame s h))"
  by (cases "f < length (pages s)") (auto simp: frame_def upd_frame_def nth_list_update_if list_update_beyond not_less)

lemma write_back_keeps:
  "pins (snd (write_back s f q)) = pins s" "free_list (snd (write_back s f q)) = free_list s"
  "fd2pageno (disk (snd (write_back s f q))) = fd2pageno (disk s)"
  "length (pages (snd (write_back s f q))) = length (pages s)"
  "page_table (snd (write_back s f q)) = page_table s"
  "pg_id (frame (snd (write_back s f q)) g) = pg_id (frame s g)"
  using dm_write_page_next [of "disk s" "pfd q" "ppage q" "pg_data (frame s f)"]
  by (cases "dm_write_page (disk s) (pfd q) (ppage q) (pg_data (frame s f))",
      auto simp: write_back_def pins_def fun_eq_iff frame_upd_pin frame_upd_id split: sum.splits)+

lemma update_page_keeps:
  assumes "update_page s f q = (Inr (), s')"
  shows "pins s' = pins s" "free_list s' = free_list s" "fd2pageno (disk s') = fd2pageno (disk s)"
    and "length (pages s') = length (pages s)"
    and "g \<noteq> f \<Longrightarrow> pg_id (frame s' g) = pg_id (frame s g)"
    and "page_table s' = (page_table s)(pg_id (frame s f) := None, q \<mapsto> f)"
  using assms write_back_keeps [of s f "pg_id (frame s f)"]
  by (auto simp: update_page_def pins_def fun_eq_iff frame_upd_pin frame_upd_id split: if_splits prod.splits sum.splits)

lemma find_victim_keeps:
  assumes "bpm_inv s" and "find_victim_page s = (Some f, s1)"
  shows "pins s1 = pins s" "pages s1 = pages s" "disk s1 = disk s" "f < length (pages s)" "pins s f = 0"
    and "set (free_list s1) = set (free_list s) - {f}"
    and "page_table s1 r = Some g \<Longrightarrow> page_table s r = Some g"
proof -
  show "pins s1 = pins s" "pages s1 = pages s" "disk s1 = disk s"
    "page_table s1 r = Some g \<Longrightarrow> page_table s r = Some g"
    using assms(2) by (auto simp: find_victim_page_def pins_def fun_eq_iff split: list.splits prod.splits option.splits if_splits)
  show "f < length (pages s)" using bpm_holeD(6) [OF find_victim_page_hole(1) [OF assms]]
    by (simp add: find_victim_page_hole(4) [OF assms])
  show "pins s f = 0 " "set (free_list s1) = set (free_list s) - {f}"
  proof (atomize (full), cases "free_list s")
    case Nil
    then obtain r where "lru_victim (repl s) = (Some f, r)" "s1 = s\<lparr>repl := r, page_table := (page_table s)(pg_id (frame s f) := None)\<rparr>"
      using assms(2) by (auto simp: find_victim_page_def split: prod.splits option.splits)
    with find_victim_lru(4) [OF assms(1) Nil] Nil show "pins s f = 0 \<and> set (free_list s1) = set (free_list s) - {f}"
      by (simp add: pins_def)
  next
    case (Cons g fs)
    with assms(2) have [simp]: "g = f" "s1 = s\<lparr>free_list := fs\<rparr>" by (simp_all add: find_victim_page_def)
    have "frame_ok s f" using bpm_inv_frame [OF assms(1)] bpm_inv_free [OF assms(1), of f] Cons by simp
    with Cons bpm_inv_distinct [OF assms(1)] show "pins s f = 0 \<and> set (free_list s1) = set (free_list s) - {f}"
      by (auto simp: frame_ok_def pins_def)
  qed
qed

text \<open>Among the frames of the pool, one with no pins is there whenever a victim can be found.\<close>

lemma bpm_room_pins: "bpm_inv s \<Longrightarrow> bpm_room s \<longleftrightarrow> (\<exists>f < length (pages s). pins s f = 0)"
proof
  assume inv: "bpm_inv s" and "bpm_room s"
  then obtain f s1 where "find_victim_page s = (Some f, s1)"
    using find_victim_page_None [OF inv] by (cases "find_victim_page s") (auto simp: bpm_room_def)
  from find_victim_keeps(4,5) [OF inv this] show "\<exists>f < length (pages s). pins s f = 0" by blast
next
  assume inv: "bpm_inv s" and "\<exists>f < length (pages s). pins s f = 0"
  then obtain f where f: "f < length (pages s)" "pins s f = 0" by blast
  with bpm_inv_frame [OF inv f(1)] show "bpm_room s"
    by (cases "f \<in> set (free_list s)") (auto simp: bpm_room_def frame_ok_def pins_def)
qed

section \<open>The client's state and the page-store contract\<close>

text \<open>
  As long as no page is deleted, free frames still have the page number -1 they were created
  with, and every page in the pool has a number below its file's allocation counter.
\<close>

definition bpm_ok :: "bpm \<Rightarrow> bool" where
  "bpm_ok s \<longleftrightarrow> bpm_inv s \<and> (\<forall>g \<in> set (free_list s). ppage (pg_id (frame s g)) = INVALID_PAGE_ID) \<and>
     (\<forall>q f. page_table s q = Some f \<longrightarrow> 0 \<le> ppage q \<and> ppage q < fd2pageno (disk s) (pfd q))"

definition bpm_avail :: "bpm \<Rightarrow> page_id \<Rightarrow> bool" where
  "bpm_avail s q \<longleftrightarrow> addr_ok (disk s) (pfd q) (ppage q) PAGE_SIZE \<and> ppage q < fd2pageno (disk s) (pfd q)"

definition bpm_can_new :: "bpm \<Rightarrow> int \<Rightarrow> bool" where
  "bpm_can_new s fd \<longleftrightarrow> 0 \<le> fd \<and> fd < MAX_FD \<and> addr_ok (disk s) fd (fd2pageno (disk s) fd) PAGE_SIZE"

lemma bpm_ok_new: "dm_inv d \<Longrightarrow> bpm_ok (bpm_new n junk d)"
  using bpm_inv_new [of d n junk] by (auto simp: bpm_ok_def bpm_new_def frame_def)

lemma bpm_okD:
  assumes "bpm_ok s"
  shows "bpm_inv s" and "0 \<le> ppage q \<Longrightarrow> no_stale s q"
    and "page_table s q = Some f \<Longrightarrow> 0 \<le> ppage q \<and> ppage q < fd2pageno (disk s) (pfd q)"
    and "g \<in> set (free_list s) \<Longrightarrow> ppage (pg_id (frame s g)) = INVALID_PAGE_ID"
  using assms by (auto simp: bpm_ok_def no_stale_def INVALID_PAGE_ID_def)

lemma bpm_fetch_keeps:
  assumes ok: "bpm_ok s" and av: "bpm_avail s q" and f: "bpm_fetch_page s q = (Inr (Some f), s')" and inv': "bpm_inv s'"
  shows "bpm_ok s'" and "pins s' = (pins s)(f := pins s f + 1)" and "length (pages s') = length (pages s)"
    and "fd2pageno (disk s') = fd2pageno (disk s)"
    and "page_table s' r \<noteq> None \<Longrightarrow> r = q \<or> page_table s r \<noteq> None"
proof -
  note inv = bpm_okD(1) [OF ok]
  have "pins s' = (pins s)(f := pins s f + 1) \<and> length (pages s') = length (pages s) \<and>
      fd2pageno (disk s') = fd2pageno (disk s) \<and>
      (\<forall>g \<in> set (free_list s'). ppage (pg_id (frame s' g)) = INVALID_PAGE_ID) \<and>
      (\<forall>r g. page_table s' r = Some g \<longrightarrow> r = q \<or> page_table s r \<noteq> None)"
  proof (cases "page_table s q")
    case (Some h)
    then have s': "h = f" "s' = upd_frame (s\<lparr>repl := lru_pin (repl s) f\<rparr>) f (pin_count_update (\<lambda>c. c + 1))"
      using f by (auto simp: bpm_fetch_page_def)
    with bpm_inv_mapped_frame(1) [OF inv Some] bpm_okD(4) [OF ok] show ?thesis
      by (simp add: pins_def fun_eq_iff frame_upd_pin frame_upd_id)
  next
    case None
    obtain s1 s2 d buf where v: "find_victim_page s = (Some f, s1)" and u: "update_page s1 f q = (Inr (), s2)"
      and r: "dm_read_page (disk s2) (pfd q) (ppage q) (pg_data (frame s2 f)) PAGE_SIZE = (buf, Inr (), d)"
      and s': "s' = pin_frame (upd_frame (s2\<lparr>disk := d\<rparr>) f (pg_data_update (\<lambda>_. buf))) f"
      using f None by (auto simp: bpm_fetch_page_def Let_def split: prod.splits option.splits sum.splits)
    note fv = find_victim_keeps [OF inv v] and u = update_page_keeps [OF u]
    have nx: "fd2pageno d = fd2pageno (disk s2)"
      using dm_read_page_next [of "disk s2" "pfd q" "ppage q" "pg_data (frame s2 f)" PAGE_SIZE] by (simp add: r)
    have p: "pins s' = (pins s)(f := 1)"
      using u(1,4) fv(1,2,4) by (simp add: s' pins_def fun_eq_iff pin_frame_def frame_upd_pin)
    have id: "ppage (pg_id (frame s' g)) = INVALID_PAGE_ID" if "g \<in> set (free_list s')" for g
    proof -
      have g: "g \<noteq> f" "g \<in> set (free_list s)" using that fv(6) by (auto simp: s' pin_frame_def u(2))
      have "pg_id (frame s' g) = pg_id (frame s2 g)" using g(1) by (simp add: s' pin_frame_def frame_upd_id)
      also have "\<dots> = pg_id (frame s g)" using u(5) [OF g(1)] fv(2) by (simp add: frame_def)
      finally show ?thesis using bpm_okD(4) [OF ok g(2)] by simp
    qed
    have t: "r = q \<or> page_table s r \<noteq> None" if "page_table s' r = Some g" for r g
      using that fv(7) [of r g] by (auto simp: s' pin_frame_def u(6) split: if_splits)
    show ?thesis using p id t fv(5) nx u(3,4) fv(2,3) by (auto simp: s' pin_frame_def)
  qed
  then show "pins s' = (pins s)(f := pins s f + 1)" "length (pages s') = length (pages s)"
    "fd2pageno (disk s') = fd2pageno (disk s)" and "bpm_ok s'"
    and "page_table s' r \<noteq> None \<Longrightarrow> r = q \<or> page_table s r \<noteq> None"
    using inv' av bpm_okD(3) [OF ok] by (force simp: bpm_ok_def bpm_avail_def addr_ok_def)+
qed

end
