(* ===== verification/Page_Store.thy ===== *)
theory Page_Store
  imports Buffer_Pool
begin

text \<open>
  The contract between the buffer pool and the layers above it (record files, index files):
  a store of pages that are fetched, changed through the pointer and unpinned. The locale
  \<open>page_store\<close> states it; the buffer pool model interprets it, and the record and index layers
  rest on its client lemmas: reading a page, updating a page, appending a page.
\<close>

section \<open>What fetching and unpinning keep\<close>

lemma bpm_fetch_safe:
  assumes ok: "bpm_ok s" and c: "bpm_view s q = Some c" and av: "bpm_avail s q"
    and room: "\<exists>f < length (pages s). pins s f = 0"
  obtains f s' where "bpm_fetch_page s q = (Inr (Some f), s')" "bpm_ok s'" "page_table s' q = Some f"
    "pg_data (frame s' f) = c" "pins s' = (pins s)(f := pins s f + 1)" "0 \<le> pins s f"
    "bpm_view s \<subseteq>\<^sub>m bpm_view s'" "posix_same (os (disk s)) (os (disk s'))"
    "length (pages s') = length (pages s)" "fd2pageno (disk s') = fd2pageno (disk s)"
    "unpin_safe s' q False" "\<And>r. page_table s' r \<noteq> None \<Longrightarrow> r = q \<or> page_table s r \<noteq> None"
proof -
  note inv = bpm_okD(1) [OF ok]
  have r: "bpm_room s" using room bpm_room_pins [OF inv] by blast
  have a: "addr_ok (disk s) (pfd q) (ppage q) PAGE_SIZE" "no_stale s q"
    using av bpm_okD(2) [OF ok, of q] by (simp_all add: bpm_avail_def addr_ok_def)
  show ?thesis
  proof (cases "page_table s q")
    case (Some f)
    note m = bpm_fetch_mapped [OF inv Some] bpm_inv_mapped_frame [OF inv Some]
    let ?s = "upd_frame (s\<lparr>repl := lru_pin (repl s) f\<rparr>) f (pin_count_update (\<lambda>c. c + 1))"
    note k = bpm_fetch_keeps [OF ok av m(1,2)]
    have "unpin_safe ?s q False"
      using m Some by (auto simp: unpin_safe_def)
    then show ?thesis
      by (intro that [OF m(1) k(1)]) (use k(2-4) m Some c in \<open>simp_all add: bpm_view_def pins_def\<close>)
  next
    case None
    obtain f s' where s': "bpm_fetch_page s q = (Inr (Some f), s')" "bpm_inv s'" "page_table s' q = Some f"
      "pg_data (frame s' f) = c" "pin_count (frame s' f) = 1" "bpm_view s \<subseteq>\<^sub>m bpm_view s'"
      "posix_same (os (disk s)) (os (disk s'))" "dm_page (disk s') (pfd q) (ppage q) = Some c"
      by (rule bpm_fetch_unmapped [OF inv None c a r]) blast
    note k = bpm_fetch_keeps [OF ok av s'(1,2)]
    have "pins s f + 1 = 1" using k(2) s'(5) by (simp add: pins_def fun_eq_iff)
    then show ?thesis
      by (intro that [OF s'(1) k(1)]) (use k(2-4) s' in \<open>simp_all add: unpin_safe_def\<close>, use k(5) in blast)
  qed
qed

lemma bpm_unpin_keeps:
  assumes ok: "bpm_ok s" and q: "page_table s q = Some f" and pin: "0 < pins s f" and safe: "unpin_safe s q dirty"
  obtains s' where "bpm_unpin_page s q dirty = (True, s')" "bpm_ok s'" "bpm_view s' = bpm_view s"
    "pins s' = (pins s)(f := pins s f - 1)" "length (pages s') = length (pages s)" "disk s' = disk s"
    "page_table s' = page_table s"
proof -
  note inv = bpm_okD(1) [OF ok]
  have p: "0 < pin_count (frame s f)" using pin by (simp add: pins_def)
  obtain s' where s': "bpm_unpin_page s q dirty = (True, s')"
    and same: "page_table s' = page_table s" "free_list s' = free_list s" "length (pages s') = length (pages s)"
      "disk s' = disk s"
    and fr: "\<And>g. frame s' g = (if g = f then (frame s f)\<lparr>pin_count := pin_count (frame s f) - 1,
            is_dirty := is_dirty (frame s f) \<or> dirty\<rparr> else frame s g)"
    by (rule bpm_unpin_fields [OF inv q p]) blast
  obtain s'' where "bpm_unpin_page s q dirty = (True, s'')" "bpm_inv s''" "bpm_view s'' = bpm_view s"
    by (rule bpm_unpin_ok [OF inv q p safe]) blast
  with s' have v: "bpm_inv s'" "bpm_view s' = bpm_view s" by simp_all
  have "bpm_ok s'"
    using ok v(1) same by (auto simp: bpm_ok_def fr)
  then show ?thesis
    by (rule that [OF s']) (use v same in \<open>simp_all add: fr pins_def fun_eq_iff\<close>)
qed

lemma bpm_store_keeps:
  assumes ok: "bpm_ok s" and q: "page_table s q = Some f" and pin: "0 < pins s f" and len: "length bs = PAGE_SIZE"
  shows "bpm_ok (bpm_store s f bs)" and "pins (bpm_store s f bs) = pins s"
    and "bpm_view (bpm_store s f bs) = (bpm_view s)(q \<mapsto> bs)" and "pg_data (frame (bpm_store s f bs) f) = bs"
    and "length (pages (bpm_store s f bs)) = length (pages s)" "disk (bpm_store s f bs) = disk s"
    and "page_table (bpm_store s f bs) = page_table s"
proof -
  note inv = bpm_okD(1) [OF ok]
  have p: "0 < pin_count (frame s f)" using pin by (simp add: pins_def)
  note st = bpm_store_ok [OF inv q p len] and m = bpm_inv_mapped_frame [OF inv q]
  show "pins (bpm_store s f bs) = pins s" by (simp add: pins_def bpm_store_def fun_eq_iff frame_upd_pin)
  show "bpm_view (bpm_store s f bs) = (bpm_view s)(q \<mapsto> bs)" by (rule st(2))
  show "pg_data (frame (bpm_store s f bs) f) = bs" using m(1) by (simp add: bpm_store_def)
  show "length (pages (bpm_store s f bs)) = length (pages s)" "disk (bpm_store s f bs) = disk s"
    "page_table (bpm_store s f bs) = page_table s"
    by (simp_all add: bpm_store_def)
  show "bpm_ok (bpm_store s f bs)"
    using ok st(1) by (simp add: bpm_ok_def bpm_store_def frame_upd_id)
qed

lemma bpm_new_page_keeps:
  assumes ok: "bpm_ok s" and can: "bpm_can_new s fd" and room: "\<exists>f < length (pages s). pins s f = 0"
  defines "q \<equiv> mk_pid fd (fd2pageno (disk s) fd)"
  obtains f s' where "bpm_new_page s fd = (Inr (Some (q, f)), s')" "bpm_ok s'" "page_table s' q = Some f"
    "pg_data (frame s' f) = zero_page" "pins s' = (pins s)(f := pins s f + 1)" "pins s f = 0"
    "\<And>q' c. q' \<noteq> q \<Longrightarrow> bpm_view s q' = Some c \<Longrightarrow> bpm_view s' q' = Some c"
    "posix_same (os (disk s)) (os (disk s'))" "length (pages s') = length (pages s)"
    "fd2pageno (disk s') = (fd2pageno (disk s))(fd := fd2pageno (disk s) fd + 1)"
    "\<And>r. page_table s' r \<noteq> None \<Longrightarrow> r = q \<or> page_table s r \<noteq> None"
proof -
  note inv = bpm_okD(1) [OF ok]
  have r: "bpm_room s" using room bpm_room_pins [OF inv] by blast
  have fd: "0 \<le> fd" "fd < MAX_FD" and a: "addr_ok (disk s) fd (ppage q) PAGE_SIZE"
    using can by (simp_all add: bpm_can_new_def q_def)
  have nn: "0 \<le> ppage q" using a by (simp add: addr_ok_def)
  have q: "page_table s q = None"
    using bpm_okD(3) [OF ok, of q] by (cases "page_table s q") (auto simp: q_def)
  obtain f s' where s': "bpm_new_page s fd = (Inr (Some (q, f)), s')" "bpm_inv s'" "page_table s' q = Some f"
    "pg_data (frame s' f) = zero_page" "pin_count (frame s' f) = 1"
    "\<And>q' c. q' \<noteq> q \<Longrightarrow> bpm_view s q' = Some c \<Longrightarrow> bpm_view s' q' = Some c"
    "posix_same (os (disk s)) (os (disk s'))"
    using bpm_new_page_ok [OF inv fd, folded q_def, OF q a bpm_okD(2) [OF ok nn] r] by metis
  obtain s1 d s2 where v: "find_victim_page s = (Some f, s1)" and al: "dm_allocate_page (disk s1) fd = (Inr (ppage q), d)"
    and u: "update_page (s1\<lparr>disk := d\<rparr>) f q = (Inr (), s2)" and e: "s' = pin_frame s2 f"
    using s'(1) by (auto simp: bpm_new_page_def split: prod.splits option.splits sum.splits)
  note fv = find_victim_keeps [OF inv v] and u = update_page_keeps [OF u]
  have d: "fd2pageno d = (fd2pageno (disk s))(fd := fd2pageno (disk s) fd + 1)"
    using al fd fv(3) a by (auto simp: dm_allocate_page_def addr_ok_def q_def wrap32_id int_range_def)
  have fr: "pins (s1\<lparr>disk := d\<rparr>) = pins s1" by (simp add: pins_def fun_eq_iff)
  have p: "pins s' = (pins s)(f := 1)"
    using u(1,4) fv(1,2,4) by (simp add: e pins_def fun_eq_iff pin_frame_def frame_upd_pin)
  have n: "fd2pageno (disk s') = (fd2pageno (disk s))(fd := fd2pageno (disk s) fd + 1)" "length (pages s') = length (pages s)"
    using u(3,4) d fv(2) by (simp_all add: e pin_frame_def)
  have id: "ppage (pg_id (frame s' g)) = INVALID_PAGE_ID" if "g \<in> set (free_list s')" for g
  proof -
    have g: "g \<noteq> f" "g \<in> set (free_list s)" using that fv(6) by (auto simp: e pin_frame_def u(2))
    have "pg_id (frame s' g) = pg_id (frame s2 g)" using g(1) by (simp add: e pin_frame_def frame_upd_id)
    also have "\<dots> = pg_id (frame s g)" using u(5) [OF g(1)] fv(2) by (simp add: frame_def)
    finally show ?thesis using bpm_okD(4) [OF ok g(2)] by simp
  qed
  have t: "0 \<le> ppage r \<and> ppage r < fd2pageno (disk s') (pfd r)" if "page_table s' r = Some g" for r g
  proof (cases "r = q")
    case True
    then show ?thesis using nn by (simp add: n q_def)
  next
    case False
    with that fv(7) [of r g] have "page_table s r = Some g" by (auto simp: e pin_frame_def u(6) split: if_splits)
    from bpm_okD(3) [OF ok this] show ?thesis by (auto simp: n)
  qed
  have ok': "bpm_ok s'" using s'(2) id t by (simp add: bpm_ok_def)
  have dom: "r = q \<or> page_table s r \<noteq> None" if "page_table s' r \<noteq> None" for r
    using that fv(7) [of r] by (auto simp: e pin_frame_def u(6) split: if_splits)
  show ?thesis by (rule that [OF s'(1) ok']) (use s' p n fv(5) in simp_all, use dom in blast)
qed

section \<open>The contract\<close>

text \<open>
  \<open>view\<close> is the content of every existing page, \<open>home\<close> the frame a page is held in, \<open>pin\<close> the
  number of holders of a frame. \<open>avail\<close> are the pages the store can serve and \<open>fresh\<close> the page
  the next allocation in a file returns. A holder that has not changed a page since it
  fetched it may unpin it clean: \<open>clean\<close>.
\<close>

locale page_store =
  fixes fetch :: "'s \<Rightarrow> page_id \<Rightarrow> (frame_id option, 's) outcome"
    and unpin :: "'s \<Rightarrow> page_id \<Rightarrow> bool \<Rightarrow> bool \<times> 's"
    and new :: "'s \<Rightarrow> int \<Rightarrow> ((page_id \<times> frame_id) option, 's) outcome"
    and store :: "'s \<Rightarrow> frame_id \<Rightarrow> bytes \<Rightarrow> 's"
    and content :: "'s \<Rightarrow> frame_id \<Rightarrow> bytes"
    and view :: "'s \<Rightarrow> page_id \<rightharpoonup> bytes"
    and home :: "'s \<Rightarrow> page_id \<rightharpoonup> frame_id"
    and pin :: "'s \<Rightarrow> frame_id \<Rightarrow> int"
    and size :: "'s \<Rightarrow> nat"
    and avail :: "'s \<Rightarrow> page_id \<Rightarrow> bool"
    and fresh :: "'s \<Rightarrow> int \<Rightarrow> page_id option"
    and clean :: "'s \<Rightarrow> page_id \<Rightarrow> bool"
    and ok :: "'s \<Rightarrow> bool"
  assumes fetch_spec: "\<lbrakk>ok s; view s q = Some c; avail s q; \<exists>f < size s. pin s f = 0\<rbrakk> \<Longrightarrow>
      \<exists>f s'. fetch s q = (Inr (Some f), s') \<and> ok s' \<and> home s' q = Some f \<and> content s' f = c \<and>
        pin s' = (pin s)(f := pin s f + 1) \<and> 0 \<le> pin s f \<and> view s \<subseteq>\<^sub>m view s' \<and> clean s' q \<and>
        size s' = size s \<and> avail s' = avail s \<and> fresh s' = fresh s \<and>
        (\<forall>r. home s' r \<noteq> None \<longrightarrow> r = q \<or> home s r \<noteq> None)"
    and store_spec: "\<lbrakk>ok s; home s q = Some f; 0 < pin s f; length bs = PAGE_SIZE\<rbrakk> \<Longrightarrow>
      ok (store s f bs) \<and> view (store s f bs) = (view s)(q \<mapsto> bs) \<and> content (store s f bs) f = bs \<and>
      pin (store s f bs) = pin s \<and> home (store s f bs) = home s \<and> size (store s f bs) = size s \<and>
      avail (store s f bs) = avail s \<and> fresh (store s f bs) = fresh s"
    and unpin_spec: "\<lbrakk>ok s; home s q = Some f; 0 < pin s f; d \<or> clean s q\<rbrakk> \<Longrightarrow>
      \<exists>s'. unpin s q d = (True, s') \<and> ok s' \<and> view s' = view s \<and> pin s' = (pin s)(f := pin s f - 1) \<and>
        home s' = home s \<and> size s' = size s \<and> avail s' = avail s \<and> fresh s' = fresh s"
    and new_spec: "\<lbrakk>ok s; fresh s fd = Some q; \<exists>f < size s. pin s f = 0\<rbrakk> \<Longrightarrow>
      \<exists>f s'. new s fd = (Inr (Some (q, f)), s') \<and> ok s' \<and> home s' q = Some f \<and> content s' f = zero_page \<and>
        pin s' = (pin s)(f := pin s f + 1) \<and> pin s f = 0 \<and>
        (\<forall>q' c. q' \<noteq> q \<longrightarrow> view s q' = Some c \<longrightarrow> view s' q' = Some c) \<and>
        size s' = size s \<and> avail s' q \<and> (\<forall>r. avail s r \<longrightarrow> avail s' r) \<and>
        (\<forall>fd'. fd' \<noteq> fd \<longrightarrow> fresh s' fd' = fresh s fd') \<and>
        (\<forall>r. home s' r \<noteq> None \<longrightarrow> r = q \<or> home s r \<noteq> None)"
begin

text \<open>Between two calls of a client nobody else holds a frame more or less than before.\<close>

definition same_use :: "'s \<Rightarrow> 's \<Rightarrow> bool" where
  "same_use s s' \<longleftrightarrow> ok s' \<and> pin s' = pin s \<and> size s' = size s \<and> avail s' = avail s \<and> fresh s' = fresh s"

lemma same_use_trans: "same_use s t \<Longrightarrow> same_use t u \<Longrightarrow> same_use s u"
  by (simp add: same_use_def)

lemma read_client:
  assumes "ok s" "view s q = Some c" "avail s q" "\<exists>f < size s. pin s f = 0"
  obtains f s1 s2 where "fetch s q = (Inr (Some f), s1)" "ok s1" "home s1 q = Some f" "content s1 f = c"
    "unpin s1 q False = (True, s2)" "same_use s s2" "view s \<subseteq>\<^sub>m view s2"
    "\<And>r. home s2 r \<noteq> None \<Longrightarrow> r = q \<or> home s r \<noteq> None"
proof -
  obtain f s1 where f: "fetch s q = (Inr (Some f), s1)" "ok s1" "home s1 q = Some f" "content s1 f = c"
    "pin s1 = (pin s)(f := pin s f + 1)" "0 \<le> pin s f" "view s \<subseteq>\<^sub>m view s1" "clean s1 q"
    "size s1 = size s" "avail s1 = avail s" "fresh s1 = fresh s"
    "\<And>r. home s1 r \<noteq> None \<Longrightarrow> r = q \<or> home s r \<noteq> None"
    using fetch_spec [OF assms] by blast
  have "0 < pin s1 f" using f(5,6) by simp
  then obtain s2 where u: "unpin s1 q False = (True, s2)" "ok s2" "view s2 = view s1" "pin s2 = (pin s1)(f := pin s1 f - 1)"
    "size s2 = size s1" "avail s2 = avail s1" "fresh s2 = fresh s1" "home s2 = home s1"
    using unpin_spec [OF f(2,3), of False] f(8) by blast
  have us: "same_use s s2" "view s \<subseteq>\<^sub>m view s2" using f u by (simp_all add: same_use_def)
  show ?thesis by (rule that [OF f(1-4) u(1) us]) (use f(12) u(8) in simp)
qed

lemma update_client:
  assumes "ok s" "view s q = Some c" "avail s q" "\<exists>f < size s. pin s f = 0" and len: "length (g c) = PAGE_SIZE"
  obtains f s1 s2 where "fetch s q = (Inr (Some f), s1)" "ok s1" "home s1 q = Some f" "content s1 f = c"
    "unpin (store s1 f (g c)) q True = (True, s2)" "same_use s s2"
    "view s2 q = Some (g c)" "\<And>q' c'. q' \<noteq> q \<Longrightarrow> view s q' = Some c' \<Longrightarrow> view s2 q' = Some c'"
    "\<And>r. home s2 r \<noteq> None \<Longrightarrow> r = q \<or> home s r \<noteq> None"
proof -
  obtain f s1 where f: "fetch s q = (Inr (Some f), s1)" "ok s1" "home s1 q = Some f" "content s1 f = c"
    "pin s1 = (pin s)(f := pin s f + 1)" "0 \<le> pin s f" "view s \<subseteq>\<^sub>m view s1"
    "size s1 = size s" "avail s1 = avail s" "fresh s1 = fresh s"
    "\<And>r. home s1 r \<noteq> None \<Longrightarrow> r = q \<or> home s r \<noteq> None"
    using fetch_spec [OF assms(1-4)] by blast
  have p: "0 < pin s1 f" using f(5,6) by simp
  note st = store_spec [OF f(2,3) p len]
  obtain s2 where u: "unpin (store s1 f (g c)) q True = (True, s2)" "ok s2" "view s2 = (view s1)(q \<mapsto> g c)"
    "pin s2 = (pin s1)(f := pin s1 f - 1)" "size s2 = size s1" "avail s2 = avail s1" "fresh s2 = fresh s1"
    "home s2 = home s1"
    using unpin_spec [of "store s1 f (g c)" q f True] st f(3) p by auto
  have us: "same_use s s2" "view s2 q = Some (g c)" using f u by (simp_all add: same_use_def)
  show ?thesis
  proof (rule that [OF f(1-4) u(1) us])
    show "view s2 q' = Some c'" if "q' \<noteq> q" "view s q' = Some c'" for q' c'
      using that map_leD [OF f(7)] by (simp add: u(3))
  qed (use f(11) u(8) in simp)
qed

end

definition bpm_fresh :: "bpm \<Rightarrow> int \<Rightarrow> page_id option" where
  "bpm_fresh s fd = (if bpm_can_new s fd then Some (mk_pid fd (fd2pageno (disk s) fd)) else None)"

lemma bpm_use_same:
  assumes "posix_same (os (disk s)) (os (disk s'))" "fd2pageno (disk s') = fd2pageno (disk s)"
  shows "bpm_avail s' = bpm_avail s" "bpm_fresh s' = bpm_fresh s"
  using addr_ok_posix [OF assms(1)] assms(2)
  by (simp_all add: bpm_avail_def bpm_fresh_def bpm_can_new_def fun_eq_iff)

interpretation bp: page_store bpm_fetch_page bpm_unpin_page bpm_new_page bpm_store
  "\<lambda>s f. pg_data (frame s f)" bpm_view page_table pins "\<lambda>s. length (pages s)" bpm_avail bpm_fresh
  "\<lambda>s q. unpin_safe s q False" bpm_ok
proof unfold_locales
  fix s :: bpm and q c
  assume a: "bpm_ok s" "bpm_view s q = Some c" "bpm_avail s q" "\<exists>f<length (pages s). pins s f = 0"
  show "\<exists>f s'. bpm_fetch_page s q = (Inr (Some f), s') \<and> bpm_ok s' \<and> page_table s' q = Some f \<and>
      pg_data (frame s' f) = c \<and> pins s' = (pins s)(f := pins s f + 1) \<and> 0 \<le> pins s f \<and>
      bpm_view s \<subseteq>\<^sub>m bpm_view s' \<and> unpin_safe s' q False \<and> length (pages s') = length (pages s) \<and>
      bpm_avail s' = bpm_avail s \<and> bpm_fresh s' = bpm_fresh s \<and>
      (\<forall>r. page_table s' r \<noteq> None \<longrightarrow> r = q \<or> page_table s r \<noteq> None)"
    by (rule bpm_fetch_safe [OF a]) (use bpm_use_same in blast)
next
  fix s :: bpm and q f and bs :: bytes
  assume a: "bpm_ok s" "page_table s q = Some f" "0 < pins s f" "length bs = PAGE_SIZE"
  note k = bpm_store_keeps [OF a]
  show "bpm_ok (bpm_store s f bs) \<and> bpm_view (bpm_store s f bs) = (bpm_view s)(q \<mapsto> bs) \<and>
      pg_data (frame (bpm_store s f bs) f) = bs \<and> pins (bpm_store s f bs) = pins s \<and>
      page_table (bpm_store s f bs) = page_table s \<and> length (pages (bpm_store s f bs)) = length (pages s) \<and>
      bpm_avail (bpm_store s f bs) = bpm_avail s \<and> bpm_fresh (bpm_store s f bs) = bpm_fresh s"
    using k bpm_use_same [of s "bpm_store s f bs"] by simp
next
  fix s :: bpm and q f d
  assume a: "bpm_ok s" "page_table s q = Some f" "0 < pins s f" "d \<or> unpin_safe s q False"
  have safe: "unpin_safe s q d" using a(4) by (cases d) (simp_all add: unpin_safe_def)
  show "\<exists>s'. bpm_unpin_page s q d = (True, s') \<and> bpm_ok s' \<and> bpm_view s' = bpm_view s \<and>
      pins s' = (pins s)(f := pins s f - 1) \<and> page_table s' = page_table s \<and>
      length (pages s') = length (pages s) \<and> bpm_avail s' = bpm_avail s \<and> bpm_fresh s' = bpm_fresh s"
    by (rule bpm_unpin_keeps [OF a(1-3) safe]) (use bpm_use_same in auto)
next
  fix s :: bpm and fd q
  assume a: "bpm_ok s" "bpm_fresh s fd = Some q" "\<exists>f<length (pages s). pins s f = 0"
  have can: "bpm_can_new s fd" and q: "q = mk_pid fd (fd2pageno (disk s) fd)"
    using a(2) by (auto simp: bpm_fresh_def split: if_splits)
  obtain f s' where s': "bpm_new_page s fd = (Inr (Some (q, f)), s')" "bpm_ok s'" "page_table s' q = Some f"
    "pg_data (frame s' f) = zero_page" "pins s' = (pins s)(f := pins s f + 1)" "pins s f = 0"
    "\<And>q' c. q' \<noteq> q \<Longrightarrow> bpm_view s q' = Some c \<Longrightarrow> bpm_view s' q' = Some c"
    "posix_same (os (disk s)) (os (disk s'))" "length (pages s') = length (pages s)"
    "fd2pageno (disk s') = (fd2pageno (disk s))(fd := fd2pageno (disk s) fd + 1)"
    "\<And>r. page_table s' r \<noteq> None \<Longrightarrow> r = q \<or> page_table s r \<noteq> None"
    by (rule bpm_new_page_keeps [OF a(1) can a(3), folded q]) blast
  have av: "bpm_avail s' q" "bpm_avail s r \<Longrightarrow> bpm_avail s' r" "fd' \<noteq> fd \<Longrightarrow> bpm_fresh s' fd' = bpm_fresh s fd'" for r fd'
    using can s'(10) addr_ok_posix [OF s'(8)] by (auto simp: bpm_avail_def bpm_can_new_def bpm_fresh_def q)
  show "\<exists>f s'. bpm_new_page s fd = (Inr (Some (q, f)), s') \<and> bpm_ok s' \<and> page_table s' q = Some f \<and>
      pg_data (frame s' f) = zero_page \<and> pins s' = (pins s)(f := pins s f + 1) \<and> pins s f = 0 \<and>
      (\<forall>q' c. q' \<noteq> q \<longrightarrow> bpm_view s q' = Some c \<longrightarrow> bpm_view s' q' = Some c) \<and>
      length (pages s') = length (pages s) \<and> bpm_avail s' q \<and> (\<forall>r. bpm_avail s r \<longrightarrow> bpm_avail s' r) \<and>
      (\<forall>fd'. fd' \<noteq> fd \<longrightarrow> bpm_fresh s' fd' = bpm_fresh s fd') \<and>
      (\<forall>r. page_table s' r \<noteq> None \<longrightarrow> r = q \<or> page_table s r \<noteq> None)"
    using s' av by blast
qed

section \<open>Pinned pages stay where they are\<close>

lemma update_page_data:
  "g \<noteq> f \<Longrightarrow> pg_data (frame (snd (update_page s f q)) g) = pg_data (frame s g)"
  "page_table (snd (update_page s f q)) r =
     (if fst (update_page s f q) = Inr () then ((page_table s)(pg_id (frame s f) := None, q \<mapsto> f)) r else page_table s r)"
proof -
  have fr: "g \<noteq> f \<Longrightarrow> frame (upd_frame t f h) g = frame t g" for t h
    by (cases "f < length (pages t)") (simp_all add: upd_frame_def frame_def list_update_beyond not_less)
  have wb: "g \<noteq> f \<Longrightarrow> frame (snd (write_back s f r)) g = frame s g" for r
    by (auto simp: write_back_def fr split: prod.splits sum.splits)
  show "g \<noteq> f \<Longrightarrow> pg_data (frame (snd (update_page s f q)) g) = pg_data (frame s g)"
    using wb [of "pg_id (frame s f)"] by (auto simp: update_page_def fr split: prod.splits sum.splits if_splits)
  show "page_table (snd (update_page s f q)) r =
     (if fst (update_page s f q) = Inr () then ((page_table s)(pg_id (frame s f) := None, q \<mapsto> f)) r else page_table s r)"
    using write_back_keeps(5,6) [of s f "pg_id (frame s f)"]
    by (auto simp: update_page_def split: prod.splits sum.splits if_splits)
qed

lemma victim_not_pinned:
  assumes inv: "bpm_inv s" and v: "find_victim_page s = (Some g, s1)"
    and q: "page_table s q = Some f" and pin: "0 < pins s f"
  shows "g \<noteq> f" and "page_table s1 q = Some f" and "pg_id (frame s1 g) \<noteq> q" and "frame s1 f = frame s f"
proof -
  note k = find_victim_keeps [OF inv v]
  show "g \<noteq> f" using k(5) pin by auto
  then show "page_table s1 q = Some f"
    using v q bpm_inv_mapped_frame(3) [OF inv q] bpm_holeD(11) [OF find_victim_page_hole(1) [OF inv v]]
      find_victim_lru(3) [OF inv]
    by (auto simp: find_victim_page_def split: list.splits prod.splits option.splits)
  then show "pg_id (frame s1 g) \<noteq> q" using bpm_holeD(11) [OF find_victim_page_hole(1) [OF inv v]] by auto
  show "frame s1 f = frame s f" using k(2) by (simp add: frame_def)
qed

lemma pin_frame_other:
  "page_table (pin_frame s f) = page_table s" "g \<noteq> f \<Longrightarrow> frame (pin_frame s f) g = frame s g"
  "g \<noteq> f \<Longrightarrow> frame (upd_frame s f h) g = frame s g"
  by (cases "f < length (pages s)";
      auto simp: pin_frame_def upd_frame_def frame_def list_update_beyond not_less)+

lemma bpm_fetch_pinned:
  assumes inv: "bpm_inv s" and q: "page_table s q = Some f" and pin: "0 < pins s f"
  shows "page_table (snd (bpm_fetch_page s r)) q = Some f \<and>
         pg_data (frame (snd (bpm_fetch_page s r)) f) = pg_data (frame s f)"
proof (cases "page_table s r")
  case (Some g)
  then show ?thesis
    using q bpm_inv_mapped_frame(1) [OF inv q] by (simp add: bpm_fetch_page_def)
      (cases "g = f"; simp add: pin_frame_other)
next
  case None
  then have rq: "r \<noteq> q" using q by auto
  obtain vf s1 where v: "find_victim_page s = (vf, s1)" by (cases "find_victim_page s")
  show ?thesis
  proof (cases vf)
    case None: None
    with v obtain r' where "s1 = s\<lparr>repl := r'\<rparr>"
      by (auto simp: find_victim_page_def split: list.splits prod.splits option.splits)
    then have "page_table s1 = page_table s" "frame s1 f = frame s f" by simp_all
    then show ?thesis using q by (simp add: bpm_fetch_page_def \<open>page_table s r = None\<close> v None)
  next
    case (Some g)
    note n = victim_not_pinned [OF inv v [unfolded Some] q pin]
    obtain u s2 where u: "update_page s1 g r = (u, s2)" by (cases "update_page s1 g r")
    have s2: "page_table s2 q = Some f" "pg_data (frame s2 f) = pg_data (frame s f)"
      using update_page_data(1) [of f g s1 r] update_page_data(2) [of s1 g r q] n rq by (auto simp: u split: if_splits)
    obtain buf x d where rd: "dm_read_page (disk s2) (pfd r) (ppage r) (pg_data (frame s2 g)) PAGE_SIZE = (buf, x, d)"
      by (cases "dm_read_page (disk s2) (pfd r) (ppage r) (pg_data (frame s2 g)) PAGE_SIZE")
    show ?thesis
      using s2 n(1) by (auto simp: bpm_fetch_page_def \<open>page_table s r = None\<close> v Some u rd Let_def
          pin_frame_other split: sum.splits)
  qed
qed

lemma bpm_new_pinned:
  assumes ok: "bpm_ok s" and q: "page_table s q = Some f" and pin: "0 < pins s f"
  shows "page_table (snd (bpm_new_page s fd)) q = Some f \<and>
         pg_data (frame (snd (bpm_new_page s fd)) f) = pg_data (frame s f)"
proof -
  note inv = bpm_okD(1) [OF ok]
  obtain vf s1 where v: "find_victim_page s = (vf, s1)" by (cases "find_victim_page s")
  show ?thesis
  proof (cases vf)
    case None
    with v obtain r' where "s1 = s\<lparr>repl := r'\<rparr>"
      by (auto simp: find_victim_page_def split: list.splits prod.splits option.splits)
    then have "page_table s1 = page_table s" "frame s1 f = frame s f" by simp_all
    then show ?thesis using q by (simp add: bpm_new_page_def v None)
  next
    case (Some g)
    note n = victim_not_pinned [OF inv v [unfolded Some] q pin] and k = find_victim_keeps [OF inv v [unfolded Some]]
    obtain r d where a: "dm_allocate_page (disk s1) fd = (r, d)" by (cases "dm_allocate_page (disk s1) fd")
    show ?thesis
    proof (cases r)
      case (Inr p)
      have p: "mk_pid fd p \<noteq> q" using a Inr bpm_okD(3) [OF ok q] k(3)
        by (auto simp: dm_allocate_page_def split: if_splits)
      obtain u s2 where u: "update_page (s1\<lparr>disk := d\<rparr>) g (mk_pid fd p) = (u, s2)"
        by (cases "update_page (s1\<lparr>disk := d\<rparr>) g (mk_pid fd p)")
      have s2: "page_table s2 q = Some f" "pg_data (frame s2 f) = pg_data (frame s f)"
        using update_page_data(1) [of f g "s1\<lparr>disk := d\<rparr>" "mk_pid fd p"]
          update_page_data(2) [of "s1\<lparr>disk := d\<rparr>" g "mk_pid fd p" q] n p by (auto simp: u split: if_splits)
      show ?thesis
        using s2 n(1) by (auto simp: bpm_new_page_def v Some a Inr u pin_frame_other split: sum.splits)
    qed (use n v a in \<open>simp add: bpm_new_page_def Some\<close>)
  qed
qed

section \<open>Properties\<close>

text \<open>A pool of \<open>k\<close> frames over the sample file of \<open>n\<close> zero pages.\<close>

definition sample_pool :: "nat \<Rightarrow> nat \<Rightarrow> bpm" where
  "sample_pool k n = bpm_new k 0 (sample_disk n)"

lemma sample_pool_ok [simp]: "bpm_ok (sample_pool k n)"
  by (simp add: sample_pool_def bpm_ok_new)

lemma sample_pool_fields [simp]:
  "disk (sample_pool k n) = sample_disk n" "page_table (sample_pool k n) q = None"
  "length (pages (sample_pool k n)) = k" "free_list (sample_pool k n) = [0..<k]"
  by (simp_all add: sample_pool_def bpm_new_def)

lemma sample_pool_pins [simp]: "f < k \<Longrightarrow> pins (sample_pool k n) f = 0"
  by (simp add: pins_def frame_def sample_pool_def bpm_new_def)

lemma sample_pool_avail:
  "0 \<le> p \<Longrightarrow> p < int n \<Longrightarrow> p < 200 \<Longrightarrow> bpm_avail (sample_pool k n) (mk_pid 3 p)"
  by (simp add: bpm_avail_def sample_addr) (simp add: sample_disk_def)

lemma sample_pool_view:
  "0 \<le> p \<Longrightarrow> p < int n \<Longrightarrow> bpm_view (sample_pool k n) (mk_pid 3 p) = Some zero_page"
  by (simp add: bpm_view_def sample_page zero_page_def)

lemma sample_pool_fresh: "n < 200 \<Longrightarrow> bpm_fresh (sample_pool k n) 3 = Some (mk_pid 3 (int n))"
  using sample_addr [of "int n" n] by (simp add: bpm_fresh_def bpm_can_new_def MAX_FD_def) (simp add: sample_disk_def)

text \<open>
  C26. Fetching a page that exists succeeds whenever some frame has no holder: the page is
  mapped to the frame returned, with one more pin and the content last written to it, every
  other page keeps its content, also the evicted one, and the pool invariant still holds.
\<close>

theorem bpm_fetch_correct:
  assumes "bpm_ok s" and "bpm_view s q = Some c" and "bpm_avail s q" and "\<exists>f < length (pages s). pins s f = 0"
  shows "\<exists>f s'. bpm_fetch_page s q = (Inr (Some f), s') \<and> bpm_ok s' \<and> page_table s' q = Some f \<and>
           pg_data (frame s' f) = c \<and> pins s' = (pins s)(f := pins s f + 1) \<and> bpm_view s \<subseteq>\<^sub>m bpm_view s'"
  using bp.fetch_spec [OF assms] by blast

lemma sample_pool_room: "0 < k \<Longrightarrow> \<exists>f < length (pages (sample_pool k n)). pins (sample_pool k n) f = 0"
  by (rule exI [of _ 0]) simp

lemma sample_page1:
  "bpm_ok (sample_pool 2 2)" "bpm_view (sample_pool 2 2) (mk_pid 3 1) = Some zero_page"
  "bpm_avail (sample_pool 2 2) (mk_pid 3 1)"
  "\<exists>f < length (pages (sample_pool 2 2)). pins (sample_pool 2 2) f = 0"
  by (simp_all add: sample_pool_view sample_pool_avail sample_pool_room del: sample_pool_fields(3))

theorem bpm_fetch_correct_witness:
  "\<exists>f s'. bpm_fetch_page (sample_pool 2 2) (mk_pid 3 1) = (Inr (Some f), s') \<and> bpm_ok s' \<and>
     pg_data (frame s' f) = zero_page"
  using bpm_fetch_correct [OF sample_page1] by blast

text \<open>
  C27. What a client writes through a pinned page is what the next client reads: fetch, store,
  unpin dirty, then fetch again after any number of frames was reused, returns the new
  content, and all other pages read as before.
\<close>

theorem bpm_write_read:
  assumes "bpm_ok s" and "bpm_view s q = Some c" and "bpm_avail s q" and "\<exists>f < length (pages s). pins s f = 0"
    and "length bs = PAGE_SIZE"
  shows "\<exists>f s1 s2. bpm_fetch_page s q = (Inr (Some f), s1) \<and>
           bpm_unpin_page (bpm_store s1 f bs) q True = (True, s2) \<and> bpm_ok s2 \<and> pins s2 = pins s \<and>
           bpm_view s2 q = Some bs \<and>
           (\<forall>q' c'. q' \<noteq> q \<longrightarrow> bpm_view s q' = Some c' \<longrightarrow> bpm_view s2 q' = Some c') \<and>
           (\<exists>g s3. bpm_fetch_page s2 q = (Inr (Some g), s3) \<and> pg_data (frame s3 g) = bs)"
proof -
  obtain f s1 s2 where u: "bpm_fetch_page s q = (Inr (Some f), s1)"
    "bpm_unpin_page (bpm_store s1 f bs) q True = (True, s2)" "bp.same_use s s2" "bpm_view s2 q = Some bs"
    "\<And>q' c'. q' \<noteq> q \<Longrightarrow> bpm_view s q' = Some c' \<Longrightarrow> bpm_view s2 q' = Some c'"
    by (rule bp.update_client [OF assms(1-4), of "\<lambda>_. bs", OF assms(5)]) blast
  have s2: "bpm_ok s2" "pins s2 = pins s" "bpm_avail s2 q" "\<exists>f < length (pages s2). pins s2 f = 0"
    using u(3) assms(3,4) by (simp_all add: bp.same_use_def)
  obtain g s3 where "bpm_fetch_page s2 q = (Inr (Some g), s3)" "pg_data (frame s3 g) = bs"
    using bp.fetch_spec [OF s2(1) u(4) s2(3,4)] by blast
  with u s2 show ?thesis by blast
qed

theorem bpm_write_read_witness:
  "\<exists>f s1 s2. bpm_fetch_page (sample_pool 2 2) (mk_pid 3 1) = (Inr (Some f), s1) \<and>
     bpm_unpin_page (bpm_store s1 f (replicate PAGE_SIZE 9)) (mk_pid 3 1) True = (True, s2) \<and>
     bpm_view s2 (mk_pid 3 1) = Some (replicate PAGE_SIZE 9) \<and> bpm_view s2 (mk_pid 3 0) = Some zero_page"
proof -
  have v: "bpm_view (sample_pool 2 2) (mk_pid 3 0) = Some zero_page" "mk_pid 3 0 \<noteq> mk_pid 3 1"
    by (simp_all add: sample_pool_view)
  from bpm_write_read [OF sample_page1, of "replicate PAGE_SIZE 9"] v show ?thesis
    by (simp only: length_replicate) blast
qed

text \<open>
  A page somebody holds is never moved or changed by another request: after any fetch or
  allocation, successful or not, it is still mapped to the same frame with the same bytes, so
  the pointers clients hold stay valid.
\<close>

theorem bpm_pinned_stays:
  assumes "bpm_ok s" and "page_table s q = Some f" and "0 < pins s f"
  shows "page_table (snd (bpm_fetch_page s r)) q = Some f \<and>
         pg_data (frame (snd (bpm_fetch_page s r)) f) = pg_data (frame s f) \<and>
         page_table (snd (bpm_new_page s fd)) q = Some f \<and>
         pg_data (frame (snd (bpm_new_page s fd)) f) = pg_data (frame s f)"
  using bpm_fetch_pinned [OF bpm_okD(1) [OF assms(1)] assms(2,3)] bpm_new_pinned [OF assms] by blast

theorem bpm_pinned_stays_witness:
  "\<exists>f s. bpm_fetch_page (sample_pool 2 2) (mk_pid 3 1) = (Inr (Some f), s) \<and>
     page_table (snd (bpm_fetch_page s (mk_pid 3 0))) (mk_pid 3 1) = Some f"
proof -
  obtain f s where s: "bpm_fetch_page (sample_pool 2 2) (mk_pid 3 1) = (Inr (Some f), s)" "bpm_ok s"
    "page_table s (mk_pid 3 1) = Some f" "pins s = (pins (sample_pool 2 2))(f := pins (sample_pool 2 2) f + 1)"
    "0 \<le> pins (sample_pool 2 2) f"
    using bp.fetch_spec [OF sample_page1] by blast
  have "0 < pins s f" using s(4,5) by simp
  from bpm_pinned_stays [OF s(2,3) this] s(1) show ?thesis by blast
qed

text \<open>
  \<^verbatim>\<open>flush_all_pages\<close> makes every page durable: it succeeds, changes no content a client
  sees, and afterwards every page that was dirty or unpinned is on disk exactly as clients see
  it, for any iteration order of the page table.
\<close>

theorem bpm_flush_all_durable:
  assumes inv: "bpm_inv s" and ord: "dom (page_table s) \<subseteq> set ord"
  shows "\<exists>s'. bpm_flush_all_pages s ord = (Inr (), s') \<and> bpm_inv s' \<and> bpm_view s \<subseteq>\<^sub>m bpm_view s' \<and>
           (\<forall>q f. page_table s q = Some f \<longrightarrow> is_dirty (frame s f) \<or> pins s f = 0 \<longrightarrow>
              dm_page (disk s') (pfd q) (ppage q) = bpm_view s q)"
proof -
  obtain s' where s': "flush_loop s (\<lambda>_. True) ord = (Inr (), s')" "bpm_inv s'" "bpm_view s \<subseteq>\<^sub>m bpm_view s'"
    "\<And>q. (on_disk s q \<and> bpm_view s q \<noteq> None \<or>
       (q \<in> set ord \<and> (\<exists>f. page_table s q = Some f \<and> is_dirty (frame s f)))) \<Longrightarrow> on_disk s' q"
    using flush_loop_ok [OF inv, of "\<lambda>_. True" ord] by blast
  have "dm_page (disk s') (pfd q) (ppage q) = bpm_view s q"
    if q: "page_table s q = Some f" and d: "is_dirty (frame s f) \<or> pins s f = 0" for q f
  proof -
    have v: "bpm_view s q = Some (pg_data (frame s f))" by (simp add: bpm_view_def q)
    have "on_disk s' q"
      using d q ord bpm_inv_mapped_frame(6) [OF inv q] v
      by (intro s'(4)) (auto simp: on_disk_def pins_def)
    then show ?thesis using map_leD [OF s'(3) v] v by (simp add: on_disk_def)
  qed
  with s' show ?thesis by (auto simp: bpm_flush_all_pages_def)
qed

lemma page_table_listed: "bpm_inv s \<Longrightarrow> \<exists>ord. dom (page_table s) \<subseteq> set ord"
proof -
  assume inv: "bpm_inv s"
  have "dom (page_table s) \<subseteq> set (map (\<lambda>f. pg_id (frame s f)) [0..<length (pages s)])"
    using bpm_inv_table [OF inv] by force
  then show ?thesis by blast
qed

theorem bpm_flush_all_durable_witness:
  "\<exists>f s1 s2 ord s3. bpm_fetch_page (sample_pool 2 2) (mk_pid 3 1) = (Inr (Some f), s1) \<and>
     bpm_unpin_page (bpm_store s1 f (replicate PAGE_SIZE 9)) (mk_pid 3 1) True = (True, s2) \<and>
     bpm_flush_all_pages s2 ord = (Inr (), s3) \<and> dm_page (disk s3) 3 1 = Some (replicate PAGE_SIZE 9)"
proof -
  let ?q = "mk_pid 3 1" and ?bs = "replicate PAGE_SIZE (9 :: byte)"
  obtain f s1 where f: "bpm_fetch_page (sample_pool 2 2) ?q = (Inr (Some f), s1)" "bpm_ok s1"
    "page_table s1 ?q = Some f" "pins s1 = (pins (sample_pool 2 2))(f := pins (sample_pool 2 2) f + 1)"
    "0 \<le> pins (sample_pool 2 2) f" "length (pages s1) = length (pages (sample_pool 2 2))"
    using bp.fetch_spec [OF sample_page1] by blast
  have p: "0 < pins s1 f" using f(4,5) by simp
  have fl: "f < 2" using bpm_inv_mapped_frame(1) [OF bpm_okD(1) [OF f(2)] f(3)] f(6) by simp
  note st = bpm_store_keeps [OF f(2,3) p, of ?bs, simplified]
  obtain s2 where s2: "bpm_unpin_page (bpm_store s1 f ?bs) ?q True = (True, s2)" "bpm_ok s2"
    "bpm_view s2 = bpm_view (bpm_store s1 f ?bs)" "pins s2 = (pins s1)(f := pins s1 f - 1)" "page_table s2 = page_table s1"
    using bp.unpin_spec [OF st(1), of ?q f True] f(3) p st by auto
  have z: "pins s2 f = 0" using s2(4) f(4) fl by simp
  obtain ord where ord: "dom (page_table s2) \<subseteq> set ord" using page_table_listed [OF bpm_okD(1) [OF s2(2)]] by blast
  from bpm_flush_all_durable [OF bpm_okD(1) [OF s2(2)] ord] obtain s3
    where s3: "bpm_flush_all_pages s2 ord = (Inr (), s3)" "dm_page (disk s3) (pfd ?q) (ppage ?q) = bpm_view s2 ?q"
    using f(3) s2(5) z by (metis (no_types))
  have "dm_page (disk s3) 3 1 = Some ?bs" using s3(2) s2(3) st(3) by simp
  with f(1) s2(1) s3(1) show ?thesis by blast
qed

end
