(* ===== verification/Pool_Client.thy ===== *)
theory Pool_Client
  imports Page_Store
begin

text \<open>
  What the record and index layers need of the pool beyond the page-store contract: flushing
  a held page, and writing a header page past the pool, directly to disk.
\<close>

lemma held_id:
  assumes "bpm_ok s" and "page_table s q = Some f"
  shows "pg_id (frame s f) = q" and "pg_id (frame (bpm_store s f bs) f) = q"
  using bpm_inv_mapped_frame(3) [OF bpm_okD(1) [OF assms(1)] assms(2)]
  by (simp_all add: bpm_store_def frame_upd_id)

lemma bpm_mark_dirty_keeps:
  assumes ok: "bpm_ok s" and q: "page_table s q = Some f"
  defines "s' \<equiv> bpm_mark_dirty s f"
  shows "bpm_ok s'" "bpm_view s' = bpm_view s" "pins s' = pins s" "length (pages s') = length (pages s)"
    "disk s' = disk s" "page_table s' = page_table s" "pg_data (frame s' g) = pg_data (frame s g)"
proof -
  note inv = bpm_okD(1) [OF ok] and m = bpm_mark_dirty_ok [OF bpm_okD(1) [OF ok] q]
  show "bpm_ok s'" using ok m(1) by (simp add: s'_def bpm_ok_def bpm_mark_dirty_def frame_upd_id)
  show "pg_data (frame s' g) = pg_data (frame s g)"
    using bpm_inv_mapped_frame(1) [OF inv q] by (simp add: s'_def bpm_mark_dirty_def)
  show "bpm_view s' = bpm_view s" using m(2) by (simp add: s'_def)
  show "pins s' = pins s" by (simp add: s'_def pins_def bpm_mark_dirty_def fun_eq_iff frame_upd_pin)
qed (simp_all add: s'_def bpm_mark_dirty_def)

lemma write_back_posix: "posix_same (os (disk s)) (os (disk (snd (write_back s f q))))"
  using dm_write_page_same [of "disk s" "pfd q" "ppage q" "pg_data (frame s f)"]
  by (auto simp: write_back_def split: prod.splits sum.splits)

lemma bpm_flush_keeps:
  assumes ok: "bpm_ok s" and q: "page_table s q = Some f"
  obtains s' where "bpm_flush_page s q = (Inr True, s')" "bpm_ok s'" "bpm_view s \<subseteq>\<^sub>m bpm_view s'" "pins s' = pins s"
    "length (pages s') = length (pages s)" "page_table s' = page_table s" "posix_same (os (disk s)) (os (disk s'))"
    "fd2pageno (disk s') = fd2pageno (disk s)" "pg_data (frame s' f) = pg_data (frame s f)"
proof -
  note inv = bpm_okD(1) [OF ok]
  obtain s' where s': "bpm_flush_page s q = (Inr True, s')" "write_back s f q = (Inr (), s')" "bpm_inv s'"
    "bpm_view s \<subseteq>\<^sub>m bpm_view s'" "frame s' f = (frame s f)\<lparr>is_dirty := False\<rparr>"
    by (rule bpm_flush_ok [OF inv q]) blast
  note w = write_back_keeps [of s f q, unfolded s'(2) snd_conv] and p = write_back_posix [of s f q, unfolded s'(2) snd_conv]
  have "bpm_ok s'" using ok s'(3) w by (simp add: bpm_ok_def)
  then show ?thesis by (rule that [OF s'(1)]) (use s'(4,5) w p in simp_all)
qed

section \<open>Header pages\<close>

lemma dm_write_page_others:
  assumes inv: "dm_inv d" and ok: "addr_ok d fd p (length bs)" and len: "length bs \<le> PAGE_SIZE" "bs \<noteq> []"
  obtains d' where "dm_write_page d fd p bs = (Inr (), d')" "dm_inv d'" "posix_same (os d) (os d')"
    "fd2pageno d' = fd2pageno d"
    "\<And>fd' p' c. (fd', p') \<noteq> (fd, p) \<Longrightarrow> dm_page d fd' p' = Some c \<Longrightarrow> dm_page d' fd' p' = Some c"
    "\<exists>c. dm_file d' fd = Some c \<and> nat p * PAGE_SIZE + length bs \<le> length c \<and>
         mem_read c (nat p * PAGE_SIZE) (length bs) = bs"
proof -
  obtain ino where ino: "fd_inode (os d) fd = Some ino" using ok by (auto simp: addr_ok_def)
  obtain s where w: "dm_write_page d fd p bs = (Inr (), d\<lparr>os := s\<rparr>)" and same: "posix_same (os d) s"
    and c: "inodes s = (inodes (os d))(ino := file_store (inodes (os d) ino) (nat p * PAGE_SIZE) bs)"
    using dm_write_page_ok [OF ok ino] by blast
  have fi: "fd_inode s = fd_inode (os d)" using same by (simp add: posix_same_def)
  have p: "0 \<le> p" using ok by (simp add: addr_ok_def)
  have other: "dm_page (d\<lparr>os := s\<rparr>) fd' p' = Some b"
    if neq: "(fd', p') \<noteq> (fd, p)" and b: "dm_page d fd' p' = Some b" for fd' p' b
  proof (cases "fd' = fd")
    case False
    then have "fd_inode (os d) fd' \<noteq> Some ino" using dm_inv_inode_inj [OF inv ino] by blast
    then show ?thesis
      using b by (auto simp: dm_page_def dm_file_def fi c split: option.splits if_splits)
  next
    case True
    let ?off = "nat p * PAGE_SIZE" and ?off' = "nat p' * PAGE_SIZE"
    have p': "0 \<le> p'" "?off' + PAGE_SIZE \<le> length (inodes (os d) ino)"
      and b': "b = mem_read (inodes (os d) ino) ?off' PAGE_SIZE"
      using b by (auto simp: True dm_page_def dm_file_def ino split: if_splits)
    have "nat p \<noteq> nat p'" using neq True p p'(1) by auto
    then have "Suc (nat p') \<le> nat p \<or> Suc (nat p) \<le> nat p'" by auto
    then have "Suc (nat p') * PAGE_SIZE \<le> ?off \<or> Suc (nat p) * PAGE_SIZE \<le> ?off'" using mult_le_mono1 by blast
    then have "?off' + PAGE_SIZE \<le> ?off \<or> ?off + length bs \<le> ?off'"
      using len(1) by (auto simp: algebra_simps)
    from file_store_read_other [OF p'(2) this]
    show ?thesis using p' by (simp add: True dm_page_def dm_file_def fi ino c b' length_file_store [OF len(2)])
  qed
  have "dm_inv (d\<lparr>os := s\<rparr>)" by (rule dm_inv_same [OF same inv])
  moreover have "\<exists>c. dm_file (d\<lparr>os := s\<rparr>) fd = Some c \<and> nat p * PAGE_SIZE + length bs \<le> length c \<and>
      mem_read c (nat p * PAGE_SIZE) (length bs) = bs"
    by (simp add: dm_file_def fi ino c length_file_store [OF len(2)] file_store_read_same [OF len(2)])
  ultimately show ?thesis by (intro that [OF w _ _ _ other]) (use same in simp_all)
qed

text \<open>A header page is not in the pool, so writing it to disk disturbs no frame.\<close>

lemma bpm_header_write:
  assumes ok: "bpm_ok s" and un: "page_table s (mk_pid fd p) = None"
    and addr: "addr_ok (disk s) fd p (length bs)" and len: "length bs \<le> PAGE_SIZE" "bs \<noteq> []"
  obtains d where "dm_write_page (disk s) fd p bs = (Inr (), d)" "bpm_ok (s\<lparr>disk := d\<rparr>)"
    "posix_same (os (disk s)) (os d)" "fd2pageno d = fd2pageno (disk s)"
    "\<And>q c. q \<noteq> mk_pid fd p \<Longrightarrow> bpm_view s q = Some c \<Longrightarrow> bpm_view (s\<lparr>disk := d\<rparr>) q = Some c"
proof -
  note inv = bpm_okD(1) [OF ok]
  obtain d where d: "dm_write_page (disk s) fd p bs = (Inr (), d)" "dm_inv d" "posix_same (os (disk s)) (os d)"
    "fd2pageno d = fd2pageno (disk s)"
    "\<And>fd' p' c. (fd', p') \<noteq> (fd, p) \<Longrightarrow> dm_page (disk s) fd' p' = Some c \<Longrightarrow> dm_page d fd' p' = Some c"
    by (rule dm_write_page_others [OF bpm_inv_dm [OF inv] addr len]) blast
  have ad: "addr_ok d = addr_ok (disk s)" using addr_ok_posix [OF d(3)] by (intro ext)
  have neq: "q \<noteq> mk_pid fd p \<Longrightarrow> (pfd q, ppage q) \<noteq> (fd, p)" for q
    using page_id_eqI [of q "mk_pid fd p"] by auto
  have fo: "frame_ok (s\<lparr>disk := d\<rparr>) f" if f: "f < length (pages s)" for f
  proof (cases "f \<in> set (free_list s)")
    case False
    have "pg_id (frame s f) \<noteq> mk_pid fd p"
      using bpm_inv_frame [OF inv f] False un by (auto simp: frame_ok_def)
    from neq [OF this] bpm_inv_frame [OF inv f] False d(5) show ?thesis
      by (simp add: frame_ok_def ad)
  qed (use bpm_inv_frame [OF inv f] in \<open>simp add: frame_ok_def\<close>)
  have "bpm_inv (s\<lparr>disk := d\<rparr>)"
    by (rule bpm_invI) (use bpm_inv_lru [OF inv] d(2) bpm_inv_distinct [OF inv] bpm_inv_free [OF inv]
        bpm_inv_evict [OF inv] bpm_inv_table [OF inv] fo in simp_all)
  then have "bpm_ok (s\<lparr>disk := d\<rparr>)" using ok d(4) by (simp add: bpm_ok_def)
  then show ?thesis
    by (rule that [OF d(1) _ d(3,4)]) (use d(5) neq in \<open>auto simp: bpm_view_def split: option.splits\<close>)
qed

end
