(* ===== verification/Bitmap.thy ===== *)
theory Bitmap
  imports Rmdb_Prelude
begin

unbundle bit_operations_syntax

text \<open>
  The slot bitmaps of record pages (\<^verbatim>\<open>src/src/record/bitmap.h\<close>). A bitmap is a region of a
  page buffer: \<open>bm\<close> is the offset the \<^verbatim>\<open>char *bm\<close> of the code points to. The lemmas relate the
  byte operations to the list of set positions, \<open>bm_slots\<close>.
\<close>

section \<open>Operations\<close>

definition BITMAP_WIDTH :: int where "BITMAP_WIDTH = 8"
definition BITMAP_HIGHEST_BIT :: byte where "BITMAP_HIGHEST_BIT = 128"

definition get_bucket :: "int \<Rightarrow> int" where
  "get_bucket pos = pos div BITMAP_WIDTH"

definition get_bit :: "int \<Rightarrow> byte" where
  "get_bit pos = drop_bit (nat (pos mod BITMAP_WIDTH)) BITMAP_HIGHEST_BIT"

definition bm_init :: "bytes \<Rightarrow> nat \<Rightarrow> int \<Rightarrow> bytes" where
  "bm_init d bm sz = mem_write d bm (replicate (nat sz) 0)"

definition bm_set :: "bytes \<Rightarrow> nat \<Rightarrow> int \<Rightarrow> bytes" where
  "bm_set d bm pos =
     (let i = bm + nat (get_bucket pos) in d[i := d ! i OR get_bit pos])"

definition bm_reset :: "bytes \<Rightarrow> nat \<Rightarrow> int \<Rightarrow> bytes" where
  "bm_reset d bm pos =
     (let i = bm + nat (get_bucket pos) in d[i := d ! i AND NOT (get_bit pos)])"

definition bm_is_set :: "bytes \<Rightarrow> nat \<Rightarrow> int \<Rightarrow> bool" where
  "bm_is_set d bm pos \<longleftrightarrow> d ! (bm + nat (get_bucket pos)) AND get_bit pos \<noteq> 0"

text \<open>The loop of \<^verbatim>\<open>next_bit\<close>, from its current index.\<close>

function bit_loop :: "bool \<Rightarrow> bytes \<Rightarrow> nat \<Rightarrow> int \<Rightarrow> int \<Rightarrow> int" where
  "bit_loop b d bm max_n i =
     (if i < max_n then if bm_is_set d bm i = b then i else bit_loop b d bm max_n (i + 1) else max_n)"
  by auto
termination by (relation "measure (\<lambda>(b, d, bm, max_n, i). nat (max_n - i))") auto

declare bit_loop.simps [simp del]

definition next_bit :: "bool \<Rightarrow> bytes \<Rightarrow> nat \<Rightarrow> int \<Rightarrow> int \<Rightarrow> int" where
  "next_bit b d bm max_n cur = bit_loop b d bm max_n (cur + 1)"

definition first_bit :: "bool \<Rightarrow> bytes \<Rightarrow> nat \<Rightarrow> int \<Rightarrow> int" where
  "first_bit b d bm max_n = next_bit b d bm max_n (- 1)"

section \<open>Single bits\<close>

lemma get_bit_exp: "get_bit pos = 2 ^ (7 - nat (pos mod 8))"
proof -
  have "nat (pos mod 8) < 8" by simp
  then have "nat (pos mod 8) \<in> {0, 1, 2, 3, 4, 5, 6, 7}" unfolding insert_iff empty_iff by linarith
  then show ?thesis by (auto simp: get_bit_def BITMAP_WIDTH_def BITMAP_HIGHEST_BIT_def drop_bit_eq_div)
qed

lemma bm_is_set_bit:
  "bm_is_set d bm pos \<longleftrightarrow> bit (d ! (bm + nat (pos div 8))) (7 - nat (pos mod 8))"
  by (simp add: bm_is_set_def get_bucket_def BITMAP_WIDTH_def get_bit_exp and_exp_eq_0_iff_not_bit)

lemma same_bit:
  assumes "0 \<le> i" "0 \<le> j" "nat (i div 8) = nat (j div 8)" "7 - nat (i mod 8) = 7 - nat (j mod 8)"
  shows "i = (j :: int)"
proof -
  have "i div 8 = j div 8" using assms(1-3) by (simp add: pos_imp_zdiv_nonneg_iff)
  moreover have "i mod 8 = j mod 8"
  proof -
    have "nat (i mod 8) \<le> 7" "nat (j mod 8) \<le> 7" by simp_all
    with assms(4) have "nat (i mod 8) = nat (j mod 8)" by linarith
    then show ?thesis by simp
  qed
  ultimately show ?thesis by (metis div_mult_mod_eq)
qed

text \<open>The bitmap of \<open>n\<close> positions starting at \<open>bm\<close> lies within the buffer.\<close>

definition bm_in :: "bytes \<Rightarrow> nat \<Rightarrow> int \<Rightarrow> bool" where
  "bm_in d bm n \<longleftrightarrow> bm + nat ((n + 7) div 8) \<le> length d"

lemma bm_inD: "bm_in d bm n \<Longrightarrow> 0 \<le> pos \<Longrightarrow> pos < n \<Longrightarrow> bm + nat (pos div 8) < length d"
proof -
  assume a: "bm_in d bm n" "0 \<le> pos" "pos < n"
  have "pos div 8 < (n + 7) div 8" using a(2,3) by linarith
  moreover have "0 \<le> pos div 8" using a(2) by simp
  ultimately show ?thesis using a(1) by (simp add: bm_in_def)
qed

lemma length_bm_set [simp]: "length (bm_set d bm pos) = length d" "length (bm_reset d bm pos) = length d"
  by (simp_all add: bm_set_def bm_reset_def Let_def)

lemma bm_is_set_update:
  assumes "bm_in d bm n" "0 \<le> pos" "pos < n" "0 \<le> j" "j < n"
  shows "bm_is_set (bm_set d bm pos) bm j \<longleftrightarrow> j = pos \<or> bm_is_set d bm j"
    and "bm_is_set (bm_reset d bm pos) bm j \<longleftrightarrow> j \<noteq> pos \<and> bm_is_set d bm j"
proof -
  have l: "bm + nat (pos div 8) < length d" using bm_inD [OF assms(1-3)] .
  have eq: "7 - nat (j mod 8) = 7 - nat (pos mod 8) \<and> nat (j div 8) = nat (pos div 8) \<longleftrightarrow> j = pos"
    using same_bit [OF assms(4,2)] by auto
  have b: "bit (2 ^ m :: byte) k \<longleftrightarrow> k = m" if "m \<le> 7" for m k
    using that by (auto simp: bit_exp_iff possible_bit_def)
  have m: "7 - nat (pos mod 8) \<le> 7" "7 - nat (j mod 8) < 8" by simp_all
  show "bm_is_set (bm_set d bm pos) bm j \<longleftrightarrow> j = pos \<or> bm_is_set d bm j"
    using l eq by (auto simp: bm_is_set_bit bm_set_def Let_def get_bucket_def BITMAP_WIDTH_def get_bit_exp
        nth_list_update_if bit_or_iff b [OF m(1)])
  show "bm_is_set (bm_reset d bm pos) bm j \<longleftrightarrow> j \<noteq> pos \<and> bm_is_set d bm j"
    using l eq m(2) by (auto simp: bm_is_set_bit bm_reset_def Let_def get_bucket_def BITMAP_WIDTH_def get_bit_exp
        nth_list_update_if bit_and_iff bit_not_iff b [OF m(1)] possible_bit_def)
qed

text \<open>Bitmap updates touch only the bytes of the bitmap.\<close>

lemma bm_set_outside:
  assumes "bm_in d bm n" "0 \<le> pos" "pos < n" and "off + k \<le> bm \<or> bm + nat ((n + 7) div 8) \<le> off"
  shows "mem_read (bm_set d bm pos) off k = mem_read d off k"
    and "mem_read (bm_reset d bm pos) off k = mem_read d off k"
proof -
  have "pos div 8 < (n + 7) div 8" "0 \<le> pos div 8" using assms(2,3) by linarith+
  then have i: "nat (pos div 8) < nat ((n + 7) div 8)" by simp
  have "mem_read (d[bm + nat (pos div 8) := v]) off k = mem_read d off k" for v
    using assms(4) i by (auto simp: mem_read_def take_update_cancel drop_update_swap)
  then show "mem_read (bm_set d bm pos) off k = mem_read d off k"
    "mem_read (bm_reset d bm pos) off k = mem_read d off k"
    by (simp_all add: bm_set_def bm_reset_def Let_def get_bucket_def BITMAP_WIDTH_def)
qed

text \<open>And a write elsewhere in the buffer leaves every bit as it is.\<close>

lemma bm_is_set_write:
  assumes "bm_in d bm n" "0 \<le> j" "j < n" "off + length bs \<le> length d"
    and "off + length bs \<le> bm \<or> bm + nat ((n + 7) div 8) \<le> off"
  shows "bm_is_set (mem_write d off bs) bm j = bm_is_set d bm j"
proof -
  have "j div 8 < (n + 7) div 8" "0 \<le> j div 8" using assms(2,3) by linarith+
  then have i: "nat (j div 8) < nat ((n + 7) div 8)" by simp
  have "mem_write d off bs ! (bm + nat (j div 8)) = d ! (bm + nat (j div 8))"
    using assms(4,5) i bm_inD [OF assms(1-3)] by (subst nth_mem_write) auto
  then show ?thesis by (simp add: bm_is_set_bit)
qed

section \<open>Searching\<close>

lemma bit_loop_spec:
  "i \<le> max_n \<Longrightarrow> (let r = bit_loop b d bm max_n i in
     i \<le> r \<and> r \<le> max_n \<and> (r < max_n \<longrightarrow> bm_is_set d bm r = b) \<and>
     (\<forall>j. i \<le> j \<and> j < r \<longrightarrow> bm_is_set d bm j \<noteq> b))"
proof (induction b d bm max_n i rule: bit_loop.induct)
  case (1 b d bm max_n i)
  show ?case
  proof (cases "i < max_n \<and> bm_is_set d bm i \<noteq> b")
    case True
    then have e: "bit_loop b d bm max_n i = bit_loop b d bm max_n (i + 1)"
      by (subst bit_loop.simps) simp
    have split: "i \<le> j \<longleftrightarrow> j = i \<or> i + 1 \<le> j" for j by auto
    from 1 True show ?thesis by (auto simp: e Let_def split)
  next
    case False
    then have "bit_loop b d bm max_n i = i" using 1(2) by (subst bit_loop.simps) auto
    with False 1(2) show ?thesis by auto
  qed
qed

lemma next_bit_spec:
  fixes d :: bytes and b :: bool and bm :: nat
  assumes "cur < max_n"
  defines "r \<equiv> next_bit b d bm max_n cur"
  shows "cur < r" "r \<le> max_n" "r < max_n \<Longrightarrow> bm_is_set d bm r = b"
    and "cur < j \<Longrightarrow> j < r \<Longrightarrow> bm_is_set d bm j \<noteq> b"
  using bit_loop_spec [of "cur + 1" max_n b d bm] assms by (auto simp: next_bit_def Let_def)

text \<open>The set positions below \<open>n\<close>, in order.\<close>

definition bm_slots :: "bytes \<Rightarrow> nat \<Rightarrow> int \<Rightarrow> int list" where
  "bm_slots d bm n = filter (bm_is_set d bm) [0..n - 1]"

lemma set_bm_slots: "j \<in> set (bm_slots d bm n) \<longleftrightarrow> 0 \<le> j \<and> j < n \<and> bm_is_set d bm j"
  by (auto simp: bm_slots_def)

lemma distinct_bm_slots [simp]: "distinct (bm_slots d bm n)"
  by (simp add: bm_slots_def)

lemma sorted_bm_slots [simp]: "sorted (bm_slots d bm n)"
  by (simp add: bm_slots_def sorted_wrt_filter)

lemma bm_slots_set:
  assumes "bm_in d bm n" "0 \<le> pos" "pos < n"
  shows "set (bm_slots (bm_set d bm pos) bm n) = insert pos (set (bm_slots d bm n))"
    and "set (bm_slots (bm_reset d bm pos) bm n) = set (bm_slots d bm n) - {pos}"
  using bm_is_set_update [OF assms] assms by (auto simp: set_bm_slots)

lemma bm_count_set:
  assumes "bm_in d bm n" "0 \<le> pos" "pos < n"
  shows "\<not> bm_is_set d bm pos \<Longrightarrow> length (bm_slots (bm_set d bm pos) bm n) = Suc (length (bm_slots d bm n))"
    and "bm_is_set d bm pos \<Longrightarrow> Suc (length (bm_slots (bm_reset d bm pos) bm n)) = length (bm_slots d bm n)"
proof -
  have card: "length (bm_slots e bm n) = card (set (bm_slots e bm n))" for e
    by (simp add: distinct_card)
  show "\<not> bm_is_set d bm pos \<Longrightarrow> length (bm_slots (bm_set d bm pos) bm n) = Suc (length (bm_slots d bm n))"
    using bm_slots_set(1) [OF assms] by (simp add: card set_bm_slots)
  show "bm_is_set d bm pos \<Longrightarrow> Suc (length (bm_slots (bm_reset d bm pos) bm n)) = length (bm_slots d bm n)"
    using bm_slots_set(2) [OF assms] assms card_Suc_Diff1 [of "set (bm_slots d bm n)" pos]
    by (simp add: card set_bm_slots)
qed

lemma bm_slots_write:
  assumes "bm_in d bm n" "off + length bs \<le> length d"
    and "off + length bs \<le> bm \<or> bm + nat ((n + 7) div 8) \<le> off"
  shows "bm_slots (mem_write d off bs) bm n = bm_slots d bm n"
  unfolding bm_slots_def using bm_is_set_write [OF assms(1) _ _ assms(2,3)]
  by (intro filter_cong) auto

lemma bm_slots_le: "0 \<le> n \<Longrightarrow> int (length (bm_slots d bm n)) \<le> n"
  using length_filter_le [of "bm_is_set d bm" "[0..n - 1]"] by (simp add: bm_slots_def)

text \<open>A free position is found exactly when not all are taken.\<close>

lemma first_free_bit:
  assumes "0 < n"
  shows "first_bit False d bm n = n \<longleftrightarrow> int (length (bm_slots d bm n)) = n"
proof -
  note f = next_bit_spec [where cur = "- 1" and max_n = n and b = False and d = d and bm = bm, folded first_bit_def]
  have len: "length [0..n - 1] = nat n" using assms by simp
  have "int (length (bm_slots d bm n)) = n \<longleftrightarrow> (\<forall>j \<in> set [0..n - 1]. bm_is_set d bm j)"
  proof
    assume e: "int (length (bm_slots d bm n)) = n"
    show "\<forall>j \<in> set [0..n - 1]. bm_is_set d bm j"
    proof (rule ccontr)
      assume "\<not> ?thesis"
      then obtain j where "j \<in> set [0..n - 1]" "\<not> bm_is_set d bm j" by blast
      from length_filter_less [of j "[0..n - 1]" "bm_is_set d bm", OF this] e len show False by (simp add: bm_slots_def)
    qed
  next
    assume "\<forall>j \<in> set [0..n - 1]. bm_is_set d bm j"
    then have "bm_slots d bm n = [0..n - 1]" by (simp add: bm_slots_def)
    then show "int (length (bm_slots d bm n)) = n" using assms by simp
  qed
  also have "\<dots> \<longleftrightarrow> (\<forall>j. 0 \<le> j \<and> j < n \<longrightarrow> bm_is_set d bm j)" by auto
  also have "\<dots> \<longleftrightarrow> first_bit False d bm n = n"
  proof
    assume all: "\<forall>j. 0 \<le> j \<and> j < n \<longrightarrow> bm_is_set d bm j"
    show "first_bit False d bm n = n"
      using f(1,2,3) assms all by (cases "first_bit False d bm n < n") auto
  next
    assume "first_bit False d bm n = n"
    with f(4) assms show "\<forall>j. 0 \<le> j \<and> j < n \<longrightarrow> bm_is_set d bm j" by simp
  qed
  finally show ?thesis by blast
qed

end
