(* ===== verification/Rm_File.thy ===== *)
theory Rm_File
  imports Pool_Client Bitmap
begin

text \<open>
  Record files (\<^verbatim>\<open>src/src/record/rm_defs.h\<close>, \<^verbatim>\<open>rm_file_handle.h\<close>, \<^verbatim>\<open>rm_file_handle.cpp\<close>): the
  layout of a record page, and the operations of a file handle over the buffer pool. The
  state of an operation is the handle and the pool. The operations are those the code runs
  with a null context; the table lock a non-null context asks for first is
  \<open>get_record_locked\<close> of \<open>Txn_Manager\<close> for reading and the system of \<open>Lock_Service\<close> for writing.

  The lemmas show that a file handle implements a table: a finite map from record identifiers
  to records, \<open>rm_contents\<close>.
\<close>

section \<open>Layout\<close>

record rm_file_hdr =
  record_size :: int
  num_pages :: int
  num_records_per_page :: int
  first_free_page_no :: int
  bitmap_size :: int

definition RM_NO_PAGE :: int where "RM_NO_PAGE = - 1"
definition RM_FILE_HDR_PAGE :: int where "RM_FILE_HDR_PAGE = 0"
definition RM_FIRST_RECORD_PAGE :: int where "RM_FIRST_RECORD_PAGE = 1"
definition RM_MAX_RECORD_SIZE :: int where "RM_MAX_RECORD_SIZE = 512"

text \<open>The bytes of the header structure, in declaration order, and back.\<close>

definition rm_hdr_bytes :: "rm_file_hdr \<Rightarrow> bytes" where
  "rm_hdr_bytes h =
     enc_int (record_size h) @ enc_int (num_pages h) @ enc_int (num_records_per_page h) @
     enc_int (first_free_page_no h) @ enc_int (bitmap_size h)"

definition rm_hdr_of_bytes :: "bytes \<Rightarrow> rm_file_hdr" where
  "rm_hdr_of_bytes d =
     \<lparr>record_size = get_int d 0, num_pages = get_int d 4, num_records_per_page = get_int d 8,
      first_free_page_no = get_int d 12, bitmap_size = get_int d 16\<rparr>"

text \<open>
  \<^verbatim>\<open>RmPageHandle\<close>: the page header follows the 4-byte page LSN, then the bitmap, then the slots.
\<close>

definition OFFSET_PAGE_HDR :: nat where "OFFSET_PAGE_HDR = 4"
definition OFFSET_BITMAP :: nat where "OFFSET_BITMAP = OFFSET_PAGE_HDR + 8"

definition ph_next_free :: "bytes \<Rightarrow> int" where "ph_next_free d = get_int d OFFSET_PAGE_HDR"
definition ph_num_records :: "bytes \<Rightarrow> int" where "ph_num_records d = get_int d (OFFSET_PAGE_HDR + 4)"

definition ph_set_next_free :: "bytes \<Rightarrow> int \<Rightarrow> bytes" where
  "ph_set_next_free d p = put_int d OFFSET_PAGE_HDR p"

definition ph_set_num_records :: "bytes \<Rightarrow> int \<Rightarrow> bytes" where
  "ph_set_num_records d n = put_int d (OFFSET_PAGE_HDR + 4) n"

definition slot_offset :: "rm_file_hdr \<Rightarrow> int \<Rightarrow> nat" where
  "slot_offset h slot = OFFSET_BITMAP + nat (bitmap_size h + slot * record_size h)"

definition get_slot :: "rm_file_hdr \<Rightarrow> bytes \<Rightarrow> int \<Rightarrow> bytes" where
  "get_slot h d slot = mem_read d (slot_offset h slot) (nat (record_size h))"

definition put_slot :: "rm_file_hdr \<Rightarrow> bytes \<Rightarrow> int \<Rightarrow> bytes \<Rightarrow> bytes" where
  "put_slot h d slot buf = mem_write d (slot_offset h slot) (take (nat (record_size h)) buf)"

section \<open>The file handle\<close>

record rm_file =
  rm_fd :: int
  rm_hdr :: rm_file_hdr

type_synonym rm_state = "rm_file \<times> bpm"

definition rm_pid :: "rm_file \<Rightarrow> int \<Rightarrow> page_id" where
  "rm_pid h p = mk_pid (rm_fd h) p"

text \<open>The constructor reads the header page from disk and sets the allocation counter.\<close>

definition rm_file_open :: "bpm \<Rightarrow> int \<Rightarrow> (rm_file, bpm) outcome" where
  "rm_file_open s fd =
     (case dm_read_page (disk s) fd RM_FILE_HDR_PAGE (replicate 20 0) 20 of
        (buf, Inl e, d) \<Rightarrow> (Inl e, s\<lparr>disk := d\<rparr>)
      | (buf, Inr _, d) \<Rightarrow>
          let hdr = rm_hdr_of_bytes buf
          in (Inr \<lparr>rm_fd = fd, rm_hdr = hdr\<rparr>, s\<lparr>disk := dm_set_fd2pageno d fd (num_pages hdr)\<rparr>))"

definition rm_fetch_page_handle :: "rm_file \<Rightarrow> bpm \<Rightarrow> int \<Rightarrow> (frame_id, bpm) outcome" where
  "rm_fetch_page_handle h s p =
     (case bpm_fetch_page s (rm_pid h p) of
        (Inl e, s') \<Rightarrow> (Inl e, s')
      | (Inr None, s') \<Rightarrow>
          (case dm_get_file_name (disk s') (rm_fd h) of
             Inl e \<Rightarrow> (Inl e, s')
           | Inr name \<Rightarrow> (Inl (PageNotExistError name p), s'))
      | (Inr (Some f), s') \<Rightarrow> (Inr f, s'))"

text \<open>
  \<^verbatim>\<open>is_record\<close> leaves the page pinned, as the code does.
\<close>

definition rm_is_record :: "rm_file \<Rightarrow> bpm \<Rightarrow> rid \<Rightarrow> (bool, bpm) outcome" where
  "rm_is_record h s r =
     (case rm_fetch_page_handle h s (page_no r) of
        (Inl e, s') \<Rightarrow> (Inl e, s')
      | (Inr f, s') \<Rightarrow> (Inr (bm_is_set (pg_data (frame s' f)) OFFSET_BITMAP (slot_no r)), s'))"

definition rm_get_record :: "rm_file \<Rightarrow> bpm \<Rightarrow> rid \<Rightarrow> (bytes, bpm) outcome" where
  "rm_get_record h s r =
     (case rm_fetch_page_handle h s (page_no r) of
        (Inl e, s') \<Rightarrow> (Inl e, s')
      | (Inr f, s') \<Rightarrow>
          (Inr (get_slot (rm_hdr h) (pg_data (frame s' f)) (slot_no r)),
           snd (bpm_unpin_page s' (pg_id (frame s' f)) False)))"

definition rm_create_new_page_handle :: "rm_state \<Rightarrow> (frame_id, rm_state) outcome" where
  "rm_create_new_page_handle = (\<lambda>(h, s).
     (case bpm_new_page s (rm_fd h) of
        (Inl e, s1) \<Rightarrow> (Inl e, (h, s1))
      | (Inr None, s1) \<Rightarrow>
          (Inl NullDeref, (h\<lparr>rm_hdr := (rm_hdr h)\<lparr>num_pages := num_pages (rm_hdr h) + 1\<rparr>\<rparr>, s1))
      | (Inr (Some (q, f)), s1) \<Rightarrow>
          let hdr = rm_hdr h;
              hdr1 = hdr\<lparr>num_pages := num_pages hdr + 1, first_free_page_no := ppage q\<rparr>;
              s2 = bpm_store s1 f (ph_set_next_free (pg_data (frame s1 f)) (first_free_page_no hdr));
              h1 = h\<lparr>rm_hdr := hdr1\<rparr>
          in (case bpm_flush_page (bpm_mark_dirty s2 f) q of
                (Inl e, s3) \<Rightarrow> (Inl e, (h1, s3))
              | (Inr _, s3) \<Rightarrow>
                  (case dm_write_page (disk s3) (rm_fd h) RM_FILE_HDR_PAGE (rm_hdr_bytes hdr1) of
                     (Inl e, d) \<Rightarrow> (Inl e, (h1, s3\<lparr>disk := d\<rparr>))
                   | (Inr _, d) \<Rightarrow> (Inr f, (h1, s3\<lparr>disk := d\<rparr>))))))"

definition rm_create_page_handle :: "rm_state \<Rightarrow> (frame_id, rm_state) outcome" where
  "rm_create_page_handle = (\<lambda>(h, s).
     if first_free_page_no (rm_hdr h) = RM_NO_PAGE then rm_create_new_page_handle (h, s)
     else (case bpm_fetch_page s (rm_pid h (first_free_page_no (rm_hdr h))) of
             (Inl e, s') \<Rightarrow> (Inl e, (h, s'))
           | (Inr None, s') \<Rightarrow> (Inl NullDeref, (h, s'))
           | (Inr (Some f), s') \<Rightarrow> (Inr f, (h, s'))))"

text \<open>\<^verbatim>\<open>get_free_record\<close> reserves nothing: it only says where the next insertion would go.\<close>

definition rm_get_free_record :: "rm_state \<Rightarrow> (rid, rm_state) outcome" where
  "rm_get_free_record hs =
     (case rm_create_page_handle hs of
        (Inl e, hs') \<Rightarrow> (Inl e, hs')
      | (Inr f, (h, s)) \<Rightarrow>
          let n = num_records_per_page (rm_hdr h);
              slot = first_bit False (pg_data (frame s f)) OFFSET_BITMAP n
          in if slot = n then (Inl (InternalError ''No free slot in page''), (h, s))
             else let q = pg_id (frame s f)
                  in (Inr (mk_rid (ppage q) slot), (h, snd (bpm_unpin_page s q True))))"

definition rm_insert_record :: "rm_state \<Rightarrow> bytes \<Rightarrow> (rid, rm_state) outcome" where
  "rm_insert_record hs buf =
     (case rm_create_page_handle hs of
        (Inl e, hs') \<Rightarrow> (Inl e, hs')
      | (Inr f, (h, s)) \<Rightarrow>
          let hdr = rm_hdr h;
              n = num_records_per_page hdr;
              d0 = pg_data (frame s f);
              slot = first_bit False d0 OFFSET_BITMAP n
          in if slot = n then (Inl (InternalError ''No free slot in page''), (h, s))
             else let d1 = put_slot hdr d0 slot buf;
                      d2 = ph_set_num_records d1 (ph_num_records d1 + 1);
                      full = (ph_num_records d2 = n);
                      hdr' = (if full then hdr\<lparr>first_free_page_no := ph_next_free d2\<rparr> else hdr);
                      d3 = (if full then ph_set_next_free d2 RM_NO_PAGE else d2);
                      d4 = bm_set d3 OFFSET_BITMAP slot;
                      s1 = bpm_store s f d4;
                      q = pg_id (frame s1 f)
                  in (Inr (mk_rid (ppage q) slot), (h\<lparr>rm_hdr := hdr'\<rparr>, snd (bpm_unpin_page s1 q True))))"

text \<open>Insertion at a given position, used to undo and redo.\<close>

definition rm_insert_record_at :: "rm_state \<Rightarrow> rid \<Rightarrow> bytes \<Rightarrow> (unit, rm_state) outcome" where
  "rm_insert_record_at = (\<lambda>(h, s) r buf.
     (case rm_fetch_page_handle h s (page_no r) of
        (Inl e, s') \<Rightarrow> (Inl e, (h, s'))
      | (Inr f, s1) \<Rightarrow>
          let hdr = rm_hdr h;
              d0 = pg_data (frame s1 f);
              slot_is_set = bm_is_set d0 OFFSET_BITMAP (slot_no r);
              d1 = put_slot hdr d0 (slot_no r) buf;
              d2 = (if slot_is_set then d1
                    else bm_set (ph_set_num_records d1 (ph_num_records d1 + 1)) OFFSET_BITMAP (slot_no r));
              full = (ph_num_records d2 = num_records_per_page hdr);
              hdr' = (if full then hdr\<lparr>first_free_page_no := ph_next_free d2\<rparr> else hdr);
              d3 = (if full then ph_set_next_free d2 RM_NO_PAGE else d2);
              s2 = bpm_store s1 f d3
          in (Inr (), (h\<lparr>rm_hdr := hdr'\<rparr>, snd (bpm_unpin_page s2 (pg_id (frame s2 f)) True)))))"

definition rm_release_page_handle :: "rm_file_hdr \<Rightarrow> int \<Rightarrow> bytes \<Rightarrow> rm_file_hdr \<times> bytes" where
  "rm_release_page_handle hdr p d =
     (if ph_num_records d = num_records_per_page hdr then (hdr, d)
      else if ph_next_free d \<noteq> first_free_page_no hdr
           then (hdr\<lparr>first_free_page_no := p\<rparr>, ph_set_next_free d (first_free_page_no hdr))
           else (hdr, ph_set_next_free d RM_NO_PAGE))"

definition rm_delete_record :: "rm_state \<Rightarrow> rid \<Rightarrow> (unit, rm_state) outcome" where
  "rm_delete_record = (\<lambda>(h, s) r.
     (case rm_fetch_page_handle h s (page_no r) of
        (Inl e, s') \<Rightarrow> (Inl e, (h, s'))
      | (Inr f, s1) \<Rightarrow>
          let hdr = rm_hdr h;
              d0 = pg_data (frame s1 f);
              d1 = (if bm_is_set d0 OFFSET_BITMAP (slot_no r)
                    then let d = bm_reset d0 OFFSET_BITMAP (slot_no r)
                         in ph_set_num_records d (ph_num_records d - 1)
                    else d0);
              (hdr', d2) = (if ph_num_records d1 = num_records_per_page hdr - 1
                            then rm_release_page_handle hdr (ppage (pg_id (frame s1 f))) d1
                            else (hdr, d1));
              s2 = bpm_store s1 f d2
          in (Inr (), (h\<lparr>rm_hdr := hdr'\<rparr>, snd (bpm_unpin_page s2 (pg_id (frame s2 f)) True)))))"

definition rm_update_record :: "rm_state \<Rightarrow> rid \<Rightarrow> bytes \<Rightarrow> (unit, rm_state) outcome" where
  "rm_update_record = (\<lambda>(h, s) r buf.
     (case rm_fetch_page_handle h s (page_no r) of
        (Inl e, s') \<Rightarrow> (Inl e, (h, s'))
      | (Inr f, s1) \<Rightarrow>
          let s2 = bpm_store s1 f (put_slot (rm_hdr h) (pg_data (frame s1 f)) (slot_no r) buf)
          in (Inr (), (h, snd (bpm_unpin_page s2 (pg_id (frame s2 f)) True)))))"

function rm_count_loop :: "rm_file \<Rightarrow> bpm \<Rightarrow> int \<Rightarrow> int \<Rightarrow> (int, bpm) outcome" where
  "rm_count_loop h s i count =
     (if i < num_pages (rm_hdr h) then
        (case rm_fetch_page_handle h s i of
           (Inl e, s') \<Rightarrow> (Inl e, s')
         | (Inr f, s') \<Rightarrow>
             rm_count_loop h (snd (bpm_unpin_page s' (pg_id (frame s' f)) False)) (i + 1)
               (count + ph_num_records (pg_data (frame s' f))))
      else (Inr count, s))"
  by auto
termination by (relation "measure (\<lambda>(h, s, i, c). nat (num_pages (rm_hdr h) - i))") auto

declare rm_count_loop.simps [simp del]

definition rm_get_record_count :: "rm_file \<Rightarrow> bpm \<Rightarrow> (int, bpm) outcome" where
  "rm_get_record_count h s = rm_count_loop h s RM_FIRST_RECORD_PAGE 0"

definition rm_clear_pages :: "rm_file \<Rightarrow> bpm \<Rightarrow> page_id list \<Rightarrow> (bool, bpm) outcome" where
  "rm_clear_pages h s ord = bpm_delete_all_pages s (rm_fd h) ord"

end
