(* ===== verification/Rm_Page.thy ===== *)
theory Rm_Page
  imports Rm_File
begin

text \<open>
  Record pages: the layout computed by \<^verbatim>\<open>RmManager::create_file\<close> fits the page, header fields,
  bitmap and slots do not overlap, and what each field update does to the others. The
  collection \<open>page_simps\<close> carries the proofs about the file operations.
\<close>

named_theorems page_simps "effect of page updates on the fields of a record page"

section \<open>The layout of a file\<close>

text \<open>\<^verbatim>\<open>sizeof(RmFileHdr)\<close> is 20, more than the 12 bytes the page really uses before the bitmap.\<close>

definition rm_records_per_page :: "int \<Rightarrow> int" where
  "rm_records_per_page rs = (BITMAP_WIDTH * (int PAGE_SIZE - 1 - 20) + 1) div (1 + rs * BITMAP_WIDTH)"

definition rm_bitmap_size :: "int \<Rightarrow> int" where
  "rm_bitmap_size n = (n + BITMAP_WIDTH - 1) div BITMAP_WIDTH"

definition hdr_ok :: "rm_file_hdr \<Rightarrow> bool" where
  "hdr_ok h \<longleftrightarrow> 1 \<le> record_size h \<and> record_size h \<le> RM_MAX_RECORD_SIZE \<and>
     num_records_per_page h = rm_records_per_page (record_size h) \<and>
     bitmap_size h = rm_bitmap_size (num_records_per_page h)"

lemma hdr_ok_update [simp]:
  "hdr_ok (h\<lparr>num_pages := p\<rparr>) = hdr_ok h" "hdr_ok (h\<lparr>first_free_page_no := q\<rparr>) = hdr_ok h"
  by (simp_all add: hdr_ok_def)

lemma records_per_page_bounds:
  assumes "1 \<le> rs" "rs \<le> 512"
  shows "7 \<le> rm_records_per_page rs" and "rm_records_per_page rs \<le> 3622"
    and "12 + rm_bitmap_size (rm_records_per_page rs) + rm_records_per_page rs * rs \<le> 4096"
proof -
  let ?n = "rm_records_per_page rs"
  have n: "?n = 32601 div (1 + rs * 8)" by (simp add: rm_records_per_page_def BITMAP_WIDTH_def PAGE_SIZE_def)
  have "7 * (1 + rs * 8) \<le> 32601" using assms by simp
  then have "7 * (1 + rs * 8) div (1 + rs * 8) \<le> 32601 div (1 + rs * 8)" using assms by (intro zdiv_mono1) auto
  also have "7 * (1 + rs * 8) div (1 + rs * 8) = 7" using assms by (intro nonzero_mult_div_cancel_right) simp
  finally show "7 \<le> ?n" by (simp only: n)
  have le: "?n * (1 + rs * 8) \<le> 32601"
    unfolding n using assms by (simp add: minus_mod_eq_div_mult [symmetric])
  have nn: "0 \<le> ?n" using \<open>7 \<le> ?n\<close> by simp
  have "?n * 9 \<le> ?n * (1 + rs * 8)" using nn assms by (intro mult_left_mono) auto
  with le show "?n \<le> 3622" by simp
  have "8 * rm_bitmap_size ?n \<le> ?n + 7" by (simp add: rm_bitmap_size_def BITMAP_WIDTH_def)
  moreover have "?n + 8 * (?n * rs) \<le> 32601" using le by (simp add: algebra_simps)
  ultimately show "12 + rm_bitmap_size ?n + ?n * rs \<le> 4096" by linarith
qed

lemma hdr_okD:
  assumes "hdr_ok h"
  shows "1 \<le> record_size h" "record_size h \<le> 512" "7 \<le> num_records_per_page h" "num_records_per_page h \<le> 3622"
    and "12 + bitmap_size h + num_records_per_page h * record_size h \<le> 4096"
    and "bitmap_size h = (num_records_per_page h + 7) div 8" "0 \<le> bitmap_size h"
proof -
  show rs: "1 \<le> record_size h" "record_size h \<le> 512" using assms by (simp_all add: hdr_ok_def RM_MAX_RECORD_SIZE_def)
  show n: "7 \<le> num_records_per_page h" "num_records_per_page h \<le> 3622"
    "12 + bitmap_size h + num_records_per_page h * record_size h \<le> 4096"
    using records_per_page_bounds [OF rs] assms by (simp_all add: hdr_ok_def)
  show "bitmap_size h = (num_records_per_page h + 7) div 8"
    using assms by (simp add: hdr_ok_def rm_bitmap_size_def BITMAP_WIDTH_def)
  then show "0 \<le> bitmap_size h" using n by simp
qed

definition slot_ok :: "rm_file_hdr \<Rightarrow> int \<Rightarrow> bool" where
  "slot_ok h i \<longleftrightarrow> 0 \<le> i \<and> i < num_records_per_page h"

lemma slot_ok_update [simp]:
  "slot_ok (h\<lparr>num_pages := p\<rparr>) i = slot_ok h i" "slot_ok (h\<lparr>first_free_page_no := q\<rparr>) i = slot_ok h i"
  by (simp_all add: slot_ok_def)

lemma slot_in_page:
  assumes "hdr_ok h" "slot_ok h i"
  shows "slot_offset h i + nat (record_size h) \<le> PAGE_SIZE" "12 + nat (bitmap_size h) \<le> slot_offset h i"
proof -
  note d = hdr_okD [OF assms(1)]
  have i: "0 \<le> i" "i + 1 \<le> num_records_per_page h" using assms(2) by (simp_all add: slot_ok_def)
  have "(i + 1) * record_size h \<le> num_records_per_page h * record_size h"
    using i d(1) by (intro mult_right_mono) auto
  moreover have "0 \<le> i * record_size h" using i d(1) by simp
  ultimately show "slot_offset h i + nat (record_size h) \<le> PAGE_SIZE" "12 + nat (bitmap_size h) \<le> slot_offset h i"
    using d(1,5,7) by (auto simp: slot_offset_def OFFSET_BITMAP_def OFFSET_PAGE_HDR_def PAGE_SIZE_def algebra_simps nat_add_distrib [symmetric])
qed

lemma slots_disjoint:
  assumes "hdr_ok h" "slot_ok h i" "slot_ok h j" "i \<noteq> j"
  shows "slot_offset h i + nat (record_size h) \<le> slot_offset h j \<or> slot_offset h j + nat (record_size h) \<le> slot_offset h i"
proof -
  note d = hdr_okD [OF assms(1)]
  have *: "slot_offset h k + nat (record_size h) \<le> slot_offset h l" if "0 \<le> k" "k < l" for k l
  proof -
    have "(k + 1) * record_size h \<le> l * record_size h" using that d(1) by (intro mult_right_mono) auto
    moreover have "0 \<le> k * record_size h" using that d(1) by simp
    ultimately show ?thesis using d(1,7) by (simp add: slot_offset_def nat_add_distrib [symmetric] algebra_simps)
  qed
  show ?thesis using * [of i j] * [of j i] assms(2-4) by (cases "i < j") (auto simp: slot_ok_def)
qed

section \<open>Field updates\<close>

lemma page_bm_in: "hdr_ok h \<Longrightarrow> length c = PAGE_SIZE \<Longrightarrow> bm_in c OFFSET_BITMAP (num_records_per_page h)"
  using hdr_okD [of h] by (simp add: bm_in_def OFFSET_BITMAP_def OFFSET_PAGE_HDR_def PAGE_SIZE_def)

lemma bitmap_end: "hdr_ok h \<Longrightarrow> slot_ok h i \<Longrightarrow>
    OFFSET_BITMAP + nat ((num_records_per_page h + 7) div 8) \<le> slot_offset h i"
  using slot_in_page(2) [of h i] hdr_okD(6) [of h] by (simp add: OFFSET_BITMAP_def OFFSET_PAGE_HDR_def)

lemmas page_offsets = OFFSET_BITMAP_def OFFSET_PAGE_HDR_def

lemma len_put_slot [page_simps]:
  assumes "hdr_ok h" "slot_ok h i" "length c = PAGE_SIZE"
  shows "length (put_slot h c i buf) = PAGE_SIZE"
proof -
  have "slot_offset h i + length (take (nat (record_size h)) buf) \<le> length c"
    using slot_in_page(1) [OF assms(1,2)] assms(3) by simp
  then show ?thesis using assms(3) by (simp add: put_slot_def length_mem_write)
qed

lemma len_ph_set [page_simps]:
  "length c = PAGE_SIZE \<Longrightarrow> length (ph_set_next_free c p) = PAGE_SIZE"
  "length c = PAGE_SIZE \<Longrightarrow> length (ph_set_num_records c k) = PAGE_SIZE"
  by (simp_all add: ph_set_next_free_def ph_set_num_records_def length_put_int page_offsets PAGE_SIZE_def)

lemma ph_set_fields [page_simps]:
  "length c = PAGE_SIZE \<Longrightarrow> ph_next_free (ph_set_next_free c p) = wrap32 p"
  "length c = PAGE_SIZE \<Longrightarrow> ph_num_records (ph_set_next_free c p) = ph_num_records c"
  "length c = PAGE_SIZE \<Longrightarrow> ph_num_records (ph_set_num_records c k) = wrap32 k"
  "length c = PAGE_SIZE \<Longrightarrow> ph_next_free (ph_set_num_records c k) = ph_next_free c"
  by (simp_all add: ph_set_next_free_def ph_set_num_records_def ph_next_free_def ph_num_records_def
      get_put_int_same get_put_int_other page_offsets PAGE_SIZE_def)

lemma ph_put_slot [page_simps]:
  assumes "hdr_ok h" "slot_ok h i" "length c = PAGE_SIZE"
  shows "ph_next_free (put_slot h c i buf) = ph_next_free c" "ph_num_records (put_slot h c i buf) = ph_num_records c"
proof -
  have "slot_offset h i + length (take (nat (record_size h)) buf) \<le> length c" "12 \<le> slot_offset h i"
    using slot_in_page [OF assms(1,2)] assms(3) by simp_all
  then show "ph_next_free (put_slot h c i buf) = ph_next_free c" "ph_num_records (put_slot h c i buf) = ph_num_records c"
    by (simp_all add: ph_next_free_def ph_num_records_def put_slot_def get_int_write_other page_offsets)
qed

lemma ph_bm [page_simps]:
  assumes "hdr_ok h" "slot_ok h i" "length c = PAGE_SIZE"
  shows "ph_next_free (bm_set c OFFSET_BITMAP i) = ph_next_free c"
    "ph_num_records (bm_set c OFFSET_BITMAP i) = ph_num_records c"
    "ph_next_free (bm_reset c OFFSET_BITMAP i) = ph_next_free c"
    "ph_num_records (bm_reset c OFFSET_BITMAP i) = ph_num_records c"
  using bm_set_outside [OF page_bm_in [OF assms(1,3)], of i _ 4] assms(2)
  by (simp_all add: slot_ok_def ph_next_free_def ph_num_records_def get_int_def page_offsets)

lemma get_put_slot [page_simps]:
  assumes "hdr_ok h" "slot_ok h i" "slot_ok h j" "length c = PAGE_SIZE" "nat (record_size h) \<le> length buf"
  shows "get_slot h (put_slot h c i buf) j = (if j = i then take (nat (record_size h)) buf else get_slot h c j)"
proof -
  have l: "length (take (nat (record_size h)) buf) = nat (record_size h)" using assms(5) by simp
  have i: "slot_offset h i + nat (record_size h) \<le> length c" using slot_in_page(1) [OF assms(1,2)] assms(4) by simp
  show ?thesis
  proof (cases "j = i")
    case True
    then show ?thesis using i l by (simp add: get_slot_def put_slot_def mem_read_write_same)
  next
    case False
    then show ?thesis using slots_disjoint [OF assms(1,2,3)] i l
      by (auto simp: get_slot_def put_slot_def mem_read_write_before mem_read_write_after)
  qed
qed

lemma get_slot_other [page_simps]:
  assumes "hdr_ok h" "slot_ok h j" "length c = PAGE_SIZE"
  shows "get_slot h (ph_set_next_free c p) j = get_slot h c j" "get_slot h (ph_set_num_records c k) j = get_slot h c j"
    "slot_ok h i \<Longrightarrow> get_slot h (bm_set c OFFSET_BITMAP i) j = get_slot h c j"
    "slot_ok h i \<Longrightarrow> get_slot h (bm_reset c OFFSET_BITMAP i) j = get_slot h c j"
proof -
  have j: "12 \<le> slot_offset h j" using slot_in_page(2) [OF assms(1,2)] by simp
  then show "get_slot h (ph_set_next_free c p) j = get_slot h c j" "get_slot h (ph_set_num_records c k) j = get_slot h c j"
    using assms(3) by (simp_all add: get_slot_def ph_set_next_free_def ph_set_num_records_def
        mem_read_put_int_other page_offsets PAGE_SIZE_def)
  show "get_slot h (bm_set c OFFSET_BITMAP i) j = get_slot h c j"
    "get_slot h (bm_reset c OFFSET_BITMAP i) j = get_slot h c j" if "slot_ok h i"
    using bm_set_outside [OF page_bm_in [OF assms(1,3)], of i "slot_offset h j"] that bitmap_end [OF assms(1,2)]
    by (simp_all add: slot_ok_def get_slot_def)
qed

lemma bits_put_int:
  assumes "hdr_ok h" "length c = PAGE_SIZE" "off + 4 \<le> 12" "slot_ok h j"
  shows "bm_is_set (put_int c off x) OFFSET_BITMAP j = bm_is_set c OFFSET_BITMAP j"
    and "bm_slots (put_int c off x) OFFSET_BITMAP (num_records_per_page h) = bm_slots c OFFSET_BITMAP (num_records_per_page h)"
  using bm_is_set_write [OF page_bm_in [OF assms(1,2)], of j off "enc_int x"]
    bm_slots_write [OF page_bm_in [OF assms(1,2)], of off "enc_int x"] assms
  by (simp_all add: put_int_def slot_ok_def page_offsets PAGE_SIZE_def)

lemma bits_other [page_simps]:
  assumes "hdr_ok h" "length c = PAGE_SIZE" "slot_ok h j"
  shows "bm_is_set (ph_set_next_free c p) OFFSET_BITMAP j = bm_is_set c OFFSET_BITMAP j"
    "bm_is_set (ph_set_num_records c k) OFFSET_BITMAP j = bm_is_set c OFFSET_BITMAP j"
    "slot_ok h i \<Longrightarrow> bm_is_set (put_slot h c i buf) OFFSET_BITMAP j = bm_is_set c OFFSET_BITMAP j"
    "slot_ok h i \<Longrightarrow> bm_is_set (bm_set c OFFSET_BITMAP i) OFFSET_BITMAP j = (j = i \<or> bm_is_set c OFFSET_BITMAP j)"
    "slot_ok h i \<Longrightarrow> bm_is_set (bm_reset c OFFSET_BITMAP i) OFFSET_BITMAP j = (j \<noteq> i \<and> bm_is_set c OFFSET_BITMAP j)"
proof -
  show "bm_is_set (ph_set_next_free c p) OFFSET_BITMAP j = bm_is_set c OFFSET_BITMAP j"
    "bm_is_set (ph_set_num_records c k) OFFSET_BITMAP j = bm_is_set c OFFSET_BITMAP j"
    using bits_put_int(1) [OF assms(1,2) _ assms(3)] by (simp_all add: ph_set_next_free_def ph_set_num_records_def OFFSET_PAGE_HDR_def)
  assume i: "slot_ok h i"
  have "slot_offset h i + length (take (nat (record_size h)) buf) \<le> length c" "OFFSET_BITMAP + nat ((num_records_per_page h + 7) div 8) \<le> slot_offset h i"
    using slot_in_page [OF assms(1) i] bitmap_end [OF assms(1) i] assms(2) by simp_all
  then show "bm_is_set (put_slot h c i buf) OFFSET_BITMAP j = bm_is_set c OFFSET_BITMAP j"
    using bm_is_set_write [OF page_bm_in [OF assms(1,2)]] assms(3) by (simp add: slot_ok_def put_slot_def)
  show "bm_is_set (bm_set c OFFSET_BITMAP i) OFFSET_BITMAP j = (j = i \<or> bm_is_set c OFFSET_BITMAP j)"
    "bm_is_set (bm_reset c OFFSET_BITMAP i) OFFSET_BITMAP j = (j \<noteq> i \<and> bm_is_set c OFFSET_BITMAP j)"
    using bm_is_set_update [OF page_bm_in [OF assms(1,2)]] i assms(3) by (simp_all add: slot_ok_def)
qed

text \<open>The number of taken slots of a page.\<close>

definition used :: "rm_file_hdr \<Rightarrow> bytes \<Rightarrow> int" where
  "used h c = int (length (bm_slots c OFFSET_BITMAP (num_records_per_page h)))"

lemma used_update [simp]:
  "used (h\<lparr>num_pages := p\<rparr>) c = used h c" "used (h\<lparr>first_free_page_no := q\<rparr>) c = used h c"
  by (simp_all add: used_def)

lemma used_bounds: "hdr_ok h \<Longrightarrow> 0 \<le> used h c \<and> used h c \<le> num_records_per_page h"
  using bm_slots_le [of "num_records_per_page h"] hdr_okD(3) [of h] by (simp add: used_def)

lemma used_simps [page_simps]:
  assumes "hdr_ok h" "length c = PAGE_SIZE"
  shows "used h (ph_set_next_free c p) = used h c" "used h (ph_set_num_records c k) = used h c"
    "slot_ok h i \<Longrightarrow> used h (put_slot h c i buf) = used h c"
    "slot_ok h i \<Longrightarrow> \<not> bm_is_set c OFFSET_BITMAP i \<Longrightarrow> used h (bm_set c OFFSET_BITMAP i) = used h c + 1"
    "slot_ok h i \<Longrightarrow> bm_is_set c OFFSET_BITMAP i \<Longrightarrow> used h (bm_reset c OFFSET_BITMAP i) = used h c - 1"
proof -
  have z: "slot_ok h 0" using hdr_okD(3) [OF assms(1)] by (simp add: slot_ok_def)
  show "used h (ph_set_next_free c p) = used h c" "used h (ph_set_num_records c k) = used h c"
    using bits_put_int(2) [OF assms _ z] by (simp_all add: used_def ph_set_next_free_def ph_set_num_records_def OFFSET_PAGE_HDR_def)
  assume i: "slot_ok h i"
  have "slot_offset h i + length (take (nat (record_size h)) buf) \<le> length c" "OFFSET_BITMAP + nat ((num_records_per_page h + 7) div 8) \<le> slot_offset h i"
    using slot_in_page [OF assms(1) i] bitmap_end [OF assms(1) i] assms(2) by simp_all
  then show "used h (put_slot h c i buf) = used h c"
    using bm_slots_write [OF page_bm_in [OF assms]] by (simp add: used_def put_slot_def)
  show "\<not> bm_is_set c OFFSET_BITMAP i \<Longrightarrow> used h (bm_set c OFFSET_BITMAP i) = used h c + 1"
    "bm_is_set c OFFSET_BITMAP i \<Longrightarrow> used h (bm_reset c OFFSET_BITMAP i) = used h c - 1"
    using bm_count_set [OF page_bm_in [OF assms], of i] i by (simp_all add: used_def slot_ok_def)
qed

text \<open>A page is consistent when its record counter is the number of taken slots.\<close>

definition rm_page_ok :: "rm_file_hdr \<Rightarrow> bytes \<Rightarrow> bool" where
  "rm_page_ok h c \<longleftrightarrow> length c = PAGE_SIZE \<and> ph_num_records c = used h c"

lemma rm_page_ok_update [simp]:
  "rm_page_ok (h\<lparr>num_pages := p\<rparr>) c = rm_page_ok h c" "rm_page_ok (h\<lparr>first_free_page_no := q\<rparr>) c = rm_page_ok h c"
  by (simp_all add: rm_page_ok_def)

lemma used_zero [page_simps]:
  assumes "hdr_ok h"
  shows "used h zero_page = 0"
proof -
  have "\<not> bm_is_set zero_page OFFSET_BITMAP j" if "0 \<le> j" "j < num_records_per_page h" for j
  proof -
    have "OFFSET_BITMAP + nat (j div 8) < PAGE_SIZE"
      using bm_inD [OF page_bm_in [OF assms], of zero_page j] that by simp
    then show ?thesis by (simp add: bm_is_set_bit zero_page_def)
  qed
  then show ?thesis by (auto simp: used_def bm_slots_def filter_empty_conv)
qed

end
