(* ===== verification/Rm_Table.thy ===== *)
theory Rm_Table
  imports Rm_Page
begin

text \<open>
  Record files implement tables. The invariant \<open>rm_inv\<close> of an open file: every record page
  exists and is consistent, and the free-page list that starts in the file header visits
  distinct pages that all have a free slot. The lemmas state each operation of the file handle
  as an operation on the table \<open>rm_contents\<close>.
\<close>

section \<open>Invariant and contents\<close>

definition rm_view :: "rm_file \<Rightarrow> bpm \<Rightarrow> int \<Rightarrow> bytes option" where
  "rm_view h s p = bpm_view s (rm_pid h p)"

definition page_range :: "rm_file \<Rightarrow> int \<Rightarrow> bool" where
  "page_range h p \<longleftrightarrow> 1 \<le> p \<and> p < num_pages (rm_hdr h)"

fun free_chain :: "(int \<Rightarrow> int) \<Rightarrow> int \<Rightarrow> int list \<Rightarrow> bool" where
  "free_chain next p [] \<longleftrightarrow> p = RM_NO_PAGE"
| "free_chain next p (x # xs) \<longleftrightarrow> p = x \<and> free_chain next (next x) xs"

definition page_next :: "rm_file \<Rightarrow> bpm \<Rightarrow> int \<Rightarrow> int" where
  "page_next h s p = ph_next_free (the (rm_view h s p))"

definition page_full :: "rm_file \<Rightarrow> bpm \<Rightarrow> int \<Rightarrow> bool" where
  "page_full h s p \<longleftrightarrow> used (rm_hdr h) (the (rm_view h s p)) = num_records_per_page (rm_hdr h)"

definition rm_free_ok :: "rm_file \<Rightarrow> bpm \<Rightarrow> bool" where
  "rm_free_ok h s \<longleftrightarrow>
     (\<exists>ps. free_chain (page_next h s) (first_free_page_no (rm_hdr h)) ps \<and> distinct ps \<and>
           (\<forall>p \<in> set ps. page_range h p \<and> \<not> page_full h s p)) \<and>
     (\<forall>p. page_range h p \<and> page_full h s p \<longrightarrow> page_next h s p = RM_NO_PAGE)"

definition rm_inv :: "rm_file \<Rightarrow> bpm \<Rightarrow> bool" where
  "rm_inv h s \<longleftrightarrow> bpm_ok s \<and> hdr_ok (rm_hdr h) \<and> 1 \<le> num_pages (rm_hdr h) \<and>
     fd2pageno (disk s) (rm_fd h) = num_pages (rm_hdr h) \<and> page_table s (rm_pid h RM_FILE_HDR_PAGE) = None \<and>
     (\<forall>p. page_range h p \<longrightarrow> bpm_avail s (rm_pid h p) \<and> (\<exists>c. rm_view h s p = Some c \<and> rm_page_ok (rm_hdr h) c)) \<and>
     rm_free_ok h s"

definition rm_room :: "bpm \<Rightarrow> bool" where
  "rm_room s \<longleftrightarrow> (\<exists>f < length (pages s). pins s f = 0)"

text \<open>The table a file stands for.\<close>

definition rm_contents :: "rm_file \<Rightarrow> bpm \<Rightarrow> rid \<rightharpoonup> bytes" where
  "rm_contents h s r =
     (if page_range h (page_no r) \<and> slot_ok (rm_hdr h) (slot_no r) then
        (case rm_view h s (page_no r) of
           None \<Rightarrow> None
         | Some c \<Rightarrow> if bm_is_set c OFFSET_BITMAP (slot_no r) then Some (get_slot (rm_hdr h) c (slot_no r)) else None)
      else None)"

lemma rm_invD:
  assumes "rm_inv h s"
  shows "bpm_ok s" "hdr_ok (rm_hdr h)" "1 \<le> num_pages (rm_hdr h)"
    "fd2pageno (disk s) (rm_fd h) = num_pages (rm_hdr h)" "page_table s (rm_pid h RM_FILE_HDR_PAGE) = None"
    and "page_range h p \<Longrightarrow> bpm_avail s (rm_pid h p)"
    and "page_range h p \<Longrightarrow> \<exists>c. rm_view h s p = Some c \<and> rm_page_ok (rm_hdr h) c"
    and "rm_free_ok h s"
  using assms by (auto simp: rm_inv_def)

lemma rm_pid_inject [simp]: "rm_pid h p = rm_pid h q \<longleftrightarrow> p = q"
  by (simp add: rm_pid_def)

lemma rm_pid_hdr [simp]: "rm_pid (h\<lparr>rm_hdr := x\<rparr>) p = rm_pid h p"
  by (simp add: rm_pid_def)

lemma rm_view_hdr [simp]: "rm_view (h\<lparr>rm_hdr := x\<rparr>) s p = rm_view h s p"
  by (simp add: rm_view_def)

section \<open>Fetching pages\<close>

lemma rm_fetch_ok:
  assumes "bpm_fetch_page s (rm_pid h p) = (Inr (Some f), s1)"
  shows "rm_fetch_page_handle h s p = (Inr f, s1)"
  using assms by (simp add: rm_fetch_page_handle_def)

text \<open>Reading a page changes neither the table nor the use of the pool.\<close>

lemma rm_inv_same_view:
  assumes inv: "rm_inv h s" and use: "bpm_ok s'" "bpm_avail s' = bpm_avail s" and view: "bpm_view s \<subseteq>\<^sub>m bpm_view s'"
    and nx: "fd2pageno (disk s') (rm_fd h) = fd2pageno (disk s) (rm_fd h)"
    and home: "page_table s' (rm_pid h RM_FILE_HDR_PAGE) = None"
  shows "rm_inv h s'" and "rm_contents h s' = rm_contents h s"
proof -
  note d = rm_invD [OF inv]
  have v: "rm_view h s' p = rm_view h s p" if "page_range h p" for p
    using d(7) [OF that] map_leD [OF view] by (auto simp: rm_view_def)
  have n: "page_next h s' p = page_next h s p" "page_full h s' p = page_full h s p" if "page_range h p" for p
    using v [OF that] by (simp_all add: page_next_def page_full_def)
  have ch: "free_chain (page_next h s') p ps" if "free_chain (page_next h s) p ps" "\<forall>q \<in> set ps. page_range h q" for p ps
    using that n by (induction ps arbitrary: p) auto
  obtain ps where ps: "free_chain (page_next h s) (first_free_page_no (rm_hdr h)) ps" "distinct ps"
    "\<forall>p \<in> set ps. page_range h p \<and> \<not> page_full h s p"
    using d(8) by (auto simp: rm_free_ok_def)
  have full: "page_range h p \<Longrightarrow> page_full h s p \<Longrightarrow> page_next h s p = RM_NO_PAGE" for p
    using d(8) by (simp add: rm_free_ok_def)
  have "free_chain (page_next h s') (first_free_page_no (rm_hdr h)) ps" using ch [OF ps(1)] ps(3) by blast
  then have "rm_free_ok h s'"
    unfolding rm_free_ok_def using ps(2,3) n full by (intro conjI exI [of _ ps]) auto
  then show "rm_inv h s'"
    using d use v nx home by (auto simp: rm_inv_def)
  show "rm_contents h s' = rm_contents h s"
    by (rule ext) (auto simp: rm_contents_def v split: option.splits)
qed

lemma bpm_unpin_next: "fd2pageno (disk (snd (bpm_unpin_page s q d))) = fd2pageno (disk s)"
  by (simp add: bpm_unpin_page_def Let_def split: option.splits)

lemma rm_read_page:
  assumes inv: "rm_inv h s" and p: "page_range h p" and room: "rm_room s"
  obtains f s1 s2 c where "rm_fetch_page_handle h s p = (Inr f, s1)" "pg_data (frame s1 f) = c"
    "rm_view h s p = Some c" "rm_page_ok (rm_hdr h) c" "pg_id (frame s1 f) = rm_pid h p"
    "bpm_unpin_page s1 (rm_pid h p) False = (True, s2)" "rm_inv h s2" "rm_contents h s2 = rm_contents h s"
    "bp.same_use s s2" "rm_view h s2 p = Some c" "\<And>q. page_range h q \<Longrightarrow> rm_view h s2 q = rm_view h s q"
    "bpm_view s \<subseteq>\<^sub>m bpm_view s2" "fd2pageno (disk s2) = fd2pageno (disk s)"
    "\<And>r. page_table s2 r \<noteq> None \<Longrightarrow> r = rm_pid h p \<or> page_table s r \<noteq> None"
proof -
  note d = rm_invD [OF inv]
  obtain c where c: "bpm_view s (rm_pid h p) = Some c" "rm_page_ok (rm_hdr h) c" using d(7) [OF p] by (auto simp: rm_view_def)
  obtain f s1 s2 where r: "bpm_fetch_page s (rm_pid h p) = (Inr (Some f), s1)" "bpm_ok s1" "page_table s1 (rm_pid h p) = Some f"
    "pg_data (frame s1 f) = c" "bpm_unpin_page s1 (rm_pid h p) False = (True, s2)" "bp.same_use s s2"
    "bpm_view s \<subseteq>\<^sub>m bpm_view s2" "\<And>r. page_table s2 r \<noteq> None \<Longrightarrow> r = rm_pid h p \<or> page_table s r \<noteq> None"
    by (rule bp.read_client [OF d(1) c(1) d(6) [OF p] room [unfolded rm_room_def]]) blast
  have nx: "fd2pageno (disk s2) = fd2pageno (disk s)"
  proof -
    have "fd2pageno (disk s1) = fd2pageno (disk s)"
      using bpm_fetch_keeps(4) [OF d(1) d(6) [OF p] r(1) bpm_okD(1) [OF r(2)]] .
    with bpm_unpin_next [of s1 "rm_pid h p" False] r(5) show ?thesis by simp
  qed
  have home: "page_table s2 (rm_pid h RM_FILE_HDR_PAGE) = None"
    using r(8) [of "rm_pid h RM_FILE_HDR_PAGE"] d(5) p
    by (cases "page_table s2 (rm_pid h RM_FILE_HDR_PAGE)") (auto simp: page_range_def RM_FILE_HDR_PAGE_def)
  have use: "bpm_ok s2" "bpm_avail s2 = bpm_avail s" using r(6) by (simp_all add: bp.same_use_def)
  note i = rm_inv_same_view [OF inv use r(7) fun_cong [OF nx] home]
  have v: "rm_view h s p = Some c" "rm_view h s2 p = Some c"
    using c(1) map_leD [OF r(7) c(1)] by (simp_all add: rm_view_def)
  have vs: "rm_view h s2 q = rm_view h s q" if "page_range h q" for q
    using d(7) [OF that] map_leD [OF r(7)] by (auto simp: rm_view_def)
  show ?thesis
    by (rule that [OF rm_fetch_ok [OF r(1)] r(4) v(1) c(2) held_id(1) [OF r(2,3)] r(5) i r(6) v(2) vs r(7) nx r(8)])
qed

section \<open>Reading operations\<close>

lemma rm_get_record_ok:
  assumes inv: "rm_inv h s" and p: "page_range h (page_no r)" and room: "rm_room s"
  obtains s' where "rm_get_record h s r = (Inr (get_slot (rm_hdr h) (the (rm_view h s (page_no r))) (slot_no r)), s')"
    "rm_inv h s'" "rm_contents h s' = rm_contents h s" "bp.same_use s s'"
proof -
  obtain f s1 s2 c where x: "rm_fetch_page_handle h s (page_no r) = (Inr f, s1)" "pg_data (frame s1 f) = c"
    "rm_view h s (page_no r) = Some c" "pg_id (frame s1 f) = rm_pid h (page_no r)"
    "bpm_unpin_page s1 (rm_pid h (page_no r)) False = (True, s2)" "rm_inv h s2" "rm_contents h s2 = rm_contents h s"
    "bp.same_use s s2"
    by (rule rm_read_page [OF inv p room]) blast
  show ?thesis by (rule that [of s2]) (use x in \<open>simp_all add: rm_get_record_def\<close>)
qed

lemma rm_room_same: "bp.same_use s s' \<Longrightarrow> rm_room s \<Longrightarrow> rm_room s'"
  by (simp add: bp.same_use_def rm_room_def)

section \<open>Updating one page\<close>

text \<open>
  The consistency of a file without its free-page list. It is all that reading and changing
  pages needs, and what remains of a file whose list has been damaged.
\<close>

definition rm_base :: "rm_file \<Rightarrow> bpm \<Rightarrow> bool" where
  "rm_base h s \<longleftrightarrow> bpm_ok s \<and> hdr_ok (rm_hdr h) \<and> 1 \<le> num_pages (rm_hdr h) \<and>
     fd2pageno (disk s) (rm_fd h) = num_pages (rm_hdr h) \<and> page_table s (rm_pid h RM_FILE_HDR_PAGE) = None \<and>
     (\<forall>p. page_range h p \<longrightarrow> bpm_avail s (rm_pid h p) \<and> (\<exists>c. rm_view h s p = Some c \<and> rm_page_ok (rm_hdr h) c))"

lemma rm_inv_base: "rm_inv h s \<longleftrightarrow> rm_base h s \<and> rm_free_ok h s"
  by (auto simp: rm_inv_def rm_base_def)

lemma rm_baseD:
  assumes "rm_base h s"
  shows "bpm_ok s" "hdr_ok (rm_hdr h)" "1 \<le> num_pages (rm_hdr h)"
    "fd2pageno (disk s) (rm_fd h) = num_pages (rm_hdr h)" "page_table s (rm_pid h RM_FILE_HDR_PAGE) = None"
    and "page_range h p \<Longrightarrow> bpm_avail s (rm_pid h p)"
    and "page_range h p \<Longrightarrow> \<exists>c. rm_view h s p = Some c \<and> rm_page_ok (rm_hdr h) c"
  using assms by (auto simp: rm_base_def)

lemma rm_update_page_base:
  assumes inv: "rm_base h s" and p: "page_range h p" and room: "rm_room s"
    and c: "rm_view h s p = Some c" and len: "length c' = PAGE_SIZE"
  obtains f s1 s2 where "rm_fetch_page_handle h s p = (Inr f, s1)" "pg_data (frame s1 f) = c"
    "bpm_fetch_page s (rm_pid h p) = (Inr (Some f), s1)"
    "pg_id (frame s1 f) = rm_pid h p" "\<And>x. pg_id (frame (bpm_store s1 f x) f) = rm_pid h p"
    "bpm_unpin_page (bpm_store s1 f c') (rm_pid h p) True = (True, s2)"
    "bp.same_use s s2" "rm_view h s2 p = Some c'"
    "\<And>q' x. q' \<noteq> rm_pid h p \<Longrightarrow> bpm_view s q' = Some x \<Longrightarrow> bpm_view s2 q' = Some x"
    "fd2pageno (disk s2) = fd2pageno (disk s)"
    "\<And>r. page_table s2 r \<noteq> None \<Longrightarrow> r = rm_pid h p \<or> page_table s r \<noteq> None"
proof -
  note d = rm_baseD [OF inv]
  have c': "bpm_view s (rm_pid h p) = Some c" using c by (simp add: rm_view_def)
  obtain f s1 s2 where r: "bpm_fetch_page s (rm_pid h p) = (Inr (Some f), s1)" "bpm_ok s1" "page_table s1 (rm_pid h p) = Some f"
    "pg_data (frame s1 f) = c" "bpm_unpin_page (bpm_store s1 f c') (rm_pid h p) True = (True, s2)" "bp.same_use s s2"
    "bpm_view s2 (rm_pid h p) = Some c'"
    "\<And>q' x. q' \<noteq> rm_pid h p \<Longrightarrow> bpm_view s q' = Some x \<Longrightarrow> bpm_view s2 q' = Some x"
    "\<And>r. page_table s2 r \<noteq> None \<Longrightarrow> r = rm_pid h p \<or> page_table s r \<noteq> None"
    by (rule bp.update_client [OF d(1) c' d(6) [OF p] room [unfolded rm_room_def], of "\<lambda>_. c'", OF len]) blast
  have nx: "fd2pageno (disk s2) = fd2pageno (disk s)"
  proof -
    have "fd2pageno (disk s1) = fd2pageno (disk s)"
      using bpm_fetch_keeps(4) [OF d(1) d(6) [OF p] r(1) bpm_okD(1) [OF r(2)]] .
    with bpm_unpin_next [of "bpm_store s1 f c'" "rm_pid h p" True] r(5) show ?thesis by (simp add: bpm_store_def)
  qed
  show ?thesis
    by (rule that [OF rm_fetch_ok [OF r(1)] r(4) r(1) held_id [OF r(2,3)] r(5,6) _ r(8) nx r(9)])
      (use r(7) in \<open>simp_all add: rm_view_def\<close>)
qed

lemma rm_update_page:
  assumes inv: "rm_inv h s" and p: "page_range h p" and room: "rm_room s"
    and c: "rm_view h s p = Some c" and len: "length c' = PAGE_SIZE"
  obtains f s1 s2 where "rm_fetch_page_handle h s p = (Inr f, s1)" "pg_data (frame s1 f) = c"
    "bpm_fetch_page s (rm_pid h p) = (Inr (Some f), s1)"
    "pg_id (frame s1 f) = rm_pid h p" "\<And>x. pg_id (frame (bpm_store s1 f x) f) = rm_pid h p"
    "bpm_unpin_page (bpm_store s1 f c') (rm_pid h p) True = (True, s2)"
    "bp.same_use s s2" "rm_view h s2 p = Some c'"
    "\<And>p'. page_range h p' \<Longrightarrow> p' \<noteq> p \<Longrightarrow> rm_view h s2 p' = rm_view h s p'"
    "fd2pageno (disk s2) = fd2pageno (disk s)" "page_table s2 (rm_pid h RM_FILE_HDR_PAGE) = None"
proof -
  have b: "rm_base h s" using inv by (simp add: rm_inv_base)
  note d = rm_invD [OF inv]
  show ?thesis
  proof (rule rm_update_page_base [OF b p room c len])
    fix f s1 s2
    assume r: "rm_fetch_page_handle h s p = (Inr f, s1)" "pg_data (frame s1 f) = c"
      "bpm_fetch_page s (rm_pid h p) = (Inr (Some f), s1)"
      "pg_id (frame s1 f) = rm_pid h p" "\<And>x. pg_id (frame (bpm_store s1 f x) f) = rm_pid h p"
      "bpm_unpin_page (bpm_store s1 f c') (rm_pid h p) True = (True, s2)"
      "bp.same_use s s2" "rm_view h s2 p = Some c'"
      "\<And>q' x. q' \<noteq> rm_pid h p \<Longrightarrow> bpm_view s q' = Some x \<Longrightarrow> bpm_view s2 q' = Some x"
      "fd2pageno (disk s2) = fd2pageno (disk s)"
      "\<And>r. page_table s2 r \<noteq> None \<Longrightarrow> r = rm_pid h p \<or> page_table s r \<noteq> None"
    have home: "page_table s2 (rm_pid h RM_FILE_HDR_PAGE) = None"
      using r(11) [of "rm_pid h RM_FILE_HDR_PAGE"] d(5) p
      by (cases "page_table s2 (rm_pid h RM_FILE_HDR_PAGE)") (auto simp: page_range_def RM_FILE_HDR_PAGE_def)
    have other: "rm_view h s2 p' = rm_view h s p'" if "page_range h p'" "p' \<noteq> p" for p'
      using d(7) [OF that(1)] r(9) [of "rm_pid h p'"] that(2) by (auto simp: rm_view_def)
    show ?thesis by (rule that [OF r(1-8) other r(10) home])
  qed
qed

lemma free_chain_cong: "free_chain N p ps \<Longrightarrow> (\<And>q. q \<in> set ps \<Longrightarrow> N' q = N q) \<Longrightarrow> free_chain N' p ps"
  by (induction ps arbitrary: p) auto

lemma rm_free_okI:
  assumes "free_chain (page_next h s) (first_free_page_no (rm_hdr h)) ps" "distinct ps"
    and "\<And>p. p \<in> set ps \<Longrightarrow> page_range h p \<and> \<not> page_full h s p"
    and "\<And>p. page_range h p \<Longrightarrow> page_full h s p \<Longrightarrow> page_next h s p = RM_NO_PAGE"
  shows "rm_free_ok h s"
  using assms unfolding rm_free_ok_def by blast

lemma rm_free_okD:
  assumes "rm_free_ok h s"
  obtains ps where "free_chain (page_next h s) (first_free_page_no (rm_hdr h)) ps" "distinct ps"
    and "\<And>p. p \<in> set ps \<Longrightarrow> page_range h p \<and> \<not> page_full h s p"
    and "\<And>p. page_range h p \<Longrightarrow> page_full h s p \<Longrightarrow> page_next h s p = RM_NO_PAGE"
  using assms unfolding rm_free_ok_def by blast

text \<open>
  The state after page \<open>p\<close> became \<open>c'\<close> and the header's free-list entry \<open>F\<close>: only the free list
  remains to be looked at.
\<close>

definition page_changed :: "rm_file \<Rightarrow> bpm \<Rightarrow> int \<Rightarrow> bytes \<Rightarrow> bpm \<Rightarrow> bool" where
  "page_changed h s p c' s' \<longleftrightarrow> bpm_ok s' \<and> bpm_avail s' = bpm_avail s \<and> rm_view h s' p = Some c' \<and>
     (\<forall>p'. page_range h p' \<longrightarrow> p' \<noteq> p \<longrightarrow> rm_view h s' p' = rm_view h s p') \<and>
     fd2pageno (disk s') = fd2pageno (disk s) \<and> page_table s' (rm_pid h RM_FILE_HDR_PAGE) = None"

lemma rm_inv_changed:
  assumes inv: "rm_inv h s" and ch: "page_changed h s p c' s'" and p: "page_range h p" and ok: "rm_page_ok (rm_hdr h) c'"
    and fr: "rm_free_ok (h\<lparr>rm_hdr := (rm_hdr h)\<lparr>first_free_page_no := F\<rparr>\<rparr>) s'"
  shows "rm_inv (h\<lparr>rm_hdr := (rm_hdr h)\<lparr>first_free_page_no := F\<rparr>\<rparr>) s'"
proof -
  note d = rm_invD [OF inv]
  have v: "page_range h p' \<Longrightarrow> \<exists>c. rm_view h s' p' = Some c \<and> rm_page_ok (rm_hdr h) c" for p'
    using ch d(7) [of p'] ok by (cases "p' = p") (auto simp: page_changed_def)
  show ?thesis
    using d(2,3,4,6) ch fr v unfolding rm_inv_def
    by (auto simp: page_range_def page_changed_def)
qed

lemma changed_next:
  assumes "page_changed h s p c' s'"
  shows "page_next h s' p = ph_next_free c'" "page_full h s' p \<longleftrightarrow> used (rm_hdr h) c' = num_records_per_page (rm_hdr h)"
    and "page_range h q \<Longrightarrow> q \<noteq> p \<Longrightarrow> page_next h s' q = page_next h s q"
    and "page_range h q \<Longrightarrow> q \<noteq> p \<Longrightarrow> page_full h s' q = page_full h s q"
  using assms by (simp_all add: page_changed_def page_next_def page_full_def)

lemma hdr_next [simp]:
  "page_next (h\<lparr>rm_hdr := (rm_hdr h)\<lparr>first_free_page_no := F\<rparr>\<rparr>) s = page_next h s"
  "page_full (h\<lparr>rm_hdr := (rm_hdr h)\<lparr>first_free_page_no := F\<rparr>\<rparr>) s = page_full h s"
  "page_range (h\<lparr>rm_hdr := (rm_hdr h)\<lparr>first_free_page_no := F\<rparr>\<rparr>) = page_range h"
  by (auto simp: page_next_def page_full_def page_range_def fun_eq_iff)

text \<open>The three ways in which the free list changes.\<close>

lemma free_keep:
  assumes inv: "rm_inv h s" and ch: "page_changed h s p c' s'" and p: "page_range h p" and c: "rm_view h s p = Some c"
    and "ph_next_free c' = ph_next_free c" "used (rm_hdr h) c' \<noteq> num_records_per_page (rm_hdr h) \<or>
      used (rm_hdr h) c = num_records_per_page (rm_hdr h)"
  shows "rm_free_ok h s'"
proof -
  obtain ps where ps: "free_chain (page_next h s) (first_free_page_no (rm_hdr h)) ps" "distinct ps"
    "\<And>p. p \<in> set ps \<Longrightarrow> page_range h p \<and> \<not> page_full h s p"
    "\<And>p. page_range h p \<Longrightarrow> page_full h s p \<Longrightarrow> page_next h s p = RM_NO_PAGE"
    by (rule rm_free_okD [OF rm_invD(8) [OF inv]]) blast
  note n = changed_next [OF ch]
  have nx: "page_next h s p = ph_next_free c" "page_full h s p \<longleftrightarrow> used (rm_hdr h) c = num_records_per_page (rm_hdr h)"
    using c by (simp_all add: page_next_def page_full_def)
  have nq: "page_range h q \<Longrightarrow> page_next h s' q = page_next h s q" for q
    using n(1) n(3) [of q] nx assms(5) by (cases "q = p") auto
  show ?thesis
  proof (rule rm_free_okI)
    show "free_chain (page_next h s') (first_free_page_no (rm_hdr h)) ps"
      using ps(3) nq by (intro free_chain_cong [OF ps(1)]) blast
    show "page_range h q \<and> \<not> page_full h s' q" if "q \<in> set ps" for q
      using ps(3) [OF that] n(2) n(4) [of q] nx(2) assms(6) by (cases "q = p") auto
    show "page_next h s' q = RM_NO_PAGE" if "page_range h q" "page_full h s' q" for q
      using that ps(4) [of q] nq [of q] n(2) n(4) [of q] nx(2) assms(6) by (cases "q = p") auto
  qed (rule ps(2))
qed

lemma free_pop:
  assumes inv: "rm_inv h s" and ch: "page_changed h s p c' s'" and p: "page_range h p" and c: "rm_view h s p = Some c"
    and head: "first_free_page_no (rm_hdr h) = p"
    and c': "ph_next_free c' = RM_NO_PAGE" "used (rm_hdr h) c' = num_records_per_page (rm_hdr h)"
  shows "rm_free_ok (h\<lparr>rm_hdr := (rm_hdr h)\<lparr>first_free_page_no := ph_next_free c\<rparr>\<rparr>) s'"
proof -
  obtain ps where ps: "free_chain (page_next h s) (first_free_page_no (rm_hdr h)) ps" "distinct ps"
    "\<And>p. p \<in> set ps \<Longrightarrow> page_range h p \<and> \<not> page_full h s p"
    "\<And>p. page_range h p \<Longrightarrow> page_full h s p \<Longrightarrow> page_next h s p = RM_NO_PAGE"
    by (rule rm_free_okD [OF rm_invD(8) [OF inv]]) blast
  note n = changed_next [OF ch]
  have nx: "page_next h s p = ph_next_free c" using c by (simp add: page_next_def)
  have "p \<noteq> RM_NO_PAGE" using p by (simp add: page_range_def RM_NO_PAGE_def)
  then obtain qs where qs: "ps = p # qs" using ps(1) head by (cases ps) auto
  have mem: "q \<noteq> p" "page_range h q" if "q \<in> set qs" for q using that ps(2,3) qs by auto
  show ?thesis
  proof (rule rm_free_okI [where ps = qs])
    have "free_chain (page_next h s) (ph_next_free c) qs" using ps(1) by (simp add: qs nx)
    then have "free_chain (page_next h s') (ph_next_free c) qs"
      by (rule free_chain_cong) (use mem n(3) in auto)
    then show "free_chain (page_next (h\<lparr>rm_hdr := (rm_hdr h)\<lparr>first_free_page_no := ph_next_free c\<rparr>\<rparr>) s')
        (first_free_page_no (rm_hdr (h\<lparr>rm_hdr := (rm_hdr h)\<lparr>first_free_page_no := ph_next_free c\<rparr>\<rparr>))) qs" by simp
    show "page_range (h\<lparr>rm_hdr := (rm_hdr h)\<lparr>first_free_page_no := ph_next_free c\<rparr>\<rparr>) q \<and>
        \<not> page_full (h\<lparr>rm_hdr := (rm_hdr h)\<lparr>first_free_page_no := ph_next_free c\<rparr>\<rparr>) s' q" if "q \<in> set qs" for q
      using mem [OF that] ps(3) [of q] qs that n(4) [of q] by simp
    show "page_next (h\<lparr>rm_hdr := (rm_hdr h)\<lparr>first_free_page_no := ph_next_free c\<rparr>\<rparr>) s' q = RM_NO_PAGE"
      if "page_range (h\<lparr>rm_hdr := (rm_hdr h)\<lparr>first_free_page_no := ph_next_free c\<rparr>\<rparr>) q"
        "page_full (h\<lparr>rm_hdr := (rm_hdr h)\<lparr>first_free_page_no := ph_next_free c\<rparr>\<rparr>) s' q" for q
      using that ps(4) [of q] n(1) n(3,4) [of q] c'(1) by (cases "q = p") simp_all
  qed (use ps(2) qs in simp)
qed

lemma free_push:
  assumes inv: "rm_inv h s" and ch: "page_changed h s p c' s'" and p: "page_range h p" and c: "rm_view h s p = Some c"
    and full: "used (rm_hdr h) c = num_records_per_page (rm_hdr h)"
    and c': "ph_next_free c' = first_free_page_no (rm_hdr h)" "used (rm_hdr h) c' \<noteq> num_records_per_page (rm_hdr h)"
  shows "rm_free_ok (h\<lparr>rm_hdr := (rm_hdr h)\<lparr>first_free_page_no := p\<rparr>\<rparr>) s'"
proof -
  obtain ps where ps: "free_chain (page_next h s) (first_free_page_no (rm_hdr h)) ps" "distinct ps"
    "\<And>p. p \<in> set ps \<Longrightarrow> page_range h p \<and> \<not> page_full h s p"
    "\<And>p. page_range h p \<Longrightarrow> page_full h s p \<Longrightarrow> page_next h s p = RM_NO_PAGE"
    by (rule rm_free_okD [OF rm_invD(8) [OF inv]]) blast
  note n = changed_next [OF ch]
  have "page_full h s p" using c full by (simp add: page_full_def)
  then have notin: "p \<notin> set ps" using ps(3) by blast
  then have mem: "q \<noteq> p" "page_range h q" if "q \<in> set ps" for q using that ps(3) by auto
  let ?h = "h\<lparr>rm_hdr := (rm_hdr h)\<lparr>first_free_page_no := p\<rparr>\<rparr>"
  show ?thesis
  proof (rule rm_free_okI [where ps = "p # ps"])
    have "free_chain (page_next h s') (first_free_page_no (rm_hdr h)) ps"
      using mem n(3) by (intro free_chain_cong [OF ps(1)]) auto
    then show "free_chain (page_next ?h s') (first_free_page_no (rm_hdr ?h)) (p # ps)" by (simp add: n(1) c'(1))
    show "page_range ?h q \<and> \<not> page_full ?h s' q" if "q \<in> set (p # ps)" for q
      using that p n(2) n(4) [of q] c'(2) ps(3) [of q] mem [of q] by (cases "q = p") auto
    show "page_next ?h s' q = RM_NO_PAGE" if "page_range ?h q" "page_full ?h s' q" for q
      using that ps(4) [of q] n(2) n(3,4) [of q] c'(2) by (cases "q = p") simp_all
  qed (use ps(2) notin in simp)
qed

section \<open>The operations on the table\<close>

lemma hdr_first_eta [simp]: "h\<lparr>rm_hdr := (rm_hdr h)\<lparr>first_free_page_no := first_free_page_no (rm_hdr h)\<rparr>\<rparr> = h"
  by (cases h) simp

lemma hdr_first_eta2 [simp]: "h\<lparr>rm_hdr := rm_hdr h\<rparr> = h"
  by (cases h) simp

lemma contents_changed:
  assumes ch: "page_changed h s p c' s'" and c: "rm_view h s p = Some c" and p: "page_range h p"
    and slots: "\<And>j. slot_ok (rm_hdr h) j \<Longrightarrow> j \<noteq> i \<Longrightarrow>
        bm_is_set c' OFFSET_BITMAP j = bm_is_set c OFFSET_BITMAP j \<and> get_slot (rm_hdr h) c' j = get_slot (rm_hdr h) c j"
    and i: "slot_ok (rm_hdr h) i"
  shows "rm_contents (h\<lparr>rm_hdr := (rm_hdr h)\<lparr>first_free_page_no := F\<rparr>\<rparr>) s' =
    (rm_contents h s)(mk_rid p i :=
       if bm_is_set c' OFFSET_BITMAP i then Some (get_slot (rm_hdr h) c' i) else None)"
proof (rule ext)
  fix r
  have gs: "get_slot (rm_hdr h\<lparr>first_free_page_no := F\<rparr>) = get_slot (rm_hdr h)"
    by (intro ext) (simp add: get_slot_def slot_offset_def)
  have r: "r = mk_rid p i \<longleftrightarrow> page_no r = p \<and> slot_no r = i"
    by (metis mk_rid_eta mk_rid_sel)
  show "rm_contents (h\<lparr>rm_hdr := (rm_hdr h)\<lparr>first_free_page_no := F\<rparr>\<rparr>) s' r =
    ((rm_contents h s)(mk_rid p i :=
       if bm_is_set c' OFFSET_BITMAP i then Some (get_slot (rm_hdr h) c' i) else None)) r"
  proof (cases "page_range h (page_no r) \<and> slot_ok (rm_hdr h) (slot_no r)")
    case True
    then show ?thesis
      using ch c p slots [of "slot_no r"] r
      by (cases "page_no r = p") (auto simp: rm_contents_def page_changed_def gs split: option.splits)
  next
    case False
    then show ?thesis using r p i by (auto simp: rm_contents_def)
  qed
qed

lemma rm_update_record_ok:
  assumes inv: "rm_inv h s" and p: "page_range h (page_no r)" and i: "slot_ok (rm_hdr h) (slot_no r)"
    and room: "rm_room s" and buf: "length buf = nat (record_size (rm_hdr h))"
  obtains s' where "rm_update_record (h, s) r buf = (Inr (), (h, s'))" "rm_inv h s'" "bp.same_use s s'"
    "rm_contents h s' = (if rm_contents h s r = None then rm_contents h s else (rm_contents h s)(r \<mapsto> buf))"
proof -
  note d = rm_invD [OF inv]
  obtain c where c: "rm_view h s (page_no r) = Some c" "rm_page_ok (rm_hdr h) c" using d(7) [OF p] by blast
  have len: "length c = PAGE_SIZE" using c(2) by (simp add: rm_page_ok_def)
  define c' where "c' = put_slot (rm_hdr h) c (slot_no r) buf"
  note ps = d(2) i len
  have l': "length c' = PAGE_SIZE" using ps by (simp add: c'_def page_simps)
  obtain f s1 s2 where u: "rm_fetch_page_handle h s (page_no r) = (Inr f, s1)" "pg_data (frame s1 f) = c"
    "\<And>x. pg_id (frame (bpm_store s1 f x) f) = rm_pid h (page_no r)"
    "bpm_unpin_page (bpm_store s1 f c') (rm_pid h (page_no r)) True = (True, s2)"
    "bp.same_use s s2" "rm_view h s2 (page_no r) = Some c'"
    "\<And>p'. page_range h p' \<Longrightarrow> p' \<noteq> page_no r \<Longrightarrow> rm_view h s2 p' = rm_view h s p'"
    "fd2pageno (disk s2) = fd2pageno (disk s)" "page_table s2 (rm_pid h RM_FILE_HDR_PAGE) = None"
    by (rule rm_update_page [OF inv p room c(1) l']) blast
  have ch: "page_changed h s (page_no r) c' s2" using u by (simp add: page_changed_def bp.same_use_def)
  have ok': "rm_page_ok (rm_hdr h) c'" using ps c(2) l' by (simp add: rm_page_ok_def c'_def page_simps)
  have fr: "rm_free_ok h s2"
    by (rule free_keep [OF inv ch p c(1)]) (use ps in \<open>simp_all add: c'_def page_simps\<close>)
  have res: "rm_update_record (h, s) r buf = (Inr (), (h, s2))"
    using u by (simp add: rm_update_record_def c'_def)
  have inv': "rm_inv h s2"
    using rm_inv_changed [OF inv ch p ok', of "first_free_page_no (rm_hdr h)"] fr by simp
  have cont: "rm_contents h s2 = (rm_contents h s)(mk_rid (page_no r) (slot_no r) :=
       if bm_is_set c' OFFSET_BITMAP (slot_no r) then Some (get_slot (rm_hdr h) c' (slot_no r)) else None)"
    using contents_changed [OF ch c(1) p _ i, of "first_free_page_no (rm_hdr h)"] ps buf
    by (simp add: c'_def page_simps)
  have old: "rm_contents h s r = None \<longleftrightarrow> \<not> bm_is_set c OFFSET_BITMAP (slot_no r)"
    using p i c(1) by (simp add: rm_contents_def)
  show ?thesis
    by (rule that [OF res inv' u(5)])
      (use cont old ps buf in \<open>auto simp: c'_def page_simps fun_upd_idem\<close>)
qed

lemma page_range_int: "rm_inv h s \<Longrightarrow> page_range h p \<Longrightarrow> 1 \<le> p \<and> p < 2 ^ 19"
  using rm_invD(6) [of h s p] by (auto simp: bpm_avail_def addr_ok_def rm_pid_def page_range_def)

lemma first_free_cases:
  assumes "rm_inv h s"
  obtains "first_free_page_no (rm_hdr h) = RM_NO_PAGE"
  | "page_range h (first_free_page_no (rm_hdr h))" "\<not> page_full h s (first_free_page_no (rm_hdr h))"
proof -
  obtain ps where ps: "free_chain (page_next h s) (first_free_page_no (rm_hdr h)) ps"
    "\<And>p. p \<in> set ps \<Longrightarrow> page_range h p \<and> \<not> page_full h s p"
    by (rule rm_free_okD [OF rm_invD(8) [OF assms]]) blast
  then show ?thesis using that by (cases ps) auto
qed

lemma first_free_wrap: "rm_inv h s \<Longrightarrow> wrap32 (first_free_page_no (rm_hdr h)) = first_free_page_no (rm_hdr h)"
proof (rule wrap32_id)
  assume inv: "rm_inv h s"
  then show "int_range (first_free_page_no (rm_hdr h))"
    using page_range_int [OF inv, of "first_free_page_no (rm_hdr h)"]
    by (cases rule: first_free_cases) (auto simp: int_range_def RM_NO_PAGE_def)
qed

lemma used_range: "hdr_ok g \<Longrightarrow> wrap32 (used g c) = used g c \<and> wrap32 (used g c - 1) = used g c - 1 \<and>
    wrap32 (used g c + 1) = used g c + 1"
proof -
  assume h: "hdr_ok g"
  have "0 \<le> used g c" "used g c \<le> 3622" using used_bounds [OF h, of c] hdr_okD(4) [OF h] by simp_all
  then show ?thesis by (simp add: wrap32_id int_range_def)
qed

lemma rm_contents_set:
  "page_range h (page_no r) \<Longrightarrow> slot_ok (rm_hdr h) (slot_no r) \<Longrightarrow> rm_view h s (page_no r) = Some c \<Longrightarrow>
   rm_contents h s r = (if bm_is_set c OFFSET_BITMAP (slot_no r) then Some (get_slot (rm_hdr h) c (slot_no r)) else None)"
  by (simp add: rm_contents_def)

text \<open>
  Insertion at a position. \<open>insert_at_ok\<close> excludes the one case in which the file header would be
  left with a full page at the head of the free list: the page is filled, it is not the first
  page of the list, and it still points to another page.
\<close>

definition insert_at_ok :: "rm_file \<Rightarrow> bpm \<Rightarrow> rid \<Rightarrow> bool" where
  "insert_at_ok h s r \<longleftrightarrow>
     (let c = the (rm_view h s (page_no r)); n = num_records_per_page (rm_hdr h)
      in bm_is_set c OFFSET_BITMAP (slot_no r) \<or> used (rm_hdr h) c + 1 \<noteq> n \<or> first_free_page_no (rm_hdr h) = page_no r \<or>
         ph_next_free c = RM_NO_PAGE)"

lemma rm_delete_record_ok:
  assumes inv: "rm_inv h s" and r: "rm_contents h s r \<noteq> None" and room: "rm_room s"
  obtains F s' where "rm_delete_record (h, s) r = (Inr (), (h\<lparr>rm_hdr := (rm_hdr h)\<lparr>first_free_page_no := F\<rparr>\<rparr>, s'))"
    "rm_inv (h\<lparr>rm_hdr := (rm_hdr h)\<lparr>first_free_page_no := F\<rparr>\<rparr>) s'" "bp.same_use s s'"
    "rm_contents (h\<lparr>rm_hdr := (rm_hdr h)\<lparr>first_free_page_no := F\<rparr>\<rparr>) s' = (rm_contents h s)(r := None)"
    "insert_at_ok (h\<lparr>rm_hdr := (rm_hdr h)\<lparr>first_free_page_no := F\<rparr>\<rparr>) s' r"
proof -
  note d = rm_invD [OF inv]
  let ?p = "page_no r" and ?i = "slot_no r" and ?hd = "rm_hdr h" and ?n = "num_records_per_page (rm_hdr h)"
  have p: "page_range h ?p" and i: "slot_ok ?hd ?i" using r by (auto simp: rm_contents_def split: if_splits)
  obtain c where c: "rm_view h s ?p = Some c" "rm_page_ok ?hd c" using d(7) [OF p] by blast
  have len: "length c = PAGE_SIZE" and num: "ph_num_records c = used ?hd c" using c(2) by (simp_all add: rm_page_ok_def)
  have set: "bm_is_set c OFFSET_BITMAP ?i" using r rm_contents_set [OF p i c(1)] by (auto split: if_splits)
  note ps = d(2) i len
  define c1 where "c1 = ph_set_num_records (bm_reset c OFFSET_BITMAP ?i) (used ?hd c - 1)"
  have lr: "length (bm_reset c OFFSET_BITMAP ?i) = PAGE_SIZE" using len by simp
  have c1: "length c1 = PAGE_SIZE" "ph_num_records c1 = used ?hd c - 1" "used ?hd c1 = used ?hd c - 1"
    "ph_next_free c1 = ph_next_free c"
    using ps lr set used_range [OF d(2), of c] by (simp_all add: c1_def page_simps)
  have c1s: "bm_is_set c1 OFFSET_BITMAP j = (j \<noteq> ?i \<and> bm_is_set c OFFSET_BITMAP j)" "get_slot ?hd c1 j = get_slot ?hd c j"
    if "slot_ok ?hd j" for j
    using ps lr that by (simp_all add: c1_def page_simps)
  define was_full where "was_full \<longleftrightarrow> used ?hd c = ?n"
  have nx: "ph_next_free c = RM_NO_PAGE" if was_full
    using that c(1) d(8) p by (auto simp: rm_free_ok_def page_next_def page_full_def was_full_def)
  define F where "F = (if was_full \<and> first_free_page_no ?hd \<noteq> RM_NO_PAGE then ?p else first_free_page_no ?hd)"
  define c2 where "c2 = (if was_full then ph_set_next_free c1 (first_free_page_no ?hd) else c1)"
  have c2: "length c2 = PAGE_SIZE" "ph_num_records c2 = used ?hd c - 1" "used ?hd c2 = used ?hd c - 1"
    using c1 d(2) by (simp_all add: c2_def page_simps)
  have c2s: "bm_is_set c2 OFFSET_BITMAP j = (j \<noteq> ?i \<and> bm_is_set c OFFSET_BITMAP j)" "get_slot ?hd c2 j = get_slot ?hd c j"
    if "slot_ok ?hd j" for j
    using c1s [OF that] c1(1) d(2) that by (simp_all add: c2_def page_simps)
  obtain f s1 s2 where u: "rm_fetch_page_handle h s ?p = (Inr f, s1)" "pg_data (frame s1 f) = c"
    "pg_id (frame s1 f) = rm_pid h ?p" "\<And>x. pg_id (frame (bpm_store s1 f x) f) = rm_pid h ?p"
    "bpm_unpin_page (bpm_store s1 f c2) (rm_pid h ?p) True = (True, s2)" "bp.same_use s s2" "rm_view h s2 ?p = Some c2"
    "\<And>p'. page_range h p' \<Longrightarrow> p' \<noteq> ?p \<Longrightarrow> rm_view h s2 p' = rm_view h s p'"
    "fd2pageno (disk s2) = fd2pageno (disk s)" "page_table s2 (rm_pid h RM_FILE_HDR_PAGE) = None"
    by (rule rm_update_page [OF inv p room c(1) c2(1)]) blast
  have ch: "page_changed h s ?p c2 s2" using u by (simp add: page_changed_def bp.same_use_def)
  let ?h' = "h\<lparr>rm_hdr := ?hd\<lparr>first_free_page_no := F\<rparr>\<rparr>"
  have rel: "(if ph_num_records c1 = ?n - 1 then rm_release_page_handle ?hd ?p c1 else (?hd, c1)) =
      (?hd\<lparr>first_free_page_no := F\<rparr>, c2)"
    using c1 nx by (auto simp: rm_release_page_handle_def F_def c2_def was_full_def)
  have res: "rm_delete_record (h, s) r = (Inr (), (?h', s2))"
  proof -
    have d1: "(if bm_is_set c OFFSET_BITMAP ?i
        then ph_set_num_records (bm_reset c OFFSET_BITMAP ?i) (ph_num_records (bm_reset c OFFSET_BITMAP ?i) - 1)
        else c) = c1"
      using set num ps by (simp add: c1_def page_simps)
    have pp: "ppage (rm_pid h ?p) = ?p" by (simp add: rm_pid_def)
    show ?thesis
      unfolding rm_delete_record_def
      by (simp only: prod.case u(1) sum.case Let_def u(2) d1 u(3) pp rel u(4) u(5) snd_conv)
  qed
  have fr: "rm_free_ok ?h' s2"
  proof (cases "was_full \<and> first_free_page_no ?hd \<noteq> RM_NO_PAGE")
    case True
    have "ph_next_free c2 = first_free_page_no ?hd"
      using True c1(1) first_free_wrap [OF inv] by (simp add: c2_def page_simps)
    with free_push [OF inv ch p c(1)] True c2(3) show ?thesis by (simp add: F_def was_full_def)
  next
    case False
    have "ph_next_free c2 = ph_next_free c"
      using False c1(1,4) nx first_free_wrap [OF inv] by (auto simp: c2_def page_simps)
    then have "rm_free_ok h s2" using free_keep [OF inv ch p c(1)] c2(3) used_bounds [OF d(2), of c] by simp
    moreover have "F = first_free_page_no ?hd" using False by (auto simp: F_def)
    ultimately show ?thesis by simp
  qed
  have ok2: "rm_page_ok ?hd c2" using c2 by (simp add: rm_page_ok_def)
  have at: "insert_at_ok ?h' s2 r"
    using u(7) c2(3) c1(1) first_free_wrap [OF inv]
    by (auto simp: insert_at_ok_def Let_def F_def c2_def was_full_def page_simps)
  have cont: "rm_contents ?h' s2 = (rm_contents h s)(mk_rid ?p ?i := None)"
    using contents_changed [OF ch c(1) p _ i] c2s i by simp
  show ?thesis
    by (rule that [OF res rm_inv_changed [OF inv ch p ok2 fr] u(6)]) (use cont at in simp_all)
qed

section \<open>Insertion\<close>

text \<open>
  An insertion first takes the page at the head of the free list, or a new one, and holds it;
  the file is in a consistent state at that moment, \<open>page_held\<close>.
\<close>

definition page_held :: "rm_file \<Rightarrow> bpm \<Rightarrow> rm_file \<Rightarrow> bpm \<Rightarrow> int \<Rightarrow> frame_id \<Rightarrow> bool" where
  "page_held h s h1 s1 p f \<longleftrightarrow>
     rm_inv h1 s1 \<and> page_range h1 p \<and> \<not> page_full h1 s1 p \<and> first_free_page_no (rm_hdr h1) = p \<and>
     page_table s1 (rm_pid h1 p) = Some f \<and> pins s1 = (pins s)(f := pins s f + 1) \<and> 0 \<le> pins s f \<and>
     length (pages s1) = length (pages s) \<and> rm_contents h1 s1 = rm_contents h s \<and>
     rm_fd h1 = rm_fd h \<and> record_size (rm_hdr h1) = record_size (rm_hdr h) \<and>
     num_pages (rm_hdr h) \<le> num_pages (rm_hdr h1)"

lemma rm_finish_page:
  assumes inv: "rm_inv h s" and t: "page_table s (rm_pid h p) = Some f" and pin: "0 < pins s f"
    and p: "page_range h p" and len: "length c' = PAGE_SIZE"
  obtains s2 where "bpm_unpin_page (bpm_store s f c') (rm_pid h p) True = (True, s2)" "page_changed h s p c' s2"
    "pins s2 = (pins s)(f := pins s f - 1)" "length (pages s2) = length (pages s)"
    "pg_id (frame (bpm_store s f c') f) = rm_pid h p" "pg_id (frame s f) = rm_pid h p"
    "pg_data (frame s f) = the (rm_view h s p)"
proof -
  note d = rm_invD [OF inv]
  note st = bp.store_spec [OF d(1) t pin len]
  have pin': "0 < pins (bpm_store s f c') f" and t': "page_table (bpm_store s f c') (rm_pid h p) = Some f"
    using st t pin by simp_all
  obtain s2 where s2: "bpm_unpin_page (bpm_store s f c') (rm_pid h p) True = (True, s2)" "bpm_ok s2"
    "bpm_view s2 = bpm_view (bpm_store s f c')" "pins s2 = (pins (bpm_store s f c'))(f := pins (bpm_store s f c') f - 1)"
    "page_table s2 = page_table (bpm_store s f c')" "length (pages s2) = length (pages (bpm_store s f c'))"
    "bpm_avail s2 = bpm_avail (bpm_store s f c')"
    using bp.unpin_spec [of "bpm_store s f c'" "rm_pid h p" f True] st pin' t' by blast
  have nx: "fd2pageno (disk s2) = fd2pageno (disk s)"
    using bpm_unpin_next [of "bpm_store s f c'" "rm_pid h p" True] s2(1) by (simp add: bpm_store_def)
  have ch: "page_changed h s p c' s2"
    using s2 st nx d(5) by (simp add: page_changed_def rm_view_def)
  show ?thesis
    by (rule that [OF s2(1) ch]) (use s2 st held_id [OF d(1) t] t in \<open>simp_all add: rm_view_def bpm_view_def\<close>)
qed

lemma zero_page_header [page_simps]: "ph_num_records zero_page = 0" "ph_next_free zero_page = 0"
proof -
  have "le_dec (replicate n 0) = 0" for n by (induction n) auto
  then show "ph_num_records zero_page = 0" "ph_next_free zero_page = 0"
    by (simp_all add: ph_num_records_def ph_next_free_def get_int_def dec_int_def wrap32_def mem_read_def zero_page_def
        page_offsets PAGE_SIZE_def)
qed

lemma rm_take_first:
  assumes inv: "rm_inv h s" and room: "rm_room s" and first: "first_free_page_no (rm_hdr h) \<noteq> RM_NO_PAGE"
  obtains f s1 where "rm_create_page_handle (h, s) = (Inr f, (h, s1))"
    "page_held h s h s1 (first_free_page_no (rm_hdr h)) f"
proof -
  note d = rm_invD [OF inv]
  let ?p = "first_free_page_no (rm_hdr h)"
  have p: "page_range h ?p" "\<not> page_full h s ?p"
    using first by (cases rule: first_free_cases [OF inv]; blast)+
  obtain c where c: "bpm_view s (rm_pid h ?p) = Some c" using d(7) [OF p(1)] by (auto simp: rm_view_def)
  obtain f s1 where f: "bpm_fetch_page s (rm_pid h ?p) = (Inr (Some f), s1)" "bpm_ok s1" "page_table s1 (rm_pid h ?p) = Some f"
    "pins s1 = (pins s)(f := pins s f + 1)" "0 \<le> pins s f" "bpm_view s \<subseteq>\<^sub>m bpm_view s1"
    "length (pages s1) = length (pages s)" "bpm_avail s1 = bpm_avail s" "bpm_fresh s1 = bpm_fresh s"
    "\<And>r. page_table s1 r \<noteq> None \<Longrightarrow> r = rm_pid h ?p \<or> page_table s r \<noteq> None"
    using bp.fetch_spec [OF d(1) c d(6) [OF p(1)] room [unfolded rm_room_def]] by blast
  have nx: "fd2pageno (disk s1) = fd2pageno (disk s)"
    using bpm_fetch_keeps(4) [OF d(1) d(6) [OF p(1)] f(1) bpm_okD(1) [OF f(2)]] .
  have home: "page_table s1 (rm_pid h RM_FILE_HDR_PAGE) = None"
    using f(10) [of "rm_pid h RM_FILE_HDR_PAGE"] d(5) p(1)
    by (cases "page_table s1 (rm_pid h RM_FILE_HDR_PAGE)") (auto simp: page_range_def RM_FILE_HDR_PAGE_def)
  have inv1: "rm_inv h s1" and cont: "rm_contents h s1 = rm_contents h s"
    by (rule rm_inv_same_view [OF inv f(2,8,6) fun_cong [OF nx] home])+
  have "rm_view h s1 ?p = rm_view h s ?p" using map_leD [OF f(6) c] c by (simp add: rm_view_def)
  then have "\<not> page_full h s1 ?p" using p(2) by (simp add: page_full_def)
  then have "page_held h s h s1 ?p f"
    using inv1 p(1) f cont by (simp add: page_held_def)
  then show ?thesis by (rule that [rotated]) (use first f(1) in \<open>simp add: rm_create_page_handle_def\<close>)
qed

lemma length_rm_hdr_bytes [simp]: "length (rm_hdr_bytes h) = 20"
  by (simp add: rm_hdr_bytes_def)

text \<open>The pool after \<^verbatim>\<open>create_new_page_handle\<close>: the new page is held, all others are as before.\<close>

lemma rm_new_page_pool:
  assumes inv: "rm_inv h s" and room: "rm_room s" and fresh: "bpm_fresh s (rm_fd h) \<noteq> None"
    and first: "first_free_page_no (rm_hdr h) = RM_NO_PAGE"
  defines "np \<equiv> num_pages (rm_hdr h)"
  defines "h1 \<equiv> h\<lparr>rm_hdr := (rm_hdr h)\<lparr>num_pages := np + 1, first_free_page_no := np\<rparr>\<rparr>"
  defines "c0 \<equiv> ph_set_next_free zero_page RM_NO_PAGE"
  obtains f s1 where "rm_create_page_handle (h, s) = (Inr f, (h1, s1))" "bpm_ok s1" "page_table s1 (rm_pid h np) = Some f"
    "pins s1 = (pins s)(f := pins s f + 1)" "0 \<le> pins s f" "length (pages s1) = length (pages s)"
    "bpm_view s1 (rm_pid h np) = Some c0" "fd2pageno (disk s1) (rm_fd h) = np + 1"
    "\<And>p c. 1 \<le> p \<Longrightarrow> p \<noteq> np \<Longrightarrow> bpm_view s (rm_pid h p) = Some c \<Longrightarrow> bpm_view s1 (rm_pid h p) = Some c"
    "bpm_avail s1 (rm_pid h np)" "\<And>q. bpm_avail s q \<Longrightarrow> bpm_avail s1 q"
    "page_table s1 (rm_pid h RM_FILE_HDR_PAGE) = None"
proof -
  note d = rm_invD [OF inv]
  let ?q = "rm_pid h np"
  have can: "bpm_can_new s (rm_fd h)" and q: "bpm_fresh s (rm_fd h) = Some ?q"
    using fresh d(4) by (auto simp: bpm_fresh_def rm_pid_def np_def split: if_splits)
  obtain f s1 where n: "bpm_new_page s (rm_fd h) = (Inr (Some (?q, f)), s1)" "bpm_ok s1" "page_table s1 ?q = Some f"
    "pg_data (frame s1 f) = zero_page" "pins s1 = (pins s)(f := pins s f + 1)" "pins s f = 0"
    "\<And>q' c. q' \<noteq> ?q \<Longrightarrow> bpm_view s q' = Some c \<Longrightarrow> bpm_view s1 q' = Some c"
    "length (pages s1) = length (pages s)" "bpm_avail s1 ?q" "\<And>r. bpm_avail s r \<Longrightarrow> bpm_avail s1 r"
    "\<And>r. page_table s1 r \<noteq> None \<Longrightarrow> r = ?q \<or> page_table s r \<noteq> None"
    using bp.new_spec [OF d(1) q room [unfolded rm_room_def]] by blast
  have nx: "fd2pageno (disk s1) (rm_fd h) = np + 1" "posix_same (os (disk s)) (os (disk s1))"
  proof -
    obtain f' s1' where k: "bpm_new_page s (rm_fd h) = (Inr (Some (mk_pid (rm_fd h) (fd2pageno (disk s) (rm_fd h)), f')), s1')"
      "posix_same (os (disk s)) (os (disk s1'))"
      "fd2pageno (disk s1') = (fd2pageno (disk s))(rm_fd h := fd2pageno (disk s) (rm_fd h) + 1)"
      by (rule bpm_new_page_keeps [OF d(1) can room [unfolded rm_room_def]]) blast
    have "s1' = s1" using k(1) n(1) by simp
    then show "fd2pageno (disk s1) (rm_fd h) = np + 1" "posix_same (os (disk s)) (os (disk s1))"
      using k(2,3) d(4) by (simp_all add: np_def)
  qed
  have len0: "length c0 = PAGE_SIZE" by (simp add: c0_def page_simps)
  have pin1: "0 < pins s1 f" using n(5,6) by simp
  define s2 where "s2 = bpm_store s1 f c0"
  note st = bpm_store_keeps [OF n(2,3) pin1 len0, folded s2_def]
  have t2: "page_table s2 ?q = Some f" using st(7) n(3) by simp
  define s3 where "s3 = bpm_mark_dirty s2 f"
  note md = bpm_mark_dirty_keeps [OF st(1) t2, folded s3_def]
  have t3: "page_table s3 ?q = Some f" using md(6) t2 by simp
  obtain s4 where s4: "bpm_flush_page s3 ?q = (Inr True, s4)" "bpm_ok s4" "bpm_view s3 \<subseteq>\<^sub>m bpm_view s4" "pins s4 = pins s3"
    "length (pages s4) = length (pages s3)" "page_table s4 = page_table s3" "posix_same (os (disk s3)) (os (disk s4))"
    "fd2pageno (disk s4) = fd2pageno (disk s3)"
    by (rule bpm_flush_keeps [OF md(1) t3]) blast
  have np1: "1 \<le> np" using d(3) by (simp add: np_def)
  have un: "page_table s4 (mk_pid (rm_fd h) RM_FILE_HDR_PAGE) = None"
    using n(11) [of "rm_pid h RM_FILE_HDR_PAGE"] d(5) np1 st(7) md(6) s4(6)
    by (cases "page_table s1 (rm_pid h RM_FILE_HDR_PAGE)") (auto simp: rm_pid_def RM_FILE_HDR_PAGE_def)
  have ps: "posix_same (os (disk s)) (os (disk s4))"
    using posix_same_trans [OF nx(2)] s4(7) st(6) md(5) by simp
  have addr: "addr_ok (disk s4) (rm_fd h) RM_FILE_HDR_PAGE (length (rm_hdr_bytes (rm_hdr h1)))"
    using can unfolding addr_ok_posix [OF ps]
    by (auto simp: bpm_can_new_def addr_ok_def RM_FILE_HDR_PAGE_def PAGE_SIZE_def)
  have lh: "length (rm_hdr_bytes (rm_hdr h1)) \<le> PAGE_SIZE" "rm_hdr_bytes (rm_hdr h1) \<noteq> []"
    using length_rm_hdr_bytes [of "rm_hdr h1"] by (auto simp: PAGE_SIZE_def simp del: length_rm_hdr_bytes)
  obtain dk where dk: "dm_write_page (disk s4) (rm_fd h) RM_FILE_HDR_PAGE (rm_hdr_bytes (rm_hdr h1)) = (Inr (), dk)"
    "bpm_ok (s4\<lparr>disk := dk\<rparr>)" "posix_same (os (disk s4)) (os dk)" "fd2pageno dk = fd2pageno (disk s4)"
    "\<And>q c. q \<noteq> mk_pid (rm_fd h) RM_FILE_HDR_PAGE \<Longrightarrow> bpm_view s4 q = Some c \<Longrightarrow> bpm_view (s4\<lparr>disk := dk\<rparr>) q = Some c"
    by (rule bpm_header_write [OF s4(2) un addr lh]) blast
  let ?s5 = "s4\<lparr>disk := dk\<rparr>"
  have res: "rm_create_page_handle (h, s) = (Inr f, (h1, ?s5))"
  proof -
    have hd: "rm_hdr h1 = (rm_hdr h)\<lparr>num_pages := num_pages (rm_hdr h) + 1, first_free_page_no := ppage ?q\<rparr>"
      by (simp add: h1_def np_def rm_pid_def)
    have h1': "h1 = h\<lparr>rm_hdr := rm_hdr h1\<rparr>" by (simp add: h1_def)
    have b: "ph_set_next_free (pg_data (frame s1 f)) RM_NO_PAGE = c0" by (simp add: n(4) c0_def)
    have fl: "bpm_flush_page (bpm_mark_dirty (bpm_store s1 f c0) f) ?q = (Inr True, s4)"
      using s4(1) by (simp add: s3_def s2_def)
    show ?thesis
      using first
      by (simp only: rm_create_page_handle_def rm_create_new_page_handle_def prod.case n(1) sum.case option.case if_True simp_thms
          Let_def b fl hd [symmetric] dk(1) h1' [symmetric])
  qed
  have v: "bpm_view ?s5 q = Some c" if "q \<noteq> mk_pid (rm_fd h) RM_FILE_HDR_PAGE" "bpm_view s3 q = Some c" for q c
    using dk(5) [OF that(1)] map_leD [OF s4(3) that(2)] by simp
  have v3: "bpm_view s3 = (bpm_view s1)(?q \<mapsto> c0)" using md(2) st(3) by simp
  have neq: "rm_pid h p \<noteq> mk_pid (rm_fd h) RM_FILE_HDR_PAGE" if "1 \<le> p" for p
    using that by (simp add: rm_pid_def RM_FILE_HDR_PAGE_def)
  have pinsall: "pins ?s5 = pins s1" using s4(4) md(3) st(2) by (simp add: pins_def fun_eq_iff)
  have avail: "bpm_avail ?s5 = bpm_avail s1"
    using posix_same_trans [OF s4(7) dk(3)] dk(4) s4(8) md(5) st(6) by (intro bpm_use_same) simp_all
  show ?thesis
  proof (rule that [OF res dk(2)])
    show "pins ?s5 = (pins s)(f := pins s f + 1)" using pinsall n(5) by simp
    show "bpm_view ?s5 ?q = Some c0" using v [of ?q c0] neq [OF np1] v3 by simp
    show "bpm_view ?s5 (rm_pid h p) = Some c" if "1 \<le> p" "p \<noteq> np" "bpm_view s (rm_pid h p) = Some c" for p c
      using v [OF neq [OF that(1)], of c] v3 n(7) [of "rm_pid h p" c] that by simp
    show "page_table ?s5 (rm_pid h RM_FILE_HDR_PAGE) = None" using un by (simp add: rm_pid_def)
  qed (use n s4 md st nx avail dk(4) t3 in simp_all)
qed

lemma rm_take_new:
  assumes inv: "rm_inv h s" and room: "rm_room s" and fresh: "bpm_fresh s (rm_fd h) \<noteq> None"
    and first: "first_free_page_no (rm_hdr h) = RM_NO_PAGE"
  obtains f h1 s1 where "rm_create_page_handle (h, s) = (Inr f, (h1, s1))"
    "page_held h s h1 s1 (num_pages (rm_hdr h)) f"
proof -
  note d = rm_invD [OF inv]
  define np where "np = num_pages (rm_hdr h)"
  define h1 where "h1 = h\<lparr>rm_hdr := (rm_hdr h)\<lparr>num_pages := np + 1, first_free_page_no := np\<rparr>\<rparr>"
  define c0 where "c0 = ph_set_next_free zero_page RM_NO_PAGE"
  obtain f s1 where n: "rm_create_page_handle (h, s) = (Inr f, (h1, s1))" "bpm_ok s1" "page_table s1 (rm_pid h np) = Some f"
    "pins s1 = (pins s)(f := pins s f + 1)" "0 \<le> pins s f" "length (pages s1) = length (pages s)"
    "bpm_view s1 (rm_pid h np) = Some c0" "fd2pageno (disk s1) (rm_fd h) = np + 1"
    "\<And>p c. 1 \<le> p \<Longrightarrow> p \<noteq> np \<Longrightarrow> bpm_view s (rm_pid h p) = Some c \<Longrightarrow> bpm_view s1 (rm_pid h p) = Some c"
    "bpm_avail s1 (rm_pid h np)" "\<And>q. bpm_avail s q \<Longrightarrow> bpm_avail s1 q"
    "page_table s1 (rm_pid h RM_FILE_HDR_PAGE) = None"
    by (rule rm_new_page_pool [OF inv room fresh first, folded np_def, folded h1_def, folded c0_def]) blast
  have np1: "1 \<le> np" using d(3) by (simp add: np_def)
  have hd1: "hdr_ok (rm_hdr h1)" "num_records_per_page (rm_hdr h1) = num_records_per_page (rm_hdr h)"
    "record_size (rm_hdr h1) = record_size (rm_hdr h)" "bitmap_size (rm_hdr h1) = bitmap_size (rm_hdr h)"
    "first_free_page_no (rm_hdr h1) = np" "num_pages (rm_hdr h1) = np + 1" "rm_fd h1 = rm_fd h"
    using d(2) by (simp_all add: h1_def)
  have pid: "rm_pid h1 = rm_pid h" by (simp add: h1_def fun_eq_iff)
  have rng: "page_range h1 p \<longleftrightarrow> p = np \<or> page_range h p" for p using np1 by (auto simp: page_range_def hd1 np_def)
  have old: "rm_view h1 s1 p = rm_view h s p" if "page_range h p" for p
    using d(7) [OF that] n(9) [of p] that by (auto simp: rm_view_def pid page_range_def np_def)
  have new: "rm_view h1 s1 np = Some c0" using n(7) by (simp add: rm_view_def pid)
  have us: "used (rm_hdr h1) c = used (rm_hdr h) c" for c by (simp add: used_def hd1)
  have c0: "length c0 = PAGE_SIZE" "ph_num_records c0 = 0" "ph_next_free c0 = RM_NO_PAGE" "used (rm_hdr h) c0 = 0"
    using d(2) by (simp_all add: c0_def page_simps wrap32_id int_range_def RM_NO_PAGE_def)
  have n7: "num_records_per_page (rm_hdr h) \<noteq> 0" using hdr_okD(3) [OF d(2)] by simp
  have full: "page_full h1 s1 p \<longleftrightarrow> p \<noteq> np \<and> page_full h s p" if "page_range h1 p" for p
    using that rng [of p] old [of p] new c0(4) n7 by (cases "p = np") (auto simp: page_full_def us hd1)
  have nxt: "page_next h1 s1 np = RM_NO_PAGE" "page_range h p \<Longrightarrow> page_next h1 s1 p = page_next h s p" for p
    using new old c0(3) by (simp_all add: page_next_def)
  have fr: "rm_free_ok h1 s1"
  proof (rule rm_free_okI [where ps = "[np]"])
    show "page_next h1 s1 p = RM_NO_PAGE" if "page_range h1 p" "page_full h1 s1 p" for p
      using that full [of p] rng [of p] nxt d(8) by (auto simp: rm_free_ok_def)
  qed (use hd1 nxt full rng in \<open>simp_all\<close>)
  have inv1: "rm_inv h1 s1"
    unfolding rm_inv_def
  proof (intro conjI allI impI)
    fix p assume p: "page_range h1 p"
    show "bpm_avail s1 (rm_pid h1 p)" using p rng n(10,11) d(6) by (auto simp: pid)
    show "\<exists>c. rm_view h1 s1 p = Some c \<and> rm_page_ok (rm_hdr h1) c"
      using p rng [of p] old [of p] new d(7) [of p] c0 by (cases "p = np") (auto simp: rm_page_ok_def us)
  qed (use n hd1 np1 fr pid in simp_all)
  have cont: "rm_contents h1 s1 r = rm_contents h s r" for r
  proof (cases "page_no r = np")
    case True
    then have "\<not> page_range h (page_no r)" by (simp add: page_range_def np_def)
    moreover have "\<not> bm_is_set c0 OFFSET_BITMAP (slot_no r)" if "slot_ok (rm_hdr h) (slot_no r)"
      using c0(4) that by (auto simp: used_def bm_slots_def filter_empty_conv slot_ok_def)
    ultimately show ?thesis using True new by (simp add: rm_contents_def slot_ok_def hd1)
  next
    case False
    then have "page_range h1 (page_no r) = page_range h (page_no r)" by (simp add: rng)
    then show ?thesis using old [of "page_no r"]
      by (auto simp: rm_contents_def slot_ok_def hd1 get_slot_def slot_offset_def split: option.splits)
  qed
  have "page_held h s h1 s1 np f"
    unfolding page_held_def using inv1 n hd1 full [of np] rng [of np] cont
    by (simp add: pid fun_eq_iff np_def)
  then show ?thesis using that [OF n(1)] by (simp add: np_def)
qed

definition rm_can_insert :: "rm_file \<Rightarrow> bpm \<Rightarrow> bool" where
  "rm_can_insert h s \<longleftrightarrow> rm_room s \<and> (first_free_page_no (rm_hdr h) = RM_NO_PAGE \<longrightarrow> bpm_fresh s (rm_fd h) \<noteq> None)"

lemma rm_take_page:
  assumes "rm_inv h s" "rm_can_insert h s"
  obtains f h1 s1 p where "rm_create_page_handle (h, s) = (Inr f, (h1, s1))" "page_held h s h1 s1 p f"
proof -
  have room: "rm_room s" using assms(2) by (simp add: rm_can_insert_def)
  show ?thesis
  proof (cases "first_free_page_no (rm_hdr h) = RM_NO_PAGE")
    case True
    then have "bpm_fresh s (rm_fd h) \<noteq> None" using assms(2) by (simp add: rm_can_insert_def)
    show ?thesis by (rule rm_take_new [OF assms(1) room \<open>bpm_fresh s (rm_fd h) \<noteq> None\<close> True]) (rule that)
  next
    case False
    show ?thesis by (rule rm_take_first [OF assms(1) room False]) (rule that)
  qed
qed

lemma free_slot:
  assumes "hdr_ok g" "used g c \<noteq> num_records_per_page g"
  defines "i \<equiv> first_bit False c OFFSET_BITMAP (num_records_per_page g)"
  shows "slot_ok g i" "\<not> bm_is_set c OFFSET_BITMAP i" "i \<noteq> num_records_per_page g"
proof -
  have n: "0 < num_records_per_page g" using hdr_okD(3) [OF assms(1)] by simp
  show neq: "i \<noteq> num_records_per_page g"
    using first_free_bit [OF n, of c OFFSET_BITMAP] assms(2) by (simp add: used_def i_def)
  note f = next_bit_spec [where cur = "- 1" and max_n = "num_records_per_page g" and b = False and d = c and bm = OFFSET_BITMAP, folded first_bit_def i_def]
  show "slot_ok g i" "\<not> bm_is_set c OFFSET_BITMAP i" using f n neq by (auto simp: slot_ok_def)
qed

lemma pins_back: "p1 = (p0 :: frame_id \<Rightarrow> int)(f := p0 f + 1) \<Longrightarrow> p1(f := p1 f - 1) = p0"
  by (simp add: fun_eq_iff)

lemma rm_insert_record_ok:
  assumes inv: "rm_inv h s" and can: "rm_can_insert h s" and buf: "length buf = nat (record_size (rm_hdr h))"
  obtains r h' s' where "rm_insert_record (h, s) buf = (Inr r, (h', s'))" "rm_inv h' s'"
    "rm_contents h s r = None" "rm_contents h' s' = (rm_contents h s)(r \<mapsto> buf)"
    "pins s' = pins s" "length (pages s') = length (pages s)" "rm_fd h' = rm_fd h"
    "record_size (rm_hdr h') = record_size (rm_hdr h)"
proof -
  obtain f h1 s1 p where t: "rm_create_page_handle (h, s) = (Inr f, (h1, s1))" and held: "page_held h s h1 s1 p f"
    by (rule rm_take_page [OF inv can])
  have k: "rm_inv h1 s1" "page_range h1 p" "\<not> page_full h1 s1 p" "first_free_page_no (rm_hdr h1) = p"
    "page_table s1 (rm_pid h1 p) = Some f" "pins s1 = (pins s)(f := pins s f + 1)" "0 \<le> pins s f"
    "length (pages s1) = length (pages s)" "rm_contents h1 s1 = rm_contents h s" "rm_fd h1 = rm_fd h"
    "record_size (rm_hdr h1) = record_size (rm_hdr h)"
    using held by (auto simp: page_held_def)
  note d = rm_invD [OF k(1)]
  let ?g = "rm_hdr h1" and ?n = "num_records_per_page (rm_hdr h1)"
  obtain c where c: "rm_view h1 s1 p = Some c" "rm_page_ok ?g c" using d(7) [OF k(2)] by blast
  have len: "length c = PAGE_SIZE" and num: "ph_num_records c = used ?g c" using c(2) by (simp_all add: rm_page_ok_def)
  have nf: "used ?g c \<noteq> ?n" using k(3) c(1) by (simp add: page_full_def)
  define i where "i = first_bit False c OFFSET_BITMAP ?n"
  note fs = free_slot [OF d(2) nf, folded i_def]
  have b: "nat (record_size ?g) \<le> length buf" "take (nat (record_size ?g)) buf = buf" using buf k(11) by simp_all
  define c1 where "c1 = put_slot ?g c i buf"
  define c2 where "c2 = ph_set_num_records c1 (used ?g c + 1)"
  define full where "full \<longleftrightarrow> used ?g c + 1 = ?n"
  define c3 where "c3 = (if full then ph_set_next_free c2 RM_NO_PAGE else c2)"
  define c4 where "c4 = bm_set c3 OFFSET_BITMAP i"
  define F where "F = (if full then ph_next_free c else first_free_page_no ?g)"
  note ps = d(2) fs(1)
  have c1: "length c1 = PAGE_SIZE" "ph_num_records c1 = used ?g c" "ph_next_free c1 = ph_next_free c" "used ?g c1 = used ?g c"
    using ps len num by (simp_all add: c1_def page_simps)
  have c2: "length c2 = PAGE_SIZE" "ph_num_records c2 = used ?g c + 1" "ph_next_free c2 = ph_next_free c" "used ?g c2 = used ?g c"
    using ps c1 used_range [OF d(2), of c] by (simp_all add: c2_def page_simps)
  have c3: "length c3 = PAGE_SIZE" "ph_num_records c3 = used ?g c + 1" "used ?g c3 = used ?g c"
    "ph_next_free c3 = (if full then RM_NO_PAGE else ph_next_free c)"
    using ps c2 by (simp_all add: c3_def page_simps wrap32_id int_range_def RM_NO_PAGE_def)
  have bits: "bm_is_set c3 OFFSET_BITMAP j = bm_is_set c OFFSET_BITMAP j"
    "get_slot ?g c3 j = (if j = i then buf else get_slot ?g c j)" if "slot_ok ?g j" for j
    using ps len c1(1) c2(1) that b by (simp_all add: c3_def c2_def c1_def page_simps)
  have c4: "length c4 = PAGE_SIZE" "ph_num_records c4 = used ?g c + 1" "used ?g c4 = used ?g c + 1"
    "ph_next_free c4 = (if full then RM_NO_PAGE else ph_next_free c)"
    using ps c3 bits(1) [OF fs(1)] fs(2) by (simp_all add: c4_def page_simps)
  have bits4: "bm_is_set c4 OFFSET_BITMAP j = (j = i \<or> bm_is_set c OFFSET_BITMAP j)"
    "get_slot ?g c4 j = (if j = i then buf else get_slot ?g c j)" if "slot_ok ?g j" for j
    using ps c3(1) that bits [OF that] by (simp_all add: c4_def page_simps)
  have pin: "0 < pins s1 f" using k(6,7) by simp
  obtain s2 where u: "bpm_unpin_page (bpm_store s1 f c4) (rm_pid h1 p) True = (True, s2)" "page_changed h1 s1 p c4 s2"
    "pins s2 = (pins s1)(f := pins s1 f - 1)" "length (pages s2) = length (pages s1)"
    "pg_id (frame (bpm_store s1 f c4) f) = rm_pid h1 p" "pg_data (frame s1 f) = the (rm_view h1 s1 p)"
    by (rule rm_finish_page [OF k(1,5) pin k(2) c4(1)]) blast
  let ?h' = "h1\<lparr>rm_hdr := ?g\<lparr>first_free_page_no := F\<rparr>\<rparr>"
  have fr: "rm_free_ok ?h' s2"
  proof (cases full)
    case True
    then show ?thesis
      using free_pop [OF k(1) u(2) k(2) c(1) k(4)] c4 by (simp add: F_def full_def)
  next
    case False
    then have "rm_free_ok h1 s2" using free_keep [OF k(1) u(2) k(2) c(1)] c4 by (simp add: full_def)
    then show ?thesis using False by (simp add: F_def)
  qed
  have ok4: "rm_page_ok ?g c4" using c4 by (simp add: rm_page_ok_def)
  have dat: "pg_data (frame s1 f) = c" using u(6) c(1) by simp
  have res: "rm_insert_record (h, s) buf = (Inr (mk_rid p i), (?h', s2))"
  proof -
    have e2: "ph_set_num_records (put_slot ?g c i buf) (ph_num_records (put_slot ?g c i buf) + 1) = c2"
      using c1 by (simp add: c2_def c1_def)
    have e: "(ph_num_records c2 = ?n) = full" using c2(2) by (simp add: full_def)
    have hF: "(if full then ?g\<lparr>first_free_page_no := ph_next_free c2\<rparr> else ?g) = ?g\<lparr>first_free_page_no := F\<rparr>"
      using c2(3) by (simp add: F_def)
    have pp: "ppage (rm_pid h1 p) = p" by (simp add: rm_pid_def)
    show ?thesis
      unfolding rm_insert_record_def
      by (simp only: t prod.case sum.case Let_def dat i_def [symmetric] fs(3) if_False e2 e hF c3_def [symmetric]
          c4_def [symmetric] u(5) u(1) snd_conv pp)
  qed
  have rk: "rm_contents h s (mk_rid p i) = None"
    using rm_contents_set [of h1 "mk_rid p i" s1 c] k(2,9) fs(1,2) c(1) by simp
  have cont: "rm_contents ?h' s2 = (rm_contents h s)(mk_rid p i \<mapsto> buf)"
    using contents_changed [OF u(2) c(1) k(2) _ fs(1), of F] bits4 fs(1) k(9) by simp
  show ?thesis
    by (rule that [OF res rm_inv_changed [OF k(1) u(2) k(2) ok4 fr] rk cont])
      (use u k pins_back [OF k(6)] in simp_all)
qed

text \<open>
  \<^verbatim>\<open>get_free_record\<close> leaves the table as it is and names a free position on the page at the head
  of the free list.
\<close>

lemma rm_get_free_record_ok:
  assumes inv: "rm_inv h s" and can: "rm_can_insert h s"
  obtains r h' s' where "rm_get_free_record (h, s) = (Inr r, (h', s'))" "rm_inv h' s'"
    "rm_contents h' s' = rm_contents h s" "rm_contents h s r = None" "page_range h' (page_no r)"
    "slot_ok (rm_hdr h') (slot_no r)" "first_free_page_no (rm_hdr h') = page_no r"
    "pins s' = pins s" "length (pages s') = length (pages s)" "rm_fd h' = rm_fd h"
    "record_size (rm_hdr h') = record_size (rm_hdr h)"
proof -
  obtain f h1 s1 p where t: "rm_create_page_handle (h, s) = (Inr f, (h1, s1))" and held: "page_held h s h1 s1 p f"
    by (rule rm_take_page [OF inv can])
  have k: "rm_inv h1 s1" "page_range h1 p" "\<not> page_full h1 s1 p" "first_free_page_no (rm_hdr h1) = p"
    "page_table s1 (rm_pid h1 p) = Some f" "pins s1 = (pins s)(f := pins s f + 1)" "0 \<le> pins s f"
    "length (pages s1) = length (pages s)" "rm_contents h1 s1 = rm_contents h s" "rm_fd h1 = rm_fd h"
    "record_size (rm_hdr h1) = record_size (rm_hdr h)"
    using held by (auto simp: page_held_def)
  note d = rm_invD [OF k(1)]
  obtain c where c: "rm_view h1 s1 p = Some c" "rm_page_ok (rm_hdr h1) c" using d(7) [OF k(2)] by blast
  have nf: "used (rm_hdr h1) c \<noteq> num_records_per_page (rm_hdr h1)" using k(3) c(1) by (simp add: page_full_def)
  define i where "i = first_bit False c OFFSET_BITMAP (num_records_per_page (rm_hdr h1))"
  note fs = free_slot [OF d(2) nf, folded i_def]
  have pin: "0 < pins s1 f" using k(6,7) by simp
  have dat: "pg_data (frame s1 f) = c" using k(5) c(1) by (simp add: rm_view_def bpm_view_def)
  obtain s2 where u: "bpm_unpin_page s1 (rm_pid h1 p) True = (True, s2)" "bpm_ok s2" "bpm_view s2 = bpm_view s1"
    "pins s2 = (pins s1)(f := pins s1 f - 1)" "length (pages s2) = length (pages s1)" "bpm_avail s2 = bpm_avail s1"
    "page_table s2 = page_table s1"
    using bp.unpin_spec [OF d(1) k(5) pin, of True] by blast
  have nx: "fd2pageno (disk s2) (rm_fd h1) = fd2pageno (disk s1) (rm_fd h1)"
    using bpm_unpin_next [of s1 "rm_pid h1 p" True] u(1) by simp
  have i2: "rm_inv h1 s2" "rm_contents h1 s2 = rm_contents h1 s1"
    by (rule rm_inv_same_view [OF k(1) u(2,6) _ nx]; use u(3,7) d(5) in simp)+
  have "pg_id (frame s1 f) = rm_pid h1 p" by (rule held_id(1) [OF d(1) k(5)])
  then have res: "rm_get_free_record (h, s) = (Inr (mk_rid p i), (h1, s2))"
    using fs(3) u(1) by (simp add: rm_get_free_record_def t Let_def dat i_def [symmetric] rm_pid_def)
  have rk: "rm_contents h s (mk_rid p i) = None"
    using rm_contents_set [of h1 "mk_rid p i" s1 c] k(2,9) fs(1,2) c(1) by simp
  show ?thesis
    by (rule that [OF res i2(1)]) (use i2 rk k fs u pins_back [OF k(6)] in simp_all)
qed

lemma free_drop:
  assumes inv: "rm_inv h s" and ch: "page_changed h s p c' s'" and c': "ph_next_free c' = RM_NO_PAGE"
  shows "rm_free_ok (h\<lparr>rm_hdr := (rm_hdr h)\<lparr>first_free_page_no := RM_NO_PAGE\<rparr>\<rparr>) s'"
proof (rule rm_free_okI [where ps = "[]"])
  let ?h = "h\<lparr>rm_hdr := (rm_hdr h)\<lparr>first_free_page_no := RM_NO_PAGE\<rparr>\<rparr>"
  note n = changed_next [OF ch]
  show "page_next ?h s' q = RM_NO_PAGE" if "page_range ?h q" "page_full ?h s' q" for q
    using that rm_invD(8) [OF inv] n(1) n(3,4) [of q] c' by (cases "q = p") (auto simp: rm_free_ok_def)
qed simp_all

lemma rm_insert_record_at_ok:
  assumes inv: "rm_inv h s" and p: "page_range h (page_no r)" and i: "slot_ok (rm_hdr h) (slot_no r)"
    and room: "rm_room s" and buf: "length buf = nat (record_size (rm_hdr h))" and at: "insert_at_ok h s r"
  obtains F s' where "rm_insert_record_at (h, s) r buf = (Inr (), (h\<lparr>rm_hdr := (rm_hdr h)\<lparr>first_free_page_no := F\<rparr>\<rparr>, s'))"
    "rm_inv (h\<lparr>rm_hdr := (rm_hdr h)\<lparr>first_free_page_no := F\<rparr>\<rparr>) s'" "bp.same_use s s'"
    "rm_contents (h\<lparr>rm_hdr := (rm_hdr h)\<lparr>first_free_page_no := F\<rparr>\<rparr>) s' = (rm_contents h s)(r \<mapsto> buf)"
proof -
  note d = rm_invD [OF inv]
  let ?p = "page_no r" and ?i = "slot_no r" and ?g = "rm_hdr h" and ?n = "num_records_per_page (rm_hdr h)"
  obtain c where c: "rm_view h s ?p = Some c" "rm_page_ok ?g c" using d(7) [OF p] by blast
  have len: "length c = PAGE_SIZE" and num: "ph_num_records c = used ?g c" using c(2) by (simp_all add: rm_page_ok_def)
  define isset where "isset = bm_is_set c OFFSET_BITMAP ?i"
  define c1 where "c1 = put_slot ?g c ?i buf"
  define k where "k = (if isset then used ?g c else used ?g c + 1)"
  define c2 where "c2 = (if isset then c1 else bm_set (ph_set_num_records c1 (used ?g c + 1)) OFFSET_BITMAP ?i)"
  define full where "full \<longleftrightarrow> k = ?n"
  define c3 where "c3 = (if full then ph_set_next_free c2 RM_NO_PAGE else c2)"
  define F where "F = (if full then ph_next_free c else first_free_page_no ?g)"
  note ps = d(2) i
  have b: "nat (record_size ?g) \<le> length buf" "take (nat (record_size ?g)) buf = buf" using buf by simp_all
  have c1: "length c1 = PAGE_SIZE" "ph_num_records c1 = used ?g c" "ph_next_free c1 = ph_next_free c" "used ?g c1 = used ?g c"
    using ps len num by (simp_all add: c1_def page_simps)
  define c1n where "c1n = ph_set_num_records c1 (used ?g c + 1)"
  have c1n: "length c1n = PAGE_SIZE" "ph_num_records c1n = used ?g c + 1" "ph_next_free c1n = ph_next_free c" "used ?g c1n = used ?g c"
    using ps c1 used_range [OF d(2), of c] by (simp_all add: c1n_def page_simps)
  have bits1: "bm_is_set c1 OFFSET_BITMAP j = bm_is_set c OFFSET_BITMAP j" "bm_is_set c1n OFFSET_BITMAP j = bm_is_set c OFFSET_BITMAP j"
    "get_slot ?g c1 j = (if j = ?i then buf else get_slot ?g c j)" "get_slot ?g c1n j = (if j = ?i then buf else get_slot ?g c j)"
    if "slot_ok ?g j" for j
    using ps len c1(1) that b by (simp_all add: c1n_def c1_def page_simps)
  have c2: "length c2 = PAGE_SIZE" "ph_num_records c2 = k" "ph_next_free c2 = ph_next_free c" "used ?g c2 = k"
    using ps c1 c1n bits1(2) [OF i] by (simp_all add: c2_def k_def c1n_def [symmetric] isset_def page_simps)
  have bits2: "bm_is_set c2 OFFSET_BITMAP j = (j = ?i \<or> bm_is_set c OFFSET_BITMAP j)"
    "get_slot ?g c2 j = (if j = ?i then buf else get_slot ?g c j)" if "slot_ok ?g j" for j
    using ps c1(1) c1n(1) that bits1 [OF that] by (auto simp: c2_def c1n_def [symmetric] isset_def page_simps)
  have c3: "length c3 = PAGE_SIZE" "ph_num_records c3 = k" "used ?g c3 = k"
    "ph_next_free c3 = (if full then RM_NO_PAGE else ph_next_free c)"
    using ps c2 by (simp_all add: c3_def page_simps wrap32_id int_range_def RM_NO_PAGE_def)
  have bits3: "bm_is_set c3 OFFSET_BITMAP j = (j = ?i \<or> bm_is_set c OFFSET_BITMAP j)"
    "get_slot ?g c3 j = (if j = ?i then buf else get_slot ?g c j)" if "slot_ok ?g j" for j
    using ps c2(1) that bits2 [OF that] by (auto simp: c3_def page_simps)
  obtain f s1 s2 where u: "rm_fetch_page_handle h s ?p = (Inr f, s1)" "pg_data (frame s1 f) = c"
    "\<And>x. pg_id (frame (bpm_store s1 f x) f) = rm_pid h ?p"
    "bpm_unpin_page (bpm_store s1 f c3) (rm_pid h ?p) True = (True, s2)"
    "bp.same_use s s2" "rm_view h s2 ?p = Some c3"
    "\<And>p'. page_range h p' \<Longrightarrow> p' \<noteq> ?p \<Longrightarrow> rm_view h s2 p' = rm_view h s p'"
    "fd2pageno (disk s2) = fd2pageno (disk s)" "page_table s2 (rm_pid h RM_FILE_HDR_PAGE) = None"
    by (rule rm_update_page [OF inv p room c(1) c3(1)]) blast
  have ch: "page_changed h s ?p c3 s2" using u by (simp add: page_changed_def bp.same_use_def)
  let ?h' = "h\<lparr>rm_hdr := ?g\<lparr>first_free_page_no := F\<rparr>\<rparr>"
  have fr: "rm_free_ok ?h' s2"
  proof (cases full)
    case False
    then have "rm_free_ok h s2" using free_keep [OF inv ch p c(1)] c3 by (simp add: full_def)
    then show ?thesis using False by (simp add: F_def)
  next
    case True
    show ?thesis
    proof (cases isset)
      case set: True
      have uf: "used ?g c = ?n" using True set by (simp add: full_def k_def)
      have "page_full h s ?p" using c(1) uf by (simp add: page_full_def)
      then have nf: "ph_next_free c = RM_NO_PAGE" using d(8) p c(1) by (auto simp: rm_free_ok_def page_next_def)
      show ?thesis using free_drop [OF inv ch] c3 True nf by (simp add: F_def)
    next
      case unset: False
      then have "first_free_page_no ?g = ?p \<or> ph_next_free c = RM_NO_PAGE"
        using at True c(1) by (simp add: insert_at_ok_def Let_def isset_def full_def k_def)
      then show ?thesis
        using free_pop [OF inv ch p c(1)] free_drop [OF inv ch] c3 True by (auto simp: F_def full_def)
    qed
  qed
  have ok3: "rm_page_ok ?g c3" using c3 by (simp add: rm_page_ok_def)
  have res: "rm_insert_record_at (h, s) r buf = (Inr (), (?h', s2))"
  proof -
    have e2: "(if isset then c1 else bm_set (ph_set_num_records c1 (ph_num_records c1 + 1)) OFFSET_BITMAP ?i) = c2"
      using c1(2) by (simp add: c2_def)
    have e: "(ph_num_records c2 = ?n) = full" using c2(2) by (simp add: full_def)
    have hF: "(if full then ?g\<lparr>first_free_page_no := ph_next_free c2\<rparr> else ?g) = ?g\<lparr>first_free_page_no := F\<rparr>"
      using c2(3) by (simp add: F_def)
    show ?thesis
      unfolding rm_insert_record_at_def
      by (simp only: prod.case u(1) sum.case Let_def u(2) isset_def [symmetric] c1_def [symmetric] e2 e hF
          c3_def [symmetric] u(3) u(4) snd_conv)
  qed
  have cont: "rm_contents ?h' s2 = (rm_contents h s)(mk_rid ?p ?i \<mapsto> buf)"
    using contents_changed [OF ch c(1) p _ i, of F] bits3 i by simp
  show ?thesis
    by (rule that [OF res rm_inv_changed [OF inv ch p ok3 fr] u(5)]) (use cont in simp)
qed

end
