(* ===== verification/Rm_Scan.thy ===== *)
theory Rm_Scan
  imports Rm_Table
begin

text \<open>
  Table scans (\<^verbatim>\<open>src/src/record/rm_scan.cpp\<close>) and the record count. A scan is a record identifier
  that its constructor and \<^verbatim>\<open>next\<close> move forward; slot -1 marks the end. The lemmas show that a
  scan visits exactly the records of the table, each once, in the order of their positions.
\<close>

section \<open>Operations\<close>

text \<open>The loop of the constructor; \<open>f\<close> is the frame of page \<open>i\<close>, which is held.\<close>

function scan_first_loop :: "rm_file \<Rightarrow> bpm \<Rightarrow> int \<Rightarrow> frame_id \<Rightarrow> (int \<times> frame_id, bpm) outcome" where
  "scan_first_loop h s i f =
     (if ph_num_records (pg_data (frame s f)) = 0 \<and> i < num_pages (rm_hdr h) - 1 then
        (case rm_fetch_page_handle h (snd (bpm_unpin_page s (pg_id (frame s f)) False)) (i + 1) of
           (Inl e, s2) \<Rightarrow> (Inl e, s2)
         | (Inr g, s2) \<Rightarrow> scan_first_loop h s2 (i + 1) g)
      else (Inr (i, f), s))"
  by auto
termination by (relation "measure (\<lambda>(h, s, i, f). nat (num_pages (rm_hdr h) - i))") auto

declare scan_first_loop.simps [simp del]

definition rm_scan_new :: "rm_file \<Rightarrow> bpm \<Rightarrow> (rid, bpm) outcome" where
  "rm_scan_new h s =
     (if num_pages (rm_hdr h) = 1 then (Inr (mk_rid 1 (- 1)), s)
      else (case rm_fetch_page_handle h s 1 of
              (Inl e, s1) \<Rightarrow> (Inl e, s1)
            | (Inr f, s1) \<Rightarrow>
                (case scan_first_loop h s1 1 f of
                   (Inl e, s2) \<Rightarrow> (Inl e, s2)
                 | (Inr (i, g), s2) \<Rightarrow>
                     let n = num_records_per_page (rm_hdr h);
                         slot = first_bit True (pg_data (frame s2 g)) OFFSET_BITMAP n
                     in (Inr (if slot = n then mk_rid i (- 1) else mk_rid i slot),
                         snd (bpm_unpin_page s2 (pg_id (frame s2 g)) False)))))"

function scan_next_loop :: "rm_file \<Rightarrow> bpm \<Rightarrow> rid \<Rightarrow> frame_id \<Rightarrow> (rid, bpm) outcome" where
  "scan_next_loop h s r f =
     (let max_no = num_records_per_page (rm_hdr h);
          slot = next_bit True (pg_data (frame s f)) OFFSET_BITMAP max_no (slot_no r);
          s1 = snd (bpm_unpin_page s (pg_id (frame s f)) False)
      in if slot < max_no then (Inr (mk_rid (page_no r) slot), s1)
         else if page_no r + 1 \<ge> num_pages (rm_hdr h) then (Inr (mk_rid (page_no r + 1) (- 1)), s1)
         else (case rm_fetch_page_handle h s1 (page_no r + 1) of
                 (Inl e, s2) \<Rightarrow> (Inl e, s2)
               | (Inr g, s2) \<Rightarrow> scan_next_loop h s2 (mk_rid (page_no r + 1) (- 1)) g))"
  by auto
termination by (relation "measure (\<lambda>(h, s, r, f). nat (num_pages (rm_hdr h) - page_no r))") auto

declare scan_next_loop.simps [simp del]

definition rm_scan_next :: "rm_file \<Rightarrow> bpm \<Rightarrow> rid \<Rightarrow> (rid, bpm) outcome" where
  "rm_scan_next h s r =
     (case rm_fetch_page_handle h s (page_no r) of
        (Inl e, s1) \<Rightarrow> (Inl e, s1)
      | (Inr f, s1) \<Rightarrow> scan_next_loop h s1 r f)"

definition rm_scan_is_end :: "rid \<Rightarrow> bool" where
  "rm_scan_is_end r \<longleftrightarrow> slot_no r = - 1"

text \<open>The loop every client of a scan runs, with a bound on the number of rounds.\<close>

fun rm_scan_loop :: "nat \<Rightarrow> rm_file \<Rightarrow> bpm \<Rightarrow> rid \<Rightarrow> (rid list option, bpm) outcome" where
  "rm_scan_loop 0 h s r = (Inr None, s)"
| "rm_scan_loop (Suc k) h s r =
     (if rm_scan_is_end r then (Inr (Some []), s)
      else (case rm_scan_next h s r of
              (Inl e, s1) \<Rightarrow> (Inl e, s1)
            | (Inr r', s1) \<Rightarrow>
                (case rm_scan_loop k h s1 r' of
                   (Inl e, s2) \<Rightarrow> (Inl e, s2)
                 | (Inr rs, s2) \<Rightarrow> (Inr (map_option ((#) r) rs), s2))))"

definition rm_scan_all :: "nat \<Rightarrow> rm_file \<Rightarrow> bpm \<Rightarrow> (rid list option, bpm) outcome" where
  "rm_scan_all k h s =
     (case rm_scan_new h s of (Inl e, s1) \<Rightarrow> (Inl e, s1) | (Inr r, s1) \<Rightarrow> rm_scan_loop k h s1 r)"

section \<open>Positions in order\<close>

definition page_rids :: "rm_file \<Rightarrow> bpm \<Rightarrow> int \<Rightarrow> rid list" where
  "page_rids h s p =
     map (mk_rid p) (bm_slots (the (rm_view h s p)) OFFSET_BITMAP (num_records_per_page (rm_hdr h)))"

definition rm_rids :: "rm_file \<Rightarrow> bpm \<Rightarrow> rid list" where
  "rm_rids h s = concat (map (page_rids h s) [1..num_pages (rm_hdr h) - 1])"

text \<open>The records after position \<open>(p, i)\<close>.\<close>

definition rids_after :: "rm_file \<Rightarrow> bpm \<Rightarrow> rid \<Rightarrow> rid list" where
  "rids_after h s r = filter (\<lambda>x. slot_no r < slot_no x) (page_rids h s (page_no r)) @
     concat (map (page_rids h s) [page_no r + 1..num_pages (rm_hdr h) - 1])"

lemma next_bit_slots:
  fixes d :: bytes and bm :: nat
  assumes "- 1 \<le> i" "i < n"
  defines "r \<equiv> next_bit True d bm n i"
  shows "r = n \<Longrightarrow> filter (\<lambda>j. i < j) (bm_slots d bm n) = []"
    and "r < n \<Longrightarrow> filter (\<lambda>j. i < j) (bm_slots d bm n) = r # filter (\<lambda>j. r < j) (bm_slots d bm n)"
    and "r \<le> n"
proof -
  note f = next_bit_spec [OF assms(2), where b = True and d = d and bm = bm, folded r_def]
  show "r \<le> n" by (rule f(2))
  show "r = n \<Longrightarrow> filter (\<lambda>j. i < j) (bm_slots d bm n) = []"
    using f(4) by (auto simp: filter_empty_conv set_bm_slots)
  assume r: "r < n"
  show "filter (\<lambda>j. i < j) (bm_slots d bm n) = r # filter (\<lambda>j. r < j) (bm_slots d bm n)"
  proof (rule sorted_distinct_set_unique)
    show "set (filter (\<lambda>j. i < j) (bm_slots d bm n)) = set (r # filter (\<lambda>j. r < j) (bm_slots d bm n))"
      using f(1,3) f(4) r assms(1) by (fastforce simp: set_bm_slots)
  qed (auto simp: sorted_wrt_filter)
qed

lemma mk_rid_inj: "inj_on (mk_rid p) A"
  by (auto simp: inj_on_def)

lemma rids_after_next:
  assumes "- 1 \<le> i" "i < num_records_per_page (rm_hdr h)" "rm_view h s p = Some c"
  defines "r \<equiv> next_bit True c OFFSET_BITMAP (num_records_per_page (rm_hdr h)) i"
  shows "r = num_records_per_page (rm_hdr h) \<Longrightarrow> rids_after h s (mk_rid p i) =
           concat (map (page_rids h s) [p + 1..num_pages (rm_hdr h) - 1])"
    and "r < num_records_per_page (rm_hdr h) \<Longrightarrow>
           rids_after h s (mk_rid p i) = mk_rid p r # rids_after h s (mk_rid p r)"
  using next_bit_slots [OF assms(1,2), where d = c and bm = OFFSET_BITMAP] assms(3)
  by (auto simp: rids_after_def page_rids_def filter_map o_def r_def)

lemma rids_after_start:
  assumes "p < num_pages (rm_hdr h)"
  shows "rids_after h s (mk_rid p (- 1)) = concat (map (page_rids h s) [p..num_pages (rm_hdr h) - 1])"
proof -
  have "filter (\<lambda>x. - 1 < slot_no x) (page_rids h s p) = page_rids h s p"
    by (auto simp: filter_id_conv page_rids_def set_bm_slots)
  moreover have "[p..num_pages (rm_hdr h) - 1] = p # [p + 1..num_pages (rm_hdr h) - 1]"
    using assms by (simp add: upto_rec1)
  ultimately show ?thesis by (simp add: rids_after_def)
qed

lemma set_page_rids:
  assumes "page_range h p" "rm_view h s p = Some c"
  shows "r \<in> set (page_rids h s p) \<longleftrightarrow> page_no r = p \<and> rm_contents h s r \<noteq> None"
proof -
  have "r \<in> set (page_rids h s p) \<longleftrightarrow> page_no r = p \<and> slot_ok (rm_hdr h) (slot_no r) \<and> bm_is_set c OFFSET_BITMAP (slot_no r)"
    using assms(2)
    by (auto simp: page_rids_def set_bm_slots slot_ok_def image_iff intro!: bexI [of _ "slot_no r"])
  then show ?thesis using assms by (auto simp: rm_contents_def)
qed

lemma set_rm_rids:
  assumes "rm_inv h s"
  shows "set (rm_rids h s) = dom (rm_contents h s)"
proof (rule set_eqI)
  fix r
  have "r \<in> set (rm_rids h s) \<longleftrightarrow> (\<exists>p. page_range h p \<and> r \<in> set (page_rids h s p))"
    by (auto simp: rm_rids_def page_range_def)
  also have "\<dots> \<longleftrightarrow> rm_contents h s r \<noteq> None"
  proof
    assume "\<exists>p. page_range h p \<and> r \<in> set (page_rids h s p)"
    then obtain p where p: "page_range h p" "r \<in> set (page_rids h s p)" by blast
    obtain c where "rm_view h s p = Some c" using rm_invD(7) [OF assms p(1)] by blast
    from set_page_rids [OF p(1) this, of r] p(2) show "rm_contents h s r \<noteq> None" by blast
  next
    assume r: "rm_contents h s r \<noteq> None"
    then have p: "page_range h (page_no r)" by (auto simp: rm_contents_def split: if_splits)
    obtain c where "rm_view h s (page_no r) = Some c" using rm_invD(7) [OF assms p] by blast
    from set_page_rids [OF p this, of r] r p show "\<exists>p. page_range h p \<and> r \<in> set (page_rids h s p)" by blast
  qed
  finally show "r \<in> set (rm_rids h s) \<longleftrightarrow> r \<in> dom (rm_contents h s)" by auto
qed

lemma distinct_rm_rids: "distinct (rm_rids h s)"
proof -
  have d: "distinct (concat (map (page_rids h s) ps))" if "distinct ps" for ps
    using that
  proof (induction ps)
    case (Cons p ps)
    have "distinct (page_rids h s p)" by (simp add: page_rids_def distinct_map mk_rid_inj)
    moreover have "set (page_rids h s p) \<inter> (\<Union>q \<in> set ps. set (page_rids h s q)) = {}"
      using Cons.prems by (auto simp: page_rids_def)
    ultimately show ?case using Cons by simp
  qed simp
  show ?thesis by (simp add: rm_rids_def d)
qed

section \<open>A scan visits the records in order\<close>

text \<open>
  \<open>reading h s0 s p f\<close>: page \<open>p\<close> is held in frame \<open>f\<close> and unpinning it leads back to a state in
  which the file is as in \<open>s0\<close>.
\<close>

definition same_file :: "rm_file \<Rightarrow> bpm \<Rightarrow> bpm \<Rightarrow> bool" where
  "same_file h s s' \<longleftrightarrow> rm_inv h s' \<and> bp.same_use s s' \<and> rm_contents h s' = rm_contents h s \<and>
     (\<forall>p. page_range h p \<longrightarrow> rm_view h s' p = rm_view h s p) \<and> bpm_view s \<subseteq>\<^sub>m bpm_view s' \<and>
     fd2pageno (disk s') = fd2pageno (disk s) \<and>
     (\<forall>r. page_table s' r \<noteq> None \<longrightarrow> (\<exists>p. page_range h p \<and> r = rm_pid h p) \<or> page_table s r \<noteq> None)"

definition reading :: "rm_file \<Rightarrow> bpm \<Rightarrow> bpm \<Rightarrow> int \<Rightarrow> frame_id \<Rightarrow> bool" where
  "reading h s0 s p f \<longleftrightarrow> page_range h p \<and> rm_view h s0 p = Some (pg_data (frame s f)) \<and>
     rm_page_ok (rm_hdr h) (pg_data (frame s f)) \<and> same_file h s0 (snd (bpm_unpin_page s (pg_id (frame s f)) False))"

lemma same_file_refl: "rm_inv h s \<Longrightarrow> same_file h s s"
  using rm_invD(1) [of h s] by (simp add: same_file_def bp.same_use_def)

lemma same_file_trans:
  assumes "same_file h s t" "same_file h t u"
  shows "same_file h s u"
proof -
  have "bp.same_use s u" "bpm_view s \<subseteq>\<^sub>m bpm_view u"
    using assms bp.same_use_trans map_le_trans by (auto simp: same_file_def)
  moreover have "(\<exists>p. page_range h p \<and> r = rm_pid h p) \<or> page_table s r \<noteq> None" if "page_table u r \<noteq> None" for r
    using that assms unfolding same_file_def by blast
  ultimately show ?thesis using assms unfolding same_file_def by simp
qed

lemma same_file_room: "same_file h s t \<Longrightarrow> rm_room s \<Longrightarrow> rm_room t"
  by (auto simp: same_file_def intro: rm_room_same)

lemma same_view_rids:
  assumes "\<And>p. page_range h p \<Longrightarrow> rm_view h t p = rm_view h s p"
  shows "page_range h p \<Longrightarrow> page_rids h t p = page_rids h s p" "rm_rids h t = rm_rids h s"
    and "page_range h (page_no r) \<Longrightarrow> rids_after h t r = rids_after h s r"
proof -
  have p: "page_range h p \<Longrightarrow> page_rids h t p = page_rids h s p" for p
    using assms by (simp add: page_rids_def)
  then show "page_range h p \<Longrightarrow> page_rids h t p = page_rids h s p" .
  have m: "map (page_rids h t) [a..num_pages (rm_hdr h) - 1] = map (page_rids h s) [a..num_pages (rm_hdr h) - 1]" if "1 \<le> a" for a
    using that p by (auto simp: page_range_def)
  show "rm_rids h t = rm_rids h s" by (simp only: rm_rids_def m [OF order_refl])
  show "rids_after h t r = rids_after h s r" if r: "page_range h (page_no r)"
  proof -
    have a: "1 \<le> page_no r + 1" using r by (simp add: page_range_def)
    show ?thesis by (simp only: rids_after_def p [OF r] m [OF a])
  qed
qed

lemma same_file_rids:
  assumes "same_file h s t"
  shows "page_range h p \<Longrightarrow> page_rids h t p = page_rids h s p" "rm_rids h t = rm_rids h s"
    and "page_range h (page_no r) \<Longrightarrow> rids_after h t r = rids_after h s r"
  using same_view_rids [of h t s] assms by (simp_all add: same_file_def)

lemma fetch_reading:
  assumes "rm_inv h s" "page_range h p" "rm_room s"
  obtains f s1 where "rm_fetch_page_handle h s p = (Inr f, s1)" "reading h s s1 p f"
proof -
  obtain f s1 s2 c where r: "rm_fetch_page_handle h s p = (Inr f, s1)" "pg_data (frame s1 f) = c"
    "rm_view h s p = Some c" "rm_page_ok (rm_hdr h) c" "pg_id (frame s1 f) = rm_pid h p"
    "bpm_unpin_page s1 (rm_pid h p) False = (True, s2)" "rm_inv h s2" "rm_contents h s2 = rm_contents h s"
    "bp.same_use s s2" "rm_view h s2 p = Some c" "\<And>q. page_range h q \<Longrightarrow> rm_view h s2 q = rm_view h s q"
    "bpm_view s \<subseteq>\<^sub>m bpm_view s2" "fd2pageno (disk s2) = fd2pageno (disk s)"
    "\<And>r. page_table s2 r \<noteq> None \<Longrightarrow> r = rm_pid h p \<or> page_table s r \<noteq> None"
    by (rule rm_read_page [OF assms]) blast
  have "same_file h s s2" using r(7-13) r(14) assms(2) unfolding same_file_def by blast
  then have "reading h s s1 p f" using r(1-6) assms(2) by (simp add: reading_def)
  with r(1) show ?thesis by (rule that)
qed

lemma get_record_same_file:
  assumes "rm_inv h s" "rm_room s" "rm_contents h s r = Some b"
  obtains s' where "rm_get_record h s r = (Inr b, s')" "same_file h s s'"
proof -
  have p: "page_range h (page_no r)" using assms(3) by (auto simp: rm_contents_def split: if_splits)
  obtain f s1 where f: "rm_fetch_page_handle h s (page_no r) = (Inr f, s1)" "reading h s s1 (page_no r) f"
    by (rule fetch_reading [OF assms(1) p assms(2)])
  then have "b = get_slot (rm_hdr h) (pg_data (frame s1 f)) (slot_no r)"
    using assms(3) by (auto simp: rm_contents_def reading_def split: if_splits)
  then have "rm_get_record h s r = (Inr b, snd (bpm_unpin_page s1 (pg_id (frame s1 f)) False))"
    using f(1) by (simp add: rm_get_record_def)
  moreover have "same_file h s (snd (bpm_unpin_page s1 (pg_id (frame s1 f)) False))" using f(2) by (simp add: reading_def)
  ultimately show ?thesis by (rule that)
qed

lemma reading_next:
  assumes "reading h s0 s p f" "rm_room s0" "page_range h q"
  obtains g s2 where "rm_fetch_page_handle h (snd (bpm_unpin_page s (pg_id (frame s f)) False)) q = (Inr g, s2)"
    "reading h s0 s2 q g"
proof -
  let ?t = "snd (bpm_unpin_page s (pg_id (frame s f)) False)"
  have t: "same_file h s0 ?t" using assms(1) by (simp add: reading_def)
  have "rm_inv h ?t" using t by (simp add: same_file_def)
  from fetch_reading [OF this assms(3) same_file_room [OF t assms(2)]] obtain g s2
    where g: "rm_fetch_page_handle h ?t q = (Inr g, s2)" "reading h ?t s2 q g" by blast
  have "rm_view h s0 q = rm_view h ?t q" using t assms(3) by (simp add: same_file_def)
  then have "reading h s0 s2 q g"
    using g(2) same_file_trans [OF t] by (simp add: reading_def)
  with g(1) show ?thesis by (rule that)
qed

lemma scan_next_loop_ok:
  assumes "reading h s0 s (page_no r) f" "rm_room s0" "- 1 \<le> slot_no r" "slot_no r < num_records_per_page (rm_hdr h)"
  shows "\<exists>r' s'. scan_next_loop h s r f = (Inr r', s') \<and> same_file h s0 s' \<and>
           (case rids_after h s0 r of [] \<Rightarrow> rm_scan_is_end r'
            | x # xs \<Rightarrow> r' = x \<and> rids_after h s0 x = xs \<and> page_range h (page_no x) \<and> slot_ok (rm_hdr h) (slot_no x))"
  using assms
proof (induction h s r f rule: scan_next_loop.induct)
  case (1 h s r f)
  let ?n = "num_records_per_page (rm_hdr h)" and ?d = "pg_data (frame s f)"
  let ?s1 = "snd (bpm_unpin_page s (pg_id (frame s f)) False)"
  define slot where "slot = next_bit True ?d OFFSET_BITMAP ?n (slot_no r)"
  have rd: "page_range h (page_no r)" "rm_view h s0 (page_no r) = Some ?d" "same_file h s0 ?s1"
    using 1(2) by (simp_all add: reading_def)
  note ra = rids_after_next [OF 1(4,5) rd(2), folded slot_def, simplified]
  have le: "slot \<le> ?n" "slot_no r < slot" using next_bit_spec(1,2) [OF 1(5), where b = True] by (simp_all add: slot_def)
  show ?case
  proof (cases "slot < ?n")
    case True
    then have "scan_next_loop h s r f = (Inr (mk_rid (page_no r) slot), ?s1)"
      by (subst scan_next_loop.simps) (simp add: slot_def Let_def)
    with ra(2) [OF True] rd True le 1(4) show ?thesis by (simp add: slot_ok_def)
  next
    case False
    then have sl: "slot = ?n" using le by simp
    show ?thesis
    proof (cases "page_no r + 1 \<ge> num_pages (rm_hdr h)")
      case True
      then have "scan_next_loop h s r f = (Inr (mk_rid (page_no r + 1) (- 1)), ?s1)"
        using False by (subst scan_next_loop.simps) (simp add: slot_def Let_def)
      with ra(1) [OF sl] rd True show ?thesis by (simp add: rm_scan_is_end_def)
    next
      case more: False
      have q: "page_range h (page_no r + 1)" using rd(1) more by (simp add: page_range_def)
      obtain g s2 where g: "rm_fetch_page_handle h ?s1 (page_no r + 1) = (Inr g, s2)" "reading h s0 s2 (page_no r + 1) g"
        by (rule reading_next [OF 1(2,3) q])
      have e: "scan_next_loop h s r f = scan_next_loop h s2 (mk_rid (page_no r + 1) (- 1)) g"
        using False more g(1) by (subst scan_next_loop.simps) (simp add: slot_def Let_def)
      have n: "- 1 < ?n" using 1(4,5) by simp
      have "rids_after h s0 r = rids_after h s0 (mk_rid (page_no r + 1) (- 1))"
        using ra(1) [OF sl] rids_after_start [of "page_no r + 1" h s0] more by simp
      with 1(1) [OF refl refl refl _ _ g(1) [symmetric] refl _ 1(3)] g(2) n False more show ?thesis
        by (simp add: e slot_def)
    qed
  qed
qed

lemma scan_next_ok:
  assumes inv: "rm_inv h s" and room: "rm_room s" and r: "page_range h (page_no r)" "slot_ok (rm_hdr h) (slot_no r)"
  shows "\<exists>r' s'. rm_scan_next h s r = (Inr r', s') \<and> same_file h s s' \<and>
           (case rids_after h s r of [] \<Rightarrow> rm_scan_is_end r'
            | x # xs \<Rightarrow> r' = x \<and> rids_after h s x = xs \<and> page_range h (page_no x) \<and> slot_ok (rm_hdr h) (slot_no x))"
proof -
  obtain f s1 where f: "rm_fetch_page_handle h s (page_no r) = (Inr f, s1)" "reading h s s1 (page_no r) f"
    by (rule fetch_reading [OF inv r(1) room])
  have "- 1 \<le> slot_no r" "slot_no r < num_records_per_page (rm_hdr h)" using r(2) by (simp_all add: slot_ok_def)
  from scan_next_loop_ok [OF f(2) room this] f(1) show ?thesis by (simp add: rm_scan_next_def)
qed

text \<open>The constructor skips the empty pages at the beginning, but stops at the last page.\<close>

lemma scan_first_loop_ok:
  assumes "reading h s0 s p f" "rm_room s0"
  shows "\<exists>i g s'. scan_first_loop h s p f = (Inr (i, g), s') \<and> reading h s0 s' i g \<and>
           concat (map (page_rids h s0) [p..num_pages (rm_hdr h) - 1]) =
           concat (map (page_rids h s0) [i..num_pages (rm_hdr h) - 1]) \<and>
           (page_rids h s0 i = [] \<longrightarrow> i = num_pages (rm_hdr h) - 1)"
  using assms
proof (induction h s p f rule: scan_first_loop.induct)
  case (1 h s p f)
  let ?np = "num_pages (rm_hdr h)"
  let ?s1 = "snd (bpm_unpin_page s (pg_id (frame s f)) False)"
  have rd: "page_range h p" "rm_view h s0 p = Some (pg_data (frame s f))" "rm_page_ok (rm_hdr h) (pg_data (frame s f))"
    using 1(2) by (simp_all add: reading_def)
  have nz: "ph_num_records (pg_data (frame s f)) = 0 \<longleftrightarrow> page_rids h s0 p = []"
    using rd(2,3) by (simp add: rm_page_ok_def used_def page_rids_def)
  show ?case
  proof (cases "ph_num_records (pg_data (frame s f)) = 0 \<and> p < ?np - 1")
    case True
    have q: "page_range h (p + 1)" using rd(1) True by (simp add: page_range_def)
    obtain g s2 where g: "rm_fetch_page_handle h ?s1 (p + 1) = (Inr g, s2)" "reading h s0 s2 (p + 1) g"
      by (rule reading_next [OF 1(2,3) q])
    have e: "scan_first_loop h s p f = scan_first_loop h s2 (p + 1) g"
      using True g(1) by (subst scan_first_loop.simps) simp
    have "[p..?np - 1] = p # [p + 1..?np - 1]" using True by (simp add: upto_rec1)
    then have "concat (map (page_rids h s0) [p..?np - 1]) = concat (map (page_rids h s0) [p + 1..?np - 1])"
      using True nz by simp
    with 1(1) [OF True g(1) [symmetric] refl g(2) 1(3)] show ?thesis by (simp add: e)
  next
    case False
    then have "scan_first_loop h s p f = (Inr (p, f), s)" by (subst scan_first_loop.simps) auto
    moreover have "page_rids h s0 p = [] \<longrightarrow> p = ?np - 1" using False nz rd(1) by (auto simp: page_range_def)
    ultimately show ?thesis using 1(2) by simp
  qed
qed

lemma scan_new_ok:
  assumes inv: "rm_inv h s" and room: "rm_room s"
  shows "\<exists>r s'. rm_scan_new h s = (Inr r, s') \<and> same_file h s s' \<and>
           (case rm_rids h s of [] \<Rightarrow> rm_scan_is_end r
            | x # xs \<Rightarrow> r = x \<and> rids_after h s x = xs \<and> page_range h (page_no x) \<and> slot_ok (rm_hdr h) (slot_no x))"
proof (cases "num_pages (rm_hdr h) = 1")
  case True
  then show ?thesis using same_file_refl [OF inv] by (simp add: rm_scan_new_def rm_rids_def rm_scan_is_end_def)
next
  case False
  note d = rm_invD [OF inv]
  let ?n = "num_records_per_page (rm_hdr h)" and ?np = "num_pages (rm_hdr h)"
  have one: "page_range h 1" using d(3) False by (simp add: page_range_def)
  obtain f s1 where f: "rm_fetch_page_handle h s 1 = (Inr f, s1)" "reading h s s1 1 f"
    by (rule fetch_reading [OF inv one room])
  obtain i g s2 where g: "scan_first_loop h s1 1 f = (Inr (i, g), s2)" "reading h s s2 i g"
    "concat (map (page_rids h s) [1..?np - 1]) = concat (map (page_rids h s) [i..?np - 1])"
    "page_rids h s i = [] \<Longrightarrow> i = ?np - 1"
    using scan_first_loop_ok [OF f(2) room] by blast
  let ?d = "pg_data (frame s2 g)" and ?s3 = "snd (bpm_unpin_page s2 (pg_id (frame s2 g)) False)"
  have rd: "page_range h i" "rm_view h s i = Some ?d" "same_file h s ?s3" using g(2) by (simp_all add: reading_def)
  define slot where "slot = next_bit True ?d OFFSET_BITMAP ?n (- 1)"
  have n0: "- 1 < ?n" using hdr_okD(3) [OF d(2)] by simp
  have n1: "- 1 \<le> (- 1 :: int)" by simp
  note ra = rids_after_next [OF n1 n0 rd(2), folded slot_def]
  have start: "rm_rids h s = rids_after h s (mk_rid i (- 1))"
    using rids_after_start [of i h s] rd(1) g(3) by (simp add: rm_rids_def page_range_def)
  have le: "slot \<le> ?n" "- 1 < slot" using next_bit_spec(1,2) [OF n0, where b = True] by (simp_all add: slot_def)
  have res: "rm_scan_new h s = (Inr (if slot = ?n then mk_rid i (- 1) else mk_rid i slot), ?s3)"
    using False f(1) g(1) by (simp add: rm_scan_new_def slot_def first_bit_def Let_def)
  show ?thesis
  proof (cases "slot = ?n")
    case True
    have "page_rids h s i = []"
      using next_bit_slots(1) [OF n1 n0, where d = ?d and bm = OFFSET_BITMAP] True rd(2)
      by (auto simp: page_rids_def slot_def filter_empty_conv set_bm_slots)
    with g(4) have "i = ?np - 1" .
    then have "rm_rids h s = []" using start ra(1) [OF True] by simp
    then show ?thesis using res True rd(3) by (simp add: rm_scan_is_end_def)
  next
    case lt: False
    then have "slot < ?n" using le by simp
    from ra(2) [OF this] start res lt rd this le show ?thesis by (simp add: slot_ok_def)
  qed
qed

lemma rm_scan_loop_ok:
  "\<lbrakk>rm_inv h s; rm_room s; page_range h (page_no r); slot_ok (rm_hdr h) (slot_no r); length (rids_after h s r) < k\<rbrakk> \<Longrightarrow>
   \<exists>s'. rm_scan_loop (Suc k) h s r = (Inr (Some (r # rids_after h s r)), s') \<and> same_file h s s'"
proof (induction k arbitrary: s r)
  case (Suc k)
  have ne: "\<not> rm_scan_is_end r" using Suc.prems(4) by (simp add: rm_scan_is_end_def slot_ok_def)
  obtain r' s1 where n: "rm_scan_next h s r = (Inr r', s1)" "same_file h s s1"
    "case rids_after h s r of [] \<Rightarrow> rm_scan_is_end r'
     | x # xs \<Rightarrow> r' = x \<and> rids_after h s x = xs \<and> page_range h (page_no x) \<and> slot_ok (rm_hdr h) (slot_no x)"
    using scan_next_ok [OF Suc.prems(1-4)] by blast
  show ?case
  proof (cases "rids_after h s r")
    case Nil
    then show ?thesis using n ne by (simp add: exI [of _ s1])
  next
    case (Cons x xs)
    have x: "r' = x" "rids_after h s x = xs" "page_range h (page_no x)" "slot_ok (rm_hdr h) (slot_no x)"
      using n(3) Cons by simp_all
    have i1: "rm_inv h s1" using n(2) by (simp add: same_file_def)
    have a1: "rids_after h s1 x = xs" using same_file_rids(3) [OF n(2) x(3)] x(2) by simp
    obtain s2 where s2: "rm_scan_loop (Suc k) h s1 x = (Inr (Some (x # xs)), s2)" "same_file h s1 s2"
      using Suc.IH [OF i1 same_file_room [OF n(2) Suc.prems(2)] x(3,4)] a1 Suc.prems(5) Cons by auto
    show ?thesis
      using ne n(1) s2 x(1) Cons same_file_trans [OF n(2) s2(2)]
      by (subst rm_scan_loop.simps) (simp del: rm_scan_loop.simps)
  qed
qed simp

lemma rm_count_loop_ok:
  assumes "rm_inv h s" "rm_room s" "1 \<le> i"
  shows "\<exists>s'. rm_count_loop h s i c = (Inr (c + int (length (concat (map (page_rids h s) [i..num_pages (rm_hdr h) - 1])))), s') \<and>
           same_file h s s'"
  using assms
proof (induction h s i c rule: rm_count_loop.induct)
  case (1 h s i c)
  show ?case
  proof (cases "i < num_pages (rm_hdr h)")
    case False
    then show ?thesis using same_file_refl [OF 1(2)] by (subst rm_count_loop.simps) simp
  next
    case True
    have p: "page_range h i" using True 1(4) by (simp add: page_range_def)
    obtain f s1 where f: "rm_fetch_page_handle h s i = (Inr f, s1)" "reading h s s1 i f"
      by (rule fetch_reading [OF 1(2) p 1(3)])
    let ?d = "pg_data (frame s1 f)" and ?s2 = "snd (bpm_unpin_page s1 (pg_id (frame s1 f)) False)"
    have rd: "same_file h s ?s2" "rm_view h s i = Some ?d" "rm_page_ok (rm_hdr h) ?d"
      using f(2) by (simp_all add: reading_def)
    have cnt: "ph_num_records ?d = int (length (page_rids h s i))"
      using rd(2,3) by (simp add: rm_page_ok_def used_def page_rids_def)
    have i2: "rm_inv h ?s2" using rd(1) by (simp add: same_file_def)
    have m: "map (page_rids h ?s2) [i + 1..num_pages (rm_hdr h) - 1] = map (page_rids h s) [i + 1..num_pages (rm_hdr h) - 1]"
      using same_file_rids(1) [OF rd(1)] 1(4) by (auto simp: page_range_def)
    have sp: "[i..num_pages (rm_hdr h) - 1] = i # [i + 1..num_pages (rm_hdr h) - 1]" using True by (simp add: upto_rec1)
    have e: "rm_count_loop h s i c = rm_count_loop h ?s2 (i + 1) (c + ph_num_records ?d)"
      using True f(1) by (subst rm_count_loop.simps) simp
    have "1 \<le> i + 1" using 1(4) by simp
    from 1(1) [OF True f(1) [symmetric] refl i2 same_file_room [OF rd(1) 1(3)] this] obtain s3
      where s3: "rm_count_loop h ?s2 (i + 1) (c + ph_num_records ?d) =
          (Inr (c + ph_num_records ?d + int (length (concat (map (page_rids h ?s2) [i + 1..num_pages (rm_hdr h) - 1])))), s3)"
        "same_file h ?s2 s3" by blast
    show ?thesis
      using s3(1) same_file_trans [OF rd(1) s3(2)] unfolding e m sp by (simp add: cnt)
  qed
qed

end
