(* ===== verification/Rm_Store.thy ===== *)
theory Rm_Store
  imports Rm_Scan
begin

text \<open>
  The contract of a record file towards the transaction and recovery layers, as the locale
  \<open>table_store\<close>: what deleting, re-inserting and updating at a given position do to the table, and
  that each of them can be undone. Interpreted by the file handle over the buffer pool. The
  theory ends with the properties of record files.
\<close>

locale table_store =
  fixes ins_at :: "'s \<Rightarrow> rid \<Rightarrow> bytes \<Rightarrow> (unit, 's) outcome"
    and del :: "'s \<Rightarrow> rid \<Rightarrow> (unit, 's) outcome"
    and upd :: "'s \<Rightarrow> rid \<Rightarrow> bytes \<Rightarrow> (unit, 's) outcome"
    and tab :: "'s \<Rightarrow> rid \<rightharpoonup> bytes"
    and ok :: "'s \<Rightarrow> bool"
    and valid :: "'s \<Rightarrow> rid \<Rightarrow> bool"
    and at_ok :: "'s \<Rightarrow> rid \<Rightarrow> bool"
    and len :: "'s \<Rightarrow> nat"
  assumes del_spec: "\<lbrakk>ok s; tab s r \<noteq> None\<rbrakk> \<Longrightarrow>
      \<exists>s'. del s r = (Inr (), s') \<and> ok s' \<and> tab s' = (tab s)(r := None) \<and> at_ok s' r \<and> len s' = len s \<and> valid s' = valid s"
    and ins_at_spec: "\<lbrakk>ok s; valid s r; at_ok s r; length b = len s\<rbrakk> \<Longrightarrow>
      \<exists>s'. ins_at s r b = (Inr (), s') \<and> ok s' \<and> tab s' = (tab s)(r \<mapsto> b) \<and> len s' = len s \<and> valid s' = valid s"
    and upd_spec: "\<lbrakk>ok s; tab s r \<noteq> None; length b = len s\<rbrakk> \<Longrightarrow>
      \<exists>s'. upd s r b = (Inr (), s') \<and> ok s' \<and> tab s' = (tab s)(r \<mapsto> b) \<and> len s' = len s \<and> valid s' = valid s"
    and tab_valid: "\<lbrakk>ok s; tab s r = Some b\<rbrakk> \<Longrightarrow> valid s r \<and> length b = len s"
begin

lemma undo_delete:
  assumes "ok s" "tab s r = Some b"
  shows "\<exists>s1 s2. del s r = (Inr (), s1) \<and> ins_at s1 r b = (Inr (), s2) \<and> ok s2 \<and> tab s2 = tab s"
proof -
  obtain s1 where s1: "del s r = (Inr (), s1)" "ok s1" "tab s1 = (tab s)(r := None)" "at_ok s1 r" "len s1 = len s" "valid s1 = valid s"
    using del_spec [OF assms(1), of r] assms(2) by auto
  have "valid s1 r" "length b = len s1" using tab_valid [OF assms] s1 by simp_all
  from ins_at_spec [OF s1(2) this(1) s1(4) this(2)] obtain s2 where "ins_at s1 r b = (Inr (), s2)" "ok s2" "tab s2 = (tab s1)(r \<mapsto> b)"
    by blast
  with s1 assms(2) show ?thesis by (auto simp: fun_upd_idem)
qed

lemma undo_update:
  assumes "ok s" "tab s r = Some b" "length b' = len s"
  shows "\<exists>s1 s2. upd s r b' = (Inr (), s1) \<and> upd s1 r b = (Inr (), s2) \<and> ok s2 \<and> tab s2 = tab s"
proof -
  obtain s1 where s1: "upd s r b' = (Inr (), s1)" "ok s1" "tab s1 = (tab s)(r \<mapsto> b')" "len s1 = len s"
    using upd_spec [OF assms(1) _ assms(3), of r] assms(2) by auto
  have "length b = len s1" using tab_valid [OF assms(1,2)] s1(4) by simp
  from upd_spec [OF s1(2) _ this, of r] s1(3) obtain s2 where "upd s1 r b = (Inr (), s2)" "ok s2" "tab s2 = (tab s1)(r \<mapsto> b)"
    by auto
  with s1 assms(2) show ?thesis by (auto simp: fun_upd_idem)
qed

lemma undo_insert:
  assumes "ok s" "valid s r" "at_ok s r" "length b = len s" "tab s r = None"
  shows "\<exists>s1 s2. ins_at s r b = (Inr (), s1) \<and> del s1 r = (Inr (), s2) \<and> ok s2 \<and> tab s2 = tab s"
proof -
  obtain s1 where s1: "ins_at s r b = (Inr (), s1)" "ok s1" "tab s1 = (tab s)(r \<mapsto> b)"
    using ins_at_spec [OF assms(1-4)] by blast
  from del_spec [OF s1(2), of r] s1(3) obtain s2 where "del s1 r = (Inr (), s2)" "ok s2" "tab s2 = (tab s1)(r := None)"
    by auto
  with s1 assms(5) show ?thesis by (auto simp: fun_upd_idem)
qed

end

section \<open>The file handle as a table store\<close>

definition rm_tab :: "rm_state \<Rightarrow> rid \<rightharpoonup> bytes" where
  "rm_tab st = rm_contents (fst st) (snd st)"

definition rm_ready :: "rm_state \<Rightarrow> bool" where
  "rm_ready st \<longleftrightarrow> rm_inv (fst st) (snd st) \<and> rm_room (snd st)"

definition rm_valid :: "rm_state \<Rightarrow> rid \<Rightarrow> bool" where
  "rm_valid st r \<longleftrightarrow> page_range (fst st) (page_no r) \<and> slot_ok (rm_hdr (fst st)) (slot_no r)"

definition rm_at_ok :: "rm_state \<Rightarrow> rid \<Rightarrow> bool" where
  "rm_at_ok st r = insert_at_ok (fst st) (snd st) r"

definition rm_len :: "rm_state \<Rightarrow> nat" where
  "rm_len st = nat (record_size (rm_hdr (fst st)))"

lemma get_slot_length:
  assumes "hdr_ok g" "slot_ok g i" "length c = PAGE_SIZE"
  shows "length (get_slot g c i) = nat (record_size g)"
  using slot_in_page(1) [OF assms(1,2)] assms(3) by (simp add: get_slot_def length_mem_read)

lemma rm_contents_valid:
  assumes "rm_inv h s" "rm_contents h s r = Some b"
  shows "page_range h (page_no r)" "slot_ok (rm_hdr h) (slot_no r)" "length b = nat (record_size (rm_hdr h))"
proof -
  show p: "page_range h (page_no r)" "slot_ok (rm_hdr h) (slot_no r)"
    using assms(2) by (auto simp: rm_contents_def split: if_splits)
  obtain c where c: "rm_view h s (page_no r) = Some c" "rm_page_ok (rm_hdr h) c" using rm_invD(7) [OF assms(1) p(1)] by blast
  then have "length c = PAGE_SIZE" by (simp add: rm_page_ok_def)
  with assms(2) p c(1) rm_invD(2) [OF assms(1)] show "length b = nat (record_size (rm_hdr h))"
    by (auto simp: rm_contents_def get_slot_length split: if_splits)
qed

lemma first_free_same [simp]:
  "rm_valid (h\<lparr>rm_hdr := (rm_hdr h)\<lparr>first_free_page_no := F\<rparr>\<rparr>, s') = rm_valid (h, s)"
  "rm_len (h\<lparr>rm_hdr := (rm_hdr h)\<lparr>first_free_page_no := F\<rparr>\<rparr>, s') = rm_len (h, s)"
  by (simp_all add: rm_valid_def rm_len_def fun_eq_iff)

interpretation rm: table_store rm_insert_record_at rm_delete_record rm_update_record rm_tab rm_ready rm_valid rm_at_ok rm_len
proof unfold_locales
  fix st :: rm_state and r
  assume a: "rm_ready st" "rm_tab st r \<noteq> None"
  obtain h s where st: "st = (h, s)" by (cases st)
  have i: "rm_inv h s" "rm_room s" "rm_contents h s r \<noteq> None" using a by (simp_all add: st rm_ready_def rm_tab_def)
  obtain F s' where d: "rm_delete_record (h, s) r = (Inr (), (h\<lparr>rm_hdr := (rm_hdr h)\<lparr>first_free_page_no := F\<rparr>\<rparr>, s'))"
    "rm_inv (h\<lparr>rm_hdr := (rm_hdr h)\<lparr>first_free_page_no := F\<rparr>\<rparr>) s'" "bp.same_use s s'"
    "rm_contents (h\<lparr>rm_hdr := (rm_hdr h)\<lparr>first_free_page_no := F\<rparr>\<rparr>) s' = (rm_contents h s)(r := None)"
    "insert_at_ok (h\<lparr>rm_hdr := (rm_hdr h)\<lparr>first_free_page_no := F\<rparr>\<rparr>) s' r"
    by (rule rm_delete_record_ok [OF i(1,3,2)])
  then show "\<exists>s'. rm_delete_record st r = (Inr (), s') \<and> rm_ready s' \<and> rm_tab s' = (rm_tab st)(r := None) \<and>
      rm_at_ok s' r \<and> rm_len s' = rm_len st \<and> rm_valid s' = rm_valid st"
    using rm_room_same [OF d(3) i(2)] by (simp add: st rm_ready_def rm_tab_def rm_at_ok_def)
next
  fix st :: rm_state and r and b :: bytes
  assume a: "rm_ready st" "rm_valid st r" "rm_at_ok st r" "length b = rm_len st"
  obtain h s where st: "st = (h, s)" by (cases st)
  have i: "rm_inv h s" "page_range h (page_no r)" "slot_ok (rm_hdr h) (slot_no r)" "rm_room s"
    "length b = nat (record_size (rm_hdr h))" "insert_at_ok h s r"
    using a by (simp_all add: st rm_ready_def rm_valid_def rm_at_ok_def rm_len_def)
  obtain F s' where d: "rm_insert_record_at (h, s) r b = (Inr (), (h\<lparr>rm_hdr := (rm_hdr h)\<lparr>first_free_page_no := F\<rparr>\<rparr>, s'))"
    "rm_inv (h\<lparr>rm_hdr := (rm_hdr h)\<lparr>first_free_page_no := F\<rparr>\<rparr>) s'" "bp.same_use s s'"
    "rm_contents (h\<lparr>rm_hdr := (rm_hdr h)\<lparr>first_free_page_no := F\<rparr>\<rparr>) s' = (rm_contents h s)(r \<mapsto> b)"
    by (rule rm_insert_record_at_ok [OF i])
  then show "\<exists>s'. rm_insert_record_at st r b = (Inr (), s') \<and> rm_ready s' \<and> rm_tab s' = (rm_tab st)(r \<mapsto> b) \<and>
      rm_len s' = rm_len st \<and> rm_valid s' = rm_valid st"
    using rm_room_same [OF d(3) i(4)] by (simp add: st rm_ready_def rm_tab_def)
next
  fix st :: rm_state and r and b :: bytes
  assume a: "rm_ready st" "rm_tab st r \<noteq> None" "length b = rm_len st"
  obtain h s where st: "st = (h, s)" by (cases st)
  obtain b0 where b0: "rm_contents h s r = Some b0" using a(2) by (auto simp: st rm_tab_def)
  have i: "rm_inv h s" "rm_room s" "length b = nat (record_size (rm_hdr h))"
    using a by (simp_all add: st rm_ready_def rm_len_def)
  note v = rm_contents_valid [OF i(1) b0]
  obtain s' where d: "rm_update_record (h, s) r b = (Inr (), (h, s'))" "rm_inv h s'" "bp.same_use s s'"
    "rm_contents h s' = (if rm_contents h s r = None then rm_contents h s else (rm_contents h s)(r \<mapsto> b))"
    by (rule rm_update_record_ok [OF i(1) v(1,2) i(2,3)])
  then show "\<exists>s'. rm_update_record st r b = (Inr (), s') \<and> rm_ready s' \<and> rm_tab s' = (rm_tab st)(r \<mapsto> b) \<and>
      rm_len s' = rm_len st \<and> rm_valid s' = rm_valid st"
    using rm_room_same [OF d(3) i(2)] b0 by (simp add: st rm_ready_def rm_tab_def rm_len_def rm_valid_def fun_eq_iff)
next
  fix st :: rm_state and r and b :: bytes
  assume "rm_ready st" "rm_tab st r = Some b"
  then show "rm_valid st r \<and> length b = rm_len st"
    using rm_contents_valid [of "fst st" "snd st" r b] by (simp add: rm_ready_def rm_tab_def rm_valid_def rm_len_def)
qed

section \<open>Properties\<close>

text \<open>An empty file of 8-byte records, and the file after one insertion.\<close>

definition sample_hdr :: rm_file_hdr where
  "sample_hdr = \<lparr>record_size = 8, num_pages = 1, num_records_per_page = rm_records_per_page 8,
     first_free_page_no = RM_NO_PAGE, bitmap_size = rm_bitmap_size (rm_records_per_page 8)\<rparr>"

definition sample_file :: rm_file where
  "sample_file = \<lparr>rm_fd = 3, rm_hdr = sample_hdr\<rparr>"

lemma sample_no_pages [simp]: "\<not> page_range sample_file p"
  by (auto simp: page_range_def sample_file_def sample_hdr_def)

lemma sample_file_inv: "rm_inv sample_file (sample_pool 4 1)"
proof -
  have "rm_free_ok sample_file (sample_pool 4 1)"
    by (rule rm_free_okI [where ps = "[]"]) (simp_all, simp add: sample_file_def sample_hdr_def)
  moreover have "hdr_ok (rm_hdr sample_file)" "num_pages (rm_hdr sample_file) = 1" "rm_fd sample_file = 3"
    by (simp_all add: sample_file_def sample_hdr_def hdr_ok_def RM_MAX_RECORD_SIZE_def)
  moreover have "fd2pageno (sample_disk 1) 3 = 1" by (simp add: sample_disk_def)
  ultimately show ?thesis by (simp add: rm_inv_def)
qed

lemma sample_file_can: "rm_can_insert sample_file (sample_pool 4 1)" "rm_room (sample_pool 4 1)"
  using sample_pool_room [of 4 1] sample_pool_fresh [of 1 4]
  by (simp_all add: rm_can_insert_def rm_room_def) (simp add: sample_file_def)

lemma sample_file_empty: "rm_contents sample_file s = Map.empty"
  by (rule ext) (simp add: rm_contents_def)

lemma sample_file_len: "record_size (rm_hdr sample_file) = 8"
  by (simp add: sample_file_def sample_hdr_def)

lemma sample_inserted:
  obtains r h s where "rm_inv h s" "rm_room s" "rm_contents h s = [r \<mapsto> replicate 8 7]" "record_size (rm_hdr h) = 8"
proof -
  obtain r h' s' where i: "rm_insert_record (sample_file, sample_pool 4 1) (replicate 8 7) = (Inr r, (h', s'))" "rm_inv h' s'"
    "rm_contents h' s' = (rm_contents sample_file (sample_pool 4 1))(r \<mapsto> replicate 8 7)"
    "pins s' = pins (sample_pool 4 1)" "length (pages s') = length (pages (sample_pool 4 1))"
    "record_size (rm_hdr h') = record_size (rm_hdr sample_file)"
    by (rule rm_insert_record_ok [OF sample_file_inv sample_file_can(1), of "replicate 8 7"]) (simp_all add: sample_file_len)
  have "rm_room s'" using i(4,5) sample_file_can(2) by (simp add: rm_room_def)
  then show ?thesis using that i(2,3,6) by (simp add: sample_file_empty sample_file_len)
qed

text \<open>
  C28. The layout \<^verbatim>\<open>create_file\<close> computes fits the page for every record size it accepts: the page
  header, the bitmap and all slots end within 4096 bytes, the bitmap has a bit for every slot,
  and there are at least seven slots.
\<close>

theorem rm_layout_fits:
  assumes "1 \<le> rs" and "rs \<le> RM_MAX_RECORD_SIZE"
  shows "let n = rm_records_per_page rs; b = rm_bitmap_size n in
           7 \<le> n \<and> n \<le> 8 * b \<and> int OFFSET_BITMAP + b + n * rs \<le> int PAGE_SIZE"
proof -
  have "n \<le> 8 * rm_bitmap_size n" for n by (simp add: rm_bitmap_size_def BITMAP_WIDTH_def)
  then show ?thesis
    using records_per_page_bounds [of rs] assms
    by (simp add: Let_def RM_MAX_RECORD_SIZE_def OFFSET_BITMAP_def OFFSET_PAGE_HDR_def PAGE_SIZE_def)
qed

theorem rm_layout_fits_witness:
  "int OFFSET_BITMAP + rm_bitmap_size (rm_records_per_page 512) + rm_records_per_page 512 * 512 \<le> int PAGE_SIZE"
  using rm_layout_fits [of 512] by (simp add: Let_def RM_MAX_RECORD_SIZE_def)

text \<open>
  C29. Inserting a record into a consistent file succeeds whenever a frame and, if no page has
  room, a new page can be had: the identifier returned was free, afterwards the table maps it to
  the record and is otherwise unchanged, the file is consistent, and no page stays pinned.
\<close>

theorem rm_insert_refines:
  assumes "rm_inv h s" and "rm_can_insert h s" and "length buf = nat (record_size (rm_hdr h))"
  shows "\<exists>r h' s'. rm_insert_record (h, s) buf = (Inr r, (h', s')) \<and> rm_inv h' s' \<and> rm_contents h s r = None \<and>
           rm_contents h' s' = (rm_contents h s)(r \<mapsto> buf) \<and> pins s' = pins s"
  by (rule rm_insert_record_ok [OF assms]) blast

theorem rm_insert_refines_witness:
  "\<exists>r h' s'. rm_insert_record (sample_file, sample_pool 4 1) (replicate 8 7) = (Inr r, (h', s')) \<and>
     rm_contents h' s' = [r \<mapsto> replicate 8 7]"
  using rm_insert_refines [OF sample_file_inv sample_file_can(1), of "replicate 8 7"]
  by (auto simp: sample_file_len sample_file_empty)

text \<open>
  C30. Deleting a record removes exactly that record from the table, keeps the file and its
  free-page list consistent, and re-inserting the old bytes at the same position restores the
  table: a deletion can always be undone.
\<close>

theorem rm_delete_refines:
  assumes "rm_inv h s" and "rm_room s" and "rm_contents h s r = Some b"
  shows "\<exists>h1 s1 h2 s2. rm_delete_record (h, s) r = (Inr (), (h1, s1)) \<and> rm_inv h1 s1 \<and>
           rm_contents h1 s1 = (rm_contents h s)(r := None) \<and>
           rm_insert_record_at (h1, s1) r b = (Inr (), (h2, s2)) \<and> rm_inv h2 s2 \<and> rm_contents h2 s2 = rm_contents h s"
proof -
  have a: "rm_ready (h, s)" "rm_tab (h, s) r = Some b" using assms by (simp_all add: rm_ready_def rm_tab_def)
  obtain st1 st2 where u: "rm_delete_record (h, s) r = (Inr (), st1)" "rm_insert_record_at st1 r b = (Inr (), st2)"
    "rm_ready st2" "rm_tab st2 = rm_tab (h, s)"
    using rm.undo_delete [OF a] by blast
  obtain st1' where "rm_delete_record (h, s) r = (Inr (), st1')" "rm_ready st1'" "rm_tab st1' = (rm_tab (h, s))(r := None)"
    using rm.del_spec [OF a(1), of r] a(2) by auto
  with u show ?thesis by (cases st1; cases st2) (auto simp: rm_ready_def rm_tab_def)
qed

theorem rm_delete_refines_witness:
  "\<exists>h s r h1 s1. rm_contents h s = [r \<mapsto> replicate 8 7] \<and> rm_delete_record (h, s) r = (Inr (), (h1, s1)) \<and>
     rm_contents h1 s1 = Map.empty"
proof -
  obtain r h s where i: "rm_inv h s" "rm_room s" "rm_contents h s = [r \<mapsto> replicate 8 7]" by (rule sample_inserted)
  from rm_delete_refines [OF i(1,2), of r "replicate 8 7"] i(3) show ?thesis by fastforce
qed

text \<open>
  Updating a record replaces its bytes and nothing else, reading it afterwards returns the
  new bytes, and updating it back restores the table.
\<close>

theorem rm_update_refines:
  assumes "rm_inv h s" and "rm_room s" and "rm_contents h s r = Some b" and "length b' = nat (record_size (rm_hdr h))"
  shows "\<exists>s1 s2 s3. rm_update_record (h, s) r b' = (Inr (), (h, s1)) \<and> rm_contents h s1 = (rm_contents h s)(r \<mapsto> b') \<and>
           rm_get_record h s1 r = (Inr b', s2) \<and> rm_contents h s2 = rm_contents h s1 \<and>
           rm_update_record (h, s2) r b = (Inr (), (h, s3)) \<and> rm_contents h s3 = rm_contents h s"
proof -
  note v = rm_contents_valid [OF assms(1,3)]
  obtain s1 where s1: "rm_update_record (h, s) r b' = (Inr (), (h, s1))" "rm_inv h s1" "bp.same_use s s1"
    "rm_contents h s1 = (rm_contents h s)(r \<mapsto> b')"
    by (rule rm_update_record_ok [OF assms(1) v(1,2) assms(2,4)]) (simp add: assms(3))
  obtain s2 where s2: "rm_get_record h s1 r = (Inr (get_slot (rm_hdr h) (the (rm_view h s1 (page_no r))) (slot_no r)), s2)"
    "rm_inv h s2" "rm_contents h s2 = rm_contents h s1" "bp.same_use s1 s2"
    by (rule rm_get_record_ok [OF s1(2) v(1) rm_room_same [OF s1(3) assms(2)]])
  obtain c where c: "rm_view h s1 (page_no r) = Some c" using rm_invD(7) [OF s1(2) v(1)] by blast
  have "get_slot (rm_hdr h) (the (rm_view h s1 (page_no r))) (slot_no r) = b'"
    using rm_contents_set [OF v(1,2) c] s1(4) c by (simp split: if_splits)
  moreover obtain s3 where "rm_update_record (h, s2) r b = (Inr (), (h, s3))"
    "rm_contents h s3 = (if rm_contents h s2 r = None then rm_contents h s2 else (rm_contents h s2)(r \<mapsto> b))"
    by (rule rm_update_record_ok [OF s2(2) v(1,2) rm_room_same [OF s2(4) rm_room_same [OF s1(3) assms(2)]] v(3)])
  ultimately show ?thesis using s1 s2 assms(3) by (auto simp: fun_upd_idem)
qed

theorem rm_update_refines_witness:
  "\<exists>h s r s1 s2. rm_update_record (h, s) r (replicate 8 9) = (Inr (), (h, s1)) \<and> rm_get_record h s1 r = (Inr (replicate 8 9), s2)"
proof -
  obtain r h s where i: "rm_inv h s" "rm_room s" "rm_contents h s = [r \<mapsto> replicate 8 7]" "record_size (rm_hdr h) = 8"
    by (rule sample_inserted)
  have "\<exists>s1 s2. rm_update_record (h, s) r (replicate 8 9) = (Inr (), (h, s1)) \<and> rm_get_record h s1 r = (Inr (replicate 8 9), s2)"
    using rm_update_refines [OF i(1,2), of r "replicate 8 7" "replicate 8 9"] i(3,4) by auto
  then show ?thesis by blast
qed

text \<open>
  C31. A scan is complete and exact: with as many rounds as there are records and one more, the
  loop over a scan returns the identifiers of all records of the table, each once and in the
  order of their positions, and leaves the table unchanged.
\<close>

theorem rm_scan_complete:
  assumes inv: "rm_inv h s" and room: "rm_room s" and fuel: "length (rm_rids h s) < k"
  shows "\<exists>s'. rm_scan_all k h s = (Inr (Some (rm_rids h s)), s') \<and> rm_inv h s' \<and> rm_contents h s' = rm_contents h s \<and>
           set (rm_rids h s) = dom (rm_contents h s) \<and> distinct (rm_rids h s)"
proof -
  obtain r s1 where n: "rm_scan_new h s = (Inr r, s1)" "same_file h s s1"
    "case rm_rids h s of [] \<Rightarrow> rm_scan_is_end r
     | x # xs \<Rightarrow> r = x \<and> rids_after h s x = xs \<and> page_range h (page_no x) \<and> slot_ok (rm_hdr h) (slot_no x)"
    using scan_new_ok [OF inv room] by blast
  have sets: "set (rm_rids h s) = dom (rm_contents h s)" "distinct (rm_rids h s)"
    by (rule set_rm_rids [OF inv], rule distinct_rm_rids)
  obtain k' where k: "k = Suc k'" using fuel by (cases k) auto
  show ?thesis
  proof (cases "rm_rids h s")
    case Nil
    then have "rm_scan_all k h s = (Inr (Some []), s1)" using n k by (simp add: rm_scan_all_def)
    with n(2) Nil sets show ?thesis by (auto simp: same_file_def)
  next
    case (Cons x xs)
    have x: "r = x" "rids_after h s x = xs" "page_range h (page_no x)" "slot_ok (rm_hdr h) (slot_no x)"
      using n(3) Cons by simp_all
    have i1: "rm_inv h s1" using n(2) by (simp add: same_file_def)
    have a: "rids_after h s1 x = xs" using same_file_rids(3) [OF n(2) x(3)] x(2) by simp
    obtain s2 where "rm_scan_loop (Suc k') h s1 x = (Inr (Some (x # xs)), s2)" "same_file h s1 s2"
      using rm_scan_loop_ok [OF i1 same_file_room [OF n(2) room] x(3,4), of k'] a fuel Cons k by auto
    with n x k Cons same_file_trans [OF n(2)] sets show ?thesis by (auto simp: rm_scan_all_def same_file_def)
  qed
qed

theorem rm_scan_complete_witness:
  "\<exists>h s r s'. rm_contents h s = [r \<mapsto> replicate 8 7] \<and> rm_scan_all 2 h s = (Inr (Some [r]), s')"
proof -
  obtain r h s where i: "rm_inv h s" "rm_room s" "rm_contents h s = [r \<mapsto> replicate 8 7]" by (rule sample_inserted)
  have "set (rm_rids h s) = {r}" "distinct (rm_rids h s)" using set_rm_rids [OF i(1)] distinct_rm_rids i(3) by auto
  then have e: "rm_rids h s = [r]"
    by (cases "rm_rids h s"; cases "tl (rm_rids h s)") auto
  from rm_scan_complete [OF i(1,2), of 2] i(3) e show ?thesis by (auto simp: e)
qed

text \<open>\<^verbatim>\<open>get_record_count\<close> returns the number of records of the table.\<close>

lemma rm_count_correct:
  assumes "rm_inv h s" and "rm_room s"
  shows "\<exists>s'. rm_get_record_count h s = (Inr (int (card (dom (rm_contents h s)))), s') \<and> rm_inv h s' \<and>
           rm_contents h s' = rm_contents h s"
proof -
  have "card (dom (rm_contents h s)) = length (rm_rids h s)"
    using set_rm_rids [OF assms(1)] distinct_card [OF distinct_rm_rids] by metis
  moreover obtain s' where "rm_count_loop h s 1 0 = (Inr (int (length (rm_rids h s))), s')" "same_file h s s'"
    using rm_count_loop_ok [OF assms, of 1 0] by (auto simp: rm_rids_def)
  ultimately show ?thesis by (auto simp: rm_get_record_count_def RM_FIRST_RECORD_PAGE_def same_file_def)
qed

text \<open>
  The insertion executor's way of inserting: the position \<^verbatim>\<open>get_free_record\<close> names is free, and
  inserting at it adds exactly that record.
\<close>

lemma rm_reserve_insert:
  assumes "rm_inv h s" and "rm_can_insert h s" and "length buf = nat (record_size (rm_hdr h))"
  shows "\<exists>r h1 s1 h2 s2. rm_get_free_record (h, s) = (Inr r, (h1, s1)) \<and> rm_contents h1 s1 = rm_contents h s \<and>
           rm_contents h s r = None \<and> rm_insert_record_at (h1, s1) r buf = (Inr (), (h2, s2)) \<and> rm_inv h2 s2 \<and>
           rm_contents h2 s2 = (rm_contents h s)(r \<mapsto> buf)"
proof -
  obtain r h1 s1 where f: "rm_get_free_record (h, s) = (Inr r, (h1, s1))" "rm_inv h1 s1" "rm_contents h1 s1 = rm_contents h s"
    "rm_contents h s r = None" "page_range h1 (page_no r)" "slot_ok (rm_hdr h1) (slot_no r)"
    "first_free_page_no (rm_hdr h1) = page_no r" "pins s1 = pins s" "length (pages s1) = length (pages s)"
    "record_size (rm_hdr h1) = record_size (rm_hdr h)"
    by (rule rm_get_free_record_ok [OF assms(1,2)])
  have room: "rm_room s1" using assms(2) f(8,9) by (simp add: rm_can_insert_def rm_room_def)
  have at: "insert_at_ok h1 s1 r" using f(7) by (simp add: insert_at_ok_def Let_def)
  obtain F s2 where "rm_insert_record_at (h1, s1) r buf = (Inr (), (h1\<lparr>rm_hdr := (rm_hdr h1)\<lparr>first_free_page_no := F\<rparr>\<rparr>, s2))"
    "rm_inv (h1\<lparr>rm_hdr := (rm_hdr h1)\<lparr>first_free_page_no := F\<rparr>\<rparr>) s2"
    "rm_contents (h1\<lparr>rm_hdr := (rm_hdr h1)\<lparr>first_free_page_no := F\<rparr>\<rparr>) s2 = (rm_contents h1 s1)(r \<mapsto> buf)"
    by (rule rm_insert_record_at_ok [OF f(2,5,6) room _ at, of buf]) (use assms(3) f(10) in simp_all)
  with f show ?thesis by auto
qed

text \<open>
  Deleting at a position that holds no record, on the first page of the free list, when that page
  has one free slot: \<^verbatim>\<open>release_page_handle\<close> makes the page its own successor, and once the page is
  full every later insertion finds it at the head of the list and fails.
\<close>

lemma rm_delete_unset_loops:
  assumes inv: "rm_inv h s" and room: "rm_room s" and p: "first_free_page_no (rm_hdr h) = page_no r" "page_range h (page_no r)"
    and i: "slot_ok (rm_hdr h) (slot_no r)" and c: "rm_view h s (page_no r) = Some c"
    and free: "\<not> bm_is_set c OFFSET_BITMAP (slot_no r)" "used (rm_hdr h) c = num_records_per_page (rm_hdr h) - 1"
    and next_p: "ph_next_free c \<noteq> page_no r"
  shows "\<exists>h' s'. rm_delete_record (h, s) r = (Inr (), (h', s')) \<and> first_free_page_no (rm_hdr h') = page_no r \<and>
           page_next h' s' (page_no r) = page_no r"
proof -
  have ok: "length c = PAGE_SIZE" "ph_num_records c = num_records_per_page (rm_hdr h) - 1"
    using rm_invD(7) [OF inv p(2)] c free(2) by (auto simp: rm_page_ok_def)
  let ?c = "ph_set_next_free c (page_no r)"
  have l: "length ?c = PAGE_SIZE" using ok(1) by (simp add: page_simps)
  obtain f s1 s2 where u: "rm_fetch_page_handle h s (page_no r) = (Inr f, s1)" "pg_data (frame s1 f) = c"
    "pg_id (frame s1 f) = rm_pid h (page_no r)" "\<And>x. pg_id (frame (bpm_store s1 f x) f) = rm_pid h (page_no r)"
    "bpm_unpin_page (bpm_store s1 f ?c) (rm_pid h (page_no r)) True = (True, s2)" "rm_view h s2 (page_no r) = Some ?c"
    by (rule rm_update_page [OF inv p(2) room c l]) blast
  have pp: "ppage (rm_pid h (page_no r)) = page_no r" by (simp add: rm_pid_def)
  have e: "(rm_hdr h)\<lparr>first_free_page_no := page_no r\<rparr> = rm_hdr h" using p(1) by (cases "rm_hdr h") simp
  have rel: "rm_release_page_handle (rm_hdr h) (page_no r) c = (rm_hdr h, ?c)"
    using ok(2) p(1) next_p e by (simp add: rm_release_page_handle_def)
  have "rm_delete_record (h, s) r = (Inr (), (h, s2))"
    using u free(1) ok(2) rel by (simp add: rm_delete_record_def pp)
  moreover have "wrap32 (page_no r) = page_no r"
    using page_range_int [OF inv p(2)] by (intro wrap32_id) (auto simp: int_range_def)
  ultimately show ?thesis using p(1) u(6) ok(1) by (auto simp: page_next_def page_simps)
qed

end
