(* ===== verification/Rm_Manager.thy ===== *)
theory Rm_Manager
  imports Rm_Store
begin

text \<open>
  Creating, opening and closing record files (\<^verbatim>\<open>src/src/record/rm_manager.h\<close>). A created file
  opens as an empty, consistent table.
\<close>

section \<open>Operations\<close>

definition rm_initial_hdr :: "int \<Rightarrow> rm_file_hdr" where
  "rm_initial_hdr rs =
     \<lparr>record_size = rs, num_pages = 1, num_records_per_page = rm_records_per_page rs,
      first_free_page_no = RM_NO_PAGE, bitmap_size = rm_bitmap_size (rm_records_per_page rs)\<rparr>"

definition rm_create_file :: "bpm \<Rightarrow> string \<Rightarrow> int \<Rightarrow> (unit, bpm) outcome" where
  "rm_create_file s name rs =
     (if rs < 1 \<or> rs > RM_MAX_RECORD_SIZE then (Inl (InvalidRecordSizeError rs), s)
      else (case dm_create_file (disk s) name of
              (Inl e, d1) \<Rightarrow> (Inl e, s\<lparr>disk := d1\<rparr>)
            | (Inr _, d1) \<Rightarrow>
                (case dm_open_file d1 name of
                   (Inl e, d2) \<Rightarrow> (Inl e, s\<lparr>disk := d2\<rparr>)
                 | (Inr fd, d2) \<Rightarrow>
                     (case dm_write_page d2 fd RM_FILE_HDR_PAGE (rm_hdr_bytes (rm_initial_hdr rs)) of
                        (Inl e, d3) \<Rightarrow> (Inl e, s\<lparr>disk := d3\<rparr>)
                      | (Inr _, d3) \<Rightarrow>
                          (case dm_close_file d3 fd of (r, d4) \<Rightarrow> (r, s\<lparr>disk := d4\<rparr>))))))"

definition rm_destroy_file :: "bpm \<Rightarrow> string \<Rightarrow> (unit, bpm) outcome" where
  "rm_destroy_file s name = (case dm_destroy_file (disk s) name of (r, d) \<Rightarrow> (r, s\<lparr>disk := d\<rparr>))"

definition rm_open_file :: "bpm \<Rightarrow> string \<Rightarrow> (rm_file, bpm) outcome" where
  "rm_open_file s name =
     (case dm_open_file (disk s) name of
        (Inl e, d) \<Rightarrow> (Inl e, s\<lparr>disk := d\<rparr>)
      | (Inr fd, d) \<Rightarrow> rm_file_open (s\<lparr>disk := d\<rparr>) fd)"

definition rm_close_file :: "rm_file \<Rightarrow> bpm \<Rightarrow> page_id list \<Rightarrow> (unit, bpm) outcome" where
  "rm_close_file h s ord =
     (case dm_write_page (disk s) (rm_fd h) RM_FILE_HDR_PAGE (rm_hdr_bytes (rm_hdr h)) of
        (Inl e, d) \<Rightarrow> (Inl e, s\<lparr>disk := d\<rparr>)
      | (Inr _, d) \<Rightarrow>
          (case bpm_flush_all_pages_fd (s\<lparr>disk := d\<rparr>) (rm_fd h) ord of
             (Inl e, s1) \<Rightarrow> (Inl e, s1)
           | (Inr _, s1) \<Rightarrow> (case dm_close_file (disk s1) (rm_fd h) of (r, d2) \<Rightarrow> (r, s1\<lparr>disk := d2\<rparr>))))"

section \<open>The header survives on disk\<close>

lemma get_int_append:
  "length xs = off \<Longrightarrow> length ys = 4 \<Longrightarrow> get_int (xs @ ys @ zs) off = dec_int ys"
  by (simp add: get_int_def mem_read_def)

lemma rm_hdr_roundtrip:
  assumes "int_range (record_size g)" "int_range (num_pages g)" "int_range (num_records_per_page g)"
    "int_range (first_free_page_no g)" "int_range (bitmap_size g)"
  shows "rm_hdr_of_bytes (rm_hdr_bytes g) = g"
proof -
  let ?a = "enc_int (record_size g)" and ?b = "enc_int (num_pages g)" and ?c = "enc_int (num_records_per_page g)"
    and ?d = "enc_int (first_free_page_no g)" and ?e = "enc_int (bitmap_size g)"
  have "get_int (rm_hdr_bytes g) 0 = record_size g" "get_int (rm_hdr_bytes g) 4 = num_pages g"
    "get_int (rm_hdr_bytes g) 8 = num_records_per_page g" "get_int (rm_hdr_bytes g) 12 = first_free_page_no g"
    "get_int (rm_hdr_bytes g) 16 = bitmap_size g"
    using get_int_append [of "[]" 0 ?a "?b @ ?c @ ?d @ ?e"] get_int_append [of ?a 4 ?b "?c @ ?d @ ?e"]
      get_int_append [of "?a @ ?b" 8 ?c "?d @ ?e"] get_int_append [of "?a @ ?b @ ?c" 12 ?d ?e]
      get_int_append [of "?a @ ?b @ ?c @ ?d" 16 ?e "[]"] assms
    by (simp_all add: rm_hdr_bytes_def dec_enc_int_range)
  then show ?thesis by (cases g) (simp add: rm_hdr_of_bytes_def)
qed

lemma initial_hdr_ok:
  assumes "1 \<le> rs" "rs \<le> RM_MAX_RECORD_SIZE"
  shows "hdr_ok (rm_initial_hdr rs)" "rm_hdr_of_bytes (rm_hdr_bytes (rm_initial_hdr rs)) = rm_initial_hdr rs"
proof -
  show ok: "hdr_ok (rm_initial_hdr rs)" using assms by (simp add: hdr_ok_def rm_initial_hdr_def)
  note d = hdr_okD [OF ok]
  have "0 \<le> num_records_per_page (rm_initial_hdr rs) * record_size (rm_initial_hdr rs)" using d(1,3) by simp
  then have "bitmap_size (rm_initial_hdr rs) \<le> 4096" using d(5) by linarith
  then show "rm_hdr_of_bytes (rm_hdr_bytes (rm_initial_hdr rs)) = rm_initial_hdr rs"
    using d assms by (intro rm_hdr_roundtrip) (auto simp: int_range_def rm_initial_hdr_def RM_NO_PAGE_def RM_MAX_RECORD_SIZE_def)
qed

section \<open>Disk states that extend another\<close>

text \<open>Every open file stays open under its descriptor with the same bytes.\<close>

definition disk_ext :: "disk_manager \<Rightarrow> disk_manager \<Rightarrow> bool" where
  "disk_ext d d' \<longleftrightarrow> dm_inv d' \<and> max_bytes (os d') = max_bytes (os d) \<and> fd2pageno d' = fd2pageno d \<and>
     (\<forall>fd ino. fd_inode (os d) fd = Some ino \<longrightarrow>
        fd_inode (os d') fd = Some ino \<and> inodes (os d') ino = inodes (os d) ino)"

lemma disk_ext_trans: "disk_ext d d1 \<Longrightarrow> disk_ext d1 d2 \<Longrightarrow> disk_ext d d2"
  unfolding disk_ext_def by metis

lemma disk_ext_page: "disk_ext d d' \<Longrightarrow> dm_page d fd p = Some c \<Longrightarrow> dm_page d' fd p = Some c"
  by (auto simp: disk_ext_def dm_page_def dm_file_def split: option.splits if_splits)

lemma disk_ext_addr: "disk_ext d d' \<Longrightarrow> addr_ok d fd p n \<Longrightarrow> addr_ok d' fd p n"
  by (auto simp: disk_ext_def addr_ok_def)

lemma bpm_ok_ext:
  assumes ok: "bpm_ok s" and ext: "disk_ext (disk s) d"
  shows "bpm_ok (s\<lparr>disk := d\<rparr>)"
proof -
  note inv = bpm_okD(1) [OF ok]
  have "frame_ok (s\<lparr>disk := d\<rparr>) f" if "f < length (pages s)" for f
    using bpm_inv_frame [OF inv that] disk_ext_page [OF ext] disk_ext_addr [OF ext] by (auto simp: frame_ok_def)
  then have "bpm_inv (s\<lparr>disk := d\<rparr>)"
    using ext bpm_inv_lru [OF inv] bpm_inv_distinct [OF inv] bpm_inv_free [OF inv] bpm_inv_evict [OF inv] bpm_inv_table [OF inv]
    by (intro bpm_invI) (simp_all add: disk_ext_def)
  then show ?thesis using ok ext by (simp add: bpm_ok_def disk_ext_def)
qed

lemma create_ext:
  assumes inv: "dm_inv d" and new: "names (os d) path = None"
  obtains d' where "dm_create_file d path = (Inr (), d')" "disk_ext d d'" "path2fd d' = path2fd d"
    "names (os d') path = Some (next_inode (os d))" "inodes (os d') (next_inode (os d)) = []"
proof -
  let ?n = "next_inode (os d)"
  let ?s1 = "(os d)\<lparr>names := (names (os d))(path \<mapsto> ?n), inodes := (inodes (os d))(?n := []), next_inode := Suc ?n\<rparr>"
  obtain fd s where al: "fd_alloc ?s1 ?n = (fd, s)" by (cases "fd_alloc ?s1 ?n")
  note a = fd_alloc_props [OF al]
  let ?d = "d\<lparr>os := fd_set s fd None\<rparr>"
  have res: "dm_create_file d path = (Inr (), ?d)"
    using new a(3) [of fd] by (simp add: dm_create_file_def dm_is_file_def sys_open_def Let_def al sys_close_def)
  have get: "fd_get (fd_set s fd None) x = fd_get (os d) x" for x
    using a(1) a(3) [of x] a(3) [of fd] by auto
  have inode: "fd_inode (fd_set s fd None) x = fd_inode (os d) x" for x using get by (simp add: fd_inode_def)
  have "dm_inv ?d" using dm_inv_create_file [OF inv, of path] res by simp
  moreover have "fd_inode (os d) x = Some ino \<Longrightarrow> ino \<noteq> ?n" for x ino using dm_inv_inode [OF inv] by force
  ultimately have "disk_ext d ?d" using a inode by (simp add: disk_ext_def)
  then show ?thesis by (rule that [OF res]) (use a in simp_all)
qed

lemma open_ext:
  assumes inv: "dm_inv d" and ex: "names (os d) path = Some ino" and closed: "path2fd d path = None"
  obtains fd d' where "dm_open_file d path = (Inr fd, d')" "disk_ext d d'" "fd_inode (os d) fd = None"
    "fd_inode (os d') fd = Some ino" "inodes (os d') = inodes (os d)" "fd2path d' fd = Some path" "names (os d') = names (os d)"
    "\<And>x. x \<noteq> fd \<Longrightarrow> fd_inode (os d') x = fd_inode (os d) x" "path2fd d' = (path2fd d)(path \<mapsto> fd)"
proof -
  obtain fd s where al: "fd_alloc (os d) ino = (fd, s)" by (cases "fd_alloc (os d) ino")
  note a = fd_alloc_props [OF al]
  let ?d = "d\<lparr>os := s, path2fd := (path2fd d)(path \<mapsto> fd), fd2path := (fd2path d)(fd \<mapsto> path)\<rparr>"
  have res: "dm_open_file d path = (Inr fd, ?d)" using ex closed by (simp add: dm_open_file_def sys_open_def al)
  have none: "fd_inode (os d) fd = None" using a(1) by (simp add: fd_inode_def)
  have inode: "fd_inode s x = (if x = fd then Some ino else fd_inode (os d) x)" for x by (simp add: fd_inode_def a(3))
  have "dm_inv ?d" using dm_inv_open_file [OF inv, of path] res by simp
  then have "disk_ext d ?d" using a inode none by (auto simp: disk_ext_def)
  then show ?thesis by (rule that [OF res]) (use a inode none in simp_all)
qed

lemma close_ext:
  assumes inv: "dm_inv d" and p: "fd2path d fd = Some path" and ext: "disk_ext d0 d" and new: "fd_inode (os d0) fd = None"
  obtains d' where "dm_close_file d fd = (Inr (), d')" "disk_ext d0 d'" "names (os d') = names (os d)"
    "inodes (os d') = inodes (os d)" "path2fd d' = (path2fd d)(path := None)"
proof -
  obtain f where f: "fd_get (os d) fd = Some f" using dm_inv_open [OF inv p] by blast
  let ?d = "d\<lparr>os := fd_set (os d) fd None, path2fd := (path2fd d)(path := None), fd2path := (fd2path d)(fd := None)\<rparr>"
  have res: "dm_close_file d fd = (Inr (), ?d)" by (simp add: dm_close_file_def p sys_close_def f)
  have inode: "fd_inode (fd_set (os d) fd None) x = (if x = fd then None else fd_inode (os d) x)" for x
    using f by (simp add: fd_inode_def)
  have "dm_inv ?d" using dm_inv_close_file [OF inv, of fd] res by simp
  then have "disk_ext d0 ?d" using ext new inode by (auto simp: disk_ext_def)
  then show ?thesis by (rule that [OF res]) simp_all
qed

section \<open>Creating and opening\<close>

lemma dm_read_prefix:
  assumes "fd_inode (os d) fd = Some ino" "n \<le> length (inodes (os d) ino)" "length buf = n"
  obtains s where "dm_read_page d fd 0 buf n = (take n (inodes (os d) ino), Inr (), d\<lparr>os := s\<rparr>)"
    "posix_same (os d) s" "inodes s = inodes (os d)"
proof -
  obtain f where f: "fd_get (os d) fd = Some f" "of_inode f = ino" using assms(1) by (auto simp: fd_inode_def)
  define s1 where "s1 = fd_set (os d) fd (Some (f\<lparr>of_offset := 0\<rparr>))"
  have off: "page_offset 0 = 0" by (simp add: page_offset_def wrap32_def)
  have l: "sys_lseek (os d) fd (page_offset 0) = (True, s1)" by (simp add: sys_lseek_def f off s1_def)
  have g1: "fd_get s1 fd = Some (f\<lparr>of_offset := 0\<rparr>)" using f by (simp add: s1_def)
  obtain s2 where r: "sys_read s1 fd n = (take n (inodes (os d) ino), s2)" and i: "inodes s2 = inodes (os d)"
    using f(2) by (simp add: sys_read_def g1 Let_def) (simp add: s1_def)
  have "posix_same (os d) s2"
    using posix_same_trans [of "os d" s1 s2] sys_lseek_same [of "os d" fd "page_offset 0"] sys_read_same [of s1 fd n]
    by (simp add: l r)
  then show ?thesis using that i assms by (simp add: dm_read_page_def l r mem_write_all)
qed

lemma write_new_ext:
  assumes ext: "disk_ext d0 d" and inv0: "dm_inv d0" and ino: "fd_inode (os d) fd = Some ino"
    and fresh: "\<And>x. fd_inode (os d0) x \<noteq> Some ino" and empty: "inodes (os d) ino = []"
    and len: "length bs = 20" "20 \<le> max_bytes (os d)"
  obtains s where "dm_write_page d fd RM_FILE_HDR_PAGE bs = (Inr (), d\<lparr>os := s\<rparr>)" "disk_ext d0 (d\<lparr>os := s\<rparr>)"
    "inodes s ino = bs" "names s = names (os d)" "posix_same (os d) s"
proof -
  have ad: "addr_ok d fd RM_FILE_HDR_PAGE (length bs)"
    using ino len by (simp add: addr_ok_def RM_FILE_HDR_PAGE_def)
  obtain s where w: "dm_write_page d fd RM_FILE_HDR_PAGE bs = (Inr (), d\<lparr>os := s\<rparr>)" "posix_same (os d) s"
    "inodes s = (inodes (os d))(ino := file_store (inodes (os d) ino) (nat RM_FILE_HDR_PAGE * PAGE_SIZE) bs)"
    by (rule dm_write_page_ok [OF ad ino]) blast
  have ne: "bs \<noteq> []" using len by auto
  have fs: "file_store [] 0 bs = bs" using ne by (simp add: file_store_def mem_write_def)
  have i: "inodes s ino = bs" using w(3) fs by (simp add: empty RM_FILE_HDR_PAGE_def)
  have "dm_inv (d\<lparr>os := s\<rparr>)" using dm_inv_same [OF w(2)] ext by (simp add: disk_ext_def)
  then have "disk_ext d0 (d\<lparr>os := s\<rparr>)"
    using ext w(2,3) fresh by (auto simp: disk_ext_def posix_same_def)
  then show ?thesis by (rule that [OF w(1)]) (use i w(2) in \<open>simp_all add: posix_same_def\<close>)
qed

lemma rm_create_file_ok:
  assumes ok: "bpm_ok s" and rs: "1 \<le> rs" "rs \<le> RM_MAX_RECORD_SIZE" and cap: "PAGE_SIZE \<le> max_bytes (os (disk s))"
    and new: "names (os (disk s)) name = None" "path2fd (disk s) name = None"
  obtains d ino where "rm_create_file s name rs = (Inr (), s\<lparr>disk := d\<rparr>)" "disk_ext (disk s) d"
    "names (os d) name = Some ino" "path2fd d name = None" "inodes (os d) ino = rm_hdr_bytes (rm_initial_hdr rs)"
proof -
  note inv = bpm_inv_dm [OF bpm_okD(1) [OF ok]]
  let ?n = "next_inode (os (disk s))"
  obtain d1 where d1: "dm_create_file (disk s) name = (Inr (), d1)" "disk_ext (disk s) d1" "path2fd d1 = path2fd (disk s)"
    "names (os d1) name = Some ?n" "inodes (os d1) ?n = []"
    by (rule create_ext [OF inv new(1)])
  have i1: "dm_inv d1" "path2fd d1 name = None" using d1(2,3) new(2) by (simp_all add: disk_ext_def)
  obtain fd d2 where d2: "dm_open_file d1 name = (Inr fd, d2)" "disk_ext d1 d2" "fd_inode (os d1) fd = None"
    "fd_inode (os d2) fd = Some ?n" "inodes (os d2) = inodes (os d1)" "fd2path d2 fd = Some name" "names (os d2) = names (os d1)"
    "path2fd d2 = (path2fd d1)(name \<mapsto> fd)"
    by (rule open_ext [OF i1(1) d1(4) i1(2)]) blast
  have fresh: "fd_inode (os (disk s)) x \<noteq> Some ?n" for x using dm_inv_inode [OF inv, of x ?n] by auto
  have e2: "disk_ext (disk s) d2" by (rule disk_ext_trans [OF d1(2) d2(2)])
  have m2: "20 \<le> max_bytes (os d2)" "inodes (os d2) ?n = []" using e2 cap d1(5) d2(5) by (simp_all add: disk_ext_def PAGE_SIZE_def)
  obtain t where t: "dm_write_page d2 fd RM_FILE_HDR_PAGE (rm_hdr_bytes (rm_initial_hdr rs)) = (Inr (), d2\<lparr>os := t\<rparr>)"
    "disk_ext (disk s) (d2\<lparr>os := t\<rparr>)" "inodes t ?n = rm_hdr_bytes (rm_initial_hdr rs)" "names t = names (os d2)"
    by (rule write_new_ext [OF e2 inv d2(4) fresh m2(2) length_rm_hdr_bytes m2(1)])
  have i3: "dm_inv (d2\<lparr>os := t\<rparr>)" "fd2path (d2\<lparr>os := t\<rparr>) fd = Some name" using t(2) d2(6) by (simp_all add: disk_ext_def)
  have n0: "fd_inode (os (disk s)) fd = None" using d1(2) d2(3) by (cases "fd_inode (os (disk s)) fd") (auto simp: disk_ext_def)
  obtain d4 where d4: "dm_close_file (d2\<lparr>os := t\<rparr>) fd = (Inr (), d4)" "disk_ext (disk s) d4" "names (os d4) = names t"
    "inodes (os d4) = inodes t" "path2fd d4 = (path2fd d2)(name := None)"
    by (rule close_ext [OF i3 t(2) n0]) auto
  have "rm_create_file s name rs = (Inr (), s\<lparr>disk := d4\<rparr>)"
    using rs d1(1) d2(1) t(1) d4(1) by (simp add: rm_create_file_def)
  then show ?thesis
    by (rule that) (use d4 t d2 d1 in simp_all)
qed

lemma rm_open_file_ok:
  assumes ok: "bpm_ok s" and ino: "names (os (disk s)) name = Some ino" and closed: "path2fd (disk s) name = None"
    and bytes: "inodes (os (disk s)) ino = rm_hdr_bytes g"
    and g: "hdr_ok g" "num_pages g = 1" "first_free_page_no g = RM_NO_PAGE" "rm_hdr_of_bytes (rm_hdr_bytes g) = g"
  obtains h s' where "rm_open_file s name = (Inr h, s')" "rm_inv h s'" "rm_contents h s' = Map.empty" "rm_hdr h = g"
proof -
  note inv = bpm_okD(1) [OF ok]
  obtain fd d where o: "dm_open_file (disk s) name = (Inr fd, d)" "disk_ext (disk s) d" "fd_inode (os (disk s)) fd = None"
    "fd_inode (os d) fd = Some ino" "inodes (os d) = inodes (os (disk s))"
    by (rule open_ext [OF bpm_inv_dm [OF inv] ino closed]) blast
  obtain t where t: "dm_read_page d fd 0 (replicate 20 0) 20 = (take 20 (inodes (os d) ino), Inr (), d\<lparr>os := t\<rparr>)"
    "posix_same (os d) t" "inodes t = inodes (os d)"
    by (rule dm_read_prefix [OF o(4), of 20 "replicate 20 0"]) (simp_all add: o(5) bytes)
  have hd: "rm_hdr_of_bytes (take 20 (inodes (os d) ino)) = g" using g(4) by (simp add: o(5) bytes)
  define dd where "dd = dm_set_fd2pageno (d\<lparr>os := t\<rparr>) fd 1"
  define h where "h = \<lparr>rm_fd = fd, rm_hdr = g\<rparr>"
  have res: "rm_open_file s name = (Inr h, s\<lparr>disk := dd\<rparr>)"
    using o(1) t(1) hd g(2) by (simp add: rm_open_file_def rm_file_open_def RM_FILE_HDR_PAGE_def Let_def h_def dd_def)
  have ext1: "disk_ext (disk s) (d\<lparr>os := t\<rparr>)"
    using o(2) t(2,3) dm_inv_same [OF t(2)] by (auto simp: disk_ext_def posix_same_def)
  have ok1: "bpm_ok (s\<lparr>disk := d\<lparr>os := t\<rparr>\<rparr>)" by (rule bpm_ok_ext [OF ok ext1])
  have un: "page_table s q = None" if "pfd q = fd" for q
    using bpm_inv_mapped_frame(7) [OF inv, of q] o(3) that by (cases "page_table s q") (auto simp: addr_ok_def)
  have same: "dm_page dd = dm_page (d\<lparr>os := t\<rparr>)" "addr_ok dd = addr_ok (d\<lparr>os := t\<rparr>)" "dm_inv dd = dm_inv (d\<lparr>os := t\<rparr>)"
    by (simp_all add: dd_def dm_set_fd2pageno_def dm_page_def dm_file_def addr_ok_def fun_eq_iff)
  have fo: "frame_ok (s\<lparr>disk := dd\<rparr>) f = frame_ok (s\<lparr>disk := d\<lparr>os := t\<rparr>\<rparr>) f" for f by (simp add: frame_ok_def same)
  have "bpm_inv (s\<lparr>disk := dd\<rparr>)"
    using bpm_okD(1) [OF ok1] fo by (simp add: bpm_inv_def same)
  moreover have "0 \<le> ppage q \<and> ppage q < fd2pageno dd (pfd q)" if q: "page_table s q = Some f" for q f
  proof -
    have "pfd q \<noteq> fd" using un [of q] q by auto
    then show ?thesis using bpm_okD(3) [OF ok1, of q f] q by (simp add: dd_def dm_set_fd2pageno_def)
  qed
  ultimately have ok2: "bpm_ok (s\<lparr>disk := dd\<rparr>)" using ok by (auto simp: bpm_ok_def)
  have np: "\<not> page_range h p" for p using g(2) by (auto simp: page_range_def h_def)
  have fr: "rm_free_ok h (s\<lparr>disk := dd\<rparr>)" by (rule rm_free_okI [where ps = "[]"]) (use np g(3) in \<open>simp_all add: h_def\<close>)
  have "rm_inv h (s\<lparr>disk := dd\<rparr>)"
    using ok2 fr np g un by (simp add: rm_inv_def) (simp add: h_def dd_def dm_set_fd2pageno_def rm_pid_def)
  then show ?thesis by (rule that [OF res]) (use np in \<open>auto simp: rm_contents_def h_def fun_eq_iff\<close>)
qed

text \<open>
  A file created with an accepted record size opens as an empty table with that record size,
  in a state that satisfies the invariant of record files; the pool keeps all its pages.
\<close>

theorem rm_create_open_empty:
  assumes "bpm_ok s" and "1 \<le> rs" and "rs \<le> RM_MAX_RECORD_SIZE" and "PAGE_SIZE \<le> max_bytes (os (disk s))"
    and "names (os (disk s)) name = None" and "path2fd (disk s) name = None"
  shows "\<exists>s1 h s2. rm_create_file s name rs = (Inr (), s1) \<and> rm_open_file s1 name = (Inr h, s2) \<and> rm_inv h s2 \<and>
           rm_contents h s2 = Map.empty \<and> record_size (rm_hdr h) = rs"
proof -
  obtain d ino where c: "rm_create_file s name rs = (Inr (), s\<lparr>disk := d\<rparr>)" "disk_ext (disk s) d"
    "names (os d) name = Some ino" "path2fd d name = None" "inodes (os d) ino = rm_hdr_bytes (rm_initial_hdr rs)"
    by (rule rm_create_file_ok [OF assms])
  note i = initial_hdr_ok [OF assms(2,3)]
  have ok1: "bpm_ok (s\<lparr>disk := d\<rparr>)" by (rule bpm_ok_ext [OF assms(1) c(2)])
  obtain h s2 where "rm_open_file (s\<lparr>disk := d\<rparr>) name = (Inr h, s2)" "rm_inv h s2" "rm_contents h s2 = Map.empty"
    "rm_hdr h = rm_initial_hdr rs"
    by (rule rm_open_file_ok [OF ok1, of name ino "rm_initial_hdr rs"])
       (use c i in \<open>simp_all add: rm_initial_hdr_def\<close>)
  with c(1) show ?thesis by (auto simp: rm_initial_hdr_def)
qed

theorem rm_create_open_empty_witness:
  "\<exists>s1 h s2. rm_create_file (sample_pool 4 1) ''u'' 16 = (Inr (), s1) \<and> rm_open_file s1 ''u'' = (Inr h, s2) \<and>
     rm_contents h s2 = Map.empty"
proof -
  have "names (os (sample_disk 1)) ''u'' = None" "path2fd (sample_disk 1) ''u'' = None" "PAGE_SIZE \<le> max_bytes (os (sample_disk 1))"
    by (simp_all add: sample_disk_def PAGE_SIZE_def)
  with rm_create_open_empty [OF sample_pool_ok, of 16 4 1 "''u''"] show ?thesis
    by (fastforce simp: RM_MAX_RECORD_SIZE_def)
qed

end
