(* ===== verification/Lock_Manager.thy ===== *)
theory Lock_Manager
  imports Rmdb_Prelude
begin

text \<open>
  The lock manager of \<^verbatim>\<open>src/src/transaction/concurrency/lock_manager.{h,cpp}\<close> and the lock
  identifiers of \<^verbatim>\<open>src/src/transaction/txn_defs.h\<close>: request queues with a group mode, the
  wait-die test, lock upgrades through a second queue, and the wake-ups \<^verbatim>\<open>unlock\<close> makes.

  Every operation runs under the latch of one request queue, so it is one atomic function on
  the state. A call that blocks on the condition variable returns \<open>LockWait\<close>; what the thread
  does once its request is granted is a function of its own (\<open>resume_grant\<close>,
  \<open>resume_upgrade\<close>). The step relation \<open>lm_step\<close> interleaves the calls, the resumptions and the
  releases of any number of transactions. Pointers to requests are modelled by the
  transaction that owns them: the invariant \<open>lm_inv\<close> shows that a queue never holds two
  requests of one transaction.
\<close>

section \<open>Lock modes\<close>

datatype lock_mode = SHARED | EXLUCSIVE | INTENTION_SHARED | INTENTION_EXCLUSIVE | S_IX

datatype group_lock_mode = NON_LOCK | IS_mode | IX_mode | S_mode | X_mode | SIX_mode

fun group_code :: "group_lock_mode \<Rightarrow> nat" where
  "group_code NON_LOCK = 0"
| "group_code IS_mode = 1"
| "group_code IX_mode = 2"
| "group_code S_mode = 3"
| "group_code X_mode = 4"
| "group_code SIX_mode = 5"

lemma group_code_inject [simp]: "group_code a = group_code b \<longleftrightarrow> a = b"
  by (cases a; cases b) simp_all

instantiation group_lock_mode :: linorder
begin

definition less_eq_group_lock_mode :: "group_lock_mode \<Rightarrow> group_lock_mode \<Rightarrow> bool" where
  "less_eq_group_lock_mode a b \<longleftrightarrow> group_code a \<le> group_code b"

definition less_group_lock_mode :: "group_lock_mode \<Rightarrow> group_lock_mode \<Rightarrow> bool" where
  "less_group_lock_mode a b \<longleftrightarrow> group_code a < group_code b"

instance
  by standard (auto simp: less_eq_group_lock_mode_def less_group_lock_mode_def)

end

text \<open>The compatibility matrix \<^verbatim>\<open>lock_matrix_\<close>, row by row.\<close>

definition lock_matrix :: "bool list list" where
  "lock_matrix =
    [[True, True, True, True, True, True],
     [True, True, True, True, False, True],
     [True, True, True, False, False, False],
     [True, True, False, True, False, False],
     [True, False, False, False, False, False],
     [True, True, False, False, False, False]]"

definition lock_compatible :: "group_lock_mode \<Rightarrow> group_lock_mode \<Rightarrow> bool" where
  "lock_compatible a b = lock_matrix ! group_code a ! group_code b"

fun get_group_lock_mode :: "lock_mode \<Rightarrow> group_lock_mode" where
  "get_group_lock_mode SHARED = S_mode"
| "get_group_lock_mode EXLUCSIVE = X_mode"
| "get_group_lock_mode INTENTION_SHARED = IS_mode"
| "get_group_lock_mode INTENTION_EXCLUSIVE = IX_mode"
| "get_group_lock_mode S_IX = SIX_mode"

section \<open>Lock identifiers, requests and queues\<close>

datatype lock_data_type = TABLE | RECORD

record lock_data_id =
  ld_fd :: int
  ld_rid :: rid
  ld_type :: lock_data_type

definition table_lock_id :: "int \<Rightarrow> lock_data_id" where
  "table_lock_id fd = \<lparr>ld_fd = fd, ld_rid = mk_rid (- 1) (- 1), ld_type = TABLE\<rparr>"

definition record_lock_id :: "int \<Rightarrow> rid \<Rightarrow> lock_data_id" where
  "record_lock_id fd r = \<lparr>ld_fd = fd, ld_rid = r, ld_type = RECORD\<rparr>"

record lock_request =
  lr_txn_id :: txn_id
  lr_lock_mode :: lock_mode
  lr_granted :: bool

definition new_lock_request :: "txn_id \<Rightarrow> lock_mode \<Rightarrow> lock_request" where
  "new_lock_request t m = \<lparr>lr_txn_id = t, lr_lock_mode = m, lr_granted = False\<rparr>"

record lock_queue =
  request_queue :: "lock_request list"
  upgrade_queue :: "lock_request list"
  group_mode :: group_lock_mode

definition empty_queue :: lock_queue where
  "empty_queue = \<lparr>request_queue = [], upgrade_queue = [], group_mode = NON_LOCK\<rparr>"

text \<open>
  The lock table, and the lock set each \<^verbatim>\<open>Transaction\<close> keeps. A request queue is created on
  first use and never removed.
\<close>

record lock_manager =
  lock_table :: "lock_data_id \<Rightarrow> lock_queue option"
  lock_set :: "txn_id \<Rightarrow> lock_data_id set"

definition lm_init :: lock_manager where
  "lm_init = \<lparr>lock_table = (\<lambda>_. None), lock_set = (\<lambda>_. {})\<rparr>"

datatype abort_reason = LOCK_ON_SHIRINKING | UPGRADE_CONFLICT | DEADLOCK_PREVENTION

text \<open>The text \<^verbatim>\<open>TransactionAbortException::GetInfo\<close> builds.\<close>

fun abort_info :: "txn_id \<Rightarrow> abort_reason \<Rightarrow> string" where
  "abort_info t LOCK_ON_SHIRINKING =
     ''Transaction '' @ to_string t @ '' aborted because it cannot request locks on SHRINKING phase'' @ [char_of (10::nat)]"
| "abort_info t UPGRADE_CONFLICT =
     ''Transaction '' @ to_string t @ '' aborted because another transaction is waiting for upgrading'' @ [char_of (10::nat)]"
| "abort_info t DEADLOCK_PREVENTION =
     ''Transaction '' @ to_string t @ '' aborted for deadlock prevention'' @ [char_of (10::nat)]"

text \<open>
  What a lock call does: return true, block on the condition variable for its request
  (\<open>WaitGrant\<close>) or for its upgrade (\<open>WaitUpgrade\<close>), throw
  \<^verbatim>\<open>TransactionAbortException\<close>, or dereference the null request of \<^verbatim>\<open>upgrade_lock_on_table\<close>.
\<close>

datatype lock_wait = WaitGrant lock_data_id | WaitUpgrade lock_data_id lock_mode

datatype lock_outcome = LockTrue | LockWait lock_wait | LockAbort txn_id abort_reason | LockCrash

section \<open>Operations\<close>

definition check_wait_die :: "lock_queue \<Rightarrow> txn_id \<Rightarrow> bool" where
  "check_wait_die q t = list_ex (\<lambda>r. lr_txn_id r < t) (request_queue q)"

definition get_lock_request_queue :: "lock_manager \<Rightarrow> lock_data_id \<Rightarrow> lock_queue" where
  "get_lock_request_queue lm i = (case lock_table lm i of None \<Rightarrow> empty_queue | Some q \<Rightarrow> q)"

definition put_queue :: "lock_data_id \<Rightarrow> lock_queue \<Rightarrow> lock_manager \<Rightarrow> lock_manager" where
  "put_queue i q lm = lm\<lparr>lock_table := (lock_table lm)(i := Some q)\<rparr>"

definition add_lock_set :: "txn_id \<Rightarrow> lock_data_id \<Rightarrow> lock_manager \<Rightarrow> lock_manager" where
  "add_lock_set t i lm = lm\<lparr>lock_set := (lock_set lm)(t := insert i (lock_set lm t))\<rparr>"

definition check_and_execute_lock ::
  "lock_data_id \<Rightarrow> lock_queue \<Rightarrow> lock_request \<Rightarrow> txn_id \<Rightarrow> group_lock_mode \<Rightarrow> lock_outcome \<times> lock_queue" where
  "check_and_execute_lock i q r t gm =
    (if \<not> lock_compatible (group_mode q) gm then
       (if check_wait_die q t then (LockAbort t DEADLOCK_PREVENTION, q)
        else (LockWait (WaitGrant i), q\<lparr>request_queue := request_queue q @ [r]\<rparr>))
     else (LockTrue, q\<lparr>request_queue := request_queue q @ [r\<lparr>lr_granted := True\<rparr>], group_mode := gm\<rparr>))"

text \<open>
  The part that follows the lock-set test in the six lock calls: find or create the queue,
  run \<^verbatim>\<open>check_and_execute_lock\<close>, and on return record the lock in the lock set.
\<close>

definition request_lock ::
  "lock_manager \<Rightarrow> txn_id \<Rightarrow> lock_data_id \<Rightarrow> lock_mode \<Rightarrow> lock_outcome \<times> lock_manager" where
  "request_lock lm t i m =
    (case check_and_execute_lock i (get_lock_request_queue lm i) (new_lock_request t m) t
            (get_group_lock_mode m) of
       (LockTrue, q) \<Rightarrow> (LockTrue, add_lock_set t i (put_queue i q lm))
     | (out, q) \<Rightarrow> (out, put_queue i q lm))"

text \<open>The first request of a transaction, and assignments through the pointer to it.\<close>

fun first_request :: "txn_id \<Rightarrow> lock_request list \<Rightarrow> lock_request option" where
  "first_request t [] = None"
| "first_request t (r # rs) = (if lr_txn_id r = t then Some r else first_request t rs)"

fun update_request :: "txn_id \<Rightarrow> (lock_request \<Rightarrow> lock_request) \<Rightarrow> lock_request list \<Rightarrow> lock_request list" where
  "update_request t f [] = []"
| "update_request t f (r # rs) = (if lr_txn_id r = t then f r # rs else r # update_request t f rs)"

fun erase_request :: "txn_id \<Rightarrow> lock_request list \<Rightarrow> lock_request list" where
  "erase_request t [] = []"
| "erase_request t (r # rs) = (if lr_txn_id r = t then rs else r # erase_request t rs)"

definition set_mode :: "lock_mode \<Rightarrow> lock_request \<Rightarrow> lock_request" where
  "set_mode m r = r\<lparr>lr_lock_mode := m, lr_granted := True\<rparr>"

definition upgrade_lock_on_record ::
  "lock_manager \<Rightarrow> txn_id \<Rightarrow> rid \<Rightarrow> int \<Rightarrow> lock_outcome \<times> lock_manager" where
  "upgrade_lock_on_record lm t rd fd =
    (let i = record_lock_id fd rd in
     case lock_table lm i of
       None \<Rightarrow> (LockCrash, lm)
     | Some q \<Rightarrow>
         (case first_request t (request_queue q) of
            None \<Rightarrow> (LockCrash, lm)
          | Some r \<Rightarrow>
              if lr_lock_mode r = EXLUCSIVE then (LockTrue, lm)
              else if check_wait_die q t then (LockAbort t DEADLOCK_PREVENTION, lm)
              else if length (request_queue q) = 1 then
                (LockTrue, put_queue i (q\<lparr>request_queue := update_request t (set_mode EXLUCSIVE) (request_queue q),
                   group_mode := X_mode\<rparr>) lm)
              else
                (LockWait (WaitUpgrade i EXLUCSIVE), put_queue i
                   (q\<lparr>upgrade_queue := upgrade_queue q @ [new_lock_request t EXLUCSIVE]\<rparr>) lm)))"

definition upgrade_lock_on_table ::
  "lock_manager \<Rightarrow> txn_id \<Rightarrow> int \<Rightarrow> lock_mode \<Rightarrow> lock_outcome \<times> lock_manager" where
  "upgrade_lock_on_table lm t fd m =
    (let i = table_lock_id fd in
     case lock_table lm i of
       None \<Rightarrow> (LockCrash, lm)
     | Some q \<Rightarrow>
         (case first_request t (request_queue q) of
            None \<Rightarrow> (LockCrash, lm)
          | Some r \<Rightarrow>
              if get_group_lock_mode (lr_lock_mode r) \<ge> get_group_lock_mode m then (LockTrue, lm)
              else if check_wait_die q t then (LockAbort t DEADLOCK_PREVENTION, lm)
              else if length (request_queue q) = 1
                      \<or> lock_compatible (group_mode q) (get_group_lock_mode m) then
                (LockTrue, put_queue i (q\<lparr>request_queue := update_request t (set_mode m) (request_queue q),
                   group_mode := max (group_mode q) (get_group_lock_mode m)\<rparr>) lm)
              else
                (LockWait (WaitUpgrade i m), put_queue i
                   (q\<lparr>upgrade_queue := upgrade_queue q @ [new_lock_request t m]\<rparr>) lm)))"

definition lock_shared_on_table :: "lock_manager \<Rightarrow> txn_id \<Rightarrow> int \<Rightarrow> lock_outcome \<times> lock_manager" where
  "lock_shared_on_table lm t fd =
    (if table_lock_id fd \<in> lock_set lm t then upgrade_lock_on_table lm t fd SHARED
     else request_lock lm t (table_lock_id fd) SHARED)"

definition lock_exclusive_on_table :: "lock_manager \<Rightarrow> txn_id \<Rightarrow> int \<Rightarrow> lock_outcome \<times> lock_manager" where
  "lock_exclusive_on_table lm t fd =
    (if table_lock_id fd \<in> lock_set lm t then upgrade_lock_on_table lm t fd EXLUCSIVE
     else request_lock lm t (table_lock_id fd) EXLUCSIVE)"

definition lock_IS_on_table :: "lock_manager \<Rightarrow> txn_id \<Rightarrow> int \<Rightarrow> lock_outcome \<times> lock_manager" where
  "lock_IS_on_table lm t fd =
    (if table_lock_id fd \<in> lock_set lm t then upgrade_lock_on_table lm t fd INTENTION_SHARED
     else request_lock lm t (table_lock_id fd) INTENTION_SHARED)"

definition lock_IX_on_table :: "lock_manager \<Rightarrow> txn_id \<Rightarrow> int \<Rightarrow> lock_outcome \<times> lock_manager" where
  "lock_IX_on_table lm t fd =
    (if table_lock_id fd \<in> lock_set lm t then upgrade_lock_on_table lm t fd INTENTION_EXCLUSIVE
     else request_lock lm t (table_lock_id fd) INTENTION_EXCLUSIVE)"

text \<open>
  The record locks take the intention lock on the table first. When that call blocks, the
  record part runs after the thread is resumed.
\<close>

definition lock_shared_on_record ::
  "lock_manager \<Rightarrow> txn_id \<Rightarrow> rid \<Rightarrow> int \<Rightarrow> lock_outcome \<times> lock_manager" where
  "lock_shared_on_record lm t rd fd =
    (if record_lock_id fd rd \<in> lock_set lm t then (LockTrue, lm)
     else case lock_IS_on_table lm t fd of
       (LockTrue, lm') \<Rightarrow> request_lock lm' t (record_lock_id fd rd) SHARED
     | (out, lm') \<Rightarrow> (out, lm'))"

definition lock_exclusive_on_record ::
  "lock_manager \<Rightarrow> txn_id \<Rightarrow> rid \<Rightarrow> int \<Rightarrow> lock_outcome \<times> lock_manager" where
  "lock_exclusive_on_record lm t rd fd =
    (if record_lock_id fd rd \<in> lock_set lm t then upgrade_lock_on_record lm t rd fd
     else case lock_IX_on_table lm t fd of
       (LockTrue, lm') \<Rightarrow> request_lock lm' t (record_lock_id fd rd) EXLUCSIVE
     | (out, lm') \<Rightarrow> (out, lm'))"

text \<open>The code after the two \<^verbatim>\<open>cv_.wait\<close> calls, run once the waited-for request is granted.\<close>

definition resume_grant :: "lock_manager \<Rightarrow> txn_id \<Rightarrow> lock_data_id \<Rightarrow> lock_manager" where
  "resume_grant lm t i = add_lock_set t i lm"

definition resume_upgrade :: "lock_manager \<Rightarrow> txn_id \<Rightarrow> lock_data_id \<Rightarrow> lock_mode \<Rightarrow> lock_manager" where
  "resume_upgrade lm t i m =
    (let q = get_lock_request_queue lm i in
     put_queue i (q\<lparr>request_queue := update_request t (\<lambda>r. r\<lparr>lr_lock_mode := m\<rparr>) (request_queue q),
                    upgrade_queue := filter (\<lambda>u. lr_txn_id u \<noteq> t) (upgrade_queue q)\<rparr>) lm)"

text \<open>The loop of \<^verbatim>\<open>unlock\<close> that grants the waiting requests compatible with the group mode.\<close>

fun grant_compatible :: "group_lock_mode \<Rightarrow> lock_request list \<Rightarrow> group_lock_mode \<times> lock_request list" where
  "grant_compatible g [] = (g, [])"
| "grant_compatible g (r # rs) =
    (let cm = get_group_lock_mode (lr_lock_mode r) in
     if lock_compatible g cm then
       (let (g', rs') = grant_compatible (if cm > g then cm else g) rs
        in (g', r\<lparr>lr_granted := True\<rparr> # rs'))
     else (let (g', rs') = grant_compatible g rs in (g', r # rs')))"

definition grant_waiting :: "lock_queue \<Rightarrow> lock_queue" where
  "grant_waiting q =
    (case request_queue q of
       [] \<Rightarrow> q
     | r # rs \<Rightarrow>
         (let g = get_group_lock_mode (lr_lock_mode r) in
          if g = X_mode then q\<lparr>group_mode := g, request_queue := r\<lparr>lr_granted := True\<rparr> # rs\<rparr>
          else (let (g', rs') = grant_compatible g (r # rs)
                in q\<lparr>group_mode := g', request_queue := rs'\<rparr>)))"

definition grant_upgrade :: "lock_queue \<Rightarrow> lock_queue" where
  "grant_upgrade q =
    (case dropWhile (\<lambda>r. \<not> lr_granted r) (request_queue q) of
       [] \<Rightarrow> q
     | first_granted # rest \<Rightarrow>
         (case upgrade_queue q of
            [] \<Rightarrow> q
          | u # us \<Rightarrow>
              if lr_txn_id first_granted = lr_txn_id u \<and> \<not> list_ex lr_granted rest
              then q\<lparr>group_mode := get_group_lock_mode (lr_lock_mode u),
                      upgrade_queue := u\<lparr>lr_granted := True\<rparr> # us\<rparr>
              else q))"

definition unlock_queue :: "txn_id \<Rightarrow> lock_queue \<Rightarrow> lock_queue" where
  "unlock_queue t q =
    (let q1 = q\<lparr>request_queue := erase_request t (request_queue q)\<rparr> in
     if request_queue q1 = [] then q1\<lparr>group_mode := NON_LOCK\<rparr>
     else if \<not> list_ex lr_granted (request_queue q1) then grant_waiting q1
     else grant_upgrade q1)"

definition unlock :: "lock_manager \<Rightarrow> txn_id \<Rightarrow> lock_data_id \<Rightarrow> bool \<times> lock_manager" where
  "unlock lm t i =
    (case lock_table lm i of
       None \<Rightarrow> (False, lm)
     | Some q \<Rightarrow> (True, put_queue i (unlock_queue t q) lm))"

text \<open>One round of the release loop of \<^verbatim>\<open>commit\<close> and \<^verbatim>\<open>abort\<close>: unlock, then erase from the lock set.\<close>

definition release_lock :: "lock_manager \<Rightarrow> txn_id \<Rightarrow> lock_data_id \<Rightarrow> lock_manager" where
  "release_lock lm t i =
    (let lm' = snd (unlock lm t i) in lm'\<lparr>lock_set := (lock_set lm')(t := lock_set lm' t - {i})\<rparr>)"

section \<open>Interleaved transactions\<close>

text \<open>
  The calls of the public interface, the place a transaction's thread is at, and the events of
  the system. \<open>Pending\<close> is the point of a record lock call between the intention lock on the
  table and the request on the record: the two are separate critical sections.
\<close>

datatype lock_call =
    SharedTable int
  | ExclusiveTable int
  | ISTable int
  | IXTable int
  | SharedRecord rid int
  | ExclusiveRecord rid int

type_synonym lock_cont = "(lock_data_id \<times> lock_mode) option"

datatype lock_thread = Running | Pending lock_data_id lock_mode | Blocked lock_wait lock_cont | Crashed

record lm_state =
  lms :: lock_manager
  lpc :: "txn_id \<Rightarrow> lock_thread"

definition lm_start :: lm_state where
  "lm_start = \<lparr>lms = lm_init, lpc = (\<lambda>_. Running)\<rparr>"

datatype lm_event =
    ECall txn_id lock_call
  | ERecord txn_id
  | EResume txn_id
  | ERelease txn_id lock_data_id

fun call_lock :: "lock_manager \<Rightarrow> txn_id \<Rightarrow> lock_call \<Rightarrow> (lock_outcome \<times> lock_manager) \<times> lock_cont" where
  "call_lock lm t (SharedTable fd) = (lock_shared_on_table lm t fd, None)"
| "call_lock lm t (ExclusiveTable fd) = (lock_exclusive_on_table lm t fd, None)"
| "call_lock lm t (ISTable fd) = (lock_IS_on_table lm t fd, None)"
| "call_lock lm t (IXTable fd) = (lock_IX_on_table lm t fd, None)"
| "call_lock lm t (SharedRecord r fd) =
    (if record_lock_id fd r \<in> lock_set lm t then ((LockTrue, lm), None)
     else (lock_IS_on_table lm t fd, Some (record_lock_id fd r, SHARED)))"
| "call_lock lm t (ExclusiveRecord r fd) =
    (if record_lock_id fd r \<in> lock_set lm t then (upgrade_lock_on_record lm t r fd, None)
     else (lock_IX_on_table lm t fd, Some (record_lock_id fd r, EXLUCSIVE)))"

fun thread_after :: "lock_outcome \<Rightarrow> lock_cont \<Rightarrow> lock_thread" where
  "thread_after LockTrue None = Running"
| "thread_after LockTrue (Some (i, m)) = Pending i m"
| "thread_after (LockWait w) c = Blocked w c"
| "thread_after (LockAbort t r) c = Running"
| "thread_after LockCrash c = Crashed"

definition at_thread :: "lm_state \<Rightarrow> txn_id \<Rightarrow> lock_manager \<Rightarrow> lock_thread \<Rightarrow> lm_state" where
  "at_thread s t lm th = \<lparr>lms = lm, lpc = (lpc s)(t := th)\<rparr>"

definition granted_in :: "txn_id \<Rightarrow> lock_request list \<Rightarrow> bool" where
  "granted_in t rs = list_ex (\<lambda>r. lr_txn_id r = t \<and> lr_granted r) rs"

fun lm_exec :: "lm_event \<Rightarrow> lm_state \<Rightarrow> lm_state option" where
  "lm_exec (ECall t c) s =
    (case lpc s t of
       Running \<Rightarrow> (case call_lock (lms s) t c of ((out, lm), k) \<Rightarrow> Some (at_thread s t lm (thread_after out k)))
     | _ \<Rightarrow> None)"
| "lm_exec (ERecord t) s =
    (case lpc s t of
       Pending i m \<Rightarrow> (case request_lock (lms s) t i m of (out, lm) \<Rightarrow> Some (at_thread s t lm (thread_after out None)))
     | _ \<Rightarrow> None)"
| "lm_exec (EResume t) s =
    (case lpc s t of
       Blocked (WaitGrant i) k \<Rightarrow>
         (if granted_in t (request_queue (get_lock_request_queue (lms s) i))
          then Some (at_thread s t (resume_grant (lms s) t i) (thread_after LockTrue k)) else None)
     | Blocked (WaitUpgrade i m) k \<Rightarrow>
         (if granted_in t (upgrade_queue (get_lock_request_queue (lms s) i))
          then Some (at_thread s t (resume_upgrade (lms s) t i m) (thread_after LockTrue k)) else None)
     | _ \<Rightarrow> None)"
| "lm_exec (ERelease t i) s =
    (case lpc s t of
       Running \<Rightarrow> (if i \<in> lock_set (lms s) t then Some (at_thread s t (release_lock (lms s) t i) Running) else None)
     | _ \<Rightarrow> None)"

fun event_allowed :: "(lock_call \<Rightarrow> bool) \<Rightarrow> lm_event \<Rightarrow> bool" where
  "event_allowed P (ECall t c) = P c"
| "event_allowed P _ = True"

inductive lm_reachable :: "(lock_call \<Rightarrow> bool) \<Rightarrow> lm_state \<Rightarrow> bool" for P where
  lm_reachable_start: "lm_reachable P lm_start"
| lm_reachable_step: "\<lbrakk>lm_reachable P s; event_allowed P e; lm_exec e s = Some s'\<rbrakk> \<Longrightarrow> lm_reachable P s'"

fun lm_run :: "lm_event list \<Rightarrow> lm_state \<Rightarrow> lm_state option" where
  "lm_run [] s = Some s"
| "lm_run (e # es) s = (case lm_exec e s of None \<Rightarrow> None | Some s' \<Rightarrow> lm_run es s')"

lemma lm_run_reachable:
  "\<lbrakk>lm_reachable P s; list_all (event_allowed P) es; lm_run es s = Some s'\<rbrakk> \<Longrightarrow> lm_reachable P s'"
proof (induction es arbitrary: s)
  case (Cons e es)
  then obtain s1 where "lm_exec e s = Some s1" "lm_run es s1 = Some s'"
    by (auto split: option.splits)
  with Cons show ?case by (auto intro: lm_reachable_step)
qed simp

text \<open>The calls the rest of the system makes: table locks in shared or exclusive mode.\<close>

fun table_call :: "lock_call \<Rightarrow> bool" where
  "table_call (SharedTable fd) = True"
| "table_call (ExclusiveTable fd) = True"
| "table_call _ = False"

section \<open>Invariants\<close>

text \<open>
  The relation of a transaction to a lock, read off its thread and its lock set, and the
  structural invariant of a request queue under these relations.
\<close>

datatype lock_rel = Free | Held | WaitG | WaitU lock_mode

definition rel_of :: "lock_thread \<Rightarrow> lock_data_id set \<Rightarrow> lock_data_id \<Rightarrow> lock_rel" where
  "rel_of th ls i =
    (case th of
       Blocked (WaitGrant j) k \<Rightarrow> if j = i then WaitG else if i \<in> ls then Held else Free
     | Blocked (WaitUpgrade j m) k \<Rightarrow> if j = i then WaitU m else if i \<in> ls then Held else Free
     | _ \<Rightarrow> if i \<in> ls then Held else Free)"

abbreviation lock_rel_of :: "lm_state \<Rightarrow> lock_data_id \<Rightarrow> txn_id \<Rightarrow> lock_rel" where
  "lock_rel_of s i t \<equiv> rel_of (lpc s t) (lock_set (lms s) t) i"

abbreviation req_ids :: "lock_request list \<Rightarrow> txn_id set" where
  "req_ids rs \<equiv> lr_txn_id ` set rs"

definition queue_inv :: "(txn_id \<Rightarrow> lock_rel) \<Rightarrow> lock_queue \<Rightarrow> bool" where
  "queue_inv f q \<longleftrightarrow>
    distinct (map lr_txn_id (request_queue q)) \<and>
    (\<forall>t. t \<in> req_ids (request_queue q) \<longleftrightarrow> f t \<noteq> Free) \<and>
    (\<forall>r\<in>set (request_queue q). \<not> lr_granted r \<longrightarrow> f (lr_txn_id r) = WaitG) \<and>
    (\<forall>r\<in>set (request_queue q). lr_lock_mode r \<noteq> S_IX) \<and>
    distinct (map lr_txn_id (upgrade_queue q)) \<and>
    (\<forall>r\<in>set (upgrade_queue q). f (lr_txn_id r) = WaitU (lr_lock_mode r)) \<and>
    (\<forall>t m. f t = WaitU m \<longrightarrow> t \<in> req_ids (upgrade_queue q)) \<and>
    (if request_queue q = [] then group_mode q = NON_LOCK
     else list_ex lr_granted (request_queue q))"

fun cont_inv :: "lock_data_id set \<Rightarrow> lock_cont \<Rightarrow> bool" where
  "cont_inv ls None = True"
| "cont_inv ls (Some (i, m)) = (i \<notin> ls \<and> ld_type i = RECORD \<and> m \<noteq> S_IX)"

fun thread_inv :: "lock_thread \<Rightarrow> lock_data_id set \<Rightarrow> bool" where
  "thread_inv Running ls = True"
| "thread_inv (Pending i m) ls = cont_inv ls (Some (i, m))"
| "thread_inv (Blocked (WaitGrant i) k) ls =
    (i \<notin> ls \<and> cont_inv ls k \<and> (k \<noteq> None \<longrightarrow> ld_type i = TABLE))"
| "thread_inv (Blocked (WaitUpgrade i m) k) ls =
    (i \<in> ls \<and> m \<noteq> S_IX \<and> cont_inv ls k \<and> (k \<noteq> None \<longrightarrow> ld_type i = TABLE))"
| "thread_inv Crashed ls = False"

definition lm_inv :: "lm_state \<Rightarrow> bool" where
  "lm_inv s \<longleftrightarrow>
    (\<forall>i. queue_inv (lock_rel_of s i) (get_lock_request_queue (lms s) i)) \<and>
    (\<forall>t. thread_inv (lpc s t) (lock_set (lms s) t))"

text \<open>The invariant of the modes when only shared and exclusive locks are requested.\<close>

definition mode_inv :: "lock_queue \<Rightarrow> bool" where
  "mode_inv q \<longleftrightarrow>
    (\<forall>r\<in>set (request_queue q). lr_lock_mode r = SHARED \<or> lr_lock_mode r = EXLUCSIVE) \<and>
    (\<forall>r\<in>set (upgrade_queue q). lr_lock_mode r = EXLUCSIVE) \<and>
    group_mode q \<in> {NON_LOCK, S_mode, X_mode} \<and>
    (group_mode q = NON_LOCK \<longrightarrow> request_queue q = []) \<and>
    (\<forall>r\<in>set (request_queue q). lr_granted r \<and> lr_lock_mode r = EXLUCSIVE \<longrightarrow> group_mode q = X_mode) \<and>
    (group_mode q = X_mode \<longrightarrow>
      (\<forall>r\<in>set (request_queue q). \<forall>r'\<in>set (request_queue q). lr_granted r \<and> lr_granted r' \<longrightarrow> r = r')) \<and>
    (\<forall>r\<in>set (upgrade_queue q). lr_granted r \<longrightarrow> group_mode q = X_mode)"

subsection \<open>Requests of one transaction\<close>

text \<open>With distinct transactions in a queue, acting on the first match is acting on every match.\<close>

lemma update_request_map:
  "distinct (map lr_txn_id rs) \<Longrightarrow> update_request t f rs = map (\<lambda>r. if lr_txn_id r = t then f r else r) rs"
proof (induction rs)
  case (Cons r rs)
  have "map (\<lambda>r. if lr_txn_id r = t then f r else r) rs = rs" if "t \<notin> req_ids rs"
    using that by (induction rs) auto
  with Cons show ?case by auto
qed simp

lemma erase_request_filter:
  "distinct (map lr_txn_id rs) \<Longrightarrow> erase_request t rs = filter (\<lambda>r. lr_txn_id r \<noteq> t) rs"
proof (induction rs)
  case (Cons r rs)
  have "filter (\<lambda>r. lr_txn_id r \<noteq> t) rs = rs" if "t \<notin> req_ids rs"
    using that by (induction rs) auto
  with Cons show ?case by auto
qed simp

lemma first_request_None: "first_request t rs = None \<longleftrightarrow> t \<notin> req_ids rs"
  by (induction rs) auto

lemma first_request_Some: "first_request t rs = Some r \<Longrightarrow> r \<in> set rs \<and> lr_txn_id r = t"
  by (induction rs) (auto split: if_splits)

lemma update_request_ids [simp]:
  "(\<And>r. lr_txn_id (f r) = lr_txn_id r) \<Longrightarrow> map lr_txn_id (update_request t f rs) = map lr_txn_id rs"
  by (induction rs) auto

lemma update_request_Nil [simp]: "update_request t f rs = [] \<longleftrightarrow> rs = []"
  by (cases rs) auto

lemma update_request_set:
  "distinct (map lr_txn_id rs) \<Longrightarrow>
   set (update_request t f rs) = (\<lambda>r. if lr_txn_id r = t then f r else r) ` set rs"
  by (simp add: update_request_map)

lemma update_request_granted:
  "(\<And>r. lr_granted r \<Longrightarrow> lr_granted (f r)) \<Longrightarrow> list_ex lr_granted rs \<Longrightarrow>
   list_ex lr_granted (update_request t f rs)"
  by (induction rs) auto

lemma same_request:
  "\<lbrakk>distinct (map lr_txn_id rs); r \<in> set rs; r' \<in> set rs; lr_txn_id r = lr_txn_id r'\<rbrakk> \<Longrightarrow> r = r'"
  by (auto simp: distinct_map dest: inj_onD)

lemma new_lock_request_sel [simp]:
  "lr_txn_id (new_lock_request t m) = t" "lr_lock_mode (new_lock_request t m) = m"
  "lr_granted (new_lock_request t m) = False"
  by (simp_all add: new_lock_request_def)

lemma set_mode_sel [simp]:
  "lr_txn_id (set_mode m r) = lr_txn_id r" "lr_lock_mode (set_mode m r) = m" "lr_granted (set_mode m r)"
  by (simp_all add: set_mode_def)

lemma empty_queue_sel [simp]:
  "request_queue empty_queue = []" "upgrade_queue empty_queue = []" "group_mode empty_queue = NON_LOCK"
  by (simp_all add: empty_queue_def)

lemma lock_compatible_NON_LOCK [simp]: "lock_compatible NON_LOCK m"
  by (cases m) (simp_all add: lock_compatible_def lock_matrix_def)

lemma lock_compatible_S_X [simp]:
  "lock_compatible S_mode S_mode" "\<not> lock_compatible S_mode X_mode"
  "\<not> lock_compatible X_mode S_mode" "\<not> lock_compatible X_mode X_mode"
  by (simp_all add: lock_compatible_def lock_matrix_def eval_nat_numeral)

lemma lock_compatible_refl:
  "m \<noteq> S_IX \<Longrightarrow> m \<noteq> EXLUCSIVE \<Longrightarrow> lock_compatible (get_group_lock_mode m) (get_group_lock_mode m)"
  by (cases m) (simp_all add: lock_compatible_def lock_matrix_def eval_nat_numeral)

lemma group_mode_X [simp]: "get_group_lock_mode m = X_mode \<longleftrightarrow> m = EXLUCSIVE"
  by (cases m) simp_all

subsection \<open>The grants unlock makes\<close>

abbreviation req_key :: "lock_request \<Rightarrow> txn_id \<times> lock_mode" where
  "req_key r \<equiv> (lr_txn_id r, lr_lock_mode r)"

lemma grant_compatible_keys:
  "map req_key (snd (grant_compatible g rs)) = map req_key rs"
  by (induction g rs rule: grant_compatible.induct) (simp_all add: Let_def split_beta)

lemma grant_compatible_new: "\<forall>r\<in>set (snd (grant_compatible g rs)). lr_granted r \<or> r \<in> set rs"
  by (induction rs arbitrary: g) (auto simp: Let_def split_beta)

lemma grant_compatible_shared:
  "\<forall>r\<in>set rs. lr_lock_mode r = SHARED \<or> lr_lock_mode r = EXLUCSIVE \<Longrightarrow>
   fst (grant_compatible S_mode rs) = S_mode \<and>
   (\<forall>r\<in>set (snd (grant_compatible S_mode rs)).
      (lr_granted r \<longrightarrow> lr_lock_mode r = SHARED \<or> r \<in> set rs) \<and>
      (\<exists>r'\<in>set rs. lr_lock_mode r = lr_lock_mode r'))"
proof (induction rs)
  case (Cons r rs)
  then have IH: "fst (grant_compatible S_mode rs) = S_mode \<and>
   (\<forall>r\<in>set (snd (grant_compatible S_mode rs)).
      (lr_granted r \<longrightarrow> lr_lock_mode r = SHARED \<or> r \<in> set rs) \<and>
      (\<exists>r'\<in>set rs. lr_lock_mode r = lr_lock_mode r'))" by auto
  consider "lr_lock_mode r = SHARED" | "lr_lock_mode r = EXLUCSIVE" using Cons.prems by auto
  then show ?case
    using IH by cases (auto simp: split_beta)
qed simp

text \<open>When no request is granted, the front one is granted.\<close>

lemma grant_waiting_front:
  assumes "request_queue q = r # rs" "lr_lock_mode r \<noteq> S_IX"
  obtains g rs' where "grant_waiting q = q\<lparr>group_mode := g, request_queue := r\<lparr>lr_granted := True\<rparr> # rs'\<rparr>"
    and "map req_key rs' = map req_key rs" "\<forall>r\<in>set rs'. lr_granted r \<or> r \<in> set rs"
proof (cases "lr_lock_mode r = EXLUCSIVE")
  case True
  show ?thesis
    by (rule that [where g = X_mode and rs' = rs]) (simp_all add: grant_waiting_def assms True Let_def)
next
  case False
  let ?g = "get_group_lock_mode (lr_lock_mode r)"
  have c: "lock_compatible ?g ?g" using lock_compatible_refl assms False by blast
  let ?G = "grant_compatible ?g rs"
  show ?thesis
    by (rule that [where g = "fst ?G" and rs' = "snd ?G"])
      (use grant_compatible_keys [of ?g rs] grant_compatible_new [of ?g rs] in
        \<open>simp_all add: grant_waiting_def assms False Let_def c split_beta\<close>)
qed

subsection \<open>Each operation on a queue keeps its structure\<close>

lemma queue_invD:
  assumes "queue_inv f q"
  shows "distinct (map lr_txn_id (request_queue q))" "distinct (map lr_txn_id (upgrade_queue q))"
    and "t \<in> req_ids (request_queue q) \<longleftrightarrow> f t \<noteq> Free"
    and "r \<in> set (request_queue q) \<Longrightarrow> \<not> lr_granted r \<Longrightarrow> f (lr_txn_id r) = WaitG"
    and "r \<in> set (request_queue q) \<Longrightarrow> lr_lock_mode r \<noteq> S_IX"
    and "r \<in> set (upgrade_queue q) \<Longrightarrow> f (lr_txn_id r) = WaitU (lr_lock_mode r)"
    and "f t = WaitU m \<Longrightarrow> t \<in> req_ids (upgrade_queue q)"
    and "request_queue q = [] \<Longrightarrow> group_mode q = NON_LOCK"
    and "request_queue q \<noteq> [] \<Longrightarrow> \<exists>r\<in>set (request_queue q). lr_granted r"
  using assms by (auto simp: queue_inv_def list_ex_iff split: if_splits)

lemma queue_inv_empty: "(\<And>t. f t = Free) \<Longrightarrow> queue_inv f empty_queue"
  by (simp add: queue_inv_def)

lemma queue_inv_enqueue:
  assumes "queue_inv f q" "f t = Free" "m \<noteq> S_IX" "\<not> lock_compatible (group_mode q) g"
  shows "queue_inv (f(t := WaitG)) (q\<lparr>request_queue := request_queue q @ [new_lock_request t m]\<rparr>)"
proof -
  have "request_queue q \<noteq> []" using assms by (auto simp: queue_inv_def split: if_splits)
  moreover have "t \<notin> req_ids (request_queue q)" "t \<notin> req_ids (upgrade_queue q)"
    using assms by (force simp: queue_inv_def)+
  ultimately show ?thesis using assms by (auto simp: queue_inv_def)
qed

lemma queue_inv_granted:
  assumes "queue_inv f q" "f t = Free" "m \<noteq> S_IX"
  shows "queue_inv (f(t := Held))
    (q\<lparr>request_queue := request_queue q @ [(new_lock_request t m)\<lparr>lr_granted := True\<rparr>], group_mode := g\<rparr>)"
proof -
  have "t \<notin> req_ids (request_queue q)" "t \<notin> req_ids (upgrade_queue q)"
    using assms by (force simp: queue_inv_def)+
  then show ?thesis using assms by (auto simp: queue_inv_def)
qed

lemma queue_inv_resume_grant:
  assumes "queue_inv f q" "f t = WaitG" "granted_in t (request_queue q)"
  shows "queue_inv (f(t := Held)) q"
proof -
  have 1: "lr_granted r" if "r \<in> set (request_queue q)" "lr_txn_id r = t" for r
    using assms that same_request by (auto simp: queue_inv_def granted_in_def list_ex_iff)
  have 2: "t \<notin> req_ids (upgrade_queue q)"
    using assms by (force simp: queue_inv_def)
  have 3: "t \<in> req_ids (request_queue q)" using assms by (force simp: queue_inv_def)
  show ?thesis using assms(1,2) 1 2 3 unfolding queue_inv_def
    by (auto simp: image_iff split: if_splits)
qed

lemma queue_inv_upgrade_in_place:
  assumes "queue_inv f q" "f t \<noteq> Free" "m \<noteq> S_IX"
  shows "queue_inv f (q\<lparr>request_queue := update_request t (set_mode m) (request_queue q), group_mode := g\<rparr>)"
proof -
  have d: "distinct (map lr_txn_id (request_queue q))" using assms by (simp add: queue_inv_def)
  have "req_ids (update_request t (set_mode m) (request_queue q)) = req_ids (request_queue q)"
    by (simp flip: set_map)
  moreover have "list_ex lr_granted (update_request t (set_mode m) (request_queue q))"
    if "list_ex lr_granted (request_queue q)"
    using that by (rule update_request_granted [rotated]) simp
  moreover have "request_queue q \<noteq> []" using assms by (force simp: queue_inv_def)
  ultimately show ?thesis using assms by (auto simp: queue_inv_def update_request_set)
qed

lemma queue_inv_upgrade_enqueue:
  assumes "queue_inv f q" "f t = Held"
  shows "queue_inv (f(t := WaitU m)) (q\<lparr>upgrade_queue := upgrade_queue q @ [new_lock_request t m]\<rparr>)"
proof -
  have "t \<in> req_ids (request_queue q)" "t \<notin> req_ids (upgrade_queue q)"
    using assms by (force simp: queue_inv_def)+
  then show ?thesis using assms unfolding queue_inv_def by (auto simp: image_iff split: if_splits)
qed

lemma queue_inv_resume_upgrade:
  assumes "queue_inv f q" "f t = WaitU m" "m \<noteq> S_IX"
  shows "queue_inv (f(t := Held))
    (q\<lparr>request_queue := update_request t (\<lambda>r. r\<lparr>lr_lock_mode := m\<rparr>) (request_queue q),
        upgrade_queue := filter (\<lambda>u. lr_txn_id u \<noteq> t) (upgrade_queue q)\<rparr>)"
proof -
  let ?g = "\<lambda>r::lock_request. r\<lparr>lr_lock_mode := m\<rparr>"
  have d: "distinct (map lr_txn_id (request_queue q))" using assms by (simp add: queue_inv_def)
  have "req_ids (update_request t ?g (request_queue q)) = req_ids (request_queue q)"
    by (simp flip: set_map)
  moreover have "list_ex lr_granted (update_request t ?g (request_queue q))"
    if "list_ex lr_granted (request_queue q)"
    using that by (rule update_request_granted [rotated]) simp
  moreover have "t \<in> req_ids (request_queue q)" using assms by (force simp: queue_inv_def)
  ultimately show ?thesis
    using assms by (auto simp: queue_inv_def update_request_set distinct_map_filter)
qed

lemma map_key_ids: "map req_key rs = map req_key rs' \<Longrightarrow> map lr_txn_id rs = map lr_txn_id rs'"
  by (drule arg_cong [where f = "map fst"]) (simp add: comp_def)

lemma map_key_ex:
  "map req_key rs = map req_key rs' \<Longrightarrow> r \<in> set rs \<Longrightarrow>
   \<exists>r'\<in>set rs'. lr_txn_id r' = lr_txn_id r \<and> lr_lock_mode r' = lr_lock_mode r"
proof -
  assume "map req_key rs = map req_key rs'" "r \<in> set rs"
  then have "req_key r \<in> set (map req_key rs')" by (simp flip: \<open>map req_key rs = map req_key rs'\<close>)
  then show ?thesis by auto
qed

text \<open>What remains of a queue after a request is erased, up to new grants.\<close>

lemma queue_inv_erased:
  assumes inv: "queue_inv f q" and t: "f t = Held"
    and rs: "map req_key rs = map req_key (filter (\<lambda>r. lr_txn_id r \<noteq> t) (request_queue q))"
    and new: "\<forall>r\<in>set rs. lr_granted r \<or> r \<in> set (request_queue q)"
    and us: "map req_key us = map req_key (upgrade_queue q)"
    and last: "if rs = [] then g = NON_LOCK else list_ex lr_granted rs"
  shows "queue_inv (f(t := Free)) \<lparr>request_queue = rs, upgrade_queue = us, group_mode = g\<rparr>"
proof -
  let ?rs = "filter (\<lambda>r. lr_txn_id r \<noteq> t) (request_queue q)"
  have ids: "req_ids rs = req_ids (request_queue q) - {t}"
    using arg_cong [OF map_key_ids [OF rs], of set] by auto
  have uids: "map lr_txn_id us = map lr_txn_id (upgrade_queue q)" by (rule map_key_ids [OF us])
  then have uset: "req_ids us = req_ids (upgrade_queue q)" by (metis set_map)
  have m: "lr_lock_mode r \<noteq> S_IX" if r: "r \<in> set rs" for r
    using map_key_ex [OF rs r] queue_invD(5) [OF inv] by auto
  have u: "f (lr_txn_id r) = WaitU (lr_lock_mode r)" if r: "r \<in> set us" for r
  proof -
    obtain r' where r': "r' \<in> set (upgrade_queue q)" "lr_txn_id r' = lr_txn_id r" "lr_lock_mode r' = lr_lock_mode r"
      using map_key_ex [OF us r] by blast
    show ?thesis using queue_invD(6) [OF inv r'(1)] r'(2,3) by simp
  qed
  have "t \<notin> req_ids rs" using ids by simp
  moreover have "t \<notin> req_ids us" using queue_invD(6) [OF inv] t uset by auto
  moreover have "distinct (map lr_txn_id rs)"
    using inv map_key_ids [OF rs] by (simp add: queue_inv_def distinct_map_filter)
  moreover have "f (lr_txn_id r) = WaitG" if "r \<in> set rs" "\<not> lr_granted r" for r
    using that new queue_invD(4) [OF inv] by auto
  moreover have "(s \<in> req_ids rs) = (s \<noteq> t \<and> f s \<noteq> Free)" "f s = WaitU m \<Longrightarrow> s \<in> req_ids us" for s m
    using ids uset queue_invD(3,7) [OF inv] by auto
  moreover have "distinct (map lr_txn_id us)" using inv uids by (simp add: queue_inv_def)
  ultimately show ?thesis
    using last u m unfolding queue_inv_def by (auto simp: image_iff)
qed

lemma grant_upgrade_cases:
  obtains "grant_upgrade q = q"
  | u us where "upgrade_queue q = u # us"
      "grant_upgrade q = q\<lparr>group_mode := get_group_lock_mode (lr_lock_mode u),
         upgrade_queue := u\<lparr>lr_granted := True\<rparr> # us\<rparr>"
      "\<And>r r'. \<lbrakk>r \<in> set (request_queue q); r' \<in> set (request_queue q); lr_granted r; lr_granted r'\<rbrakk> \<Longrightarrow> r = r'"
proof (cases "dropWhile (\<lambda>r. \<not> lr_granted r) (request_queue q)")
  case Nil
  have "grant_upgrade q = q" unfolding grant_upgrade_def Nil by simp
  then show ?thesis by (rule that(1))
next
  case (Cons fg rest)
  have split: "request_queue q = takeWhile (\<lambda>r. \<not> lr_granted r) (request_queue q) @ fg # rest"
    by (simp flip: Cons)
  have only: "r = fg" if "\<not> list_ex lr_granted rest" "r \<in> set (request_queue q)" "lr_granted r" for r
  proof -
    have "r \<in> set (takeWhile (\<lambda>r. \<not> lr_granted r) (request_queue q)) \<or> r = fg \<or> r \<in> set rest"
      using that(2) by (subst (asm) split) auto
    with that(1,3) show ?thesis by (auto simp: list_ex_iff dest: set_takeWhileD)
  qed
  show ?thesis
  proof (cases "upgrade_queue q")
    case Nil
    then show ?thesis using that(1) by (simp add: grant_upgrade_def Cons)
  next
    case (Cons u us)
    note q = \<open>dropWhile (\<lambda>r. \<not> lr_granted r) (request_queue q) = fg # rest\<close> Cons
    show ?thesis
    proof (cases "lr_txn_id fg = lr_txn_id u \<and> \<not> list_ex lr_granted rest")
      case True
      then show ?thesis using only q
        by (intro that(2) [of u us]) (simp_all add: grant_upgrade_def, blast)
    next
      case False
      have "grant_upgrade q = q" unfolding grant_upgrade_def q list.case if_not_P [OF False] ..
      then show ?thesis by (rule that(1))
    qed
  qed
qed

lemma queue_inv_unlock:
  assumes inv: "queue_inv f q" and t: "f t = Held"
  shows "queue_inv (f(t := Free)) (unlock_queue t q)"
proof -
  define rs where "rs = filter (\<lambda>r. lr_txn_id r \<noteq> t) (request_queue q)"
  define q1 where "q1 = q\<lparr>request_queue := rs\<rparr>"
  have d: "distinct (map lr_txn_id (request_queue q))" using inv by (simp add: queue_inv_def)
  have er: "q\<lparr>request_queue := erase_request t (request_queue q)\<rparr> = q1"
    by (simp add: q1_def rs_def erase_request_filter d)
  note E = queue_inv_erased [OF inv t, folded rs_def]
  consider "rs = []" | r rs0 where "rs = r # rs0" "\<not> list_ex lr_granted rs"
    | "rs \<noteq> []" "list_ex lr_granted rs" by (cases rs) auto
  then show ?thesis
  proof cases
    case 1
    then have "unlock_queue t q = q1\<lparr>group_mode := NON_LOCK\<rparr>"
      by (simp add: unlock_queue_def er Let_def) (simp add: q1_def)
    then show ?thesis using E [of rs "upgrade_queue q" NON_LOCK] 1 by (cases q) (simp add: q1_def)
  next
    case 2
    have m: "lr_lock_mode r \<noteq> S_IX" using 2(1) inv by (auto simp: rs_def queue_inv_def filter_eq_Cons_iff)
    obtain g rs' where g: "grant_waiting q1 = q1\<lparr>group_mode := g, request_queue := r\<lparr>lr_granted := True\<rparr> # rs'\<rparr>"
      "map req_key rs' = map req_key rs0" "\<forall>r\<in>set rs'. lr_granted r \<or> r \<in> set rs0"
      by (rule grant_waiting_front [of q1 r rs0]) (simp_all add: q1_def 2(1) m)
    have "set rs0 \<subseteq> set (request_queue q)" using arg_cong [OF 2(1), of set] by (auto simp: rs_def)
    then have "queue_inv (f(t := Free)) \<lparr>request_queue = r\<lparr>lr_granted := True\<rparr> # rs',
        upgrade_queue = upgrade_queue q, group_mode = g\<rparr>"
      using g(2,3) 2 by (intro E) auto
    moreover have "unlock_queue t q = grant_waiting q1"
      using 2 by (simp add: unlock_queue_def er Let_def) (simp add: q1_def)
    ultimately show ?thesis using g(1) by (cases q) (simp add: q1_def)
  next
    case 3
    have un: "unlock_queue t q = grant_upgrade q1"
      using 3 by (simp add: unlock_queue_def er Let_def) (simp add: q1_def)
    have sub: "set rs \<subseteq> set (request_queue q)" by (auto simp: rs_def)
    show ?thesis
    proof (rule grant_upgrade_cases [of q1])
      assume "grant_upgrade q1 = q1"
      then show ?thesis using E [of rs "upgrade_queue q" "group_mode q"] 3 sub un
        by (cases q) (auto simp: q1_def)
    next
      fix u us
      assume "upgrade_queue q1 = u # us" "grant_upgrade q1 = q1\<lparr>group_mode :=
        get_group_lock_mode (lr_lock_mode u), upgrade_queue := u\<lparr>lr_granted := True\<rparr> # us\<rparr>"
      then show ?thesis
        using E [of rs "u\<lparr>lr_granted := True\<rparr> # us" "get_group_lock_mode (lr_lock_mode u)"] 3 sub un
        by (cases q) (auto simp: q1_def)
    qed
  qed
qed

subsection \<open>The global invariant\<close>

lemma get_put_queue [simp]:
  "get_lock_request_queue (put_queue i q lm) j = (if j = i then q else get_lock_request_queue lm j)"
  "lock_set (put_queue i q lm) = lock_set lm"
  by (simp_all add: get_lock_request_queue_def put_queue_def)

lemma get_add_lock_set [simp]:
  "get_lock_request_queue (add_lock_set t i lm) j = get_lock_request_queue lm j"
  "lock_set (add_lock_set t i lm) = (lock_set lm)(t := insert i (lock_set lm t))"
  by (simp_all add: get_lock_request_queue_def add_lock_set_def)

lemma at_thread_sel [simp]:
  "lms (at_thread s t lm th) = lm" "lpc (at_thread s t lm th) = (lpc s)(t := th)"
  by (simp_all add: at_thread_def)

lemma lm_inv_at_thread:
  assumes inv: "lm_inv s"
    and "\<And>j. get_lock_request_queue lm j = (if j = i then q else get_lock_request_queue (lms s) j)"
    and "lock_set lm = (lock_set (lms s))(t := ls)"
    and "queue_inv ((lock_rel_of s i)(t := rel_of th ls i)) q"
    and "\<And>j. j \<noteq> i \<Longrightarrow> rel_of th ls j = lock_rel_of s j t"
    and "thread_inv th ls"
  shows "lm_inv (at_thread s t lm th)"
proof -
  have "lock_rel_of (at_thread s t lm th) j = (lock_rel_of s j)(t := rel_of th ls j)" for j
    by (auto simp: assms(3))
  moreover have "(lock_rel_of s j)(t := rel_of th ls j) = lock_rel_of s j" if "j \<noteq> i" for j
    using assms(5) [OF that] by auto
  ultimately show ?thesis
    using assms by (auto simp: lm_inv_def)
qed

fun active :: "lock_thread \<Rightarrow> bool" where
  "active Running = True"
| "active (Pending i m) = True"
| "active _ = False"

lemma rel_of_active [simp]: "active th \<Longrightarrow> rel_of th ls i = (if i \<in> ls then Held else Free)"
  by (cases th) (simp_all add: rel_of_def)

lemma active_after_true [simp]: "active (thread_after LockTrue k)"
  by (cases k) auto

lemma thread_inv_after_true: "cont_inv ls k \<Longrightarrow> thread_inv (thread_after LockTrue k) ls"
  by (cases k) auto

lemma rel_of_blocked [simp]:
  "rel_of (Blocked (WaitGrant i) k) ls j = (if j = i then WaitG else if j \<in> ls then Held else Free)"
  "rel_of (Blocked (WaitUpgrade i m) k) ls j = (if j = i then WaitU m else if j \<in> ls then Held else Free)"
  by (auto simp: rel_of_def)

lemma lm_inv_queue: "lm_inv s \<Longrightarrow> queue_inv (lock_rel_of s i) (get_lock_request_queue (lms s) i)"
  by (simp add: lm_inv_def)

lemma lm_inv_thread: "lm_inv s \<Longrightarrow> thread_inv (lpc s t) (lock_set (lms s) t)"
  by (simp add: lm_inv_def)

lemma request_lock_inv:
  assumes inv: "lm_inv s" and act: "active (lpc s t)" and i: "i \<notin> lock_set (lms s) t" and m: "m \<noteq> S_IX"
    and r: "request_lock (lms s) t i m = (out, lm)"
    and k: "cont_inv (insert i (lock_set (lms s) t)) k" "k \<noteq> None \<Longrightarrow> ld_type i = TABLE"
  shows "lm_inv (at_thread s t lm (thread_after out k))" and "out \<noteq> LockCrash"
proof -
  let ?q = "get_lock_request_queue (lms s) i" and ?ls = "lock_set (lms s) t"
  note Q = lm_inv_queue [OF inv, of i]
  have F: "lock_rel_of s i t = Free" using act i by simp
  have k': "cont_inv ?ls k" using k(1) by (cases k) auto
  consider (die) "out = LockAbort t DEADLOCK_PREVENTION" "lm = put_queue i ?q (lms s)"
    | (wait) "out = LockWait (WaitGrant i)" "\<not> lock_compatible (group_mode ?q) (get_group_lock_mode m)"
        "lm = put_queue i (?q\<lparr>request_queue := request_queue ?q @ [new_lock_request t m]\<rparr>) (lms s)"
    | (grant) "out = LockTrue" "lm = add_lock_set t i (put_queue i (?q\<lparr>request_queue := request_queue ?q @
        [(new_lock_request t m)\<lparr>lr_granted := True\<rparr>], group_mode := get_group_lock_mode m\<rparr>) (lms s))"
    using r by (auto simp: request_lock_def check_and_execute_lock_def split: if_splits)
  then have "lm_inv (at_thread s t lm (thread_after out k)) \<and> out \<noteq> LockCrash"
  proof cases
    case die
    have eq: "(lock_rel_of s i)(t := Free) = lock_rel_of s i" using F by auto
    show ?thesis
      by (intro conjI lm_inv_at_thread [OF inv, where i = i and q = ?q and ls = ?ls])
        (use Q act i eq die in auto)
  next
    case wait
    show ?thesis
      by (intro conjI lm_inv_at_thread [OF inv, where i = i and ls = ?ls
            and q = "?q\<lparr>request_queue := request_queue ?q @ [new_lock_request t m]\<rparr>"])
        (use queue_inv_enqueue [OF Q F m wait(2)] act i k k' wait in auto)
  next
    case grant
    show ?thesis
      by (intro conjI lm_inv_at_thread [OF inv, where i = i and ls = "insert i ?ls"
            and q = "?q\<lparr>request_queue := request_queue ?q @ [(new_lock_request t m)\<lparr>lr_granted := True\<rparr>],
              group_mode := get_group_lock_mode m\<rparr>"])
        (use queue_inv_granted [OF Q F m, of "get_group_lock_mode m"] act i
           thread_inv_after_true [OF k(1)] grant in auto)
  qed
  then show "lm_inv (at_thread s t lm (thread_after out k))" "out \<noteq> LockCrash" by auto
qed

text \<open>The two upgrade calls have the same shape: no change, an upgrade in place, or a wait.\<close>

lemma upgrade_shape_inv:
  assumes inv: "lm_inv s" and run: "active (lpc s t)" and i: "i \<in> lock_set (lms s) t" and m: "m \<noteq> S_IX"
    and k: "cont_inv (lock_set (lms s) t) k" "k \<noteq> None \<Longrightarrow> ld_type i = TABLE"
    and q: "q = get_lock_request_queue (lms s) i"
    and r: "(lm = lms s \<and> (out = LockTrue \<or> out = LockAbort t DEADLOCK_PREVENTION)) \<or>
      (out = LockTrue \<and> lm = put_queue i (q\<lparr>request_queue := update_request t (set_mode m) (request_queue q),
                   group_mode := g\<rparr>) (lms s)) \<or>
      (out = LockWait (WaitUpgrade i m) \<and>
        lm = put_queue i (q\<lparr>upgrade_queue := upgrade_queue q @ [new_lock_request t m]\<rparr>) (lms s))"
  shows "lm_inv (at_thread s t lm (thread_after out k))"
proof -
  let ?ls = "lock_set (lms s) t"
  have Q: "queue_inv (lock_rel_of s i) q" using lm_inv_queue [OF inv] q by simp
  have H: "lock_rel_of s i t = Held" using run i by simp
  have eq: "(lock_rel_of s i)(t := Held) = lock_rel_of s i" using H by auto
  consider "lm = lms s" "out = LockTrue \<or> out = LockAbort t DEADLOCK_PREVENTION"
    | "out = LockTrue" "lm = put_queue i (q\<lparr>request_queue := update_request t (set_mode m) (request_queue q),
                   group_mode := g\<rparr>) (lms s)"
    | "out = LockWait (WaitUpgrade i m)"
        "lm = put_queue i (q\<lparr>upgrade_queue := upgrade_queue q @ [new_lock_request t m]\<rparr>) (lms s)"
    using r by blast
  then show ?thesis
  proof cases
    case 1
    show ?thesis
      by (intro lm_inv_at_thread [OF inv, where i = i and q = q and ls = ?ls])
        (use 1 Q q i run eq thread_inv_after_true [OF k(1)] in auto)
  next
    case 2
    have "lock_rel_of s i t \<noteq> Free" using H by simp
    note Q2 = queue_inv_upgrade_in_place [OF Q this m, of g]
    show ?thesis
      by (intro lm_inv_at_thread [OF inv, where i = i and ls = ?ls
            and q = "q\<lparr>request_queue := update_request t (set_mode m) (request_queue q), group_mode := g\<rparr>"])
        (use 2 Q2 i run eq thread_inv_after_true [OF k(1)] in auto)
  next
    case 3
    show ?thesis
      by (intro lm_inv_at_thread [OF inv, where i = i and ls = ?ls
            and q = "q\<lparr>upgrade_queue := upgrade_queue q @ [new_lock_request t m]\<rparr>"])
        (use 3 queue_inv_upgrade_enqueue [OF Q H, of m] i run k m in auto)
  qed
qed

lemma held_request:
  assumes inv: "lm_inv s" and run: "active (lpc s t)" and i: "i \<in> lock_set (lms s) t"
  obtains q r where "lock_table (lms s) i = Some q" "get_lock_request_queue (lms s) i = q"
    "first_request t (request_queue q) = Some r" "r \<in> set (request_queue q)" "lr_txn_id r = t" "lr_granted r"
proof -
  let ?q = "get_lock_request_queue (lms s) i"
  have H: "lock_rel_of s i t = Held" using run i by simp
  then have ids: "t \<in> req_ids (request_queue ?q)" using queue_invD(3) [OF lm_inv_queue [OF inv]] by simp
  then obtain q where q: "lock_table (lms s) i = Some q"
    by (cases "lock_table (lms s) i") (auto simp: get_lock_request_queue_def)
  obtain r where r: "first_request t (request_queue ?q) = Some r"
    using ids first_request_None by (cases "first_request t (request_queue ?q)") auto
  have rs: "r \<in> set (request_queue ?q)" "lr_txn_id r = t" using first_request_Some [OF r] by auto
  have "lr_granted r" using queue_invD(4) [OF lm_inv_queue [OF inv] rs(1)] rs(2) H by auto
  then show ?thesis using that [OF q] q r rs by (simp add: get_lock_request_queue_def)
qed

lemma upgrade_table_inv:
  assumes inv: "lm_inv s" and run: "active (lpc s t)" and i: "table_lock_id fd \<in> lock_set (lms s) t"
    and m: "m \<noteq> S_IX" and k: "cont_inv (lock_set (lms s) t) k"
    and u: "upgrade_lock_on_table (lms s) t fd m = (out, lm)"
  shows "lm_inv (at_thread s t lm (thread_after out k))" and "out \<noteq> LockCrash"
proof -
  obtain q r where q: "lock_table (lms s) (table_lock_id fd) = Some q"
      "get_lock_request_queue (lms s) (table_lock_id fd) = q" "first_request t (request_queue q) = Some r"
    by (rule held_request [OF inv run i]) blast
  show "lm_inv (at_thread s t lm (thread_after out k))"
    by (rule upgrade_shape_inv [OF inv run i m k _ q(2) [symmetric],
          where g = "max (group_mode q) (get_group_lock_mode m)"])
      (use u q(1,3) in \<open>auto simp: upgrade_lock_on_table_def table_lock_id_def Let_def split: if_splits\<close>)
  show "out \<noteq> LockCrash"
    using u q(1,3) by (auto simp: upgrade_lock_on_table_def Let_def split: if_splits)
qed

lemma upgrade_record_inv:
  assumes inv: "lm_inv s" and run: "active (lpc s t)" and i: "record_lock_id fd rd \<in> lock_set (lms s) t"
    and u: "upgrade_lock_on_record (lms s) t rd fd = (out, lm)"
  shows "lm_inv (at_thread s t lm (thread_after out None))" and "out \<noteq> LockCrash"
proof -
  obtain q r where q: "lock_table (lms s) (record_lock_id fd rd) = Some q"
      "get_lock_request_queue (lms s) (record_lock_id fd rd) = q" "first_request t (request_queue q) = Some r"
    by (rule held_request [OF inv run i]) blast
  show "lm_inv (at_thread s t lm (thread_after out None))"
    by (rule upgrade_shape_inv [OF inv run i _ _ _ q(2) [symmetric], where g = X_mode and m = EXLUCSIVE])
      (use u q(1,3) in \<open>auto simp: upgrade_lock_on_record_def Let_def split: if_splits\<close>)
  show "out \<noteq> LockCrash"
    using u q(1,3) by (auto simp: upgrade_lock_on_record_def Let_def split: if_splits)
qed

text \<open>The four table calls: an upgrade if the lock set has the table, a request otherwise.\<close>

definition lock_table_mode :: "lock_manager \<Rightarrow> txn_id \<Rightarrow> int \<Rightarrow> lock_mode \<Rightarrow> lock_outcome \<times> lock_manager" where
  "lock_table_mode lm t fd m =
    (if table_lock_id fd \<in> lock_set lm t then upgrade_lock_on_table lm t fd m
     else request_lock lm t (table_lock_id fd) m)"

lemmas table_call_modes =
  lock_shared_on_table_def [folded lock_table_mode_def]
  lock_exclusive_on_table_def [folded lock_table_mode_def]
  lock_IS_on_table_def [folded lock_table_mode_def]
  lock_IX_on_table_def [folded lock_table_mode_def]

lemma lock_id_type [simp]:
  "ld_type (table_lock_id fd) = TABLE" "ld_type (record_lock_id fd r) = RECORD"
  "table_lock_id fd \<noteq> record_lock_id fd' r" "record_lock_id fd' r \<noteq> table_lock_id fd"
  "table_lock_id fd = table_lock_id fd' \<longleftrightarrow> fd = fd'"
  by (auto simp: table_lock_id_def record_lock_id_def)

lemma lock_table_mode_inv:
  assumes inv: "lm_inv s" and run: "active (lpc s t)" and m: "m \<noteq> S_IX"
    and k: "cont_inv (lock_set (lms s) t) k"
    and u: "lock_table_mode (lms s) t fd m = (out, lm)"
  shows "lm_inv (at_thread s t lm (thread_after out k)) \<and> out \<noteq> LockCrash"
proof (cases "table_lock_id fd \<in> lock_set (lms s) t")
  case True
  then show ?thesis using upgrade_table_inv [OF inv run True m k] u by (simp add: lock_table_mode_def)
next
  case False
  have "cont_inv (insert (table_lock_id fd) (lock_set (lms s) t)) k" using k by (cases k) auto
  then show ?thesis using request_lock_inv [OF inv run False m _] u False by (simp add: lock_table_mode_def)
qed

lemma call_lock_inv:
  assumes inv: "lm_inv s" and run: "lpc s t = Running" and c: "call_lock (lms s) t c = ((out, lm), k)"
  shows "lm_inv (at_thread s t lm (thread_after out k))"
proof -
  have a: "active (lpc s t)" using run by simp
  have L: "lm_inv (at_thread s t lm (thread_after out k))"
    if "lock_table_mode (lms s) t fd m = (out, lm)" "m \<noteq> S_IX" "cont_inv (lock_set (lms s) t) k" for m fd k
    using lock_table_mode_inv [OF inv a that(2,3,1)] by simp
  have same: "lm_inv (at_thread s t (lms s) Running)"
    by (rule lm_inv_at_thread [OF inv, where ls = "lock_set (lms s) t" and i = "table_lock_id 0"])
      (use lm_inv_queue [OF inv] in \<open>auto simp: run fun_upd_idem\<close>)
  show ?thesis
    using c upgrade_record_inv [OF inv a] same
    by (cases c) (auto simp: table_call_modes split: if_splits intro!: L)
qed

lemma resume_grant_inv:
  assumes inv: "lm_inv s" and th: "lpc s t = Blocked (WaitGrant i) k"
    and g: "granted_in t (request_queue (get_lock_request_queue (lms s) i))"
  shows "lm_inv (at_thread s t (resume_grant (lms s) t i) (thread_after LockTrue k))"
proof -
  let ?ls = "lock_set (lms s) t"
  have W: "lock_rel_of s i t = WaitG" by (simp add: th)
  have i: "i \<notin> ?ls" and k: "cont_inv (insert i ?ls) k"
    using lm_inv_thread [OF inv, of t] by (cases k; auto simp: th)+
  show ?thesis
    by (rule lm_inv_at_thread [OF inv, where i = i and ls = "insert i ?ls"
          and q = "get_lock_request_queue (lms s) i"])
      (use queue_inv_resume_grant [OF lm_inv_queue [OF inv] W g] i thread_inv_after_true [OF k] th in
        \<open>auto simp: resume_grant_def\<close>)
qed

lemma resume_upgrade_inv:
  assumes inv: "lm_inv s" and th: "lpc s t = Blocked (WaitUpgrade i m) k"
  shows "lm_inv (at_thread s t (resume_upgrade (lms s) t i m) (thread_after LockTrue k))"
proof -
  let ?ls = "lock_set (lms s) t" and ?q = "get_lock_request_queue (lms s) i"
  have W: "lock_rel_of s i t = WaitU m" by (simp add: th)
  have i: "i \<in> ?ls" and m: "m \<noteq> S_IX" and k: "cont_inv ?ls k"
    using lm_inv_thread [OF inv, of t] by (auto simp: th)
  show ?thesis
    by (rule lm_inv_at_thread [OF inv, where i = i and ls = ?ls
          and q = "?q\<lparr>request_queue := update_request t (\<lambda>r. r\<lparr>lr_lock_mode := m\<rparr>) (request_queue ?q),
                    upgrade_queue := filter (\<lambda>u. lr_txn_id u \<noteq> t) (upgrade_queue ?q)\<rparr>"])
      (use queue_inv_resume_upgrade [OF lm_inv_queue [OF inv] W m] i thread_inv_after_true [OF k] th in
        \<open>auto simp: resume_upgrade_def Let_def\<close>)
qed

lemma release_lock_inv:
  assumes inv: "lm_inv s" and th: "lpc s t = Running" and i: "i \<in> lock_set (lms s) t"
  shows "lm_inv (at_thread s t (release_lock (lms s) t i) Running)"
proof -
  let ?ls = "lock_set (lms s) t" and ?q = "get_lock_request_queue (lms s) i"
  have a: "active (lpc s t)" using th by simp
  have H: "lock_rel_of s i t = Held" using th i by simp
  obtain q where q: "lock_table (lms s) i = Some q" "?q = q"
    by (rule held_request [OF inv a i]) blast
  have rl: "get_lock_request_queue (release_lock (lms s) t i) j =
      (if j = i then unlock_queue t q else get_lock_request_queue (lms s) j)" for j
    by (simp add: release_lock_def unlock_def q Let_def get_lock_request_queue_def put_queue_def)
  have ls: "lock_set (release_lock (lms s) t i) = (lock_set (lms s))(t := ?ls - {i})"
    by (simp add: release_lock_def unlock_def q Let_def)
  have Q: "queue_inv (lock_rel_of s i) q" using lm_inv_queue [OF inv, of i] q(2) by simp
  show ?thesis
    by (rule lm_inv_at_thread [OF inv, where i = i, OF rl ls])
      (use queue_inv_unlock [OF Q H] th in auto)
qed

lemma lm_exec_inv:
  assumes inv: "lm_inv s" and e: "lm_exec e s = Some s'"
  shows "lm_inv s'"
proof (cases e)
  case (ECall t c)
  then have run: "lpc s t = Running" using e by (auto split: lock_thread.splits)
  show ?thesis
    using e call_lock_inv [OF inv run]
    by (cases "call_lock (lms s) t c") (auto simp: ECall run split: prod.splits)
next
  case (ERecord t)
  then obtain i m where p: "lpc s t = Pending i m" using e by (auto split: lock_thread.splits)
  have "i \<notin> lock_set (lms s) t" "m \<noteq> S_IX" using lm_inv_thread [OF inv, of t] by (auto simp: p)
  with e show ?thesis
    using request_lock_inv(1) [OF inv _ _ _ _, where k = None and t = t and i = i and m = m]
    by (cases "request_lock (lms s) t i m") (auto simp: ERecord p)
next
  case (EResume t)
  show ?thesis
    using e inv by (auto simp: EResume split: lock_thread.splits lock_wait.splits if_splits
        intro: resume_grant_inv resume_upgrade_inv simp del: thread_after.simps)
next
  case (ERelease t i)
  then show ?thesis using e inv by (auto split: lock_thread.splits if_splits intro: release_lock_inv)
qed

lemma lm_start_inv: "lm_inv lm_start"
  by (simp add: lm_inv_def lm_start_def lm_init_def get_lock_request_queue_def queue_inv_empty rel_of_def)

lemma lm_reachable_inv: "lm_reachable P s \<Longrightarrow> lm_inv s"
  by (induction rule: lm_reachable.induct) (auto intro: lm_start_inv lm_exec_inv)

subsection \<open>Shared and exclusive modes\<close>

lemma mode_invD:
  assumes "mode_inv q"
  shows "r \<in> set (request_queue q) \<Longrightarrow> lr_lock_mode r = SHARED \<or> lr_lock_mode r = EXLUCSIVE"
    and "r \<in> set (upgrade_queue q) \<Longrightarrow> lr_lock_mode r = EXLUCSIVE"
    and "group_mode q \<in> {NON_LOCK, S_mode, X_mode}"
    and "group_mode q = NON_LOCK \<Longrightarrow> request_queue q = []"
    and "\<lbrakk>r \<in> set (request_queue q); lr_granted r; lr_lock_mode r = EXLUCSIVE\<rbrakk> \<Longrightarrow> group_mode q = X_mode"
    and "\<lbrakk>group_mode q = X_mode; r \<in> set (request_queue q); r' \<in> set (request_queue q);
          lr_granted r; lr_granted r'\<rbrakk> \<Longrightarrow> r = r'"
    and "\<lbrakk>r \<in> set (upgrade_queue q); lr_granted r\<rbrakk> \<Longrightarrow> group_mode q = X_mode"
  using assms unfolding mode_inv_def by blast+

lemma mode_invI:
  assumes "\<And>r. r \<in> set (request_queue q) \<Longrightarrow> lr_lock_mode r = SHARED \<or> lr_lock_mode r = EXLUCSIVE"
    and "\<And>r. r \<in> set (upgrade_queue q) \<Longrightarrow> lr_lock_mode r = EXLUCSIVE"
    and "group_mode q \<in> {NON_LOCK, S_mode, X_mode}"
    and "group_mode q = NON_LOCK \<Longrightarrow> request_queue q = []"
    and "\<And>r. \<lbrakk>r \<in> set (request_queue q); lr_granted r; lr_lock_mode r = EXLUCSIVE\<rbrakk> \<Longrightarrow> group_mode q = X_mode"
    and "\<And>r r'. \<lbrakk>group_mode q = X_mode; r \<in> set (request_queue q); r' \<in> set (request_queue q);
          lr_granted r; lr_granted r'\<rbrakk> \<Longrightarrow> r = r'"
    and "\<And>r. \<lbrakk>r \<in> set (upgrade_queue q); lr_granted r\<rbrakk> \<Longrightarrow> group_mode q = X_mode"
  shows "mode_inv q"
  using assms unfolding mode_inv_def by blast

lemma mode_inv_empty: "mode_inv empty_queue"
  by (simp add: mode_inv_def)

lemma mode_inv_enqueue:
  "\<lbrakk>mode_inv q; m \<in> {SHARED, EXLUCSIVE}; \<not> lock_compatible (group_mode q) g\<rbrakk> \<Longrightarrow>
   mode_inv (q\<lparr>request_queue := request_queue q @ [new_lock_request t m]\<rparr>)"
  by (rule mode_invI) (auto dest: mode_invD)

text \<open>An upgrade request belongs to a granted request of the same queue.\<close>

lemma upgrade_owner:
  assumes "queue_inv f q" "u \<in> set (upgrade_queue q)"
  shows "\<exists>r\<in>set (request_queue q). lr_txn_id r = lr_txn_id u \<and> lr_granted r"
proof -
  have f: "f (lr_txn_id u) = WaitU (lr_lock_mode u)" by (rule queue_invD(6) [OF assms])
  then have "lr_txn_id u \<in> req_ids (request_queue q)" using queue_invD(3) [OF assms(1)] by simp
  then obtain r where "r \<in> set (request_queue q)" "lr_txn_id r = lr_txn_id u" by auto
  then show ?thesis using queue_invD(4) [OF assms(1)] f by force
qed

lemma mode_inv_granted:
  assumes m: "mode_inv q" and q: "queue_inv f q" and s: "m \<in> {SHARED, EXLUCSIVE}"
    and c: "lock_compatible (group_mode q) (get_group_lock_mode m)"
  shows "mode_inv (q\<lparr>request_queue := request_queue q @ [(new_lock_request t m)\<lparr>lr_granted := True\<rparr>],
    group_mode := get_group_lock_mode m\<rparr>)"
proof -
  have "group_mode q = NON_LOCK \<or> group_mode q = S_mode \<and> m = SHARED"
    using c mode_invD(3) [OF m] s by auto
  then show ?thesis
  proof
    assume "group_mode q = NON_LOCK"
    then have "request_queue q = []" by (rule mode_invD(4) [OF m])
    moreover from this have "upgrade_queue q = []"
      using upgrade_owner [OF q] by (cases "upgrade_queue q") auto
    ultimately show ?thesis using s by (auto simp: mode_inv_def)
  next
    assume g: "group_mode q = S_mode \<and> m = SHARED"
    then have "\<not> (lr_granted r \<and> lr_lock_mode r = EXLUCSIVE)" if "r \<in> set (request_queue q)" for r
      using mode_invD(5) [OF m that] by auto
    moreover have "\<not> lr_granted u" if "u \<in> set (upgrade_queue q)" for u
      using mode_invD(7) [OF m that] g by auto
    ultimately show ?thesis using g mode_invD(1,2) [OF m] by (auto simp: mode_inv_def)
  qed
qed

lemma mode_inv_upgrade_enqueue:
  "mode_inv q \<Longrightarrow> mode_inv (q\<lparr>upgrade_queue := upgrade_queue q @ [new_lock_request t EXLUCSIVE]\<rparr>)"
  by (rule mode_invI) (auto dest: mode_invD)

lemma mode_inv_single: "lr_txn_id r = t \<Longrightarrow> upgrade_queue q = [] \<Longrightarrow> request_queue q = [r] \<Longrightarrow>
   mode_inv (q\<lparr>request_queue := update_request t (set_mode EXLUCSIVE) (request_queue q), group_mode := X_mode\<rparr>)"
  by (simp add: mode_inv_def)

lemma mode_inv_resume_upgrade:
  assumes m: "mode_inv q" and q: "queue_inv f q" and u: "granted_in t (upgrade_queue q)"
  shows "mode_inv (q\<lparr>request_queue := update_request t (\<lambda>r. r\<lparr>lr_lock_mode := EXLUCSIVE\<rparr>) (request_queue q),
        upgrade_queue := filter (\<lambda>u. lr_txn_id u \<noteq> t) (upgrade_queue q)\<rparr>)"
proof -
  have X: "group_mode q = X_mode" using u mode_invD(7) [OF m] by (auto simp: granted_in_def list_ex_iff)
  note one = mode_invD(6) [OF m X]
  show ?thesis
  proof (rule mode_invI)
    fix r r'
    let ?f = "\<lambda>r. if lr_txn_id r = t then r\<lparr>lr_lock_mode := EXLUCSIVE\<rparr> else r"
    let ?q = "q\<lparr>request_queue := update_request t (\<lambda>r. r\<lparr>lr_lock_mode := EXLUCSIVE\<rparr>) (request_queue q),
        upgrade_queue := filter (\<lambda>u. lr_txn_id u \<noteq> t) (upgrade_queue q)\<rparr>"
    assume "r \<in> set (request_queue ?q)" "r' \<in> set (request_queue ?q)" and g: "lr_granted r" "lr_granted r'"
    then obtain x x' where "x \<in> set (request_queue q)" "x' \<in> set (request_queue q)" "r = ?f x" "r' = ?f x'"
      by (auto simp: update_request_set [OF queue_invD(1) [OF q]])
    then show "r = r'" using g one [of x x'] by (auto split: if_splits)
  qed (use X mode_invD(1,2,7) [OF m] in
      \<open>auto simp: update_request_set [OF queue_invD(1) [OF q]]\<close>)
qed

lemma mode_inv_grant_waiting:
  assumes m: "\<forall>r\<in>set (request_queue q). lr_lock_mode r = SHARED \<or> lr_lock_mode r = EXLUCSIVE"
    and none: "\<forall>r\<in>set (request_queue q). \<not> lr_granted r" and ne: "request_queue q \<noteq> []"
    and u: "upgrade_queue q = []"
  shows "mode_inv (grant_waiting q)"
proof -
  obtain r rs where q: "request_queue q = r # rs" using ne by (cases "request_queue q") auto
  consider "lr_lock_mode r = EXLUCSIVE" | "lr_lock_mode r = SHARED" using m q by auto
  then show ?thesis
  proof cases
    case 1
    then show ?thesis using m none q u
      by (intro mode_invI) (auto simp: grant_waiting_def)
  next
    case 2
    let ?G = "grant_compatible S_mode (r # rs)"
    have e: "grant_waiting q = q\<lparr>group_mode := fst ?G, request_queue := snd ?G\<rparr>"
      using 2 by (simp add: grant_waiting_def q split_beta)
    have G: "fst ?G = S_mode" "\<And>x. x \<in> set (snd ?G) \<Longrightarrow> (lr_granted x \<longrightarrow> lr_lock_mode x = SHARED \<or> x \<in> set (r # rs)) \<and>
      (\<exists>r'\<in>set (r # rs). lr_lock_mode x = lr_lock_mode r')"
      using grant_compatible_shared [of "r # rs"] m q by auto
    show ?thesis
      unfolding e
    proof (rule mode_invI, goal_cases)
      case (1 x)
      then have "\<exists>r'\<in>set (r # rs). lr_lock_mode x = lr_lock_mode r'" using G(2) [of x] by simp
      then show ?case using m q by auto
    next
      case (5 x)
      then show ?case using G(2) [of x] none q by auto
    qed (use G(1) u in auto)
  qed
qed

lemma mode_inv_unlock:
  assumes m: "mode_inv q" and q: "queue_inv f q" and t: "f t = Held"
  shows "mode_inv (unlock_queue t q)"
proof -
  define rs where "rs = filter (\<lambda>r. lr_txn_id r \<noteq> t) (request_queue q)"
  define q1 where "q1 = q\<lparr>request_queue := rs\<rparr>"
  have er: "q\<lparr>request_queue := erase_request t (request_queue q)\<rparr> = q1"
    by (simp add: q1_def rs_def erase_request_filter queue_invD(1) [OF q])
  have own: "\<exists>r\<in>set rs. lr_granted r" if u: "u \<in> set (upgrade_queue q)" for u
  proof -
    have "lr_txn_id u \<noteq> t" using queue_invD(6) [OF q u] t by auto
    then show ?thesis using upgrade_owner [OF q u] by (auto simp: rs_def)
  qed
  have sub: "r \<in> set rs \<Longrightarrow> r \<in> set (request_queue q)" for r by (simp add: rs_def)
  note D = mode_invD [OF m]
  consider "rs = []" | "rs \<noteq> []" "\<not> list_ex lr_granted rs" | "rs \<noteq> []" "list_ex lr_granted rs" by auto
  then show ?thesis
  proof cases
    case 1
    then have "upgrade_queue q = []" using own by (cases "upgrade_queue q") auto
    then show ?thesis using 1 by (auto simp: unlock_queue_def er Let_def q1_def mode_inv_def)
  next
    case 2
    then have "upgrade_queue q = []" using own by (cases "upgrade_queue q") (auto simp: list_ex_iff)
    moreover have "\<forall>r\<in>set rs. lr_lock_mode r = SHARED \<or> lr_lock_mode r = EXLUCSIVE" using D(1) sub by blast
    ultimately have "mode_inv (grant_waiting q1)"
      using 2 by (intro mode_inv_grant_waiting) (simp_all add: q1_def list_ex_iff)
    then show ?thesis using 2 by (simp add: unlock_queue_def er Let_def) (simp add: q1_def)
  next
    case 3
    have un: "unlock_queue t q = grant_upgrade q1"
      using 3 by (simp add: unlock_queue_def er Let_def) (simp add: q1_def)
    have q1: "mode_inv q1"
    proof (rule mode_invI, goal_cases)
      case 4
      then show ?case using D(4) 3(1) by (auto simp: q1_def rs_def)
    next
      case (5 r)
      then show ?case using D(5) [of r] sub [of r] by (simp add: q1_def)
    qed (use D(1-3,6,7) sub in \<open>auto simp: q1_def\<close>)
    show ?thesis
      unfolding un
    proof (rule grant_upgrade_cases [of q1])
      fix u us
      assume u: "upgrade_queue q1 = u # us" and g: "grant_upgrade q1 = q1\<lparr>group_mode :=
          get_group_lock_mode (lr_lock_mode u), upgrade_queue := u\<lparr>lr_granted := True\<rparr> # us\<rparr>"
        and one: "\<And>r r'. \<lbrakk>r \<in> set (request_queue q1); r' \<in> set (request_queue q1); lr_granted r; lr_granted r'\<rbrakk>
          \<Longrightarrow> r = r'"
      have X: "lr_lock_mode u = EXLUCSIVE" using u D(2) by (simp add: q1_def)
      show "mode_inv (grant_upgrade q1)"
        unfolding g
        by (rule mode_invI) (use one X u D(1,2) sub in \<open>auto simp: q1_def\<close>)
    qed (use q1 in simp)
  qed
qed

text \<open>
  With table calls only, no thread is inside a record call and upgrades are to exclusive mode.
\<close>

definition lm_mode_inv :: "lm_state \<Rightarrow> bool" where
  "lm_mode_inv s \<longleftrightarrow>
    (\<forall>i. mode_inv (get_lock_request_queue (lms s) i)) \<and>
    (\<forall>t. lpc s t \<in> {Running, Crashed} \<or> (\<exists>i. lpc s t = Blocked (WaitGrant i) None) \<or>
         (\<exists>i. lpc s t = Blocked (WaitUpgrade i EXLUCSIVE) None))"

lemma lm_mode_inv_at_thread:
  assumes "lm_mode_inv s" "mode_inv q"
    and "\<And>j. get_lock_request_queue lm j = (if j = i then q else get_lock_request_queue (lms s) j)"
    and "th \<in> {Running, Crashed} \<or> (\<exists>i. th = Blocked (WaitGrant i) None) \<or>
         (\<exists>i. th = Blocked (WaitUpgrade i EXLUCSIVE) None)"
  shows "lm_mode_inv (at_thread s t lm th)"
  using assms unfolding lm_mode_inv_def by auto

lemma request_lock_modes:
  assumes mi: "lm_mode_inv s" and inv: "lm_inv s" and m: "m \<in> {SHARED, EXLUCSIVE}"
    and r: "request_lock (lms s) t i m = (out, lm)"
  shows "lm_mode_inv (at_thread s t lm (thread_after out None))"
proof -
  let ?q = "get_lock_request_queue (lms s) i"
  have M: "mode_inv ?q" using mi by (simp add: lm_mode_inv_def)
  note g = mode_inv_granted [OF M lm_inv_queue [OF inv] m, of t]
  note w = mode_inv_enqueue [OF M m, of "get_group_lock_mode m" t]
  show ?thesis
    by (rule lm_mode_inv_at_thread [OF mi, where i = i and q = "get_lock_request_queue lm i"])
      (use M g w r in \<open>auto simp: request_lock_def check_and_execute_lock_def split: if_splits\<close>)
qed

lemma upgrade_table_modes:
  assumes mi: "lm_mode_inv s" and inv: "lm_inv s" and run: "lpc s t = Running"
    and i: "table_lock_id fd \<in> lock_set (lms s) t" and m: "m \<in> {SHARED, EXLUCSIVE}"
    and u: "upgrade_lock_on_table (lms s) t fd m = (out, lm)"
  shows "lm_mode_inv (at_thread s t lm (thread_after out None))"
proof -
  let ?i = "table_lock_id fd"
  have a: "active (lpc s t)" using run by simp
  obtain q r where q: "lock_table (lms s) ?i = Some q" "get_lock_request_queue (lms s) ?i = q"
      "first_request t (request_queue q) = Some r" "r \<in> set (request_queue q)" "lr_txn_id r = t" "lr_granted r"
    by (rule held_request [OF inv a i])
  have M: "mode_inv q" using mi q(2) by (auto simp: lm_mode_inv_def)
  have Q: "queue_inv (lock_rel_of s ?i) q" using lm_inv_queue [OF inv] q(2) by metis
  have sh: "lr_lock_mode r = SHARED \<or> lr_lock_mode r = EXLUCSIVE" by (rule mode_invD(1) [OF M q(4)])
  have ge: "get_group_lock_mode m \<le> get_group_lock_mode (lr_lock_mode r) \<or> lr_lock_mode r = SHARED \<and> m = EXLUCSIVE"
    using sh m by (auto simp: less_eq_group_lock_mode_def)
  have nc: "\<not> lock_compatible (group_mode q) X_mode"
    using mode_invD(3,4) [OF M] q(4) by auto
  have one: "mode_inv (q\<lparr>request_queue := update_request t (set_mode EXLUCSIVE) (request_queue q),
      group_mode := max (group_mode q) X_mode\<rparr>)" if "length (request_queue q) = Suc 0"
  proof -
    have rq: "request_queue q = [r]" using that q(4) by (cases "request_queue q") auto
    have "upgrade_queue q = []"
    proof (rule ccontr)
      assume "upgrade_queue q \<noteq> []"
      then obtain u where u: "u \<in> set (upgrade_queue q)" by (cases "upgrade_queue q") auto
      have "lr_txn_id u = t" using upgrade_owner [OF Q u] rq q(5) by auto
      then show False using queue_invD(6) [OF Q u] i run by simp
    qed
    moreover have "max (group_mode q) X_mode = X_mode"
      using mode_invD(3) [OF M] by (auto simp: max_def less_eq_group_lock_mode_def)
    ultimately show ?thesis using mode_inv_single [OF q(5) _ rq] by simp
  qed
  show ?thesis
    by (rule lm_mode_inv_at_thread [OF mi, where i = ?i and q = "get_lock_request_queue lm ?i"])
      (use M u q(1,2,3) nc ge one mode_inv_upgrade_enqueue [OF M, of t] in
        \<open>auto simp: upgrade_lock_on_table_def Let_def split: if_splits\<close>)
qed

lemma lm_exec_modes:
  assumes mi: "lm_mode_inv s" and inv: "lm_inv s" and e: "lm_exec e s = Some s'" and al: "event_allowed table_call e"
  shows "lm_mode_inv s'"
proof (cases e)
  case (ECall t c)
  then have run: "lpc s t = Running" using e by (auto split: lock_thread.splits)
  note R = request_lock_modes [OF mi inv] and U = upgrade_table_modes [OF mi inv run]
  show ?thesis
    using e al run by (cases c) (auto simp: ECall lock_shared_on_table_def lock_exclusive_on_table_def
        split: prod.splits if_splits dest: R [rotated] U [rotated 2])
next
  case (ERecord t)
  have "lpc s t \<in> {Running, Crashed} \<or> (\<exists>i. lpc s t = Blocked (WaitGrant i) None) \<or>
         (\<exists>i. lpc s t = Blocked (WaitUpgrade i EXLUCSIVE) None)" using mi by (simp add: lm_mode_inv_def)
  then show ?thesis using e by (auto simp: ERecord)
next
  case (EResume t)
  have "lpc s t \<in> {Running, Crashed} \<or> (\<exists>i. lpc s t = Blocked (WaitGrant i) None) \<or>
         (\<exists>i. lpc s t = Blocked (WaitUpgrade i EXLUCSIVE) None)" using mi by (simp add: lm_mode_inv_def)
  then consider i where "lpc s t = Blocked (WaitGrant i) None" | i where "lpc s t = Blocked (WaitUpgrade i EXLUCSIVE) None"
    using e by (auto simp: EResume)
  then show ?thesis
  proof cases
    case 1
    have "mode_inv (get_lock_request_queue (lms s) i)" using mi by (simp add: lm_mode_inv_def)
    then show ?thesis using e 1 unfolding EResume
      by (auto split: if_splits simp: resume_grant_def intro!: lm_mode_inv_at_thread [OF mi, where i = i])
  next
    case 2
    have "mode_inv (get_lock_request_queue (lms s) i)" using mi by (simp add: lm_mode_inv_def)
    note this = mode_inv_resume_upgrade [OF this lm_inv_queue [OF inv]]
    then show ?thesis using e 2 unfolding EResume
      by (auto split: if_splits simp: resume_upgrade_def Let_def intro!: lm_mode_inv_at_thread [OF mi, where i = i])
  qed
next
  case (ERelease t i)
  have run: "lpc s t = Running" and i: "i \<in> lock_set (lms s) t"
    using e by (auto simp: ERelease split: lock_thread.splits if_splits)
  have a: "active (lpc s t)" using run by simp
  obtain q where q: "lock_table (lms s) i = Some q" "get_lock_request_queue (lms s) i = q"
    by (rule held_request [OF inv a i]) blast
  have M: "mode_inv q" using mi q(2) by (auto simp: lm_mode_inv_def)
  have Q: "queue_inv (lock_rel_of s i) q" using lm_inv_queue [OF inv] q(2) by metis
  have "lock_rel_of s i t = Held" using run i by simp
  note un = mode_inv_unlock [OF M Q this]
  show ?thesis using e run i un
    by (auto simp: ERelease release_lock_def unlock_def q Let_def get_lock_request_queue_def put_queue_def
        intro!: lm_mode_inv_at_thread [OF mi, where i = i])
qed

lemma lm_reachable_modes: "lm_reachable table_call s \<Longrightarrow> lm_mode_inv s"
proof (induction rule: lm_reachable.induct)
  case lm_reachable_start
  show ?case
    by (simp add: lm_mode_inv_def lm_start_def lm_init_def get_lock_request_queue_def mode_inv_empty)
next
  case (lm_reachable_step s e s')
  then show ?case using lm_exec_modes lm_reachable_inv by blast
qed

section \<open>What a transaction holds\<close>

text \<open>
  A transaction holds a lock in a mode once the call has returned: the lock is in its lock set
  and its request in the queue is granted in that mode.
\<close>

definition holds_lock :: "lm_state \<Rightarrow> txn_id \<Rightarrow> lock_data_id \<Rightarrow> lock_mode \<Rightarrow> bool" where
  "holds_lock s t i m \<longleftrightarrow>
    i \<in> lock_set (lms s) t \<and>
    list_ex (\<lambda>r. lr_txn_id r = t \<and> lr_granted r \<and> lr_lock_mode r = m)
      (request_queue (get_lock_request_queue (lms s) i))"

lemma holds_lock_exclusive:
  assumes "lm_reachable table_call s" "holds_lock s t i EXLUCSIVE" "holds_lock s u i m"
  shows "t = u"
proof -
  have M: "mode_inv (get_lock_request_queue (lms s) i)"
    using lm_reachable_modes [OF assms(1)] by (simp add: lm_mode_inv_def)
  obtain r r' where r: "r \<in> set (request_queue (get_lock_request_queue (lms s) i))" "lr_txn_id r = t"
      "lr_granted r" "lr_lock_mode r = EXLUCSIVE"
    and r': "r' \<in> set (request_queue (get_lock_request_queue (lms s) i))" "lr_txn_id r' = u" "lr_granted r'"
    using assms(2,3) by (auto simp: holds_lock_def list_ex_iff)
  have "r = r'" using mode_invD(6) [OF M mode_invD(5) [OF M r(1,3,4)] r(1) r'(1) r(3) r'(3)] .
  then show ?thesis using r(2) r'(2) by simp
qed

lemma holds_lock_running:
  assumes "lm_reachable P s" "active (lpc s t)" "i \<in> lock_set (lms s) t"
  shows "\<exists>m. holds_lock s t i m"
proof -
  obtain q r where "get_lock_request_queue (lms s) i = q" "r \<in> set (request_queue q)" "lr_txn_id r = t" "lr_granted r"
    by (rule held_request [OF lm_reachable_inv [OF assms(1)] assms(2,3)])
  then show ?thesis using assms(3) by (auto simp: holds_lock_def list_ex_iff)
qed

subsection \<open>Events of other transactions keep a lock\<close>

fun event_txn :: "lm_event \<Rightarrow> txn_id" where
  "event_txn (ECall t c) = t"
| "event_txn (ERecord t) = t"
| "event_txn (EResume t) = t"
| "event_txn (ERelease t i) = t"

lemma update_request_other: "r \<in> set rs \<Longrightarrow> lr_txn_id r \<noteq> u \<Longrightarrow> r \<in> set (update_request u f rs)"
  by (induction rs) auto

lemma erase_request_other: "r \<in> set rs \<Longrightarrow> lr_txn_id r \<noteq> u \<Longrightarrow> r \<in> set (erase_request u rs)"
  by (induction rs) auto

lemma grant_upgrade_queue [simp]: "request_queue (grant_upgrade q) = request_queue q"
  by (simp add: grant_upgrade_def split: list.splits)

lemma unlock_queue_other:
  assumes "r \<in> set (request_queue q)" "lr_txn_id r \<noteq> u" "lr_granted r"
  shows "r \<in> set (request_queue (unlock_queue u q))"
proof -
  have "r \<in> set (erase_request u (request_queue q))" by (rule erase_request_other [OF assms(1,2)])
  then show ?thesis using assms(3) by (auto simp: unlock_queue_def Let_def list_ex_iff)
qed

definition keeps_others :: "txn_id \<Rightarrow> lock_manager \<Rightarrow> lock_manager \<Rightarrow> bool" where
  "keeps_others u lm lm' \<longleftrightarrow>
    (\<forall>t i r. t \<noteq> u \<longrightarrow> lock_set lm' t = lock_set lm t \<and>
      (r \<in> set (request_queue (get_lock_request_queue lm i)) \<and> lr_txn_id r = t \<and> lr_granted r \<longrightarrow>
        r \<in> set (request_queue (get_lock_request_queue lm' i))))"

lemma keeps_others_refl [simp]: "keeps_others u lm lm"
  by (simp add: keeps_others_def)

lemma keeps_others_put:
  assumes "\<And>r. \<lbrakk>r \<in> set (request_queue (get_lock_request_queue lm i)); lr_txn_id r \<noteq> u; lr_granted r\<rbrakk> \<Longrightarrow>
      r \<in> set (request_queue q)"
  shows "keeps_others u lm (put_queue i q lm)" "keeps_others u lm (add_lock_set u j (put_queue i q lm))"
  using assms by (auto simp: keeps_others_def)

lemma request_lock_keeps: "request_lock lm u i m = (out, lm') \<Longrightarrow> keeps_others u lm lm'"
  by (auto simp: request_lock_def check_and_execute_lock_def split: if_splits intro!: keeps_others_put)

lemma upgrade_keeps:
  "upgrade_lock_on_table lm u fd m = (out, lm') \<Longrightarrow> keeps_others u lm lm'"
  "upgrade_lock_on_record lm u rd fd = (out, lm') \<Longrightarrow> keeps_others u lm lm'"
  by (auto simp: upgrade_lock_on_table_def upgrade_lock_on_record_def Let_def get_lock_request_queue_def
      split: if_splits option.splits intro!: keeps_others_put update_request_other)

lemma call_lock_keeps: "call_lock lm u c = ((out, lm'), k) \<Longrightarrow> keeps_others u lm lm'"
  by (cases c) (auto simp: table_call_modes lock_table_mode_def split: if_splits
      dest: request_lock_keeps upgrade_keeps)

lemma resume_release_keeps:
  "keeps_others u lm (resume_grant lm u i)" "keeps_others u lm (resume_upgrade lm u i m)"
  "keeps_others u lm (release_lock lm u i)"
proof -
  show "keeps_others u lm (resume_grant lm u i)" by (auto simp: keeps_others_def resume_grant_def)
  show "keeps_others u lm (resume_upgrade lm u i m)"
    by (auto simp: resume_upgrade_def Let_def intro!: keeps_others_put update_request_other)
  show "keeps_others u lm (release_lock lm u i)"
    by (auto simp: keeps_others_def release_lock_def unlock_def Let_def get_lock_request_queue_def put_queue_def
        split: option.splits intro: unlock_queue_other)
qed

lemma lm_exec_keeps: "lm_exec e s = Some s' \<Longrightarrow> keeps_others (event_txn e) (lms s) (lms s')"
  by (cases e) (auto split: lock_thread.splits lock_wait.splits if_splits prod.splits
      intro: resume_release_keeps dest: call_lock_keeps request_lock_keeps)

lemma holds_lock_kept:
  assumes "lm_exec e s = Some s'" "event_txn e \<noteq> t" "holds_lock s t i m"
  shows "holds_lock s' t i m"
proof -
  obtain r where "r \<in> set (request_queue (get_lock_request_queue (lms s) i))" "lr_txn_id r = t"
      "lr_granted r" "lr_lock_mode r = m"
    using assms(3) by (auto simp: holds_lock_def list_ex_iff)
  then show ?thesis
    using lm_exec_keeps [OF assms(1)] assms(2,3) unfolding holds_lock_def keeps_others_def list_ex_iff by metis
qed

end
