(* ===== verification/Lock_Service.thy ===== *)
theory Lock_Service
  imports Lock_Manager
begin

text \<open>
  What the clients of the lock manager rely on, as a locale: locks of other transactions are
  kept, and an exclusive lock excludes every other holder. The client's view of two-phase
  locking is proved from these laws alone: as long as every write to a table is made by a
  holder of its exclusive lock, a table that a transaction has locked changes only by its own
  hand. The lock manager's transition system is the interpretation. The file also states the
  behaviour of the manager itself: mutual exclusion, the wait-die rule, the absence of null
  requests and of forgotten waiters, and the two situations in which the code departs from
  what its mode matrix and its deadlock prevention intend.
\<close>

section \<open>The interface\<close>

text \<open>A run interleaves lock events with writes of table contents.\<close>

datatype ('e, 'i, 'v) access = LockEvent 'e | WriteTable txn_id 'i 'v

locale lock_service =
  fixes reach :: "'s \<Rightarrow> bool"
    and exec :: "'e \<Rightarrow> 's \<Rightarrow> 's option"
    and ok :: "'e \<Rightarrow> bool"
    and actor :: "'e \<Rightarrow> txn_id"
    and holds :: "'s \<Rightarrow> txn_id \<Rightarrow> 'i \<Rightarrow> lock_mode \<Rightarrow> bool"
  assumes reach_exec: "\<lbrakk>reach s; ok e; exec e s = Some s'\<rbrakk> \<Longrightarrow> reach s'"
    and holds_kept: "\<lbrakk>exec e s = Some s'; actor e \<noteq> t; holds s t i m\<rbrakk> \<Longrightarrow> holds s' t i m"
    and holds_excl: "\<lbrakk>reach s; holds s t i EXLUCSIVE; holds s u i m\<rbrakk> \<Longrightarrow> t = u"
begin

fun access_txn :: "('e, 'i, 'v) access \<Rightarrow> txn_id" where
  "access_txn (LockEvent e) = actor e"
| "access_txn (WriteTable t i v) = t"

text \<open>A write is possible only for a holder of the exclusive lock.\<close>

fun access_step :: "('e, 'i, 'v) access \<Rightarrow> 's \<times> ('i \<Rightarrow> 'v) \<Rightarrow> ('s \<times> ('i \<Rightarrow> 'v)) option" where
  "access_step (LockEvent e) (s, db) =
    (if ok e then (case exec e s of None \<Rightarrow> None | Some s' \<Rightarrow> Some (s', db)) else None)"
| "access_step (WriteTable t i v) (s, db) =
    (if holds s t i EXLUCSIVE then Some (s, db(i := v)) else None)"

fun access_run :: "('e, 'i, 'v) access list \<Rightarrow> 's \<times> ('i \<Rightarrow> 'v) \<Rightarrow> ('s \<times> ('i \<Rightarrow> 'v)) option" where
  "access_run [] c = Some c"
| "access_run (a # as) c = (case access_step a c of None \<Rightarrow> None | Some c' \<Rightarrow> access_run as c')"

lemma access_step_isolated:
  assumes "access_step a (s, db) = Some (s', db')" "reach s" "holds s t i m" "access_txn a \<noteq> t"
  shows "reach s' \<and> holds s' t i m \<and> db' i = db i"
proof (cases a)
  case (LockEvent e)
  then have "ok e" "exec e s = Some s'" "db' = db"
    using assms(1) by (auto split: if_splits option.splits)
  then show ?thesis
    using reach_exec [OF assms(2), of e s'] holds_kept [of e s s' t i m] assms(3,4) LockEvent by auto
next
  case (WriteTable u j v)
  then have u: "holds s u j EXLUCSIVE" "s' = s" "db' = db(j := v)"
    using assms(1) by (auto split: if_splits)
  have "j \<noteq> i"
  proof
    assume "j = i"
    then have "u = t" using holds_excl [OF assms(2), of u i t m] u(1) assms(3) by simp
    then show False using assms(4) WriteTable by simp
  qed
  then show ?thesis using u assms(2,3) by simp
qed

lemma access_run_isolated:
  assumes "access_run as (s, db) = Some (s', db')" "reach s" "holds s t i m" "\<forall>a\<in>set as. access_txn a \<noteq> t"
  shows "holds s' t i m \<and> db' i = db i"
  using assms
proof (induction as arbitrary: s db)
  case (Cons a as)
  obtain s1 db1 where 1: "access_step a (s, db) = Some (s1, db1)" "access_run as (s1, db1) = Some (s', db')"
    using Cons.prems(1) by (cases "access_step a (s, db)") auto
  then have "reach s1 \<and> holds s1 t i m \<and> db1 i = db i"
    using access_step_isolated [OF 1(1) Cons.prems(2,3)] Cons.prems(4) by simp
  then show ?case using Cons.IH [OF 1(2)] Cons.prems(4) by simp
qed simp

end

section \<open>The lock manager provides it\<close>

interpretation lks: lock_service "lm_reachable table_call" lm_exec "event_allowed table_call" event_txn holds_lock
proof unfold_locales
  show "lm_reachable table_call s'" if "lm_reachable table_call s" "event_allowed table_call e" "lm_exec e s = Some s'"
    for s e s' using that by (rule lm_reachable_step)
qed (blast intro: holds_lock_kept holds_lock_exclusive)+

text \<open>
  Runs of the lock manager with table writes, for statements outside the locale: a write of
  table \<open>i\<close> by a transaction that does not hold the exclusive lock is not a step.
\<close>

fun table_run :: "(lm_event, lock_data_id, 'v) access list \<Rightarrow> lm_state \<times> (lock_data_id \<Rightarrow> 'v) \<Rightarrow>
    (lm_state \<times> (lock_data_id \<Rightarrow> 'v)) option" where
  "table_run [] c = Some c"
| "table_run (LockEvent e # as) (s, db) =
    (if event_allowed table_call e
     then (case lm_exec e s of None \<Rightarrow> None | Some s' \<Rightarrow> table_run as (s', db)) else None)"
| "table_run (WriteTable t i v # as) (s, db) =
    (if holds_lock s t i EXLUCSIVE then table_run as (s, db(i := v)) else None)"

fun acting_txn :: "(lm_event, 'i, 'v) access \<Rightarrow> txn_id" where
  "acting_txn (LockEvent e) = event_txn e"
| "acting_txn (WriteTable t i v) = t"

lemma table_run_eq: "table_run as c = lks.access_run as c"
  by (induction as c rule: table_run.induct) (auto split: option.splits)

lemma acting_txn_eq: "acting_txn a = lks.access_txn a"
  by (cases a) auto

section \<open>Properties\<close>

text \<open>
  C3. Mutual exclusion: in every state reached by interleaving shared and exclusive table lock
  calls, resumptions and releases of any number of transactions, a table held in exclusive
  mode by one transaction is held in no mode by another.
\<close>
theorem lm_mutual_exclusion:
  assumes "lm_reachable table_call s" and "holds_lock s t i EXLUCSIVE" and "t \<noteq> u"
  shows "\<not> holds_lock s u i m"
  using lks.holds_excl [OF assms(1,2)] assms(3) by blast

definition two_readers :: "lm_event list" where
  "two_readers = [ECall 1 (SharedTable 7), ECall 2 (SharedTable 7)]"

definition writer_after_reader :: "lm_event list" where
  "writer_after_reader = [ECall 2 (SharedTable 7), ECall 1 (ExclusiveTable 7), ERelease 2 (table_lock_id 7), EResume 1]"

lemmas lock_eval = lm_start_def lm_init_def lock_shared_on_table_def lock_exclusive_on_table_def
  lock_IS_on_table_def lock_IX_on_table_def request_lock_def check_and_execute_lock_def
  get_lock_request_queue_def put_queue_def add_lock_set_def at_thread_def new_lock_request_def
  empty_queue_def check_wait_die_def granted_in_def resume_grant_def resume_upgrade_def release_lock_def
  unlock_def unlock_queue_def grant_waiting_def grant_upgrade_def upgrade_lock_on_table_def
  table_lock_id_def mk_rid_def lock_compatible_def lock_matrix_def Let_def set_mode_def
  less_eq_group_lock_mode_def less_group_lock_mode_def max_def holds_lock_def

theorem lm_mutual_exclusion_witness:
  "\<exists>s. lm_run writer_after_reader lm_start = Some s \<and> lm_reachable table_call s \<and>
     holds_lock s 1 (table_lock_id 7) EXLUCSIVE \<and> \<not> holds_lock s 2 (table_lock_id 7) SHARED"
proof -
  obtain s where s: "lm_run writer_after_reader lm_start = Some s" "holds_lock s 1 (table_lock_id 7) EXLUCSIVE"
    by (simp add: writer_after_reader_def lock_eval)
  have "lm_reachable table_call s"
    by (rule lm_run_reachable [OF lm_reachable_start _ s(1)]) (simp add: writer_after_reader_def)
  then show ?thesis using lm_mutual_exclusion [of s 1 "table_lock_id 7" 2 SHARED] s by auto
qed

text \<open>
  C4. Two-phase locking isolates tables: along any run of the lock manager in which tables are
  written only under their exclusive lock, a table some transaction holds a lock on keeps its
  contents, and the lock stays held, for as long as that transaction itself does nothing.
\<close>
theorem locked_table_isolated:
  assumes "table_run as (s, db) = Some (s', db')" and "lm_reachable table_call s"
    and "holds_lock s t i m" and "\<forall>a\<in>set as. acting_txn a \<noteq> t"
  shows "holds_lock s' t i m \<and> db' i = db i"
  using lks.access_run_isolated [of as s db s' db' t i m] assms by (simp add: table_run_eq acting_txn_eq)

theorem locked_table_isolated_witness:
  "\<exists>s s' db'. lm_run two_readers lm_start = Some s \<and>
     table_run [LockEvent (ERelease 2 (table_lock_id 7)), LockEvent (ECall 2 (ExclusiveTable 8)),
       WriteTable 2 (table_lock_id 8) (5::nat)] (s, \<lambda>_. 0) = Some (s', db') \<and>
     db' (table_lock_id 8) = 5 \<and> holds_lock s' 1 (table_lock_id 7) SHARED \<and> db' (table_lock_id 7) = 0"
proof -
  let ?as = "[LockEvent (ERelease 2 (table_lock_id 7)), LockEvent (ECall 2 (ExclusiveTable 8)),
       WriteTable 2 (table_lock_id 8) (5::nat)]"
  obtain s s' db' where s: "lm_run two_readers lm_start = Some s" "holds_lock s 1 (table_lock_id 7) SHARED"
      "table_run ?as (s, \<lambda>_. 0) = Some (s', db')" "db' (table_lock_id 8) = 5"
    by (simp add: two_readers_def lock_eval)
  have "lm_reachable table_call s"
    by (rule lm_run_reachable [OF lm_reachable_start _ s(1)]) (simp add: two_readers_def)
  then show ?thesis using locked_table_isolated [OF s(3) _ s(2)] s by auto
qed

text \<open>
  C32. Structural safety, for all six calls including the record and intention locks: no
  transaction ever dereferences a null lock request, the requests of a queue belong to
  distinct transactions, and a queue with requests always has a granted one, so no wake-up
  is lost when the last holder leaves.
\<close>
theorem lm_no_orphans:
  assumes "lm_reachable P s"
  shows "lpc s t \<noteq> Crashed \<and>
    distinct (map lr_txn_id (request_queue (get_lock_request_queue (lms s) i))) \<and>
    (request_queue (get_lock_request_queue (lms s) i) \<noteq> [] \<longrightarrow>
      list_ex lr_granted (request_queue (get_lock_request_queue (lms s) i)))"
proof (intro conjI)
  note inv = lm_reachable_inv [OF assms]
  show "lpc s t \<noteq> Crashed" using lm_inv_thread [OF inv, of t] by auto
  note Q = lm_inv_queue [OF inv, of i]
  show "request_queue (get_lock_request_queue (lms s) i) \<noteq> [] \<longrightarrow>
      list_ex lr_granted (request_queue (get_lock_request_queue (lms s) i))"
    using queue_invD(9) [OF Q] by (auto simp: list_ex_iff)
  show "distinct (map lr_txn_id (request_queue (get_lock_request_queue (lms s) i)))"
    by (rule queue_invD(1) [OF Q])
qed

theorem lm_no_orphans_witness:
  "\<exists>s. lm_run [ECall 2 (ExclusiveRecord (mk_rid 1 0) 7), ERecord 2] lm_start = Some s \<and>
     request_queue (get_lock_request_queue (lms s) (record_lock_id 7 (mk_rid 1 0))) \<noteq> [] \<and>
     list_ex lr_granted (request_queue (get_lock_request_queue (lms s) (record_lock_id 7 (mk_rid 1 0))))"
proof -
  obtain s where s: "lm_run [ECall 2 (ExclusiveRecord (mk_rid 1 0) 7), ERecord 2] lm_start = Some s"
      "request_queue (get_lock_request_queue (lms s) (record_lock_id 7 (mk_rid 1 0))) \<noteq> []"
    by (simp add: lock_eval record_lock_id_def)
  have "lm_reachable (\<lambda>_. True) s"
    by (rule lm_run_reachable [OF lm_reachable_start _ s(1)]) simp
  then show ?thesis using lm_no_orphans [of "\<lambda>_. True" s] s by blast
qed

text \<open>
  The wait-die rule at a lock request: a compatible request is granted at once; an
  incompatible one waits exactly when no transaction of the queue is older, and otherwise the
  requester is aborted and the queue is left as it was.
\<close>
theorem request_lock_wait_die:
  "fst (request_lock lm t i m) =
     (if lock_compatible (group_mode (get_lock_request_queue lm i)) (get_group_lock_mode m) then LockTrue
      else if \<forall>r\<in>set (request_queue (get_lock_request_queue lm i)). t \<le> lr_txn_id r then LockWait (WaitGrant i)
      else LockAbort t DEADLOCK_PREVENTION) \<and>
   (i \<in> lock_set (snd (request_lock lm t i m)) t \<longleftrightarrow>
     i \<in> lock_set lm t \<or> fst (request_lock lm t i m) = LockTrue) \<and>
   (fst (request_lock lm t i m) = LockAbort t DEADLOCK_PREVENTION \<longrightarrow>
      get_lock_request_queue (snd (request_lock lm t i m)) i = get_lock_request_queue lm i)"
  by (auto simp: request_lock_def check_and_execute_lock_def check_wait_die_def list_ex_iff not_less)

theorem request_lock_wait_die_witness:
  "\<exists>s. lm_run writer_after_reader lm_start = Some s \<and>
     fst (request_lock (lms s) 5 (table_lock_id 7) SHARED) = LockAbort 5 DEADLOCK_PREVENTION \<and>
     get_lock_request_queue (snd (request_lock (lms s) 5 (table_lock_id 7) SHARED)) (table_lock_id 7) =
       get_lock_request_queue (lms s) (table_lock_id 7)"
proof -
  obtain s where s: "lm_run writer_after_reader lm_start = Some s"
      "fst (request_lock (lms s) 5 (table_lock_id 7) SHARED) = LockAbort 5 DEADLOCK_PREVENTION"
    by (simp add: writer_after_reader_def lock_eval)
  then show ?thesis using request_lock_wait_die [of "lms s" 5 "table_lock_id 7" SHARED] by blast
qed

section \<open>Departures from the intended behaviour\<close>

text \<open>
  A queue remembers only the mode granted last. A shared lock followed by an intention-shared
  one leaves the group mode at IS, and a third transaction is then given the intention
  exclusive lock beside the shared one.
\<close>

definition forgotten_shared :: "lm_event list" where
  "forgotten_shared = [ECall 1 (SharedTable 7), ECall 2 (ISTable 7), ECall 3 (IXTable 7)]"

text \<open>
  The group mode is not an upper bound of the granted modes: there is a run of table lock
  calls after which one transaction holds a table in shared and another in intention
  exclusive mode, a pair the compatibility matrix excludes.
\<close>
theorem intention_lock_beside_shared:
  "\<not> lock_compatible (get_group_lock_mode SHARED) (get_group_lock_mode INTENTION_EXCLUSIVE) \<and>
   (\<exists>s. lm_reachable (\<lambda>_. True) s \<and> holds_lock s 1 (table_lock_id 7) SHARED \<and>
      holds_lock s 3 (table_lock_id 7) INTENTION_EXCLUSIVE)"
proof -
  obtain s where s: "lm_run forgotten_shared lm_start = Some s" "holds_lock s 1 (table_lock_id 7) SHARED"
      "holds_lock s 3 (table_lock_id 7) INTENTION_EXCLUSIVE"
    by (simp add: forgotten_shared_def lock_eval)
  have "lm_reachable (\<lambda>_. True) s"
    by (rule lm_run_reachable [OF lm_reachable_start _ s(1)]) (simp add: forgotten_shared_def)
  then show ?thesis using s by (auto simp: lock_eval)
qed

text \<open>
  An upgrade looks at the number of requests, not at the number of granted ones: the only
  holder of a table waits for an upgrade when an older request is queued behind it, and
  nobody is left to wake either of the two.
\<close>

definition sole_holder_upgrade :: "lm_event list" where
  "sole_holder_upgrade =
    [ECall 5 (SharedTable 7), ECall 2 (ExclusiveTable 7), ECall 1 (SharedTable 7),
     ERelease 5 (table_lock_id 7), ECall 1 (ExclusiveTable 7)]"

text \<open>Calls that do not concern a table, and threads that are not about to change its queue.\<close>

fun call_fd :: "lock_call \<Rightarrow> int" where
  "call_fd (SharedTable fd) = fd"
| "call_fd (ExclusiveTable fd) = fd"
| "call_fd (ISTable fd) = fd"
| "call_fd (IXTable fd) = fd"
| "call_fd (SharedRecord r fd) = fd"
| "call_fd (ExclusiveRecord r fd) = fd"

fun wait_id :: "lock_wait \<Rightarrow> lock_data_id" where
  "wait_id (WaitGrant i) = i"
| "wait_id (WaitUpgrade i m) = i"

fun thread_avoids :: "lock_data_id \<Rightarrow> lock_thread \<Rightarrow> bool" where
  "thread_avoids i (Pending j m) \<longleftrightarrow> j \<noteq> i"
| "thread_avoids i (Blocked w k) \<longleftrightarrow> wait_id w \<noteq> i \<and> (case k of None \<Rightarrow> True | Some (j, m) \<Rightarrow> j \<noteq> i)"
| "thread_avoids i _ \<longleftrightarrow> True"

text \<open>An operation that leaves the queue of a lock and its holders alone.\<close>

definition same_lock :: "lock_data_id \<Rightarrow> lock_manager \<Rightarrow> lock_manager \<Rightarrow> bool" where
  "same_lock i lm lm' \<longleftrightarrow> lock_table lm' i = lock_table lm i \<and> (\<forall>t. i \<in> lock_set lm' t \<longleftrightarrow> i \<in> lock_set lm t)"

lemma same_lock_ops [simp]:
  "same_lock i lm lm" "j \<noteq> i \<Longrightarrow> same_lock i lm (put_queue j q lm)" "j \<noteq> i \<Longrightarrow> same_lock i lm (add_lock_set t j (put_queue j q lm))"
  "j \<noteq> i \<Longrightarrow> same_lock i lm (resume_grant lm t j)" "j \<noteq> i \<Longrightarrow> same_lock i lm (resume_upgrade lm t j m)" "j \<noteq> i \<Longrightarrow> same_lock i lm (release_lock lm t j)"
  by (auto simp: same_lock_def put_queue_def add_lock_set_def resume_grant_def resume_upgrade_def release_lock_def unlock_def Let_def split: option.splits)

lemma request_elsewhere:
  assumes "request_lock lm t j m = (out, lm')" "j \<noteq> i"
  shows "same_lock i lm lm' \<and> (\<forall>w. out = LockWait w \<longrightarrow> wait_id w \<noteq> i)"
  using assms by (auto simp: request_lock_def check_and_execute_lock_def split: if_splits)

lemma upgrade_elsewhere:
  "upgrade_lock_on_table lm t fd m = (out, lm') \<Longrightarrow> table_lock_id fd \<noteq> i \<Longrightarrow> same_lock i lm lm' \<and> (\<forall>w. out = LockWait w \<longrightarrow> wait_id w \<noteq> i)"
  "upgrade_lock_on_record lm t r fd = (out, lm') \<Longrightarrow> record_lock_id fd r \<noteq> i \<Longrightarrow> same_lock i lm lm' \<and> (\<forall>w. out = LockWait w \<longrightarrow> wait_id w \<noteq> i)"
  by (auto simp: upgrade_lock_on_table_def upgrade_lock_on_record_def Let_def split: if_splits option.splits)

lemma lock_id_neq [simp]: "record_lock_id fd r \<noteq> table_lock_id n" "table_lock_id fd = table_lock_id n \<longleftrightarrow> fd = n"
  by (simp_all add: record_lock_id_def table_lock_id_def)

lemma call_elsewhere:
  assumes "call_lock lm t c = ((out, lm'), k)" "call_fd c \<noteq> n"
  shows "same_lock (table_lock_id n) lm lm' \<and> thread_avoids (table_lock_id n) (thread_after out k)"
proof -
  have k: "case k of None \<Rightarrow> True | Some (j, m) \<Rightarrow> j \<noteq> table_lock_id n" using assms(1) by (cases c) (auto split: if_splits)
  have "same_lock (table_lock_id n) lm lm' \<and> (\<forall>w. out = LockWait w \<longrightarrow> wait_id w \<noteq> table_lock_id n)"
    using assms by (cases c) (auto simp: lock_shared_on_table_def lock_exclusive_on_table_def lock_IS_on_table_def lock_IX_on_table_def
        split: if_splits dest!: request_elsewhere [where i = "table_lock_id n"] upgrade_elsewhere [where i = "table_lock_id n"])
  then show ?thesis using k by (cases out; cases k) auto
qed

text \<open>The situation after the run: two blocked threads, and nobody else near the lock.\<close>

definition stuck :: "lm_state \<Rightarrow> bool" where
  "stuck s \<longleftrightarrow> lpc s 1 = Blocked (WaitUpgrade (table_lock_id 7) EXLUCSIVE) None \<and> lpc s 2 = Blocked (WaitGrant (table_lock_id 7)) None \<and>
     \<not> granted_in 1 (upgrade_queue (get_lock_request_queue (lms s) (table_lock_id 7))) \<and>
     \<not> granted_in 2 (request_queue (get_lock_request_queue (lms s) (table_lock_id 7))) \<and>
     (\<forall>t. t \<noteq> 1 \<longrightarrow> t \<noteq> 2 \<longrightarrow> table_lock_id 7 \<notin> lock_set (lms s) t \<and> thread_avoids (table_lock_id 7) (lpc s t))"

lemma stuck_at:
  assumes "stuck s" "same_lock (table_lock_id 7) (lms s) lm" "t \<noteq> 1" "t \<noteq> 2" "thread_avoids (table_lock_id 7) th"
  shows "stuck (at_thread s t lm th)"
  using assms by (auto simp: stuck_def at_thread_def same_lock_def get_lock_request_queue_def)

lemma stuck_step:
  assumes s: "stuck s" and e: "lm_exec e s = Some s'" and p: "event_allowed (\<lambda>c. call_fd c \<noteq> 7) e"
  shows "stuck s'"
proof -
  let ?t = "event_txn e"
  have t: "?t \<noteq> 1" "?t \<noteq> 2" using s e by (cases e; auto simp: stuck_def split: if_splits)+
  have av: "thread_avoids (table_lock_id 7) (lpc s ?t)" "table_lock_id 7 \<notin> lock_set (lms s) ?t" using s t by (auto simp: stuck_def)
  obtain lm th where s': "s' = at_thread s ?t lm th" "same_lock (table_lock_id 7) (lms s) lm" "thread_avoids (table_lock_id 7) th"
  proof (cases e)
    case (ECall t c)
    obtain out lm k where c: "call_lock (lms s) t c = ((out, lm), k)" by (metis surj_pair)
    then show ?thesis using that [of lm "thread_after out k"] call_elsewhere [OF c, of 7] e p by (auto simp: ECall split: lock_thread.splits)
  next
    case (ERecord t)
    then obtain i m where i: "lpc s t = Pending i m" using e by (auto split: lock_thread.splits)
    obtain out lm where r: "request_lock (lms s) t i m = (out, lm)" by fastforce
    have ne: "i \<noteq> table_lock_id 7" using av(1) i by (simp add: ERecord)
    note q = request_elsewhere [OF r ne]
    then have "thread_avoids (table_lock_id 7) (thread_after out None)" by (cases out) auto
    then show ?thesis using that [of lm "thread_after out None"] q e i r by (simp add: ERecord)
  next
    case (EResume t)
    then show ?thesis using e av(1) that by (auto split: lock_thread.splits lock_wait.splits if_splits option.splits)
  next
    case (ERelease t i)
    have "i \<noteq> table_lock_id 7" using e av(2) by (auto simp: ERelease split: lock_thread.splits if_splits)
    then show ?thesis using e that [of "release_lock (lms s) t i" Running] by (auto simp: ERelease split: lock_thread.splits if_splits)
  qed
  then show ?thesis using stuck_at [OF s s'(2) t s'(3)] by simp
qed

lemma stuck_run: "stuck s \<Longrightarrow> lm_run es s = Some s' \<Longrightarrow> list_all (event_allowed (\<lambda>c. call_fd c \<noteq> 7)) es \<Longrightarrow> stuck s'"
  by (induction es arbitrary: s) (auto split: option.splits intro: stuck_step)

lemma lm_run_append: "lm_run (xs @ ys) s = (case lm_run xs s of None \<Rightarrow> None | Some s' \<Rightarrow> lm_run ys s')"
  by (induction xs arbitrary: s) (auto split: option.splits)

lemma sole_holder_stuck:
  obtains s where "lm_run sole_holder_upgrade lm_start = Some s" "lm_reachable table_call s" "stuck s" "\<forall>t. t = 1 \<or> lock_set (lms s) t = {}"
proof -
  obtain s where s: "lm_run sole_holder_upgrade lm_start = Some s"
      "lpc s 1 = Blocked (WaitUpgrade (table_lock_id 7) EXLUCSIVE) None"
      "lpc s 2 = Blocked (WaitGrant (table_lock_id 7)) None"
      "\<forall>t. t \<noteq> 1 \<longrightarrow> lock_set (lms s) t = {}" "\<forall>t. t \<noteq> 1 \<longrightarrow> t \<noteq> 2 \<longrightarrow> lpc s t = Running"
      "\<not> granted_in 1 (upgrade_queue (get_lock_request_queue (lms s) (table_lock_id 7)))"
      "\<not> granted_in 2 (request_queue (get_lock_request_queue (lms s) (table_lock_id 7)))"
    by (simp add: sole_holder_upgrade_def lock_eval)
  have "lm_reachable table_call s"
    by (rule lm_run_reachable [OF lm_reachable_start _ s(1)]) (simp add: sole_holder_upgrade_def)
  then show ?thesis by (rule that [OF s(1)]) (use s in \<open>auto simp: stuck_def\<close>)
qed

text \<open>
  C33. Wait-die does not prevent deadlock: there is a run of shared and exclusive table calls
  after which transaction 1 is the only holder of a table and waits to upgrade its lock, and
  transaction 2 waits for the same table. Both stay blocked in every continuation, of any length and with
  any lock calls, in which no transaction asks for a lock on that table: nothing they wait for can
  happen, since each waits for the other. (A third transaction that asks for the table and ends
  can wake transaction 1, because \<^verbatim>\<open>unlock\<close> looks for a single granted request.)
\<close>
theorem upgrade_deadlock:
  "\<exists>s. lm_run sole_holder_upgrade lm_start = Some s \<and> lm_reachable table_call s \<and> (\<forall>t. t = 1 \<or> lock_set (lms s) t = {}) \<and>
     (\<forall>es s'. list_all (event_allowed (\<lambda>c. call_fd c \<noteq> 7)) es \<and> lm_run es s = Some s' \<longrightarrow>
       lpc s' 1 = Blocked (WaitUpgrade (table_lock_id 7) EXLUCSIVE) None \<and> lpc s' 2 = Blocked (WaitGrant (table_lock_id 7)) None)"
proof -
  obtain s where s: "lm_run sole_holder_upgrade lm_start = Some s" "lm_reachable table_call s" "stuck s" "\<forall>t. t = 1 \<or> lock_set (lms s) t = {}"
    by (rule sole_holder_stuck)
  have "lpc s' 1 = Blocked (WaitUpgrade (table_lock_id 7) EXLUCSIVE) None \<and> lpc s' 2 = Blocked (WaitGrant (table_lock_id 7)) None"
    if "list_all (event_allowed (\<lambda>c. call_fd c \<noteq> 7)) es" "lm_run es s = Some s'" for es s'
    using stuck_run [OF s(3) that(2,1)] by (simp add: stuck_def)
  then show ?thesis using s(1,2,4) by blast
qed

theorem upgrade_deadlock_witness:
  "\<exists>s s'. lm_run sole_holder_upgrade lm_start = Some s \<and>
     lm_run [ECall 3 (ExclusiveTable 8), ECall 4 (SharedRecord (mk_rid 1 1) 9), ERecord 4, ERelease 3 (table_lock_id 8)] s = Some s' \<and>
     lpc s' 1 = Blocked (WaitUpgrade (table_lock_id 7) EXLUCSIVE) None \<and> lpc s' 2 = Blocked (WaitGrant (table_lock_id 7)) None"
proof -
  let ?es = "[ECall 3 (ExclusiveTable 8), ECall 4 (SharedRecord (mk_rid 1 1) 9), ERecord 4, ERelease 3 (table_lock_id 8)]"
  obtain s where s: "lm_run sole_holder_upgrade lm_start = Some s" and f: "\<forall>es s'. list_all (event_allowed (\<lambda>c. call_fd c \<noteq> 7)) es \<and> lm_run es s = Some s' \<longrightarrow>
       lpc s' 1 = Blocked (WaitUpgrade (table_lock_id 7) EXLUCSIVE) None \<and> lpc s' 2 = Blocked (WaitGrant (table_lock_id 7)) None"
    using upgrade_deadlock by blast
  have "\<exists>s'. lm_run (sole_holder_upgrade @ ?es) lm_start = Some s'"
    by (simp add: sole_holder_upgrade_def lock_eval lock_IS_on_table_def record_lock_id_def)
  then obtain s' where s': "lm_run ?es s = Some s'" unfolding lm_run_append s by auto
  have "list_all (event_allowed (\<lambda>c. call_fd c \<noteq> 7)) ?es" by simp
  then show ?thesis using f s s' by blast
qed

end
