(* ===== verification/Row_History.thy ===== *)
theory Row_History
  imports Rmdb_Prelude
begin

text \<open>
  Histories of row changes, the specification rollback and recovery are measured against: an
  insertion, deletion or update of one row of one table, its effect on the tables when it is
  executed again or taken back, and what a sequence of them that happened in this order
  satisfies. Every change touches one cell (a table name and a position), so all facts are
  proved per cell.
\<close>

datatype row_op =
    RowInsert string rid bytes
  | RowDelete string rid bytes
  | RowUpdate string rid bytes bytes

type_synonym tables = "string \<Rightarrow> rid \<rightharpoonup> bytes"

fun row_key :: "row_op \<Rightarrow> string \<times> rid" where
  "row_key (RowInsert n r b) = (n, r)"
| "row_key (RowDelete n r b) = (n, r)"
| "row_key (RowUpdate n r b c) = (n, r)"

fun redo_cell :: "row_op \<Rightarrow> bytes option \<Rightarrow> bytes option" where
  "redo_cell (RowInsert n r b) x = Some b"
| "redo_cell (RowDelete n r b) x = None"
| "redo_cell (RowUpdate n r b c) x = (if x = None then None else Some c)"

fun undo_cell :: "row_op \<Rightarrow> bytes option \<Rightarrow> bytes option" where
  "undo_cell (RowInsert n r b) x = None"
| "undo_cell (RowDelete n r b) x = Some b"
| "undo_cell (RowUpdate n r b c) x = (if x = None then None else Some b)"

text \<open>The change is one that can have happened: the logged old value is the value of the cell.\<close>

fun cell_ok :: "row_op \<Rightarrow> bytes option \<Rightarrow> bool" where
  "cell_ok (RowInsert n r b) x \<longleftrightarrow> x = None"
| "cell_ok (RowDelete n r b) x \<longleftrightarrow> x = Some b"
| "cell_ok (RowUpdate n r b c) x \<longleftrightarrow> x = Some b"

definition on_cell :: "(bytes option \<Rightarrow> bytes option) \<Rightarrow> string \<times> rid \<Rightarrow> tables \<Rightarrow> tables" where
  "on_cell f k T = T(fst k := (T (fst k))(snd k := f (T (fst k) (snd k))))"

definition redo_row :: "row_op \<Rightarrow> tables \<Rightarrow> tables" where
  "redo_row p = on_cell (redo_cell p) (row_key p)"

definition undo_row :: "row_op \<Rightarrow> tables \<Rightarrow> tables" where
  "undo_row p = on_cell (undo_cell p) (row_key p)"

fun history :: "tables \<Rightarrow> row_op list \<Rightarrow> bool" where
  "history T [] \<longleftrightarrow> True"
| "history T (p # ps) \<longleftrightarrow> cell_ok p (T (fst (row_key p)) (snd (row_key p))) \<and> history (redo_row p T) ps"

fun cell_history :: "bytes option \<Rightarrow> row_op list \<Rightarrow> bool" where
  "cell_history x [] \<longleftrightarrow> True"
| "cell_history x (p # ps) \<longleftrightarrow> cell_ok p x \<and> cell_history (redo_cell p x) ps"

abbreviation ops_on :: "string \<times> rid \<Rightarrow> row_op list \<Rightarrow> row_op list" where
  "ops_on k ps \<equiv> filter (\<lambda>p. row_key p = k) ps"

section \<open>Cell by cell\<close>

lemma on_cell_apply: "on_cell f k T n r = (if (n, r) = k then f (T n r) else T n r)"
  by (cases k) (auto simp: on_cell_def)

lemma fold_redo_cell: "fold redo_row ps T n r = fold redo_cell (ops_on (n, r) ps) (T n r)"
  by (induction ps arbitrary: T) (auto simp: redo_row_def on_cell_apply)

lemma fold_undo_cell: "fold undo_row ps T n r = fold undo_cell (ops_on (n, r) ps) (T n r)"
  by (induction ps arbitrary: T) (auto simp: undo_row_def on_cell_apply)

lemma history_cell: "history T ps \<Longrightarrow> cell_history (T n r) (ops_on (n, r) ps)"
proof (induction ps arbitrary: T)
  case (Cons p ps)
  then have "cell_history (redo_row p T n r) (ops_on (n, r) ps)" by simp
  with Cons.prems show ?case by (auto simp: redo_row_def on_cell_apply)
qed simp

lemma tables_eqI: "(\<And>n r. T n r = T' n r) \<Longrightarrow> T = (T' :: tables)"
  by (intro ext) blast

lemma cell_history_append:
  "cell_history x (ps @ qs) \<longleftrightarrow> cell_history x ps \<and> cell_history (fold redo_cell ps x) qs"
  by (induction ps arbitrary: x) auto

section \<open>Taking back and executing again\<close>

lemma undo_redo_cell: "cell_ok p x \<Longrightarrow> undo_cell p (redo_cell p x) = x"
  by (cases p) auto

lemma undo_history_cell:
  "cell_history x ps \<Longrightarrow> fold undo_cell (rev ps) (fold redo_cell ps x) = x"
  by (induction ps arbitrary: x) (simp_all add: undo_redo_cell)

lemma undo_history: "history T ps \<Longrightarrow> fold undo_row (rev ps) (fold redo_row ps T) = T"
  by (rule tables_eqI)
    (simp add: fold_undo_cell fold_redo_cell undo_history_cell history_cell flip: rev_filter)

text \<open>
  Executing a whole history again from a later state of the cell ends in the same state: an
  insertion or deletion determines the cell, and a sequence of updates starts and stays at an
  existing row.
\<close>

fun is_update :: "row_op \<Rightarrow> bool" where
  "is_update (RowUpdate n r b c) = True"
| "is_update _ = False"

lemma redo_forgets:
  assumes "cell_history x ps" "y \<noteq> None \<or> (\<exists>p\<in>set ps. \<not> is_update p)" "ps \<noteq> []"
  shows "fold redo_cell ps y = fold redo_cell ps x"
  using assms
proof (induction ps arbitrary: x y)
  case (Cons p ps)
  show ?case
  proof (cases p)
    case (RowUpdate n r b c)
    show ?thesis
    proof (cases "y = None")
      case True
      then have ex: "\<exists>p\<in>set ps. \<not> is_update p" using Cons.prems(2) RowUpdate by auto
      then have "ps \<noteq> []" by auto
      then have "fold redo_cell ps None = fold redo_cell ps (redo_cell p x)"
        using Cons.IH [of "redo_cell p x" None] Cons.prems(1) ex by auto
      then show ?thesis using True RowUpdate by simp
    next
      case False
      then obtain z where "y = Some z" by auto
      then show ?thesis using Cons.prems(1) RowUpdate by auto
    qed
  qed simp_all
qed simp

lemma updates_keep: "\<forall>p\<in>set ps. is_update p \<Longrightarrow> x \<noteq> None \<Longrightarrow> fold redo_cell ps x \<noteq> None"
proof (induction ps arbitrary: x)
  case (Cons p ps)
  then have "redo_cell p x \<noteq> None" by (cases p) auto
  then show ?case using Cons by simp
qed simp

lemma redo_again_cell:
  assumes "cell_history x ps"
  shows "fold redo_cell ps (fold redo_cell (take k ps) x) = fold redo_cell ps x"
proof (cases "ps = [] \<or> (\<exists>p\<in>set ps. \<not> is_update p)")
  case True
  then show ?thesis
  proof
    assume ex: "\<exists>p\<in>set ps. \<not> is_update p"
    then have "ps \<noteq> []" by auto
    then show ?thesis using redo_forgets [OF assms] ex by blast
  qed simp
next
  case False
  then obtain p qs where p: "ps = p # qs" "is_update p" by (cases ps) auto
  then have x: "x \<noteq> None" using assms by (cases p) auto
  have "\<forall>p\<in>set (take k ps). is_update p" using False by (auto dest: in_set_takeD)
  then have "fold redo_cell (take k ps) x \<noteq> None" by (rule updates_keep [OF _ x])
  then show ?thesis using redo_forgets [OF assms] p by auto
qed

text \<open>
  A state of the tables that may be found on disk after a crash: every cell has the value it
  had after some number of the changes to it.
\<close>

definition reached :: "tables \<Rightarrow> row_op list \<Rightarrow> tables \<Rightarrow> bool" where
  "reached T ps D \<longleftrightarrow> (\<forall>n r. \<exists>k. D n r = fold redo_cell (take k (ops_on (n, r) ps)) (T n r))"

lemma redo_reached:
  assumes "history T ps" "reached T ps D"
  shows "fold redo_row ps D = fold redo_row ps T"
proof (rule tables_eqI)
  fix n r
  obtain k where "D n r = fold redo_cell (take k (ops_on (n, r) ps)) (T n r)"
    using assms(2) by (auto simp: reached_def)
  then show "fold redo_row ps D n r = fold redo_row ps T n r"
    using redo_again_cell [OF history_cell [OF assms(1)]] by (simp add: fold_redo_cell)
qed

text \<open>Only the order of the changes to each cell matters.\<close>

lemma redo_reorder: "(\<And>k. ops_on k ps = ops_on k qs) \<Longrightarrow> fold redo_row ps T = fold redo_row qs T"
  by (rule tables_eqI) (simp add: fold_redo_cell)

lemma undo_reorder: "(\<And>k. ops_on k ps = ops_on k qs) \<Longrightarrow> fold undo_row ps T = fold undo_row qs T"
  by (rule tables_eqI) (simp add: fold_undo_cell)

end
