(* ===== verification/Rm_Database.thy ===== *)
theory Rm_Database
  imports Rm_Store Row_History
begin

text \<open>
  The record files of all tables over one buffer pool, as \<^verbatim>\<open>SmManager\<close> keeps them in
  \<^verbatim>\<open>fhs_\<close>, and the three operations rollback and recovery perform at a given position. What
  they rely on is weaker than the consistency of a file: the pages and their bitmaps, not the
  free-page list, which \<^verbatim>\<open>insert_record(rid, buf)\<close> and \<^verbatim>\<open>delete_record\<close> may damage. The
  contract is the locale \<open>row_db\<close>: each operation changes exactly one row of one table.
\<close>

section \<open>One page of one file changes\<close>

definition pool_step :: "rm_file \<Rightarrow> bpm \<Rightarrow> int \<Rightarrow> bytes \<Rightarrow> bpm \<Rightarrow> bool" where
  "pool_step h s p c s' \<longleftrightarrow> bp.same_use s s' \<and> rm_view h s' p = Some c \<and>
     (\<forall>q x. q \<noteq> rm_pid h p \<longrightarrow> bpm_view s q = Some x \<longrightarrow> bpm_view s' q = Some x) \<and>
     fd2pageno (disk s') = fd2pageno (disk s) \<and>
     (\<forall>r. page_table s' r \<noteq> None \<longrightarrow> r = rm_pid h p \<or> page_table s r \<noteq> None)"

abbreviation set_first_free :: "rm_file \<Rightarrow> int \<Rightarrow> rm_file" where
  "set_first_free h F \<equiv> h\<lparr>rm_hdr := (rm_hdr h)\<lparr>first_free_page_no := F\<rparr>\<rparr>"

lemma pool_step_changed:
  assumes b: "rm_base h s" and p: "page_range h p" and st: "pool_step h s p c s'"
  shows "page_changed h s p c s'"
proof -
  note d = rm_baseD [OF b]
  have "rm_view h s' p' = rm_view h s p'" if q: "page_range h p'" "p' \<noteq> p" for p'
  proof -
    obtain x where "rm_view h s p' = Some x" using d(7) [OF q(1)] by blast
    then show ?thesis using st q(2) by (simp add: pool_step_def rm_view_def)
  qed
  moreover have "page_table s' (rm_pid h RM_FILE_HDR_PAGE) = None"
  proof -
    have "rm_pid h RM_FILE_HDR_PAGE \<noteq> rm_pid h p" using p by (simp add: page_range_def RM_FILE_HDR_PAGE_def)
    then show ?thesis using st d(5) unfolding pool_step_def by blast
  qed
  ultimately show ?thesis using st by (simp add: page_changed_def pool_step_def bp.same_use_def)
qed

lemma pool_step_base:
  assumes b: "rm_base h s" and p: "page_range h p" and st: "pool_step h s p c s'" and ok: "rm_page_ok (rm_hdr h) c"
  shows "rm_base (set_first_free h F) s'"
proof -
  note d = rm_baseD [OF b] and ch = pool_step_changed [OF b p st]
  have v: "page_range h p' \<Longrightarrow> \<exists>c. rm_view h s' p' = Some c \<and> rm_page_ok (rm_hdr h) c" for p'
    using ch d(7) [of p'] ok by (cases "p' = p") (auto simp: page_changed_def)
  show ?thesis
    using d(2,3,4,6) ch v unfolding rm_base_def by (auto simp: page_range_def page_changed_def)
qed

text \<open>A file with another descriptor is not affected.\<close>

lemma pool_step_other:
  assumes b: "rm_base g s" and fd: "rm_fd g \<noteq> rm_fd h" and st: "pool_step h s p c s'"
  shows "rm_base g s'" and "rm_contents g s' = rm_contents g s"
proof -
  note d = rm_baseD [OF b]
  have ne: "rm_pid g q \<noteq> rm_pid h p" for q using fd by (simp add: rm_pid_def)
  have v: "rm_view g s' q = rm_view g s q" if q: "page_range g q" for q
  proof -
    obtain x where "rm_view g s q = Some x" using d(7) [OF q] by blast
    then show ?thesis using st ne by (simp add: pool_step_def rm_view_def)
  qed
  have "page_table s' (rm_pid g RM_FILE_HDR_PAGE) = None"
    using st d(5) ne unfolding pool_step_def by blast
  then show "rm_base g s'"
    using d st v unfolding rm_base_def by (auto simp: pool_step_def bp.same_use_def)
  show "rm_contents g s' = rm_contents g s"
    by (rule ext) (use v in \<open>auto simp: rm_contents_def\<close>)
qed

lemma rm_write_page:
  assumes "rm_base h s" "page_range h p" "rm_room s" "rm_view h s p = Some c" "length c' = PAGE_SIZE"
  obtains f s1 s2 where "rm_fetch_page_handle h s p = (Inr f, s1)" "pg_data (frame s1 f) = c"
    "pg_id (frame s1 f) = rm_pid h p" "\<And>x. pg_id (frame (bpm_store s1 f x) f) = rm_pid h p"
    "bpm_unpin_page (bpm_store s1 f c') (rm_pid h p) True = (True, s2)" "pool_step h s p c' s2"
proof (rule rm_update_page_base [OF assms])
  fix f s1 s2
  assume r: "rm_fetch_page_handle h s p = (Inr f, s1)" "pg_data (frame s1 f) = c"
      "bpm_fetch_page s (rm_pid h p) = (Inr (Some f), s1)"
      "pg_id (frame s1 f) = rm_pid h p" "\<And>x. pg_id (frame (bpm_store s1 f x) f) = rm_pid h p"
      "bpm_unpin_page (bpm_store s1 f c') (rm_pid h p) True = (True, s2)"
      "bp.same_use s s2" "rm_view h s2 p = Some c'"
      "\<And>q' x. q' \<noteq> rm_pid h p \<Longrightarrow> bpm_view s q' = Some x \<Longrightarrow> bpm_view s2 q' = Some x"
      "fd2pageno (disk s2) = fd2pageno (disk s)"
      "\<And>r. page_table s2 r \<noteq> None \<Longrightarrow> r = rm_pid h p \<or> page_table s r \<noteq> None"
  have "pool_step h s p c' s2" using r(7-11) unfolding pool_step_def by blast
  then show ?thesis by (rule that [OF r(1,2,4,5,6)])
qed

section \<open>The operations at a position\<close>

text \<open>The page a position is on, and what each operation writes to it.\<close>

lemma base_page:
  assumes "rm_base h s" "page_range h p"
  obtains c where "rm_view h s p = Some c" "length c = PAGE_SIZE" "ph_num_records c = used (rm_hdr h) c"
  using rm_baseD(7) [OF assms] by (auto simp: rm_page_ok_def)

lemma rm_update_record_base:
  assumes b: "rm_base h s" and p: "page_range h (page_no r)" and i: "slot_ok (rm_hdr h) (slot_no r)"
    and room: "rm_room s" and buf: "length buf = nat (record_size (rm_hdr h))"
  obtains c s' where "rm_update_record (h, s) r buf = (Inr (), (h, s'))" "pool_step h s (page_no r) c s'"
    "rm_page_ok (rm_hdr h) c"
    "rm_contents h s' = (if rm_contents h s r = None then rm_contents h s else (rm_contents h s)(r \<mapsto> buf))"
proof -
  note hd = rm_baseD(2) [OF b]
  obtain c where c: "rm_view h s (page_no r) = Some c" "length c = PAGE_SIZE" "ph_num_records c = used (rm_hdr h) c"
    by (rule base_page [OF b p])
  define c' where "c' = put_slot (rm_hdr h) c (slot_no r) buf"
  note ps = hd i c(2)
  have l': "length c' = PAGE_SIZE" using ps by (simp add: c'_def page_simps)
  obtain f s1 s2 where u: "rm_fetch_page_handle h s (page_no r) = (Inr f, s1)" "pg_data (frame s1 f) = c"
    "\<And>x. pg_id (frame (bpm_store s1 f x) f) = rm_pid h (page_no r)"
    "bpm_unpin_page (bpm_store s1 f c') (rm_pid h (page_no r)) True = (True, s2)" "pool_step h s (page_no r) c' s2"
    by (rule rm_write_page [OF b p room c(1) l']) blast
  have ok: "rm_page_ok (rm_hdr h) c'" using ps c(3) l' by (simp add: rm_page_ok_def c'_def page_simps)
  have res: "rm_update_record (h, s) r buf = (Inr (), (h, s2))"
    using u by (simp add: rm_update_record_def c'_def)
  have cont: "rm_contents h s2 = (rm_contents h s)(mk_rid (page_no r) (slot_no r) :=
       if bm_is_set c' OFFSET_BITMAP (slot_no r) then Some (get_slot (rm_hdr h) c' (slot_no r)) else None)"
    using contents_changed [OF pool_step_changed [OF b p u(5)] c(1) p _ i, of "first_free_page_no (rm_hdr h)"] ps buf
    by (simp add: c'_def page_simps)
  have old: "rm_contents h s r = None \<longleftrightarrow> \<not> bm_is_set c OFFSET_BITMAP (slot_no r)"
    using p i c(1) by (simp add: rm_contents_def)
  show ?thesis
    by (rule that [OF res u(5) ok]) (use cont old ps buf in \<open>auto simp: c'_def page_simps fun_upd_idem\<close>)
qed

lemma rm_insert_at_base:
  assumes b: "rm_base h s" and p: "page_range h (page_no r)" and i: "slot_ok (rm_hdr h) (slot_no r)"
    and room: "rm_room s" and buf: "length buf = nat (record_size (rm_hdr h))"
  obtains F c s' where "rm_insert_record_at (h, s) r buf = (Inr (), (set_first_free h F, s'))"
    "pool_step h s (page_no r) c s'" "rm_page_ok (rm_hdr h) c"
    "rm_contents (set_first_free h F) s' = (rm_contents h s)(r \<mapsto> buf)"
proof -
  let ?g = "rm_hdr h" and ?i = "slot_no r" and ?n = "num_records_per_page (rm_hdr h)"
  note hd = rm_baseD(2) [OF b]
  obtain c where c: "rm_view h s (page_no r) = Some c" "length c = PAGE_SIZE" "ph_num_records c = used ?g c"
    by (rule base_page [OF b p])
  define isset where "isset = bm_is_set c OFFSET_BITMAP ?i"
  define c1 where "c1 = put_slot ?g c ?i buf"
  define c1n where "c1n = ph_set_num_records c1 (ph_num_records c1 + 1)"
  define c2 where "c2 = (if isset then c1 else bm_set c1n OFFSET_BITMAP ?i)"
  define full where "full \<longleftrightarrow> ph_num_records c2 = ?n"
  define c3 where "c3 = (if full then ph_set_next_free c2 RM_NO_PAGE else c2)"
  define F where "F = (if full then ph_next_free c2 else first_free_page_no ?g)"
  note ps = hd i c(2)
  have b': "nat (record_size ?g) \<le> length buf" "take (nat (record_size ?g)) buf = buf" using buf by simp_all
  have c1: "length c1 = PAGE_SIZE" "ph_num_records c1 = used ?g c" "used ?g c1 = used ?g c"
    using ps c(3) by (simp_all add: c1_def page_simps)
  have bits1: "bm_is_set c1 OFFSET_BITMAP j = bm_is_set c OFFSET_BITMAP j"
    "get_slot ?g c1 j = (if j = ?i then buf else get_slot ?g c j)" if "slot_ok ?g j" for j
    using ps that b' by (simp_all add: c1_def page_simps)
  have c1n: "length c1n = PAGE_SIZE" "used ?g c1n = used ?g c" "ph_num_records c1n = used ?g c + 1"
    using c1 hd used_range [OF hd, of c] by (simp_all add: c1n_def page_simps)
  have bits1n: "bm_is_set c1n OFFSET_BITMAP j = bm_is_set c OFFSET_BITMAP j" "get_slot ?g c1n j = get_slot ?g c1 j"
    if "slot_ok ?g j" for j
    using c1(1) hd that bits1 [OF that] by (simp_all add: c1n_def page_simps)
  have c2: "length c2 = PAGE_SIZE" "ph_num_records c2 = used ?g c2"
    using c1 c1n hd i bits1n(1) [OF i] by (auto simp: c2_def isset_def page_simps)
  have bits2: "bm_is_set c2 OFFSET_BITMAP j = (j = ?i \<or> bm_is_set c OFFSET_BITMAP j)" "get_slot ?g c2 j = get_slot ?g c1 j"
    if "slot_ok ?g j" for j
    using c1n(1) hd i that bits1 [OF that] bits1n [OF that] by (auto simp: c2_def isset_def page_simps)
  have c3: "length c3 = PAGE_SIZE" "rm_page_ok ?g c3" using c2 hd by (auto simp: c3_def rm_page_ok_def page_simps)
  have bits3: "bm_is_set c3 OFFSET_BITMAP j = (j = ?i \<or> bm_is_set c OFFSET_BITMAP j)" "get_slot ?g c3 j = get_slot ?g c1 j"
    if "slot_ok ?g j" for j
    using c2(1) hd that bits2 [OF that] by (simp_all add: c3_def page_simps)
  obtain f s1 s2 where u: "rm_fetch_page_handle h s (page_no r) = (Inr f, s1)" "pg_data (frame s1 f) = c"
    "\<And>x. pg_id (frame (bpm_store s1 f x) f) = rm_pid h (page_no r)"
    "bpm_unpin_page (bpm_store s1 f c3) (rm_pid h (page_no r)) True = (True, s2)" "pool_step h s (page_no r) c3 s2"
    by (rule rm_write_page [OF b p room c(1) c3(1)]) blast
  have hdr: "(if full then ?g\<lparr>first_free_page_no := ph_next_free c2\<rparr> else ?g) = ?g\<lparr>first_free_page_no := F\<rparr>"
    by (simp add: F_def)
  have res: "rm_insert_record_at (h, s) r buf = (Inr (), (set_first_free h F, s2))"
    unfolding rm_insert_record_at_def
    by (simp only: prod.case u(1) sum.case Let_def u(2) c1_def [symmetric] isset_def [symmetric] c1n_def [symmetric] c2_def [symmetric]
        full_def [symmetric] hdr c3_def [symmetric] u(3,4) snd_conv)
  have cont: "rm_contents (set_first_free h F) s2 = (rm_contents h s)(mk_rid (page_no r) ?i := Some buf)"
    using contents_changed [OF pool_step_changed [OF b p u(5)] c(1) p _ i] bits3 bits1 i by simp
  show ?thesis by (rule that [OF res u(5) c3(2)]) (use cont in simp)
qed

lemma rm_delete_record_base:
  assumes b: "rm_base h s" and p: "page_range h (page_no r)" and i: "slot_ok (rm_hdr h) (slot_no r)" and room: "rm_room s"
  obtains F c s' where "rm_delete_record (h, s) r = (Inr (), (set_first_free h F, s'))"
    "pool_step h s (page_no r) c s'" "rm_page_ok (rm_hdr h) c"
    "rm_contents (set_first_free h F) s' = (rm_contents h s)(r := None)"
proof -
  let ?p = "page_no r" and ?g = "rm_hdr h" and ?i = "slot_no r" and ?n = "num_records_per_page (rm_hdr h)"
  note hd = rm_baseD(2) [OF b]
  obtain c where c: "rm_view h s ?p = Some c" "length c = PAGE_SIZE" "ph_num_records c = used ?g c"
    by (rule base_page [OF b p])
  define c1 where "c1 = (if bm_is_set c OFFSET_BITMAP ?i
      then ph_set_num_records (bm_reset c OFFSET_BITMAP ?i) (ph_num_records (bm_reset c OFFSET_BITMAP ?i) - 1) else c)"
  have lr: "length (bm_reset c OFFSET_BITMAP ?i) = PAGE_SIZE" using c(2) by simp
  have c1: "length c1 = PAGE_SIZE" "ph_num_records c1 = used ?g c1"
    using c hd i lr used_range [OF hd, of c] by (auto simp: c1_def page_simps)
  have bits1: "bm_is_set c1 OFFSET_BITMAP j = (j \<noteq> ?i \<and> bm_is_set c OFFSET_BITMAP j)" "get_slot ?g c1 j = get_slot ?g c j"
    if "slot_ok ?g j" for j
    using c(2) hd i lr that by (auto simp: c1_def page_simps)
  obtain F c2 where rel: "(if ph_num_records c1 = ?n - 1 then rm_release_page_handle ?g ?p c1 else (?g, c1)) =
      (?g\<lparr>first_free_page_no := F\<rparr>, c2)" "c2 = c1 \<or> (\<exists>q. c2 = ph_set_next_free c1 q)"
  proof -
    let ?R = "if ph_num_records c1 = ?n - 1 then rm_release_page_handle ?g ?p c1 else (?g, c1)"
    have "?g = ?g\<lparr>first_free_page_no := first_free_page_no ?g\<rparr>" by simp
    then show ?thesis
      by (intro that [of "first_free_page_no (fst ?R)" "snd ?R"]) (auto simp: rm_release_page_handle_def)
  qed
  have c2: "length c2 = PAGE_SIZE" "rm_page_ok ?g c2" using rel(2) c1 hd by (auto simp: rm_page_ok_def page_simps)
  have bits2: "bm_is_set c2 OFFSET_BITMAP j = (j \<noteq> ?i \<and> bm_is_set c OFFSET_BITMAP j)" "get_slot ?g c2 j = get_slot ?g c j"
    if "slot_ok ?g j" for j
    using rel(2) c1(1) hd that bits1 [OF that] by (auto simp: page_simps)
  obtain f s1 s2 where u: "rm_fetch_page_handle h s ?p = (Inr f, s1)" "pg_data (frame s1 f) = c"
    "pg_id (frame s1 f) = rm_pid h ?p" "\<And>x. pg_id (frame (bpm_store s1 f x) f) = rm_pid h ?p"
    "bpm_unpin_page (bpm_store s1 f c2) (rm_pid h ?p) True = (True, s2)" "pool_step h s ?p c2 s2"
    by (rule rm_write_page [OF b p room c(1) c2(1)]) blast
  have pp: "ppage (rm_pid h ?p) = ?p" by (simp add: rm_pid_def)
  have res: "rm_delete_record (h, s) r = (Inr (), (set_first_free h F, s2))"
    unfolding rm_delete_record_def
    by (simp only: prod.case u(1) sum.case Let_def u(2) c1_def [symmetric] u(3) pp rel(1) u(4) u(5) snd_conv)
  have cont: "rm_contents (set_first_free h F) s2 = (rm_contents h s)(mk_rid ?p ?i := None)"
    using contents_changed [OF pool_step_changed [OF b p u(6)] c(1) p _ i] bits2 i by simp
  show ?thesis by (rule that [OF res u(6) c2(2)]) (use cont in simp)
qed

section \<open>All tables over one pool\<close>

text \<open>
  \<^verbatim>\<open>SmManager::fhs_\<close> and the pool. An operation on the handle of a table that is not open is a
  call through a null pointer.
\<close>

record rm_db =
  fhs :: "string \<rightharpoonup> rm_file"
  pool :: bpm

definition on_table :: "rm_db \<Rightarrow> string \<Rightarrow> (rm_state \<Rightarrow> ('a, rm_state) outcome) \<Rightarrow> ('a, rm_db) outcome" where
  "on_table db n op =
    (case fhs db n of
       None \<Rightarrow> (Inl NullDeref, db)
     | Some h \<Rightarrow> (case op (h, pool db) of (res, (h', s')) \<Rightarrow> (res, db\<lparr>fhs := (fhs db)(n \<mapsto> h'), pool := s'\<rparr>)))"

definition db_insert_at :: "rm_db \<Rightarrow> string \<Rightarrow> rid \<Rightarrow> bytes \<Rightarrow> (unit, rm_db) outcome" where
  "db_insert_at db n r b = on_table db n (\<lambda>st. rm_insert_record_at st r b)"

definition db_delete :: "rm_db \<Rightarrow> string \<Rightarrow> rid \<Rightarrow> (unit, rm_db) outcome" where
  "db_delete db n r = on_table db n (\<lambda>st. rm_delete_record st r)"

definition db_update :: "rm_db \<Rightarrow> string \<Rightarrow> rid \<Rightarrow> bytes \<Rightarrow> (unit, rm_db) outcome" where
  "db_update db n r b = on_table db n (\<lambda>st. rm_update_record st r b)"

definition db_ok :: "rm_db \<Rightarrow> bool" where
  "db_ok db \<longleftrightarrow> (\<forall>n h. fhs db n = Some h \<longrightarrow> rm_base h (pool db)) \<and>
     (\<forall>n m g h. fhs db n = Some g \<and> fhs db m = Some h \<and> n \<noteq> m \<longrightarrow> rm_fd g \<noteq> rm_fd h) \<and> rm_room (pool db)"

definition db_tab :: "rm_db \<Rightarrow> string \<Rightarrow> rid \<rightharpoonup> bytes" where
  "db_tab db n r = (case fhs db n of None \<Rightarrow> None | Some h \<Rightarrow> rm_contents h (pool db) r)"

text \<open>A row fits a table: its position is within the file and its length is the record size.\<close>

definition db_fits :: "rm_db \<Rightarrow> string \<Rightarrow> rid \<Rightarrow> nat \<Rightarrow> bool" where
  "db_fits db n r k \<longleftrightarrow> (\<exists>h. fhs db n = Some h \<and> page_range h (page_no r) \<and> slot_ok (rm_hdr h) (slot_no r) \<and>
     k = nat (record_size (rm_hdr h)))"

lemma on_table_step:
  assumes ok: "db_ok db" and h: "fhs db n = Some h" and op: "op (h, pool db) = (Inr (), (set_first_free h F, s'))"
    and p: "page_range h p" and st: "pool_step h (pool db) p c s'" and c: "rm_page_ok (rm_hdr h) c"
    and cont: "rm_contents (set_first_free h F) s' = T"
  shows "\<exists>db'. on_table db n op = (Inr (), db') \<and> db_ok db' \<and> db_tab db' = (db_tab db)(n := T) \<and>
    db_fits db' = db_fits db \<and> dom (fhs db') = dom (fhs db)"
proof -
  let ?db = "db\<lparr>fhs := (fhs db)(n \<mapsto> set_first_free h F), pool := s'\<rparr>"
  have base: "rm_base g (pool db)" if "fhs db m = Some g" for m g using ok that by (auto simp: db_ok_def)
  have fd: "rm_fd g \<noteq> rm_fd h" if "fhs db m = Some g" "m \<noteq> n" for m g using ok that h by (auto simp: db_ok_def)
  have room: "rm_room s'" using ok st by (simp add: db_ok_def rm_room_def pool_step_def bp.same_use_def)
  have others: "rm_base g s' \<and> rm_contents g s' = rm_contents g (pool db)" if "fhs db m = Some g" "m \<noteq> n" for m g
    using pool_step_other [OF base [OF that(1)] fd [OF that] st] by blast
  have "db_ok ?db"
    unfolding db_ok_def
  proof (intro conjI allI impI)
    fix m g assume "fhs ?db m = Some g"
    then show "rm_base g (pool ?db)"
      using pool_step_base [OF base [OF h] p st c, of F] others by (cases "m = n") auto
  next
    fix m m' g g'
    assume "fhs ?db m = Some g \<and> fhs ?db m' = Some g' \<and> m \<noteq> m'"
    then show "rm_fd g \<noteq> rm_fd g'"
      using ok fd unfolding db_ok_def by (cases "m = n"; cases "m' = n") (auto, metis)
  qed (use room in simp)
  moreover have "db_tab ?db = (db_tab db)(n := T)"
  proof (rule ext)
    fix m
    show "db_tab ?db m = ((db_tab db)(n := T)) m"
      using cont others [of m] by (cases "m = n") (auto simp: db_tab_def fun_eq_iff split: option.splits)
  qed
  moreover have "db_fits ?db = db_fits db"
    using h by (auto simp: db_fits_def fun_eq_iff page_range_def)
  ultimately show ?thesis using op h by (auto simp: on_table_def)
qed

section \<open>The contract towards rollback and recovery\<close>

locale row_db =
  fixes ins :: "'s \<Rightarrow> string \<Rightarrow> rid \<Rightarrow> bytes \<Rightarrow> (unit, 's) outcome"
    and del :: "'s \<Rightarrow> string \<Rightarrow> rid \<Rightarrow> (unit, 's) outcome"
    and upd :: "'s \<Rightarrow> string \<Rightarrow> rid \<Rightarrow> bytes \<Rightarrow> (unit, 's) outcome"
    and tabs :: "'s \<Rightarrow> string \<Rightarrow> rid \<rightharpoonup> bytes"
    and ok :: "'s \<Rightarrow> bool"
    and fits :: "'s \<Rightarrow> string \<Rightarrow> rid \<Rightarrow> nat \<Rightarrow> bool"
  assumes ins_row: "\<lbrakk>ok s; fits s n r (length b)\<rbrakk> \<Longrightarrow>
      \<exists>s'. ins s n r b = (Inr (), s') \<and> ok s' \<and> tabs s' = (tabs s)(n := (tabs s n)(r \<mapsto> b)) \<and> fits s' = fits s"
    and del_row: "\<lbrakk>ok s; fits s n r k\<rbrakk> \<Longrightarrow>
      \<exists>s'. del s n r = (Inr (), s') \<and> ok s' \<and> tabs s' = (tabs s)(n := (tabs s n)(r := None)) \<and> fits s' = fits s"
    and upd_row: "\<lbrakk>ok s; fits s n r (length b)\<rbrakk> \<Longrightarrow>
      \<exists>s'. upd s n r b = (Inr (), s') \<and> ok s' \<and> fits s' = fits s \<and>
        tabs s' = (if tabs s n r = None then tabs s else (tabs s)(n := (tabs s n)(r \<mapsto> b)))"

text \<open>
  Under this contract, executing a list of changes again and taking it back are the folds of
  \<open>redo_row\<close> and \<open>undo_row\<close> over the tables.
\<close>

context row_db
begin

fun redo_op :: "row_op \<Rightarrow> 's \<Rightarrow> (unit, 's) outcome" where
  "redo_op (RowInsert n r b) s = ins s n r b"
| "redo_op (RowDelete n r b) s = del s n r"
| "redo_op (RowUpdate n r b c) s = upd s n r c"

fun undo_op :: "row_op \<Rightarrow> 's \<Rightarrow> (unit, 's) outcome" where
  "undo_op (RowInsert n r b) s = del s n r"
| "undo_op (RowDelete n r b) s = ins s n r b"
| "undo_op (RowUpdate n r b c) s = upd s n r b"

fun run_ops :: "(row_op \<Rightarrow> 's \<Rightarrow> (unit, 's) outcome) \<Rightarrow> row_op list \<Rightarrow> 's \<Rightarrow> (unit, 's) outcome" where
  "run_ops f [] s = (Inr (), s)"
| "run_ops f (p # ps) s = (case f p s of (Inl e, s') \<Rightarrow> (Inl e, s') | (Inr _, s') \<Rightarrow> run_ops f ps s')"

fun op_fits :: "'s \<Rightarrow> row_op \<Rightarrow> bool" where
  "op_fits s (RowInsert n r b) \<longleftrightarrow> fits s n r (length b)"
| "op_fits s (RowDelete n r b) \<longleftrightarrow> fits s n r (length b)"
| "op_fits s (RowUpdate n r b c) \<longleftrightarrow> fits s n r (length b) \<and> fits s n r (length c)"

lemma op_fits_cong: "fits s' = fits s \<Longrightarrow> op_fits s' p = op_fits s p"
  by (cases p) auto

lemma upd_cell: "(if T n r = None then T else T(n := (T n)(r \<mapsto> b))) = on_cell (\<lambda>x. if x = None then None else Some b) (n, r) T"
  by (rule tables_eqI) (auto simp: on_cell_apply)

lemma redo_op_row:
  assumes "ok s" "op_fits s p"
  obtains s' where "redo_op p s = (Inr (), s')" "ok s'" "tabs s' = redo_row p (tabs s)" "fits s' = fits s"
proof (cases p)
  case (RowInsert n r b)
  then show ?thesis using ins_row [OF assms(1), of n r b] assms(2) that by (auto simp: redo_row_def on_cell_def)
next
  case (RowDelete n r b)
  then show ?thesis using del_row [OF assms(1), of n r "length b"] assms(2) that by (auto simp: redo_row_def on_cell_def)
next
  case (RowUpdate n r b c)
  have e: "redo_cell p = (\<lambda>x. if x = None then None else Some c)" by (rule ext) (simp add: RowUpdate)
  from RowUpdate show ?thesis using upd_row [OF assms(1), of n r c] assms(2) that
    unfolding upd_cell redo_row_def e by auto
qed

lemma undo_op_row:
  assumes "ok s" "op_fits s p"
  obtains s' where "undo_op p s = (Inr (), s')" "ok s'" "tabs s' = undo_row p (tabs s)" "fits s' = fits s"
proof (cases p)
  case (RowInsert n r b)
  then show ?thesis using del_row [OF assms(1), of n r "length b"] assms(2) that by (auto simp: undo_row_def on_cell_def)
next
  case (RowDelete n r b)
  then show ?thesis using ins_row [OF assms(1), of n r b] assms(2) that by (auto simp: undo_row_def on_cell_def)
next
  case (RowUpdate n r b c)
  have e: "undo_cell p = (\<lambda>x. if x = None then None else Some b)" by (rule ext) (simp add: RowUpdate)
  from RowUpdate show ?thesis using upd_row [OF assms(1), of n r b] assms(2) that
    unfolding upd_cell undo_row_def e by auto
qed

lemma run_redo:
  assumes "ok s" "\<forall>p\<in>set ps. op_fits s p"
  shows "\<exists>s'. run_ops redo_op ps s = (Inr (), s') \<and> ok s' \<and> tabs s' = fold redo_row ps (tabs s) \<and> fits s' = fits s"
  using assms
proof (induction ps arbitrary: s)
  case (Cons p ps)
  have "op_fits s p" using Cons.prems(2) by simp
  then obtain s1 where s1: "redo_op p s = (Inr (), s1)" "ok s1" "tabs s1 = redo_row p (tabs s)" "fits s1 = fits s"
    by (rule redo_op_row [OF Cons.prems(1)])
  have "\<forall>q\<in>set ps. op_fits s1 q" using Cons.prems(2) op_fits_cong [OF s1(4)] by simp
  from Cons.IH [OF s1(2) this] s1 show ?case by auto
qed simp

lemma run_undo:
  assumes "ok s" "\<forall>p\<in>set ps. op_fits s p"
  shows "\<exists>s'. run_ops undo_op ps s = (Inr (), s') \<and> ok s' \<and> tabs s' = fold undo_row ps (tabs s) \<and> fits s' = fits s"
  using assms
proof (induction ps arbitrary: s)
  case (Cons p ps)
  have "op_fits s p" using Cons.prems(2) by simp
  then obtain s1 where s1: "undo_op p s = (Inr (), s1)" "ok s1" "tabs s1 = undo_row p (tabs s)" "fits s1 = fits s"
    by (rule undo_op_row [OF Cons.prems(1)])
  have "\<forall>q\<in>set ps. op_fits s1 q" using Cons.prems(2) op_fits_cong [OF s1(4)] by simp
  from Cons.IH [OF s1(2) this] s1 show ?case by auto
qed simp

lemma run_ops_append:
  "run_ops f (ps @ qs) s = (case run_ops f ps s of (Inl e, s') \<Rightarrow> (Inl e, s') | (Inr _, s') \<Rightarrow> run_ops f qs s')"
  by (induction ps arbitrary: s) (auto split: prod.splits sum.splits)

end

interpretation rdb: row_db db_insert_at db_delete db_update db_tab db_ok db_fits
proof unfold_locales
  fix db n r and b :: bytes
  assume ok: "db_ok db" and "db_fits db n r (length b)"
  then obtain h where h: "fhs db n = Some h" "page_range h (page_no r)" "slot_ok (rm_hdr h) (slot_no r)"
    "length b = nat (record_size (rm_hdr h))" by (auto simp: db_fits_def)
  have base: "rm_base h (pool db)" "rm_room (pool db)" using ok h(1) by (auto simp: db_ok_def)
  have tab: "db_tab db n = rm_contents h (pool db)" by (simp add: db_tab_def h(1) fun_eq_iff)
  obtain F c s' where i: "rm_insert_record_at (h, pool db) r b = (Inr (), (set_first_free h F, s'))"
    "pool_step h (pool db) (page_no r) c s'" "rm_page_ok (rm_hdr h) c"
    "rm_contents (set_first_free h F) s' = (rm_contents h (pool db))(r \<mapsto> b)"
    by (rule rm_insert_at_base [OF base(1) h(2,3) base(2) h(4)])
  show "\<exists>s'. db_insert_at db n r b = (Inr (), s') \<and> db_ok s' \<and>
      db_tab s' = (db_tab db)(n := (db_tab db n)(r \<mapsto> b)) \<and> db_fits s' = db_fits db"
    unfolding db_insert_at_def tab
    by (rule exE [OF on_table_step [OF ok h(1) _ h(2) i(2,3,4), of "\<lambda>st. rm_insert_record_at st r b"]])
      (use i(1) in auto)
next
  fix db n r k
  assume ok: "db_ok db" and "db_fits db n r k"
  then obtain h where h: "fhs db n = Some h" "page_range h (page_no r)" "slot_ok (rm_hdr h) (slot_no r)"
    by (auto simp: db_fits_def)
  have base: "rm_base h (pool db)" "rm_room (pool db)" using ok h(1) by (auto simp: db_ok_def)
  have tab: "db_tab db n = rm_contents h (pool db)" by (simp add: db_tab_def h(1) fun_eq_iff)
  obtain F c s' where i: "rm_delete_record (h, pool db) r = (Inr (), (set_first_free h F, s'))"
    "pool_step h (pool db) (page_no r) c s'" "rm_page_ok (rm_hdr h) c"
    "rm_contents (set_first_free h F) s' = (rm_contents h (pool db))(r := None)"
    by (rule rm_delete_record_base [OF base(1) h(2,3) base(2)])
  show "\<exists>s'. db_delete db n r = (Inr (), s') \<and> db_ok s' \<and>
      db_tab s' = (db_tab db)(n := (db_tab db n)(r := None)) \<and> db_fits s' = db_fits db"
    unfolding db_delete_def tab
    by (rule exE [OF on_table_step [OF ok h(1) _ h(2) i(2,3,4), of "\<lambda>st. rm_delete_record st r"]])
      (use i(1) in auto)
next
  fix db n r and b :: bytes
  assume ok: "db_ok db" and "db_fits db n r (length b)"
  then obtain h where h: "fhs db n = Some h" "page_range h (page_no r)" "slot_ok (rm_hdr h) (slot_no r)"
    "length b = nat (record_size (rm_hdr h))" by (auto simp: db_fits_def)
  have base: "rm_base h (pool db)" "rm_room (pool db)" using ok h(1) by (auto simp: db_ok_def)
  have tab: "db_tab db n = rm_contents h (pool db)" by (simp add: db_tab_def h(1) fun_eq_iff)
  let ?T = "if rm_contents h (pool db) r = None then rm_contents h (pool db) else (rm_contents h (pool db))(r \<mapsto> b)"
  obtain c s' where i: "rm_update_record (h, pool db) r b = (Inr (), (h, s'))"
    "pool_step h (pool db) (page_no r) c s'" "rm_page_ok (rm_hdr h) c" "rm_contents h s' = ?T"
    by (rule rm_update_record_base [OF base(1) h(2,3) base(2) h(4)])
  have "\<exists>db'. on_table db n (\<lambda>st. rm_update_record st r b) = (Inr (), db') \<and> db_ok db' \<and>
      db_tab db' = (db_tab db)(n := ?T) \<and> db_fits db' = db_fits db \<and> dom (fhs db') = dom (fhs db)"
    using on_table_step [OF ok h(1) _ h(2) i(2,3), of "\<lambda>st. rm_update_record st r b" "first_free_page_no (rm_hdr h)"]
      i(1,4) by simp
  moreover have "(db_tab db)(n := ?T) = (if db_tab db n r = None then db_tab db else (db_tab db)(n := (db_tab db n)(r \<mapsto> b)))"
    by (auto simp: tab fun_eq_iff)
  ultimately show "\<exists>s'. db_update db n r b = (Inr (), s') \<and> db_ok s' \<and> db_fits s' = db_fits db \<and>
      db_tab s' = (if db_tab db n r = None then db_tab db else (db_tab db)(n := (db_tab db n)(r \<mapsto> b)))"
    unfolding db_update_def by auto
qed

end
