(* ===== verification/Log_Record.thy ===== *)
theory Log_Record
  imports Rmdb_Prelude
begin

text \<open>
  The write-ahead log records of \<^verbatim>\<open>src/src/recovery/log_manager.h\<close> and
  \<^verbatim>\<open>src/src/recovery/log_defs.h\<close>: the header every record starts with, the seven record
  classes with their constructors, and \<^verbatim>\<open>serialize\<close>/\<^verbatim>\<open>deserialize\<close>, written as the sequence
  of \<^verbatim>\<open>memcpy\<close> calls on a buffer the source has. The main results are that serialising
  changes exactly the \<^verbatim>\<open>log_tot_len_\<close> bytes of the record and that reading the record back,
  by its class or by the type found in its header, returns it.
\<close>

section \<open>Record headers\<close>

datatype log_type = UPDATE | INSERT | DELETE | LOG_BEGIN | LOG_COMMIT | ABORT | STATIC_CHECKPOINT

fun log_type_code :: "log_type \<Rightarrow> int" where
  "log_type_code UPDATE = 0"
| "log_type_code INSERT = 1"
| "log_type_code DELETE = 2"
| "log_type_code LOG_BEGIN = 3"
| "log_type_code LOG_COMMIT = 4"
| "log_type_code ABORT = 5"
| "log_type_code STATIC_CHECKPOINT = 6"

definition OFFSET_LOG_TYPE :: nat where "OFFSET_LOG_TYPE = 0"
definition OFFSET_LSN :: nat where "OFFSET_LSN = 4"
definition OFFSET_LOG_TOT_LEN :: nat where "OFFSET_LOG_TOT_LEN = OFFSET_LSN + 4"
definition OFFSET_LOG_TID :: nat where "OFFSET_LOG_TID = OFFSET_LOG_TOT_LEN + 4"
definition OFFSET_PREV_LSN :: nat where "OFFSET_PREV_LSN = OFFSET_LOG_TID + 4"
definition OFFSET_LOG_DATA :: nat where "OFFSET_LOG_DATA = OFFSET_PREV_LSN + 4"
definition LOG_HEADER_SIZE :: nat where "LOG_HEADER_SIZE = OFFSET_LOG_DATA"

lemmas log_offsets = OFFSET_LOG_TYPE_def OFFSET_LSN_def OFFSET_LOG_TOT_LEN_def OFFSET_LOG_TID_def
  OFFSET_PREV_LSN_def OFFSET_LOG_DATA_def LOG_HEADER_SIZE_def

text \<open>The members of the base class; the type is the number stored in the file.\<close>

record log_base =
  lb_type :: int
  lb_lsn :: lsn
  lb_tot_len :: int
  lb_tid :: txn_id
  lb_prev_lsn :: lsn

text \<open>\<^verbatim>\<open>LogRecord::serialize\<close> and \<^verbatim>\<open>LogRecord::deserialize\<close> at an offset of a buffer.\<close>

definition base_serialize :: "log_base \<Rightarrow> bytes \<Rightarrow> nat \<Rightarrow> bytes" where
  "base_serialize b d off =
    (let d = put_int d (off + OFFSET_LOG_TYPE) (lb_type b);
         d = put_int d (off + OFFSET_LSN) (lb_lsn b);
         d = mem_write d (off + OFFSET_LOG_TOT_LEN) (le_enc 4 (lb_tot_len b));
         d = put_int d (off + OFFSET_LOG_TID) (lb_tid b)
     in put_int d (off + OFFSET_PREV_LSN) (lb_prev_lsn b))"

definition base_deserialize :: "bytes \<Rightarrow> nat \<Rightarrow> log_base" where
  "base_deserialize d off =
    \<lparr>lb_type = get_int d (off + OFFSET_LOG_TYPE), lb_lsn = get_int d (off + OFFSET_LSN),
     lb_tot_len = get_uint 4 d (off + OFFSET_LOG_TOT_LEN), lb_tid = get_int d (off + OFFSET_LOG_TID),
     lb_prev_lsn = get_int d (off + OFFSET_PREV_LSN)\<rparr>"

section \<open>The record classes\<close>

datatype log_record =
    BeginLogRecord log_base
  | CommitLogRecord log_base
  | AbortLogRecord log_base
  | StaticCKPTLogRecord log_base
  | InsertLogRecord log_base bytes rid string
  | DeleteLogRecord log_base bytes rid string
  | UpdateLogRecord log_base bytes bytes rid string

fun log_base_of :: "log_record \<Rightarrow> log_base" where
  "log_base_of (BeginLogRecord b) = b"
| "log_base_of (CommitLogRecord b) = b"
| "log_base_of (AbortLogRecord b) = b"
| "log_base_of (StaticCKPTLogRecord b) = b"
| "log_base_of (InsertLogRecord b v r n) = b"
| "log_base_of (DeleteLogRecord b v r n) = b"
| "log_base_of (UpdateLogRecord b v w r n) = b"

fun map_base :: "(log_base \<Rightarrow> log_base) \<Rightarrow> log_record \<Rightarrow> log_record" where
  "map_base f (BeginLogRecord b) = BeginLogRecord (f b)"
| "map_base f (CommitLogRecord b) = CommitLogRecord (f b)"
| "map_base f (AbortLogRecord b) = AbortLogRecord (f b)"
| "map_base f (StaticCKPTLogRecord b) = StaticCKPTLogRecord (f b)"
| "map_base f (InsertLogRecord b v r n) = InsertLogRecord (f b) v r n"
| "map_base f (DeleteLogRecord b v r n) = DeleteLogRecord (f b) v r n"
| "map_base f (UpdateLogRecord b v w r n) = UpdateLogRecord (f b) v w r n"

lemma log_base_of_map [simp]: "log_base_of (map_base f r) = f (log_base_of r)"
  by (cases r) auto

text \<open>The default constructors, then the constructors with arguments.\<close>

definition new_base :: "log_type \<Rightarrow> log_base" where
  "new_base ty = \<lparr>lb_type = log_type_code ty, lb_lsn = INVALID_LSN, lb_tot_len = int LOG_HEADER_SIZE,
     lb_tid = INVALID_TXN_ID, lb_prev_lsn = INVALID_LSN\<rparr>"

definition new_begin_log :: "txn_id \<Rightarrow> log_record" where
  "new_begin_log t = BeginLogRecord ((new_base LOG_BEGIN)\<lparr>lb_tid := t\<rparr>)"

definition new_commit_log :: "txn_id \<Rightarrow> log_record" where
  "new_commit_log t = CommitLogRecord ((new_base LOG_COMMIT)\<lparr>lb_tid := t\<rparr>)"

definition new_abort_log :: "txn_id \<Rightarrow> log_record" where
  "new_abort_log t = AbortLogRecord ((new_base ABORT)\<lparr>lb_tid := t\<rparr>)"

definition new_ckpt_log :: log_record where
  "new_ckpt_log = StaticCKPTLogRecord (new_base STATIC_CHECKPOINT)"

definition new_insert_log :: "txn_id \<Rightarrow> bytes \<Rightarrow> rid \<Rightarrow> string \<Rightarrow> log_record" where
  "new_insert_log t v r n = InsertLogRecord ((new_base INSERT)\<lparr>lb_tid := t,
     lb_tot_len := int (LOG_HEADER_SIZE + 4 + length v + 8 + (8 + length n))\<rparr>) v r n"

definition new_delete_log :: "txn_id \<Rightarrow> bytes \<Rightarrow> rid \<Rightarrow> string \<Rightarrow> log_record" where
  "new_delete_log t v r n = DeleteLogRecord ((new_base DELETE)\<lparr>lb_tid := t,
     lb_tot_len := int (LOG_HEADER_SIZE + 4 + length v + 8 + (8 + length n))\<rparr>) v r n"

definition new_update_log :: "txn_id \<Rightarrow> bytes \<Rightarrow> bytes \<Rightarrow> rid \<Rightarrow> string \<Rightarrow> log_record" where
  "new_update_log t v w r n = UpdateLogRecord ((new_base UPDATE)\<lparr>lb_tid := t,
     lb_tot_len := int (LOG_HEADER_SIZE + (4 + length v) + (4 + length w) + 8 + (8 + length n))\<rparr>) v w r n"

section \<open>Serialisation\<close>

definition string_bytes :: "string \<Rightarrow> bytes" where
  "string_bytes s = map (\<lambda>c. of_nat (of_char c)) s"

definition bytes_string :: "bytes \<Rightarrow> string" where
  "bytes_string bs = map (\<lambda>b. char_of (unat b)) bs"

text \<open>
  The pieces the three data records share: a sized value (as \<^verbatim>\<open>RmRecord::Deserialize\<close> reads it
  back), and the position with the table name.
\<close>

definition value_serialize :: "bytes \<Rightarrow> bytes \<Rightarrow> nat \<Rightarrow> bytes" where
  "value_serialize v d off = mem_write (put_int d off (int (length v))) (off + 4) v"

definition value_deserialize :: "bytes \<Rightarrow> nat \<Rightarrow> bytes" where
  "value_deserialize d off = mem_read d (off + 4) (nat (get_int d off))"

definition tail_serialize :: "rid \<Rightarrow> string \<Rightarrow> bytes \<Rightarrow> nat \<Rightarrow> bytes" where
  "tail_serialize r n d off =
    (let d = put_int d off (page_no r);
         d = put_int d (off + 4) (slot_no r);
         d = mem_write d (off + 8) (le_enc 8 (int (length n)))
     in mem_write d (off + 16) (string_bytes n))"

definition tail_deserialize :: "bytes \<Rightarrow> nat \<Rightarrow> rid \<times> string" where
  "tail_deserialize d off =
    (mk_rid (get_int d off) (get_int d (off + 4)),
     bytes_string (mem_read d (off + 16) (nat (get_uint 8 d (off + 8)))))"

definition insert_serialize :: "log_base \<Rightarrow> bytes \<Rightarrow> rid \<Rightarrow> string \<Rightarrow> bytes \<Rightarrow> nat \<Rightarrow> bytes" where
  "insert_serialize b v r n d off =
    tail_serialize r n (value_serialize v (base_serialize b d off) (off + OFFSET_LOG_DATA))
      (off + OFFSET_LOG_DATA + 4 + length v)"

definition delete_serialize :: "log_base \<Rightarrow> bytes \<Rightarrow> rid \<Rightarrow> string \<Rightarrow> bytes \<Rightarrow> nat \<Rightarrow> bytes" where
  "delete_serialize b v r n d off =
    tail_serialize r n (value_serialize v (base_serialize b d off) (off + OFFSET_LOG_DATA))
      (off + OFFSET_LOG_DATA + 4 + length v)"

definition update_serialize :: "log_base \<Rightarrow> bytes \<Rightarrow> bytes \<Rightarrow> rid \<Rightarrow> string \<Rightarrow> bytes \<Rightarrow> nat \<Rightarrow> bytes" where
  "update_serialize b v w r n d off =
    tail_serialize r n
      (value_serialize w (value_serialize v (base_serialize b d off) (off + OFFSET_LOG_DATA))
        (off + OFFSET_LOG_DATA + 4 + length v))
      (off + OFFSET_LOG_DATA + 4 + length v + 4 + length w)"

lemmas serialize_defs = insert_serialize_def delete_serialize_def update_serialize_def

text \<open>The virtual call: the record's class selects the method.\<close>

fun log_serialize :: "log_record \<Rightarrow> bytes \<Rightarrow> nat \<Rightarrow> bytes" where
  "log_serialize (InsertLogRecord b v r n) d off = insert_serialize b v r n d off"
| "log_serialize (DeleteLogRecord b v r n) d off = delete_serialize b v r n d off"
| "log_serialize (UpdateLogRecord b v w r n) d off = update_serialize b v w r n d off"
| "log_serialize r d off = base_serialize (log_base_of r) d off"

definition insert_deserialize :: "bytes \<Rightarrow> nat \<Rightarrow> log_record" where
  "insert_deserialize d off =
    (let v = value_deserialize d (off + OFFSET_LOG_DATA);
         (r, n) = tail_deserialize d (off + OFFSET_LOG_DATA + length v + 4)
     in InsertLogRecord (base_deserialize d off) v r n)"

definition delete_deserialize :: "bytes \<Rightarrow> nat \<Rightarrow> log_record" where
  "delete_deserialize d off =
    (let v = value_deserialize d (off + OFFSET_LOG_DATA);
         (r, n) = tail_deserialize d (off + OFFSET_LOG_DATA + length v + 4)
     in DeleteLogRecord (base_deserialize d off) v r n)"

definition update_deserialize :: "bytes \<Rightarrow> nat \<Rightarrow> log_record" where
  "update_deserialize d off =
    (let v = value_deserialize d (off + OFFSET_LOG_DATA);
         w = value_deserialize d (off + OFFSET_LOG_DATA + length v + 4);
         (r, n) = tail_deserialize d (off + OFFSET_LOG_DATA + length v + 4 + (length w + 4))
     in UpdateLogRecord (base_deserialize d off) v w r n)"

text \<open>
  The dispatch of \<^verbatim>\<open>RecoveryManager::analyze\<close>: the type in the header selects the class whose
  \<^verbatim>\<open>deserialize\<close> is called; an unknown type throws.
\<close>

definition log_deserialize :: "bytes \<Rightarrow> nat \<Rightarrow> rmdb_error + log_record" where
  "log_deserialize d off =
    (let b = base_deserialize d off; ty = lb_type b in
     if ty = log_type_code STATIC_CHECKPOINT then Inr (StaticCKPTLogRecord b)
     else if ty = log_type_code LOG_BEGIN then Inr (BeginLogRecord b)
     else if ty = log_type_code LOG_COMMIT then Inr (CommitLogRecord b)
     else if ty = log_type_code ABORT then Inr (AbortLogRecord b)
     else if ty = log_type_code UPDATE then Inr (update_deserialize d off)
     else if ty = log_type_code INSERT then Inr (insert_deserialize d off)
     else if ty = log_type_code DELETE then Inr (delete_deserialize d off)
     else Inl (InternalError ''Invalid log type''))"

section \<open>The bytes of a record\<close>

definition base_bytes :: "log_base \<Rightarrow> bytes" where
  "base_bytes b = enc_int (lb_type b) @ enc_int (lb_lsn b) @ le_enc 4 (lb_tot_len b) @ enc_int (lb_tid b) @
    enc_int (lb_prev_lsn b)"

definition value_bytes :: "bytes \<Rightarrow> bytes" where
  "value_bytes v = enc_int (int (length v)) @ v"

definition tail_bytes :: "rid \<Rightarrow> string \<Rightarrow> bytes" where
  "tail_bytes r n = enc_int (page_no r) @ enc_int (slot_no r) @ le_enc 8 (int (length n)) @ string_bytes n"

fun log_bytes :: "log_record \<Rightarrow> bytes" where
  "log_bytes (InsertLogRecord b v r n) = base_bytes b @ value_bytes v @ tail_bytes r n"
| "log_bytes (DeleteLogRecord b v r n) = base_bytes b @ value_bytes v @ tail_bytes r n"
| "log_bytes (UpdateLogRecord b v w r n) = base_bytes b @ value_bytes v @ value_bytes w @ tail_bytes r n"
| "log_bytes r = base_bytes (log_base_of r)"

lemma string_bytes_inverse [simp]: "bytes_string (string_bytes s) = s"
proof -
  have "char_of (unat (of_nat (of_char c) :: byte)) = c" for c
    by (simp add: unat_of_nat)
  then show ?thesis by (simp add: bytes_string_def string_bytes_def comp_def)
qed

lemma length_string_bytes [simp]: "length (string_bytes s) = length s"
  by (simp add: string_bytes_def)

lemma length_base_bytes [simp]: "length (base_bytes b) = 20"
  by (simp add: base_bytes_def)

lemma length_value_bytes [simp]: "length (value_bytes v) = 4 + length v"
  by (simp add: value_bytes_def)

lemma length_tail_bytes [simp]: "length (tail_bytes r n) = 16 + length n"
  by (simp add: tail_bytes_def)

text \<open>Consecutive copies are one copy of the concatenation.\<close>

lemma mem_write_write:
  "off' = off + length xs \<Longrightarrow> off + length xs + length ys \<le> length d \<Longrightarrow>
   mem_write (mem_write d off xs) off' ys = mem_write d off (xs @ ys)"
  by (simp add: mem_write_def ac_simps)

lemma base_serialize_bytes:
  "off + 20 \<le> length d \<Longrightarrow> base_serialize b d off = mem_write d off (base_bytes b)"
  by (simp add: base_serialize_def Let_def log_offsets put_int_def mem_write_write base_bytes_def)

lemma value_serialize_bytes:
  "off + 4 + length v \<le> length d \<Longrightarrow> value_serialize v d off = mem_write d off (value_bytes v)"
  by (simp add: value_serialize_def put_int_def mem_write_write value_bytes_def)

lemma tail_serialize_bytes:
  "off + 16 + length n \<le> length d \<Longrightarrow> tail_serialize r n d off = mem_write d off (tail_bytes r n)"
  by (simp add: tail_serialize_def Let_def put_int_def mem_write_write tail_bytes_def)

lemma log_serialize_bytes:
  "off + length (log_bytes r) \<le> length d \<Longrightarrow> log_serialize r d off = mem_write d off (log_bytes r)"
  by (cases r) (simp_all add: serialize_defs base_serialize_bytes value_serialize_bytes tail_serialize_bytes log_offsets
      length_mem_write mem_write_write)

section \<open>Reading records back\<close>

lemma mem_read_skip: "length xs \<le> off \<Longrightarrow> mem_read (xs @ ys) off n = mem_read ys (off - length xs) n"
  by (simp add: mem_read_def)

lemma mem_read_head: "n = length xs \<Longrightarrow> mem_read (xs @ ys) 0 n = xs"
  by (simp add: mem_read_def)

lemma get_int_skip: "length xs \<le> off \<Longrightarrow> get_int (xs @ ys) off = get_int ys (off - length xs)"
  by (simp add: get_int_def mem_read_skip)

lemma get_uint_skip: "length xs \<le> off \<Longrightarrow> get_uint n (xs @ ys) off = get_uint n ys (off - length xs)"
  by (simp add: get_uint_def mem_read_skip)

lemma get_int_head: "get_int (enc_int x @ ys) 0 = wrap32 x"
  by (simp add: get_int_def mem_read_head dec_enc_int)

lemma get_uint_head: "get_uint n (le_enc n x @ ys) 0 = x mod 256 ^ n"
  by (simp add: get_uint_def mem_read_head le_dec_enc)

lemmas read_simps = mem_read_skip mem_read_head get_int_skip get_uint_skip get_int_head get_uint_head

definition base_ok :: "log_base \<Rightarrow> bool" where
  "base_ok b \<longleftrightarrow> int_range (lb_type b) \<and> int_range (lb_lsn b) \<and> int_range (lb_tid b) \<and>
     int_range (lb_prev_lsn b) \<and> 0 \<le> lb_tot_len b \<and> lb_tot_len b < 2 ^ 32"

fun body_ok :: "log_record \<Rightarrow> bool" where
  "body_ok (InsertLogRecord b v r n) \<longleftrightarrow> lb_type b = log_type_code INSERT \<and> int_range (page_no r) \<and>
     int_range (slot_no r) \<and> int_range (int (length v)) \<and> int (length n) < 2 ^ 32"
| "body_ok (DeleteLogRecord b v r n) \<longleftrightarrow> lb_type b = log_type_code DELETE \<and> int_range (page_no r) \<and>
     int_range (slot_no r) \<and> int_range (int (length v)) \<and> int (length n) < 2 ^ 32"
| "body_ok (UpdateLogRecord b v w r n) \<longleftrightarrow> lb_type b = log_type_code UPDATE \<and> int_range (page_no r) \<and>
     int_range (slot_no r) \<and> int_range (int (length v)) \<and> int_range (int (length w)) \<and> int (length n) < 2 ^ 32"
| "body_ok (BeginLogRecord b) \<longleftrightarrow> lb_type b = log_type_code LOG_BEGIN"
| "body_ok (CommitLogRecord b) \<longleftrightarrow> lb_type b = log_type_code LOG_COMMIT"
| "body_ok (AbortLogRecord b) \<longleftrightarrow> lb_type b = log_type_code ABORT"
| "body_ok (StaticCKPTLogRecord b) \<longleftrightarrow> lb_type b = log_type_code STATIC_CHECKPOINT"

text \<open>
  A record as its constructors make it: every field fits its C++ type and \<^verbatim>\<open>log_tot_len_\<close> is the
  number of bytes that are written.
\<close>

definition log_ok :: "log_record \<Rightarrow> bool" where
  "log_ok r \<longleftrightarrow> base_ok (log_base_of r) \<and> body_ok r \<and> lb_tot_len (log_base_of r) = int (length (log_bytes r))"

lemma base_deserialize_bytes:
  assumes "base_ok b"
  shows "base_deserialize (pre @ base_bytes b @ post) (length pre) = b"
  using assms
  by (cases b) (simp add: base_deserialize_def base_bytes_def log_offsets read_simps base_ok_def wrap32_id)

lemma value_deserialize_bytes:
  assumes "int_range (int (length v))"
  shows "value_deserialize (value_bytes v @ post) 0 = v"
  using assms by (simp add: value_deserialize_def value_bytes_def read_simps wrap32_id)

lemma tail_deserialize_bytes:
  assumes "int_range (page_no r)" "int_range (slot_no r)" "int (length n) < 2 ^ 32"
  shows "tail_deserialize (tail_bytes r n @ post) 0 = (r, n)"
  using assms by (simp add: tail_deserialize_def tail_bytes_def read_simps wrap32_id)

lemma value_deserialize_skip:
  "length xs \<le> off \<Longrightarrow> value_deserialize (xs @ ys) off = value_deserialize ys (off - length xs)"
  by (simp add: value_deserialize_def read_simps)

lemma tail_deserialize_skip:
  "length xs \<le> off \<Longrightarrow> tail_deserialize (xs @ ys) off = tail_deserialize ys (off - length xs)"
  by (simp add: tail_deserialize_def read_simps)

lemmas field_simps_log = value_deserialize_skip tail_deserialize_skip value_deserialize_bytes tail_deserialize_bytes

lemma log_deserialize_bytes:
  assumes "log_ok r"
  shows "log_deserialize (pre @ log_bytes r @ post) (length pre) = Inr r"
proof -
  note B = base_deserialize_bytes [where pre = pre]
  show ?thesis
  proof (cases r)
    case (InsertLogRecord b v rd n)
    then show ?thesis using assms B [of b "value_bytes v @ tail_bytes rd n @ post"]
      by (simp add: log_ok_def log_deserialize_def insert_deserialize_def Let_def log_offsets field_simps_log)
  next
    case (DeleteLogRecord b v rd n)
    then show ?thesis using assms B [of b "value_bytes v @ tail_bytes rd n @ post"]
      by (simp add: log_ok_def log_deserialize_def delete_deserialize_def Let_def log_offsets field_simps_log)
  next
    case (UpdateLogRecord b v w rd n)
    then show ?thesis using assms B [of b "value_bytes v @ value_bytes w @ tail_bytes rd n @ post"]
      by (simp add: log_ok_def log_deserialize_def update_deserialize_def Let_def log_offsets field_simps_log)
  qed (use assms B in \<open>simp_all add: log_ok_def log_deserialize_def Let_def\<close>)
qed

section \<open>Properties\<close>

text \<open>The constructors make well-formed records.\<close>

lemma new_log_ok:
  assumes "int_range t"
  shows "log_ok (new_begin_log t)" "log_ok (new_commit_log t)" "log_ok (new_abort_log t)" "log_ok new_ckpt_log"
  using assms by (simp_all add: log_ok_def new_begin_log_def new_commit_log_def new_abort_log_def new_ckpt_log_def
      new_base_def base_ok_def log_offsets INVALID_LSN_def INVALID_TXN_ID_def)

lemma new_data_log_ok:
  assumes "int_range t" "int_range (page_no r)" "int_range (slot_no r)" "length v \<le> 65535" "length w \<le> 65535"
    "length n \<le> 65535"
  shows "log_ok (new_insert_log t v r n)" "log_ok (new_delete_log t v r n)" "log_ok (new_update_log t v w r n)"
  using assms by (simp_all add: log_ok_def new_insert_log_def new_delete_log_def new_update_log_def
      new_base_def base_ok_def log_offsets INVALID_LSN_def INVALID_TXN_ID_def int_range_def)

text \<open>
  C34. Log records survive the log: serialising a record at an offset of a buffer that has room
  for it changes those \<^verbatim>\<open>log_tot_len_\<close> bytes only, and deserialising at the same offset, with
  the class chosen by the type in the header as \<^verbatim>\<open>analyze\<close> does, returns the record. This
  covers all seven record classes.
\<close>
theorem log_record_roundtrip:
  assumes ok: "log_ok r" and room: "off + nat (lb_tot_len (log_base_of r)) \<le> length d"
  shows "log_deserialize (log_serialize r d off) off = Inr r \<and>
    base_deserialize (log_serialize r d off) off = log_base_of r \<and>
    length (log_serialize r d off) = length d \<and>
    take off (log_serialize r d off) = take off d \<and>
    drop (off + nat (lb_tot_len (log_base_of r))) (log_serialize r d off) =
      drop (off + nat (lb_tot_len (log_base_of r))) d"
proof -
  have len: "nat (lb_tot_len (log_base_of r)) = length (log_bytes r)" using ok by (simp add: log_ok_def)
  have room': "off + length (log_bytes r) \<le> length d" using room len by simp
  then have s: "log_serialize r d off = take off d @ log_bytes r @ drop (off + length (log_bytes r)) d"
    by (simp add: log_serialize_bytes mem_write_def)
  have t: "length (take off d) = off" using room' by simp
  obtain post where post: "log_bytes r = base_bytes (log_base_of r) @ post"
    by (cases r) auto
  have "log_deserialize (log_serialize r d off) off = Inr r"
    using log_deserialize_bytes [OF ok, of "take off d"] s t by simp
  moreover have "base_deserialize (log_serialize r d off) off = log_base_of r"
    using base_deserialize_bytes [of "log_base_of r" "take off d"] ok s t post by (simp add: log_ok_def)
  ultimately show ?thesis using s room' len by simp
qed

theorem log_record_roundtrip_witness:
  "log_deserialize (log_serialize (new_update_log 7 [1, 2] [3, 4] (mk_rid 1 5) ''t'') (replicate 100 0) 3) 3 =
     Inr (new_update_log 7 [1, 2] [3, 4] (mk_rid 1 5) ''t'') \<and>
   lb_tot_len (log_base_of (new_update_log 7 [1, 2] [3, 4] (mk_rid 1 5) ''t'')) = 49"
proof -
  let ?r = "new_update_log 7 [1, 2] [3, 4] (mk_rid 1 5) ''t''"
  have len: "lb_tot_len (log_base_of ?r) = 49" by (simp add: new_update_log_def log_offsets)
  have "log_ok ?r" by (rule new_data_log_ok(3) [where w = "[3, 4]"]) simp_all
  then show ?thesis using log_record_roundtrip [of ?r 3 "replicate 100 0"] len by simp
qed

end
