(* ===== verification/Log_Manager.thy ===== *)
theory Log_Manager
  imports Log_Record Disk_Manager
begin

text \<open>
  The log manager (\<^verbatim>\<open>src/src/recovery/log_manager.{h,cpp}\<close>): one buffer of
  \<^verbatim>\<open>LOG_BUFFER_SIZE\<close> bytes in front of the log file, LSNs handed out in order, flushing on
  demand and when the next record does not fit. The contract other components use is an
  append-only sequence of bytes: the contents of the log file followed by the used part of
  the buffer. Appending a record extends this sequence by the bytes of the record, and
  flushing moves all of it into the file.

  The disk manager the log manager writes through is an argument, since it is shared with the
  buffer pool. LSNs are \<^verbatim>\<open>atomic<int>\<close> and wrap.
\<close>

section \<open>State and operations\<close>

record log_mgr =
  global_lsn :: lsn
  log_buf :: bytes
  log_off :: nat
  persist_lsn :: lsn

definition lgm_new :: "lsn \<Rightarrow> log_mgr" where
  "lgm_new p = \<lparr>global_lsn = 0, log_buf = replicate (LOG_BUFFER_SIZE + 1) 0, log_off = 0, persist_lsn = p\<rparr>"

definition log_is_full :: "log_mgr \<Rightarrow> int \<Rightarrow> bool" where
  "log_is_full g n \<longleftrightarrow> int (log_off g) + n > int LOG_BUFFER_SIZE"

definition lgm_flush :: "log_mgr \<Rightarrow> disk_manager \<Rightarrow> (unit, log_mgr \<times> disk_manager) outcome" where
  "lgm_flush g d =
    (case dm_write_log d (take (log_off g) (log_buf g)) of
       (Inl e, d') \<Rightarrow> (Inl e, (g, d'))
     | (Inr _, d') \<Rightarrow> (Inr (), (g\<lparr>log_off := 0, persist_lsn := wrap32 (global_lsn g - 1)\<rparr>, d')))"

text \<open>
  \<^verbatim>\<open>add_log_to_buffer\<close>: the record gets the next LSN; the buffer is written out first if the
  record does not fit. The record returned is the caller's object with its \<^verbatim>\<open>lsn_\<close> set.
\<close>

definition lgm_add :: "log_mgr \<Rightarrow> disk_manager \<Rightarrow> log_record \<Rightarrow> (lsn, log_mgr \<times> disk_manager) outcome" where
  "lgm_add g d r =
    (let r1 = map_base (lb_lsn_update (\<lambda>_. global_lsn g)) r;
         n = lb_tot_len (log_base_of r1);
         g1 = g\<lparr>global_lsn := wrap32 (global_lsn g + 1)\<rparr>
     in case (if log_is_full g1 n then lgm_flush g1 d else (Inr (), (g1, d))) of
          (Inl e, gd) \<Rightarrow> (Inl e, gd)
        | (Inr _, (g2, d2)) \<Rightarrow>
            (Inr (lb_lsn (log_base_of r1)),
             (g2\<lparr>log_buf := log_serialize r1 (log_buf g2) (log_off g2), log_off := log_off g2 + nat n\<rparr>, d2)))"

definition lgm_add_static_CKPT ::
  "log_mgr \<Rightarrow> disk_manager \<Rightarrow> log_record \<Rightarrow> (lsn, log_mgr \<times> disk_manager) outcome" where
  "lgm_add_static_CKPT g d r =
    (case lgm_add g d r of
       (Inl e, gd) \<Rightarrow> (Inl e, gd)
     | (Inr l, (g1, d1)) \<Rightarrow>
         (case lgm_flush g1 d1 of
            (Inl e, gd) \<Rightarrow> (Inl e, gd)
          | (Inr _, (g2, d2)) \<Rightarrow>
              (case dm_set_restart_log d2 (wrap32 (dm_get_log_size d2)) of
                 (Inl e, d3) \<Rightarrow> (Inl e, (g2, d3))
               | (Inr _, d3) \<Rightarrow> (Inr l, (g2, d3)))))"

section \<open>The log file\<close>

definition log_file :: "disk_manager \<Rightarrow> bytes" where
  "log_file d = (case names (os d) LOG_FILE_NAME of None \<Rightarrow> [] | Some ino \<Rightarrow> inodes (os d) ino)"

text \<open>The log file exists and is open, or can be opened.\<close>

definition log_ready :: "disk_manager \<Rightarrow> bool" where
  "log_ready d \<longleftrightarrow> (\<exists>ino. names (os d) LOG_FILE_NAME = Some ino \<and>
     (if log_fd d = - 1 then path2fd d LOG_FILE_NAME = None else fd_inode (os d) (log_fd d) = Some ino))"

definition log_room :: "disk_manager \<Rightarrow> nat \<Rightarrow> bool" where
  "log_room d n \<longleftrightarrow> length (log_file d) + n \<le> max_bytes (os d)"

lemma dm_log_fd_ready:
  assumes "log_ready d"
  obtains fd d1 f where "dm_log_fd d = (Inr fd, d1)" "log_fd d1 = fd" "fd \<noteq> - 1" "fd_get (os d1) fd = Some f"
    "names (os d1) LOG_FILE_NAME = Some (of_inode f)" "names (os d1) = names (os d)" "inodes (os d1) = inodes (os d)"
    "max_bytes (os d1) = max_bytes (os d)"
proof -
  obtain ino where ino: "names (os d) LOG_FILE_NAME = Some ino"
    and l: "if log_fd d = - 1 then path2fd d LOG_FILE_NAME = None else fd_inode (os d) (log_fd d) = Some ino"
    using assms by (auto simp: log_ready_def)
  show ?thesis
  proof (cases "log_fd d = - 1")
    case True
    obtain fd s where al: "fd_alloc (os d) ino = (fd, s)" by (cases "fd_alloc (os d) ino")
    let ?d = "d\<lparr>os := s, path2fd := (path2fd d)(LOG_FILE_NAME \<mapsto> fd), fd2path := (fd2path d)(fd \<mapsto> LOG_FILE_NAME), log_fd := fd\<rparr>"
    have "dm_log_fd d = (Inr fd, ?d)"
      using True l al ino by (simp add: dm_log_fd_def dm_open_file_def sys_open_def)
    then show ?thesis
      using that [of fd ?d "\<lparr>of_inode = ino, of_offset = 0\<rparr>"] fd_alloc_props [OF al] ino by simp
  next
    case False
    then obtain f where "fd_get (os d) (log_fd d) = Some f" "of_inode f = ino"
      using l by (auto simp: fd_inode_def)
    then show ?thesis using that [of "log_fd d" d f] False ino by (simp add: dm_log_fd_def)
  qed
qed

lemma file_store_end: "file_store c (length c) bs = c @ bs"
  by (simp add: file_store_def mem_write_def)

lemma dm_write_log_ok:
  assumes "log_ready d" "log_room d (length bs)"
  obtains d' where "dm_write_log d bs = (Inr (), d')" "log_file d' = log_file d @ bs" "log_ready d'"
    "max_bytes (os d') = max_bytes (os d)"
proof -
  obtain fd d1 f where 1: "dm_log_fd d = (Inr fd, d1)" "log_fd d1 = fd" "fd \<noteq> - 1" "fd_get (os d1) fd = Some f"
    "names (os d1) LOG_FILE_NAME = Some (of_inode f)" "names (os d1) = names (os d)" "inodes (os d1) = inodes (os d)"
    "max_bytes (os d1) = max_bytes (os d)" by (rule dm_log_fd_ready [OF assms(1)])
  let ?c = "inodes (os d) (of_inode f)"
  have lf: "log_file d = ?c" using 1(5,6) by (simp add: log_file_def)
  have room: "length ?c + length bs \<le> max_bytes (os d)" using assms(2) by (simp add: log_room_def lf)
  let ?s1 = "snd (sys_lseek_end (os d1) fd)"
  have s1: "?s1 = fd_set (os d1) fd (Some (f\<lparr>of_offset := length ?c\<rparr>))"
    using 1(4,7) by (simp add: sys_lseek_end_def)
  define f2 where "f2 = f\<lparr>of_offset := length ?c + length bs\<rparr>"
  define s2 where "s2 = fd_set (?s1\<lparr>inodes := (inodes (os d))(of_inode f := ?c @ bs)\<rparr>) fd (Some f2)"
  have w: "sys_write ?s1 fd bs = (int (length bs), s2)"
  proof -
    have "min (length bs) (max_bytes (os d) - length ?c) = length bs" using room by simp
    then show ?thesis using 1(4,7,8) by (simp add: sys_write_def s1 Let_def file_store_end s2_def f2_def)
  qed
  have get: "fd_get s2 fd = Some f2" using 1(4) by (simp add: s2_def s1)
  have n: "names s2 = names (os d)" "inodes s2 = (inodes (os d))(of_inode f := ?c @ bs)"
    "max_bytes s2 = max_bytes (os d)" using 1 by (simp_all add: s2_def s1)
  show ?thesis
  proof (rule that [of "d1\<lparr>os := s2\<rparr>"])
    show "dm_write_log d bs = (Inr (), d1\<lparr>os := s2\<rparr>)" using 1(1) w by (simp add: dm_write_log_def)
    show "log_file (d1\<lparr>os := s2\<rparr>) = log_file d @ bs" using n 1(5,6) lf by (simp add: log_file_def)
    show "log_ready (d1\<lparr>os := s2\<rparr>)"
      using n 1(2,3,5,6) get by (simp add: log_ready_def fd_inode_def f2_def)
  qed (simp add: n)
qed

lemma dm_read_log_ok:
  assumes "log_ready d" "0 \<le> off" "0 < sz" "length (log_file d) < 2 ^ 31"
  obtains d' where "dm_read_log d sz off =
      (if off > int (length (log_file d)) then (Inr (- 1, []), d')
       else (Inr (min sz (int (length (log_file d)) - off), take (nat sz) (drop (nat off) (log_file d))), d'))"
    "log_file d' = log_file d" "log_ready d'" "max_bytes (os d') = max_bytes (os d)"
proof -
  obtain fd d1 f where 1: "dm_log_fd d = (Inr fd, d1)" "log_fd d1 = fd" "fd \<noteq> - 1" "fd_get (os d1) fd = Some f"
    "names (os d1) LOG_FILE_NAME = Some (of_inode f)" "names (os d1) = names (os d)" "inodes (os d1) = inodes (os d)"
    "max_bytes (os d1) = max_bytes (os d)" by (rule dm_log_fd_ready [OF assms(1)])
  let ?c = "inodes (os d) (of_inode f)"
  have lf: "log_file d = ?c" "log_file d1 = ?c" using 1(5,6,7) by (simp_all add: log_file_def)
  have sz: "dm_get_file_size d1 LOG_FILE_NAME = int (length ?c)"
    using 1(5,7) assms(4) lf(1) by (simp add: dm_get_file_size_def sys_file_size_def wrap32_id int_range_def)
  have rdy: "log_ready d1" using 1 by (auto simp: log_ready_def fd_inode_def)
  consider "off > int (length ?c)" | "off = int (length ?c)" | "off < int (length ?c)" by linarith
  then show ?thesis
  proof cases
    case 3
    let ?n = "min sz (int (length ?c) - off)"
    let ?bs = "take (nat ?n) (drop (nat off) ?c)"
    define s where "s = fd_set (fd_set (os d1) fd (Some (f\<lparr>of_offset := nat off\<rparr>))) fd
        (Some (f\<lparr>of_offset := nat off + length ?bs\<rparr>))"
    have r: "sys_read (snd (sys_lseek (os d1) fd off)) fd (nat ?n) = (?bs, s)"
      using 1(4,7) assms(2) by (simp add: sys_read_def sys_lseek_def s_def)
    have len: "int (length ?bs) = ?n" using 3 assms(2,3) by simp
    have bs: "?bs = take (nat sz) (drop (nat off) ?c)"
      using assms(2,3) 3 by (simp add: min_def)
    have g: "fd_get s fd = Some (f\<lparr>of_offset := nat off + length ?bs\<rparr>)" "names s = names (os d)"
      "inodes s = inodes (os d)" "max_bytes s = max_bytes (os d)" using 1 by (simp_all add: s_def)
    have nz: "?n \<noteq> 0" using 3 assms(3) by simp
    show ?thesis
    proof (rule that [of "d1\<lparr>os := s\<rparr>"])
      show "dm_read_log d sz off = (if off > int (length (log_file d)) then (Inr (- 1, []), d1\<lparr>os := s\<rparr>)
         else (Inr (min sz (int (length (log_file d)) - off), take (nat sz) (drop (nat off) (log_file d))), d1\<lparr>os := s\<rparr>))"
        using 1(1) sz r len bs 3 nz unfolding lf dm_read_log_def by (simp add: Let_def)
      show "log_ready (d1\<lparr>os := s\<rparr>)" using g 1(2,3,5,6) by (simp add: log_ready_def fd_inode_def)
    qed (use g lf 1(5,6) in \<open>simp_all add: log_file_def\<close>)
  qed (use that [of d1] 1(1,8) sz lf rdy assms(3) in \<open>auto simp: dm_read_log_def Let_def\<close>)
qed

section \<open>The log as a sequence of bytes\<close>

definition log_contents :: "log_mgr \<Rightarrow> disk_manager \<Rightarrow> bytes" where
  "log_contents g d = log_file d @ take (log_off g) (log_buf g)"

definition lgm_inv :: "log_mgr \<Rightarrow> disk_manager \<Rightarrow> bool" where
  "lgm_inv g d \<longleftrightarrow> length (log_buf g) = LOG_BUFFER_SIZE + 1 \<and> log_off g \<le> LOG_BUFFER_SIZE \<and>
     int_range (global_lsn g) \<and> log_ready d"

definition with_lsn :: "lsn \<Rightarrow> log_record \<Rightarrow> log_record" where
  "with_lsn l r = map_base (lb_lsn_update (\<lambda>_. l)) r"

lemma log_bytes_length_map [simp]: "length (log_bytes (map_base f r)) = length (log_bytes r)"
  by (cases r) auto

lemma with_lsn_ok: "log_ok r \<Longrightarrow> int_range l \<Longrightarrow> log_ok (with_lsn l r)"
  by (cases r) (auto simp: log_ok_def with_lsn_def base_ok_def)

lemma lgm_flush_ok:
  assumes "lgm_inv g d" "log_room d (log_off g)"
  obtains g' d' where "lgm_flush g d = (Inr (), (g', d'))" "lgm_inv g' d'" "log_file d' = log_contents g d"
    "log_off g' = 0" "global_lsn g' = global_lsn g" "persist_lsn g' = wrap32 (global_lsn g - 1)"
    "log_buf g' = log_buf g" "max_bytes (os d') = max_bytes (os d)"
proof -
  let ?bs = "take (log_off g) (log_buf g)"
  have len: "length ?bs = log_off g" using assms(1) by (simp add: lgm_inv_def)
  obtain d' where d': "dm_write_log d ?bs = (Inr (), d')" "log_file d' = log_file d @ ?bs" "log_ready d'"
      "max_bytes (os d') = max_bytes (os d)"
    by (rule dm_write_log_ok [of d ?bs]) (use assms len in \<open>auto simp: lgm_inv_def\<close>)
  show ?thesis
    by (rule that [of "g\<lparr>log_off := 0, persist_lsn := wrap32 (global_lsn g - 1)\<rparr>" d'])
      (use assms d' in \<open>simp_all add: lgm_flush_def lgm_inv_def log_contents_def\<close>)
qed

text \<open>What \<^verbatim>\<open>add_log_to_buffer\<close> does once there is room in the buffer.\<close>

lemma lgm_put:
  assumes inv: "lgm_inv g d" and ok: "log_ok r" and room: "log_off g + length (log_bytes r) \<le> LOG_BUFFER_SIZE"
  defines "g' \<equiv> g\<lparr>log_buf := log_serialize r (log_buf g) (log_off g),
      log_off := log_off g + nat (lb_tot_len (log_base_of r))\<rparr>"
  shows "lgm_inv g' d" "log_contents g' d = log_contents g d @ log_bytes r"
proof -
  have len: "nat (lb_tot_len (log_base_of r)) = length (log_bytes r)" using ok by (simp add: log_ok_def)
  have b: "log_off g + length (log_bytes r) \<le> length (log_buf g)" using inv room by (simp add: lgm_inv_def)
  have s: "log_serialize r (log_buf g) (log_off g) = mem_write (log_buf g) (log_off g) (log_bytes r)"
    by (rule log_serialize_bytes [OF b])
  show "lgm_inv g' d" using inv room b by (simp add: lgm_inv_def g'_def len s length_mem_write)
  show "log_contents g' d = log_contents g d @ log_bytes r"
    using b by (simp add: log_contents_def g'_def len s mem_write_def)
qed

lemma lgm_add_ok:
  assumes inv: "lgm_inv g d" and ok: "log_ok r" and fits: "length (log_bytes r) \<le> LOG_BUFFER_SIZE"
    and room: "log_room d (log_off g)"
  obtains g' d' where "lgm_add g d r = (Inr (global_lsn g), (g', d'))" "lgm_inv g' d'"
    "log_contents g' d' = log_contents g d @ log_bytes (with_lsn (global_lsn g) r)"
    "global_lsn g' = wrap32 (global_lsn g + 1)" "max_bytes (os d') = max_bytes (os d)"
    "log_file d' = log_file d \<or> log_file d' = log_contents g d"
proof -
  let ?r = "with_lsn (global_lsn g) r"
  define g1 where "g1 = g\<lparr>global_lsn := wrap32 (global_lsn g + 1)\<rparr>"
  have inv1: "lgm_inv g1 d" using inv by (simp add: g1_def lgm_inv_def)
  have c1: "log_contents g1 d = log_contents g d" by (simp add: g1_def log_contents_def)
  have ok': "log_ok ?r" using with_lsn_ok [OF ok] inv by (simp add: lgm_inv_def)
  have len: "length (log_bytes ?r) = length (log_bytes r)" by (simp add: with_lsn_def)
  have n: "lb_tot_len (log_base_of ?r) = int (length (log_bytes r))" using ok' len by (simp add: log_ok_def)
  have lsn: "lb_lsn (log_base_of ?r) = global_lsn g" by (simp add: with_lsn_def)
  have step: "lgm_add g d r = (case (if log_is_full g1 (int (length (log_bytes r))) then lgm_flush g1 d else (Inr (), (g1, d))) of
          (Inl e, gd) \<Rightarrow> (Inl e, gd)
        | (Inr _, (g2, d2)) \<Rightarrow> (Inr (global_lsn g),
             (g2\<lparr>log_buf := log_serialize ?r (log_buf g2) (log_off g2),
                 log_off := log_off g2 + nat (lb_tot_len (log_base_of ?r))\<rparr>, d2)))"
    unfolding lgm_add_def Let_def with_lsn_def [symmetric] g1_def [symmetric] n lsn ..
  show ?thesis
  proof (cases "log_is_full g1 (int (length (log_bytes r)))")
    case True
    obtain g2 d2 where f: "lgm_flush g1 d = (Inr (), (g2, d2))" "lgm_inv g2 d2" "log_file d2 = log_contents g1 d"
        "log_off g2 = 0" "global_lsn g2 = global_lsn g1" "max_bytes (os d2) = max_bytes (os d)"
      by (rule lgm_flush_ok [OF inv1]) (use room in \<open>simp_all add: g1_def\<close>)
    have "log_contents g2 d2 = log_contents g d" using f(3,4) c1 by (simp add: log_contents_def)
    then show ?thesis
      using lgm_put [OF f(2) ok'] f fits len True c1 step
      by (intro that [where g' = "g2\<lparr>log_buf := log_serialize ?r (log_buf g2) (log_off g2),
                 log_off := log_off g2 + nat (lb_tot_len (log_base_of ?r))\<rparr>" and d' = d2]) (simp_all add: g1_def)
  next
    case False
    then have "log_off g1 + length (log_bytes ?r) \<le> LOG_BUFFER_SIZE"
      using len by (simp add: log_is_full_def)
    then show ?thesis
      using lgm_put [OF inv1 ok'] False c1 step
      by (intro that [where g' = "g1\<lparr>log_buf := log_serialize ?r (log_buf g1) (log_off g1),
                 log_off := log_off g1 + nat (lb_tot_len (log_base_of ?r))\<rparr>" and d' = d]) (simp_all add: g1_def)
  qed
qed

section \<open>Properties\<close>

text \<open>
  Appending to the log: adding a well-formed record that fits the buffer returns the next
  LSN, extends the log by exactly the bytes of the record with that LSN, keeps the manager
  consistent, and loses nothing that was in the file.
\<close>
lemma log_append:
  assumes "lgm_inv g d" and "log_ok r" and "length (log_bytes r) \<le> LOG_BUFFER_SIZE" and "log_room d (log_off g)"
  shows "\<exists>g' d'. lgm_add g d r = (Inr (global_lsn g), (g', d')) \<and> lgm_inv g' d' \<and>
    log_contents g' d' = log_contents g d @ log_bytes (with_lsn (global_lsn g) r) \<and>
    global_lsn g' = wrap32 (global_lsn g + 1) \<and> (\<exists>more. log_file d' = log_file d @ more)"
proof -
  obtain g' d' where "lgm_add g d r = (Inr (global_lsn g), (g', d'))" "lgm_inv g' d'"
    "log_contents g' d' = log_contents g d @ log_bytes (with_lsn (global_lsn g) r)"
    "global_lsn g' = wrap32 (global_lsn g + 1)" "log_file d' = log_file d \<or> log_file d' = log_contents g d"
    by (rule lgm_add_ok [OF assms])
  then show ?thesis by (auto simp: log_contents_def)
qed

definition sample_log_disk :: disk_manager where
  "sample_log_disk = dm_new ((posix_init 10000000)\<lparr>names := [LOG_FILE_NAME \<mapsto> 3, RESTART_FILE_NAME \<mapsto> 4], next_inode := 5\<rparr>)"

lemma sample_log_inv: "lgm_inv (lgm_new (- 1)) sample_log_disk" "log_room sample_log_disk LOG_BUFFER_SIZE"
  "log_file sample_log_disk = []"
  by (simp_all add: lgm_inv_def lgm_new_def sample_log_disk_def log_ready_def log_room_def log_file_def
      dm_new_def posix_init_def LOG_FILE_NAME_def RESTART_FILE_NAME_def LOG_BUFFER_SIZE_def PAGE_SIZE_def)

text \<open>
  Durability of a flush: after \<^verbatim>\<open>flush_log_to_disk\<close> the log file holds the whole log, the
  buffer is empty and \<^verbatim>\<open>persist_lsn_\<close> is the last LSN handed out.
\<close>
theorem log_flush_durable:
  assumes "lgm_inv g d" and "log_room d (log_off g)"
  shows "\<exists>g' d'. lgm_flush g d = (Inr (), (g', d')) \<and> lgm_inv g' d' \<and> log_file d' = log_contents g d \<and>
    log_contents g' d' = log_contents g d \<and> persist_lsn g' = wrap32 (global_lsn g - 1)"
proof -
  obtain g' d' where "lgm_flush g d = (Inr (), (g', d'))" "lgm_inv g' d'" "log_file d' = log_contents g d"
    "log_off g' = 0" "persist_lsn g' = wrap32 (global_lsn g - 1)"
    by (rule lgm_flush_ok [OF assms])
  then show ?thesis by (auto simp: log_contents_def)
qed

theorem log_flush_durable_witness:
  "\<exists>g' d'. lgm_flush (lgm_new (- 1)) sample_log_disk = (Inr (), (g', d')) \<and> log_file d' = [] \<and> persist_lsn g' = - 1"
proof -
  have room: "log_room sample_log_disk (log_off (lgm_new (- 1)))"
    using sample_log_inv(2) by (simp add: log_room_def lgm_new_def)
  have "log_contents (lgm_new (- 1)) sample_log_disk = []" "global_lsn (lgm_new (- 1)) = 0"
    using sample_log_inv(3) by (simp_all add: log_contents_def lgm_new_def)
  then show ?thesis using log_flush_durable [OF sample_log_inv(1) room] by (auto simp: wrap32_id)
qed

end
