(* ===== verification/Log_Recovery.thy ===== *)
theory Log_Recovery
  imports Rm_Database Log_Manager
begin

text \<open>
  Restart recovery (\<^verbatim>\<open>src/src/recovery/log_recovery.{h,cpp}\<close>): reading the log from the last
  checkpoint through a buffer, collecting the records and the unfinished transactions
  (\<^verbatim>\<open>analyze\<close>), re-executing every logged change page by page (\<^verbatim>\<open>redo\<close>), and rolling back the
  transactions without a commit record along their LSN chains (\<^verbatim>\<open>undo\<close>). The tables are the
  record files of \<open>Rm_Database\<close>; the log file is that of \<open>Log_Manager\<close>. The indexes, which \<^verbatim>\<open>undo\<close>
  builds anew at its end, are in \<open>Restart\<close>; here is the test that decides it.

  A loop over the log ends only if the log is sane, so the two loops that follow lengths and
  LSNs read from the file take fuel, and running out of it is the result \<open>None\<close>.
\<close>

section \<open>State\<close>

record recovery =
  rv_buf :: bytes
  rv_buf_off :: nat
  rv_records :: "(lsn \<times> log_record) list"
  rv_redo_txn :: "(txn_id \<times> lsn) list"
  rv_undo_txn :: "(txn_id \<times> lsn) list"
  rv_txn_list :: "txn_id list"
  rv_redo_map :: "(page_id \<times> string \<times> lsn list) list"
  rv_checkpoint :: int

definition rv_new :: recovery where
  "rv_new = \<lparr>rv_buf = replicate (LOG_BUFFER_SIZE + 1) 0, rv_buf_off = 0, rv_records = [], rv_redo_txn = [],
     rv_undo_txn = [], rv_txn_list = [], rv_redo_map = [], rv_checkpoint = 0\<rparr>"

text \<open>
  \<^verbatim>\<open>std::map::emplace\<close> on a list sorted by key, and the three operations the code uses on
  \<^verbatim>\<open>unordered_map\<close>: \<^verbatim>\<open>emplace\<close> keeps an existing entry, assignment through \<^verbatim>\<open>operator[]\<close> replaces it.
\<close>

fun emplace_sorted :: "'k::linorder \<Rightarrow> 'v \<Rightarrow> ('k \<times> 'v) list \<Rightarrow> ('k \<times> 'v) list" where
  "emplace_sorted k v [] = [(k, v)]"
| "emplace_sorted k v ((k', v') # xs) =
    (if k < k' then (k, v) # (k', v') # xs else if k = k' then (k', v') # xs
     else (k', v') # emplace_sorted k v xs)"

definition map_emplace :: "'k \<Rightarrow> 'v \<Rightarrow> ('k \<times> 'v) list \<Rightarrow> ('k \<times> 'v) list" where
  "map_emplace k v xs = (if map_of xs k = None then xs @ [(k, v)] else xs)"

fun map_assign :: "'k \<Rightarrow> 'v \<Rightarrow> ('k \<times> 'v) list \<Rightarrow> ('k \<times> 'v) list" where
  "map_assign k v [] = [(k, v)]"
| "map_assign k v ((k', v') # xs) = (if k = k' then (k, v) # xs else (k', v') # map_assign k v xs)"

definition map_erase :: "'k \<Rightarrow> ('k \<times> 'v) list \<Rightarrow> ('k \<times> 'v) list" where
  "map_erase k xs = filter (\<lambda>p. fst p \<noteq> k) xs"

section \<open>Analysis\<close>

text \<open>The bookkeeping for one record, by its type.\<close>

fun rv_note :: "log_record \<Rightarrow> recovery \<Rightarrow> recovery" where
  "rv_note (StaticCKPTLogRecord b) rv =
    rv\<lparr>rv_records := emplace_sorted (lb_lsn b) (StaticCKPTLogRecord b) (rv_records rv)\<rparr>"
| "rv_note (BeginLogRecord b) rv =
    rv\<lparr>rv_records := emplace_sorted (lb_lsn b) (BeginLogRecord b) (rv_records rv),
       rv_undo_txn := map_emplace (lb_tid b) (lb_lsn b) (rv_undo_txn rv),
       rv_txn_list := rv_txn_list rv @ [lb_tid b]\<rparr>"
| "rv_note (CommitLogRecord b) rv =
    rv\<lparr>rv_records := emplace_sorted (lb_lsn b) (CommitLogRecord b) (rv_records rv),
       rv_redo_txn := map_emplace (lb_tid b) (lb_lsn b) (rv_redo_txn rv),
       rv_undo_txn := map_erase (lb_tid b) (rv_undo_txn rv)\<rparr>"
| "rv_note r rv =
    rv\<lparr>rv_records := emplace_sorted (lb_lsn (log_base_of r)) r (rv_records rv),
       rv_undo_txn := map_assign (lb_tid (log_base_of r)) (lb_lsn (log_base_of r)) (rv_undo_txn rv)\<rparr>"

text \<open>\<^verbatim>\<open>read_log\<close> into the buffer.\<close>

definition rv_fill :: "recovery \<Rightarrow> disk_manager \<Rightarrow> int \<Rightarrow> (int, recovery \<times> disk_manager) outcome" where
  "rv_fill rv d off =
    (case dm_read_log d (int LOG_BUFFER_SIZE) off of
       (Inl e, d') \<Rightarrow> (Inl e, (rv, d'))
     | (Inr (n, bs), d') \<Rightarrow> (Inr n, (rv\<lparr>rv_buf := mem_write (rv_buf rv) 0 bs\<rparr>, d')))"

definition u32 :: "int \<Rightarrow> int" where "u32 x = x mod 2 ^ 32"

text \<open>
  The reading loop. Comparisons with \<^verbatim>\<open>log_tot_len_\<close>, a \<^verbatim>\<open>uint32_t\<close>, are unsigned. \<open>off\<close> is the
  position of the next record in the file, \<open>bsz\<close> the number of valid bytes of the buffer.
\<close>

fun rv_scan :: "nat \<Rightarrow> recovery \<Rightarrow> disk_manager \<Rightarrow> int \<Rightarrow> int \<Rightarrow> (recovery, disk_manager) outcome option" where
  "rv_scan 0 rv d off bsz = None"
| "rv_scan (Suc k) rv d off bsz =
    (case (if int (rv_buf_off rv) + int OFFSET_LOG_DATA > bsz
           then (case rv_fill rv d off of
                   (Inl e, (rv1, d1)) \<Rightarrow> (Inl e, (rv1, d1))
                 | (Inr n, (rv1, d1)) \<Rightarrow> (Inr (n, n < int OFFSET_LOG_DATA),
                     (if n < int OFFSET_LOG_DATA then rv1 else rv1\<lparr>rv_buf_off := 0\<rparr>, d1)))
           else (Inr (bsz, False), (rv, d))) of
       (Inl e, (rv1, d1)) \<Rightarrow> Some (Inl e, d1)
     | (Inr (n1, stop1), (rv1, d1)) \<Rightarrow>
         if stop1 then Some (Inr rv1, d1)
         else
           let b = base_deserialize (rv_buf rv1) (rv_buf_off rv1); len = lb_tot_len b in
           (case (if u32 (int (rv_buf_off rv1) + len) > u32 n1
                  then (case rv_fill rv1 d1 off of
                          (Inl e, (rv2, d2)) \<Rightarrow> (Inl e, (rv2, d2))
                        | (Inr n, (rv2, d2)) \<Rightarrow> (Inr (n, u32 n < len),
                            (if u32 n < len then rv2 else rv2\<lparr>rv_buf_off := 0\<rparr>, d2)))
                  else (Inr (n1, False), (rv1, d1))) of
              (Inl e, (rv2, d2)) \<Rightarrow> Some (Inl e, d2)
            | (Inr (n2, stop2), (rv2, d2)) \<Rightarrow>
                if stop2 then Some (Inr rv2, d2)
                else (case log_deserialize (rv_buf rv2) (rv_buf_off rv2) of
                        Inl e \<Rightarrow> Some (Inl e, d2)
                      | Inr r \<Rightarrow>
                          rv_scan k ((rv_note r rv2)\<lparr>rv_buf_off := rv_buf_off rv2 + nat len\<rparr>) d2 (wrap32 (off + len)) n2)))"

text \<open>
  The second loop: each record in LSN order is filed under its page. Begin, commit and abort
  records are skipped; a checkpoint record is not, and ends in \<^verbatim>\<open>TableNotFoundError\<close> for the
  empty name.
\<close>

fun log_place :: "log_record \<Rightarrow> (string \<times> int) option" where
  "log_place (UpdateLogRecord b v w r n) = Some (n, page_no r)"
| "log_place (InsertLogRecord b v r n) = Some (n, page_no r)"
| "log_place (DeleteLogRecord b v r n) = Some (n, page_no r)"
| "log_place (StaticCKPTLogRecord b) = Some ([], 0)"
| "log_place _ = None"

fun redo_map_add :: "page_id \<Rightarrow> string \<Rightarrow> lsn \<Rightarrow> (page_id \<times> string \<times> lsn list) list \<Rightarrow> (page_id \<times> string \<times> lsn list) list" where
  "redo_map_add p n l [] = [(p, n, [l])]"
| "redo_map_add p n l ((p', n', ls) # xs) =
    (if p = p' then (p', n', ls @ [l]) # xs else (p', n', ls) # redo_map_add p n l xs)"

fun rv_pages :: "(string \<Rightarrow> rm_file option) \<Rightarrow> (lsn \<times> log_record) list \<Rightarrow> (page_id \<times> string \<times> lsn list) list \<Rightarrow>
    rmdb_error + (page_id \<times> string \<times> lsn list) list" where
  "rv_pages fh [] m = Inr m"
| "rv_pages fh ((l, r) # rs) m =
    (case log_place r of
       None \<Rightarrow> rv_pages fh rs m
     | Some (n, p) \<Rightarrow>
         (case fh n of
            None \<Rightarrow> Inl (TableNotFoundError n)
          | Some h \<Rightarrow> rv_pages fh rs (redo_map_add (mk_pid (rm_fd h) p) n l m)))"

definition rv_analyze :: "nat \<Rightarrow> recovery \<Rightarrow> disk_manager \<Rightarrow> (string \<Rightarrow> rm_file option) \<Rightarrow>
    (recovery, disk_manager) outcome option" where
  "rv_analyze k rv d fh =
    (case dm_get_restart_log d of
       (Inl e, d1) \<Rightarrow> Some (Inl e, d1)
     | (Inr ck, d1) \<Rightarrow>
         (case rv_fill (rv\<lparr>rv_checkpoint := ck\<rparr>) d1 ck of
            (Inl e, (rv2, d2)) \<Rightarrow> Some (Inl e, d2)
          | (Inr n, (rv2, d2)) \<Rightarrow>
              (case rv_scan k rv2 d2 ck n of
                 None \<Rightarrow> None
               | Some (Inl e, d3) \<Rightarrow> Some (Inl e, d3)
               | Some (Inr rv3, d3) \<Rightarrow>
                   (case rv_pages fh (rv_records rv3) (rv_redo_map rv3) of
                      Inl e \<Rightarrow> Some (Inl e, d3)
                    | Inr m \<Rightarrow> Some (Inr (rv3\<lparr>rv_redo_map := m\<rparr>), d3)))))"

section \<open>Redo\<close>

text \<open>One record, as \<^verbatim>\<open>redo\<close> re-executes it on the file of its page and as \<^verbatim>\<open>undo\<close> takes it back.\<close>

fun redo_record :: "rm_db \<Rightarrow> string \<Rightarrow> log_record \<Rightarrow> (unit, rm_db) outcome" where
  "redo_record db f (UpdateLogRecord b v w r n) = db_update db f r w"
| "redo_record db f (InsertLogRecord b v r n) = db_insert_at db f r v"
| "redo_record db f (DeleteLogRecord b v r n) = db_delete db f r"
| "redo_record db f _ = (Inr (), db)"

fun redo_page :: "(lsn \<times> log_record) list \<Rightarrow> string \<Rightarrow> lsn list \<Rightarrow> rm_db \<Rightarrow> (unit, rm_db) outcome" where
  "redo_page recs f [] db = (Inr (), db)"
| "redo_page recs f (l # ls) db =
    (case map_of recs l of
       None \<Rightarrow> (Inl NullDeref, db)
     | Some r \<Rightarrow>
         (case redo_record db f r of (Inl e, db') \<Rightarrow> (Inl e, db') | (Inr _, db') \<Rightarrow> redo_page recs f ls db'))"

text \<open>
  The iteration order of the \<^verbatim>\<open>unordered_map\<close> is not specified: \<open>ord\<close> lists its pages in the
  order they are visited.
\<close>

fun rv_redo :: "recovery \<Rightarrow> page_id list \<Rightarrow> rm_db \<Rightarrow> (unit, rm_db) outcome" where
  "rv_redo rv [] db = (Inr (), db)"
| "rv_redo rv (p # ps) db =
    (case map_of (rv_redo_map rv) p of
       None \<Rightarrow> rv_redo rv ps db
     | Some (f, ls) \<Rightarrow>
         (case redo_page (rv_records rv) f ls db of
            (Inl e, db') \<Rightarrow> (Inl e, db')
          | (Inr _, db') \<Rightarrow> rv_redo rv ps db'))"

section \<open>Undo\<close>

fun undo_record :: "rm_db \<Rightarrow> log_record \<Rightarrow> (unit, rm_db) outcome" where
  "undo_record db (UpdateLogRecord b v w r n) = db_update db n r v"
| "undo_record db (InsertLogRecord b v r n) = db_delete db n r"
| "undo_record db (DeleteLogRecord b v r n) = db_insert_at db n r v"
| "undo_record db _ = (Inr (), db)"

text \<open>The inner loop: along \<^verbatim>\<open>prev_lsn_\<close> until an LSN without a record.\<close>

fun undo_chain :: "nat \<Rightarrow> (lsn \<times> log_record) list \<Rightarrow> lsn \<Rightarrow> rm_db \<Rightarrow> (unit, rm_db) outcome option" where
  "undo_chain 0 recs l db = None"
| "undo_chain (Suc k) recs l db =
    (case map_of recs l of
       None \<Rightarrow> Some (Inr (), db)
     | Some r \<Rightarrow>
         (case undo_record db r of
            (Inl e, db') \<Rightarrow> Some (Inl e, db')
          | (Inr _, db') \<Rightarrow> undo_chain k recs (lb_prev_lsn (log_base_of r)) db'))"

fun undo_txns :: "nat \<Rightarrow> recovery \<Rightarrow> txn_id list \<Rightarrow> rm_db \<Rightarrow> (unit, rm_db) outcome option" where
  "undo_txns k rv [] db = Some (Inr (), db)"
| "undo_txns k rv (t # ts) db =
    (case (if t = INVALID_LSN then Some (Inr (), db)
           else case map_of (rv_undo_txn rv) t of
                  None \<Rightarrow> Some (Inr (), db)
                | Some l \<Rightarrow> undo_chain k (rv_records rv) l db) of
       None \<Rightarrow> None
     | Some (Inl e, db') \<Rightarrow> Some (Inl e, db')
     | Some (Inr _, db') \<Rightarrow> undo_txns k rv ts db')"

text \<open>The part of \<^verbatim>\<open>undo\<close> that rolls back; what follows it, the indexes, is in \<open>Restart\<close>.\<close>

definition rv_roll_back :: "nat \<Rightarrow> recovery \<Rightarrow> rm_db \<Rightarrow> (unit, rm_db) outcome option" where
  "rv_roll_back k rv db =
    undo_txns k rv (rev (filter (\<lambda>t. map_of (rv_undo_txn rv) t \<noteq> None) (rv_txn_list rv))) db"

definition rv_rebuilds :: "recovery \<Rightarrow> bool" where
  "rv_rebuilds rv \<longleftrightarrow> \<not> (rv_redo_txn rv = [] \<and> rv_undo_txn rv = [])"

text \<open>
  \<^verbatim>\<open>main\<close> runs the three phases in this order before it accepts clients; this is what they do up to
  the rebuilding of the indexes. \<open>ord\<close> is the iteration order of the page map that analysis has built.
\<close>

definition recover_rows :: "nat \<Rightarrow> (recovery \<Rightarrow> page_id list) \<Rightarrow> disk_manager \<Rightarrow> rm_db \<Rightarrow> (recovery, rm_db \<times> disk_manager) outcome option" where
  "recover_rows k ord d db =
    (case rv_analyze k rv_new d (fhs db) of
       None \<Rightarrow> None
     | Some (Inl e, d') \<Rightarrow> Some (Inl e, (db, d'))
     | Some (Inr rv, d') \<Rightarrow>
         (case rv_redo rv (ord rv) db of
            (Inl e, db1) \<Rightarrow> Some (Inl e, (db1, d'))
          | (Inr _, db1) \<Rightarrow>
              (case rv_roll_back k rv db1 of
                 None \<Rightarrow> None
               | Some (Inl e, db2) \<Rightarrow> Some (Inl e, (db2, d'))
               | Some (Inr _, db2) \<Rightarrow> Some (Inr rv, (db2, d')))))"

section \<open>The reading loop returns the records of the log\<close>

text \<open>The unread part of the buffer agrees with the file at the current position.\<close>

definition in_sync :: "recovery \<Rightarrow> disk_manager \<Rightarrow> nat \<Rightarrow> int \<Rightarrow> bool" where
  "in_sync rv d off bsz \<longleftrightarrow> log_ready d \<and> length (rv_buf rv) = LOG_BUFFER_SIZE + 1 \<and>
     off \<le> length (log_file d) \<and> int (rv_buf_off rv) \<le> bsz \<and> bsz \<le> int LOG_BUFFER_SIZE \<and>
     mem_read (rv_buf rv) (rv_buf_off rv) (nat bsz - rv_buf_off rv) =
       take (nat bsz - rv_buf_off rv) (drop off (log_file d)) \<and>
     nat bsz - rv_buf_off rv \<le> length (log_file d) - off"

lemma rv_fill_sync:
  assumes "log_ready d" "length (rv_buf rv) = LOG_BUFFER_SIZE + 1" "off \<le> length (log_file d)" "length (log_file d) < 2 ^ 31"
  obtains n rv' d' where "rv_fill rv d (int off) = (Inr n, (rv', d'))"
    "n = int (min LOG_BUFFER_SIZE (length (log_file d) - off))" "in_sync (rv'\<lparr>rv_buf_off := 0\<rparr>) d' off n"
    "log_file d' = log_file d" "\<exists>b. rv' = rv\<lparr>rv_buf := b\<rparr>"
proof -
  let ?bs = "take LOG_BUFFER_SIZE (drop off (log_file d))"
  let ?n = "min (int LOG_BUFFER_SIZE) (int (length (log_file d)) - int off)"
  have pos: "0 < int LOG_BUFFER_SIZE" by (simp add: LOG_BUFFER_SIZE_def PAGE_SIZE_def)
  obtain d' where d': "dm_read_log d (int LOG_BUFFER_SIZE) (int off) =
      (if int off > int (length (log_file d)) then (Inr (- 1, []), d')
       else (Inr (?n, take (nat (int LOG_BUFFER_SIZE)) (drop (nat (int off)) (log_file d))), d'))"
    "log_file d' = log_file d" "log_ready d'"
    by (rule dm_read_log_ok [OF assms(1) _ pos assms(4), of "int off"]) simp_all
  let ?rv = "rv\<lparr>rv_buf := mem_write (rv_buf rv) 0 ?bs\<rparr>"
  have n: "?n = int (min LOG_BUFFER_SIZE (length (log_file d) - off))" using assms(3) by (simp add: of_nat_min of_nat_diff)
  have len: "length ?bs = min LOG_BUFFER_SIZE (length (log_file d) - off)" by simp
  have lw: "length (mem_write (rv_buf rv) 0 ?bs) = LOG_BUFFER_SIZE + 1"
    using assms(2) by (subst length_mem_write) simp_all
  have rd: "mem_read (mem_write (rv_buf rv) 0 ?bs) 0 (min LOG_BUFFER_SIZE (length (log_file d) - off)) = ?bs"
    using assms(2) by (subst mem_read_write_same) simp_all
  show ?thesis
  proof (rule that [of ?n ?rv d'])
    show "rv_fill rv d (int off) = (Inr ?n, (?rv, d'))" using d'(1) assms(3) by (simp add: rv_fill_def)
    show "in_sync (?rv\<lparr>rv_buf_off := 0\<rparr>) d' off ?n"
      unfolding in_sync_def n using d'(2,3) lw rd assms(3) by (simp add: min_def)
  qed (use n d'(2) in auto)
qed

text \<open>A prefix of the unread part that the buffer holds is read from the buffer as from the file.\<close>

lemma in_sync_prefix:
  assumes s: "in_sync rv d off bsz" and p: "drop off (log_file d) = xs @ ys" and l: "rv_buf_off rv + length xs \<le> nat bsz"
  obtains pre post where "rv_buf rv = pre @ xs @ post" "length pre = rv_buf_off rv"
proof -
  let ?o = "rv_buf_off rv" and ?k = "nat bsz - rv_buf_off rv"
  have k: "length xs \<le> ?k" using l by simp
  have "take (length xs) (mem_read (rv_buf rv) ?o ?k) = xs"
    using s p k by (simp add: in_sync_def min_def)
  then have x: "take (length xs) (drop ?o (rv_buf rv)) = xs" using k by (simp add: mem_read_def min_def)
  have o: "?o \<le> length (rv_buf rv)" using s by (simp add: in_sync_def)
  have "rv_buf rv = take ?o (rv_buf rv) @ xs @ drop (length xs) (drop ?o (rv_buf rv))"
    by (metis append_take_drop_id x)
  then show ?thesis by (rule that) (use o in simp)
qed

lemma in_sync_advance:
  assumes s: "in_sync rv d off bsz" and l: "rv_buf_off rv + k \<le> nat bsz" and b: "rv_buf rv' = rv_buf rv"
  shows "in_sync (rv'\<lparr>rv_buf_off := rv_buf_off rv + k\<rparr>) d (off + k) bsz"
proof -
  let ?o = "rv_buf_off rv" and ?m = "nat bsz - rv_buf_off rv"
  have m: "k \<le> ?m" "?m - k = nat bsz - (?o + k)" using l by simp_all
  have "drop k (mem_read (rv_buf rv) ?o ?m) = drop k (take ?m (drop off (log_file d)))"
    using s by (simp add: in_sync_def)
  then have "take (?m - k) (drop (?o + k) (rv_buf rv)) = take (?m - k) (drop (off + k) (log_file d))"
    using m(1) by (simp add: mem_read_def drop_take add.commute)
  then show ?thesis using s l m b by (auto simp: in_sync_def mem_read_def)
qed

lemma log_bytes_length_ge: "20 \<le> length (log_bytes r)"
  by (cases r) auto

lemma base_prefix: "\<exists>post. log_bytes r = base_bytes (log_base_of r) @ post"
  by (cases r) auto

lemma rv_note_buf [simp]: "rv_buf (rv_note r rv) = rv_buf rv" "rv_buf_off (rv_note r rv) = rv_buf_off rv"
  by (cases r; simp)+

definition rv_core :: "recovery \<Rightarrow> recovery" where
  "rv_core rv = rv\<lparr>rv_buf := [], rv_buf_off := 0\<rparr>"

lemma rv_core_simps [simp]:
  "rv_core (rv\<lparr>rv_buf_off := x\<rparr>) = rv_core rv" "rv_core (rv\<lparr>rv_buf := y\<rparr>) = rv_core rv"
  "rv_core (rv_note r rv) = rv_note r (rv_core rv)"
  by (simp_all add: rv_core_def) (cases r; simp)

text \<open>
  The two places where the loop refills the buffer: afterwards the record at the current
  position is in the buffer, and nothing else has changed.
\<close>

lemma rv_refill:
  assumes s: "in_sync rv d off bsz" and p: "drop off (log_file d) = xs @ ys" and x: "length xs \<le> LOG_BUFFER_SIZE"
    and l: "xs = [] \<or> off < length (log_file d)" and small: "length (log_file d) < 2 ^ 31"
  obtains n rv' d' where "rv_fill rv d (int off) = (Inr n, (rv', d'))" "int (length xs) \<le> n" "n \<le> int LOG_BUFFER_SIZE"
    "in_sync (rv'\<lparr>rv_buf_off := 0\<rparr>) d' off n" "log_file d' = log_file d" "rv_core rv' = rv_core rv"
proof -
  have r: "log_ready d" "length (rv_buf rv) = LOG_BUFFER_SIZE + 1" "off \<le> length (log_file d)"
    using s by (simp_all add: in_sync_def)
  have len: "length xs \<le> length (log_file d) - off" using arg_cong [OF p, of length] by simp
  obtain n rv' d' where f: "rv_fill rv d (int off) = (Inr n, (rv', d'))"
    "n = int (min LOG_BUFFER_SIZE (length (log_file d) - off))" "in_sync (rv'\<lparr>rv_buf_off := 0\<rparr>) d' off n"
    "log_file d' = log_file d" "\<exists>b. rv' = rv\<lparr>rv_buf := b\<rparr>"
    by (rule rv_fill_sync [OF r small])
  have "rv_core rv' = rv_core rv" using f(5) by auto
  then show ?thesis by (intro that [OF f(1) _ _ f(3,4)]) (use f(2) x len in simp_all)
qed

lemma u32_small: "0 \<le> x \<Longrightarrow> x < 2 ^ 32 \<Longrightarrow> u32 x = x"
  by (simp add: u32_def)

lemma rv_scan_step:
  assumes s: "in_sync rv d off bsz" and p: "drop off (log_file d) = log_bytes r @ ys"
    and ok: "log_ok r" and fits: "length (log_bytes r) \<le> LOG_BUFFER_SIZE" and small: "length (log_file d) < 2 ^ 31"
  obtains rv' d' n where "rv_scan (Suc k) rv d (int off) bsz = rv_scan k rv' d' (int (off + length (log_bytes r))) n"
    "in_sync rv' d' (off + length (log_bytes r)) n" "rv_core rv' = rv_note r (rv_core rv)" "log_file d' = log_file d"
proof -
  let ?L = "length (log_bytes r)" and ?b = "log_base_of r"
  have L: "lb_tot_len ?b = int ?L" "20 \<le> ?L" using ok log_bytes_length_ge [of r] by (simp_all add: log_ok_def)
  have bok: "base_ok ?b" using ok by (simp add: log_ok_def)
  have lbs: "LOG_BUFFER_SIZE = 4194304" by (simp add: LOG_BUFFER_SIZE_def PAGE_SIZE_def)
  obtain post where post: "log_bytes r = base_bytes ?b @ post" using base_prefix by blast
  have len: "off + ?L \<le> length (log_file d)"
  proof -
    have "length (log_file d) - off = ?L + length ys" using arg_cong [OF p, of length] by simp
    moreover have "off \<le> length (log_file d)" using s by (simp add: in_sync_def)
    ultimately show ?thesis by linarith
  qed
  define P1 where "P1 = (if int (rv_buf_off rv) + int OFFSET_LOG_DATA > bsz
           then (case rv_fill rv d (int off) of
                   (Inl e, (rv1, d1)) \<Rightarrow> (Inl e, (rv1, d1))
                 | (Inr n, (rv1, d1)) \<Rightarrow> (Inr (n, n < int OFFSET_LOG_DATA),
                     (if n < int OFFSET_LOG_DATA then rv1 else rv1\<lparr>rv_buf_off := 0\<rparr>, d1)))
           else (Inr (bsz, False), (rv, d)))"
  obtain n1 rv1 d1 where 1: "P1 = (Inr (n1, False), (rv1, d1))" "in_sync rv1 d1 off n1" "rv_core rv1 = rv_core rv"
      "log_file d1 = log_file d" "rv_buf_off rv1 + 20 \<le> nat n1"
  proof (cases "int (rv_buf_off rv) + int OFFSET_LOG_DATA > bsz")
    case True
    obtain n rv' d' where f: "rv_fill rv d (int off) = (Inr n, (rv', d'))" "int ?L \<le> n" "n \<le> int LOG_BUFFER_SIZE"
        "in_sync (rv'\<lparr>rv_buf_off := 0\<rparr>) d' off n" "log_file d' = log_file d" "rv_core rv' = rv_core rv"
      by (rule rv_refill [OF s p fits]) (use len L small in auto)
    show ?thesis
      by (rule that [of n "rv'\<lparr>rv_buf_off := 0\<rparr>" d']) (use f True L in \<open>simp_all add: P1_def log_offsets\<close>)
  next
    case False
    then show ?thesis using s by (intro that [of bsz rv d]) (auto simp: P1_def log_offsets)
  qed
  have p1: "drop off (log_file d1) = base_bytes ?b @ (post @ ys)" using p post 1(4) by simp
  obtain pre1 post1 where b1: "rv_buf rv1 = pre1 @ base_bytes ?b @ post1" "length pre1 = rv_buf_off rv1"
    by (rule in_sync_prefix [OF 1(2) p1]) (use 1(5) in simp_all)
  have base: "base_deserialize (rv_buf rv1) (rv_buf_off rv1) = ?b"
    using base_deserialize_bytes [OF bok, of pre1 post1] b1 by simp
  have n1: "0 \<le> n1" "n1 \<le> int LOG_BUFFER_SIZE" "int (rv_buf_off rv1) \<le> n1" using 1(2) by (auto simp: in_sync_def)
  have u1: "(u32 (int (rv_buf_off rv1) + int ?L) > u32 n1) = (int (rv_buf_off rv1) + int ?L > n1)"
    using n1 fits lbs by (simp add: u32_small)
  define P2 where "P2 = (if u32 (int (rv_buf_off rv1) + int ?L) > u32 n1
                  then (case rv_fill rv1 d1 (int off) of
                          (Inl e, (rv2, d2)) \<Rightarrow> (Inl e, (rv2, d2))
                        | (Inr n, (rv2, d2)) \<Rightarrow> (Inr (n, u32 n < int ?L),
                            (if u32 n < int ?L then rv2 else rv2\<lparr>rv_buf_off := 0\<rparr>, d2)))
                  else (Inr (n1, False), (rv1, d1)))"
  obtain n2 rv2 d2 where 2: "P2 = (Inr (n2, False), (rv2, d2))" "in_sync rv2 d2 off n2" "rv_core rv2 = rv_core rv"
      "log_file d2 = log_file d" "rv_buf_off rv2 + ?L \<le> nat n2"
  proof (cases "int (rv_buf_off rv1) + int ?L > n1")
    case True
    have p1': "drop off (log_file d1) = log_bytes r @ ys" using p 1(4) by simp
    obtain n rv' d' where f: "rv_fill rv1 d1 (int off) = (Inr n, (rv', d'))" "int ?L \<le> n" "n \<le> int LOG_BUFFER_SIZE"
        "in_sync (rv'\<lparr>rv_buf_off := 0\<rparr>) d' off n" "log_file d' = log_file d1" "rv_core rv' = rv_core rv1"
      by (rule rv_refill [OF 1(2) p1' fits]) (use len L 1(4) small in auto)
    have "u32 n = n" using f(2,3) lbs by (intro u32_small) simp_all
    then show ?thesis
      by (intro that [of n "rv'\<lparr>rv_buf_off := 0\<rparr>" d']) (use f True u1 1 in \<open>simp_all add: P2_def\<close>)
  next
    case False
    then show ?thesis using 1 u1 by (intro that [of n1 rv1 d1]) (auto simp: P2_def)
  qed
  have p2: "drop off (log_file d2) = log_bytes r @ ys" using p 2(4) by simp
  obtain pre2 post2 where b2: "rv_buf rv2 = pre2 @ log_bytes r @ post2" "length pre2 = rv_buf_off rv2"
    by (rule in_sync_prefix [OF 2(2) p2 2(5)])
  have rec: "log_deserialize (rv_buf rv2) (rv_buf_off rv2) = Inr r"
    using log_deserialize_bytes [OF ok, of pre2 post2] b2 by simp
  have w: "wrap32 (int off + int ?L) = int (off + ?L)"
    using len small by (subst wrap32_id) (simp_all add: int_range_def)
  let ?rv = "(rv_note r rv2)\<lparr>rv_buf_off := rv_buf_off rv2 + ?L\<rparr>"
  have "rv_scan (Suc k) rv d (int off) bsz = rv_scan k ?rv d2 (int (off + ?L)) n2"
    by (simp only: rv_scan.simps P1_def [symmetric] 1(1) prod.case sum.case if_False Let_def base L(1)
        P2_def [symmetric] 2(1) rec nat_int w)
  moreover have "in_sync ?rv d2 (off + ?L) n2"
    by (rule in_sync_advance [OF 2(2,5)]) simp
  ultimately show ?thesis by (rule that) (simp_all add: 2(3,4))
qed

lemma rv_scan_records:
  assumes "in_sync rv d off bsz" "drop off (log_file d) = concat (map log_bytes rs)"
    "\<forall>r\<in>set rs. log_ok r \<and> length (log_bytes r) \<le> LOG_BUFFER_SIZE" "length (log_file d) < 2 ^ 31" "length rs < k"
  shows "\<exists>rv' d'. rv_scan k rv d (int off) bsz = Some (Inr rv', d') \<and> rv_core rv' = fold rv_note rs (rv_core rv) \<and>
    log_file d' = log_file d"
  using assms
proof (induction rs arbitrary: k rv d off bsz)
  case Nil
  then obtain k' where k: "k = Suc k'" by (cases k) auto
  have off: "off = length (log_file d)" using Nil.prems(1,2) by (simp add: in_sync_def)
  have r: "log_ready d" "length (rv_buf rv) = LOG_BUFFER_SIZE + 1" "off \<le> length (log_file d)"
    using Nil.prems(1) by (simp_all add: in_sync_def)
  have left: "int (rv_buf_off rv) + int OFFSET_LOG_DATA > bsz"
  proof -
    have "nat bsz - rv_buf_off rv \<le> length (log_file d) - off" "int (rv_buf_off rv) \<le> bsz"
      using Nil.prems(1) by (simp_all add: in_sync_def)
    then show ?thesis using off by (simp add: log_offsets)
  qed
  obtain n rv' d' where f: "rv_fill rv d (int off) = (Inr n, (rv', d'))"
    "n = int (min LOG_BUFFER_SIZE (length (log_file d) - off))" "log_file d' = log_file d" "\<exists>b. rv' = rv\<lparr>rv_buf := b\<rparr>"
    by (rule rv_fill_sync [OF r]) (use Nil.prems in auto)
  then show ?case using left off by (auto simp: k log_offsets)
next
  case (Cons r rs)
  then obtain k' where k: "k = Suc k'" by (cases k) auto
  have p: "drop off (log_file d) = log_bytes r @ concat (map log_bytes rs)" using Cons.prems(2) by simp
  obtain rv' d' n where st: "rv_scan (Suc k') rv d (int off) bsz = rv_scan k' rv' d' (int (off + length (log_bytes r))) n"
    "in_sync rv' d' (off + length (log_bytes r)) n" "rv_core rv' = rv_note r (rv_core rv)" "log_file d' = log_file d"
    by (rule rv_scan_step [OF Cons.prems(1) p]) (use Cons.prems(3,4) in auto)
  have "drop (off + length (log_bytes r)) (log_file d') = concat (map log_bytes rs)"
    using arg_cong [OF p, of "drop (length (log_bytes r))"] st(4) by (simp add: add.commute)
  from Cons.IH [OF st(2) this] Cons.prems(3-5) st show ?case by (auto simp: k)
qed

end
