(* ===== verification/Recovery_Correct.thy ===== *)
theory Recovery_Correct
  imports Log_Recovery
begin

text \<open>
  Correctness of restart recovery. The specification is a history of row changes
  (\<open>Row_History\<close>): the tables at the checkpoint, and the changes logged since then. Under the
  conditions strict two-phase locking gives (a row changed by a transaction without a commit
  record is not changed afterwards by another one), for a log with increasing LSNs and no
  rollback at run time, recovery from any state of the pages a crash may leave ends in the
  tables of the committed transactions. The theory also shows the two conditions to be
  needed: a reused LSN makes \<^verbatim>\<open>analyze\<close> drop a record, and the changes of a transaction that
  was rolled back before the crash are taken back a second time.
\<close>

section \<open>The changes of a log\<close>

abbreviation lsn_of :: "log_record \<Rightarrow> lsn" where "lsn_of r \<equiv> lb_lsn (log_base_of r)"
abbreviation tid_of :: "log_record \<Rightarrow> txn_id" where "tid_of r \<equiv> lb_tid (log_base_of r)"
abbreviation prev_of :: "log_record \<Rightarrow> lsn" where "prev_of r \<equiv> lb_prev_lsn (log_base_of r)"

fun log_row :: "log_record \<Rightarrow> row_op list" where
  "log_row (InsertLogRecord b v r n) = [RowInsert n r v]"
| "log_row (DeleteLogRecord b v r n) = [RowDelete n r v]"
| "log_row (UpdateLogRecord b v w r n) = [RowUpdate n r v w]"
| "log_row _ = []"

definition log_rows :: "log_record list \<Rightarrow> row_op list" where
  "log_rows rs = concat (map log_row rs)"

lemma log_rows_simps [simp]:
  "log_rows [] = []" "log_rows (r # rs) = log_row r @ log_rows rs" "log_rows (rs @ qs) = log_rows rs @ log_rows qs"
  by (simp_all add: log_rows_def)

fun is_commit :: "log_record \<Rightarrow> bool" where
  "is_commit (CommitLogRecord b) = True"
| "is_commit _ = False"

fun is_begin :: "log_record \<Rightarrow> bool" where
  "is_begin (BeginLogRecord b) = True"
| "is_begin _ = False"

fun is_other :: "log_record \<Rightarrow> bool" where
  "is_other (AbortLogRecord b) = True"
| "is_other (StaticCKPTLogRecord b) = True"
| "is_other _ = False"

definition committed :: "log_record list \<Rightarrow> txn_id \<Rightarrow> bool" where
  "committed rs t \<longleftrightarrow> (\<exists>r\<in>set rs. is_commit r \<and> tid_of r = t)"

definition recs_of :: "txn_id \<Rightarrow> log_record list \<Rightarrow> log_record list" where
  "recs_of t rs = filter (\<lambda>r. tid_of r = t) rs"

text \<open>The tables after the changes of the committed transactions only.\<close>

definition committed_tables :: "tables \<Rightarrow> log_record list \<Rightarrow> tables" where
  "committed_tables T rs = fold redo_row (log_rows (filter (\<lambda>r. committed rs (tid_of r)) rs)) T"

section \<open>What analysis collects\<close>

lemma emplace_sorted_end: "(\<And>x. x \<in> set xs \<Longrightarrow> fst x < k) \<Longrightarrow> emplace_sorted k v xs = xs @ [(k, v)]"
proof (induction xs)
  case (Cons x xs)
  have "fst x < k" using Cons.prems [of x] by simp
  moreover have "emplace_sorted k v xs = xs @ [(k, v)]" by (rule Cons.IH) (use Cons.prems in simp)
  ultimately show ?case by (cases x) auto
qed simp

lemma rv_note_records: "rv_records (rv_note r rv) = emplace_sorted (lsn_of r) r (rv_records rv)"
  by (cases r) auto

lemma note_all_records:
  assumes "sorted_wrt (<) (map fst (rv_records rv) @ map lsn_of rs)"
  shows "rv_records (fold rv_note rs rv) = rv_records rv @ map (\<lambda>r. (lsn_of r, r)) rs"
  using assms
proof (induction rs arbitrary: rv)
  case (Cons r rs)
  have e: "rv_records (rv_note r rv) = rv_records rv @ [(lsn_of r, r)]"
    unfolding rv_note_records by (rule emplace_sorted_end) (use Cons.prems in \<open>auto simp: sorted_wrt_append\<close>)
  then have "rv_records (fold rv_note rs (rv_note r rv)) = rv_records (rv_note r rv) @ map (\<lambda>r. (lsn_of r, r)) rs"
    by (intro Cons.IH) (use Cons.prems in simp)
  then show ?case using e by simp
qed simp

lemma note_all_txns: "rv_txn_list (fold rv_note rs rv) = rv_txn_list rv @ map tid_of (filter is_begin rs)"
proof (induction rs arbitrary: rv)
  case (Cons r rs)
  show ?case using Cons [of "rv_note r rv"] by (cases r) auto
qed simp

lemma note_all_map: "rv_redo_map (fold rv_note rs rv) = rv_redo_map rv"
proof (induction rs arbitrary: rv)
  case (Cons r rs)
  show ?case using Cons [of "rv_note r rv"] by (cases r) auto
qed simp

lemma map_assign_of: "map_of (map_assign k v xs) = (map_of xs)(k \<mapsto> v)"
  by (induction xs) (auto simp: fun_upd_twist)

lemma map_erase_of: "map_of (map_erase k xs) = (map_of xs)(k := None)"
  by (induction xs) (auto simp: map_erase_def fun_upd_twist)

lemma map_emplace_of: "map_of (map_emplace k v xs) = (if map_of xs k = None then (map_of xs)(k \<mapsto> v) else map_of xs)"
  by (auto simp: map_emplace_def map_add_def fun_eq_iff split: option.splits)

text \<open>
  The transactions to undo, with the LSN to start from: for a transaction with no commit
  record it is the LSN of its last record.
\<close>

lemma note_undo_other:
  "tid_of r \<noteq> t \<Longrightarrow> map_of (rv_undo_txn (rv_note r rv)) t = map_of (rv_undo_txn rv) t"
  by (cases r) (auto simp: map_assign_of map_erase_of map_emplace_of)

lemma note_undo_same:
  assumes "tid_of r = t" "\<not> is_commit r" "is_begin r \<longrightarrow> map_of (rv_undo_txn rv) t = None" "\<not> is_other r"
  shows "map_of (rv_undo_txn (rv_note r rv)) t = Some (lsn_of r)"
  using assms by (cases r) (auto simp: map_assign_of map_emplace_of)

lemma note_undo_commit:
  "tid_of r = t \<Longrightarrow> is_commit r \<Longrightarrow> map_of (rv_undo_txn (rv_note r rv)) t = None"
  by (cases r) (auto simp: map_erase_of)

text \<open>
  The log of one transaction: it starts with its begin record, has no other, ends with its
  commit record if it has one, and each record points to the one before it.
\<close>

fun chain :: "lsn \<Rightarrow> log_record list \<Rightarrow> bool" where
  "chain l [] \<longleftrightarrow> True"
| "chain l (r # rs) \<longleftrightarrow> prev_of r = l \<and> chain (lsn_of r) rs"

definition txn_log_ok :: "log_record list \<Rightarrow> bool" where
  "txn_log_ok xs \<longleftrightarrow> chain INVALID_LSN xs \<and> (\<forall>r\<in>set (tl xs). \<not> is_begin r) \<and> (\<forall>r\<in>set (butlast xs). \<not> is_commit r) \<and>
     (xs \<noteq> [] \<longrightarrow> is_begin (hd xs))"

definition log_wf :: "log_record list \<Rightarrow> bool" where
  "log_wf rs \<longleftrightarrow> sorted_wrt (<) (map lsn_of rs) \<and> (\<forall>r\<in>set rs. 0 \<le> lsn_of r \<and> 0 \<le> tid_of r \<and> \<not> is_other r) \<and>
     (\<forall>t. txn_log_ok (recs_of t rs))"

lemma undo_of_loser_aux:
  assumes "\<forall>r\<in>set rs. tid_of r = t \<longrightarrow> \<not> is_commit r \<and> \<not> is_begin r \<and> \<not> is_other r"
  shows "map_of (rv_undo_txn (fold rv_note rs rv)) t =
    (if recs_of t rs = [] then map_of (rv_undo_txn rv) t else Some (lsn_of (last (recs_of t rs))))"
  using assms
proof (induction rs arbitrary: rv)
  case (Cons r rs)
  show ?case
    using Cons.IH [of "rv_note r rv"] Cons.prems note_undo_other [of r t rv] note_undo_same [of r t rv]
    by (auto simp: recs_of_def)
qed (simp add: recs_of_def)

lemma recs_of_Cons_split:
  assumes "recs_of t rs = x # xs"
  obtains us vs where "rs = us @ x # vs" "recs_of t us = []" "recs_of t vs = xs"
  using assms that unfolding recs_of_def by (auto simp: filter_eq_Cons_iff filter_empty_conv)

lemma recs_of_append [simp]: "recs_of t (xs @ ys) = recs_of t xs @ recs_of t ys"
  by (simp add: recs_of_def)

lemma recs_of_snoc_split:
  assumes "recs_of t rs = xs @ [x]"
  obtains us vs where "rs = us @ x # vs" "recs_of t us = xs" "recs_of t vs = []"
proof -
  have "recs_of t (rev rs) = x # rev xs" using arg_cong [OF assms, of rev] by (simp add: recs_of_def rev_filter)
  then obtain us vs where s: "rev rs = us @ x # vs" "recs_of t us = []" "recs_of t vs = rev xs"
    by (rule recs_of_Cons_split)
  have "rs = rev vs @ x # rev us" using arg_cong [OF s(1), of rev] by simp
  moreover have "recs_of t (rev vs) = xs" "recs_of t (rev us) = []"
    using arg_cong [OF s(3), of rev] s(2) by (simp_all add: recs_of_def rev_filter flip: rev_filter)
  ultimately show ?thesis by (rule that)
qed

lemma recs_of_set: "r \<in> set (recs_of t rs) \<longleftrightarrow> r \<in> set rs \<and> tid_of r = t"
  by (auto simp: recs_of_def)

lemma fold_note_none:
  "recs_of t rs = [] \<Longrightarrow> map_of (rv_undo_txn (fold rv_note rs rv)) t = map_of (rv_undo_txn rv) t"
  using undo_of_loser_aux [of rs t rv] by (force simp: recs_of_def filter_empty_conv)

lemma undo_of_loser:
  assumes wf: "log_wf rs" and ne: "recs_of t rs \<noteq> []" and nc: "\<not> committed rs t"
    and start: "map_of (rv_undo_txn rv) t = None"
  shows "map_of (rv_undo_txn (fold rv_note rs rv)) t = Some (lsn_of (last (recs_of t rs)))"
proof -
  obtain b xs where bx: "recs_of t rs = b # xs" using ne by (cases "recs_of t rs") auto
  have ok: "txn_log_ok (b # xs)" using wf bx by (metis log_wf_def)
  obtain us vs where s: "rs = us @ b # vs" "recs_of t us = []" "recs_of t vs = xs"
    by (rule recs_of_Cons_split [OF bx])
  have tb: "tid_of b = t" using bx by (metis list.set_intros(1) recs_of_set)
  have "is_begin b" using ok by (simp add: txn_log_ok_def)
  moreover have "\<not> is_commit b" using calculation by (cases b) auto
  moreover have "\<not> is_other b" using calculation by (cases b) auto
  ultimately have b: "map_of (rv_undo_txn (rv_note b (fold rv_note us rv))) t = Some (lsn_of b)"
    by (intro note_undo_same [OF tb]) (simp_all add: fold_note_none [OF s(2)] start)
  have "\<not> is_commit r \<and> \<not> is_begin r \<and> \<not> is_other r" if "r \<in> set vs" "tid_of r = t" for r
  proof -
    have "r \<in> set xs" using that s(3) by (auto simp: recs_of_set)
    then have "\<not> is_begin r" using ok by (simp add: txn_log_ok_def)
    moreover have "r \<in> set rs" using that s(1) by simp
    ultimately show ?thesis using nc wf that(2) by (auto simp: committed_def log_wf_def)
  qed
  then have "map_of (rv_undo_txn (fold rv_note vs (rv_note b (fold rv_note us rv)))) t =
      (if recs_of t vs = [] then Some (lsn_of b) else Some (lsn_of (last (recs_of t vs))))"
    using undo_of_loser_aux [of vs t "rv_note b (fold rv_note us rv)"] b by auto
  then show ?thesis using s bx by simp
qed

lemma undo_of_winner:
  assumes wf: "log_wf rs" and c: "committed rs t" and start: "map_of (rv_undo_txn rv) t = None"
  shows "map_of (rv_undo_txn (fold rv_note rs rv)) t = None"
proof -
  obtain r where r: "r \<in> set (recs_of t rs)" "is_commit r" using c by (auto simp: committed_def recs_of_set)
  have ne: "recs_of t rs \<noteq> []" using r(1) by auto
  have ok: "txn_log_ok (recs_of t rs)" using wf by (simp add: log_wf_def)
  obtain xs x where e: "recs_of t rs = xs @ [x]" using ne by (metis append_butlast_last_id)
  have x: "is_commit x" "tid_of x = t"
  proof -
    show "is_commit x" using r ok e by (auto simp: txn_log_ok_def)
    have "x \<in> set (recs_of t rs)" using e by simp
    then show "tid_of x = t" by (simp add: recs_of_set)
  qed
  obtain us vs where s: "rs = us @ x # vs" "recs_of t us = xs" "recs_of t vs = []"
    by (rule recs_of_snoc_split [OF e])
  show ?thesis using note_undo_commit [OF x(2,1), of "fold rv_note us rv"] fold_note_none [OF s(3)] s(1) by simp
qed

lemma undo_of_iff:
  assumes "log_wf rs" "map_of (rv_undo_txn rv) t = None"
  shows "map_of (rv_undo_txn (fold rv_note rs rv)) t \<noteq> None \<longleftrightarrow> recs_of t rs \<noteq> [] \<and> \<not> committed rs t"
  using undo_of_loser [OF assms(1) _ _ assms(2)] undo_of_winner [OF assms(1) _ assms(2)]
    fold_note_none [of t rs rv] assms(2) by auto

section \<open>What undo takes back\<close>

lemma undo_record_run: "undo_record db r = rdb.run_ops rdb.undo_op (log_row r) db"
  by (cases r) (auto split: prod.splits sum.splits)

lemma redo_record_run: "log_place r = Some (n, p) \<Longrightarrow> redo_record db n r = rdb.run_ops rdb.redo_op (log_row r) db"
  by (cases r) (auto split: prod.splits sum.splits)

lemma chain_snoc:
  "chain l (xs @ [x]) \<longleftrightarrow> chain l xs \<and> prev_of x = (if xs = [] then l else lsn_of (last xs))"
  by (induction xs arbitrary: l) auto

lemma undo_chain_run:
  assumes "chain INVALID_LSN xs" "\<forall>r\<in>set xs. map_of recs (lsn_of r) = Some r" "map_of recs INVALID_LSN = None"
    "length xs < k"
  shows "undo_chain k recs (if xs = [] then INVALID_LSN else lsn_of (last xs)) db =
    Some (rdb.run_ops rdb.undo_op (log_rows (rev xs)) db)"
  using assms
proof (induction xs arbitrary: k db rule: rev_induct)
  case Nil
  then show ?case by (cases k) auto
next
  case (snoc x xs)
  then obtain k' where k: "k = Suc k'" by (cases k) auto
  have "undo_chain k' recs (prev_of x) db' = Some (rdb.run_ops rdb.undo_op (log_rows (rev xs)) db')" for db'
    using snoc.IH [of k' db'] snoc.prems k by (simp add: chain_snoc)
  then show ?case
    using snoc.prems by (simp add: k undo_record_run rdb.run_ops_append split: prod.splits sum.splits)
qed

lemma undo_txns_run:
  assumes "\<And>t. t \<in> set ts \<Longrightarrow> t \<noteq> INVALID_LSN \<and>
    (\<exists>l. map_of (rv_undo_txn rv) t = Some l \<and> (\<forall>db. undo_chain k (rv_records rv) l db = Some (rdb.run_ops rdb.undo_op (f t) db)))"
  shows "undo_txns k rv ts db = Some (rdb.run_ops rdb.undo_op (concat (map f ts)) db)"
  using assms
proof (induction ts arbitrary: db)
  case (Cons t ts)
  obtain l where "t \<noteq> INVALID_LSN" "map_of (rv_undo_txn rv) t = Some l"
    "\<And>db. undo_chain k (rv_records rv) l db = Some (rdb.run_ops rdb.undo_op (f t) db)"
    using Cons.prems [of t] by auto
  moreover have "undo_txns k rv ts db' = Some (rdb.run_ops rdb.undo_op (concat (map f ts)) db')" for db'
    by (rule Cons.IH) (use Cons.prems in simp)
  ultimately show ?case by (simp add: rdb.run_ops_append split: prod.splits sum.splits)
qed simp

section \<open>What redo re-executes\<close>

text \<open>The page a record is filed under, and the records filed under a page.\<close>

definition page_of :: "(string \<Rightarrow> rm_file option) \<Rightarrow> log_record \<Rightarrow> page_id option" where
  "page_of fh r = (case log_place r of None \<Rightarrow> None | Some (n, p) \<Rightarrow> map_option (\<lambda>h. mk_pid (rm_fd h) p) (fh n))"

definition on_page :: "(string \<Rightarrow> rm_file option) \<Rightarrow> page_id \<Rightarrow> (lsn \<times> log_record) list \<Rightarrow> (lsn \<times> log_record) list" where
  "on_page fh p rs = filter (\<lambda>x. page_of fh (snd x) = Some p) rs"

definition place_name :: "log_record \<Rightarrow> string" where
  "place_name r = (case log_place r of None \<Rightarrow> [] | Some (n, p) \<Rightarrow> n)"

definition filed :: "(lsn \<times> log_record) list \<Rightarrow> (string \<times> lsn list) option" where
  "filed xs = (if xs = [] then None else Some (place_name (snd (hd xs)), map fst xs))"

lemma map_of_redo_map_add:
  "map_of (redo_map_add p n l m) = (map_of m)(p \<mapsto> (case map_of m p of None \<Rightarrow> (n, [l]) | Some (n', ls) \<Rightarrow> (n', ls @ [l])))"
  by (induction m) (auto simp: fun_eq_iff)

lemma rv_pages_filed:
  assumes "\<forall>(l, r)\<in>set rs. \<forall>n p. log_place r = Some (n, p) \<longrightarrow> fh n \<noteq> None"
  shows "\<exists>m'. rv_pages fh rs m = Inr m' \<and>
    (\<forall>p. map_of m' p = (case map_of m p of None \<Rightarrow> filed (on_page fh p rs) | Some (n, ls) \<Rightarrow> Some (n, ls @ map fst (on_page fh p rs))))"
  using assms
proof (induction rs arbitrary: m)
  case Nil
  show ?case by (auto simp: on_page_def filed_def split: option.splits)
next
  case (Cons x rs)
  obtain l r where x: "x = (l, r)" by (cases x)
  have open_: "\<forall>(l, r)\<in>set rs. \<forall>n p. log_place r = Some (n, p) \<longrightarrow> fh n \<noteq> None" using Cons.prems by simp
  show ?case
  proof (cases "log_place r")
    case None
    then have o: "on_page fh p (x # rs) = on_page fh p rs" for p by (simp add: on_page_def page_of_def x)
    have "rv_pages fh (x # rs) m = rv_pages fh rs m" using None by (simp add: x)
    then show ?thesis unfolding o using Cons.IH [OF open_, of m] by simp
  next
    case (Some np)
    obtain n p where np: "np = (n, p)" by (cases np)
    obtain h where h: "fh n = Some h" using Cons.prems Some np x by auto
    let ?p = "mk_pid (rm_fd h) p"
    obtain m' where m': "rv_pages fh rs (redo_map_add ?p n l m) = Inr m'"
      "\<And>q. map_of m' q = (case map_of (redo_map_add ?p n l m) q of None \<Rightarrow> filed (on_page fh q rs)
        | Some (n, ls) \<Rightarrow> Some (n, ls @ map fst (on_page fh q rs)))"
      using Cons.IH [OF open_, of "redo_map_add ?p n l m"] by blast
    have o: "on_page fh q (x # rs) = (if q = ?p then [x] else []) @ on_page fh q rs" for q
      using Some h by (auto simp: on_page_def page_of_def x np)
    show ?thesis
    proof (intro exI [of _ m'] conjI allI)
      show "rv_pages fh (x # rs) m = Inr m'" using m'(1) Some h by (simp add: x np)
      show "map_of m' q = (case map_of m q of None \<Rightarrow> filed (on_page fh q (x # rs))
          | Some (n, ls) \<Rightarrow> Some (n, ls @ map fst (on_page fh q (x # rs))))" for q
        unfolding m'(2) o using Some
        by (cases "map_of m q"; cases "q = ?p") (simp_all add: map_of_redo_map_add x np filed_def place_name_def split_beta)
    qed
  qed
qed

lemma redo_page_run:
  assumes "\<forall>(l, r)\<in>set xs. map_of recs l = Some r \<and> (\<exists>p. log_place r = Some (n, p))"
  shows "redo_page recs n (map fst xs) db = rdb.run_ops rdb.redo_op (log_rows (map snd xs)) db"
  using assms
proof (induction xs arbitrary: db)
  case (Cons x xs)
  obtain l r where x: "x = (l, r)" by (cases x)
  then obtain p where "map_of recs l = Some r" "log_place r = Some (n, p)" using Cons.prems by auto
  moreover have "redo_page recs n (map fst xs) db' = rdb.run_ops rdb.redo_op (log_rows (map snd xs)) db'" for db'
    using Cons.IH Cons.prems by simp
  ultimately show ?case
    by (simp add: x redo_record_run rdb.run_ops_append split: prod.splits sum.splits)
qed simp

text \<open>Different tables have different file descriptors, so all records of a page name one table.\<close>

definition fds_distinct :: "(string \<Rightarrow> rm_file option) \<Rightarrow> bool" where
  "fds_distinct fh \<longleftrightarrow> (\<forall>n m g h. fh n = Some g \<longrightarrow> fh m = Some h \<longrightarrow> rm_fd g = rm_fd h \<longrightarrow> n = m)"

lemma page_of_name:
  assumes "fds_distinct fh" "page_of fh r = Some p" "page_of fh q = Some p"
  shows "place_name q = place_name r" "\<exists>i. log_place q = Some (place_name q, i)"
  using assms unfolding fds_distinct_def page_of_def place_name_def
  by (auto split: option.splits)

lemma on_page_run:
  assumes fd: "fds_distinct fh" and recs: "\<forall>(l, r)\<in>set rs. map_of rs l = Some r"
    and f: "filed (on_page fh p rs) = Some (n, ls)"
  shows "redo_page rs n ls db = rdb.run_ops rdb.redo_op (log_rows (map snd (on_page fh p rs))) db"
proof -
  let ?xs = "on_page fh p rs"
  have ne: "?xs \<noteq> []" and n: "n = place_name (snd (hd ?xs))" and ls: "ls = map fst ?xs"
    using f by (auto simp: filed_def split: if_splits)
  have pg: "page_of fh (snd x) = Some p" "x \<in> set rs" if "x \<in> set ?xs" for x using that by (simp_all add: on_page_def)
  have "page_of fh (snd (hd ?xs)) = Some p" using pg hd_in_set [OF ne] by blast
  then have "\<exists>i. log_place (snd x) = Some (n, i)" if "x \<in> set ?xs" for x
    using page_of_name [OF fd _ pg(1) [OF that]] n by metis
  then have "\<forall>(l, r)\<in>set ?xs. map_of rs l = Some r \<and> (\<exists>i. log_place r = Some (n, i))"
    using recs pg(2) by fastforce
  then show ?thesis unfolding ls by (rule redo_page_run)
qed

lemma rv_redo_run:
  assumes fd: "fds_distinct fh" and recs: "\<forall>(l, r)\<in>set (rv_records rv). map_of (rv_records rv) l = Some r"
    and m: "\<And>p. map_of (rv_redo_map rv) p = filed (on_page fh p (rv_records rv))"
  shows "rv_redo rv ord db = rdb.run_ops rdb.redo_op (concat (map (\<lambda>p. log_rows (map snd (on_page fh p (rv_records rv)))) ord)) db"
proof (induction ord arbitrary: db)
  case (Cons p ord)
  show ?case
  proof (cases "filed (on_page fh p (rv_records rv))")
    case None
    then have "on_page fh p (rv_records rv) = []" by (auto simp: filed_def split: if_splits)
    then show ?thesis using Cons None by (simp add: m)
  next
    case (Some x)
    obtain n ls where x: "x = (n, ls)" by (cases x)
    show ?thesis
      using Cons Some on_page_run [OF fd recs, of p n ls]
      by (simp add: m x rdb.run_ops_append split: prod.splits sum.splits)
  qed
qed simp

section \<open>Row by row\<close>

definition touches :: "string \<times> rid \<Rightarrow> log_record \<Rightarrow> bool" where
  "touches k r \<longleftrightarrow> map row_key (log_row r) = [k]"

lemma ops_on_log_rows: "ops_on k (log_rows rs) = log_rows (filter (touches k) rs)"
proof (induction rs)
  case (Cons r rs)
  then show ?case by (cases r) (auto simp: touches_def)
qed simp

lemma log_rows_rev: "log_rows (rev rs) = rev (log_rows rs)"
proof (induction rs)
  case (Cons r rs)
  then show ?case by (cases r) auto
qed simp

lemma concat_single:
  assumes "distinct xs" "\<And>x. x \<in> set xs \<Longrightarrow> x \<noteq> y \<Longrightarrow> f x = []" "y \<notin> set xs \<Longrightarrow> f y = []"
  shows "concat (map f xs) = f y"
proof (cases "y \<in> set xs")
  case True
  then obtain us vs where s: "xs = us @ y # vs" by (meson split_list)
  have "concat (map f us) = []" "concat (map f vs) = []" using assms(1,2) s by auto
  then show ?thesis unfolding s by (simp del: concat_eq_Nil_conv)
next
  case False
  then have "concat (map f xs) = []" using assms(2) by auto
  then show ?thesis using assms(3) [OF False] by simp
qed

lemma filter_concat_map: "filter P (concat (map f xs)) = concat (map (\<lambda>x. filter P (f x)) xs)"
  by (simp add: filter_concat comp_def)

text \<open>The page-wise order of redo keeps the order of the changes to each row.\<close>

lemma touches_page:
  assumes "touches (n, i) r" "fh n = Some h"
  shows "page_of fh r = Some (mk_pid (rm_fd h) (page_no i))"
  using assms by (cases r) (auto simp: touches_def page_of_def)

lemma touches_place: "touches (n, i) r \<Longrightarrow> log_place r = Some (n, page_no i)"
  by (cases r) (auto simp: touches_def)

lemma redo_order:
  assumes op: "\<forall>r\<in>set rs. \<forall>n p. log_place r = Some (n, p) \<longrightarrow> fh n \<noteq> None"
    and ord: "distinct ord" "\<forall>p. filter (\<lambda>r. page_of fh r = Some p) rs \<noteq> [] \<longrightarrow> p \<in> set ord"
  shows "ops_on k (concat (map (\<lambda>p. log_rows (filter (\<lambda>r. page_of fh r = Some p) rs)) ord)) = ops_on k (log_rows rs)"
proof (cases "filter (touches k) rs")
  case Nil
  have "filter (touches k) (filter (\<lambda>r. page_of fh r = Some p) rs) = []" for p
    using Nil by (auto simp: filter_empty_conv)
  then show ?thesis using Nil by (simp add: filter_concat_map ops_on_log_rows)
next
  case (Cons r0 ys)
  obtain n i where k: "k = (n, i)" by (cases k)
  have r0: "touches (n, i) r0" "r0 \<in> set rs" using Cons k by (auto simp: filter_eq_Cons_iff)
  obtain h where h: "fh n = Some h" using op r0 touches_place [OF r0(1)] by auto
  let ?q = "mk_pid (rm_fd h) (page_no i)"
  let ?f = "\<lambda>p. log_rows (filter (touches k) (filter (\<lambda>r. page_of fh r = Some p) rs))"
  have tp: "page_of fh r = Some ?q" if "touches k r" for r using touches_page [of n i r fh h] that h k by simp
  have "concat (map ?f ord) = ?f ?q"
  proof (rule concat_single [OF ord(1)])
    show "?f p = []" if "p \<noteq> ?q" for p
    proof -
      have "filter (touches k) (filter (\<lambda>r. page_of fh r = Some p) rs) = []" using tp that by (auto simp: filter_empty_conv)
      then show ?thesis by simp
    qed
    show "?f ?q = []" if "?q \<notin> set ord"
    proof -
      have "filter (\<lambda>r. page_of fh r = Some ?q) rs = []" using ord(2) that by blast
      then show ?thesis by simp
    qed
  qed
  moreover have "filter (touches k) (filter (\<lambda>r. page_of fh r = Some ?q) rs) = filter (touches k) rs"
    using tp by (auto intro: filter_cong)
  ultimately show ?thesis by (simp add: filter_concat_map ops_on_log_rows)
qed

section \<open>Winners and losers\<close>

text \<open>
  Strict two-phase locking: a later change of the same row belongs to the same transaction,
  or the earlier one is committed.
\<close>

definition isolated :: "log_record list \<Rightarrow> bool" where
  "isolated rs \<longleftrightarrow> sorted_wrt (\<lambda>r s. log_row r \<noteq> [] \<and> map row_key (log_row r) = map row_key (log_row s) \<longrightarrow>
     tid_of s = tid_of r \<or> committed rs (tid_of r)) rs"

lemma isolated_split:
  assumes "isolated rs"
  obtains A B t where "filter (touches k) rs = A @ B" "\<forall>r\<in>set A. committed rs (tid_of r)"
    "\<forall>r\<in>set B. tid_of r = t" "B = [] \<or> \<not> committed rs t"
proof -
  let ?c = "\<lambda>r. committed rs (tid_of r)"
  let ?xs = "filter (touches k) rs"
  define A where "A = takeWhile ?c ?xs"
  define B where "B = dropWhile ?c ?xs"
  have eq: "?xs = A @ B" by (simp add: A_def B_def)
  have A: "\<forall>r\<in>set A. ?c r" by (auto simp: A_def dest: set_takeWhileD)
  show ?thesis
  proof (cases B)
    case Nil
    then show ?thesis using that [of A B "0"] eq A by simp
  next
    case (Cons b B')
    have nb: "\<not> ?c b" using Cons unfolding B_def by (metis dropWhile_eq_Cons_conv)
    have "sorted_wrt (\<lambda>r s. log_row r \<noteq> [] \<and> map row_key (log_row r) = map row_key (log_row s) \<longrightarrow>
        tid_of s = tid_of r \<or> committed rs (tid_of r)) ?xs"
      using assms unfolding isolated_def by (rule sorted_wrt_filter)
    then have s: "log_row b \<noteq> [] \<and> map row_key (log_row b) = map row_key (log_row r) \<longrightarrow> tid_of r = tid_of b"
      if "r \<in> set B'" for r
      using that nb unfolding eq Cons by (auto simp: sorted_wrt_append)
    have tk: "map row_key (log_row r) = [k]" if "r \<in> set B" for r
    proof -
      have "r \<in> set ?xs" unfolding eq using that by simp
      then show ?thesis by (simp add: touches_def)
    qed
    have "tid_of r = tid_of b" if "r \<in> set B" for r
    proof (cases "r = b")
      case False
      then have "r \<in> set B'" using that Cons by simp
      moreover have "map row_key (log_row b) = [k]" "map row_key (log_row r) = [k]" using tk Cons calculation by simp_all
      ultimately show ?thesis using s by auto
    qed simp
    then show ?thesis using that [of A B "tid_of b"] eq A nb by blast
  qed
qed

definition losers :: "log_record list \<Rightarrow> txn_id list" where
  "losers rs = rev (filter (\<lambda>t. \<not> committed rs t) (map tid_of (filter is_begin rs)))"

lemma distinct_counts: "(\<And>t. length (filter (\<lambda>x. x = t) ys) \<le> 1) \<Longrightarrow> distinct ys"
proof (induction ys)
  case (Cons y ys)
  have "length (filter (\<lambda>x. x = y) ys) = 0" using Cons.prems [of y] by simp
  then have "y \<notin> set ys" by (auto simp: filter_empty_conv)
  moreover have "distinct ys"
  proof (rule Cons.IH)
    show "length (filter (\<lambda>x. x = t) ys) \<le> 1" for t using Cons.prems [of t] by (simp split: if_splits)
  qed
  ultimately show ?case by simp
qed simp

lemma losers_distinct:
  assumes "log_wf rs" shows "distinct (losers rs)"
proof -
  have "distinct (map tid_of (filter is_begin rs))"
  proof (rule distinct_counts)
    fix t
    have ok: "txn_log_ok (recs_of t rs)" using assms by (simp add: log_wf_def)
    have "filter is_begin (tl (recs_of t rs)) = []" using ok by (auto simp: txn_log_ok_def filter_empty_conv)
    then have "length (filter is_begin (recs_of t rs)) \<le> 1" by (cases "recs_of t rs") auto
    moreover have "filter (\<lambda>x. x = t) (map tid_of (filter is_begin rs)) = map tid_of (filter is_begin (recs_of t rs))"
      by (simp add: filter_map comp_def recs_of_def conj_commute)
    ultimately show "length (filter (\<lambda>x. x = t) (map tid_of (filter is_begin rs))) \<le> 1" by simp
  qed
  then show ?thesis by (simp add: losers_def)
qed

lemma losers_set:
  assumes "log_wf rs" shows "t \<in> set (losers rs) \<longleftrightarrow> recs_of t rs \<noteq> [] \<and> \<not> committed rs t"
proof
  assume "t \<in> set (losers rs)"
  then show "recs_of t rs \<noteq> [] \<and> \<not> committed rs t" by (auto simp: losers_def recs_of_def filter_empty_conv)
next
  assume r: "recs_of t rs \<noteq> [] \<and> \<not> committed rs t"
  have "txn_log_ok (recs_of t rs)" using assms by (simp add: log_wf_def)
  then have "is_begin (hd (recs_of t rs))" using r by (simp add: txn_log_ok_def)
  moreover have "hd (recs_of t rs) \<in> set rs" "tid_of (hd (recs_of t rs)) = t" using r hd_in_set recs_of_set by blast+
  ultimately show "t \<in> set (losers rs)" using r by (force simp: losers_def)
qed

text \<open>Taking back the changes of the losers from the state after all changes leaves the committed ones.\<close>

lemma undo_losers:
  assumes wf: "log_wf rs" and iso: "isolated rs" and hist: "history T (log_rows rs)"
  shows "fold undo_row (concat (map (\<lambda>t. log_rows (rev (recs_of t rs))) (losers rs))) (fold redo_row (log_rows rs) T) =
    committed_tables T rs"
proof (rule tables_eqI)
  fix n :: string and i :: rid
  let ?k = "(n, i)"
  obtain A B t where s: "filter (touches ?k) rs = A @ B" "\<forall>r\<in>set A. committed rs (tid_of r)"
    "\<forall>r\<in>set B. tid_of r = t" "B = [] \<or> \<not> committed rs t" by (rule isolated_split [OF iso])
  have ops: "ops_on ?k (log_rows rs) = log_rows A @ log_rows B" using s(1) by (simp add: ops_on_log_rows)
  have com: "ops_on ?k (log_rows (filter (\<lambda>r. committed rs (tid_of r)) rs)) = log_rows A"
  proof -
    have "filter (touches ?k) (filter (\<lambda>r. committed rs (tid_of r)) rs) = filter (\<lambda>r. committed rs (tid_of r)) (A @ B)"
      unfolding s(1) [symmetric] by (simp add: conj_commute)
    also have "\<dots> = A" using s(2,3,4) by (auto simp: filter_empty_conv)
    finally show ?thesis by (simp add: ops_on_log_rows)
  qed
  let ?f = "\<lambda>u. ops_on ?k (log_rows (rev (recs_of u rs)))"
  have f: "?f u = rev (log_rows (filter (\<lambda>r. tid_of r = u) (A @ B)))" for u
  proof -
    have "filter (touches ?k) (rev (recs_of u rs)) = rev (filter (\<lambda>r. tid_of r = u) (filter (touches ?k) rs))"
      by (simp add: recs_of_def rev_filter conj_commute)
    then show ?thesis unfolding s(1) ops_on_log_rows by (simp add: log_rows_rev)
  qed
  have fu: "?f u = (if u = t then rev (log_rows B) else [])" if "\<not> committed rs u" for u
  proof -
    have "filter (\<lambda>r. tid_of r = u) A = []" using s(2) that by (auto simp: filter_empty_conv)
    moreover have "filter (\<lambda>r. tid_of r = u) B = (if u = t then B else [])" using s(3) by (auto simp: filter_empty_conv)
    ultimately show ?thesis using f by simp
  qed
  have undo: "concat (map ?f (losers rs)) = rev (log_rows B)"
  proof (cases "B = []")
    case True
    then have "concat (map ?f (losers rs)) = []" using fu losers_set [OF wf] by auto
    then show ?thesis using True by simp
  next
    case False
    then have nt: "\<not> committed rs t" using s(4) by simp
    have "concat (map ?f (losers rs)) = ?f t"
    proof (rule concat_single [OF losers_distinct [OF wf]])
      show "?f u = []" if "u \<in> set (losers rs)" "u \<noteq> t" for u using fu that losers_set [OF wf] by auto
      have "set B \<subseteq> set rs" using s(1) by (metis filter_is_subset order_trans set_append sup_ge2)
      then have "recs_of t rs \<noteq> []" using False s(3) by (cases B) (auto simp: recs_of_def filter_empty_conv)
      then show "?f t = []" if "t \<notin> set (losers rs)" using that nt losers_set [OF wf] by simp
    qed
    then show ?thesis using fu [OF nt] by simp
  qed
  have "cell_history (fold redo_cell (log_rows A) (T n i)) (log_rows B)"
    using history_cell [OF hist, of n i] unfolding ops cell_history_append by simp
  then show "fold undo_row (concat (map (\<lambda>t. log_rows (rev (recs_of t rs))) (losers rs))) (fold redo_row (log_rows rs) T) n i =
      committed_tables T rs n i"
    by (simp add: fold_undo_cell fold_redo_cell filter_concat_map undo ops committed_tables_def com undo_history_cell)
qed

section \<open>The three phases\<close>

text \<open>The log file holds the records \<open>rs\<close> from position \<open>off\<close> on.\<close>

definition log_holds :: "disk_manager \<Rightarrow> nat \<Rightarrow> log_record list \<Rightarrow> bool" where
  "log_holds d off rs \<longleftrightarrow> log_ready d \<and> off \<le> length (log_file d) \<and> drop off (log_file d) = concat (map log_bytes rs) \<and>
     list_all (\<lambda>r. log_ok r \<and> length (log_bytes r) \<le> LOG_BUFFER_SIZE) rs \<and> length (log_file d) < 2 ^ 31"

definition tables_open :: "rm_db \<Rightarrow> log_record list \<Rightarrow> bool" where
  "tables_open db rs \<longleftrightarrow> list_all (\<lambda>r. list_all (rdb.op_fits db) (log_row r)) rs"

lemma tables_open_place:
  assumes "tables_open db rs" "r \<in> set rs" "\<not> is_other r" "log_place r = Some (n, p)"
  shows "fhs db n \<noteq> None"
proof -
  have "list_all (rdb.op_fits db) (log_row r)" using assms(1,2) by (simp add: tables_open_def list_all_iff)
  then show ?thesis using assms(3,4) by (cases r) (auto simp: db_fits_def)
qed

lemma tables_open_ops: "tables_open db rs \<Longrightarrow> set ps \<subseteq> set (log_rows rs) \<Longrightarrow> \<forall>p\<in>set ps. rdb.op_fits db p"
  by (auto simp: tables_open_def log_rows_def list_all_iff)

lemma map_of_keyed:
  assumes "distinct (map f xs)" "x \<in> set xs" shows "map_of (map (\<lambda>r. (f r, r)) xs) (f x) = Some x"
  using assms by (induction xs) (auto simp: rev_image_eqI)

lemma log_wf_records:
  assumes "log_wf rs"
  shows "\<forall>r\<in>set rs. map_of (map (\<lambda>r. (lsn_of r, r)) rs) (lsn_of r) = Some r"
    and "map_of (map (\<lambda>r. (lsn_of r, r)) rs) INVALID_LSN = None"
proof -
  have "distinct (map lsn_of rs)" using assms by (simp add: log_wf_def strict_sorted_iff)
  then show "\<forall>r\<in>set rs. map_of (map (\<lambda>r. (lsn_of r, r)) rs) (lsn_of r) = Some r"
    using map_of_keyed [of lsn_of rs] by blast
  have "INVALID_LSN \<notin> lsn_of ` set rs" using assms by (auto simp: log_wf_def INVALID_LSN_def)
  then show "map_of (map (\<lambda>r. (lsn_of r, r)) rs) INVALID_LSN = None" by (simp add: map_of_eq_None_iff image_image)
qed

text \<open>What analysis does with any log that can be read: the records are noted in file order.\<close>

abbreviation rv_start :: "nat \<Rightarrow> recovery" where
  "rv_start off \<equiv> rv_core (rv_new\<lparr>rv_checkpoint := int off\<rparr>)"

lemma rv_start_simps [simp]:
  "rv_records (rv_start off) = []" "rv_txn_list (rv_start off) = []" "rv_undo_txn (rv_start off) = []"
  "rv_redo_map (rv_start off) = []" "rv_redo_txn (rv_start off) = []"
  by (simp_all add: rv_core_def rv_new_def)

lemma rv_core_fields:
  "rv_records rv = rv_records (rv_core rv)" "rv_txn_list rv = rv_txn_list (rv_core rv)"
  "rv_undo_txn rv = rv_undo_txn (rv_core rv)" "rv_redo_map rv = rv_redo_map (rv_core rv)"
  by (simp_all add: rv_core_def)

lemma rv_analyze_scan:
  assumes start: "dm_get_restart_log d = (Inr (int off), d1)" and log: "log_holds d1 off rs" and k: "length rs < k"
  obtains rv d' where "rv_core rv = fold rv_note rs (rv_start off)"
    "rv_analyze k rv_new d fh = (case rv_pages fh (rv_records rv) [] of Inl e \<Rightarrow> Some (Inl e, d')
       | Inr m \<Rightarrow> Some (Inr (rv\<lparr>rv_redo_map := m\<rparr>), d'))"
proof -
  let ?rv0 = "rv_new\<lparr>rv_checkpoint := int off\<rparr>"
  have l: "log_ready d1" "length (rv_buf ?rv0) = LOG_BUFFER_SIZE + 1" "off \<le> length (log_file d1)"
    using log by (simp_all add: log_holds_def rv_new_def)
  obtain n rv2 d2 where f: "rv_fill ?rv0 d1 (int off) = (Inr n, (rv2, d2))" "in_sync (rv2\<lparr>rv_buf_off := 0\<rparr>) d2 off n"
    "log_file d2 = log_file d1" "\<exists>b. rv2 = ?rv0\<lparr>rv_buf := b\<rparr>"
    by (rule rv_fill_sync [OF l]) (use log in \<open>auto simp: log_holds_def\<close>)
  have z: "rv2\<lparr>rv_buf_off := 0\<rparr> = rv2" "rv_core rv2 = rv_start off" using f(4) by (auto simp: rv_new_def rv_core_def)
  have s: "in_sync rv2 d2 off n" using f(2) unfolding z(1) .
  obtain rv3 d3 where sc: "rv_scan k rv2 d2 (int off) n = Some (Inr rv3, d3)" "rv_core rv3 = fold rv_note rs (rv_start off)"
    using rv_scan_records [OF s, of rs k] log f(3) k z(2) by (auto simp: log_holds_def list_all_iff)
  have "rv_redo_map rv3 = []" unfolding rv_core_fields [of rv3] sc(2) note_all_map by simp
  then show ?thesis using sc by (intro that [of rv3 d3]) (simp_all add: rv_analyze_def start f(1) split: sum.splits)
qed

lemma rv_analyze_result:
  assumes start: "dm_get_restart_log d = (Inr (int off), d1)" and log: "log_holds d1 off rs" and wf: "log_wf rs"
    and op: "\<forall>r\<in>set rs. \<forall>n p. log_place r = Some (n, p) \<longrightarrow> fh n \<noteq> None" and k: "length rs < k"
  obtains rv d' where "rv_analyze k rv_new d fh = Some (Inr rv, d')" "rv_records rv = map (\<lambda>r. (lsn_of r, r)) rs"
    "rv_txn_list rv = map tid_of (filter is_begin rs)" "\<And>p. map_of (rv_redo_map rv) p = filed (on_page fh p (rv_records rv))"
    "\<And>t. map_of (rv_undo_txn rv) t = (if recs_of t rs \<noteq> [] \<and> \<not> committed rs t then Some (lsn_of (last (recs_of t rs))) else None)"
proof -
  obtain rv d' where sc: "rv_core rv = fold rv_note rs (rv_start off)"
    "rv_analyze k rv_new d fh = (case rv_pages fh (rv_records rv) [] of Inl e \<Rightarrow> Some (Inl e, d')
       | Inr m \<Rightarrow> Some (Inr (rv\<lparr>rv_redo_map := m\<rparr>), d'))" by (rule rv_analyze_scan [OF start log k])
  note fields = rv_core_fields [of rv, unfolded sc(1)]
  have rec: "rv_records rv = map (\<lambda>r. (lsn_of r, r)) rs"
    unfolding fields using note_all_records [of "rv_start off" rs] wf by (simp add: log_wf_def)
  have txns: "rv_txn_list rv = map tid_of (filter is_begin rs)" unfolding fields by (simp add: note_all_txns)
  have undo: "map_of (rv_undo_txn rv) t =
      (if recs_of t rs \<noteq> [] \<and> \<not> committed rs t then Some (lsn_of (last (recs_of t rs))) else None)" for t
    unfolding fields using undo_of_loser [OF wf, of t "rv_start off"] undo_of_iff [OF wf, of "rv_start off" t] by auto
  have "\<forall>(l, r)\<in>set (rv_records rv). \<forall>n p. log_place r = Some (n, p) \<longrightarrow> fh n \<noteq> None" using op rec by auto
  from rv_pages_filed [OF this, of "[]"] obtain m where m: "rv_pages fh (rv_records rv) [] = Inr m"
    "\<And>p. map_of m p = filed (on_page fh p (rv_records rv))" by auto
  show ?thesis
    by (rule that [of "rv\<lparr>rv_redo_map := m\<rparr>" d']) (use rec txns undo m sc(2) in simp_all)
qed

lemma rv_roll_back_run:
  assumes wf: "log_wf rs" and rec: "rv_records rv = map (\<lambda>r. (lsn_of r, r)) rs"
    and txns: "rv_txn_list rv = map tid_of (filter is_begin rs)"
    and undo: "\<And>t. map_of (rv_undo_txn rv) t = (if recs_of t rs \<noteq> [] \<and> \<not> committed rs t then Some (lsn_of (last (recs_of t rs))) else None)"
    and k: "length rs < k"
  shows "rv_roll_back k rv db = Some (rdb.run_ops rdb.undo_op (concat (map (\<lambda>t. log_rows (rev (recs_of t rs))) (losers rs))) db)"
proof -
  have "filter (\<lambda>t. map_of (rv_undo_txn rv) t \<noteq> None) (rv_txn_list rv) =
      filter (\<lambda>t. \<not> committed rs t) (map tid_of (filter is_begin rs))"
    unfolding txns by (rule filter_cong [OF refl]) (auto simp: undo recs_of_def filter_empty_conv)
  then have e: "rv_roll_back k rv db = undo_txns k rv (losers rs) db" by (simp add: rv_roll_back_def losers_def)
  show ?thesis
    unfolding e
  proof (rule undo_txns_run)
    fix t assume "t \<in> set (losers rs)"
    then have t: "recs_of t rs \<noteq> []" "\<not> committed rs t" using losers_set [OF wf] by auto
    obtain r where "r \<in> set (recs_of t rs)" using t(1) by (meson last_in_set)
    then have "0 \<le> t" using wf by (auto simp: recs_of_set log_wf_def)
    then have nt: "t \<noteq> INVALID_LSN" by (simp add: INVALID_LSN_def)
    have "chain INVALID_LSN (recs_of t rs)" using wf by (simp add: log_wf_def txn_log_ok_def)
    moreover have "\<forall>r\<in>set (recs_of t rs). map_of (rv_records rv) (lsn_of r) = Some r"
      using log_wf_records(1) [OF wf] rec by (auto simp: recs_of_set)
    moreover have "length (recs_of t rs) < k" using k by (simp add: recs_of_def le_less_trans [OF length_filter_le])
    ultimately have "undo_chain k (rv_records rv) (lsn_of (last (recs_of t rs))) db =
        Some (rdb.run_ops rdb.undo_op (log_rows (rev (recs_of t rs))) db)" for db
      using undo_chain_run [of "recs_of t rs" "rv_records rv" k db] log_wf_records(2) [OF wf] rec t(1) by simp
    then show "t \<noteq> INVALID_LSN \<and> (\<exists>l. map_of (rv_undo_txn rv) t = Some l \<and>
        (\<forall>db. undo_chain k (rv_records rv) l db = Some (rdb.run_ops rdb.undo_op (log_rows (rev (recs_of t rs))) db)))"
      using nt t undo by simp
  qed
qed

text \<open>The pages are visited once each, in some order.\<close>

definition visits_all :: "(recovery \<Rightarrow> page_id list) \<Rightarrow> bool" where
  "visits_all ord \<longleftrightarrow> (\<forall>rv. distinct (ord rv) \<and> set (ord rv) = fst ` set (rv_redo_map rv))"

lemma db_ok_fds: "db_ok db \<Longrightarrow> fds_distinct (fhs db)"
  unfolding db_ok_def fds_distinct_def by blast

lemma map_snd_on_page:
  "map snd (on_page fh p (map (\<lambda>r. (lsn_of r, r)) rs)) = filter (\<lambda>r. page_of fh r = Some p) rs"
  by (simp add: on_page_def filter_map comp_def)

text \<open>
  Restart recovery restores the committed rows. Let the log after the checkpoint hold the
  records \<open>rs\<close>, with increasing LSNs and each transaction's records chained, of a history that
  starts at the tables \<open>T\<close> and in which no transaction changed a row that an uncommitted one had
  changed; and let each row be found on disk in any state it went through, independently of the
  other rows. Then analysis, redo (in any order of the pages) and the rollback of undo all return, and every
  table holds exactly the changes of the transactions with a commit record.
\<close>

lemma recover_rows_committed:
  assumes "dm_get_restart_log d = (Inr (int off), d1)" and "log_holds d1 off rs" and "log_wf rs" and "isolated rs"
    and "history T (log_rows rs)" and "db_ok db" and "tables_open db rs" and "reached T (log_rows rs) (db_tab db)"
    and "visits_all ord" and "length rs < k"
  shows "\<exists>rv db' d'. recover_rows k ord d db = Some (Inr rv, (db', d')) \<and> db_ok db' \<and> db_tab db' = committed_tables T rs"
proof -
  have op: "\<forall>r\<in>set rs. \<forall>n p. log_place r = Some (n, p) \<longrightarrow> fhs db n \<noteq> None"
    using tables_open_place [OF assms(7)] assms(3) by (simp add: log_wf_def)
  obtain rv d' where a: "rv_analyze k rv_new d (fhs db) = Some (Inr rv, d')" "rv_records rv = map (\<lambda>r. (lsn_of r, r)) rs"
    "rv_txn_list rv = map tid_of (filter is_begin rs)" "\<And>p. map_of (rv_redo_map rv) p = filed (on_page (fhs db) p (rv_records rv))"
    "\<And>t. map_of (rv_undo_txn rv) t = (if recs_of t rs \<noteq> [] \<and> \<not> committed rs t then Some (lsn_of (last (recs_of t rs))) else None)"
    by (rule rv_analyze_result [OF assms(1,2,3) op assms(10)]) blast
  have ord: "distinct (ord rv)" "set (ord rv) = fst ` set (rv_redo_map rv)" using assms(9) by (simp_all add: visits_all_def)
  let ?R = "concat (map (\<lambda>p. log_rows (filter (\<lambda>r. page_of (fhs db) r = Some p) rs)) (ord rv))"
  let ?U = "concat (map (\<lambda>t. log_rows (rev (recs_of t rs))) (losers rs))"
  have "\<forall>(l, r)\<in>set (rv_records rv). map_of (rv_records rv) l = Some r" using log_wf_records(1) [OF assms(3)] a(2) by auto
  from rv_redo_run [OF db_ok_fds [OF assms(6)] this a(4)] have redo: "rv_redo rv (ord rv) db = rdb.run_ops rdb.redo_op ?R db"
    unfolding a(2) map_snd_on_page .
  have pages: "\<forall>p. filter (\<lambda>r. page_of (fhs db) r = Some p) rs \<noteq> [] \<longrightarrow> p \<in> set (ord rv)"
  proof (intro allI impI)
    fix p assume "filter (\<lambda>r. page_of (fhs db) r = Some p) rs \<noteq> []"
    then have "map snd (on_page (fhs db) p (rv_records rv)) \<noteq> []" unfolding a(2) map_snd_on_page .
    then have "map_of (rv_redo_map rv) p \<noteq> None" unfolding a(4) by (simp add: filed_def)
    then show "p \<in> set (ord rv)" by (simp add: ord(2) map_of_eq_None_iff)
  qed
  have "set ?R \<subseteq> set (log_rows rs)" by (auto simp: log_rows_def)
  then obtain db1 where 1: "rdb.run_ops rdb.redo_op ?R db = (Inr (), db1)" "db_ok db1"
    "db_tab db1 = fold redo_row ?R (db_tab db)" "db_fits db1 = db_fits db"
    using rdb.run_redo [OF assms(6) tables_open_ops [OF assms(7)]] by blast
  have tab1: "db_tab db1 = fold redo_row (log_rows rs) T"
    unfolding 1(3) redo_reached [OF assms(5,8), symmetric]
    by (rule redo_reorder) (rule redo_order [OF op ord(1) pages])
  have "set ?U \<subseteq> set (log_rows rs)" by (auto simp: log_rows_def recs_of_def)
  then have "\<forall>p\<in>set ?U. rdb.op_fits db1 p"
    using tables_open_ops [OF assms(7)] rdb.op_fits_cong [OF 1(4)] by blast
  then obtain db2 where 2: "rdb.run_ops rdb.undo_op ?U db1 = (Inr (), db2)" "db_ok db2" "db_tab db2 = fold undo_row ?U (db_tab db1)"
    using rdb.run_undo [OF 1(2)] by blast
  have "db_tab db2 = committed_tables T rs" unfolding 2(3) tab1 by (rule undo_losers [OF assms(3,4,5)])
  moreover have "recover_rows k ord d db = Some (Inr rv, (db2, d'))"
    by (simp add: recover_rows_def a(1) redo 1(1) rv_roll_back_run [OF assms(3) a(2,3,5) assms(10)] 2(1))
  ultimately show ?thesis using 2(2) by blast
qed

text \<open>
  A log of two transactions that update the same row: the first one is committed, the second
  one is not.
\<close>

definition sample_entry :: "log_type \<Rightarrow> lsn \<Rightarrow> int \<Rightarrow> txn_id \<Rightarrow> lsn \<Rightarrow> log_base" where
  "sample_entry ty l n t p = \<lparr>lb_type = log_type_code ty, lb_lsn = l, lb_tot_len = n, lb_tid = t, lb_prev_lsn = p\<rparr>"

definition sample_log :: "rid \<Rightarrow> log_record list" where
  "sample_log r =
    [BeginLogRecord (sample_entry LOG_BEGIN 0 20 1 (- 1)),
     UpdateLogRecord (sample_entry UPDATE 1 61 1 0) (replicate 8 7) (replicate 8 9) r ''t'',
     CommitLogRecord (sample_entry LOG_COMMIT 2 20 1 1),
     BeginLogRecord (sample_entry LOG_BEGIN 3 20 2 (- 1)),
     UpdateLogRecord (sample_entry UPDATE 4 61 2 3) (replicate 8 9) (replicate 8 5) r ''t'']"

definition sample_crash_disk :: "bytes \<Rightarrow> disk_manager" where
  "sample_crash_disk bs = dm_new ((posix_init 10000000)\<lparr>names := [LOG_FILE_NAME \<mapsto> 3, RESTART_FILE_NAME \<mapsto> 4], next_inode := 5,
     inodes := (inodes (posix_init 10000000))(3 := bs)\<rparr>)"

lemma sample_crash_start:
  obtains d1 where "dm_get_restart_log (sample_crash_disk bs) = (Inr (int 0), d1)" "log_ready d1" "log_file d1 = bs"
proof -
  let ?d = "sample_crash_disk bs"
  note unfold = sample_crash_disk_def dm_new_def posix_init_def LOG_FILE_NAME_def RESTART_FILE_NAME_def dm_get_restart_log_def
    dm_restart_fd_def dm_open_file_def sys_open_def fd_alloc_def dm_get_file_size_def sys_file_size_def sys_lseek_def wrap32_def
    fd_get_def fd_set_def Let_def
  have "dm_get_restart_log ?d = (Inr (int 0), snd (dm_get_restart_log ?d))" by (simp add: unfold)
  moreover have "log_ready (snd (dm_get_restart_log ?d))" by (simp add: unfold log_ready_def)
  moreover have "log_file (snd (dm_get_restart_log ?d)) = bs" by (simp add: unfold log_file_def)
  ultimately show ?thesis by (rule that)
qed

lemma rid_range:
  assumes "rm_base h s" "page_range h (page_no r)" "slot_ok (rm_hdr h) (slot_no r)"
  shows "int_range (page_no r)" "int_range (slot_no r)"
proof -
  have "bpm_avail s (rm_pid h (page_no r))" using assms(1,2) by (simp add: rm_base_def)
  then show "int_range (page_no r)" by (simp add: bpm_avail_def addr_ok_def rm_pid_def int_range_def)
  have "hdr_ok (rm_hdr h)" using assms(1) by (simp add: rm_base_def)
  then have "num_records_per_page (rm_hdr h) \<le> 3622"
    using records_per_page_bounds(2) [of "record_size (rm_hdr h)"] by (simp add: hdr_ok_def RM_MAX_RECORD_SIZE_def)
  then show "int_range (slot_no r)" using assms(3) by (simp add: slot_ok_def int_range_def)
qed

lemma sample_log_ok:
  assumes "int_range (page_no r)" "int_range (slot_no r)"
  shows "list_all (\<lambda>r. log_ok r \<and> length (log_bytes r) \<le> LOG_BUFFER_SIZE) (sample_log r)"
  using assms
  by (simp add: sample_log_def log_ok_def base_ok_def sample_entry_def int_range_def LOG_BUFFER_SIZE_def PAGE_SIZE_def)

lemma sample_log_len: "length (concat (map log_bytes (sample_log r))) = 182"
  by (simp add: sample_log_def)

lemma sample_log_wf: "log_wf (sample_log r)"
proof -
  have "txn_log_ok (recs_of t (sample_log r))" for t
    by (cases "t = 1"; cases "t = 2") (simp_all add: sample_log_def recs_of_def sample_entry_def txn_log_ok_def INVALID_LSN_def)
  then show ?thesis by (simp add: log_wf_def sample_log_def sample_entry_def)
qed

lemma sample_log_committed: "committed (sample_log r) t \<longleftrightarrow> t = 1"
  by (auto simp: committed_def sample_log_def sample_entry_def)

lemma sample_log_isolated: "isolated (sample_log r)"
  unfolding isolated_def sample_log_committed by (simp add: sample_log_def sample_entry_def)

lemma sample_log_rows:
  "log_rows (sample_log r) = [RowUpdate ''t'' r (replicate 8 7) (replicate 8 9), RowUpdate ''t'' r (replicate 8 9) (replicate 8 5)]"
  by (simp add: sample_log_def)

definition sample_db :: "rm_file \<Rightarrow> bpm \<Rightarrow> rm_db" where
  "sample_db h s = \<lparr>fhs = [''t'' \<mapsto> h], pool = s\<rparr>"

lemma sample_db_tab: "db_tab (sample_db h s) = (\<lambda>_ _. None)(''t'' := rm_contents h s)"
  by (auto simp: db_tab_def sample_db_def fun_eq_iff)

definition sample_order :: "recovery \<Rightarrow> page_id list" where
  "sample_order rv = remdups (map fst (rv_redo_map rv))"

lemma sample_visits: "visits_all sample_order"
  by (simp add: visits_all_def sample_order_def)

lemma sample_crash_conditions:
  assumes "rm_inv h s" "rm_room s" "rm_contents h s = [r \<mapsto> replicate 8 7]" "record_size (rm_hdr h) = 8"
  shows "db_ok (sample_db h s)" "db_fits (sample_db h s) ''t'' r 8" "int_range (page_no r)" "int_range (slot_no r)"
    "tables_open (sample_db h s) (sample_log r)"
proof -
  have b: "rm_base h s" using assms(1) by (simp add: rm_inv_base)
  then show "db_ok (sample_db h s)" using assms(2) by (simp add: db_ok_def sample_db_def)
  have v: "page_range h (page_no r)" "slot_ok (rm_hdr h) (slot_no r)"
    using fun_cong [OF assms(3), of r] by (auto simp: rm_contents_def split: if_splits)
  show "int_range (page_no r)" "int_range (slot_no r)" by (rule rid_range [OF b v])+
  show f: "db_fits (sample_db h s) ''t'' r 8" using v assms(4) by (simp add: db_fits_def sample_db_def)
  then show "tables_open (sample_db h s) (sample_log r)" by (simp add: tables_open_def sample_log_def)
qed

section \<open>The conditions are needed\<close>

text \<open>
  \<^verbatim>\<open>LogManager\<close> starts to count LSNs at 0 in every run of the server, and the log file of
  earlier runs is kept. Since \<^verbatim>\<open>std::map::emplace\<close> keeps the entry it finds, records whose LSN
  an earlier record has are dropped.
\<close>

lemma emplace_sorted_keys: "fst ` set (emplace_sorted k v xs) = insert k (fst ` set xs)"
  by (induction k v xs rule: emplace_sorted.induct) auto

lemma emplace_sorted_present:
  "sorted_wrt (<) (map fst xs) \<Longrightarrow> k \<in> fst ` set xs \<Longrightarrow> emplace_sorted k v xs = xs"
  by (induction k v xs rule: emplace_sorted.induct) force+

lemma emplace_sorted_sorted: "sorted_wrt (<) (map fst xs) \<Longrightarrow> sorted_wrt (<) (map fst (emplace_sorted k v xs))"
proof (induction k v xs rule: emplace_sorted.induct)
  case (2 k v k' v' xs)
  have "\<forall>x\<in>fst ` set (emplace_sorted k v xs). k' < x" if "k' < k" using that 2 unfolding emplace_sorted_keys by auto
  then show ?case using 2 by auto
qed simp

lemma note_all_sorted:
  assumes "sorted_wrt (<) (map fst (rv_records rv))"
  shows "sorted_wrt (<) (map fst (rv_records (fold rv_note rs rv)))"
    and "fst ` set (rv_records (fold rv_note rs rv)) = fst ` set (rv_records rv) \<union> lsn_of ` set rs"
proof -
  have "sorted_wrt (<) (map fst (rv_records (fold rv_note rs rv))) \<and>
      fst ` set (rv_records (fold rv_note rs rv)) = fst ` set (rv_records rv) \<union> lsn_of ` set rs"
    using assms
  proof (induction rs arbitrary: rv)
    case (Cons r rs)
    show ?case
      using Cons.IH [of "rv_note r rv"] emplace_sorted_sorted [OF Cons.prems, of "lsn_of r" r]
      by (simp add: rv_note_records emplace_sorted_keys)
  qed simp
  then show "sorted_wrt (<) (map fst (rv_records (fold rv_note rs rv)))"
    and "fst ` set (rv_records (fold rv_note rs rv)) = fst ` set (rv_records rv) \<union> lsn_of ` set rs" by auto
qed

lemma note_all_present:
  assumes "sorted_wrt (<) (map fst (rv_records rv))" "lsn_of ` set rs \<subseteq> fst ` set (rv_records rv)"
  shows "rv_records (fold rv_note rs rv) = rv_records rv"
  using assms
proof (induction rs arbitrary: rv)
  case (Cons r rs)
  have "rv_records (rv_note r rv) = rv_records rv"
    unfolding rv_note_records by (rule emplace_sorted_present) (use Cons.prems in auto)
  then show ?case using Cons.IH [of "rv_note r rv"] Cons.prems by simp
qed simp

text \<open>
  Reused LSNs: when the log holds the records \<open>rs\<close> of one run of the server and then
  records \<open>qs\<close> of a later run whose LSNs all occur in \<open>rs\<close>, analysis keeps the records of \<open>rs\<close>
  only and files the same changes under the pages. Nothing of the later run, committed or not,
  is executed again or taken back.
\<close>

theorem reused_lsns_are_dropped:
  assumes "dm_get_restart_log d = (Inr (int off), d1)" and "log_holds d1 off (rs @ qs)" and "log_wf rs"
    and "lsn_of ` set qs \<subseteq> lsn_of ` set rs" and "tables_open db rs" and "length (rs @ qs) < k"
  shows "\<exists>rv d'. rv_analyze k rv_new d (fhs db) = Some (Inr rv, d') \<and> rv_records rv = map (\<lambda>r. (lsn_of r, r)) rs \<and>
    (\<forall>p. map_of (rv_redo_map rv) p = filed (on_page (fhs db) p (map (\<lambda>r. (lsn_of r, r)) rs)))"
proof -
  obtain rv d' where sc: "rv_core rv = fold rv_note (rs @ qs) (rv_start off)"
    "rv_analyze k rv_new d (fhs db) = (case rv_pages (fhs db) (rv_records rv) [] of Inl e \<Rightarrow> Some (Inl e, d')
       | Inr m \<Rightarrow> Some (Inr (rv\<lparr>rv_redo_map := m\<rparr>), d'))" by (rule rv_analyze_scan [OF assms(1,2,6)])
  let ?R = "fold rv_note rs (rv_start off)"
  have R: "rv_records ?R = map (\<lambda>r. (lsn_of r, r)) rs"
    using note_all_records [of "rv_start off" rs] assms(3) by (simp add: log_wf_def)
  have srt: "sorted_wrt (<) (map fst (rv_records ?R))" by (rule note_all_sorted(1)) simp
  have "rv_records (fold rv_note qs ?R) = rv_records ?R"
    by (rule note_all_present [OF srt]) (use assms(4) R in \<open>simp add: image_image\<close>)
  then have rec: "rv_records rv = map (\<lambda>r. (lsn_of r, r)) rs" using R sc(1) by (simp add: rv_core_fields(1) [of rv])
  have "\<forall>(l, r)\<in>set (rv_records rv). \<forall>n p. log_place r = Some (n, p) \<longrightarrow> fhs db n \<noteq> None"
    using tables_open_place [OF assms(5)] assms(3) rec by (auto simp: log_wf_def)
  from rv_pages_filed [OF this, of "[]"] obtain m where m: "rv_pages (fhs db) (rv_records rv) [] = Inr m"
    "\<And>p. map_of m p = filed (on_page (fhs db) p (rv_records rv))" by auto
  show ?thesis using m sc(2) rec by (intro exI [of _ "rv\<lparr>rv_redo_map := m\<rparr>"] exI [of _ d']) simp
qed

theorem reused_lsns_are_dropped_witness:
  "\<exists>r h s rv d'. rm_contents h s r = Some (replicate 8 7) \<and>
     rv_analyze 11 rv_new (sample_crash_disk (concat (map log_bytes (sample_log r @ sample_log r)))) (fhs (sample_db h s)) =
       Some (Inr rv, d') \<and> length (rv_records rv) = 5"
proof -
  obtain r h s where i: "rm_inv h s" "rm_room s" "rm_contents h s = [r \<mapsto> replicate 8 7]" "record_size (rm_hdr h) = 8"
    by (rule sample_inserted)
  note c = sample_crash_conditions [OF i]
  let ?rs = "sample_log r" and ?db = "sample_db h s"
  obtain d1 where d1: "dm_get_restart_log (sample_crash_disk (concat (map log_bytes (?rs @ ?rs)))) = (Inr (int 0), d1)"
    "log_ready d1" "log_file d1 = concat (map log_bytes (?rs @ ?rs))" by (rule sample_crash_start)
  have holds: "log_holds d1 0 (?rs @ ?rs)" using d1 sample_log_ok [OF c(3,4)] by (simp add: log_holds_def sample_log_len)
  have k: "length (?rs @ ?rs) < 11" by (simp add: sample_log_def)
  have l5: "length ?rs = 5" by (simp add: sample_log_def)
  from reused_lsns_are_dropped [OF d1(1) holds sample_log_wf subset_refl c(5) k] obtain rv d' where
    "rv_analyze 11 rv_new (sample_crash_disk (concat (map log_bytes (?rs @ ?rs)))) (fhs ?db) = Some (Inr rv, d')"
    "rv_records rv = map (\<lambda>r. (lsn_of r, r)) ?rs" by blast
  then show ?thesis using i(3) l5 by (intro exI [of _ r] exI [of _ h] exI [of _ s] exI [of _ rv] exI [of _ d']) simp
qed

lemma rv_pages_missing:
  "(l, r) \<in> set rs \<Longrightarrow> log_place r = Some (n, p) \<Longrightarrow> fh n = None \<Longrightarrow>
    \<exists>n'. rv_pages fh rs m = Inl (TableNotFoundError n') \<and> fh n' = None"
proof (induction rs arbitrary: m)
  case (Cons x rs)
  obtain l' r' where x: "x = (l', r')" by (cases x)
  show ?case
    using Cons.IH Cons.prems by (cases "log_place r'") (auto simp: x split: option.splits)
qed simp

lemma checkpoint_record_stops:
  assumes "dm_get_restart_log d = (Inr (int off), d1)" and "log_holds d1 off rs" and "sorted_wrt (<) (map lsn_of rs)"
    and "StaticCKPTLogRecord b \<in> set rs" and "fhs db [] = None" and "length rs < k"
  shows "\<exists>n d'. recover_rows k ord d db = Some (Inl (TableNotFoundError n), (db, d')) \<and> fhs db n = None"
proof -
  obtain rv d' where sc: "rv_core rv = fold rv_note rs (rv_start off)"
    "rv_analyze k rv_new d (fhs db) = (case rv_pages (fhs db) (rv_records rv) [] of Inl e \<Rightarrow> Some (Inl e, d')
       | Inr m \<Rightarrow> Some (Inr (rv\<lparr>rv_redo_map := m\<rparr>), d'))" by (rule rv_analyze_scan [OF assms(1,2,6)])
  have rec: "rv_records rv = map (\<lambda>r. (lsn_of r, r)) rs"
    using note_all_records [of "rv_start off" rs] assms(3) sc(1) by (simp add: rv_core_fields(1) [of rv])
  have "(lb_lsn b, StaticCKPTLogRecord b) \<in> set (rv_records rv)" using assms(4) rec by force
  then obtain n where "rv_pages (fhs db) (rv_records rv) [] = Inl (TableNotFoundError n)" "fhs db n = None"
    using rv_pages_missing [of "lb_lsn b" "StaticCKPTLogRecord b" "rv_records rv" "[]" 0 "fhs db" "[]"] assms(5) by auto
  then show ?thesis using sc(2) by (auto simp: recover_rows_def)
qed

text \<open>
  A transaction that was rolled back at run time keeps its entry in \<^verbatim>\<open>undo_txn_\<close>: no log record
  describes the rollback, and \<^verbatim>\<open>analyze\<close> treats an abort record like a change.
\<close>

definition rollback_log :: "rid \<Rightarrow> log_record list" where
  "rollback_log r =
    [BeginLogRecord (sample_entry LOG_BEGIN 0 20 1 (- 1)),
     UpdateLogRecord (sample_entry UPDATE 1 61 1 0) (replicate 8 7) (replicate 8 9) r ''t'',
     AbortLogRecord (sample_entry ABORT 2 20 1 1),
     BeginLogRecord (sample_entry LOG_BEGIN 3 20 2 (- 1)),
     UpdateLogRecord (sample_entry UPDATE 4 61 2 3) (replicate 8 7) (replicate 8 5) r ''t'',
     CommitLogRecord (sample_entry LOG_COMMIT 5 20 2 4)]"

lemma rollback_log_ok:
  assumes "int_range (page_no r)" "int_range (slot_no r)"
  shows "list_all (\<lambda>r. log_ok r \<and> length (log_bytes r) \<le> LOG_BUFFER_SIZE) (rollback_log r)"
  using assms
  by (simp add: rollback_log_def log_ok_def base_ok_def sample_entry_def int_range_def LOG_BUFFER_SIZE_def PAGE_SIZE_def)

lemma visits_one: "visits_all ord \<Longrightarrow> rv_redo_map rv = [(p, x)] \<Longrightarrow> ord rv = [p]"
proof -
  assume "visits_all ord" "rv_redo_map rv = [(p, x)]"
  then have "distinct (ord rv)" "set (ord rv) = {p}" by (auto simp: visits_all_def)
  then show "ord rv = [p]" by (cases "ord rv"; cases "tl (ord rv)") auto
qed

text \<open>
  A rolled-back transaction is taken back a second time, which destroys committed work:
  transaction 1 updates a row from 7s to 9s and is rolled back, transaction 2 then updates it
  from 7s to 5s and commits, and the server crashes. Whatever state of the row is on disk,
  recovery ends with the row at the value from before both transactions.
\<close>

theorem rollback_is_repeated_at_restart:
  assumes "dm_get_restart_log d = (Inr (int off), d1)" and "log_holds d1 off (rollback_log r)" and "db_ok db"
    and "db_fits db ''t'' r 8" and "db_tab db ''t'' r \<noteq> None" and "visits_all ord"
  shows "\<exists>rv db' d'. recover_rows 7 ord d db = Some (Inr rv, (db', d')) \<and> db_tab db' ''t'' r = Some (replicate 8 7)"
proof -
  let ?u1 = "UpdateLogRecord (sample_entry UPDATE 1 61 1 0) (replicate 8 7) (replicate 8 9) r ''t''"
  let ?u2 = "UpdateLogRecord (sample_entry UPDATE 4 61 2 3) (replicate 8 7) (replicate 8 5) r ''t''"
  have l: "length (rollback_log r) < 7" by (simp add: rollback_log_def)
  obtain rv d' where sc: "rv_core rv = fold rv_note (rollback_log r) (rv_start off)"
    "rv_analyze 7 rv_new d (fhs db) = (case rv_pages (fhs db) (rv_records rv) [] of Inl e \<Rightarrow> Some (Inl e, d')
       | Inr m \<Rightarrow> Some (Inr (rv\<lparr>rv_redo_map := m\<rparr>), d'))" by (rule rv_analyze_scan [OF assms(1,2) l])
  note fields = rv_core_fields [of rv, unfolded sc(1)]
  have rec: "rv_records rv = map (\<lambda>r. (lsn_of r, r)) (rollback_log r)"
    unfolding fields by (simp add: rollback_log_def sample_entry_def)
  have txns: "rv_txn_list rv = [1, 2]" "rv_undo_txn rv = [(1, 2)]"
    unfolding fields by (simp_all add: rollback_log_def sample_entry_def map_emplace_def map_erase_def)
  obtain h where h: "fhs db ''t'' = Some h" using assms(4) by (auto simp: db_fits_def)
  let ?m = "[(mk_pid (rm_fd h) (page_no r), ''t'', [1, 4])]" and ?rv = "\<lambda>m. rv\<lparr>rv_redo_map := m\<rparr>"
  have pages: "rv_pages (fhs db) (rv_records rv) [] = Inr ?m"
    unfolding rec by (simp add: rollback_log_def sample_entry_def h)
  have o: "ord (?rv ?m) = [mk_pid (rm_fd h) (page_no r)]" by (rule visits_one [OF assms(6)]) simp
  have redo: "rv_redo (?rv ?m) (ord (?rv ?m)) db = rdb.run_ops rdb.redo_op (log_rows [?u1, ?u2]) db"
    unfolding o using rec by (simp add: rollback_log_def sample_entry_def split: prod.splits sum.splits)
  have undo: "rv_roll_back 7 (?rv ?m) db1 = Some (rdb.run_ops rdb.undo_op (log_rows [?u1]) db1)" for db1
    unfolding rv_roll_back_def using rec txns
    by (simp add: rollback_log_def sample_entry_def numeral_eq_Suc INVALID_LSN_def split: prod.splits sum.splits)
  obtain db1 where 1: "rdb.run_ops rdb.redo_op (log_rows [?u1, ?u2]) db = (Inr (), db1)" "db_ok db1"
    "db_tab db1 = fold redo_row (log_rows [?u1, ?u2]) (db_tab db)" "db_fits db1 = db_fits db"
    using rdb.run_redo [OF assms(3), of "log_rows [?u1, ?u2]"] assms(4) by auto
  obtain db2 where 2: "rdb.run_ops rdb.undo_op (log_rows [?u1]) db1 = (Inr (), db2)" "db_tab db2 = fold undo_row (log_rows [?u1]) (db_tab db1)"
    using rdb.run_undo [OF 1(2), of "log_rows [?u1]"] assms(4) 1(4) by auto
  have "recover_rows 7 ord d db = Some (Inr (?rv ?m), (db2, d'))" using sc(2) pages redo 1(1) undo 2(1) by (simp add: recover_rows_def)
  moreover have "db_tab db2 ''t'' r = Some (replicate 8 7)"
    using assms(5) unfolding 2(2) 1(3) by (auto simp: redo_row_def undo_row_def on_cell_apply)
  ultimately show ?thesis by blast
qed

theorem rollback_is_repeated_at_restart_witness:
  "\<exists>r h s rv db' d'. rm_contents h s r = Some (replicate 8 7) \<and>
     recover_rows 7 sample_order (sample_crash_disk (concat (map log_bytes (rollback_log r)))) (sample_db h s) = Some (Inr rv, (db', d')) \<and>
     db_tab db' ''t'' r = Some (replicate 8 7)"
proof -
  obtain r h s where i: "rm_inv h s" "rm_room s" "rm_contents h s = [r \<mapsto> replicate 8 7]" "record_size (rm_hdr h) = 8"
    by (rule sample_inserted)
  note c = sample_crash_conditions [OF i]
  let ?rs = "rollback_log r" and ?db = "sample_db h s"
  obtain d1 where d1: "dm_get_restart_log (sample_crash_disk (concat (map log_bytes ?rs))) = (Inr (int 0), d1)"
    "log_ready d1" "log_file d1 = concat (map log_bytes ?rs)" by (rule sample_crash_start)
  have "length (concat (map log_bytes ?rs)) = 202" by (simp add: rollback_log_def)
  then have holds: "log_holds d1 0 ?rs" using d1 rollback_log_ok [OF c(3,4)] by (simp add: log_holds_def)
  have row: "db_tab ?db ''t'' r \<noteq> None" by (simp add: sample_db_tab i(3))
  show ?thesis
    using rollback_is_repeated_at_restart [OF d1(1) holds c(1,2) row sample_visits] i(3)
    by (intro exI [of _ r] exI [of _ h] exI [of _ s]) simp
qed

end
