(* ===== verification/Log_Pool.thy ===== *)
theory Log_Pool
  imports Rm_Database Log_Manager
begin

text \<open>
  The log file and the pool share one disk manager. Page traffic of the pool leaves the log file
  alone, and writing the log leaves the tables alone, as long as no page of the log file is in
  the pool, which the page counter of its descriptor shows: it is 0, and the pool holds only
  pages below the counter of their file.
\<close>

section \<open>Disk operations that keep one file\<close>

definition keeps_file :: "nat \<Rightarrow> disk_manager \<Rightarrow> disk_manager \<Rightarrow> bool" where
  "keeps_file ino d d' \<longleftrightarrow> (\<exists>s. d' = d\<lparr>os := s\<rparr> \<and> posix_same (os d) s \<and> inodes s ino = inodes (os d) ino)"

lemma keeps_file_refl [simp]: "keeps_file ino d d"
  unfolding keeps_file_def by (rule exI [of _ "os d"]) simp

lemma keeps_file_trans:
  assumes "keeps_file ino d d1" "keeps_file ino d1 d2"
  shows "keeps_file ino d d2"
proof -
  obtain s t where "d1 = d\<lparr>os := s\<rparr>" "posix_same (os d) s" "inodes s ino = inodes (os d) ino"
    "d2 = d1\<lparr>os := t\<rparr>" "posix_same (os d1) t" "inodes t ino = inodes (os d1) ino"
    using assms by (auto simp: keeps_file_def)
  then show ?thesis unfolding keeps_file_def by (intro exI [of _ t]) (auto intro: posix_same_trans)
qed

lemma keeps_file_fields:
  assumes "keeps_file ino d d'"
  shows "log_fd d' = log_fd d" "fd2pageno d' = fd2pageno d" "names (os d') = names (os d)" "fd_inode (os d') = fd_inode (os d)"
    "max_bytes (os d') = max_bytes (os d)" "inodes (os d') ino = inodes (os d) ino" "path2fd d' = path2fd d"
    "dm_inv d \<Longrightarrow> dm_inv d'"
proof -
  obtain s where s: "d' = d\<lparr>os := s\<rparr>" "posix_same (os d) s" "inodes s ino = inodes (os d) ino"
    using assms by (auto simp: keeps_file_def)
  then show "log_fd d' = log_fd d" "fd2pageno d' = fd2pageno d" "names (os d') = names (os d)" "fd_inode (os d') = fd_inode (os d)"
    "max_bytes (os d') = max_bytes (os d)" "inodes (os d') ino = inodes (os d) ino" "path2fd d' = path2fd d"
    by (simp_all add: posix_same_def)
  show "dm_inv d'" if "dm_inv d" using dm_inv_same [OF s(2) that] s(1) by simp
qed

lemma sys_write_inodes: "fd_inode s fd \<noteq> Some ino \<Longrightarrow> inodes (snd (sys_write s fd bs)) ino = inodes s ino"
  by (auto simp: sys_write_def Let_def fd_inode_def split: option.splits)

lemma sys_lseek_inodes [simp]: "inodes (snd (sys_lseek s fd p)) = inodes s" "inodes (snd (sys_lseek_end s fd)) = inodes s"
  by (auto simp: sys_lseek_def sys_lseek_end_def split: option.splits)

lemma dm_write_page_keeps:
  assumes "fd_inode (os d) fd \<noteq> Some ino"
  shows "keeps_file ino d (snd (dm_write_page d fd p bs))"
proof -
  obtain s where s: "snd (dm_write_page d fd p bs) = d\<lparr>os := s\<rparr>" "posix_same (os d) s" using dm_write_page_same by blast
  obtain b t where l: "sys_lseek (os d) fd (page_offset p) = (b, t)" by (cases "sys_lseek (os d) fd (page_offset p)")
  have t: "inodes t = inodes (os d)" "fd_inode t fd = fd_inode (os d) fd"
    using sys_lseek_inodes(1) [of "os d" fd "page_offset p"] sys_lseek_same [of "os d" fd "page_offset p"] l by (simp_all add: posix_same_def)
  have "os (snd (dm_write_page d fd p bs)) = (if b then snd (sys_write t fd bs) else t)"
    by (auto simp: dm_write_page_def l split: bool.splits prod.splits)
  then have "inodes s ino = inodes (os d) ino" using s(1) sys_write_inodes [of t fd ino bs] t assms by auto
  then show ?thesis using s unfolding keeps_file_def by blast
qed

lemma dm_read_page_keeps: "keeps_file ino d (snd (snd (dm_read_page d fd p buf n)))"
  using dm_read_page_same [of d fd p buf n] dm_read_page_inodes [of d fd p buf n] by (auto simp: keeps_file_def)

section \<open>The pool keeps the log file\<close>

definition log_apart :: "nat \<Rightarrow> disk_manager \<Rightarrow> bool" where
  "log_apart ino d \<longleftrightarrow> log_fd d \<noteq> - 1 \<and> names (os d) LOG_FILE_NAME = Some ino \<and> fd_inode (os d) (log_fd d) = Some ino \<and>
     fd2pageno d (log_fd d) = 0"

lemma log_apart_keeps: "log_apart ino d \<Longrightarrow> keeps_file ino d d' \<Longrightarrow> log_apart ino d' \<and> log_file d' = log_file d"
  using keeps_file_fields [of ino d d'] by (simp add: log_apart_def log_file_def)

lemma log_apart_ready: "log_apart ino d \<Longrightarrow> log_ready d"
  by (simp add: log_apart_def log_ready_def)

lemma log_apart_fd:
  assumes "dm_inv d" "log_apart ino d" "fd2pageno d fd \<noteq> 0"
  shows "fd \<noteq> log_fd d" "fd_inode (os d) fd \<noteq> Some ino"
proof -
  show "fd \<noteq> log_fd d" using assms(2,3) by (auto simp: log_apart_def)
  moreover have "fd_inode (os d) (log_fd d) = Some ino" using assms(2) by (simp add: log_apart_def)
  ultimately show "fd_inode (os d) fd \<noteq> Some ino" using assms(1) unfolding dm_inv_def by blast
qed

lemma dirty_fd:
  assumes ok: "bpm_ok s" and f: "f < length (pages s)" and d: "is_dirty (frame s f)"
  shows "fd2pageno (disk s) (pfd (pg_id (frame s f))) \<noteq> 0"
proof -
  have "frame_ok s f" by (rule bpm_inv_frame [OF bpm_okD(1) [OF ok] f])
  then have "page_table s (pg_id (frame s f)) = Some f" using d by (auto simp: frame_ok_def split: if_splits)
  from bpm_okD(3) [OF ok this] show ?thesis by simp
qed

lemma update_page_file:
  assumes "is_dirty (frame s f) \<Longrightarrow> fd_inode (os (disk s)) (pfd (pg_id (frame s f))) \<noteq> Some ino"
  shows "keeps_file ino (disk s) (disk (snd (update_page s f q)))"
proof (cases "is_dirty (frame s f)")
  case True
  have k: "keeps_file ino (disk s) (snd (dm_write_page (disk s) (pfd (pg_id (frame s f))) (ppage (pg_id (frame s f))) (pg_data (frame s f))))"
    by (rule dm_write_page_keeps [OF assms [OF True]])
  show ?thesis
    using k True by (auto simp: update_page_def write_back_def upd_frame_def split: prod.splits sum.splits)
qed (simp add: update_page_def upd_frame_def)

lemma bpm_fetch_file:
  assumes ok: "bpm_ok s" and ap: "log_apart ino (disk s)"
  shows "keeps_file ino (disk s) (disk (snd (bpm_fetch_page s q)))"
proof (cases "page_table s q")
  case None
  note inv = bpm_okD(1) [OF ok]
  obtain v s1 where v: "find_victim_page s = (v, s1)" by (cases "find_victim_page s")
  show ?thesis
  proof (cases v)
    case None
    then have "disk s1 = disk s" using v by (auto simp: find_victim_page_def split: list.splits prod.splits option.splits)
    then show ?thesis using \<open>page_table s q = None\<close> v None by (simp add: bpm_fetch_page_def)
  next
    case (Some f)
    note k = find_victim_keeps [OF inv v [unfolded Some]]
    have fr: "frame s1 f = frame s f" by (simp add: frame_def k(2))
    have "is_dirty (frame s1 f) \<Longrightarrow> fd_inode (os (disk s1)) (pfd (pg_id (frame s1 f))) \<noteq> Some ino"
      using dirty_fd [OF ok k(4)] log_apart_fd(2) [OF bpm_inv_dm [OF inv] ap] by (simp add: fr k(3))
    from update_page_file [OF this, of q] have u: "keeps_file ino (disk s) (disk (snd (update_page s1 f q)))" by (simp add: k(3))
    obtain r s2 where r: "update_page s1 f q = (r, s2)" by (cases "update_page s1 f q")
    obtain buf r3 d3 where rd: "dm_read_page (disk s2) (pfd q) (ppage q) (pg_data (frame s2 f)) PAGE_SIZE = (buf, r3, d3)"
      by (cases "dm_read_page (disk s2) (pfd q) (ppage q) (pg_data (frame s2 f)) PAGE_SIZE") auto
    have d3: "keeps_file ino (disk s) d3"
      using keeps_file_trans [OF u [unfolded r snd_conv]] dm_read_page_keeps [of ino "disk s2"] rd by (metis snd_conv)
    show ?thesis
    proof (cases r)
      case (Inl e)
      then show ?thesis using u r v Some \<open>page_table s q = None\<close> by (simp add: bpm_fetch_page_def)
    next
      case (Inr x)
      then have "disk (snd (bpm_fetch_page s q)) = d3"
        using r v Some rd \<open>page_table s q = None\<close>
        by (cases r3) (simp_all add: bpm_fetch_page_def Let_def upd_frame_def pin_frame_def)
      then show ?thesis using d3 by simp
    qed
  qed
qed (simp add: bpm_fetch_page_def upd_frame_def)

lemma bpm_unpin_disk [simp]: "disk (snd (bpm_unpin_page s q b)) = disk s"
  by (auto simp: bpm_unpin_page_def Let_def upd_frame_def split: option.splits)

lemma bpm_store_disk [simp]: "disk (bpm_store s f c) = disk s"
  by (simp add: bpm_store_def upd_frame_def)

lemma rm_fetch_file:
  assumes "bpm_ok s" "log_apart ino (disk s)"
  shows "keeps_file ino (disk s) (disk (snd (rm_fetch_page_handle h s p)))"
  using bpm_fetch_file [OF assms, of "rm_pid h p"]
  by (auto simp: rm_fetch_page_handle_def split: prod.splits sum.splits option.splits)

lemma rm_ops_file:
  assumes "bpm_ok s" "log_apart ino (disk s)"
  shows "keeps_file ino (disk s) (disk (snd (snd (rm_insert_record_at (h, s) r buf))))"
    "keeps_file ino (disk s) (disk (snd (snd (rm_delete_record (h, s) r))))"
    "keeps_file ino (disk s) (disk (snd (snd (rm_update_record (h, s) r buf))))"
    "keeps_file ino (disk s) (disk (snd (rm_get_record h s r)))"
  using rm_fetch_file [OF assms, of h "page_no r"]
  by (auto simp: rm_insert_record_at_def rm_delete_record_def rm_update_record_def rm_get_record_def Let_def split: prod.splits sum.splits)

lemma on_table_file:
  assumes "\<And>h. fhs db n = Some h \<Longrightarrow> keeps_file ino (disk (pool db)) (disk (snd (snd (op (h, pool db)))))"
  shows "keeps_file ino (disk (pool db)) (disk (pool (snd (on_table db n op))))"
  using assms by (auto simp: on_table_def split: option.splits prod.splits)

lemma db_ops_file:
  assumes ok: "db_ok db" and ap: "log_apart ino (disk (pool db))"
  shows "keeps_file ino (disk (pool db)) (disk (pool (snd (db_insert_at db n r b))))"
    "keeps_file ino (disk (pool db)) (disk (pool (snd (db_delete db n r))))"
    "keeps_file ino (disk (pool db)) (disk (pool (snd (db_update db n r b))))"
proof -
  have base: "bpm_ok (pool db)" if "fhs db n = Some h" for h using ok that by (auto simp: db_ok_def dest: rm_baseD(1))
  show "keeps_file ino (disk (pool db)) (disk (pool (snd (db_insert_at db n r b))))"
    "keeps_file ino (disk (pool db)) (disk (pool (snd (db_delete db n r))))"
    "keeps_file ino (disk (pool db)) (disk (pool (snd (db_update db n r b))))"
    unfolding db_insert_at_def db_delete_def db_update_def
    by (rule on_table_file, rule rm_ops_file [OF base ap], assumption)+
qed

section \<open>The log keeps the tables\<close>

definition log_write :: "nat \<Rightarrow> disk_manager \<Rightarrow> disk_manager \<Rightarrow> bool" where
  "log_write ino d d' \<longleftrightarrow> (\<exists>s. d' = d\<lparr>os := s\<rparr> \<and> posix_same (os d) s \<and> (\<forall>i. i \<noteq> ino \<longrightarrow> inodes s i = inodes (os d) i))"

lemma log_write_refl [simp]: "log_write ino d d"
  unfolding log_write_def by (rule exI [of _ "os d"]) simp

lemma log_write_apart: "log_apart ino d \<Longrightarrow> log_write ino d d' \<Longrightarrow> log_apart ino d'"
  by (auto simp: log_apart_def log_write_def posix_same_def)

lemma dm_write_log_write:
  assumes "log_apart ino d"
  shows "log_write ino d (snd (dm_write_log d bs))"
proof -
  let ?fd = "log_fd d" and ?s1 = "snd (sys_lseek_end (os d) (log_fd d))"
  have fd: "dm_log_fd d = (Inr ?fd, d)" "fd_inode (os d) ?fd = Some ino" using assms by (simp_all add: dm_log_fd_def log_apart_def)
  have r: "snd (dm_write_log d bs) = d\<lparr>os := snd (sys_write ?s1 ?fd bs)\<rparr>"
    by (auto simp: dm_write_log_def fd(1) split: prod.splits)
  have same: "posix_same (os d) (snd (sys_write ?s1 ?fd bs))"
    using posix_same_trans [OF sys_lseek_end_same sys_write_same] .
  have "fd_inode ?s1 ?fd = Some ino" using sys_lseek_end_same [of "os d" ?fd] fd(2) by (simp add: posix_same_def)
  then have "inodes (snd (sys_write ?s1 ?fd bs)) i = inodes (os d) i" if "i \<noteq> ino" for i
    using sys_write_inodes [of ?s1 ?fd i bs] that by simp
  then show ?thesis unfolding log_write_def r using same by blast
qed

lemma lgm_write:
  assumes "log_apart ino d"
  shows "log_write ino d (snd (snd (lgm_flush g d)))" "log_write ino d (snd (snd (lgm_add g d r)))"
proof -
  have f: "log_write ino d (snd (snd (lgm_flush g d)))" for g
    using dm_write_log_write [OF assms] by (auto simp: lgm_flush_def split: prod.splits sum.splits) (metis snd_conv)+
  then show "log_write ino d (snd (snd (lgm_flush g d)))" .
  show "log_write ino d (snd (snd (lgm_add g d r)))"
    using f [of "g\<lparr>global_lsn := wrap32 (global_lsn g + 1)\<rparr>"]
    by (auto simp: lgm_add_def Let_def split: prod.splits sum.splits)
qed

lemma log_write_page:
  assumes "dm_inv d" "log_apart ino d" "log_write ino d d'" "fd \<noteq> log_fd d"
  shows "dm_page d' fd p = dm_page d fd p" "addr_ok d' fd p n = addr_ok d fd p n"
proof -
  obtain s where s: "d' = d\<lparr>os := s\<rparr>" "posix_same (os d) s" "\<And>i. i \<noteq> ino \<Longrightarrow> inodes s i = inodes (os d) i"
    using assms(3) by (auto simp: log_write_def)
  have "fd_inode (os d) (log_fd d) = Some ino" using assms(2) by (simp add: log_apart_def)
  then have "fd_inode (os d) fd \<noteq> Some ino" using assms(1,4) unfolding dm_inv_def by blast
  then have "dm_file d' fd = dm_file d fd" using s by (cases "fd_inode (os d) fd") (auto simp: dm_file_def posix_same_def)
  then show "dm_page d' fd p = dm_page d fd p" by (simp add: dm_page_def)
  show "addr_ok d' fd p n = addr_ok d fd p n" using s by (simp add: addr_ok_def posix_same_def)
qed

lemma log_write_pool:
  assumes ok: "bpm_ok s" and ap: "log_apart ino (disk s)" and w: "log_write ino (disk s) d"
  shows "bpm_ok (s\<lparr>disk := d\<rparr>)"
    "fd2pageno (disk s) (pfd q) \<noteq> 0 \<Longrightarrow> bpm_view (s\<lparr>disk := d\<rparr>) q = bpm_view s q"
    "fd2pageno (disk s) (pfd q) \<noteq> 0 \<Longrightarrow> bpm_avail (s\<lparr>disk := d\<rparr>) q = bpm_avail s q"
proof -
  note inv = bpm_okD(1) [OF ok]
  note dm = bpm_inv_dm [OF inv]
  have fn: "fd2pageno d = fd2pageno (disk s)" "dm_inv d"
    using w dm_inv_same [OF _ dm] by (auto simp: log_write_def)
  have pg: "dm_page d fd p = dm_page (disk s) fd p" "addr_ok d fd p n = addr_ok (disk s) fd p n"
    if "fd2pageno (disk s) fd \<noteq> 0" for fd p n
    using log_write_page [OF dm ap w log_apart_fd(1) [OF dm ap that]] by blast+
  show "bpm_view (s\<lparr>disk := d\<rparr>) q = bpm_view s q" "bpm_avail (s\<lparr>disk := d\<rparr>) q = bpm_avail s q"
    if "fd2pageno (disk s) (pfd q) \<noteq> 0" using pg [OF that] fn by (simp_all add: bpm_view_def bpm_avail_def frame_def split: option.split)
  have "frame_ok (s\<lparr>disk := d\<rparr>) f" if f: "f < length (pages s)" for f
  proof -
    have "page_table s (pg_id (frame s f)) = Some f \<Longrightarrow> fd2pageno (disk s) (pfd (pg_id (frame s f))) \<noteq> 0"
      using bpm_okD(3) [OF ok, of "pg_id (frame s f)" f] by simp
    then show ?thesis using bpm_inv_frame [OF inv f] pg by (simp add: frame_ok_def frame_def split: if_splits)
  qed
  then have "bpm_inv (s\<lparr>disk := d\<rparr>)"
    using fn(2) bpm_inv_lru [OF inv] bpm_inv_distinct [OF inv] bpm_inv_free [OF inv] bpm_inv_evict [OF inv] bpm_inv_table [OF inv]
    by (intro bpm_invI) simp_all
  then show "bpm_ok (s\<lparr>disk := d\<rparr>)" using ok fn(1) by (simp add: bpm_ok_def)
qed

abbreviation with_disk :: "rm_db \<Rightarrow> disk_manager \<Rightarrow> rm_db" where
  "with_disk db d \<equiv> db\<lparr>pool := (pool db)\<lparr>disk := d\<rparr>\<rparr>"

lemma log_write_db:
  assumes ok: "db_ok db" and ap: "log_apart ino (disk (pool db))" and w: "log_write ino (disk (pool db)) d"
  shows "db_ok (with_disk db d)" "db_tab (with_disk db d) = db_tab db" "db_fits (with_disk db d) = db_fits db"
proof -
  have fn: "fd2pageno d = fd2pageno (disk (pool db))" using w by (auto simp: log_write_def)
  have fb: "rm_base h ((pool db)\<lparr>disk := d\<rparr>) \<and> rm_contents h ((pool db)\<lparr>disk := d\<rparr>) = rm_contents h (pool db)"
    if b: "rm_base h (pool db)" for h
  proof -
    note bd = rm_baseD [OF b]
    note lw = log_write_pool [OF bd(1) ap w]
    have nz: "fd2pageno (disk (pool db)) (pfd (rm_pid h p)) \<noteq> 0" for p using bd(3,4) by (simp add: rm_pid_def)
    have v: "rm_view h ((pool db)\<lparr>disk := d\<rparr>) p = rm_view h (pool db) p" for p using lw(2) [OF nz] by (simp add: rm_view_def)
    have "rm_base h ((pool db)\<lparr>disk := d\<rparr>)"
      using b lw(1) lw(3) [OF nz] fn unfolding rm_base_def by (simp add: v)
    then show ?thesis by (simp add: rm_contents_def v fun_eq_iff)
  qed
  show "db_ok (with_disk db d)" using ok fb unfolding db_ok_def by (simp add: rm_room_def pins_def frame_def)
  show "db_tab (with_disk db d) = db_tab db"
    using ok fb by (auto simp: db_tab_def db_ok_def fun_eq_iff split: option.splits)
  show "db_fits (with_disk db d) = db_fits db" by (simp add: db_fits_def fun_eq_iff)
qed

end
