(* ===== verification/Ix_Defs.thy ===== *)
theory Ix_Defs
  imports Rmdb_Prelude "HOL-Library.List_Lexorder"
begin

text \<open>
  The vocabulary of the B+ tree index (\<^verbatim>\<open>src/src/index/ix_defs.h\<close> and the comparison
  functions of \<^verbatim>\<open>src/src/index/ix_index_handle.h\<close>): the file header with its serialisation, and
  the order on multi-column keys. The results are the round trip of the header, and that
  comparing two keys is comparing two lists of integers lexicographically, so that the order
  is total on keys without a NaN.
\<close>

definition IX_NO_PAGE :: int where "IX_NO_PAGE = - 1"
definition IX_FILE_HDR_PAGE :: int where "IX_FILE_HDR_PAGE = 0"
definition IX_LEAF_HEADER_PAGE :: int where "IX_LEAF_HEADER_PAGE = 1"
definition IX_INIT_ROOT_PAGE :: int where "IX_INIT_ROOT_PAGE = 2"
definition IX_INIT_NUM_PAGES :: int where "IX_INIT_NUM_PAGES = 3"
definition IX_MAX_COL_LEN :: int where "IX_MAX_COL_LEN = 512"

lemmas ix_consts = IX_NO_PAGE_def IX_FILE_HDR_PAGE_def IX_LEAF_HEADER_PAGE_def IX_INIT_ROOT_PAGE_def
  IX_INIT_NUM_PAGES_def IX_MAX_COL_LEN_def INVALID_PAGE_ID_def

section \<open>The file header\<close>

record ix_file_hdr =
  ix_first_free :: int
  ix_num_pages :: int
  ix_root :: int
  ix_col_num :: int
  ix_col_types :: "col_type list"
  ix_col_lens :: "int list"
  ix_col_tot_len :: int
  ix_order :: int
  ix_keys_size :: int
  ix_first_leaf :: int
  ix_last_leaf :: int
  ix_tot_len :: int

definition new_ix_file_hdr ::
  "int \<Rightarrow> int \<Rightarrow> int \<Rightarrow> int \<Rightarrow> int \<Rightarrow> int \<Rightarrow> int \<Rightarrow> int \<Rightarrow> int \<Rightarrow> ix_file_hdr" where
  "new_ix_file_hdr free np root cn cl ord ks fl ll =
    \<lparr>ix_first_free = free, ix_num_pages = np, ix_root = root, ix_col_num = cn, ix_col_types = [], ix_col_lens = [],
     ix_col_tot_len = cl, ix_order = ord, ix_keys_size = ks, ix_first_leaf = fl, ix_last_leaf = ll, ix_tot_len = 0\<rparr>"

definition update_tot_len :: "ix_file_hdr \<Rightarrow> ix_file_hdr" where
  "update_tot_len h = h\<lparr>ix_tot_len := 4 * 4 + 4 * 6 + (4 * ix_col_num h + 4 * ix_col_num h)\<rparr>"

text \<open>Consecutive \<^verbatim>\<open>int\<close>s, as the loops of \<^verbatim>\<open>serialize\<close> and \<^verbatim>\<open>deserialize\<close> write and read them.\<close>

fun write_ints :: "bytes \<Rightarrow> nat \<Rightarrow> int list \<Rightarrow> bytes" where
  "write_ints d off [] = d"
| "write_ints d off (x # xs) = write_ints (put_int d off x) (off + 4) xs"

definition read_ints :: "bytes \<Rightarrow> nat \<Rightarrow> nat \<Rightarrow> int list" where
  "read_ints d off n = map (\<lambda>i. get_int d (off + 4 * i)) [0..<n]"

definition ix_hdr_serialize :: "ix_file_hdr \<Rightarrow> bytes \<Rightarrow> rmdb_error + bytes" where
  "ix_hdr_serialize h dest =
    (let n = nat (ix_col_num h);
         d = write_ints dest 0 [ix_tot_len h, ix_first_free h, ix_num_pages h, ix_root h, ix_col_num h];
         d = write_ints d 20 (map (\<lambda>i. col_type_code (ix_col_types h ! i)) [0..<n]);
         d = write_ints d (20 + 4 * n) (map (\<lambda>i. ix_col_lens h ! i) [0..<n]);
         d = write_ints d (20 + 4 * n + 4 * n) [ix_col_tot_len h, ix_order h, ix_keys_size h, ix_first_leaf h, ix_last_leaf h];
         offset = 20 + 4 * n + 4 * n + 20
     in if int offset = ix_tot_len h then Inr d else Inl AssertFailure)"

text \<open>
  A number that is no \<^verbatim>\<open>ColType\<close> acts like \<^verbatim>\<open>TYPE_NULL\<close>: every \<^verbatim>\<open>switch\<close> over the type takes its
  default branch.
\<close>

definition col_type_of :: "int \<Rightarrow> col_type" where
  "col_type_of n = (if n = 0 then TYPE_INT else if n = 1 then TYPE_FLOAT else if n = 2 then TYPE_STRING else TYPE_NULL)"

definition ix_hdr_deserialize :: "bytes \<Rightarrow> rmdb_error + ix_file_hdr" where
  "ix_hdr_deserialize src =
    (let n = nat (get_int src 16);
         o2 = 20 + 4 * n;
         o3 = o2 + 4 * n;
         h = \<lparr>ix_first_free = get_int src 4, ix_num_pages = get_int src 8, ix_root = get_int src 12,
              ix_col_num = get_int src 16, ix_col_types = map col_type_of (read_ints src 20 n),
              ix_col_lens = read_ints src o2 n, ix_col_tot_len = get_int src o3, ix_order = get_int src (o3 + 4),
              ix_keys_size = get_int src (o3 + 8), ix_first_leaf = get_int src (o3 + 12),
              ix_last_leaf = get_int src (o3 + 16), ix_tot_len = get_int src 0\<rparr>
     in if int (o3 + 20) = ix_tot_len h then Inr h else Inl AssertFailure)"

section \<open>Comparing keys\<close>

text \<open>
  \<^verbatim>\<open>memcmp\<close> compares unsigned bytes; of its result only the sign is specified and used. A
  \<^verbatim>\<open>float\<close> is an IEEE single: sign and magnitude, the magnitudes above infinity are NaNs, and
  every comparison with a NaN is false.
\<close>

fun memcmp_bytes :: "bytes \<Rightarrow> bytes \<Rightarrow> nat \<Rightarrow> int" where
  "memcmp_bytes (x # xs) (y # ys) (Suc n) =
    (if uint x < uint y then - 1 else if uint x > uint y then 1 else memcmp_bytes xs ys n)"
| "memcmp_bytes _ _ _ = 0"

definition f32_nan :: "int \<Rightarrow> bool" where "f32_nan w \<longleftrightarrow> w mod 2 ^ 31 > 2139095040"
definition f32_ord :: "int \<Rightarrow> int" where "f32_ord w = (if w \<ge> 2 ^ 31 then - (w mod 2 ^ 31) else w)"

definition f32_less :: "int \<Rightarrow> int \<Rightarrow> bool" where
  "f32_less x y \<longleftrightarrow> \<not> f32_nan x \<and> \<not> f32_nan y \<and> f32_ord x < f32_ord y"

fun ix_compare_col :: "bytes \<Rightarrow> bytes \<Rightarrow> col_type \<Rightarrow> nat \<Rightarrow> rmdb_error + int" where
  "ix_compare_col a b TYPE_INT len =
    (let ia = get_int a 0; ib = get_int b 0 in Inr (if ia < ib then - 1 else if ia > ib then 1 else 0))"
| "ix_compare_col a b TYPE_FLOAT len =
    (let fa = get_uint 4 a 0; fb = get_uint 4 b 0 in Inr (if f32_less fa fb then - 1 else if f32_less fb fa then 1 else 0))"
| "ix_compare_col a b TYPE_STRING len = Inr (memcmp_bytes a b len)"
| "ix_compare_col a b TYPE_NULL len = Inl (InternalError ''Unexpected data type'')"

text \<open>The two vectors have the same length; a column without a length would be read out of range.\<close>

fun ix_compare :: "bytes \<Rightarrow> bytes \<Rightarrow> col_type list \<Rightarrow> int list \<Rightarrow> rmdb_error + int" where
  "ix_compare a b [] lens = Inr 0"
| "ix_compare a b (t # ts) [] = Inl NullDeref"
| "ix_compare a b (t # ts) (l # ls) =
    (case ix_compare_col a b t (nat l) of
       Inl e \<Rightarrow> Inl e
     | Inr res \<Rightarrow> if res \<noteq> 0 then Inr res else ix_compare (drop (nat l) a) (drop (nat l) b) ts ls)"

section \<open>The header is read back\<close>

definition ix_hdr_wf :: "ix_file_hdr \<Rightarrow> bool" where
  "ix_hdr_wf h \<longleftrightarrow> ix_col_num h = int (length (ix_col_types h)) \<and> length (ix_col_lens h) = length (ix_col_types h) \<and>
     ix_tot_len h = 40 + 8 * ix_col_num h \<and> list_all int_range (ix_col_lens h) \<and>
     list_all int_range [ix_first_free h, ix_num_pages h, ix_root h, ix_col_num h, ix_col_tot_len h, ix_order h,
       ix_keys_size h, ix_first_leaf h, ix_last_leaf h, ix_tot_len h]"

definition ix_hdr_ints :: "ix_file_hdr \<Rightarrow> int list" where
  "ix_hdr_ints h = [ix_tot_len h, ix_first_free h, ix_num_pages h, ix_root h, ix_col_num h] @
     map col_type_code (ix_col_types h) @ ix_col_lens h @
     [ix_col_tot_len h, ix_order h, ix_keys_size h, ix_first_leaf h, ix_last_leaf h]"

lemma length_write_ints: "off + 4 * length xs \<le> length d \<Longrightarrow> length (write_ints d off xs) = length d"
  by (induction xs arbitrary: d off) (simp_all add: mem_simps)

lemma write_ints_append: "write_ints d off (xs @ ys) = write_ints (write_ints d off xs) (off + 4 * length xs) ys"
  by (induction xs arbitrary: d off) (simp_all add: algebra_simps)

lemma get_write_ints_before:
  "off + 4 * length xs \<le> length d \<Longrightarrow> p + 4 \<le> off \<Longrightarrow> get_int (write_ints d off xs) p = get_int d p"
proof (induction xs arbitrary: d off)
  case (Cons x xs)
  have "get_int (write_ints (put_int d off x) (off + 4) xs) p = get_int (put_int d off x) p"
    by (rule Cons.IH) (use Cons.prems in \<open>simp_all add: mem_simps\<close>)
  then show ?case using Cons.prems by (simp add: mem_simps)
qed simp

lemma get_write_ints:
  "off + 4 * length xs \<le> length d \<Longrightarrow> i < length xs \<Longrightarrow> get_int (write_ints d off xs) (off + 4 * i) = wrap32 (xs ! i)"
proof (induction xs arbitrary: d off i)
  case (Cons x xs)
  show ?case
  proof (cases i)
    case 0
    have "get_int (write_ints (put_int d off x) (off + 4) xs) off = get_int (put_int d off x) off"
      by (rule get_write_ints_before) (use Cons.prems in \<open>simp_all add: mem_simps\<close>)
    then show ?thesis using Cons.prems 0 by (simp add: mem_simps)
  next
    case (Suc j)
    have "get_int (write_ints (put_int d off x) (off + 4) xs) (off + 4 + 4 * j) = wrap32 (xs ! j)"
      by (rule Cons.IH) (use Cons.prems Suc in \<open>simp_all add: mem_simps\<close>)
    then show ?thesis using Suc by (simp add: algebra_simps)
  qed
qed simp

lemma ix_hdr_serialize_ints:
  assumes "ix_hdr_wf h"
  shows "ix_hdr_serialize h d = Inr (write_ints d 0 (ix_hdr_ints h))"
proof -
  have n: "nat (ix_col_num h) = length (ix_col_types h)" "length (ix_col_lens h) = length (ix_col_types h)"
    "ix_tot_len h = 40 + 8 * int (length (ix_col_types h))"
    using assms by (simp_all add: ix_hdr_wf_def)
  have m: "map (\<lambda>i. col_type_code (ix_col_types h ! i)) [0..<length (ix_col_types h)] = map col_type_code (ix_col_types h)"
    "map (\<lambda>i. ix_col_lens h ! i) [0..<length (ix_col_types h)] = ix_col_lens h"
    using n(2) by (auto intro!: nth_equalityI)
  show ?thesis unfolding ix_hdr_serialize_def Let_def n(1) m ix_hdr_ints_def
    by (simp add: n write_ints_append algebra_simps)
qed
lemma col_type_of_code [simp]: "col_type_of (col_type_code t) = t"
  by (cases t) (simp_all add: col_type_of_def)

lemma col_type_code_range [simp]: "int_range (col_type_code t)"
  by (cases t) simp_all

lemma read_write_ints:
  assumes "4 * length zs \<le> length d" "zs = us @ xs @ vs" "off = 4 * length us" "n = length xs" "list_all int_range xs"
  shows "read_ints (write_ints d 0 zs) off n = xs"
proof (rule nth_equalityI)
  show "length (read_ints (write_ints d 0 zs) off n) = length xs" using assms by (simp add: read_ints_def)
  fix i assume "i < length (read_ints (write_ints d 0 zs) off n)"
  then have i: "i < length xs" using assms by (simp add: read_ints_def)
  have z: "zs ! (length us + i) = xs ! i" using i assms(2) by (simp add: nth_append)
  have "get_int (write_ints d 0 zs) (0 + 4 * (length us + i)) = wrap32 (zs ! (length us + i))"
    by (rule get_write_ints) (use assms i in simp_all)
  moreover have "int_range (xs ! i)" using assms(5) i by (simp add: list_all_length)
  ultimately have "get_int (write_ints d 0 zs) (off + 4 * i) = xs ! i" using assms(3) z by (simp add: wrap32_id algebra_simps)
  then show "read_ints (write_ints d 0 zs) off n ! i = xs ! i" using i assms(4) by (simp add: read_ints_def)
qed

lemma get_hdr_int:
  assumes "4 * length zs \<le> length d" "zs = us @ x # vs" "off = 4 * length us" "int_range x"
  shows "get_int (write_ints d 0 zs) off = x"
proof -
  have "get_int (write_ints d 0 zs) (0 + 4 * length us) = wrap32 (zs ! length us)"
    by (rule get_write_ints) (use assms in simp_all)
  then show ?thesis using assms by (simp add: nth_append wrap32_id)
qed

lemma ix_hdr_deserialize_ints:
  assumes "ix_hdr_wf h" and "ix_tot_len h \<le> int (length d)"
  shows "ix_hdr_deserialize (write_ints d 0 (ix_hdr_ints h)) = Inr h"
proof -
  let ?n = "length (ix_col_types h)" and ?zs = "ix_hdr_ints h"
  let ?d = "write_ints d 0 ?zs"
  have w: "ix_col_num h = int ?n" "length (ix_col_lens h) = ?n" "ix_tot_len h = 40 + 8 * int ?n"
    using assms(1) by (simp_all add: ix_hdr_wf_def)
  have r: "list_all int_range (ix_col_lens h)" "int_range (ix_first_free h)" "int_range (ix_num_pages h)" "int_range (ix_root h)"
    "int_range (ix_col_num h)" "int_range (ix_col_tot_len h)" "int_range (ix_order h)" "int_range (ix_keys_size h)"
    "int_range (ix_first_leaf h)" "int_range (ix_last_leaf h)" "int_range (ix_tot_len h)"
    using assms(1) unfolding ix_hdr_wf_def list.pred_inject by blast+
  have len: "4 * length ?zs \<le> length d" using assms(2) w(2,3) by (simp add: ix_hdr_ints_def)
  let ?A = "[ix_tot_len h, ix_first_free h, ix_num_pages h, ix_root h, ix_col_num h]"
  let ?B = "map col_type_code (ix_col_types h)"
  have g: "get_int ?d 0 = ix_tot_len h" "get_int ?d 4 = ix_first_free h" "get_int ?d 8 = ix_num_pages h"
    "get_int ?d 12 = ix_root h" "get_int ?d 16 = ix_col_num h"
    using get_hdr_int [OF len, of "[]"] get_hdr_int [OF len, of "take 1 ?A"] get_hdr_int [OF len, of "take 2 ?A"]
      get_hdr_int [OF len, of "take 3 ?A"] get_hdr_int [OF len, of "take 4 ?A"] r
    by (simp_all add: ix_hdr_ints_def)
  have types: "map col_type_of (read_ints ?d 20 ?n) = ix_col_types h"
    using read_write_ints [OF len, of ?A ?B] by (simp add: ix_hdr_ints_def list_all_iff comp_def)
  have lens: "read_ints ?d (20 + 4 * ?n) ?n = ix_col_lens h"
    using read_write_ints [OF len, of "?A @ ?B" "ix_col_lens h"] w(2) r(1) by (simp add: ix_hdr_ints_def)
  let ?C = "?A @ ?B @ ix_col_lens h" and ?E = "[ix_col_tot_len h, ix_order h, ix_keys_size h, ix_first_leaf h]"
  have t: "get_int ?d (20 + 4 * ?n + 4 * ?n) = ix_col_tot_len h" "get_int ?d (20 + 4 * ?n + 4 * ?n + 4) = ix_order h"
    "get_int ?d (20 + 4 * ?n + 4 * ?n + 8) = ix_keys_size h" "get_int ?d (20 + 4 * ?n + 4 * ?n + 12) = ix_first_leaf h"
    "get_int ?d (20 + 4 * ?n + 4 * ?n + 16) = ix_last_leaf h"
    using get_hdr_int [OF len, of ?C] get_hdr_int [OF len, of "?C @ take 1 ?E"] get_hdr_int [OF len, of "?C @ take 2 ?E"]
      get_hdr_int [OF len, of "?C @ take 3 ?E"] get_hdr_int [OF len, of "?C @ ?E"] r w(2)
    by (simp_all add: ix_hdr_ints_def algebra_simps)
  have eta: "\<lparr>ix_first_free = ix_first_free h, ix_num_pages = ix_num_pages h, ix_root = ix_root h, ix_col_num = int ?n,
      ix_col_types = ix_col_types h, ix_col_lens = ix_col_lens h, ix_col_tot_len = ix_col_tot_len h, ix_order = ix_order h,
      ix_keys_size = ix_keys_size h, ix_first_leaf = ix_first_leaf h, ix_last_leaf = ix_last_leaf h,
      ix_tot_len = ix_tot_len h\<rparr> = h"
    using w(1) by (cases h) simp
  show ?thesis unfolding ix_hdr_deserialize_def Let_def g w(1) nat_int types lens t eta using w(3) by simp
qed

lemma ix_hdr_ints_fit: "ix_hdr_wf h \<Longrightarrow> ix_tot_len h = int (4 * length (ix_hdr_ints h))"
  by (simp add: ix_hdr_wf_def ix_hdr_ints_def)

lemma write_ints_pad: "off + 4 * length xs \<le> length d \<Longrightarrow> write_ints (d @ e) off xs = write_ints d off xs @ e"
proof (induction xs arbitrary: d off)
  case (Cons x xs)
  have "put_int (d @ e) off x = put_int d off x @ e" using Cons.prems by (simp add: put_int_def mem_write_def)
  then show ?case using Cons by (simp add: mem_simps)
qed simp

text \<open>
  The header of an index file survives: for a header whose recorded length matches its
  columns, \<^verbatim>\<open>serialize\<close> passes its assertion, and \<^verbatim>\<open>deserialize\<close> of the bytes returns the header
  again, also when the buffer is longer, as the page is that \<^verbatim>\<open>IxIndexHandle\<close> reads.
\<close>

lemma ix_hdr_roundtrip:
  assumes "ix_hdr_wf h" and "ix_tot_len h \<le> int (length d)"
  shows "\<exists>d'. ix_hdr_serialize h d = Inr d' \<and> length d' = length d \<and> ix_hdr_deserialize d' = Inr h"
  using ix_hdr_serialize_ints [OF assms(1), of d] ix_hdr_deserialize_ints [OF assms] assms(2) ix_hdr_ints_fit [OF assms(1)]
  by (simp add: length_write_ints)

definition sample_ix_hdr :: ix_file_hdr where
  "sample_ix_hdr = update_tot_len ((new_ix_file_hdr IX_NO_PAGE IX_INIT_NUM_PAGES IX_INIT_ROOT_PAGE 2 12 202 2436 IX_INIT_ROOT_PAGE IX_INIT_ROOT_PAGE)
     \<lparr>ix_col_types := [TYPE_INT, TYPE_STRING], ix_col_lens := [4, 8]\<rparr>)"

section \<open>The order on keys\<close>

text \<open>The value of a key: a list of integers, column after column.\<close>

fun col_rank :: "col_type \<Rightarrow> nat \<Rightarrow> bytes \<Rightarrow> int list" where
  "col_rank TYPE_INT l a = [get_int a 0]"
| "col_rank TYPE_FLOAT l a = [f32_ord (get_uint 4 a 0)]"
| "col_rank TYPE_STRING l a = map uint (take l a)"
| "col_rank TYPE_NULL l a = []"

fun key_rank :: "col_type list \<Rightarrow> int list \<Rightarrow> bytes \<Rightarrow> int list" where
  "key_rank (t # ts) (l # ls) a = col_rank t (nat l) a @ key_rank ts ls (drop (nat l) a)"
| "key_rank _ _ a = []"

fun col_ok :: "col_type \<Rightarrow> nat \<Rightarrow> bytes \<Rightarrow> bool" where
  "col_ok TYPE_FLOAT l a \<longleftrightarrow> \<not> f32_nan (get_uint 4 a 0)"
| "col_ok TYPE_STRING l a \<longleftrightarrow> l \<le> length a"
| "col_ok TYPE_INT l a \<longleftrightarrow> True"
| "col_ok TYPE_NULL l a \<longleftrightarrow> False"

fun key_ok :: "col_type list \<Rightarrow> int list \<Rightarrow> bytes \<Rightarrow> bool" where
  "key_ok (t # ts) (l # ls) a \<longleftrightarrow> col_ok t (nat l) a \<and> key_ok ts ls (drop (nat l) a)"
| "key_ok [] _ a \<longleftrightarrow> True"
| "key_ok (t # ts) [] a \<longleftrightarrow> False"

definition cmp3 :: "'a::linorder \<Rightarrow> 'a \<Rightarrow> int" where
  "cmp3 x y = (if x < y then - 1 else if x > y then 1 else 0)"

lemma cmp3_sign [simp]: "cmp3 x y < 0 \<longleftrightarrow> x < y" "cmp3 x y = 0 \<longleftrightarrow> x = y" "cmp3 x y > 0 \<longleftrightarrow> x > y"
  "cmp3 x y \<le> 0 \<longleftrightarrow> x \<le> y"
  by (auto simp: cmp3_def)

lemma append_less_iff:
  "length xs = length ys \<Longrightarrow> xs @ us < ys @ vs \<longleftrightarrow> xs < ys \<or> (xs = ys \<and> us < (vs :: 'a::linorder list))"
  by (induction xs ys rule: list_induct2) auto

lemma memcmp_rank:
  "n \<le> length a \<Longrightarrow> n \<le> length b \<Longrightarrow> memcmp_bytes a b n = cmp3 (map uint (take n a)) (map uint (take n b))"
proof (induction a b n rule: memcmp_bytes.induct)
  case (1 x xs y ys n)
  then show ?case by (auto simp: cmp3_def word_less_def intro: word_uint_eqI)
qed (auto simp: cmp3_def)

lemma ix_compare_col_rank:
  "col_ok t l a \<Longrightarrow> col_ok t l b \<Longrightarrow> ix_compare_col a b t l = Inr (cmp3 (col_rank t l a) (col_rank t l b))"
  by (cases t) (simp_all add: cmp3_def f32_less_def memcmp_rank Let_def)

lemma length_col_rank: "col_ok t l a \<Longrightarrow> col_ok t l b \<Longrightarrow> length (col_rank t l a) = length (col_rank t l b)"
  by (cases t) simp_all

lemma cmp3_append:
  assumes "length xs = length ys"
  shows "cmp3 (xs @ us) (ys @ vs) = (if cmp3 xs ys \<noteq> 0 then cmp3 xs ys else cmp3 us vs)"
  using append_less_iff [OF assms, of us vs] append_less_iff [OF assms [symmetric], of vs us] by (auto simp: cmp3_def)

text \<open>Comparing two keys is comparing their values.\<close>

lemma ix_compare_rank:
  "key_ok ts ls a \<Longrightarrow> key_ok ts ls b \<Longrightarrow> ix_compare a b ts ls = Inr (cmp3 (key_rank ts ls a) (key_rank ts ls b))"
proof (induction ts ls a arbitrary: b rule: key_ok.induct)
  case (1 t ts l ls a)
  have "ix_compare_col a b t (nat l) = Inr (cmp3 (col_rank t (nat l) a) (col_rank t (nat l) b))"
    by (rule ix_compare_col_rank) (use 1 in simp_all)
  moreover have "length (col_rank t (nat l) a) = length (col_rank t (nat l) b)"
    by (rule length_col_rank) (use 1 in simp_all)
  ultimately show ?case using 1 by (simp add: cmp3_append)
qed (simp_all add: cmp3_def)

text \<open>
  Keys without \<^verbatim>\<open>FLOAT\<close> columns are determined by their values; two zeroes of different sign are
  different keys of the same value.
\<close>

fun cols_exact :: "col_type list \<Rightarrow> int list \<Rightarrow> bool" where
  "cols_exact (t # ts) (l # ls) \<longleftrightarrow> (t = TYPE_INT \<and> l = 4 \<or> t = TYPE_STRING \<and> 0 \<le> l) \<and> cols_exact ts ls"
| "cols_exact [] [] \<longleftrightarrow> True"
| "cols_exact _ _ \<longleftrightarrow> False"


lemma le_dec_inj: "length a = length b \<Longrightarrow> le_dec a = le_dec b \<Longrightarrow> a = b"
proof (induction a b rule: list_induct2)
  case (Cons x xs y ys)
  have b: "0 \<le> uint x" "uint x < 256" "0 \<le> uint y" "uint y < 256" using uint_bounded [of x] uint_bounded [of y] by simp_all
  have e: "uint x + 256 * le_dec xs = uint y + 256 * le_dec ys" using Cons.prems by simp
  then have "(uint x + 256 * le_dec xs) mod 256 = (uint y + 256 * le_dec ys) mod 256" by simp
  then have "uint x = uint y" using b by simp
  then show ?case using e Cons.IH by (simp add: word_uint_eq_iff)
qed simp

lemma wrap32_inj: "0 \<le> x \<Longrightarrow> x < 2 ^ 32 \<Longrightarrow> 0 \<le> y \<Longrightarrow> y < 2 ^ 32 \<Longrightarrow> wrap32 x = wrap32 y \<Longrightarrow> x = y"
proof -
  assume b: "0 \<le> x" "x < 2 ^ 32" "0 \<le> y" "y < 2 ^ 32" and e: "wrap32 x = wrap32 y"
  have "(x + 2 ^ 31) mod 2 ^ 32 = (y + 2 ^ 31) mod 2 ^ 32" using e by (simp add: wrap32_def)
  then have "((x + 2 ^ 31) mod 2 ^ 32 - 2 ^ 31) mod 2 ^ 32 = ((y + 2 ^ 31) mod 2 ^ 32 - 2 ^ 31) mod 2 ^ 32" by simp
  then have "x mod 2 ^ 32 = y mod 2 ^ 32" by (simp add: mod_diff_left_eq)
  then show "x = y" using b by simp
qed

lemma get_int_inj: "4 \<le> length a \<Longrightarrow> 4 \<le> length b \<Longrightarrow> get_int a 0 = get_int b 0 \<Longrightarrow> take 4 a = take 4 b"
proof -
  assume l: "4 \<le> length a" "4 \<le> length b" and e: "get_int a 0 = get_int b 0"
  have b: "0 \<le> le_dec (take 4 a)" "le_dec (take 4 a) < 2 ^ 32" "0 \<le> le_dec (take 4 b)" "le_dec (take 4 b) < 2 ^ 32"
    using le_dec_bound [of "take 4 a"] le_dec_bound [of "take 4 b"] l by simp_all
  have "wrap32 (le_dec (take 4 a)) = wrap32 (le_dec (take 4 b))" using e by (simp add: get_int_def mem_read_def dec_int_def)
  from le_dec_inj [OF _ wrap32_inj [OF b this]] l show "take 4 a = take 4 b" by simp
qed

lemma inj_uint_byte: "inj (uint :: byte \<Rightarrow> int)"
  by (rule injI) (simp add: word_uint_eq_iff)

lemma key_rank_inj:
  "cols_exact ts ls \<Longrightarrow> length a = nat (sum_list ls) \<Longrightarrow> length b = nat (sum_list ls) \<Longrightarrow> key_rank ts ls a = key_rank ts ls b \<Longrightarrow> a = b"
proof (induction ts ls arbitrary: a b rule: cols_exact.induct)
  case (1 t ts l ls)
  have nn: "0 \<le> sum_list ls" using 1(2)
  proof -
    have "cols_exact ts ls" using 1(2) by simp
    then have "list_all (\<lambda>x. 0 \<le> x) ls" by (induction ts ls rule: cols_exact.induct) auto
    then show ?thesis by (induction ls) auto
  qed
  have l: "0 \<le> l" "cols_exact ts ls" using 1(2) by auto
  have s: "nat (sum_list (l # ls)) = nat l + nat (sum_list ls)" using l nn by (simp add: nat_add_distrib)
  have ok: "col_ok t (nat l) a" "col_ok t (nat l) b" using 1(2-4) s by auto
  have "col_rank t (nat l) a = col_rank t (nat l) b \<and> key_rank ts ls (drop (nat l) a) = key_rank ts ls (drop (nat l) b)"
    using 1(5) append_eq_append_conv [OF disjI1 [OF length_col_rank [OF ok]]] by simp
  then have e: "col_rank t (nat l) a = col_rank t (nat l) b" "drop (nat l) a = drop (nat l) b"
    using 1(1) [OF l(2), of "drop (nat l) a" "drop (nat l) b"] 1(3,4) s by simp_all
  have "take (nat l) a = take (nat l) b"
  proof (cases "t = TYPE_INT")
    case True
    then show ?thesis using e(1) 1(2-4) s get_int_inj [of a b] by simp
  next
    case False
    then have "t = TYPE_STRING" using 1(2) by simp
    then have "map uint (take (nat l) a) = map uint (take (nat l) b)" using e(1) by simp
    then show ?thesis by (simp add: inj_map_eq_map inj_uint_byte)
  qed
  then show ?case using e(2) by (metis append_take_drop_id)
qed simp_all

lemma memcmp_zero: "length a = n \<Longrightarrow> length b = n \<Longrightarrow> memcmp_bytes a b n = 0 \<longleftrightarrow> a = b"
proof -
  assume l: "length a = n" "length b = n"
  then show "memcmp_bytes a b n = 0 \<longleftrightarrow> a = b" using memcmp_rank [of n a b] by (simp add: inj_map_eq_map inj_uint_byte)
qed

end
