(* ===== verification/Ix_Node.thy ===== *)
theory Ix_Node
  imports Ix_Defs
begin

text \<open>
  One node of the B+ tree (\<^verbatim>\<open>IxNodeHandle\<close> of \<^verbatim>\<open>src/src/index/ix_index_handle.{h,cpp}\<close>) on the
  bytes of its page: the page header, an array of keys and an array of record identifiers, with
  the accessors, the two binary searches, and insertion and removal of pairs by \<^verbatim>\<open>memmove\<close>.
  The main results relate them to lists: the searches return the number of smaller (or not
  greater) keys, and inserting and erasing pairs are the list operations, for every node whose
  arrays fit into the page.
\<close>

section \<open>The layout of a page\<close>

text \<open>
  \<^verbatim>\<open>sizeof(IxPageHdr)\<close> is 24: \<^verbatim>\<open>next_free_page_no\<close> at 0, \<^verbatim>\<open>parent\<close> at 4, \<^verbatim>\<open>num_key\<close> at 8,
  \<^verbatim>\<open>is_leaf\<close> at 12 (one byte and three of padding), \<^verbatim>\<open>prev_leaf\<close> at 16, \<^verbatim>\<open>next_leaf\<close> at 20. Then
  \<^verbatim>\<open>keys_size_\<close> bytes of keys, then the identifiers of 8 bytes each.
\<close>

definition IX_PAGE_HDR_SIZE :: nat where "IX_PAGE_HDR_SIZE = 24"

definition nd_get_size :: "bytes \<Rightarrow> int" where "nd_get_size d = get_int d 8"
definition nd_set_size :: "bytes \<Rightarrow> int \<Rightarrow> bytes" where "nd_set_size d n = put_int d 8 n"
definition nd_get_max_size :: "ix_file_hdr \<Rightarrow> int" where "nd_get_max_size h = ix_order h + 1"
definition nd_get_min_size :: "ix_file_hdr \<Rightarrow> int" where "nd_get_min_size h = nd_get_max_size h div 2"
definition nd_next_leaf :: "bytes \<Rightarrow> int" where "nd_next_leaf d = get_int d 20"
definition nd_prev_leaf :: "bytes \<Rightarrow> int" where "nd_prev_leaf d = get_int d 16"
definition nd_parent :: "bytes \<Rightarrow> int" where "nd_parent d = get_int d 4"
definition nd_is_leaf :: "bytes \<Rightarrow> bool" where "nd_is_leaf d \<longleftrightarrow> d ! 12 \<noteq> 0"
definition nd_is_root :: "bytes \<Rightarrow> bool" where "nd_is_root d \<longleftrightarrow> nd_parent d = INVALID_PAGE_ID"
definition nd_set_next_leaf :: "bytes \<Rightarrow> int \<Rightarrow> bytes" where "nd_set_next_leaf d p = put_int d 20 p"
definition nd_set_prev_leaf :: "bytes \<Rightarrow> int \<Rightarrow> bytes" where "nd_set_prev_leaf d p = put_int d 16 p"
definition nd_set_parent :: "bytes \<Rightarrow> int \<Rightarrow> bytes" where "nd_set_parent d p = put_int d 4 p"
definition nd_set_is_leaf :: "bytes \<Rightarrow> bool \<Rightarrow> bytes" where "nd_set_is_leaf d b = mem_write d 12 [if b then 1 else 0]"

abbreviation klen :: "ix_file_hdr \<Rightarrow> nat" where "klen h \<equiv> nat (ix_col_tot_len h)"

definition key_off :: "ix_file_hdr \<Rightarrow> int \<Rightarrow> nat" where
  "key_off h i = IX_PAGE_HDR_SIZE + nat i * klen h"

definition rid_off :: "ix_file_hdr \<Rightarrow> int \<Rightarrow> nat" where
  "rid_off h i = IX_PAGE_HDR_SIZE + nat (ix_keys_size h) + nat i * 8"

definition nd_get_key :: "ix_file_hdr \<Rightarrow> bytes \<Rightarrow> int \<Rightarrow> bytes" where
  "nd_get_key h d i = mem_read d (key_off h i) (klen h)"

definition nd_get_rid :: "ix_file_hdr \<Rightarrow> bytes \<Rightarrow> int \<Rightarrow> rid" where
  "nd_get_rid h d i = mk_rid (get_int d (rid_off h i)) (get_int d (rid_off h i + 4))"

definition nd_set_key :: "ix_file_hdr \<Rightarrow> bytes \<Rightarrow> int \<Rightarrow> bytes \<Rightarrow> bytes" where
  "nd_set_key h d i key = mem_write d (key_off h i) (take (klen h) key)"

definition nd_set_rid :: "ix_file_hdr \<Rightarrow> bytes \<Rightarrow> int \<Rightarrow> rid \<Rightarrow> bytes" where
  "nd_set_rid h d i r = put_int (put_int d (rid_off h i) (page_no r)) (rid_off h i + 4) (slot_no r)"

definition nd_key_at :: "ix_file_hdr \<Rightarrow> bytes \<Rightarrow> int \<Rightarrow> int" where
  "nd_key_at h d i = get_int d (key_off h i)"

definition nd_value_at :: "ix_file_hdr \<Rightarrow> bytes \<Rightarrow> int \<Rightarrow> int" where
  "nd_value_at h d i = page_no (nd_get_rid h d i)"

definition mem_move :: "bytes \<Rightarrow> nat \<Rightarrow> nat \<Rightarrow> nat \<Rightarrow> bytes" where
  "mem_move d dst src n = mem_write d dst (mem_read d src n)"

section \<open>Searching\<close>

text \<open>The loops of \<^verbatim>\<open>lower_bound\<close> and \<^verbatim>\<open>upper_bound\<close>.\<close>

function lb_loop :: "ix_file_hdr \<Rightarrow> bytes \<Rightarrow> bytes \<Rightarrow> int \<Rightarrow> int \<Rightarrow> rmdb_error + int" where
  "lb_loop h d target first len =
    (if len > 0
     then let half = len div 2; middle = first + half in
          (case ix_compare (nd_get_key h d middle) target (ix_col_types h) (ix_col_lens h) of
             Inl e \<Rightarrow> Inl e
           | Inr c \<Rightarrow> if c < 0 then lb_loop h d target (middle + 1) (len - half - 1)
                      else lb_loop h d target first half)
     else Inr first)"
  by pat_completeness auto
termination by (relation "measure (\<lambda>(h, d, t, f, len). nat len)") auto

function ub_loop :: "ix_file_hdr \<Rightarrow> bytes \<Rightarrow> bytes \<Rightarrow> int \<Rightarrow> int \<Rightarrow> rmdb_error + int" where
  "ub_loop h d target first len =
    (if len > 0
     then let half = len div 2; middle = first + half in
          (case ix_compare (nd_get_key h d middle) target (ix_col_types h) (ix_col_lens h) of
             Inl e \<Rightarrow> Inl e
           | Inr c \<Rightarrow> if c \<le> 0 then ub_loop h d target (middle + 1) (len - half - 1)
                      else ub_loop h d target first half)
     else Inr first)"
  by pat_completeness auto
termination by (relation "measure (\<lambda>(h, d, t, f, len). nat len)") auto

declare lb_loop.simps [simp del] ub_loop.simps [simp del]

definition nd_lower_bound :: "ix_file_hdr \<Rightarrow> bytes \<Rightarrow> bytes \<Rightarrow> rmdb_error + int" where
  "nd_lower_bound h d target = lb_loop h d target 0 (nd_get_size d)"

definition nd_upper_bound :: "ix_file_hdr \<Rightarrow> bytes \<Rightarrow> bytes \<Rightarrow> rmdb_error + int" where
  "nd_upper_bound h d target =
    (case ub_loop h d target 0 (nd_get_size d - 1) of
       Inl e \<Rightarrow> Inl e
     | Inr first \<Rightarrow>
         (case ix_compare (nd_get_key h d first) target (ix_col_types h) (ix_col_lens h) of
            Inl e \<Rightarrow> Inl e
          | Inr c \<Rightarrow> Inr (if c > 0 then first else nd_get_size d)))"

text \<open>\<^verbatim>\<open>memcmp(get_key(i), key, col_tot_len_) == 0\<close>.\<close>

definition nd_key_is :: "ix_file_hdr \<Rightarrow> bytes \<Rightarrow> int \<Rightarrow> bytes \<Rightarrow> bool" where
  "nd_key_is h d i key \<longleftrightarrow> memcmp_bytes (nd_get_key h d i) key (klen h) = 0"

definition nd_leaf_lookup :: "ix_file_hdr \<Rightarrow> bytes \<Rightarrow> bytes \<Rightarrow> rmdb_error + rid option" where
  "nd_leaf_lookup h d key =
    (case nd_lower_bound h d key of
       Inl e \<Rightarrow> Inl e
     | Inr key_idx \<Rightarrow> Inr (if nd_key_is h d key_idx key then Some (nd_get_rid h d key_idx) else None))"

definition nd_internal_lookup :: "ix_file_hdr \<Rightarrow> bytes \<Rightarrow> bytes \<Rightarrow> rmdb_error + int" where
  "nd_internal_lookup h d key =
    (case nd_lower_bound h d key of
       Inl e \<Rightarrow> Inl e
     | Inr key_idx \<Rightarrow>
         Inr (if key_idx = 0 then nd_value_at h d key_idx
              else if key_idx < nd_get_size d \<and> nd_key_is h d key_idx key then nd_value_at h d key_idx
              else nd_value_at h d (key_idx - 1)))"

section \<open>Changing a node\<close>

text \<open>
  \<^verbatim>\<open>insert_pairs\<close>: \<open>key\<close> holds \<open>n\<close> keys one after the other, \<open>rids\<close> the identifiers. In an inner
  node one identifier more than keys is moved.
\<close>

definition nd_insert_pairs :: "ix_file_hdr \<Rightarrow> bytes \<Rightarrow> int \<Rightarrow> bytes \<Rightarrow> rid list \<Rightarrow> nat \<Rightarrow> rmdb_error + bytes" where
  "nd_insert_pairs h d pos key rids n =
    (if pos < 0 then Inl AssertFailure
     else
       let num = nd_get_size d;
           d1 = mem_move d (key_off h (pos + int n)) (key_off h pos) (nat (num - pos) * klen h);
           num_rid = (if nd_is_leaf d then num else num + 1);
           d2 = mem_move d1 (rid_off h (pos + int n)) (rid_off h pos) (nat (num_rid - pos) * 8);
           d3 = fold (\<lambda>i x. nd_set_rid h (nd_set_key h x (pos + int i) (drop (i * klen h) key)) (pos + int i) (rids ! i)) [0..<n] d2
       in Inr (nd_set_size d3 (num + int n)))"

definition nd_insert_pair :: "ix_file_hdr \<Rightarrow> bytes \<Rightarrow> int \<Rightarrow> bytes \<Rightarrow> rid \<Rightarrow> rmdb_error + bytes" where
  "nd_insert_pair h d pos key r = nd_insert_pairs h d pos key [r] 1"

definition nd_insert :: "ix_file_hdr \<Rightarrow> bytes \<Rightarrow> bytes \<Rightarrow> rid \<Rightarrow> rmdb_error + bytes" where
  "nd_insert h d key r =
    (if \<not> nd_get_size d \<le> ix_order h then Inl AssertFailure
     else case nd_lower_bound h d key of
            Inl e \<Rightarrow> Inl e
          | Inr pos \<Rightarrow>
              if pos \<ge> nd_get_size d \<or> \<not> nd_key_is h d pos key then nd_insert_pairs h d pos key [r] 1 else Inr d)"

definition nd_erase_pair :: "ix_file_hdr \<Rightarrow> bytes \<Rightarrow> int \<Rightarrow> rmdb_error + bytes" where
  "nd_erase_pair h d pos =
    (if \<not> (pos \<ge> 0 \<and> pos < nd_get_size d) then Inl AssertFailure
     else
       let num = nd_get_size d;
           d1 = mem_move d (key_off h pos) (key_off h pos + klen h) (nat (num - pos - 1) * klen h);
           d2 = mem_move d1 (rid_off h pos) (rid_off h pos + 8) (nat (num - pos - 1) * 8)
       in Inr (nd_set_size d2 (num - 1)))"

text \<open>\<^verbatim>\<open>remove\<close>: the optional identifier restricts the removal to a pair with this identifier.\<close>

definition nd_remove :: "ix_file_hdr \<Rightarrow> bytes \<Rightarrow> bytes \<Rightarrow> rid option \<Rightarrow> rmdb_error + bytes" where
  "nd_remove h d key rid =
    (case nd_lower_bound h d key of
       Inl e \<Rightarrow> Inl e
     | Inr pos \<Rightarrow>
         if pos < nd_get_size d
         then (case ix_compare (nd_get_key h d pos) key (ix_col_types h) (ix_col_lens h) of
                 Inl e \<Rightarrow> Inl e
               | Inr c \<Rightarrow>
                   if c = 0 \<and> (rid = None \<or> rid = Some (nd_get_rid h d pos)) then nd_erase_pair h d pos else Inr d)
         else Inr d)"

definition nd_remove_and_return_only_child :: "ix_file_hdr \<Rightarrow> bytes \<Rightarrow> rmdb_error + int \<times> bytes" where
  "nd_remove_and_return_only_child h d =
    (if nd_get_size d \<noteq> 1 then Inl AssertFailure
     else case nd_erase_pair h d 0 of
            Inl e \<Rightarrow> Inl e
          | Inr d' \<Rightarrow> if nd_get_size d' \<noteq> 0 then Inl AssertFailure else Inr (nd_value_at h d 0, d'))"

definition nd_find_child :: "ix_file_hdr \<Rightarrow> bytes \<Rightarrow> int \<Rightarrow> rmdb_error + int" where
  "nd_find_child h d child =
    (case find (\<lambda>i. nd_value_at h d (int i) = child) [0..<nat (nd_get_size d)] of
       None \<Rightarrow> Inl AssertFailure
     | Some i \<Rightarrow> Inr (int i))"

section \<open>Arrays of slots in a page\<close>

definition slot :: "bytes \<Rightarrow> nat \<Rightarrow> nat \<Rightarrow> nat \<Rightarrow> bytes" where
  "slot d b K i = mem_read d (b + i * K) K"

lemma mem_read_inside:
  "off \<le> p \<Longrightarrow> p + m \<le> off + length bs \<Longrightarrow> off + length bs \<le> length d \<Longrightarrow>
   mem_read (mem_write d off bs) p m = mem_read bs (p - off) m"
  by (rule nth_equalityI) (auto simp: mem_read_def mem_write_def nth_append)

lemma mem_read_read: "p + m \<le> n \<Longrightarrow> mem_read (mem_read d off n) p m = mem_read d (off + p) m"
  by (simp add: mem_read_def drop_take add.commute min_def)

lemma mult_slot_le: "i < j \<Longrightarrow> i * K + K \<le> j * (K :: nat)"
  using mult_le_mono1 [of "Suc i" j K] by simp

lemma slot_write:
  assumes "b + N * K \<le> length d" "i < N" "j < N" "length bs = K"
  shows "slot (mem_write d (b + j * K) bs) b K i = (if i = j then bs else slot d b K i)"
proof -
  have fit: "b + j * K + length bs \<le> length d" using mult_slot_le [OF assms(3), of K] assms by simp
  consider "i = j" | "i < j" | "j < i" by linarith
  then show ?thesis
  proof cases
    case 2
    then show ?thesis using mult_slot_le [OF 2, of K] fit assms(4) by (simp add: slot_def mem_read_write_before)
  next
    case 3
    then show ?thesis using mult_slot_le [OF 3, of K] fit assms(4) by (simp add: slot_def mem_read_write_after)
  qed (use fit assms(4) in \<open>simp add: slot_def mem_read_write_same\<close>)
qed

lemma slot_write_out:
  assumes "off + length bs \<le> length d" "off + length bs \<le> b \<or> b + N * K \<le> off" "i < N"
  shows "slot (mem_write d off bs) b K i = slot d b K i"
proof -
  have "b + i * K + K \<le> b + N * K" using mult_slot_le [OF assms(3), of K] by simp
  then show ?thesis
    using assms(1,2) unfolding slot_def
    by (auto intro: mem_read_write_before mem_read_write_after)
qed

lemma slot_move:
  assumes "b + N * K \<le> length d" "p + m \<le> N" "q + m \<le> N" "i < N"
  shows "slot (mem_move d (b + p * K) (b + q * K) (m * K)) b K i =
    slot d b K (if p \<le> i \<and> i < p + m then i - p + q else i)"
proof -
  have fit: "b + p * K + m * K \<le> length d" "b + q * K + m * K \<le> length d"
    using mult_le_mono1 [OF assms(2), of K] mult_le_mono1 [OF assms(3), of K] assms(1) by (simp_all add: algebra_simps)
  have len: "length (mem_read d (b + q * K) (m * K)) = m * K" using fit(2) by (simp add: length_mem_read)
  consider "i < p" | "p \<le> i" "i < p + m" | "p + m \<le> i" by linarith
  then show ?thesis
  proof cases
    case 1
    then show ?thesis
      using mult_slot_le [OF 1, of K] fit(1) len by (simp add: slot_def mem_move_def mem_read_write_before)
  next
    case 2
    let ?j = "i - p"
    have j: "?j < m" "i = p + ?j" using 2 by simp_all
    have s: "?j * K + K \<le> m * K" by (rule mult_slot_le [OF j(1)])
    have e: "b + i * K - (b + p * K) = ?j * K" "b + p * K \<le> b + i * K"
      using j(2) 2 by (simp_all add: diff_mult_distrib)
    have "mem_read (mem_write d (b + p * K) (mem_read d (b + q * K) (m * K))) (b + i * K) K =
        mem_read (mem_read d (b + q * K) (m * K)) (?j * K) K"
      unfolding e(1) [symmetric]
    proof (rule mem_read_inside)
      have "i * K = p * K + ?j * K" using j(2) by (metis add_mult_distrib)
      then show "b + i * K + K \<le> b + p * K + length (mem_read d (b + q * K) (m * K))" using s len by simp
    qed (use e fit len in simp_all)
    also have "\<dots> = mem_read d (b + q * K + ?j * K) K" by (rule mem_read_read [OF s])
    finally show ?thesis using 2 by (simp add: slot_def mem_move_def algebra_simps)
  next
    case 3
    have "(p + m) * K \<le> i * K" using 3 by (rule mult_le_mono1)
    then show ?thesis using 3 fit(1) len by (simp add: slot_def mem_move_def mem_read_write_after algebra_simps)
  qed
qed

lemma length_mem_move: "dst + n \<le> length d \<Longrightarrow> src + n \<le> length d \<Longrightarrow> length (mem_move d dst src n) = length d"
  by (simp add: mem_move_def length_mem_write length_mem_read)

lemma take_mem_write: "n \<le> off \<Longrightarrow> off \<le> length d \<Longrightarrow> take n (mem_write d off bs) = take n d"
  by (simp add: mem_write_def min_def)

lemma slot_move_out:
  assumes "dst + n \<le> length d" "src + n \<le> length d" "dst + n \<le> b \<or> b + N * K \<le> dst" "i < N"
  shows "slot (mem_move d dst src n) b K i = slot d b K i"
  unfolding mem_move_def by (rule slot_write_out) (use assms in \<open>simp_all add: length_mem_read\<close>)

section \<open>Well-formed nodes\<close>

text \<open>
  The dimensions \<^verbatim>\<open>IxManager::create_index\<close> chooses, and pages that hold at most
  \<^verbatim>\<open>btree_order_\<close> pairs.
\<close>

definition ix_dims :: "ix_file_hdr \<Rightarrow> bool" where
  "ix_dims h \<longleftrightarrow> 1 \<le> ix_col_tot_len h \<and> 2 < ix_order h \<and> ix_keys_size h = (ix_order h + 1) * ix_col_tot_len h \<and>
     24 + (ix_order h + 1) * (ix_col_tot_len h + 8) \<le> 4096"

definition nd_ok :: "ix_file_hdr \<Rightarrow> bytes \<Rightarrow> bool" where
  "nd_ok h d \<longleftrightarrow> length d = PAGE_SIZE \<and> 0 \<le> nd_get_size d \<and> nd_get_size d \<le> ix_order h"

abbreviation nslots :: "ix_file_hdr \<Rightarrow> nat" where "nslots h \<equiv> nat (ix_order h + 1)"
abbreviation rid_base :: "ix_file_hdr \<Rightarrow> nat" where "rid_base h \<equiv> 24 + nslots h * klen h"

definition rid_bytes :: "rid \<Rightarrow> bytes" where "rid_bytes r = enc_int (page_no r) @ enc_int (slot_no r)"
definition bytes_rid :: "bytes \<Rightarrow> rid" where "bytes_rid bs = mk_rid (get_int bs 0) (get_int bs 4)"

definition rid_ok :: "rid \<Rightarrow> bool" where "rid_ok r \<longleftrightarrow> int_range (page_no r) \<and> int_range (slot_no r)"

lemma length_rid_bytes [simp]: "length (rid_bytes r) = 8"
  by (simp add: rid_bytes_def)

lemma bytes_rid_inverse: "rid_ok r \<Longrightarrow> bytes_rid (rid_bytes r) = r"
  by (simp add: bytes_rid_def rid_bytes_def rid_ok_def get_int_def mem_read_def dec_enc_int_range)

lemma ix_dims_nat:
  assumes "ix_dims h"
  shows "nat (ix_keys_size h) = nslots h * klen h" "rid_base h + nslots h * 8 \<le> PAGE_SIZE" "1 \<le> klen h" "4 \<le> nslots h"
    "24 + nslots h * klen h \<le> PAGE_SIZE"
proof -
  have h: "1 \<le> ix_col_tot_len h" "2 < ix_order h" "ix_keys_size h = (ix_order h + 1) * ix_col_tot_len h"
    "24 + (ix_order h + 1) * (ix_col_tot_len h + 8) \<le> 4096" using assms by (simp_all add: ix_dims_def)
  show "nat (ix_keys_size h) = nslots h * klen h" using h by (simp add: nat_mult_distrib)
  have "int (rid_base h + nslots h * 8) = 24 + (ix_order h + 1) * (ix_col_tot_len h + 8)"
    using h(1,2) by (simp add: algebra_simps)
  then have "int (rid_base h + nslots h * 8) \<le> int PAGE_SIZE" using h(4) by (simp only: PAGE_SIZE_def)
  then show s: "rid_base h + nslots h * 8 \<le> PAGE_SIZE" by (simp only: of_nat_le_iff)
  then show "24 + nslots h * klen h \<le> PAGE_SIZE" by simp
  show "1 \<le> klen h" "4 \<le> nslots h" using h(1,2) by simp_all
qed

lemma nd_get_key_slot: "nd_get_key h d (int i) = slot d 24 (klen h) i"
  by (simp add: nd_get_key_def key_off_def slot_def IX_PAGE_HDR_SIZE_def)

lemma nd_get_rid_slot: "ix_dims h \<Longrightarrow> nd_get_rid h d (int i) = bytes_rid (slot d (rid_base h) 8 i)"
  using ix_dims_nat(1) [of h]
  by (simp add: nd_get_rid_def rid_off_def slot_def bytes_rid_def IX_PAGE_HDR_SIZE_def get_int_def mem_read_def
      drop_take min_def algebra_simps)

lemma nd_set_key_slot: "nd_set_key h d (int i) key = mem_write d (24 + i * klen h) (take (klen h) key)"
  by (simp add: nd_set_key_def key_off_def IX_PAGE_HDR_SIZE_def)

lemma nd_set_rid_slot:
  assumes "ix_dims h" "length d = PAGE_SIZE" "i < nslots h"
  shows "nd_set_rid h d (int i) r = mem_write d (rid_base h + i * 8) (rid_bytes r)"
proof -
  have "rid_base h + i * 8 + 8 \<le> length d" using ix_dims_nat(2) [OF assms(1)] mult_slot_le [OF assms(3), of 8] assms(2) by simp
  then show ?thesis
    by (simp add: nd_set_rid_def rid_off_def IX_PAGE_HDR_SIZE_def ix_dims_nat(1) [OF assms(1)] put_int_def mem_write_def
        rid_bytes_def drop_append algebra_simps)
qed

text \<open>The header of a page are its first 24 bytes.\<close>

lemma get_int_take: "off + 4 \<le> n \<Longrightarrow> get_int (take n d) off = get_int d off"
  by (simp add: get_int_def mem_read_def drop_take min_def)

lemma same_hdr:
  assumes "take 24 d' = take 24 d"
  shows "nd_get_size d' = nd_get_size d" "nd_parent d' = nd_parent d" "nd_is_leaf d' = nd_is_leaf d"
    "nd_prev_leaf d' = nd_prev_leaf d" "nd_next_leaf d' = nd_next_leaf d" "nd_is_root d' = nd_is_root d"
proof -
  have g: "get_int d' off = get_int d off" if "off + 4 \<le> 24" for off
    using get_int_take [OF that, of d'] get_int_take [OF that, of d] assms by simp
  show "nd_get_size d' = nd_get_size d" "nd_parent d' = nd_parent d" "nd_prev_leaf d' = nd_prev_leaf d"
    "nd_next_leaf d' = nd_next_leaf d" "nd_is_root d' = nd_is_root d"
    by (simp_all add: nd_get_size_def nd_parent_def nd_prev_leaf_def nd_next_leaf_def nd_is_root_def g)
  have "take 24 d' ! 12 = take 24 d ! 12" using assms by simp
  then show "nd_is_leaf d' = nd_is_leaf d" by (simp add: nd_is_leaf_def)
qed

lemma nd_set_size_simps:
  assumes "length d = PAGE_SIZE"
  shows "length (nd_set_size d n) = PAGE_SIZE" "int_range n \<Longrightarrow> nd_get_size (nd_set_size d n) = n"
    "nd_parent (nd_set_size d n) = nd_parent d" "nd_is_leaf (nd_set_size d n) = nd_is_leaf d"
    "nd_prev_leaf (nd_set_size d n) = nd_prev_leaf d" "nd_next_leaf (nd_set_size d n) = nd_next_leaf d"
    "24 \<le> b \<Longrightarrow> slot (nd_set_size d n) b K i = slot d b K i"
  using assms unfolding nd_set_size_def nd_get_size_def nd_parent_def nd_is_leaf_def nd_prev_leaf_def nd_next_leaf_def slot_def
  by (simp_all add: mem_simps wrap32_id PAGE_SIZE_def) (simp add: put_int_def nth_mem_write)

lemma slot_fits: "ix_dims h \<Longrightarrow> i < nslots h \<Longrightarrow> 24 + i * klen h + klen h \<le> PAGE_SIZE"
  "ix_dims h \<Longrightarrow> i < nslots h \<Longrightarrow> rid_base h + i * 8 + 8 \<le> PAGE_SIZE"
  using ix_dims_nat(2,5) [of h] mult_slot_le [of i "nslots h" "klen h"] mult_slot_le [of i "nslots h" 8] by linarith+

lemma nd_set_pair:
  fixes r :: rid
  assumes dm: "ix_dims h" and len: "length d = PAGE_SIZE" and j: "j < nslots h" and k: "klen h \<le> length key"
  defines "d' \<equiv> nd_set_rid h (nd_set_key h d (int j) key) (int j) r"
  shows "length d' = PAGE_SIZE" "take 24 d' = take 24 d"
    "i < nslots h \<Longrightarrow> slot d' 24 (klen h) i = (if i = j then take (klen h) key else slot d 24 (klen h) i)"
    "i < nslots h \<Longrightarrow> slot d' (rid_base h) 8 i = (if i = j then rid_bytes r else slot d (rid_base h) 8 i)"
proof -
  let ?d1 = "mem_write d (24 + j * klen h) (take (klen h) key)"
  have f: "24 + j * klen h + klen h \<le> length d" "rid_base h + j * 8 + 8 \<le> length d" using slot_fits [OF dm j] len by simp_all
  have tk: "length (take (klen h) key) = klen h" using k by simp
  have l1: "length ?d1 = PAGE_SIZE" using f(1) tk len by (simp add: length_mem_write)
  have d': "d' = mem_write ?d1 (rid_base h + j * 8) (rid_bytes r)"
    unfolding d'_def nd_set_key_slot by (rule nd_set_rid_slot [OF dm l1 j])
  show "length d' = PAGE_SIZE" using f(2) l1 len by (simp add: d' length_mem_write)
  show "take 24 d' = take 24 d" using f l1 len by (simp add: d' take_mem_write)
  have n: "24 + nslots h * klen h \<le> length d" "rid_base h + nslots h * 8 \<le> length ?d1" using ix_dims_nat(2,5) [OF dm] l1 len by simp_all
  show "slot d' 24 (klen h) i = (if i = j then take (klen h) key else slot d 24 (klen h) i)" if i: "i < nslots h"
  proof -
    have "slot d' 24 (klen h) i = slot ?d1 24 (klen h) i"
      unfolding d' by (rule slot_write_out [where N = "nslots h"]) (use f(2) l1 len i in simp_all)
    then show ?thesis using slot_write [OF n(1) i j tk] by simp
  qed
  show "slot d' (rid_base h) 8 i = (if i = j then rid_bytes r else slot d (rid_base h) 8 i)" if i: "i < nslots h"
  proof -
    have "slot ?d1 (rid_base h) 8 i = slot d (rid_base h) 8 i"
      by (rule slot_write_out [where N = "nslots h"]) (use f(1) tk i mult_slot_le [OF j, of "klen h"] in simp_all)
    then show ?thesis unfolding d' using slot_write [OF n(2) i j, of "rid_bytes r"] by simp
  qed
qed

lemma nd_set_pairs:
  fixes rids :: "rid list"
  assumes dm: "ix_dims h" and len: "length d = PAGE_SIZE" and p: "p + n \<le> nslots h" and k: "n * klen h \<le> length key"
  defines "d' \<equiv> fold (\<lambda>i x. nd_set_rid h (nd_set_key h x (int p + int i) (drop (i * klen h) key)) (int p + int i) (rids ! i)) [0..<n] d"
  shows "length d' = PAGE_SIZE \<and> take 24 d' = take 24 d \<and>
    (\<forall>i<nslots h. slot d' 24 (klen h) i = (if p \<le> i \<and> i < p + n then take (klen h) (drop ((i - p) * klen h) key) else slot d 24 (klen h) i)) \<and>
    (\<forall>i<nslots h. slot d' (rid_base h) 8 i = (if p \<le> i \<and> i < p + n then rid_bytes (rids ! (i - p)) else slot d (rid_base h) 8 i))"
  unfolding d'_def using p k
proof (induction n)
  case 0
  then show ?case using len by simp
next
  case (Suc n)
  let ?F = "\<lambda>i x. nd_set_rid h (nd_set_key h x (int p + int i) (drop (i * klen h) key)) (int p + int i) (rids ! i)"
  define x where "x = fold ?F [0..<n] d"
  define y where "y = fold ?F [0..<Suc n] d"
  have IH: "length x = PAGE_SIZE" "take 24 x = take 24 d"
    "\<forall>i<nslots h. slot x 24 (klen h) i = (if p \<le> i \<and> i < p + n then take (klen h) (drop ((i - p) * klen h) key) else slot d 24 (klen h) i)"
    "\<forall>i<nslots h. slot x (rid_base h) 8 i = (if p \<le> i \<and> i < p + n then rid_bytes (rids ! (i - p)) else slot d (rid_base h) 8 i)"
    using Suc by (simp_all add: x_def)
  have j: "p + n < nslots h" using Suc.prems by simp
  have kk: "klen h \<le> length (drop (n * klen h) key)" using Suc.prems by simp
  have e: "y = nd_set_rid h (nd_set_key h x (int (p + n)) (drop (n * klen h) key)) (int (p + n)) (rids ! n)"
    by (simp add: x_def y_def)
  note s = nd_set_pair [OF dm IH(1) j kk, where r = "rids ! n", folded e]
  show ?case
    unfolding y_def [symmetric] using s(1,2) IH(2) by (auto simp: s(3,4) IH(3,4) less_Suc_eq)
qed

lemma mem_move_slots:
  assumes dm: "ix_dims h" and len: "length d = PAGE_SIZE" and m: "p + m \<le> nslots h" "q + m \<le> nslots h"
  defines "e \<equiv> mem_move d (24 + p * klen h) (24 + q * klen h) (m * klen h)"
    and "f \<equiv> mem_move d (rid_base h + p * 8) (rid_base h + q * 8) (m * 8)"
  shows "length e = PAGE_SIZE" "take 24 e = take 24 d"
    "i < nslots h \<Longrightarrow> slot e 24 (klen h) i = slot d 24 (klen h) (if p \<le> i \<and> i < p + m then i - p + q else i)"
    "i < nslots h \<Longrightarrow> slot e (rid_base h) 8 i = slot d (rid_base h) 8 i"
    and "length f = PAGE_SIZE" "take 24 f = take 24 d"
    "i < nslots h \<Longrightarrow> slot f (rid_base h) 8 i = slot d (rid_base h) 8 (if p \<le> i \<and> i < p + m then i - p + q else i)"
    "i < nslots h \<Longrightarrow> slot f 24 (klen h) i = slot d 24 (klen h) i"
proof -
  note n = ix_dims_nat(2,5) [OF dm]
  have k: "24 + p * klen h + m * klen h \<le> 24 + nslots h * klen h" "24 + q * klen h + m * klen h \<le> 24 + nslots h * klen h"
    "rid_base h + p * 8 + m * 8 \<le> rid_base h + nslots h * 8" "rid_base h + q * 8 + m * 8 \<le> rid_base h + nslots h * 8"
    using mult_le_mono1 [OF m(1), of "klen h"] mult_le_mono1 [OF m(2), of "klen h"] m by (simp_all add: algebra_simps)
  have b: "24 + p * klen h + m * klen h \<le> length d" "24 + q * klen h + m * klen h \<le> length d"
    "rid_base h + p * 8 + m * 8 \<le> length d" "rid_base h + q * 8 + m * 8 \<le> length d"
    using k n len by linarith+
  show "length e = PAGE_SIZE" "length f = PAGE_SIZE"
    unfolding e_def f_def length_mem_move [OF b(1,2)] length_mem_move [OF b(3,4)] by (rule len)+
  show "take 24 e = take 24 d" "take 24 f = take 24 d"
    using b by (simp_all add: e_def f_def mem_move_def take_mem_write)
  show "i < nslots h \<Longrightarrow> slot e 24 (klen h) i = slot d 24 (klen h) (if p \<le> i \<and> i < p + m then i - p + q else i)"
    unfolding e_def by (rule slot_move [where N = "nslots h"]) (use n len m in simp_all)
  show "i < nslots h \<Longrightarrow> slot f (rid_base h) 8 i = slot d (rid_base h) 8 (if p \<le> i \<and> i < p + m then i - p + q else i)"
    unfolding f_def by (rule slot_move [where N = "nslots h"]) (use n len m in simp_all)
  show "i < nslots h \<Longrightarrow> slot e (rid_base h) 8 i = slot d (rid_base h) 8 i"
    unfolding e_def by (rule slot_move_out [where N = "nslots h"]) (use b k(1) in simp_all)
  show "i < nslots h \<Longrightarrow> slot f 24 (klen h) i = slot d 24 (klen h) i"
    unfolding f_def by (rule slot_move_out [where N = "nslots h"]) (use b in simp_all)
qed

text \<open>The pairs of a node, as lists.\<close>

definition nd_keys :: "ix_file_hdr \<Rightarrow> bytes \<Rightarrow> bytes list" where
  "nd_keys h d = map (\<lambda>i. slot d 24 (klen h) i) [0..<nat (nd_get_size d)]"

definition nd_rids :: "ix_file_hdr \<Rightarrow> bytes \<Rightarrow> rid list" where
  "nd_rids h d = map (\<lambda>i. bytes_rid (slot d (rid_base h) 8 i)) [0..<nat (nd_get_size d)]"

definition same_links :: "bytes \<Rightarrow> bytes \<Rightarrow> bool" where
  "same_links d d' \<longleftrightarrow> nd_parent d' = nd_parent d \<and> nd_is_leaf d' = nd_is_leaf d \<and> nd_prev_leaf d' = nd_prev_leaf d \<and>
     nd_next_leaf d' = nd_next_leaf d"

lemma length_nd_lists [simp]: "length (nd_keys h d) = nat (nd_get_size d)" "length (nd_rids h d) = nat (nd_get_size d)"
  by (simp_all add: nd_keys_def nd_rids_def)

lemma order_range: "ix_dims h \<Longrightarrow> 0 \<le> n \<Longrightarrow> n \<le> ix_order h \<Longrightarrow> int_range n"
proof -
  assume h: "ix_dims h" "0 \<le> n" "n \<le> ix_order h"
  have "24 + (ix_order h + 1) * (ix_col_tot_len h + 8) \<le> 4096" using h(1) by (simp add: ix_dims_def)
  moreover have "(ix_order h + 1) * 8 \<le> (ix_order h + 1) * (ix_col_tot_len h + 8)"
    by (rule mult_left_mono) (use h(1) in \<open>simp_all add: ix_dims_def\<close>)
  ultimately show ?thesis using h(2,3) by (simp add: int_range_def)
qed

definition keys_of :: "ix_file_hdr \<Rightarrow> nat \<Rightarrow> bytes \<Rightarrow> bytes list" where
  "keys_of h n key = map (\<lambda>i. take (klen h) (drop (i * klen h) key)) [0..<n]"

lemma nd_insert_pairs_lists:
  assumes dm: "ix_dims h" and ok: "nd_ok h d" and pos: "0 \<le> pos" "pos \<le> nd_get_size d"
    and n: "nd_get_size d + int n \<le> ix_order h" and key: "n * klen h \<le> length key" and rids: "length rids = n" "list_all rid_ok rids"
  obtains d' where "nd_insert_pairs h d pos key rids n = Inr d'" "nd_ok h d'" "same_links d d'"
    "nd_get_size d' = nd_get_size d + int n"
    "nd_keys h d' = take (nat pos) (nd_keys h d) @ keys_of h n key @ drop (nat pos) (nd_keys h d)"
    "nd_rids h d' = take (nat pos) (nd_rids h d) @ rids @ drop (nat pos) (nd_rids h d)"
proof -
  define p where "p = nat pos"
  define m where "m = nat (nd_get_size d)"
  have len: "length d = PAGE_SIZE" and sz: "0 \<le> nd_get_size d" using ok by (simp_all add: nd_ok_def)
  have im: "nd_get_size d = int m" "pos = int p" using sz pos by (simp_all add: m_def p_def)
  have pm: "p \<le> m" using pos im by simp
  have mn: "m + n < nslots h" using n im by linarith
  define r where "r = (if nd_is_leaf d then m else m + 1)"
  have r: "p \<le> r" "r + n \<le> nslots h" "m \<le> r" using pm mn by (auto simp: r_def)
  define d1 where "d1 = mem_move d (24 + (p + n) * klen h) (24 + p * klen h) ((m - p) * klen h)"
  define d2 where "d2 = mem_move d1 (rid_base h + (p + n) * 8) (rid_base h + p * 8) ((r - p) * 8)"
  define d3 where "d3 = fold (\<lambda>i x. nd_set_rid h (nd_set_key h x (int p + int i) (drop (i * klen h) key)) (int p + int i) (rids ! i)) [0..<n] d2"
  define d' where "d' = nd_set_size d3 (int m + int n)"
  have "p + n + (m - p) \<le> nslots h" "p + (m - p) \<le> nslots h" using pm mn by simp_all
  note m1 = mem_move_slots(1-4) [OF dm len this, folded d1_def]
  have "p + n + (r - p) \<le> nslots h" "p + (r - p) \<le> nslots h" using r by simp_all
  note m2 = mem_move_slots(5-8) [OF dm m1(1) this, folded d2_def]
  have "p + n \<le> nslots h" using pm mn by simp
  from nd_set_pairs [OF dm m2(1) this key, where rids = rids, folded d3_def]
  have s3: "length d3 = PAGE_SIZE" "take 24 d3 = take 24 d2"
    "\<And>i. i < nslots h \<Longrightarrow> slot d3 24 (klen h) i = (if p \<le> i \<and> i < p + n then take (klen h) (drop ((i - p) * klen h) key) else slot d2 24 (klen h) i)"
    "\<And>i. i < nslots h \<Longrightarrow> slot d3 (rid_base h) 8 i = (if p \<le> i \<and> i < p + n then rid_bytes (rids ! (i - p)) else slot d2 (rid_base h) 8 i)"
    by auto
  have rng: "int_range (int m + int n)" by (rule order_range [OF dm]) (use n im in simp_all)
  note ss = nd_set_size_simps [OF s3(1), where n = "int m + int n", folded d'_def]
  have hd: "take 24 d3 = take 24 d" using s3(2) m2(2) m1(2) by simp
  have sl: "same_links d d'" using ss same_hdr [OF hd] by (simp add: same_links_def)
  have size: "nd_get_size d' = int m + int n" using ss(2) [OF rng] .
  have res: "nd_insert_pairs h d pos key rids n = Inr d'"
  proof -
    have nn: "nat (int m - int p) = m - p" "nat ((if nd_is_leaf d then int m else int m + 1) - int p) = r - p"
      using pm by (auto simp: r_def nat_diff_distrib')
    have off: "key_off h (int p + int n) = 24 + (p + n) * klen h" "key_off h (int p) = 24 + p * klen h"
      "rid_off h (int p + int n) = rid_base h + (p + n) * 8" "rid_off h (int p) = rid_base h + p * 8"
      using ix_dims_nat(1) [OF dm] by (simp_all add: key_off_def rid_off_def IX_PAGE_HDR_SIZE_def nat_add_distrib)
    show ?thesis
      unfolding nd_insert_pairs_def Let_def im nn off d1_def [symmetric] d2_def [symmetric] d3_def [symmetric] d'_def [symmetric] by simp
  qed
  have ks: "slot d' 24 (klen h) i = (if i < p then slot d 24 (klen h) i
      else if i < p + n then take (klen h) (drop ((i - p) * klen h) key) else slot d 24 (klen h) (i - n))" if i: "i < m + n" for i
  proof -
    have b: "i < nslots h" using i mn by simp
    show ?thesis using i pm by (auto simp: ss(7) s3(3) [OF b] m2(4) [OF b] m1(3) [OF b])
  qed
  have rs: "slot d' (rid_base h) 8 i = (if i < p then slot d (rid_base h) 8 i
      else if i < p + n then rid_bytes (rids ! (i - p)) else slot d (rid_base h) 8 (i - n))" if i: "i < m + n" for i
  proof -
    have b: "i < nslots h" using i mn by simp
    have b': "i - n < nslots h" "\<not> i < p + n \<Longrightarrow> i - (p + n) + p = i - n" using b by simp_all
    show ?thesis using i pm r(1,3) b'(2) by (auto simp: ss(7) s3(4) [OF b] m2(3) [OF b] m1(4) [OF b] m1(4) [OF b'(1)])
  qed
  show ?thesis
  proof (rule that [OF res _ sl])
    show "nd_ok h d'" using ss(1) size n im by (simp add: nd_ok_def)
    show "nd_get_size d' = nd_get_size d + int n" using size im by simp
    show "nd_keys h d' = take (nat pos) (nd_keys h d) @ keys_of h n key @ drop (nat pos) (nd_keys h d)"
    proof (rule nth_equalityI)
      fix i assume "i < length (nd_keys h d')"
      then have i: "i < m + n" by (simp add: size nat_add_distrib)
      show "nd_keys h d' ! i = (take (nat pos) (nd_keys h d) @ keys_of h n key @ drop (nat pos) (nd_keys h d)) ! i"
        using i pm ks [OF i] by (auto simp: nd_keys_def keys_of_def size im nth_append nat_add_distrib not_less)
    qed (use pm in \<open>simp add: size im keys_of_def nat_add_distrib\<close>)
    show "nd_rids h d' = take (nat pos) (nd_rids h d) @ rids @ drop (nat pos) (nd_rids h d)"
    proof (rule nth_equalityI)
      fix i assume "i < length (nd_rids h d')"
      then have i: "i < m + n" by (simp add: size nat_add_distrib)
      have ro: "bytes_rid (rid_bytes (rids ! j)) = rids ! j" if "j < n" for j
        using bytes_rid_inverse rids that by (simp add: list_all_length)
      show "nd_rids h d' ! i = (take (nat pos) (nd_rids h d) @ rids @ drop (nat pos) (nd_rids h d)) ! i"
        using i pm rs [OF i] ro [of "i - p"] rids(1) by (auto simp: nd_rids_def size im nth_append nat_add_distrib not_less)
    qed (use pm rids(1) in \<open>simp add: size im nat_add_distrib\<close>)
  qed
qed

lemma nd_erase_pair_lists:
  assumes dm: "ix_dims h" and ok: "nd_ok h d" and pos: "0 \<le> pos" "pos < nd_get_size d"
  obtains d' where "nd_erase_pair h d pos = Inr d'" "nd_ok h d'" "same_links d d'" "nd_get_size d' = nd_get_size d - 1"
    "nd_keys h d' = take (nat pos) (nd_keys h d) @ drop (Suc (nat pos)) (nd_keys h d)"
    "nd_rids h d' = take (nat pos) (nd_rids h d) @ drop (Suc (nat pos)) (nd_rids h d)"
    "\<And>i. nat (nd_get_size d) \<le> Suc i \<Longrightarrow> i < nslots h \<Longrightarrow> slot d' 24 (klen h) i = slot d 24 (klen h) i \<and> slot d' (rid_base h) 8 i = slot d (rid_base h) 8 i"
proof -
  define p where "p = nat pos"
  define m where "m = nat (nd_get_size d)"
  have len: "length d = PAGE_SIZE" and sz: "0 \<le> nd_get_size d" "nd_get_size d \<le> ix_order h" using ok by (simp_all add: nd_ok_def)
  have im: "nd_get_size d = int m" "pos = int p" using sz pos by (simp_all add: m_def p_def)
  have pm: "p < m" using pos im by simp
  have mn: "m < nslots h" using sz im by linarith
  define d1 where "d1 = mem_move d (24 + p * klen h) (24 + Suc p * klen h) ((m - p - 1) * klen h)"
  define d2 where "d2 = mem_move d1 (rid_base h + p * 8) (rid_base h + Suc p * 8) ((m - p - 1) * 8)"
  define d' where "d' = nd_set_size d2 (int m - 1)"
  have b: "p + (m - p - 1) \<le> nslots h" "Suc p + (m - p - 1) \<le> nslots h" using pm mn by simp_all
  note m1 = mem_move_slots(1-4) [OF dm len b, folded d1_def]
  note m2 = mem_move_slots(5-8) [OF dm m1(1) b, folded d2_def]
  have rng: "int_range (int m - 1)" by (rule order_range [OF dm]) (use sz im pm in simp_all)
  note ss = nd_set_size_simps [OF m2(1), where n = "int m - 1", folded d'_def]
  have hd: "take 24 d2 = take 24 d" using m2(2) m1(2) by simp
  have sl: "same_links d d'" using ss same_hdr [OF hd] by (simp add: same_links_def)
  have size: "nd_get_size d' = int m - 1" using ss(2) [OF rng] .
  have res: "nd_erase_pair h d pos = Inr d'"
  proof -
    have nn: "nat (int m - int p - 1) = m - p - 1" using pm by simp
    have off: "key_off h (int p) = 24 + p * klen h" "24 + p * klen h + klen h = 24 + Suc p * klen h"
      "rid_off h (int p) = rid_base h + p * 8" "rid_base h + p * 8 + 8 = rid_base h + Suc p * 8"
      using ix_dims_nat(1) [OF dm] by (simp_all add: key_off_def rid_off_def IX_PAGE_HDR_SIZE_def)
    have g: "\<not> (int p \<ge> 0 \<and> int p < int m) \<longleftrightarrow> False" using pm by simp
    show ?thesis
      unfolding nd_erase_pair_def Let_def im nn g if_False off d1_def [symmetric] d2_def [symmetric] d'_def [symmetric] by (rule refl)
  qed
  have ks: "slot d' 24 (klen h) i = slot d 24 (klen h) (if p \<le> i \<and> Suc i < m then Suc i else i)" if b: "i < nslots h" for i
    using pm by (auto simp: ss(7) m2(4) [OF b] m1(3) [OF b])
  have rs: "slot d' (rid_base h) 8 i = slot d (rid_base h) 8 (if p \<le> i \<and> Suc i < m then Suc i else i)" if b: "i < nslots h" for i
  proof -
    have "Suc i < m \<Longrightarrow> slot d1 (rid_base h) 8 (Suc i) = slot d (rid_base h) 8 (Suc i)" by (rule m1(4)) (use mn in simp)
    then show ?thesis using pm by (auto simp: ss(7) m2(3) [OF b] m1(4) [OF b])
  qed
  have nm: "nat (int m - 1) = m - 1" by simp
  show ?thesis
  proof (rule that [OF res _ sl])
    show "nd_ok h d'" using ss(1) size sz im pm by (simp add: nd_ok_def)
    show "nd_get_size d' = nd_get_size d - 1" using size im by simp
    show "nd_keys h d' = take (nat pos) (nd_keys h d) @ drop (Suc (nat pos)) (nd_keys h d)"
    proof (rule nth_equalityI)
      fix i assume "i < length (nd_keys h d')"
      then have i: "i < m - 1" by (simp add: size nm)
      then show "nd_keys h d' ! i = (take (nat pos) (nd_keys h d) @ drop (Suc (nat pos)) (nd_keys h d)) ! i"
        using pm mn ks [of i] by (auto simp: nd_keys_def size nm im nth_append not_less)
    qed (use pm in \<open>simp add: size im nm\<close>)
    show "nd_rids h d' = take (nat pos) (nd_rids h d) @ drop (Suc (nat pos)) (nd_rids h d)"
    proof (rule nth_equalityI)
      fix i assume "i < length (nd_rids h d')"
      then have i: "i < m - 1" by (simp add: size nm)
      then show "nd_rids h d' ! i = (take (nat pos) (nd_rids h d) @ drop (Suc (nat pos)) (nd_rids h d)) ! i"
        using pm mn rs [of i] by (auto simp: nd_rids_def size nm im nth_append not_less)
    qed (use pm in \<open>simp add: size im nm\<close>)
    show "slot d' 24 (klen h) i = slot d 24 (klen h) i \<and> slot d' (rid_base h) 8 i = slot d (rid_base h) 8 i"
      if "nat (nd_get_size d) \<le> Suc i" "i < nslots h" for i
      using ks [OF that(2)] rs [OF that(2)] that(1) im by auto
  qed
qed

section \<open>The binary searches\<close>

abbreviation krank :: "ix_file_hdr \<Rightarrow> bytes \<Rightarrow> int list" where "krank h \<equiv> key_rank (ix_col_types h) (ix_col_lens h)"
abbreviation kok :: "ix_file_hdr \<Rightarrow> bytes \<Rightarrow> bool" where "kok h \<equiv> key_ok (ix_col_types h) (ix_col_lens h)"

definition nd_sorted :: "ix_file_hdr \<Rightarrow> bytes \<Rightarrow> bool" where
  "nd_sorted h d \<longleftrightarrow> sorted_wrt (<) (map (krank h) (nd_keys h d)) \<and> list_all (kok h) (nd_keys h d)"

lemma nd_compare:
  assumes "nd_sorted h d" "kok h t" "0 \<le> i" "i < nd_get_size d"
  shows "ix_compare (nd_get_key h d i) t (ix_col_types h) (ix_col_lens h) = Inr (cmp3 (krank h (nd_keys h d ! nat i)) (krank h t))"
proof -
  have k: "nd_get_key h d i = nd_keys h d ! nat i" using assms(3,4) nd_get_key_slot [of h d "nat i"] by (simp add: nd_keys_def)
  have "kok h (nd_keys h d ! nat i)" using assms(1,3,4) by (simp add: nd_sorted_def list_all_length)
  then show ?thesis unfolding k by (rule ix_compare_rank) (rule assms(2))
qed

text \<open>
  Both loops halve an interval that contains the first position at which a monotone test fails.
\<close>

function bsearch :: "(int \<Rightarrow> bool) \<Rightarrow> int \<Rightarrow> int \<Rightarrow> int" where
  "bsearch P first len =
    (if len > 0 then let half = len div 2; middle = first + half in
       if P middle then bsearch P (middle + 1) (len - half - 1) else bsearch P first half
     else first)"
  by pat_completeness auto
termination by (relation "measure (\<lambda>(P, f, len). nat len)") auto

declare bsearch.simps [simp del]

lemma bsearch_spec:
  assumes "\<And>i j. 0 \<le> i \<Longrightarrow> i \<le> j \<Longrightarrow> j < n \<Longrightarrow> P j \<Longrightarrow> P i" "0 \<le> first" "0 \<le> len" "first + len \<le> n"
    "\<And>i. 0 \<le> i \<Longrightarrow> i < first \<Longrightarrow> P i" "\<And>i. first + len \<le> i \<Longrightarrow> i < n \<Longrightarrow> \<not> P i"
  shows "first \<le> bsearch P first len \<and> bsearch P first len \<le> first + len \<and> (\<forall>i. 0 \<le> i \<longrightarrow> i < n \<longrightarrow> (P i \<longleftrightarrow> i < bsearch P first len))"
  using assms
proof (induction P first len rule: bsearch.induct)
  case (1 P first len)
  show ?case
  proof (cases "len > 0")
    case False
    then have z: "len = 0" using 1(5) by simp
    have b: "bsearch P first 0 = first" by (subst bsearch.simps) simp
    have "P i \<longleftrightarrow> i < first" if "0 \<le> i" "i < n" for i
      using 1(7) [of i] 1(8) [of i] that z by (cases "i < first") auto
    then show ?thesis using z by (simp add: b)
  next
    case True
    define half where "half = len div 2"
    define mid where "mid = first + half"
    have hb: "0 \<le> half" "half < len" using True by (simp_all add: half_def)
    have mb: "0 \<le> mid" "mid < n" using hb 1(4,6) by (simp_all add: mid_def)
    show ?thesis
    proof (cases "P mid")
      case p: True
      have "mid + 1 \<le> bsearch P (mid + 1) (len - half - 1) \<and> bsearch P (mid + 1) (len - half - 1) \<le> mid + 1 + (len - half - 1) \<and>
          (\<forall>i. 0 \<le> i \<longrightarrow> i < n \<longrightarrow> (P i \<longleftrightarrow> i < bsearch P (mid + 1) (len - half - 1)))"
      proof (rule 1(1) [OF True half_def mid_def p 1(3)])
        show "P i" if "0 \<le> i" "i < mid + 1" for i using 1(3) [of i mid] that mb p by simp
        show "\<not> P i" if "mid + 1 + (len - half - 1) \<le> i" "i < n" for i using 1(8) [of i] that by (simp add: mid_def)
      qed (use mb hb 1(6) in \<open>simp_all add: mid_def\<close>)
      moreover have "bsearch P first len = bsearch P (mid + 1) (len - half - 1)"
        using True p by (subst bsearch.simps) (simp add: half_def mid_def Let_def)
      ultimately show ?thesis using hb by (simp add: mid_def)
    next
      case p: False
      have "first \<le> bsearch P first half \<and> bsearch P first half \<le> first + half \<and>
          (\<forall>i. 0 \<le> i \<longrightarrow> i < n \<longrightarrow> (P i \<longleftrightarrow> i < bsearch P first half))"
      proof (rule 1(2) [OF True half_def mid_def p 1(3)])
        show "\<not> P i" if "first + half \<le> i" "i < n" for i using 1(3) [of mid i] that mb p by (auto simp: mid_def)
      qed (use hb 1(4,6,7) in simp_all)
      moreover have "bsearch P first len = bsearch P first half"
        using True p by (subst bsearch.simps) (simp add: half_def mid_def Let_def)
      ultimately show ?thesis using hb by simp
    qed
  qed
qed

lemma lb_loop_bsearch:
  assumes "\<And>i. 0 \<le> i \<Longrightarrow> i < n \<Longrightarrow> ix_compare (nd_get_key h d i) t (ix_col_types h) (ix_col_lens h) = Inr (c i)"
    "0 \<le> first" "first + len \<le> n"
  shows "lb_loop h d t first len = Inr (bsearch (\<lambda>i. c i < 0) first len)"
  using assms
proof (induction h d t first len rule: lb_loop.induct)
  case (1 h d t first len)
  show ?case
  proof (cases "len > 0")
    case True
    have m: "0 \<le> first + len div 2" "first + len div 2 < n" using True 1(4,5) by simp_all
    note IH = 1(1,2) [OF True refl refl 1(3) [OF m] _ 1(3)]
    show ?thesis
      using True IH m 1(4,5)
      by (subst lb_loop.simps, subst bsearch.simps) (simp add: 1(3) [OF m] Let_def)
  qed (subst lb_loop.simps, subst bsearch.simps, simp)
qed

lemma ub_loop_bsearch:
  assumes "\<And>i. 0 \<le> i \<Longrightarrow> i < n \<Longrightarrow> ix_compare (nd_get_key h d i) t (ix_col_types h) (ix_col_lens h) = Inr (c i)"
    "0 \<le> first" "first + len \<le> n"
  shows "ub_loop h d t first len = Inr (bsearch (\<lambda>i. c i \<le> 0) first len)"
  using assms
proof (induction h d t first len rule: ub_loop.induct)
  case (1 h d t first len)
  show ?case
  proof (cases "len > 0")
    case True
    have m: "0 \<le> first + len div 2" "first + len div 2 < n" using True 1(4,5) by simp_all
    note IH = 1(1,2) [OF True refl refl 1(3) [OF m] _ 1(3)]
    show ?thesis
      using True IH m 1(4,5)
      by (subst ub_loop.simps, subst bsearch.simps) (simp add: 1(3) [OF m] Let_def)
  qed (subst ub_loop.simps, subst bsearch.simps, simp)
qed

lemma nd_sorted_mono:
  assumes "nd_sorted h d" "0 \<le> i" "i \<le> j" "j < nd_get_size d"
  shows "krank h (nd_keys h d ! nat i) \<le> krank h (nd_keys h d ! nat j)"
  using assms sorted_wrt_nth_less [of "(<)" "map (krank h) (nd_keys h d)" "nat i" "nat j"]
  by (cases "i = j") (auto simp: nd_sorted_def less_imp_le nat_less_eq_zless)

lemma count_prefix:
  assumes "0 \<le> k" "k \<le> int (length xs)" "\<And>i. 0 \<le> i \<Longrightarrow> i < int (length xs) \<Longrightarrow> (P (xs ! nat i) \<longleftrightarrow> i < k)"
  shows "k = int (length (filter P xs))"
proof -
  have nth: "P (xs ! j) \<longleftrightarrow> j < nat k" if "j < length xs" for j using assms(3) [of "int j"] that by auto
  have "filter P (take (nat k) xs) = take (nat k) xs"
    by (rule filter_True) (auto simp: in_set_conv_nth nth)
  moreover have "filter P (drop (nat k) xs) = []"
    by (rule filter_False) (use assms(1,2) nth in \<open>auto simp: in_set_conv_nth\<close>)
  moreover have "filter P xs = filter P (take (nat k) xs) @ filter P (drop (nat k) xs)"
    by (metis append_take_drop_id filter_append)
  ultimately show ?thesis using assms(1,2) by simp
qed

lemma nd_bounds_correct_lower:
  assumes "nd_sorted h d" "0 \<le> nd_get_size d" "kok h t"
  shows "nd_lower_bound h d t = Inr (int (length (filter (\<lambda>k. krank h k < krank h t) (nd_keys h d))))"
proof -
  let ?n = "nd_get_size d" and ?r = "\<lambda>i. krank h (nd_keys h d ! nat i)"
  let ?c = "\<lambda>i. cmp3 (?r i) (krank h t)"
  have lb: "nd_lower_bound h d t = Inr (bsearch (\<lambda>i. ?c i < 0) 0 ?n)"
    unfolding nd_lower_bound_def
    by (rule lb_loop_bsearch [where n = ?n and c = ?c]) (simp_all add: nd_compare [OF assms(1,3)])
  have s: "0 \<le> bsearch (\<lambda>i. ?c i < 0) 0 ?n \<and> bsearch (\<lambda>i. ?c i < 0) 0 ?n \<le> 0 + ?n \<and>
      (\<forall>i. 0 \<le> i \<longrightarrow> i < ?n \<longrightarrow> (?c i < 0 \<longleftrightarrow> i < bsearch (\<lambda>i. ?c i < 0) 0 ?n))"
    by (rule bsearch_spec) (use assms(2) nd_sorted_mono [OF assms(1)] in \<open>auto intro: le_less_trans\<close>)
  have "bsearch (\<lambda>i. ?c i < 0) 0 ?n = int (length (filter (\<lambda>k. krank h k < krank h t) (nd_keys h d)))"
    by (rule count_prefix) (use s assms(2) in auto)
  then show ?thesis using lb by simp
qed

lemma nd_bounds_correct_upper:
  assumes "nd_sorted h d" "0 < nd_get_size d" "kok h t"
  shows "nd_upper_bound h d t = Inr (int (length (filter (\<lambda>k. krank h k \<le> krank h t) (nd_keys h d))))"
proof -
  let ?n = "nd_get_size d" and ?r = "\<lambda>i. krank h (nd_keys h d ! nat i)"
  let ?c = "\<lambda>i. cmp3 (?r i) (krank h t)"
  have n: "0 \<le> ?n - 1" "?n - 1 < ?n" using assms(2) by simp_all
  note c = nd_compare [OF assms(1,3)] and m = nd_sorted_mono [OF assms(1)]
  let ?f = "bsearch (\<lambda>i. ?c i \<le> 0) 0 (?n - 1)"
  have ub: "ub_loop h d t 0 (?n - 1) = Inr ?f" by (rule ub_loop_bsearch [where n = ?n and c = ?c]) (simp_all add: c)
  have s: "0 \<le> ?f \<and> ?f \<le> 0 + (?n - 1) \<and> (\<forall>i. 0 \<le> i \<longrightarrow> i < ?n - 1 \<longrightarrow> (?c i \<le> 0 \<longleftrightarrow> i < ?f))"
  proof (rule bsearch_spec)
    show "?c i \<le> 0" if "0 \<le> i" "i \<le> j" "j < ?n - 1" "?c j \<le> 0" for i j using m [of i j] that by auto
  qed (use n in auto)
  have cf: "ix_compare (nd_get_key h d ?f) t (ix_col_types h) (ix_col_lens h) = Inr (?c ?f)"
    by (rule c) (use s n in simp_all)
  have res: "nd_upper_bound h d t = Inr (if ?c ?f > 0 then ?f else ?n)" unfolding nd_upper_bound_def ub sum.case cf by simp
  have "(if ?c ?f > 0 then ?f else ?n) = int (length (filter (\<lambda>k. krank h k \<le> krank h t) (nd_keys h d)))"
  proof (rule count_prefix)
    fix i assume "0 \<le> i" "i < int (length (nd_keys h d))"
    then have i: "0 \<le> i" "i < ?n" using assms(2) by simp_all
    show "krank h (nd_keys h d ! nat i) \<le> krank h t \<longleftrightarrow> i < (if ?c ?f > 0 then ?f else ?n)"
    proof (cases "i < ?f")
      case True
      then have "?c i \<le> 0" using s i by auto
      then show ?thesis using True i by simp
    next
      case False
      then have "?r ?f \<le> ?r i" using m [of ?f i] s i by simp
      moreover have "?r i \<le> ?r (?n - 1)" using m [of i "?n - 1"] i n by simp
      moreover have "?c ?f \<le> 0 \<Longrightarrow> ?f = ?n - 1" using s by force
      ultimately show ?thesis using False i by (auto simp: not_less)
    qed
  qed (use s n in auto)
  then show ?thesis using res by simp
qed

text \<open>
  C14. The search in a node: for a node with sorted keys, \<^verbatim>\<open>lower_bound\<close> returns the number of
  keys smaller than the target, and \<^verbatim>\<open>upper_bound\<close> the number of keys not greater than it, so
  that the position is the first one with a key not smaller (greater) or the size of the node.
\<close>

theorem nd_bounds_correct:
  assumes "nd_sorted h d" and "0 < nd_get_size d" and "kok h t"
  shows "nd_lower_bound h d t = Inr (int (length (filter (\<lambda>k. krank h k < krank h t) (nd_keys h d)))) \<and>
    nd_upper_bound h d t = Inr (int (length (filter (\<lambda>k. krank h k \<le> krank h t) (nd_keys h d))))"
  using nd_bounds_correct_lower nd_bounds_correct_upper assms by simp

definition sample_nd_hdr :: ix_file_hdr where
  "sample_nd_hdr = update_tot_len ((new_ix_file_hdr IX_NO_PAGE IX_INIT_NUM_PAGES IX_INIT_ROOT_PAGE 1 4 338 1356 IX_INIT_ROOT_PAGE IX_INIT_ROOT_PAGE)
     \<lparr>ix_col_types := [TYPE_INT], ix_col_lens := [4]\<rparr>)"

definition sample_node :: bytes where
  "sample_node = enc_int (- 1) @ enc_int (- 1) @ enc_int 2 @ [1, 0, 0, 0] @ enc_int 1 @ enc_int 1 @ enc_int 5 @ enc_int 8"

theorem nd_bounds_correct_witness:
  "nd_lower_bound sample_nd_hdr sample_node (enc_int 8) = Inr 1 \<and> nd_upper_bound sample_nd_hdr sample_node (enc_int 8) = Inr 2"
proof -
  have "nd_sorted sample_nd_hdr sample_node \<and> 0 < nd_get_size sample_node \<and> kok sample_nd_hdr (enc_int 8) \<and>
      length (filter (\<lambda>k. krank sample_nd_hdr k < krank sample_nd_hdr (enc_int 8)) (nd_keys sample_nd_hdr sample_node)) = 1 \<and>
      length (filter (\<lambda>k. krank sample_nd_hdr k \<le> krank sample_nd_hdr (enc_int 8)) (nd_keys sample_nd_hdr sample_node)) = 2"
    by code_simp
  then show ?thesis using nd_bounds_correct [of sample_nd_hdr sample_node "enc_int 8"] by simp
qed

section \<open>Insertion, removal and lookup\<close>

definition ix_exact :: "ix_file_hdr \<Rightarrow> bool" where
  "ix_exact h \<longleftrightarrow> cols_exact (ix_col_types h) (ix_col_lens h) \<and> ix_col_tot_len h = sum_list (ix_col_lens h)"

lemma exact_key_ok: "cols_exact ts ls \<Longrightarrow> length a = nat (sum_list ls) \<Longrightarrow> key_ok ts ls a"
proof (induction ts ls arbitrary: a rule: cols_exact.induct)
  case (1 t ts l ls)
  have ex: "cols_exact ts ls" "0 \<le> l" using 1(2) by auto
  have "list_all (\<lambda>x. 0 \<le> x) ls" using ex(1) by (induction ts ls rule: cols_exact.induct) auto
  then have "0 \<le> sum_list ls" by (induction ls) auto
  then have s: "length a = nat l + nat (sum_list ls)" using 1(3) ex(2) by (simp add: nat_add_distrib)
  show ?case using 1(1) [OF ex(1), of "drop (nat l) a"] 1(2) s by auto
qed simp_all

lemma ix_exactD:
  assumes "ix_exact h" "length a = klen h"
  shows "kok h a" "length b = klen h \<Longrightarrow> krank h a = krank h b \<Longrightarrow> a = b"
  using assms exact_key_ok [of "ix_col_types h" "ix_col_lens h" a] key_rank_inj [of "ix_col_types h" "ix_col_lens h" a b]
  by (simp_all add: ix_exact_def)

lemma length_slot: "b + i * K + K \<le> length d \<Longrightarrow> length (slot d b K i) = K"
  by (simp add: slot_def length_mem_read)

lemma nd_key_lengths:
  assumes "ix_dims h" "nd_ok h d"
  shows "k \<in> set (nd_keys h d) \<Longrightarrow> length k = klen h"
    "i < nslots h \<Longrightarrow> length (slot d 24 (klen h) i) = klen h"
proof -
  show s: "length (slot d 24 (klen h) i) = klen h" if "i < nslots h" for i
    by (rule length_slot) (use slot_fits(1) [OF assms(1) that] assms(2) in \<open>simp add: nd_ok_def\<close>)
  have n: "nat (nd_get_size d) \<le> nslots h" using assms(2) unfolding nd_ok_def by linarith
  show "k \<in> set (nd_keys h d) \<Longrightarrow> length k = klen h" using s n by (auto simp: nd_keys_def)
qed

text \<open>Where a key belongs in a node.\<close>

lemma nd_position:
  assumes dm: "ix_dims h" and ex: "ix_exact h" and ok: "nd_ok h d" and srt: "nd_sorted h d" and len: "length key = klen h"
  obtains j lo hi where "nd_lower_bound h d key = Inr (int j)" "nd_keys h d = lo @ hi" "length lo = j"
    "\<And>k. k \<in> set lo \<Longrightarrow> krank h k < krank h key" "\<And>k. k \<in> set hi \<Longrightarrow> krank h key \<le> krank h k"
    "int j < nd_get_size d \<longleftrightarrow> hi \<noteq> []" "hi \<noteq> [] \<Longrightarrow> nd_key_is h d (int j) key \<longleftrightarrow> hd hi = key"
    "key \<in> set (nd_keys h d) \<longleftrightarrow> hi \<noteq> [] \<and> hd hi = key"
proof -
  let ?P = "\<lambda>k. krank h k < krank h key" and ?ks = "nd_keys h d"
  define lo where "lo = takeWhile ?P ?ks"
  define hi where "hi = dropWhile ?P ?ks"
  have sz: "0 \<le> nd_get_size d" using ok by (simp add: nd_ok_def)
  have eq: "?ks = lo @ hi" by (simp add: lo_def hi_def)
  have lo: "?P k" if "k \<in> set lo" for k using that set_takeWhileD unfolding lo_def by fast
  have sw: "sorted_wrt (<) (map (krank h) hi)" using srt unfolding nd_sorted_def eq by (simp add: sorted_wrt_append)
  have hi: "krank h key \<le> krank h k" if k: "k \<in> set hi" for k
  proof -
    obtain x xs where x: "hi = x # xs" using k by (cases hi) auto
    have "\<not> ?P x" using x unfolding hi_def by (metis dropWhile_eq_Cons_conv)
    moreover have "krank h x \<le> krank h k" using k sw x by auto
    ultimately show ?thesis by simp
  qed
  have "filter ?P ?ks = lo" using lo hi unfolding eq by (simp add: leD)
  then have lb: "nd_lower_bound h d key = Inr (int (length lo))"
    using nd_bounds_correct_lower [OF srt sz ix_exactD(1) [OF ex len]] by simp
  have n: "int (length lo) < nd_get_size d \<longleftrightarrow> hi \<noteq> []"
    using arg_cong [OF eq, of length] sz by (cases hi) auto
  have kl: "length k = klen h" if "k \<in> set ?ks" for k using nd_key_lengths(1) [OF dm ok that] .
  have is_key: "nd_key_is h d (int (length lo)) key \<longleftrightarrow> hd hi = key" if ne: "hi \<noteq> []"
  proof -
    have "nd_get_key h d (int (length lo)) = ?ks ! length lo"
      using n ne by (simp add: nd_get_key_slot nd_keys_def nat_less_iff)
    also have "\<dots> = hd hi" using ne eq by (simp add: nth_append hd_conv_nth)
    finally have g: "nd_get_key h d (int (length lo)) = hd hi" .
    have "length (hd hi) = klen h" by (rule kl) (use ne eq in simp)
    then show ?thesis unfolding nd_key_is_def g using memcmp_zero [of "hd hi" "klen h" key] len by simp
  qed
  have mem: "key \<in> set ?ks \<longleftrightarrow> hi \<noteq> [] \<and> hd hi = key"
  proof
    assume "key \<in> set ?ks"
    then have k: "key \<in> set hi" using lo [of key] eq by auto
    then obtain x xs where x: "hi = x # xs" by (cases hi) auto
    have "krank h x \<le> krank h key" using sw x k by auto
    moreover have "krank h key \<le> krank h x" using hi x by simp
    ultimately have "krank h x = krank h key" by simp
    moreover have "length x = klen h" by (rule kl) (use eq x in simp)
    ultimately have "x = key" using ix_exactD(2) [OF ex, of x key] len by simp
    then show "hi \<noteq> [] \<and> hd hi = key" using x by simp
  qed (use eq in \<open>auto dest: hd_in_set\<close>)
  show ?thesis by (rule that [OF lb eq refl lo hi n is_key mem])
qed

text \<open>A node as a finite map from keys to record identifiers.\<close>

definition nd_map :: "ix_file_hdr \<Rightarrow> bytes \<Rightarrow> bytes \<rightharpoonup> rid" where
  "nd_map h d = map_of (zip (nd_keys h d) (nd_rids h d))"

lemma dom_nd_map: "dom (nd_map h d) = set (nd_keys h d)"
  by (simp add: nd_map_def dom_map_of_zip)

lemma nd_map_in: "key \<in> dom (nd_map h d) \<longleftrightarrow> key \<in> set (nd_keys h d)"
  by (simp add: dom_nd_map)

lemma map_of_zip_insert:
  assumes "length rs = length (lo @ hi)" "k \<notin> set lo" "k \<notin> set hi"
  shows "map_of (zip (lo @ [k] @ hi) (take (length lo) rs @ [r] @ drop (length lo) rs)) = (map_of (zip (lo @ hi) rs))(k \<mapsto> r)"
proof -
  have l: "length (take (length lo) rs) = length lo" using assms(1) by simp
  have "zip (lo @ hi) rs = zip lo (take (length lo) rs) @ zip hi (drop (length lo) rs)" by (simp add: zip_append1)
  moreover have "zip (lo @ [k] @ hi) (take (length lo) rs @ [r] @ drop (length lo) rs) =
      zip lo (take (length lo) rs) @ (k, r) # zip hi (drop (length lo) rs)" using l by simp
  moreover have "map_of (zip lo (take (length lo) rs)) k = None" using assms(2) by (auto simp: map_of_eq_None_iff dest: set_zip_leftD)
  ultimately show ?thesis by (auto simp: map_add_def fun_eq_iff split: option.splits)
qed

lemma map_of_zip_remove:
  assumes "length rs = length (lo @ k # hi)" "k \<notin> set lo" "k \<notin> set hi"
  shows "map_of (zip (lo @ hi) (take (length lo) rs @ drop (Suc (length lo)) rs)) = (map_of (zip (lo @ k # hi) rs))(k := None)"
proof -
  have l: "length (take (length lo) rs) = length lo" using assms(1) by simp
  let ?r = "rs ! length lo"
  have d: "drop (length lo) rs = ?r # drop (Suc (length lo)) rs" using assms(1) by (simp add: Cons_nth_drop_Suc)
  have "zip (lo @ k # hi) rs = zip lo (take (length lo) rs) @ zip (k # hi) (drop (length lo) rs)" by (simp add: zip_append1)
  then have "zip (lo @ k # hi) rs = zip lo (take (length lo) rs) @ (k, ?r) # zip hi (drop (Suc (length lo)) rs)" using d by simp
  moreover have "zip (lo @ hi) (take (length lo) rs @ drop (Suc (length lo)) rs) =
      zip lo (take (length lo) rs) @ zip hi (drop (Suc (length lo)) rs)" using l by simp
  moreover have "map_of (zip lo (take (length lo) rs)) k = None" "map_of (zip hi (drop (Suc (length lo)) rs)) k = None"
    using assms(2,3) by (auto simp: map_of_eq_None_iff dest: set_zip_leftD)
  ultimately show ?thesis by (auto simp: map_add_def fun_eq_iff split: option.splits)
qed

lemma keys_of_one: "length key = klen h \<Longrightarrow> keys_of h 1 key = [key]"
  by (simp add: keys_of_def)

lemma nd_insert_lists:
  assumes dm: "ix_dims h" and ex: "ix_exact h" and ok: "nd_ok h d" and srt: "nd_sorted h d"
    and room: "nd_get_size d < ix_order h" and len: "length key = klen h" and r: "rid_ok r" and new: "key \<notin> set (nd_keys h d)"
  obtains d' lo hi where "nd_insert h d key r = Inr d'" "nd_ok h d'" "nd_sorted h d'" "same_links d d'"
    "nd_get_size d' = nd_get_size d + 1" "nd_keys h d = lo @ hi" "nd_keys h d' = lo @ [key] @ hi"
    "nd_rids h d' = take (length lo) (nd_rids h d) @ [r] @ drop (length lo) (nd_rids h d)"
    "\<And>k. k \<in> set lo \<Longrightarrow> krank h k < krank h key" "\<And>k. k \<in> set hi \<Longrightarrow> krank h key < krank h k"
proof -
  obtain j lo hi where p: "nd_lower_bound h d key = Inr (int j)" "nd_keys h d = lo @ hi" "length lo = j"
    "\<And>k. k \<in> set lo \<Longrightarrow> krank h k < krank h key" "\<And>k. k \<in> set hi \<Longrightarrow> krank h key \<le> krank h k"
    "int j < nd_get_size d \<longleftrightarrow> hi \<noteq> []" "hi \<noteq> [] \<Longrightarrow> nd_key_is h d (int j) key \<longleftrightarrow> hd hi = key"
    "key \<in> set (nd_keys h d) \<longleftrightarrow> hi \<noteq> [] \<and> hd hi = key" by (rule nd_position [OF dm ex ok srt len]) blast
  have sz: "0 \<le> nd_get_size d" "nd_get_size d \<le> ix_order h" using ok by (simp_all add: nd_ok_def)
  have j: "int j \<le> nd_get_size d" using arg_cong [OF p(2), of length] p(3) sz by simp
  obtain d' where i: "nd_insert_pairs h d (int j) key [r] 1 = Inr d'" "nd_ok h d'" "same_links d d'"
    "nd_get_size d' = nd_get_size d + int 1"
    "nd_keys h d' = take (nat (int j)) (nd_keys h d) @ keys_of h 1 key @ drop (nat (int j)) (nd_keys h d)"
    "nd_rids h d' = take (nat (int j)) (nd_rids h d) @ [r] @ drop (nat (int j)) (nd_rids h d)"
    by (rule nd_insert_pairs_lists [OF dm ok _ j, where n = 1 and key = key and rids = "[r]"]) (use room len r in simp_all)
  have gt: "krank h key < krank h k" if "k \<in> set hi" for k
  proof -
    have "length k = klen h" by (rule nd_key_lengths(1) [OF dm ok]) (use that p(2) in simp)
    moreover have "k \<noteq> key" using new that p(2) by auto
    ultimately have "krank h key \<noteq> krank h k" using ix_exactD(2) [OF ex len, of k] by auto
    then show ?thesis using p(5) [OF that] by simp
  qed
  have keys: "nd_keys h d' = lo @ [key] @ hi" using i(5) p(2,3) keys_of_one [OF len] by simp
  have "nd_sorted h d'"
    using srt p(4) gt ix_exactD(1) [OF ex len] unfolding nd_sorted_def keys p(2) by (auto simp: sorted_wrt_append less_imp_le)
  moreover have "nd_insert h d key r = Inr d'" using i(1) p(1,6,7,8) new sz by (auto simp: nd_insert_def)
  ultimately show ?thesis using i p gt keys by (intro that [of d' lo hi]) simp_all
qed

lemma nd_insert_present:
  assumes dm: "ix_dims h" and ex: "ix_exact h" and ok: "nd_ok h d" and srt: "nd_sorted h d" and len: "length key = klen h"
    and old: "key \<in> set (nd_keys h d)"
  shows "nd_insert h d key r = Inr d"
proof -
  obtain j lo hi where p: "nd_lower_bound h d key = Inr (int j)"
    "int j < nd_get_size d \<longleftrightarrow> hi \<noteq> []" "hi \<noteq> [] \<Longrightarrow> nd_key_is h d (int j) key \<longleftrightarrow> hd hi = key"
    "key \<in> set (nd_keys h d) \<longleftrightarrow> hi \<noteq> [] \<and> hd hi = key" by (rule nd_position [OF dm ex ok srt len]) blast
  then show ?thesis using old ok by (auto simp: nd_insert_def nd_ok_def)
qed

text \<open>
  Insertion into a node: a node with fewer than \<^verbatim>\<open>btree_order_\<close> keys gets the pair at its
  place in the order, unless the key is there already, in which case the node is unchanged. The
  links to other pages are kept and no slot outside the page's arrays is touched.
\<close>

lemma nd_insert_correct:
  assumes "ix_dims h" and "ix_exact h" and "nd_ok h d" and "nd_sorted h d" and "nd_get_size d < ix_order h"
    and "length key = klen h" and "rid_ok r"
  shows "\<exists>d'. nd_insert h d key r = Inr d' \<and> nd_ok h d' \<and> nd_sorted h d' \<and> same_links d d' \<and>
    nd_map h d' = (if key \<in> dom (nd_map h d) then nd_map h d else (nd_map h d)(key \<mapsto> r))"
proof (cases "key \<in> set (nd_keys h d)")
  case True
  then show ?thesis using nd_insert_present [OF assms(1-4,6) True] assms(3,4) by (simp add: nd_map_in same_links_def)
next
  case False
  obtain d' lo hi where i: "nd_insert h d key r = Inr d'" "nd_ok h d'" "nd_sorted h d'" "same_links d d'"
    "nd_keys h d = lo @ hi" "nd_keys h d' = lo @ [key] @ hi"
    "nd_rids h d' = take (length lo) (nd_rids h d) @ [r] @ drop (length lo) (nd_rids h d)"
    by (rule nd_insert_lists [OF assms False]) blast
  have "length (nd_rids h d) = length (lo @ hi)" unfolding i(5) [symmetric] by simp
  then have "nd_map h d' = (nd_map h d)(key \<mapsto> r)"
    using map_of_zip_insert [of "nd_rids h d" lo hi key r] False unfolding nd_map_def i(6,7) i(5) by simp
  then show ?thesis using i False by (simp add: nd_map_in)
qed

lemma nd_remove_lists:
  assumes dm: "ix_dims h" and ex: "ix_exact h" and ok: "nd_ok h d" and srt: "nd_sorted h d" and len: "length key = klen h"
  obtains lo hi where "nd_keys h d = lo @ hi" "key \<in> set (nd_keys h d) \<longleftrightarrow> hi \<noteq> [] \<and> hd hi = key"
    "nd_lower_bound h d key = Inr (int (length lo))"
    "nd_remove h d key rid = (if hi \<noteq> [] \<and> hd hi = key \<and> (rid = None \<or> rid = Some (nd_rids h d ! length lo))
       then nd_erase_pair h d (int (length lo)) else Inr d)"
proof -
  obtain j lo hi where p: "nd_lower_bound h d key = Inr (int j)" "nd_keys h d = lo @ hi" "length lo = j"
    "\<And>k. k \<in> set hi \<Longrightarrow> krank h key \<le> krank h k" "int j < nd_get_size d \<longleftrightarrow> hi \<noteq> []"
    "key \<in> set (nd_keys h d) \<longleftrightarrow> hi \<noteq> [] \<and> hd hi = key" by (rule nd_position [OF dm ex ok srt len]) blast
  have "nd_remove h d key rid = (if hi \<noteq> [] \<and> hd hi = key \<and> (rid = None \<or> rid = Some (nd_rids h d ! j))
       then nd_erase_pair h d (int j) else Inr d)"
  proof (cases "hi = []")
    case True
    then show ?thesis using p(1,5) by (simp add: nd_remove_def)
  next
    case False
    then have jn: "int j < nd_get_size d" using p(5) by simp
    have kj: "nd_keys h d ! j = hd hi" using False p(2,3) by (simp add: nth_append hd_conv_nth)
    have rj: "nd_get_rid h d (int j) = nd_rids h d ! j"
      using jn by (simp add: nd_get_rid_slot [OF dm] nd_rids_def nat_less_iff)
    have "ix_compare (nd_get_key h d (int j)) key (ix_col_types h) (ix_col_lens h) = Inr (cmp3 (krank h (hd hi)) (krank h key))"
      using nd_compare [OF srt ix_exactD(1) [OF ex len] _ jn] kj by simp
    moreover have "cmp3 (krank h (hd hi)) (krank h key) = 0 \<longleftrightarrow> hd hi = key"
    proof -
      have "length (hd hi) = klen h" by (rule nd_key_lengths(1) [OF dm ok]) (use False p(2) in simp)
      then show ?thesis using ix_exactD(2) [OF ex, of "hd hi" key] len by auto
    qed
    ultimately show ?thesis using False jn p(1) rj by (simp add: nd_remove_def)
  qed
  then show ?thesis using p(1,2,3,6) by (intro that [of lo hi]) (simp_all only: p(3))
qed

text \<open>
  Removal from a node: the pair with the given key, and the given identifier if there is one,
  is removed and every other pair kept.
\<close>

lemma nd_remove_correct:
  assumes "ix_dims h" and "ix_exact h" and "nd_ok h d" and "nd_sorted h d" and "length key = klen h"
  shows "\<exists>d'. nd_remove h d key rid = Inr d' \<and> nd_ok h d' \<and> nd_sorted h d' \<and> same_links d d' \<and>
    nd_map h d' = (if rid = None \<or> rid = nd_map h d key then (nd_map h d)(key := None) else nd_map h d)"
proof -
  obtain lo hi where p: "nd_keys h d = lo @ hi" "key \<in> set (nd_keys h d) \<longleftrightarrow> hi \<noteq> [] \<and> hd hi = key"
    "nd_remove h d key rid = (if hi \<noteq> [] \<and> hd hi = key \<and> (rid = None \<or> rid = Some (nd_rids h d ! length lo))
       then nd_erase_pair h d (int (length lo)) else Inr d)" by (rule nd_remove_lists [OF assms])
  have sz: "0 \<le> nd_get_size d" using assms(3) by (simp add: nd_ok_def)
  show ?thesis
  proof (cases "hi \<noteq> [] \<and> hd hi = key")
    case False
    then have "nd_map h d key = None" using p(2) nd_map_in [of key h d] by auto
    then show ?thesis using False p(3) assms(3,4) by (auto simp: same_links_def fun_upd_idem)
  next
    case True
    then obtain hi' where hi: "hi = key # hi'" by (cases hi) auto
    have lr: "length (nd_rids h d) = length (lo @ key # hi')" using p(1) hi length_nd_lists by metis
    have "distinct (map (krank h) (nd_keys h d))" using assms(4) by (simp add: nd_sorted_def strict_sorted_iff)
    then have dist: "distinct (nd_keys h d)" by (simp add: distinct_map)
    have nk: "key \<notin> set lo" "key \<notin> set hi'" using dist p(1) hi by auto
    have m: "nd_map h d key = Some (nd_rids h d ! length lo)"
    proof -
      have "zip (lo @ key # hi') (nd_rids h d) = zip lo (take (length lo) (nd_rids h d)) @ zip (key # hi') (drop (length lo) (nd_rids h d))"
        by (simp add: zip_append1)
      moreover have "drop (length lo) (nd_rids h d) = nd_rids h d ! length lo # drop (Suc (length lo)) (nd_rids h d)"
        using lr by (simp add: Cons_nth_drop_Suc)
      moreover have "map_of (zip lo (take (length lo) (nd_rids h d))) key = None"
        using nk(1) by (auto simp: map_of_eq_None_iff dest: set_zip_leftD)
      ultimately show ?thesis unfolding nd_map_def p(1) hi by (simp add: map_add_def)
    qed
    show ?thesis
    proof (cases "rid = None \<or> rid = Some (nd_rids h d ! length lo)")
      case False
      then show ?thesis using p(3) assms(3,4) m by (auto simp: same_links_def)
    next
      case match: True
      have lt: "int (length lo) < nd_get_size d" using arg_cong [OF p(1), of length] hi sz by simp
      obtain d' where e: "nd_erase_pair h d (int (length lo)) = Inr d'" "nd_ok h d'" "same_links d d'"
        "nd_keys h d' = take (nat (int (length lo))) (nd_keys h d) @ drop (Suc (nat (int (length lo)))) (nd_keys h d)"
        "nd_rids h d' = take (nat (int (length lo))) (nd_rids h d) @ drop (Suc (nat (int (length lo)))) (nd_rids h d)"
        by (rule nd_erase_pair_lists [OF assms(1,3) of_nat_0_le_iff lt]) blast
      have ks: "nd_keys h d' = lo @ hi'" using e(4) p(1) hi by simp
      have "nd_sorted h d'" using assms(4) unfolding nd_sorted_def ks p(1) hi by (auto simp: sorted_wrt_append)
      moreover have "nd_map h d' = (nd_map h d)(key := None)"
        using map_of_zip_remove [OF lr nk] e(5) unfolding nd_map_def ks p(1) hi by simp
      ultimately show ?thesis using e p(3) True match m by auto
    qed
  qed
qed

lemma sample_nd_facts: "ix_dims sample_nd_hdr" "ix_exact sample_nd_hdr" "klen sample_nd_hdr = 4" "ix_order sample_nd_hdr = 338"
  by (simp_all add: sample_nd_hdr_def new_ix_file_hdr_def update_tot_len_def ix_dims_def ix_exact_def)

lemma empty_node: "nd_get_size (replicate PAGE_SIZE 0) = 0" "nd_ok sample_nd_hdr (replicate PAGE_SIZE 0)"
  "nd_sorted sample_nd_hdr (replicate PAGE_SIZE 0)" "nd_map sample_nd_hdr (replicate PAGE_SIZE 0) = Map.empty"
proof -
  have "le_dec (replicate n 0) = 0" for n by (induction n) simp_all
  then show s: "nd_get_size (replicate PAGE_SIZE 0) = 0"
    by (simp add: nd_get_size_def get_int_def mem_read_def dec_int_def wrap32_id)
  then show "nd_ok sample_nd_hdr (replicate PAGE_SIZE 0)" "nd_sorted sample_nd_hdr (replicate PAGE_SIZE 0)"
    "nd_map sample_nd_hdr (replicate PAGE_SIZE 0) = Map.empty"
    by (simp_all add: nd_ok_def nd_sorted_def nd_map_def nd_keys_def sample_nd_facts(4))
qed

lemma sample_one_key:
  obtains d where "nd_ok sample_nd_hdr d" "nd_sorted sample_nd_hdr d" "nd_keys sample_nd_hdr d = [enc_int 5]"
    "nd_rids sample_nd_hdr d = [mk_rid 1 2]" "nd_get_size d = 1"
proof -
  have k: "nd_keys sample_nd_hdr (replicate PAGE_SIZE 0) = []" "nd_rids sample_nd_hdr (replicate PAGE_SIZE 0) = []"
    using empty_node(1) by (simp_all add: nd_keys_def nd_rids_def)
  obtain d lo hi where "nd_ok sample_nd_hdr d" "nd_sorted sample_nd_hdr d" "nd_get_size d = nd_get_size (replicate PAGE_SIZE 0) + 1"
    "nd_keys sample_nd_hdr (replicate PAGE_SIZE 0) = lo @ hi" "nd_keys sample_nd_hdr d = lo @ [enc_int 5] @ hi"
    "nd_rids sample_nd_hdr d = take (length lo) (nd_rids sample_nd_hdr (replicate PAGE_SIZE 0)) @ [mk_rid 1 2] @
       drop (length lo) (nd_rids sample_nd_hdr (replicate PAGE_SIZE 0))"
    by (rule nd_insert_lists [OF sample_nd_facts(1,2) empty_node(2,3), of "enc_int 5" "mk_rid 1 2"])
      (use empty_node(1) sample_nd_facts(3,4) k in \<open>simp_all add: rid_ok_def\<close>)
  then show ?thesis using that k empty_node(1) by simp
qed

section \<open>Lookup in a leaf\<close>

lemma nd_map_nth:
  assumes "nd_sorted h d" "i < nat (nd_get_size d)"
  shows "nd_map h d (nd_keys h d ! i) = Some (nd_rids h d ! i)"
proof -
  have "distinct (map (krank h) (nd_keys h d))" using assms(1) by (simp add: nd_sorted_def strict_sorted_iff)
  then have "distinct (nd_keys h d)" by (simp add: distinct_map)
  then show ?thesis using assms(2) by (simp add: nd_map_def map_of_zip_nth)
qed

text \<open>Lookup in a leaf is right for a key that is not greater than every key of the leaf.\<close>

lemma nd_leaf_lookup_correct:
  assumes "ix_dims h" and "ix_exact h" and "nd_ok h d" and "nd_sorted h d" and "length key = klen h"
    and "\<exists>k\<in>set (nd_keys h d). krank h key \<le> krank h k"
  shows "nd_leaf_lookup h d key = Inr (nd_map h d key)"
proof -
  obtain j lo hi where p: "nd_lower_bound h d key = Inr (int j)" "nd_keys h d = lo @ hi" "length lo = j"
    "\<And>k. k \<in> set lo \<Longrightarrow> krank h k < krank h key"
    "int j < nd_get_size d \<longleftrightarrow> hi \<noteq> []" "hi \<noteq> [] \<Longrightarrow> nd_key_is h d (int j) key \<longleftrightarrow> hd hi = key"
    "key \<in> set (nd_keys h d) \<longleftrightarrow> hi \<noteq> [] \<and> hd hi = key" by (rule nd_position [OF assms(1-5)]) blast
  have ne: "hi \<noteq> []" using assms(6) p(2) p(4) leD by fastforce
  then have jn: "j < nat (nd_get_size d)" using p(5) by simp
  have kj: "nd_keys h d ! j = hd hi" using ne p(2,3) by (simp add: nth_append hd_conv_nth)
  have rj: "nd_get_rid h d (int j) = nd_rids h d ! j" using jn by (simp add: nd_get_rid_slot [OF assms(1)] nd_rids_def)
  show ?thesis
  proof (cases "hd hi = key")
    case True
    then show ?thesis using p(1,6) ne rj kj nd_map_nth [OF assms(4) jn] by (simp add: nd_leaf_lookup_def)
  next
    case False
    then have "nd_map h d key = None" using p(7) nd_map_in [of key h d] by auto
    then show ?thesis using p(1,6) ne False by (simp add: nd_leaf_lookup_def)
  qed
qed

text \<open>
  A removed key is still found: \<^verbatim>\<open>leaf_lookup\<close> does not test the position against the number of
  keys, and removing the last key of a leaf leaves its bytes in place. After the removal the
  lookup of the key succeeds with the old identifier, although the leaf does not contain it.
\<close>

lemma nd_lookup_finds_removed:
  assumes "ix_dims h" and "ix_exact h" and "nd_ok h d" and "nd_sorted h d" and "length key = klen h"
    and "nd_keys h d = lo @ [key]"
  shows "\<exists>d'. nd_remove h d key None = Inr d' \<and> nd_map h d' key = None \<and> nd_leaf_lookup h d' key = Inr (nd_map h d key)"
proof -
  let ?j = "length lo"
  have sz: "nd_get_size d = int ?j + 1" using arg_cong [OF assms(6), of length] assms(3) by (simp add: nd_ok_def)
  have jn: "?j < nslots h" using assms(3) sz unfolding nd_ok_def by linarith
  obtain lo' hi where p: "nd_keys h d = lo' @ hi" "key \<in> set (nd_keys h d) \<longleftrightarrow> hi \<noteq> [] \<and> hd hi = key"
    "nd_remove h d key None = (if hi \<noteq> [] \<and> hd hi = key then nd_erase_pair h d (int (length lo')) else Inr d)"
    by (rule nd_remove_lists [OF assms(1-5), where rid = None]) simp
  have "distinct (map (krank h) (nd_keys h d))" using assms(4) by (simp add: nd_sorted_def strict_sorted_iff)
  then have dist: "distinct (nd_keys h d)" by (simp add: distinct_map)
  have hi: "hi = [key]" "lo' = lo"
  proof -
    have "hi \<noteq> [] \<and> hd hi = key" using p(2) assms(6) by simp
    then obtain xs where x: "hi = key # xs" by (cases hi) auto
    then have e: "lo' @ key # xs = lo @ [key]" using p(1) assms(6) by simp
    have n: "key \<notin> set lo" using dist unfolding assms(6) by simp
    have n': "key \<notin> set lo'" "key \<notin> set xs" using dist unfolding p(1) x by simp_all
    have "lo' = lo \<and> xs = []" using append_Cons_eq_iff [of key lo' xs lo "[]"] e n n' by simp
    then show "hi = [key]" "lo' = lo" using x by simp_all
  qed
  have lt: "int ?j < nd_get_size d" using sz by simp
  obtain d' where e: "nd_erase_pair h d (int ?j) = Inr d'" "nd_ok h d'" "nd_get_size d' = nd_get_size d - 1"
    "nd_keys h d' = take (nat (int ?j)) (nd_keys h d) @ drop (Suc (nat (int ?j))) (nd_keys h d)"
    "\<And>i. nat (nd_get_size d) \<le> Suc i \<Longrightarrow> i < nslots h \<Longrightarrow> slot d' 24 (klen h) i = slot d 24 (klen h) i \<and> slot d' (rid_base h) 8 i = slot d (rid_base h) 8 i"
    by (rule nd_erase_pair_lists [OF assms(1,3) of_nat_0_le_iff lt]) blast
  have ks: "nd_keys h d' = lo" using e(4) assms(6) by simp
  have stale: "slot d' 24 (klen h) ?j = key" "slot d' (rid_base h) 8 ?j = slot d (rid_base h) 8 ?j"
  proof -
    have "nd_keys h d ! ?j = key" using assms(6) by simp
    then have "slot d 24 (klen h) ?j = key" using sz by (simp add: nd_keys_def nat_add_distrib nth_append)
    then show "slot d' 24 (klen h) ?j = key" "slot d' (rid_base h) 8 ?j = slot d (rid_base h) 8 ?j"
      using e(5) [OF _ jn] sz by (simp_all add: nat_add_distrib)
  qed
  have srt: "nd_sorted h d'" using assms(4) unfolding nd_sorted_def ks assms(6) by (simp add: sorted_wrt_append)
  have "filter (\<lambda>k. krank h k < krank h key) lo = lo"
    using assms(4) unfolding nd_sorted_def assms(6) by (auto simp: sorted_wrt_append intro: filter_True)
  then have lb: "nd_lower_bound h d' key = Inr (int ?j)"
    using nd_bounds_correct_lower [OF srt _ ix_exactD(1) [OF assms(2,5)]] e(3) sz ks by simp
  have "nd_key_is h d' (int ?j) key" unfolding nd_key_is_def nd_get_key_slot stale(1) using memcmp_zero assms(5) by simp
  moreover have "nd_get_rid h d' (int ?j) = nd_rids h d ! ?j"
    using sz stale(2) by (simp add: nd_get_rid_slot [OF assms(1)] nd_rids_def nat_add_distrib nth_append)
  moreover have "nd_map h d key = Some (nd_rids h d ! ?j)"
    using nd_map_nth [OF assms(4), of ?j] sz assms(6) by (simp add: nat_add_distrib)
  ultimately have "nd_leaf_lookup h d' key = Inr (nd_map h d key)" using lb by (simp add: nd_leaf_lookup_def)
  moreover have "nd_map h d' key = None"
    using nd_map_in [of key h d'] dist unfolding ks assms(6) by auto
  ultimately show ?thesis using e(1) p(3) hi by simp
qed

end
