(* ===== verification/Ix_Tree.thy ===== *)
theory Ix_Tree
  imports Ix_Node
begin

text \<open>
  The B+ tree (\<^verbatim>\<open>IxIndexHandle\<close> of \<^verbatim>\<open>src/src/index/ix_index_handle.{h,cpp}\<close>) and the scan over its
  leaves (\<^verbatim>\<open>src/src/index/ix_scan.{h,cpp}\<close>): every operation, on the pages of the index file as
  the buffer pool presents them. The pool is taken at its contract (\<open>Page_Store\<close>): a page that is
  fetched has the bytes last stored, whether it was evicted in between or not; pins are counted,
  since the code loses some. A frame is free for every page that is fetched or created. Reading a page
  that the file does not have fails, but only after the pool has entered the page with a zeroed
  frame: the next fetch of that page succeeds and finds zeros.

  Loops that follow page numbers found in pages, and the recursions up the tree, take fuel: running
  out of it is the result \<open>None\<close>.
\<close>

section \<open>The state and its primitive operations\<close>

record ix_handle =
  ih_fd :: int
  ih_hdr :: ix_file_hdr
  ih_pages :: "int \<rightharpoonup> bytes"
  ih_pins :: "int \<Rightarrow> int"
  ih_next :: int

type_synonym 'a ixm = "ix_handle \<Rightarrow> ((rmdb_error + 'a) \<times> ix_handle) option"

definition ix_ret :: "'a \<Rightarrow> 'a ixm" where "ix_ret x s = Some (Inr x, s)"
definition ix_throw :: "rmdb_error \<Rightarrow> 'a ixm" where "ix_throw e s = Some (Inl e, s)"

definition ix_bind :: "'a ixm \<Rightarrow> ('a \<Rightarrow> 'b ixm) \<Rightarrow> 'b ixm" where
  "ix_bind m f s =
    (case m s of
       None \<Rightarrow> None
     | Some (Inl e, s') \<Rightarrow> Some (Inl e, s')
     | Some (Inr x, s') \<Rightarrow> f x s')"

definition ix_lift :: "rmdb_error + 'a \<Rightarrow> 'a ixm" where
  "ix_lift r s = Some (r, s)"

definition ix_hdr :: "ix_file_hdr ixm" where "ix_hdr s = Some (Inr (ih_hdr s), s)"
definition ix_set_hdr :: "ix_file_hdr \<Rightarrow> unit ixm" where "ix_set_hdr h s = Some (Inr (), s\<lparr>ih_hdr := h\<rparr>)"

text \<open>The bytes of a page a node handle points to, and a store through the handle.\<close>

definition node_page :: "int \<Rightarrow> bytes ixm" where
  "node_page p s = (case ih_pages s p of None \<Rightarrow> Some (Inl NullDeref, s) | Some d \<Rightarrow> Some (Inr d, s))"

definition set_page :: "int \<Rightarrow> bytes \<Rightarrow> unit ixm" where
  "set_page p d s = Some (Inr (), s\<lparr>ih_pages := (ih_pages s)(p \<mapsto> d)\<rparr>)"

definition fetch_node :: "int \<Rightarrow> unit ixm" where
  "fetch_node p s =
    (case ih_pages s p of
       None \<Rightarrow> Some (Inl (InternalError (if p < 0 then ''Failed to seek to page location'' else ''DiskManager::read_page Error'')),
         s\<lparr>ih_pages := (ih_pages s)(p \<mapsto> replicate PAGE_SIZE 0)\<rparr>)
     | Some d \<Rightarrow> Some (Inr (), s\<lparr>ih_pins := (ih_pins s)(p := ih_pins s p + 1)\<rparr>))"

definition unpin_node :: "int \<Rightarrow> unit ixm" where
  "unpin_node p s = Some (Inr (), s\<lparr>ih_pins := (ih_pins s)(p := (if ih_pins s p > 0 then ih_pins s p - 1 else ih_pins s p))\<rparr>)"

definition create_node :: "int ixm" where
  "create_node s =
    Some (Inr (ih_next s),
      s\<lparr>ih_hdr := (ih_hdr s)\<lparr>ix_num_pages := wrap32 (ix_num_pages (ih_hdr s) + 1)\<rparr>, ih_next := wrap32 (ih_next s + 1),
        ih_pages := (ih_pages s)(ih_next s \<mapsto> replicate PAGE_SIZE 0), ih_pins := (ih_pins s)(ih_next s := 1)\<rparr>)"

definition update_node :: "int \<Rightarrow> (bytes \<Rightarrow> bytes) \<Rightarrow> unit ixm" where
  "update_node p f = ix_bind (node_page p) (\<lambda>d. set_page p (f d))"

fun ix_for :: "nat list \<Rightarrow> (nat \<Rightarrow> unit ixm) \<Rightarrow> unit ixm" where
  "ix_for [] f = ix_ret ()"
| "ix_for (i # is) f = ix_bind (f i) (\<lambda>_. ix_for is f)"

section \<open>Searching\<close>

fun descend :: "nat \<Rightarrow> bytes \<Rightarrow> int \<Rightarrow> int ixm" where
  "descend 0 key p = (\<lambda>s. None)"
| "descend (Suc k) key p =
    ix_bind ix_hdr (\<lambda>h.
    ix_bind (node_page p) (\<lambda>d.
      if nd_is_leaf d then ix_ret p
      else
        ix_bind (ix_lift (nd_internal_lookup h d key)) (\<lambda>child.
        ix_bind (fetch_node child) (\<lambda>_.
        ix_bind (unpin_node p) (\<lambda>_. descend k key child)))))"

definition find_leaf_page :: "nat \<Rightarrow> bytes \<Rightarrow> int ixm" where
  "find_leaf_page k key =
    ix_bind ix_hdr (\<lambda>h.
    ix_bind (fetch_node (ix_root h)) (\<lambda>_. descend k key (ix_root h)))"

definition get_value :: "nat \<Rightarrow> bytes \<Rightarrow> rid option ixm" where
  "get_value k key =
    ix_bind (find_leaf_page k key) (\<lambda>p.
    ix_bind ix_hdr (\<lambda>h.
    ix_bind (node_page p) (\<lambda>d.
    ix_bind (ix_lift (nd_leaf_lookup h d key)) (\<lambda>res.
    ix_bind (unpin_node p) (\<lambda>_. ix_ret res)))))"

section \<open>Insertion\<close>

definition maintain_child :: "int \<Rightarrow> int \<Rightarrow> unit ixm" where
  "maintain_child p i =
    ix_bind ix_hdr (\<lambda>h.
    ix_bind (node_page p) (\<lambda>d.
      if nd_is_leaf d then ix_ret ()
      else
        let child = nd_value_at h d i in
        ix_bind (fetch_node child) (\<lambda>_.
        ix_bind (update_node child (\<lambda>c. nd_set_parent c p)) (\<lambda>_. unpin_node child))))"

definition split :: "int \<Rightarrow> int ixm" where
  "split p =
    ix_bind create_node (\<lambda>q.
    ix_bind ix_hdr (\<lambda>h.
    ix_bind (node_page p) (\<lambda>d.
    ix_bind (node_page q) (\<lambda>e.
      let size = nat (nd_get_size d);
          mid = size div 2;
          n = size - mid;
          e1 = nd_set_size (nd_set_is_leaf (nd_set_parent e (nd_parent d)) (nd_is_leaf d)) 0
      in
      ix_bind (ix_lift (nd_insert_pairs h e1 0 (mem_read d (key_off h (int mid)) (n * klen h))
                 (map (\<lambda>i. nd_get_rid h d (int i)) [mid..<size]) n)) (\<lambda>e2.
      ix_bind (set_page p (nd_set_size d (int mid))) (\<lambda>_.
        if nd_is_leaf d
        then
          let next = nd_next_leaf d in
          ix_bind (set_page q (nd_set_next_leaf (nd_set_prev_leaf e2 p) next)) (\<lambda>_.
          ix_bind (update_node p (\<lambda>x. nd_set_next_leaf x q)) (\<lambda>_.
          ix_bind (fetch_node next) (\<lambda>_.
          ix_bind (update_node next (\<lambda>x. nd_set_prev_leaf x q)) (\<lambda>_.
          ix_bind (unpin_node next) (\<lambda>_. ix_ret q)))))
        else
          ix_bind (set_page q e2) (\<lambda>_.
          ix_bind (ix_for [0..<n] (\<lambda>i. maintain_child q (int i))) (\<lambda>_. ix_ret q))))))))"

fun insert_into_parent :: "nat \<Rightarrow> int \<Rightarrow> bytes \<Rightarrow> int \<Rightarrow> unit ixm" where
  "insert_into_parent 0 old key new = (\<lambda>s. None)"
| "insert_into_parent (Suc k) old key new =
    ix_bind ix_hdr (\<lambda>h.
    ix_bind (node_page old) (\<lambda>d.
      if nd_is_root d
      then
        ix_bind create_node (\<lambda>r.
        ix_bind (node_page r) (\<lambda>e.
        ix_bind (node_page new) (\<lambda>dn.
          let e1 = nd_set_parent (nd_set_is_leaf e False) INVALID_PAGE_ID in
          ix_bind (ix_lift (nd_insert_pair h e1 0 (nd_get_key h d 0) (mk_rid old (- 1)))) (\<lambda>e2.
          ix_bind (ix_lift (nd_insert_pair h e2 1 (nd_get_key h dn 0) (mk_rid new (- 1)))) (\<lambda>e3.
          ix_bind (set_page r e3) (\<lambda>_.
          ix_bind (update_node old (\<lambda>x. nd_set_parent x r)) (\<lambda>_.
          ix_bind (update_node new (\<lambda>x. nd_set_parent x r)) (\<lambda>_.
          ix_bind ix_hdr (\<lambda>h'.
          ix_bind (ix_set_hdr (h'\<lparr>ix_root := r\<rparr>)) (\<lambda>_. unpin_node r))))))))))
      else
        let parent = nd_parent d in
        ix_bind (fetch_node parent) (\<lambda>_.
        ix_bind (node_page parent) (\<lambda>dp.
        ix_bind (ix_lift (nd_insert h dp key (mk_rid new (- 1)))) (\<lambda>dp'.
        ix_bind (set_page parent dp') (\<lambda>_.
        ix_bind (unpin_node parent) (\<lambda>_.
          if nd_get_size dp' = ix_order h
          then
            ix_bind (split parent) (\<lambda>new_parent.
            ix_bind (node_page new_parent) (\<lambda>dq.
            ix_bind (insert_into_parent k parent (nd_get_key h dq 0) new_parent) (\<lambda>_. unpin_node new_parent)))
          else ix_ret ())))))))"

text \<open>
  \<^verbatim>\<open>maintain_parent\<close>: the loop of node and parent. The handle of an inner node is unpinned when the
  loop has moved on to its parent; the last one is not.
\<close>

fun maintain_loop :: "nat \<Rightarrow> bool \<Rightarrow> int \<Rightarrow> unit ixm" where
  "maintain_loop 0 first cur = (\<lambda>s. None)"
| "maintain_loop (Suc k) first cur =
    ix_bind ix_hdr (\<lambda>h.
    ix_bind (node_page cur) (\<lambda>d.
      if nd_parent d = IX_NO_PAGE then ix_ret ()
      else
        let parent = nd_parent d in
        ix_bind (fetch_node parent) (\<lambda>_.
        ix_bind (node_page parent) (\<lambda>dp.
        ix_bind (ix_lift (nd_find_child h dp cur)) (\<lambda>rank.
          if memcmp_bytes (nd_get_key h dp rank) (nd_get_key h d 0) (klen h) = 0 then unpin_node parent
          else
            ix_bind (set_page parent (nd_set_key h dp rank (nd_get_key h d 0))) (\<lambda>_.
            ix_bind (if first then ix_ret () else unpin_node cur) (\<lambda>_. maintain_loop k False parent)))))))"

definition maintain_parent :: "nat \<Rightarrow> int \<Rightarrow> unit ixm" where
  "maintain_parent k p = maintain_loop k True p"

definition insert_entry :: "nat \<Rightarrow> bytes \<Rightarrow> rid \<Rightarrow> (int \<times> bool) ixm" where
  "insert_entry k key r =
    ix_bind (find_leaf_page k key) (\<lambda>p.
    ix_bind ix_hdr (\<lambda>h.
    ix_bind (node_page p) (\<lambda>d.
    ix_bind (ix_lift (nd_insert h d key r)) (\<lambda>d'.
    ix_bind (set_page p d') (\<lambda>_.
      if nd_get_size d' = nd_get_size d
      then ix_bind (unpin_node p) (\<lambda>_. ix_ret (p, False))
      else
        ix_bind (if nd_key_is h d' 0 key then maintain_parent k p else ix_ret ()) (\<lambda>_.
        ix_bind (if nd_get_size d' = ix_order h
                 then
                   ix_bind (split p) (\<lambda>q.
                   ix_bind (node_page q) (\<lambda>dq.
                   ix_bind (insert_into_parent k p (nd_get_key h dq 0) q) (\<lambda>_.
                   ix_bind ix_hdr (\<lambda>h'.
                   ix_bind (if ix_last_leaf h' = p then ix_set_hdr (h'\<lparr>ix_last_leaf := q\<rparr>) else ix_ret ()) (\<lambda>_.
                     unpin_node q)))))
                 else ix_ret ()) (\<lambda>_.
        ix_bind (unpin_node p) (\<lambda>_. ix_ret (p, True)))))))))"

section \<open>Deletion\<close>

definition release_node_handle :: "int \<Rightarrow> unit ixm" where
  "release_node_handle p =
    ix_bind ix_hdr (\<lambda>h.
    ix_bind (ix_set_hdr (h\<lparr>ix_num_pages := ix_num_pages h - 1\<rparr>)) (\<lambda>_. unpin_node p))"

definition erase_leaf :: "int \<Rightarrow> unit ixm" where
  "erase_leaf p =
    ix_bind (node_page p) (\<lambda>d.
      if \<not> nd_is_leaf d then ix_throw AssertFailure
      else
        let prev = nd_prev_leaf d; next = nd_next_leaf d in
        ix_bind (fetch_node prev) (\<lambda>_.
        ix_bind (update_node prev (\<lambda>x. nd_set_next_leaf x next)) (\<lambda>_.
        ix_bind (unpin_node prev) (\<lambda>_.
        ix_bind (fetch_node next) (\<lambda>_.
        ix_bind (update_node next (\<lambda>x. nd_set_prev_leaf x prev)) (\<lambda>_. unpin_node next))))))"

definition adjust_root :: "int \<Rightarrow> bool ixm" where
  "adjust_root p =
    ix_bind ix_hdr (\<lambda>h.
    ix_bind (node_page p) (\<lambda>d.
      if nd_is_leaf d
      then
        if nd_get_size d = 0
        then
          ix_bind (release_node_handle p) (\<lambda>_.
          ix_bind ix_hdr (\<lambda>h'.
          ix_bind (ix_set_hdr (h'\<lparr>ix_root := INVALID_PAGE_ID\<rparr>)) (\<lambda>_. ix_ret True)))
        else ix_ret False
      else if nd_get_size d = 1
      then
        let child = nd_value_at h d 0 in
        ix_bind (fetch_node child) (\<lambda>_.
        ix_bind (update_node child (\<lambda>x. nd_set_parent x INVALID_PAGE_ID)) (\<lambda>_.
        ix_bind (ix_set_hdr (h\<lparr>ix_root := child\<rparr>)) (\<lambda>_.
        ix_bind (unpin_node child) (\<lambda>_. ix_ret True))))
      else ix_ret False))"

text \<open>\<open>nb\<close> is the neighbour; for index 0 it is the right one, otherwise the left one.\<close>

definition redistribute :: "int \<Rightarrow> int \<Rightarrow> int \<Rightarrow> int \<Rightarrow> unit ixm" where
  "redistribute nb p parent index =
    ix_bind ix_hdr (\<lambda>h.
    ix_bind (node_page nb) (\<lambda>dn.
    ix_bind (node_page p) (\<lambda>d.
      if index = 0
      then
        ix_bind (ix_lift (nd_insert_pairs h d (nd_get_size d) (nd_get_key h dn 0) [nd_get_rid h dn 0] 1)) (\<lambda>d'.
        ix_bind (set_page p d') (\<lambda>_.
        ix_bind (ix_lift (nd_erase_pair h dn 0)) (\<lambda>dn'.
        ix_bind (set_page nb dn') (\<lambda>_.
        ix_bind (update_node parent (\<lambda>x. nd_set_key h x 1 (nd_get_key h dn' 0))) (\<lambda>_.
          maintain_child p (nd_get_size d' - 1))))))
      else
        let last = nd_get_size dn - 1 in
        ix_bind (ix_lift (nd_insert_pairs h d 0 (nd_get_key h dn last) [nd_get_rid h dn last] 1)) (\<lambda>d'.
        ix_bind (set_page p d') (\<lambda>_.
        ix_bind (ix_lift (nd_erase_pair h dn last)) (\<lambda>dn'.
        ix_bind (set_page nb dn') (\<lambda>_.
        ix_bind (update_node parent (\<lambda>x. nd_set_key h x index (nd_get_key h d' 0))) (\<lambda>_.
          maintain_child p 0))))))))"

text \<open>\<^verbatim>\<open>coalesce\<close>; \<open>up\<close> is the recursive call on the parent.\<close>

definition coalesce :: "(int \<Rightarrow> bool ixm) \<Rightarrow> int \<Rightarrow> int \<Rightarrow> int \<Rightarrow> int \<Rightarrow> bool ixm" where
  "coalesce up nb p parent index =
    (let (left, right, i) = (if index = 0 then (p, nb, 1) else (nb, p, index)) in
     ix_bind ix_hdr (\<lambda>h.
     ix_bind (node_page left) (\<lambda>dl.
     ix_bind (node_page right) (\<lambda>dr.
       let size = nd_get_size dl; n = nat (nd_get_size dr) in
       ix_bind (ix_lift (nd_insert_pairs h dl size (mem_read dr (key_off h 0) (n * klen h))
                  (map (\<lambda>j. nd_get_rid h dr (int j)) [0..<n]) n)) (\<lambda>dl'.
       ix_bind (set_page left dl') (\<lambda>_.
       ix_bind (ix_for [nat size..<nat (nd_get_size dl')] (\<lambda>j. maintain_child left (int j))) (\<lambda>_.
       ix_bind (if nd_is_leaf dr
                then
                  ix_bind (if right = ix_last_leaf h then ix_set_hdr (h\<lparr>ix_last_leaf := left\<rparr>) else ix_ret ()) (\<lambda>_.
                    erase_leaf right)
                else ix_ret ()) (\<lambda>_.
       ix_bind (release_node_handle right) (\<lambda>_.
       ix_bind (node_page parent) (\<lambda>dp.
       ix_bind (ix_lift (nd_erase_pair h dp i)) (\<lambda>dp'.
       ix_bind (set_page parent dp') (\<lambda>_.
         if nd_get_size dp' < ix_order h div 2 then up parent else ix_ret False))))))))))))"

fun coalesce_or_redistribute :: "nat \<Rightarrow> int \<Rightarrow> bool ixm" where
  "coalesce_or_redistribute 0 p = (\<lambda>s. None)"
| "coalesce_or_redistribute (Suc k) p =
    ix_bind ix_hdr (\<lambda>h.
    ix_bind (node_page p) (\<lambda>d.
      if nd_is_root d then adjust_root p
      else if nd_get_size d \<ge> ix_order h div 2 then ix_ret False
      else
        let parent = nd_parent d in
        ix_bind (fetch_node parent) (\<lambda>_.
        ix_bind (node_page parent) (\<lambda>dp.
        ix_bind (ix_lift (nd_find_child h dp p)) (\<lambda>index.
          let nb = (if index = 0 then nd_value_at h dp 1 else nd_value_at h dp (index - 1)) in
          ix_bind (fetch_node nb) (\<lambda>_.
          ix_bind (node_page nb) (\<lambda>dn.
            if nd_get_size d + nd_get_size dn \<ge> ix_order h
            then ix_bind (redistribute nb p parent index) (\<lambda>_. ix_ret False)
            else coalesce (coalesce_or_redistribute k) nb p parent index)))))))"

text \<open>
  \<^verbatim>\<open>delete_entry\<close>. The page a merge has emptied is also appended to the transaction's list of
  deleted pages, which nothing reads; the final debug output is left out.
\<close>

definition delete_entry :: "nat \<Rightarrow> bytes \<Rightarrow> rid option \<Rightarrow> bool ixm" where
  "delete_entry k key rid =
    ix_bind (find_leaf_page k key) (\<lambda>p.
    ix_bind ix_hdr (\<lambda>h.
    ix_bind (node_page p) (\<lambda>d.
    ix_bind (ix_lift (nd_remove h d key rid)) (\<lambda>d'.
    ix_bind (set_page p d') (\<lambda>_.
    ix_bind (if nd_key_is h d' 0 key then maintain_parent k p else ix_ret ()) (\<lambda>_.
    ix_bind (coalesce_or_redistribute k p) (\<lambda>res.
    ix_bind (unpin_node p) (\<lambda>_. ix_ret True))))))))"

section \<open>Positions and scans\<close>

record iid =
  iid_page :: int
  iid_slot :: int

definition get_rid :: "iid \<Rightarrow> rid ixm" where
  "get_rid i =
    ix_bind (fetch_node (iid_page i)) (\<lambda>_.
    ix_bind ix_hdr (\<lambda>h.
    ix_bind (node_page (iid_page i)) (\<lambda>d.
      if iid_slot i \<ge> nd_get_size d then ix_throw IndexEntryNotFoundError
      else ix_bind (unpin_node (iid_page i)) (\<lambda>_. ix_ret (nd_get_rid h d (iid_slot i))))))"

text \<open>\<open>bound\<close> is the search in the leaf: \<^verbatim>\<open>lower_bound\<close> or \<^verbatim>\<open>upper_bound\<close>.\<close>

definition ix_bound :: "(ix_file_hdr \<Rightarrow> bytes \<Rightarrow> bytes \<Rightarrow> rmdb_error + int) \<Rightarrow> nat \<Rightarrow> bytes \<Rightarrow> iid ixm" where
  "ix_bound bound k key =
    ix_bind (find_leaf_page k key) (\<lambda>p.
    ix_bind ix_hdr (\<lambda>h.
    ix_bind (node_page p) (\<lambda>d.
    ix_bind (ix_lift (bound h d key)) (\<lambda>pos.
      if pos = nd_get_size d \<and> p \<noteq> ix_last_leaf h
      then
        let next = nd_next_leaf d in
        ix_bind (fetch_node next) (\<lambda>_.
        ix_bind (unpin_node p) (\<lambda>_.
        ix_bind (unpin_node next) (\<lambda>_. ix_ret \<lparr>iid_page = next, iid_slot = 0\<rparr>)))
      else ix_bind (unpin_node p) (\<lambda>_. ix_ret \<lparr>iid_page = p, iid_slot = pos\<rparr>)))))"

definition ix_lower_bound :: "nat \<Rightarrow> bytes \<Rightarrow> iid ixm" where "ix_lower_bound = ix_bound nd_lower_bound"
definition ix_upper_bound :: "nat \<Rightarrow> bytes \<Rightarrow> iid ixm" where "ix_upper_bound = ix_bound nd_upper_bound"

definition leaf_end :: "iid ixm" where
  "leaf_end =
    ix_bind ix_hdr (\<lambda>h.
    ix_bind (fetch_node (ix_last_leaf h)) (\<lambda>_.
    ix_bind (node_page (ix_last_leaf h)) (\<lambda>d.
    ix_bind (unpin_node (ix_last_leaf h)) (\<lambda>_. ix_ret \<lparr>iid_page = ix_last_leaf h, iid_slot = nd_get_size d\<rparr>))))"

definition leaf_begin :: "iid ixm" where
  "leaf_begin = ix_bind ix_hdr (\<lambda>h. ix_ret \<lparr>iid_page = ix_first_leaf h, iid_slot = 0\<rparr>)"

record ix_scan =
  sc_iid :: iid
  sc_end :: iid

definition ix_scan_is_end :: "ix_scan \<Rightarrow> bool" where "ix_scan_is_end c \<longleftrightarrow> sc_iid c = sc_end c"

definition ix_scan_rid :: "ix_scan \<Rightarrow> rid ixm" where "ix_scan_rid c = get_rid (sc_iid c)"

definition ix_scan_next :: "ix_scan \<Rightarrow> ix_scan ixm" where
  "ix_scan_next c =
    (if ix_scan_is_end c then ix_throw AssertFailure
     else
       let p = iid_page (sc_iid c); i = iid_slot (sc_iid c) in
       ix_bind (fetch_node p) (\<lambda>_.
       ix_bind ix_hdr (\<lambda>h.
       ix_bind (node_page p) (\<lambda>d.
         if \<not> nd_is_leaf d then ix_throw AssertFailure
         else if \<not> i < nd_get_size d then ix_throw AssertFailure
         else
           ix_bind (unpin_node p) (\<lambda>_.
             ix_ret (c\<lparr>sc_iid := (if p \<noteq> ix_last_leaf h \<and> i + 1 = nd_get_size d
                                  then \<lparr>iid_page = nd_next_leaf d, iid_slot = 0\<rparr>
                                  else \<lparr>iid_page = p, iid_slot = i + 1\<rparr>)\<rparr>))))))"

end
