(* ===== verification/Sm_Meta.thy ===== *)
theory Sm_Meta
  imports Rmdb_Prelude "HOL-Library.Char_ord" "HOL-Library.List_Lexorder"
begin

text \<open>
  The catalogue of the system manager (\<^verbatim>\<open>src/src/system/sm_meta.h\<close>): columns, indexes, tables
  and the database, the lookups on them, the choice of an index for a list of conditions, and
  the text form in which the catalogue is kept in the file \<^verbatim>\<open>db.meta\<close>. The results are that
  reading back a written catalogue gives the catalogue, that the chosen index is one of those
  with the longest prefix of restricted columns, and the behaviour of the lookups.

  An output stream is the \<open>string\<close> written to it; an input stream is the rest of the
  \<open>string\<close> still to read. Extraction from a stream that has no suitable token sets the failure
  flag and leaves the variables read afterwards undetermined: that is the value \<open>None\<close>.
\<close>

section \<open>Columns, indexes, tables\<close>

datatype aggregation_type = NO_AGGR | AGGR_TYPE_COUNT | AGGR_TYPE_MAX | AGGR_TYPE_MIN | AGGR_TYPE_SUM

record col_meta =
  cm_tab_name :: string
  cm_name :: string
  cm_alias :: string
  cm_type :: col_type
  cm_len :: int
  cm_offset :: int
  cm_index :: bool
  cm_aggr :: aggregation_type

record index_meta =
  im_tab_name :: string
  im_col_tot_len :: int
  im_col_num :: int
  im_cols :: "col_meta list"

record tab_meta =
  tm_name :: string
  tm_cols :: "col_meta list"
  tm_indexes :: "index_meta list"

text \<open>The copy constructor copies the name and the columns only.\<close>

definition tab_meta_copy :: "tab_meta \<Rightarrow> tab_meta" where
  "tab_meta_copy t = \<lparr>tm_name = tm_name t, tm_cols = tm_cols t, tm_indexes = []\<rparr>"

definition is_col :: "tab_meta \<Rightarrow> string \<Rightarrow> bool" where
  "is_col t c \<longleftrightarrow> find (\<lambda>m. cm_name m = c) (tm_cols t) \<noteq> None"

text \<open>
  The inner loop shared by \<^verbatim>\<open>is_index\<close> and both \<^verbatim>\<open>get_index_meta\<close>: it stops at the first
  column whose name differs. It runs to the length of the names, which is \<^verbatim>\<open>col_num\<close>; past the
  end of \<^verbatim>\<open>cols\<close> the source would read outside the vector, here the names do not match.
\<close>

fun names_match :: "col_meta list \<Rightarrow> string list \<Rightarrow> bool" where
  "names_match cs [] = True"
| "names_match [] (n # ns) = False"
| "names_match (c # cs) (n # ns) = (cm_name c = n \<and> names_match cs ns)"

fun is_index_loop :: "index_meta list \<Rightarrow> string list \<Rightarrow> bool" where
  "is_index_loop [] ns = False"
| "is_index_loop (ix # ixs) ns =
     (if im_col_num ix = int (length ns) \<and> names_match (im_cols ix) ns then True else is_index_loop ixs ns)"

definition is_index :: "tab_meta \<Rightarrow> string list \<Rightarrow> bool" where
  "is_index t ns = is_index_loop (tm_indexes t) ns"

text \<open>The iterator into \<^verbatim>\<open>indexes\<close> is the position it points to.\<close>

fun find_index :: "index_meta list \<Rightarrow> string list \<Rightarrow> nat \<Rightarrow> nat option" where
  "find_index [] ns i = None"
| "find_index (ix # ixs) ns i =
     (if im_col_num ix \<noteq> int (length ns) then find_index ixs ns (Suc i)
      else if names_match (im_cols ix) ns then Some i
      else find_index ixs ns (Suc i))"

definition get_index_meta :: "tab_meta \<Rightarrow> string list \<Rightarrow> rmdb_error + nat" where
  "get_index_meta t ns =
     (case find_index (tm_indexes t) ns 0 of
        Some i \<Rightarrow> Inr i
      | None \<Rightarrow> Inl (IndexNotFoundError (tm_name t) ns))"

definition get_index_meta_cols :: "tab_meta \<Rightarrow> col_meta list \<Rightarrow> rmdb_error + nat" where
  "get_index_meta_cols t cs =
     (case find_index (tm_indexes t) (map cm_name cs) 0 of
        Some i \<Rightarrow> Inr i
      | None \<Rightarrow> Inl (IndexNotFoundError (tm_name t) (map cm_name cs)))"

definition get_col :: "tab_meta \<Rightarrow> string \<Rightarrow> rmdb_error + col_meta" where
  "get_col t c =
     (case find (\<lambda>m. cm_name m = c) (tm_cols t) of
        None \<Rightarrow> Inl (ColumnNotFoundError c)
      | Some m \<Rightarrow> Inr m)"

text \<open>\<^verbatim>\<open>back()\<close> of an empty vector is an invalid access.\<close>

definition get_col_total_len :: "tab_meta \<Rightarrow> rmdb_error + int" where
  "get_col_total_len t =
     (if tm_cols t = [] then Inl NullDeref
      else Inr (cm_offset (last (tm_cols t)) + cm_len (last (tm_cols t))))"

section \<open>Choosing an index\<close>

text \<open>
  \<^verbatim>\<open>modify_and_check_index\<close> uses of a condition only the name of its left column
  (\<^verbatim>\<open>lhs_col.col_name\<close>), so a list of conditions is the list of these names; of the map from
  names to positions it uses only the domain. The result is the list of column names pushed onto
  \<^verbatim>\<open>index_col_names\<close>, or \<open>None\<close> where the function returns false.
\<close>

fun match_len :: "string list \<Rightarrow> col_meta list \<Rightarrow> int" where
  "match_len conds [] = 0"
| "match_len conds (c # cs) = (if cm_name c \<in> set conds then 1 + match_len conds cs else 0)"

fun max_match :: "string list \<Rightarrow> index_meta list \<Rightarrow> nat \<Rightarrow> int \<Rightarrow> int \<Rightarrow> int" where
  "max_match conds [] i best idx = idx"
| "max_match conds (ix # ixs) i best idx =
     (let m = match_len conds (im_cols ix)
      in if m > best then max_match conds ixs (Suc i) m (int i) else max_match conds ixs (Suc i) best idx)"

definition modify_and_check_index :: "tab_meta \<Rightarrow> string list \<Rightarrow> string list option" where
  "modify_and_check_index t conds =
     (if conds = [] then
        (case tm_indexes t of [] \<Rightarrow> None | ix # _ \<Rightarrow> Some (map cm_name (im_cols ix)))
      else let k = max_match conds (tm_indexes t) 0 0 (- 1)
           in if k = - 1 then None else Some (map cm_name (im_cols (tm_indexes t ! nat k))))"

section \<open>The database\<close>

text \<open>\<^verbatim>\<open>std::map\<close> as the list of its entries in the order of the keys.\<close>

type_synonym 'v smap = "(string \<times> 'v) list"

fun smap_set :: "'v smap \<Rightarrow> string \<Rightarrow> 'v \<Rightarrow> 'v smap" where
  "smap_set [] k v = [(k, v)]"
| "smap_set ((k', v') # m) k v =
     (if k < k' then (k, v) # (k', v') # m
      else if k = k' then (k, v) # m
      else (k', v') # smap_set m k v)"

definition smap_erase :: "'v smap \<Rightarrow> string \<Rightarrow> 'v smap" where
  "smap_erase m k = filter (\<lambda>e. fst e \<noteq> k) m"

definition smap_sorted :: "'v smap \<Rightarrow> bool" where
  "smap_sorted m \<longleftrightarrow> sorted_wrt (<) (map fst m)"

record db_meta =
  db_name :: string
  db_tabs :: "tab_meta smap"

definition is_table :: "db_meta \<Rightarrow> string \<Rightarrow> bool" where
  "is_table db t \<longleftrightarrow> map_of (db_tabs db) t \<noteq> None"

definition SetTabMeta :: "db_meta \<Rightarrow> string \<Rightarrow> tab_meta \<Rightarrow> db_meta" where
  "SetTabMeta db t m = db\<lparr>db_tabs := smap_set (db_tabs db) t m\<rparr>"

definition get_table :: "db_meta \<Rightarrow> string \<Rightarrow> rmdb_error + tab_meta" where
  "get_table db t = (case map_of (db_tabs db) t of None \<Rightarrow> Inl (TableNotFoundError t) | Some m \<Rightarrow> Inr m)"

section \<open>Writing the catalogue\<close>

definition NL :: char where "NL = CHR 0x0A"

definition put_bool :: "bool \<Rightarrow> string" where
  "put_bool b = (if b then ''1'' else ''0'')"

definition col_meta_print :: "col_meta \<Rightarrow> string" where
  "col_meta_print c =
     cm_tab_name c @ '' '' @ cm_name c @ '' '' @ to_string (col_type_code (cm_type c)) @ '' '' @
     to_string (cm_len c) @ '' '' @ to_string (cm_offset c) @ '' '' @ put_bool (cm_index c)"

definition index_meta_print :: "index_meta \<Rightarrow> string" where
  "index_meta_print ix =
     im_tab_name ix @ '' '' @ to_string (im_col_tot_len ix) @ '' '' @ to_string (im_col_num ix) @
     concat (map (\<lambda>c. [NL] @ col_meta_print c) (im_cols ix))"

definition tab_meta_print :: "tab_meta \<Rightarrow> string" where
  "tab_meta_print t =
     tm_name t @ [NL] @ to_string (int (length (tm_cols t))) @ [NL] @
     concat (map (\<lambda>c. col_meta_print c @ [NL]) (tm_cols t)) @
     to_string (int (length (tm_indexes t))) @ [NL] @
     concat (map (\<lambda>ix. index_meta_print ix @ [NL]) (tm_indexes t))"

definition db_meta_print :: "db_meta \<Rightarrow> string" where
  "db_meta_print db =
     db_name db @ [NL] @ to_string (int (length (db_tabs db))) @ [NL] @
     concat (map (\<lambda>e. tab_meta_print (snd e) @ [NL]) (db_tabs db))"

section \<open>Reading the catalogue\<close>

definition is_ws :: "char \<Rightarrow> bool" where
  "is_ws c \<longleftrightarrow> c = CHR '' '' \<or> (9 \<le> (of_char c :: nat) \<and> (of_char c :: nat) \<le> 13)"

definition is_digit :: "char \<Rightarrow> bool" where
  "is_digit c \<longleftrightarrow> 48 \<le> (of_char c :: nat) \<and> (of_char c :: nat) \<le> 57"

fun digits_val :: "nat \<Rightarrow> string \<Rightarrow> nat" where
  "digits_val a [] = a"
| "digits_val a (c # cs) = digits_val (10 * a + (of_char c - 48)) cs"

type_synonym 'a reader = "string \<Rightarrow> ('a \<times> string) option"

definition rd_string :: "string reader" where
  "rd_string s =
     (let r = dropWhile is_ws s; w = takeWhile (\<lambda>c. \<not> is_ws c) r
      in if w = [] then None else Some (w, dropWhile (\<lambda>c. \<not> is_ws c) r))"

text \<open>A number: blanks, an optional sign, at least one digit, up to the first character that is no digit.\<close>

definition rd_number :: "int reader" where
  "rd_number s =
     (let r = dropWhile is_ws s;
          neg = (r \<noteq> [] \<and> hd r = CHR ''-'');
          r1 = (if r \<noteq> [] \<and> (hd r = CHR ''-'' \<or> hd r = CHR ''+'') then tl r else r);
          ds = takeWhile is_digit r1;
          v = int (digits_val 0 ds)
      in if ds = [] then None else Some (if neg then - v else v, dropWhile is_digit r1))"

definition rd_int :: "int reader" where
  "rd_int s = (case rd_number s of None \<Rightarrow> None
     | Some (v, r) \<Rightarrow> if int_range v then Some (v, r) else None)"

text \<open>A \<^verbatim>\<open>size_t\<close>: a negative number in range is negated modulo \<open>2 ^ 64\<close>, as \<^verbatim>\<open>strtoull\<close> does.\<close>

definition rd_size :: "nat reader" where
  "rd_size s = (case rd_number s of None \<Rightarrow> None
     | Some (v, r) \<Rightarrow> if \<bar>v\<bar> < 2 ^ 64 then Some (nat (v mod 2 ^ 64), r) else None)"

definition rd_bool :: "bool reader" where
  "rd_bool s = (case rd_number s of None \<Rightarrow> None
     | Some (v, r) \<Rightarrow> if v = 0 then Some (False, r) else if v = 1 then Some (True, r) else None)"

text \<open>
  An enumeration is read as an \<^verbatim>\<open>int\<close> and cast. A number that is no constructor's is rejected here;
  the cast of the source keeps it as a value no branch of the program handles.
\<close>

definition rd_col_type :: "col_type reader" where
  "rd_col_type s = (case rd_int s of None \<Rightarrow> None
     | Some (v, r) \<Rightarrow>
         if v = 0 then Some (TYPE_INT, r) else if v = 1 then Some (TYPE_FLOAT, r)
         else if v = 2 then Some (TYPE_STRING, r) else if v = 3 then Some (TYPE_NULL, r) else None)"

definition rd_bind :: "'a reader \<Rightarrow> ('a \<Rightarrow> 'b reader) \<Rightarrow> 'b reader" where
  "rd_bind m f s = (case m s of None \<Rightarrow> None | Some (x, r) \<Rightarrow> f x r)"

fun rd_times :: "nat \<Rightarrow> 'a reader \<Rightarrow> 'a list reader" where
  "rd_times 0 p s = Some ([], s)"
| "rd_times (Suc n) p s =
     (case p s of None \<Rightarrow> None
      | Some (x, r) \<Rightarrow> (case rd_times n p r of None \<Rightarrow> None | Some (xs, r') \<Rightarrow> Some (x # xs, r')))"

definition col_meta_read :: "col_meta reader" where
  "col_meta_read =
     rd_bind rd_string (\<lambda>tn. rd_bind rd_string (\<lambda>n. rd_bind rd_col_type (\<lambda>ty. rd_bind rd_int (\<lambda>l.
     rd_bind rd_int (\<lambda>off. rd_bind rd_bool (\<lambda>ix s.
       Some (\<lparr>cm_tab_name = tn, cm_name = n, cm_alias = [], cm_type = ty, cm_len = l, cm_offset = off,
              cm_index = ix, cm_aggr = NO_AGGR\<rparr>, s)))))))"

definition index_meta_read :: "index_meta reader" where
  "index_meta_read =
     rd_bind rd_string (\<lambda>tn. rd_bind rd_int (\<lambda>l. rd_bind rd_int (\<lambda>k.
     rd_bind (rd_times (nat k) col_meta_read) (\<lambda>cs s.
       Some (\<lparr>im_tab_name = tn, im_col_tot_len = l, im_col_num = k, im_cols = cs\<rparr>, s)))))"

definition tab_meta_read :: "tab_meta reader" where
  "tab_meta_read =
     rd_bind rd_string (\<lambda>tn. rd_bind rd_size (\<lambda>n. rd_bind (rd_times n col_meta_read) (\<lambda>cs.
     rd_bind rd_size (\<lambda>m. rd_bind (rd_times m index_meta_read) (\<lambda>ixs s.
       Some (\<lparr>tm_name = tn, tm_cols = cs, tm_indexes = ixs\<rparr>, s))))))"

text \<open>Each table is entered under its own name into the map the object already has.\<close>

definition db_meta_read :: "db_meta \<Rightarrow> db_meta reader" where
  "db_meta_read db =
     rd_bind rd_string (\<lambda>dn. rd_bind rd_size (\<lambda>n. rd_bind (rd_times n tab_meta_read) (\<lambda>ts s.
       Some (db\<lparr>db_name := dn, db_tabs := fold (\<lambda>t m. smap_set m (tm_name t) t) ts (db_tabs db)\<rparr>, s))))"

section \<open>Lookups\<close>

lemma smap_sorted_simps [simp]:
  "smap_sorted []" "smap_sorted ((k, v) # m) \<longleftrightarrow> (\<forall>x \<in> fst ` set m. k < x) \<and> smap_sorted m"
  by (auto simp: smap_sorted_def)

lemma smap_set_keys: "fst ` set (smap_set m k v) = insert k (fst ` set m)"
  by (induction m k v rule: smap_set.induct) auto

lemma smap_set_sorted: "smap_sorted m \<Longrightarrow> smap_sorted (smap_set m k v)"
  by (induction m k v rule: smap_set.induct) (auto simp: smap_set_keys)

lemma smap_set_lookup: "smap_sorted m \<Longrightarrow> map_of (smap_set m k v) = (map_of m)(k \<mapsto> v)"
  by (induction m k v rule: smap_set.induct) (auto simp: fun_eq_iff map_of_eq_None_iff dest: less_trans)

lemma smap_set_last: "\<forall>x \<in> fst ` set m. x < k \<Longrightarrow> smap_set m k v = m @ [(k, v)]"
  by (induction m) auto

lemma smap_erase_props:
  assumes "smap_sorted m"
  shows "smap_sorted (smap_erase m k)" "map_of (smap_erase m k) = (map_of m)(k := None)"
proof -
  show "smap_sorted (smap_erase m k)" using assms by (induction m) (auto simp: smap_erase_def)
  show "map_of (smap_erase m k) = (map_of m)(k := None)"
    by (induction m) (auto simp: smap_erase_def fun_eq_iff)
qed

lemma get_table_SetTabMeta:
  assumes "smap_sorted (db_tabs db)"
  shows "get_table (SetTabMeta db t m) t' = (if t' = t then Inr m else get_table db t')"
    "is_table (SetTabMeta db t m) t' \<longleftrightarrow> t' = t \<or> is_table db t'"
  using assms by (simp_all add: get_table_def is_table_def SetTabMeta_def smap_set_lookup)

text \<open>An index whose stored column count is the number of its columns.\<close>

definition index_meta_ok :: "index_meta \<Rightarrow> bool" where
  "index_meta_ok ix \<longleftrightarrow> im_col_num ix = int (length (im_cols ix))"

lemma names_match_iff: "length cs = length ns \<Longrightarrow> names_match cs ns \<longleftrightarrow> map cm_name cs = ns"
  by (induction cs ns rule: names_match.induct) auto

lemma index_matches:
  "index_meta_ok ix \<Longrightarrow> (im_col_num ix = int (length ns) \<and> names_match (im_cols ix) ns) \<longleftrightarrow> map cm_name (im_cols ix) = ns"
  by (auto simp: index_meta_ok_def names_match_iff)

lemma find_index_spec:
  "list_all index_meta_ok ixs \<Longrightarrow>
   (case find_index ixs ns i of
      None \<Rightarrow> \<forall>ix \<in> set ixs. map cm_name (im_cols ix) \<noteq> ns
    | Some k \<Rightarrow> i \<le> k \<and> k < i + length ixs \<and> map cm_name (im_cols (ixs ! (k - i))) = ns \<and>
        (\<forall>j < k - i. map cm_name (im_cols (ixs ! j)) \<noteq> ns))"
proof (induction ixs arbitrary: i)
  case (Cons ix ixs)
  note m = index_matches [of ix ns]
  show ?case
  proof (cases "map cm_name (im_cols ix) = ns")
    case True then show ?thesis using m Cons.prems by auto
  next
    case False
    then have eq: "find_index (ix # ixs) ns i = find_index ixs ns (Suc i)" using m Cons.prems by auto
    show ?thesis
    proof (cases "find_index ixs ns (Suc i)")
      case None then show ?thesis using Cons.IH [of "Suc i"] Cons.prems False eq by auto
    next
      case (Some k)
      have "Suc i \<le> k" "k < Suc i + length ixs" "map cm_name (im_cols (ixs ! (k - Suc i))) = ns"
        "\<forall>j < k - Suc i. map cm_name (im_cols (ixs ! j)) \<noteq> ns" using Cons.IH [of "Suc i"] Cons.prems Some by auto
      moreover have "map cm_name (im_cols ((ix # ixs) ! j)) \<noteq> ns" if "j < k - i" for j
        using that calculation(4) False by (cases j) auto
      ultimately show ?thesis using eq Some by (auto simp: nth_Cons')
    qed
  qed
qed simp

lemma is_index_iff:
  assumes "list_all index_meta_ok (tm_indexes t)"
  shows "is_index t ns \<longleftrightarrow> (\<exists>ix \<in> set (tm_indexes t). map cm_name (im_cols ix) = ns)"
proof -
  have "list_all index_meta_ok ixs \<Longrightarrow> is_index_loop ixs ns \<longleftrightarrow> (\<exists>ix \<in> set ixs. map cm_name (im_cols ix) = ns)" for ixs
    by (induction ixs) (use index_matches in auto)
  then show ?thesis using assms by (simp add: is_index_def)
qed

lemma get_index_meta_iff:
  assumes "list_all index_meta_ok (tm_indexes t)"
  shows "is_index t ns \<longleftrightarrow> (\<exists>k. get_index_meta t ns = Inr k)"
    "get_index_meta t ns = Inr k \<Longrightarrow> k < length (tm_indexes t) \<and> map cm_name (im_cols (tm_indexes t ! k)) = ns"
  using find_index_spec [OF assms, of ns 0] is_index_iff [OF assms, of ns]
  by (auto simp: get_index_meta_def dest: nth_mem split: option.splits)

section \<open>The chosen index\<close>

lemma match_len_takeWhile: "match_len conds cs = int (length (takeWhile (\<lambda>c. cm_name c \<in> set conds) cs))"
  by (induction cs) auto

lemma max_match_spec:
  assumes "0 \<le> best" "max_match conds ixs i best idx = k"
  shows "(k = idx \<and> (\<forall>ix \<in> set ixs. match_len conds (im_cols ix) \<le> best)) \<or>
    (\<exists>j < length ixs. k = int (i + j) \<and> best < match_len conds (im_cols (ixs ! j)) \<and>
       (\<forall>ix \<in> set ixs. match_len conds (im_cols ix) \<le> match_len conds (im_cols (ixs ! j))) \<and>
       (\<forall>j' < j. match_len conds (im_cols (ixs ! j')) < match_len conds (im_cols (ixs ! j))))"
  using assms
proof (induction ixs arbitrary: i best idx)
  case (Cons ix ixs)
  let ?m = "match_len conds (im_cols ix)"
  let ?ml = "\<lambda>ix. match_len conds (im_cols ix)"
  show ?case
  proof (cases "?m > best")
    case True
    then have "max_match conds ixs (Suc i) ?m (int i) = k" "0 \<le> ?m" using Cons.prems by (simp_all add: Let_def)
    then consider "k = int i" "\<forall>x \<in> set ixs. ?ml x \<le> ?m" |
      j where "j < length ixs" "k = int (Suc i + j)" "?m < ?ml (ixs ! j)" "\<forall>x \<in> set ixs. ?ml x \<le> ?ml (ixs ! j)"
        "\<forall>j' < j. ?ml (ixs ! j') < ?ml (ixs ! j)"
      using Cons.IH [of ?m "Suc i" "int i"] by blast
    then show ?thesis
    proof cases
      case 1 then show ?thesis using True by (intro disjI2 exI [of _ 0]) auto
    next
      case 2
      have "?ml ((ix # ixs) ! j') < ?ml (ixs ! j)" if "j' < Suc j" for j' using that 2(3,5) by (cases j') auto
      then show ?thesis using 2 True by (intro disjI2 exI [of _ "Suc j"]) auto
    qed
  next
    case False
    then have "max_match conds ixs (Suc i) best idx = k" using Cons.prems by (simp add: Let_def)
    then consider "k = idx" "\<forall>x \<in> set ixs. ?ml x \<le> best" |
      j where "j < length ixs" "k = int (Suc i + j)" "best < ?ml (ixs ! j)" "\<forall>x \<in> set ixs. ?ml x \<le> ?ml (ixs ! j)"
        "\<forall>j' < j. ?ml (ixs ! j') < ?ml (ixs ! j)"
      using Cons.IH [of best "Suc i" idx] Cons.prems(1) by blast
    then show ?thesis
    proof cases
      case 1 then show ?thesis using False by (intro disjI1) auto
    next
      case 2
      have "?ml ((ix # ixs) ! j') < ?ml (ixs ! j)" if "j' < Suc j" for j' using that 2(3,5) False by (cases j') auto
      then show ?thesis using 2 False by (intro disjI2 exI [of _ "Suc j"]) auto
    qed
  qed
qed simp

text \<open>
  For a non-empty list of conditions, \<^verbatim>\<open>modify_and_check_index\<close> finds no index exactly when
  no index of the table has a restricted first column; otherwise it returns the column names of
  the first index whose prefix of restricted columns is longest among all indexes of the table.
\<close>
theorem index_choice_longest_prefix:
  assumes "conds \<noteq> []"
  shows "case modify_and_check_index t conds of
      None \<Rightarrow> \<forall>ix \<in> set (tm_indexes t). takeWhile (\<lambda>c. cm_name c \<in> set conds) (im_cols ix) = []
    | Some ns \<Rightarrow> \<exists>k < length (tm_indexes t). ns = map cm_name (im_cols (tm_indexes t ! k)) \<and>
        takeWhile (\<lambda>c. cm_name c \<in> set conds) (im_cols (tm_indexes t ! k)) \<noteq> [] \<and>
        (\<forall>ix \<in> set (tm_indexes t). match_len conds (im_cols ix) \<le> match_len conds (im_cols (tm_indexes t ! k))) \<and>
        (\<forall>j < k. match_len conds (im_cols (tm_indexes t ! j)) < match_len conds (im_cols (tm_indexes t ! k)))"
proof -
  define k where "k = max_match conds (tm_indexes t) 0 0 (- 1)"
  consider "k = - 1" "\<forall>ix \<in> set (tm_indexes t). match_len conds (im_cols ix) \<le> 0" |
    j where "j < length (tm_indexes t)" "k = int j" "0 < match_len conds (im_cols (tm_indexes t ! j))"
      "\<forall>ix \<in> set (tm_indexes t). match_len conds (im_cols ix) \<le> match_len conds (im_cols (tm_indexes t ! j))"
      "\<forall>j' < j. match_len conds (im_cols (tm_indexes t ! j')) < match_len conds (im_cols (tm_indexes t ! j))"
    using max_match_spec [of 0 conds "tm_indexes t" 0 "- 1" k] unfolding k_def by auto
  then show ?thesis
  proof cases
    case 1 then show ?thesis using assms by (auto simp: modify_and_check_index_def k_def match_len_takeWhile)
  next
    case 2
    then have "modify_and_check_index t conds = Some (map cm_name (im_cols (tm_indexes t ! j)))"
      using assms by (simp add: modify_and_check_index_def k_def [symmetric])
    then show ?thesis using 2(1,3,4,5) by (intro option.case_eq_if [THEN iffD2]) (auto simp: match_len_takeWhile)
  qed
qed

definition demo_col :: "string \<Rightarrow> int \<Rightarrow> col_meta" where
  "demo_col n off = \<lparr>cm_tab_name = ''t'', cm_name = n, cm_alias = [], cm_type = TYPE_INT, cm_len = 4, cm_offset = off,
     cm_index = False, cm_aggr = NO_AGGR\<rparr>"

definition demo_tab :: tab_meta where
  "demo_tab = \<lparr>tm_name = ''t'', tm_cols = [demo_col ''a'' 0, demo_col ''b'' 4],
     tm_indexes = [\<lparr>im_tab_name = ''t'', im_col_tot_len = 4, im_col_num = 1, im_cols = [demo_col ''b'' 4]\<rparr>,
       \<lparr>im_tab_name = ''t'', im_col_tot_len = 8, im_col_num = 2, im_cols = [demo_col ''b'' 4, demo_col ''a'' 0]\<rparr>]\<rparr>"

theorem index_choice_longest_prefix_witness:
  "modify_and_check_index demo_tab [''a'', ''b''] = Some [''b'', ''a''] \<and>
   (\<exists>k < 2. [''b'', ''a''] = map cm_name (im_cols (tm_indexes demo_tab ! k)))"
proof -
  have r: "modify_and_check_index demo_tab [''a'', ''b''] = Some [''b'', ''a'']"
    by (simp add: modify_and_check_index_def demo_tab_def demo_col_def Let_def)
  have "length (tm_indexes demo_tab) = 2" by (simp add: demo_tab_def)
  then show ?thesis using index_choice_longest_prefix [of "[''a'', ''b'']" demo_tab] r by auto
qed

section \<open>Reading back what was written\<close>

text \<open>A token has no blank; a reader stops in front of a blank or at the end.\<close>

definition tok :: "string \<Rightarrow> bool" where
  "tok w \<longleftrightarrow> w \<noteq> [] \<and> list_all (\<lambda>c. \<not> is_ws c) w"

fun stop :: "string \<Rightarrow> bool" where
  "stop [] = True"
| "stop (c # r) = is_ws c"

lemma is_ws_simps [simp]: "is_ws (CHR '' '')" "is_ws NL"
  by (simp_all add: is_ws_def NL_def)

lemma stop_append: "list_all is_ws u \<Longrightarrow> stop r \<Longrightarrow> stop (u @ r)"
  by (cases u) simp_all

lemma digit_not_ws: "is_digit c \<Longrightarrow> \<not> is_ws c"
  by (auto simp: is_digit_def is_ws_def)

lemma takeWhile_stop: "list_all P w \<Longrightarrow> r = [] \<or> \<not> P (hd r) \<Longrightarrow> takeWhile P (w @ r) = w \<and> dropWhile P (w @ r) = r"
  by (induction w) (cases r; auto)+

lemma dropWhile_tok: "tok w \<Longrightarrow> dropWhile is_ws (w @ r) = w @ r"
  by (cases w) (simp_all add: tok_def)

lemma rd_string_tok [simp]: "tok w \<Longrightarrow> stop r \<Longrightarrow> rd_string (w @ r) = Some (w, r)"
  using takeWhile_stop [of "\<lambda>c. \<not> is_ws c" w r] dropWhile_tok [of w r]
  by (cases r) (auto simp: rd_string_def Let_def tok_def simp del: dropWhile_eq_self_iff takeWhile_eq_all_conv)

lemma digits_val_append: "digits_val a (xs @ ys) = digits_val (digits_val a xs) ys"
  by (induction xs arbitrary: a) simp_all

lemma digit_char: "d < 10 \<Longrightarrow> is_digit (char_of (48 + d :: nat)) \<and> (of_char (char_of (48 + d :: nat)) :: nat) = 48 + d"
  by (simp add: is_digit_def)

lemma nat_to_string_digits: "nat_to_string n \<noteq> [] \<and> list_all is_digit (nat_to_string n) \<and> digits_val 0 (nat_to_string n) = n"
proof (induction n rule: nat_to_string.induct)
  case (1 n)
  show ?case
  proof (cases "n < 10")
    case True then show ?thesis using digit_char [of n] by (simp add: nat_to_string.simps [of n])
  next
    case False
    then show ?thesis using 1 digit_char [of "n mod 10"] by (simp add: nat_to_string.simps [of n] digits_val_append)
  qed
qed

lemma rd_number_to_string:
  assumes r: "stop r"
  shows "rd_number (to_string x @ r) = Some (x, r)"
proof -
  define ds where "ds = nat_to_string (nat \<bar>x\<bar>)"
  have d: "ds \<noteq> []" "list_all is_digit ds" "digits_val 0 ds = nat \<bar>x\<bar>"
    using nat_to_string_digits unfolding ds_def by blast+
  obtain c cs where ds: "ds = c # cs" using d(1) by (cases ds) simp_all
  have c: "is_digit c" "\<not> is_ws c" "c \<noteq> CHR ''-''" "c \<noteq> CHR ''+''" using d(2) digit_not_ws ds by (auto simp: is_digit_def)
  have "r = [] \<or> \<not> is_digit (hd r)" using r digit_not_ws by (cases r) auto
  then have t: "takeWhile is_digit (ds @ r) = ds" "dropWhile is_digit (ds @ r) = r"
    using takeWhile_stop [OF d(2)] by blast+
  have m: "\<not> is_ws (CHR ''-'')" by (simp add: is_ws_def)
  have x: "to_string x = (if x < 0 then CHR ''-'' # ds else ds)" by (simp add: to_string_def ds_def)
  have w: "dropWhile is_ws (ds @ r) = ds @ r" "ds @ r \<noteq> []" "hd (ds @ r) = c" using c ds by simp_all
  show ?thesis using d t x m c w by (cases "x < 0") (simp_all add: rd_number_def Let_def)
qed

lemma rd_int_tok [simp]: "int_range x \<Longrightarrow> stop r \<Longrightarrow> rd_int (to_string x @ r) = Some (x, r)"
  by (simp add: rd_int_def rd_number_to_string)

lemma rd_size_tok [simp]: "int n < 2 ^ 64 \<Longrightarrow> stop r \<Longrightarrow> rd_size (to_string (int n) @ r) = Some (n, r)"
  by (simp add: rd_size_def rd_number_to_string)

lemma rd_bool_tok [simp]: "stop r \<Longrightarrow> rd_bool (put_bool b @ r) = Some (b, r)"
proof -
  assume r: "stop r"
  have "to_string 0 = ''0''" "to_string 1 = ''1''" by code_simp+
  then have "put_bool b = to_string (if b then 1 else 0)" by (simp add: put_bool_def)
  then show ?thesis using rd_number_to_string [OF r] by (simp add: rd_bool_def)
qed

lemma rd_col_type_tok [simp]: "stop r \<Longrightarrow> rd_col_type (to_string (col_type_code ty) @ r) = Some (ty, r)"
  by (cases ty) (simp_all add: rd_col_type_def)

text \<open>Every reader skips the blanks in front of its first token.\<close>

definition skips :: "'a reader \<Rightarrow> bool" where
  "skips p \<longleftrightarrow> (\<forall>c s. is_ws c \<longrightarrow> p (c # s) = p s)"

lemma skipsD: "skips p \<Longrightarrow> is_ws c \<Longrightarrow> p (c # s) = p s"
  by (simp add: skips_def)

lemma skips_append: "skips p \<Longrightarrow> list_all is_ws u \<Longrightarrow> p (u @ s) = p s"
  by (induction u) (simp_all add: skipsD)

lemma skips_basic: "skips rd_string" "skips rd_int" "skips rd_size" "skips rd_bool" "skips rd_col_type"
  by (simp_all add: skips_def rd_string_def rd_int_def rd_size_def rd_bool_def rd_col_type_def rd_number_def)

lemma skips_bind: "skips p \<Longrightarrow> skips (rd_bind p f)"
  by (simp add: skips_def rd_bind_def)

lemmas skip_simps [simp] = skips_basic [THEN skipsD]

lemma skips_meta: "skips col_meta_read" "skips index_meta_read" "skips tab_meta_read"
  unfolding col_meta_read_def index_meta_read_def tab_meta_read_def by (intro skips_bind skips_basic)+

text \<open>\<open>p\<close> reads the text \<open>t\<close> as \<open>v\<close>, wherever the text ends.\<close>

definition reads :: "'a reader \<Rightarrow> string \<Rightarrow> 'a \<Rightarrow> bool" where
  "reads p t v \<longleftrightarrow> (\<forall>r. stop r \<longrightarrow> p (t @ r) = Some (v, r))"

lemma reads_times:
  assumes "list_all (\<lambda>x. reads p (b x) (f x)) xs" "skips p" "stop r"
  shows "rd_times (length xs) p (concat (map (\<lambda>x. [NL] @ b x) xs) @ r) = Some (map f xs, r)"
  using assms(1)
proof (induction xs)
  case (Cons x xs)
  have "stop (concat (map (\<lambda>x. [NL] @ b x) xs) @ r)" using assms(3) by (cases xs) simp_all
  then have "p (b x @ concat (map (\<lambda>x. [NL] @ b x) xs) @ r) = Some (f x, concat (map (\<lambda>x. [NL] @ b x) xs) @ r)"
    using Cons.prems by (simp add: reads_def)
  then show ?case using Cons skipsD [OF assms(2)] by simp
qed simp

lemma concat_lines: "NL # concat (map (\<lambda>x. b x @ [NL]) xs) = concat (map (\<lambda>x. [NL] @ b x) xs) @ [NL]"
  by (induction xs) simp_all

text \<open>What a stored catalogue keeps: everything but the alias and the aggregation of a column.\<close>

definition stored_col :: "col_meta \<Rightarrow> col_meta" where
  "stored_col c = c\<lparr>cm_alias := [], cm_aggr := NO_AGGR\<rparr>"

definition stored_index :: "index_meta \<Rightarrow> index_meta" where
  "stored_index ix = ix\<lparr>im_cols := map stored_col (im_cols ix)\<rparr>"

definition stored_tab :: "tab_meta \<Rightarrow> tab_meta" where
  "stored_tab t = t\<lparr>tm_cols := map stored_col (tm_cols t), tm_indexes := map stored_index (tm_indexes t)\<rparr>"

text \<open>Catalogues the system manager builds: names without blanks, machine integers, each table under its own name.\<close>

definition col_wf :: "col_meta \<Rightarrow> bool" where
  "col_wf c \<longleftrightarrow> tok (cm_tab_name c) \<and> tok (cm_name c) \<and> int_range (cm_len c) \<and> int_range (cm_offset c)"

definition index_wf :: "index_meta \<Rightarrow> bool" where
  "index_wf ix \<longleftrightarrow> tok (im_tab_name ix) \<and> int_range (im_col_tot_len ix) \<and> index_meta_ok ix \<and>
     int_range (im_col_num ix) \<and> list_all col_wf (im_cols ix)"

definition tab_wf :: "tab_meta \<Rightarrow> bool" where
  "tab_wf t \<longleftrightarrow> tok (tm_name t) \<and> list_all col_wf (tm_cols t) \<and> list_all index_wf (tm_indexes t) \<and>
     int (length (tm_cols t)) < 2 ^ 64 \<and> int (length (tm_indexes t)) < 2 ^ 64"

definition db_wf :: "db_meta \<Rightarrow> bool" where
  "db_wf db \<longleftrightarrow> tok (db_name db) \<and> smap_sorted (db_tabs db) \<and> int (length (db_tabs db)) < 2 ^ 64 \<and>
     list_all (\<lambda>e. tab_wf (snd e) \<and> fst e = tm_name (snd e)) (db_tabs db)"

lemma col_meta_reads: "col_wf c \<Longrightarrow> reads col_meta_read (col_meta_print c) (stored_col c)"
  by (simp add: reads_def col_wf_def col_meta_read_def col_meta_print_def rd_bind_def stored_col_def)

lemma index_meta_reads:
  assumes "index_wf ix"
  shows "reads index_meta_read (index_meta_print ix) (stored_index ix)"
proof -
  have a: "tok (im_tab_name ix)" "int_range (im_col_tot_len ix)" "im_col_num ix = int (length (im_cols ix))"
    "int_range (im_col_num ix)" "list_all col_wf (im_cols ix)"
    using assms unfolding index_wf_def index_meta_ok_def by blast+
  have "list_all (\<lambda>c. reads col_meta_read (col_meta_print c) (stored_col c)) (im_cols ix)"
    using a(5) col_meta_reads by (simp add: list_all_iff)
  then have t: "stop r \<Longrightarrow> rd_times (nat (im_col_num ix)) col_meta_read
      (concat (map (\<lambda>c. [NL] @ col_meta_print c) (im_cols ix)) @ r) = Some (map stored_col (im_cols ix), r)" for r
    using reads_times [OF _ skips_meta(1)] a(3) by simp
  have s: "stop r \<Longrightarrow> stop (concat (map (\<lambda>c. [NL] @ col_meta_print c) (im_cols ix)) @ r)" for r
    by (cases "im_cols ix") simp_all
  have "stop r \<Longrightarrow> index_meta_read (index_meta_print ix @ r) = Some (stored_index ix, r)" for r
    using a(1,2,4) t [of r] s [of r]
    by (simp add: index_meta_read_def index_meta_print_def rd_bind_def stored_index_def)
  then show ?thesis by (simp add: reads_def)
qed

text \<open>The text of a table without its last line end.\<close>

definition tab_text :: "tab_meta \<Rightarrow> string" where
  "tab_text t = tm_name t @ [NL] @ to_string (int (length (tm_cols t))) @
     concat (map (\<lambda>c. [NL] @ col_meta_print c) (tm_cols t)) @ [NL] @
     to_string (int (length (tm_indexes t))) @ concat (map (\<lambda>ix. [NL] @ index_meta_print ix) (tm_indexes t))"

lemma tab_meta_print_eq: "tab_meta_print t = tab_text t @ [NL]"
proof -
  have "NL # concat (map (\<lambda>c. b c @ [NL]) xs) @ ys = concat (map (\<lambda>c. [NL] @ b c) xs) @ NL # ys"
    for b :: "'b \<Rightarrow> string" and xs ys
    using arg_cong [OF concat_lines [of b xs], of "\<lambda>l. l @ ys"] by simp
  note this [of col_meta_print "tm_cols t"] this [of index_meta_print "tm_indexes t" "[]"]
  then show ?thesis by (simp add: tab_meta_print_def tab_text_def concat_lines [simplified])
qed

lemma tab_meta_reads:
  assumes "tab_wf t"
  shows "reads tab_meta_read (tab_text t) (stored_tab t)"
proof -
  have a: "tok (tm_name t)" "list_all col_wf (tm_cols t)" "list_all index_wf (tm_indexes t)"
    "int (length (tm_cols t)) < 2 ^ 64" "int (length (tm_indexes t)) < 2 ^ 64"
    using assms by (simp_all add: tab_wf_def)
  let ?c = "concat (map (\<lambda>c. [NL] @ col_meta_print c) (tm_cols t))"
  let ?i = "concat (map (\<lambda>ix. [NL] @ index_meta_print ix) (tm_indexes t))"
  have "list_all (\<lambda>c. reads col_meta_read (col_meta_print c) (stored_col c)) (tm_cols t)"
    "list_all (\<lambda>ix. reads index_meta_read (index_meta_print ix) (stored_index ix)) (tm_indexes t)"
    using a(2,3) col_meta_reads index_meta_reads by (simp_all add: list_all_iff)
  then have t: "stop r \<Longrightarrow> rd_times (length (tm_cols t)) col_meta_read (?c @ r) = Some (map stored_col (tm_cols t), r)"
    "stop r \<Longrightarrow> rd_times (length (tm_indexes t)) index_meta_read (?i @ r) = Some (map stored_index (tm_indexes t), r)" for r
    using reads_times [OF _ skips_meta(1)] reads_times [OF _ skips_meta(2)] by simp_all
  have s: "stop r \<Longrightarrow> stop (?c @ r)" "stop r \<Longrightarrow> stop (?i @ r)" for r
    by (cases "tm_cols t"; simp) (cases "tm_indexes t"; simp)
  have "tab_meta_read (tab_text t @ r) = Some (stored_tab t, r)" if r: "stop r" for r
    using a(1,4,5) t(2) [of r] t(1) [of "NL # to_string (int (length (tm_indexes t))) @ ?i @ r"]
      s(2) [of r] s(1) [of "NL # to_string (int (length (tm_indexes t))) @ ?i @ r"] r
    by (simp add: tab_meta_read_def tab_text_def rd_bind_def stored_tab_def)
  then show ?thesis by (simp add: reads_def)
qed

lemma fold_smap_set:
  assumes "smap_sorted (m @ map (\<lambda>t. (tm_name t, t)) ts)"
  shows "fold (\<lambda>t m. smap_set m (tm_name t) t) ts m = m @ map (\<lambda>t. (tm_name t, t)) ts"
  using assms
proof (induction ts arbitrary: m)
  case (Cons t ts)
  have "smap_set m (tm_name t) t = m @ [(tm_name t, t)]"
    using Cons.prems by (intro smap_set_last) (auto simp: smap_sorted_def sorted_wrt_append)
  then show ?case using Cons by simp
qed simp

lemma tabs_read:
  assumes "list_all tab_wf ts" "list_all is_ws u" "u \<noteq> []"
  shows "\<exists>v. rd_times (length ts) tab_meta_read (u @ concat (map (\<lambda>t. tab_meta_print t @ [NL]) ts)) = Some (map stored_tab ts, v)"
  using assms
proof (induction ts arbitrary: u)
  case (Cons t ts)
  let ?c = "concat (map (\<lambda>t. tab_meta_print t @ [NL]) ts)"
  have "tab_meta_read (u @ tab_text t @ [NL, NL] @ ?c) = Some (stored_tab t, [NL, NL] @ ?c)"
    using tab_meta_reads [of t] skips_append [OF skips_meta(3) Cons.prems(2)] Cons.prems(1) by (simp add: reads_def)
  then show ?case using Cons.IH [of "[NL, NL]"] Cons.prems by (auto simp: tab_meta_print_eq)
qed simp

text \<open>
  C37. Reading the file \<^verbatim>\<open>db.meta\<close> back into an empty catalogue gives the catalogue that was
  written: every table with its columns and indexes, and only the alias and the aggregation of
  a column, which belong to a query, are reset.
\<close>
theorem db_meta_roundtrip:
  assumes "db_wf db"
  shows "map_option fst (db_meta_read \<lparr>db_name = [], db_tabs = []\<rparr> (db_meta_print db)) =
    Some (db\<lparr>db_tabs := map (\<lambda>e. (fst e, stored_tab (snd e))) (db_tabs db)\<rparr>)"
proof -
  define ts where "ts = map snd (db_tabs db)"
  have w: "tok (db_name db)" "smap_sorted (db_tabs db)" "int (length (db_tabs db)) < 2 ^ 64" "list_all tab_wf ts"
    and k: "\<And>e. e \<in> set (db_tabs db) \<Longrightarrow> fst e = tm_name (snd e)"
    using assms by (auto simp: db_wf_def ts_def list_all_iff)
  have stored: "tm_name (stored_tab t) = tm_name t" for t by (simp add: stored_tab_def)
  have keys: "map (\<lambda>t. (tm_name t, t)) (map stored_tab ts) = map (\<lambda>e. (fst e, stored_tab (snd e))) (db_tabs db)"
    using k by (simp add: ts_def stored)
  have "smap_sorted (map (\<lambda>e. (fst e, stored_tab (snd e))) (db_tabs db))" using w(2) by (simp add: smap_sorted_def comp_def)
  then have fold: "fold (\<lambda>t m. smap_set m (tm_name t) t) (map stored_tab ts) [] =
      map (\<lambda>e. (fst e, stored_tab (snd e))) (db_tabs db)"
    using fold_smap_set [of "[]" "map stored_tab ts"] keys by simp
  obtain v where v: "rd_times (length ts) tab_meta_read ([NL] @ concat (map (\<lambda>t. tab_meta_print t @ [NL]) ts)) =
      Some (map stored_tab ts, v)" using tabs_read [OF w(4), of "[NL]"] by auto
  have pr: "db_meta_print db = db_name db @ [NL] @ to_string (int (length ts)) @ [NL] @
      concat (map (\<lambda>t. tab_meta_print t @ [NL]) ts)"
    by (simp add: db_meta_print_def ts_def comp_def)
  have n: "int (length ts) < 2 ^ 64" using w(3) by (simp add: ts_def)
  show ?thesis using w(1) n v fold by (simp add: db_meta_read_def pr rd_bind_def)
qed

theorem db_meta_roundtrip_witness:
  "map_option fst (db_meta_read \<lparr>db_name = [], db_tabs = []\<rparr>
     (db_meta_print \<lparr>db_name = ''d'', db_tabs = [(''t'', demo_tab)]\<rparr>)) = Some \<lparr>db_name = ''d'', db_tabs = [(''t'', demo_tab)]\<rparr>"
proof -
  have "db_wf \<lparr>db_name = ''d'', db_tabs = [(''t'', demo_tab)]\<rparr>"
    by (simp add: db_wf_def tab_wf_def index_wf_def index_meta_ok_def col_wf_def tok_def is_ws_def demo_tab_def demo_col_def)
  then show ?thesis using db_meta_roundtrip [of "\<lparr>db_name = ''d'', db_tabs = [(''t'', demo_tab)]\<rparr>"]
    by (simp add: stored_tab_def stored_index_def stored_col_def demo_tab_def demo_col_def)
qed

end
