(* ===== verification/Ix_Manager.thy ===== *)
theory Ix_Manager
  imports Ix_Node Sm_Meta Rm_Manager
begin

text \<open>
  Creating, opening, closing and destroying index files (\<^verbatim>\<open>IxManager\<close> of
  \<^verbatim>\<open>src/src/index/ix_manager.h\<close> and the constructor of \<^verbatim>\<open>IxIndexHandle\<close>), on the disk manager
  and the buffer pool. A created index opens with a header whose node geometry fits the page and
  with an empty root leaf; the page counter is not kept in the file, so that an index opened by
  another process allocates pages that are in use.
\<close>

section \<open>Operations\<close>

fun index_name_loop :: "string \<Rightarrow> string list \<Rightarrow> string" where
  "index_name_loop acc [] = acc"
| "index_name_loop acc (c # cs) = index_name_loop (acc @ ''_'' @ c) cs"

definition get_index_name :: "string \<Rightarrow> string list \<Rightarrow> string" where
  "get_index_name filename cols = index_name_loop filename cols @ ''.idx''"

definition get_index_name_cols :: "string \<Rightarrow> col_meta list \<Rightarrow> string" where
  "get_index_name_cols filename cols = index_name_loop filename (map cm_name cols) @ ''.idx''"

definition ix_exists :: "disk_manager \<Rightarrow> string \<Rightarrow> string list \<Rightarrow> bool" where
  "ix_exists d filename cols = dm_is_file d (get_index_name filename cols)"

definition ix_exists_cols :: "disk_manager \<Rightarrow> string \<Rightarrow> col_meta list \<Rightarrow> bool" where
  "ix_exists_cols d filename cols = dm_is_file d (get_index_name_cols filename cols)"

text \<open>
  The number of pairs of a node. \<^verbatim>\<open>sizeof\<close> makes the arithmetic unsigned 64 bit wide; dividing by
  zero ends the process, as the assertion that follows does for the value 0.
\<close>

definition btree_order :: "int \<Rightarrow> int" where
  "btree_order col_tot_len =
     wrap32 (((int PAGE_SIZE - int IX_PAGE_HDR_SIZE) div ((col_tot_len + 8) mod 2 ^ 64) - 1) mod 2 ^ 64)"

definition ix_new_hdr :: "col_meta list \<Rightarrow> rmdb_error + ix_file_hdr" where
  "ix_new_hdr cols =
     (let col_tot_len = foldl (\<lambda>a c. a + cm_len c) 0 cols;
          col_num = int (length cols);
          order = btree_order col_tot_len
      in if col_tot_len > IX_MAX_COL_LEN then Inl (InvalidColLengthError col_tot_len)
         else if \<not> order > 2 then Inl AssertFailure
         else Inr (update_tot_len
           ((new_ix_file_hdr IX_NO_PAGE IX_INIT_NUM_PAGES IX_INIT_ROOT_PAGE col_num col_tot_len order
              ((order + 1) * col_tot_len) IX_INIT_ROOT_PAGE IX_INIT_ROOT_PAGE)
            \<lparr>ix_col_types := map cm_type cols, ix_col_lens := map cm_len cols\<rparr>)))"

text \<open>An empty leaf in a zeroed page buffer: the fields of \<^verbatim>\<open>IxPageHdr\<close>.\<close>

definition ix_init_page :: "int \<Rightarrow> int \<Rightarrow> bytes" where
  "ix_init_page prev next =
     nd_set_next_leaf (nd_set_prev_leaf (nd_set_is_leaf (nd_set_size (nd_set_parent
       (put_int (replicate PAGE_SIZE 0) 0 IX_NO_PAGE) IX_NO_PAGE) 0) True) prev) next"

definition dm_bind :: "('a, 's) outcome \<Rightarrow> ('a \<Rightarrow> 's \<Rightarrow> ('b, 's) outcome) \<Rightarrow> ('b, 's) outcome" where
  "dm_bind m f = (case m of (Inl e, d) \<Rightarrow> (Inl e, d) | (Inr x, d) \<Rightarrow> f x d)"

definition ix_create_index :: "disk_manager \<Rightarrow> string \<Rightarrow> col_meta list \<Rightarrow> (unit, disk_manager) outcome" where
  "ix_create_index d filename cols =
     (let ix_name = get_index_name_cols filename cols in
      dm_bind (dm_create_file d ix_name) (\<lambda>_ d.
      dm_bind (dm_open_file d ix_name) (\<lambda>fd d.
      dm_bind (ix_new_hdr cols, d) (\<lambda>fhdr d.
      dm_bind (ix_hdr_serialize fhdr (replicate (nat (ix_tot_len fhdr)) 0), d) (\<lambda>data d.
      dm_bind (dm_write_page d fd IX_FILE_HDR_PAGE data) (\<lambda>_ d.
      dm_bind (dm_write_page d fd IX_LEAF_HEADER_PAGE (ix_init_page IX_INIT_ROOT_PAGE IX_INIT_ROOT_PAGE)) (\<lambda>_ d.
      dm_bind (dm_write_page d fd IX_INIT_ROOT_PAGE (ix_init_page IX_LEAF_HEADER_PAGE IX_LEAF_HEADER_PAGE)) (\<lambda>_ d.
        dm_close_file (dm_set_fd2pageno d fd (IX_INIT_NUM_PAGES - 1)) fd))))))))"

definition ix_destroy_index :: "disk_manager \<Rightarrow> string \<Rightarrow> string list \<Rightarrow> (unit, disk_manager) outcome" where
  "ix_destroy_index d filename cols = dm_destroy_file d (get_index_name filename cols)"

definition ix_destroy_index_cols :: "disk_manager \<Rightarrow> string \<Rightarrow> col_meta list \<Rightarrow> (unit, disk_manager) outcome" where
  "ix_destroy_index_cols d filename cols = dm_destroy_file d (get_index_name_cols filename cols)"

text \<open>
  The constructor of the handle: the descriptor and the header. Its first read fills the bytes of
  the pointer itself, which is then overwritten; it can only fail.
\<close>

definition ix_handle_new :: "disk_manager \<Rightarrow> int \<Rightarrow> (int \<times> ix_file_hdr, disk_manager) outcome" where
  "ix_handle_new d fd =
     (case dm_read_page d fd IX_FILE_HDR_PAGE (replicate 8 0) 8 of (buf0, r0) \<Rightarrow>
      dm_bind r0 (\<lambda>_ d.
      (case dm_read_page d fd IX_FILE_HDR_PAGE (replicate PAGE_SIZE 0) PAGE_SIZE of (buf, r) \<Rightarrow>
      dm_bind r (\<lambda>_ d.
      dm_bind (ix_hdr_deserialize buf, d) (\<lambda>hdr d.
        (Inr (fd, hdr), dm_set_fd2pageno d fd (fd2pageno d fd + 1)))))))"

definition ix_open_index :: "disk_manager \<Rightarrow> string \<Rightarrow> string list \<Rightarrow> (int \<times> ix_file_hdr, disk_manager) outcome" where
  "ix_open_index d filename cols =
     dm_bind (dm_open_file d (get_index_name filename cols)) (\<lambda>fd d. ix_handle_new d fd)"

definition ix_open_index_cols :: "disk_manager \<Rightarrow> string \<Rightarrow> col_meta list \<Rightarrow> (int \<times> ix_file_hdr, disk_manager) outcome" where
  "ix_open_index_cols d filename cols =
     dm_bind (dm_open_file d (get_index_name_cols filename cols)) (\<lambda>fd d. ix_handle_new d fd)"

text \<open>\<open>ord\<close> is the order in which the pool visits its page table.\<close>

definition ix_close_index :: "bpm \<Rightarrow> int \<Rightarrow> ix_file_hdr \<Rightarrow> page_id list \<Rightarrow> (unit, bpm) outcome" where
  "ix_close_index s fd hdr ord =
     dm_bind (ix_hdr_serialize hdr (replicate (nat (ix_tot_len hdr)) 0), s) (\<lambda>data s.
     dm_bind (case dm_write_page (disk s) fd IX_FILE_HDR_PAGE data of (r, d) \<Rightarrow> (r, s\<lparr>disk := d\<rparr>)) (\<lambda>_ s.
     dm_bind (bpm_flush_all_pages_fd s fd ord) (\<lambda>_ s.
       (case dm_close_file (disk s) fd of (r, d) \<Rightarrow> (r, s\<lparr>disk := d\<rparr>)))))"

section \<open>The header of a new index\<close>

text \<open>
  Columns an index can be built on. The bound on their number keeps the header within its page:
  512 one-byte columns pass the check of the total length, and their header is 4136 bytes long.
\<close>

definition ix_cols_ok :: "col_meta list \<Rightarrow> bool" where
  "ix_cols_ok cols \<longleftrightarrow> cols \<noteq> [] \<and> list_all (\<lambda>c. 1 \<le> cm_len c) cols \<and> sum_list (map cm_len cols) \<le> IX_MAX_COL_LEN \<and>
     length cols \<le> 507"

lemma index_name_loop_eq: "index_name_loop acc cs = acc @ concat (map (\<lambda>c. ''_'' @ c) cs)"
  by (induction acc cs rule: index_name_loop.induct) simp_all

lemma get_index_name_cols_eq: "get_index_name_cols f cols = get_index_name f (map cm_name cols)"
  by (simp add: get_index_name_def get_index_name_cols_def)

lemma btree_order_bounds:
  assumes "1 \<le> t" "t \<le> IX_MAX_COL_LEN"
  shows "2 < btree_order t" "24 + (btree_order t + 1) * (t + 8) \<le> 4096" "btree_order t \<le> 451"
proof -
  define q where "q = 4072 div (t + 8)"
  have t: "1 \<le> t" "t \<le> 512" using assms by (simp_all add: IX_MAX_COL_LEN_def)
  have "4 * (t + 8) \<le> 4072" using t by simp
  then have q4: "4 \<le> q" using t zdiv_mono1 [of "4 * (t + 8)" 4072 "t + 8"] nonzero_mult_div_cancel_right [of "t + 8" 4] unfolding q_def by linarith
  have "q * (t + 8) \<le> 4072" using minus_mod_eq_div_mult [of 4072 "t + 8"] t pos_mod_sign [of "t + 8" 4072] unfolding q_def by linarith
  moreover have "q \<le> 452" using t zdiv_mono2 [of 4072 9 "t + 8"] by (simp add: q_def)
  moreover have "btree_order t = q - 1" using t q4 \<open>q \<le> 452\<close>
    by (simp add: btree_order_def q_def [symmetric] PAGE_SIZE_def IX_PAGE_HDR_SIZE_def wrap32_id int_range_def)
  ultimately show "2 < btree_order t" "24 + (btree_order t + 1) * (t + 8) \<le> 4096" "btree_order t \<le> 451" using q4 by simp_all
qed

lemma btree_order_min:
  assumes "1 \<le> t" "t \<le> IX_MAX_COL_LEN"
  shows "6 \<le> btree_order t"
proof -
  have t: "1 \<le> t" "t \<le> 512" using assms by (simp_all add: IX_MAX_COL_LEN_def)
  have "7 \<le> 4072 div (t + 8)" using t zdiv_mono2 [of 4072 "t + 8" 520] by simp
  moreover have "4072 div (t + 8) \<le> 452" using t zdiv_mono2 [of 4072 9 "t + 8"] by simp
  ultimately show ?thesis using t by (simp add: btree_order_def PAGE_SIZE_def IX_PAGE_HDR_SIZE_def wrap32_id int_range_def)
qed

lemma foldl_len: "foldl (\<lambda>a c. a + cm_len c) n cols = n + sum_list (map cm_len cols)"
  by (induction cols arbitrary: n) simp_all

lemma ix_cols_sum: "list_all (\<lambda>c. 1 \<le> cm_len c) cols \<Longrightarrow> int (length cols) \<le> sum_list (map cm_len cols)"
  by (induction cols) auto

lemma ix_cols_len: "list_all (\<lambda>c. 1 \<le> cm_len c) cols \<Longrightarrow> c \<in> set cols \<Longrightarrow> cm_len c \<le> sum_list (map cm_len cols)"
proof (induction cols)
  case (Cons x xs)
  then show ?case using ix_cols_sum [of xs] by (cases "c = x") auto
qed simp

lemma ix_new_hdr_ok:
  assumes "ix_cols_ok cols"
  obtains h where "ix_new_hdr cols = Inr h" "ix_dims h" "ix_hdr_wf h" "ix_root h = 2" "ix_first_leaf h = 2"
    "ix_last_leaf h = 2" "ix_col_types h = map cm_type cols" "ix_col_lens h = map cm_len cols" "ix_tot_len h \<le> 4096" "8 \<le> ix_tot_len h"
    "ix_col_tot_len h = sum_list (map cm_len cols)" "6 \<le> ix_order h"
proof -
  let ?t = "sum_list (map cm_len cols)"
  have c: "cols \<noteq> []" "list_all (\<lambda>c. 1 \<le> cm_len c) cols" "?t \<le> 512" "length cols \<le> 507" using assms by (simp_all add: ix_cols_ok_def IX_MAX_COL_LEN_def)
  have n: "int (length cols) \<le> ?t" "1 \<le> int (length cols)" using ix_cols_sum [OF c(2)] c(1) by (simp_all add: Suc_leI)
  note b = btree_order_bounds [of ?t, unfolded IX_MAX_COL_LEN_def, OF _ c(3)]
  have t1: "1 \<le> ?t" using n by simp
  have "0 \<le> (btree_order ?t + 1) * 8" using b(1) [OF t1] by simp
  then have k: "(btree_order ?t + 1) * ?t \<le> 4096" using b(2) [OF t1] by (simp add: algebra_simps)
  have k0: "0 \<le> (btree_order ?t + 1) * ?t" using b(1) [OF t1] t1 by simp
  define h where "h = update_tot_len ((new_ix_file_hdr IX_NO_PAGE IX_INIT_NUM_PAGES IX_INIT_ROOT_PAGE (int (length cols)) ?t (btree_order ?t)
      ((btree_order ?t + 1) * ?t) IX_INIT_ROOT_PAGE IX_INIT_ROOT_PAGE) \<lparr>ix_col_types := map cm_type cols, ix_col_lens := map cm_len cols\<rparr>)"
  have res: "ix_new_hdr cols = Inr h" using b(1) [OF t1] c(3) by (simp add: ix_new_hdr_def Let_def foldl_len h_def IX_MAX_COL_LEN_def)
  have dims: "ix_dims h" using b [OF t1] t1 by (simp add: ix_dims_def h_def update_tot_len_def new_ix_file_hdr_def)
  have lens: "list_all int_range (map cm_len cols)" using ix_cols_len [OF c(2)] c(2,3) by (force simp: list_all_iff int_range_def)
  have small: "0 \<le> x \<Longrightarrow> x \<le> 4096 \<Longrightarrow> int_range x" for x by (simp add: int_range_def)
  have kr: "int_range ((btree_order ?t + 1) * ?t)" using small k k0 by blast
  have "ix_hdr_wf h" using b(1,3) [OF t1] n c(3,4) lens kr t1
    by (simp add: ix_hdr_wf_def h_def update_tot_len_def new_ix_file_hdr_def ix_consts) (simp add: int_range_def)
  then show ?thesis by (rule that [OF res dims])
    (use n c btree_order_min [OF t1] in \<open>simp_all add: h_def update_tot_len_def new_ix_file_hdr_def ix_consts IX_MAX_COL_LEN_def\<close>)
qed

section \<open>Creating and opening\<close>

lemma dm_bind_Inr [simp]: "dm_bind (Inr x, d) f = f x d" by (simp add: dm_bind_def)
lemma dm_bind_Inl [simp]: "dm_bind (Inl e, d) f = (Inl e, d)" by (simp add: dm_bind_def)

lemma ix_init_page_props:
  "length (ix_init_page p n) = PAGE_SIZE" "nd_is_leaf (ix_init_page p n)" "nd_get_size (ix_init_page p n) = 0"
  "nd_is_root (ix_init_page p n)" "int_range p \<Longrightarrow> nd_prev_leaf (ix_init_page p n) = p" "int_range n \<Longrightarrow> nd_next_leaf (ix_init_page p n) = n"
proof -
  have w: "length d = PAGE_SIZE \<Longrightarrow> length (put_int d off x) = PAGE_SIZE" if "off \<le> 20" for d off x
    using that by (simp add: mem_simps PAGE_SIZE_def)
  have l: "length (mem_write d 12 [x]) = length d" if "length d = PAGE_SIZE" for d and x :: byte
    using that by (simp add: mem_simps PAGE_SIZE_def)
  have g: "get_int (mem_write d 12 [x]) off = get_int d off" if "length d = PAGE_SIZE" "off + 4 \<le> 12" for d off x
    using that by (simp add: mem_simps PAGE_SIZE_def)
  have n: "put_int d off x ! 12 = d ! 12" if "length d = PAGE_SIZE" "off = 16 \<or> off = 20" for d off x
    using that by (auto simp: put_int_def nth_mem_write PAGE_SIZE_def)
  have n1: "mem_write d 12 [x] ! 12 = x" if "length d = PAGE_SIZE" for d and x :: byte using that by (simp add: nth_mem_write PAGE_SIZE_def)
  note defs = ix_init_page_def nd_set_next_leaf_def nd_set_prev_leaf_def nd_set_is_leaf_def nd_set_size_def nd_set_parent_def
  show "length (ix_init_page p n) = PAGE_SIZE" by (simp add: defs w l)
  show "nd_is_leaf (ix_init_page p n)" by (simp add: defs nd_is_leaf_def w l n n1)
  have lp: "24 \<le> PAGE_SIZE" by (simp add: PAGE_SIZE_def)
  show "nd_get_size (ix_init_page p n) = 0" "nd_is_root (ix_init_page p n)"
    using lp by (simp_all add: defs nd_get_size_def nd_is_root_def nd_parent_def w l g get_put_int_other get_put_int_same wrap32_id ix_consts)
  show "int_range p \<Longrightarrow> nd_prev_leaf (ix_init_page p n) = p" "int_range n \<Longrightarrow> nd_next_leaf (ix_init_page p n) = n"
    using lp by (simp_all add: defs nd_prev_leaf_def nd_next_leaf_def w l get_put_int_other get_put_int_same wrap32_id)
qed

lemma file_store_ext: "bs \<noteq> [] \<Longrightarrow> length c \<le> off \<Longrightarrow> file_store c off bs = c @ replicate (off - length c) 0 @ bs"
  by (simp add: file_store_def mem_write_def)

lemma first_free_least: "i < first_free xs \<Longrightarrow> xs ! i \<noteq> None"
  by (induction xs arbitrary: i rule: first_free.induct) (auto simp: nth_Cons split: nat.splits)

lemma fd_alloc_least:
  assumes "0 \<le> fd" "fd_inode s fd = None" "\<And>x. 0 \<le> x \<Longrightarrow> x < fd \<Longrightarrow> fd_inode s x \<noteq> None"
  shows "fst (fd_alloc s ino) = fd"
proof -
  have "\<not> nat fd < first_free (fds s)" using first_free_least [of "nat fd" "fds s"] first_free_le [of "fds s"] assms(1,2)
    by (auto simp: fd_inode_def fd_get_def split: if_splits)
  moreover have "\<not> first_free (fds s) < nat fd"
  proof
    assume a: "first_free (fds s) < nat fd"
    then have "fd_inode s (int (first_free (fds s))) \<noteq> None" using assms(3) by simp
    then show False using first_free_nth [of "fds s"] by (auto simp: fd_inode_def fd_get_def split: if_splits)
  qed
  ultimately show ?thesis using assms(1) by (simp add: fd_alloc_def Let_def)
qed

lemma fd_alloc_lower: "fd_alloc s ino = (fd, s') \<Longrightarrow> 0 \<le> x \<Longrightarrow> x < fd \<Longrightarrow> fd_inode s x \<noteq> None"
  using first_free_least [of "nat x" "fds s"] first_free_le [of "fds s"]
  by (auto simp: fd_alloc_def Let_def fd_inode_def fd_get_def)

lemma dm_open_least:
  assumes "dm_open_file d path = (Inr fd, d')" "names (os d) path = Some ino" "path2fd d path = None"
  shows "0 \<le> fd" "0 \<le> x \<Longrightarrow> x < fd \<Longrightarrow> fd_inode (os d) x \<noteq> None"
proof -
  obtain fd0 s where al: "fd_alloc (os d) ino = (fd0, s)" by (cases "fd_alloc (os d) ino")
  have "fd0 = fd" using assms by (auto simp: dm_open_file_def sys_open_def al)
  then show "0 \<le> fd" "0 \<le> x \<Longrightarrow> x < fd \<Longrightarrow> fd_inode (os d) x \<noteq> None"
    using fd_alloc_props(2) [OF al] fd_alloc_lower [OF al] by blast+
qed

text \<open>The bytes of a new index file.\<close>

definition ix_file_image :: "ix_file_hdr \<Rightarrow> bytes" where
  "ix_file_image h = write_ints (replicate PAGE_SIZE 0) 0 (ix_hdr_ints h) @
     ix_init_page IX_INIT_ROOT_PAGE IX_INIT_ROOT_PAGE @ ix_init_page IX_LEAF_HEADER_PAGE IX_LEAF_HEADER_PAGE"

text \<open>A state in which the index file is complete and closed, and \<open>fd\<close> is the next descriptor.\<close>

definition ix_created :: "disk_manager \<Rightarrow> string \<Rightarrow> ix_file_hdr \<Rightarrow> int \<Rightarrow> bool" where
  "ix_created d name h fd \<longleftrightarrow> dm_inv d \<and> path2fd d name = None \<and> 0 \<le> fd \<and> fd_inode (os d) fd = None \<and>
     (\<forall>x. 0 \<le> x \<and> x < fd \<longrightarrow> fd_inode (os d) x \<noteq> None) \<and>
     (\<exists>ino. names (os d) name = Some ino \<and> inodes (os d) ino = ix_file_image h)"

lemma dm_write_ext:
  assumes "dm_inv d" "fd_inode (os d) fd = Some ino" "inodes (os d) ino = c" "bs \<noteq> []" "length c \<le> nat p * PAGE_SIZE"
    "0 \<le> p" "p < 3" "nat p * PAGE_SIZE + length bs \<le> max_bytes (os d)"
  obtains s where "dm_write_page d fd p bs = (Inr (), d\<lparr>os := s\<rparr>)" "posix_same (os d) s" "dm_inv (d\<lparr>os := s\<rparr>)"
    "inodes s ino = c @ replicate (nat p * PAGE_SIZE - length c) 0 @ bs"
proof -
  have ad: "addr_ok d fd p (length bs)" using assms by (simp add: addr_ok_def)
  obtain s where w: "dm_write_page d fd p bs = (Inr (), d\<lparr>os := s\<rparr>)" "posix_same (os d) s"
    "inodes s = (inodes (os d))(ino := file_store (inodes (os d) ino) (nat p * PAGE_SIZE) bs)"
    by (rule dm_write_page_ok [OF ad assms(2)]) blast
  show ?thesis by (rule that [OF w(1,2)]) (use dm_inv_same [OF w(2) assms(1)] w(3) assms(3,4,5) in \<open>simp_all add: file_store_ext\<close>)
qed

lemma dm_inv_pageno [simp]: "dm_inv (dm_set_fd2pageno d fd n) = dm_inv d"
  by (simp add: dm_inv_def dm_set_fd2pageno_def)

lemma posix_same_inode: "posix_same s t \<Longrightarrow> fd_inode t x = fd_inode s x"
  by (simp add: posix_same_def)

lemma ix_header_bytes:
  assumes "ix_hdr_wf h" "ix_tot_len h \<le> 4096" "8 \<le> ix_tot_len h"
  defines "H \<equiv> write_ints (replicate PAGE_SIZE 0) 0 (ix_hdr_ints h)"
  obtains data where "ix_hdr_serialize h (replicate (nat (ix_tot_len h)) 0) = Inr data" "data \<noteq> []" "length data \<le> PAGE_SIZE"
    "data @ replicate (PAGE_SIZE - length data) 0 = H" "length H = PAGE_SIZE"
proof -
  define L where "L = nat (ix_tot_len h)"
  define data where "data = write_ints (replicate L 0) 0 (ix_hdr_ints h)"
  have fit: "L = 4 * length (ix_hdr_ints h)" "L \<le> PAGE_SIZE" "0 < L"
    using ix_hdr_ints_fit [OF assms(1)] assms(2,3) by (auto simp: L_def PAGE_SIZE_def)
  have ld: "length data = L" using fit by (simp add: data_def length_write_ints)
  have zero: "replicate PAGE_SIZE 0 = replicate L 0 @ replicate (PAGE_SIZE - L) (0 :: byte)"
    using fit(2) by (simp add: replicate_add [symmetric])
  have pad: "data @ replicate (PAGE_SIZE - L) 0 = H"
    unfolding zero data_def H_def using fit by (simp add: write_ints_pad)
  have "length H = PAGE_SIZE" using fit by (simp add: H_def length_write_ints)
  then show ?thesis
    by (intro that [of data]) (use ix_hdr_serialize_ints [OF assms(1)] fit ld pad in \<open>auto simp: data_def L_def\<close>)
qed

lemma ix_write_image:
  assumes inv: "dm_inv d" and ino: "fd_inode (os d) fd = Some n" "inodes (os d) n = []"
    and h: "ix_hdr_wf h" "ix_tot_len h \<le> 4096" "8 \<le> ix_tot_len h" and cap: "3 * PAGE_SIZE \<le> max_bytes (os d)"
  obtains data d3 d4 s where "ix_hdr_serialize h (replicate (nat (ix_tot_len h)) 0) = Inr data"
    "dm_write_page d fd 0 data = (Inr (), d3)"
    "dm_write_page d3 fd 1 (ix_init_page IX_INIT_ROOT_PAGE IX_INIT_ROOT_PAGE) = (Inr (), d4)"
    "dm_write_page d4 fd 2 (ix_init_page IX_LEAF_HEADER_PAGE IX_LEAF_HEADER_PAGE) = (Inr (), d\<lparr>os := s\<rparr>)"
    "posix_same (os d) s" "dm_inv (d\<lparr>os := s\<rparr>)" "inodes s n = ix_file_image h"
proof -
  let ?p1 = "ix_init_page IX_INIT_ROOT_PAGE IX_INIT_ROOT_PAGE" and ?p2 = "ix_init_page IX_LEAF_HEADER_PAGE IX_LEAF_HEADER_PAGE"
  let ?H = "write_ints (replicate PAGE_SIZE 0) 0 (ix_hdr_ints h)"
  obtain data where data: "ix_hdr_serialize h (replicate (nat (ix_tot_len h)) 0) = Inr data" "data \<noteq> []" "length data \<le> PAGE_SIZE"
    "data @ replicate (PAGE_SIZE - length data) 0 = ?H" "length ?H = PAGE_SIZE"
    by (rule ix_header_bytes [OF h])
  have lp: "length ?p1 = PAGE_SIZE" "length ?p2 = PAGE_SIZE" by (simp_all add: ix_init_page_props)
  have ne: "?p1 \<noteq> []" "?p2 \<noteq> []" using lp by (auto simp flip: length_greater_0_conv)
  obtain s3 where s3: "dm_write_page d fd 0 data = (Inr (), d\<lparr>os := s3\<rparr>)" "posix_same (os d) s3" "dm_inv (d\<lparr>os := s3\<rparr>)"
    "inodes s3 n = [] @ replicate (nat 0 * PAGE_SIZE - length []) 0 @ data"
    by (rule dm_write_ext [OF inv ino data(2), of 0]) (use cap data in simp_all)
  let ?d3 = "d\<lparr>os := s3\<rparr>"
  have f3: "fd_inode (os ?d3) fd = Some n" "inodes (os ?d3) n = data" using s3 ino by (simp_all add: posix_same_def)
  obtain s4 where s4: "dm_write_page ?d3 fd 1 ?p1 = (Inr (), ?d3\<lparr>os := s4\<rparr>)" "posix_same (os ?d3) s4" "dm_inv (?d3\<lparr>os := s4\<rparr>)"
    "inodes s4 n = data @ replicate (nat 1 * PAGE_SIZE - length data) 0 @ ?p1"
    by (rule dm_write_ext [OF s3(3) f3 ne(1), of 1]) (use cap data s3(2) lp in \<open>simp_all add: posix_same_def\<close>)
  let ?d4 = "?d3\<lparr>os := s4\<rparr>"
  have f4: "fd_inode (os ?d4) fd = Some n" "inodes (os ?d4) n = ?H @ ?p1"
    using s4 f3(1) data(4) by (simp_all add: posix_same_def flip: append_assoc)
  obtain s5 where s5: "dm_write_page ?d4 fd 2 ?p2 = (Inr (), ?d4\<lparr>os := s5\<rparr>)" "posix_same (os ?d4) s5" "dm_inv (?d4\<lparr>os := s5\<rparr>)"
    "inodes s5 n = (?H @ ?p1) @ replicate (nat 2 * PAGE_SIZE - length (?H @ ?p1)) 0 @ ?p2"
    by (rule dm_write_ext [OF s4(3) f4 ne(2), of 2]) (use cap s3(2) s4(2) lp data(5) in \<open>simp_all add: posix_same_def\<close>)
  have img: "inodes s5 n = ix_file_image h" using s5(4) data(5) lp by (simp add: ix_file_image_def)
  have same: "posix_same (os d) s5" using s3(2) s4(2) s5(2) by (simp add: posix_same_def)
  show ?thesis by (rule that [OF data(1) s3(1) s4(1), of s5]) (use s5 img same in simp_all)
qed

lemma ix_create_ok:
  assumes inv: "dm_inv d" and cols: "ix_cols_ok cols" and name: "name = get_index_name_cols fn cols"
    and new: "names (os d) name = None" "path2fd d name = None" and cap: "3 * PAGE_SIZE \<le> max_bytes (os d)"
  obtains d' h fd where "ix_create_index d fn cols = (Inr (), d')" "ix_new_hdr cols = Inr h" "ix_created d' name h fd"
    "fd2pageno d' = (fd2pageno d)(fd := 2)"
proof -
  obtain h where h: "ix_new_hdr cols = Inr h" "ix_hdr_wf h" "ix_tot_len h \<le> 4096" "8 \<le> ix_tot_len h"
    by (rule ix_new_hdr_ok [OF cols]) blast
  let ?n = "next_inode (os d)"
  obtain d1 where d1: "dm_create_file d name = (Inr (), d1)" "disk_ext d d1" "path2fd d1 = path2fd d"
    "names (os d1) name = Some ?n" "inodes (os d1) ?n = []"
    by (rule create_ext [OF inv new(1)])
  have i1: "dm_inv d1" "path2fd d1 name = None" using d1(2,3) new(2) by (simp_all add: disk_ext_def)
  obtain fd d2 where d2: "dm_open_file d1 name = (Inr fd, d2)" "disk_ext d1 d2" "fd_inode (os d1) fd = None"
    "fd_inode (os d2) fd = Some ?n" "inodes (os d2) = inodes (os d1)" "fd2path d2 fd = Some name" "names (os d2) = names (os d1)"
    "\<And>x. x \<noteq> fd \<Longrightarrow> fd_inode (os d2) x = fd_inode (os d1) x" "path2fd d2 = (path2fd d1)(name \<mapsto> fd)"
    by (rule open_ext [OF i1(1) d1(4) i1(2)]) blast
  note low = dm_open_least [OF d2(1) d1(4) i1(2)]
  have e2: "dm_inv d2" "3 * PAGE_SIZE \<le> max_bytes (os d2)" "fd2pageno d2 = fd2pageno d" "inodes (os d2) ?n = []"
    using disk_ext_trans [OF d1(2) d2(2)] cap d2(5) d1(5) by (simp_all add: disk_ext_def)
  obtain data d3 d4 s where w: "ix_hdr_serialize h (replicate (nat (ix_tot_len h)) 0) = Inr data"
    "dm_write_page d2 fd 0 data = (Inr (), d3)"
    "dm_write_page d3 fd 1 (ix_init_page IX_INIT_ROOT_PAGE IX_INIT_ROOT_PAGE) = (Inr (), d4)"
    "dm_write_page d4 fd 2 (ix_init_page IX_LEAF_HEADER_PAGE IX_LEAF_HEADER_PAGE) = (Inr (), d2\<lparr>os := s\<rparr>)"
    "posix_same (os d2) s" "dm_inv (d2\<lparr>os := s\<rparr>)" "inodes s ?n = ix_file_image h"
    by (rule ix_write_image [OF e2(1) d2(4) e2(4) h(2-4) e2(2)])
  let ?d5 = "dm_set_fd2pageno (d2\<lparr>os := s\<rparr>) fd 2"
  have inv5: "dm_inv ?d5" using w(6) by simp
  obtain f where f: "fd_get s fd = Some f" using posix_same_inode [OF w(5), of fd] d2(4) by (auto simp: fd_inode_def)
  define d' where "d' = ?d5\<lparr>os := fd_set s fd None, path2fd := (path2fd d2)(name := None), fd2path := (fd2path d2)(fd := None)\<rparr>"
  have cl: "dm_close_file ?d5 fd = (Inr (), d')"
    using d2(6) f by (simp add: dm_close_file_def dm_set_fd2pageno_def sys_close_def d'_def)
  have ino: "fd_inode (os d') x = fd_inode (os d1) x" for x
    using f posix_same_inode [OF w(5), of x] d2(3,8)
    by (auto simp: d'_def fd_inode_def)
  have "ix_created d' name h fd"
    unfolding ix_created_def using dm_inv_close_file [OF inv5, of fd] cl low d2(3) ino w(5,7) d1(4) d2(7)
    by (auto simp: d'_def posix_same_def)
  moreover have "ix_create_index d fn cols = (Inr (), d')"
    using d1(1) d2(1) h(1) w(1-4) cl by (simp add: ix_create_index_def name [symmetric] ix_consts)
  moreover have "fd2pageno d' = (fd2pageno d)(fd := 2)" using e2(3) by (simp add: d'_def dm_set_fd2pageno_def)
  ultimately show ?thesis using that h(1) by blast
qed

lemma ix_open_ok:
  assumes cr: "ix_created d name h fd" and h: "ix_hdr_wf h" "ix_tot_len h \<le> 4096"
    and name: "name = get_index_name_cols fn cols"
  obtains d' where "ix_open_index_cols d fn cols = (Inr (fd, h), d')" "fd2pageno d' = (fd2pageno d)(fd := fd2pageno d fd + 1)"
    "dm_inv d'" "dm_page d' fd 1 = Some (ix_init_page 2 2)" "dm_page d' fd 2 = Some (ix_init_page 1 1)"
proof -
  obtain ino where c: "dm_inv d" "path2fd d name = None" "0 \<le> fd" "fd_inode (os d) fd = None"
    "\<And>x. 0 \<le> x \<Longrightarrow> x < fd \<Longrightarrow> fd_inode (os d) x \<noteq> None" "names (os d) name = Some ino" "inodes (os d) ino = ix_file_image h"
    using cr by (auto simp: ix_created_def)
  obtain fd' d1 where d1: "dm_open_file d name = (Inr fd', d1)" "disk_ext d d1" "fd_inode (os d1) fd' = Some ino" "inodes (os d1) = inodes (os d)"
    by (rule open_ext [OF c(1,6,2)]) blast
  have fd: "fd' = fd"
    using d1(1) c(2,6) fd_alloc_least [OF c(3,4,5), of ino] by (auto simp: dm_open_file_def sys_open_def split: prod.splits)
  have H: "length (write_ints (replicate PAGE_SIZE 0) 0 (ix_hdr_ints h)) = PAGE_SIZE"
    using ix_hdr_ints_fit [OF h(1)] h(2) by (simp add: length_write_ints PAGE_SIZE_def)
  have l: "length (ix_file_image h) = 3 * PAGE_SIZE" using H by (simp add: ix_file_image_def ix_init_page_props)
  have i1: "inodes (os d1) ino = ix_file_image h" using d1(4) c(7) by simp
  obtain s2 where s2: "dm_read_page d1 fd 0 (replicate 8 0) 8 = (take 8 (inodes (os d1) ino), Inr (), d1\<lparr>os := s2\<rparr>)"
    "posix_same (os d1) s2" "inodes s2 = inodes (os d1)"
    by (rule dm_read_prefix [of d1 fd ino 8 "replicate 8 0"]) (use d1(3) fd i1 l in \<open>simp_all add: PAGE_SIZE_def\<close>)
  let ?d2 = "d1\<lparr>os := s2\<rparr>"
  have i2: "fd_inode (os ?d2) fd = Some ino" "inodes (os ?d2) ino = ix_file_image h" using s2 d1(3) fd i1 by (simp_all add: posix_same_def)
  obtain s3 where s3: "dm_read_page ?d2 fd 0 (replicate PAGE_SIZE 0) PAGE_SIZE = (take PAGE_SIZE (inodes (os ?d2) ino), Inr (), ?d2\<lparr>os := s3\<rparr>)"
    "posix_same (os ?d2) s3" "inodes s3 = inodes (os ?d2)"
    by (rule dm_read_prefix [of ?d2 fd ino PAGE_SIZE "replicate PAGE_SIZE 0"]) (use i2 l in simp_all)
  let ?d3 = "d1\<lparr>os := s3\<rparr>"
  have tk: "take PAGE_SIZE (ix_file_image h) = write_ints (replicate PAGE_SIZE 0) 0 (ix_hdr_ints h)" using H by (simp add: ix_file_image_def)
  have de: "ix_hdr_deserialize (take PAGE_SIZE (ix_file_image h)) = Inr h"
    unfolding tk using ix_hdr_deserialize_ints [OF h(1), of "replicate PAGE_SIZE 0"] h(2) by (simp add: PAGE_SIZE_def)
  define d' where "d' = dm_set_fd2pageno ?d3 fd (fd2pageno d1 fd + 1)"
  have res: "ix_open_index_cols d fn cols = (Inr (fd, h), d')"
    using d1(1) s2(1) s3(1) de i2(2) fd by (simp add: ix_open_index_cols_def name [symmetric] ix_handle_new_def IX_FILE_HDR_PAGE_def d'_def)
  have same: "posix_same (os d1) s3" using s2(2) s3(2) by (simp add: posix_same_def)
  have e: "dm_inv d1" "fd2pageno d1 = fd2pageno d" using d1(2) by (simp_all add: disk_ext_def)
  have inv: "dm_inv d'" using dm_inv_same [OF same e(1)] by (simp add: d'_def)
  have df: "dm_file d' fd = Some (ix_file_image h)"
    using same d1(3) fd s3(3) i2(2) by (simp add: d'_def dm_file_def dm_set_fd2pageno_def posix_same_def)
  show ?thesis by (rule that [OF res _ inv])
    (use e df H l in \<open>simp_all add: d'_def dm_set_fd2pageno_def dm_page_def ix_file_image_def mem_read_def ix_consts ix_init_page_props\<close>)
qed

text \<open>
  The page counter of an index is not stored: a process that opens a complete index file for
  the first time, its counters being zero, allocates page 1 and then page 2 as its next index
  pages, although page 1 is the header of the leaf list and page 2 the first root.
\<close>
theorem reopened_index_reuses_pages:
  assumes "ix_created d (get_index_name_cols fn cols) h fd" and "ix_hdr_wf h" and "ix_tot_len h \<le> 4096"
    and "fd2pageno d fd = 0" and "fd < MAX_FD"
  shows "\<exists>d1 d2 d3. ix_open_index_cols d fn cols = (Inr (fd, h), d1) \<and>
    dm_allocate_page d1 fd = (Inr IX_LEAF_HEADER_PAGE, d2) \<and> dm_allocate_page d2 fd = (Inr IX_INIT_ROOT_PAGE, d3) \<and>
    dm_page d3 fd IX_INIT_ROOT_PAGE = Some (ix_init_page IX_LEAF_HEADER_PAGE IX_LEAF_HEADER_PAGE)"
proof -
  obtain d' where o: "ix_open_index_cols d fn cols = (Inr (fd, h), d')" "fd2pageno d' = (fd2pageno d)(fd := fd2pageno d fd + 1)"
    "dm_inv d'" "dm_page d' fd 1 = Some (ix_init_page 2 2)" "dm_page d' fd 2 = Some (ix_init_page 1 1)"
    by (rule ix_open_ok [OF assms(1-3) refl])
  have "0 \<le> fd" using assms(1) by (simp add: ix_created_def)
  then show ?thesis using o assms(4,5) by (simp add: dm_allocate_page_def ix_consts wrap32_id int_range_def) (simp add: dm_page_def dm_file_def)
qed

text \<open>A process that has just started, with the index file \<open>name\<close> in its directory.\<close>

definition restarted_disk :: "string \<Rightarrow> ix_file_hdr \<Rightarrow> disk_manager" where
  "restarted_disk name h = dm_new ((posix_init 1000000)
     \<lparr>names := [name \<mapsto> 3], inodes := (\<lambda>_. [])(3 := ix_file_image h), next_inode := 4\<rparr>)"

lemma restarted_created: "ix_created (restarted_disk name h) name h 3"
proof -
  have g: "fd_inode (os (restarted_disk name h)) x = fd_inode (posix_init 1000000) x" for x
    by (simp add: restarted_disk_def dm_new_def fd_inode_def)
  have i: "fd_inode (posix_init 1000000) x = (if x \<in> {0, 1, 2} then Some (nat x) else None)" for x
    by (auto simp: posix_init_def fd_inode_def fd_get_def nth_Cons split: nat.splits)
  have f: "names (os (restarted_disk name h)) = [name \<mapsto> 3]" "next_inode (os (restarted_disk name h)) = 4"
    "path2fd (restarted_disk name h) = Map.empty" "fd2path (restarted_disk name h) = Map.empty"
    "inodes (os (restarted_disk name h)) 3 = ix_file_image h"
    by (simp_all add: restarted_disk_def dm_new_def)
  have "dm_inv (restarted_disk name h)" by (rule dm_invI) (auto simp: g i f split: if_splits)
  then show ?thesis using f by (auto simp: ix_created_def g i)
qed

theorem reopened_index_reuses_pages_witness:
  "\<exists>d1 d2. ix_open_index_cols (restarted_disk ''u_a.idx'' sample_ix_hdr) ''u'' [demo_col ''a'' 0] = (Inr (3, sample_ix_hdr), d1) \<and>
     dm_allocate_page d1 3 = (Inr IX_LEAF_HEADER_PAGE, d2)"
proof -
  have n: "get_index_name_cols ''u'' [demo_col ''a'' 0] = ''u_a.idx''" by (simp add: get_index_name_cols_def demo_col_def)
  have "ix_hdr_wf sample_ix_hdr" "ix_tot_len sample_ix_hdr \<le> 4096"
    by (simp_all add: ix_hdr_wf_def sample_ix_hdr_def update_tot_len_def new_ix_file_hdr_def ix_consts)
  moreover have "fd2pageno (restarted_disk ''u_a.idx'' sample_ix_hdr) 3 = 0" "(3 :: int) < MAX_FD"
    by (simp_all add: restarted_disk_def dm_new_def MAX_FD_def)
  ultimately show ?thesis
    using reopened_index_reuses_pages [of "restarted_disk ''u_a.idx'' sample_ix_hdr" "''u''" "[demo_col ''a'' 0]" sample_ix_hdr 3]
      restarted_created [of "''u_a.idx''" sample_ix_hdr] n by auto
qed

end
