(* ===== verification/Txn_Manager.thy ===== *)
theory Txn_Manager
  imports Log_Pool Lock_Manager Ix_Tree Ix_Manager
begin

text \<open>
  Transactions (\<^verbatim>\<open>src/src/transaction/transaction.h\<close>, \<^verbatim>\<open>txn_defs.h\<close> and
  \<^verbatim>\<open>transaction_manager.{h,cpp}\<close>): beginning, committing, rolling back, and the static checkpoint,
  over the tables, the catalogue, the indexes, the log and the lock manager, which are the fields
  of one system state.

  The main result is that a rollback takes back everything: the tables are those the transaction
  found, whatever it did to them in between, its locks are released and the abort record is in
  the log file.

  The lock set of a transaction is a field of the lock manager's model. The loop that releases it
  visits an \<^verbatim>\<open>unordered_set\<close>, so its order is an argument. Index operations take fuel; running out
  of it is the result \<open>None\<close>.
\<close>

section \<open>Transactions\<close>

datatype txn_state = DEFAULT | GROWING | SHRINKING | COMMITTED | ABORTED

datatype isolation_level = READ_UNCOMMITTED | REPEATABLE_READ | READ_COMMITTED | SERIALIZABLE

datatype wtype = INSERT_TUPLE | DELETE_TUPLE | UPDATE_TUPLE

record write_record =
  wr_type :: wtype
  wr_tab :: string
  wr_rid :: rid
  wr_rec :: bytes

text \<open>The record of an insertion is default constructed: it has no data.\<close>

definition insert_write_record :: "string \<Rightarrow> rid \<Rightarrow> write_record" where
  "insert_write_record n r = \<lparr>wr_type = INSERT_TUPLE, wr_tab = n, wr_rid = r, wr_rec = []\<rparr>"

definition value_write_record :: "wtype \<Rightarrow> string \<Rightarrow> rid \<Rightarrow> bytes \<Rightarrow> write_record" where
  "value_write_record w n r b = \<lparr>wr_type = w, wr_tab = n, wr_rid = r, wr_rec = b\<rparr>"

record transaction =
  tx_id :: txn_id
  tx_mode :: bool
  tx_state :: txn_state
  tx_isolation :: isolation_level
  tx_thread :: int
  tx_prev_lsn :: lsn
  tx_start_ts :: int
  tx_write_set :: "write_record list"

text \<open>The constructor leaves \<^verbatim>\<open>txn_mode_\<close> and \<^verbatim>\<open>start_ts_\<close> uninitialised: \<open>junk\<close>.\<close>

definition new_transaction :: "txn_id \<Rightarrow> int \<Rightarrow> bool \<Rightarrow> int \<Rightarrow> transaction" where
  "new_transaction t thread junk_mode junk_ts =
     \<lparr>tx_id = t, tx_mode = junk_mode, tx_state = DEFAULT, tx_isolation = SERIALIZABLE, tx_thread = thread,
      tx_prev_lsn = INVALID_LSN, tx_start_ts = junk_ts, tx_write_set = []\<rparr>"

definition append_write_record :: "transaction \<Rightarrow> write_record \<Rightarrow> transaction" where
  "append_write_record x w = x\<lparr>tx_write_set := tx_write_set x @ [w]\<rparr>"

section \<open>The system\<close>

record tm_sys =
  sys_db :: rm_db
  sys_meta :: db_meta
  sys_ihs :: "string \<rightharpoonup> ix_handle"
  sys_log :: log_mgr
  sys_locks :: lock_manager
  txn_map :: "txn_id \<rightharpoonup> transaction"
  next_txn_id :: txn_id
  next_timestamp :: int

text \<open>
  How a call ends other than by returning: an exception of the engine, the exception of the lock
  manager, \<^verbatim>\<open>std::out_of_range\<close> of a map access, a null dereference in the lock manager, or the
  calling thread blocked: in a lock call, or in the checkpoint until all transactions have ended.
\<close>

datatype tm_error = TmError rmdb_error | TmAbort txn_id abort_reason | TmOutOfRange | TmCrash | TmBlocked | TmWaiting

type_synonym 'a tmm = "tm_sys \<Rightarrow> ((tm_error + 'a) \<times> tm_sys) option"

definition tm_ret :: "'a \<Rightarrow> 'a tmm" where "tm_ret x s = Some (Inr x, s)"
definition tm_throw :: "tm_error \<Rightarrow> 'a tmm" where "tm_throw e s = Some (Inl e, s)"

definition tm_bind :: "'a tmm \<Rightarrow> ('a \<Rightarrow> 'b tmm) \<Rightarrow> 'b tmm" where
  "tm_bind m f s =
     (case m s of
        None \<Rightarrow> None
      | Some (Inl e, s') \<Rightarrow> Some (Inl e, s')
      | Some (Inr x, s') \<Rightarrow> f x s')"

definition tm_lift :: "rmdb_error + 'a \<Rightarrow> 'a tmm" where
  "tm_lift r s = Some (case r of Inl e \<Rightarrow> Inl (TmError e) | Inr x \<Rightarrow> Inr x, s)"

fun tm_each :: "'a list \<Rightarrow> ('a \<Rightarrow> unit tmm) \<Rightarrow> unit tmm" where
  "tm_each [] f = tm_ret ()"
| "tm_each (x # xs) f = tm_bind (f x) (\<lambda>_. tm_each xs f)"

definition on_db :: "(rm_db \<Rightarrow> ('a, rm_db) outcome) \<Rightarrow> 'a tmm" where
  "on_db op s = (case op (sys_db s) of (r, db) \<Rightarrow> tm_lift r (s\<lparr>sys_db := db\<rparr>))"

text \<open>The log is written through the disk manager of the pool.\<close>

definition on_log :: "(log_mgr \<Rightarrow> disk_manager \<Rightarrow> ('a, log_mgr \<times> disk_manager) outcome) \<Rightarrow> 'a tmm" where
  "on_log op s =
     (case op (sys_log s) (disk (pool (sys_db s))) of (r, (g, d)) \<Rightarrow>
        tm_lift r (s\<lparr>sys_log := g, sys_db := (sys_db s)\<lparr>pool := (pool (sys_db s))\<lparr>disk := d\<rparr>\<rparr>\<rparr>))"

definition on_index :: "string \<Rightarrow> 'a ixm \<Rightarrow> 'a tmm" where
  "on_index n op s =
     (case sys_ihs s n of
        None \<Rightarrow> Some (Inl TmOutOfRange, s)
      | Some ih \<Rightarrow>
          (case op ih of
             None \<Rightarrow> None
           | Some (r, ih') \<Rightarrow> tm_lift r (s\<lparr>sys_ihs := (sys_ihs s)(n \<mapsto> ih')\<rparr>)))"

definition get_txn :: "txn_id \<Rightarrow> transaction tmm" where
  "get_txn t s = (case txn_map s t of None \<Rightarrow> Some (Inl TmCrash, s) | Some x \<Rightarrow> Some (Inr x, s))"

definition upd_txn :: "txn_id \<Rightarrow> (transaction \<Rightarrow> transaction) \<Rightarrow> unit tmm" where
  "upd_txn t f = tm_bind (get_txn t) (\<lambda>x s. Some (Inr (), s\<lparr>txn_map := (txn_map s)(t \<mapsto> f x)\<rparr>))"

text \<open>A log record chained to the transaction's previous one.\<close>

definition log_txn :: "txn_id \<Rightarrow> log_record \<Rightarrow> unit tmm" where
  "log_txn t r =
     tm_bind (get_txn t) (\<lambda>x.
     tm_bind (on_log (\<lambda>g d. lgm_add g d (map_base (lb_prev_lsn_update (\<lambda>_. tx_prev_lsn x)) r))) (\<lambda>l.
       upd_txn t (tx_prev_lsn_update (\<lambda>_. l))))"

definition release_locks :: "txn_id \<Rightarrow> lock_data_id list \<Rightarrow> unit tmm" where
  "release_locks t ord s = Some (Inr (), s\<lparr>sys_locks := fold (\<lambda>i lm. release_lock lm t i) ord (sys_locks s)\<rparr>)"

section \<open>Begin and commit\<close>

definition tm_begin :: "txn_id option \<Rightarrow> int \<Rightarrow> bool \<Rightarrow> int \<Rightarrow> txn_id tmm" where
  "tm_begin txn thread junk_mode junk_ts =
     (case txn of
        Some t \<Rightarrow> tm_ret t
      | None \<Rightarrow> (\<lambda>s.
          let t = next_txn_id s;
              x = (new_transaction t thread junk_mode junk_ts)\<lparr>tx_start_ts := next_timestamp s\<rparr>
          in tm_bind (log_txn t (new_begin_log t)) (\<lambda>_.
             tm_bind (upd_txn t (tx_state_update (\<lambda>_. DEFAULT))) (\<lambda>_. tm_ret t))
             (s\<lparr>txn_map := (txn_map s)(t \<mapsto> x), next_txn_id := wrap32 (next_txn_id s + 1),
                next_timestamp := wrap32 (next_timestamp s + 1)\<rparr>)))"

definition tm_commit :: "txn_id \<Rightarrow> lock_data_id list \<Rightarrow> unit tmm" where
  "tm_commit t ord =
     tm_bind (log_txn t (new_commit_log t)) (\<lambda>_.
     tm_bind (upd_txn t (tx_write_set_update (\<lambda>_. []))) (\<lambda>_.
     tm_bind (release_locks t ord) (\<lambda>_.
     tm_bind (on_log lgm_flush) (\<lambda>_.
       upd_txn t (tx_state_update (\<lambda>_. COMMITTED))))))"

section \<open>Rollback\<close>

text \<open>The columns of an index, one after the other, out of a record.\<close>

definition index_key :: "index_meta \<Rightarrow> bytes \<Rightarrow> bytes" where
  "index_key ix rec = concat (map (\<lambda>c. mem_read rec (nat (cm_offset c)) (nat (cm_len c))) (take (nat (im_col_num ix)) (im_cols ix)))"

text \<open>\<^verbatim>\<open>get_record\<close> with a context: the shared lock on the table comes first.\<close>

definition get_record_locked :: "txn_id \<Rightarrow> string \<Rightarrow> rid \<Rightarrow> bytes tmm" where
  "get_record_locked t n r s =
     (case fhs (sys_db s) n of
        None \<Rightarrow> Some (Inl TmOutOfRange, s)
      | Some h \<Rightarrow>
          (case lock_shared_on_table (sys_locks s) t (rm_fd h) of
             (LockTrue, lm) \<Rightarrow>
               on_db (\<lambda>db. on_table db n (\<lambda>(h, p). case rm_get_record h p r of (res, p') \<Rightarrow> (res, (h, p')))) (s\<lparr>sys_locks := lm\<rparr>)
           | (LockWait w, lm) \<Rightarrow> Some (Inl TmBlocked, s\<lparr>sys_locks := lm\<rparr>)
           | (LockAbort t' why, lm) \<Rightarrow> Some (Inl (TmAbort t' why), s\<lparr>sys_locks := lm\<rparr>)
           | (LockCrash, lm) \<Rightarrow> Some (Inl TmCrash, s\<lparr>sys_locks := lm\<rparr>)))"

definition abort_index :: "nat \<Rightarrow> txn_id \<Rightarrow> tab_meta \<Rightarrow> write_record \<Rightarrow> index_meta \<Rightarrow> unit tmm" where
  "abort_index k t tab w ix =
     (let n = wr_tab w; name = get_index_name_cols n (im_cols ix) in
      tm_bind (on_index name (ix_ret ())) (\<lambda>_.
      tm_bind (tm_lift (get_col_total_len tab)) (\<lambda>_.
      tm_bind (if wr_type w = DELETE_TUPLE then tm_ret (wr_rec w) else get_record_locked t n (wr_rid w)) (\<lambda>rec.
        let key = index_key ix rec in
        (case wr_type w of
           INSERT_TUPLE \<Rightarrow> tm_bind (on_index name (delete_entry k key (Some (wr_rid w)))) (\<lambda>_. tm_ret ())
         | DELETE_TUPLE \<Rightarrow> tm_bind (on_index name (insert_entry k key (wr_rid w))) (\<lambda>_. tm_ret ())
         | UPDATE_TUPLE \<Rightarrow>
             tm_bind (on_index name (delete_entry k key (Some (wr_rid w)))) (\<lambda>_.
             tm_bind (on_index name (insert_entry k (index_key ix (wr_rec w)) (wr_rid w))) (\<lambda>_. tm_ret ())))))))"

definition abort_write :: "nat \<Rightarrow> txn_id \<Rightarrow> write_record \<Rightarrow> unit tmm" where
  "abort_write k t w =
     (\<lambda>s. tm_bind (tm_lift (get_table (sys_meta s) (wr_tab w))) (\<lambda>tab.
          tm_bind (\<lambda>s. if fhs (sys_db s) (wr_tab w) = None then Some (Inl TmOutOfRange, s) else Some (Inr (), s)) (\<lambda>_.
          tm_bind (if wr_type w = DELETE_TUPLE then on_db (\<lambda>db. db_insert_at db (wr_tab w) (wr_rid w) (wr_rec w)) else tm_ret ()) (\<lambda>_.
          tm_bind (tm_each (tm_indexes tab) (abort_index k t tab w)) (\<lambda>_.
            (case wr_type w of
               INSERT_TUPLE \<Rightarrow> on_db (\<lambda>db. db_delete db (wr_tab w) (wr_rid w))
             | UPDATE_TUPLE \<Rightarrow> on_db (\<lambda>db. db_update db (wr_tab w) (wr_rid w) (wr_rec w))
             | DELETE_TUPLE \<Rightarrow> tm_ret ()))))) s)"

text \<open>The loop over the write set from its back; \<open>ws\<close> is what is left of it, last record first.\<close>

fun abort_writes :: "nat \<Rightarrow> txn_id \<Rightarrow> write_record list \<Rightarrow> unit tmm" where
  "abort_writes k t [] = tm_ret ()"
| "abort_writes k t (w # ws) =
     tm_bind (upd_txn t (tx_write_set_update (\<lambda>_. rev ws))) (\<lambda>_.
     tm_bind (abort_write k t w) (\<lambda>_. abort_writes k t ws))"

definition tm_abort :: "nat \<Rightarrow> txn_id \<Rightarrow> lock_data_id list \<Rightarrow> unit tmm" where
  "tm_abort k t ord =
     tm_bind (log_txn t (new_abort_log t)) (\<lambda>_.
     tm_bind (get_txn t) (\<lambda>x.
     tm_bind (abort_writes k t (rev (tx_write_set x))) (\<lambda>_.
     tm_bind (release_locks t ord) (\<lambda>_.
     tm_bind (on_log lgm_flush) (\<lambda>_.
     tm_bind (upd_txn t (tx_state_update (\<lambda>_. ABORTED))) (\<lambda>_.
       upd_txn t (tx_write_set_update (\<lambda>_. []))))))))"

section \<open>Checkpoint and bookkeeping\<close>

definition txn_ended :: "transaction \<Rightarrow> bool" where
  "txn_ended x \<longleftrightarrow> tx_state x = COMMITTED \<or> tx_state x = ABORTED"

text \<open>
  The condition variable is left only when every transaction of the map, listed in \<open>ts\<close>, has
  ended; before that the thread waits.
\<close>

definition create_static_checkpoint :: "txn_id \<Rightarrow> lock_data_id list \<Rightarrow> txn_id list \<Rightarrow> page_id list \<Rightarrow> unit tmm" where
  "create_static_checkpoint t ord ts porder =
     tm_bind (tm_commit t ord) (\<lambda>_.
     tm_bind (\<lambda>s. if list_all (\<lambda>t. case txn_map s t of None \<Rightarrow> True | Some x \<Rightarrow> txn_ended x) ts
                  then Some (Inr (), s) else Some (Inl TmWaiting, s)) (\<lambda>_.
     tm_bind (on_db (\<lambda>db. case bpm_flush_all_pages (pool db) porder of (r, p) \<Rightarrow> (r, db\<lparr>pool := p\<rparr>))) (\<lambda>_.
     tm_bind (on_log (\<lambda>g d. lgm_add_static_CKPT g d new_ckpt_log)) (\<lambda>_. tm_ret ()))))"

definition release_txn :: "txn_id option \<Rightarrow> unit tmm" where
  "release_txn txn s = Some (Inr (), case txn of None \<Rightarrow> s | Some t \<Rightarrow> s\<lparr>txn_map := (txn_map s)(t := None)\<rparr>)"

definition get_transaction :: "txn_id \<Rightarrow> int \<Rightarrow> transaction option tmm" where
  "get_transaction t thread s =
     (if t = INVALID_TXN_ID then Some (Inr None, s)
      else case txn_map s t of
             None \<Rightarrow> Some (Inl (TmError AssertFailure), s)
           | Some x \<Rightarrow> if tx_thread x = thread then Some (Inr (Some x), s) else Some (Inl (TmError AssertFailure), s))"

section \<open>Taking back the writes\<close>

text \<open>The write record the executors append for a change of a row.\<close>

fun write_of :: "row_op \<Rightarrow> write_record" where
  "write_of (RowInsert n r b) = insert_write_record n r"
| "write_of (RowDelete n r b) = value_write_record DELETE_TUPLE n r b"
| "write_of (RowUpdate n r b c) = value_write_record UPDATE_TUPLE n r b"

definition no_indexes :: "db_meta \<Rightarrow> string \<Rightarrow> bool" where
  "no_indexes m n \<longleftrightarrow> (\<exists>tab. get_table m n = Inr tab \<and> tm_indexes tab = [])"

lemma tm_bind_simps [simp]:
  "tm_bind (tm_ret x) f s = f x s" "m s = Some (Inr x, s') \<Longrightarrow> tm_bind m f s = f x s'"
  by (simp_all add: tm_bind_def tm_ret_def)

lemma upd_txn_simp: "txn_map s t = Some x \<Longrightarrow> upd_txn t f s = Some (Inr (), s\<lparr>txn_map := (txn_map s)(t \<mapsto> f x)\<rparr>)"
  by (simp add: upd_txn_def tm_bind_def get_txn_def)

lemma undo_op_file:
  assumes "db_ok db" "log_apart ino (disk (pool db))"
  shows "keeps_file ino (disk (pool db)) (disk (pool (snd (rdb.undo_op p db))))"
  using db_ops_file [OF assms] by (cases p) simp_all

lemma abort_write_undo:
  assumes m: "no_indexes (sys_meta s) (fst (row_key p))" and fit: "rdb.op_fits (sys_db s) p"
    and u: "rdb.undo_op p (sys_db s) = (Inr (), db')"
  shows "abort_write k t (write_of p) s = Some (Inr (), s\<lparr>sys_db := db'\<rparr>)"
proof -
  obtain tab where tab: "get_table (sys_meta s) (fst (row_key p)) = Inr tab" "tm_indexes tab = []" using m by (auto simp: no_indexes_def)
  have fh: "fhs (sys_db s) (fst (row_key p)) \<noteq> None" using fit by (cases p) (auto simp: db_fits_def)
  show ?thesis using tab fh u
    by (cases p) (auto simp: abort_write_def insert_write_record_def value_write_record_def tm_bind_def tm_lift_def on_db_def tm_ret_def)
qed

lemma abort_writes_undo:
  assumes "db_ok (sys_db s)" "log_apart ino (disk (pool (sys_db s)))" "\<forall>p \<in> set qs. rdb.op_fits (sys_db s) p"
    "\<forall>p \<in> set qs. no_indexes (sys_meta s) (fst (row_key p))" "txn_map s t = Some x" "tx_write_set x = rev (map write_of qs)"
  shows "\<exists>db'. abort_writes k t (map write_of qs) s =
      Some (Inr (), s\<lparr>sys_db := db', txn_map := (txn_map s)(t \<mapsto> x\<lparr>tx_write_set := []\<rparr>)\<rparr>) \<and>
    db_ok db' \<and> db_tab db' = fold undo_row qs (db_tab (sys_db s)) \<and> keeps_file ino (disk (pool (sys_db s))) (disk (pool db'))"
  using assms
proof (induction qs arbitrary: s x)
  case Nil
  then have "x\<lparr>tx_write_set := []\<rparr> = x" by (cases x) simp
  moreover have "(txn_map s)(t \<mapsto> x) = txn_map s" using Nil by (simp add: fun_upd_idem)
  ultimately have e: "s\<lparr>sys_db := sys_db s, txn_map := (txn_map s)(t \<mapsto> x\<lparr>tx_write_set := []\<rparr>)\<rparr> = s" by simp
  have "abort_writes k t (map write_of []) s =
      Some (Inr (), s\<lparr>sys_db := sys_db s, txn_map := (txn_map s)(t \<mapsto> x\<lparr>tx_write_set := []\<rparr>)\<rparr>)"
    unfolding e by (simp add: tm_ret_def)
  then show ?case
  proof (intro exI conjI)
    show "db_ok (sys_db s)" by (rule Nil(1))
  qed (assumption, simp_all)
next
  case (Cons p qs)
  have p: "rdb.op_fits (sys_db s) p" "no_indexes (sys_meta s) (fst (row_key p))" using Cons.prems(3,4) by simp_all
  let ?x1 = "x\<lparr>tx_write_set := rev (map write_of qs)\<rparr>"
  let ?s1 = "s\<lparr>txn_map := (txn_map s)(t \<mapsto> ?x1)\<rparr>"
  obtain db1 where u: "rdb.undo_op p (sys_db s) = (Inr (), db1)" "db_ok db1" "db_tab db1 = undo_row p (db_tab (sys_db s))"
    "db_fits db1 = db_fits (sys_db s)"
    by (rule rdb.undo_op_row [OF Cons.prems(1) p(1)])
  have k1: "keeps_file ino (disk (pool (sys_db s))) (disk (pool db1))"
    using undo_op_file [OF Cons.prems(1,2), of p] u(1) by simp
  let ?s2 = "?s1\<lparr>sys_db := db1\<rparr>"
  have step: "abort_write k t (write_of p) ?s1 = Some (Inr (), ?s2)"
    by (rule abort_write_undo) (use p u(1) in simp_all)
  have fit: "\<forall>q \<in> set qs. rdb.op_fits db1 q" using Cons.prems(3) rdb.op_fits_cong [OF u(4)] by simp
  have ap: "log_apart ino (disk (pool db1))" using log_apart_keeps [OF Cons.prems(2) k1] by blast
  have "\<exists>db'. abort_writes k t (map write_of qs) ?s2 =
      Some (Inr (), ?s2\<lparr>sys_db := db', txn_map := (txn_map ?s2)(t \<mapsto> ?x1\<lparr>tx_write_set := []\<rparr>)\<rparr>) \<and>
    db_ok db' \<and> db_tab db' = fold undo_row qs (db_tab (sys_db ?s2)) \<and> keeps_file ino (disk (pool (sys_db ?s2))) (disk (pool db'))"
    by (rule Cons.IH) (use u(2) ap fit Cons.prems(4) in simp_all)
  then obtain db' where db': "abort_writes k t (map write_of qs) ?s2 =
      Some (Inr (), ?s2\<lparr>sys_db := db', txn_map := (txn_map ?s2)(t \<mapsto> ?x1\<lparr>tx_write_set := []\<rparr>)\<rparr>)"
    "db_ok db'" "db_tab db' = fold undo_row qs (db_tab db1)" "keeps_file ino (disk (pool db1)) (disk (pool db'))"
    by auto
  have up: "upd_txn t (tx_write_set_update (\<lambda>_. rev (map write_of qs))) s = Some (Inr (), ?s1)"
    by (simp add: upd_txn_simp [OF Cons.prems(5)])
  have "abort_writes k t (map write_of (p # qs)) s =
      Some (Inr (), s\<lparr>sys_db := db', txn_map := (txn_map s)(t \<mapsto> x\<lparr>tx_write_set := []\<rparr>)\<rparr>)"
    by (simp add: up step db'(1))
  moreover have "db_tab db' = fold undo_row (p # qs) (db_tab (sys_db s))" using db'(3) u(3) by simp
  ultimately show ?case using db'(2) keeps_file_trans [OF k1 db'(4)] by blast
qed

lemma release_locks_set: "lock_set (fold (\<lambda>i lm. release_lock lm t i) ord lm) t = lock_set lm t - set ord"
proof (induction ord arbitrary: lm)
  case (Cons i ord)
  have "lock_set (release_lock lm t i) t = lock_set lm t - {i}"
    by (auto simp: release_lock_def unlock_def Let_def put_queue_def split: option.splits)
  then show ?case by (simp add: Cons.IH) blast
qed simp

section \<open>The log records of a transaction\<close>

definition chained :: "transaction \<Rightarrow> log_record \<Rightarrow> log_record" where
  "chained x r = map_base (lb_prev_lsn_update (\<lambda>_. tx_prev_lsn x)) r"

text \<open>The log is usable and the file can take all of it and \<open>n\<close> bytes more.\<close>

definition sys_log_ok :: "nat \<Rightarrow> nat \<Rightarrow> tm_sys \<Rightarrow> bool" where
  "sys_log_ok ino n s \<longleftrightarrow> lgm_inv (sys_log s) (disk (pool (sys_db s))) \<and> log_apart ino (disk (pool (sys_db s))) \<and>
     length (log_contents (sys_log s) (disk (pool (sys_db s)))) + n \<le> max_bytes (os (disk (pool (sys_db s))))"

abbreviation sys_log_contents :: "tm_sys \<Rightarrow> bytes" where
  "sys_log_contents s \<equiv> log_contents (sys_log s) (disk (pool (sys_db s)))"

lemma log_contents_room:
  "lgm_inv g d \<Longrightarrow> length (log_contents g d) \<le> max_bytes (os d) \<Longrightarrow> log_room d (log_off g)"
  by (simp add: lgm_inv_def log_contents_def log_room_def)

lemma log_txn_ok:
  assumes x: "txn_map s t = Some x" and db: "db_ok (sys_db s)" and r: "log_ok (chained x r)" and n: "n = length (log_bytes r)" "n \<le> LOG_BUFFER_SIZE"
    and lg: "sys_log_ok ino n s"
  obtains g' d' where
    "log_txn t r s = Some (Inr (), s\<lparr>sys_log := g', sys_db := with_disk (sys_db s) d',
       txn_map := (txn_map s)(t \<mapsto> x\<lparr>tx_prev_lsn := global_lsn (sys_log s)\<rparr>)\<rparr>)"
    "db_ok (with_disk (sys_db s) d')" "db_tab (with_disk (sys_db s) d') = db_tab (sys_db s)"
    "db_fits (with_disk (sys_db s) d') = db_fits (sys_db s)" "lgm_inv g' d'" "log_apart ino d'"
    "log_contents g' d' = sys_log_contents s @ log_bytes (with_lsn (global_lsn (sys_log s)) (chained x r))"
    "max_bytes (os d') = max_bytes (os (disk (pool (sys_db s))))"
proof -
  let ?g = "sys_log s" and ?d = "disk (pool (sys_db s))" and ?r = "chained x r"
  have l: "lgm_inv ?g ?d" "log_apart ino ?d" "length (log_contents ?g ?d) + n \<le> max_bytes (os ?d)"
    using lg by (simp_all add: sys_log_ok_def)
  have len: "length (log_bytes ?r) \<le> LOG_BUFFER_SIZE" using n by (simp add: chained_def)
  have room: "log_room ?d (log_off ?g)" by (rule log_contents_room) (use l in simp_all)
  obtain g' d' where a: "lgm_add ?g ?d ?r = (Inr (global_lsn ?g), (g', d'))" "lgm_inv g' d'"
    "log_contents g' d' = log_contents ?g ?d @ log_bytes (with_lsn (global_lsn ?g) ?r)" "max_bytes (os d') = max_bytes (os ?d)"
    by (rule lgm_add_ok [OF l(1) r len room])
  have w: "log_write ino ?d d'" using lgm_write(2) [OF l(2), of ?g ?r] a(1) by simp
  have res: "log_txn t r s = Some (Inr (), s\<lparr>sys_log := g', sys_db := with_disk (sys_db s) d',
       txn_map := (txn_map s)(t \<mapsto> x\<lparr>tx_prev_lsn := global_lsn ?g\<rparr>)\<rparr>)"
    using a(1) x by (simp add: log_txn_def tm_bind_def get_txn_def on_log_def tm_lift_def upd_txn_def chained_def)
  show ?thesis by (rule that [OF res log_write_db [OF db l(2) w] a(2) log_write_apart [OF l(2) w] a(3,4)])
qed

lemma flush_ok:
  assumes db: "db_ok (sys_db s)" and lg: "sys_log_ok ino 0 s"
  obtains g' d' where "on_log lgm_flush s = Some (Inr (), s\<lparr>sys_log := g', sys_db := with_disk (sys_db s) d'\<rparr>)"
    "db_ok (with_disk (sys_db s) d')" "db_tab (with_disk (sys_db s) d') = db_tab (sys_db s)" "log_file d' = sys_log_contents s"
proof -
  let ?g = "sys_log s" and ?d = "disk (pool (sys_db s))"
  have l: "lgm_inv ?g ?d" "log_apart ino ?d" "length (log_contents ?g ?d) \<le> max_bytes (os ?d)" using lg by (simp_all add: sys_log_ok_def)
  obtain g' d' where f: "lgm_flush ?g ?d = (Inr (), (g', d'))" "log_file d' = log_contents ?g ?d"
    by (rule lgm_flush_ok [OF l(1) log_contents_room [OF l(1,3)]])
  have w: "log_write ino ?d d'" using lgm_write(1) [OF l(2), of ?g] f(1) by simp
  have res: "on_log lgm_flush s = Some (Inr (), s\<lparr>sys_log := g', sys_db := with_disk (sys_db s) d'\<rparr>)"
    using f(1) by (simp add: on_log_def tm_lift_def)
  show ?thesis by (rule that [OF res log_write_db(1,2) [OF db l(2) w] f(2)])
qed

lemma undo_keeps_log:
  assumes "lgm_inv g d" "log_apart ino d" "keeps_file ino d d'"
  shows "lgm_inv g d'" "log_contents g d' = log_contents g d"
  using assms log_apart_keeps [OF assms(2,3)] log_apart_ready [of ino d'] by (simp_all add: lgm_inv_def log_contents_def)

lemma finish_ok:
  assumes db: "db_ok (sys_db s)" and lg: "sys_log_ok ino 0 s"
  obtains s0 s1 where "release_locks t ord s = Some (Inr (), s0)" "on_log lgm_flush s0 = Some (Inr (), s1)"
    "db_ok (sys_db s1)" "db_tab (sys_db s1) = db_tab (sys_db s)" "log_file (disk (pool (sys_db s1))) = sys_log_contents s"
    "lock_set (sys_locks s1) t = lock_set (sys_locks s) t - set ord" "txn_map s1 = txn_map s"
proof -
  define s0 where "s0 = s\<lparr>sys_locks := fold (\<lambda>i lm. release_lock lm t i) ord (sys_locks s)\<rparr>"
  have "db_ok (sys_db s0)" "sys_log_ok ino 0 s0" using assms by (simp_all add: s0_def sys_log_ok_def)
  then obtain g d where f: "on_log lgm_flush s0 = Some (Inr (), s0\<lparr>sys_log := g, sys_db := with_disk (sys_db s0) d\<rparr>)"
    "db_ok (with_disk (sys_db s0) d)" "db_tab (with_disk (sys_db s0) d) = db_tab (sys_db s0)" "log_file d = sys_log_contents s0"
    by (rule flush_ok)
  show ?thesis
    by (rule that [of s0 "s0\<lparr>sys_log := g, sys_db := with_disk (sys_db s0) d\<rparr>"])
      (use f in \<open>simp_all add: s0_def release_locks_def release_locks_set\<close>)
qed

lemma end_record:
  assumes "int_range t" "int_range (tx_prev_lsn x)"
  shows "log_ok (chained x (new_commit_log t))" "20 = length (log_bytes (new_commit_log t))"
    "log_ok (chained x (new_abort_log t))" "20 = length (log_bytes (new_abort_log t))" "20 \<le> LOG_BUFFER_SIZE"
    "length (log_bytes (with_lsn l (chained x r))) = length (log_bytes r)"
  using assms by (simp_all add: log_ok_def chained_def new_abort_log_def new_commit_log_def new_base_def base_ok_def LOG_BUFFER_SIZE_def
      PAGE_SIZE_def log_offsets INVALID_LSN_def with_lsn_def)

text \<open>
  C6. Commit makes the transaction durable: it returns with the tables as they are, the
  transaction committed, its write set and its lock set empty, and the log file holding every
  record of the log, those of the transaction included, with the commit record at the end.
\<close>
theorem commit_is_durable:
  assumes "txn_map s t = Some x" and "db_ok (sys_db s)" and "sys_log_ok ino 20 s" and "int_range t"
    and "int_range (tx_prev_lsn x)" and "set ord = lock_set (sys_locks s) t"
  shows "\<exists>s' x'. tm_commit t ord s = Some (Inr (), s') \<and> db_tab (sys_db s') = db_tab (sys_db s) \<and> db_ok (sys_db s') \<and>
    txn_map s' t = Some x' \<and> tx_state x' = COMMITTED \<and> tx_write_set x' = [] \<and> lock_set (sys_locks s') t = {} \<and>
    log_file (disk (pool (sys_db s'))) =
      sys_log_contents s @ log_bytes (with_lsn (global_lsn (sys_log s)) (chained x (new_commit_log t)))"
proof -
  let ?lsn = "global_lsn (sys_log s)" and ?r = "new_commit_log t"
  note r = end_record [OF assms(4,5)]
  let ?x1 = "x\<lparr>tx_prev_lsn := ?lsn\<rparr>"
  obtain g1 d1 where l1: "log_txn t ?r s = Some (Inr (), s\<lparr>sys_log := g1, sys_db := with_disk (sys_db s) d1, txn_map := (txn_map s)(t \<mapsto> ?x1)\<rparr>)"
    "db_ok (with_disk (sys_db s) d1)" "db_tab (with_disk (sys_db s) d1) = db_tab (sys_db s)" "lgm_inv g1 d1" "log_apart ino d1"
    "log_contents g1 d1 = sys_log_contents s @ log_bytes (with_lsn ?lsn (chained x ?r))"
    "max_bytes (os d1) = max_bytes (os (disk (pool (sys_db s))))"
    by (rule log_txn_ok [OF assms(1,2) r(1,2,5) assms(3)])
  define s1 where "s1 = s\<lparr>sys_log := g1, sys_db := with_disk (sys_db s) d1, txn_map := (txn_map s)(t \<mapsto> ?x1)\<rparr>"
  define s2 where "s2 = s1\<lparr>txn_map := (txn_map s1)(t \<mapsto> ?x1\<lparr>tx_write_set := []\<rparr>)\<rparr>"
  have up1: "upd_txn t (tx_write_set_update (\<lambda>_. [])) s1 = Some (Inr (), s2)" by (simp add: upd_txn_simp s1_def s2_def)
  have "db_ok (sys_db s2)" "sys_log_ok ino 0 s2"
    using l1 r(2,6) assms(3) by (simp_all add: sys_log_ok_def s2_def s1_def)
  then obtain s3 s4 where f: "release_locks t ord s2 = Some (Inr (), s3)" "on_log lgm_flush s3 = Some (Inr (), s4)"
    "db_ok (sys_db s4)" "db_tab (sys_db s4) = db_tab (sys_db s2)" "log_file (disk (pool (sys_db s4))) = sys_log_contents s2"
    "lock_set (sys_locks s4) t = lock_set (sys_locks s2) t - set ord" "txn_map s4 = txn_map s2"
    by (rule finish_ok)
  have m4: "txn_map s4 t = Some (?x1\<lparr>tx_write_set := []\<rparr>)" using f(7) by (simp add: s2_def)
  have "tm_commit t ord s = Some (Inr (), s4\<lparr>txn_map := (txn_map s4)(t \<mapsto> ?x1\<lparr>tx_write_set := [], tx_state := COMMITTED\<rparr>)\<rparr>)"
    unfolding tm_commit_def by (simp add: l1(1) s1_def [symmetric] up1 f(1,2) upd_txn_simp [OF m4])
  then show ?thesis using f(3-6) l1(3,6) assms(6)
    by (intro exI) (auto simp: s2_def s1_def)
qed

text \<open>
  C5. Rollback restores the tables. If the changes \<open>ps\<close> a transaction recorded in its write set
  lead from the tables \<open>T\<close> to the present ones, on tables without indexes, then \<^verbatim>\<open>abort\<close> returns
  and the tables are \<open>T\<close> again; the transaction is aborted, holds no lock and has an empty write
  set, and the log file holds the whole log with the abort record at its end.
\<close>
theorem abort_restores_tables:
  assumes "txn_map s t = Some x" and "tx_write_set x = map write_of ps" and "history T ps"
    and "db_tab (sys_db s) = fold redo_row ps T" and "db_ok (sys_db s)" and "list_all (rdb.op_fits (sys_db s)) ps"
    and "list_all (\<lambda>p. no_indexes (sys_meta s) (fst (row_key p))) ps" and "sys_log_ok ino 20 s"
    and "int_range t" and "int_range (tx_prev_lsn x)" and "set ord = lock_set (sys_locks s) t"
  shows "\<exists>s' x'. tm_abort k t ord s = Some (Inr (), s') \<and> db_tab (sys_db s') = T \<and> db_ok (sys_db s') \<and>
    txn_map s' t = Some x' \<and> tx_state x' = ABORTED \<and> tx_write_set x' = [] \<and> lock_set (sys_locks s') t = {} \<and>
    log_file (disk (pool (sys_db s'))) =
      sys_log_contents s @ log_bytes (with_lsn (global_lsn (sys_log s)) (chained x (new_abort_log t)))"
proof -
  let ?lsn = "global_lsn (sys_log s)" and ?r = "new_abort_log t"
  note r = end_record [OF assms(9,10)]
  let ?x1 = "x\<lparr>tx_prev_lsn := ?lsn\<rparr>"
  obtain g1 d1 where l1: "log_txn t ?r s = Some (Inr (), s\<lparr>sys_log := g1, sys_db := with_disk (sys_db s) d1, txn_map := (txn_map s)(t \<mapsto> ?x1)\<rparr>)"
    "db_ok (with_disk (sys_db s) d1)" "db_tab (with_disk (sys_db s) d1) = db_tab (sys_db s)"
    "db_fits (with_disk (sys_db s) d1) = db_fits (sys_db s)" "lgm_inv g1 d1" "log_apart ino d1"
    "log_contents g1 d1 = sys_log_contents s @ log_bytes (with_lsn ?lsn (chained x ?r))"
    "max_bytes (os d1) = max_bytes (os (disk (pool (sys_db s))))"
    by (rule log_txn_ok [OF assms(1,5) r(3,4,5) assms(8)])
  define s1 where "s1 = s\<lparr>sys_log := g1, sys_db := with_disk (sys_db s) d1, txn_map := (txn_map s)(t \<mapsto> ?x1)\<rparr>"
  have w1: "tx_write_set ?x1 = rev (map write_of (rev ps))" "rev (tx_write_set x) = map write_of (rev ps)"
    using assms(2) by (simp_all add: rev_map)
  have fit1: "\<forall>p \<in> set (rev ps). rdb.op_fits (sys_db s1) p"
    using assms(6) rdb.op_fits_cong [OF l1(4)] by (simp add: s1_def list_all_iff)
  have "\<exists>db'. abort_writes k t (map write_of (rev ps)) s1 =
      Some (Inr (), s1\<lparr>sys_db := db', txn_map := (txn_map s1)(t \<mapsto> ?x1\<lparr>tx_write_set := []\<rparr>)\<rparr>) \<and>
    db_ok db' \<and> db_tab db' = fold undo_row (rev ps) (db_tab (sys_db s1)) \<and> keeps_file ino (disk (pool (sys_db s1))) (disk (pool db'))"
    by (rule abort_writes_undo) (use l1 fit1 assms(7) w1 in \<open>simp_all add: s1_def list_all_iff\<close>)
  then obtain db2 where u: "abort_writes k t (map write_of (rev ps)) s1 =
      Some (Inr (), s1\<lparr>sys_db := db2, txn_map := (txn_map s1)(t \<mapsto> ?x1\<lparr>tx_write_set := []\<rparr>)\<rparr>)"
    "db_ok db2" "db_tab db2 = T" "keeps_file ino d1 (disk (pool db2))"
    using l1(3) assms(3,4) by (auto simp: s1_def undo_history)
  define s2 where "s2 = s1\<lparr>sys_db := db2, txn_map := (txn_map s1)(t \<mapsto> ?x1\<lparr>tx_write_set := []\<rparr>)\<rparr>"
  note k2 = undo_keeps_log [OF l1(5,6) u(4)]
  have "db_ok (sys_db s2)" "sys_log_ok ino 0 s2"
    using k2 log_apart_keeps [OF l1(6) u(4)] u(2) l1(7,8) r(4,6) assms(8) keeps_file_fields(5) [OF u(4)]
    by (simp_all add: sys_log_ok_def s2_def s1_def)
  then obtain s3 s4 where f: "release_locks t ord s2 = Some (Inr (), s3)" "on_log lgm_flush s3 = Some (Inr (), s4)"
    "db_ok (sys_db s4)" "db_tab (sys_db s4) = db_tab (sys_db s2)" "log_file (disk (pool (sys_db s4))) = sys_log_contents s2"
    "lock_set (sys_locks s4) t = lock_set (sys_locks s2) t - set ord" "txn_map s4 = txn_map s2"
    by (rule finish_ok)
  define x5 where "x5 = ?x1\<lparr>tx_write_set := [], tx_state := ABORTED\<rparr>"
  define s5 where "s5 = s4\<lparr>txn_map := (txn_map s4)(t \<mapsto> x5)\<rparr>"
  have "txn_map s4 t = Some (?x1\<lparr>tx_write_set := []\<rparr>)" "txn_map s5 t = Some x5" using f(7) by (simp_all add: s2_def s5_def)
  then have up: "upd_txn t (tx_state_update (\<lambda>_. ABORTED)) s4 = Some (Inr (), s5)" "upd_txn t (tx_write_set_update (\<lambda>_. [])) s5 = Some (Inr (), s5)"
    by (cases x; simp add: upd_txn_simp s5_def x5_def)+
  have get: "get_txn t s1 = Some (Inr ?x1, s1)" by (simp add: get_txn_def s1_def)
  have "tm_abort k t ord s = Some (Inr (), s5)"
    unfolding tm_abort_def by (simp add: l1(1) s1_def [symmetric] get w1(2) u(1) s2_def [symmetric] f(1,2) up del: rev_map)
  then show ?thesis using f(3-6) u(3) k2(2) l1(7) assms(11)
    by (intro exI [of _ s5] exI [of _ x5]) (simp add: s5_def x5_def s2_def s1_def)
qed

section \<open>A concrete system\<close>

text \<open>
  One table \<^verbatim>\<open>t\<close> of 8-byte records with one empty page, the log file open beside it, transaction 1
  running.
\<close>

definition txn_disk :: disk_manager where
  "txn_disk =
     \<lparr>path2fd = [''t'' \<mapsto> 3, LOG_FILE_NAME \<mapsto> 4], fd2path = [3 \<mapsto> ''t'', 4 \<mapsto> LOG_FILE_NAME], log_fd = 4, restart_fd = - 1,
      fd2pageno = (\<lambda>_. 0)(3 := 2),
      os = \<lparr>names = [''t'' \<mapsto> 3, LOG_FILE_NAME \<mapsto> 4], inodes = (\<lambda>_. [])(3 := replicate (2 * PAGE_SIZE) 0),
            fds = map (\<lambda>i. Some \<lparr>of_inode = i, of_offset = 0\<rparr>) [0, 1, 2, 3, 4], next_inode = 5, max_bytes = 10000000\<rparr>\<rparr>"

definition txn_file :: rm_file where
  "txn_file = \<lparr>rm_fd = 3, rm_hdr = sample_hdr\<lparr>num_pages := 2\<rparr>\<rparr>"

definition txn_db :: rm_db where
  "txn_db = \<lparr>fhs = [''t'' \<mapsto> txn_file], pool = bpm_new 4 0 txn_disk\<rparr>"

definition txn_tab :: tab_meta where
  "txn_tab = \<lparr>tm_name = ''t'', tm_cols = [demo_col ''a'' 0, demo_col ''b'' 4], tm_indexes = []\<rparr>"

definition txn_sys :: "rm_db \<Rightarrow> write_record list \<Rightarrow> tm_sys" where
  "txn_sys db ws = \<lparr>sys_db = db, sys_meta = \<lparr>db_name = ''d'', db_tabs = [(''t'', txn_tab)]\<rparr>, sys_ihs = Map.empty, sys_log = lgm_new (- 1),
     sys_locks = lm_init, txn_map = [1 \<mapsto> (new_transaction 1 0 True 0)\<lparr>tx_write_set := ws\<rparr>], next_txn_id = 2, next_timestamp = 1\<rparr>"

lemma txn_fd: "fd_inode (os txn_disk) fd = (if fd \<in> {0, 1, 2, 3, 4} then Some (nat fd) else None)"
  by (auto simp: fd_inode_def fd_get_def txn_disk_def nth_Cons split: nat.splits)

lemma log_name_ne [simp]: "LOG_FILE_NAME \<noteq> ''t''" "''t'' \<noteq> LOG_FILE_NAME"
  by (simp_all add: LOG_FILE_NAME_def)

lemma txn_dm_inv: "dm_inv txn_disk"
proof (rule dm_invI)
  show "fd_get (os txn_disk) fd \<noteq> None" if "fd2path txn_disk fd = Some p" for fd p
    using that txn_fd [of fd] by (auto simp: txn_disk_def fd_inode_def split: if_splits)
qed (auto simp: txn_fd, auto simp: txn_disk_def split: if_splits)

lemma txn_log_apart: "log_apart 4 (disk (pool txn_db))" "log_file (disk (pool txn_db)) = []"
  by (simp_all add: log_apart_def log_file_def txn_db_def bpm_new_def txn_fd) (simp_all add: txn_disk_def)

lemma txn_page: "dm_page txn_disk 3 1 = Some zero_page"
  by (simp add: dm_page_def dm_file_def txn_fd) (simp add: txn_disk_def mem_read_def zero_page_def)

lemma txn_db_ok: "db_ok txn_db" "db_tab txn_db = (\<lambda>_ _. None)" "db_fits txn_db ''t'' (mk_rid 1 0) 8"
proof -
  let ?s = "bpm_new 4 0 txn_disk"
  have hd: "hdr_ok (rm_hdr txn_file)" "num_pages (rm_hdr txn_file) = 2" "rm_fd txn_file = 3"
    by (simp_all add: txn_file_def sample_hdr_def hdr_ok_def RM_MAX_RECORD_SIZE_def)
  have r: "page_range txn_file p \<longleftrightarrow> p = 1" for p by (auto simp: page_range_def hd(2))
  have pt: "page_table ?s q = None" "disk ?s = txn_disk" for q by (simp_all add: bpm_new_def)
  have v: "rm_view txn_file ?s 1 = Some zero_page" by (simp add: rm_view_def bpm_view_def pt txn_page rm_pid_def hd(3))
  have "bpm_avail ?s (rm_pid txn_file 1)"
    by (simp add: bpm_avail_def pt addr_ok_def rm_pid_def hd(3) txn_fd) (simp add: txn_disk_def PAGE_SIZE_def)
  moreover have "rm_page_ok (rm_hdr txn_file) zero_page" using used_zero [OF hd(1)] by (simp add: rm_page_ok_def zero_page_header)
  moreover have "fd2pageno txn_disk 3 = 2" by (simp add: txn_disk_def)
  ultimately have b: "rm_base txn_file ?s"
    using bpm_ok_new [OF txn_dm_inv, of 4 0] hd v by (simp add: rm_base_def r pt)
  have "rm_room ?s" by (auto simp: rm_room_def pins_def frame_def bpm_new_def intro!: exI [of _ 0])
  then show "db_ok txn_db" using b by (simp add: db_ok_def txn_db_def)
  have ns: "\<not> bm_is_set zero_page OFFSET_BITMAP i" if "slot_ok (rm_hdr txn_file) i" for i
    using used_zero [OF hd(1)] that by (auto simp: used_def bm_slots_def slot_ok_def filter_empty_conv)
  then have "rm_contents txn_file ?s = Map.empty" by (rule_tac ext) (auto simp: rm_contents_def r v)
  then show "db_tab txn_db = (\<lambda>_ _. None)" by (auto simp: db_tab_def txn_db_def fun_eq_iff)
  show "db_fits txn_db ''t'' (mk_rid 1 0) 8"
    using hdr_okD(3) [OF hd(1)] by (simp add: db_fits_def txn_db_def r slot_ok_def) (simp add: txn_file_def sample_hdr_def)
qed

lemma txn_sys_log_ok:
  assumes "log_apart 4 (disk (pool db))" "log_file (disk (pool db)) = []" "max_bytes (os (disk (pool db))) = 10000000"
  shows "sys_log_ok 4 20 (txn_sys db ws)"
  using assms log_apart_ready [OF assms(1)]
  by (simp add: sys_log_ok_def txn_sys_def lgm_inv_def lgm_new_def log_contents_def)

theorem commit_is_durable_witness:
  "\<exists>s' x'. tm_commit 1 [] (txn_sys txn_db []) = Some (Inr (), s') \<and> txn_map s' 1 = Some x' \<and> tx_state x' = COMMITTED"
proof -
  let ?s = "txn_sys txn_db []"
  have "max_bytes (os (disk (pool txn_db))) = 10000000" by (simp add: txn_db_def bpm_new_def txn_disk_def)
  then have lg: "sys_log_ok 4 20 ?s" using txn_sys_log_ok txn_log_apart by blast
  have x: "txn_map ?s 1 = Some ((new_transaction 1 0 True 0)\<lparr>tx_write_set := []\<rparr>)" "db_ok (sys_db ?s)" "lock_set (sys_locks ?s) 1 = {}"
    using txn_db_ok(1) by (simp_all add: txn_sys_def lm_init_def)
  have "int_range (tx_prev_lsn ((new_transaction 1 0 True 0)\<lparr>tx_write_set := []\<rparr>))" by (simp add: new_transaction_def INVALID_LSN_def)
  from commit_is_durable [OF x(1,2) lg _ this, of "[]"] show ?thesis using x(3) by auto
qed

theorem abort_restores_tables_witness:
  "\<exists>db1 s'. db_insert_at txn_db ''t'' (mk_rid 1 0) (replicate 8 7) = (Inr (), db1) \<and>
     tm_abort 0 1 [] (txn_sys db1 [insert_write_record ''t'' (mk_rid 1 0)]) = Some (Inr (), s') \<and>
     db_tab (sys_db s') = (\<lambda>_ _. None)"
proof -
  let ?p = "RowInsert ''t'' (mk_rid 1 0) (replicate 8 7)" and ?x = "(new_transaction 1 0 True 0)\<lparr>tx_write_set := [insert_write_record ''t'' (mk_rid 1 0)]\<rparr>"
  have fit: "rdb.op_fits txn_db ?p" using txn_db_ok(3) by simp
  obtain db1 where i: "rdb.redo_op ?p txn_db = (Inr (), db1)" "db_ok db1" "db_tab db1 = redo_row ?p (db_tab txn_db)" "db_fits db1 = db_fits txn_db"
    by (rule rdb.redo_op_row [OF txn_db_ok(1) fit])
  have k: "keeps_file 4 (disk (pool txn_db)) (disk (pool db1))"
    using db_ops_file(1) [OF txn_db_ok(1) txn_log_apart(1), of "''t''" "mk_rid 1 0" "replicate 8 7"] i(1) by simp
  let ?s = "txn_sys db1 [insert_write_record ''t'' (mk_rid 1 0)]"
  have "max_bytes (os (disk (pool db1))) = 10000000"
    using keeps_file_fields(5) [OF k] by (simp add: txn_db_def bpm_new_def txn_disk_def)
  then have lg: "sys_log_ok 4 20 ?s" using txn_sys_log_ok log_apart_keeps [OF txn_log_apart(1) k] txn_log_apart(2) by simp
  have s: "txn_map ?s 1 = Some ?x" "sys_db ?s = db1" "lock_set (sys_locks ?s) 1 = {}" "no_indexes (sys_meta ?s) ''t''"
    by (simp_all add: txn_sys_def lm_init_def no_indexes_def get_table_def txn_tab_def)
  have "\<exists>s' x'. tm_abort 0 1 [] ?s = Some (Inr (), s') \<and> db_tab (sys_db s') = db_tab txn_db \<and> db_ok (sys_db s') \<and>
    txn_map s' 1 = Some x' \<and> tx_state x' = ABORTED \<and> tx_write_set x' = [] \<and> lock_set (sys_locks s') 1 = {} \<and>
    log_file (disk (pool (sys_db s'))) = sys_log_contents ?s @ log_bytes (with_lsn (global_lsn (sys_log ?s)) (chained ?x (new_abort_log 1)))"
    by (rule abort_restores_tables [where ps = "[?p]" and ino = 4])
      (use s i lg fit rdb.op_fits_cong [OF i(4), of ?p] txn_db_ok(2) in \<open>simp_all add: new_transaction_def INVALID_LSN_def\<close>)
  then show ?thesis using i(1) txn_db_ok(2) by auto
qed

end
