(* ===== verification/Bt_Model.thy ===== *)
theory Bt_Model
  imports Ix_Tree
begin

text \<open>
  B+ trees as a datatype, the specification the pages of an index file are measured against: a
  leaf has its pairs, an inner node one separator per child, and every node the number of its page.
  The invariant \<open>bt_ok\<close> bounds the keys of a subtree by the separators, keeps all leaves at one
  depth and every node but the root at least half full. A position in a tree is a zipper: the
  frames from the position up to the root. The lemmas split the invariant, the pairs and the
  pages of a tree at a position.
\<close>

section \<open>Trees and their order\<close>

datatype bt = is_Lf: Lf (bt_page: int) "(bytes \<times> rid) list" | Nd (bt_page: int) "(bytes \<times> bt) list"

abbreviation "kid_page \<equiv> \<lambda>kt. bt_page (snd kt)"

fun entries :: "bt \<Rightarrow> (bytes \<times> rid) list" where
  "entries (Lf p kvs) = kvs"
| "entries (Nd p cs) = concat (map (\<lambda>kt. entries (snd kt)) cs)"

fun bt_pages :: "bt \<Rightarrow> int list" where
  "bt_pages (Lf p kvs) = [p]"
| "bt_pages (Nd p cs) = p # concat (map (\<lambda>kt. bt_pages (snd kt)) cs)"

fun leaf_pages :: "bt \<Rightarrow> int list" where
  "leaf_pages (Lf p kvs) = [p]"
| "leaf_pages (Nd p cs) = concat (map (\<lambda>kt. leaf_pages (snd kt)) cs)"

definition bt_map :: "bt \<Rightarrow> bytes \<rightharpoonup> rid" where "bt_map t = map_of (entries t)"

text \<open>Bounds on key values; \<open>None\<close> is no bound.\<close>

fun lbd :: "int list option \<Rightarrow> int list \<Rightarrow> bool" where
  "lbd None x \<longleftrightarrow> True"
| "lbd (Some b) x \<longleftrightarrow> b \<le> x"

fun ubd :: "int list option \<Rightarrow> int list \<Rightarrow> bool" where
  "ubd None x \<longleftrightarrow> True"
| "ubd (Some b) x \<longleftrightarrow> x < b"

lemma lbd_mono: "lbd b x \<Longrightarrow> x \<le> y \<Longrightarrow> lbd b y"
  by (cases b) auto

lemma ubd_mono: "ubd b y \<Longrightarrow> x \<le> y \<Longrightarrow> ubd b x"
  by (cases b) auto

fun nxt :: "ix_file_hdr \<Rightarrow> int list option \<Rightarrow> (bytes \<times> 'a) list \<Rightarrow> int list option" where
  "nxt h B [] = B"
| "nxt h B (c # cs) = Some (krank h (fst c))"

fun kids_ok :: "ix_file_hdr \<Rightarrow> (int list option \<Rightarrow> int list option \<Rightarrow> bt \<Rightarrow> bool) \<Rightarrow> int list option \<Rightarrow> (bytes \<times> bt) list \<Rightarrow> bool" where
  "kids_ok h F B [] \<longleftrightarrow> True"
| "kids_ok h F B (c # cs) \<longleftrightarrow> length (fst c) = klen h \<and> F (Some (krank h (fst c))) (nxt h B cs) (snd c) \<and>
     ubd (nxt h B cs) (krank h (fst c)) \<and> kids_ok h F B cs"

definition fits :: "ix_file_hdr \<Rightarrow> nat \<Rightarrow> nat \<Rightarrow> bool" where
  "fits h mn n \<longleftrightarrow> mn \<le> n \<and> int n < ix_order h"

definition minsz :: "ix_file_hdr \<Rightarrow> nat" where "minsz h = nat (ix_order h div 2)"

definition leaf_ok :: "ix_file_hdr \<Rightarrow> int list option \<Rightarrow> int list option \<Rightarrow> (bytes \<times> rid) list \<Rightarrow> bool" where
  "leaf_ok h lo hi kvs \<longleftrightarrow> sorted_wrt (<) (map (\<lambda>kv. krank h (fst kv)) kvs) \<and>
     (\<forall>kv\<in>set kvs. length (fst kv) = klen h \<and> rid_ok (snd kv) \<and> lbd lo (krank h (fst kv)) \<and> ubd hi (krank h (fst kv)))"

text \<open>\<open>n\<close> is the height and \<open>mn\<close> the minimal number of pairs of the topmost node.\<close>

fun bt_ok :: "ix_file_hdr \<Rightarrow> nat \<Rightarrow> nat \<Rightarrow> int list option \<Rightarrow> int list option \<Rightarrow> bt \<Rightarrow> bool" where
  "bt_ok h 0 mn lo hi (Lf p kvs) \<longleftrightarrow> fits h mn (length kvs) \<and> leaf_ok h lo hi kvs"
| "bt_ok h (Suc n) mn lo hi (Nd p cs) \<longleftrightarrow> fits h mn (length cs) \<and> cs \<noteq> [] \<and> lbd lo (krank h (fst (hd cs))) \<and>
     kids_ok h (bt_ok h n (minsz h)) hi cs"
| "bt_ok h 0 mn lo hi (Nd p cs) \<longleftrightarrow> False"
| "bt_ok h (Suc n) mn lo hi (Lf p kvs) \<longleftrightarrow> False"

lemma nxt_append: "nxt h B (l @ r) = nxt h (nxt h B r) l"
  by (cases l) simp_all

lemma nxt_Some: "nxt h (Some b) l = nxt h B l \<longleftrightarrow> l \<noteq> [] \<or> B = Some b"
  by (cases l) auto

lemma kids_ok_append: "kids_ok h F B (l @ r) \<longleftrightarrow> kids_ok h F (nxt h B r) l \<and> kids_ok h F B r"
  by (induction l) (auto simp: nxt_append)

text \<open>The separators of a node ascend, below the bound.\<close>

lemma kids_ok_sorted:
  "kids_ok h F B cs \<Longrightarrow> sorted_wrt (<) (map (\<lambda>c. krank h (fst c)) cs) \<and> (\<forall>c\<in>set cs. ubd B (krank h (fst c)) \<and> length (fst c) = klen h)"
proof (induction cs)
  case (Cons c cs)
  then have IH: "sorted_wrt (<) (map (\<lambda>c. krank h (fst c)) cs)" "\<forall>c\<in>set cs. ubd B (krank h (fst c)) \<and> length (fst c) = klen h"
    and c: "ubd (nxt h B cs) (krank h (fst c))" "length (fst c) = klen h" by simp_all
  have "\<forall>d\<in>set cs. krank h (fst c) < krank h (fst d)"
    using c(1) IH(1) by (cases cs) auto
  moreover have "ubd B (krank h (fst c))"
    using c(1) IH(2) by (cases cs) (auto intro: ubd_mono less_imp_le)
  ultimately show ?case using IH c(2) by simp
qed simp

lemma leaf_ok_mono:
  "leaf_ok h lo hi kvs \<Longrightarrow> (\<And>x. lbd lo x \<Longrightarrow> lbd lo' x) \<Longrightarrow> (\<And>x. ubd hi x \<Longrightarrow> ubd hi' x) \<Longrightarrow> leaf_ok h lo' hi' kvs"
  by (auto simp: leaf_ok_def)

lemma kids_ok_mono:
  assumes "kids_ok h F B cs" "\<And>x. ubd B x \<Longrightarrow> ubd B' x" "\<And>lo t. F lo B t \<Longrightarrow> F lo B' t"
  shows "kids_ok h F B' cs"
  using assms(1)
proof (induction cs)
  case (Cons c cs)
  then show ?case using assms(2,3) by (cases cs) auto
qed simp

lemma bt_ok_mono:
  "bt_ok h n mn lo hi t \<Longrightarrow> (\<And>x. lbd lo x \<Longrightarrow> lbd lo' x) \<Longrightarrow> (\<And>x. ubd hi x \<Longrightarrow> ubd hi' x) \<Longrightarrow> mn' \<le> mn \<Longrightarrow> bt_ok h n mn' lo' hi' t"
proof (induction h n mn lo hi t arbitrary: mn' lo' hi' rule: bt_ok.induct)
  case (1 h mn lo hi p kvs)
  then show ?case using leaf_ok_mono [of h lo hi kvs lo' hi'] by (simp add: fits_def)
next
  case (2 h n mn lo hi p cs)
  have "kids_ok h (bt_ok h n (minsz h)) hi' cs"
    by (rule kids_ok_mono [of _ _ hi]) (use 2 in \<open>auto intro: 2(1)\<close>)
  then show ?case using 2 by (auto simp: fits_def)
qed simp_all

text \<open>The pairs of a tree ascend, within the bounds.\<close>

lemma leaf_ok_append:
  assumes "leaf_ok h lo (Some m) a" "leaf_ok h (Some m) hi b" "lbd lo m" "ubd hi m"
  shows "leaf_ok h lo hi (a @ b)"
proof -
  have "krank h (fst x) < m" if "x \<in> set a" for x using assms(1) that by (simp add: leaf_ok_def)
  moreover have "m \<le> krank h (fst y)" if "y \<in> set b" for y using assms(2) that by (simp add: leaf_ok_def)
  ultimately show ?thesis using assms
    by (fastforce simp: leaf_ok_def sorted_wrt_append intro: lbd_mono ubd_mono less_imp_le)
qed

lemma leaf_okD:
  assumes "leaf_ok h lo hi kvs" "kv \<in> set kvs"
  shows "length (fst kv) = klen h" "rid_ok (snd kv)" "lbd lo (krank h (fst kv))" "ubd hi (krank h (fst kv))"
  using assms by (auto simp: leaf_ok_def)

lemma leaf_ok_appendD: "leaf_ok h lo hi (a @ b) \<Longrightarrow> leaf_ok h lo hi a \<and> leaf_ok h lo hi b"
  by (simp add: leaf_ok_def sorted_wrt_append)

lemma kids_entries_ok:
  assumes "\<And>lo hi t. F lo hi t \<Longrightarrow> leaf_ok h lo hi (entries t)"
  shows "kids_ok h F B cs \<Longrightarrow> leaf_ok h (nxt h B cs) B (concat (map (\<lambda>kt. entries (snd kt)) cs))"
proof (induction cs)
  case (Cons c cs)
  let ?E = "concat (map (\<lambda>kt. entries (snd kt)) cs)"
  have c: "leaf_ok h (Some (krank h (fst c))) (nxt h B cs) (entries (snd c))" using Cons.prems assms by simp
  show ?case
  proof (cases cs)
    case Nil
    then show ?thesis using c by simp
  next
    case (Cons d ds)
    have "leaf_ok h (Some (krank h (fst d))) B ?E" using Cons.IH Cons.prems Cons by simp
    moreover have "krank h (fst c) < krank h (fst d)" using Cons.prems Cons by simp
    moreover have "ubd B (krank h (fst d))" using kids_ok_sorted [of h F B cs] Cons.prems Cons by simp
    ultimately have "leaf_ok h (Some (krank h (fst c))) B (entries (snd c) @ ?E)"
      using c Cons by (intro leaf_ok_append [where m = "krank h (fst d)"]) simp_all
    then show ?thesis by simp
  qed
qed (simp add: leaf_ok_def)

lemma bt_ok_entries: "bt_ok h n mn lo hi t \<Longrightarrow> leaf_ok h lo hi (entries t)"
proof (induction h n mn lo hi t rule: bt_ok.induct)
  case (2 h n mn lo hi p cs)
  have "leaf_ok h (nxt h hi cs) hi (concat (map (\<lambda>kt. entries (snd kt)) cs))"
    by (rule kids_entries_ok [of "bt_ok h n (minsz h)"]) (use 2 in auto)
  then have "leaf_ok h lo hi (concat (map (\<lambda>kt. entries (snd kt)) cs))"
    by (rule leaf_ok_mono) (use 2(2) in \<open>cases cs; auto intro: lbd_mono\<close>)+
  then show ?case by simp
qed simp_all

section \<open>Positions\<close>

text \<open>
  A frame is the page of an inner node, the children to the left of the hole, the separator of
  the hole, and the children to its right. A position lists the frames from the inside out.
\<close>

type_synonym frame = "int \<times> (bytes \<times> bt) list \<times> bytes \<times> (bytes \<times> bt) list"

fun plug :: "bt \<Rightarrow> frame list \<Rightarrow> bt" where
  "plug t [] = t"
| "plug t ((p, l, k, r) # c) = plug (Nd p (l @ (k, t) # r)) c"

fun lo_of :: "ix_file_hdr \<Rightarrow> frame list \<Rightarrow> int list option" where
  "lo_of h [] = None"
| "lo_of h ((p, l, k, r) # c) = Some (krank h k)"

fun hi_of :: "ix_file_hdr \<Rightarrow> frame list \<Rightarrow> int list option" where
  "hi_of h [] = None"
| "hi_of h ((p, l, k, r) # c) = nxt h (hi_of h c) r"

definition first_key :: "(bytes \<times> bt) list \<Rightarrow> bytes \<Rightarrow> bytes" where
  "first_key l k = (if l = [] then k else fst (hd l))"

definition root_min :: "nat \<Rightarrow> nat" where "root_min n = (if n = 0 then 0 else 2)"

definition top_min :: "ix_file_hdr \<Rightarrow> frame list \<Rightarrow> nat \<Rightarrow> nat" where
  "top_min h c n = (if c = [] then root_min n else minsz h)"

fun ctx_ok :: "ix_file_hdr \<Rightarrow> nat \<Rightarrow> frame list \<Rightarrow> bool" where
  "ctx_ok h n [] \<longleftrightarrow> True"
| "ctx_ok h n ((p, l, k, r) # c) \<longleftrightarrow> length k = klen h \<and> fits h (top_min h c (Suc n)) (Suc (length l + length r)) \<and>
     lbd (lo_of h c) (krank h (first_key l k)) \<and> kids_ok h (bt_ok h n (minsz h)) (Some (krank h k)) l \<and>
     ubd (nxt h (hi_of h c) r) (krank h k) \<and> kids_ok h (bt_ok h n (minsz h)) (hi_of h c) r \<and> ctx_ok h (Suc n) c"

lemma plug_ok:
  "bt_ok h (n + length c) (root_min (n + length c)) None None (plug t c) \<longleftrightarrow>
     ctx_ok h n c \<and> bt_ok h n (top_min h c n) (lo_of h c) (hi_of h c) t"
proof (induction c arbitrary: n t)
  case (Cons fr c)
  obtain p l k r where fr: "fr = (p, l, k, r)" by (metis surj_pair)
  have "fst (hd (l @ (k, t) # r)) = first_key l k" by (cases l) (simp_all add: first_key_def)
  then show ?case using Cons [of "Suc n" "Nd p (l @ (k, t) # r)"]
    by (auto simp: fr kids_ok_append top_min_def)
qed (simp add: top_min_def)

text \<open>Entries, pages and leaves around a position.\<close>

fun left_of :: "(bt \<Rightarrow> 'a list) \<Rightarrow> frame list \<Rightarrow> 'a list" where
  "left_of f [] = []"
| "left_of f ((p, l, k, r) # c) = left_of f c @ concat (map (\<lambda>kt. f (snd kt)) l)"

fun right_of :: "(bt \<Rightarrow> 'a list) \<Rightarrow> frame list \<Rightarrow> 'a list" where
  "right_of f [] = []"
| "right_of f ((p, l, k, r) # c) = concat (map (\<lambda>kt. f (snd kt)) r) @ right_of f c"

fun ctx_pages :: "frame list \<Rightarrow> int list" where
  "ctx_pages [] = []"
| "ctx_pages ((p, l, k, r) # c) = p # concat (map (\<lambda>kt. bt_pages (snd kt)) l) @ concat (map (\<lambda>kt. bt_pages (snd kt)) r) @ ctx_pages c"

lemma entries_plug: "entries (plug t c) = left_of entries c @ entries t @ right_of entries c"
proof (induction t c rule: plug.induct)
  case (2 t p l k r c)
  then show ?case by simp
qed simp

lemma leaf_pages_plug: "leaf_pages (plug t c) = left_of leaf_pages c @ leaf_pages t @ right_of leaf_pages c"
proof (induction t c rule: plug.induct)
  case (2 t p l k r c)
  then show ?case by simp
qed simp

lemma set_pages_plug: "set (bt_pages (plug t c)) = set (bt_pages t) \<union> set (ctx_pages c)"
  by (induction t c rule: plug.induct) auto

lemma distinct_around:
  "distinct (ls @ xs @ rs) \<longleftrightarrow> distinct xs \<and> distinct (ls @ rs) \<and> set xs \<inter> set (ls @ rs) = {}"
  by auto

lemma distinct_frame:
  assumes "p \<notin> set cs"
  shows "distinct (p # ls @ xs @ rs) \<and> set (p # ls @ xs @ rs) \<inter> set cs = {} \<and> distinct cs \<longleftrightarrow>
    distinct xs \<and> distinct (p # ls @ rs @ cs) \<and> set xs \<inter> set (p # ls @ rs @ cs) = {}"
  using assms distinct_around [of ls xs rs] by auto

lemma distinct_pages_plug:
  "distinct (bt_pages (plug t c)) \<longleftrightarrow> distinct (bt_pages t) \<and> distinct (ctx_pages c) \<and> set (bt_pages t) \<inter> set (ctx_pages c) = {}"
proof (induction t c rule: plug.induct)
  case (2 t p l k r c)
  let ?C = "\<lambda>cs. concat (map (\<lambda>kt. bt_pages (snd kt)) cs)"
  have e: "bt_pages (Nd p (l @ (k, t) # r)) = p # ?C l @ bt_pages t @ ?C r" by simp
  show ?case
  proof (cases "p \<in> set (ctx_pages c)")
    case False
    then show ?thesis using 2 distinct_frame [OF False, of "?C l" "bt_pages t" "?C r"]
      unfolding plug.simps ctx_pages.simps e by blast
  qed (use 2 in \<open>simp add: e\<close>)
qed simp

lemma bt_page_in: "bt_page t \<in> set (bt_pages t)"
  by (cases t) simp_all

lemma leaf_pages_subset: "set (leaf_pages t) \<subseteq> set (bt_pages t)"
  by (induction t rule: leaf_pages.induct) auto

lemma bt_page_plug: "bt_page (plug t c) = (if c = [] then bt_page t else fst (last c))"
  by (induction t c rule: plug.induct) auto

section \<open>Searching\<close>

text \<open>The position a search for a key descends to.\<close>

fun routes :: "ix_file_hdr \<Rightarrow> bytes \<Rightarrow> frame list \<Rightarrow> bool" where
  "routes h key [] \<longleftrightarrow> True"
| "routes h key ((p, l, k, r) # c) \<longleftrightarrow> (l \<noteq> [] \<longrightarrow> krank h k \<le> krank h key) \<and>
     (r \<noteq> [] \<longrightarrow> krank h key < krank h (fst (hd r))) \<and> routes h key c"

lemma kids_bt_entries:
  "kids_ok h (bt_ok h n mn) B cs \<Longrightarrow> leaf_ok h (nxt h B cs) B (concat (map (\<lambda>kt. entries (snd kt)) cs))"
  by (rule kids_entries_ok) (auto intro: bt_ok_entries)

lemma routes_sides:
  assumes "ctx_ok h n c" "routes h key c"
  shows "(\<forall>kv\<in>set (left_of entries c). krank h (fst kv) < krank h key) \<and>
    (\<forall>kv\<in>set (right_of entries c). krank h key < krank h (fst kv))"
  using assms
proof (induction h n c rule: ctx_ok.induct)
  case (2 h n p l k r c)
  have l: "krank h (fst kv) < krank h key" if "kv \<in> set (concat (map (\<lambda>kt. entries (snd kt)) l))" for kv
  proof -
    have "leaf_ok h (nxt h (Some (krank h k)) l) (Some (krank h k)) (concat (map (\<lambda>kt. entries (snd kt)) l))"
      by (rule kids_bt_entries [where n = n and mn = "minsz h"]) (use 2 in simp)
    from leaf_okD(4) [OF this that] have "krank h (fst kv) < krank h k" by simp
    moreover have "l \<noteq> []" using that by auto
    ultimately show ?thesis using 2(3) by (auto intro: less_le_trans)
  qed
  have r: "krank h key < krank h (fst kv)" if "kv \<in> set (concat (map (\<lambda>kt. entries (snd kt)) r))" for kv
  proof -
    have "leaf_ok h (nxt h (hi_of h c) r) (hi_of h c) (concat (map (\<lambda>kt. entries (snd kt)) r))"
      by (rule kids_bt_entries [where n = n and mn = "minsz h"]) (use 2 in simp)
    from leaf_okD(3) [OF this that] have "lbd (nxt h (hi_of h c) r) (krank h (fst kv))" .
    moreover have "r \<noteq> []" using that by auto
    ultimately show ?thesis using 2(3) by (cases r) (auto intro: less_le_trans)
  qed
  have "ctx_ok h (Suc n) c" "routes h key c" using 2(2,3) by simp_all
  then show ?case using l r 2(1) unfolding left_of.simps right_of.simps set_append by blast
qed simp

lemma routes_hi: "routes h key c \<Longrightarrow> ubd (hi_of h c) (krank h key)"
proof (induction c)
  case (Cons fr c)
  obtain p l k r where fr: "fr = (p, l, k, r)" by (metis surj_pair)
  show ?case using Cons by (cases r) (simp_all add: fr)
qed simp

text \<open>A search looks at the one leaf that may have the key.\<close>

lemma map_of_append_sides:
  assumes "key \<notin> fst ` set ls" "key \<notin> fst ` set rs"
  shows "map_of (ls @ xs @ rs) key = map_of xs key"
proof -
  have "map_of ls key = None" "map_of rs key = None" using assms by (simp_all add: map_of_eq_None_iff)
  then show ?thesis by (simp add: map_add_def split: option.split)
qed

lemma routes_map:
  assumes "ctx_ok h n c" "routes h key c"
  shows "bt_map (plug t c) key = bt_map t key"
  using routes_sides [OF assms] unfolding bt_map_def entries_plug by (intro map_of_append_sides) auto

end
