(* ===== verification/Bt_Pages.thy ===== *)
theory Bt_Pages
  imports Bt_Model
begin

text \<open>
  Trees in the pages of an index file: the relation \<open>rep\<close> between a tree and the pages that hold its
  nodes, the invariant of an open index, and the correctness of the search from the root to a leaf
  (\<^verbatim>\<open>find_leaf_page\<close>, \<^verbatim>\<open>get_value\<close>).
\<close>

section \<open>Headers with the same geometry\<close>

definition geo :: "ix_file_hdr \<Rightarrow> ix_file_hdr \<Rightarrow> bool" where
  "geo h h' \<longleftrightarrow> ix_col_types h' = ix_col_types h \<and> ix_col_lens h' = ix_col_lens h \<and> ix_col_tot_len h' = ix_col_tot_len h \<and>
     ix_order h' = ix_order h \<and> ix_keys_size h' = ix_keys_size h"
lemma geo_refl [simp]: "geo h h"
  by (simp add: geo_def)

lemma geo_updates [simp]:
  "geo h (h'\<lparr>ix_root := r\<rparr>) = geo h h'" "geo h (h'\<lparr>ix_num_pages := n\<rparr>) = geo h h'" "geo h (h'\<lparr>ix_last_leaf := l\<rparr>) = geo h h'"
  by (simp_all add: geo_def)

lemma geo_loops:
  assumes "geo h h'"
  shows "lb_loop h' d t f l = lb_loop h d t f l" "ub_loop h' d t f l = ub_loop h d t f l"
proof -
  have k: "nd_get_key h' d i = nd_get_key h d i" for d i using assms by (simp add: geo_def nd_get_key_def key_off_def)
  show "lb_loop h' d t f l = lb_loop h d t f l" using assms
  proof (induction h d t f l rule: lb_loop.induct)
    case (1 h d t f l)
    have k: "nd_get_key h' d i = nd_get_key h d i" for i using 1(3) by (simp add: geo_def nd_get_key_def key_off_def)
    have e: "ix_col_types h' = ix_col_types h" "ix_col_lens h' = ix_col_lens h" using 1(3) by (simp_all add: geo_def)
    note IH = 1(1,2) [OF _ refl refl _ _ 1(3)]
    show ?case unfolding lb_loop.simps [of h' d t f l] lb_loop.simps [of h d t f l] Let_def k e
      by (rule if_cong [OF refl _ refl], rule sum.case_cong [OF refl refl], rule if_cong [OF refl]) (rule IH; assumption)+
  qed
  show "ub_loop h' d t f l = ub_loop h d t f l" using assms
  proof (induction h d t f l rule: ub_loop.induct)
    case (1 h d t f l)
    have k: "nd_get_key h' d i = nd_get_key h d i" for i using 1(3) by (simp add: geo_def nd_get_key_def key_off_def)
    have e: "ix_col_types h' = ix_col_types h" "ix_col_lens h' = ix_col_lens h" using 1(3) by (simp_all add: geo_def)
    note IH = 1(1,2) [OF _ refl refl _ _ 1(3)]
    show ?case unfolding ub_loop.simps [of h' d t f l] ub_loop.simps [of h d t f l] Let_def k e
      by (rule if_cong [OF refl _ refl], rule sum.case_cong [OF refl refl], rule if_cong [OF refl]) (rule IH; assumption)+
  qed
qed

lemma geo_simps:
  assumes "geo h h'"
  shows "ix_order h' = ix_order h" "klen h' = klen h" "key_off h' = key_off h" "nd_get_key h' = nd_get_key h"
    "nd_get_rid h' = nd_get_rid h" "nd_value_at h' = nd_value_at h" "nd_set_key h' = nd_set_key h" "nd_set_rid h' = nd_set_rid h"
    "nd_lower_bound h' = nd_lower_bound h" "nd_upper_bound h' = nd_upper_bound h" "nd_key_is h' = nd_key_is h"
    "nd_leaf_lookup h' = nd_leaf_lookup h" "nd_internal_lookup h' = nd_internal_lookup h"
    "nd_insert_pairs h' = nd_insert_pairs h" "nd_insert_pair h' = nd_insert_pair h" "nd_insert h' = nd_insert h"
    "nd_erase_pair h' = nd_erase_pair h" "nd_remove h' = nd_remove h" "nd_find_child h' = nd_find_child h"
proof -
  have e: "ix_col_types h' = ix_col_types h" "ix_col_lens h' = ix_col_lens h" "ix_col_tot_len h' = ix_col_tot_len h"
    "ix_order h' = ix_order h" "ix_keys_size h' = ix_keys_size h" using assms by (simp_all add: geo_def)
  show o: "ix_order h' = ix_order h" "klen h' = klen h" using e by simp_all
  show ko: "key_off h' = key_off h" unfolding key_off_def e ..
  have ro: "rid_off h' = rid_off h" unfolding rid_off_def e ..
  show gk: "nd_get_key h' = nd_get_key h" unfolding nd_get_key_def ko e ..
  show gr: "nd_get_rid h' = nd_get_rid h" unfolding nd_get_rid_def ro ..
  show v: "nd_value_at h' = nd_value_at h" unfolding nd_value_at_def gr ..
  show sk: "nd_set_key h' = nd_set_key h" unfolding nd_set_key_def ko e ..
  show sr: "nd_set_rid h' = nd_set_rid h" unfolding nd_set_rid_def ro ..
  show lb: "nd_lower_bound h' = nd_lower_bound h" unfolding nd_lower_bound_def geo_loops(1) [OF assms] ..
  show ub: "nd_upper_bound h' = nd_upper_bound h" unfolding nd_upper_bound_def geo_loops(2) [OF assms] gk e ..
  show ki: "nd_key_is h' = nd_key_is h" unfolding nd_key_is_def gk e ..
  show "nd_leaf_lookup h' = nd_leaf_lookup h" unfolding nd_leaf_lookup_def lb ki gr ..
  show "nd_internal_lookup h' = nd_internal_lookup h" unfolding nd_internal_lookup_def lb ki v ..
  show ip: "nd_insert_pairs h' = nd_insert_pairs h" unfolding nd_insert_pairs_def ko ro sk sr e ..
  show "nd_insert_pair h' = nd_insert_pair h" unfolding nd_insert_pair_def ip ..
  show "nd_insert h' = nd_insert h" unfolding nd_insert_def lb ki ip e ..
  show ep: "nd_erase_pair h' = nd_erase_pair h" unfolding nd_erase_pair_def ko ro e ..
  show "nd_remove h' = nd_remove h" unfolding nd_remove_def lb gk gr ep e ..
  show "nd_find_child h' = nd_find_child h" unfolding nd_find_child_def v ..
qed

section \<open>Trees in pages\<close>

text \<open>A page with a node: its kind, its parent, its keys and its record identifiers.\<close>

definition nodep :: "ix_file_hdr \<Rightarrow> (int \<rightharpoonup> bytes) \<Rightarrow> int \<Rightarrow> bool \<Rightarrow> int \<Rightarrow> bytes list \<Rightarrow> (rid list \<Rightarrow> bool) \<Rightarrow> bool" where
  "nodep h P p leaf par ks R \<longleftrightarrow> (\<exists>d. P p = Some d \<and> nd_ok h d \<and> nd_is_leaf d = leaf \<and> nd_parent d = par \<and> nd_keys h d = ks \<and> R (nd_rids h d))"

abbreviation innerp :: "ix_file_hdr \<Rightarrow> (int \<rightharpoonup> bytes) \<Rightarrow> int \<Rightarrow> int \<Rightarrow> bytes list \<Rightarrow> int list \<Rightarrow> bool" where
  "innerp h P p par ks ps \<equiv> nodep h P p False par ks (\<lambda>rs. map page_no rs = ps)"

fun rep :: "ix_file_hdr \<Rightarrow> (int \<rightharpoonup> bytes) \<Rightarrow> int \<Rightarrow> bt \<Rightarrow> bool" where
  "rep h P par (Lf p kvs) \<longleftrightarrow> nodep h P p True par (map fst kvs) (\<lambda>rs. rs = map snd kvs)"
| "rep h P par (Nd p cs) \<longleftrightarrow> innerp h P p par (map fst cs) (map kid_page cs) \<and> (\<forall>kt\<in>set cs. rep h P p (snd kt))"

fun ctx_par :: "frame list \<Rightarrow> int" where
  "ctx_par [] = INVALID_PAGE_ID"
| "ctx_par ((p, l, k, r) # c) = p"

fun rep_ctx :: "ix_file_hdr \<Rightarrow> (int \<rightharpoonup> bytes) \<Rightarrow> int \<Rightarrow> frame list \<Rightarrow> bool" where
  "rep_ctx h P q [] \<longleftrightarrow> True"
| "rep_ctx h P q ((p, l, k, r) # c) \<longleftrightarrow> innerp h P p (ctx_par c) (map fst l @ k # map fst r) (map kid_page l @ q # map kid_page r) \<and>
     (\<forall>kt\<in>set l \<union> set r. rep h P p (snd kt)) \<and> rep_ctx h P p c"

lemma rep_plug: "rep h P INVALID_PAGE_ID (plug t c) \<longleftrightarrow> rep_ctx h P (bt_page t) c \<and> rep h P (ctx_par c) t"
proof (induction t c rule: plug.induct)
  case (2 t p l k r c)
  then show ?case by auto
qed simp

lemma nodep_cong: "P' p = P p \<Longrightarrow> nodep h P' p leaf par ks R = nodep h P p leaf par ks R"
  by (simp add: nodep_def)

lemma rep_cong: "(\<And>p. p \<in> set (bt_pages t) \<Longrightarrow> P' p = P p) \<Longrightarrow> rep h P' par t = rep h P par t"
proof (induction t arbitrary: par rule: bt_pages.induct)
  case (2 p cs)
  have "rep h P' p (snd kt) = rep h P p (snd kt)" if "kt \<in> set cs" for kt
    by (rule 2(1) [OF that]) (use 2(2) that in auto)
  then show ?case using 2(2) nodep_cong [of P' p P] by simp
qed (simp add: nodep_cong [of P' _ P])

lemma rep_ctx_cong: "(\<And>p. p \<in> set (ctx_pages c) \<Longrightarrow> P' p = P p) \<Longrightarrow> rep_ctx h P' q c = rep_ctx h P q c"
proof (induction c arbitrary: q rule: ctx_pages.induct)
  case (2 p l k r c)
  have "rep h P' p (snd kt) = rep h P p (snd kt)" if "kt \<in> set l \<union> set r" for kt
    by (rule rep_cong) (use 2(2) that in auto)
  moreover have "rep_ctx h P' p c = rep_ctx h P p c" by (rule 2(1)) (use 2(2) in simp)
  moreover have "P' p = P p" using 2(2) by simp
  ultimately show ?case using nodep_cong [of P' p P] by simp
qed simp

lemma rep_page: "rep h P par t \<Longrightarrow> \<exists>d. P (bt_page t) = Some d \<and> nd_ok h d \<and> nd_parent d = par \<and> nd_is_leaf d = is_Lf t"
  by (cases t) (auto simp: nodep_def)

lemma rep_pages: "rep h P par t \<Longrightarrow> p \<in> set (bt_pages t) \<Longrightarrow> P p \<noteq> None"
  by (induction t arbitrary: par rule: bt_pages.induct) (auto simp: nodep_def)

lemma int_range_get_int: "int_range (get_int d off)"
  by (simp add: get_int_def dec_int_def)

lemma nd_rids_ok: "list_all rid_ok (nd_rids h d)"
  by (auto simp: nd_rids_def list_all_iff rid_ok_def bytes_rid_def int_range_get_int)

section \<open>Searching\<close>

definition hdr_ok :: "ix_file_hdr \<Rightarrow> bool" where
  "hdr_ok h \<longleftrightarrow> ix_dims h \<and> ix_exact h \<and> 4 \<le> ix_order h"

lemma nth_krank_mono:
  assumes "nd_sorted h d" "i < j" "j < length (nd_keys h d)"
  shows "krank h (nd_keys h d ! i) < krank h (nd_keys h d ! j)"
  using assms sorted_wrt_nth_less [of "(<)" "map (krank h) (nd_keys h d)" i j] by (simp add: nd_sorted_def)

lemma nd_internal_lookup_route:
  assumes h: "hdr_ok h" and ok: "nd_ok h d" and srt: "nd_sorted h d" and len: "length key = klen h" and ne: "nd_keys h d \<noteq> []"
  obtains i where "i < length (nd_keys h d)" "nd_internal_lookup h d key = Inr (page_no (nd_rids h d ! i))"
    "0 < i \<Longrightarrow> krank h (nd_keys h d ! i) \<le> krank h key"
    "Suc i < length (nd_keys h d) \<Longrightarrow> krank h key < krank h (nd_keys h d ! Suc i)"
proof -
  have dm: "ix_dims h" and ex: "ix_exact h" using h by (simp_all add: hdr_ok_def)
  obtain j lo hi where p: "nd_lower_bound h d key = Inr (int j)" "nd_keys h d = lo @ hi" "length lo = j"
    "\<And>k. k \<in> set lo \<Longrightarrow> krank h k < krank h key" "\<And>k. k \<in> set hi \<Longrightarrow> krank h key \<le> krank h k"
    "int j < nd_get_size d \<longleftrightarrow> hi \<noteq> []" "hi \<noteq> [] \<Longrightarrow> nd_key_is h d (int j) key \<longleftrightarrow> hd hi = key"
    by (rule nd_position [OF dm ex ok srt len]) blast
  have n: "length (nd_keys h d) = nat (nd_get_size d)" by simp
  have v: "nd_value_at h d (int i) = page_no (nd_rids h d ! i)" if "i < length (nd_keys h d)" for i
    using that by (simp add: nd_value_at_def nd_get_rid_slot [OF dm] nd_rids_def)
  have at: "nd_keys h d ! j = hd hi" if "hi \<noteq> []" using that p(2,3) by (simp add: nth_append hd_conv_nth)
  show ?thesis
  proof (cases "hi \<noteq> [] \<and> (j = 0 \<or> hd hi = key)")
    case True
    then have j: "j < length (nd_keys h d)" using p(2,3) by (cases hi) simp_all
    have "krank h key \<le> krank h (nd_keys h d ! j)" using True at p(5) [of "hd hi"] by simp
    then have "Suc j < length (nd_keys h d) \<Longrightarrow> krank h key < krank h (nd_keys h d ! Suc j)"
      using nth_krank_mono [OF srt, of j "Suc j"] by (auto intro: le_less_trans)
    moreover have "nd_internal_lookup h d key = Inr (page_no (nd_rids h d ! j))"
      using True p(1,6,7) v [OF j] by (auto simp: nd_internal_lookup_def)
    ultimately show ?thesis using True at j by (intro that [of j]) auto
  next
    case False
    then have j: "0 < j" using ne p(2,3) by (cases hi) auto
    then have i: "j - 1 < length (nd_keys h d)" using p(2,3) by simp
    have "nd_keys h d ! (j - 1) \<in> set lo" using j p(2,3) by (simp add: nth_append)
    then have lo: "krank h (nd_keys h d ! (j - 1)) \<le> krank h key" using p(4) by (simp add: less_imp_le)
    have "krank h key < krank h (nd_keys h d ! j)" if "j < length (nd_keys h d)"
    proof -
      have hi: "hi \<noteq> []" using that p(2,3) by auto
      then have "hd hi \<noteq> key" "hd hi \<in> set (nd_keys h d)" using False p(2) by simp_all
      then have "krank h (hd hi) \<noteq> krank h key"
        using ix_exactD(2) [OF ex, of "hd hi" key] nd_key_lengths(1) [OF dm ok, of "hd hi"] len by auto
      then show ?thesis using p(5) [of "hd hi"] hi at by simp
    qed
    moreover have "nd_internal_lookup h d key = Inr (page_no (nd_rids h d ! (j - 1)))"
      using False j p(1,6,7) v [OF i] by (auto simp: nd_internal_lookup_def of_nat_diff)
    ultimately show ?thesis using i j lo by (intro that [of "j - 1"]) auto
  qed
qed

definition same_store :: "ix_handle \<Rightarrow> ix_handle \<Rightarrow> bool" where
  "same_store s s' \<longleftrightarrow> s' = s\<lparr>ih_pins := ih_pins s'\<rparr>"

lemma same_store_refl [simp]: "same_store s s"
  by (simp add: same_store_def)

lemma same_storeD:
  "same_store s s' \<Longrightarrow> ih_pages s' = ih_pages s \<and> ih_hdr s' = ih_hdr s \<and> ih_next s' = ih_next s \<and> ih_fd s' = ih_fd s"
  by (cases s, cases s') (simp add: same_store_def)

lemma same_storeI:
  "ih_pages s' = ih_pages s \<Longrightarrow> ih_hdr s' = ih_hdr s \<Longrightarrow> ih_next s' = ih_next s \<Longrightarrow> ih_fd s' = ih_fd s \<Longrightarrow> same_store s s'"
  by (cases s, cases s') (simp add: same_store_def)

lemma same_store_trans: "same_store s s1 \<Longrightarrow> same_store s1 s2 \<Longrightarrow> same_store s s2"
  by (rule same_storeI) (simp_all add: same_storeD)

lemma plug_append: "plug t (c @ c') = plug (plug t c) c'"
  by (induction t c rule: plug.induct) simp_all

lemma routes_append: "routes h key (c @ c') \<longleftrightarrow> routes h key c \<and> routes h key c'"
  by (induction c) auto

lemmas ix_prims = ix_bind_def ix_ret_def ix_throw_def ix_lift_def ix_hdr_def ix_set_hdr_def node_page_def set_page_def
  fetch_node_def unpin_node_def update_node_def

lemma kids_nd_sorted:
  assumes "hdr_ok h" "kids_ok h F B cs" "nd_keys h d = map fst cs"
  shows "nd_sorted h d"
proof -
  have "sorted_wrt (<) (map (\<lambda>c. krank h (fst c)) cs)" "\<forall>c\<in>set cs. length (fst c) = klen h"
    using kids_ok_sorted [OF assms(2)] by simp_all
  then show ?thesis using assms(1,3) ix_exactD(1) by (auto simp: nd_sorted_def comp_def list_all_iff hdr_ok_def)
qed

lemma leaf_nd_sorted:
  assumes "hdr_ok h" "leaf_ok h lo hi kvs" "nd_keys h d = map fst kvs"
  shows "nd_sorted h d"
  using assms ix_exactD(1) by (auto simp: nd_sorted_def comp_def list_all_iff hdr_ok_def leaf_ok_def)

lemma kids_ok_nth:
  assumes "kids_ok h F B cs" "i < length cs"
  shows "\<exists>lo hi. F lo hi (snd (cs ! i))"
  using assms by (induction cs arbitrary: i) (auto simp: nth_Cons split: nat.split)

lemma descend_rep:
  assumes "hdr_ok h" "geo h (ih_hdr s)" "length key = klen h" "rep h (ih_pages s) par t" "bt_ok h n mn lo hi t" "n < k"
  shows "\<exists>p kvs c s'. descend k key (bt_page t) s = Some (Inr p, s') \<and> same_store s s' \<and> t = plug (Lf p kvs) c \<and> routes h key c \<and> length c = n"
  using assms
proof (induction h n mn lo hi t arbitrary: k par s rule: bt_ok.induct)
  case (1 h mn lo hi p kvs)
  obtain k' where k: "k = Suc k'" using 1(6) by (cases k) auto
  have "descend k key p s = Some (Inr p, s)" using 1(4) by (auto simp: k nodep_def ix_prims)
  then show ?case by (intro exI [of _ p] exI [of _ kvs] exI [of _ "[]"] exI [of _ s]) simp
next
  case (2 h n mn lo hi p cs)
  obtain k' where k: "k = Suc k'" using 2(7) by (cases k) auto
  obtain d where d: "ih_pages s p = Some d" "nd_ok h d" "\<not> nd_is_leaf d" "nd_keys h d = map fst cs"
    "map page_no (nd_rids h d) = map kid_page cs" and kids: "\<forall>kt\<in>set cs. rep h (ih_pages s) p (snd kt)"
    using 2(5) by (auto simp: nodep_def)
  have kok: "kids_ok h (bt_ok h n (minsz h)) hi cs" and ne: "cs \<noteq> []" using 2(6) by simp_all
  have "nd_keys h d \<noteq> []" using d(4) ne by simp
  then obtain i where i: "i < length (nd_keys h d)" "nd_internal_lookup h d key = Inr (page_no (nd_rids h d ! i))"
    "0 < i \<Longrightarrow> krank h (nd_keys h d ! i) \<le> krank h key"
    "Suc i < length (nd_keys h d) \<Longrightarrow> krank h key < krank h (nd_keys h d ! Suc i)"
    by (rule nd_internal_lookup_route [OF 2(2) d(2) kids_nd_sorted [OF 2(2) kok d(4)] 2(4)]) blast
  have il: "i < length cs" using i(1) unfolding d(4) by simp
  let ?t = "snd (cs ! i)"
  have "page_no (nd_rids h d ! i) = map page_no (nd_rids h d) ! i" using i(1) by simp
  then have pg: "page_no (nd_rids h d ! i) = bt_page ?t" using il d(5) by simp
  have rt: "rep h (ih_pages s) p ?t" using kids il by simp
  then obtain e where e: "ih_pages s (bt_page ?t) = Some e" using rep_page by blast
  obtain lo' hi' where ok': "bt_ok h n (minsz h) lo' hi' ?t" using kids_ok_nth [OF kok il] by blast
  define s1 where "s1 = s\<lparr>ih_pins := (ih_pins s)(bt_page ?t := ih_pins s (bt_page ?t) + 1)\<rparr>"
  define s2 where "s2 = s1\<lparr>ih_pins := (ih_pins s1)(p := (if ih_pins s1 p > 0 then ih_pins s1 p - 1 else ih_pins s1 p))\<rparr>"
  have s2: "same_store s s2" by (simp add: s2_def s1_def same_store_def)
  have step: "descend k key p s = descend k' key (bt_page ?t) s2"
    using d(1,3) e i(2) pg geo_simps(13) [OF 2(3)] by (simp add: k ix_prims s1_def s2_def)
  have "\<exists>q kvs c s'. descend k' key (bt_page ?t) s2 = Some (Inr q, s') \<and> same_store s2 s' \<and> ?t = plug (Lf q kvs) c \<and> routes h key c \<and> length c = n"
    by (rule 2(1)) (use 2(2,3,4,7) rt ok' s2 k same_storeD [OF s2] in auto)
  then obtain q kvs c s' where IH: "descend k' key (bt_page ?t) s2 = Some (Inr q, s')" "same_store s2 s'"
    "?t = plug (Lf q kvs) c" "routes h key c" "length c = n" by blast
  let ?c = "c @ [(p, take i cs, fst (cs ! i), drop (Suc i) cs)]"
  have "Nd p cs = plug (Lf q kvs) ?c"
    using id_take_nth_drop [OF il] unfolding plug_append IH(3) [symmetric] by simp
  moreover have "routes h key ?c"
    using i(3,4) il IH(4) d(4) by (auto simp: routes_append hd_drop_conv_nth)
  moreover have "same_store s s'" by (rule same_store_trans [OF s2 IH(2)])
  moreover have "descend k key (bt_page (Nd p cs)) s = Some (Inr q, s')" "length ?c = Suc n" using step IH(1,5) by simp_all
  ultimately show ?case by blast
qed simp_all

section \<open>The invariant of an open index\<close>

text \<open>Neighbouring leaves are linked in both directions; page 1 is before the first and behind the last one.\<close>

fun linked :: "(int \<rightharpoonup> bytes) \<Rightarrow> int list \<Rightarrow> bool" where
  "linked P (a # b # xs) \<longleftrightarrow> (\<exists>d. P a = Some d \<and> nd_next_leaf d = b) \<and> (\<exists>d. P b = Some d \<and> nd_prev_leaf d = a) \<and> linked P (b # xs)"
| "linked P [a] \<longleftrightarrow> True"
| "linked P [] \<longleftrightarrow> True"

definition ix_inv :: "ix_file_hdr \<Rightarrow> nat \<Rightarrow> bt \<Rightarrow> ix_handle \<Rightarrow> bool" where
  "ix_inv h n t s \<longleftrightarrow> hdr_ok h \<and> geo h (ih_hdr s) \<and> ix_root (ih_hdr s) = bt_page t \<and> rep h (ih_pages s) INVALID_PAGE_ID t \<and>
     bt_ok h n (root_min n) None None t \<and> distinct (bt_pages t) \<and> (\<forall>p\<in>set (bt_pages t). IX_LEAF_HEADER_PAGE < p \<and> p < ih_next s) \<and>
     (\<exists>d. ih_pages s IX_LEAF_HEADER_PAGE = Some d \<and> length d = PAGE_SIZE) \<and>
     linked (ih_pages s) (IX_LEAF_HEADER_PAGE # leaf_pages t @ [IX_LEAF_HEADER_PAGE]) \<and>
     ix_first_leaf (ih_hdr s) = hd (leaf_pages t) \<and> ix_last_leaf (ih_hdr s) = last (leaf_pages t)"

text \<open>An index of height \<open>n\<close> that maps keys to record identifiers as \<open>m\<close> does.\<close>

definition ix_holds :: "ix_file_hdr \<Rightarrow> ix_handle \<Rightarrow> nat \<Rightarrow> (bytes \<rightharpoonup> rid) \<Rightarrow> bool" where
  "ix_holds h s n m \<longleftrightarrow> (\<exists>t. ix_inv h n t s \<and> bt_map t = m)"

lemma ix_invD:
  assumes "ix_inv h n t s"
  shows "hdr_ok h" "geo h (ih_hdr s)" "ix_root (ih_hdr s) = bt_page t" "rep h (ih_pages s) INVALID_PAGE_ID t"
    "bt_ok h n (root_min n) None None t" "distinct (bt_pages t)"
    "\<And>p. p \<in> set (bt_pages t) \<Longrightarrow> IX_LEAF_HEADER_PAGE < p \<and> p < ih_next s"
    "\<exists>d. ih_pages s IX_LEAF_HEADER_PAGE = Some d \<and> length d = PAGE_SIZE"
    "linked (ih_pages s) (IX_LEAF_HEADER_PAGE # leaf_pages t @ [IX_LEAF_HEADER_PAGE])"
    "ix_first_leaf (ih_hdr s) = hd (leaf_pages t)" "ix_last_leaf (ih_hdr s) = last (leaf_pages t)"
  using assms by (simp_all add: ix_inv_def)

lemma ix_inv_same_store: "ix_inv h n t s \<Longrightarrow> same_store s s' \<Longrightarrow> ix_inv h n t s'"
  using same_storeD [of s s'] by (simp add: ix_inv_def)

text \<open>The search from the root, with the leaf it ends in and the position of that leaf.\<close>

lemma find_leaf_page_rep:
  assumes inv: "ix_inv h n t s" and len: "length key = klen h" and k: "n < k"
  obtains p kvs c s' d where "find_leaf_page k key s = Some (Inr p, s')" "same_store s s'" "t = plug (Lf p kvs) c" "routes h key c"
    "length c = n" "ctx_ok h 0 c" "fits h (top_min h c 0) (length kvs)" "leaf_ok h (lo_of h c) (hi_of h c) kvs"
    "ih_pages s p = Some d" "nd_ok h d" "nd_is_leaf d" "nd_keys h d = map fst kvs" "nd_rids h d = map snd kvs" "nd_sorted h d"
    "nd_parent d = ctx_par c"
proof -
  note i = ix_invD [OF inv]
  obtain d0 where d0: "ih_pages s (bt_page t) = Some d0" using rep_page [OF i(4)] by blast
  define s1 where "s1 = s\<lparr>ih_pins := (ih_pins s)(bt_page t := ih_pins s (bt_page t) + 1)\<rparr>"
  have s1: "same_store s s1" by (simp add: s1_def same_store_def)
  have e: "find_leaf_page k key s = descend k key (bt_page t) s1"
    using i(3) d0 by (simp add: find_leaf_page_def ix_prims s1_def)
  have g: "geo h (ih_hdr s1)" "rep h (ih_pages s1) INVALID_PAGE_ID t" using i(2,4) same_storeD [OF s1] by simp_all
  obtain p kvs c s' where f: "descend k key (bt_page t) s1 = Some (Inr p, s')" "same_store s1 s'" "t = plug (Lf p kvs) c"
    "routes h key c" "length c = n" using descend_rep [OF i(1) g(1) len g(2) i(5) k] by blast
  have "bt_ok h (0 + length c) (root_min (0 + length c)) None None (plug (Lf p kvs) c)" using i(5) f(3,5) by simp
  then have ok: "ctx_ok h 0 c" "bt_ok h 0 (top_min h c 0) (lo_of h c) (hi_of h c) (Lf p kvs)" by (simp_all only: plug_ok)
  have "rep h (ih_pages s) (ctx_par c) (Lf p kvs)" using i(4) f(3) by (simp only: rep_plug)
  then obtain d where d: "ih_pages s p = Some d" "nd_ok h d" "nd_is_leaf d" "nd_parent d = ctx_par c" "nd_keys h d = map fst kvs" "nd_rids h d = map snd kvs"
    by (auto simp: nodep_def)
  have lf: "leaf_ok h (lo_of h c) (hi_of h c) kvs" "fits h (top_min h c 0) (length kvs)" using ok(2) by simp_all
  show ?thesis
    by (rule that [OF _ same_store_trans [OF s1 f(2)] f(3-5) ok(1) lf(2,1) d(1-3) d(5,6) leaf_nd_sorted [OF i(1) lf(1) d(5)] d(4)])
      (use e f(1) in simp)
qed

lemma get_value_rep:
  assumes inv: "ix_inv h n t s" and len: "length key = klen h" and k: "n < k"
  obtains r s' where "get_value k key s = Some (Inr r, s')" "same_store s s'" "key \<in> dom (bt_map t) \<Longrightarrow> r = bt_map t key"
proof -
  obtain p kvs c s1 d where f: "find_leaf_page k key s = Some (Inr p, s1)" "same_store s s1" "t = plug (Lf p kvs) c" "routes h key c"
    "ctx_ok h 0 c" "ih_pages s p = Some d" "nd_ok h d" "nd_keys h d = map fst kvs" "nd_rids h d = map snd kvs" "nd_sorted h d"
    by (rule find_leaf_page_rep [OF inv len k])
  note i = ix_invD [OF inv] and s1 = same_storeD [OF f(2)]
  have h: "ix_dims h" "ix_exact h" using i(1) by (simp_all add: hdr_ok_def)
  obtain j where "nd_lower_bound h d key = Inr j" by (rule nd_position [OF h f(7,10) len]) blast
  then obtain r where r: "nd_leaf_lookup h d key = Inr r" by (simp add: nd_leaf_lookup_def)
  have m: "bt_map t key = nd_map h d key"
    using routes_map [OF f(5,4)] f(3,8,9) by (simp add: bt_map_def nd_map_def zip_map_fst_snd)
  define s2 where "s2 = s1\<lparr>ih_pins := (ih_pins s1)(p := (if ih_pins s1 p > 0 then ih_pins s1 p - 1 else ih_pins s1 p))\<rparr>"
  have "get_value k key s = Some (Inr r, s2)"
    using f(1,6) s1 r geo_simps(12) [OF i(2)] by (simp add: get_value_def ix_prims s2_def)
  moreover have "same_store s s2" by (rule same_store_trans [OF f(2)]) (simp add: s2_def same_store_def)
  moreover have "r = bt_map t key" if "key \<in> dom (bt_map t)"
  proof -
    have "key \<in> dom (nd_map h d)" using that m by (simp add: dom_def)
    then have "\<exists>k\<in>set (nd_keys h d). krank h key \<le> krank h k" by (auto simp: dom_nd_map)
    then show ?thesis using nd_leaf_lookup_correct [OF h f(7,10) len] r m by simp
  qed
  ultimately show ?thesis by (rule that)
qed

end
