(* ===== verification/Bt_Edits.thy ===== *)
theory Bt_Edits
  imports Bt_Pages
begin

text \<open>
  The edits the tree operations make to a page, as operations on its links and its lists: setting a
  link, replacing a key, finding a child, and copying a range of pairs to another node.
\<close>

section \<open>Links\<close>

lemma slot_put_hdr: "length d = 4096 \<Longrightarrow> off + 4 \<le> 24 \<Longrightarrow> 24 \<le> b \<Longrightarrow> slot (put_int d off v) b K i = slot d b K i"
  by (simp add: slot_def put_int_def mem_read_write_after enc_int_def)

lemma nth_put_int: "length d = 4096 \<Longrightarrow> off + 4 \<le> i \<or> i < off \<Longrightarrow> i < 4096 \<Longrightarrow> off + 4 \<le> 4096 \<Longrightarrow> put_int d off v ! i = d ! i"
  by (auto simp: put_int_def nth_mem_write enc_int_def)

named_theorems link_simps "reading a node after a link was set"

lemma nd_set_parent_simps [link_simps]:
  assumes "length d = PAGE_SIZE"
  shows "length (nd_set_parent d p) = PAGE_SIZE" "nd_get_size (nd_set_parent d p) = nd_get_size d"
    "int_range p \<Longrightarrow> nd_parent (nd_set_parent d p) = p" "nd_is_leaf (nd_set_parent d p) = nd_is_leaf d"
    "nd_prev_leaf (nd_set_parent d p) = nd_prev_leaf d" "nd_next_leaf (nd_set_parent d p) = nd_next_leaf d"
    "nd_keys h (nd_set_parent d p) = nd_keys h d" "nd_rids h (nd_set_parent d p) = nd_rids h d"
  using assms unfolding nd_set_parent_def nd_get_size_def nd_parent_def nd_is_leaf_def nd_prev_leaf_def nd_next_leaf_def nd_keys_def nd_rids_def
  by (simp_all add: PAGE_SIZE_def mem_simps wrap32_id slot_put_hdr nth_put_int)

lemma nd_set_prev_simps [link_simps]:
  assumes "length d = PAGE_SIZE"
  shows "length (nd_set_prev_leaf d p) = PAGE_SIZE" "nd_get_size (nd_set_prev_leaf d p) = nd_get_size d"
    "int_range p \<Longrightarrow> nd_prev_leaf (nd_set_prev_leaf d p) = p" "nd_is_leaf (nd_set_prev_leaf d p) = nd_is_leaf d"
    "nd_parent (nd_set_prev_leaf d p) = nd_parent d" "nd_next_leaf (nd_set_prev_leaf d p) = nd_next_leaf d"
    "nd_keys h (nd_set_prev_leaf d p) = nd_keys h d" "nd_rids h (nd_set_prev_leaf d p) = nd_rids h d"
  using assms unfolding nd_set_prev_leaf_def nd_get_size_def nd_parent_def nd_is_leaf_def nd_prev_leaf_def nd_next_leaf_def nd_keys_def nd_rids_def
  by (simp_all add: PAGE_SIZE_def mem_simps wrap32_id slot_put_hdr nth_put_int)

lemma nd_set_next_simps [link_simps]:
  assumes "length d = PAGE_SIZE"
  shows "length (nd_set_next_leaf d p) = PAGE_SIZE" "nd_get_size (nd_set_next_leaf d p) = nd_get_size d"
    "int_range p \<Longrightarrow> nd_next_leaf (nd_set_next_leaf d p) = p" "nd_is_leaf (nd_set_next_leaf d p) = nd_is_leaf d"
    "nd_parent (nd_set_next_leaf d p) = nd_parent d" "nd_prev_leaf (nd_set_next_leaf d p) = nd_prev_leaf d"
    "nd_keys h (nd_set_next_leaf d p) = nd_keys h d" "nd_rids h (nd_set_next_leaf d p) = nd_rids h d"
  using assms unfolding nd_set_next_leaf_def nd_get_size_def nd_parent_def nd_is_leaf_def nd_prev_leaf_def nd_next_leaf_def nd_keys_def nd_rids_def
  by (simp_all add: PAGE_SIZE_def mem_simps wrap32_id slot_put_hdr nth_put_int)

lemma nd_ok_links [link_simps]:
  assumes "length d = PAGE_SIZE"
  shows "nd_ok h (nd_set_parent d p) = nd_ok h d" "nd_ok h (nd_set_prev_leaf d p) = nd_ok h d" "nd_ok h (nd_set_next_leaf d p) = nd_ok h d"
  using assms by (simp_all add: nd_ok_def link_simps)

lemma nd_ok_length: "nd_ok h d \<Longrightarrow> length d = PAGE_SIZE"
  by (simp add: nd_ok_def)

text \<open>Shrinking a node keeps the first pairs.\<close>

lemma nd_set_size_lists:
  assumes "ix_dims h" "nd_ok h d" "n \<le> nat (nd_get_size d)"
  shows "nd_ok h (nd_set_size d (int n))" "nd_get_size (nd_set_size d (int n)) = int n" "same_links d (nd_set_size d (int n))"
    "nd_keys h (nd_set_size d (int n)) = take n (nd_keys h d)" "nd_rids h (nd_set_size d (int n)) = take n (nd_rids h d)"
proof -
  have len: "length d = PAGE_SIZE" and sz: "0 \<le> nd_get_size d" "nd_get_size d \<le> ix_order h" using assms(2) by (simp_all add: nd_ok_def)
  have "int_range (int n)" by (rule order_range [OF assms(1)]) (use assms(3) sz in linarith)+
  note s = nd_set_size_simps [OF len, where n = "int n"] and g = nd_set_size_simps(2) [OF len this]
  show "nd_get_size (nd_set_size d (int n)) = int n" by (rule g)
  show "nd_ok h (nd_set_size d (int n))" using s(1) g assms(3) sz by (simp add: nd_ok_def)
  show "same_links d (nd_set_size d (int n))" using s by (simp add: same_links_def)
  show "nd_keys h (nd_set_size d (int n)) = take n (nd_keys h d)" "nd_rids h (nd_set_size d (int n)) = take n (nd_rids h d)"
    using assms(3) s(7) by (simp_all add: nd_keys_def nd_rids_def g take_map)
qed

text \<open>A new node on a zeroed page.\<close>

lemma nd_new:
  fixes leaf :: bool
  assumes "ix_dims h" "int_range par"
  defines "e \<equiv> nd_set_size (nd_set_is_leaf (nd_set_parent (replicate PAGE_SIZE 0) par) leaf) 0"
  shows "nd_ok h e" "nd_get_size e = 0" "nd_is_leaf e = leaf" "nd_parent e = par" "nd_keys h e = []" "nd_rids h e = []"
proof -
  let ?z = "replicate PAGE_SIZE (0::byte)"
  let ?f = "nd_set_is_leaf (nd_set_parent ?z par) leaf"
  have l: "length ?f = PAGE_SIZE" by (simp add: nd_set_is_leaf_def nd_set_parent_def mem_simps PAGE_SIZE_def)
  have lf: "nd_is_leaf ?f = leaf"
    by (simp add: nd_set_is_leaf_def nd_set_parent_def nd_is_leaf_def mem_simps nth_mem_write PAGE_SIZE_def)
  have "nd_parent ?f = nd_parent (nd_set_parent ?z par)"
    by (simp add: nd_set_is_leaf_def nd_parent_def get_int_def mem_simps nd_set_parent_def PAGE_SIZE_def)
  then have pr: "nd_parent ?f = par" using assms(2) by (simp add: link_simps)
  show s: "nd_get_size e = 0" unfolding e_def using nd_set_size_simps(2) [OF l] by simp
  show "nd_is_leaf e = leaf" "nd_parent e = par" unfolding e_def using nd_set_size_simps(3,4) [OF l] lf pr by simp_all
  show "nd_ok h e" using s nd_set_size_simps(1) [OF l] assms(1) by (simp add: nd_ok_def e_def ix_dims_def)
  show "nd_keys h e = []" "nd_rids h e = []" by (simp_all add: nd_keys_def nd_rids_def s)
qed

text \<open>The root of a tree that grows: a zeroed page has no pairs.\<close>

lemma nd_new_root:
  assumes "ix_dims h"
  defines "e \<equiv> nd_set_parent (nd_set_is_leaf (replicate PAGE_SIZE 0) False) INVALID_PAGE_ID"
  shows "nd_ok h e" "nd_get_size e = 0" "\<not> nd_is_leaf e" "nd_parent e = INVALID_PAGE_ID" "nd_keys h e = []" "nd_rids h e = []"
proof -
  have z: "nd_set_is_leaf (replicate PAGE_SIZE 0) False = replicate PAGE_SIZE 0"
    by (rule nth_equalityI) (auto simp: nd_set_is_leaf_def nth_mem_write mem_simps PAGE_SIZE_def)
  have l: "length (replicate PAGE_SIZE (0::byte)) = PAGE_SIZE" by simp
  have "get_int (replicate PAGE_SIZE (0::byte)) 8 = 0" unfolding PAGE_SIZE_def by code_simp
  then have s: "nd_get_size (replicate PAGE_SIZE 0) = 0" by (simp add: nd_get_size_def)
  show g: "nd_get_size e = 0" "\<not> nd_is_leaf e" "nd_parent e = INVALID_PAGE_ID"
    unfolding e_def z using link_simps(2-4) [OF l, of INVALID_PAGE_ID] s by (simp_all add: nd_is_leaf_def INVALID_PAGE_ID_def PAGE_SIZE_def)
  show "nd_ok h e" using g(1) nd_set_parent_simps(1) [OF l] assms(1) by (simp add: nd_ok_def e_def z ix_dims_def)
  show "nd_keys h e = []" "nd_rids h e = []" by (simp_all add: nd_keys_def nd_rids_def g)
qed

section \<open>Keys and children\<close>

lemma nd_get_key_nth: "i < length (nd_keys h d) \<Longrightarrow> nd_get_key h d (int i) = nd_keys h d ! i"
  by (simp add: nd_get_key_slot nd_keys_def)

lemma nd_get_key_hd: "nd_keys h d \<noteq> [] \<Longrightarrow> nd_get_key h d 0 = hd (nd_keys h d)"
proof -
  assume ne: "nd_keys h d \<noteq> []"
  then have "0 < length (nd_keys h d)" unfolding length_greater_0_conv .
  from nd_get_key_nth [OF this] show ?thesis using ne by (simp add: hd_conv_nth)
qed

lemma nd_get_rid_nth: "ix_dims h \<Longrightarrow> i < length (nd_rids h d) \<Longrightarrow> nd_get_rid h d (int i) = nd_rids h d ! i"
  by (simp add: nd_get_rid_slot nd_rids_def)

lemma nd_value_at_nth:
  "ix_dims h \<Longrightarrow> map page_no (nd_rids h d) = ps \<Longrightarrow> i < length ps \<Longrightarrow> nd_value_at h d (int i) = ps ! i"
  using nd_get_rid_nth [of h i d] by (auto simp: nd_value_at_def)

lemma nd_set_key_lists:
  assumes dm: "ix_dims h" and ok: "nd_ok h d" and i: "i < length (nd_keys h d)" and len: "length key = klen h"
  shows "nd_ok h (nd_set_key h d (int i) key)" "same_links d (nd_set_key h d (int i) key)"
    "nd_get_size (nd_set_key h d (int i) key) = nd_get_size d"
    "nd_keys h (nd_set_key h d (int i) key) = (nd_keys h d)[i := key]" "nd_rids h (nd_set_key h d (int i) key) = nd_rids h d"
proof -
  let ?d = "mem_write d (24 + i * klen h) key"
  have e: "nd_set_key h d (int i) key = ?d" using len by (simp add: nd_set_key_slot)
  have l: "length d = PAGE_SIZE" and sz: "0 \<le> nd_get_size d" "nd_get_size d \<le> ix_order h" using ok by (simp_all add: nd_ok_def)
  have i': "i < nslots h" using i sz by simp
  have f: "24 + i * klen h + length key \<le> length d" using slot_fits(1) [OF dm i'] l len by simp
  have tk: "take 24 ?d = take 24 d" by (rule take_mem_write) (use f in simp_all)
  note hd = same_hdr [OF tk]
  have n: "24 + nslots h * klen h \<le> length d" using ix_dims_nat(5) [OF dm] l by simp
  have ks: "slot ?d 24 (klen h) j = (if j = i then key else slot d 24 (klen h) j)" if "j < nslots h" for j
    by (rule slot_write [OF n that i' len])
  have rs: "slot ?d (rid_base h) 8 j = slot d (rid_base h) 8 j" if "j < nslots h" for j
    by (rule slot_write_out [OF f _ that]) (use mult_slot_le [OF i', of "klen h"] len in simp)
  show "nd_ok h (nd_set_key h d (int i) key)" using hd(1) sz l f by (simp add: e nd_ok_def length_mem_write)
  show "same_links d (nd_set_key h d (int i) key)" using hd by (simp add: e same_links_def)
  show "nd_get_size (nd_set_key h d (int i) key) = nd_get_size d" using hd(1) by (simp add: e)
  show "nd_keys h (nd_set_key h d (int i) key) = (nd_keys h d)[i := key]"
    by (rule nth_equalityI) (use sz in \<open>auto simp: e nd_keys_def hd(1) ks nth_list_update\<close>)
  show "nd_rids h (nd_set_key h d (int i) key) = nd_rids h d" using sz by (simp add: e nd_rids_def hd(1) rs)
qed

lemma nd_find_child_at:
  assumes dm: "ix_dims h" and ps: "map page_no (nd_rids h d) = ls @ q # rs" and q: "q \<notin> set ls"
  shows "nd_find_child h d q = Inr (int (length ls))"
proof -
  let ?P = "\<lambda>i. nd_value_at h d (int i) = q" and ?n = "nat (nd_get_size d)"
  have n: "?n = length (ls @ q # rs)" using arg_cong [OF ps, of length] by simp
  have v: "nd_value_at h d (int i) = (ls @ q # rs) ! i" if "i < ?n" for i
    using nd_value_at_nth [OF dm ps] that n by simp
  have "find ?P [0..<?n] = Some (length ls)"
    unfolding find_Some_iff using n v q by (intro exI [of _ "length ls"]) (auto simp: nth_append)
  then show ?thesis by (simp add: nd_find_child_def)
qed

lemma keys_of_read:
  assumes dm: "ix_dims h" and ok: "nd_ok h d" and n: "m + n \<le> length (nd_keys h d)"
  shows "keys_of h n (mem_read d (key_off h (int m)) (n * klen h)) = take n (drop m (nd_keys h d))"
    "n * klen h \<le> length (mem_read d (key_off h (int m)) (n * klen h))"
proof -
  have l: "length d = PAGE_SIZE" and sz: "0 \<le> nd_get_size d" "nd_get_size d \<le> ix_order h" using ok by (simp_all add: nd_ok_def)
  have off: "key_off h (int m) = 24 + m * klen h" by (simp add: key_off_def IX_PAGE_HDR_SIZE_def)
  have "(m + n) * klen h \<le> nslots h * klen h" by (rule mult_le_mono1) (use n sz in simp)
  then have f: "24 + m * klen h + n * klen h \<le> length d" using ix_dims_nat(5) [OF dm] l by (simp add: algebra_simps)
  then show "n * klen h \<le> length (mem_read d (key_off h (int m)) (n * klen h))" by (simp add: off length_mem_read)
  show "keys_of h n (mem_read d (key_off h (int m)) (n * klen h)) = take n (drop m (nd_keys h d))"
  proof (rule nth_equalityI)
    fix i assume "i < length (keys_of h n (mem_read d (key_off h (int m)) (n * klen h)))"
    then have i: "i < n" by (simp add: keys_of_def)
    have "take (klen h) (drop (i * klen h) (mem_read d (24 + m * klen h) (n * klen h))) = mem_read d (24 + m * klen h + i * klen h) (klen h)"
      using mem_read_read [OF mult_slot_le [OF i, of "klen h"], of d "24 + m * klen h"] by (simp add: mem_read_def)
    then show "keys_of h n (mem_read d (key_off h (int m)) (n * klen h)) ! i = take n (drop m (nd_keys h d)) ! i"
      using i n by (simp add: keys_of_def off nd_keys_def slot_def add_mult_distrib add.assoc)
  qed (use n in \<open>simp add: keys_of_def\<close>)
qed

text \<open>Copying the pairs from position \<open>m\<close> on of one node to position \<open>p\<close> of another.\<close>

lemma nd_copy_pairs:
  assumes dm: "ix_dims h" and ok: "nd_ok h d" "nd_ok h e" and n: "m + n \<le> length (nd_keys h d)" and p: "p \<le> length (nd_keys h e)"
    and room: "nd_get_size e + int n \<le> ix_order h"
  obtains e' where "nd_insert_pairs h e (int p) (mem_read d (key_off h (int m)) (n * klen h)) (map (\<lambda>i. nd_get_rid h d (int i)) [m..<m + n]) n = Inr e'"
    "nd_ok h e'" "same_links e e'" "nd_get_size e' = nd_get_size e + int n"
    "nd_keys h e' = take p (nd_keys h e) @ take n (drop m (nd_keys h d)) @ drop p (nd_keys h e)"
    "nd_rids h e' = take p (nd_rids h e) @ take n (drop m (nd_rids h d)) @ drop p (nd_rids h e)"
proof -
  let ?K = "mem_read d (key_off h (int m)) (n * klen h)" and ?R = "map (\<lambda>i. nd_get_rid h d (int i)) [m..<m + n]"
  have R: "?R = take n (drop m (nd_rids h d))"
    using n nd_get_rid_nth [OF dm, of "m + _" d] by (intro nth_equalityI) auto
  have pos: "0 \<le> int p" "int p \<le> nd_get_size e" using p ok(2) by (simp_all add: nd_ok_def le_nat_iff)
  have rok: "list_all rid_ok ?R" unfolding R using nd_rids_ok [of h d] by (auto simp: list_all_iff dest: in_set_takeD in_set_dropD)
  have rl: "length ?R = n" by simp
  obtain e' where "nd_insert_pairs h e (int p) ?K ?R n = Inr e'" "nd_ok h e'" "same_links e e'" "nd_get_size e' = nd_get_size e + int n"
    "nd_keys h e' = take (nat (int p)) (nd_keys h e) @ keys_of h n ?K @ drop (nat (int p)) (nd_keys h e)"
    "nd_rids h e' = take (nat (int p)) (nd_rids h e) @ ?R @ drop (nat (int p)) (nd_rids h e)"
    by (rule nd_insert_pairs_lists [OF dm ok(2) pos room keys_of_read(2) [OF dm ok(1) n] rl rok])
  then show ?thesis using keys_of_read(1) [OF dm ok(1) n] R by (intro that [of e']) simp_all
qed

end
