(* ===== verification/Bt_Insert.thy ===== *)
theory Bt_Insert
  imports Bt_Edits
begin

text \<open>
  Insertion into the B+ tree (\<^verbatim>\<open>insert_entry\<close>, \<^verbatim>\<open>split\<close>, \<^verbatim>\<open>insert_into_parent\<close>, \<^verbatim>\<open>maintain_parent\<close>): the
  index afterwards holds the old pairs and the new one, and the tree is in order again.
\<close>

section \<open>A new smallest key\<close>

text \<open>\<^verbatim>\<open>maintain_parent\<close> on a position: the separators above a node whose first key has become \<open>f\<close>.\<close>

fun mfix :: "bytes \<Rightarrow> frame list \<Rightarrow> frame list" where
  "mfix f [] = []"
| "mfix f ((p, l, k, r) # c) = (if k = f then (p, l, k, r) # c else (p, l, f, r) # mfix (first_key l f) c)"

fun low :: "ix_file_hdr \<Rightarrow> bytes \<Rightarrow> frame list \<Rightarrow> bool" where
  "low h f [] \<longleftrightarrow> True"
| "low h f ((p, l, k, r) # c) \<longleftrightarrow> (if l = [] then low h f c else krank h k \<le> krank h f)"

lemma routes_low: "routes h f c \<Longrightarrow> low h f c"
  by (induction h f c rule: low.induct) simp_all

lemma lbd_low: "ctx_ok h n c \<Longrightarrow> lbd (lo_of h c) (krank h f) \<Longrightarrow> low h f c"
proof (induction h f c arbitrary: n rule: low.induct)
  case (2 h f p l k r c)
  show ?case
  proof (cases "l = []")
    case True
    then have "lbd (lo_of h c) (krank h k)" "krank h k \<le> krank h f" using 2(2,3) by (simp_all add: first_key_def)
    then show ?thesis using 2(1) [OF True, of "Suc n"] 2(2) True by (auto intro: lbd_mono)
  qed (use 2(3) in simp)
qed simp

lemma mfix_invariant [simp]: "hi_of h (mfix f c) = hi_of h c" "left_of g (mfix f c) = left_of g c" "right_of g (mfix f c) = right_of g c"
  "ctx_pages (mfix f c) = ctx_pages c" "length (mfix f c) = length c" "ctx_par (mfix f c) = ctx_par c" "mfix f c = [] \<longleftrightarrow> c = []"
  "top_min h (mfix f c) m = top_min h c m"
  by (induction f c rule: mfix.induct) (simp_all add: top_min_def)

lemma lo_of_mfix: "c \<noteq> [] \<Longrightarrow> lo_of h (mfix f c) = Some (krank h f)"
  by (cases c) auto

lemma kids_ok_upper:
  assumes "kids_ok h (bt_ok h n mn) (Some b) l" "b \<le> b'"
  shows "kids_ok h (bt_ok h n mn) (Some b') l"
  by (rule kids_ok_mono [OF assms(1)]) (use assms(2) in \<open>auto elim!: bt_ok_mono\<close>)

lemma first_key_bound:
  assumes "kids_ok h F (Some (krank h k)) l" "kids_ok h F B r" "ubd (nxt h B r) (krank h f)" "l \<noteq> [] \<Longrightarrow> krank h k \<le> krank h f"
  shows "ubd B (krank h (first_key l f))"
proof -
  have f: "ubd B (krank h f)" using assms(2,3) kids_ok_sorted [OF assms(2)] by (cases r) (auto intro: ubd_mono less_imp_le)
  show ?thesis
  proof (cases l)
    case (Cons a l')
    then have "krank h (fst a) < krank h k" using kids_ok_sorted [OF assms(1)] by simp
    then have "krank h (fst a) \<le> krank h f" using assms(4) Cons by (auto intro: less_imp_le order_trans)
    then show ?thesis using f Cons by (auto simp: first_key_def intro: ubd_mono)
  qed (use f in \<open>simp add: first_key_def\<close>)
qed

lemma mfix_ok:
  assumes "ctx_ok h n c" "low h f c" "ubd (hi_of h c) (krank h f)" "length f = klen h"
  shows "ctx_ok h n (mfix f c)"
  using assms
proof (induction f c arbitrary: n rule: mfix.induct)
  case (2 f p l k r c)
  show ?case
  proof (cases "k = f")
    case False
    let ?f = "first_key l f" and ?F = "bt_ok h n (minsz h)"
    have k: "kids_ok h ?F (Some (krank h k)) l" "kids_ok h ?F (hi_of h c) r" "ctx_ok h (Suc n) c" "lbd (lo_of h c) (krank h (first_key l k))"
      "fits h (top_min h c (Suc n)) (Suc (length l + length r))" using 2(2) by simp_all
    have le: "l \<noteq> [] \<Longrightarrow> krank h k \<le> krank h f" using 2(3) by simp
    have len: "length ?f = klen h" using kids_ok_sorted [OF k(1)] 2(5) by (cases l) (simp_all add: first_key_def)
    have lw: "low h ?f c"
    proof (cases "l = []")
      case True
      then show ?thesis using 2(3) by (simp add: first_key_def)
    next
      case False
      then show ?thesis using lbd_low [OF k(3)] k(4) by (simp add: first_key_def)
    qed
    have ub: "ubd (hi_of h c) (krank h ?f)" by (rule first_key_bound [OF k(1,2)]) (use 2(4) le in simp_all)
    have IH: "ctx_ok h (Suc n) (mfix ?f c)" by (rule 2(1) [OF False k(3) lw ub len])
    have "lbd (lo_of h (mfix ?f c)) (krank h ?f)" by (cases "c = []") (simp_all add: lo_of_mfix)
    moreover have "kids_ok h ?F (Some (krank h f)) l" using kids_ok_upper [OF k(1) le] by (cases l) simp_all
    ultimately show ?thesis using False IH k 2(4,5) by simp
  qed (use 2(2) in simp)
qed simp

text \<open>What an operation leaves alone: the header but for the number of pages, and the pages outside a set.\<close>

definition only_pages :: "int set \<Rightarrow> ix_handle \<Rightarrow> ix_handle \<Rightarrow> bool" where
  "only_pages X s s' \<longleftrightarrow> (\<forall>x. x \<notin> X \<longrightarrow> ih_pages s' x = ih_pages s x)"

lemma rep_keep: "rep h P par t \<Longrightarrow> (\<And>p. p \<in> set (bt_pages t) \<Longrightarrow> P' p = P p) \<Longrightarrow> rep h P' par t"
  using rep_cong [of t P' P h par] by blast

lemma rep_ctx_keep: "rep_ctx h P q c \<Longrightarrow> (\<And>p. p \<in> set (ctx_pages c) \<Longrightarrow> P' p = P p) \<Longrightarrow> rep_ctx h P' q c"
  using rep_ctx_cong [of c P' P h q] by blast

lemma frame_pages: "set (map fst c) \<subseteq> set (ctx_pages c)"
  by (induction c rule: ctx_pages.induct) auto

lemma kid_page_in: "kt \<in> set cs \<Longrightarrow> kid_page kt \<in> set (concat (map (\<lambda>kt. bt_pages (snd kt)) cs))"
  using bt_page_in by fastforce

lemma in_kids_pages: "kt \<in> set cs \<Longrightarrow> x \<in> set (bt_pages (snd kt)) \<Longrightarrow> x \<in> set (concat (map (\<lambda>kt. bt_pages (snd kt)) cs))"
  by auto

lemma frame_disjoint:
  assumes "distinct (ctx_pages ((p, l, k, r) # c))" "kt \<in> set l \<union> set r" "x \<in> set (bt_pages (snd kt))"
  shows "x \<noteq> p \<and> x \<notin> set (ctx_pages c)"
proof -
  let ?C = "\<lambda>cs. concat (map (\<lambda>kt. bt_pages (snd kt)) cs)"
  have "x \<in> set (?C l) \<union> set (?C r)" using assms(2,3) in_kids_pages [of kt] by blast
  moreover have "p \<notin> set (?C l) \<union> set (?C r)" "(set (?C l) \<union> set (?C r)) \<inter> set (ctx_pages c) = {}"
    using assms(1) unfolding ctx_pages.simps distinct.simps distinct_append set_append by blast+
  ultimately show ?thesis by blast
qed

definition links_kept :: "int \<Rightarrow> (int \<rightharpoonup> bytes) \<Rightarrow> (int \<rightharpoonup> bytes) \<Rightarrow> bool" where
  "links_kept N P P' \<longleftrightarrow> (\<forall>x d. x < N \<longrightarrow> P x = Some d \<longrightarrow>
     (\<exists>d'. P' x = Some d' \<and> length d' = length d \<and> nd_prev_leaf d' = nd_prev_leaf d \<and> nd_next_leaf d' = nd_next_leaf d))"

lemma links_kept_refl: "links_kept N P P"
  by (simp add: links_kept_def)

lemma links_kept_trans: "links_kept N P P1 \<Longrightarrow> links_kept N' P1 P2 \<Longrightarrow> N \<le> N' \<Longrightarrow> links_kept N P P2"
proof -
  assume a: "links_kept N P P1" "links_kept N' P1 P2" "N \<le> N'"
  show ?thesis unfolding links_kept_def
  proof (intro allI impI)
    fix x d assume x: "x < N" "P x = Some d"
    obtain d1 where d1: "P1 x = Some d1" "length d1 = length d" "nd_prev_leaf d1 = nd_prev_leaf d" "nd_next_leaf d1 = nd_next_leaf d"
      using a(1) x unfolding links_kept_def by blast
    have "x < N'" using a(3) x(1) by simp
    then obtain d2 where "P2 x = Some d2" "length d2 = length d1" "nd_prev_leaf d2 = nd_prev_leaf d1" "nd_next_leaf d2 = nd_next_leaf d1"
      using a(2) d1(1) unfolding links_kept_def by blast
    then show "\<exists>d'. P2 x = Some d' \<and> length d' = length d \<and> nd_prev_leaf d' = nd_prev_leaf d \<and> nd_next_leaf d' = nd_next_leaf d"
      using d1 by auto
  qed
qed

lemma links_kept_upd:
  assumes "links_kept N P P'" "P p = Some d" "length d' = length d" "nd_prev_leaf d' = nd_prev_leaf d" "nd_next_leaf d' = nd_next_leaf d"
  shows "links_kept N P (P'(p \<mapsto> d'))"
  using assms by (auto simp: links_kept_def)

lemma links_kept_new: "links_kept N P P' \<Longrightarrow> N \<le> p \<Longrightarrow> links_kept N P (P'(p \<mapsto> d'))"
  by (auto simp: links_kept_def)

lemma linked_kept: "linked P xs \<Longrightarrow> links_kept N P P' \<Longrightarrow> (\<And>x. x \<in> set xs \<Longrightarrow> x < N) \<Longrightarrow> linked P' xs"
proof (induction P xs rule: linked.induct)
  case (1 P a b xs)
  obtain d e where "P a = Some d" "nd_next_leaf d = b" "P b = Some e" "nd_prev_leaf e = a" using 1(2) by auto
  then have "\<exists>d'. P' a = Some d' \<and> nd_next_leaf d' = b" "\<exists>e'. P' b = Some e' \<and> nd_prev_leaf e' = a"
    using 1(3) 1(4) [of a] 1(4) [of b] unfolding links_kept_def by (metis list.set_intros)+
  then show ?case using 1 by simp
qed simp_all

lemma maintain_loop_rep:
  assumes h: "hdr_ok h"
  shows "geo h (ih_hdr s) \<Longrightarrow> ctx_ok h n c \<Longrightarrow> rep_ctx h (ih_pages s) cur c \<Longrightarrow> distinct (ctx_pages c) \<Longrightarrow> cur \<notin> set (ctx_pages c) \<Longrightarrow>
    IX_NO_PAGE \<notin> set (ctx_pages c) \<Longrightarrow> ih_pages s cur = Some d \<Longrightarrow> nd_ok h d \<Longrightarrow> nd_parent d = ctx_par c \<Longrightarrow>
    nd_keys h d \<noteq> [] \<Longrightarrow> length c < k \<Longrightarrow>
    \<exists>s'. maintain_loop k b cur s = Some (Inr (), s') \<and> ih_hdr s' = ih_hdr s \<and> ih_next s' = ih_next s \<and> ih_fd s' = ih_fd s \<and>
      rep_ctx h (ih_pages s') cur (mfix (hd (nd_keys h d)) c) \<and> only_pages (set (map fst c)) s s' \<and> links_kept N (ih_pages s) (ih_pages s')"
proof (induction c arbitrary: n s cur d k b rule: ctx_pages.induct)
  case 1
  then obtain k' where k: "k = Suc k'" by (cases k) auto
  have "maintain_loop k b cur s = Some (Inr (), s)" using 1(7,9) by (simp add: k ix_prims ix_consts)
  then show ?case by (simp add: only_pages_def links_kept_refl)
next
  case (2 p l ky r c)
  note pr = 2(2-12)
  have dm: "ix_dims h" using h by (simp add: hdr_ok_def)
  obtain k' where k: "k = Suc k'" using pr(11) by (cases k) auto
  let ?f = "hd (nd_keys h d)"
  obtain dp where dp: "ih_pages s p = Some dp" "nd_ok h dp" "\<not> nd_is_leaf dp" "nd_parent dp = ctx_par c" "nd_keys h dp = map fst l @ ky # map fst r"
    "map page_no (nd_rids h dp) = map kid_page l @ cur # map kid_page r" using pr(3) by (auto simp: nodep_def)
  have kids: "rep h (ih_pages s) p (snd kt)" if "kt \<in> set l \<union> set r" for kt using pr(3) that by simp
  have up: "rep_ctx h (ih_pages s) p c" using pr(3) by simp
  have par: "nd_parent d = p" "p \<noteq> IX_NO_PAGE" using pr(6,9) by auto
  have "cur \<notin> set (map kid_page l)" using pr(5) kid_page_in [of _ l] by auto
  then have fc: "nd_find_child h dp cur = Inr (int (length l))" using nd_find_child_at [OF dm dp(6)] by simp
  have il: "length l < length (nd_keys h dp)" using dp(5) by simp
  have kp: "nd_get_key h dp (int (length l)) = ky" using nd_get_key_nth [OF il] dp(5) by (simp add: nth_append)
  have kd: "nd_get_key h d 0 = ?f" by (rule nd_get_key_hd [OF pr(10)])
  have flen: "length ?f = klen h" by (rule nd_key_lengths(1) [OF dm pr(8)]) (use pr(10) in simp)
  have klen: "length ky = klen h" using pr(2) by simp
  have cmp: "memcmp_bytes ky ?f (klen h) = 0 \<longleftrightarrow> ky = ?f" using memcmp_zero [OF klen flen] .
  note g = geo_simps [OF pr(1)]
  show ?case
  proof (cases "ky = ?f")
    case True
    define s' where "s' = s\<lparr>ih_pins := ih_pins (snd (the (unpin_node p (snd (the (fetch_node p s))))))\<rparr>"
    have "maintain_loop k b cur s = Some (Inr (), s')"
      using pr(7) par dp(1) fc kp kd cmp True g by (simp add: k ix_prims s'_def)
    then show ?thesis using True pr(3) by (intro exI [of _ s']) (simp add: s'_def only_pages_def links_kept_refl)
  next
    case False
    let ?dp = "nd_set_key h dp (int (length l)) ?f"
    note sk = nd_set_key_lists [OF dm dp(2) il flen]
    have keys: "nd_keys h ?dp = map fst l @ ?f # map fst r" using sk(4) dp(5) by (simp add: list_update_append)
    define s1 where "s1 = s\<lparr>ih_pages := (ih_pages s)(p \<mapsto> ?dp), ih_pins := (ih_pins s)(p := ih_pins s p + 1)\<rparr>"
    define s2 where "s2 = (if b then s1 else s1\<lparr>ih_pins := (ih_pins s1)(cur := (if ih_pins s1 cur > 0 then ih_pins s1 cur - 1 else ih_pins s1 cur))\<rparr>)"
    have s2: "ih_pages s2 = (ih_pages s)(p \<mapsto> ?dp)" "ih_hdr s2 = ih_hdr s" "ih_next s2 = ih_next s" "ih_fd s2 = ih_fd s"
      by (simp_all add: s2_def s1_def)
    have step: "maintain_loop k b cur s = maintain_loop k' False p s2"
      using pr(7) par dp(1) fc kp kd cmp False g by (cases s) (simp add: k ix_prims s2_def s1_def)
    have pc: "p \<notin> set (ctx_pages c)" "distinct (ctx_pages c)" using pr(4) by auto
    have rc: "rep_ctx h (ih_pages s2) p c" by (rule rep_ctx_keep [OF up]) (use s2(1) pc(1) in auto)
    have "\<exists>s'. maintain_loop k' False p s2 = Some (Inr (), s') \<and> ih_hdr s' = ih_hdr s2 \<and> ih_next s' = ih_next s2 \<and> ih_fd s' = ih_fd s2 \<and>
      rep_ctx h (ih_pages s') p (mfix (hd (nd_keys h ?dp)) c) \<and> only_pages (set (map fst c)) s2 s' \<and> links_kept N (ih_pages s2) (ih_pages s')"
      by (rule 2(1) [where n = "Suc n", OF _ _ rc]) (use pr(1,2,4,6,11) s2 pc sk(1,2) dp(4) keys k in \<open>simp_all add: same_links_def\<close>)
    then obtain s' where s': "maintain_loop k' False p s2 = Some (Inr (), s')" "ih_hdr s' = ih_hdr s" "ih_next s' = ih_next s" "ih_fd s' = ih_fd s"
      "rep_ctx h (ih_pages s') p (mfix (hd (nd_keys h ?dp)) c)" "only_pages (set (map fst c)) s2 s'"
      "links_kept N (ih_pages s2) (ih_pages s')" using s2 by auto
    have "links_kept N (ih_pages s) (ih_pages s2)" unfolding s2(1)
      by (rule links_kept_upd [OF links_kept_refl, where d = dp])
        (use dp(1) sk(2) nd_ok_length [OF dp(2)] nd_ok_length [OF sk(1)] in \<open>simp_all add: same_links_def\<close>)
    from links_kept_trans [OF this s'(7) order_refl] have lk: "links_kept N (ih_pages s) (ih_pages s')" .
    have hdk: "hd (nd_keys h ?dp) = first_key l ?f" unfolding keys by (cases l) (simp_all add: first_key_def)
    have same: "ih_pages s' x = ih_pages s x" if "x \<notin> set (map fst c)" "x \<noteq> p" for x
      using s'(6) that s2(1) by (simp add: only_pages_def)
    have "p \<notin> set (map fst c)" using pc(1) frame_pages [of c] by auto
    then have "ih_pages s' p = Some ?dp" using s'(6) s2(1) by (simp add: only_pages_def)
    then have "innerp h (ih_pages s') p (ctx_par c) (map fst l @ ?f # map fst r) (map kid_page l @ cur # map kid_page r)"
      using sk dp keys by (simp add: nodep_def same_links_def)
    moreover have "rep h (ih_pages s') p (snd kt)" if kt: "kt \<in> set l \<union> set r" for kt
    proof -
      have "x \<notin> set (map fst c) \<and> x \<noteq> p" if "x \<in> set (bt_pages (snd kt))" for x
        using frame_disjoint [OF pr(4) kt that] frame_pages [of c] by blast
      then show ?thesis using same by (intro rep_keep [OF kids [OF kt]]) blast
    qed
    ultimately have "rep_ctx h (ih_pages s') cur (mfix ?f ((p, l, ky, r) # c))" using False s'(5) hdk by simp
    moreover have "only_pages (set (map fst ((p, l, ky, r) # c))) s s'" using same by (simp add: only_pages_def)
    ultimately show ?thesis using step s'(1-4) lk by auto
  qed
qed

section \<open>Splitting a node\<close>

definition reparent :: "int \<Rightarrow> int set \<Rightarrow> (int \<rightharpoonup> bytes) \<Rightarrow> int \<rightharpoonup> bytes" where
  "reparent q X P = (\<lambda>x. if x \<in> X then map_option (\<lambda>d. nd_set_parent d q) (P x) else P x)"

lemma maintain_children_rep:
  assumes h: "hdr_ok h"
  shows "geo h (ih_hdr s) \<Longrightarrow> ih_pages s q = Some e \<Longrightarrow> \<not> nd_is_leaf e \<Longrightarrow> map page_no (nd_rids h e) = ps \<Longrightarrow>
    (\<And>i. i \<in> set is \<Longrightarrow> i < length ps \<and> ih_pages s (ps ! i) \<noteq> None \<and> ps ! i \<noteq> q) \<Longrightarrow> distinct (map ((!) ps) is) \<Longrightarrow>
    \<exists>s'. ix_for is (\<lambda>i. maintain_child q (int i)) s = Some (Inr (), s') \<and> ih_hdr s' = ih_hdr s \<and> ih_next s' = ih_next s \<and> ih_fd s' = ih_fd s \<and>
      ih_pages s' = reparent q ((!) ps ` set is) (ih_pages s)"
proof (induction "is" arbitrary: s)
  case Nil
  then show ?case by (simp add: ix_prims reparent_def)
next
  case (Cons i "is")
  have dm: "ix_dims h" using h by (simp add: hdr_ok_def)
  have i: "i < length ps" "ps ! i \<noteq> q" using Cons.prems(5) [of i] by simp_all
  obtain d where d: "ih_pages s (ps ! i) = Some d" using Cons.prems(5) [of i] by auto
  have v: "nd_value_at h e (int i) = ps ! i" by (rule nd_value_at_nth [OF dm Cons.prems(4) i(1)])
  obtain s1 where s1: "maintain_child q (int i) s = Some (Inr (), s1)" "ih_hdr s1 = ih_hdr s" "ih_next s1 = ih_next s" "ih_fd s1 = ih_fd s"
    "ih_pages s1 = (ih_pages s)(ps ! i \<mapsto> nd_set_parent d q)"
    using d Cons.prems(2,3) v geo_simps(6) [OF Cons.prems(1)] by (simp add: maintain_child_def ix_prims Let_def)
  have fresh: "ps ! i \<notin> (!) ps ` set is" "distinct (map ((!) ps) is)" using Cons.prems(6) by simp_all
  have "\<exists>s'. ix_for is (\<lambda>i. maintain_child q (int i)) s1 = Some (Inr (), s') \<and> ih_hdr s' = ih_hdr s1 \<and> ih_next s' = ih_next s1 \<and> ih_fd s' = ih_fd s1 \<and>
      ih_pages s' = reparent q ((!) ps ` set is) (ih_pages s1)"
    by (rule Cons.IH [OF _ _ Cons.prems(3,4)]) (use Cons.prems(1,2,5) s1 i(2) fresh in auto)
  then obtain s' where s': "ix_for is (\<lambda>i. maintain_child q (int i)) s1 = Some (Inr (), s')" "ih_hdr s' = ih_hdr s" "ih_next s' = ih_next s"
    "ih_fd s' = ih_fd s" "ih_pages s' = reparent q ((!) ps ` set is) (ih_pages s1)" using s1 by auto
  have "ih_pages s' = reparent q ((!) ps ` set (i # is)) (ih_pages s)"
    unfolding s'(5) s1(5) using d fresh(1) by (auto simp: reparent_def fun_eq_iff)
  then show ?case using s' s1(1) by (simp add: ix_bind_def)
qed

lemma nd_get_next_range: "int_range (nd_next_leaf d)"
  by (simp add: nd_next_leaf_def int_range_get_int)

text \<open>The common part: the second half of the pairs moves to a new page.\<close>

lemma split_halves:
  assumes h: "hdr_ok h" and ok: "nd_ok h d" and par: "nd_parent d = par"
  defines "num \<equiv> nat (nd_get_size d)"
  defines "mid \<equiv> num div 2"
  defines "e1 \<equiv> nd_set_size (nd_set_is_leaf (nd_set_parent (replicate PAGE_SIZE 0) par) (nd_is_leaf d)) 0"
  obtains e where "nd_insert_pairs h e1 0 (mem_read d (key_off h (int mid)) ((num - mid) * klen h)) (map (\<lambda>i. nd_get_rid h d (int i)) [mid..<num]) (num - mid) = Inr e"
    "nd_ok h e" "nd_is_leaf e = nd_is_leaf d" "nd_parent e = par" "nd_keys h e = drop mid (nd_keys h d)" "nd_rids h e = drop mid (nd_rids h d)"
    "nd_get_size e = int (num - mid)"
proof -
  have dm: "ix_dims h" using h by (simp add: hdr_ok_def)
  have bd: "0 \<le> nd_get_size d" "nd_get_size d \<le> ix_order h" using ok by (simp_all add: nd_ok_def)
  have "int_range par" unfolding par [symmetric] nd_parent_def by (rule int_range_get_int)
  note e1 = nd_new [OF dm this, where leaf = "nd_is_leaf d", folded e1_def]
  have m: "mid + (num - mid) \<le> length (nd_keys h d)" by (simp add: mid_def num_def)
  have room: "nd_get_size e1 + int (num - mid) \<le> ix_order h" using e1(2) bd by (simp add: num_def)
  have mm: "mid + (num - mid) = num" by (simp add: mid_def)
  obtain e where "nd_insert_pairs h e1 (int 0) (mem_read d (key_off h (int mid)) ((num - mid) * klen h)) (map (\<lambda>i. nd_get_rid h d (int i)) [mid..<mid + (num - mid)]) (num - mid) = Inr e"
    "nd_ok h e" "same_links e1 e" "nd_get_size e = nd_get_size e1 + int (num - mid)"
    "nd_keys h e = take 0 (nd_keys h e1) @ take (num - mid) (drop mid (nd_keys h d)) @ drop 0 (nd_keys h e1)"
    "nd_rids h e = take 0 (nd_rids h e1) @ take (num - mid) (drop mid (nd_rids h d)) @ drop 0 (nd_rids h e1)"
    by (rule nd_copy_pairs [OF dm ok e1(1) m _ room, where p = 0]) auto
  then show ?thesis using e1 mm by (intro that [of e]) (simp_all add: same_links_def num_def)
qed

definition bump :: "ix_file_hdr \<Rightarrow> ix_file_hdr" where
  "bump h = h\<lparr>ix_num_pages := wrap32 (ix_num_pages h + 1)\<rparr>"

lemma bump_simps [simp]: "geo h (bump h') = geo h h'" "ix_root (bump h) = ix_root h" "ix_last_leaf (bump h) = ix_last_leaf h"
  "ix_first_leaf (bump h) = ix_first_leaf h"
  by (simp_all add: bump_def)

lemma split_leaf_rep:
  assumes h: "hdr_ok h" and g: "geo h (ih_hdr s)" and d: "ih_pages s p = Some d" "nd_ok h d" "nd_is_leaf d" "nd_next_leaf d = nx"
    and dn: "ih_pages s nx = Some dn" "length dn = PAGE_SIZE" and q: "q = ih_next s" "int_range q" "int_range p" "p \<noteq> q" "nx \<noteq> p" "nx \<noteq> q"
    and mid: "mid = length (nd_keys h d) div 2" and nq: "int_range (q + 1)"
  obtains s' d' e where "split p s = Some (Inr q, s')" "ih_hdr s' = bump (ih_hdr s)" "ih_next s' = q + 1" "ih_fd s' = ih_fd s"
    "ih_pages s' = (ih_pages s)(p \<mapsto> d', q \<mapsto> e, nx \<mapsto> nd_set_prev_leaf dn q)"
    "nd_ok h d'" "nd_is_leaf d'" "nd_parent d' = nd_parent d" "nd_keys h d' = take mid (nd_keys h d)" "nd_rids h d' = take mid (nd_rids h d)"
    "nd_prev_leaf d' = nd_prev_leaf d" "nd_next_leaf d' = q"
    "nd_ok h e" "nd_is_leaf e" "nd_parent e = nd_parent d" "nd_keys h e = drop mid (nd_keys h d)" "nd_rids h e = drop mid (nd_rids h d)"
    "nd_prev_leaf e = p" "nd_next_leaf e = nx"
proof -
  have dm: "ix_dims h" using h by (simp add: hdr_ok_def)
  let ?sz = "nat (nd_get_size d)"
  let ?e1 = "nd_set_size (nd_set_is_leaf (nd_set_parent (replicate PAGE_SIZE 0) (nd_parent d)) (nd_is_leaf d)) 0"
  have m: "mid = ?sz div 2" using mid by simp
  obtain e2 where e2: "nd_insert_pairs h ?e1 0 (mem_read d (key_off h (int (?sz div 2))) ((?sz - ?sz div 2) * klen h)) (map (\<lambda>i. nd_get_rid h d (int i)) [?sz div 2..<?sz]) (?sz - ?sz div 2) = Inr e2"
    "nd_ok h e2" "nd_is_leaf e2 = nd_is_leaf d" "nd_parent e2 = nd_parent d" "nd_keys h e2 = drop mid (nd_keys h d)" "nd_rids h e2 = drop mid (nd_rids h d)"
    unfolding m by (rule split_halves [OF h d(2) refl])
  note len = nd_ok_length [OF e2(2)] nd_ok_length [OF d(2)]
  let ?d1 = "nd_set_size d (int mid)"
  have "mid \<le> ?sz" by (simp add: m)
  note s1 = nd_set_size_lists [OF dm d(2) this]
  note l1 = nd_ok_length [OF s1(1)]
  let ?d' = "nd_set_next_leaf ?d1 q" and ?e = "nd_set_next_leaf (nd_set_prev_leaf e2 p) nx"
  have nr: "int_range nx" using nd_get_next_range [of d] d(4) by simp
  note gs = geo_simps [of h "bump (ih_hdr s)"]
  have geo': "geo h (bump (ih_hdr s))" using g by simp
  have "\<exists>s'. split p s = Some (Inr q, s') \<and> ih_hdr s' = bump (ih_hdr s) \<and> ih_next s' = q + 1 \<and> ih_fd s' = ih_fd s \<and>
    ih_pages s' = (ih_pages s)(p \<mapsto> ?d', q \<mapsto> ?e, nx \<mapsto> nd_set_prev_leaf dn q)"
    unfolding split_def create_node_def ix_bind_def
    using d dn(1) q e2(1) gs(2,3,5,14) [OF geo'] wrap32_id [OF nq]
    by (simp add: ix_prims bump_def Let_def m fun_upd_twist)
  then obtain s' where s': "split p s = Some (Inr q, s')" "ih_hdr s' = bump (ih_hdr s)" "ih_next s' = q + 1" "ih_fd s' = ih_fd s"
    "ih_pages s' = (ih_pages s)(p \<mapsto> ?d', q \<mapsto> ?e, nx \<mapsto> nd_set_prev_leaf dn q)" by blast
  show ?thesis
    by (rule that [OF s']) (use s1 e2 d(3) q(2,3) nr len l1 in \<open>simp_all add: link_simps same_links_def\<close>)
qed

lemma nth_image_drop: "(!) xs ` {0..<length xs} = set xs"
  by (auto simp: set_conv_nth)

lemma split_inner_rep:
  assumes h: "hdr_ok h" and g: "geo h (ih_hdr s)" and d: "ih_pages s p = Some d" "nd_ok h d" "\<not> nd_is_leaf d" "map page_no (nd_rids h d) = ps"
    and q: "q = ih_next s" "p \<noteq> q" and mid: "mid = length (nd_keys h d) div 2"
    and kids: "distinct ps" "\<And>x. x \<in> set ps \<Longrightarrow> ih_pages s x \<noteq> None \<and> x \<noteq> p \<and> x \<noteq> q" and nq: "int_range (q + 1)"
  obtains s' d' e where "split p s = Some (Inr q, s')" "ih_hdr s' = bump (ih_hdr s)" "ih_next s' = q + 1" "ih_fd s' = ih_fd s"
    "ih_pages s' = reparent q (set (drop mid ps)) ((ih_pages s)(p \<mapsto> d', q \<mapsto> e))"
    "nd_ok h d'" "\<not> nd_is_leaf d'" "nd_parent d' = nd_parent d" "nd_keys h d' = take mid (nd_keys h d)" "map page_no (nd_rids h d') = take mid ps"
    "nd_ok h e" "\<not> nd_is_leaf e" "nd_parent e = nd_parent d" "nd_keys h e = drop mid (nd_keys h d)" "map page_no (nd_rids h e) = drop mid ps"
    "same_links d d'"
proof -
  have dm: "ix_dims h" using h by (simp add: hdr_ok_def)
  let ?sz = "nat (nd_get_size d)"
  let ?e1 = "nd_set_size (nd_set_is_leaf (nd_set_parent (replicate PAGE_SIZE 0) (nd_parent d)) (nd_is_leaf d)) 0"
  have m: "mid = ?sz div 2" using mid by simp
  obtain e where e: "nd_insert_pairs h ?e1 0 (mem_read d (key_off h (int (?sz div 2))) ((?sz - ?sz div 2) * klen h)) (map (\<lambda>i. nd_get_rid h d (int i)) [?sz div 2..<?sz]) (?sz - ?sz div 2) = Inr e"
    "nd_ok h e" "nd_is_leaf e = nd_is_leaf d" "nd_parent e = nd_parent d" "nd_keys h e = drop mid (nd_keys h d)" "nd_rids h e = drop mid (nd_rids h d)"
    unfolding m by (rule split_halves [OF h d(2) refl])
  have "mid \<le> ?sz" by (simp add: m)
  note s1 = nd_set_size_lists [OF dm d(2) this]
  let ?d' = "nd_set_size d (int mid)"
  have geo': "geo h (bump (ih_hdr s))" using g by simp
  note gs = geo_simps [OF geo']
  have lp: "length ps = ?sz" using arg_cong [OF d(4), of length] by simp
  have eps: "map page_no (nd_rids h e) = drop mid ps" unfolding d(4) [symmetric] e(6) drop_map ..
  have dps: "map page_no (nd_rids h ?d') = take mid ps" unfolding d(4) [symmetric] s1(5) take_map ..
  obtain s2 where s2: "split p s = ix_bind (ix_for [0..<?sz - mid] (\<lambda>i. maintain_child q (int i))) (\<lambda>_. ix_ret q) s2"
    "ih_hdr s2 = bump (ih_hdr s)" "ih_next s2 = q + 1" "ih_fd s2 = ih_fd s" "ih_pages s2 = (ih_pages s)(p \<mapsto> ?d', q \<mapsto> e)"
  proof -
    define s2 where "s2 = s\<lparr>ih_hdr := bump (ih_hdr s), ih_next := q + 1, ih_pages := (ih_pages s)(p \<mapsto> ?d', q \<mapsto> e), ih_pins := (ih_pins s)(q := 1)\<rparr>"
    have "split p s = ix_bind (ix_for [0..<?sz - mid] (\<lambda>i. maintain_child q (int i))) (\<lambda>_. ix_ret q) s2"
      unfolding split_def create_node_def ix_bind_def s2_def q(1)
      using d q e(1) gs(2,3,5,14) wrap32_id [OF nq]
      by (cases s) (simp add: ix_prims bump_def Let_def m fun_upd_twist split: option.split sum.split)
    then show ?thesis by (rule that) (simp_all add: s2_def)
  qed
  have "\<exists>s'. ix_for [0..<?sz - mid] (\<lambda>i. maintain_child q (int i)) s2 = Some (Inr (), s') \<and> ih_hdr s' = ih_hdr s2 \<and> ih_next s' = ih_next s2 \<and> ih_fd s' = ih_fd s2 \<and>
      ih_pages s' = reparent q ((!) (drop mid ps) ` set [0..<?sz - mid]) (ih_pages s2)"
  proof (rule maintain_children_rep [OF h _ _ _ eps])
    show "geo h (ih_hdr s2)" "ih_pages s2 q = Some e" "\<not> nd_is_leaf e" using s2 geo' e(3) d(3) by simp_all
    show "distinct (map ((!) (drop mid ps)) [0..<?sz - mid])"
      using kids(1) lp map_nth [of "drop mid ps"] by simp
    fix i assume "i \<in> set [0..<?sz - mid]"
    then have i: "i < length (drop mid ps)" using lp by simp
    then have "drop mid ps ! i \<in> set ps" by (auto dest: nth_mem in_set_dropD)
    then show "i < length (drop mid ps) \<and> ih_pages s2 (drop mid ps ! i) \<noteq> None \<and> drop mid ps ! i \<noteq> q"
      using i kids(2) s2(5) by simp
  qed
  moreover have "(!) (drop mid ps) ` set [0..<?sz - mid] = set (drop mid ps)"
    using nth_image_drop [of "drop mid ps"] lp by simp
  ultimately obtain s' where s': "ix_for [0..<?sz - mid] (\<lambda>i. maintain_child q (int i)) s2 = Some (Inr (), s')" "ih_hdr s' = bump (ih_hdr s)"
    "ih_next s' = q + 1" "ih_fd s' = ih_fd s" "ih_pages s' = reparent q (set (drop mid ps)) ((ih_pages s)(p \<mapsto> ?d', q \<mapsto> e))" using s2 by auto
  have "split p s = Some (Inr q, s')" using s2(1) s'(1) by (simp add: ix_bind_def ix_ret_def)
  then show ?thesis
    by (rule that [OF _ s'(2-5)]) (use s1(1,3,4) e(2-5) d(3) eps dps in \<open>simp_all add: same_links_def\<close>)
qed

section \<open>The pair of a new node goes to its parent\<close>

lemma links_kept_reparent:
  assumes "links_kept N P P'" "\<And>x. x \<in> X \<Longrightarrow> \<exists>d. P' x = Some d \<and> length d = PAGE_SIZE"
  shows "links_kept N P (reparent q X P')"
  unfolding links_kept_def reparent_def
proof (intro allI impI)
  fix x d assume x: "x < N" "P x = Some d"
  then obtain d' where d': "P' x = Some d'" "length d' = length d" "nd_prev_leaf d' = nd_prev_leaf d" "nd_next_leaf d' = nd_next_leaf d"
    using assms(1) unfolding links_kept_def by blast
  show "\<exists>d'. (if x \<in> X then map_option (\<lambda>d. nd_set_parent d q) (P' x) else P' x) = Some d' \<and> length d' = length d \<and>
      nd_prev_leaf d' = nd_prev_leaf d \<and> nd_next_leaf d' = nd_next_leaf d"
    using d' assms(2) [of x] by (cases "x \<in> X") (auto simp: link_simps)
qed

definition bt_first :: "bt \<Rightarrow> bytes" where
  "bt_first t = (case t of Lf p kvs \<Rightarrow> fst (hd kvs) | Nd p cs \<Rightarrow> fst (hd cs))"

lemma bt_ok_first:
  assumes "bt_ok h n mn lo hi t" "0 < mn"
  shows "lbd lo (krank h (bt_first t))" "ubd hi (krank h (bt_first t))" "length (bt_first t) = klen h"
    "bt_ok h n mn (Some (krank h (bt_first t))) hi t"
proof -
  have "lbd lo (krank h (bt_first t)) \<and> ubd hi (krank h (bt_first t)) \<and> length (bt_first t) = klen h \<and> bt_ok h n mn (Some (krank h (bt_first t))) hi t"
    using assms
  proof (induction h n mn lo hi t rule: bt_ok.induct)
    case (1 h mn lo hi p kvs)
    then obtain kv kvs' where k: "kvs = kv # kvs'" by (cases kvs) (simp_all add: fits_def)
    then have "leaf_ok h (Some (krank h (fst kv))) hi kvs" using 1 by (auto simp: leaf_ok_def less_imp_le)
    then show ?case using 1 k leaf_okD [of h lo hi kvs kv] by (simp add: bt_first_def)
  next
    case (2 h n mn lo hi p cs)
    then show ?case using kids_ok_sorted [of h "bt_ok h n (minsz h)" hi cs] by (cases cs) (simp_all add: bt_first_def)
  qed simp_all
  then show "lbd lo (krank h (bt_first t))" "ubd hi (krank h (bt_first t))" "length (bt_first t) = klen h"
    "bt_ok h n mn (Some (krank h (bt_first t))) hi t" by simp_all
qed

lemma minsz_pos: "hdr_ok h \<Longrightarrow> 2 \<le> minsz h"
  unfolding hdr_ok_def minsz_def by linarith

lemma rep_first:
  assumes "rep h P par t" "bt_ok h n mn lo hi t" "0 < mn"
  obtains d where "P (bt_page t) = Some d" "nd_ok h d" "nd_parent d = par" "nd_get_key h d 0 = bt_first t" "length d = PAGE_SIZE"
    "nd_is_leaf d = is_Lf t"
proof -
  obtain d where d: "P (bt_page t) = Some d" "nd_ok h d" "nd_parent d = par" "nd_is_leaf d = is_Lf t" using rep_page [OF assms(1)] by blast
  have "nd_keys h d \<noteq> [] \<and> hd (nd_keys h d) = bt_first t"
  proof (cases t)
    case (Lf p kvs)
    then have "kvs \<noteq> []" using assms(2,3) by (cases n) (auto simp: fits_def)
    then show ?thesis using assms(1) d(1) Lf by (auto simp: nodep_def bt_first_def hd_map)
  next
    case (Nd p cs)
    then have "cs \<noteq> []" using assms(2) by (cases n) auto
    then show ?thesis using assms(1) d(1) Nd by (auto simp: nodep_def bt_first_def hd_map)
  qed
  then show ?thesis using d nd_get_key_hd [of h d] nd_ok_length [OF d(2)] by (intro that [of d]) simp_all
qed

lemma rep_reparent:
  assumes "rep h P par t" "distinct (bt_pages t)" "int_range q"
    "P' (bt_page t) = map_option (\<lambda>d. nd_set_parent d q) (P (bt_page t))"
    "\<And>x. x \<in> set (bt_pages t) \<Longrightarrow> x \<noteq> bt_page t \<Longrightarrow> P' x = P x"
  shows "rep h P' q t"
proof (cases t)
  case (Lf p kvs)
  then show ?thesis using assms nd_ok_length by (auto simp: nodep_def link_simps)
next
  case (Nd p cs)
  have "rep h P' p (snd kt)" if kt: "kt \<in> set cs" for kt
  proof (rule rep_keep)
    show "rep h P p (snd kt)" using assms(1) Nd kt by simp
    fix x assume x: "x \<in> set (bt_pages (snd kt))"
    then have "x \<in> set (bt_pages t)" "x \<noteq> p" using assms(2) Nd kt by auto
    then show "P' x = P x" using assms(5) Nd by simp
  qed
  then show ?thesis using assms Nd nd_ok_length by (auto simp: nodep_def link_simps)
qed

definition up_pre :: "ix_file_hdr \<Rightarrow> nat \<Rightarrow> ix_handle \<Rightarrow> frame list \<Rightarrow> bt \<Rightarrow> bytes \<Rightarrow> bt \<Rightarrow> bool" where
  "up_pre h n s c t1 m t2 \<longleftrightarrow> geo h (ih_hdr s) \<and> ctx_ok h n c \<and> bt_ok h n (minsz h) (lo_of h c) (Some (krank h m)) t1 \<and>
     bt_ok h n (minsz h) (Some (krank h m)) (hi_of h c) t2 \<and> bt_first t2 = m \<and> rep_ctx h (ih_pages s) (bt_page t1) c \<and>
     rep h (ih_pages s) (ctx_par c) t1 \<and> rep h (ih_pages s) (ctx_par c) t2 \<and> distinct (bt_pages t1 @ bt_pages t2 @ ctx_pages c) \<and>
     (\<forall>p\<in>set (bt_pages t1 @ bt_pages t2 @ ctx_pages c). 0 \<le> p \<and> p < ih_next s) \<and> ih_next s + int (length c) < 2 ^ 31 - 1 \<and>
     ix_root (ih_hdr s) = bt_page (plug t1 c)"

definition up_post :: "ix_file_hdr \<Rightarrow> nat \<Rightarrow> ix_handle \<Rightarrow> frame list \<Rightarrow> bt \<Rightarrow> bt \<Rightarrow> ix_handle \<Rightarrow> bool" where
  "up_post h n s c t1 t2 s' \<longleftrightarrow> (\<exists>t n'. geo h (ih_hdr s') \<and> ix_first_leaf (ih_hdr s') = ix_first_leaf (ih_hdr s) \<and>
     ix_last_leaf (ih_hdr s') = ix_last_leaf (ih_hdr s) \<and> ix_root (ih_hdr s') = bt_page t \<and> rep h (ih_pages s') INVALID_PAGE_ID t \<and>
     bt_ok h n' (root_min n') None None t \<and> n' \<le> Suc (n + length c) \<and>
     entries t = left_of entries c @ entries t1 @ entries t2 @ right_of entries c \<and>
     leaf_pages t = left_of leaf_pages c @ leaf_pages t1 @ leaf_pages t2 @ right_of leaf_pages c \<and> distinct (bt_pages t) \<and>
     set (bt_pages t) \<subseteq> set (bt_pages t1 @ bt_pages t2 @ ctx_pages c) \<union> {ih_next s..<ih_next s'} \<and> ih_next s \<le> ih_next s' \<and>
     ih_next s' \<le> ih_next s + int (length c) + 1 \<and> links_kept (ih_next s) (ih_pages s) (ih_pages s'))"

lemma insert_pair_root:
  assumes h: "hdr_ok h" and k: "length k1 = klen h" "length k2 = klen h" and p: "int_range p1" "int_range p2"
  defines "e1 \<equiv> nd_set_parent (nd_set_is_leaf (replicate PAGE_SIZE 0) False) INVALID_PAGE_ID"
  obtains e2 e3 where "nd_insert_pair h e1 0 k1 (mk_rid p1 (- 1)) = Inr e2" "nd_insert_pair h e2 1 k2 (mk_rid p2 (- 1)) = Inr e3"
    "nd_ok h e3" "\<not> nd_is_leaf e3" "nd_parent e3 = INVALID_PAGE_ID" "nd_keys h e3 = [k1, k2]" "map page_no (nd_rids h e3) = [p1, p2]"
proof -
  have dm: "ix_dims h" and o: "4 \<le> ix_order h" using h by (simp_all add: hdr_ok_def)
  note e1 = nd_new_root [OF dm, folded e1_def]
  obtain e2 where e2: "nd_insert_pairs h e1 0 k1 [mk_rid p1 (- 1)] 1 = Inr e2" "nd_ok h e2" "same_links e1 e2" "nd_get_size e2 = nd_get_size e1 + int 1"
    "nd_keys h e2 = take (nat 0) (nd_keys h e1) @ keys_of h 1 k1 @ drop (nat 0) (nd_keys h e1)"
    "nd_rids h e2 = take (nat 0) (nd_rids h e1) @ [mk_rid p1 (- 1)] @ drop (nat 0) (nd_rids h e1)"
    by (rule nd_insert_pairs_lists [OF dm e1(1), where pos = 0 and n = 1 and key = k1 and rids = "[mk_rid p1 (- 1)]"])
      (use e1(2) k(1) p(1) o in \<open>simp_all add: rid_ok_def\<close>)
  obtain e3 where e3: "nd_insert_pairs h e2 1 k2 [mk_rid p2 (- 1)] 1 = Inr e3" "nd_ok h e3" "same_links e2 e3" "nd_get_size e3 = nd_get_size e2 + int 1"
    "nd_keys h e3 = take (nat 1) (nd_keys h e2) @ keys_of h 1 k2 @ drop (nat 1) (nd_keys h e2)"
    "nd_rids h e3 = take (nat 1) (nd_rids h e2) @ [mk_rid p2 (- 1)] @ drop (nat 1) (nd_rids h e2)"
    by (rule nd_insert_pairs_lists [OF dm e2(2), where pos = 1 and n = 1 and key = k2 and rids = "[mk_rid p2 (- 1)]"])
      (use e1(2) e2(4) k(2) p(2) o in \<open>simp_all add: rid_ok_def\<close>)
  show ?thesis
    by (rule that [of e2 e3]) (use e1 e2 e3 keys_of_one k in \<open>simp_all add: nd_insert_pair_def same_links_def\<close>)
qed

lemma up_root:
  assumes h: "hdr_ok h" and pre: "up_pre h n s [] t1 m t2"
  shows "\<exists>s'. insert_into_parent (Suc k) (bt_page t1) m (bt_page t2) s = Some (Inr (), s') \<and> up_post h n s [] t1 t2 s'"
proof -
  note u = pre [unfolded up_pre_def, simplified]
  have g: "geo h (ih_hdr s)" and ok: "bt_ok h n (minsz h) None (Some (krank h m)) t1" "bt_ok h n (minsz h) (Some (krank h m)) None t2"
    and m: "bt_first t2 = m" and rp: "rep h (ih_pages s) INVALID_PAGE_ID t1" "rep h (ih_pages s) INVALID_PAGE_ID t2"
    and dst: "distinct (bt_pages t1)" "distinct (bt_pages t2)" "set (bt_pages t1) \<inter> set (bt_pages t2) = {}"
    and bd: "\<And>p. p \<in> set (bt_pages t1) \<union> set (bt_pages t2) \<Longrightarrow> 0 \<le> p \<and> p < ih_next s" and nb: "ih_next s < 2 ^ 31 - 1"
    using u by auto
  have mp: "0 < minsz h" using minsz_pos [OF h] by simp
  note f1 = bt_ok_first [OF ok(1) mp] and f2 = bt_ok_first [OF ok(2) mp]
  obtain d1 where d1: "ih_pages s (bt_page t1) = Some d1" "nd_ok h d1" "nd_parent d1 = INVALID_PAGE_ID" "nd_get_key h d1 0 = bt_first t1" "length d1 = PAGE_SIZE"
    by (rule rep_first [OF rp(1) ok(1) mp])
  obtain d2 where d2: "ih_pages s (bt_page t2) = Some d2" "nd_ok h d2" "nd_parent d2 = INVALID_PAGE_ID" "nd_get_key h d2 0 = m" "length d2 = PAGE_SIZE"
    using rep_first [OF rp(2) ok(2) mp] m by metis
  have pg: "bt_page t1 \<noteq> bt_page t2" "0 \<le> bt_page t1" "bt_page t1 < ih_next s" "0 \<le> bt_page t2" "bt_page t2 < ih_next s"
    using dst(3) bd [of "bt_page t1"] bd [of "bt_page t2"] bt_page_in [of t1] bt_page_in [of t2] by auto
  then have rg: "int_range (bt_page t1)" "int_range (bt_page t2)" "int_range (ih_next s)" using nb by (simp_all add: int_range_def)
  obtain e2 e3 where e: "nd_insert_pair h (nd_set_parent (nd_set_is_leaf (replicate PAGE_SIZE 0) False) INVALID_PAGE_ID) 0 (bt_first t1) (mk_rid (bt_page t1) (- 1)) = Inr e2"
    "nd_insert_pair h e2 1 m (mk_rid (bt_page t2) (- 1)) = Inr e3"
    "nd_ok h e3" "\<not> nd_is_leaf e3" "nd_parent e3 = INVALID_PAGE_ID" "nd_keys h e3 = [bt_first t1, m]" "map page_no (nd_rids h e3) = [bt_page t1, bt_page t2]"
    using insert_pair_root [OF h f1(3) f2(3) rg(1,2)] m by metis
  let ?r = "ih_next s"
  let ?P = "(ih_pages s)(?r \<mapsto> e3, bt_page t1 \<mapsto> nd_set_parent d1 ?r, bt_page t2 \<mapsto> nd_set_parent d2 ?r)"
  have root: "nd_is_root d1" using d1(3) by (simp add: nd_is_root_def)
  note gs = geo_simps [OF g]
  have nq: "wrap32 (ih_next s + 1) = ih_next s + 1" using pg nb by (intro wrap32_id) (simp add: int_range_def)
  have "\<exists>s'. insert_into_parent (Suc k) (bt_page t1) m (bt_page t2) s = Some (Inr (), s') \<and> ih_hdr s' = (bump (ih_hdr s))\<lparr>ix_root := ?r\<rparr> \<and>
      ih_next s' = ?r + 1 \<and> ih_pages s' = ?P"
    using nq d1(1,4) d2(1,4) pg root e(1,2) gs(4,15) by (simp add: ix_prims create_node_def bump_def Let_def)
  then obtain s' where s': "insert_into_parent (Suc k) (bt_page t1) m (bt_page t2) s = Some (Inr (), s')" "ih_hdr s' = (bump (ih_hdr s))\<lparr>ix_root := ?r\<rparr>"
    "ih_next s' = ?r + 1" "ih_pages s' = ?P" by blast
  let ?t = "Nd ?r [(bt_first t1, t1), (m, t2)]"
  have out: "?r \<notin> set (bt_pages t1) \<union> set (bt_pages t2)" using bd by fastforce
  have "rep h ?P ?r t1"
    by (rule rep_reparent [OF rp(1) dst(1) rg(3)]) (use d1(1) pg out bt_page_in [of t2] dst(3) in auto)
  moreover have "rep h ?P ?r t2"
    by (rule rep_reparent [OF rp(2) dst(2) rg(3)]) (use d2(1) pg out bt_page_in [of t1] dst(3) in auto)
  moreover have "innerp h ?P ?r INVALID_PAGE_ID [bt_first t1, m] [bt_page t1, bt_page t2]" using e pg by (simp add: nodep_def)
  ultimately have "rep h (ih_pages s') INVALID_PAGE_ID ?t" by (simp add: s'(4))
  moreover have "bt_ok h (Suc n) (root_min (Suc n)) None None ?t"
    using f1 f2 ok(2) m h by (simp add: root_min_def fits_def hdr_ok_def)
  moreover have "distinct (bt_pages ?t)" using dst out by simp
  moreover have "links_kept ?r (ih_pages s) ?P"
    by (rule links_kept_upd [where d = d2], rule links_kept_upd [where d = d1], rule links_kept_new [OF links_kept_refl order_refl])
      (use d1(1,5) d2(1,5) in \<open>simp_all add: link_simps\<close>)
  moreover have "set (bt_pages ?t) \<subseteq> set (bt_pages t1 @ bt_pages t2 @ ctx_pages []) \<union> {?r..<ih_next s'}" using s'(3) by auto
  ultimately have "up_post h n s [] t1 t2 s'"
    unfolding up_post_def using g s' by (intro exI [of _ ?t] exI [of _ "Suc n"]) simp
  then show ?thesis using s'(1) by blast
qed

lemma split_unique:
  assumes "lo @ hi = a @ b" "\<And>x. x \<in> set lo \<Longrightarrow> f x < (v :: 'b::linorder)" "\<And>x. x \<in> set hi \<Longrightarrow> v < f x"
    "\<And>x. x \<in> set a \<Longrightarrow> f x < v" "\<And>x. x \<in> set b \<Longrightarrow> v < f x"
  shows "lo = a \<and> hi = b"
proof -
  have "filter (\<lambda>x. f x < v) (lo @ hi) = lo" "filter (\<lambda>x. f x < v) (a @ b) = a"
    using assms(2-5) by (auto simp: filter_empty_conv dest: less_asym)
  then have "lo = a" using assms(1) by simp
  then show ?thesis using assms(1) by simp
qed

lemma frame_kids_ok:
  assumes "ctx_ok h n ((p, l, k, r) # c)" "0 < minsz h"
    "bt_ok h n (minsz h) (Some (krank h k)) (Some (krank h m)) t1" "bt_ok h n (minsz h) (Some (krank h m)) (nxt h (hi_of h c) r) t2"
    "bt_first t2 = m"
  shows "kids_ok h (bt_ok h n (minsz h)) (hi_of h c) (l @ (k, t1) # (m, t2) # r)" "krank h k < krank h m" "length m = klen h"
proof -
  note f1 = bt_ok_first [OF assms(3,2)] and f2 = bt_ok_first [OF assms(4,2)]
  show km: "krank h k < krank h m" using f1(1,2) by auto
  show lm: "length m = klen h" using f2(3) assms(5) by simp
  show "kids_ok h (bt_ok h n (minsz h)) (hi_of h c) (l @ (k, t1) # (m, t2) # r)"
    using assms f2(2) km lm by (simp add: kids_ok_append)
qed

lemma frame_nd_insert:
  assumes h: "hdr_ok h" and ok: "kids_ok h F B (l @ (k, t1) # (m, t2) # r)"
    and d: "nd_ok h d" "nd_keys h d = map fst l @ k # map fst r" "map page_no (nd_rids h d) = map kid_page l @ q1 # map kid_page r"
    and room: "int (Suc (length l + length r)) < ix_order h" and q2: "int_range q2"
  obtains d' where "nd_insert h d m (mk_rid q2 (- 1)) = Inr d'" "nd_ok h d'" "same_links d d'" "nd_get_size d' = int (length l + length r + 2)"
    "nd_keys h d' = map fst l @ k # m # map fst r" "map page_no (nd_rids h d') = map kid_page l @ q1 # q2 # map kid_page r"
proof -
  have dm: "ix_dims h" and ex: "ix_exact h" using h by (simp_all add: hdr_ok_def)
  have st: "sorted_wrt (<) (map (\<lambda>c. krank h (fst c)) (l @ (k, t1) # (m, t2) # r))" and ln: "\<forall>c\<in>set (l @ (k, t1) # (m, t2) # r). length (fst c) = klen h"
    using kids_ok_sorted [OF ok] by blast+
  have srt: "nd_sorted h d" unfolding nd_sorted_def d(2)
    using st ln ix_exactD(1) [OF ex] by (auto simp: sorted_wrt_append comp_def list_all_iff)
  have lt: "krank h x < krank h m" if "x \<in> set (map fst l @ [k])" for x using st that by (auto simp: sorted_wrt_append)
  have gt: "krank h m < krank h x" if "x \<in> set (map fst r)" for x using st that by (auto simp: sorted_wrt_append)
  have sz: "nd_get_size d = int (Suc (length l + length r))"
    using arg_cong [OF d(2), of length] d(1) by (simp add: nd_ok_def)
  have new: "m \<notin> set (nd_keys h d)" using lt [of m] gt [of m] unfolding d(2) by auto
  have rm: "nd_get_size d < ix_order h" and lm: "length m = klen h" and ri: "rid_ok (mk_rid q2 (- 1))"
    using room sz ln q2 by (simp_all add: rid_ok_def)
  obtain d' lo hi where i: "nd_insert h d m (mk_rid q2 (- 1)) = Inr d'" "nd_ok h d'" "same_links d d'" "nd_get_size d' = nd_get_size d + 1"
    "nd_keys h d = lo @ hi" "nd_keys h d' = lo @ [m] @ hi"
    "nd_rids h d' = take (length lo) (nd_rids h d) @ [mk_rid q2 (- 1)] @ drop (length lo) (nd_rids h d)"
    "\<And>k. k \<in> set lo \<Longrightarrow> krank h k < krank h m" "\<And>k. k \<in> set hi \<Longrightarrow> krank h m < krank h k"
    by (rule nd_insert_lists [OF dm ex d(1) srt rm lm ri new]) blast
  have "lo @ hi = (map fst l @ [k]) @ map fst r" using i(5) d(2) by simp
  then have lh: "lo = map fst l @ [k]" "hi = map fst r"
    using split_unique [of lo hi "map fst l @ [k]" "map fst r" "krank h" "krank h m"] i(8,9) lt gt by blast+
  have "map page_no (nd_rids h d') = take (length lo) (map page_no (nd_rids h d)) @ [q2] @ drop (length lo) (map page_no (nd_rids h d))"
    unfolding i(7) by (simp add: take_map drop_map)
  then have "map page_no (nd_rids h d') = map kid_page l @ q1 # q2 # map kid_page r" using lh(1) by (simp add: d(3))
  then show ?thesis using i(1-4,6) lh sz by (intro that [of d']) simp_all
qed

lemma up_preD:
  assumes "up_pre h n s c t1 m t2"
  shows "geo h (ih_hdr s)" "ctx_ok h n c" "bt_ok h n (minsz h) (lo_of h c) (Some (krank h m)) t1"
    "bt_ok h n (minsz h) (Some (krank h m)) (hi_of h c) t2" "bt_first t2 = m" "rep_ctx h (ih_pages s) (bt_page t1) c"
    "rep h (ih_pages s) (ctx_par c) t1" "rep h (ih_pages s) (ctx_par c) t2" "distinct (bt_pages t1 @ bt_pages t2 @ ctx_pages c)"
    "\<And>p. p \<in> set (bt_pages t1 @ bt_pages t2 @ ctx_pages c) \<Longrightarrow> 0 \<le> p \<and> p < ih_next s" "ih_next s + int (length c) < 2 ^ 31 - 1"
    "ix_root (ih_hdr s) = bt_page (plug t1 c)"
  using assms unfolding up_pre_def by blast+

lemma ix_steps:
  "ix_bind ix_hdr f s = f (ih_hdr s) s"
  "ih_pages s p = Some d \<Longrightarrow> ix_bind (node_page p) g s = g d s"
  "ih_pages s p = Some d \<Longrightarrow> ix_bind (fetch_node p) u s = u () (s\<lparr>ih_pins := (ih_pins s)(p := ih_pins s p + 1)\<rparr>)"
  "ix_bind (unpin_node p) u s = u () (s\<lparr>ih_pins := (ih_pins s)(p := (if ih_pins s p > 0 then ih_pins s p - 1 else ih_pins s p))\<rparr>)"
  "ix_bind (set_page p b) u s = u () (s\<lparr>ih_pages := (ih_pages s)(p \<mapsto> b)\<rparr>)"
  "ix_bind (ix_set_hdr hx) u s = u () (s\<lparr>ih_hdr := hx\<rparr>)"
  "ix_bind (ix_lift (Inr x)) v s = v x s"
  "ix_bind (ix_ret x) v s = v x s"
  by (simp_all add: ix_prims)

lemma up_enter:
  assumes h: "hdr_ok h" and pre: "up_pre h n s ((p, l, k, r) # c) t1 m t2"
  obtains s1 dp dp' where
    "insert_into_parent (Suc j) (bt_page t1) m (bt_page t2) s =
      (if int (length l + length r + 2) = ix_order h
       then ix_bind (split p) (\<lambda>np. ix_bind (node_page np) (\<lambda>dq. ix_bind (insert_into_parent j p (nd_get_key h dq 0) np) (\<lambda>_. unpin_node np))) s1
       else Some (Inr (), s1))"
    "ih_pages s1 = (ih_pages s)(p \<mapsto> dp')" "ih_hdr s1 = ih_hdr s" "ih_next s1 = ih_next s" "ih_fd s1 = ih_fd s"
    "ih_pages s p = Some dp" "same_links dp dp'" "length dp = PAGE_SIZE" "nd_ok h dp'" "\<not> nd_is_leaf dp'" "nd_parent dp' = ctx_par c"
    "nd_keys h dp' = map fst (l @ (k, t1) # (m, t2) # r)" "map page_no (nd_rids h dp') = map kid_page (l @ (k, t1) # (m, t2) # r)"
proof -
  note u = up_preD [OF pre]
  have mp: "0 < minsz h" using minsz_pos [OF h] by simp
  have kok: "kids_ok h (bt_ok h n (minsz h)) (hi_of h c) (l @ (k, t1) # (m, t2) # r)"
    by (rule frame_kids_ok(1) [OF u(2) mp]) (use u(3,4,5) in simp_all)
  obtain dp where dp: "ih_pages s p = Some dp" "nd_ok h dp" "\<not> nd_is_leaf dp" "nd_parent dp = ctx_par c" "nd_keys h dp = map fst l @ k # map fst r"
    "map page_no (nd_rids h dp) = map kid_page l @ bt_page t1 # map kid_page r" using u(6) by (auto simp: nodep_def)
  have room: "int (Suc (length l + length r)) < ix_order h" using u(2) by (simp add: fits_def)
  have q2: "int_range (bt_page t2)" using u(10) [of "bt_page t2"] u(11) bt_page_in [of t2] by (auto simp: int_range_def)
  obtain dp' where i: "nd_insert h dp m (mk_rid (bt_page t2) (- 1)) = Inr dp'" "nd_ok h dp'" "same_links dp dp'" "nd_get_size dp' = int (length l + length r + 2)"
    "nd_keys h dp' = map fst l @ k # m # map fst r" "map page_no (nd_rids h dp') = map kid_page l @ bt_page t1 # bt_page t2 # map kid_page r"
    by (rule frame_nd_insert [OF h kok dp(2,5,6) room q2])
  obtain d1 where d1: "ih_pages s (bt_page t1) = Some d1" "nd_parent d1 = p" using rep_page [OF u(7)] by auto
  have "p \<noteq> INVALID_PAGE_ID" using u(10) [of p] by (simp add: INVALID_PAGE_ID_def)
  then have nr: "\<not> nd_is_root d1" using d1(2) by (simp add: nd_is_root_def)
  define s1 where "s1 = s\<lparr>ih_pages := (ih_pages s)(p \<mapsto> dp'), ih_pins := (ih_pins s)(p := (if ih_pins s p + 1 > 0 then ih_pins s p + 1 - 1 else ih_pins s p + 1))\<rparr>"
  note gs = geo_simps [OF u(1)]
  have "insert_into_parent (Suc j) (bt_page t1) m (bt_page t2) s =
      (if int (length l + length r + 2) = ix_order h
       then ix_bind (split p) (\<lambda>np. ix_bind (node_page np) (\<lambda>dq. ix_bind (insert_into_parent j p (nd_get_key h dq 0) np) (\<lambda>_. unpin_node np))) s1
       else Some (Inr (), s1))"
  proof -
    let ?K = "\<lambda>np. ix_bind (node_page np) (\<lambda>dq. ix_bind (insert_into_parent j p (nd_get_key h dq 0) np) (\<lambda>_. unpin_node np))"
    have "insert_into_parent (Suc j) (bt_page t1) m (bt_page t2) s = (if nd_get_size dp' = ix_order h then ix_bind (split p) ?K else ix_ret ()) s1"
      unfolding insert_into_parent.simps
      using d1 dp(1) nr i(1) gs(1,4,16) by (cases s) (simp add: ix_steps s1_def Let_def)
    then show ?thesis by (simp add: i(4) ix_ret_def)
  qed
  then show ?thesis
    by (rule that) (use dp i nd_ok_length [OF dp(2)] in \<open>simp_all add: s1_def same_links_def\<close>)
qed

text \<open>The pages of the children of a frame with the new child, and of the frames above.\<close>

abbreviation kids_pages :: "(bytes \<times> bt) list \<Rightarrow> int list" where
  "kids_pages cs \<equiv> concat (map (\<lambda>kt. bt_pages (snd kt)) cs)"

lemma frame_distinct:
  assumes "distinct (bt_pages t1 @ bt_pages t2 @ ctx_pages ((p, l, k, r) # c))"
  shows "distinct (p # kids_pages (l @ (k, t1) # (m, t2) # r) @ ctx_pages c)"
    "set (p # kids_pages (l @ (k, t1) # (m, t2) # r) @ ctx_pages c) = set (bt_pages t1 @ bt_pages t2 @ ctx_pages ((p, l, k, r) # c))"
proof -
  let ?L = "kids_pages l" and ?R = "kids_pages r"
  have e: "kids_pages (l @ (k, t1) # (m, t2) # r) = ?L @ bt_pages t1 @ bt_pages t2 @ ?R" by simp
  show "set (p # kids_pages (l @ (k, t1) # (m, t2) # r) @ ctx_pages c) = set (bt_pages t1 @ bt_pages t2 @ ctx_pages ((p, l, k, r) # c))"
    unfolding e ctx_pages.simps set_append list.set by blast
  show "distinct (p # kids_pages (l @ (k, t1) # (m, t2) # r) @ ctx_pages c)"
    using assms unfolding e ctx_pages.simps distinct.simps distinct_append set_append list.set by blast
qed

lemma up_fit:
  assumes h: "hdr_ok h" and pre: "up_pre h n s ((p, l, k, r) # c) t1 m t2" and sz: "int (length l + length r + 2) \<noteq> ix_order h"
    and s1: "ih_pages s1 = (ih_pages s)(p \<mapsto> dp')" "ih_hdr s1 = ih_hdr s" "ih_next s1 = ih_next s"
    and dp: "ih_pages s p = Some dp" "same_links dp dp'" "length dp = PAGE_SIZE" "nd_ok h dp'" "\<not> nd_is_leaf dp'" "nd_parent dp' = ctx_par c"
    "nd_keys h dp' = map fst (l @ (k, t1) # (m, t2) # r)" "map page_no (nd_rids h dp') = map kid_page (l @ (k, t1) # (m, t2) # r)"
  shows "up_post h n s ((p, l, k, r) # c) t1 t2 s1"
proof -
  note u = up_preD [OF pre]
  let ?cs = "l @ (k, t1) # (m, t2) # r"
  let ?t = "plug (Nd p ?cs) c"
  note fd = frame_distinct [OF u(9), where m = m]
  have mp: "0 < minsz h" using minsz_pos [OF h] by simp
  have kok: "kids_ok h (bt_ok h n (minsz h)) (hi_of h c) ?cs"
    by (rule frame_kids_ok(1) [OF u(2) mp]) (use u(3,4,5) in simp_all)
  have "rep h (ih_pages s1) p (snd kt)" if kt: "kt \<in> set ?cs" for kt
  proof (rule rep_keep)
    show "rep h (ih_pages s) p (snd kt)" using u(6,7,8) kt by auto
    fix x assume "x \<in> set (bt_pages (snd kt))"
    then have "x \<in> set (kids_pages ?cs)" by (rule in_kids_pages [OF kt])
    then have "x \<noteq> p" using fd(1) unfolding distinct.simps set_append by blast
    then show "ih_pages s1 x = ih_pages s x" by (simp add: s1)
  qed
  moreover have "rep_ctx h (ih_pages s1) p c"
  proof (rule rep_ctx_keep)
    show "rep_ctx h (ih_pages s) p c" using u(6) by simp
    fix x assume "x \<in> set (ctx_pages c)"
    then have "x \<noteq> p" using fd(1) unfolding distinct.simps set_append by blast
    then show "ih_pages s1 x = ih_pages s x" by (simp add: s1)
  qed
  moreover have "innerp h (ih_pages s1) p (ctx_par c) (map fst ?cs) (map kid_page ?cs)" using dp(4-8) by (simp add: nodep_def s1)
  ultimately have "rep h (ih_pages s1) INVALID_PAGE_ID ?t" by (simp add: rep_plug)
  moreover have "bt_ok h (Suc n + length c) (root_min (Suc n + length c)) None None ?t"
  proof -
    have "fst (hd ?cs) = first_key l k" by (cases l) (simp_all add: first_key_def)
    then have "bt_ok h (Suc n) (top_min h c (Suc n)) (lo_of h c) (hi_of h c) (Nd p ?cs)"
      using kok u(2) sz by (auto simp: fits_def)
    then show ?thesis using u(2) by (simp only: plug_ok ctx_ok.simps)
  qed
  moreover have "distinct (bt_pages ?t)"
    using fd(1) unfolding distinct_pages_plug bt_pages.simps distinct.simps distinct_append set_append list.set by blast
  moreover have "set (bt_pages ?t) \<subseteq> set (bt_pages t1 @ bt_pages t2 @ ctx_pages ((p, l, k, r) # c)) \<union> {ih_next s..<ih_next s1}"
    using fd(2) unfolding set_pages_plug bt_pages.simps set_append list.set by blast
  moreover have "ix_root (ih_hdr s1) = bt_page ?t" using u(12) s1(2) by (simp add: bt_page_plug)
  moreover have "links_kept (ih_next s) (ih_pages s) (ih_pages s1)"
    unfolding s1 by (rule links_kept_upd [OF links_kept_refl, where d = dp]) (use dp(1-3) nd_ok_length [OF dp(4)] in \<open>simp_all add: same_links_def\<close>)
  ultimately show ?thesis
    unfolding up_post_def using u(1) s1(2,3) by (intro exI [of _ ?t] exI [of _ "Suc n + length c"]) (simp add: entries_plug leaf_pages_plug)
qed

lemma distinct_kids:
  "distinct (kids_pages cs) \<Longrightarrow> kt \<in> set cs \<Longrightarrow> kt' \<in> set cs \<Longrightarrow> x \<in> set (bt_pages (snd kt)) \<Longrightarrow> x \<in> set (bt_pages (snd kt')) \<Longrightarrow> kt = kt'"
proof (induction cs)
  case (Cons a cs)
  have d: "distinct (kids_pages cs)" "set (bt_pages (snd a)) \<inter> set (kids_pages cs) = {}"
    using Cons.prems(1) by (simp_all only: list.map concat.simps distinct_append)
  have "x \<notin> set (kids_pages cs)" if "kt = a \<or> kt' = a" using that Cons.prems(4,5) d(2) by blast
  then show ?case using Cons d(1) in_kids_pages [of kt cs x] in_kids_pages [of kt' cs x] by (metis set_ConsD)
qed simp

lemma distinct_kid_pages: "distinct (kids_pages cs) \<Longrightarrow> distinct (map kid_page cs)"
proof (induction cs)
  case (Cons a cs)
  have "kid_page a \<notin> set (map kid_page cs)"
    using Cons.prems bt_page_in [of "snd a"] kid_page_in [of _ cs] by auto
  then show ?case using Cons by simp
qed simp

lemma up_split:
  assumes h: "hdr_ok h" and pre: "up_pre h n s ((p, l, k, r) # c) t1 m t2" and sz: "int (length l + length r + 2) = ix_order h"
    and s1: "ih_pages s1 = (ih_pages s)(p \<mapsto> dp')" "ih_hdr s1 = ih_hdr s" "ih_next s1 = ih_next s"
    and dp: "ih_pages s p = Some dp" "same_links dp dp'" "length dp = PAGE_SIZE" "nd_ok h dp'" "\<not> nd_is_leaf dp'" "nd_parent dp' = ctx_par c"
    "nd_keys h dp' = map fst (l @ (k, t1) # (m, t2) # r)" "map page_no (nd_rids h dp') = map kid_page (l @ (k, t1) # (m, t2) # r)"
  obtains s2 e A B where "split p s1 = Some (Inr (ih_next s), s2)" "l @ (k, t1) # (m, t2) # r = A @ B"
    "up_pre h (Suc n) s2 c (Nd p A) (fst (hd B)) (Nd (ih_next s) B)" "ih_hdr s2 = bump (ih_hdr s)" "ih_next s2 = ih_next s + 1"
    "links_kept (ih_next s) (ih_pages s) (ih_pages s2)" "ih_pages s2 (ih_next s) = Some e" "nd_get_key h e 0 = fst (hd B)"
proof -
  note u = up_preD [OF pre]
  define cs where "cs = l @ (k, t1) # (m, t2) # r"
  define mid where "mid = length cs div 2"
  define A where "A = take mid cs"
  define B where "B = drop mid cs"
  let ?q = "ih_next s"
  have AB: "cs = A @ B" by (simp add: A_def B_def)
  note fd = frame_distinct [OF u(9), where m = m, folded cs_def]
  have mp: "0 < minsz h" using minsz_pos [OF h] by simp
  have kok: "kids_ok h (bt_ok h n (minsz h)) (hi_of h c) cs"
    unfolding cs_def by (rule frame_kids_ok(1) [OF u(2) mp]) (use u(3,4,5) in simp_all)
  have kids: "rep h (ih_pages s) p (snd kt)" if "kt \<in> set cs" for kt using u(6,7,8) that by (auto simp: cs_def)
  have bd: "0 \<le> x \<and> x < ?q" if "x = p \<or> x \<in> set (kids_pages cs) \<or> x \<in> set (ctx_pages c)" for x
    using u(10) [of x] that unfolding fd(2) [symmetric] by auto
  have dst: "p \<notin> set (kids_pages cs)" "p \<notin> set (ctx_pages c)" "distinct (kids_pages cs)" "distinct (ctx_pages c)"
    "set (kids_pages cs) \<inter> set (ctx_pages c) = {}" using fd(1) unfolding distinct.simps distinct_append set_append by blast+
  have kp: "x \<in> set (kids_pages cs)" if "x \<in> set (map kid_page cs)" for x using that kid_page_in by fastforce
  obtain s2 d' e where sp: "split p s1 = Some (Inr ?q, s2)" "ih_hdr s2 = bump (ih_hdr s1)" "ih_next s2 = ?q + 1"
    "ih_pages s2 = reparent ?q (set (drop mid (map kid_page cs))) ((ih_pages s1)(p \<mapsto> d', ?q \<mapsto> e))"
    "nd_ok h d'" "\<not> nd_is_leaf d'" "nd_parent d' = nd_parent dp'" "nd_keys h d' = take mid (nd_keys h dp')" "map page_no (nd_rids h d') = take mid (map kid_page cs)"
    "nd_ok h e" "\<not> nd_is_leaf e" "nd_parent e = nd_parent dp'" "nd_keys h e = drop mid (nd_keys h dp')" "map page_no (nd_rids h e) = drop mid (map kid_page cs)" "same_links dp' d'"
  proof (rule split_inner_rep [OF h _ _ dp(4,5), of s1 p "map kid_page cs" ?q mid])
    show "geo h (ih_hdr s1)" "ih_pages s1 p = Some dp'" "?q = ih_next s1" "p \<noteq> ?q" using u(1) s1 bd [of p] by auto
    show "map page_no (nd_rids h dp') = map kid_page cs" using dp(8) by (simp add: cs_def)
    show "mid = length (nd_keys h dp') div 2" unfolding dp(7) mid_def cs_def by simp
    show "distinct (map kid_page cs)" by (rule distinct_kid_pages [OF dst(3)])
    show "int_range (?q + 1)" using u(11) bd [of p] by (simp add: int_range_def)
    show "ih_pages s1 x \<noteq> None \<and> x \<noteq> p \<and> x \<noteq> ?q" if x: "x \<in> set (map kid_page cs)" for x
    proof -
      obtain kt where kt: "kt \<in> set cs" "x = kid_page kt" using x by auto
      have "ih_pages s x \<noteq> None" using rep_page [OF kids [OF kt(1)]] kt(2) by auto
      then show ?thesis using kp [OF x] dst(1) bd [of x] s1(1) by auto
    qed
  qed blast
  have dpk: "nd_keys h dp' = map fst cs" using dp(7) by (simp add: cs_def)
  have X: "set (drop mid (map kid_page cs)) = kid_page ` set B" by (simp add: drop_map B_def)
  have XB: "x \<in> set (kids_pages B)" if "x \<in> kid_page ` set B" for x using that kid_page_in [of _ B] by auto
  have kAB: "kids_pages cs = kids_pages A @ kids_pages B" by (simp add: AB)
  have disAB: "set (kids_pages A) \<inter> set (kids_pages B) = {}" "distinct (kids_pages B)" using dst(3) unfolding kAB distinct_append by blast+
  have P2: "ih_pages s2 x = ih_pages s x" if "x \<noteq> p" "x \<noteq> ?q" "x \<notin> kid_page ` set B" for x
    using sp(4) s1(1) that unfolding X by (simp add: reparent_def)
  have P2k: "ih_pages s2 x = map_option (\<lambda>d. nd_set_parent d ?q) (ih_pages s x)" if "x \<in> kid_page ` set B" for x
  proof -
    have "x \<in> set (kids_pages cs)" using XB [OF that] by (simp add: kAB)
    then have "x \<noteq> p" "x \<noteq> ?q" using dst(1) bd [of x] by auto
    then show ?thesis using sp(4) s1(1) that unfolding X by (simp add: reparent_def)
  qed
  have out: "?q \<notin> set (kids_pages cs)" "?q \<notin> set (ctx_pages c)" "?q \<noteq> p" using bd [of ?q] by auto
  have pX: "p \<notin> kid_page ` set B" "?q \<notin> kid_page ` set B" using XB [of p] XB [of ?q] dst(1) out(1) by (auto simp: kAB)
  have P2p: "ih_pages s2 p = Some d'" "ih_pages s2 ?q = Some e" using sp(4) pX out(3) unfolding X by (simp_all add: reparent_def)
  have qr: "int_range ?q" using u(11) bd [of p] by (simp add: int_range_def)
  have len: "length cs = nat (ix_order h)" "4 \<le> ix_order h" using sz h unfolding cs_def hdr_ok_def by simp_all
  have lA: "length A = minsz h" "length B = length cs - minsz h" "A \<noteq> []" "B \<noteq> []"
    using len minsz_pos [OF h] by (auto simp: A_def B_def mid_def minsz_def nat_div_distrib)
  have "rep_ctx h (ih_pages s2) p c"
  proof (rule rep_ctx_keep)
    show "rep_ctx h (ih_pages s) p c" using u(6) by simp
    fix x assume x: "x \<in> set (ctx_pages c)"
    then have "x \<notin> kid_page ` set B" using XB [of x] dst(5) kAB by auto
    then show "ih_pages s2 x = ih_pages s x" using P2 [of x] x dst(2) out(2) by blast
  qed
  moreover have "rep h (ih_pages s2) (ctx_par c) (Nd p A)"
  proof -
    have "rep h (ih_pages s2) p (snd kt)" if kt: "kt \<in> set A" for kt
    proof (rule rep_keep)
      show "rep h (ih_pages s) p (snd kt)" using kids kt AB by simp
      fix x assume "x \<in> set (bt_pages (snd kt))"
      then have x: "x \<in> set (kids_pages A)" by (rule in_kids_pages [OF kt])
      then have "x \<notin> kid_page ` set B" "x \<in> set (kids_pages cs)" using XB [of x] disAB(1) by (auto simp: kAB)
      then show "ih_pages s2 x = ih_pages s x" using P2 [of x] dst(1) out(1) by blast
    qed
    then show ?thesis using P2p(1) sp(5-9) dp(6) unfolding dpk A_def by (simp add: nodep_def take_map)
  qed
  moreover have "rep h (ih_pages s2) (ctx_par c) (Nd ?q B)"
  proof -
    have "rep h (ih_pages s2) ?q (snd kt)" if kt: "kt \<in> set B" for kt
    proof (rule rep_reparent [OF kids _ qr])
      show "kt \<in> set cs" using kt AB by simp
      show "distinct (bt_pages (snd kt))" using disAB(2) kt by (simp add: distinct_concat_iff)
      show "ih_pages s2 (kid_page kt) = map_option (\<lambda>d. nd_set_parent d ?q) (ih_pages s (kid_page kt))" using P2k kt by simp
      fix x assume x: "x \<in> set (bt_pages (snd kt))" "x \<noteq> kid_page kt"
      have "x \<notin> kid_page ` set B"
      proof
        assume "x \<in> kid_page ` set B"
        then obtain kt' where kt': "kt' \<in> set B" "x = kid_page kt'" by blast
        then have "kt = kt'" using distinct_kids [OF disAB(2) kt kt'(1) x(1)] bt_page_in [of "snd kt'"] by simp
        then show False using x(2) kt'(2) by simp
      qed
      moreover have "x \<in> set (kids_pages cs)" using in_kids_pages [OF kt x(1)] by (simp add: kAB)
      ultimately show "ih_pages s2 x = ih_pages s x" using P2 [of x] dst(1) out(1) by blast
    qed
    then show ?thesis using P2p(2) sp(10-14) dp(6) unfolding dpk B_def by (simp add: nodep_def drop_map)
  qed
  moreover have "bt_ok h (Suc n) (minsz h) (lo_of h c) (Some (krank h (fst (hd B)))) (Nd p A)"
    and "bt_ok h (Suc n) (minsz h) (Some (krank h (fst (hd B)))) (hi_of h c) (Nd ?q B)"
  proof -
    have "nxt h (hi_of h c) B = Some (krank h (fst (hd B)))" using lA(4) by (cases B) simp_all
    then have kk: "kids_ok h (bt_ok h n (minsz h)) (Some (krank h (fst (hd B)))) A" "kids_ok h (bt_ok h n (minsz h)) (hi_of h c) B"
      using kok unfolding AB kids_ok_append by simp_all
    have "fst (hd A) = fst (hd cs)" using lA(3) by (simp add: AB)
    also have "\<dots> = first_key l k" by (cases l) (simp_all add: cs_def first_key_def)
    finally have fa: "lbd (lo_of h c) (krank h (fst (hd A)))" using u(2) by simp
    have fits: "fits h (minsz h) (length A)" "fits h (minsz h) (length B)"
      unfolding fits_def lA(1,2) using len by (auto simp: minsz_def)
    show "bt_ok h (Suc n) (minsz h) (lo_of h c) (Some (krank h (fst (hd B)))) (Nd p A)"
      and "bt_ok h (Suc n) (minsz h) (Some (krank h (fst (hd B)))) (hi_of h c) (Nd ?q B)"
      using kk fa fits lA(3,4) by simp_all
  qed
  moreover have "distinct (bt_pages (Nd p A) @ bt_pages (Nd ?q B) @ ctx_pages c)"
    using dst out unfolding kAB bt_pages.simps distinct.simps distinct_append set_append list.set by blast
  moreover have "\<forall>x\<in>set (bt_pages (Nd p A) @ bt_pages (Nd ?q B) @ ctx_pages c). 0 \<le> x \<and> x < ih_next s2"
  proof
    fix x assume "x \<in> set (bt_pages (Nd p A) @ bt_pages (Nd ?q B) @ ctx_pages c)"
    then have "x = ?q \<or> x = p \<or> x \<in> set (kids_pages cs) \<or> x \<in> set (ctx_pages c)"
      unfolding kAB bt_pages.simps set_append list.set by blast
    then consider "x = ?q" | "x = p \<or> x \<in> set (kids_pages cs) \<or> x \<in> set (ctx_pages c)" by blast
    then show "0 \<le> x \<and> x < ih_next s2"
    proof cases
      case 1
      then show ?thesis using bd [of p] sp(3) by simp
    next
      case 2
      show ?thesis using bd [OF 2] sp(3) by simp
    qed
  qed
  moreover have "ix_root (ih_hdr s2) = bt_page (plug (Nd p A) c)" using u(12) sp(2) s1(2) by (simp add: bt_page_plug)
  ultimately have "up_pre h (Suc n) s2 c (Nd p A) (fst (hd B)) (Nd ?q B)"
    unfolding up_pre_def using u(1,2,11) sp(2,3) s1(2) by (simp add: bt_first_def)
  moreover have "links_kept ?q (ih_pages s) (ih_pages s2)" unfolding sp(4) s1(1)
  proof (rule links_kept_reparent)
    show "links_kept ?q (ih_pages s) ((ih_pages s)(p \<mapsto> dp', p \<mapsto> d', ?q \<mapsto> e))"
      by (rule links_kept_new, unfold fun_upd_upd, rule links_kept_upd [OF links_kept_refl, where d = dp])
        (use dp(1-3) sp(15) nd_ok_length [OF sp(5)] in \<open>simp_all add: same_links_def\<close>)
    show "\<exists>d. ((ih_pages s)(p \<mapsto> dp', p \<mapsto> d', ?q \<mapsto> e)) x = Some d \<and> length d = PAGE_SIZE" if "x \<in> set (drop mid (map kid_page cs))" for x
    proof -
      have x: "x \<in> kid_page ` set B" using that by (simp only: X)
      then obtain kt where kt: "kt \<in> set cs" "x = kid_page kt" using AB by auto
      obtain d where "ih_pages s x = Some d" "nd_ok h d" using rep_page [OF kids [OF kt(1)]] kt(2) by auto
      moreover have "x \<noteq> p" "x \<noteq> ?q" using x pX by blast+
      ultimately show ?thesis using nd_ok_length [of h d] by simp
    qed
  qed
  moreover have "nd_get_key h e 0 = fst (hd B)"
  proof -
    have ke: "nd_keys h e = map fst B" using sp(13) unfolding dpk B_def by (simp add: drop_map)
    then have "nd_keys h e \<noteq> []" using lA(4) by simp
    from nd_get_key_hd [OF this] show ?thesis using lA(4) by (simp add: ke hd_map)
  qed
  ultimately show ?thesis
    by (intro that [OF sp(1) AB [unfolded cs_def] _ _ sp(3) _ P2p(2)]) (simp_all add: sp(2) s1(2))
qed

lemma up_post_pins: "up_post h n s c t1 t2 s' \<Longrightarrow> up_post h n s c t1 t2 (s'\<lparr>ih_pins := x\<rparr>)"
  by (simp add: up_post_def)

lemma up_post_frame:
  assumes post: "up_post h (Suc n) s2 c (Nd p A) (Nd (ih_next s) B) s'" and cs: "l @ (k, t1) # (m, t2) # r = A @ B"
    and s2: "ih_hdr s2 = bump (ih_hdr s)" "ih_next s2 = ih_next s + 1" "links_kept (ih_next s) (ih_pages s) (ih_pages s2)"
  shows "up_post h n s ((p, l, k, r) # c) t1 t2 s'"
proof -
  obtain t n' where t: "geo h (ih_hdr s')" "ix_first_leaf (ih_hdr s') = ix_first_leaf (ih_hdr s2)" "ix_last_leaf (ih_hdr s') = ix_last_leaf (ih_hdr s2)"
    "ix_root (ih_hdr s') = bt_page t" "rep h (ih_pages s') INVALID_PAGE_ID t" "bt_ok h n' (root_min n') None None t" "n' \<le> Suc (Suc n + length c)"
    "entries t = left_of entries c @ entries (Nd p A) @ entries (Nd (ih_next s) B) @ right_of entries c"
    "leaf_pages t = left_of leaf_pages c @ leaf_pages (Nd p A) @ leaf_pages (Nd (ih_next s) B) @ right_of leaf_pages c" "distinct (bt_pages t)"
    "set (bt_pages t) \<subseteq> set (bt_pages (Nd p A) @ bt_pages (Nd (ih_next s) B) @ ctx_pages c) \<union> {ih_next s2..<ih_next s'}"
    "ih_next s2 \<le> ih_next s'" "ih_next s' \<le> ih_next s2 + int (length c) + 1" "links_kept (ih_next s2) (ih_pages s2) (ih_pages s')"
    using post unfolding up_post_def by blast
  have e: "concat (map (\<lambda>kt. f (snd kt)) A) @ concat (map (\<lambda>kt. f (snd kt)) B) =
      concat (map (\<lambda>kt. f (snd kt)) l) @ f t1 @ f t2 @ concat (map (\<lambda>kt. f (snd kt)) r)" for f :: "bt \<Rightarrow> 'z list"
  proof -
    have "concat (map (\<lambda>kt. f (snd kt)) (A @ B)) = concat (map (\<lambda>kt. f (snd kt)) (l @ (k, t1) # (m, t2) # r))" by (simp only: cs)
    then show ?thesis by simp
  qed
  have en: "entries t = left_of entries ((p, l, k, r) # c) @ entries t1 @ entries t2 @ right_of entries ((p, l, k, r) # c)"
    using t(8) e [of entries] by simp
  have lp: "leaf_pages t = left_of leaf_pages ((p, l, k, r) # c) @ leaf_pages t1 @ leaf_pages t2 @ right_of leaf_pages ((p, l, k, r) # c)"
    using t(9) e [of leaf_pages] by simp
  have "set (kids_pages A) \<union> set (kids_pages B) = set (kids_pages l) \<union> set (bt_pages t1) \<union> set (bt_pages t2) \<union> set (kids_pages r)"
    using arg_cong [OF e [of bt_pages], of set] unfolding set_append by blast
  then have "set (bt_pages t) \<subseteq> set (bt_pages t1 @ bt_pages t2 @ ctx_pages ((p, l, k, r) # c)) \<union> ({ih_next s} \<union> {ih_next s2..<ih_next s'})"
    using t(11) unfolding bt_pages.simps ctx_pages.simps set_append list.set by blast
  then have pg: "set (bt_pages t) \<subseteq> set (bt_pages t1 @ bt_pages t2 @ ctx_pages ((p, l, k, r) # c)) \<union> {ih_next s..<ih_next s'}"
    using s2(2) t(12) by fastforce
  have lk: "links_kept (ih_next s) (ih_pages s) (ih_pages s')" by (rule links_kept_trans [OF s2(3) t(14)]) (use s2(2) in simp)
  show ?thesis unfolding up_post_def
    by (intro exI [of _ t] exI [of _ n'] conjI t(1,4,5,6,10) en lp pg lk) (use t s2 in simp_all)
qed

lemma insert_into_parent_rep:
  assumes h: "hdr_ok h"
  shows "up_pre h n s c t1 m t2 \<Longrightarrow> length c < k \<Longrightarrow>
    \<exists>s'. insert_into_parent k (bt_page t1) m (bt_page t2) s = Some (Inr (), s') \<and> up_post h n s c t1 t2 s'"
proof (induction c arbitrary: n s t1 m t2 k)
  case Nil
  then obtain k' where "k = Suc k'" by (cases k) auto
  then show ?case using up_root [OF h Nil(1)] by blast
next
  case (Cons fr c)
  obtain p l ky r where fr: "fr = (p, l, ky, r)" by (metis surj_pair)
  obtain k' where k: "k = Suc k'" using Cons.prems(2) by (cases k) auto
  note pre = Cons.prems(1) [unfolded fr]
  obtain s1 dp dp' where en: "insert_into_parent (Suc k') (bt_page t1) m (bt_page t2) s =
      (if int (length l + length r + 2) = ix_order h
       then ix_bind (split p) (\<lambda>np. ix_bind (node_page np) (\<lambda>dq. ix_bind (insert_into_parent k' p (nd_get_key h dq 0) np) (\<lambda>_. unpin_node np))) s1
       else Some (Inr (), s1))"
    and s1: "ih_pages s1 = (ih_pages s)(p \<mapsto> dp')" "ih_hdr s1 = ih_hdr s" "ih_next s1 = ih_next s" "ih_fd s1 = ih_fd s"
    and dp: "ih_pages s p = Some dp" "same_links dp dp'" "length dp = PAGE_SIZE" "nd_ok h dp'" "\<not> nd_is_leaf dp'" "nd_parent dp' = ctx_par c"
    "nd_keys h dp' = map fst (l @ (ky, t1) # (m, t2) # r)" "map page_no (nd_rids h dp') = map kid_page (l @ (ky, t1) # (m, t2) # r)"
    by (rule up_enter [OF h pre, of k'])
  show ?case
  proof (cases "int (length l + length r + 2) = ix_order h")
    case False
    have "up_post h n s (fr # c) t1 t2 s1" unfolding fr by (rule up_fit [OF h pre False s1(1-3) dp])
    then show ?thesis using en False k by simp
  next
    case True
    obtain s2 e A B where sp: "split p s1 = Some (Inr (ih_next s), s2)" "l @ (ky, t1) # (m, t2) # r = A @ B"
      "up_pre h (Suc n) s2 c (Nd p A) (fst (hd B)) (Nd (ih_next s) B)" "ih_hdr s2 = bump (ih_hdr s)" "ih_next s2 = ih_next s + 1"
      "links_kept (ih_next s) (ih_pages s) (ih_pages s2)" "ih_pages s2 (ih_next s) = Some e" "nd_get_key h e 0 = fst (hd B)"
      by (rule up_split [OF h pre True s1(1-3) dp])
    obtain s3 where s3: "insert_into_parent k' p (fst (hd B)) (ih_next s) s2 = Some (Inr (), s3)" "up_post h (Suc n) s2 c (Nd p A) (Nd (ih_next s) B) s3"
      using Cons.IH [OF sp(3), of k'] Cons.prems(2) k by auto
    note post = up_post_frame [OF s3(2) sp(2) sp(4-6)]
    have "insert_into_parent k (bt_page t1) m (bt_page t2) s = unpin_node (ih_next s) s3"
      using en True k sp(1,7,8) s3(1) by (simp add: ix_bind_def node_page_def)
    then show ?thesis using up_post_pins [OF post] unfolding fr by (simp add: unpin_node_def)
  qed
qed

end
