(* ===== verification/Bt_Entry.thy ===== *)
theory Bt_Entry
  imports Bt_Insert
begin

text \<open>
  \<^verbatim>\<open>insert_entry\<close> on an open index: an index that holds a map holds the map with the new pair
  afterwards, unless the key was there, and the list of leaves is linked again.
\<close>

section \<open>The list of leaves\<close>

definition next_of :: "(int \<rightharpoonup> bytes) \<Rightarrow> int \<Rightarrow> int option" where "next_of P x = map_option nd_next_leaf (P x)"
definition prev_of :: "(int \<rightharpoonup> bytes) \<Rightarrow> int \<Rightarrow> int option" where "prev_of P x = map_option nd_prev_leaf (P x)"

lemma linked_Cons2: "linked P (a # b # xs) \<longleftrightarrow> next_of P a = Some b \<and> prev_of P b = Some a \<and> linked P (b # xs)"
  by (auto simp: next_of_def prev_of_def)

lemma linked_append: "linked P (xs @ a # ys) \<longleftrightarrow> linked P (xs @ [a]) \<and> linked P (a # ys)"
proof (induction xs)
  case Nil
  then show ?case by (cases ys) simp_all
next
  case (Cons x xs)
  then show ?case by (cases xs) (simp_all add: linked_Cons2 del: linked.simps)
qed

lemma linked_cong:
  assumes "linked P zs" "\<And>a. a \<in> set (butlast zs) \<Longrightarrow> next_of P' a = next_of P a" "\<And>b. b \<in> set (tl zs) \<Longrightarrow> prev_of P' b = prev_of P b"
  shows "linked P' zs"
  using assms
proof (induction P zs rule: linked.induct)
  case (1 P a b xs)
  have "linked P' (b # xs)"
    by (rule 1(1)) (use 1(2-4) in \<open>auto simp: linked_Cons2 simp del: linked.simps split: if_splits\<close>)
  then show ?case using 1(2-4) by (simp add: linked_Cons2 del: linked.simps)
qed simp_all

text \<open>A new leaf \<open>q\<close> between \<open>p\<close> and its successor.\<close>

lemma linked_insert:
  assumes "linked P (xs @ p # nx # ys)" "p \<notin> set xs" "p \<notin> set (butlast (nx # ys))" "nx \<notin> set (tl (xs @ [p]))" "nx \<notin> set ys"
    "q \<notin> set (xs @ p # nx # ys)"
    and next': "next_of P' p = Some q" "next_of P' q = Some nx" "\<And>x. x \<noteq> p \<Longrightarrow> x \<noteq> q \<Longrightarrow> next_of P' x = next_of P x"
    and prev': "prev_of P' q = Some p" "prev_of P' nx = Some q" "\<And>x. x \<noteq> nx \<Longrightarrow> x \<noteq> q \<Longrightarrow> prev_of P' x = prev_of P x"
  shows "linked P' (xs @ p # q # nx # ys)"
proof -
  have l: "linked P (xs @ [p])" "linked P (nx # ys)" using assms(1) linked_append [of P xs p "nx # ys"] by (simp_all add: linked_Cons2 del: linked.simps)
  have ne: "x \<noteq> q" if "x \<in> set (xs @ [p]) \<or> x \<in> set (nx # ys)" for x using that assms(6) by auto
  have "linked P' (xs @ [p])"
  proof (rule linked_cong [OF l(1)])
    show "next_of P' x = next_of P x" if "x \<in> set (butlast (xs @ [p]))" for x
    proof (rule next'(3))
      show "x \<noteq> p" "x \<noteq> q" using that assms(2) ne [of x] by auto
    qed
    show "prev_of P' x = prev_of P x" if "x \<in> set (tl (xs @ [p]))" for x
    proof (rule prev'(3))
      have "x \<in> set (xs @ [p])" using that by (cases xs) auto
      then show "x \<noteq> nx" "x \<noteq> q" using that assms(4) ne [of x] by blast+
    qed
  qed
  moreover have "linked P' (nx # ys)"
  proof (rule linked_cong [OF l(2)])
    show "next_of P' x = next_of P x" if "x \<in> set (butlast (nx # ys))" for x
    proof (rule next'(3))
      show "x \<noteq> p" "x \<noteq> q" using that assms(3) ne [of x] in_set_butlastD [of x "nx # ys"] by blast+
    qed
    show "prev_of P' x = prev_of P x" if "x \<in> set (tl (nx # ys))" for x
    proof (rule prev'(3))
      show "x \<noteq> nx" "x \<noteq> q" using that assms(5) ne [of x] by auto
    qed
  qed
  ultimately show ?thesis
    using next'(1,2) prev'(1,2) linked_append [of P' xs p "q # nx # ys"] by (simp add: linked_Cons2 del: linked.simps)
qed

text \<open>Changing the links of leaves leaves the tree alone.\<close>

definition node_eq :: "(int \<rightharpoonup> bytes) \<Rightarrow> (int \<rightharpoonup> bytes) \<Rightarrow> int \<Rightarrow> bool" where
  "node_eq P P' x \<longleftrightarrow> P' x = P x \<or>
     (\<exists>d v. P x = Some d \<and> length d = PAGE_SIZE \<and> (P' x = Some (nd_set_prev_leaf d v) \<or> P' x = Some (nd_set_next_leaf d v)))"

lemma nodep_relink: "node_eq P P' x \<Longrightarrow> nodep h P x leaf par ks R \<Longrightarrow> nodep h P' x leaf par ks R"
  by (auto simp: node_eq_def nodep_def link_simps)

lemma rep_relink: "rep h P par t \<Longrightarrow> (\<And>x. x \<in> set (bt_pages t) \<Longrightarrow> node_eq P P' x) \<Longrightarrow> rep h P' par t"
proof (induction t arbitrary: par rule: bt_pages.induct)
  case (1 p kvs)
  then show ?case using nodep_relink [of P P' p] by simp
next
  case (2 p cs)
  have "rep h P' p (snd kt)" if "kt \<in> set cs" for kt
    by (rule 2(1) [OF that]) (use 2(2,3) that in auto)
  then show ?case using 2(2) 2(3) [of p] nodep_relink [of P P' p] by simp
qed

lemma rep_ctx_relink: "rep_ctx h P q c \<Longrightarrow> (\<And>x. x \<in> set (ctx_pages c) \<Longrightarrow> node_eq P P' x) \<Longrightarrow> rep_ctx h P' q c"
proof (induction c arbitrary: q rule: ctx_pages.induct)
  case (2 p l k r c)
  have "rep h P' p (snd kt)" if "kt \<in> set l \<union> set r" for kt
    by (rule rep_relink [of h P]) (use 2(2,3) that in auto)
  moreover have "rep_ctx h P' p c" by (rule 2(1)) (use 2(2,3) in auto)
  ultimately show ?case using 2(2) 2(3) [of p] nodep_relink [of P P' p] by simp
qed simp

section \<open>Inserting into a leaf\<close>

lemma leaf_ok_insert:
  assumes "leaf_ok h lo hi (a @ b)" "length key = klen h" "rid_ok r" "lbd lo' (krank h key)" "ubd hi (krank h key)"
    "\<And>kv. kv \<in> set (a @ b) \<Longrightarrow> lbd lo' (krank h (fst kv))"
    "\<And>kv. kv \<in> set a \<Longrightarrow> krank h (fst kv) < krank h key" "\<And>kv. kv \<in> set b \<Longrightarrow> krank h key < krank h (fst kv)"
  shows "leaf_ok h lo' hi (a @ (key, r) # b)"
proof -
  have s: "sorted_wrt (<) (map (\<lambda>kv. krank h (fst kv)) (a @ (key, r) # b))"
    using assms(1,7,8) by (auto simp: leaf_ok_def sorted_wrt_append intro: less_trans)
  have "length (fst kv) = klen h \<and> rid_ok (snd kv) \<and> lbd lo' (krank h (fst kv)) \<and> ubd hi (krank h (fst kv))"
    if "kv \<in> set (a @ (key, r) # b)" for kv
  proof (cases "kv = (key, r)")
    case False
    then have "kv \<in> set (a @ b)" using that by auto
    then show ?thesis using leaf_okD [OF assms(1)] assms(6) by blast
  qed (use assms(2-5) in simp)
  then show ?thesis using s by (simp only: leaf_ok_def) blast
qed

lemma map_of_insert_mid:
  "key \<notin> fst ` set (xs @ ys) \<Longrightarrow> map_of (xs @ (key, r) # ys) = (map_of (xs @ ys))(key \<mapsto> r)"
proof -
  assume k: "key \<notin> fst ` set (xs @ ys)"
  then have "map_of xs key = None" by (auto simp: map_of_eq_None_iff)
  then show ?thesis by (auto simp: fun_eq_iff map_add_def split: option.split)
qed

lemma nd_size_length: "nd_ok h d \<Longrightarrow> nd_get_size d = int (length (nd_keys h d))"
  by (simp add: nd_ok_def)

lemma leaf_nd_insert:
  assumes h: "hdr_ok h" and d: "nd_ok h d" "nd_sorted h d" "nd_keys h d = map fst kvs" "nd_rids h d = map snd kvs"
    and room: "int (length kvs) < ix_order h" and key: "length key = klen h" "rid_ok r" "key \<notin> fst ` set kvs"
  obtains d' a b where "nd_insert h d key r = Inr d'" "nd_ok h d'" "same_links d d'" "nd_get_size d = int (length kvs)"
    "nd_get_size d' = int (length kvs + 1)" "kvs = a @ b"
    "nd_keys h d' = map fst (a @ (key, r) # b)" "nd_rids h d' = map snd (a @ (key, r) # b)"
    "\<And>kv. kv \<in> set a \<Longrightarrow> krank h (fst kv) < krank h key" "\<And>kv. kv \<in> set b \<Longrightarrow> krank h key < krank h (fst kv)"
proof -
  have dm: "ix_dims h" and ex: "ix_exact h" using h by (simp_all add: hdr_ok_def)
  have sz: "nd_get_size d = int (length kvs)" using nd_size_length [OF d(1)] d(3) by simp
  have new: "key \<notin> set (nd_keys h d)" and rm: "nd_get_size d < ix_order h" using key(3) d(3) room sz by simp_all
  obtain d' lo hi where i: "nd_insert h d key r = Inr d'" "nd_ok h d'" "nd_sorted h d'" "same_links d d'"
    "nd_get_size d' = nd_get_size d + 1" "nd_keys h d = lo @ hi" "nd_keys h d' = lo @ [key] @ hi"
    "nd_rids h d' = take (length lo) (nd_rids h d) @ [r] @ drop (length lo) (nd_rids h d)"
    "\<And>k. k \<in> set lo \<Longrightarrow> krank h k < krank h key" "\<And>k. k \<in> set hi \<Longrightarrow> krank h key < krank h k"
    by (rule nd_insert_lists [OF dm ex d(1,2) rm key(1,2) new]) blast
  let ?a = "take (length lo) kvs" and ?b = "drop (length lo) kvs"
  have lh: "lo = map fst ?a" "hi = map fst ?b" using i(6) d(3) by (metis append_eq_conv_conj take_map drop_map)+
  show ?thesis
  proof (rule that [OF i(1,2,4) sz])
    show "nd_get_size d' = int (length kvs + 1)" using i(5) sz by simp
    show "kvs = ?a @ ?b" by simp
    show "nd_keys h d' = map fst (?a @ (key, r) # ?b)" unfolding i(7) map_append list.map fst_conv lh [symmetric] by simp
    show "nd_rids h d' = map snd (?a @ (key, r) # ?b)" using i(8) d(4) by (simp add: take_map drop_map)
    show "krank h (fst kv) < krank h key" if "kv \<in> set ?a" for kv
    proof -
      have "fst kv \<in> set (map fst ?a)" using that by simp
      then show ?thesis unfolding lh(1) [symmetric] by (rule i(9))
    qed
    show "krank h key < krank h (fst kv)" if "kv \<in> set ?b" for kv
    proof -
      have "fst kv \<in> set (map fst ?b)" using that by simp
      then show ?thesis unfolding lh(2) [symmetric] by (rule i(10))
    qed
  qed
qed

lemma mfix_frames: "map fst (mfix f c) = map fst c"
  by (induction f c rule: mfix.induct) simp_all

lemma mfix_page: "bt_page (plug t (mfix f c)) = bt_page (plug t c)"
proof (cases "c = []")
  case False
  have "fst (last (mfix f c)) = fst (last c)"
    using last_map [of "mfix f c" fst] last_map [of c fst] False mfix_frames [of f c] by simp
  then show ?thesis using False by (simp add: bt_page_plug)
qed simp

text \<open>What changes on the way from one position to another with the same frames.\<close>

definition same_place :: "ix_file_hdr \<Rightarrow> frame list \<Rightarrow> frame list \<Rightarrow> bool" where
  "same_place h c c' \<longleftrightarrow> hi_of h c' = hi_of h c \<and> (left_of entries c' = left_of entries c \<and> left_of leaf_pages c' = left_of leaf_pages c) \<and>
     (right_of entries c' = right_of entries c \<and> right_of leaf_pages c' = right_of leaf_pages c) \<and>
     ctx_pages c' = ctx_pages c \<and> length c' = length c \<and> ctx_par c' = ctx_par c \<and> (\<forall>m. top_min h c' m = top_min h c m) \<and>
     (\<forall>t. bt_page (plug t c') = bt_page (plug t c))"

lemma same_place_refl: "same_place h c c"
  by (simp add: same_place_def)

lemma same_place_mfix: "same_place h c (mfix f c)"
  by (simp add: same_place_def mfix_page)

lemma leaf_maintain:
  assumes h: "hdr_ok h" and g: "geo h (ih_hdr s)" and c: "ctx_ok h 0 c" "routes h key c" "rep_ctx h (ih_pages s) p c" "length c < k"
    and dst: "distinct (ctx_pages c)" "p \<notin> set (ctx_pages c)" "IX_NO_PAGE \<notin> set (ctx_pages c)"
    and d: "ih_pages s p = Some d" "nd_ok h d" "nd_parent d = ctx_par c" "nd_keys h d = map fst (a @ (key, r) # b)"
    and lf: "leaf_ok h (lo_of h c) (hi_of h c) (a @ b)" and key: "length key = klen h" "rid_ok r"
    and ord: "\<And>kv. kv \<in> set a \<Longrightarrow> krank h (fst kv) < krank h key" "\<And>kv. kv \<in> set b \<Longrightarrow> krank h key < krank h (fst kv)"
  obtains s' c' where "(if nd_key_is h d 0 key then maintain_parent k p else ix_ret ()) s = Some (Inr (), s')" "same_place h c c'"
    "ctx_ok h 0 c'" "leaf_ok h (lo_of h c') (hi_of h c') (a @ (key, r) # b)" "rep_ctx h (ih_pages s') p c'" "ih_pages s' p = Some d"
    "ih_hdr s' = ih_hdr s" "ih_next s' = ih_next s" "links_kept N (ih_pages s) (ih_pages s')"
proof -
  have ub: "ubd (hi_of h c) (krank h key)" by (rule routes_hi [OF c(2)])
  have ne: "nd_keys h d \<noteq> []" by (simp add: d(4))
  have k0: "nd_get_key h d 0 = hd (nd_keys h d)" by (rule nd_get_key_hd [OF ne])
  show ?thesis
  proof (cases a)
    case Nil
    have hk: "hd (nd_keys h d) = key" using d(4) Nil by simp
    have is_key: "nd_key_is h d 0 key" using key(1) by (simp add: nd_key_is_def k0 hk memcmp_zero)
    obtain s' where s': "maintain_loop k True p s = Some (Inr (), s')" "ih_hdr s' = ih_hdr s" "ih_next s' = ih_next s"
      "rep_ctx h (ih_pages s') p (mfix key c)" "only_pages (set (map fst c)) s s'" "links_kept N (ih_pages s) (ih_pages s')"
      using maintain_loop_rep [OF h g c(1,3) dst d(1-3) ne c(4), of True N] hk by auto
    have "p \<notin> set (map fst c)" using dst(2) frame_pages [of c] by blast
    then have pd: "ih_pages s' p = Some d" using s'(5) d(1) by (simp add: only_pages_def)
    have ok: "ctx_ok h 0 (mfix key c)" by (rule mfix_ok [OF c(1) routes_low [OF c(2)] ub key(1)])
    have "lbd (lo_of h (mfix key c)) x" if "krank h key \<le> x" for x using that by (cases "c = []") (simp_all add: lo_of_mfix)
    then have "leaf_ok h (lo_of h (mfix key c)) (hi_of h (mfix key c)) ([] @ (key, r) # b)"
      using lf Nil ub key ord(2) by (intro leaf_ok_insert [of h "lo_of h c"]) (auto simp: less_imp_le)
    then show ?thesis
      using that [OF _ same_place_mfix ok _ s'(4) pd s'(2,3,6)] s'(1) is_key Nil by (simp add: maintain_parent_def)
  next
    case (Cons kv a')
    have "fst kv \<noteq> key" using ord(1) [of kv] Cons by auto
    moreover have "length (fst kv) = klen h" using leaf_okD(1) [OF lf, of kv] Cons by simp
    ultimately have nk: "\<not> nd_key_is h d 0 key" using key(1) d(4) Cons by (simp add: nd_key_is_def k0 memcmp_zero)
    have "lbd (lo_of h c) (krank h (fst kv))" using leaf_okD(3) [OF lf, of kv] Cons by simp
    then have "lbd (lo_of h c) (krank h key)" using ord(1) [of kv] Cons by (auto intro: lbd_mono less_imp_le)
    then have "leaf_ok h (lo_of h c) (hi_of h c) (a @ (key, r) # b)"
      using lf ub key ord leaf_okD(3) [OF lf] by (intro leaf_ok_insert) blast+
    then show ?thesis
      by (intro that [OF _ same_place_refl c(1) _ c(3) d(1) refl refl links_kept_refl]) (simp_all add: nk ix_ret_def)
  qed
qed

section \<open>Inserting an entry\<close>

lemma distinct_leaf_pages: "distinct (bt_pages t) \<Longrightarrow> distinct (leaf_pages t)"
proof (induction t rule: leaf_pages.induct)
  case (2 p cs)
  then show ?case
  proof (induction cs)
    case (Cons a cs)
    have d: "distinct (bt_pages (snd a))" "distinct (bt_pages (Nd p cs))" "set (bt_pages (snd a)) \<inter> set (kids_pages cs) = {}"
      using Cons.prems(2) by auto
    have "distinct (leaf_pages (snd a))" using Cons.prems(1) [of a] d(1) by simp
    moreover have "distinct (leaf_pages (Nd p cs))" by (rule Cons.IH) (use Cons.prems(1) d(2) in auto)
    moreover have "set (leaf_pages (Nd p cs)) \<subseteq> set (kids_pages cs)" using leaf_pages_subset by fastforce
    ultimately show ?case using d(3) leaf_pages_subset [of "snd a"] by auto
  qed simp
qed simp

lemma linked_ends:
  assumes "linked P (x # xs @ [y])" "z \<in> set (x # xs @ [y])"
  shows "\<exists>d. P z = Some d"
  using assms
proof (induction xs arbitrary: x)
  case (Cons a xs)
  then show ?case by (auto simp: linked_Cons2 next_of_def simp del: linked.simps)
qed (auto simp: linked_Cons2 next_of_def prev_of_def simp del: linked.simps)

text \<open>The invariant but for the order and the sizes of nodes, and with the leaf at a position replaced.\<close>

definition ix_shape :: "ix_file_hdr \<Rightarrow> bt \<Rightarrow> ix_handle \<Rightarrow> bool" where
  "ix_shape h t s \<longleftrightarrow> hdr_ok h \<and> geo h (ih_hdr s) \<and> ix_root (ih_hdr s) = bt_page t \<and> rep h (ih_pages s) INVALID_PAGE_ID t \<and>
     distinct (bt_pages t) \<and> (\<forall>p\<in>set (bt_pages t). IX_LEAF_HEADER_PAGE < p \<and> p < ih_next s) \<and>
     (\<exists>d. ih_pages s IX_LEAF_HEADER_PAGE = Some d \<and> length d = PAGE_SIZE) \<and>
     linked (ih_pages s) (IX_LEAF_HEADER_PAGE # leaf_pages t @ [IX_LEAF_HEADER_PAGE]) \<and>
     ix_first_leaf (ih_hdr s) = hd (leaf_pages t) \<and> ix_last_leaf (ih_hdr s) = last (leaf_pages t)"

lemma ix_inv_shape: "ix_inv h n t s \<longleftrightarrow> ix_shape h t s \<and> bt_ok h n (root_min n) None None t"
  unfolding ix_inv_def ix_shape_def by blast

lemma ix_shapeD:
  assumes "ix_shape h t s"
  shows "hdr_ok h" "geo h (ih_hdr s)" "ix_root (ih_hdr s) = bt_page t" "rep h (ih_pages s) INVALID_PAGE_ID t"
    "distinct (bt_pages t)" "\<And>p. p \<in> set (bt_pages t) \<Longrightarrow> IX_LEAF_HEADER_PAGE < p \<and> p < ih_next s"
    "\<exists>d. ih_pages s IX_LEAF_HEADER_PAGE = Some d \<and> length d = PAGE_SIZE"
    "linked (ih_pages s) (IX_LEAF_HEADER_PAGE # leaf_pages t @ [IX_LEAF_HEADER_PAGE])"
    "ix_first_leaf (ih_hdr s) = hd (leaf_pages t)" "ix_last_leaf (ih_hdr s) = last (leaf_pages t)"
  using assms by (simp_all add: ix_shape_def)

lemma ix_shape_leaf:
  assumes inv: "ix_shape h (plug (Lf p kvs) c) s" and pl: "same_place h c c'"
    and rp: "rep_ctx h (ih_pages s') p c'" "rep h (ih_pages s') (ctx_par c') (Lf p kvs')"
    and s': "ih_hdr s' = ih_hdr s" "ih_next s' = ih_next s" "links_kept (ih_next s) (ih_pages s) (ih_pages s')"
  shows "ix_shape h (plug (Lf p kvs') c') s'"
proof -
  note i = ix_shapeD [OF inv] and pl' = pl [unfolded same_place_def]
  let ?t = "plug (Lf p kvs) c" and ?t' = "plug (Lf p kvs') c'"
  have lv: "leaf_pages ?t' = leaf_pages ?t" using pl' by (simp add: leaf_pages_plug)
  have pg: "set (bt_pages ?t') = set (bt_pages ?t)" "distinct (bt_pages ?t') = distinct (bt_pages ?t)"
    using pl' by (simp_all add: set_pages_plug distinct_pages_plug)
  have "rep h (ih_pages s') INVALID_PAGE_ID ?t'" using rp by (simp add: rep_plug)
  moreover have "bt_page ?t' = bt_page ?t" using pl' by (simp add: bt_page_plug)
  moreover have one: "IX_LEAF_HEADER_PAGE < ih_next s" using i(6) [OF bt_page_in] by simp
  moreover have "linked (ih_pages s') (IX_LEAF_HEADER_PAGE # leaf_pages ?t @ [IX_LEAF_HEADER_PAGE])"
    by (rule linked_kept [OF i(8) s'(3)]) (use one i(6) leaf_pages_subset [of ?t] in auto)
  moreover have "\<exists>d. ih_pages s' IX_LEAF_HEADER_PAGE = Some d \<and> length d = PAGE_SIZE"
    using i(7) s'(3) one unfolding links_kept_def by metis
  ultimately show ?thesis unfolding ix_shape_def lv pg using i s' by simp
qed

lemma ix_inv_leaf:
  assumes "ix_shape h (plug (Lf p kvs) c) s" "length c = n" "ctx_ok h 0 c" "fits h (top_min h c 0) (length kvs)" "leaf_ok h (lo_of h c) (hi_of h c) kvs"
  shows "ix_inv h n (plug (Lf p kvs) c) s"
proof -
  have "bt_ok h (0 + length c) (root_min (0 + length c)) None None (plug (Lf p kvs) c)" using assms(3-5) by (simp only: plug_ok) simp
  then show ?thesis using assms(1,2) by (simp add: ix_inv_shape)
qed

lemma rep_page_length: "rep h P par t \<Longrightarrow> x \<in> set (bt_pages t) \<Longrightarrow> \<exists>d. P x = Some d \<and> length d = PAGE_SIZE"
  using nd_ok_length by (induction t arbitrary: par rule: bt_pages.induct) (auto simp: nodep_def)

lemma insert_entry_present:
  assumes inv: "ix_inv h n t s" and key: "length key = klen h" "key \<in> dom (bt_map t)" and k: "n < k"
  shows "\<exists>p s'. insert_entry k key r s = Some (Inr (p, False), s') \<and> ix_inv h n t s' \<and> same_store s s'"
proof -
  obtain p kvs c s1 d where f: "find_leaf_page k key s = Some (Inr p, s1)" "same_store s s1" "t = plug (Lf p kvs) c" "routes h key c"
    "ctx_ok h 0 c" "ih_pages s p = Some d" "nd_ok h d" "nd_keys h d = map fst kvs" "nd_rids h d = map snd kvs" "nd_sorted h d"
    by (rule find_leaf_page_rep [OF inv key(1) k])
  note i = ix_invD [OF inv] and s1 = same_storeD [OF f(2)]
  have h: "ix_dims h" "ix_exact h" using i(1) by (simp_all add: hdr_ok_def)
  have "bt_map (Lf p kvs) key = bt_map t key" using routes_map [OF f(5,4)] f(3) by simp
  then have "key \<in> dom (map_of kvs)" using key(2) by (simp add: bt_map_def dom_def)
  then have "key \<in> set (nd_keys h d)" using f(8) by (auto simp: dom_map_of_conv_image_fst)
  then have ins: "nd_insert h d key r = Inr d" by (rule nd_insert_present [OF h f(7,10) key(1)])
  have "(ih_pages s)(p \<mapsto> d) = ih_pages s" using f(6) by auto
  then have "\<exists>s'. insert_entry k key r s = Some (Inr (p, False), s') \<and> same_store s s'"
    using f(1,6) s1 ins geo_simps(16) [OF i(2)] by (simp add: insert_entry_def ix_prims same_storeI)
  then show ?thesis using ix_inv_same_store [OF inv] by blast
qed

text \<open>A full leaf: split, insertion of the new leaf into the parent, and the pointer to the last leaf.\<close>

definition set_last :: "int \<Rightarrow> int \<Rightarrow> unit ixm" where
  "set_last p q = ix_bind ix_hdr (\<lambda>h'. ix_bind (if ix_last_leaf h' = p then ix_set_hdr (h'\<lparr>ix_last_leaf := q\<rparr>) else ix_ret ()) (\<lambda>_. unpin_node q))"

lemma leaf_split_pre:
  assumes inv: "ix_shape h (plug (Lf p kvs) c) s" and ok: "ctx_ok h 0 c" "leaf_ok h (lo_of h c) (hi_of h c) kvs"
    and len: "int (length kvs) = ix_order h" and nb: "ih_next s + int (length c) < 2 ^ 31 - 2"
  obtains s' e A B where "split p s = Some (Inr (ih_next s), s')" "kvs = A @ B" "up_pre h 0 s' c (Lf p A) (fst (hd B)) (Lf (ih_next s) B)"
    "ih_pages s' (ih_next s) = Some e" "nd_get_key h e 0 = fst (hd B)" "ih_hdr s' = bump (ih_hdr s)" "ih_next s' = ih_next s + 1"
    "linked (ih_pages s') (IX_LEAF_HEADER_PAGE # (left_of leaf_pages c @ [p, ih_next s] @ right_of leaf_pages c) @ [IX_LEAF_HEADER_PAGE])"
    "\<exists>d. ih_pages s' IX_LEAF_HEADER_PAGE = Some d \<and> length d = PAGE_SIZE"
proof -
  note i = ix_shapeD [OF inv]
  let ?q = "ih_next s" and ?t = "plug (Lf p kvs) c" and ?H = IX_LEAF_HEADER_PAGE
  let ?L = "left_of leaf_pages c" and ?R = "right_of leaf_pages c"
  define mid where "mid = length kvs div 2"
  define A where "A = take mid kvs"
  define B where "B = drop mid kvs"
  have AB: "kvs = A @ B" by (simp add: A_def B_def)
  have lp: "leaf_pages ?t = ?L @ p # ?R" by (simp add: leaf_pages_plug)
  have rp: "rep_ctx h (ih_pages s) p c" "rep h (ih_pages s) (ctx_par c) (Lf p kvs)" using i(4) by (simp_all add: rep_plug)
  obtain d where d: "ih_pages s p = Some d" "nd_ok h d" "nd_is_leaf d" "nd_parent d = ctx_par c" "nd_keys h d = map fst kvs" "nd_rids h d = map snd kvs"
    using rp(2) by (auto simp: nodep_def)
  have dst: "p \<notin> set (ctx_pages c)" "distinct (ctx_pages c)" using i(5) by (simp_all add: distinct_pages_plug)
  have bd: "?H < x \<and> x < ?q" if "x = p \<or> x \<in> set (ctx_pages c)" for x using i(6) [of x] that by (auto simp: set_pages_plug)
  have dl: "distinct (?L @ p # ?R)" using distinct_leaf_pages [OF i(5)] by (simp add: lp)
  have bl: "?H < x \<and> x < ?q" if "x \<in> set (?L @ p # ?R)" for x using i(6) [of x] leaf_pages_subset [of ?t] that by (auto simp: lp)
  obtain nx ys where nx: "?R @ [?H] = nx # ys" by (cases "?R @ [?H]") auto
  have lk: "linked (ih_pages s) ((?H # ?L) @ p # nx # ys)" using i(8) lp nx by simp
  then have "next_of (ih_pages s) p = Some nx" "prev_of (ih_pages s) nx = Some p"
    using linked_append [of "ih_pages s" "?H # ?L" p "nx # ys"] by (simp_all add: linked_Cons2 del: linked.simps)
  then have dnx: "nd_next_leaf d = nx" using d(1) by (simp add: next_of_def)
  have inx: "nx = ?H \<or> nx \<in> set ?R" using arg_cong [OF nx, of hd] by (cases ?R) auto
  obtain dn where dn: "ih_pages s nx = Some dn" "length dn = PAGE_SIZE"
    using inx i(7) rep_page_length [OF i(4), of nx] leaf_pages_subset [of ?t] by (auto simp: lp)
  have ne: "nx \<noteq> p" "nx \<noteq> ?q" "p \<noteq> ?q" "?H \<noteq> ?q" using inx dl bl [of nx] bd [of p] by auto
  have "?H = 1" by (simp add: IX_LEAF_HEADER_PAGE_def)
  then have rg: "int_range ?q" "int_range p" and nq: "int_range (?q + 1)" using nb bd [of p] by (auto simp: int_range_def)
  have mm: "mid = length (nd_keys h d) div 2" unfolding d(5) mid_def by simp
  obtain s' d' e where sp: "split p s = Some (Inr ?q, s')" "ih_hdr s' = bump (ih_hdr s)" "ih_next s' = ?q + 1" "ih_fd s' = ih_fd s"
    "ih_pages s' = (ih_pages s)(p \<mapsto> d', ?q \<mapsto> e, nx \<mapsto> nd_set_prev_leaf dn ?q)"
    "nd_ok h d'" "nd_is_leaf d'" "nd_parent d' = nd_parent d" "nd_keys h d' = take mid (nd_keys h d)" "nd_rids h d' = take mid (nd_rids h d)"
    "nd_prev_leaf d' = nd_prev_leaf d" "nd_next_leaf d' = ?q"
    "nd_ok h e" "nd_is_leaf e" "nd_parent e = nd_parent d" "nd_keys h e = drop mid (nd_keys h d)" "nd_rids h e = drop mid (nd_rids h d)"
    "nd_prev_leaf e = p" "nd_next_leaf e = nx"
    by (rule split_leaf_rep [OF i(1,2) d(1-3) dnx dn refl rg ne(3,1,2) mm nq])
  have P': "ih_pages s' p = Some d'" "ih_pages s' ?q = Some e" "ih_pages s' nx = Some (nd_set_prev_leaf dn ?q)"
    "\<And>x. x \<noteq> p \<Longrightarrow> x \<noteq> ?q \<Longrightarrow> x \<noteq> nx \<Longrightarrow> ih_pages s' x = ih_pages s x" using ne by (simp_all add: sp(5))
  have rc: "rep_ctx h (ih_pages s') p c"
  proof (rule rep_ctx_relink [OF rp(1)])
    fix x assume "x \<in> set (ctx_pages c)"
    then have "x \<noteq> p" "x \<noteq> ?q" using dst(1) bd [of x] by auto
    then show "node_eq (ih_pages s) (ih_pages s') x" using P'(3,4) dn by (cases "x = nx") (auto simp: node_eq_def)
  qed
  have rA: "rep h (ih_pages s') (ctx_par c) (Lf p A)" using P'(1) sp(6-10) d(4-6) by (simp add: nodep_def A_def take_map)
  have rB: "rep h (ih_pages s') (ctx_par c) (Lf ?q B)" using P'(2) sp(13-17) d(4-6) by (simp add: nodep_def B_def drop_map)
  have ms: "2 \<le> minsz h" and o: "4 \<le> ix_order h" using minsz_pos [OF i(1)] i(1) by (simp_all add: hdr_ok_def)
  have lAB: "length A = minsz h" "length B = length kvs - minsz h" using len by (auto simp: A_def B_def mid_def minsz_def nat_div_distrib)
  then obtain b B' where B: "B = b # B'" using len o by (cases B) (auto simp: minsz_def)
  have lf: "leaf_ok h (lo_of h c) (Some (krank h (fst b))) A" "leaf_ok h (Some (krank h (fst b))) (hi_of h c) B"
    using ok(2) unfolding AB B by (auto simp: leaf_ok_def sorted_wrt_append less_imp_le)
  have ft: "fits h (minsz h) (length A)" "fits h (minsz h) (length B)" unfolding fits_def lAB using len o ms by (auto simp: minsz_def)
  have pre: "up_pre h 0 s' c (Lf p A) (fst (hd B)) (Lf ?q B)"
    unfolding up_pre_def
  proof (intro conjI)
    show "distinct (bt_pages (Lf p A) @ bt_pages (Lf ?q B) @ ctx_pages c)" using dst ne bd [of ?q] by auto
    show "\<forall>x\<in>set (bt_pages (Lf p A) @ bt_pages (Lf ?q B) @ ctx_pages c). 0 \<le> x \<and> x < ih_next s'"
      using bd sp(3) \<open>?H = 1\<close> by fastforce
    show "ix_root (ih_hdr s') = bt_page (plug (Lf p A) c)" using i(3) sp(2) by (simp add: bt_page_plug)
    show "ih_next s' + int (length c) < 2 ^ 31 - 1" using nb sp(3) by simp
  qed (use i(2) sp(2) ok(1) lf ft rc rA rB B in \<open>simp_all add: bt_first_def\<close>)
  have "linked (ih_pages s') ((?H # ?L) @ p # ?q # nx # ys)"
  proof (rule linked_insert [OF lk])
    have hl: "?H \<notin> set (?L @ p # ?R)" using bl by blast
    have "?q \<notin> set (?H # ?L @ p # ?R @ [?H])" using ne(4) bl [of ?q] by auto
    then show "?q \<notin> set ((?H # ?L) @ p # nx # ys)" using nx by simp
    show "p \<notin> set (?H # ?L)" using dl hl by auto
    have "butlast (nx # ys) = ?R" unfolding nx [symmetric] by simp
    then show "p \<notin> set (butlast (nx # ys))" using dl by simp
    show "nx \<notin> set (tl ((?H # ?L) @ [p]))" using inx hl dl by auto
    show "nx \<notin> set ys" using nx hl dl by (cases ?R) auto
    show "next_of (ih_pages s') p = Some ?q" "next_of (ih_pages s') ?q = Some nx" "prev_of (ih_pages s') ?q = Some p" "prev_of (ih_pages s') nx = Some ?q"
      using P'(1-3) sp(12,18,19) dn(2) rg(1) by (simp_all add: next_of_def prev_of_def link_simps)
    show "next_of (ih_pages s') x = next_of (ih_pages s) x" if "x \<noteq> p" "x \<noteq> ?q" for x
      using that P'(3,4) dn by (cases "x = nx") (simp_all add: next_of_def link_simps)
    show "prev_of (ih_pages s') x = prev_of (ih_pages s) x" if "x \<noteq> nx" "x \<noteq> ?q" for x
      using that P'(1,4) d(1) sp(11) by (cases "x = p") (simp_all add: prev_of_def)
  qed
  then have lk': "linked (ih_pages s') (?H # (?L @ [p, ?q] @ ?R) @ [?H])" using nx by simp
  have "\<exists>d. ih_pages s' ?H = Some d \<and> length d = PAGE_SIZE"
  proof (cases "?H = nx")
    case True
    then show ?thesis using P'(3) dn(2) by (simp add: link_simps)
  next
    case False
    then show ?thesis using P'(4) [of ?H] i(7) ne bd [of p] by auto
  qed
  moreover have "nd_get_key h e 0 = fst (hd B)"
  proof -
    have ke: "nd_keys h e = map fst B" using sp(16) d(5) by (simp add: B_def drop_map)
    then show ?thesis using nd_get_key_hd [of h e] B by simp
  qed
  ultimately show ?thesis by (intro that [OF sp(1) AB pre P'(2) _ sp(2,3) lk'])
qed

lemma leaf_split_rep:
  assumes inv: "ix_shape h (plug (Lf p kvs) c) s" and ok: "ctx_ok h 0 c" "leaf_ok h (lo_of h c) (hi_of h c) kvs"
    and len: "int (length kvs) = ix_order h" and nb: "ih_next s + int (length c) < 2 ^ 31 - 2" and k: "length c < k"
  obtains s' t n' where
    "ix_bind (split p) (\<lambda>q. ix_bind (node_page q) (\<lambda>dq. ix_bind (insert_into_parent k p (nd_get_key h dq 0) q) (\<lambda>_. set_last p q))) s = Some (Inr (), s')"
    "ix_inv h n' t s'" "n' \<le> Suc (length c)" "entries t = entries (plug (Lf p kvs) c)" "ih_next s' \<le> ih_next s + int (length c) + 2"
proof -
  note i = ix_shapeD [OF inv]
  let ?q = "ih_next s" and ?H = IX_LEAF_HEADER_PAGE
  let ?L = "left_of leaf_pages c" and ?R = "right_of leaf_pages c"
  obtain s1 e A B where sp: "split p s = Some (Inr ?q, s1)" "kvs = A @ B" "up_pre h 0 s1 c (Lf p A) (fst (hd B)) (Lf ?q B)"
    "ih_pages s1 ?q = Some e" "nd_get_key h e 0 = fst (hd B)" "ih_hdr s1 = bump (ih_hdr s)" "ih_next s1 = ?q + 1"
    "linked (ih_pages s1) (?H # (?L @ [p, ?q] @ ?R) @ [?H])" "\<exists>d. ih_pages s1 ?H = Some d \<and> length d = PAGE_SIZE"
    by (rule leaf_split_pre [OF inv ok len nb])
  obtain s2 where s2: "insert_into_parent k p (fst (hd B)) ?q s1 = Some (Inr (), s2)" "up_post h 0 s1 c (Lf p A) (Lf ?q B) s2"
    using insert_into_parent_rep [OF i(1) sp(3) k] by auto
  obtain t n' where t: "geo h (ih_hdr s2)" "ix_first_leaf (ih_hdr s2) = ix_first_leaf (ih_hdr s1)" "ix_last_leaf (ih_hdr s2) = ix_last_leaf (ih_hdr s1)"
    "ix_root (ih_hdr s2) = bt_page t" "rep h (ih_pages s2) INVALID_PAGE_ID t" "bt_ok h n' (root_min n') None None t" "n' \<le> Suc (0 + length c)"
    "entries t = left_of entries c @ entries (Lf p A) @ entries (Lf ?q B) @ right_of entries c"
    "leaf_pages t = ?L @ leaf_pages (Lf p A) @ leaf_pages (Lf ?q B) @ ?R" "distinct (bt_pages t)"
    "set (bt_pages t) \<subseteq> set (bt_pages (Lf p A) @ bt_pages (Lf ?q B) @ ctx_pages c) \<union> {ih_next s1..<ih_next s2}"
    "ih_next s1 \<le> ih_next s2" "ih_next s2 \<le> ih_next s1 + int (length c) + 1" "links_kept (ih_next s1) (ih_pages s1) (ih_pages s2)"
    using s2(2) unfolding up_post_def by blast
  have lp: "leaf_pages (plug (Lf p kvs) c) = ?L @ p # ?R" by (simp add: leaf_pages_plug)
  have dl: "distinct (?L @ p # ?R)" using distinct_leaf_pages [OF i(5)] by (simp add: lp)
  have bd: "?H < x \<and> x < ?q" if "x = p \<or> x \<in> set (ctx_pages c)" for x using i(6) [of x] that by (auto simp: set_pages_plug)
  have H: "?H < ?q" using bd [of p] by simp
  have pgs: "?H < x \<and> x < ih_next s2" if "x \<in> set (bt_pages t)" for x
  proof -
    have "x = ?q \<or> (x = p \<or> x \<in> set (ctx_pages c)) \<or> (ih_next s1 \<le> x \<and> x < ih_next s2)" using t(11) that by auto
    then show ?thesis using bd [of x] H sp(7) t(12) by auto
  qed
  have lk: "linked (ih_pages s2) (?H # leaf_pages t @ [?H])"
  proof (rule linked_kept [OF _ t(14)])
    show "linked (ih_pages s1) (?H # leaf_pages t @ [?H])" using sp(8) t(9) by simp
    fix x assume "x \<in> set (?H # leaf_pages t @ [?H])"
    then have "x = ?H \<or> x = ?q \<or> x \<in> set (?L @ p # ?R)" using t(9) by auto
    then show "x < ih_next s1" using H sp(7) i(6) [of x] leaf_pages_subset [of "plug (Lf p kvs) c"] lp by auto
  qed
  have hd: "hd (leaf_pages t) = hd (?L @ p # ?R)" using t(9) by (cases ?L) simp_all
  have lst: "last (leaf_pages t) = (if last (?L @ p # ?R) = p then ?q else last (?L @ p # ?R))"
    using t(9) dl last_in_set [of ?R] by (cases "?R = []") auto
  define hx where "hx = (if ix_last_leaf (ih_hdr s2) = p then (ih_hdr s2)\<lparr>ix_last_leaf := ?q\<rparr> else ih_hdr s2)"
  define s3 where "s3 = s2\<lparr>ih_hdr := hx\<rparr>"
  have run: "ix_bind (split p) (\<lambda>q. ix_bind (node_page q) (\<lambda>dq. ix_bind (insert_into_parent k p (nd_get_key h dq 0) q) (\<lambda>_. set_last p q))) s =
      unpin_node ?q s3"
    using sp(1,4,5) s2(1) by (simp add: ix_bind_def node_page_def set_last_def ix_prims s3_def hx_def)
  have hx: "geo h hx" "ix_root hx = bt_page t" "ix_first_leaf hx = hd (leaf_pages t)" "ix_last_leaf hx = last (leaf_pages t)"
    using t(1-4) sp(6) i(9,10) lp hd lst by (auto simp: hx_def)
  have "\<exists>d. ih_pages s2 ?H = Some d \<and> length d = PAGE_SIZE" using sp(9) t(14) H sp(7) unfolding links_kept_def by (metis zless_add1_eq)
  then have inv': "ix_inv h n' t s3" unfolding ix_inv_def using i(1) hx t(5,6,10) pgs lk by (simp add: s3_def)
  show ?thesis
  proof (rule that)
    show "ix_bind (split p) (\<lambda>q. ix_bind (node_page q) (\<lambda>dq. ix_bind (insert_into_parent k p (nd_get_key h dq 0) q) (\<lambda>_. set_last p q))) s =
      Some (Inr (), snd (the (unpin_node ?q s3)))" unfolding run by (simp add: unpin_node_def)
    show "ix_inv h n' t (snd (the (unpin_node ?q s3)))" by (rule ix_inv_same_store [OF inv']) (simp add: unpin_node_def same_store_def)
    show "entries t = entries (plug (Lf p kvs) c)" using t(8) sp(2) by (simp add: entries_plug)
    show "n' \<le> Suc (length c)" using t(7) by simp
    show "ih_next (snd (the (unpin_node ?q s3))) \<le> ?q + int (length c) + 2" using t(13) sp(7) by (simp add: unpin_node_def s3_def)
  qed
qed

lemma insert_entry_steps:
  assumes "find_leaf_page k key s = Some (Inr p, s1)" "ih_pages s1 p = Some d" "geo h (ih_hdr s1)"
    "nd_insert h d key r = Inr d'" "nd_get_size d' \<noteq> nd_get_size d"
    "(if nd_key_is h d' 0 key then maintain_parent k p else ix_ret ()) (s1\<lparr>ih_pages := (ih_pages s1)(p \<mapsto> d')\<rparr>) = Some (Inr (), s2)"
    "(if nd_get_size d' = ix_order h
      then ix_bind (split p) (\<lambda>q. ix_bind (node_page q) (\<lambda>dq. ix_bind (insert_into_parent k p (nd_get_key h dq 0) q) (\<lambda>_. set_last p q)))
      else ix_ret ()) s2 = Some (Inr (), s3)"
  shows "insert_entry k key r s = Some (Inr (p, True), snd (the (unpin_node p s3)))"
proof -
  note g = geo_simps [OF assms(3)]
  have "insert_entry k key r s =
    ix_bind (if nd_key_is h d' 0 key then maintain_parent k p else ix_ret ()) (\<lambda>_.
    ix_bind (if nd_get_size d' = ix_order h
      then ix_bind (split p) (\<lambda>q. ix_bind (node_page q) (\<lambda>dq. ix_bind (insert_into_parent k p (nd_get_key h dq 0) q) (\<lambda>_. set_last p q)))
      else ix_ret ()) (\<lambda>_. ix_bind (unpin_node p) (\<lambda>_. ix_ret (p, True)))) (s1\<lparr>ih_pages := (ih_pages s1)(p \<mapsto> d')\<rparr>)"
    using assms(1,2,4,5) g(1,4,11,16) unfolding insert_entry_def set_last_def ix_bind_def [of "find_leaf_page k key"]
    by (simp add: ix_steps)
  then show ?thesis using assms(6,7) by (simp add: ix_bind_def ix_ret_def unpin_node_def)
qed

lemma insert_entry_absent:
  assumes inv: "ix_inv h n t s" and key: "length key = klen h" "rid_ok r" "key \<notin> dom (bt_map t)" and k: "n < k"
    and nb: "ih_next s + int n < 2 ^ 31 - 2"
  shows "\<exists>p s' t' n'. insert_entry k key r s = Some (Inr (p, True), s') \<and> ix_inv h n' t' s' \<and> bt_map t' = (bt_map t)(key \<mapsto> r) \<and>
    n' \<le> Suc n \<and> ih_next s' \<le> ih_next s + int n + 2"
proof -
  obtain p kvs c s1 d where f: "find_leaf_page k key s = Some (Inr p, s1)" "same_store s s1" "t = plug (Lf p kvs) c" "routes h key c"
    "length c = n" "ctx_ok h 0 c" "fits h (top_min h c 0) (length kvs)" "leaf_ok h (lo_of h c) (hi_of h c) kvs"
    "ih_pages s p = Some d" "nd_ok h d" "nd_is_leaf d" "nd_keys h d = map fst kvs" "nd_rids h d = map snd kvs" "nd_sorted h d" "nd_parent d = ctx_par c"
    by (rule find_leaf_page_rep [OF inv key(1) k])
  note i = ix_invD [OF inv] and s1 = same_storeD [OF f(2)]
  have "bt_map (Lf p kvs) key = bt_map t key" using routes_map [OF f(6,4)] f(3) by simp
  then have "map_of kvs key = None" using key(3) by (simp add: bt_map_def domIff)
  then have new: "key \<notin> fst ` set kvs" by (simp add: map_of_eq_None_iff)
  have room: "int (length kvs) < ix_order h" using f(7) by (simp add: fits_def)
  obtain d' a b where ins: "nd_insert h d key r = Inr d'" "nd_ok h d'" "same_links d d'" "nd_get_size d = int (length kvs)"
    "nd_get_size d' = int (length kvs + 1)" "kvs = a @ b"
    "nd_keys h d' = map fst (a @ (key, r) # b)" "nd_rids h d' = map snd (a @ (key, r) # b)"
    "\<And>kv. kv \<in> set a \<Longrightarrow> krank h (fst kv) < krank h key" "\<And>kv. kv \<in> set b \<Longrightarrow> krank h key < krank h (fst kv)"
    by (rule leaf_nd_insert [OF i(1) f(10,14,12,13) room key(1,2) new]) blast
  let ?kvs = "a @ (key, r) # b"
  define sA where "sA = s1\<lparr>ih_pages := (ih_pages s1)(p \<mapsto> d')\<rparr>"
  have sA: "ih_pages sA = (ih_pages s)(p \<mapsto> d')" "ih_hdr sA = ih_hdr s" "ih_next sA = ih_next s" using s1 by (simp_all add: sA_def)
  have dst: "p \<notin> set (ctx_pages c)" "distinct (ctx_pages c)" using i(6) by (simp_all add: f(3) distinct_pages_plug)
  have npg: "IX_NO_PAGE \<notin> set (ctx_pages c)" using i(7) [of IX_NO_PAGE] by (auto simp: f(3) set_pages_plug ix_consts)
  have "rep_ctx h (ih_pages s) p c" using i(4) by (simp add: f(3) rep_plug)
  then have rcA: "rep_ctx h (ih_pages sA) p c" by (rule rep_ctx_keep) (use dst(1) in \<open>auto simp: sA\<close>)
  obtain s2 c' where m: "(if nd_key_is h d' 0 key then maintain_parent k p else ix_ret ()) sA = Some (Inr (), s2)" "same_place h c c'"
    "ctx_ok h 0 c'" "leaf_ok h (lo_of h c') (hi_of h c') ?kvs" "rep_ctx h (ih_pages s2) p c'" "ih_pages s2 p = Some d'"
    "ih_hdr s2 = ih_hdr sA" "ih_next s2 = ih_next sA" "links_kept (ih_next s) (ih_pages sA) (ih_pages s2)"
    by (rule leaf_maintain [OF i(1) _ f(6,4) rcA _ dst(2,1) npg _ ins(2) _ ins(7) _ key(1,2) ins(9,10), where k = k and N = "ih_next s"])
      (use i(2) f(5,8,15) k ins(3,6) in \<open>auto simp: sA same_links_def\<close>)
  note pl = m(2) [unfolded same_place_def]
  have "links_kept (ih_next s) (ih_pages s) (ih_pages sA)" unfolding sA(1)
    by (rule links_kept_upd [OF links_kept_refl, where d = d])
      (use f(9) ins(3) nd_ok_length [OF f(10)] nd_ok_length [OF ins(2)] in \<open>simp_all add: same_links_def\<close>)
  from links_kept_trans [OF this m(9) order_refl] have lk: "links_kept (ih_next s) (ih_pages s) (ih_pages s2)" .
  have rl: "rep h (ih_pages s2) (ctx_par c') (Lf p ?kvs)"
    using m(6) ins(2,3,7,8) f(11,15) pl by (simp add: nodep_def same_links_def)
  have "ix_shape h (plug (Lf p kvs) c) s" using inv by (simp add: ix_inv_shape f(3))
  then have shape: "ix_shape h (plug (Lf p ?kvs) c') s2"
    by (rule ix_shape_leaf [OF _ m(2,5) rl]) (use m(7,8) sA lk in simp_all)
  have mp: "map_of (entries (plug (Lf p ?kvs) c')) = (bt_map t)(key \<mapsto> r)"
  proof -
    let ?l = "left_of entries c @ a" and ?r = "b @ right_of entries c"
    have "entries (plug (Lf p ?kvs) c') = ?l @ (key, r) # ?r" "entries t = ?l @ ?r"
      using pl ins(6) by (simp_all add: entries_plug f(3))
    moreover have "key \<notin> fst ` set (?l @ ?r)" using routes_sides [OF f(6,4)] new ins(6) by auto
    ultimately show ?thesis using map_of_insert_mid [of key ?l ?r r] by (simp add: bt_map_def)
  qed
  have steps: "insert_entry k key r s = Some (Inr (p, True), snd (the (unpin_node p s3)))"
    if "(if nd_get_size d' = ix_order h
      then ix_bind (split p) (\<lambda>q. ix_bind (node_page q) (\<lambda>dq. ix_bind (insert_into_parent k p (nd_get_key h dq 0) q) (\<lambda>_. set_last p q)))
      else ix_ret ()) s2 = Some (Inr (), s3)" for s3
    by (rule insert_entry_steps [OF f(1) _ _ ins(1) _ m(1) [unfolded sA_def] that]) (use s1 f(9) i(2) ins(4,5) in simp_all)
  show ?thesis
  proof (cases "nd_get_size d' = ix_order h")
    case True
    obtain s3 t' n' where s3: "ix_bind (split p) (\<lambda>q. ix_bind (node_page q) (\<lambda>dq. ix_bind (insert_into_parent k p (nd_get_key h dq 0) q) (\<lambda>_. set_last p q))) s2 = Some (Inr (), s3)"
      "ix_inv h n' t' s3" "n' \<le> Suc (length c')" "entries t' = entries (plug (Lf p ?kvs) c')" "ih_next s3 \<le> ih_next s2 + int (length c') + 2"
      by (rule leaf_split_rep [OF shape m(3,4), of k]) (use True ins(5,6) nb m(8) sA(3) pl f(5) k in simp_all)
    have "ix_inv h n' t' (snd (the (unpin_node p s3)))" by (rule ix_inv_same_store [OF s3(2)]) (simp add: unpin_node_def same_store_def)
    moreover have "bt_map t' = (bt_map t)(key \<mapsto> r)" using s3(4) mp by (simp add: bt_map_def)
    moreover have "ih_next (snd (the (unpin_node p s3))) \<le> ih_next s + int n + 2" using s3(5) m(8) sA(3) pl f(5) by (simp add: unpin_node_def)
    moreover have "n' \<le> Suc n" using s3(3) pl f(5) by simp
    ultimately show ?thesis using steps [of s3] True s3(1) by auto
  next
    case False
    have "fits h (top_min h c' 0) (length ?kvs)" using f(7) False ins(5,6) pl by (auto simp: fits_def)
    then have "ix_inv h n (plug (Lf p ?kvs) c') s2" using shape m(3,4) pl f(5) by (intro ix_inv_leaf) simp_all
    then have "ix_inv h n (plug (Lf p ?kvs) c') (snd (the (unpin_node p s2)))" by (rule ix_inv_same_store) (simp add: unpin_node_def same_store_def)
    moreover have "ih_next (snd (the (unpin_node p s2))) \<le> ih_next s + int n + 2" using m(8) sA(3) by (simp add: unpin_node_def)
    moreover have "bt_map (plug (Lf p ?kvs) c') = (bt_map t)(key \<mapsto> r)" using mp by (simp add: bt_map_def)
    moreover have "insert_entry k key r s = Some (Inr (p, True), snd (the (unpin_node p s2)))"
      by (rule steps) (simp add: False ix_ret_def)
    ultimately show ?thesis using le_SucI [OF order_refl, of n] by blast
  qed
qed

end
