(* ===== verification/Bt_Siblings.thy ===== *)
theory Bt_Siblings
  imports Bt_Entry
begin

text \<open>
  Two siblings of the B+ tree (\<^verbatim>\<open>redistribute\<close>, \<^verbatim>\<open>coalesce\<close>): one pair moves from a node to its neighbour,
  or all pairs of the right node are appended to the left one and the right one leaves the tree.
\<close>

section \<open>Moving one pair to a sibling\<close>

text \<open>The child that moved gets its new parent; pairs of leaves have no child.\<close>

definition moved :: "bool \<Rightarrow> int \<Rightarrow> int \<Rightarrow> (int \<rightharpoonup> bytes) \<Rightarrow> int \<rightharpoonup> bytes" where
  "moved leaf q x P = (if leaf then P else reparent q {x} P)"

lemma maintain_child_rep:
  assumes "hdr_ok h" "geo h (ih_hdr s)" "ih_pages s q = Some e" "i < length (nd_rids h e)"
    "\<not> nd_is_leaf e \<Longrightarrow> ih_pages s (page_no (nd_rids h e ! i)) \<noteq> None"
  shows "\<exists>s'. maintain_child q (int i) s = Some (Inr (), s') \<and> ih_hdr s' = ih_hdr s \<and> ih_next s' = ih_next s \<and>
    ih_pages s' = moved (nd_is_leaf e) q (page_no (nd_rids h e ! i)) (ih_pages s)"
proof (cases "nd_is_leaf e")
  case True
  then show ?thesis using assms(3) by (simp add: maintain_child_def ix_prims moved_def)
next
  case False
  have dm: "ix_dims h" using assms(1) by (simp add: hdr_ok_def)
  have v: "nd_value_at h e (int i) = page_no (nd_rids h e ! i)" using nd_get_rid_nth [OF dm assms(4)] by (simp add: nd_value_at_def)
  obtain d where d: "ih_pages s (page_no (nd_rids h e ! i)) = Some d" using assms(5) False by auto
  have "reparent q {page_no (nd_rids h e ! i)} (ih_pages s) = (ih_pages s)(page_no (nd_rids h e ! i) \<mapsto> nd_set_parent d q)"
    using d by (auto simp: reparent_def fun_eq_iff)
  then show ?thesis using False d v assms(3) geo_simps(6) [OF assms(2)] by (simp add: maintain_child_def ix_prims Let_def moved_def)
qed

text \<open>\<open>moved_pair\<close>: the pages of two siblings and their parent after a pair was moved.\<close>

lemma nd_append_one:
  assumes dm: "ix_dims h" and ok: "nd_ok h d" and pos: "pos = 0 \<or> pos = nd_get_size d" and room: "nd_get_size d < ix_order h"
    and key: "length key = klen h" and r: "rid_ok r"
  obtains d' where "nd_insert_pairs h d pos key [r] 1 = Inr d'" "nd_ok h d'" "same_links d d'" "nd_get_size d' = nd_get_size d + 1"
    "nd_keys h d' = (if pos = 0 then key # nd_keys h d else nd_keys h d @ [key])"
    "nd_rids h d' = (if pos = 0 then r # nd_rids h d else nd_rids h d @ [r])"
proof -
  have sz: "0 \<le> nd_get_size d" using ok by (simp add: nd_ok_def)
  obtain d' where "nd_insert_pairs h d pos key [r] 1 = Inr d'" "nd_ok h d'" "same_links d d'" "nd_get_size d' = nd_get_size d + int 1"
    "nd_keys h d' = take (nat pos) (nd_keys h d) @ keys_of h 1 key @ drop (nat pos) (nd_keys h d)"
    "nd_rids h d' = take (nat pos) (nd_rids h d) @ [r] @ drop (nat pos) (nd_rids h d)"
    by (rule nd_insert_pairs_lists [OF dm ok, where pos = pos and n = 1 and key = key and rids = "[r]"]) (use pos sz room key r in auto)
  then show ?thesis using pos keys_of_one [OF key] by (intro that [of d']) auto
qed

lemma redistribute_first:
  assumes h: "hdr_ok h" and g: "geo h (ih_hdr s)" and d: "ih_pages s p = Some d" "nd_ok h d" "nd_get_size d < ix_order h"
    and dn: "ih_pages s nb = Some dn" "nd_ok h dn" "nd_is_leaf dn = nd_is_leaf d" "nd_keys h dn = k1 # k2 # ks" "nd_rids h dn = r1 # rs"
    and dp: "ih_pages s par = Some dp" "nd_ok h dp" "1 < length (nd_keys h dp)" and ne: "p \<noteq> nb" "p \<noteq> par" "nb \<noteq> par"
    and kid: "\<not> nd_is_leaf d \<Longrightarrow> ih_pages s (page_no r1) \<noteq> None"
  obtains s' d' dn' dp' where "redistribute nb p par 0 s = Some (Inr (), s')" "ih_hdr s' = ih_hdr s" "ih_next s' = ih_next s"
    "ih_pages s' = moved (nd_is_leaf d) p (page_no r1) ((ih_pages s)(p \<mapsto> d', nb \<mapsto> dn', par \<mapsto> dp'))"
    "nd_ok h d'" "same_links d d'" "nd_keys h d' = nd_keys h d @ [k1]" "nd_rids h d' = nd_rids h d @ [r1]"
    "nd_ok h dn'" "same_links dn dn'" "nd_keys h dn' = k2 # ks" "nd_rids h dn' = rs"
    "nd_ok h dp'" "same_links dp dp'" "nd_keys h dp' = (nd_keys h dp)[1 := k2]" "nd_rids h dp' = nd_rids h dp"
proof -
  have dm: "ix_dims h" using h by (simp add: hdr_ok_def)
  have k0: "nd_get_key h dn 0 = k1" using nd_get_key_hd [of h dn] dn(4) by simp
  have sn: "nd_get_size dn = int (length (nd_keys h dn))" by (rule nd_size_length [OF dn(2)])
  have r0: "nd_get_rid h dn 0 = r1" using nd_get_rid_nth [OF dm, of 0 dn] dn(5) sn dn(4) by simp
  have kl: "length k1 = klen h" "length k2 = klen h" using nd_key_lengths(1) [OF dm dn(2)] dn(4) by auto
  have ro: "rid_ok r1" using nd_rids_ok [of h dn] dn(5) by simp
  obtain d' where d': "nd_insert_pairs h d (nd_get_size d) k1 [r1] 1 = Inr d'" "nd_ok h d'" "same_links d d'" "nd_get_size d' = nd_get_size d + 1"
    "nd_keys h d' = nd_keys h d @ [k1]" "nd_rids h d' = nd_rids h d @ [r1]"
  proof (rule nd_append_one [OF dm d(2) _ d(3) kl(1) ro, of "nd_get_size d"])
    fix d' assume a: "nd_insert_pairs h d (nd_get_size d) k1 [r1] 1 = Inr d'" "nd_ok h d'" "same_links d d'" "nd_get_size d' = nd_get_size d + 1"
      "nd_keys h d' = (if nd_get_size d = 0 then k1 # nd_keys h d else nd_keys h d @ [k1])"
      "nd_rids h d' = (if nd_get_size d = 0 then r1 # nd_rids h d else nd_rids h d @ [r1])"
    moreover have "nd_get_size d = 0 \<Longrightarrow> nd_keys h d = [] \<and> nd_rids h d = []" by (simp add: nd_keys_def nd_rids_def)
    ultimately show thesis by (intro that [of d']) auto
  qed simp
  obtain dn' where dn': "nd_erase_pair h dn 0 = Inr dn'" "nd_ok h dn'" "same_links dn dn'"
    "nd_keys h dn' = take (nat 0) (nd_keys h dn) @ drop (Suc (nat 0)) (nd_keys h dn)"
    "nd_rids h dn' = take (nat 0) (nd_rids h dn) @ drop (Suc (nat 0)) (nd_rids h dn)"
    by (rule nd_erase_pair_lists [OF dm dn(2), of 0]) (use sn dn(4) in auto)
  have kn: "nd_keys h dn' = k2 # ks" "nd_rids h dn' = rs" using dn'(4,5) dn(4,5) by simp_all
  have kn0: "nd_get_key h dn' 0 = k2" using nd_get_key_hd [of h dn'] kn by simp
  let ?dp = "nd_set_key h dp 1 k2"
  note sp = nd_set_key_lists [OF dm dp(2,3) kl(2), unfolded of_nat_1]
  let ?Q = "(ih_pages s)(p \<mapsto> d', nb \<mapsto> dn', par \<mapsto> ?dp)"
  let ?s = "s\<lparr>ih_pages := ?Q\<rparr>"
  define j where "j = length (nd_rids h d)"
  have li: "j < length (nd_rids h d')" "nd_rids h d' ! j = r1" using d'(6) by (simp_all add: nth_append j_def del: length_nd_lists)
  have sz: "nd_get_size d' - 1 = int j" using d'(4) d(2) by (simp add: nd_ok_def j_def)
  note gs = geo_simps [OF g]
  have run: "redistribute nb p par 0 s = maintain_child p (int (j)) ?s"
    using d(1) dn(1) dp(1) ne k0 r0 d'(1) dn'(1) kn0 sz gs(4,5,7,14,17)
    by (simp add: redistribute_def ix_prims)
  have "\<exists>s'. maintain_child p (int (j)) ?s = Some (Inr (), s') \<and> ih_hdr s' = ih_hdr ?s \<and> ih_next s' = ih_next ?s \<and>
    ih_pages s' = moved (nd_is_leaf d') p (page_no (nd_rids h d' ! j)) (ih_pages ?s)"
    by (rule maintain_child_rep [OF h]) (use g ne li(1) d'(3) kid in \<open>auto simp: li(2) same_links_def\<close>)
  then obtain s' where s': "maintain_child p (int (j)) ?s = Some (Inr (), s')" "ih_hdr s' = ih_hdr s" "ih_next s' = ih_next s"
    "ih_pages s' = moved (nd_is_leaf d) p (page_no r1) ?Q" using d'(3) li(2) by (auto simp: same_links_def)
  show ?thesis
    by (rule that [OF _ s'(2-4) d'(2,3,5,6) dn'(2,3) kn sp(1,2,4,5)]) (simp add: run s'(1))
qed

lemma redistribute_last:
  assumes h: "hdr_ok h" and g: "geo h (ih_hdr s)" and d: "ih_pages s p = Some d" "nd_ok h d" "nd_get_size d < ix_order h"
    and dn: "ih_pages s nb = Some dn" "nd_ok h dn" "nd_is_leaf dn = nd_is_leaf d" "nd_keys h dn = ks @ [k1]" "nd_rids h dn = rs @ [r1]"
    and dp: "ih_pages s par = Some dp" "nd_ok h dp" "i < length (nd_keys h dp)" "0 < i" and ne: "p \<noteq> nb" "p \<noteq> par" "nb \<noteq> par"
    and kid: "\<not> nd_is_leaf d \<Longrightarrow> ih_pages s (page_no r1) \<noteq> None"
  obtains s' d' dn' dp' where "redistribute nb p par (int i) s = Some (Inr (), s')" "ih_hdr s' = ih_hdr s" "ih_next s' = ih_next s"
    "ih_pages s' = moved (nd_is_leaf d) p (page_no r1) ((ih_pages s)(p \<mapsto> d', nb \<mapsto> dn', par \<mapsto> dp'))"
    "nd_ok h d'" "same_links d d'" "nd_keys h d' = k1 # nd_keys h d" "nd_rids h d' = r1 # nd_rids h d"
    "nd_ok h dn'" "same_links dn dn'" "nd_keys h dn' = ks" "nd_rids h dn' = rs"
    "nd_ok h dp'" "same_links dp dp'" "nd_keys h dp' = (nd_keys h dp)[i := k1]" "nd_rids h dp' = nd_rids h dp"
proof -
  have dm: "ix_dims h" using h by (simp add: hdr_ok_def)
  define j where "j = length ks"
  have lens: "length (nd_keys h dn) = Suc j" "length (nd_rids h dn) = Suc j"
    using arg_cong [OF dn(4), of length] by (simp_all add: j_def)
  have jr: "length rs = j" using arg_cong [OF dn(5), of length] lens(2) by (simp del: length_nd_lists)
  have sn: "nd_get_size dn = int (Suc j)" using nd_size_length [OF dn(2)] lens(1) by simp
  have last: "nd_get_size dn - 1 = int j" using sn by simp
  have kj: "nd_get_key h dn (int j) = k1" using nd_get_key_nth [of j h dn] lens(1) dn(4) by (simp add: nth_append j_def del: length_nd_lists)
  have rj: "nd_get_rid h dn (int j) = r1" using nd_get_rid_nth [OF dm, of j dn] lens(2) dn(5) jr by (simp add: nth_append del: length_nd_lists)
  have kl: "length k1 = klen h" using nd_key_lengths(1) [OF dm dn(2)] dn(4) by auto
  have ro: "rid_ok r1" using nd_rids_ok [of h dn] dn(5) by simp
  obtain d' where d': "nd_insert_pairs h d 0 k1 [r1] 1 = Inr d'" "nd_ok h d'" "same_links d d'" "nd_get_size d' = nd_get_size d + 1"
    "nd_keys h d' = (if (0::int) = 0 then k1 # nd_keys h d else nd_keys h d @ [k1])" "nd_rids h d' = (if (0::int) = 0 then r1 # nd_rids h d else nd_rids h d @ [r1])"
    by (rule nd_append_one [OF dm d(2) _ d(3) kl ro, of 0]) auto
  obtain dn' where dn': "nd_erase_pair h dn (int j) = Inr dn'" "nd_ok h dn'" "same_links dn dn'"
    "nd_keys h dn' = take (nat (int j)) (nd_keys h dn) @ drop (Suc (nat (int j))) (nd_keys h dn)"
    "nd_rids h dn' = take (nat (int j)) (nd_rids h dn) @ drop (Suc (nat (int j))) (nd_rids h dn)"
    by (rule nd_erase_pair_lists [OF dm dn(2), of "int j"]) (use sn in auto)
  have kn: "nd_keys h dn' = ks" "nd_rids h dn' = rs" using dn'(4,5) dn(4,5) jr by (simp_all add: j_def)
  have k0: "nd_get_key h d' 0 = k1" using nd_get_key_hd [of h d'] d'(5) by simp
  let ?dp = "nd_set_key h dp (int i) k1"
  note sp = nd_set_key_lists [OF dm dp(2,3) kl]
  let ?Q = "(ih_pages s)(p \<mapsto> d', nb \<mapsto> dn', par \<mapsto> ?dp)"
  let ?s = "s\<lparr>ih_pages := ?Q\<rparr>"
  have li: "0 < length (nd_rids h d')" "nd_rids h d' ! 0 = r1" using d'(6) by (simp_all del: length_nd_lists)
  note gs = geo_simps [OF g]
  have run: "redistribute nb p par (int i) s = maintain_child p (int 0) ?s"
    using d(1) dn(1) dp(1,4) ne kj rj d'(1) dn'(1) k0 last gs(4,5,7,14,17)
    by (simp add: redistribute_def ix_prims Let_def)
  have "\<exists>s'. maintain_child p (int 0) ?s = Some (Inr (), s') \<and> ih_hdr s' = ih_hdr ?s \<and> ih_next s' = ih_next ?s \<and>
    ih_pages s' = moved (nd_is_leaf d') p (page_no (nd_rids h d' ! 0)) (ih_pages ?s)"
    by (rule maintain_child_rep [OF h]) (use g ne li(1) d'(3) kid in \<open>auto simp: li(2) same_links_def\<close>)
  then obtain s' where s': "maintain_child p (int 0) ?s = Some (Inr (), s')" "ih_hdr s' = ih_hdr s" "ih_next s' = ih_next s"
    "ih_pages s' = moved (nd_is_leaf d) p (page_no r1) ?Q" using d'(3) li(2) by (auto simp: same_links_def)
  show ?thesis
    by (rule that [OF _ s'(2-4) d'(2,3) _ _ dn'(2,3) kn sp(1,2,4,5)]) (use run s'(1) d'(5,6) in simp_all)
qed

section \<open>Two siblings\<close>

fun bt_size :: "bt \<Rightarrow> nat" where
  "bt_size (Lf p kvs) = length kvs"
| "bt_size (Nd p cs) = length cs"

fun bt_body :: "ix_file_hdr \<Rightarrow> nat \<Rightarrow> int list option \<Rightarrow> int list option \<Rightarrow> bt \<Rightarrow> bool" where
  "bt_body h 0 lo hi (Lf p kvs) \<longleftrightarrow> leaf_ok h lo hi kvs"
| "bt_body h (Suc n) lo hi (Nd p cs) \<longleftrightarrow> cs \<noteq> [] \<and> lbd lo (krank h (fst (hd cs))) \<and> kids_ok h (bt_ok h n (minsz h)) hi cs"
| "bt_body h 0 lo hi (Nd p cs) \<longleftrightarrow> False"
| "bt_body h (Suc n) lo hi (Lf p kvs) \<longleftrightarrow> False"

lemma bt_ok_body: "bt_ok h n mn lo hi t \<longleftrightarrow> fits h mn (bt_size t) \<and> bt_body h n lo hi t"
  by (cases n; cases t) auto

text \<open>Joining two nodes, and cutting one in two.\<close>

fun bt_app :: "bt \<Rightarrow> bt \<Rightarrow> bt" where
  "bt_app (Lf p a) (Lf q b) = Lf p (a @ b)"
| "bt_app (Nd p a) (Nd q b) = Nd p (a @ b)"
| "bt_app t u = t"

fun bt_take :: "nat \<Rightarrow> bt \<Rightarrow> bt" where
  "bt_take j (Lf p a) = Lf p (take j a)"
| "bt_take j (Nd p a) = Nd p (take j a)"

fun bt_drop :: "int \<Rightarrow> nat \<Rightarrow> bt \<Rightarrow> bt" where
  "bt_drop q j (Lf p a) = Lf q (drop j a)"
| "bt_drop q j (Nd p a) = Nd q (drop j a)"

lemma bt_kind: "bt_body h n lo hi t \<Longrightarrow> is_Lf t \<longleftrightarrow> n = 0"
  by (cases n; cases t) auto

lemma bt_body_app:
  assumes "bt_body h n lo (Some m) t1" "bt_body h n (Some m) hi t2" "lbd lo m" "ubd hi m"
  shows "bt_body h n lo hi (bt_app t1 t2)" "bt_size (bt_app t1 t2) = bt_size t1 + bt_size t2" "entries (bt_app t1 t2) = entries t1 @ entries t2"
proof -
  have "bt_body h n lo hi (bt_app t1 t2) \<and> bt_size (bt_app t1 t2) = bt_size t1 + bt_size t2 \<and> entries (bt_app t1 t2) = entries t1 @ entries t2"
  proof (cases n)
    case 0
    then show ?thesis using assms leaf_ok_append [of h lo m] by (cases t1; cases t2) auto
  next
    case (Suc n')
    obtain p a q b where t: "t1 = Nd p a" "t2 = Nd q b" using assms(1,2) Suc by (cases t1; cases t2) auto
    have a: "a \<noteq> []" "lbd lo (krank h (fst (hd a)))" "kids_ok h (bt_ok h n' (minsz h)) (Some m) a" and b: "b \<noteq> []" "m \<le> krank h (fst (hd b))" "kids_ok h (bt_ok h n' (minsz h)) hi b"
      using assms(1,2) Suc t by simp_all
    have "nxt h hi b = Some (krank h (fst (hd b)))" using b(1) by (cases b) simp_all
    then have "kids_ok h (bt_ok h n' (minsz h)) hi (a @ b)" using kids_ok_upper [OF a(3) b(2)] b(3) by (simp add: kids_ok_append)
    then show ?thesis using a b(1) Suc t by simp
  qed
  then show "bt_body h n lo hi (bt_app t1 t2)" "bt_size (bt_app t1 t2) = bt_size t1 + bt_size t2" "entries (bt_app t1 t2) = entries t1 @ entries t2" by blast+
qed

lemma bt_body_cut:
  fixes q :: int
  assumes "bt_body h n lo hi t" "0 < j" "j < bt_size t"
  defines "m \<equiv> krank h (bt_first (bt_drop q j t))"
  shows "bt_body h n lo (Some m) (bt_take j t)" "bt_body h n (Some m) hi (bt_drop q j t)" "lbd lo m" "ubd hi m"
    "length (bt_first (bt_drop q j t)) = klen h" "bt_size (bt_take j t) = j" "bt_size (bt_drop q j t) = bt_size t - j"
    "entries (bt_take j t) @ entries (bt_drop q j t) = entries t"
proof -
  have "bt_body h n lo (Some m) (bt_take j t) \<and> bt_body h n (Some m) hi (bt_drop q j t) \<and> lbd lo m \<and> ubd hi m \<and>
    length (bt_first (bt_drop q j t)) = klen h \<and> bt_size (bt_take j t) = j \<and> bt_size (bt_drop q j t) = bt_size t - j \<and>
    entries (bt_take j t) @ entries (bt_drop q j t) = entries t"
  proof (cases t)
    case (Lf p kvs)
    then have n: "n = 0" and lf: "leaf_ok h lo hi kvs" using assms(1) by (cases n; simp)+
    obtain b ys where y: "drop j kvs = b # ys" using assms(3) Lf by (cases "drop j kvs") auto
    have e: "kvs = take j kvs @ b # ys" using y append_take_drop_id [of j kvs] by simp
    have lf': "leaf_ok h lo hi (take j kvs @ b # ys)" using lf by (simp add: e [symmetric])
    have "leaf_ok h lo (Some (krank h (fst b))) (take j kvs)" "leaf_ok h (Some (krank h (fst b))) hi (b # ys)"
      using lf' by (auto simp: leaf_ok_def sorted_wrt_append less_imp_le)
    moreover have "lbd lo (krank h (fst b))" "ubd hi (krank h (fst b))" "length (fst b) = klen h" using leaf_okD [OF lf', of b] by simp_all
    moreover have "Suc (length ys) = length kvs - j" using arg_cong [OF y, of length] by simp
    ultimately show ?thesis using assms(3) Lf n y e [symmetric] by (simp add: m_def bt_first_def)
  next
    case (Nd p cs)
    then obtain n' where n: "n = Suc n'" using assms(1) by (cases n) simp_all
    have cs: "cs \<noteq> []" "lbd lo (krank h (fst (hd cs)))" "kids_ok h (bt_ok h n' (minsz h)) hi cs" using assms(1) Nd n by simp_all
    obtain b ys where y: "drop j cs = b # ys" using assms(3) Nd by (cases "drop j cs") auto
    have e: "cs = take j cs @ b # ys" using y append_take_drop_id [of j cs] by simp
    have ko: "kids_ok h (bt_ok h n' (minsz h)) hi (take j cs @ b # ys)" using cs(3) by (simp add: e [symmetric])
    have s: "sorted_wrt (<) (map (\<lambda>c. krank h (fst c)) cs)" "\<forall>c\<in>set cs. ubd hi (krank h (fst c)) \<and> length (fst c) = klen h"
      using kids_ok_sorted [OF cs(3)] by blast+
    have bin: "b \<in> set cs" by (subst e) simp
    have "krank h (fst (hd cs)) \<le> krank h (fst b)" using s(1) bin by (cases cs) (auto simp: less_imp_le)
    then have "lbd lo (krank h (fst b))" using cs(2) by (rule lbd_mono [rotated])
    moreover have "hd (take j cs) = hd cs" "take j cs \<noteq> []" using assms(2) cs(1) by (cases cs; cases j; simp)+
    moreover have "ubd hi (krank h (fst b))" "length (fst b) = klen h" using s(2) bin by blast+
    moreover have "concat (map (\<lambda>kt. entries (snd kt)) (take j cs)) @ concat (map (\<lambda>kt. entries (snd kt)) (drop j cs)) = concat (map (\<lambda>kt. entries (snd kt)) cs)"
      unfolding concat_append [symmetric] map_append [symmetric] append_take_drop_id ..
    moreover have "Suc (length ys) = length cs - j" using arg_cong [OF y, of length] by simp
    ultimately show ?thesis using assms(3) Nd n y ko cs(2) by (simp add: m_def bt_first_def kids_ok_append)
  qed
  then show "bt_body h n lo (Some m) (bt_take j t)" "bt_body h n (Some m) hi (bt_drop q j t)" "lbd lo m" "ubd hi m"
    "length (bt_first (bt_drop q j t)) = klen h" "bt_size (bt_take j t) = j" "bt_size (bt_drop q j t) = bt_size t - j"
    "entries (bt_take j t) @ entries (bt_drop q j t) = entries t" by blast+
qed

definition pair_ok :: "ix_file_hdr \<Rightarrow> nat \<Rightarrow> int list option \<Rightarrow> (bytes \<times> bt) list \<Rightarrow> bytes \<Rightarrow> bt \<Rightarrow> bytes \<Rightarrow> bt \<Rightarrow> (bytes \<times> bt) list \<Rightarrow> bool" where
  "pair_ok h n hi L k1 t1 k2 t2 R \<longleftrightarrow> kids_ok h (bt_ok h n (minsz h)) (Some (krank h k1)) L \<and> length k1 = klen h \<and> length k2 = klen h \<and>
     krank h k1 < krank h k2 \<and> bt_body h n (Some (krank h k1)) (Some (krank h k2)) t1 \<and> bt_body h n (Some (krank h k2)) (nxt h hi R) t2 \<and>
     ubd (nxt h hi R) (krank h k2) \<and> kids_ok h (bt_ok h n (minsz h)) hi R"

lemma pair_cut:
  assumes "pair_ok h n hi L k1 t1 k2 t2 R" "0 < j" "j < bt_size t1 + bt_size t2" "fits h (minsz h) j" "fits h (minsz h) (bt_size t1 + bt_size t2 - j)"
  defines "u1 \<equiv> bt_take j (bt_app t1 t2)" and "u2 \<equiv> bt_drop (bt_page t2) j (bt_app t1 t2)"
  shows "kids_ok h (bt_ok h n (minsz h)) hi (L @ (k1, u1) # (bt_first u2, u2) # R)" "entries u1 @ entries u2 = entries t1 @ entries t2"
proof -
  note p = assms(1) [unfolded pair_ok_def]
  note b = bt_body_app [of h n "Some (krank h k1)" "krank h k2" t1 "nxt h hi R" t2]
  have X: "bt_body h n (Some (krank h k1)) (nxt h hi R) (bt_app t1 t2)" "bt_size (bt_app t1 t2) = bt_size t1 + bt_size t2"
    "entries (bt_app t1 t2) = entries t1 @ entries t2" using b p by (simp_all add: less_imp_le)
  have jl: "j < bt_size (bt_app t1 t2)" using X(2) assms(3) by simp
  note c = bt_body_cut(1-5,7,8) [OF X(1) assms(2) jl, where q = "bt_page t2", folded u1_def u2_def]
    and cj = bt_body_cut(6) [OF X(1) assms(2) jl, folded u1_def]
  have "krank h k1 < krank h (bt_first u2)"
  proof -
    have "bt_ok h n (minsz h) (Some (krank h k1)) (Some (krank h (bt_first u2))) u1" using c(1) cj assms(4) by (simp add: bt_ok_body)
    moreover have "bt_size u1 \<noteq> 0" using cj assms(2) by simp
    ultimately show ?thesis
      using bt_ok_first(1,2) [of h n 1 "Some (krank h k1)" "Some (krank h (bt_first u2))" u1] assms(2,4) c(1) cj
      by (simp add: bt_ok_body fits_def)
  qed
  then show "kids_ok h (bt_ok h n (minsz h)) hi (L @ (k1, u1) # (bt_first u2, u2) # R)"
    using p c cj X(2) assms(4,5) by (simp add: kids_ok_append bt_ok_body)
  show "entries u1 @ entries u2 = entries t1 @ entries t2" using c(7) X(3) by simp
qed

lemma pair_join:
  assumes "pair_ok h n hi L k1 t1 k2 t2 R" "fits h (minsz h) (bt_size t1 + bt_size t2)"
  shows "kids_ok h (bt_ok h n (minsz h)) hi (L @ (k1, bt_app t1 t2) # R)" "entries (bt_app t1 t2) = entries t1 @ entries t2"
proof -
  note p = assms(1) [unfolded pair_ok_def]
  note b = bt_body_app [of h n "Some (krank h k1)" "krank h k2" t1 "nxt h hi R" t2]
  have X: "bt_body h n (Some (krank h k1)) (nxt h hi R) (bt_app t1 t2)" "bt_size (bt_app t1 t2) = bt_size t1 + bt_size t2"
    "entries (bt_app t1 t2) = entries t1 @ entries t2" using b p by (simp_all add: less_imp_le)
  have "ubd (nxt h hi R) (krank h k1)" using p by (auto intro: ubd_mono less_imp_le)
  then show "kids_ok h (bt_ok h n (minsz h)) hi (L @ (k1, bt_app t1 t2) # R)" using p X assms(2) by (simp add: kids_ok_append bt_ok_body)
  show "entries (bt_app t1 t2) = entries t1 @ entries t2" by (rule X(3))
qed

text \<open>The pages of the two siblings after the first pair of the right one, or the last of the left one, has moved.\<close>

lemma kid_moved:
  assumes "rep h P q0 t" "distinct (bt_pages t)" "int_range q" "Q (bt_page t) = P (bt_page t)"
    "\<And>y. y \<in> set (bt_pages t) \<Longrightarrow> Q y = P y"
  shows "rep h (reparent q {bt_page t} Q) q t"
  by (rule rep_reparent [OF assms(1-3)]) (use assms(4,5) in \<open>auto simp: reparent_def\<close>)

lemma kid_stays:
  assumes "rep h P q0 t" "x \<notin> set (bt_pages t)" "\<And>y. y \<in> set (bt_pages t) \<Longrightarrow> Q y = P y"
  shows "rep h (reparent q {x} Q) q0 t"
  by (rule rep_keep [OF assms(1)]) (use assms(2,3) in \<open>auto simp: reparent_def\<close>)

lemma rep_move_first:
  assumes rp: "rep h P par t1" "rep h P par t2" and kind: "is_Lf t1 = is_Lf t2" and dst: "distinct (bt_pages t1 @ bt_pages t2)"
    and pr: "int_range (bt_page t1)" "par \<notin> set (bt_pages t1 @ bt_pages t2)"
    and d: "P (bt_page t1) = Some d1" "P (bt_page t2) = Some d2" "nd_keys h d2 = k1 # ks" "nd_rids h d2 = r1 # rs"
    and d1': "nd_ok h d1'" "same_links d1 d1'" "nd_keys h d1' = nd_keys h d1 @ [k1]" "nd_rids h d1' = nd_rids h d1 @ [r1]"
    and d2': "nd_ok h d2'" "same_links d2 d2'" "nd_keys h d2' = ks" "nd_rids h d2' = rs"
    and P': "P' = moved (is_Lf t1) (bt_page t1) (page_no r1) (P(bt_page t1 \<mapsto> d1', bt_page t2 \<mapsto> d2', par \<mapsto> dp'))"
  shows "rep h P' par (bt_take (Suc (bt_size t1)) (bt_app t1 t2)) \<and> rep h P' par (bt_drop (bt_page t2) (Suc (bt_size t1)) (bt_app t1 t2))"
proof (cases t1)
  case (Lf p a)
  then obtain q b where t2: "t2 = Lf q b" using kind by (cases t2) auto
  then obtain kv b' where b: "b = kv # b'" using rp(2) d(2,3) by (cases b) (auto simp: nodep_def)
  have ne: "p \<noteq> q" "par \<noteq> p" "par \<noteq> q" using dst pr(2) Lf t2 by auto
  show ?thesis using rp d d1' d2' ne P' Lf t2 b by (auto simp: nodep_def moved_def same_links_def)
next
  case (Nd p a)
  then obtain q b where t2: "t2 = Nd q b" using kind by (cases t2) auto
  then obtain kt b' where b: "b = kt # b'" using rp(2) d(2,3) by (cases b) (auto simp: nodep_def)
  have ne: "p \<noteq> q" "par \<noteq> p" "par \<noteq> q" using dst pr(2) Nd t2 by auto
  have x: "page_no r1 = kid_page kt" using rp(2) d(2,4) t2 b by (auto simp: nodep_def)
  let ?Q = "P(p \<mapsto> d1', q \<mapsto> d2', par \<mapsto> dp')"
  have out: "?Q y = P y" if "y \<in> set (kids_pages (a @ b))" for y
  proof -
    have "y \<noteq> p" "y \<noteq> q" "y \<noteq> par" using that dst pr(2) Nd t2 by auto
    then show ?thesis by simp
  qed
  have db: "distinct (kids_pages (a @ b))" using dst Nd t2 by auto
  have P2: "P' = reparent p {kid_page kt} ?Q" using P' Nd t2 x by (simp add: moved_def)
  have "rep h P' p (snd kt)" unfolding P2
    by (rule kid_moved [of h P q]) (use rp(2) t2 b pr(1) Nd out db bt_page_in [of "snd kt"] in auto)
  moreover have stay: "rep h P' q0 (snd kt')" if "kt' \<in> set a \<union> set b'" "rep h P q0 (snd kt')" for kt' q0
    unfolding P2
  proof (rule kid_stays [OF that(2)])
    have k: "kt' \<in> set (a @ b)" using that(1) b by auto
    show "?Q y = P y" if "y \<in> set (bt_pages (snd kt'))" for y by (rule out [OF in_kids_pages [OF k that]])
    have "set (bt_pages (snd kt)) \<inter> set (kids_pages (a @ b')) = {}" using db b by auto
    then show "kid_page kt \<notin> set (bt_pages (snd kt'))" using in_kids_pages [of kt' "a @ b'"] that(1) bt_page_in [of "snd kt"] by auto
  qed
  moreover have "P' p = Some d1'" "P' q = Some d2'"
  proof -
    have "p \<noteq> kid_page kt" "q \<noteq> kid_page kt" using dst Nd t2 b bt_page_in [of "snd kt"] by auto
    then show "P' p = Some d1'" "P' q = Some d2'" using ne by (simp_all add: P2 reparent_def)
  qed
  ultimately show ?thesis
    using rp d d1' d2' Nd t2 b by (auto simp: nodep_def same_links_def)
qed

lemma rep_move_last:
  assumes rp: "rep h P par t1" "rep h P par t2" and kind: "is_Lf t1 = is_Lf t2" and dst: "distinct (bt_pages t1 @ bt_pages t2)"
    and pr: "int_range (bt_page t2)" "par \<notin> set (bt_pages t1 @ bt_pages t2)"
    and d: "P (bt_page t1) = Some d1" "P (bt_page t2) = Some d2" "nd_keys h d1 = ks @ [k1]" "nd_rids h d1 = rs @ [r1]" "length ks = j"
    and d1': "nd_ok h d1'" "same_links d1 d1'" "nd_keys h d1' = ks" "nd_rids h d1' = rs"
    and d2': "nd_ok h d2'" "same_links d2 d2'" "nd_keys h d2' = k1 # nd_keys h d2" "nd_rids h d2' = r1 # nd_rids h d2"
    and P': "P' = moved (is_Lf t1) (bt_page t2) (page_no r1) (P(bt_page t2 \<mapsto> d2', bt_page t1 \<mapsto> d1', par \<mapsto> dp'))"
  shows "rep h P' par (bt_take j (bt_app t1 t2)) \<and> rep h P' par (bt_drop (bt_page t2) j (bt_app t1 t2))"
proof (cases t1)
  case (Lf p a)
  then obtain q b where t2: "t2 = Lf q b" using kind by (cases t2) auto
  have "map fst a = ks @ [k1]" "map snd a = rs @ [r1]" using rp(1) d(1,3,4) Lf by (auto simp: nodep_def)
  then obtain kv a' where a: "a = a' @ [kv]" "map fst a' = ks" "map snd a' = rs" "fst kv = k1" "snd kv = r1"
    by (cases a rule: rev_cases) auto
  have ne: "p \<noteq> q" "par \<noteq> p" "par \<noteq> q" using dst pr(2) Lf t2 by auto
  have j: "length a' = j" using a(2) d(5) by auto
  show ?thesis using rp d(1,2) d1' d2' ne P' Lf t2 a j by (auto simp: nodep_def moved_def same_links_def)
next
  case (Nd p a)
  then obtain q b where t2: "t2 = Nd q b" using kind by (cases t2) auto
  have "map fst a = ks @ [k1]" "map kid_page a = map page_no rs @ [page_no r1]" using rp(1) d(1,3,4) Nd by (auto simp: nodep_def)
  then obtain kt a' where a: "a = a' @ [kt]" "map fst a' = ks" "map kid_page a' = map page_no rs" "fst kt = k1" "kid_page kt = page_no r1"
    by (cases a rule: rev_cases) auto
  have ne: "p \<noteq> q" "par \<noteq> p" "par \<noteq> q" using dst pr(2) Nd t2 by auto
  have j: "length a' = j" using a(2) d(5) by auto
  let ?Q = "P(q \<mapsto> d2', p \<mapsto> d1', par \<mapsto> dp')"
  have out: "?Q y = P y" if "y \<in> set (kids_pages (a @ b))" for y
  proof -
    have "y \<noteq> p" "y \<noteq> q" "y \<noteq> par" using that dst pr(2) Nd t2 by auto
    then show ?thesis by simp
  qed
  have db: "distinct (kids_pages (a @ b))" using dst Nd t2 by auto
  have P2: "P' = reparent q {kid_page kt} ?Q" using P' Nd t2 a(5) by (simp add: moved_def)
  have "rep h P' q (snd kt)" unfolding P2
    by (rule kid_moved [of h P p]) (use rp(1) t2 a(1) pr(1) Nd out db bt_page_in [of "snd kt"] in auto)
  moreover have stay: "rep h P' q0 (snd kt')" if "kt' \<in> set a' \<union> set b" "rep h P q0 (snd kt')" for kt' q0
    unfolding P2
  proof (rule kid_stays [OF that(2)])
    have k: "kt' \<in> set (a @ b)" using that(1) a(1) by auto
    show "?Q y = P y" if "y \<in> set (bt_pages (snd kt'))" for y by (rule out [OF in_kids_pages [OF k that]])
    have "set (bt_pages (snd kt)) \<inter> set (kids_pages (a' @ b)) = {}" using db a(1) by auto
    then show "kid_page kt \<notin> set (bt_pages (snd kt'))" using in_kids_pages [of kt' "a' @ b"] that(1) bt_page_in [of "snd kt"] by auto
  qed
  moreover have "P' p = Some d1'" "P' q = Some d2'"
  proof -
    have "p \<noteq> kid_page kt" "q \<noteq> kid_page kt" using dst Nd t2 a(1) bt_page_in [of "snd kt"] by auto
    then show "P' p = Some d1'" "P' q = Some d2'" using ne by (simp_all add: P2 reparent_def)
  qed
  ultimately show ?thesis
    using rp d(1,2) d1' d2' Nd t2 a j by (auto simp: nodep_def same_links_def)
qed

text \<open>Replacing the subtree at a position.\<close>

lemma ix_shape_subtree:
  assumes inv: "ix_shape h (plug t c) s" and rp: "rep h (ih_pages s') (ctx_par c) t'"
    and same: "\<And>x. x \<in> set (ctx_pages c) \<Longrightarrow> node_eq (ih_pages s) (ih_pages s') x"
    and t': "bt_page t' = bt_page t" "distinct (bt_pages t')" "set (bt_pages t') \<subseteq> set (bt_pages t)"
    and s': "geo h (ih_hdr s')" "ix_root (ih_hdr s') = ix_root (ih_hdr s)" "ih_next s' = ih_next s"
    and hl: "\<exists>d. ih_pages s' IX_LEAF_HEADER_PAGE = Some d \<and> length d = PAGE_SIZE"
    and lv: "linked (ih_pages s') (IX_LEAF_HEADER_PAGE # leaf_pages (plug t' c) @ [IX_LEAF_HEADER_PAGE])"
      "ix_first_leaf (ih_hdr s') = hd (leaf_pages (plug t' c))" "ix_last_leaf (ih_hdr s') = last (leaf_pages (plug t' c))"
  shows "ix_shape h (plug t' c) s'"
proof -
  note i = ix_shapeD [OF inv]
  have "rep_ctx h (ih_pages s) (bt_page t) c" using i(4) by (simp add: rep_plug)
  then have "rep_ctx h (ih_pages s') (bt_page t') c" unfolding t'(1) by (rule rep_ctx_relink) (rule same)
  then have "rep h (ih_pages s') INVALID_PAGE_ID (plug t' c)" using rp by (simp add: rep_plug)
  moreover have "distinct (bt_pages (plug t' c))" using i(5) t'(2,3) unfolding distinct_pages_plug by blast
  moreover have "\<forall>p\<in>set (bt_pages (plug t' c)). IX_LEAF_HEADER_PAGE < p \<and> p < ih_next s'"
    using i(6) t'(3) s'(3) unfolding set_pages_plug by auto
  moreover have "ix_root (ih_hdr s') = bt_page (plug t' c)" using i(3) s'(2) t'(1) by (simp add: bt_page_plug)
  ultimately show ?thesis using i(1) s'(1) hl lv by (simp add: ix_shape_def)
qed

text \<open>The same, with the leaves and their links as before.\<close>

lemma ix_shape_same_leaves:
  assumes inv: "ix_shape h (plug t c) s" and rp: "rep h (ih_pages s') (ctx_par c) t'"
    and same: "\<And>x. x \<in> set (ctx_pages c) \<Longrightarrow> ih_pages s' x = ih_pages s x"
    and t': "bt_page t' = bt_page t" "distinct (bt_pages t')" "set (bt_pages t') \<subseteq> set (bt_pages t)" "leaf_pages t' = leaf_pages t"
    and s': "ih_hdr s' = ih_hdr s" "ih_next s' = ih_next s" "links_kept (ih_next s) (ih_pages s) (ih_pages s')"
  shows "ix_shape h (plug t' c) s'"
proof -
  note i = ix_shapeD [OF inv]
  have lv: "leaf_pages (plug t' c) = leaf_pages (plug t c)" using t'(4) by (simp add: leaf_pages_plug)
  have one: "IX_LEAF_HEADER_PAGE < ih_next s" using i(6) [OF bt_page_in] by simp
  have "linked (ih_pages s') (IX_LEAF_HEADER_PAGE # leaf_pages (plug t c) @ [IX_LEAF_HEADER_PAGE])"
    by (rule linked_kept [OF i(8) s'(3)]) (use one i(6) leaf_pages_subset [of "plug t c"] in auto)
  moreover have "\<exists>d. ih_pages s' IX_LEAF_HEADER_PAGE = Some d \<and> length d = PAGE_SIZE"
    using i(7) s'(3) one unfolding links_kept_def by metis
  ultimately show ?thesis
    by (intro ix_shape_subtree [OF inv rp _ t'(1-3)]) (use i(2,9,10) s'(1,2) lv same in \<open>simp_all add: node_eq_def\<close>)
qed

lemma distinct_two: "distinct (p # xs @ q # ys) \<longleftrightarrow> p \<noteq> q \<and> p \<notin> set (xs @ ys) \<and> q \<notin> set (xs @ ys) \<and> distinct (xs @ ys)"
  by auto

lemma regroup_pages:
  fixes j :: nat
  assumes "is_Lf t1 = is_Lf t2"
  defines "u1 \<equiv> bt_take j (bt_app t1 t2)" and "u2 \<equiv> bt_drop (bt_page t2) j (bt_app t1 t2)"
  shows "bt_page u1 = bt_page t1" "bt_page u2 = bt_page t2" "set (bt_pages u1) \<union> set (bt_pages u2) = set (bt_pages t1) \<union> set (bt_pages t2)"
    "distinct (bt_pages t1 @ bt_pages t2) \<Longrightarrow> distinct (bt_pages u1 @ bt_pages u2)"
    "leaf_pages u1 @ leaf_pages u2 = leaf_pages t1 @ leaf_pages t2"
proof -
  have td: "concat (map f (take j xs)) @ concat (map f (drop j xs)) = concat (map f xs)" for f :: "bytes \<times> bt \<Rightarrow> int list" and xs
    by (simp only: concat_append [symmetric] map_append [symmetric] append_take_drop_id)
  have "bt_page u1 = bt_page t1 \<and> bt_page u2 = bt_page t2 \<and> set (bt_pages u1) \<union> set (bt_pages u2) = set (bt_pages t1) \<union> set (bt_pages t2) \<and>
    (distinct (bt_pages t1 @ bt_pages t2) \<longrightarrow> distinct (bt_pages u1 @ bt_pages u2)) \<and> leaf_pages u1 @ leaf_pages u2 = leaf_pages t1 @ leaf_pages t2"
  proof (cases t1)
    case (Lf p a)
    then obtain q b where t2: "t2 = Lf q b" using assms(1) by (cases t2) auto
    show ?thesis unfolding u1_def u2_def Lf t2 by auto
  next
    case (Nd p a)
    then obtain q b where t2: "t2 = Nd q b" using assms(1) by (cases t2) auto
    let ?A = "kids_pages (take j (a @ b))" and ?B = "kids_pages (drop j (a @ b))"
    have e: "?A @ ?B = kids_pages a @ kids_pages b" unfolding td by simp
    have u: "bt_pages u1 = p # ?A" "bt_pages u2 = q # ?B" unfolding u1_def u2_def Nd t2 by simp_all
    have s: "set ?A \<union> set ?B = set (kids_pages a) \<union> set (kids_pages b)" using arg_cong [OF e, of set] unfolding set_append .
    have "set (bt_pages u1) \<union> set (bt_pages u2) = set (bt_pages t1) \<union> set (bt_pages t2)"
      unfolding u unfolding Nd t2 bt_pages.simps list.set using s by blast
    moreover have "distinct (bt_pages t1 @ bt_pages t2) \<longrightarrow> distinct (bt_pages u1 @ bt_pages u2)"
      unfolding u unfolding Nd t2 bt_pages.simps append_Cons distinct_two e by blast
    moreover have "leaf_pages u1 @ leaf_pages u2 = leaf_pages t1 @ leaf_pages t2"
      unfolding u1_def u2_def Nd t2 bt_app.simps bt_take.simps bt_drop.simps leaf_pages.simps td by simp
    moreover have "bt_page u1 = bt_page t1" "bt_page u2 = bt_page t2" unfolding u1_def u2_def Nd t2 by simp_all
    ultimately show ?thesis by blast
  qed
  then show "bt_page u1 = bt_page t1" "bt_page u2 = bt_page t2" "set (bt_pages u1) \<union> set (bt_pages u2) = set (bt_pages t1) \<union> set (bt_pages t2)"
    "distinct (bt_pages t1 @ bt_pages t2) \<Longrightarrow> distinct (bt_pages u1 @ bt_pages u2)"
    "leaf_pages u1 @ leaf_pages u2 = leaf_pages t1 @ leaf_pages t2" by blast+
qed

text \<open>What the invariant says of a node with two neighbouring children.\<close>

lemma shape_pair:
  assumes inv: "ix_shape h (plug (Nd pp (L @ (k1, t1) # (k2, t2) # R)) c) s"
  obtains dp where "ih_pages s pp = Some dp" "nd_ok h dp" "\<not> nd_is_leaf dp" "nd_parent dp = ctx_par c" "nd_keys h dp = map fst L @ k1 # k2 # map fst R"
    "map page_no (nd_rids h dp) = map kid_page L @ bt_page t1 # bt_page t2 # map kid_page R"
    "rep h (ih_pages s) pp t1" "rep h (ih_pages s) pp t2" "\<And>kt. kt \<in> set L \<union> set R \<Longrightarrow> rep h (ih_pages s) pp (snd kt)"
    "distinct (bt_pages t1 @ bt_pages t2)" "pp \<notin> set (bt_pages t1) \<union> set (bt_pages t2)"
    "\<And>kt x. kt \<in> set L \<union> set R \<Longrightarrow> x \<in> set (bt_pages (snd kt)) \<Longrightarrow> x \<noteq> pp \<and> x \<notin> set (bt_pages t1) \<union> set (bt_pages t2)"
    "\<And>x. x \<in> set (ctx_pages c) \<Longrightarrow> x \<noteq> pp \<and> x \<notin> set (bt_pages t1) \<union> set (bt_pages t2)"
    "distinct (pp # kids_pages L @ bt_pages t1 @ bt_pages t2 @ kids_pages R)"
proof -
  note i = ix_shapeD [OF inv]
  let ?cs = "L @ (k1, t1) # (k2, t2) # R"
  have rp: "rep h (ih_pages s) (ctx_par c) (Nd pp ?cs)" using i(4) by (simp add: rep_plug)
  then obtain dp where dp: "ih_pages s pp = Some dp" "nd_ok h dp" "\<not> nd_is_leaf dp" "nd_parent dp = ctx_par c" "nd_keys h dp = map fst L @ k1 # k2 # map fst R"
    "map page_no (nd_rids h dp) = map kid_page L @ bt_page t1 # bt_page t2 # map kid_page R" by (auto simp: nodep_def)
  have e: "bt_pages (Nd pp ?cs) = pp # kids_pages L @ bt_pages t1 @ bt_pages t2 @ kids_pages R" by simp
  have dst: "distinct (pp # kids_pages L @ bt_pages t1 @ bt_pages t2 @ kids_pages R)"
    "set (pp # kids_pages L @ bt_pages t1 @ bt_pages t2 @ kids_pages R) \<inter> set (ctx_pages c) = {}"
    using i(5) unfolding distinct_pages_plug e by blast+
  note ds = dst [unfolded distinct.simps distinct_append set_append list.set]
  show ?thesis
  proof (rule that [OF dp _ _ _ _ _ _ _ dst(1)])
    show "rep h (ih_pages s) pp t1" "rep h (ih_pages s) pp t2" using rp by simp_all
    show "rep h (ih_pages s) pp (snd kt)" if "kt \<in> set L \<union> set R" for kt using rp that by auto
    show "distinct (bt_pages t1 @ bt_pages t2)" "pp \<notin> set (bt_pages t1) \<union> set (bt_pages t2)" using ds unfolding distinct_append by blast+
    show "x \<noteq> pp \<and> x \<notin> set (bt_pages t1) \<union> set (bt_pages t2)" if "kt \<in> set L \<union> set R" "x \<in> set (bt_pages (snd kt))" for kt x
    proof -
      have "x \<in> set (kids_pages L) \<union> set (kids_pages R)" using that in_kids_pages [of kt L x] in_kids_pages [of kt R x] by blast
      then show ?thesis using ds by blast
    qed
    show "x \<noteq> pp \<and> x \<notin> set (bt_pages t1) \<union> set (bt_pages t2)" if "x \<in> set (ctx_pages c)" for x using ds that by blast
  qed
qed

lemma shape_siblings:
  assumes "ix_shape h (plug (Nd pp (L @ (k1, t1) # (k2, t2) # R)) c) s"
  obtains dp where "ih_pages s pp = Some dp" "nd_ok h dp" "nd_keys h dp = map fst L @ k1 # k2 # map fst R"
    "map page_no (nd_rids h dp) = map kid_page L @ bt_page t1 # bt_page t2 # map kid_page R"
    "rep h (ih_pages s) pp t1" "rep h (ih_pages s) pp t2" "distinct (bt_pages t1 @ bt_pages t2)" "pp \<notin> set (bt_pages t1) \<union> set (bt_pages t2)"
    "int_range (bt_page t1)" "int_range (bt_page t2)" "\<not> nd_is_leaf dp"
proof (rule shape_pair [OF assms])
  fix dp assume nl: "\<not> nd_is_leaf dp" and a: "ih_pages s pp = Some dp" "nd_ok h dp" "nd_keys h dp = map fst L @ k1 # k2 # map fst R"
    "map page_no (nd_rids h dp) = map kid_page L @ bt_page t1 # bt_page t2 # map kid_page R"
    "rep h (ih_pages s) pp t1" "rep h (ih_pages s) pp t2" "distinct (bt_pages t1 @ bt_pages t2)" "pp \<notin> set (bt_pages t1) \<union> set (bt_pages t2)"
  have "int_range p" if "p \<in> {bt_page t1, bt_page t2}" for p
  proof -
    have "p \<in> page_no ` set (nd_rids h dp)" unfolding list.set_map [symmetric] a(4) using that by auto
    then show ?thesis using nd_rids_ok [of h dp] by (auto simp: list_all_iff rid_ok_def)
  qed
  then show thesis by (intro that [OF a]) (simp_all add: nl)
qed

lemma links_kept_moved:
  assumes "links_kept N P Q" "\<not> leaf \<Longrightarrow> \<exists>d. Q x = Some d \<and> length d = PAGE_SIZE"
  shows "links_kept N P (moved leaf q x Q)"
  unfolding moved_def using assms(1) links_kept_reparent [OF assms(1), of "{x}" q] assms(2) by auto

lemma siblings_shape:
  assumes inv: "ix_shape h (plug (Nd pp (L @ (k1, t1) # (k2, t2) # R)) c) s"
    and s': "ih_hdr s' = ih_hdr s" "ih_next s' = ih_next s" "ih_pages s' = moved lf q x Q"
    and Q: "Q = (ih_pages s)(a \<mapsto> da', b \<mapsto> db', pp \<mapsto> dp')" "a \<in> {bt_page t1, bt_page t2}" "b \<in> {bt_page t1, bt_page t2}"
      "\<not> lf \<Longrightarrow> x \<in> set (bt_pages t1) \<union> set (bt_pages t2) \<and> x \<noteq> a \<and> x \<noteq> b"
    and old: "ih_pages s a = Some da" "ih_pages s b = Some db" "ih_pages s pp = Some dp"
    and new: "nd_ok h da'" "same_links da da'" "nd_ok h db'" "same_links db db'" "nd_ok h dp'" "same_links dp dp'" "nd_rids h dp' = nd_rids h dp"
      "nd_keys h dp' = map fst L @ k1 # k2' # map fst R"
    and u: "rep h (ih_pages s') pp u1" "rep h (ih_pages s') pp u2" "bt_page u1 = bt_page t1" "bt_page u2 = bt_page t2"
      "set (bt_pages u1) \<union> set (bt_pages u2) = set (bt_pages t1) \<union> set (bt_pages t2)" "distinct (bt_pages u1 @ bt_pages u2)"
      "leaf_pages u1 @ leaf_pages u2 = leaf_pages t1 @ leaf_pages t2"
  shows "ix_shape h (plug (Nd pp (L @ (k1, u1) # (k2', u2) # R)) c) s'"
proof -
  note i = ix_shapeD [OF inv]
  obtain dp0 where p: "ih_pages s pp = Some dp0" "nd_ok h dp0" "\<not> nd_is_leaf dp0" "nd_parent dp0 = ctx_par c"
    "map page_no (nd_rids h dp0) = map kid_page L @ bt_page t1 # bt_page t2 # map kid_page R"
    "rep h (ih_pages s) pp t1" "rep h (ih_pages s) pp t2"
    and kids: "\<And>kt. kt \<in> set L \<union> set R \<Longrightarrow> rep h (ih_pages s) pp (snd kt)"
    and pd: "pp \<notin> set (bt_pages t1) \<union> set (bt_pages t2)"
    and kd: "\<And>kt x. kt \<in> set L \<union> set R \<Longrightarrow> x \<in> set (bt_pages (snd kt)) \<Longrightarrow> x \<noteq> pp \<and> x \<notin> set (bt_pages t1) \<union> set (bt_pages t2)"
    and cd: "\<And>x. x \<in> set (ctx_pages c) \<Longrightarrow> x \<noteq> pp \<and> x \<notin> set (bt_pages t1) \<union> set (bt_pages t2)"
    and dst: "distinct (pp # kids_pages L @ bt_pages t1 @ bt_pages t2 @ kids_pages R)" by (rule shape_pair [OF inv]) blast
  have ab: "a \<in> set (bt_pages t1) \<union> set (bt_pages t2)" "b \<in> set (bt_pages t1) \<union> set (bt_pages t2)" using Q(2,3) bt_page_in by blast+
  have same: "ih_pages s' y = ih_pages s y" if "y \<noteq> pp" "y \<notin> set (bt_pages t1) \<union> set (bt_pages t2)" for y
    using that ab Q(1,4) s'(3) by (cases lf) (auto simp: moved_def reparent_def)
  have "ih_pages s' pp = Some dp'" using pd Q(1,4) s'(3) by (cases lf) (auto simp: moved_def reparent_def)
  then have "innerp h (ih_pages s') pp (ctx_par c) (map fst (L @ (k1, u1) # (k2', u2) # R)) (map kid_page (L @ (k1, u1) # (k2', u2) # R))"
    using new(5-8) old(3) p(1,3,4,5) u(3,4) by (simp add: nodep_def same_links_def)
  moreover have "rep h (ih_pages s') pp (snd kt)" if "kt \<in> set L \<union> set R" for kt
    by (rule rep_keep [OF kids [OF that]]) (use kd [OF that] same in blast)
  ultimately have rp: "rep h (ih_pages s') (ctx_par c) (Nd pp (L @ (k1, u1) # (k2', u2) # R))" using u(1,2) by auto
  have len: "length d = PAGE_SIZE" if "y \<in> set (bt_pages t1) \<union> set (bt_pages t2)" "ih_pages s y = Some d" for y d
    using that rep_page_length [OF p(6), of y] rep_page_length [OF p(7), of y] by auto
  have lens: "length da = PAGE_SIZE" "length db = PAGE_SIZE" "length dp = PAGE_SIZE"
    using len [OF ab(1) old(1)] len [OF ab(2) old(2)] nd_ok_length [OF p(2)] p(1) old(3) by simp_all
  have "links_kept (ih_next s) (ih_pages s) Q" unfolding Q(1)
    by (rule links_kept_upd [where d = dp], rule links_kept_upd [where d = db], rule links_kept_upd [where d = da], rule links_kept_refl)
      (use old lens new(2,4,6) nd_ok_length [OF new(1)] nd_ok_length [OF new(3)] nd_ok_length [OF new(5)] in \<open>simp_all add: same_links_def\<close>)
  then have lk: "links_kept (ih_next s) (ih_pages s) (ih_pages s')" unfolding s'(3)
  proof (rule links_kept_moved)
    assume "\<not> lf"
    then have x: "x \<in> set (bt_pages t1) \<union> set (bt_pages t2)" "x \<noteq> a" "x \<noteq> b" "x \<noteq> pp" using Q(4) pd by auto
    then have "Q x = ih_pages s x" by (simp add: Q(1))
    then show "\<exists>d. Q x = Some d \<and> length d = PAGE_SIZE" using x(1) rep_page_length [OF p(6), of x] rep_page_length [OF p(7), of x] by auto
  qed
  have e: "bt_pages (Nd pp (L @ (k1, u1) # (k2', u2) # R)) = pp # kids_pages L @ (bt_pages u1 @ bt_pages u2) @ kids_pages R" by simp
  have e0: "bt_pages (Nd pp (L @ (k1, t1) # (k2, t2) # R)) = pp # kids_pages L @ (bt_pages t1 @ bt_pages t2) @ kids_pages R" by simp
  have st: "set (bt_pages u1 @ bt_pages u2) = set (bt_pages t1 @ bt_pages t2)" using u(5) by simp
  show ?thesis
  proof (rule ix_shape_same_leaves [OF inv rp _ _ _ _ _ s'(1,2) lk])
    show "ih_pages s' y = ih_pages s y" if "y \<in> set (ctx_pages c)" for y using same cd [OF that] by blast
    have "distinct (pp # kids_pages L @ (bt_pages t1 @ bt_pages t2) @ kids_pages R)" using dst by (simp only: append_assoc)
    then show "distinct (bt_pages (Nd pp (L @ (k1, u1) # (k2', u2) # R)))"
      unfolding e distinct.simps set_append [of "kids_pages L"] set_append [of "bt_pages u1 @ bt_pages u2"] distinct_append [of "kids_pages L"]
        distinct_append [of "bt_pages u1 @ bt_pages u2"] distinct_append [of "bt_pages t1 @ bt_pages t2"] set_append [of "bt_pages t1 @ bt_pages t2"] st
      using u(6) by blast
    show "set (bt_pages (Nd pp (L @ (k1, u1) # (k2', u2) # R))) \<subseteq> set (bt_pages (Nd pp (L @ (k1, t1) # (k2, t2) # R)))"
      unfolding e e0 list.set set_append [of "kids_pages L"] set_append [of "bt_pages u1 @ bt_pages u2"] set_append [of "bt_pages t1 @ bt_pages t2"] st by blast
    show "leaf_pages (Nd pp (L @ (k1, u1) # (k2', u2) # R)) = leaf_pages (Nd pp (L @ (k1, t1) # (k2, t2) # R))"
    proof -
      have "leaf_pages (Nd pp (L @ (k1, u1) # (k2', u2) # R)) = leaf_pages (Nd pp L) @ (leaf_pages u1 @ leaf_pages u2) @ leaf_pages (Nd pp R)" by simp
      then show ?thesis unfolding u(7) by simp
    qed
  qed simp
qed

fun bt_keys :: "bt \<Rightarrow> bytes list" where
  "bt_keys (Lf p kvs) = map fst kvs"
| "bt_keys (Nd p cs) = map fst cs"

lemma length_bt_keys [simp]: "length (bt_keys t) = bt_size t"
  by (cases t) simp_all

lemma bt_first_keys: "bt_keys t \<noteq> [] \<Longrightarrow> bt_first t = hd (bt_keys t)"
  by (cases t) (simp_all add: bt_first_def hd_map)

lemma bt_keys_drop_app: "is_Lf t1 = is_Lf t2 \<Longrightarrow> bt_keys (bt_drop q j (bt_app t1 t2)) = drop j (bt_keys t1 @ bt_keys t2)"
  by (cases t1; cases t2) (simp_all add: drop_map)

lemma rep_node:
  assumes "rep h P par t" "distinct (bt_pages t)"
  obtains d where "P (bt_page t) = Some d" "nd_ok h d" "nd_is_leaf d = is_Lf t" "nd_parent d = par" "nd_keys h d = bt_keys t"
    "nd_get_size d = int (bt_size t)"
    "\<And>r. \<not> is_Lf t \<Longrightarrow> r \<in> set (nd_rids h d) \<Longrightarrow> P (page_no r) \<noteq> None \<and> page_no r \<in> set (bt_pages t) \<and> page_no r \<noteq> bt_page t"
proof (cases t)
  case (Lf p kvs)
  then obtain d where d: "P p = Some d" "nd_ok h d" "nd_is_leaf d" "nd_parent d = par" "nd_keys h d = map fst kvs" using assms(1) by (auto simp: nodep_def)
  show ?thesis by (rule that [of d]) (use d Lf nd_size_length [OF d(2)] in auto)
next
  case (Nd p cs)
  then obtain d where d: "P p = Some d" "nd_ok h d" "\<not> nd_is_leaf d" "nd_parent d = par" "nd_keys h d = map fst cs"
    "map page_no (nd_rids h d) = map kid_page cs" and kids: "\<forall>kt\<in>set cs. rep h P p (snd kt)" using assms(1) by (auto simp: nodep_def)
  have "P (page_no r) \<noteq> None \<and> page_no r \<in> set (bt_pages t) \<and> page_no r \<noteq> bt_page t" if "r \<in> set (nd_rids h d)" for r
  proof -
    have "page_no r \<in> set (map kid_page cs)" using that unfolding d(6) [symmetric] by simp
    then obtain kt where kt: "kt \<in> set cs" "page_no r = kid_page kt" by auto
    have "page_no r \<in> set (kids_pages cs)" using kid_page_in [OF kt(1)] kt(2) by simp
    then show ?thesis using rep_page [of h P p "snd kt"] kids kt assms(2) Nd by auto
  qed
  then show ?thesis using d Nd nd_size_length [OF d(2)] by (intro that [of d]) auto
qed

lemma redistribute_tree_first:
  assumes inv: "ix_shape h (plug (Nd pp ((k1, t1) # (k2, t2) # R)) c) s" and kind: "is_Lf t1 = is_Lf t2"
    and sz: "int (bt_size t1) < ix_order h" "2 \<le> bt_size t2"
  defines "u1 \<equiv> bt_take (Suc (bt_size t1)) (bt_app t1 t2)" and "u2 \<equiv> bt_drop (bt_page t2) (Suc (bt_size t1)) (bt_app t1 t2)"
  obtains s' where "redistribute (bt_page t2) (bt_page t1) pp 0 s = Some (Inr (), s')"
    "ih_next s' = ih_next s" "ix_shape h (plug (Nd pp ((k1, u1) # (bt_first u2, u2) # R)) c) s'"
proof -
  note i = ix_shapeD [OF inv]
  have inv0: "ix_shape h (plug (Nd pp ([] @ (k1, t1) # (k2, t2) # R)) c) s" using inv by simp
  obtain dp where p: "ih_pages s pp = Some dp" "nd_ok h dp" "nd_keys h dp = map fst ([] :: (bytes \<times> bt) list) @ k1 # k2 # map fst R"
    "map page_no (nd_rids h dp) = map kid_page ([] :: (bytes \<times> bt) list) @ bt_page t1 # bt_page t2 # map kid_page R"
    "rep h (ih_pages s) pp t1" "rep h (ih_pages s) pp t2" and dst: "distinct (bt_pages t1 @ bt_pages t2)"
    and pd: "pp \<notin> set (bt_pages t1) \<union> set (bt_pages t2)" and pr: "int_range (bt_page t1)" "int_range (bt_page t2)"
    by (rule shape_siblings [OF inv0])
  have dd: "distinct (bt_pages t1)" "distinct (bt_pages t2)" using dst by simp_all
  obtain d1 where d1: "ih_pages s (bt_page t1) = Some d1" "nd_ok h d1" "nd_is_leaf d1 = is_Lf t1" "nd_keys h d1 = bt_keys t1" "nd_get_size d1 = int (bt_size t1)"
    by (rule rep_node [OF p(5) dd(1)]) blast
  obtain d2 where d2: "ih_pages s (bt_page t2) = Some d2" "nd_ok h d2" "nd_is_leaf d2 = is_Lf t2" "nd_keys h d2 = bt_keys t2" "nd_get_size d2 = int (bt_size t2)"
    "\<And>r. \<not> is_Lf t2 \<Longrightarrow> r \<in> set (nd_rids h d2) \<Longrightarrow> ih_pages s (page_no r) \<noteq> None \<and> page_no r \<in> set (bt_pages t2) \<and> page_no r \<noteq> bt_page t2"
    by (rule rep_node [OF p(6) dd(2)]) blast
  obtain ka kb ks where ks: "bt_keys t2 = ka # kb # ks" using sz(2) length_bt_keys [of t2] by (cases "bt_keys t2"; cases "tl (bt_keys t2)") auto
  obtain ra rs where rs: "nd_rids h d2 = ra # rs"
    using d2(5) sz(2) length_nd_lists(2) [of h d2] by (cases "nd_rids h d2") auto
  have ne: "bt_page t1 \<noteq> bt_page t2" "bt_page t1 \<noteq> pp" "bt_page t2 \<noteq> pp" using dst pd bt_page_in [of t1] bt_page_in [of t2] by auto
  have kid: "ih_pages s (page_no ra) \<noteq> None \<and> page_no ra \<in> set (bt_pages t2) \<and> page_no ra \<noteq> bt_page t2" if "\<not> is_Lf t1"
    by (rule d2(6)) (use that kind rs in simp_all)
  have l1: "1 < length (nd_keys h dp)" using p(3) by (simp del: length_nd_lists)
  have sd: "nd_get_size d1 < ix_order h" using d1(5) sz(1) by simp
  have kl: "nd_is_leaf d2 = nd_is_leaf d1" "nd_keys h d2 = ka # kb # ks" using d1(3) d2(3,4) kind ks by simp_all
  obtain s' d1' d2' dp' where r: "redistribute (bt_page t2) (bt_page t1) pp 0 s = Some (Inr (), s')" "ih_hdr s' = ih_hdr s" "ih_next s' = ih_next s"
    "ih_pages s' = moved (nd_is_leaf d1) (bt_page t1) (page_no ra) ((ih_pages s)(bt_page t1 \<mapsto> d1', bt_page t2 \<mapsto> d2', pp \<mapsto> dp'))"
    "nd_ok h d1'" "same_links d1 d1'" "nd_keys h d1' = nd_keys h d1 @ [ka]" "nd_rids h d1' = nd_rids h d1 @ [ra]"
    "nd_ok h d2'" "same_links d2 d2'" "nd_keys h d2' = kb # ks" "nd_rids h d2' = rs"
    "nd_ok h dp'" "same_links dp dp'" "nd_keys h dp' = (nd_keys h dp)[1 := kb]" "nd_rids h dp' = nd_rids h dp"
    by (rule redistribute_first [OF i(1,2) d1(1,2) sd d2(1,2) kl rs p(1,2) l1 ne]) (use kid d1(3) in blast)+
  have rep': "rep h (ih_pages s') pp u1 \<and> rep h (ih_pages s') pp u2"
    unfolding u1_def u2_def
    by (rule rep_move_first [OF p(5,6) kind dst pr(1) _ d1(1) d2(1) kl(2) rs r(5-12) r(4) [unfolded d1(3)]]) (use pd in simp)
  have "bt_keys u2 = kb # ks" unfolding u2_def bt_keys_drop_app [OF kind] using ks by simp
  then have fk: "bt_first u2 = kb" using bt_first_keys [of u2] by simp
  note rg = regroup_pages [OF kind, of "Suc (bt_size t1)", folded u1_def u2_def]
  have "ix_shape h (plug (Nd pp ([] @ (k1, u1) # (bt_first u2, u2) # R)) c) s'"
  proof (rule siblings_shape [where L = "[]", OF _ r(2-4) refl _ _ _ d1(1) d2(1) p(1) r(5,6,9,10,13,14,16)])
    show "ix_shape h (plug (Nd pp ([] @ (k1, t1) # (k2, t2) # R)) c) s" using inv by simp
    show "nd_keys h dp' = map fst [] @ k1 # bt_first u2 # map fst R" using r(15) p(3) fk by simp
    show "distinct (bt_pages u1 @ bt_pages u2)" by (rule rg(4) [OF dst])
    show "page_no ra \<in> set (bt_pages t1) \<union> set (bt_pages t2) \<and> page_no ra \<noteq> bt_page t1 \<and> page_no ra \<noteq> bt_page t2" if "\<not> nd_is_leaf d1"
      using kid that d1(3) dst bt_page_in [of t1] by auto
  qed (use rep' rg in simp_all)
  then show ?thesis using r(1,3) by (intro that) simp_all
qed

lemma redistribute_tree_last:
  assumes inv: "ix_shape h (plug (Nd pp (L @ (k1, t1) # (k2, t2) # R)) c) s" and kind: "is_Lf t1 = is_Lf t2"
    and sz: "int (bt_size t2) < ix_order h" "bt_size t1 = Suc j"
  defines "u1 \<equiv> bt_take j (bt_app t1 t2)" and "u2 \<equiv> bt_drop (bt_page t2) j (bt_app t1 t2)"
  obtains s' where "redistribute (bt_page t1) (bt_page t2) pp (int (Suc (length L))) s = Some (Inr (), s')"
    "ih_next s' = ih_next s" "ix_shape h (plug (Nd pp (L @ (k1, u1) # (bt_first u2, u2) # R)) c) s'"
proof -
  note i = ix_shapeD [OF inv]
  obtain dp where p: "ih_pages s pp = Some dp" "nd_ok h dp" "nd_keys h dp = map fst L @ k1 # k2 # map fst R"
    "map page_no (nd_rids h dp) = map kid_page L @ bt_page t1 # bt_page t2 # map kid_page R"
    "rep h (ih_pages s) pp t1" "rep h (ih_pages s) pp t2" and dst: "distinct (bt_pages t1 @ bt_pages t2)"
    and pd: "pp \<notin> set (bt_pages t1) \<union> set (bt_pages t2)" and pr: "int_range (bt_page t1)" "int_range (bt_page t2)"
    by (rule shape_siblings [OF inv])
  have dd: "distinct (bt_pages t1)" "distinct (bt_pages t2)" using dst by simp_all
  obtain d1 where d1: "ih_pages s (bt_page t1) = Some d1" "nd_ok h d1" "nd_is_leaf d1 = is_Lf t1" "nd_keys h d1 = bt_keys t1" "nd_get_size d1 = int (bt_size t1)"
    "\<And>r. \<not> is_Lf t1 \<Longrightarrow> r \<in> set (nd_rids h d1) \<Longrightarrow> ih_pages s (page_no r) \<noteq> None \<and> page_no r \<in> set (bt_pages t1) \<and> page_no r \<noteq> bt_page t1"
    by (rule rep_node [OF p(5) dd(1)]) blast
  obtain d2 where d2: "ih_pages s (bt_page t2) = Some d2" "nd_ok h d2" "nd_is_leaf d2 = is_Lf t2" "nd_keys h d2 = bt_keys t2" "nd_get_size d2 = int (bt_size t2)"
    by (rule rep_node [OF p(6) dd(2)]) blast
  obtain ks ka where ks: "bt_keys t1 = ks @ [ka]" using sz(2) length_bt_keys [of t1] by (cases "bt_keys t1" rule: rev_cases) auto
  obtain rs ra where rs: "nd_rids h d1 = rs @ [ra]"
    using d1(5) sz(2) length_nd_lists(2) [of h d1] by (cases "nd_rids h d1" rule: rev_cases) auto
  have lk: "length ks = j" using arg_cong [OF ks, of length] sz(2) by simp
  have ne: "bt_page t2 \<noteq> bt_page t1" "bt_page t2 \<noteq> pp" "bt_page t1 \<noteq> pp" using dst pd bt_page_in [of t1] bt_page_in [of t2] by auto
  have kid: "ih_pages s (page_no ra) \<noteq> None \<and> page_no ra \<in> set (bt_pages t1) \<and> page_no ra \<noteq> bt_page t1" if "\<not> is_Lf t2"
    by (rule d1(6)) (use that kind rs in simp_all)
  have l1: "Suc (length L) < length (nd_keys h dp)" using p(3) by (simp del: length_nd_lists)
  have sd: "nd_get_size d2 < ix_order h" using d2(5) sz(1) by simp
  have kl: "nd_is_leaf d1 = nd_is_leaf d2" "nd_keys h d1 = ks @ [ka]" using d1(3,4) d2(3) kind ks by simp_all
  obtain s' d2' d1' dp' where r: "redistribute (bt_page t1) (bt_page t2) pp (int (Suc (length L))) s = Some (Inr (), s')" "ih_hdr s' = ih_hdr s" "ih_next s' = ih_next s"
    "ih_pages s' = moved (nd_is_leaf d2) (bt_page t2) (page_no ra) ((ih_pages s)(bt_page t2 \<mapsto> d2', bt_page t1 \<mapsto> d1', pp \<mapsto> dp'))"
    "nd_ok h d2'" "same_links d2 d2'" "nd_keys h d2' = ka # nd_keys h d2" "nd_rids h d2' = ra # nd_rids h d2"
    "nd_ok h d1'" "same_links d1 d1'" "nd_keys h d1' = ks" "nd_rids h d1' = rs"
    "nd_ok h dp'" "same_links dp dp'" "nd_keys h dp' = (nd_keys h dp)[Suc (length L) := ka]" "nd_rids h dp' = nd_rids h dp"
    by (rule redistribute_last [OF i(1,2) d2(1,2) sd d1(1,2) kl rs p(1,2) l1 zero_less_Suc ne]) (use kid d2(3) in blast)+
  have rep': "rep h (ih_pages s') pp u1 \<and> rep h (ih_pages s') pp u2"
    unfolding u1_def u2_def
    by (rule rep_move_last [OF p(5,6) kind dst pr(2) _ d1(1) d2(1) kl(2) rs lk r(9-12,5-8) r(4) [unfolded d2(3) kind [symmetric]]]) (use pd in simp)
  have "bt_keys u2 = ka # bt_keys t2" unfolding u2_def bt_keys_drop_app [OF kind] using ks lk by simp
  then have fk: "bt_first u2 = ka" using bt_first_keys [of u2] by simp
  note rg = regroup_pages [OF kind, of j, folded u1_def u2_def]
  have "ix_shape h (plug (Nd pp (L @ (k1, u1) # (bt_first u2, u2) # R)) c) s'"
  proof (rule siblings_shape [OF inv r(2-4) refl _ _ _ d2(1) d1(1) p(1) r(5,6,9,10,13,14,16)])
    show "nd_keys h dp' = map fst L @ k1 # bt_first u2 # map fst R" using r(15) p(3) fk by (simp add: list_update_append)
    show "distinct (bt_pages u1 @ bt_pages u2)" by (rule rg(4) [OF dst])
    show "page_no ra \<in> set (bt_pages t1) \<union> set (bt_pages t2) \<and> page_no ra \<noteq> bt_page t2 \<and> page_no ra \<noteq> bt_page t1" if "\<not> nd_is_leaf d2"
      using kid that d2(3) dst bt_page_in [of t2] by auto
  qed (use rep' rg in simp_all)
  then show ?thesis using r(1,3) by (intro that)
qed

section \<open>Merging two siblings\<close>

definition unlink_right :: "ix_file_hdr \<Rightarrow> bool \<Rightarrow> int \<Rightarrow> int \<Rightarrow> unit ixm" where
  "unlink_right h leaf left right =
    (if leaf then ix_bind (if right = ix_last_leaf h then ix_set_hdr (h\<lparr>ix_last_leaf := left\<rparr>) else ix_ret ()) (\<lambda>_. erase_leaf right)
     else ix_ret ())"

text \<open>The steps of \<^verbatim>\<open>coalesce\<close> up to the recursive call.\<close>

lemma coalesce_run:
  assumes tup: "(if index = 0 then (p, nb, 1) else (nb, p, index)) = (left, right, i)"
    and g: "geo h (ih_hdr s)" and pg: "ih_pages s left = Some dl" "ih_pages s right = Some dr"
    and ins: "nd_insert_pairs h dl (nd_get_size dl) (mem_read dr (key_off h 0) (nat (nd_get_size dr) * klen h))
      (map (\<lambda>j. nd_get_rid h dr (int j)) [0..<nat (nd_get_size dr)]) (nat (nd_get_size dr)) = Inr dl'"
    and loop: "ix_for [nat (nd_get_size dl)..<nat (nd_get_size dl')] (\<lambda>j. maintain_child left (int j)) (s\<lparr>ih_pages := (ih_pages s)(left \<mapsto> dl')\<rparr>) = Some (Inr (), s2)"
    and unl: "unlink_right (ih_hdr s) (nd_is_leaf dr) left right s2 = Some (Inr (), s3)"
    and par: "ih_pages s3 pp = Some dp" "nd_erase_pair h dp i = Inr dp'"
  obtains s4 where "coalesce up nb p pp index s = (if nd_get_size dp' < ix_order h div 2 then up pp s4 else Some (Inr False, s4))"
    "ih_pages s4 = (ih_pages s3)(pp \<mapsto> dp')" "ih_hdr s4 = (ih_hdr s3)\<lparr>ix_num_pages := ix_num_pages (ih_hdr s3) - 1\<rparr>" "ih_next s4 = ih_next s3"
proof -
  note gs = geo_simps [OF g]
  define s4 where "s4 = snd (the (set_page pp dp' (snd (the (release_node_handle right s3)))))"
  have s4: "ih_pages s4 = (ih_pages s3)(pp \<mapsto> dp')" "ih_hdr s4 = (ih_hdr s3)\<lparr>ix_num_pages := ix_num_pages (ih_hdr s3) - 1\<rparr>" "ih_next s4 = ih_next s3"
    by (auto simp: s4_def release_node_handle_def ix_prims)
  have "coalesce up nb p pp index s = (if nd_get_size dp' < ix_order h div 2 then up pp s4 else Some (Inr False, s4))"
    unfolding coalesce_def tup Let_def prod.case
    using pg ins loop par unl gs(1,2,3,5,14,17) unfolding unlink_right_def
    by (auto simp: ix_prims release_node_handle_def s4_def)
  then show ?thesis using s4 by (rule that)
qed

lemma maintain_children_leaf:
  assumes "ih_pages s q = Some e" "nd_is_leaf e"
  shows "ix_for is (\<lambda>i. maintain_child q (int i)) s = Some (Inr (), s)"
  using assms by (induction "is") (simp_all add: maintain_child_def ix_prims)

text \<open>The pairs of the right node appended to the left one, and the children they point to.\<close>

lemma merge_pairs:
  assumes h: "hdr_ok h" and g: "geo h (ih_hdr s)" and l: "ih_pages s left = Some dl" "nd_ok h dl" and r: "nd_ok h dr" "nd_is_leaf dr = nd_is_leaf dl"
    and room: "nd_get_size dl + nd_get_size dr \<le> ix_order h" and ps: "map page_no (nd_rids h dr) = ps"
    and kids: "\<not> nd_is_leaf dl \<Longrightarrow> distinct ps \<and> (\<forall>x\<in>set ps. ih_pages s x \<noteq> None \<and> x \<noteq> left)"
  obtains dl' s2 where "nd_insert_pairs h dl (nd_get_size dl) (mem_read dr (key_off h 0) (nat (nd_get_size dr) * klen h))
      (map (\<lambda>j. nd_get_rid h dr (int j)) [0..<nat (nd_get_size dr)]) (nat (nd_get_size dr)) = Inr dl'"
    "nd_ok h dl'" "same_links dl dl'" "nd_keys h dl' = nd_keys h dl @ nd_keys h dr" "nd_rids h dl' = nd_rids h dl @ nd_rids h dr"
    "ix_for [nat (nd_get_size dl)..<nat (nd_get_size dl')] (\<lambda>j. maintain_child left (int j)) (s\<lparr>ih_pages := (ih_pages s)(left \<mapsto> dl')\<rparr>) = Some (Inr (), s2)"
    "ih_hdr s2 = ih_hdr s" "ih_next s2 = ih_next s"
    "ih_pages s2 = (if nd_is_leaf dl then (ih_pages s)(left \<mapsto> dl') else reparent left (set ps) ((ih_pages s)(left \<mapsto> dl')))"
proof -
  have dm: "ix_dims h" using h by (simp add: hdr_ok_def)
  define a where "a = length (nd_rids h dl)"
  define b where "b = length (nd_rids h dr)"
  have sz: "nd_get_size dl = int a" "nd_get_size dr = int b" using l(2) r(1) by (simp_all add: nd_ok_def a_def b_def)
  have lens: "length (nd_keys h dl) = a" "length (nd_keys h dr) = b" by (simp_all add: a_def b_def)
  obtain dl' where d': "nd_insert_pairs h dl (int a) (mem_read dr (key_off h (int 0)) (b * klen h)) (map (\<lambda>i. nd_get_rid h dr (int i)) [0..<0 + b]) b = Inr dl'"
    "nd_ok h dl'" "same_links dl dl'" "nd_get_size dl' = nd_get_size dl + int b"
    "nd_keys h dl' = take a (nd_keys h dl) @ take b (drop 0 (nd_keys h dr)) @ drop a (nd_keys h dl)"
    "nd_rids h dl' = take a (nd_rids h dl) @ take b (drop 0 (nd_rids h dr)) @ drop a (nd_rids h dl)"
    by (rule nd_copy_pairs [OF dm r(1) l(2), where m = 0 and n = b and p = a]) (use lens sz room in simp_all)
  have kr: "nd_keys h dl' = nd_keys h dl @ nd_keys h dr" "nd_rids h dl' = nd_rids h dl @ nd_rids h dr"
    using d'(5,6) lens by (simp_all add: a_def b_def)
  let ?s = "s\<lparr>ih_pages := (ih_pages s)(left \<mapsto> dl')\<rparr>" and ?P = "(ih_pages s)(left \<mapsto> dl')"
  have lf: "nd_is_leaf dl' = nd_is_leaf dl" using d'(3) by (simp add: same_links_def)
  have ix: "[nat (nd_get_size dl)..<nat (nd_get_size dl')] = [a..<a + b]" using sz d'(4) by (simp add: nat_add_distrib)
  have "\<exists>s2. ix_for [a..<a + b] (\<lambda>j. maintain_child left (int j)) ?s = Some (Inr (), s2) \<and> ih_hdr s2 = ih_hdr s \<and> ih_next s2 = ih_next s \<and>
    ih_pages s2 = (if nd_is_leaf dl then ?P else reparent left (set ps) ?P)"
  proof (cases "nd_is_leaf dl")
    case True
    then show ?thesis using maintain_children_leaf [of ?s left dl'] lf by simp
  next
    case False
    note k = kids [OF False]
    let ?ps = "map page_no (nd_rids h dl) @ ps"
    have pd: "map page_no (nd_rids h dl') = ?ps" using kr(2) ps by simp
    have la: "length (map page_no (nd_rids h dl)) = a" "length ps = b" using arg_cong [OF ps, of length] by (simp_all add: a_def b_def)
    have m: "map ((!) ?ps) [a..<a + b] = ps"
      by (rule nth_equalityI) (use la in \<open>simp_all add: nth_append\<close>)
    have "\<exists>s'. ix_for [a..<a + b] (\<lambda>i. maintain_child left (int i)) ?s = Some (Inr (), s') \<and> ih_hdr s' = ih_hdr ?s \<and> ih_next s' = ih_next ?s \<and> ih_fd s' = ih_fd ?s \<and>
      ih_pages s' = reparent left ((!) ?ps ` set [a..<a + b]) (ih_pages ?s)"
    proof (rule maintain_children_rep [OF h _ _ _ pd])
      show "geo h (ih_hdr ?s)" "ih_pages ?s left = Some dl'" "\<not> nd_is_leaf dl'" using g lf False by simp_all
      show "distinct (map ((!) ?ps) [a..<a + b])" unfolding m using k by blast
      fix i assume i: "i \<in> set [a..<a + b]"
      then have "?ps ! i \<in> set (map ((!) ?ps) [a..<a + b])" by (simp only: set_map) blast
      then have "?ps ! i \<in> set ps" unfolding m .
      then show "i < length ?ps \<and> ih_pages ?s (?ps ! i) \<noteq> None \<and> ?ps ! i \<noteq> left" using i la k by simp
    qed
    moreover have "(!) ?ps ` set [a..<a + b] = set ps" using arg_cong [OF m, of set] by (simp only: set_map)
    ultimately show ?thesis using False by auto
  qed
  then obtain s2 where "ix_for [a..<a + b] (\<lambda>j. maintain_child left (int j)) ?s = Some (Inr (), s2)" "ih_hdr s2 = ih_hdr s" "ih_next s2 = ih_next s"
    "ih_pages s2 = (if nd_is_leaf dl then ?P else reparent left (set ps) ?P)" by blast
  then show ?thesis using d'(1-3) kr sz ix by (intro that [of dl' s2]) simp_all
qed

text \<open>The right leaf leaves the list of leaves.\<close>

lemma linked_remove:
  assumes "linked P (xs @ p # q # nx # ys)" "p \<notin> set xs" "p \<notin> set (butlast (nx # ys))" "nx \<notin> set (tl (xs @ [p]))" "nx \<notin> set ys"
    and next': "next_of P' p = Some nx" "\<And>x. x \<noteq> p \<Longrightarrow> next_of P' x = next_of P x"
    and prev': "prev_of P' nx = Some p" "\<And>x. x \<noteq> nx \<Longrightarrow> prev_of P' x = prev_of P x"
  shows "linked P' (xs @ p # nx # ys)"
proof -
  have l: "linked P (xs @ [p])" "linked P (nx # ys)"
    using assms(1) linked_append [of P xs p "q # nx # ys"] by (simp_all add: linked_Cons2 del: linked.simps)
  have "linked P' (xs @ [p])"
  proof (rule linked_cong [OF l(1)])
    show "next_of P' x = next_of P x" if "x \<in> set (butlast (xs @ [p]))" for x by (rule next'(2)) (use that assms(2) in auto)
    show "prev_of P' x = prev_of P x" if "x \<in> set (tl (xs @ [p]))" for x by (rule prev'(2)) (use that assms(4) in blast)
  qed
  moreover have "linked P' (nx # ys)"
  proof (rule linked_cong [OF l(2)])
    show "next_of P' x = next_of P x" if "x \<in> set (butlast (nx # ys))" for x by (rule next'(2)) (use that assms(3) in blast)
    show "prev_of P' x = prev_of P x" if "x \<in> set (tl (nx # ys))" for x by (rule prev'(2)) (use that assms(5) in auto)
  qed
  ultimately show ?thesis
    using next'(1) prev'(1) linked_append [of P' xs p "nx # ys"] by (simp add: linked_Cons2 del: linked.simps)
qed

lemma unlink_leaf:
  assumes r: "ih_pages s right = Some dr" "nd_is_leaf dr" "nd_prev_leaf dr = left" "nd_next_leaf dr = nx"
    and ln: "ih_pages s left = Some dl" "ih_pages s nx = Some dn" "nx \<noteq> left"
  obtains s' where "unlink_right (ih_hdr s) True left right s = Some (Inr (), s')" "ih_next s' = ih_next s"
    "ih_pages s' = (ih_pages s)(left \<mapsto> nd_set_next_leaf dl nx, nx \<mapsto> nd_set_prev_leaf dn left)"
    "ih_hdr s' = (if right = ix_last_leaf (ih_hdr s) then (ih_hdr s)\<lparr>ix_last_leaf := left\<rparr> else ih_hdr s)"
proof -
  have "\<exists>s'. unlink_right (ih_hdr s) True left right s = Some (Inr (), s') \<and> ih_next s' = ih_next s \<and>
    ih_pages s' = (ih_pages s)(left \<mapsto> nd_set_next_leaf dl nx, nx \<mapsto> nd_set_prev_leaf dn left) \<and>
    ih_hdr s' = (if right = ix_last_leaf (ih_hdr s) then (ih_hdr s)\<lparr>ix_last_leaf := left\<rparr> else ih_hdr s)"
    using assms by (cases "right = ix_last_leaf (ih_hdr s)") (auto simp add: unlink_right_def erase_leaf_def ix_prims Let_def)
  then show ?thesis using that by blast
qed

lemma parent_erase:
  assumes "ix_dims h" "nd_ok h dp" "nd_keys h dp = map fst L @ k1 # k2 # map fst R"
    "map page_no (nd_rids h dp) = map kid_page L @ p1 # p2 # map kid_page R"
  obtains dp' where "nd_erase_pair h dp (int (Suc (length L))) = Inr dp'" "nd_ok h dp'" "same_links dp dp'"
    "nd_keys h dp' = map fst L @ k1 # map fst R" "map page_no (nd_rids h dp') = map kid_page L @ p1 # map kid_page R"
    "nd_get_size dp' = int (Suc (length L + length R))"
proof -
  let ?i = "Suc (length L)"
  have lt: "int ?i < nd_get_size dp" using nd_size_length [OF assms(2)] arg_cong [OF assms(3), of length] by (simp del: length_nd_lists)
  obtain dp' where d: "nd_erase_pair h dp (int ?i) = Inr dp'" "nd_ok h dp'" "same_links dp dp'"
    "nd_keys h dp' = take (nat (int ?i)) (nd_keys h dp) @ drop (Suc (nat (int ?i))) (nd_keys h dp)"
    "nd_rids h dp' = take (nat (int ?i)) (nd_rids h dp) @ drop (Suc (nat (int ?i))) (nd_rids h dp)"
    by (rule nd_erase_pair_lists [OF assms(1,2) of_nat_0_le_iff lt]) blast
  have k: "nd_keys h dp' = map fst L @ k1 # map fst R" using d(4) assms(3) by (simp only: nat_int) simp
  have "map page_no (nd_rids h dp') = take ?i (map page_no (nd_rids h dp)) @ drop (Suc ?i) (map page_no (nd_rids h dp))"
    using d(5) by (simp only: nat_int map_append take_map drop_map)
  then have "map page_no (nd_rids h dp') = map kid_page L @ p1 # map kid_page R" using assms(4) by simp
  moreover have "nd_get_size dp' = int (Suc (length L + length R))"
    using nd_size_length [OF d(2)] arg_cong [OF k, of length] by (simp del: length_nd_lists)
  ultimately show ?thesis using that d(1-3) k by blast
qed

lemma bt_app_pages:
  assumes "is_Lf t1 = is_Lf t2"
  shows "bt_page (bt_app t1 t2) = bt_page t1" "set (bt_pages (bt_app t1 t2)) \<subseteq> set (bt_pages t1) \<union> set (bt_pages t2)"
    "distinct (bt_pages t1 @ bt_pages t2) \<Longrightarrow> distinct (bt_pages (bt_app t1 t2))"
    "leaf_pages (bt_app t1 t2) = (if is_Lf t1 then leaf_pages t1 else leaf_pages t1 @ leaf_pages t2)"
  using assms by (cases t1; cases t2; auto)+

lemma merged_shape:
  assumes inv: "ix_shape h (plug (Nd pp (L @ (k1, t1) # (k2, t2) # R)) c) s" and kind: "is_Lf t1 = is_Lf t2"
    and same: "\<And>x. x \<noteq> pp \<Longrightarrow> x \<notin> set (bt_pages t1) \<union> set (bt_pages t2) \<Longrightarrow> node_eq (ih_pages s) (ih_pages s') x"
    and rp: "rep h (ih_pages s') pp (bt_app t1 t2)"
    and dp: "ih_pages s pp = Some dp" "ih_pages s' pp = Some dp'" "nd_ok h dp'" "same_links dp dp'" "nd_keys h dp' = map fst L @ k1 # map fst R"
      "map page_no (nd_rids h dp') = map kid_page L @ bt_page t1 # map kid_page R"
    and s': "geo h (ih_hdr s')" "ix_root (ih_hdr s') = ix_root (ih_hdr s)" "ih_next s' = ih_next s"
    and hl: "\<exists>d. ih_pages s' IX_LEAF_HEADER_PAGE = Some d \<and> length d = PAGE_SIZE"
    and lv: "linked (ih_pages s') (IX_LEAF_HEADER_PAGE # leaf_pages (plug (Nd pp (L @ (k1, bt_app t1 t2) # R)) c) @ [IX_LEAF_HEADER_PAGE])"
      "ix_first_leaf (ih_hdr s') = hd (leaf_pages (plug (Nd pp (L @ (k1, bt_app t1 t2) # R)) c))"
      "ix_last_leaf (ih_hdr s') = last (leaf_pages (plug (Nd pp (L @ (k1, bt_app t1 t2) # R)) c))"
  shows "ix_shape h (plug (Nd pp (L @ (k1, bt_app t1 t2) # R)) c) s'"
proof -
  obtain dp0 where p: "ih_pages s pp = Some dp0" "nd_ok h dp0" "\<not> nd_is_leaf dp0" "nd_parent dp0 = ctx_par c"
    and kids: "\<And>kt. kt \<in> set L \<union> set R \<Longrightarrow> rep h (ih_pages s) pp (snd kt)" and dd: "distinct (bt_pages t1 @ bt_pages t2)"
    and kd: "\<And>kt x. kt \<in> set L \<union> set R \<Longrightarrow> x \<in> set (bt_pages (snd kt)) \<Longrightarrow> x \<noteq> pp \<and> x \<notin> set (bt_pages t1) \<union> set (bt_pages t2)"
    and cd: "\<And>x. x \<in> set (ctx_pages c) \<Longrightarrow> x \<noteq> pp \<and> x \<notin> set (bt_pages t1) \<union> set (bt_pages t2)"
    and dst: "distinct (pp # kids_pages L @ bt_pages t1 @ bt_pages t2 @ kids_pages R)" by (rule shape_pair [OF inv]) blast
  note ap = bt_app_pages [OF kind]
  have "innerp h (ih_pages s') pp (ctx_par c) (map fst (L @ (k1, bt_app t1 t2) # R)) (map kid_page (L @ (k1, bt_app t1 t2) # R))"
    using dp p ap(1) by (simp add: nodep_def same_links_def)
  moreover have "rep h (ih_pages s') pp (snd kt)" if "kt \<in> set L \<union> set R" for kt
    by (rule rep_relink [OF kids [OF that]]) (use kd [OF that] same in blast)
  ultimately have "rep h (ih_pages s') (ctx_par c) (Nd pp (L @ (k1, bt_app t1 t2) # R))" using rp by auto
  then show ?thesis
  proof (rule ix_shape_subtree [OF inv])
    show "node_eq (ih_pages s) (ih_pages s') x" if "x \<in> set (ctx_pages c)" for x using same cd [OF that] by blast
    have e: "bt_pages (Nd pp (L @ (k1, bt_app t1 t2) # R)) = pp # kids_pages L @ bt_pages (bt_app t1 t2) @ kids_pages R" by simp
    have e0: "bt_pages (Nd pp (L @ (k1, t1) # (k2, t2) # R)) = pp # kids_pages L @ (bt_pages t1 @ bt_pages t2) @ kids_pages R" by simp
    have sub: "set (bt_pages (bt_app t1 t2)) \<subseteq> set (bt_pages t1 @ bt_pages t2)" using ap(2) by simp
    have "distinct (pp # kids_pages L @ (bt_pages t1 @ bt_pages t2) @ kids_pages R)" using dst by (simp only: append_assoc)
    then show "distinct (bt_pages (Nd pp (L @ (k1, bt_app t1 t2) # R)))"
      unfolding e distinct.simps distinct_around [of "kids_pages L"] set_append [of "kids_pages L"] set_append [of "bt_pages t1 @ bt_pages t2"] set_append [of "bt_pages (bt_app t1 t2)"]
      using ap(3) [OF dd] sub by blast
    show "set (bt_pages (Nd pp (L @ (k1, bt_app t1 t2) # R))) \<subseteq> set (bt_pages (Nd pp (L @ (k1, t1) # (k2, t2) # R)))"
      unfolding e e0 list.set set_append [of "kids_pages L"] set_append [of "bt_pages t1 @ bt_pages t2"] set_append [of "bt_pages (bt_app t1 t2)"]
      using sub by blast
  qed (use s' hl lv in simp_all)
qed

lemma rep_leaf_page: "rep h P par t \<Longrightarrow> x \<in> set (leaf_pages t) \<Longrightarrow> \<exists>d. P x = Some d \<and> nd_is_leaf d"
  by (induction t arbitrary: par rule: bt_pages.induct) (auto simp: nodep_def)

lemma coalesce_leaf:
  assumes inv: "ix_shape h (plug (Nd pp (L @ (k1, Lf p1 a) # (k2, Lf p2 b) # R)) c) s" and room: "int (length a + length b) \<le> ix_order h"
    and tup: "(if index = 0 then (p, nb, 1) else (nb, p, index)) = (p1, p2, int (Suc (length L)))"
  obtains s' where "coalesce up nb p pp index s = (if int (Suc (length L + length R)) < ix_order h div 2 then up pp s' else Some (Inr False, s'))"
    "ix_shape h (plug (Nd pp (L @ (k1, Lf p1 (a @ b)) # R)) c) s'" "ih_next s' = ih_next s"
proof -
  note i = ix_shapeD [OF inv]
  have dm: "ix_dims h" using i(1) by (simp add: hdr_ok_def)
  let ?H = IX_LEAF_HEADER_PAGE
  obtain dp where p: "ih_pages s pp = Some dp" "nd_ok h dp" "nd_keys h dp = map fst L @ k1 # k2 # map fst R"
    "map page_no (nd_rids h dp) = map kid_page L @ bt_page (Lf p1 a) # bt_page (Lf p2 b) # map kid_page R"
    "rep h (ih_pages s) pp (Lf p1 a)" "rep h (ih_pages s) pp (Lf p2 b)" and dst: "distinct (bt_pages (Lf p1 a) @ bt_pages (Lf p2 b))"
    and pd: "pp \<notin> set (bt_pages (Lf p1 a)) \<union> set (bt_pages (Lf p2 b))" and pr: "int_range (bt_page (Lf p1 a))" "int_range (bt_page (Lf p2 b))" and nl: "\<not> nd_is_leaf dp"
    by (rule shape_siblings [OF inv])
  have ne: "p1 \<noteq> p2" "p1 \<noteq> pp" "p2 \<noteq> pp" using dst pd by auto
  obtain dl where dl: "ih_pages s p1 = Some dl" "nd_ok h dl" "nd_is_leaf dl" "nd_parent dl = pp" "nd_keys h dl = map fst a" "nd_rids h dl = map snd a"
    using p(5) by (auto simp: nodep_def)
  obtain dr where dr: "ih_pages s p2 = Some dr" "nd_ok h dr" "nd_is_leaf dr" "nd_parent dr = pp" "nd_keys h dr = map fst b" "nd_rids h dr = map snd b"
    using p(6) by (auto simp: nodep_def)
  define XS where "XS = left_of leaf_pages c @ concat (map (\<lambda>kt. leaf_pages (snd kt)) L)"
  define YS where "YS = concat (map (\<lambda>kt. leaf_pages (snd kt)) R) @ right_of leaf_pages c"
  have lp: "leaf_pages (plug (Nd pp (L @ (k1, Lf p1 a) # (k2, Lf p2 b) # R)) c) = XS @ p1 # p2 # YS" by (simp add: leaf_pages_plug XS_def YS_def)
  have lp': "leaf_pages (plug (Nd pp (L @ (k1, Lf p1 (a @ b)) # R)) c) = XS @ p1 # YS" by (simp add: leaf_pages_plug XS_def YS_def)
  have dl': "distinct (XS @ p1 # p2 # YS)" using distinct_leaf_pages [OF i(5)] by (simp add: lp)
  have pgl: "x \<in> set (bt_pages (plug (Nd pp (L @ (k1, Lf p1 a) # (k2, Lf p2 b) # R)) c))" if "x \<in> set (XS @ p1 # p2 # YS)" for x
    using leaf_pages_subset that unfolding lp [symmetric] by blast
  have hl: "?H \<notin> set (XS @ p1 # p2 # YS)" using i(6) [OF pgl] by blast
  obtain nx ys where nx: "YS @ [?H] = nx # ys" by (cases "YS @ [?H]") auto
  have lk: "linked (ih_pages s) ((?H # XS) @ p1 # p2 # nx # ys)" using i(8) lp nx by simp
  have lks: "nd_prev_leaf dr = p1" "nd_next_leaf dr = nx"
    using lk linked_append [of "ih_pages s" "?H # XS" p1 "p2 # nx # ys"] dr(1) by (simp_all add: linked_Cons2 next_of_def prev_of_def del: linked.simps)
  have inx: "nx = ?H \<or> nx \<in> set YS" using arg_cong [OF nx, of hd] by (cases YS) auto
  then have nne: "nx \<noteq> p1" "nx \<noteq> p2" using dl' hl by auto
  obtain dn where dn: "ih_pages s nx = Some dn" "length dn = PAGE_SIZE"
    using inx i(7) rep_page_length [OF i(4) pgl, of nx] by auto
  have nxpp: "nx \<noteq> pp"
  proof
    assume eq: "nx = pp"
    moreover have "?H < pp" using i(6) [of pp] by (auto simp: set_pages_plug)
    ultimately have "nx \<in> set (XS @ p1 # p2 # YS)" using inx by auto
    then show False using rep_leaf_page [OF i(4), of nx] nl p(1) eq unfolding lp by simp
  qed
  obtain dp' where dp': "nd_erase_pair h dp (int (Suc (length L))) = Inr dp'" "nd_ok h dp'" "same_links dp dp'"
    "nd_keys h dp' = map fst L @ k1 # map fst R" "map page_no (nd_rids h dp') = map kid_page L @ bt_page (Lf p1 a) # map kid_page R"
    "nd_get_size dp' = int (Suc (length L + length R))" by (rule parent_erase [OF dm p(2-4)])
  have rm: "nd_get_size dl + nd_get_size dr \<le> ix_order h" using room nd_size_length [OF dl(2)] nd_size_length [OF dr(2)] dl(5) dr(5) by simp
  have kd: "nd_is_leaf dr = nd_is_leaf dl" using dl(3) dr(3) by simp
  obtain e s2 where m: "nd_insert_pairs h dl (nd_get_size dl) (mem_read dr (key_off h 0) (nat (nd_get_size dr) * klen h))
      (map (\<lambda>j. nd_get_rid h dr (int j)) [0..<nat (nd_get_size dr)]) (nat (nd_get_size dr)) = Inr e"
    "nd_ok h e" "same_links dl e" "nd_keys h e = nd_keys h dl @ nd_keys h dr" "nd_rids h e = nd_rids h dl @ nd_rids h dr"
    "ix_for [nat (nd_get_size dl)..<nat (nd_get_size e)] (\<lambda>j. maintain_child p1 (int j)) (s\<lparr>ih_pages := (ih_pages s)(p1 \<mapsto> e)\<rparr>) = Some (Inr (), s2)"
    "ih_hdr s2 = ih_hdr s" "ih_next s2 = ih_next s"
    "ih_pages s2 = (if nd_is_leaf dl then (ih_pages s)(p1 \<mapsto> e) else reparent p1 (set (map page_no (nd_rids h dr))) ((ih_pages s)(p1 \<mapsto> e)))"
    by (rule merge_pairs [OF i(1,2) dl(1,2) dr(2) kd rm refl]) (use dl(3) in blast)+
  have s2: "ih_pages s2 = (ih_pages s)(p1 \<mapsto> e)" using m(9) dl(3) by simp
  have l2: "ih_pages s2 p2 = Some dr" "ih_pages s2 p1 = Some e" "ih_pages s2 nx = Some dn" using s2 dr(1) dn(1) ne nne by simp_all
  obtain s3 where s3: "unlink_right (ih_hdr s2) True p1 p2 s2 = Some (Inr (), s3)" "ih_next s3 = ih_next s2"
    "ih_pages s3 = (ih_pages s2)(p1 \<mapsto> nd_set_next_leaf e nx, nx \<mapsto> nd_set_prev_leaf dn p1)"
    "ih_hdr s3 = (if p2 = ix_last_leaf (ih_hdr s2) then (ih_hdr s2)\<lparr>ix_last_leaf := p1\<rparr> else ih_hdr s2)"
    by (rule unlink_leaf [OF l2(1) dr(3) lks l2(2,3) nne(1)])
  have unl: "unlink_right (ih_hdr s) (nd_is_leaf dr) p1 p2 s2 = Some (Inr (), s3)" using s3(1) m(7) dr(3) by simp
  have par3: "ih_pages s3 pp = Some dp" using s3(3) s2 p(1) ne nxpp by simp
  obtain s4 where s4: "coalesce up nb p pp index s = (if nd_get_size dp' < ix_order h div 2 then up pp s4 else Some (Inr False, s4))"
    "ih_pages s4 = (ih_pages s3)(pp \<mapsto> dp')" "ih_hdr s4 = (ih_hdr s3)\<lparr>ix_num_pages := ix_num_pages (ih_hdr s3) - 1\<rparr>" "ih_next s4 = ih_next s3"
    by (rule coalesce_run [OF tup i(2) dl(1) dr(1) m(1,6) unl par3 dp'(1)])
  let ?e = "nd_set_next_leaf e nx" and ?n = "nd_set_prev_leaf dn p1"
  have len: "length e = PAGE_SIZE" "length dl = PAGE_SIZE" using nd_ok_length [OF m(2)] nd_ok_length [OF dl(2)] by simp_all
  have P4: "ih_pages s4 p1 = Some ?e" "ih_pages s4 nx = Some ?n" "ih_pages s4 pp = Some dp'"
    "\<And>x. x \<noteq> p1 \<Longrightarrow> x \<noteq> nx \<Longrightarrow> x \<noteq> pp \<Longrightarrow> ih_pages s4 x = ih_pages s x" using s4(2) s3(3) s2 ne nne nxpp by simp_all
  have nr: "int_range nx" using nd_get_next_range [of dr] lks(2) by simp
  have lnk: "linked (ih_pages s4) ((?H # XS) @ p1 # nx # ys)"
  proof (rule linked_remove [OF lk])
    show "p1 \<notin> set (?H # XS)" using dl' hl by auto
    have "butlast (nx # ys) = YS" unfolding nx [symmetric] by simp
    then show "p1 \<notin> set (butlast (nx # ys))" using dl' by simp
    show "nx \<notin> set (tl ((?H # XS) @ [p1]))" using inx hl dl' by auto
    show "nx \<notin> set ys" using nx hl dl' by (cases YS) auto
    show "next_of (ih_pages s4) p1 = Some nx" "prev_of (ih_pages s4) nx = Some p1"
      using P4(1,2) nr pr(1) len dn(2) by (simp_all add: next_of_def prev_of_def link_simps)
    show "next_of (ih_pages s4) x = next_of (ih_pages s) x" if "x \<noteq> p1" for x
      using that P4(2-4) dn p(1) dp'(3) by (cases "x = nx"; cases "x = pp") (simp_all add: next_of_def link_simps same_links_def)
    show "prev_of (ih_pages s4) x = prev_of (ih_pages s) x" if "x \<noteq> nx" for x
      using that P4(1,3,4) dl(1) m(3) len p(1) dp'(3) by (cases "x = p1"; cases "x = pp") (simp_all add: prev_of_def link_simps same_links_def)
  qed
  have "ix_shape h (plug (Nd pp (L @ (k1, bt_app (Lf p1 a) (Lf p2 b)) # R)) c) s4"
  proof (rule merged_shape [OF inv _ _ _ p(1) P4(3) dp'(2-5)])
    show "node_eq (ih_pages s) (ih_pages s4) x" if "x \<noteq> pp" "x \<notin> set (bt_pages (Lf p1 a)) \<union> set (bt_pages (Lf p2 b))" for x
      using that P4(2) P4(4) [of x] dn by (cases "x = nx") (auto simp: node_eq_def)
    show "rep h (ih_pages s4) pp (bt_app (Lf p1 a) (Lf p2 b))"
      using P4(1) m(2-5) dl(3-6) dr(5,6) len by (simp add: nodep_def link_simps same_links_def)
    show "\<exists>d. ih_pages s4 ?H = Some d \<and> length d = PAGE_SIZE"
    proof (cases "?H = nx")
      case False
      have "?H \<noteq> pp" "?H \<noteq> p1" using i(6) [of pp] hl by (auto simp: set_pages_plug)
      then show ?thesis using P4(4) [of ?H] i(7) False by auto
    qed (use P4(2) dn(2) in \<open>simp add: link_simps\<close>)
    show "linked (ih_pages s4) (?H # leaf_pages (plug (Nd pp (L @ (k1, bt_app (Lf p1 a) (Lf p2 b)) # R)) c) @ [?H])"
      using lnk nx lp' by simp
    show "ix_first_leaf (ih_hdr s4) = hd (leaf_pages (plug (Nd pp (L @ (k1, bt_app (Lf p1 a) (Lf p2 b)) # R)) c))"
      using i(9) lp lp' s4(3) s3(4) m(7) by (cases XS) simp_all
    have ll: "ix_last_leaf (ih_hdr s) = last (p2 # YS)" using i(10) lp by simp
    show "ix_last_leaf (ih_hdr s4) = last (leaf_pages (plug (Nd pp (L @ (k1, bt_app (Lf p1 a) (Lf p2 b)) # R)) c))"
    proof (cases YS)
      case Nil
      then show ?thesis using ll lp' s4(3) s3(4) m(7) by simp
    next
      case (Cons y Y)
      then have "last (p2 # YS) \<noteq> p2" using dl' last_in_set [of YS] by auto
      then show ?thesis using ll lp' s4(3) s3(4) m(7) Cons by simp
    qed
  qed (use i(2) s4(3,4) s3(2,4) m(7,8) in simp_all)
  moreover have "ih_next s4 = ih_next s" using s4(4) s3(2) m(8) by simp
  ultimately show ?thesis using s4(1) dp'(6) by (intro that [of s4]) simp_all
qed

lemma same_kid:
  "distinct (kids_pages b) \<Longrightarrow> kt \<in> set b \<Longrightarrow> kt' \<in> set b \<Longrightarrow> x \<in> set (bt_pages (snd kt)) \<Longrightarrow> x \<in> set (bt_pages (snd kt')) \<Longrightarrow> kt = kt'"
  by (induction b) auto

lemma rep_merged:
  assumes rp: "rep h P pp (Nd p1 a)" "rep h P pp (Nd p2 b)" and dst: "distinct (bt_pages (Nd p1 a) @ bt_pages (Nd p2 b))" "pp \<notin> set (bt_pages (Nd p1 a) @ bt_pages (Nd p2 b))"
    and pr: "int_range p1" and e: "nd_ok h e" "same_links dl e" "nd_keys h e = map fst (a @ b)" "map page_no (nd_rids h e) = map kid_page (a @ b)" "P p1 = Some dl"
    and P': "P' = (reparent p1 (set (map kid_page b)) (P(p1 \<mapsto> e)))(pp \<mapsto> dp')"
  shows "rep h P' pp (Nd p1 (a @ b))"
proof -
  have ne: "p1 \<noteq> pp" "p1 \<notin> set (kids_pages a @ kids_pages b)" "pp \<notin> set (kids_pages a @ kids_pages b)" using dst by auto
  have p1: "P' p1 = Some e"
  proof -
    have "p1 \<notin> set (map kid_page b)" using ne(2) kid_page_in [of _ b] by auto
    then show ?thesis using ne(1) by (simp add: P' reparent_def)
  qed
  have P1: "P' x = reparent p1 (set (map kid_page b)) P x" if "x \<in> set (kids_pages a @ kids_pages b)" for x
    using that ne by (auto simp: P' reparent_def)
  have da: "rep h P' p1 (snd kt)" if kt: "kt \<in> set a" for kt
  proof (rule rep_keep)
    show "rep h P p1 (snd kt)" using rp(1) kt by simp
    fix x assume "x \<in> set (bt_pages (snd kt))"
    then have x: "x \<in> set (kids_pages a)" by (rule in_kids_pages [OF kt])
    then have "x \<notin> set (kids_pages b)" using dst(1) by auto
    then have "x \<notin> set (map kid_page b)" using kid_page_in [of _ b] by auto
    then show "P' x = P x" using P1 [of x] x by (simp add: reparent_def)
  qed
  have db: "rep h P' p1 (snd kt)" if kt: "kt \<in> set b" for kt
  proof (rule rep_reparent [OF _ _ pr])
    show rk: "rep h P p2 (snd kt)" using rp(2) kt by simp
    have kd: "distinct (kids_pages b)" using dst(1) by simp
    show "distinct (bt_pages (snd kt))" using kd kt by (auto simp: distinct_concat_iff)
    show "P' (bt_page (snd kt)) = map_option (\<lambda>d. nd_set_parent d p1) (P (bt_page (snd kt)))"
      using P1 [of "bt_page (snd kt)"] kid_page_in [OF kt] kt by (simp add: reparent_def)
    fix x assume x: "x \<in> set (bt_pages (snd kt))" "x \<noteq> bt_page (snd kt)"
    have xb: "x \<in> set (kids_pages b)" by (rule in_kids_pages [OF kt x(1)])
    have "x \<noteq> kid_page kt'" if kt': "kt' \<in> set b" for kt'
    proof
      assume "x = kid_page kt'"
      then show False using same_kid [OF kd kt kt' x(1)] bt_page_in [of "snd kt'"] x(2) by auto
    qed
    then have "x \<notin> set (map kid_page b)" by auto
    then show "P' x = P x" using P1 [of x] xb by (simp add: reparent_def)
  qed
  show ?thesis using da db p1 e rp(1) by (auto simp: nodep_def same_links_def)
qed

lemma coalesce_inner:
  assumes inv: "ix_shape h (plug (Nd pp (L @ (k1, Nd p1 a) # (k2, Nd p2 b) # R)) c) s" and room: "int (length a + length b) \<le> ix_order h"
    and tup: "(if index = 0 then (p, nb, 1) else (nb, p, index)) = (p1, p2, int (Suc (length L)))"
  obtains s' where "coalesce up nb p pp index s = (if int (Suc (length L + length R)) < ix_order h div 2 then up pp s' else Some (Inr False, s'))"
    "ix_shape h (plug (Nd pp (L @ (k1, Nd p1 (a @ b)) # R)) c) s'" "ih_next s' = ih_next s"
proof -
  note i = ix_shapeD [OF inv]
  have dm: "ix_dims h" using i(1) by (simp add: hdr_ok_def)
  let ?t1 = "Nd p1 a" and ?t2 = "Nd p2 b"
  obtain dp where p: "ih_pages s pp = Some dp" "nd_ok h dp" "nd_keys h dp = map fst L @ k1 # k2 # map fst R"
    "map page_no (nd_rids h dp) = map kid_page L @ bt_page ?t1 # bt_page ?t2 # map kid_page R"
    "rep h (ih_pages s) pp ?t1" "rep h (ih_pages s) pp ?t2" and dst: "distinct (bt_pages ?t1 @ bt_pages ?t2)"
    and pd: "pp \<notin> set (bt_pages ?t1) \<union> set (bt_pages ?t2)" and pr: "int_range (bt_page ?t1)" "int_range (bt_page ?t2)" and nl: "\<not> nd_is_leaf dp"
    by (rule shape_siblings [OF inv])
  have ne: "p1 \<noteq> p2" "p1 \<noteq> pp" "p2 \<noteq> pp" "p1 \<notin> set (kids_pages b)" "pp \<notin> set (kids_pages b)" using dst pd by auto
  obtain dl where dl: "ih_pages s p1 = Some dl" "nd_ok h dl" "\<not> nd_is_leaf dl" "nd_parent dl = pp" "nd_keys h dl = map fst a" "map page_no (nd_rids h dl) = map kid_page a"
    using p(5) by (auto simp: nodep_def)
  obtain dr where dr: "ih_pages s p2 = Some dr" "nd_ok h dr" "\<not> nd_is_leaf dr" "nd_parent dr = pp" "nd_keys h dr = map fst b" "map page_no (nd_rids h dr) = map kid_page b"
    using p(6) by (auto simp: nodep_def)
  have rb: "\<forall>kt\<in>set b. rep h (ih_pages s) p2 (snd kt)" using p(6) by simp
  obtain dp' where dp': "nd_erase_pair h dp (int (Suc (length L))) = Inr dp'" "nd_ok h dp'" "same_links dp dp'"
    "nd_keys h dp' = map fst L @ k1 # map fst R" "map page_no (nd_rids h dp') = map kid_page L @ bt_page ?t1 # map kid_page R"
    "nd_get_size dp' = int (Suc (length L + length R))" by (rule parent_erase [OF dm p(2-4)])
  have rm: "nd_get_size dl + nd_get_size dr \<le> ix_order h" using room nd_size_length [OF dl(2)] nd_size_length [OF dr(2)] dl(5) dr(5) by simp
  have kd: "nd_is_leaf dr = nd_is_leaf dl" using dl(3) dr(3) by simp
  have kb: "x \<in> set (kids_pages b)" if "x \<in> set (map kid_page b)" for x using that kid_page_in [of _ b] by auto
  have kids: "distinct (map kid_page b) \<and> (\<forall>x\<in>set (map kid_page b). ih_pages s x \<noteq> None \<and> x \<noteq> p1)"
  proof (intro conjI ballI)
    show "distinct (map kid_page b)" by (rule distinct_kid_pages) (use dst in simp)
    fix x assume x: "x \<in> set (map kid_page b)"
    then show "ih_pages s x \<noteq> None" using rb rep_page by fastforce
    show "x \<noteq> p1" using kb [OF x] ne(4) by blast
  qed
  obtain e s2 where m: "nd_insert_pairs h dl (nd_get_size dl) (mem_read dr (key_off h 0) (nat (nd_get_size dr) * klen h))
      (map (\<lambda>j. nd_get_rid h dr (int j)) [0..<nat (nd_get_size dr)]) (nat (nd_get_size dr)) = Inr e"
    "nd_ok h e" "same_links dl e" "nd_keys h e = nd_keys h dl @ nd_keys h dr" "nd_rids h e = nd_rids h dl @ nd_rids h dr"
    "ix_for [nat (nd_get_size dl)..<nat (nd_get_size e)] (\<lambda>j. maintain_child p1 (int j)) (s\<lparr>ih_pages := (ih_pages s)(p1 \<mapsto> e)\<rparr>) = Some (Inr (), s2)"
    "ih_hdr s2 = ih_hdr s" "ih_next s2 = ih_next s"
    "ih_pages s2 = (if nd_is_leaf dl then (ih_pages s)(p1 \<mapsto> e) else reparent p1 (set (map kid_page b)) ((ih_pages s)(p1 \<mapsto> e)))"
    by (rule merge_pairs [OF i(1,2) dl(1,2) dr(2) kd rm dr(6)]) (use kids in blast)+
  have s2: "ih_pages s2 = reparent p1 (set (map kid_page b)) ((ih_pages s)(p1 \<mapsto> e))" using m(9) dl(3) by simp
  have unl: "unlink_right (ih_hdr s) (nd_is_leaf dr) p1 p2 s2 = Some (Inr (), s2)" using dr(3) by (simp add: unlink_right_def ix_prims)
  have "pp \<notin> set (map kid_page b)" using kb ne(5) by blast
  then have par3: "ih_pages s2 pp = Some dp" using s2 p(1) ne(2) by (simp add: reparent_def)
  obtain s4 where s4: "coalesce up nb p pp index s = (if nd_get_size dp' < ix_order h div 2 then up pp s4 else Some (Inr False, s4))"
    "ih_pages s4 = (ih_pages s2)(pp \<mapsto> dp')" "ih_hdr s4 = (ih_hdr s2)\<lparr>ix_num_pages := ix_num_pages (ih_hdr s2) - 1\<rparr>" "ih_next s4 = ih_next s2"
    by (rule coalesce_run [OF tup i(2) dl(1) dr(1) m(1,6) unl par3 dp'(1)])
  have P4: "ih_pages s4 = (reparent p1 (set (map kid_page b)) ((ih_pages s)(p1 \<mapsto> e)))(pp \<mapsto> dp')" using s4(2) s2 by simp
  have rp: "rep h (ih_pages s4) pp (Nd p1 (a @ b))"
    by (rule rep_merged [OF p(5,6) dst _ _ m(2,3) _ _ dl(1) P4]) (use pd pr(1) m(4,5) dl(5,6) dr(5,6) in simp_all)
  have "links_kept (ih_next s) (ih_pages s) ((ih_pages s)(p1 \<mapsto> e))"
    by (rule links_kept_upd [OF links_kept_refl, where d = dl])
      (use dl(1) m(3) nd_ok_length [OF dl(2)] nd_ok_length [OF m(2)] in \<open>simp_all add: same_links_def\<close>)
  then have "links_kept (ih_next s) (ih_pages s) (reparent p1 (set (map kid_page b)) ((ih_pages s)(p1 \<mapsto> e)))"
  proof (rule links_kept_reparent)
    fix x assume x: "x \<in> set (map kid_page b)"
    then have "x \<in> set (bt_pages ?t2)" "x \<noteq> p1" using kb [OF x] ne(4) by auto
    then show "\<exists>d. ((ih_pages s)(p1 \<mapsto> e)) x = Some d \<and> length d = PAGE_SIZE" using rep_page_length [OF p(6), of x] by simp
  qed
  then have lk: "links_kept (ih_next s) (ih_pages s) (ih_pages s4)" unfolding P4
    by (rule links_kept_upd [where d = dp]) (use p(1) dp'(3) nd_ok_length [OF p(2)] nd_ok_length [OF dp'(2)] in \<open>simp_all add: same_links_def\<close>)
  have lv: "leaf_pages (plug (Nd pp (L @ (k1, bt_app ?t1 ?t2) # R)) c) = leaf_pages (plug (Nd pp (L @ (k1, ?t1) # (k2, ?t2) # R)) c)"
    by (simp add: leaf_pages_plug)
  have one: "IX_LEAF_HEADER_PAGE < ih_next s" using i(6) [OF bt_page_in] by simp
  have "ix_shape h (plug (Nd pp (L @ (k1, bt_app ?t1 ?t2) # R)) c) s4"
  proof (rule merged_shape [OF inv _ _ _ p(1) _ dp'(2-5)])
    show "node_eq (ih_pages s) (ih_pages s4) x" if "x \<noteq> pp" "x \<notin> set (bt_pages ?t1) \<union> set (bt_pages ?t2)" for x
    proof -
      have "x \<noteq> p1" "x \<notin> set (map kid_page b)" using that(2) kb [of x] by auto
      then show ?thesis using that(1) by (simp add: node_eq_def P4 reparent_def)
    qed
    show "linked (ih_pages s4) (IX_LEAF_HEADER_PAGE # leaf_pages (plug (Nd pp (L @ (k1, bt_app ?t1 ?t2) # R)) c) @ [IX_LEAF_HEADER_PAGE])"
      unfolding lv by (rule linked_kept [OF i(8) lk]) (use one i(6) leaf_pages_subset [of "plug (Nd pp (L @ (k1, ?t1) # (k2, ?t2) # R)) c"] in auto)
    show "\<exists>d. ih_pages s4 IX_LEAF_HEADER_PAGE = Some d \<and> length d = PAGE_SIZE" using i(7) lk one unfolding links_kept_def by metis
    show "ix_first_leaf (ih_hdr s4) = hd (leaf_pages (plug (Nd pp (L @ (k1, bt_app ?t1 ?t2) # R)) c))"
      "ix_last_leaf (ih_hdr s4) = last (leaf_pages (plug (Nd pp (L @ (k1, bt_app ?t1 ?t2) # R)) c))"
      unfolding lv using i(9,10) s4(3) m(7) by simp_all
  qed (use i(2) s4(3,4) m(7,8) rp P4 in simp_all)
  moreover have "ih_next s4 = ih_next s" using s4(4) m(8) by simp
  ultimately show ?thesis using s4(1) dp'(6) by (intro that [of s4]) simp_all
qed

lemma coalesce_tree:
  assumes "ix_shape h (plug (Nd pp (L @ (k1, t1) # (k2, t2) # R)) c) s" "is_Lf t1 = is_Lf t2" "int (bt_size t1 + bt_size t2) \<le> ix_order h"
    "(if index = 0 then (p, nb, 1) else (nb, p, index)) = (bt_page t1, bt_page t2, int (Suc (length L)))"
  obtains s' where "coalesce up nb p pp index s = (if int (Suc (length L + length R)) < ix_order h div 2 then up pp s' else Some (Inr False, s'))"
    "ix_shape h (plug (Nd pp (L @ (k1, bt_app t1 t2) # R)) c) s'" "ih_next s' = ih_next s"
proof (cases t1)
  case (Lf p1 a)
  then obtain p2 b where t2: "t2 = Lf p2 b" using assms(2) by (cases t2) auto
  show ?thesis using coalesce_leaf [of h pp L k1 p1 a k2 p2 b R c s index p nb up thesis] assms that Lf t2 by simp
next
  case (Nd p1 a)
  then obtain p2 b where t2: "t2 = Nd p2 b" using assms(2) by (cases t2) auto
  show ?thesis using coalesce_inner [of h pp L k1 p1 a k2 p2 b R c s index p nb up thesis] assms that Nd t2 by simp
qed

end
