(* ===== verification/Bt_Delete.thy ===== *)
theory Bt_Delete
  imports Bt_Siblings
begin

text \<open>
  Deletion from the B+ tree (\<^verbatim>\<open>delete_entry\<close>, \<^verbatim>\<open>coalesce_or_redistribute\<close>, \<^verbatim>\<open>adjust_root\<close>): as long as a pair is
  left, the index afterwards holds the map without the key, and every node but the root is at least
  half full again. Deleting the last pair leaves an index without a root.
\<close>

section \<open>Restoring the sizes\<close>

definition del_post :: "ix_file_hdr \<Rightarrow> nat \<Rightarrow> int \<Rightarrow> (bytes \<times> rid) list \<Rightarrow> ((rmdb_error + bool) \<times> ix_handle) option \<Rightarrow> bool" where
  "del_post h n N es r \<longleftrightarrow> (\<exists>b s' t' n'. r = Some (Inr b, s') \<and> ix_inv h n' t' s' \<and> entries t' = es \<and> n' \<le> n \<and> ih_next s' = N)"

lemma del_postI: "r = Some (Inr b, s') \<Longrightarrow> ix_inv h n' t' s' \<Longrightarrow> entries t' = es \<Longrightarrow> n' \<le> n \<Longrightarrow> ih_next s' = N \<Longrightarrow> del_post h n N es r"
  unfolding del_post_def by blast

lemma new_root_shape:
  assumes inv: "ix_shape h (Nd p [(k, u)]) s"
    and s': "ih_hdr s' = (ih_hdr s)\<lparr>ix_root := bt_page u\<rparr>" "ih_next s' = ih_next s"
      "ih_pages s' = (ih_pages s)(bt_page u \<mapsto> nd_set_parent d INVALID_PAGE_ID)" "ih_pages s (bt_page u) = Some d"
  shows "ix_shape h u s'"
proof -
  note i = ix_shapeD [OF inv]
  have ru: "rep h (ih_pages s) p u" using i(4) by simp
  have len: "length d = PAGE_SIZE" using rep_page_length [OF ru bt_page_in] s'(4) by simp
  have "rep h (ih_pages s') INVALID_PAGE_ID u"
    by (rule rep_reparent [OF ru]) (use i(5) s'(3,4) in \<open>auto simp: int_range_def INVALID_PAGE_ID_def\<close>)
  moreover have lk: "links_kept (ih_next s) (ih_pages s) (ih_pages s')" unfolding s'(3)
    by (rule links_kept_upd [OF links_kept_refl, where d = d]) (use len s'(4) in \<open>simp_all add: link_simps\<close>)
  moreover have one: "IX_LEAF_HEADER_PAGE < ih_next s" using i(6) [OF bt_page_in] by simp
  moreover have "linked (ih_pages s') (IX_LEAF_HEADER_PAGE # leaf_pages u @ [IX_LEAF_HEADER_PAGE])"
    by (rule linked_kept [OF _ lk]) (use i(6,8) one leaf_pages_subset [of u] in auto)
  moreover have "\<exists>d. ih_pages s' IX_LEAF_HEADER_PAGE = Some d \<and> length d = PAGE_SIZE"
    using i(7) lk one unfolding links_kept_def by metis
  ultimately show ?thesis unfolding ix_shape_def using i s'(1,2) by simp
qed

lemma adjust_root_rep:
  assumes inv: "ix_shape h t s" and ok: "bt_body h n None None t" "int (bt_size t) < ix_order h" "1 \<le> bt_size t"
  shows "del_post h n (ih_next s) (entries t) (adjust_root (bt_page t) s)"
proof -
  note i = ix_shapeD [OF inv]
  have dm: "ix_dims h" using i(1) by (simp add: hdr_ok_def)
  obtain d where d: "ih_pages s (bt_page t) = Some d" "nd_ok h d" "nd_is_leaf d = is_Lf t" "nd_get_size d = int (bt_size t)"
    by (rule rep_node [OF i(4,5)]) blast
  have keep: "del_post h n (ih_next s) (entries t) (adjust_root (bt_page t) s)"
    if "adjust_root (bt_page t) s = Some (Inr False, s)" "root_min n \<le> bt_size t"
  proof (rule del_postI [OF that(1)])
    show "ix_inv h n t s" using inv ok(1,2) that(2) by (simp add: ix_inv_shape bt_ok_body fits_def)
  qed simp_all
  show ?thesis
  proof (cases "is_Lf t \<or> bt_size t \<noteq> 1")
    case True
    have "n = 0 \<longleftrightarrow> is_Lf t" using bt_kind [OF ok(1)] by simp
    then have "root_min n \<le> bt_size t" using True ok(3) by (auto simp: root_min_def)
    moreover have "adjust_root (bt_page t) s = Some (Inr False, s)" using True d ok(3) by (auto simp: adjust_root_def ix_prims)
    ultimately show ?thesis by (intro keep)
  next
    case False
    then obtain p k u where t: "t = Nd p [(k, u)]" by (cases t) (auto simp: length_Suc_conv)
    then obtain n1 where n: "n = Suc n1" using ok(1) by (cases n) simp_all
    have "map page_no (nd_rids h d) = [bt_page u]" using i(4) d(1) t by (auto simp: nodep_def)
    from nd_value_at_nth [OF dm this, of 0] have v: "nd_value_at h d 0 = bt_page u" by simp
    have "rep h (ih_pages s) p u" using i(4) t by simp
    then obtain du where du: "ih_pages s (bt_page u) = Some du" using rep_page by blast
    have "\<exists>s'. adjust_root (bt_page t) s = Some (Inr True, s') \<and> ih_hdr s' = (ih_hdr s)\<lparr>ix_root := bt_page u\<rparr> \<and> ih_next s' = ih_next s \<and>
      ih_pages s' = (ih_pages s)(bt_page u \<mapsto> nd_set_parent du INVALID_PAGE_ID)"
      using False d du v geo_simps(6) [OF i(2)] by (simp add: adjust_root_def ix_prims Let_def)
    then obtain s' where s': "adjust_root (bt_page t) s = Some (Inr True, s')" "ih_hdr s' = (ih_hdr s)\<lparr>ix_root := bt_page u\<rparr>" "ih_next s' = ih_next s"
      "ih_pages s' = (ih_pages s)(bt_page u \<mapsto> nd_set_parent du INVALID_PAGE_ID)" by blast
    have "ix_shape h u s'" by (rule new_root_shape [OF inv [unfolded t] s'(2-4) du])
    moreover have "bt_ok h n1 (root_min n1) None None u"
    proof (rule bt_ok_mono [of _ _ "minsz h" "Some (krank h k)" None])
      show "bt_ok h n1 (minsz h) (Some (krank h k)) None u" using ok(1) t n by simp
      show "root_min n1 \<le> minsz h" using minsz_pos [OF i(1)] by (simp add: root_min_def)
    qed simp_all
    ultimately have "ix_inv h n1 u s'" by (simp add: ix_inv_shape)
    then show ?thesis by (rule del_postI [OF s'(1)]) (use t n s'(3) in simp_all)
  qed
qed

lemma ix_shape_same_store: "ix_shape h t s \<Longrightarrow> same_store s s' \<Longrightarrow> ix_shape h t s'"
  using same_storeD [of s s'] by (simp add: ix_shape_def)

text \<open>The choice of the neighbour: the right one for the first child, otherwise the left one.\<close>

definition chosen :: "(bytes \<times> bt) list \<Rightarrow> bt \<Rightarrow> bt \<Rightarrow> bt \<Rightarrow> bt \<Rightarrow> int \<Rightarrow> bool" where
  "chosen L t1 t2 t u index \<longleftrightarrow> t = t1 \<and> u = t2 \<and> L = [] \<and> index = 0 \<or> t = t2 \<and> u = t1 \<and> index = int (Suc (length L))"

lemma nd_find_child_nth:
  assumes "ix_dims h" "map page_no (nd_rids h d) = ps" "distinct ps" "j < length ps"
  shows "nd_find_child h d (ps ! j) = Inr (int j)"
proof -
  note e = id_take_nth_drop [OF assms(4)]
  have "distinct (take j ps @ ps ! j # drop (Suc j) ps)" using assms(3) by (simp only: e [symmetric])
  then have "ps ! j \<notin> set (take j ps)" by simp
  moreover have "map page_no (nd_rids h d) = take j ps @ ps ! j # drop (Suc j) ps" using assms(2) by (simp only: e [symmetric])
  ultimately show ?thesis using nd_find_child_at [OF assms(1)] assms(4) by fastforce
qed

lemma underfull_step:
  assumes inv: "ix_shape h (plug (Nd pp (L @ (k1, t1) # (k2, t2) # R)) c) s" and sel: "chosen L t1 t2 t u index"
    and small: "int (bt_size t) < ix_order h div 2"
  obtains s1 where "same_store s s1"
    "coalesce_or_redistribute (Suc k) (bt_page t) s =
      (if ix_order h \<le> int (bt_size t + bt_size u) then ix_bind (redistribute (bt_page u) (bt_page t) pp index) (\<lambda>_. ix_ret False) s1
       else coalesce (coalesce_or_redistribute k) (bt_page u) (bt_page t) pp index s1)"
proof -
  note i = ix_shapeD [OF inv]
  have dm: "ix_dims h" using i(1) by (simp add: hdr_ok_def)
  let ?ps = "map kid_page L @ bt_page t1 # bt_page t2 # map kid_page R"
  obtain dp where p: "ih_pages s pp = Some dp" "nd_ok h dp" "nd_keys h dp = map fst L @ k1 # k2 # map fst R"
    "map page_no (nd_rids h dp) = ?ps"
    "rep h (ih_pages s) pp t1" "rep h (ih_pages s) pp t2" and dst: "distinct (bt_pages t1 @ bt_pages t2)"
    and pd: "pp \<notin> set (bt_pages t1) \<union> set (bt_pages t2)" by (rule shape_siblings [OF inv])
  have "distinct (bt_pages (Nd pp (L @ (k1, t1) # (k2, t2) # R)))" using i(5) unfolding distinct_pages_plug by blast
  then have "distinct (map kid_page (L @ (k1, t1) # (k2, t2) # R))" by (intro distinct_kid_pages) simp
  then have dk: "distinct ?ps" by simp
  have tu: "rep h (ih_pages s) pp t" "distinct (bt_pages t)" "rep h (ih_pages s) pp u" "distinct (bt_pages u)"
    using sel p(5,6) dst by (auto simp: chosen_def)
  obtain d where d: "ih_pages s (bt_page t) = Some d" "nd_parent d = pp" "nd_get_size d = int (bt_size t)" by (rule rep_node [OF tu(1,2)]) blast
  obtain du where du: "ih_pages s (bt_page u) = Some du" "nd_get_size du = int (bt_size u)" by (rule rep_node [OF tu(3,4)]) blast
  have fc: "nd_find_child h dp (bt_page t) = Inr index"
  proof -
    define j where "j = (if index = 0 then 0 else Suc (length L))"
    have j: "j < length ?ps" "?ps ! j = bt_page t" "index = int j" using sel by (auto simp: chosen_def j_def nth_append split: if_splits)
    show ?thesis using nd_find_child_nth [OF dm p(4) dk j(1)] j(2,3) by simp
  qed
  have nb: "(if index = 0 then nd_value_at h dp 1 else nd_value_at h dp (index - 1)) = bt_page u"
  proof -
    define j where "j = (if index = 0 then 1 else length L)"
    have j: "j < length ?ps" "?ps ! j = bt_page u" "(if index = 0 then 1 else index - 1) = int j" using sel by (auto simp: chosen_def j_def nth_append split: if_splits)
    show ?thesis using nd_value_at_nth [OF dm p(4) j(1)] j(2,3) by (auto split: if_splits)
  qed
  have np: "pp \<noteq> INVALID_PAGE_ID" using i(6) [of pp] by (auto simp: set_pages_plug INVALID_PAGE_ID_def IX_LEAF_HEADER_PAGE_def)
  have nu: "bt_page u \<noteq> pp" using sel pd bt_page_in [of t1] bt_page_in [of t2] by (auto simp: chosen_def)
  note gs = geo_simps(1,6,19) [OF i(2)]
  define s1 where "s1 = s\<lparr>ih_pins := (ih_pins s)(pp := ih_pins s pp + 1, bt_page u := ((ih_pins s)(pp := ih_pins s pp + 1)) (bt_page u) + 1)\<rparr>"
  have "same_store s s1" by (simp add: s1_def same_store_def)
  moreover have "coalesce_or_redistribute (Suc k) (bt_page t) s =
      (if ix_order h \<le> int (bt_size t + bt_size u) then ix_bind (redistribute (bt_page u) (bt_page t) pp index) (\<lambda>_. ix_ret False) s1
       else coalesce (coalesce_or_redistribute k) (bt_page u) (bt_page t) pp index s1)"
    using d du p(1) fc nb np small gs nu
    by (cases "index = 0") (simp_all add: ix_prims nd_is_root_def Let_def s1_def)
  ultimately show ?thesis by (rule that)
qed

lemma node_inv:
  assumes "ix_shape h (plug (Nd pp cs) c) s" "ctx_ok h (Suc n) c" "kids_ok h (bt_ok h n (minsz h)) (hi_of h c) cs" "cs \<noteq> []"
    "lbd (lo_of h c) (krank h (fst (hd cs)))" "fits h (top_min h c (Suc n)) (length cs)" "m = Suc n + length c"
  shows "ix_inv h m (plug (Nd pp cs) c) s"
proof -
  have "bt_ok h (Suc n + length c) (root_min (Suc n + length c)) None None (plug (Nd pp cs) c)"
    unfolding plug_ok using assms(2-6) by simp
  then show ?thesis using assms(1,7) by (simp add: ix_inv_shape)
qed

lemma sizes_pair:
  assumes "hdr_ok h" "int a + 1 = int (minsz h)" "minsz h \<le> b" "int b < ix_order h"
  shows "ix_order h \<le> int (a + b) \<Longrightarrow> fits h (minsz h) (Suc a) \<and> fits h (minsz h) (b - 1) \<and> 2 \<le> b \<and> int a < ix_order h"
    "\<not> ix_order h \<le> int (a + b) \<Longrightarrow> fits h (minsz h) (a + b)"
proof -
  have o: "4 \<le> ix_order h" "int (minsz h) = ix_order h div 2" using assms(1) by (simp_all add: hdr_ok_def minsz_def)
  then have "2 * int (minsz h) \<le> ix_order h" "2 \<le> minsz h" by linarith+
  then show "ix_order h \<le> int (a + b) \<Longrightarrow> fits h (minsz h) (Suc a) \<and> fits h (minsz h) (b - 1) \<and> 2 \<le> b \<and> int a < ix_order h"
    "\<not> ix_order h \<le> int (a + b) \<Longrightarrow> fits h (minsz h) (a + b)" using assms o by (auto simp: fits_def)
qed

lemma hd_pair: "fst (hd (L @ (k1, t1) # xs)) = first_key L k1"
  by (cases L) (simp_all add: first_key_def)

lemma bt_body_kinds: "bt_body h n lo hi t1 \<Longrightarrow> bt_body h n lo' hi' t2 \<Longrightarrow> is_Lf t1 = is_Lf t2"
  using bt_kind [of h n lo hi t1] bt_kind [of h n lo' hi' t2] by simp

lemma redistribute_done:
  assumes inv: "ix_shape h (plug (Nd pp (L @ (k1, t1) # (k2, t2) # R)) c) s" and sel: "chosen L t1 t2 t u index"
    and pk: "pair_ok h n (hi_of h c) L k1 t1 k2 t2 R" and c: "ctx_ok h (Suc n) c" "lbd (lo_of h c) (krank h (first_key L k1))"
    and ft: "fits h (top_min h c (Suc n)) (Suc (Suc (length L + length R)))"
    and sz: "int (bt_size t) + 1 = int (minsz h)" "minsz h \<le> bt_size u" "int (bt_size u) < ix_order h" "ix_order h \<le> int (bt_size t + bt_size u)"
  shows "del_post h (Suc n + length c) (ih_next s) (entries (plug (Nd pp (L @ (k1, t1) # (k2, t2) # R)) c))
    (ix_bind (redistribute (bt_page u) (bt_page t) pp index) (\<lambda>_. ix_ret False) s)"
proof -
  note i = ix_shapeD [OF inv]
  have kind: "is_Lf t1 = is_Lf t2" using pk bt_body_kinds unfolding pair_ok_def by blast
  have z: "fits h (minsz h) (Suc (bt_size t))" "fits h (minsz h) (bt_size u - 1)" "2 \<le> bt_size u" "int (bt_size t) < ix_order h"
    using sizes_pair(1) [OF i(1) sz(1-3)] sz(4) by blast+
  obtain j where j: "0 < j" "j < bt_size t1 + bt_size t2" "fits h (minsz h) j" "fits h (minsz h) (bt_size t1 + bt_size t2 - j)"
    and run: "\<exists>s'. redistribute (bt_page u) (bt_page t) pp index s = Some (Inr (), s') \<and> ih_next s' = ih_next s \<and>
      ix_shape h (plug (Nd pp (L @ (k1, bt_take j (bt_app t1 t2)) # (bt_first (bt_drop (bt_page t2) j (bt_app t1 t2)), bt_drop (bt_page t2) j (bt_app t1 t2)) # R)) c) s'"
  proof (cases "index = 0")
    case True
    then have s: "t = t1" "u = t2" "L = []" using sel by (auto simp: chosen_def)
    have inv0: "ix_shape h (plug (Nd pp ((k1, t1) # (k2, t2) # R)) c) s" using inv s(3) by simp
    have sz0: "int (bt_size t1) < ix_order h" "2 \<le> bt_size t2" using z s by simp_all
    obtain s' where s': "redistribute (bt_page t2) (bt_page t1) pp 0 s = Some (Inr (), s')" "ih_next s' = ih_next s"
      "ix_shape h (plug (Nd pp ((k1, bt_take (Suc (bt_size t1)) (bt_app t1 t2)) #
        (bt_first (bt_drop (bt_page t2) (Suc (bt_size t1)) (bt_app t1 t2)), bt_drop (bt_page t2) (Suc (bt_size t1)) (bt_app t1 t2)) # R)) c) s'"
      by (rule redistribute_tree_first [OF inv0 kind sz0])
    show thesis by (rule that [of "Suc (bt_size t1)"]) (use s' s z True in simp_all)
  next
    case False
    then have s: "t = t2" "u = t1" "index = int (Suc (length L))" using sel by (auto simp: chosen_def)
    have sz0: "int (bt_size t2) < ix_order h" "bt_size t1 = Suc (bt_size t1 - 1)" using z s by simp_all
    obtain s' where s': "redistribute (bt_page t1) (bt_page t2) pp (int (Suc (length L))) s = Some (Inr (), s')" "ih_next s' = ih_next s"
      "ix_shape h (plug (Nd pp (L @ (k1, bt_take (bt_size t1 - 1) (bt_app t1 t2)) #
        (bt_first (bt_drop (bt_page t2) (bt_size t1 - 1) (bt_app t1 t2)), bt_drop (bt_page t2) (bt_size t1 - 1) (bt_app t1 t2)) # R)) c) s'"
      by (rule redistribute_tree_last [OF inv kind sz0])
    have "bt_size t1 + bt_size t2 - (bt_size t1 - 1) = Suc (bt_size t2)" using sz0(2) by simp
    then show thesis by (intro that [of "bt_size t1 - 1"]) (use s' s z in simp_all)
  qed
  define u1 u2 where "u1 = bt_take j (bt_app t1 t2)" and "u2 = bt_drop (bt_page t2) j (bt_app t1 t2)"
  obtain s' where s': "redistribute (bt_page u) (bt_page t) pp index s = Some (Inr (), s')" "ih_next s' = ih_next s"
    "ix_shape h (plug (Nd pp (L @ (k1, u1) # (bt_first u2, u2) # R)) c) s'" using run unfolding u1_def u2_def by blast
  note pc = pair_cut [OF pk j, folded u1_def u2_def]
  have "ix_inv h (Suc n + length c) (plug (Nd pp (L @ (k1, u1) # (bt_first u2, u2) # R)) c) s'"
    by (rule node_inv [OF s'(3) c(1) pc(1)]) (use c(2) ft in \<open>simp_all add: hd_pair\<close>)
  then show ?thesis
  proof (rule del_postI [rotated])
    show "ix_bind (redistribute (bt_page u) (bt_page t) pp index) (\<lambda>_. ix_ret False) s = Some (Inr False, s')" using s'(1) by (simp add: ix_prims)
    show "entries (plug (Nd pp (L @ (k1, u1) # (bt_first u2, u2) # R)) c) = entries (plug (Nd pp (L @ (k1, t1) # (k2, t2) # R)) c)"
      using pc(2) by (simp add: entries_plug)
  qed (use s'(2) in simp_all)
qed

text \<open>A child with too few pairs, with a sibling beside it.\<close>

lemma child_pair:
  assumes ok: "ctx_ok h n ((pp, l, k, r) # c)" and b: "bt_body h n (lo_of h ((pp, l, k, r) # c)) (hi_of h ((pp, l, k, r) # c)) t"
    and two: "2 \<le> Suc (length l + length r)"
  obtains L k1 t1 k2 t2 R u index where "l @ (k, t) # r = L @ (k1, t1) # (k2, t2) # R" "chosen L t1 t2 t u index" "bt_ok h n (minsz h) None None u"
    "pair_ok h n (hi_of h c) L k1 t1 k2 t2 R" "lbd (lo_of h c) (krank h (first_key L k1))" "length l + length r = Suc (length L + length R)"
proof (cases "l = []")
  case True
  then obtain k2 t2 R where r: "r = (k2, t2) # R" using two by (cases r) auto
  show ?thesis
  proof (rule that [of "[]" k t k2 t2 R t2 0])
    show "bt_ok h n (minsz h) None None t2" by (rule bt_ok_mono [of h n "minsz h" "Some (krank h k2)" "nxt h (hi_of h c) R"]) (use ok r in simp_all)
  qed (use True r ok b in \<open>auto simp: chosen_def pair_ok_def first_key_def bt_ok_body\<close>)
next
  case False
  then obtain L k1 t1 where l: "l = L @ [(k1, t1)]" by (cases l rule: rev_cases) auto
  show ?thesis
  proof (rule that [of L k1 t1 k t r t1 "int (Suc (length L))"])
    show "bt_ok h n (minsz h) None None t1" by (rule bt_ok_mono [of h n "minsz h" "Some (krank h k1)" "Some (krank h k)"]) (use ok l in \<open>simp_all add: kids_ok_append\<close>)
    show "lbd (lo_of h c) (krank h (first_key L k1))" using ok l by (cases L) (simp_all add: first_key_def)
  qed (use l ok b in \<open>auto simp: chosen_def pair_ok_def kids_ok_append bt_ok_body\<close>)
qed

lemma coalesce_or_redistribute_rep:
  assumes "ix_shape h (plug t c) s" "ctx_ok h n c" "bt_body h n (lo_of h c) (hi_of h c) t" "int (bt_size t) < ix_order h"
    "(if c = [] then 1 else minsz h - 1) \<le> bt_size t" "length c < k"
  shows "del_post h (n + length c) (ih_next s) (entries (plug t c)) (coalesce_or_redistribute k (bt_page t) s)"
  using assms
proof (induction c arbitrary: n t s k)
  case Nil
  then obtain k' where k: "k = Suc k'" by (cases k) auto
  note i = ix_shapeD [OF Nil(1)]
  obtain d where d: "ih_pages s (bt_page t) = Some d" "nd_parent d = INVALID_PAGE_ID" using rep_page [OF i(4)] by auto
  have "coalesce_or_redistribute k (bt_page t) s = adjust_root (bt_page t) s" using d by (simp add: k ix_prims nd_is_root_def)
  then show ?case using adjust_root_rep [of h t s n] Nil by simp
next
  case (Cons fr c)
  obtain pp l ky r where fr: "fr = (pp, l, ky, r)" by (metis surj_pair)
  obtain k' where k: "k = Suc k'" using Cons.prems(6) by (cases k) auto
  note pr = Cons.prems [unfolded fr]
  note i = ix_shapeD [OF pr(1)]
  let ?c = "(pp, l, ky, r) # c"
  have ms: "2 \<le> minsz h" "int (minsz h) = ix_order h div 2" using minsz_pos [OF i(1)] i(1) by (simp_all add: minsz_def hdr_ok_def)
  show ?case
  proof (cases "minsz h \<le> bt_size t")
    case True
    have "rep h (ih_pages s) (ctx_par ?c) t" using i(4) unfolding rep_plug by blast
    moreover have "distinct (bt_pages t)" using i(5) unfolding distinct_pages_plug by blast
    ultimately obtain d where d: "ih_pages s (bt_page t) = Some d" "nd_parent d = ctx_par ?c" "nd_get_size d = int (bt_size t)" by (rule rep_node) blast
    have "pp \<noteq> INVALID_PAGE_ID" using i(6) [of pp] by (auto simp: set_pages_plug INVALID_PAGE_ID_def IX_LEAF_HEADER_PAGE_def)
    then have run: "coalesce_or_redistribute k (bt_page t) s = Some (Inr False, s)"
      using d True ms geo_simps(1) [OF i(2)] by (simp add: k ix_prims nd_is_root_def)
    have "bt_ok h (n + length ?c) (root_min (n + length ?c)) None None (plug t ?c)"
      unfolding plug_ok using pr(2,3,4) True by (simp add: bt_ok_body top_min_def fits_def)
    then show ?thesis unfolding fr using pr(1) run by (intro del_postI [of _ False s h "n + length ?c" "plug t ?c"]) (simp_all add: ix_inv_shape)
  next
    case False
    have a: "int (bt_size t) + 1 = int (minsz h)" using False pr(5) by simp
    have ft: "fits h (top_min h c (Suc n)) (Suc (length l + length r))" and co: "ctx_ok h (Suc n) c" using pr(2) by simp_all
    have two: "2 \<le> Suc (length l + length r)" using ft ms(1) by (auto simp: fits_def top_min_def root_min_def split: if_splits)
    obtain L k1 t1 k2 t2 R u index where q: "l @ (ky, t) # r = L @ (k1, t1) # (k2, t2) # R" "chosen L t1 t2 t u index" "bt_ok h n (minsz h) None None u"
      "pair_ok h n (hi_of h c) L k1 t1 k2 t2 R" "lbd (lo_of h c) (krank h (first_key L k1))" "length l + length r = Suc (length L + length R)"
      by (rule child_pair [OF pr(2,3) two])
    let ?t = "plug (Nd pp (L @ (k1, t1) # (k2, t2) # R)) c"
    have e: "plug t ?c = ?t" using q(1) by simp
    have inv: "ix_shape h ?t s" using pr(1) unfolding e .
    have su: "minsz h \<le> bt_size u" "int (bt_size u) < ix_order h" using q(3) by (simp_all add: bt_ok_body fits_def)
    have small: "int (bt_size t) < ix_order h div 2" using a ms(2) by simp
    obtain s1 where s1: "same_store s s1" "coalesce_or_redistribute (Suc k') (bt_page t) s =
      (if ix_order h \<le> int (bt_size t + bt_size u) then ix_bind (redistribute (bt_page u) (bt_page t) pp index) (\<lambda>_. ix_ret False) s1
       else coalesce (coalesce_or_redistribute k') (bt_page u) (bt_page t) pp index s1)"
      by (rule underfull_step [OF inv q(2) small])
    have inv1: "ix_shape h ?t s1" by (rule ix_shape_same_store [OF inv s1(1)])
    have N: "ih_next s1 = ih_next s" using same_storeD [OF s1(1)] by simp
    show ?thesis
    proof (cases "ix_order h \<le> int (bt_size t + bt_size u)")
      case True
      have ft': "fits h (top_min h c (Suc n)) (Suc (Suc (length L + length R)))" using ft q(6) by simp
      show ?thesis using redistribute_done [OF inv1 q(2,4) co q(5) ft' a su True] True s1(2) k N e fr by simp
    next
      case False
      have kind: "is_Lf t1 = is_Lf t2" using q(4) bt_body_kinds unfolding pair_ok_def by blast
      have sum: "bt_size t1 + bt_size t2 = bt_size t + bt_size u" using q(2) by (auto simp: chosen_def)
      have room: "int (bt_size t1 + bt_size t2) \<le> ix_order h" using False sum by simp
      have tup: "(if index = 0 then (bt_page t, bt_page u, 1) else (bt_page u, bt_page t, index)) = (bt_page t1, bt_page t2, int (Suc (length L)))"
        using q(2) by (auto simp: chosen_def)
      obtain s2 where s2: "coalesce (coalesce_or_redistribute k') (bt_page u) (bt_page t) pp index s1 =
          (if int (Suc (length L + length R)) < ix_order h div 2 then coalesce_or_redistribute k' pp s2 else Some (Inr False, s2))"
        "ix_shape h (plug (Nd pp (L @ (k1, bt_app t1 t2) # R)) c) s2" "ih_next s2 = ih_next s1"
        by (rule coalesce_tree [OF inv1 kind room tup])
      have "fits h (minsz h) (bt_size t1 + bt_size t2)" unfolding sum by (rule sizes_pair(2) [OF i(1) a su False])
      note pj = pair_join [OF q(4) this]
      let ?P = "Nd pp (L @ (k1, bt_app t1 t2) # R)"
      have en: "entries (plug ?P c) = entries ?t" using pj(2) by (simp add: entries_plug)
      have sz: "fits h (top_min h c (Suc n)) (Suc (Suc (length L + length R)))" using ft q(6) by simp
      have run: "coalesce_or_redistribute k (bt_page t) s =
          (if int (Suc (length L + length R)) < ix_order h div 2 then coalesce_or_redistribute k' pp s2 else Some (Inr False, s2))"
        using s1(2) False s2(1) k by simp
      show ?thesis
      proof (cases "int (Suc (length L + length R)) < ix_order h div 2")
        case True
        have "del_post h (Suc n + length c) (ih_next s2) (entries (plug ?P c)) (coalesce_or_redistribute k' (bt_page ?P) s2)"
        proof (rule Cons.IH [OF s2(2) co])
          show "bt_body h (Suc n) (lo_of h c) (hi_of h c) ?P" using pj(1) q(5) by (simp add: hd_pair)
          show "int (bt_size ?P) < ix_order h" using sz by (simp add: fits_def)
          show "(if c = [] then 1 else minsz h - 1) \<le> bt_size ?P" using sz by (auto simp: fits_def top_min_def)
          show "length c < k'" using pr(6) k by simp
        qed
        then show ?thesis using run True en e fr s2(3) N by simp
      next
        case big: False
        have "ix_inv h (Suc n + length c) (plug ?P c) s2"
        proof (rule node_inv [OF s2(2) co pj(1)])
          show "fits h (top_min h c (Suc n)) (length (L @ (k1, bt_app t1 t2) # R))"
            using sz big ms by (auto simp: fits_def top_min_def root_min_def)
        qed (use q(5) in \<open>simp_all add: hd_pair\<close>)
        then show ?thesis unfolding fr using run big en e s2(3) N by (intro del_postI [of _ False s2 h "Suc n + length c" "plug ?P c"]) simp_all
      qed
    qed
  qed
qed

section \<open>Deleting an entry\<close>

lemma leaf_ok_keys: "leaf_ok h lo hi kvs \<Longrightarrow> distinct (map fst kvs)"
proof -
  assume "leaf_ok h lo hi kvs"
  then have "sorted_wrt (<) (map (krank h) (map fst kvs))" by (simp add: leaf_ok_def comp_def)
  then have "distinct (map (krank h) (map fst kvs))" by (simp only: strict_sorted_iff)
  then show ?thesis by (simp only: distinct_map)
qed

lemma leaf_ok_drop: "leaf_ok h lo hi (a @ kv # b) \<Longrightarrow> leaf_ok h lo hi (a @ b)"
  by (auto simp: leaf_ok_def sorted_wrt_append)

lemma leaf_nd_remove:
  assumes h: "hdr_ok h" and d: "nd_ok h d" "nd_sorted h d" "nd_keys h d = map fst kvs" "nd_rids h d = map snd kvs"
    and key: "length key = klen h" and lf: "leaf_ok h lo hi kvs"
  obtains d' kvs' where "nd_remove h d key rid = Inr d'" "nd_ok h d'" "same_links d d'" "nd_keys h d' = map fst kvs'" "nd_rids h d' = map snd kvs'"
    "leaf_ok h lo hi kvs'" "length kvs' \<le> length kvs" "length kvs \<le> Suc (length kvs')"
    "map_of kvs' = (if rid = None \<or> rid = map_of kvs key then (map_of kvs)(key := None) else map_of kvs)"
proof -
  have dm: "ix_dims h" and ex: "ix_exact h" using h by (simp_all add: hdr_ok_def)
  obtain lo' hi' where p: "nd_keys h d = lo' @ hi'" "key \<in> set (nd_keys h d) \<longleftrightarrow> hi' \<noteq> [] \<and> hd hi' = key"
    "nd_remove h d key rid = (if hi' \<noteq> [] \<and> hd hi' = key \<and> (rid = None \<or> rid = Some (nd_rids h d ! length lo'))
       then nd_erase_pair h d (int (length lo')) else Inr d)" by (rule nd_remove_lists [OF dm ex d(1,2) key])
  let ?j = "length lo'"
  show ?thesis
  proof (cases "hi' \<noteq> [] \<and> hd hi' = key")
    case False
    then have "map_of kvs key = None" using p(2) d(3) by (auto simp: map_of_eq_None_iff)
    then show ?thesis using False p(3) d lf by (intro that [of d kvs]) (auto simp: same_links_def fun_upd_idem)
  next
    case True
    then obtain a r b where k: "kvs = a @ (key, r) # b" "length a = ?j"
    proof -
      have e: "map fst kvs = lo' @ key # tl hi'" using p(1) d(3) True by (cases hi') simp_all
      have j: "?j < length kvs" using arg_cong [OF e, of length] unfolding length_map length_append list.size by simp
      have "fst (kvs ! ?j) = (map fst kvs) ! ?j" using j by simp
      then have "kvs ! ?j = (key, snd (kvs ! ?j))" unfolding e by (simp add: prod_eq_iff)
      then show thesis using that [of "take ?j kvs" "snd (kvs ! ?j)" "drop (Suc ?j) kvs"] id_take_nth_drop [OF j] j by simp
    qed
    have dk: "distinct (map fst kvs)" by (rule leaf_ok_keys [OF lf])
    then have nk: "key \<notin> fst ` set (a @ b)" using k(1) by auto
    have m: "map_of kvs key = Some r" "(map_of kvs)(key := None) = map_of (a @ b)"
    proof -
      have "map_of (a @ b) key = None" unfolding map_of_eq_None_iff by (rule nk)
      then show "map_of kvs key = Some r" "(map_of kvs)(key := None) = map_of (a @ b)" unfolding k(1) map_of_insert_mid [OF nk, of r] by (simp_all only: fun_upd_same fun_upd_upd fun_upd_idem)
    qed
    have rj: "nd_rids h d ! ?j = r" using d(4) k by (simp add: nth_append)
    show ?thesis
    proof (cases "rid = None \<or> rid = Some r")
      case match: True
      have lt: "int ?j < nd_get_size d" using nd_size_length [OF d(1)] d(3) k by simp
      obtain d' where e: "nd_erase_pair h d (int ?j) = Inr d'" "nd_ok h d'" "same_links d d'"
        "nd_keys h d' = take (nat (int ?j)) (nd_keys h d) @ drop (Suc (nat (int ?j))) (nd_keys h d)"
        "nd_rids h d' = take (nat (int ?j)) (nd_rids h d) @ drop (Suc (nat (int ?j))) (nd_rids h d)"
        by (rule nd_erase_pair_lists [OF dm d(1) of_nat_0_le_iff lt]) blast
      have "leaf_ok h lo hi (a @ b)" using leaf_ok_drop lf k(1) by blast
      moreover have "nd_keys h d' = map fst (a @ b)" "nd_rids h d' = map snd (a @ b)" using e(4,5) d(3,4) k by simp_all
      ultimately show ?thesis using match True e(1-3) p(3) rj m k(1) by (intro that [of d' "a @ b"]) auto
    next
      case nomatch: False
      then show ?thesis using p(3) d lf m rj by (intro that [of d kvs]) (auto simp: same_links_def)
    qed
  qed
qed

lemma map_of_around:
  assumes "key \<notin> fst ` set ls" "key \<notin> fst ` set rs" "map_of kvs' = (if q then (map_of kvs)(key := None) else map_of kvs)"
  shows "map_of (ls @ kvs' @ rs) = (if q then (map_of (ls @ kvs @ rs))(key := None) else map_of (ls @ kvs @ rs))"
proof -
  have "map_of ls key = None" "map_of rs key = None" using assms(1,2) by (simp_all add: map_of_eq_None_iff)
  then show ?thesis using assms(3) by (auto simp: fun_eq_iff map_add_def split: option.split)
qed

lemma delete_entry_steps:
  assumes "find_leaf_page k key s = Some (Inr p, s1)" "ih_pages s1 p = Some d" "geo h (ih_hdr s1)" "nd_remove h d key rid = Inr d'"
    "(if nd_key_is h d' 0 key then maintain_parent k p else ix_ret ()) (s1\<lparr>ih_pages := (ih_pages s1)(p \<mapsto> d')\<rparr>) = Some (Inr (), s2)"
    "coalesce_or_redistribute k p s2 = Some (Inr b, s3)"
  shows "delete_entry k key rid s = Some (Inr True, snd (the (unpin_node p s3)))"
proof -
  note g = geo_simps [OF assms(3)]
  have "delete_entry k key rid s =
    ix_bind (if nd_key_is h d' 0 key then maintain_parent k p else ix_ret ()) (\<lambda>_. ix_bind (coalesce_or_redistribute k p)
      (\<lambda>res. ix_bind (unpin_node p) (\<lambda>_. ix_ret True))) (s1\<lparr>ih_pages := (ih_pages s1)(p \<mapsto> d')\<rparr>)"
    using assms(1,2,4) g(11,18) unfolding delete_entry_def ix_bind_def [of "find_leaf_page k key"] by (simp add: ix_steps)
  then show ?thesis using assms(5,6) by (simp add: ix_bind_def ix_ret_def unpin_node_def)
qed

definition map_remove :: "bytes \<Rightarrow> rid option \<Rightarrow> (bytes \<rightharpoonup> rid) \<Rightarrow> bytes \<rightharpoonup> rid" where
  "map_remove key rid m = (if rid = None \<or> rid = m key then m(key := None) else m)"

text \<open>The leaf the key belongs to, before and after the removal.\<close>

lemma delete_leaf:
  fixes rid :: "rid option"
  assumes inv: "ix_inv h n t s" and key: "length key = klen h" and k: "n < k"
  obtains p kvs kvs' c s1 d d' where "find_leaf_page k key s = Some (Inr p, s1)" "same_store s s1" "t = plug (Lf p kvs) c" "routes h key c"
    "length c = n" "ctx_ok h 0 c" "int (length kvs') < ix_order h" "ih_pages s p = Some d" "nd_ok h d" "nd_is_leaf d" "nd_parent d = ctx_par c"
    "nd_remove h d key rid = Inr d'" "nd_ok h d'" "same_links d d'" "nd_keys h d' = map fst kvs'" "nd_rids h d' = map snd kvs'"
    "leaf_ok h (lo_of h c) (hi_of h c) kvs'" "map_of (left_of entries c @ kvs' @ right_of entries c) = map_remove key rid (bt_map t)"
    "c \<noteq> [] \<Longrightarrow> minsz h - 1 \<le> length kvs'"
proof -
  obtain p kvs c s1 d where f: "find_leaf_page k key s = Some (Inr p, s1)" "same_store s s1" "t = plug (Lf p kvs) c" "routes h key c"
    "length c = n" "ctx_ok h 0 c" "fits h (top_min h c 0) (length kvs)" "leaf_ok h (lo_of h c) (hi_of h c) kvs"
    "ih_pages s p = Some d" "nd_ok h d" "nd_is_leaf d" "nd_keys h d = map fst kvs" "nd_rids h d = map snd kvs" "nd_sorted h d" "nd_parent d = ctx_par c"
    by (rule find_leaf_page_rep [OF inv key k])
  obtain d' kvs' where r: "nd_remove h d key rid = Inr d'" "nd_ok h d'" "same_links d d'" "nd_keys h d' = map fst kvs'" "nd_rids h d' = map snd kvs'"
    "leaf_ok h (lo_of h c) (hi_of h c) kvs'" "length kvs' \<le> length kvs" "length kvs \<le> Suc (length kvs')"
    "map_of kvs' = (if rid = None \<or> rid = map_of kvs key then (map_of kvs)(key := None) else map_of kvs)"
    by (rule leaf_nd_remove [OF ix_invD(1) [OF inv] f(10,14,12,13) key f(8)])
  have mk: "bt_map t key = map_of kvs key" using routes_map [OF f(6,4), of "Lf p kvs"] f(3) by (simp add: bt_map_def)
  let ?L = "left_of entries c" and ?R = "right_of entries c"
  have "map_of (?L @ kvs' @ ?R) = (if rid = None \<or> rid = map_of kvs key then (map_of (?L @ kvs @ ?R))(key := None) else map_of (?L @ kvs @ ?R))"
    by (rule map_of_around [OF _ _ r(9)]) (use routes_sides [OF f(6,4)] in auto)
  then have m': "map_of (?L @ kvs' @ ?R) = map_remove key rid (bt_map t)"
    unfolding map_remove_def mk by (simp only: bt_map_def f(3) entries_plug entries.simps)
  show ?thesis
    by (rule that [OF f(1-6) _ f(9-11,15) r(1-6) m']) (use f(7) r(7,8) in \<open>auto simp: fits_def top_min_def\<close>)
qed

lemma delete_entry_rep:
  fixes rid :: "rid option"
  assumes inv: "ix_inv h n t s" and key: "length key = klen h" and k: "n < k" and left: "map_remove key rid (bt_map t) \<noteq> Map.empty"
  shows "\<exists>s' t' n'. delete_entry k key rid s = Some (Inr True, s') \<and> ix_inv h n' t' s' \<and> bt_map t' = map_remove key rid (bt_map t) \<and>
    n' \<le> n \<and> ih_next s' = ih_next s"
proof -
  obtain p kvs kvs' c s1 d d' where f: "find_leaf_page k key s = Some (Inr p, s1)" "same_store s s1" "t = plug (Lf p kvs) c" "routes h key c"
    "length c = n" "ctx_ok h 0 c" "int (length kvs') < ix_order h" "ih_pages s p = Some d" "nd_ok h d" "nd_is_leaf d" "nd_parent d = ctx_par c"
    and r: "nd_remove h d key rid = Inr d'" "nd_ok h d'" "same_links d d'" "nd_keys h d' = map fst kvs'" "nd_rids h d' = map snd kvs'"
    "leaf_ok h (lo_of h c) (hi_of h c) kvs'" and m': "map_of (left_of entries c @ kvs' @ right_of entries c) = map_remove key rid (bt_map t)"
    and few0: "c \<noteq> [] \<Longrightarrow> minsz h - 1 \<le> length kvs'" by (rule delete_leaf [OF inv key k, where rid = rid]) blast
  note i = ix_invD [OF inv] and s1 = same_storeD [OF f(2)]
  have ms: "2 \<le> minsz h" by (rule minsz_pos [OF i(1)])
  have few: "(if c = [] then 1 else minsz h - 1) \<le> length kvs'"
  proof (cases "c = []")
    case True
    then have "kvs' \<noteq> []" using m' left by auto
    then show ?thesis using True by (cases kvs') simp_all
  qed (use few0 in simp)
  then obtain kv b where kvs': "kvs' = kv # b" using ms by (cases kvs') (auto split: if_splits)
  define sA where "sA = s1\<lparr>ih_pages := (ih_pages s1)(p \<mapsto> d')\<rparr>"
  have sA: "ih_pages sA = (ih_pages s)(p \<mapsto> d')" "ih_hdr sA = ih_hdr s" "ih_next sA = ih_next s" using s1 by (simp_all add: sA_def)
  have dst: "p \<notin> set (ctx_pages c)" "distinct (ctx_pages c)" using i(6) by (simp_all add: f(3) distinct_pages_plug)
  have npg: "IX_NO_PAGE \<notin> set (ctx_pages c)" using i(7) [of IX_NO_PAGE] by (auto simp: f(3) set_pages_plug ix_consts)
  have "rep_ctx h (ih_pages s) p c" using i(4) by (simp add: f(3) rep_plug)
  then have rcA: "rep_ctx h (ih_pages sA) p c" by (rule rep_ctx_keep) (use dst(1) in \<open>auto simp: sA\<close>)
  have "\<exists>s2 c'. (if nd_key_is h d' 0 key then maintain_parent k p else ix_ret ()) sA = Some (Inr (), s2) \<and> same_place h c c' \<and>
    ctx_ok h 0 c' \<and> leaf_ok h (lo_of h c') (hi_of h c') kvs' \<and> rep_ctx h (ih_pages s2) p c' \<and> ih_pages s2 p = Some d' \<and>
    ih_hdr s2 = ih_hdr sA \<and> ih_next s2 = ih_next sA \<and> links_kept (ih_next s) (ih_pages sA) (ih_pages s2)"
  proof (cases "fst kv = key")
    case True
    then have kv: "kvs' = [] @ (key, snd kv) # b" using kvs' by (cases kv) simp
    obtain s2 c' where "(if nd_key_is h d' 0 key then maintain_parent k p else ix_ret ()) sA = Some (Inr (), s2)" "same_place h c c'"
      "ctx_ok h 0 c'" "leaf_ok h (lo_of h c') (hi_of h c') ([] @ (key, snd kv) # b)" "rep_ctx h (ih_pages s2) p c'" "ih_pages s2 p = Some d'"
      "ih_hdr s2 = ih_hdr sA" "ih_next s2 = ih_next sA" "links_kept (ih_next s) (ih_pages sA) (ih_pages s2)"
    proof (rule leaf_maintain [OF i(1) _ f(6,4) rcA _ dst(2,1) npg _ r(2), where k = k and N = "ih_next s" and a = "[]" and b = b and r = "snd kv"])
      show "krank h key < krank h (fst kv')" if "kv' \<in> set b" for kv' using r(6) kv that by (auto simp: leaf_ok_def)
      show "leaf_ok h (lo_of h c) (hi_of h c) ([] @ b)" using r(6) leaf_ok_drop unfolding kv by blast
      show "rid_ok (snd kv)" using leaf_okD(2) [OF r(6), of kv] kvs' by simp
    qed (use i(2) f(5,11) k r(3,4) key kv in \<open>auto simp: sA same_links_def\<close>)
    then show ?thesis using kv by auto
  next
    case False
    have "length (fst kv) = klen h" using leaf_okD(1) [OF r(6), of kv] kvs' by simp
    moreover have "nd_get_key h d' 0 = fst kv" using nd_get_key_hd [of h d'] r(4) kvs' by simp
    ultimately have "\<not> nd_key_is h d' 0 key" using False key by (simp add: nd_key_is_def memcmp_zero)
    then show ?thesis using f(6) r(6) rcA sA(1) by (intro exI [of _ sA] exI [of _ c]) (simp add: ix_ret_def same_place_refl links_kept_refl)
  qed
  then obtain s2 c' where m: "(if nd_key_is h d' 0 key then maintain_parent k p else ix_ret ()) sA = Some (Inr (), s2)" "same_place h c c'"
    "ctx_ok h 0 c'" "leaf_ok h (lo_of h c') (hi_of h c') kvs'" "rep_ctx h (ih_pages s2) p c'" "ih_pages s2 p = Some d'"
    "ih_hdr s2 = ih_hdr sA" "ih_next s2 = ih_next sA" "links_kept (ih_next s) (ih_pages sA) (ih_pages s2)" by blast
  note pl = m(2) [unfolded same_place_def]
  have "links_kept (ih_next s) (ih_pages s) (ih_pages sA)" unfolding sA(1)
    by (rule links_kept_upd [OF links_kept_refl, where d = d])
      (use f(8) r(3) nd_ok_length [OF f(9)] nd_ok_length [OF r(2)] in \<open>simp_all add: same_links_def\<close>)
  from links_kept_trans [OF this m(9) order_refl] have lk: "links_kept (ih_next s) (ih_pages s) (ih_pages s2)" .
  have rl: "rep h (ih_pages s2) (ctx_par c') (Lf p kvs')"
    using m(6) r(2-5) f(10,11) pl by (simp add: nodep_def same_links_def)
  have "ix_shape h (plug (Lf p kvs) c) s" using inv by (simp add: ix_inv_shape f(3))
  then have shape: "ix_shape h (plug (Lf p kvs') c') s2"
    by (rule ix_shape_leaf [OF _ m(2,5) rl]) (use m(7,8) sA lk in simp_all)
  have cc: "c' = [] \<longleftrightarrow> c = []" using pl by (metis length_0_conv)
  have "del_post h (0 + length c') (ih_next s2) (entries (plug (Lf p kvs') c')) (coalesce_or_redistribute k (bt_page (Lf p kvs')) s2)"
    by (rule coalesce_or_redistribute_rep [OF shape m(3)]) (use m(4) f(5,7) few cc pl k in \<open>simp_all add: fits_def\<close>)
  then obtain b s3 t' n' where cr: "coalesce_or_redistribute k p s2 = Some (Inr b, s3)" "ix_inv h n' t' s3" "entries t' = entries (plug (Lf p kvs') c')"
    "n' \<le> length c'" "ih_next s3 = ih_next s2" unfolding del_post_def by auto
  have "delete_entry k key rid s = Some (Inr True, snd (the (unpin_node p s3)))"
    by (rule delete_entry_steps [OF f(1) _ _ r(1) m(1) [unfolded sA_def] cr(1)]) (use s1 f(8) i(2) in simp_all)
  moreover have "ix_inv h n' t' (snd (the (unpin_node p s3)))" by (rule ix_inv_same_store [OF cr(2)]) (simp add: unpin_node_def same_store_def)
  moreover have "bt_map t' = map_remove key rid (bt_map t)" using cr(3) pl m' by (simp add: bt_map_def entries_plug)
  moreover have "n' \<le> n" "ih_next (snd (the (unpin_node p s3))) = ih_next s" using cr(4,5) pl f(5) m(8) sA(3) by (simp_all add: unpin_node_def)
  ultimately show ?thesis by blast
qed

section \<open>Deleting the last entry\<close>

lemma delete_entry_last_rep:
  fixes rid :: "rid option"
  assumes inv: "ix_inv h n t s" and key: "length key = klen h" and k: "n < k" and none: "map_remove key rid (bt_map t) = Map.empty"
  shows "\<exists>s'. delete_entry k key rid s = Some (Inr True, s') \<and> ix_root (ih_hdr s') = INVALID_PAGE_ID \<and> ih_next s' = ih_next s \<and>
    dom (ih_pages s') = dom (ih_pages s)"
proof -
  obtain p kvs kvs' c s1 d d' where f: "find_leaf_page k key s = Some (Inr p, s1)" "same_store s s1" "t = plug (Lf p kvs) c" "routes h key c"
    "length c = n" "ctx_ok h 0 c" "int (length kvs') < ix_order h" "ih_pages s p = Some d" "nd_ok h d" "nd_is_leaf d" "nd_parent d = ctx_par c"
    and r: "nd_remove h d key rid = Inr d'" "nd_ok h d'" "same_links d d'" "nd_keys h d' = map fst kvs'" "nd_rids h d' = map snd kvs'"
    "leaf_ok h (lo_of h c) (hi_of h c) kvs'" and m': "map_of (left_of entries c @ kvs' @ right_of entries c) = map_remove key rid (bt_map t)"
    and few: "c \<noteq> [] \<Longrightarrow> minsz h - 1 \<le> length kvs'" by (rule delete_leaf [OF inv key k, where rid = rid]) blast
  note i = ix_invD [OF inv] and s1 = same_storeD [OF f(2)]
  have "map_of (left_of entries c @ kvs' @ right_of entries c) = Map.empty" using m' none by simp
  then have kvs': "kvs' = []" unfolding map_of_eq_empty_iff by simp
  then have c: "c = []" using few minsz_pos [OF i(1)] by (cases c) auto
  have sz: "nd_get_size d' = 0" using nd_size_length [OF r(2)] r(4) kvs' by simp
  have nd: "nd_is_leaf d'" "nd_parent d' = INVALID_PAGE_ID" using r(3) f(10,11) c by (simp_all add: same_links_def)
  define sA where "sA = s1\<lparr>ih_pages := (ih_pages s1)(p \<mapsto> d')\<rparr>"
  have pA: "ih_pages sA p = Some d'" by (simp add: sA_def)
  obtain k' where k': "k = Suc k'" using k by (cases k) auto
  have "(if nd_key_is h d' 0 key then maintain_parent k p else ix_ret ()) sA = Some (Inr (), sA)"
    using pA nd(2) by (simp add: k' maintain_parent_def ix_prims ix_consts)
  note mt = this [unfolded sA_def]
  define s3 where "s3 = snd (the (adjust_root p sA))"
  have s3: "adjust_root p sA = Some (Inr True, s3)" "ix_root (ih_hdr s3) = INVALID_PAGE_ID" "ih_next s3 = ih_next s" "ih_pages s3 = (ih_pages s)(p \<mapsto> d')"
    using pA nd(1) sz s1 by (simp_all add: s3_def adjust_root_def release_node_handle_def ix_prims sA_def)
  have "coalesce_or_redistribute k p sA = adjust_root p sA" using pA nd(2) by (simp add: k' ix_prims nd_is_root_def)
  then have cr: "coalesce_or_redistribute k p (s1\<lparr>ih_pages := (ih_pages s1)(p \<mapsto> d')\<rparr>) = Some (Inr True, s3)" using s3(1) by (simp add: sA_def)
  have "delete_entry k key rid s = Some (Inr True, snd (the (unpin_node p s3)))"
    by (rule delete_entry_steps [OF f(1) _ _ r(1) mt cr]) (use s1 f(8) i(2) in simp_all)
  then show ?thesis using s3(2-4) f(8) by (auto simp: unpin_node_def)
qed

lemma rootless_fails:
  assumes "ix_root (ih_hdr s) = INVALID_PAGE_ID" "ih_pages s INVALID_PAGE_ID = None"
  shows "insert_entry k key r s = Some (Inl (InternalError ''Failed to seek to page location''), s\<lparr>ih_pages := (ih_pages s)(- 1 \<mapsto> replicate PAGE_SIZE 0)\<rparr>)"
    "get_value k key s = Some (Inl (InternalError ''Failed to seek to page location''), s\<lparr>ih_pages := (ih_pages s)(- 1 \<mapsto> replicate PAGE_SIZE 0)\<rparr>)"
  using assms by (simp_all add: insert_entry_def get_value_def find_leaf_page_def ix_prims INVALID_PAGE_ID_def)

end
