(* ===== verification/Ix_Index.thy ===== *)
theory Ix_Index
  imports Ix_Manager Bt_Delete
begin

text \<open>
  What an index promises its clients: it is a finite map from keys to record identifiers.
  \<open>ix_holds h s n m\<close> says that the pages of the open index \<open>s\<close>, whose nodes have the geometry of
  \<open>h\<close>, form a B+ tree of height \<open>n\<close> for the map \<open>m\<close>: separators bound the keys of their subtrees,
  all leaves are at the same depth, every node but the root is at least half full, the parent of
  every page is recorded in it, and the leaves are linked in key order from the header page. The
  operations of \<^verbatim>\<open>IxIndexHandle\<close> keep this and change the map as they should; a new index holds
  the empty map. The fuel of an operation has to exceed the height.
\<close>

section \<open>Clients of an index\<close>

datatype index_op = Insert_Op bytes rid | Delete_Op bytes "rid option"

fun op_map :: "index_op \<Rightarrow> (bytes \<rightharpoonup> rid) \<Rightarrow> bytes \<rightharpoonup> rid" where
  "op_map (Insert_Op key r) m = (if key \<in> dom m then m else m(key \<mapsto> r))"
| "op_map (Delete_Op key rid) m = map_remove key rid m"

fun op_ok :: "nat \<Rightarrow> index_op \<Rightarrow> (bytes \<rightharpoonup> rid) \<Rightarrow> bool" where
  "op_ok len (Insert_Op key r) m \<longleftrightarrow> length key = len \<and> rid_ok r"
| "op_ok len (Delete_Op key rid) m \<longleftrightarrow> length key = len \<and> map_remove key rid m \<noteq> Map.empty"

fun ops_ok :: "nat \<Rightarrow> index_op list \<Rightarrow> (bytes \<rightharpoonup> rid) \<Rightarrow> bool" where
  "ops_ok len [] m \<longleftrightarrow> True"
| "ops_ok len (op # ops) m \<longleftrightarrow> op_ok len op m \<and> ops_ok len ops (op_map op m)"

text \<open>
  The contract: while the tree is not too high for the fuel \<open>k\<close> and page numbers are left, a step
  changes the map as its operation says. A step grows the tree by one level and the file by one page
  for every level at most.
\<close>

fun run_ops :: "(index_op \<Rightarrow> 's \<Rightarrow> 's option) \<Rightarrow> index_op list \<Rightarrow> 's \<Rightarrow> 's option" where
  "run_ops step [] s = Some s"
| "run_ops step (op # ops) s = (case step op s of None \<Rightarrow> None | Some s' \<Rightarrow> run_ops step ops s')"

locale index_service =
  fixes holds :: "'s \<Rightarrow> nat \<Rightarrow> (bytes \<rightharpoonup> rid) \<Rightarrow> bool" and step :: "index_op \<Rightarrow> 's \<Rightarrow> 's option" and next_page :: "'s \<Rightarrow> int"
    and len :: nat and k :: nat
  assumes step_holds: "holds s n m \<Longrightarrow> op_ok len op m \<Longrightarrow> n < k \<Longrightarrow> next_page s + int n < 2 ^ 31 - 2 \<Longrightarrow>
    \<exists>s' n'. step op s = Some s' \<and> holds s' n' (op_map op m) \<and> n' \<le> Suc n \<and> next_page s' \<le> next_page s + int n + 2"
begin

lemma steps_hold:
  "holds s n m \<Longrightarrow> ops_ok len ops m \<Longrightarrow> n + length ops \<le> k \<Longrightarrow>
   next_page s + int (length ops) * int (n + length ops + 2) < 2 ^ 31 - 2 \<Longrightarrow>
   \<exists>s' n'. run_ops step ops s = Some s' \<and> holds s' n' (fold op_map ops m) \<and> n' \<le> n + length ops"
proof (induction ops arbitrary: s n m)
  case Nil
  then show ?case by auto
next
  case (Cons op ops)
  define N where "N = n + length (op # ops) + 2"
  have eq: "int (length (op # ops)) * int N = int (length ops) * int N + int N" by (simp add: algebra_simps)
  have nn: "0 \<le> int (length ops) * int N" "int n + 2 < int N" by (simp_all add: N_def)
  have pr: "next_page s + (int (length ops) * int N + int N) < 2 ^ 31 - 2" using Cons.prems(4) unfolding N_def [symmetric] eq .
  have b: "next_page s + int n < 2 ^ 31 - 2" using pr nn by linarith
  obtain s1 n1 where s1: "step op s = Some s1" "holds s1 n1 (op_map op m)" "n1 \<le> Suc n" "next_page s1 \<le> next_page s + int n + 2"
    using step_holds [OF Cons.prems(1) _ _ b, of op] Cons.prems(2,3) by auto
  have "int (length ops) * int (n1 + length ops + 2) \<le> int (length ops) * int N" using s1(3) by (intro mult_left_mono) (simp_all add: N_def)
  then have b1: "next_page s1 + int (length ops) * int (n1 + length ops + 2) < 2 ^ 31 - 2"
    using pr nn s1(4) by linarith
  obtain s' n' where "run_ops step ops s1 = Some s'" "holds s' n' (fold op_map ops (op_map op m))" "n' \<le> n1 + length ops"
    using Cons.IH [OF s1(2) _ _ b1] Cons.prems(2,3) s1(3) by auto
  then show ?case using s1(1,3) by auto
qed

end

section \<open>The operations of an open index\<close>

lemma insert_entry_holds:
  assumes "ix_holds h s n m" "length key = klen h" "rid_ok r" "n < k" "ih_next s + int n < 2 ^ 31 - 2"
  shows "\<exists>p s' n'. insert_entry k key r s = Some (Inr (p, key \<notin> dom m), s') \<and> ix_holds h s' n' (if key \<in> dom m then m else m(key \<mapsto> r)) \<and>
    n' \<le> Suc n \<and> ih_next s' \<le> ih_next s + int n + 2"
proof -
  obtain t where t: "ix_inv h n t s" "bt_map t = m" using assms(1) by (auto simp: ix_holds_def)
  show ?thesis
  proof (cases "key \<in> dom m")
    case True
    then obtain p s' where "insert_entry k key r s = Some (Inr (p, False), s')" "ix_inv h n t s'" "same_store s s'"
      using insert_entry_present [OF t(1) assms(2) _ assms(4)] t(2) by blast
    then show ?thesis using True t(2) same_storeD [of s s'] by (auto simp: ix_holds_def)
  next
    case False
    then obtain p s' t' n' where "insert_entry k key r s = Some (Inr (p, True), s')" "ix_inv h n' t' s'" "bt_map t' = (bt_map t)(key \<mapsto> r)"
      "n' \<le> Suc n" "ih_next s' \<le> ih_next s + int n + 2"
      using insert_entry_absent [OF t(1) assms(2,3) _ assms(4,5)] t(2) by blast
    then show ?thesis using False t(2) by (auto simp: ix_holds_def)
  qed
qed

lemma delete_entry_holds:
  assumes "ix_holds h s n m" "length key = klen h" "n < k" "map_remove key rid m \<noteq> Map.empty"
  shows "\<exists>s' n'. delete_entry k key rid s = Some (Inr True, s') \<and> ix_holds h s' n' (map_remove key rid m) \<and> n' \<le> n \<and> ih_next s' = ih_next s"
proof -
  obtain t where t: "ix_inv h n t s" "bt_map t = m" using assms(1) by (auto simp: ix_holds_def)
  show ?thesis using delete_entry_rep [OF t(1) assms(2,3), of rid] assms(4) t(2) by (auto simp: ix_holds_def)
qed

definition ix_step :: "nat \<Rightarrow> index_op \<Rightarrow> ix_handle \<Rightarrow> ix_handle option" where
  "ix_step k op s =
    (case (case op of Insert_Op key r \<Rightarrow> ix_bind (insert_entry k key r) (\<lambda>_. ix_ret ()) s
           | Delete_Op key rid \<Rightarrow> ix_bind (delete_entry k key rid) (\<lambda>_. ix_ret ()) s) of
       Some (Inr _, s') \<Rightarrow> Some s'
     | _ \<Rightarrow> None)"

interpretation ixs: index_service "ix_holds h" "ix_step k" ih_next "klen h" k for h k
proof
  fix s n m op
  assume a: "ix_holds h s n m" "op_ok (klen h) op m" "n < k" "ih_next s + int n < 2 ^ 31 - 2"
  show "\<exists>s' n'. ix_step k op s = Some s' \<and> ix_holds h s' n' (op_map op m) \<and> n' \<le> Suc n \<and> ih_next s' \<le> ih_next s + int n + 2"
  proof (cases op)
    case (Insert_Op key r)
    then obtain p s' n' where "insert_entry k key r s = Some (Inr (p, key \<notin> dom m), s')" "ix_holds h s' n' (op_map op m)"
      "n' \<le> Suc n" "ih_next s' \<le> ih_next s + int n + 2"
      using insert_entry_holds [OF a(1) _ _ a(3,4), of key r] a(2) by (simp only: op_map.simps op_ok.simps) blast
    then show ?thesis using Insert_Op by (intro exI [of _ s'] exI [of _ n']) (simp add: ix_step_def ix_bind_def ix_ret_def)
  next
    case (Delete_Op key rid)
    then obtain s' n' where "delete_entry k key rid s = Some (Inr True, s')" "ix_holds h s' n' (map_remove key rid m)" "n' \<le> n" "ih_next s' = ih_next s"
      using delete_entry_holds [OF a(1) _ a(3), of key rid] a(2) by auto
    then show ?thesis using Delete_Op by (auto simp: ix_step_def ix_bind_def ix_ret_def)
  qed
qed

section \<open>Searching\<close>

lemma get_value_holds:
  assumes "ix_holds h s n m" "length key = klen h" "n < k"
  shows "\<exists>v s'. get_value k key s = Some (Inr v, s') \<and> ix_holds h s' n m \<and> (key \<in> dom m \<longrightarrow> v = m key)"
proof -
  obtain t where t: "ix_inv h n t s" "bt_map t = m" using assms(1) by (auto simp: ix_holds_def)
  obtain v s' where "get_value k key s = Some (Inr v, s')" "same_store s s'" "key \<in> dom (bt_map t) \<Longrightarrow> v = bt_map t key"
    by (rule get_value_rep [OF t(1) assms(2,3)]) blast
  then show ?thesis using t ix_inv_same_store [OF t(1)] by (auto simp: ix_holds_def)
qed

lemma descend_mono: "descend k key p s = Some r \<Longrightarrow> k \<le> k' \<Longrightarrow> descend k' key p s = Some r"
proof (induction k arbitrary: k' p s)
  case (Suc k)
  obtain k'' where k': "k' = Suc k''" "k \<le> k''" using Suc.prems(2) by (cases k') auto
  show ?case using Suc.prems(1) Suc.IH [OF _ k'(2)]
    by (auto simp: k'(1) ix_bind_def split: option.splits sum.splits if_splits)
qed simp

section \<open>New indexes\<close>

text \<open>The handle \<^verbatim>\<open>open_index\<close> builds, with no page of the index in the pool.\<close>

definition opened_index :: "disk_manager \<Rightarrow> int \<Rightarrow> ix_file_hdr \<Rightarrow> ix_handle" where
  "opened_index d fd h = \<lparr>ih_fd = fd, ih_hdr = h, ih_pages = dm_page d fd, ih_pins = (\<lambda>_. 0), ih_next = fd2pageno d fd\<rparr>"

lemma empty_index_holds:
  assumes h: "hdr_ok h" "ix_root h = 2" "ix_first_leaf h = 2" "ix_last_leaf h = 2"
    and s: "ih_hdr s = h" "ih_pages s 1 = Some (ix_init_page 2 2)" "ih_pages s 2 = Some (ix_init_page 1 1)" "ih_next s = 3"
  shows "ix_holds h s 0 Map.empty"
proof -
  let ?t = "Lf 2 []"
  have r: "int_range 1" "int_range 2" by (simp_all add: int_range_def)
  note p = ix_init_page_props(1-4) [of 1 1] ix_init_page_props(5,6) [OF r(1), of 1] ix_init_page_props(1-4) [of 2 2] ix_init_page_props(5,6) [OF r(2), of 2]
  have q: "nd_prev_leaf (ix_init_page 1 1) = 1" "nd_next_leaf (ix_init_page 1 1) = 1" "nd_prev_leaf (ix_init_page 2 2) = 2" "nd_next_leaf (ix_init_page 2 2) = 2"
    using ix_init_page_props(5,6) r by blast+
  have nd: "nd_ok h (ix_init_page 1 1)" "nd_parent (ix_init_page 1 1) = INVALID_PAGE_ID" "nd_keys h (ix_init_page 1 1) = []" "nd_rids h (ix_init_page 1 1) = []"
    using p(1,3,4) h(1) by (simp_all add: nd_ok_def hdr_ok_def nd_is_root_def nd_keys_def nd_rids_def)
  have "rep h (ih_pages s) INVALID_PAGE_ID ?t" using s(3) nd p(2) by (simp add: nodep_def)
  moreover have "bt_ok h 0 (root_min 0) None None ?t" using h(1) by (simp add: root_min_def fits_def hdr_ok_def leaf_ok_def)
  moreover have "linked (ih_pages s) (IX_LEAF_HEADER_PAGE # leaf_pages ?t @ [IX_LEAF_HEADER_PAGE])"
    using s(2,3) q by (simp add: IX_LEAF_HEADER_PAGE_def)
  ultimately have "ix_inv h 0 ?t s" using h s ix_init_page_props(1) by (simp add: ix_inv_def IX_LEAF_HEADER_PAGE_def)
  then show ?thesis by (auto simp: ix_holds_def bt_map_def)
qed

lemma new_index_holds:
  assumes "dm_inv d" "ix_cols_ok cols" "cols_exact (map cm_type cols) (map cm_len cols)" "names (os d) (get_index_name_cols fn cols) = None"
    "path2fd d (get_index_name_cols fn cols) = None" "3 * PAGE_SIZE \<le> max_bytes (os d)"
  obtains d1 fd h d2 where "ix_create_index d fn cols = (Inr (), d1)" "ix_open_index_cols d1 fn cols = (Inr (fd, h), d2)"
    "ix_holds h (opened_index d2 fd h) 0 Map.empty" "ih_next (opened_index d2 fd h) = 3" "klen h = nat (sum_list (map cm_len cols))"
proof -
  obtain d1 h fd where c: "ix_create_index d fn cols = (Inr (), d1)" "ix_new_hdr cols = Inr h"
    "ix_created d1 (get_index_name_cols fn cols) h fd" "fd2pageno d1 = (fd2pageno d)(fd := 2)"
    by (rule ix_create_ok [OF assms(1,2) refl assms(4-6)])
  have h: "ix_dims h" "ix_hdr_wf h" "ix_tot_len h \<le> 4096" "ix_root h = 2" "ix_first_leaf h = 2" "ix_last_leaf h = 2"
    "ix_col_types h = map cm_type cols" "ix_col_lens h = map cm_len cols" "ix_col_tot_len h = sum_list (map cm_len cols)" "6 \<le> ix_order h"
    by (rule ix_new_hdr_ok [OF assms(2)], use c(2) in simp)+
  obtain d2 where o: "ix_open_index_cols d1 fn cols = (Inr (fd, h), d2)" "fd2pageno d2 = (fd2pageno d1)(fd := fd2pageno d1 fd + 1)"
    "dm_page d2 fd 1 = Some (ix_init_page 2 2)" "dm_page d2 fd 2 = Some (ix_init_page 1 1)"
    by (rule ix_open_ok [OF c(3) h(2,3) refl]) blast
  have "hdr_ok h" using h assms(3) by (simp add: hdr_ok_def ix_exact_def)
  then have "ix_holds h (opened_index d2 fd h) 0 Map.empty"
    by (rule empty_index_holds) (use h o c(4) in \<open>simp_all add: opened_index_def\<close>)
  then show ?thesis using that c(1,4) o(1,2) h(9) by (simp add: opened_index_def)
qed

section \<open>Correctness\<close>

text \<open>
  C7. \<^verbatim>\<open>insert_entry\<close> on an index that holds a map returns, reports whether the key was new, and
  leaves an index that holds the map with the new pair, or the same map when the key was there.
  Splits are covered: the tree is balanced, ordered and half full again and its leaves are linked.
\<close>
theorem index_insert_correct:
  assumes "ix_holds h s n m" and "length key = klen h" and "rid_ok r" and "n < k" and "ih_next s + int n < 2 ^ 31 - 2"
  shows "\<exists>p s' n'. insert_entry k key r s = Some (Inr (p, key \<notin> dom m), s') \<and>
    ix_holds h s' n' (if key \<in> dom m then m else m(key \<mapsto> r)) \<and> n' \<le> Suc n \<and>
    (\<exists>s2. get_value (Suc n') key s' = Some (Inr (if key \<in> dom m then m key else Some r), s2))"
proof -
  obtain p s' n' where i: "insert_entry k key r s = Some (Inr (p, key \<notin> dom m), s')" "ix_holds h s' n' (if key \<in> dom m then m else m(key \<mapsto> r))" "n' \<le> Suc n"
    using insert_entry_holds [OF assms] by blast
  obtain v s2 where "get_value (Suc n') key s' = Some (Inr v, s2)"
    "key \<in> dom (if key \<in> dom m then m else m(key \<mapsto> r)) \<longrightarrow> v = (if key \<in> dom m then m else m(key \<mapsto> r)) key"
    using get_value_holds [OF i(2) assms(2) lessI] by blast
  then show ?thesis using i by (intro exI [of _ p] exI [of _ s'] exI [of _ n']) (auto split: if_splits)
qed

definition sample_index :: ix_handle where
  "sample_index = \<lparr>ih_fd = 3, ih_hdr = sample_nd_hdr, ih_pages = [1 \<mapsto> ix_init_page 2 2, 2 \<mapsto> ix_init_page 1 1], ih_pins = (\<lambda>_. 0), ih_next = 3\<rparr>"

lemma sample_index_holds: "ix_holds sample_nd_hdr sample_index 0 Map.empty"
  by (rule empty_index_holds)
    (use sample_nd_facts in \<open>simp_all add: hdr_ok_def sample_index_def sample_nd_hdr_def new_ix_file_hdr_def update_tot_len_def ix_consts\<close>)

lemma sample_keys: "length (enc_int x) = klen sample_nd_hdr" "rid_ok (mk_rid 1 2)" "rid_ok (mk_rid 1 3)" "enc_int 5 \<noteq> enc_int 7"
  "ih_next sample_index = 3"
  using sample_nd_facts(3) by (simp_all add: rid_ok_def int_range_def sample_index_def) code_simp

theorem index_insert_correct_witness:
  "\<exists>p s' n'. insert_entry 1 (enc_int 5) (mk_rid 1 2) sample_index = Some (Inr (p, True), s') \<and> ix_holds sample_nd_hdr s' n' [enc_int 5 \<mapsto> mk_rid 1 2]"
  using index_insert_correct [OF sample_index_holds sample_keys(1) [of 5] sample_keys(2), of 1] sample_keys(5) by fastforce

lemma sample_pair:
  obtains s n where "ix_holds sample_nd_hdr s n [enc_int 5 \<mapsto> mk_rid 1 2, enc_int 7 \<mapsto> mk_rid 1 3]"
proof -
  obtain p s1 n1 where s1: "ix_holds sample_nd_hdr s1 n1 [enc_int 5 \<mapsto> mk_rid 1 2]" "n1 \<le> 1" "ih_next s1 \<le> 5"
    using insert_entry_holds [OF sample_index_holds sample_keys(1) [of 5] sample_keys(2), of 1] sample_keys(5) by fastforce
  have "enc_int 7 \<notin> dom [enc_int 5 \<mapsto> mk_rid 1 2]" using sample_keys(4) by simp
  then show ?thesis
    using insert_entry_holds [OF s1(1) sample_keys(1) [of 7] sample_keys(3), of 3] s1(2,3) that by (auto simp: fun_upd_twist sample_keys(4))
qed

text \<open>
  C11. \<^verbatim>\<open>delete_entry\<close> on an index that holds a map, with a pair left over afterwards, returns true and
  leaves an index that holds the map without the key (with the map unchanged when the key is absent
  or belongs to another record than the given one). Moves between siblings, merges and the
  replacement of the root are covered: the tree is balanced and half full again.
\<close>
theorem index_delete_correct:
  assumes "ix_holds h s n m" and "length key = klen h" and "n < k" and "map_remove key rid m \<noteq> Map.empty"
  shows "\<exists>s' n'. delete_entry k key rid s = Some (Inr True, s') \<and> ix_holds h s' n' (map_remove key rid m) \<and> n' \<le> n \<and> ih_next s' = ih_next s"
  using assms by (rule delete_entry_holds)

theorem index_delete_correct_witness:
  "\<exists>s n s' n'. ix_holds sample_nd_hdr s n [enc_int 5 \<mapsto> mk_rid 1 2, enc_int 7 \<mapsto> mk_rid 1 3] \<and>
     delete_entry (Suc n) (enc_int 5) None s = Some (Inr True, s') \<and> ix_holds sample_nd_hdr s' n' [enc_int 7 \<mapsto> mk_rid 1 3]"
proof -
  obtain s n where s: "ix_holds sample_nd_hdr s n [enc_int 5 \<mapsto> mk_rid 1 2, enc_int 7 \<mapsto> mk_rid 1 3]" by (rule sample_pair)
  have m: "map_remove (enc_int 5) None [enc_int 5 \<mapsto> mk_rid 1 2, enc_int 7 \<mapsto> mk_rid 1 3] = [enc_int 7 \<mapsto> mk_rid 1 3]"
    using sample_keys(4) by (auto simp: map_remove_def fun_eq_iff)
  have "map_remove (enc_int 5) None [enc_int 5 \<mapsto> mk_rid 1 2, enc_int 7 \<mapsto> mk_rid 1 3] \<noteq> Map.empty" unfolding m by simp
  from index_delete_correct [OF s sample_keys(1) [of 5] lessI this] show ?thesis using s unfolding m by blast
qed

text \<open>
  \<^verbatim>\<open>get_value\<close> of a key the index holds returns its record identifier and leaves the index as it
  is. For other keys it returns as well, but not always nothing.
\<close>
theorem index_lookup_correct:
  assumes "ix_holds h s n m" and "length key = klen h" and "n < k"
  shows "\<exists>v s'. get_value k key s = Some (Inr v, s') \<and> ix_holds h s' n m \<and> (key \<in> dom m \<longrightarrow> v = m key)"
  using assms by (rule get_value_holds)

theorem index_lookup_correct_witness:
  "\<exists>s n s'. ix_holds sample_nd_hdr s n [enc_int 5 \<mapsto> mk_rid 1 2, enc_int 7 \<mapsto> mk_rid 1 3] \<and>
     get_value (Suc n) (enc_int 7) s = Some (Inr (Some (mk_rid 1 3)), s')"
proof -
  obtain s n where s: "ix_holds sample_nd_hdr s n [enc_int 5 \<mapsto> mk_rid 1 2, enc_int 7 \<mapsto> mk_rid 1 3]" by (rule sample_pair)
  show ?thesis using index_lookup_correct [OF s sample_keys(1) [of 7] lessI] s by fastforce
qed

text \<open>
  C12. Every sequence of insertions and deletions that leaves a pair after each deletion refines the
  same sequence on the map. The fuel has to be larger than the height by the number of operations,
  and page numbers have to be left for a split of every level in every step.
\<close>
theorem index_run_refines:
  assumes "ix_holds h s n m" and "ops_ok (klen h) ops m" and "n + length ops \<le> k"
    and "ih_next s + int (length ops) * int (n + length ops + 2) < 2 ^ 31 - 2"
  shows "\<exists>s' n'. run_ops (ix_step k) ops s = Some s' \<and> ix_holds h s' n' (fold op_map ops m) \<and> n' \<le> n + length ops"
  using assms by (rule ixs.steps_hold)

theorem index_run_refines_witness:
  "\<exists>s' n'. run_ops (ix_step 3) [Insert_Op (enc_int 5) (mk_rid 1 2), Insert_Op (enc_int 7) (mk_rid 1 3), Delete_Op (enc_int 5) None] sample_index = Some s' \<and>
     ix_holds sample_nd_hdr s' n' [enc_int 7 \<mapsto> mk_rid 1 3]"
proof -
  let ?ops = "[Insert_Op (enc_int 5) (mk_rid 1 2), Insert_Op (enc_int 7) (mk_rid 1 3), Delete_Op (enc_int 5) None]"
  have n: "enc_int 7 \<noteq> enc_int 5" using sample_keys(4) by simp
  have m: "fold op_map ?ops Map.empty = [enc_int 7 \<mapsto> mk_rid 1 3]"
    using n by (auto simp: map_remove_def fun_eq_iff)
  have "ops_ok (klen sample_nd_hdr) ?ops Map.empty"
    using n sample_keys(1-3) m by (simp add: map_remove_def fun_eq_iff)
  then show ?thesis using index_run_refines [OF sample_index_holds, of ?ops 3] m sample_keys(5) by auto
qed

text \<open>
  An index created on \<^verbatim>\<open>INT\<close> and \<^verbatim>\<open>CHAR\<close> columns and opened by the same process holds the empty
  map, with page 3 as its next page.
\<close>
theorem index_created_holds:
  assumes "dm_inv d" and "ix_cols_ok cols" and "cols_exact (map cm_type cols) (map cm_len cols)"
    and "names (os d) (get_index_name_cols fn cols) = None" and "path2fd d (get_index_name_cols fn cols) = None"
    and "3 * PAGE_SIZE \<le> max_bytes (os d)"
  shows "\<exists>d1 fd h d2. ix_create_index d fn cols = (Inr (), d1) \<and> ix_open_index_cols d1 fn cols = (Inr (fd, h), d2) \<and>
    ix_holds h (opened_index d2 fd h) 0 Map.empty \<and> ih_next (opened_index d2 fd h) = 3 \<and> klen h = nat (sum_list (map cm_len cols))"
proof (rule new_index_holds [OF assms])
  fix d1 fd h d2
  assume "ix_create_index d fn cols = (Inr (), d1)" "ix_open_index_cols d1 fn cols = (Inr (fd, h), d2)"
    "ix_holds h (opened_index d2 fd h) 0 Map.empty" "ih_next (opened_index d2 fd h) = 3" "klen h = nat (sum_list (map cm_len cols))"
  then show ?thesis by blast
qed

theorem index_created_holds_witness:
  "\<exists>d1 fd h d2. ix_create_index (sample_disk 1) ''u'' [demo_col ''a'' 0] = (Inr (), d1) \<and>
     ix_open_index_cols d1 ''u'' [demo_col ''a'' 0] = (Inr (fd, h), d2) \<and> ix_holds h (opened_index d2 fd h) 0 Map.empty"
proof -
  have n: "get_index_name_cols ''u'' [demo_col ''a'' 0] = ''u_a.idx''" by (simp add: get_index_name_cols_def demo_col_def)
  have "names (os (sample_disk 1)) ''u_a.idx'' = None" "path2fd (sample_disk 1) ''u_a.idx'' = None" "3 * PAGE_SIZE \<le> max_bytes (os (sample_disk 1))"
    "ix_cols_ok [demo_col ''a'' 0]" "cols_exact (map cm_type [demo_col ''a'' 0]) (map cm_len [demo_col ''a'' 0])"
    by (simp_all add: sample_disk_def PAGE_SIZE_def ix_cols_ok_def demo_col_def IX_MAX_COL_LEN_def)
  then show ?thesis using index_created_holds [of "sample_disk 1" "[demo_col ''a'' 0]" "''u''"] n by fastforce
qed

text \<open>
  C35. The search from the root ends: there are a leaf and a state that every number of rounds above
  the height of the tree leads to.
\<close>
theorem index_search_terminates:
  assumes "ix_holds h s n m" and "length key = klen h"
  shows "\<exists>p s'. \<forall>k>n. find_leaf_page k key s = Some (Inr p, s')"
proof -
  obtain t where t: "ix_inv h n t s" using assms(1) by (auto simp: ix_holds_def)
  obtain p s' where f: "find_leaf_page (Suc n) key s = Some (Inr p, s')"
    by (rule find_leaf_page_rep [OF t assms(2) lessI]) blast
  have "find_leaf_page k key s = Some (Inr p, s')" if "n < k" for k
  proof -
    have "Suc n \<le> k" using that by simp
    then show ?thesis using f descend_mono [of "Suc n" key "ix_root (ih_hdr s)"]
      by (auto simp: find_leaf_page_def ix_bind_def ix_hdr_def split: option.splits sum.splits)
  qed
  then show ?thesis by blast
qed

theorem index_search_terminates_witness: "\<exists>p s'. find_leaf_page 1 (enc_int 5) sample_index = Some (Inr p, s')"
  using index_search_terminates [OF sample_index_holds sample_keys(1) [of 5]] by auto

text \<open>
  C36. Deleting the last pair leaves the index without a root: the deletion returns true, and the next
  operation, be it an insertion or a lookup, fails with an internal error, since it reads page -1. The
  failing operation leaves a page of zeros in the pool under that number.
\<close>
theorem index_delete_last_breaks:
  assumes "ix_holds h s n m" and "length key = klen h" and "n < k" and "map_remove key rid m = Map.empty" and "ih_pages s (- 1) = None"
  shows "\<exists>s' s''. delete_entry k key rid s = Some (Inr True, s') \<and>
    insert_entry k' key' r' s' = Some (Inl (InternalError ''Failed to seek to page location''), s'') \<and>
    get_value k' key' s' = Some (Inl (InternalError ''Failed to seek to page location''), s'') \<and>
    s'' = s'\<lparr>ih_pages := (ih_pages s')(- 1 \<mapsto> replicate PAGE_SIZE 0)\<rparr>"
proof -
  obtain t where t: "ix_inv h n t s" "bt_map t = m" using assms(1) by (auto simp: ix_holds_def)
  obtain s' where s': "delete_entry k key rid s = Some (Inr True, s')" "ix_root (ih_hdr s') = INVALID_PAGE_ID" "dom (ih_pages s') = dom (ih_pages s)"
    using delete_entry_last_rep [OF t(1) assms(2,3), of rid] assms(4) t(2) by blast
  have "ih_pages s' INVALID_PAGE_ID = None" using s'(3) assms(5) by (auto simp: INVALID_PAGE_ID_def)
  then show ?thesis using s'(1) rootless_fails [OF s'(2)] by blast
qed

theorem index_delete_last_breaks_witness:
  "\<exists>s' s''. delete_entry 1 (enc_int 5) None sample_index = Some (Inr True, s') \<and>
     insert_entry 1 (enc_int 7) (mk_rid 1 2) s' = Some (Inl (InternalError ''Failed to seek to page location''), s'')"
proof -
  have "map_remove (enc_int 5) None Map.empty = Map.empty" "ih_pages sample_index (- 1) = None" by (auto simp: map_remove_def sample_index_def)
  then show ?thesis
    using index_delete_last_breaks [OF sample_index_holds sample_keys(1) [of 5], of 1 None 1 "enc_int 7" "mk_rid 1 2"] by auto
qed

end
