(* ===== verification/Ix_Range.thy ===== *)
theory Ix_Range
  imports Ix_Index
begin

text \<open>
  Range scans over an index (\<^verbatim>\<open>lower_bound\<close>, \<^verbatim>\<open>upper_bound\<close>, \<^verbatim>\<open>IxScan\<close>): a position (\<^verbatim>\<open>Iid\<close>) stands for
  the number of pairs before it, and a scan between two positions yields the pairs between them in
  key order.
\<close>

section \<open>The leaves of a tree\<close>

fun leaves :: "bt \<Rightarrow> (int \<times> (bytes \<times> rid) list) list" where
  "leaves (Lf p kvs) = [(p, kvs)]"
| "leaves (Nd p cs) = concat (map (\<lambda>kt. leaves (snd kt)) cs)"

lemma leaves_entries: "concat (map snd (leaves t)) = entries t"
proof (induction t rule: leaves.induct)
  case (2 p cs)
  then show ?case by (induction cs) auto
qed simp

lemma leaves_pages: "map fst (leaves t) = leaf_pages t"
proof (induction t rule: leaves.induct)
  case (2 p cs)
  then show ?case by (induction cs) auto
qed simp

lemma leaves_plug: "leaves (plug t c) = left_of leaves c @ leaves t @ right_of leaves c"
proof (induction t c rule: plug.induct)
  case (2 t p l k r c)
  then show ?case by simp
qed simp

lemma left_of_entries: "concat (map snd (left_of leaves c)) = left_of entries c"
proof (induction c rule: ctx_pages.induct)
  case (2 p l k r c)
  have "concat (map snd (concat (map (\<lambda>kt. leaves (snd kt)) l))) = concat (map (\<lambda>kt. entries (snd kt)) l)"
    by (induction l) (simp_all add: leaves_entries)
  then show ?case using 2 by simp
qed simp

lemma right_of_entries: "concat (map snd (right_of leaves c)) = right_of entries c"
proof (induction c rule: ctx_pages.induct)
  case (2 p l k r c)
  have "concat (map snd (concat (map (\<lambda>kt. leaves (snd kt)) r))) = concat (map (\<lambda>kt. entries (snd kt)) r)"
    by (induction r) (simp_all add: leaves_entries)
  then show ?case using 2 by simp
qed simp

lemma rep_leaf:
  "rep h P par t \<Longrightarrow> (p, kvs) \<in> set (leaves t) \<Longrightarrow> \<exists>d. P p = Some d \<and> nd_ok h d \<and> nd_is_leaf d \<and> nd_keys h d = map fst kvs \<and> nd_rids h d = map snd kvs"
  by (induction t arbitrary: par rule: leaves.induct) (auto simp: nodep_def)

lemma leaves_filled: "bt_ok h n mn lo hi t \<Longrightarrow> 0 < mn \<Longrightarrow> 0 < minsz h \<Longrightarrow> (p, kvs) \<in> set (leaves t) \<Longrightarrow> kvs \<noteq> []"
proof (induction h n mn lo hi t rule: bt_ok.induct)
  case (1 h mn lo hi q xs)
  then show ?case by (auto simp: fits_def)
next
  case (2 h n mn lo hi q cs)
  then obtain kt where kt: "kt \<in> set cs" "(p, kvs) \<in> set (leaves (snd kt))" by auto
  obtain i where i: "i < length cs" "cs ! i = kt" using kt(1) by (auto simp: in_set_conv_nth)
  obtain lo' hi' where ok: "bt_ok h n (minsz h) lo' hi' (snd kt)" using kids_ok_nth [of h "bt_ok h n (minsz h)" hi cs i] 2(2) i by auto
  show ?case by (rule 2(1) [OF ok 2(4) 2(4) kt(2)])
qed simp_all

section \<open>Positions\<close>

definition iid_at :: "(int \<times> (bytes \<times> rid) list) list \<Rightarrow> iid \<Rightarrow> nat \<Rightarrow> bool" where
  "iid_at ls i n \<longleftrightarrow> (\<exists>A p kvs B j. ls = A @ (p, kvs) # B \<and> i = \<lparr>iid_page = p, iid_slot = int j\<rparr> \<and> n = length (concat (map snd A)) + j \<and>
     (j < length kvs \<or> j = length kvs \<and> B = []))"

lemma iid_atI:
  "ls = A @ (p, kvs) # B \<Longrightarrow> n = length (concat (map snd A)) + j \<Longrightarrow> j < length kvs \<or> j = length kvs \<and> B = [] \<Longrightarrow>
   iid_at ls \<lparr>iid_page = p, iid_slot = int j\<rparr> n"
  unfolding iid_at_def by blast

lemma iid_at_le: "iid_at ls i n \<Longrightarrow> n \<le> length (concat (map snd ls))"
  unfolding iid_at_def by auto

lemma append_Cons_cases:
  assumes "A @ x # B = A' @ y # B'"
  obtains "A = A'" "x = y" "B = B'" | C where "A' = A @ x # C" "B = C @ y # B'" | C where "A = A' @ y # C" "B' = C @ x # B"
  using assms by (auto simp: append_eq_append_conv2 Cons_eq_append_conv append_eq_Cons_conv)

lemma iid_at_eq:
  assumes "iid_at ls i n" "iid_at ls i' n'" "distinct (map fst ls)"
  shows "i = i' \<longleftrightarrow> n = n'"
proof -
  obtain A p kvs B j where a: "ls = A @ (p, kvs) # B" "i = \<lparr>iid_page = p, iid_slot = int j\<rparr>" "n = length (concat (map snd A)) + j"
    "j < length kvs \<or> j = length kvs \<and> B = []" using assms(1) unfolding iid_at_def by blast
  obtain A' p' kvs' B' j' where b: "ls = A' @ (p', kvs') # B'" "i' = \<lparr>iid_page = p', iid_slot = int j'\<rparr>" "n' = length (concat (map snd A')) + j'"
    "j' < length kvs' \<or> j' = length kvs' \<and> B' = []" using assms(2) unfolding iid_at_def by blast
  have "A @ (p, kvs) # B = A' @ (p', kvs') # B'" using a(1) b(1) by simp
  then show ?thesis
  proof (cases rule: append_Cons_cases)
    case 1
    then show ?thesis using a b by auto
  next
    case (2 C)
    then have "p \<noteq> p'" using assms(3) a(1) by auto
    moreover have "n < n'" using 2 a(3,4) b(3) by auto
    ultimately show ?thesis using a(2) b(2) by auto
  next
    case (3 C)
    then have "p \<noteq> p'" using assms(3) b(1) by auto
    moreover have "n' < n" using 3 b(3,4) a(3) by auto
    ultimately show ?thesis using a(2) b(2) by auto
  qed
qed

section \<open>Steps of a scan\<close>

lemma inv_leaves:
  assumes inv: "ix_inv h n t s" and ls: "leaves t = A @ (p, kvs) # B"
  obtains d where "ih_pages s p = Some d" "nd_ok h d" "nd_is_leaf d" "nd_keys h d = map fst kvs" "nd_rids h d = map snd kvs"
    "nd_get_size d = int (length kvs)" "p = ix_last_leaf (ih_hdr s) \<longleftrightarrow> B = []"
    "\<And>q kvs' C. B = (q, kvs') # C \<Longrightarrow> nd_next_leaf d = q \<and> kvs' \<noteq> []"
proof -
  note i = ix_invD [OF inv]
  have "(p, kvs) \<in> set (leaves t)" using ls by simp
  from rep_leaf [OF i(4) this] obtain d where d: "ih_pages s p = Some d" "nd_ok h d" "nd_is_leaf d" "nd_keys h d = map fst kvs" "nd_rids h d = map snd kvs"
    by blast
  have lp: "leaf_pages t = map fst A @ p # map fst B" using leaves_pages [of t] ls by simp
  have dl: "distinct (leaf_pages t)" by (rule distinct_leaf_pages [OF i(6)])
  have last: "p = ix_last_leaf (ih_hdr s) \<longleftrightarrow> B = []"
  proof (cases "B = []")
    case False
    then have "last (map fst B) \<in> set (map fst B)" by (intro last_in_set) simp
    moreover have "ix_last_leaf (ih_hdr s) = last (map fst B)" using i(11) lp False by simp
    ultimately show ?thesis using False dl lp by auto
  qed (use i(11) lp in simp)
  have nxt: "nd_next_leaf d = q \<and> kvs' \<noteq> []" if B: "B = (q, kvs') # C" for q kvs' C
  proof
    have "leaf_pages t = map fst A @ p # q # map fst C" using lp B by simp
    then have "linked (ih_pages s) ((IX_LEAF_HEADER_PAGE # map fst A) @ p # q # map fst C @ [IX_LEAF_HEADER_PAGE])" using i(9) by (simp del: linked.simps)
    then have "linked (ih_pages s) (p # q # map fst C @ [IX_LEAF_HEADER_PAGE])"
      using linked_append [of "ih_pages s" "IX_LEAF_HEADER_PAGE # map fst A" p "q # map fst C @ [IX_LEAF_HEADER_PAGE]"] by blast
    then have "next_of (ih_pages s) p = Some q" unfolding linked_Cons2 by blast
    then show "nd_next_leaf d = q" using d(1) by (simp add: next_of_def)
    have n0: "n \<noteq> 0"
    proof
      assume "n = 0"
      then have "\<exists>p xs. t = Lf p xs" using i(5) by (cases t) auto
      then show False using ls B by (auto simp: Cons_eq_append_conv append_eq_Cons_conv)
    qed
    have "0 < minsz h" using minsz_pos [OF i(1)] by simp
    then show "kvs' \<noteq> []" using leaves_filled [OF i(5), of q kvs'] n0 ls B by (simp add: root_min_def)
  qed
  have "nd_get_size d = int (length kvs)" using nd_size_length [OF d(2)] d(4) by simp
  then show ?thesis using that d last nxt by blast
qed

lemma get_rid_at:
  assumes inv: "ix_inv h n t s" and pos: "iid_at (leaves t) i k"
  shows "k < length (entries t) \<Longrightarrow> \<exists>s'. get_rid i s = Some (Inr (snd (entries t ! k)), s') \<and> same_store s s'"
    "k = length (entries t) \<Longrightarrow> \<exists>s'. get_rid i s = Some (Inl IndexEntryNotFoundError, s')"
proof -
  note iv = ix_invD [OF inv]
  have dm: "ix_dims h" using iv(1) by (simp add: hdr_ok_def)
  obtain A p kvs B j where a: "leaves t = A @ (p, kvs) # B" "i = \<lparr>iid_page = p, iid_slot = int j\<rparr>" "k = length (concat (map snd A)) + j"
    "j < length kvs \<or> j = length kvs \<and> B = []" using pos unfolding iid_at_def by blast
  obtain d where d: "ih_pages s p = Some d" "nd_ok h d" "nd_keys h d = map fst kvs" "nd_rids h d = map snd kvs" "nd_get_size d = int (length kvs)"
    by (rule inv_leaves [OF inv a(1)]) blast
  have e: "entries t = concat (map snd A) @ kvs @ concat (map snd B)" using leaves_entries [of t] a(1) by simp
  note g = geo_simps(5) [OF iv(2)]
  show "\<exists>s'. get_rid i s = Some (Inr (snd (entries t ! k)), s') \<and> same_store s s'" if "k < length (entries t)"
  proof -
    have j: "j < length kvs" using that a(3,4) e by auto
    have "nd_get_rid h d (int j) = snd (kvs ! j)" using nd_get_rid_nth [OF dm, of j d] d(4) j by simp
    moreover have "entries t ! k = kvs ! j" using e a(3) j by (simp add: nth_append)
    ultimately show ?thesis using d(1,5) j a(2) g by (simp add: get_rid_def ix_prims same_storeI)
  qed
  show "\<exists>s'. get_rid i s = Some (Inl IndexEntryNotFoundError, s')" if "k = length (entries t)"
  proof -
    have "j = length kvs" using that a(3,4) e by auto
    then show ?thesis using d(1,5) a(2) by (simp add: get_rid_def ix_prims)
  qed
qed

lemma scan_next_at:
  assumes inv: "ix_inv h n t s" and pos: "iid_at (leaves t) (sc_iid c) k" "k < length (entries t)" and ne: "\<not> ix_scan_is_end c"
  shows "\<exists>i' s'. ix_scan_next c s = Some (Inr (c\<lparr>sc_iid := i'\<rparr>), s') \<and> same_store s s' \<and> iid_at (leaves t) i' (Suc k)"
proof -
  obtain A p kvs B j where a: "leaves t = A @ (p, kvs) # B" "sc_iid c = \<lparr>iid_page = p, iid_slot = int j\<rparr>" "k = length (concat (map snd A)) + j"
    "j < length kvs \<or> j = length kvs \<and> B = []" using pos(1) unfolding iid_at_def by blast
  obtain d where d: "ih_pages s p = Some d" "nd_is_leaf d" "nd_get_size d = int (length kvs)" "p = ix_last_leaf (ih_hdr s) \<longleftrightarrow> B = []"
    "\<And>q kvs' C. B = (q, kvs') # C \<Longrightarrow> nd_next_leaf d = q \<and> kvs' \<noteq> []" by (rule inv_leaves [OF inv a(1)]) blast
  have e: "entries t = concat (map snd A) @ kvs @ concat (map snd B)" using leaves_entries [of t] a(1) by simp
  have j: "j < length kvs" using pos(2) a(3,4) e by auto
  define i' where "i' = (if p \<noteq> ix_last_leaf (ih_hdr s) \<and> int j + 1 = nd_get_size d then \<lparr>iid_page = nd_next_leaf d, iid_slot = 0\<rparr>
    else \<lparr>iid_page = p, iid_slot = int j + 1\<rparr>)"
  have "\<exists>s'. ix_scan_next c s = Some (Inr (c\<lparr>sc_iid := i'\<rparr>), s') \<and> same_store s s'"
    using ne a(2) d(1-3) j by (simp add: ix_scan_next_def ix_prims Let_def i'_def same_storeI)
  moreover have "iid_at (leaves t) i' (Suc k)"
  proof (cases "B = [] \<or> Suc j < length kvs")
    case True
    then have "i' = \<lparr>iid_page = p, iid_slot = int (Suc j)\<rparr>" using d(3,4) by (auto simp: i'_def)
    moreover have "Suc j < length kvs \<or> Suc j = length kvs \<and> B = []" using True j by auto
    ultimately show ?thesis using iid_atI [OF a(1), of "Suc k" "Suc j"] a(3) by simp
  next
    case False
    then obtain q kvs' C where B: "B = (q, kvs') # C" by (cases B) auto
    have i': "i' = \<lparr>iid_page = q, iid_slot = int 0\<rparr>" using d(3,4) d(5) [OF B] j False by (auto simp: i'_def)
    show ?thesis unfolding i'
      by (rule iid_atI [of _ "A @ [(p, kvs)]" q kvs' C]) (use a(1,3) B d(5) [OF B] j False in auto)
  qed
  ultimately show ?thesis by blast
qed

section \<open>Whole scans\<close>

text \<open>The loop of a client: \<^verbatim>\<open>for (; !scan.is_end(); scan.next()) ... scan.rid()\<close>.\<close>

fun scan_rids :: "nat \<Rightarrow> ix_scan \<Rightarrow> rid list ixm" where
  "scan_rids 0 c = (\<lambda>s. None)"
| "scan_rids (Suc k) c =
    (if ix_scan_is_end c then ix_ret []
     else ix_bind (ix_scan_rid c) (\<lambda>r. ix_bind (ix_scan_next c) (\<lambda>c'. ix_bind (scan_rids k c') (\<lambda>rs. ix_ret (r # rs)))))"

lemma scan_forward:
  assumes "ix_inv h n t s" "iid_at (leaves t) (sc_iid c) a" "iid_at (leaves t) (sc_end c) b" "a \<le> b" "b - a < k"
  shows "\<exists>s'. scan_rids k c s = Some (Inr (map snd (take (b - a) (drop a (entries t)))), s') \<and> same_store s s'"
  using assms
proof (induction k arbitrary: a c s)
  case (Suc k)
  note iv = ix_invD [OF Suc.prems(1)]
  have "distinct (map fst (leaves t))" using distinct_leaf_pages [OF iv(6)] by (simp add: leaves_pages)
  then have eq: "sc_iid c = sc_end c \<longleftrightarrow> a = b" using iid_at_eq [OF Suc.prems(2,3)] by simp
  show ?case
  proof (cases "a = b")
    case True
    then show ?thesis using eq by (simp add: ix_scan_is_end_def ix_ret_def)
  next
    case False
    then have ab: "a < b" "b \<le> length (entries t)" using Suc.prems(4) iid_at_le [OF Suc.prems(3)] by (simp_all add: leaves_entries)
    have ne: "\<not> ix_scan_is_end c" using False eq by (simp add: ix_scan_is_end_def)
    obtain s1 where s1: "get_rid (sc_iid c) s = Some (Inr (snd (entries t ! a)), s1)" "same_store s s1"
      using get_rid_at(1) [OF Suc.prems(1,2)] ab by auto
    have inv1: "ix_inv h n t s1" by (rule ix_inv_same_store [OF Suc.prems(1) s1(2)])
    obtain i' s2 where s2: "ix_scan_next c s1 = Some (Inr (c\<lparr>sc_iid := i'\<rparr>), s2)" "same_store s1 s2" "iid_at (leaves t) i' (Suc a)"
      using scan_next_at [OF inv1 Suc.prems(2) _ ne] ab by auto
    have inv2: "ix_inv h n t s2" by (rule ix_inv_same_store [OF inv1 s2(2)])
    have less: "b - Suc a < k" using Suc.prems(5) ab(1) by linarith
    obtain s3 where s3: "scan_rids k (c\<lparr>sc_iid := i'\<rparr>) s2 = Some (Inr (map snd (take (b - Suc a) (drop (Suc a) (entries t)))), s3)" "same_store s2 s3"
      using Suc.IH [OF inv2, of "c\<lparr>sc_iid := i'\<rparr>" "Suc a"] s2(3) Suc.prems(3) ab less by auto
    have "take (b - a) (drop a (entries t)) = entries t ! a # take (b - Suc a) (drop (Suc a) (entries t))"
    proof -
      have e: "b - a = Suc (b - Suc a)" and d: "entries t ! a # drop (Suc a) (entries t) = drop a (entries t)"
        using ab Cons_nth_drop_Suc [of a "entries t"] by simp_all
      show ?thesis using d by (simp only: e) (simp only: d [symmetric] take_Suc_Cons)
    qed
    moreover have "same_store s s3" by (rule same_store_trans [OF same_store_trans [OF s1(2) s2(2)] s3(2)])
    ultimately show ?thesis using s1(1) s2(1) s3(1) ne by (simp add: ix_bind_def ix_ret_def ix_scan_rid_def)
  qed
qed simp

text \<open>A scan whose end lies before its start runs to the last pair and fails.\<close>

lemma scan_backward:
  assumes "ix_inv h n t s" "iid_at (leaves t) (sc_iid c) a" "iid_at (leaves t) (sc_end c) b" "b < a" "length (entries t) - a < k"
  shows "\<exists>s'. scan_rids k c s = Some (Inl IndexEntryNotFoundError, s')"
  using assms
proof (induction k arbitrary: a c s)
  case (Suc k)
  note iv = ix_invD [OF Suc.prems(1)]
  have "distinct (map fst (leaves t))" using distinct_leaf_pages [OF iv(6)] by (simp add: leaves_pages)
  then have "sc_iid c \<noteq> sc_end c" using iid_at_eq [OF Suc.prems(2,3)] Suc.prems(4) by simp
  then have ne: "\<not> ix_scan_is_end c" by (simp add: ix_scan_is_end_def)
  have le: "a \<le> length (entries t)" using iid_at_le [OF Suc.prems(2)] by (simp add: leaves_entries)
  show ?case
  proof (cases "a = length (entries t)")
    case True
    then show ?thesis using get_rid_at(2) [OF Suc.prems(1,2)] ne by (auto simp: ix_bind_def ix_scan_rid_def)
  next
    case False
    then have lt: "a < length (entries t)" using le by simp
    obtain s1 where s1: "get_rid (sc_iid c) s = Some (Inr (snd (entries t ! a)), s1)" "same_store s s1"
      using get_rid_at(1) [OF Suc.prems(1,2) lt] by auto
    have inv1: "ix_inv h n t s1" by (rule ix_inv_same_store [OF Suc.prems(1) s1(2)])
    obtain i' s2 where s2: "ix_scan_next c s1 = Some (Inr (c\<lparr>sc_iid := i'\<rparr>), s2)" "same_store s1 s2" "iid_at (leaves t) i' (Suc a)"
      using scan_next_at [OF inv1 Suc.prems(2) lt ne] by auto
    have inv2: "ix_inv h n t s2" by (rule ix_inv_same_store [OF inv1 s2(2)])
    have less: "length (entries t) - Suc a < k" using Suc.prems(5) lt by linarith
    obtain s3 where "scan_rids k (c\<lparr>sc_iid := i'\<rparr>) s2 = Some (Inl IndexEntryNotFoundError, s3)"
      using Suc.IH [OF inv2, of "c\<lparr>sc_iid := i'\<rparr>" "Suc a"] s2(3) Suc.prems(3,4) less by auto
    then show ?thesis using s1(1) s2(1) ne by (simp add: ix_bind_def ix_scan_rid_def)
  qed
qed simp

section \<open>Bounds\<close>

lemma nd_upper_bound_len:
  assumes h: "hdr_ok h" and d: "nd_ok h d" "nd_sorted h d" and len: "length key = klen h"
  shows "nd_upper_bound h d key = Inr (int (length (filter (\<lambda>k. krank h k \<le> krank h key) (nd_keys h d))))"
proof (cases "nd_get_size d = 0")
  case True
  have dm: "ix_dims h" and ex: "ix_exact h" using h by (simp_all add: hdr_ok_def)
  have l: "length (nd_get_key h d 0) = klen h"
  proof -
    have "1 * klen h \<le> nslots h * klen h" using ix_dims_nat(4) [OF dm] by (intro mult_le_mono1) simp
    then have "24 + klen h \<le> length d" using nd_ok_length [OF d(1)] ix_dims_nat(5) [OF dm] by linarith
    then show ?thesis using nd_get_key_slot [of h d 0] length_slot [of 24 0 "klen h" d] by simp
  qed
  have kk: "kok h (nd_get_key h d 0)" "kok h key" using ix_exactD(1) [OF ex] l len by simp_all
  have "ub_loop h d key 0 (- 1) = Inr 0" by (simp add: ub_loop.simps)
  moreover have "nd_keys h d = []" using True by (simp add: nd_keys_def)
  ultimately show ?thesis using True ix_compare_rank [OF kk] by (simp add: nd_upper_bound_def)
next
  case False
  then have "0 < nd_get_size d" using d(1) by (simp add: nd_ok_def)
  moreover have "kok h key" using ix_exactD(1) h len by (simp add: hdr_ok_def)
  ultimately show ?thesis using nd_bounds_correct_upper [OF d(2)] by simp
qed

lemma ix_bound_at:
  assumes inv: "ix_inv h n t s" and len: "length key = klen h" and k: "n < k"
    and bnd: "\<And>d. nd_ok h d \<Longrightarrow> nd_sorted h d \<Longrightarrow> bound (ih_hdr s) d key = Inr (int (length (filter (\<lambda>x. R (krank h x)) (nd_keys h d))))"
    and R: "\<And>x. x < krank h key \<Longrightarrow> R x" "\<And>x. krank h key < x \<Longrightarrow> \<not> R x"
  shows "\<exists>i s'. ix_bound bound k key s = Some (Inr i, s') \<and> same_store s s' \<and> iid_at (leaves t) i (length (filter (\<lambda>kv. R (krank h (fst kv))) (entries t)))"
proof -
  obtain p kvs c s1 d where f: "find_leaf_page k key s = Some (Inr p, s1)" "same_store s s1" "t = plug (Lf p kvs) c" "routes h key c"
    "ctx_ok h 0 c" "ih_pages s p = Some d" "nd_ok h d" "nd_keys h d = map fst kvs" "nd_sorted h d"
    by (rule find_leaf_page_rep [OF inv len k])
  note s1 = same_storeD [OF f(2)]
  let ?A = "left_of leaves c" and ?B = "right_of leaves c" and ?P = "\<lambda>kv. R (krank h (fst kv))"
  define j where "j = length (filter ?P kvs)"
  have jl: "j \<le> length kvs" by (simp add: j_def)
  have ls: "leaves t = ?A @ (p, kvs) # ?B" by (simp add: f(3) leaves_plug)
  have "\<forall>kv\<in>set (left_of entries c). ?P kv" "\<forall>kv\<in>set (right_of entries c). \<not> ?P kv" using routes_sides [OF f(5,4)] R by blast+
  then have "filter ?P (left_of entries c) = left_of entries c" "filter ?P (right_of entries c) = []" by (simp_all add: filter_id_conv filter_empty_conv)
  then have cnt: "length (filter ?P (entries t)) = length (concat (map snd ?A)) + j"
    by (simp add: f(3) entries_plug left_of_entries j_def)
  have pos: "bound (ih_hdr s) d key = Inr (int j)" using bnd [OF f(7,9)] f(8) by (simp add: j_def filter_map comp_def)
  obtain d' where d': "ih_pages s p = Some d'" "nd_get_size d' = int (length kvs)" "p = ix_last_leaf (ih_hdr s) \<longleftrightarrow> ?B = []"
    "\<And>q kvs' C. ?B = (q, kvs') # C \<Longrightarrow> nd_next_leaf d' = q \<and> kvs' \<noteq> []" by (rule inv_leaves [OF inv ls]) blast
  have dd: "d' = d" using d'(1) f(6) by simp
  have base: "ix_bound bound k key s =
      (if int j = int (length kvs) \<and> ?B \<noteq> []
       then ix_bind (fetch_node (nd_next_leaf d)) (\<lambda>_. ix_bind (unpin_node p) (\<lambda>_. ix_bind (unpin_node (nd_next_leaf d)) (\<lambda>_. ix_ret \<lparr>iid_page = nd_next_leaf d, iid_slot = 0\<rparr>)))
       else ix_bind (unpin_node p) (\<lambda>_. ix_ret \<lparr>iid_page = p, iid_slot = int j\<rparr>)) s1"
    using f(1,6) s1 pos d'(2,3) unfolding dd ix_bound_def ix_bind_def [of "find_leaf_page k key"]
    by (simp add: ix_steps Let_def)
  show ?thesis
  proof (cases "j = length kvs \<and> ?B \<noteq> []")
    case True
    then obtain q kvs' C where B: "?B = (q, kvs') # C" by (cases ?B) auto
    note nq = d'(4) [OF B, unfolded dd]
    have lsq: "leaves t = (?A @ [(p, kvs)]) @ (q, kvs') # C" using ls B by simp
    obtain dq where dq: "ih_pages s q = Some dq" by (rule inv_leaves [OF inv lsq]) blast
    have "\<exists>s'. ix_bound bound k key s = Some (Inr \<lparr>iid_page = q, iid_slot = int 0\<rparr>, s') \<and> same_store s s'"
      using base True nq dq s1 by (auto simp: ix_prims intro!: same_storeI)
    moreover have "iid_at (leaves t) \<lparr>iid_page = q, iid_slot = int 0\<rparr> (length (filter ?P (entries t)))"
      by (rule iid_atI [OF lsq]) (use cnt True nq in auto)
    ultimately show ?thesis by blast
  next
    case False
    have "\<exists>s'. ix_bound bound k key s = Some (Inr \<lparr>iid_page = p, iid_slot = int j\<rparr>, s') \<and> same_store s s'"
      using base False s1 by (auto simp: ix_prims intro!: same_storeI)
    moreover have "iid_at (leaves t) \<lparr>iid_page = p, iid_slot = int j\<rparr> (length (filter ?P (entries t)))"
      by (rule iid_atI [OF ls]) (use cnt False jl in auto)
    ultimately show ?thesis by blast
  qed
qed

lemma ix_bounds_at:
  assumes inv: "ix_inv h n t s" and len: "length key = klen h" and k: "n < k"
  shows "\<exists>i s'. ix_lower_bound k key s = Some (Inr i, s') \<and> same_store s s' \<and> iid_at (leaves t) i (length (filter (\<lambda>kv. krank h (fst kv) < krank h key) (entries t)))"
    "\<exists>i s'. ix_upper_bound k key s = Some (Inr i, s') \<and> same_store s s' \<and> iid_at (leaves t) i (length (filter (\<lambda>kv. krank h (fst kv) \<le> krank h key) (entries t)))"
proof -
  note i = ix_invD [OF inv]
  have kk: "kok h key" using ix_exactD(1) i(1) len by (simp add: hdr_ok_def)
  show "\<exists>i s'. ix_lower_bound k key s = Some (Inr i, s') \<and> same_store s s' \<and> iid_at (leaves t) i (length (filter (\<lambda>kv. krank h (fst kv) < krank h key) (entries t)))"
    unfolding ix_lower_bound_def
    by (rule ix_bound_at [OF inv len k, where R = "\<lambda>x. x < krank h key"])
      (use nd_bounds_correct_lower [OF _ _ kk] geo_simps(9) [OF i(2)] in \<open>auto simp: nd_ok_def\<close>)
  show "\<exists>i s'. ix_upper_bound k key s = Some (Inr i, s') \<and> same_store s s' \<and> iid_at (leaves t) i (length (filter (\<lambda>kv. krank h (fst kv) \<le> krank h key) (entries t)))"
    unfolding ix_upper_bound_def
    by (rule ix_bound_at [OF inv len k, where R = "\<lambda>x. x \<le> krank h key"])
      (use nd_upper_bound_len [OF i(1) _ _ len] geo_simps(10) [OF i(2)] in auto)
qed

lemma sorted_filter_take:
  assumes "sorted_wrt (\<lambda>x y. f x < (f y :: 'a::linorder)) xs" "\<And>x y. R y \<Longrightarrow> x < y \<Longrightarrow> R x"
  shows "filter (\<lambda>x. R (f x)) xs = take (length (filter (\<lambda>x. R (f x)) xs)) xs" "filter (\<lambda>x. \<not> R (f x)) xs = drop (length (filter (\<lambda>x. R (f x)) xs)) xs"
proof -
  have "filter (\<lambda>x. R (f x)) xs = take (length (filter (\<lambda>x. R (f x)) xs)) xs \<and> filter (\<lambda>x. \<not> R (f x)) xs = drop (length (filter (\<lambda>x. R (f x)) xs)) xs"
    using assms(1)
  proof (induction xs)
    case (Cons x xs)
    show ?case
    proof (cases "R (f x)")
      case True
      then show ?thesis using Cons by simp
    next
      case False
      then have "\<forall>y\<in>set xs. \<not> R (f y)" using Cons.prems assms(2) by auto
      then have "filter (\<lambda>x. R (f x)) xs = []" "filter (\<lambda>x. \<not> R (f x)) xs = xs" by (simp_all add: filter_empty_conv filter_id_conv)
      then show ?thesis using False by simp
    qed
  qed simp
  then show "filter (\<lambda>x. R (f x)) xs = take (length (filter (\<lambda>x. R (f x)) xs)) xs" "filter (\<lambda>x. \<not> R (f x)) xs = drop (length (filter (\<lambda>x. R (f x)) xs)) xs" by blast+
qed

lemma sorted_range:
  assumes "sorted_wrt (\<lambda>x y. f x < (f y :: 'a::linorder)) xs" "lo \<le> hi"
  defines "a \<equiv> length (filter (\<lambda>x. f x < lo) xs)" and "b \<equiv> length (filter (\<lambda>x. f x \<le> hi) xs)"
  shows "a \<le> b" "take (b - a) (drop a xs) = filter (\<lambda>x. lo \<le> f x \<and> f x \<le> hi) xs"
proof -
  have le: "filter (\<lambda>x. f x \<le> hi) xs = take b xs" unfolding b_def by (rule sorted_filter_take(1) [OF assms(1)]) simp
  have lt: "filter (\<lambda>x. f x < lo) (filter (\<lambda>x. f x \<le> hi) xs) = filter (\<lambda>x. f x < lo) xs" using assms(2) by (auto intro: filter_cong)
  have "length (filter (\<lambda>x. f x < lo) (filter (\<lambda>x. f x \<le> hi) xs)) \<le> length (filter (\<lambda>x. f x \<le> hi) xs)" by (rule length_filter_le)
  then show "a \<le> b" unfolding lt by (simp add: a_def b_def)
  have s: "sorted_wrt (\<lambda>x y. f x < f y) (filter (\<lambda>x. f x \<le> hi) xs)" using assms(1) by (rule sorted_wrt_filter)
  have "filter (\<lambda>x. \<not> f x < lo) (filter (\<lambda>x. f x \<le> hi) xs) = drop (length (filter (\<lambda>x. f x < lo) (filter (\<lambda>x. f x \<le> hi) xs))) (filter (\<lambda>x. f x \<le> hi) xs)"
    by (rule sorted_filter_take(2) [OF s]) simp
  also have "\<dots> = drop a (filter (\<lambda>x. f x \<le> hi) xs)" unfolding lt a_def ..
  also have "\<dots> = drop a (take b xs)" unfolding le ..
  finally show "take (b - a) (drop a xs) = filter (\<lambda>x. lo \<le> f x \<and> f x \<le> hi) xs"
    by (simp add: not_less drop_take conj_commute)
qed

section \<open>Ranges of keys\<close>

text \<open>The scan of an index between two keys, as its clients set it up.\<close>

definition ix_range :: "nat \<Rightarrow> nat \<Rightarrow> bytes \<Rightarrow> bytes \<Rightarrow> rid list ixm" where
  "ix_range k f lo hi =
    ix_bind (ix_lower_bound k lo) (\<lambda>lower.
    ix_bind (ix_upper_bound k hi) (\<lambda>upper. scan_rids f \<lparr>sc_iid = lower, sc_end = upper\<rparr>))"

abbreviation key_sorted :: "ix_file_hdr \<Rightarrow> (bytes \<times> rid) list \<Rightarrow> bool" where
  "key_sorted h \<equiv> sorted_wrt (\<lambda>x y. krank h (fst x) < krank h (fst y))"

lemma inv_entries:
  assumes "ix_inv h n t s"
  shows "key_sorted h (entries t)" "length (entries t) = card (dom (bt_map t))"
proof -
  have lf: "leaf_ok h None None (entries t)" by (rule bt_ok_entries [OF ix_invD(5) [OF assms]])
  then show "key_sorted h (entries t)" by (simp add: leaf_ok_def sorted_wrt_map)
  have "dom (bt_map t) = set (map fst (entries t))" by (simp add: bt_map_def dom_map_of_conv_image_fst)
  then show "length (entries t) = card (dom (bt_map t))" using distinct_card [OF leaf_ok_keys [OF lf]] by simp
qed

lemma range_positions:
  assumes "ix_inv h n t s" "length lo = klen h" "length hi = klen h" "n < k"
  obtains i j s' where "ix_range k f lo hi s = scan_rids f \<lparr>sc_iid = i, sc_end = j\<rparr> s'" "same_store s s'" "ix_inv h n t s'"
    "iid_at (leaves t) i (length (filter (\<lambda>kv. krank h (fst kv) < krank h lo) (entries t)))"
    "iid_at (leaves t) j (length (filter (\<lambda>kv. krank h (fst kv) \<le> krank h hi) (entries t)))"
proof -
  obtain i s1 where i: "ix_lower_bound k lo s = Some (Inr i, s1)" "same_store s s1"
    "iid_at (leaves t) i (length (filter (\<lambda>kv. krank h (fst kv) < krank h lo) (entries t)))" using ix_bounds_at(1) [OF assms(1,2,4)] by blast
  have inv1: "ix_inv h n t s1" by (rule ix_inv_same_store [OF assms(1) i(2)])
  obtain j s2 where j: "ix_upper_bound k hi s1 = Some (Inr j, s2)" "same_store s1 s2"
    "iid_at (leaves t) j (length (filter (\<lambda>kv. krank h (fst kv) \<le> krank h hi) (entries t)))" using ix_bounds_at(2) [OF inv1 assms(3,4)] by blast
  show ?thesis
    by (rule that [OF _ same_store_trans [OF i(2) j(2)] ix_inv_same_store [OF inv1 j(2)] i(3) j(3)]) (use i(1) j(1) in \<open>simp add: ix_range_def ix_bind_def\<close>)
qed

text \<open>
  C13. A scan of an index from \<^verbatim>\<open>lower_bound(lo)\<close> to \<^verbatim>\<open>upper_bound(hi)\<close>, with \<open>lo\<close> not above \<open>hi\<close>, ends and
  yields the record identifiers of exactly the keys from \<open>lo\<close> to \<open>hi\<close>, in key order, across leaves;
  the index still holds the same map.
\<close>
theorem index_range_scan:
  assumes "ix_holds h s n m" and "length lo = klen h" and "length hi = klen h" and "n < k" and "krank h lo \<le> krank h hi" and "card (dom m) < f"
  shows "\<exists>es s'. map_of es = m \<and> key_sorted h es \<and> ix_holds h s' n m \<and>
    ix_range k f lo hi s = Some (Inr (map snd (filter (\<lambda>kv. krank h lo \<le> krank h (fst kv) \<and> krank h (fst kv) \<le> krank h hi) es)), s')"
proof -
  obtain t where t: "ix_inv h n t s" "bt_map t = m" using assms(1) by (auto simp: ix_holds_def)
  note e = inv_entries [OF t(1)]
  obtain i j s1 where r: "ix_range k f lo hi s = scan_rids f \<lparr>sc_iid = i, sc_end = j\<rparr> s1" "same_store s s1" "ix_inv h n t s1"
    "iid_at (leaves t) i (length (filter (\<lambda>kv. krank h (fst kv) < krank h lo) (entries t)))"
    "iid_at (leaves t) j (length (filter (\<lambda>kv. krank h (fst kv) \<le> krank h hi) (entries t)))" by (rule range_positions [OF t(1) assms(2-4)])
  note sr = sorted_range [OF e(1) assms(5)]
  let ?a = "length (filter (\<lambda>kv. krank h (fst kv) < krank h lo) (entries t))" and ?b = "length (filter (\<lambda>kv. krank h (fst kv) \<le> krank h hi) (entries t))"
  have "?b \<le> length (entries t)" by (rule length_filter_le)
  then have fuel: "?b - ?a < f" using e(2) assms(6) t(2) by simp
  obtain s2 where s2: "scan_rids f \<lparr>sc_iid = i, sc_end = j\<rparr> s1 = Some (Inr (map snd (take (?b - ?a) (drop ?a (entries t)))), s2)" "same_store s1 s2"
    using scan_forward [OF r(3) _ _ sr(1) fuel, of "\<lparr>sc_iid = i, sc_end = j\<rparr>"] r(4,5) by auto
  have "ix_holds h s2 n m" using ix_inv_same_store [OF r(3) s2(2)] t(2) by (auto simp: ix_holds_def)
  moreover have "ix_range k f lo hi s = Some (Inr (map snd (filter (\<lambda>kv. krank h lo \<le> krank h (fst kv) \<and> krank h (fst kv) \<le> krank h hi) (entries t))), s2)"
    using r(1) s2(1) unfolding sr(2) by (rule trans)
  ultimately show ?thesis using e(1) t(2) unfolding bt_map_def by (intro exI [of _ "entries t"] exI [of _ s2] conjI)
qed

theorem index_range_scan_witness:
  "\<exists>s n s'. ix_holds sample_nd_hdr s n [enc_int 5 \<mapsto> mk_rid 1 2, enc_int 7 \<mapsto> mk_rid 1 3] \<and>
     (\<exists>rs. ix_range (Suc n) 3 (enc_int 5) (enc_int 6) s = Some (Inr rs, s'))"
proof -
  obtain s n where s: "ix_holds sample_nd_hdr s n [enc_int 5 \<mapsto> mk_rid 1 2, enc_int 7 \<mapsto> mk_rid 1 3]" by (rule sample_pair)
  have "krank sample_nd_hdr (enc_int 5) \<le> krank sample_nd_hdr (enc_int 6)" by code_simp
  moreover have "card (dom [enc_int 5 \<mapsto> mk_rid 1 2, enc_int 7 \<mapsto> mk_rid 1 3]) < 3" by (simp add: card_insert_if)
  ultimately show ?thesis using index_range_scan [OF s sample_keys(1) [of 5] sample_keys(1) [of 6] lessI] s by blast
qed

text \<open>
  A scan whose lower key is above its upper key, with a key of the index between the two, does not
  come out empty: it runs to the last leaf and fails with \<^verbatim>\<open>IndexEntryNotFoundError\<close>.
\<close>
theorem index_empty_range_fails:
  assumes "ix_holds h s n m" and "length lo = klen h" and "length hi = klen h" and "n < k" and "card (dom m) < f"
    and "key \<in> dom m" and "krank h hi < krank h key" and "krank h key < krank h lo"
  shows "\<exists>s'. ix_range k f lo hi s = Some (Inl IndexEntryNotFoundError, s')"
proof -
  obtain t where t: "ix_inv h n t s" "bt_map t = m" using assms(1) by (auto simp: ix_holds_def)
  note e = inv_entries [OF t(1)]
  obtain i j s1 where r: "ix_range k f lo hi s = scan_rids f \<lparr>sc_iid = i, sc_end = j\<rparr> s1" "same_store s s1" "ix_inv h n t s1"
    "iid_at (leaves t) i (length (filter (\<lambda>kv. krank h (fst kv) < krank h lo) (entries t)))"
    "iid_at (leaves t) j (length (filter (\<lambda>kv. krank h (fst kv) \<le> krank h hi) (entries t)))" by (rule range_positions [OF t(1) assms(2-4)])
  obtain v where kv: "(key, v) \<in> set (entries t)" using assms(6) t(2) map_of_SomeD by (fastforce simp: bt_map_def)
  have "filter (\<lambda>kv. krank h (fst kv) \<le> krank h hi) (entries t) = filter (\<lambda>kv. krank h (fst kv) \<le> krank h hi) (filter (\<lambda>kv. krank h (fst kv) < krank h lo) (entries t))"
    using assms(7,8) by (auto intro!: filter_cong)
  moreover have "length (filter (\<lambda>kv. krank h (fst kv) \<le> krank h hi) (filter (\<lambda>kv. krank h (fst kv) < krank h lo) (entries t))) <
      length (filter (\<lambda>kv. krank h (fst kv) < krank h lo) (entries t))"
    by (rule length_filter_less [of "(key, v)"]) (use kv assms(7,8) in auto)
  ultimately have "length (filter (\<lambda>kv. krank h (fst kv) \<le> krank h hi) (entries t)) < length (filter (\<lambda>kv. krank h (fst kv) < krank h lo) (entries t))" by simp
  then show ?thesis using scan_backward [OF r(3), of "\<lparr>sc_iid = i, sc_end = j\<rparr>"] r(1,4,5) e(2) assms(5) t(2) by auto
qed

theorem index_empty_range_fails_witness:
  "\<exists>s n s'. ix_holds sample_nd_hdr s n [enc_int 5 \<mapsto> mk_rid 1 2, enc_int 7 \<mapsto> mk_rid 1 3] \<and>
     ix_range (Suc n) 3 (enc_int 6) (enc_int 4) s = Some (Inl IndexEntryNotFoundError, s')"
proof -
  obtain s n where s: "ix_holds sample_nd_hdr s n [enc_int 5 \<mapsto> mk_rid 1 2, enc_int 7 \<mapsto> mk_rid 1 3]" by (rule sample_pair)
  have r: "krank sample_nd_hdr (enc_int 4) < krank sample_nd_hdr (enc_int 5)" "krank sample_nd_hdr (enc_int 5) < krank sample_nd_hdr (enc_int 6)" by code_simp+
  have c: "card (dom [enc_int 5 \<mapsto> mk_rid 1 2, enc_int 7 \<mapsto> mk_rid 1 3]) < 3" "enc_int 5 \<in> dom [enc_int 5 \<mapsto> mk_rid 1 2, enc_int 7 \<mapsto> mk_rid 1 3]"
    by (simp_all add: card_insert_if)
  show ?thesis using index_empty_range_fails [OF s sample_keys(1) [of 6] sample_keys(1) [of 4] lessI c r] s by blast
qed

end
