(* ===== verification/Tab_Reads.thy ===== *)
theory Tab_Reads
  imports Txn_Manager Ix_Range
begin

text \<open>
  Reading tables under the locks of a transaction: scans and \<^verbatim>\<open>get_record\<close> with a context, on the system
  state. \<open>sys_reads t s s'\<close> says that between the two states only reading has happened: all tables and
  the order of their records are as before, and what the transaction may read it may still read.
\<close>

section \<open>Operations\<close>

definition on_scan :: "string \<Rightarrow> (rm_file \<Rightarrow> bpm \<Rightarrow> ('a, bpm) outcome) \<Rightarrow> 'a tmm" where
  "on_scan n op = on_db (\<lambda>db. on_table db n (\<lambda>(h, p). case op h p of (r, p') \<Rightarrow> (r, (h, p'))))"

definition scan_new :: "string \<Rightarrow> rid tmm" where "scan_new n = on_scan n rm_scan_new"
definition scan_next :: "string \<Rightarrow> rid \<Rightarrow> rid tmm" where "scan_next n r = on_scan n (\<lambda>h p. rm_scan_next h p r)"

text \<open>The table lock the functions of \<^verbatim>\<open>RmFileHandle\<close> take when they are given a context.\<close>

definition with_lock :: "(lock_manager \<Rightarrow> txn_id \<Rightarrow> int \<Rightarrow> lock_outcome \<times> lock_manager) \<Rightarrow> txn_id \<Rightarrow> string \<Rightarrow> 'a tmm \<Rightarrow> 'a tmm" where
  "with_lock lk t n op s =
     (case fhs (sys_db s) n of
        None \<Rightarrow> Some (Inl TmOutOfRange, s)
      | Some h \<Rightarrow>
          (case lk (sys_locks s) t (rm_fd h) of
             (LockTrue, lm) \<Rightarrow> op (s\<lparr>sys_locks := lm\<rparr>)
           | (LockWait w, lm) \<Rightarrow> Some (Inl TmBlocked, s\<lparr>sys_locks := lm\<rparr>)
           | (LockAbort t' why, lm) \<Rightarrow> Some (Inl (TmAbort t' why), s\<lparr>sys_locks := lm\<rparr>)
           | (LockCrash, lm) \<Rightarrow> Some (Inl TmCrash, s\<lparr>sys_locks := lm\<rparr>)))"

definition get_record_count_locked :: "txn_id \<Rightarrow> string \<Rightarrow> int tmm" where
  "get_record_count_locked t n = with_lock lock_shared_on_table t n (on_scan n rm_get_record_count)"

section \<open>Permission to read\<close>

text \<open>
  The transaction holds a lock on the table that covers shared access, or nobody of its requests is
  in the queue and the group mode admits a shared lock.
\<close>

definition holds_read :: "lock_manager \<Rightarrow> txn_id \<Rightarrow> int \<Rightarrow> bool" where
  "holds_read lm t fd \<longleftrightarrow> table_lock_id fd \<in> lock_set lm t \<and>
     (\<exists>q r. lock_table lm (table_lock_id fd) = Some q \<and> first_request t (request_queue q) = Some r \<and>
        S_mode \<le> get_group_lock_mode (lr_lock_mode r))"

definition may_read :: "lock_manager \<Rightarrow> txn_id \<Rightarrow> int \<Rightarrow> bool" where
  "may_read lm t fd \<longleftrightarrow> holds_read lm t fd \<or>
     (table_lock_id fd \<notin> lock_set lm t \<and> first_request t (request_queue (get_lock_request_queue lm (table_lock_id fd))) = None \<and>
      lock_compatible (group_mode (get_lock_request_queue lm (table_lock_id fd))) S_mode)"

lemma table_lock_id_inject [simp]: "table_lock_id a = table_lock_id b \<longleftrightarrow> a = b"
  by (simp add: table_lock_id_def)

lemma first_request_append: "first_request t xs = None \<Longrightarrow> first_request t (xs @ ys) = first_request t ys"
  by (induction xs) (auto split: if_splits)

lemma holds_read_lock: "holds_read lm t fd \<Longrightarrow> lock_shared_on_table lm t fd = (LockTrue, lm)"
  by (auto simp: holds_read_def lock_shared_on_table_def upgrade_lock_on_table_def Let_def)

lemma may_read_lock:
  assumes "may_read lm t fd"
  obtains lm' where "lock_shared_on_table lm t fd = (LockTrue, lm')" "\<And>fd'. may_read lm t fd' \<Longrightarrow> may_read lm' t fd'"
proof (cases "holds_read lm t fd")
  case True
  then show ?thesis using that holds_read_lock by blast
next
  case False
  let ?i = "table_lock_id fd"
  let ?q = "get_lock_request_queue lm ?i"
  have n: "?i \<notin> lock_set lm t" "first_request t (request_queue ?q) = None" "lock_compatible (group_mode ?q) S_mode"
    using assms False by (simp_all add: may_read_def)
  let ?q' = "?q\<lparr>request_queue := request_queue ?q @ [(new_lock_request t SHARED)\<lparr>lr_granted := True\<rparr>], group_mode := S_mode\<rparr>"
  let ?lm = "add_lock_set t ?i (put_queue ?i ?q' lm)"
  have l: "lock_shared_on_table lm t fd = (LockTrue, ?lm)"
    using n by (simp add: lock_shared_on_table_def request_lock_def check_and_execute_lock_def)
  have "holds_read ?lm t fd"
    using n(2) by (simp add: holds_read_def add_lock_set_def put_queue_def first_request_append new_lock_request_def)
  moreover have "may_read ?lm t fd'" if "may_read lm t fd'" "fd' \<noteq> fd" for fd'
    using that by (auto simp: may_read_def holds_read_def add_lock_set_def put_queue_def get_lock_request_queue_def)
  ultimately have "may_read ?lm t fd'" if "may_read lm t fd'" for fd' using that by (cases "fd' = fd") (auto simp: may_read_def)
  with l show ?thesis by (rule that)
qed

section \<open>Tables that are only read\<close>

definition db_inv :: "rm_db \<Rightarrow> bool" where
  "db_inv db \<longleftrightarrow> (\<forall>n h. fhs db n = Some h \<longrightarrow> rm_inv h (pool db)) \<and>
     (\<forall>n m g h. fhs db n = Some g \<and> fhs db m = Some h \<and> n \<noteq> m \<longrightarrow> rm_fd g \<noteq> rm_fd h) \<and> rm_room (pool db)"

definition db_rids :: "rm_db \<Rightarrow> string \<Rightarrow> rid list" where
  "db_rids db n = (case fhs db n of None \<Rightarrow> [] | Some h \<Rightarrow> rm_rids h (pool db))"

text \<open>The records of a table in the order of their positions.\<close>

definition db_rows :: "rm_db \<Rightarrow> string \<Rightarrow> bytes list" where
  "db_rows db n = map (\<lambda>r. the (db_tab db n r)) (db_rids db n)"

definition db_after :: "rm_db \<Rightarrow> string \<Rightarrow> rid \<Rightarrow> rid list" where
  "db_after db n r = (case fhs db n of None \<Rightarrow> [] | Some h \<Rightarrow> rids_after h (pool db) r)"

definition db_reads :: "rm_db \<Rightarrow> rm_db \<Rightarrow> bool" where
  "db_reads db db' \<longleftrightarrow> db_inv db' \<and> fhs db' = fhs db \<and> db_tab db' = db_tab db \<and> db_rids db' = db_rids db \<and>
     (\<forall>n r. db_tab db n r \<noteq> None \<longrightarrow> db_after db' n r = db_after db n r)"

lemma db_reads_refl: "db_inv db \<Longrightarrow> db_reads db db"
  by (simp add: db_reads_def)

lemma db_reads_trans: "db_reads a b \<Longrightarrow> db_reads b c \<Longrightarrow> db_reads a c"
  by (simp add: db_reads_def)

lemma same_file_other:
  assumes "same_file h s s'" "rm_inv g s"
  shows "rm_inv g s'" "rm_contents g s' = rm_contents g s" "page_range g p \<Longrightarrow> rm_view g s' p = rm_view g s p"
proof -
  have u: "bpm_ok s'" "bpm_avail s' = bpm_avail s" "bpm_view s \<subseteq>\<^sub>m bpm_view s'" "fd2pageno (disk s') (rm_fd g) = fd2pageno (disk s) (rm_fd g)"
    using assms(1) by (simp_all add: same_file_def bp.same_use_def)
  have "page_table s (rm_pid g RM_FILE_HDR_PAGE) = None" by (rule rm_invD(5) [OF assms(2)])
  moreover have "\<not> (\<exists>p. page_range h p \<and> rm_pid g RM_FILE_HDR_PAGE = rm_pid h p)"
    by (auto simp: rm_pid_def page_range_def RM_FILE_HDR_PAGE_def)
  ultimately have home: "page_table s' (rm_pid g RM_FILE_HDR_PAGE) = None"
    using assms(1) unfolding same_file_def by blast
  show "rm_inv g s'" "rm_contents g s' = rm_contents g s" by (rule rm_inv_same_view [OF assms(2) u home])+
  show "rm_view g s' p = rm_view g s p" if "page_range g p"
    using rm_invD(7) [OF assms(2) that] map_leD [OF u(3)] by (auto simp: rm_view_def)
qed

lemma db_reads_table:
  assumes inv: "db_inv db" and h: "fhs db n = Some h" and sf: "same_file h (pool db) p"
  shows "db_reads db (db\<lparr>fhs := (fhs db)(n \<mapsto> h), pool := p\<rparr>)"
proof -
  let ?db = "db\<lparr>fhs := (fhs db)(n \<mapsto> h), pool := p\<rparr>"
  have f: "fhs ?db = fhs db" using h by (auto simp: fun_upd_idem)
  have g: "rm_inv g (pool db)" if "fhs db m = Some g" for m g using inv that by (simp add: db_inv_def)
  note o = same_file_other [OF sf g]
  have "rm_room p" using inv sf by (auto simp: db_inv_def same_file_def intro: rm_room_same)
  then have "db_inv ?db" using inv o(1) f unfolding db_inv_def by simp
  moreover have "db_tab ?db = db_tab db"
    using o(2) f by (auto simp: db_tab_def fun_eq_iff split: option.splits)
  moreover have "db_rids ?db = db_rids db"
    using same_view_rids(2) [OF o(3)] f by (auto simp: db_rids_def fun_eq_iff split: option.splits)
  moreover have "db_after ?db m r = db_after db m r" if "db_tab db m r \<noteq> None" for m r
  proof (cases "fhs db m")
    case (Some g)
    then have "page_range g (page_no r)" using that by (auto simp: db_tab_def rm_contents_def split: if_splits)
    then show ?thesis using same_view_rids(3) [OF o(3) [OF Some]] Some f by (simp add: db_after_def)
  qed (use f in \<open>simp add: db_after_def\<close>)
  ultimately show ?thesis using f unfolding db_reads_def by blast
qed

section \<open>Reading in the system\<close>

definition can_read :: "tm_sys \<Rightarrow> txn_id \<Rightarrow> string \<Rightarrow> bool" where
  "can_read s t n \<longleftrightarrow> (\<exists>h. fhs (sys_db s) n = Some h \<and> may_read (sys_locks s) t (rm_fd h))"

definition same_ihs :: "(string \<rightharpoonup> ix_handle) \<Rightarrow> (string \<rightharpoonup> ix_handle) \<Rightarrow> bool" where
  "same_ihs m m' \<longleftrightarrow> dom m' = dom m \<and> (\<forall>n i i'. m n = Some i \<and> m' n = Some i' \<longrightarrow> same_store i i')"

definition sys_reads :: "txn_id \<Rightarrow> tm_sys \<Rightarrow> tm_sys \<Rightarrow> bool" where
  "sys_reads t s s' \<longleftrightarrow> db_reads (sys_db s) (sys_db s') \<and> (\<forall>n. can_read s t n \<longrightarrow> can_read s' t n) \<and> same_ihs (sys_ihs s) (sys_ihs s') \<and>
     sys_meta s' = sys_meta s \<and> sys_log s' = sys_log s \<and> txn_map s' = txn_map s"

lemma same_ihs_refl [simp]: "same_ihs m m"
  by (auto simp: same_ihs_def)

lemma same_ihs_trans:
  assumes "same_ihs a b" "same_ihs b c"
  shows "same_ihs a c"
  unfolding same_ihs_def
proof (intro conjI allI impI)
  show "dom c = dom a" using assms by (simp add: same_ihs_def)
  fix n i k
  assume ik: "a n = Some i \<and> c n = Some k"
  then have "n \<in> dom b" using assms by (auto simp: same_ihs_def)
  then obtain j where "b n = Some j" by auto
  with ik assms have "same_store i j" "same_store j k" by (auto simp: same_ihs_def)
  then show "same_store i k" by (rule same_store_trans)
qed

lemma sys_reads_refl: "db_inv (sys_db s) \<Longrightarrow> sys_reads t s s"
  by (simp add: sys_reads_def db_reads_refl)

lemma sys_reads_trans: "sys_reads t a b \<Longrightarrow> sys_reads t b c \<Longrightarrow> sys_reads t a c"
  unfolding sys_reads_def using db_reads_trans same_ihs_trans by (metis (no_types, lifting))

lemma sys_readsD:
  assumes "sys_reads t s s'"
  shows "db_inv (sys_db s')" "fhs (sys_db s') = fhs (sys_db s)" "db_tab (sys_db s') = db_tab (sys_db s)"
    "db_rids (sys_db s') = db_rids (sys_db s)" "db_rows (sys_db s') = db_rows (sys_db s)" "can_read s t n \<Longrightarrow> can_read s' t n" "sys_meta s' = sys_meta s"
    "db_tab (sys_db s) n r \<noteq> None \<Longrightarrow> db_after (sys_db s') n r = db_after (sys_db s) n r"
  using assms by (auto simp: sys_reads_def db_reads_def db_rows_def fun_eq_iff)

lemma sys_reads_db:
  assumes "db_reads (sys_db s) db" "\<And>fd. may_read (sys_locks s) t fd \<Longrightarrow> may_read lm t fd"
  shows "sys_reads t s (s\<lparr>sys_db := db, sys_locks := lm\<rparr>)"
  using assms by (auto simp: sys_reads_def can_read_def db_reads_def)

text \<open>A position of a scan: the records from it on.\<close>

definition scan_pos :: "tm_sys \<Rightarrow> string \<Rightarrow> rid \<Rightarrow> rid list \<Rightarrow> bool" where
  "scan_pos s n r rs =
     (case rs of
        [] \<Rightarrow> rm_scan_is_end r
      | x # xs \<Rightarrow> r = x \<and> \<not> rm_scan_is_end r \<and> db_tab (sys_db s) n x \<noteq> None \<and> db_after (sys_db s) n x = xs)"

lemma scan_pos_reads: "scan_pos s n r rs \<Longrightarrow> sys_reads t s s' \<Longrightarrow> scan_pos s' n r rs"
  using sys_readsD(3) [of t s s'] sys_readsD(8) [of t s s' n r] by (auto simp: scan_pos_def split: list.splits)

lemma on_scan_ok:
  assumes inv: "db_inv (sys_db s)" and h: "fhs (sys_db s) n = Some h" and op: "op h (pool (sys_db s)) = (Inr r, p)" "same_file h (pool (sys_db s)) p"
  obtains s' where "on_scan n op s = Some (Inr r, s')" "sys_reads t s s'" "pool (sys_db s') = p"
proof -
  let ?db = "(sys_db s)\<lparr>fhs := (fhs (sys_db s))(n \<mapsto> h), pool := p\<rparr>"
  have "on_scan n op s = Some (Inr r, s\<lparr>sys_db := ?db\<rparr>)"
    using h op(1) by (simp add: on_scan_def on_db_def on_table_def tm_lift_def)
  moreover have "sys_reads t s (s\<lparr>sys_db := ?db, sys_locks := sys_locks s\<rparr>)"
    by (rule sys_reads_db [OF db_reads_table [OF inv h op(2)]])
  moreover have "s\<lparr>sys_db := ?db, sys_locks := sys_locks s\<rparr> = s\<lparr>sys_db := ?db\<rparr>" by simp
  ultimately show ?thesis by (intro that [of "s\<lparr>sys_db := ?db\<rparr>"]) simp_all
qed

lemma scan_pos_table:
  assumes "sys_reads t s s'" "fhs (sys_db s) n = Some h" "rm_inv h (pool (sys_db s))"
    and "case rs of [] \<Rightarrow> rm_scan_is_end r
          | x # xs \<Rightarrow> r = x \<and> rids_after h (pool (sys_db s)) x = xs \<and> page_range h (page_no x) \<and> slot_ok (rm_hdr h) (slot_no x)"
    and "\<forall>x\<in>set rs. db_tab (sys_db s) n x \<noteq> None"
  shows "scan_pos s' n r rs"
proof (cases rs)
  case (Cons x xs)
  have "scan_pos s n r rs" using assms(2,4,5) Cons by (auto simp: scan_pos_def db_after_def rm_scan_is_end_def slot_ok_def)
  then show ?thesis by (rule scan_pos_reads [OF _ assms(1)])
qed (use assms(4) in \<open>simp add: scan_pos_def\<close>)

lemma db_rids_tab: "db_inv db \<Longrightarrow> set (db_rids db n) = dom (db_tab db n)"
  using set_rm_rids by (cases "fhs db n") (auto simp: db_rids_def db_tab_def db_inv_def)

lemma set_db_after:
  assumes "db_inv db" "db_tab db n r \<noteq> None" "x \<in> set (db_after db n r)"
  shows "db_tab db n x \<noteq> None"
proof -
  obtain h where h: "fhs db n = Some h" "rm_inv h (pool db)" "page_range h (page_no r)"
    using assms(1,2) by (auto simp: db_tab_def db_inv_def rm_contents_def split: option.splits if_splits)
  have "x \<in> set (rm_rids h (pool db))"
    using assms(3) h(1,3) by (auto simp: db_after_def rids_after_def rm_rids_def page_range_def)
  then show ?thesis using set_rm_rids [OF h(2)] h(1) by (auto simp: db_tab_def)
qed

lemma scan_new_reads:
  assumes inv: "db_inv (sys_db s)" and h: "fhs (sys_db s) n = Some h"
  obtains r s' where "scan_new n s = Some (Inr r, s')" "sys_reads t s s'" "scan_pos s' n r (db_rids (sys_db s) n)"
proof -
  have i: "rm_inv h (pool (sys_db s))" "rm_room (pool (sys_db s))" using inv h by (auto simp: db_inv_def)
  obtain r p where r: "rm_scan_new h (pool (sys_db s)) = (Inr r, p)" "same_file h (pool (sys_db s)) p"
    "case rm_rids h (pool (sys_db s)) of [] \<Rightarrow> rm_scan_is_end r
     | x # xs \<Rightarrow> r = x \<and> rids_after h (pool (sys_db s)) x = xs \<and> page_range h (page_no x) \<and> slot_ok (rm_hdr h) (slot_no x)"
    using scan_new_ok [OF i] by blast
  obtain s' where s': "on_scan n rm_scan_new s = Some (Inr r, s')" "sys_reads t s s'"
    by (rule on_scan_ok [where op = rm_scan_new, OF inv h r(1,2)])
  have "scan_pos s' n r (db_rids (sys_db s) n)"
    by (rule scan_pos_table [OF s'(2) h i(1)]) (use r(3) h db_rids_tab [OF inv, of n] in \<open>auto simp: db_rids_def\<close>)
  with s' show ?thesis by (intro that) (simp_all add: scan_new_def)
qed

lemma scan_next_reads:
  assumes inv: "db_inv (sys_db s)" and pos: "scan_pos s n r (x # xs)"
  obtains r' s' where "scan_next n r s = Some (Inr r', s')" "sys_reads t s s'" "scan_pos s' n r' xs"
proof -
  have x: "r = x" "db_tab (sys_db s) n x \<noteq> None" "db_after (sys_db s) n x = xs" using pos by (simp_all add: scan_pos_def)
  obtain h where h: "fhs (sys_db s) n = Some h" "page_range h (page_no x)" "slot_ok (rm_hdr h) (slot_no x)"
    using x(2) by (auto simp: db_tab_def rm_contents_def split: option.splits if_splits)
  have i: "rm_inv h (pool (sys_db s))" "rm_room (pool (sys_db s))" using inv h by (auto simp: db_inv_def)
  obtain r' p where r': "rm_scan_next h (pool (sys_db s)) x = (Inr r', p)" "same_file h (pool (sys_db s)) p"
    "case rids_after h (pool (sys_db s)) x of [] \<Rightarrow> rm_scan_is_end r'
     | y # ys \<Rightarrow> r' = y \<and> rids_after h (pool (sys_db s)) y = ys \<and> page_range h (page_no y) \<and> slot_ok (rm_hdr h) (slot_no y)"
    using scan_next_ok [OF i h(2,3)] by blast
  obtain s' where s': "on_scan n (\<lambda>h p. rm_scan_next h p r) s = Some (Inr r', s')" "sys_reads t s s'"
    by (rule on_scan_ok [where op = "\<lambda>h p. rm_scan_next h p r", OF inv h(1)]) (use r' x(1) in auto)
  have "scan_pos s' n r' xs"
    by (rule scan_pos_table [OF s'(2) h(1) i(1)]) (use r'(3) h(1) x set_db_after [OF inv x(2)] in \<open>auto simp: db_after_def\<close>)
  with s' show ?thesis by (intro that) (simp_all add: scan_next_def)
qed

lemma get_record_reads:
  assumes inv: "db_inv (sys_db s)" and rd: "can_read s t n" and b: "db_tab (sys_db s) n r = Some b"
  obtains s' where "get_record_locked t n r s = Some (Inr b, s')" "sys_reads t s s'"
proof -
  obtain h where h: "fhs (sys_db s) n = Some h" "may_read (sys_locks s) t (rm_fd h)" using rd by (auto simp: can_read_def)
  obtain lm where lm: "lock_shared_on_table (sys_locks s) t (rm_fd h) = (LockTrue, lm)"
    "\<And>fd. may_read (sys_locks s) t fd \<Longrightarrow> may_read lm t fd" by (rule may_read_lock [OF h(2)]) blast
  have i: "rm_inv h (pool (sys_db s))" "rm_room (pool (sys_db s))" using inv h by (auto simp: db_inv_def)
  have c: "rm_contents h (pool (sys_db s)) r = Some b" using b h(1) by (simp add: db_tab_def)
  obtain p where p: "rm_get_record h (pool (sys_db s)) r = (Inr b, p)" "same_file h (pool (sys_db s)) p"
    by (rule get_record_same_file [OF i c])
  let ?db = "(sys_db s)\<lparr>fhs := (fhs (sys_db s))(n \<mapsto> h), pool := p\<rparr>"
  have "get_record_locked t n r s = Some (Inr b, s\<lparr>sys_locks := lm, sys_db := ?db\<rparr>)"
    using h(1) lm(1) p(1) by (simp add: get_record_locked_def on_db_def on_table_def tm_lift_def)
  moreover have "sys_reads t s (s\<lparr>sys_db := ?db, sys_locks := lm\<rparr>)"
    by (rule sys_reads_db [OF db_reads_table [OF inv h(1) p(2)] lm(2)])
  moreover have "s\<lparr>sys_db := ?db, sys_locks := lm\<rparr> = s\<lparr>sys_locks := lm, sys_db := ?db\<rparr>" by (cases s) simp
  ultimately show ?thesis by (intro that [of "s\<lparr>sys_locks := lm, sys_db := ?db\<rparr>"]) simp_all
qed

end
