(* ===== verification/Float32.thy ===== *)
theory Float32
  imports Ix_Defs
begin

text \<open>
  The C++ type \<^verbatim>\<open>float\<close> as the code uses it: conversion from and to \<^verbatim>\<open>int\<close>, from decimal and
  hexadecimal text, comparison and addition. A value is its 32 bits, as in \<open>Ix_Defs\<close>. Every finite
  value is an integer multiple of \<open>2 ^ - 149\<close>, so \<open>f32_val\<close> is that integer, and rounding takes a
  ratio of natural numbers in this unit to the nearest value, ties to the even one.
\<close>

section \<open>Values and rounding\<close>

definition f32_sign :: "int \<Rightarrow> bool" where "f32_sign w \<longleftrightarrow> w \<ge> 2 ^ 31"
definition f32_inf :: "int \<Rightarrow> bool" where "f32_inf w \<longleftrightarrow> w mod 2 ^ 31 = 2139095040"

definition f32_mag :: "int \<Rightarrow> int" where
  "f32_mag w = (let e = w mod 2 ^ 31 div 2 ^ 23; m = w mod 2 ^ 23 in if e = 0 then m else (2 ^ 23 + m) * 2 ^ nat (e - 1))"

definition f32_val :: "int \<Rightarrow> int" where
  "f32_val w = (if f32_sign w then - f32_mag w else f32_mag w)"

fun bit_len :: "nat \<Rightarrow> nat" where
  "bit_len n = (if n = 0 then 0 else Suc (bit_len (n div 2)))"

declare bit_len.simps [simp del]

definition round_even :: "nat \<Rightarrow> nat \<Rightarrow> nat" where
  "round_even p q = (let m = p div q; r = p mod q in if 2 * r < q \<or> 2 * r = q \<and> even m then m else m + 1)"

text \<open>
  The magnitude nearest to \<open>p / q\<close>: \<open>s\<close> is the number of binary places beyond the 24 of the
  significand. A significand rounded up to \<open>2 ^ 24\<close> carries into the exponent.
\<close>

definition f32_round :: "nat \<Rightarrow> nat \<Rightarrow> int" where
  "f32_round p q = (let s = bit_len (p div q) - 24 in min 2139095040 (int (s * 2 ^ 23 + round_even p (q * 2 ^ s))))"

definition f32_of_ratio :: "bool \<Rightarrow> nat \<Rightarrow> nat \<Rightarrow> int" where
  "f32_of_ratio neg p q = (if neg then 2 ^ 31 else 0) + f32_round p q"

definition f32_of_int :: "int \<Rightarrow> int" where
  "f32_of_int i = f32_of_ratio (i < 0) (nat \<bar>i\<bar> * 2 ^ 149) 1"

text \<open>
  Conversion to \<^verbatim>\<open>int\<close> truncates. Outside the range of \<^verbatim>\<open>int\<close> the language leaves it undefined;
  the instruction the compiler emits gives the smallest \<^verbatim>\<open>int\<close>.
\<close>

definition f32_to_int :: "int \<Rightarrow> int" where
  "f32_to_int w =
     (let q = f32_mag w div 2 ^ 149; v = (if f32_sign w then - q else q)
      in if f32_nan w \<or> f32_inf w \<or> \<not> int_range v then - (2 ^ 31) else v)"

definition f32_eq :: "int \<Rightarrow> int \<Rightarrow> bool" where
  "f32_eq x y \<longleftrightarrow> \<not> f32_nan x \<and> \<not> f32_nan y \<and> f32_ord x = f32_ord y"

text \<open>A NaN operand is returned with its quiet bit set, the first one first; opposite infinities give the default NaN.\<close>

definition f32_quiet :: "int \<Rightarrow> int" where
  "f32_quiet w = (if w mod 2 ^ 23 < 2 ^ 22 then w + 2 ^ 22 else w)"

definition f32_add :: "int \<Rightarrow> int \<Rightarrow> int" where
  "f32_add x y =
     (if f32_nan x then f32_quiet x
      else if f32_nan y then f32_quiet y
      else if f32_inf x \<and> f32_inf y \<and> f32_sign x \<noteq> f32_sign y then 4290772992
      else if f32_inf x then x
      else if f32_inf y then y
      else let v = f32_val x + f32_val y
           in if v = 0 then (if f32_sign x \<and> f32_sign y then 2 ^ 31 else 0)
              else f32_of_ratio (v < 0) (nat \<bar>v\<bar>) 1)"

section \<open>Order and exactness\<close>

lemma bit_len_le: "n < 2 ^ k \<Longrightarrow> bit_len n \<le> k"
proof (induction k arbitrary: n)
  case 0
  then show ?case by (simp add: bit_len.simps)
next
  case (Suc k)
  then have "bit_len (n div 2) \<le> k" by simp
  then show ?case by (subst bit_len.simps) simp
qed

lemma bit_len_bounds: "0 < n \<Longrightarrow> 2 ^ (bit_len n - 1) \<le> n \<and> n < 2 ^ bit_len n \<and> 0 < bit_len n"
proof (induction n rule: bit_len.induct)
  case (1 n)
  show ?case
  proof (cases "n = 1")
    case True
    then show ?thesis by (simp add: bit_len.simps)
  next
    case False
    then have d: "0 < n div 2" using 1(2) by (simp add: div_greater_zero_iff)
    then have ih: "2 ^ (bit_len (n div 2) - 1) \<le> n div 2" "n div 2 < 2 ^ bit_len (n div 2)" "0 < bit_len (n div 2)"
      using 1(1) 1(2) by simp_all
    have e: "bit_len n = Suc (bit_len (n div 2))" using 1(2) by (subst bit_len.simps) simp
    have "2 * 2 ^ (bit_len (n div 2) - 1) = (2::nat) ^ bit_len (n div 2)" using ih(3) by (metis Suc_diff_1 power_Suc)
    then show ?thesis using ih(1,2) unfolding e by simp linarith
  qed
qed

lemma f32_mag_bits:
  assumes "q < 2 ^ 24" "s = 0 \<or> 2 ^ 23 \<le> q" "s < 254"
  shows "f32_mag ((if neg then 2 ^ 31 else 0) + int (s * 2 ^ 23 + q)) = int (q * 2 ^ s)"
proof -
  let ?w = "(if neg then 2 ^ 31 else 0) + int (s * 2 ^ 23 + q)"
  have w: "?w mod 2 ^ 31 = int (s * 2 ^ 23 + q)"
    using assms(1,3) by (auto simp: mod_pos_pos_trivial)
  have "?w = int q + ((if neg then 256 else 0) + int s) * 2 ^ 23" by simp
  then have m: "?w mod 2 ^ 23 = int q mod 2 ^ 23" by (simp only: mod_mult_self1)
  show ?thesis
  proof (cases "q < 2 ^ 23")
    case True
    then have s: "s = 0" using assms(2) by auto
    have "?w mod 2 ^ 31 div 2 ^ 23 = 0" using True by (simp only: w) (simp add: s)
    moreover have "int q mod 2 ^ 23 = int q" using True by simp
    ultimately show ?thesis by (simp only: f32_mag_def Let_def m) (simp add: s)
  next
    case False
    have e: "?w mod 2 ^ 31 div 2 ^ 23 = int s + 1" using False assms(1) by (simp only: w) simp
    have "int q mod 2 ^ 23 = (int q - 2 ^ 23) mod 2 ^ 23" by (simp add: mod_simps)
    also have "\<dots> = int q - 2 ^ 23" by (rule mod_pos_pos_trivial) (use False assms(1) in simp_all)
    finally have "int q mod 2 ^ 23 = int q - 2 ^ 23" .
    then show ?thesis by (simp only: f32_mag_def Let_def m e) simp
  qed
qed

lemma bit_len_shift: "0 < m \<Longrightarrow> bit_len (m * 2 ^ k) = bit_len m + k"
proof (induction k)
  case (Suc k)
  then show ?case by (subst bit_len.simps) (simp add: mult.left_commute [of m 2])
qed simp

lemma f32_val_round_exact:
  assumes m: "m < 2 ^ 24" and k: "k < 254"
  shows "f32_val (f32_of_ratio neg (m * 2 ^ k) 1) = (if neg then - int (m * 2 ^ k) else int (m * 2 ^ k))"
proof (cases "m = 0")
  case True
  then show ?thesis by (simp add: f32_of_ratio_def f32_round_def round_even_def f32_val_def f32_sign_def f32_mag_def bit_len.simps)
next
  case False
  let ?n = "m * 2 ^ k"
  define s where "s = bit_len ?n - 24"
  have sk: "s \<le> k" using bit_len_shift [of m k] bit_len_le [OF m] False by (simp add: s_def)
  define q where "q = ?n div 2 ^ s"
  have n: "?n = q * 2 ^ s" using sk by (simp add: q_def le_imp_power_dvd)
  have b: "2 ^ (bit_len ?n - 1) \<le> ?n" "?n < 2 ^ bit_len ?n" using bit_len_bounds [of ?n] False by simp_all
  have q: "q < 2 ^ 24 \<and> (s = 0 \<or> 2 ^ 23 \<le> q)"
  proof (cases "s = 0")
    case True
    then have "bit_len ?n \<le> 24" by (simp add: s_def)
    then have "(2::nat) ^ bit_len ?n \<le> 2 ^ 24" by (rule power_increasing) simp
    then show ?thesis using True b(2) by (simp add: q_def)
  next
    case s: False
    then have e: "bit_len ?n = 24 + s" by (simp add: s_def)
    have "q * 2 ^ s < 2 ^ 24 * 2 ^ s" "2 ^ 23 * 2 ^ s \<le> q * 2 ^ s"
      using b s unfolding e n [symmetric] by (simp_all add: power_add)
    then show ?thesis by simp
  qed
  have r: "round_even ?n (2 ^ s) = q" by (simp add: round_even_def Let_def n)
  have lt: "int (s * 2 ^ 23 + q) < 2139095040" using q sk k by simp
  have "f32_of_ratio neg ?n 1 = (if neg then 2 ^ 31 else 0) + int (s * 2 ^ 23 + q)"
    using lt by (simp add: f32_of_ratio_def f32_round_def Let_def s_def [symmetric] r)
  moreover have "f32_sign ((if neg then 2 ^ 31 else 0) + int (s * 2 ^ 23 + q)) = neg"
    using lt by (auto simp: f32_sign_def)
  moreover have "f32_mag ((if neg then 2 ^ 31 else 0) + int (s * 2 ^ 23 + q)) = int (q * 2 ^ s)"
    by (rule f32_mag_bits) (use q sk k in simp_all)
  ultimately show ?thesis by (simp only: f32_val_def n)
qed

text \<open>The order of the bits is the order of the values.\<close>

lemma f32_mag_split: "f32_mag w = (let a = w mod 2 ^ 31 in if a div 2 ^ 23 = 0 then a mod 2 ^ 23 else (2 ^ 23 + a mod 2 ^ 23) * 2 ^ nat (a div 2 ^ 23 - 1))"
proof -
  have "(w mod 2 ^ 31) mod 2 ^ 23 = w mod 2 ^ 23" by (rule mod_mod_cancel) (simp add: le_imp_power_dvd)
  then show ?thesis by (simp add: f32_mag_def Let_def)
qed

lemma f32_mag_mono:
  assumes "v mod 2 ^ 31 < w mod 2 ^ 31"
  shows "f32_mag v < f32_mag w"
proof -
  define a b where "a = v mod 2 ^ 31" and "b = w mod 2 ^ 31"
  have ab: "a < b" "0 \<le> a" using assms by (simp_all add: a_def b_def)
  define e m f n where "e = a div 2 ^ 23" and "m = a mod 2 ^ 23" and "f = b div 2 ^ 23" and "n = b mod 2 ^ 23"
  have r: "0 \<le> m" "m < 2 ^ 23" "0 \<le> n" "n < 2 ^ 23" "0 \<le> e" using ab by (simp_all add: m_def n_def e_def pos_imp_zdiv_nonneg_iff)
  have ef: "e \<le> f" using ab by (simp add: e_def f_def zdiv_mono1)
  have mag: "f32_mag v = (if e = 0 then m else (2 ^ 23 + m) * 2 ^ nat (e - 1))" "f32_mag w = (if f = 0 then n else (2 ^ 23 + n) * 2 ^ nat (f - 1))"
    by (simp_all add: f32_mag_split Let_def a_def b_def e_def m_def f_def n_def)
  show ?thesis
  proof (cases "e = f")
    case True
    have "a = e * 2 ^ 23 + m" "b = f * 2 ^ 23 + n" by (simp_all add: e_def m_def f_def n_def)
    then have "m < n" using ab True by simp
    then show ?thesis using mag True by simp
  next
    case False
    then have lt: "e < f" using ef by simp
    have low: "2 ^ 23 * 2 ^ nat (f - 1) \<le> f32_mag w" using lt r mag(2) by simp
    have "f32_mag v < 2 ^ 23 * 2 ^ nat (f - 1)"
    proof (cases "e = 0")
      case True
      have "f32_mag v < 2 ^ 23 * 1" using True mag(1) r(2) by simp
      also have "\<dots> \<le> 2 ^ 23 * 2 ^ nat (f - 1)" by (rule mult_left_mono) simp_all
      finally show ?thesis .
    next
      case e: False
      have "f32_mag v < 2 ^ 24 * 2 ^ nat (e - 1)" using e mag(1) r by simp
      also have "\<dots> = 2 ^ 23 * 2 ^ Suc (nat (e - 1))" by simp
      also have "\<dots> \<le> 2 ^ 23 * 2 ^ nat (f - 1)" using lt e r by (intro mult_left_mono power_increasing) auto
      finally show ?thesis .
    qed
    then show ?thesis using low by simp
  qed
qed

lemma f32_mag_mono_iff: "f32_mag v < f32_mag w \<longleftrightarrow> v mod 2 ^ 31 < w mod 2 ^ 31"
proof -
  have "f32_mag v = f32_mag w" if "v mod 2 ^ 31 = w mod 2 ^ 31" using that by (simp add: f32_mag_split)
  then show ?thesis using f32_mag_mono [of v w] f32_mag_mono [of w v] by linarith
qed

lemma f32_mag_nonneg: "0 \<le> f32_mag w" and f32_mag_zero: "f32_mag w = 0 \<longleftrightarrow> w mod 2 ^ 31 = 0"
proof -
  have 0: "f32_mag 0 = 0" by (simp add: f32_mag_def)
  have "\<not> w mod 2 ^ 31 < 0" by simp
  then show "0 \<le> f32_mag w" using f32_mag_mono_iff [of w 0] 0 by simp
  then show "f32_mag w = 0 \<longleftrightarrow> w mod 2 ^ 31 = 0" using f32_mag_mono_iff [of 0 w] 0 by (simp add: order_less_le)
qed

lemma signed_less:
  fixes a b u v :: int
  assumes "u < v \<longleftrightarrow> a < b" "v < u \<longleftrightarrow> b < a" "0 \<le> a" "0 \<le> b" "0 \<le> u" "0 \<le> v" "u = 0 \<longleftrightarrow> a = 0" "v = 0 \<longleftrightarrow> b = 0"
  shows "(if s then - a else a) < (if t then - b else b) \<longleftrightarrow> (if s then - u else u) < (if t then - v else v)"
  using assms by (cases s; cases t; cases "a = 0"; cases "b = 0") auto

lemma f32_ord_val:
  assumes "0 \<le> x" "x < 2 ^ 32" "0 \<le> y" "y < 2 ^ 32"
  shows "f32_ord x < f32_ord y \<longleftrightarrow> f32_val x < f32_val y"
proof -
  have o: "f32_ord w = (if f32_sign w then - (w mod 2 ^ 31) else w mod 2 ^ 31)" if "0 \<le> w" for w
    using that by (simp add: f32_ord_def f32_sign_def)
  show ?thesis
    unfolding f32_val_def o [OF assms(1)] o [OF assms(3)]
    by (rule signed_less) (simp_all only: f32_mag_mono_iff f32_mag_nonneg f32_mag_zero pos_mod_sign zero_less_power zero_less_numeral)
qed

text \<open>Integers of at most 24 bits are converted exactly and back.\<close>

lemma f32_of_int_exact:
  assumes "\<bar>i\<bar> < 2 ^ 24"
  shows "f32_val (f32_of_int i) = i * 2 ^ 149"
proof -
  have "f32_val (f32_of_ratio (i < 0) (nat \<bar>i\<bar> * 2 ^ 149) 1) = (if i < 0 then - int (nat \<bar>i\<bar> * 2 ^ 149) else int (nat \<bar>i\<bar> * 2 ^ 149))"
    by (rule f32_val_round_exact) (use assms in simp_all)
  then show ?thesis by (simp only: f32_of_int_def) (simp split: if_splits)
qed

lemma f32_round_range: "0 \<le> f32_round p q \<and> f32_round p q \<le> 2139095040"
  by (simp add: f32_round_def Let_def)

lemma f32_of_int_range: "0 \<le> f32_of_int i" "f32_of_int i < 2 ^ 32" "\<not> f32_nan (f32_of_int i)"
proof -
  define r where "r = f32_round (nat \<bar>i\<bar> * 2 ^ 149) 1"
  have r: "0 \<le> r" "r \<le> 2139095040" using f32_round_range by (simp_all only: r_def)
  have e: "f32_of_int i = (if i < 0 then 2 ^ 31 else 0) + r" by (simp only: f32_of_int_def f32_of_ratio_def r_def)
  then show "0 \<le> f32_of_int i" "f32_of_int i < 2 ^ 32" using r by simp_all
  have "f32_of_int i mod 2 ^ 31 = r" using r unfolding e by (simp add: mod_pos_pos_trivial)
  then show "\<not> f32_nan (f32_of_int i)" using r by (simp add: f32_nan_def)
qed

lemma f32_of_int_less:
  assumes "\<bar>i\<bar> < 2 ^ 24" "\<bar>j\<bar> < 2 ^ 24"
  shows "f32_less (f32_of_int i) (f32_of_int j) \<longleftrightarrow> i < j" "f32_eq (f32_of_int i) (f32_of_int j) \<longleftrightarrow> i = j"
proof -
  have lt: "f32_ord (f32_of_int i) < f32_ord (f32_of_int j) \<longleftrightarrow> i < j" if "\<bar>i\<bar> < 2 ^ 24" "\<bar>j\<bar> < 2 ^ 24" for i j
    by (simp only: f32_ord_val [OF f32_of_int_range(1,2) f32_of_int_range(1,2)] f32_of_int_exact [OF that(1)] f32_of_int_exact [OF that(2)]) simp
  show "f32_less (f32_of_int i) (f32_of_int j) \<longleftrightarrow> i < j"
    by (simp only: f32_less_def f32_of_int_range(3) lt [OF assms]) simp
  show "f32_eq (f32_of_int i) (f32_of_int j) \<longleftrightarrow> i = j"
    using lt [OF assms] lt [OF assms(2,1)] by (simp only: f32_eq_def f32_of_int_range(3)) auto
qed

end
