(* ===== verification/Values.thy ===== *)
theory Values
  imports Sm_Meta Float32
begin

text \<open>
  Values and conditions (\<^verbatim>\<open>src/src/common/common.h\<close>, \<^verbatim>\<open>src/src/execution/condition_check.cpp\<close>): literals
  and column values with their conversions and comparisons, and the test of a record against a
  list of conditions. The results are that a condition on a column compares what the column of the
  record holds, in the order the indexes use, and where this fails for \<^verbatim>\<open>CHAR\<close> columns.
\<close>

section \<open>Values\<close>

fun coltype2str :: "col_type \<Rightarrow> string" where
  "coltype2str TYPE_INT = ''INT''"
| "coltype2str TYPE_FLOAT = ''FLOAT''"
| "coltype2str TYPE_STRING = ''STRING''"
| "coltype2str TYPE_NULL = ''NULL''"

record tab_col =
  tc_tab_name :: string
  tc_col_name :: string
  tc_alias :: string
  tc_aggr :: aggregation_type

text \<open>
  The union of \<^verbatim>\<open>int_val\<close> and \<^verbatim>\<open>float_val\<close> is one 32-bit word. \<^verbatim>\<open>raw\<close> is a shared pointer that is set
  once and not changed afterwards, so copies of a value may hold copies of the bytes.
\<close>

record sql_value =
  v_type :: col_type
  v_word :: "32 word"
  v_str :: bytes
  v_raw :: "bytes option"
  v_str_len :: int

text \<open>
  A default-constructed value has indeterminate members; those of \<open>fresh_value\<close> are assigned before
  they are read, except for \<^verbatim>\<open>str_len\<close>, which is an argument where the code reads it unassigned.
\<close>

definition fresh_value :: sql_value where
  "fresh_value = \<lparr>v_type = TYPE_NULL, v_word = 0, v_str = [], v_raw = None, v_str_len = 0\<rparr>"

definition int_val :: "sql_value \<Rightarrow> int" where "int_val v = sint (v_word v)"
definition float_val :: "sql_value \<Rightarrow> int" where "float_val v = uint (v_word v)"

definition set_int :: "int \<Rightarrow> sql_value \<Rightarrow> sql_value" where
  "set_int i v = v\<lparr>v_type := TYPE_INT, v_word := word_of_int i\<rparr>"

definition set_float :: "int \<Rightarrow> sql_value \<Rightarrow> sql_value" where
  "set_float w v = v\<lparr>v_type := TYPE_FLOAT, v_word := word_of_int w\<rparr>"

definition set_str :: "bytes \<Rightarrow> sql_value \<Rightarrow> sql_value" where
  "set_str s v = v\<lparr>v_type := TYPE_STRING, v_str := s\<rparr>"

text \<open>A new record buffer is not cleared; all of it is written unless the type is \<^verbatim>\<open>TYPE_NULL\<close>.\<close>

definition init_raw :: "int \<Rightarrow> sql_value \<Rightarrow> rmdb_error + sql_value" where
  "init_raw len v =
     (if v_raw v \<noteq> None then Inl AssertFailure
      else case v_type v of
        TYPE_INT \<Rightarrow> if len \<noteq> 4 then Inl AssertFailure else Inr (v\<lparr>v_raw := Some (enc_int (int_val v))\<rparr>)
      | TYPE_FLOAT \<Rightarrow> if len \<noteq> 4 then Inl AssertFailure else Inr (v\<lparr>v_raw := Some (enc_int (float_val v))\<rparr>)
      | TYPE_STRING \<Rightarrow>
          if len < int (length (v_str v)) then Inl StringOverflowError
          else Inr (v\<lparr>v_raw := Some (v_str v @ replicate (nat len - length (v_str v)) 0)\<rparr>)
      | TYPE_NULL \<Rightarrow> Inr (v\<lparr>v_raw := Some (replicate (nat len) 0)\<rparr>))"

definition update_raw :: "sql_value \<Rightarrow> rmdb_error + sql_value" where
  "update_raw v =
     (case v_raw v of
        None \<Rightarrow> Inl NullDeref
      | Some r \<Rightarrow>
          (case v_type v of
             TYPE_INT \<Rightarrow> Inr (v\<lparr>v_raw := Some (put_int r 0 (int_val v))\<rparr>)
           | TYPE_FLOAT \<Rightarrow> Inr (v\<lparr>v_raw := Some (put_int r 0 (float_val v))\<rparr>)
           | TYPE_STRING \<Rightarrow>
               if v_str_len v < int (length (v_str v)) then Inl StringOverflowError
               else Inr (v\<lparr>v_raw := Some (mem_write (mem_write r 0 (replicate (nat (v_str_len v)) 0)) 0 (v_str v))\<rparr>)
           | TYPE_NULL \<Rightarrow> Inr v))"

section \<open>Reading numbers from text\<close>

text \<open>
  \<^verbatim>\<open>sscanf\<close> with \<^verbatim>\<open>%d\<close> and \<^verbatim>\<open>%f\<close>: blanks are skipped; the input item is the longest prefix that can
  be continued to a number, and when it is none itself nothing is assigned: \<open>None\<close>.
\<close>

definition byte_ws :: "byte \<Rightarrow> bool" where
  "byte_ws c \<longleftrightarrow> c = 32 \<or> 9 \<le> c \<and> c \<le> 13"

definition digit_val :: "byte \<Rightarrow> nat" where
  "digit_val c = (if 48 \<le> c \<and> c \<le> 57 then unat c - 48 else if 97 \<le> c \<and> c \<le> 102 then unat c - 87
     else if 65 \<le> c \<and> c \<le> 70 then unat c - 55 else 16)"

definition lower :: "byte \<Rightarrow> byte" where "lower c = (if 65 \<le> c \<and> c \<le> 90 then c + 32 else c)"

definition digits_num :: "nat \<Rightarrow> bytes \<Rightarrow> nat" where
  "digits_num b ds = foldl (\<lambda>a c. b * a + digit_val c) 0 ds"

definition scan_sign :: "bytes \<Rightarrow> bool \<times> bytes" where
  "scan_sign s = (case s of [] \<Rightarrow> (False, []) | c # r \<Rightarrow> if c = 45 then (True, r) else if c = 43 then (False, r) else (False, s))"

text \<open>\<^verbatim>\<open>%d\<close> goes through \<^verbatim>\<open>long\<close>, which saturates, and is then cut to an \<^verbatim>\<open>int\<close>.\<close>

definition sscanf_d :: "bytes \<Rightarrow> int option" where
  "sscanf_d s =
     (let (neg, r) = scan_sign (dropWhile byte_ws (takeWhile (\<lambda>c. c \<noteq> 0) s));
          ds = takeWhile (\<lambda>c. digit_val c < 10) r;
          n = int (digits_num 10 ds);
          l = max (- (2 ^ 63)) (min (2 ^ 63 - 1) (if neg then - n else n))
      in if ds = [] then None else Some (wrap32 l))"

text \<open>The digits, the fraction and the exponent of a number to base 10 or 16.\<close>

definition scan_float :: "nat \<Rightarrow> byte \<Rightarrow> bytes \<Rightarrow> (nat \<times> int) option" where
  "scan_float b ex s =
     (let d = (\<lambda>c. digit_val c < b);
          a = takeWhile d s; s1 = dropWhile d s;
          point = (s1 \<noteq> [] \<and> hd s1 = 46);
          f = (if point then takeWhile d (tl s1) else []);
          s2 = (if point then dropWhile d (tl s1) else s1);
          scale = (if b = 16 then 4 else 1) * int (length f)
      in if a = [] \<and> f = [] then None
         else if s2 \<noteq> [] \<and> lower (hd s2) = ex then
           (let (neg, s3) = scan_sign (tl s2); e = takeWhile (\<lambda>c. digit_val c < 10) s3; n = int (digits_num 10 e)
            in if e = [] then None else Some (digits_num b (a @ f), (if neg then - n else n) - scale))
         else Some (digits_num b (a @ f), - scale))"

definition f32_scaled :: "bool \<Rightarrow> nat \<Rightarrow> nat \<Rightarrow> int \<Rightarrow> int" where
  "f32_scaled neg m base e = f32_of_ratio neg (m * base ^ nat e * 2 ^ 149) (base ^ nat (- e))"

definition sscanf_f :: "bytes \<Rightarrow> int option" where
  "sscanf_f s =
     (let (neg, r) = scan_sign (dropWhile byte_ws (takeWhile (\<lambda>c. c \<noteq> 0) s));
          sg = (if neg then 2 ^ 31 else 0); l = map lower r
      in if l \<noteq> [] \<and> hd l = 105 then
           (if take 3 l = [105, 110, 102] \<and> (take 1 (drop 3 l) = [105] \<longrightarrow> take 5 (drop 3 l) = [105, 110, 105, 116, 121])
            then Some (sg + 2139095040) else None)
         else if l \<noteq> [] \<and> hd l = 110 then
           (if take 3 l = [110, 97, 110] \<and>
               (take 1 (drop 3 l) = [40] \<longrightarrow> take 1 (dropWhile (\<lambda>c. digit_val c < 10 \<or> 97 \<le> c \<and> c \<le> 122 \<or> c = 95) (drop 4 l)) = [41])
            then Some (sg + 2143289344) else None)
         else if take 2 l = [48, 120] then map_option (\<lambda>(m, e). f32_scaled neg m 2 e) (scan_float 16 112 (drop 2 r))
         else map_option (\<lambda>(m, e). f32_scaled neg m 10 e) (scan_float 10 101 r))"

section \<open>Conversions and comparisons\<close>

definition value_cast :: "col_type \<Rightarrow> sql_value \<Rightarrow> rmdb_error + sql_value" where
  "value_cast t v =
     (if v_type v = t then Inr v
      else if v_type v = TYPE_INT \<and> t = TYPE_FLOAT then Inr (set_float (f32_of_int (int_val v)) v)
      else if v_type v = TYPE_FLOAT \<and> t = TYPE_INT then Inr (set_int (f32_to_int (float_val v)) v)
      else if v_type v = TYPE_STRING \<and> t = TYPE_INT then
        Inr (case sscanf_d (v_str v) of None \<Rightarrow> v\<lparr>v_type := TYPE_INT\<rparr> | Some i \<Rightarrow> set_int i v)
      else if v_type v = TYPE_STRING \<and> t = TYPE_FLOAT then
        Inr (case sscanf_f (v_str v) of None \<Rightarrow> v\<lparr>v_type := TYPE_FLOAT\<rparr> | Some w \<Rightarrow> set_float w v)
      else Inl (IncompatibleTypeError (coltype2str (v_type v)) (coltype2str t)))"

definition float2int :: "sql_value \<Rightarrow> rmdb_error + sql_value" where
  "float2int v = (if v_type v = TYPE_FLOAT then Inr (set_int (f32_to_int (float_val v)) v) else Inl AssertFailure)"

definition int2float :: "sql_value \<Rightarrow> rmdb_error + sql_value" where
  "int2float v = (if v_type v = TYPE_INT then Inr (set_float (f32_of_int (int_val v)) v) else Inl AssertFailure)"

definition try_cast_to :: "col_type \<Rightarrow> sql_value \<Rightarrow> bool \<times> sql_value" where
  "try_cast_to t v =
     (if v_type v = t then (True, v)
      else if v_type v = TYPE_INT \<and> t = TYPE_FLOAT then
        (case int2float v of Inl e \<Rightarrow> (False, v) | Inr v' \<Rightarrow> (True, v'))
      else if v_type v = TYPE_FLOAT \<and> t = TYPE_INT then
        (case float2int v of Inl e \<Rightarrow> (False, v) | Inr v' \<Rightarrow> (True, v'))
      else (False, v))"

text \<open>
  \<^verbatim>\<open>strncmp\<close> on the characters before the first zero; a negative length becomes a \<^verbatim>\<open>size_t\<close> beyond
  any string. Only the sign of its result is used.
\<close>

definition c_str :: "bytes \<Rightarrow> bytes" where "c_str s = takeWhile (\<lambda>c. c \<noteq> 0) s @ [0]"

fun bytes_cmp :: "bytes \<Rightarrow> bytes \<Rightarrow> int" where
  "bytes_cmp (x # xs) (y # ys) = (if uint x < uint y then - 1 else if uint y < uint x then 1 else bytes_cmp xs ys)"
| "bytes_cmp _ _ = 0"

definition strncmp :: "bytes \<Rightarrow> bytes \<Rightarrow> int \<Rightarrow> int" where
  "strncmp a b n = (let k = nat (n mod 2 ^ 64) in bytes_cmp (take k (c_str a)) (take k (c_str b)))"

definition type_error :: "sql_value \<Rightarrow> sql_value \<Rightarrow> rmdb_error" where
  "type_error l r = IncompatibleTypeError (coltype2str (v_type l)) (coltype2str (v_type r))"

definition value_eq :: "sql_value \<Rightarrow> sql_value \<Rightarrow> rmdb_error + bool" where
  "value_eq l r =
     (if v_type l \<noteq> v_type r then Inl (type_error l r)
      else case v_type l of
        TYPE_INT \<Rightarrow> Inr (int_val l = int_val r)
      | TYPE_FLOAT \<Rightarrow> Inr (f32_eq (float_val l) (float_val r))
      | TYPE_STRING \<Rightarrow> Inr (strncmp (v_str l) (v_str r) (v_str_len l) = 0)
      | TYPE_NULL \<Rightarrow> Inl (InternalError ''Unexpected value type''))"

definition value_less :: "sql_value \<Rightarrow> sql_value \<Rightarrow> rmdb_error + bool" where
  "value_less l r =
     (if v_type l \<noteq> v_type r then Inl (type_error l r)
      else case v_type l of
        TYPE_INT \<Rightarrow> Inr (int_val l < int_val r)
      | TYPE_FLOAT \<Rightarrow> Inr (f32_less (float_val l) (float_val r))
      | TYPE_STRING \<Rightarrow> Inr (strncmp (v_str l) (v_str r) (v_str_len l) < 0)
      | TYPE_NULL \<Rightarrow> Inl (InternalError ''Unexpected value type''))"

definition value_ne :: "sql_value \<Rightarrow> sql_value \<Rightarrow> rmdb_error + bool" where
  "value_ne l r = map_sum id Not (value_eq l r)"

definition value_greater :: "sql_value \<Rightarrow> sql_value \<Rightarrow> rmdb_error + bool" where
  "value_greater l r = value_less r l"

definition value_le :: "sql_value \<Rightarrow> sql_value \<Rightarrow> rmdb_error + bool" where
  "value_le l r = map_sum id Not (value_less r l)"

definition value_ge :: "sql_value \<Rightarrow> sql_value \<Rightarrow> rmdb_error + bool" where
  "value_ge l r = map_sum id Not (value_less l r)"

section \<open>Conditions\<close>

datatype comp_op = OP_EQ | OP_NE | OP_LT | OP_GT | OP_LE | OP_GE | OP_IN

datatype cond_rhs_type = RHS_VALUE | RHS_COL | RHS_SELECT | RHS_SET

text \<open>
  The iterators to the matching columns are the columns they point to. The subquery of a condition
  is run, and no longer part of it, before records are tested; \<^verbatim>\<open>std::set\<close> is the list of its
  elements in their order.
\<close>

record condition =
  cd_lhs_col :: tab_col
  cd_op :: comp_op
  cd_is_rhs_val :: bool
  cd_is_rhs_select :: bool
  cd_rhs_col :: tab_col
  cd_rhs_val :: sql_value
  cd_rhs_set :: "sql_value list"
  cd_rhs_type :: cond_rhs_type
  cd_lhs_match :: col_meta
  cd_rhs_match :: col_meta

record set_clause =
  sc_lhs :: tab_col
  sc_rhs :: sql_value

fun vset_insert :: "sql_value \<Rightarrow> sql_value list \<Rightarrow> rmdb_error + sql_value list" where
  "vset_insert v [] = Inr [v]"
| "vset_insert v (x # xs) =
     (case value_less v x of
        Inl e \<Rightarrow> Inl e
      | Inr True \<Rightarrow> Inr (v # x # xs)
      | Inr False \<Rightarrow>
          (case value_less x v of
             Inl e \<Rightarrow> Inl e
           | Inr False \<Rightarrow> Inr (x # xs)
           | Inr True \<Rightarrow> map_sum id ((#) x) (vset_insert v xs)))"

fun vset_find :: "sql_value \<Rightarrow> sql_value list \<Rightarrow> rmdb_error + bool" where
  "vset_find v [] = Inr False"
| "vset_find v (x # xs) =
     (case value_less x v of
        Inl e \<Rightarrow> Inl e
      | Inr True \<Rightarrow> vset_find v xs
      | Inr False \<Rightarrow> map_sum id Not (value_less v x))"

definition check_condition :: "condition \<Rightarrow> sql_value \<Rightarrow> sql_value \<Rightarrow> rmdb_error + bool" where
  "check_condition c l r =
     (case cd_op c of
        OP_EQ \<Rightarrow> value_eq l r
      | OP_NE \<Rightarrow> value_ne l r
      | OP_LT \<Rightarrow> value_less l r
      | OP_GT \<Rightarrow> value_greater l r
      | OP_LE \<Rightarrow> value_le l r
      | OP_GE \<Rightarrow> value_ge l r
      | OP_IN \<Rightarrow> vset_find l (cd_rhs_set c))"

definition eval_with_rvalue :: "condition \<Rightarrow> sql_value \<Rightarrow> rmdb_error + bool" where
  "eval_with_rvalue c l = (if cd_is_rhs_val c then check_condition c l (cd_rhs_val c) else Inl AssertFailure)"

text \<open>
  The column of a record. The string constructor reads up to the first zero, wherever that is; when
  the record has none from there on, it reads beyond the buffer.
\<close>

definition build_value :: "col_type \<Rightarrow> int \<Rightarrow> bytes \<Rightarrow> int \<Rightarrow> rmdb_error + sql_value" where
  "build_value t off rec len =
     (case t of
        TYPE_INT \<Rightarrow> Inr (set_int (get_int rec (nat off)) fresh_value)
      | TYPE_FLOAT \<Rightarrow> Inr (set_float (get_uint 4 rec (nat off)) fresh_value)
      | TYPE_STRING \<Rightarrow>
          if 0 \<in> set (drop (nat off) rec)
          then Inr ((set_str (takeWhile (\<lambda>c. c \<noteq> 0) (drop (nat off) rec)) fresh_value)\<lparr>v_str_len := len\<rparr>)
          else Inl NullDeref
      | TYPE_NULL \<Rightarrow> Inr fresh_value)"

definition col_to_value :: "col_meta \<Rightarrow> bytes \<Rightarrow> int \<Rightarrow> rmdb_error + sql_value" where
  "col_to_value c rec junk =
     (case cm_type c of
        TYPE_INT \<Rightarrow> Inr (set_int (get_int rec (nat (cm_offset c))) fresh_value)
      | TYPE_FLOAT \<Rightarrow> Inr (set_float (get_uint 4 rec (nat (cm_offset c))) fresh_value)
      | TYPE_STRING \<Rightarrow>
          Inr ((set_str (takeWhile (\<lambda>b. b \<noteq> 0) (mem_read rec (nat (cm_offset c)) (nat (cm_len c)))) fresh_value)\<lparr>v_str_len := junk\<rparr>)
      | TYPE_NULL \<Rightarrow> Inl (InternalError ''not implemented''))"

fun cast_set :: "col_type \<Rightarrow> sql_value list \<Rightarrow> sql_value list \<Rightarrow> rmdb_error + sql_value list" where
  "cast_set t [] acc = Inr acc"
| "cast_set t (v # vs) acc =
     (case value_cast t v of
        Inl e \<Rightarrow> Inl e
      | Inr v' \<Rightarrow> (case vset_insert v' acc of Inl e \<Rightarrow> Inl e | Inr acc' \<Rightarrow> cast_set t vs acc'))"

text \<open>
  The converted set is stored in the condition; converting it again is the identity, so the model
  converts it for every record.
\<close>

definition check_single_condition :: "condition \<Rightarrow> bytes \<Rightarrow> rmdb_error + bool" where
  "check_single_condition c rec =
     (let lm = cd_lhs_match c; rm = cd_rhs_match c in
      case build_value (cm_type lm) (cm_offset lm) rec (cm_len lm) of
        Inl e \<Rightarrow> Inl e
      | Inr l \<Rightarrow>
          (case (if cd_rhs_type c = RHS_COL then build_value (cm_type rm) (cm_offset rm) rec (cm_len rm) else Inr (cd_rhs_val c)) of
             Inl e \<Rightarrow> Inl e
           | Inr r \<Rightarrow>
               if cd_rhs_type c = RHS_VALUE \<and> v_type l \<noteq> v_type r then
                 (if v_type l = TYPE_INT \<and> v_type r = TYPE_FLOAT then check_condition c (set_float (f32_of_int (int_val l)) l) r
                  else if v_type l = TYPE_FLOAT \<and> v_type r = TYPE_INT then check_condition c l (set_float (f32_of_int (int_val r)) r)
                  else Inl (type_error l r))
               else if cd_rhs_type c = RHS_SET \<and> cd_rhs_set c \<noteq> [] \<and> v_type l \<noteq> v_type (hd (cd_rhs_set c)) then
                 (case cast_set (v_type l) (cd_rhs_set c) [] of
                    Inl e \<Rightarrow> Inl e
                  | Inr s \<Rightarrow> check_condition (c\<lparr>cd_rhs_set := s\<rparr>) l r)
               else check_condition c l r))"

fun check_conditions :: "condition list \<Rightarrow> bytes \<Rightarrow> rmdb_error + bool" where
  "check_conditions [] rec = Inr True"
| "check_conditions (c # cs) rec =
     (case check_single_condition c rec of
        Inl e \<Rightarrow> Inl e
      | Inr b \<Rightarrow> if b then check_conditions cs rec else Inr False)"

section \<open>What a condition compares\<close>

text \<open>
  The rank of a value in a column of \<open>n\<close> bytes is a list of integers, ordered lexicographically. For
  a column of a record it is the rank of the index order.
\<close>

fun value_rank :: "nat \<Rightarrow> sql_value \<Rightarrow> int list" where
  "value_rank n v =
     (case v_type v of
        TYPE_INT \<Rightarrow> [int_val v]
      | TYPE_FLOAT \<Rightarrow> [f32_ord (float_val v)]
      | TYPE_STRING \<Rightarrow> map uint (take n (takeWhile (\<lambda>c. c \<noteq> 0) (v_str v) @ replicate n 0))
      | TYPE_NULL \<Rightarrow> [])"

declare value_rank.simps [simp del]

definition cell :: "col_meta \<Rightarrow> bytes \<Rightarrow> bytes" where
  "cell c rec = mem_read rec (nat (cm_offset c)) (nat (cm_len c))"

definition cell_rank :: "col_meta \<Rightarrow> bytes \<Rightarrow> int list" where
  "cell_rank c rec = col_rank (cm_type c) (nat (cm_len c)) (cell c rec)"

fun op_sem :: "comp_op \<Rightarrow> 'a::linorder \<Rightarrow> 'a \<Rightarrow> bool" where
  "op_sem OP_EQ x y \<longleftrightarrow> x = y"
| "op_sem OP_NE x y \<longleftrightarrow> x \<noteq> y"
| "op_sem OP_LT x y \<longleftrightarrow> x < y"
| "op_sem OP_GT x y \<longleftrightarrow> x > y"
| "op_sem OP_LE x y \<longleftrightarrow> x \<le> y"
| "op_sem OP_GE x y \<longleftrightarrow> x \<ge> y"
| "op_sem OP_IN x y \<longleftrightarrow> False"

definition cond_holds :: "condition \<Rightarrow> bytes \<Rightarrow> bool" where
  "cond_holds c rec =
     (let n = nat (cm_len (cd_lhs_match c)); l = cell_rank (cd_lhs_match c) rec in
      case cd_rhs_type c of
        RHS_COL \<Rightarrow> op_sem (cd_op c) l (cell_rank (cd_rhs_match c) rec)
      | RHS_SET \<Rightarrow> list_ex (\<lambda>v. value_rank n v = l) (cd_rhs_set c)
      | _ \<Rightarrow> op_sem (cd_op c) l (value_rank n (cd_rhs_val c)))"

text \<open>
  A column of a record as the executors store it: within the record, strings padded with zeroes and
  a zero somewhere behind their start, no NaN.
\<close>

definition zero_padded :: "bytes \<Rightarrow> bool" where
  "zero_padded bs \<longleftrightarrow> list_all (\<lambda>b. b = 0) (dropWhile (\<lambda>c. c \<noteq> 0) bs)"

definition col_clean :: "col_meta \<Rightarrow> bytes \<Rightarrow> bool" where
  "col_clean c rec \<longleftrightarrow> 0 \<le> cm_offset c \<and> 0 \<le> cm_len c \<and> cm_len c < 2 ^ 31 \<and> nat (cm_offset c) + nat (cm_len c) \<le> length rec \<and>
     (case cm_type c of
        TYPE_INT \<Rightarrow> cm_len c = 4
      | TYPE_FLOAT \<Rightarrow> cm_len c = 4 \<and> \<not> f32_nan (get_uint 4 (cell c rec) 0)
      | TYPE_STRING \<Rightarrow> zero_padded (cell c rec) \<and> 0 \<in> set (drop (nat (cm_offset c)) rec)
      | TYPE_NULL \<Rightarrow> False)"

text \<open>
  A literal that fits the column. \<^verbatim>\<open>str_len\<close> of the right-hand side is read by the operators that are
  defined through the swapped comparison.
\<close>

definition val_fits :: "col_meta \<Rightarrow> comp_op \<Rightarrow> sql_value \<Rightarrow> bool" where
  "val_fits c p v \<longleftrightarrow> v_type v = cm_type c \<and> (v_type v = TYPE_FLOAT \<longrightarrow> \<not> f32_nan (float_val v)) \<and>
     (v_type v = TYPE_STRING \<and> p \<in> {OP_GT, OP_LE, OP_IN} \<longrightarrow> v_str_len v = cm_len c)"

definition cond_wf :: "condition \<Rightarrow> bool" where
  "cond_wf c =
     (let l = cd_lhs_match c; r = cd_rhs_match c in
      case cd_rhs_type c of
        RHS_VALUE \<Rightarrow> cd_op c \<noteq> OP_IN \<and> val_fits l (cd_op c) (cd_rhs_val c)
      | RHS_COL \<Rightarrow> cd_op c \<noteq> OP_IN \<and> cm_type r = cm_type l \<and> cm_len r = cm_len l
      | RHS_SET \<Rightarrow> cd_op c = OP_IN \<and> list_all (val_fits l OP_IN) (cd_rhs_set c) \<and>
          sorted_wrt (<) (map (value_rank (nat (cm_len l))) (cd_rhs_set c))
      | RHS_SELECT \<Rightarrow> False)"

definition cond_clean :: "condition \<Rightarrow> bytes \<Rightarrow> bool" where
  "cond_clean c rec \<longleftrightarrow> col_clean (cd_lhs_match c) rec \<and> (cd_rhs_type c = RHS_COL \<longrightarrow> col_clean (cd_rhs_match c) rec)"

section \<open>Comparisons are comparisons of ranks\<close>

lemma take_pad: "take k (l @ replicate (Suc k) z) = take k (l @ replicate k z)"
  by (simp add: take_replicate del: replicate_Suc)

lemma bytes_cmp_rank:
  "bytes_cmp (take k (c_str a)) (take k (c_str b)) =
   cmp3 (map uint (take k (takeWhile (\<lambda>c. c \<noteq> 0) a @ replicate k 0))) (map uint (take k (takeWhile (\<lambda>c. c \<noteq> 0) b @ replicate k (0::byte))))"
proof (induction k arbitrary: a b)
  case (Suc k)
  let ?z = "\<lambda>k s. map uint (take k (takeWhile (\<lambda>c. c \<noteq> 0) s @ replicate k (0::byte)))"
  have e: "take (Suc k) (c_str s) = [0] \<and> ?z (Suc k) s = 0 # replicate k 0" if "s = [] \<or> hd s = 0" for s
    using that by (cases s) (auto simp: c_str_def)
  have f: "take (Suc k) (c_str (x # s)) = x # take k (c_str s) \<and> ?z (Suc k) (x # s) = uint x # ?z k s \<and> 0 < uint x" if "x \<noteq> 0" for x s
    using that uint_0_iff [of x] uint_ge_0 [of x] by (auto simp: c_str_def take_pad order_less_le simp del: replicate_Suc)
  show ?case
  proof (cases "a = [] \<or> hd a = 0")
    case a: True
    show ?thesis
    proof (cases "b = [] \<or> hd b = 0")
      case True
      then show ?thesis using e [OF a] e [OF True] by (simp add: cmp3_def)
    next
      case False
      then obtain y s where "b = y # s" "y \<noteq> 0" by (cases b) auto
      then show ?thesis using e [OF a] f [of y s] by (simp add: cmp3_def)
    qed
  next
    case False
    then obtain x r where a: "a = x # r" "x \<noteq> 0" by (cases a) auto
    show ?thesis
    proof (cases "b = [] \<or> hd b = 0")
      case True
      then show ?thesis using e [OF True] f [OF a(2), of r] a(1) by (simp add: cmp3_def)
    next
      case False
      then obtain y s where "b = y # s" "y \<noteq> 0" by (cases b) auto
      then show ?thesis using f [OF a(2), of r] f [of y s] a(1) Suc [of r s] by (simp add: cmp3_def)
    qed
  qed
qed (simp add: cmp3_def)

lemma value_less_rank:
  assumes "v_type l = v_type r" "v_type l \<noteq> TYPE_NULL" "v_type l = TYPE_FLOAT \<longrightarrow> \<not> f32_nan (float_val l) \<and> \<not> f32_nan (float_val r)"
    "v_type l = TYPE_STRING \<longrightarrow> v_str_len l = int n" "n < 2 ^ 31"
  shows "value_less l r = Inr (value_rank n l < value_rank n r)" "value_eq l r = Inr (value_rank n l = value_rank n r)"
proof -
  have k: "nat (int n mod 2 ^ 64) = n" using assms(5) by simp
  show "value_less l r = Inr (value_rank n l < value_rank n r)" "value_eq l r = Inr (value_rank n l = value_rank n r)"
    using assms
    by (cases "v_type l"; simp add: value_less_def value_eq_def value_rank.simps f32_less_def f32_eq_def strncmp_def k bytes_cmp_rank Let_def)+
qed

lemma zero_padded_take:
  assumes "zero_padded (take n d)" "n \<le> length d"
  shows "take n (takeWhile (\<lambda>c. c \<noteq> 0) d @ replicate n 0) = take n (d :: bytes)"
  using assms
proof (induction n arbitrary: d)
  case (Suc n)
  then obtain x d' where d: "d = x # d'" "n \<le> length d'" by (cases d) auto
  show ?case
  proof (cases "x = 0")
    case True
    then have "list_all (\<lambda>b. b = 0) (take n d')" using Suc.prems(1) d by (simp add: zero_padded_def)
    then have "take n d' = replicate n 0" using d(2) by (intro replicate_eqI) (auto simp: list_all_iff)
    then show ?thesis using True d by simp
  next
    case False
    have "zero_padded (take n d')" using Suc.prems(1) d False by (simp add: zero_padded_def)
    then have "take n (takeWhile (\<lambda>c. c \<noteq> 0) d' @ replicate n 0) = take n d'" using Suc.IH d(2) by simp
    moreover have "take n (takeWhile (\<lambda>c. c \<noteq> 0) d' @ replicate (Suc n) 0) = take n (takeWhile (\<lambda>c. c \<noteq> 0) d' @ replicate n (0::byte))"
      by (rule take_pad)
    ultimately show ?thesis using False d by simp
  qed
qed simp

lemma get_int_range: "int_range (get_int d off)"
  by (simp add: get_int_def dec_int_def)

lemma int_val_set [simp]: "int_range i \<Longrightarrow> int_val (set_int i v) = i" "v_type (set_int i v) = TYPE_INT"
  "v_str_len (set_int i v) = v_str_len v"
  by (simp_all add: int_val_def set_int_def sint_sbintrunc' int_range_def signed_take_bit_int_eq_self)

lemma float_val_set [simp]: "0 \<le> w \<Longrightarrow> w < 2 ^ 32 \<Longrightarrow> float_val (set_float w v) = w" "v_type (set_float w v) = TYPE_FLOAT"
  by (simp_all add: float_val_def set_float_def uint_word_of_int)

lemma get_uint_cell: "4 \<le> n \<Longrightarrow> get_uint 4 (mem_read d off n) 0 = get_uint 4 d off" "4 \<le> n \<Longrightarrow> get_int (mem_read d off n) 0 = get_int d off"
  by (simp_all add: get_uint_def get_int_def mem_read_def)

lemma get_uint_range: "0 \<le> get_uint 4 d off" "get_uint 4 d off < 2 ^ 32"
proof -
  have "0 \<le> le_dec bs \<and> le_dec bs < 256 ^ length bs" for bs :: bytes
  proof (induction bs)
    case (Cons b bs)
    then show ?case using uint_bounded [of b] by simp
  qed simp
  from this [of "mem_read d off 4"] have r: "0 \<le> get_uint 4 d off" "get_uint 4 d off < 256 ^ length (mem_read d off 4)" by (simp_all add: get_uint_def)
  have "(256::int) ^ length (mem_read d off 4) \<le> 256 ^ 4" by (rule power_increasing) (simp_all add: mem_read_def)
  then show "0 \<le> get_uint 4 d off" "get_uint 4 d off < 2 ^ 32" using r by simp_all
qed

lemma col_cleanD:
  assumes "col_clean c rec"
  shows "nat (cm_len c) < 2 ^ 31" "int (nat (cm_len c)) = cm_len c" "nat (cm_len c) \<le> length (drop (nat (cm_offset c)) rec)"
proof -
  have "0 \<le> cm_len c" "cm_len c < 2 ^ 31" "nat (cm_offset c) + nat (cm_len c) \<le> length rec"
    using assms by (simp_all only: col_clean_def)
  then show "nat (cm_len c) < 2 ^ 31" "int (nat (cm_len c)) = cm_len c" "nat (cm_len c) \<le> length (drop (nat (cm_offset c)) rec)"
    by (simp_all add: nat_less_iff)
qed

text \<open>The column of a clean record, as a value, has the rank of the column.\<close>

lemma build_value_rank:
  assumes "col_clean c rec"
  obtains v where "build_value (cm_type c) (cm_offset c) rec (cm_len c) = Inr v" "v_type v = cm_type c"
    "value_rank (nat (cm_len c)) v = cell_rank c rec" "v_type v = TYPE_FLOAT \<longrightarrow> \<not> f32_nan (float_val v)"
    "v_type v = TYPE_STRING \<longrightarrow> v_str_len v = cm_len c" "v_type v \<noteq> TYPE_NULL"
proof -
  let ?off = "nat (cm_offset c)" and ?n = "nat (cm_len c)"
  show ?thesis
  proof (cases "cm_type c")
    case TYPE_INT
    then have "cm_len c = 4" using assms by (simp add: col_clean_def)
    then show ?thesis using that [of "set_int (get_int rec ?off) fresh_value"] TYPE_INT
      by (simp add: build_value_def value_rank.simps cell_rank_def cell_def get_uint_cell get_int_range)
  next
    case TYPE_FLOAT
    then have "cm_len c = 4" "\<not> f32_nan (get_uint 4 rec ?off)"
      using assms get_uint_cell(1) [of ?n rec ?off] by (auto simp: col_clean_def cell_def)
    then show ?thesis using that [of "set_float (get_uint 4 rec ?off) fresh_value"] TYPE_FLOAT get_uint_range [of rec ?off]
      by (simp add: build_value_def value_rank.simps cell_rank_def cell_def get_uint_cell)
  next
    case TYPE_STRING
    then have s: "zero_padded (take ?n (drop ?off rec))" "0 \<in> set (drop ?off rec)" "?n \<le> length (drop ?off rec)"
      using assms col_cleanD(3) [OF assms] by (simp_all add: col_clean_def cell_def mem_read_def)
    let ?v = "(set_str (takeWhile (\<lambda>b. b \<noteq> 0) (drop ?off rec)) fresh_value)\<lparr>v_str_len := cm_len c\<rparr>"
    have "value_rank ?n ?v = cell_rank c rec"
      using zero_padded_take [OF s(1,3)] by (simp add: value_rank.simps set_str_def cell_rank_def cell_def mem_read_def TYPE_STRING)
    then show ?thesis using that [of ?v] TYPE_STRING s(2) by (simp add: build_value_def set_str_def)
  next
    case TYPE_NULL
    then show ?thesis using assms by (simp add: col_clean_def)
  qed
qed

lemma vset_find_rank:
  assumes "v_type l \<noteq> TYPE_NULL" "v_type l = TYPE_FLOAT \<longrightarrow> \<not> f32_nan (float_val l)" "v_type l = TYPE_STRING \<longrightarrow> v_str_len l = int n" "n < 2 ^ 31"
    "sorted_wrt (<) (map (value_rank n) xs)"
    "\<forall>v\<in>set xs. v_type v = v_type l \<and> (v_type v = TYPE_FLOAT \<longrightarrow> \<not> f32_nan (float_val v)) \<and> (v_type v = TYPE_STRING \<longrightarrow> v_str_len v = int n)"
  shows "vset_find l xs = Inr (list_ex (\<lambda>v. value_rank n v = value_rank n l) xs)"
  using assms(5,6)
proof (induction xs)
  case (Cons x xs)
  have x: "v_type x = v_type l" "v_type x = TYPE_FLOAT \<longrightarrow> \<not> f32_nan (float_val x)" "v_type x = TYPE_STRING \<longrightarrow> v_str_len x = int n"
    using Cons.prems(2) by auto
  have xl: "value_less x l = Inr (value_rank n x < value_rank n l)" by (rule value_less_rank) (use x assms in auto)
  have lx: "value_less l x = Inr (value_rank n l < value_rank n x)" by (rule value_less_rank) (use x assms in auto)
  have gt: "\<not> list_ex (\<lambda>v. value_rank n v = value_rank n l) xs" if "\<not> value_rank n x < value_rank n l"
  proof
    assume "list_ex (\<lambda>v. value_rank n v = value_rank n l) xs"
    then obtain v where "v \<in> set xs" "value_rank n v = value_rank n l" by (auto simp: list_ex_iff)
    then have "value_rank n x < value_rank n l" using Cons.prems(1) by force
    with that show False ..
  qed
  have IH: "vset_find l xs = Inr (list_ex (\<lambda>v. value_rank n v = value_rank n l) xs)"
    by (rule Cons.IH) (use Cons.prems in simp_all)
  show ?case
  proof (cases "value_rank n x < value_rank n l")
    case True
    then show ?thesis using IH by (auto simp: xl)
  next
    case False
    then show ?thesis using gt [OF False] by (auto simp: xl lx)
  qed
qed simp

lemma check_condition_rank:
  assumes "v_type l = v_type r" "v_type l \<noteq> TYPE_NULL" "v_type l = TYPE_FLOAT \<longrightarrow> \<not> f32_nan (float_val l) \<and> \<not> f32_nan (float_val r)"
    "v_type l = TYPE_STRING \<longrightarrow> v_str_len l = int n" "n < 2 ^ 31" "cd_op c \<noteq> OP_IN"
    "v_type l = TYPE_STRING \<and> cd_op c \<in> {OP_GT, OP_LE} \<longrightarrow> v_str_len r = int n"
  shows "check_condition c l r = Inr (op_sem (cd_op c) (value_rank n l) (value_rank n r))"
proof -
  note lr = value_less_rank [OF assms(1-5)]
  have rl: "cd_op c \<in> {OP_GT, OP_LE} \<Longrightarrow> value_less r l = Inr (value_rank n r < value_rank n l)"
    by (rule value_less_rank) (use assms in auto)
  show ?thesis
    using assms(6) rl
    by (cases "cd_op c") (auto simp: check_condition_def lr value_ne_def value_greater_def value_le_def value_ge_def)
qed

lemma check_single_holds:
  assumes wf: "cond_wf c" and clean: "cond_clean c rec"
  shows "check_single_condition c rec = Inr (cond_holds c rec)"
proof -
  let ?lm = "cd_lhs_match c" and ?rm = "cd_rhs_match c"
  let ?n = "nat (cm_len ?lm)"
  have lc: "col_clean ?lm rec" using clean by (simp add: cond_clean_def)
  note n = col_cleanD(1,2) [OF lc]
  obtain l where l: "build_value (cm_type ?lm) (cm_offset ?lm) rec (cm_len ?lm) = Inr l" "v_type l = cm_type ?lm"
    "value_rank ?n l = cell_rank ?lm rec" "v_type l = TYPE_FLOAT \<longrightarrow> \<not> f32_nan (float_val l)"
    "v_type l = TYPE_STRING \<longrightarrow> v_str_len l = cm_len ?lm" "v_type l \<noteq> TYPE_NULL"
    by (rule build_value_rank [OF lc])
  show ?thesis
  proof (cases "cd_rhs_type c")
    case RHS_VALUE
    then have w: "cd_op c \<noteq> OP_IN" "val_fits ?lm (cd_op c) (cd_rhs_val c)" using wf by (simp_all add: cond_wf_def Let_def)
    have "check_condition c l (cd_rhs_val c) = Inr (op_sem (cd_op c) (value_rank ?n l) (value_rank ?n (cd_rhs_val c)))"
      by (rule check_condition_rank) (use l w n in \<open>auto simp: val_fits_def\<close>)
    then show ?thesis using RHS_VALUE l w by (simp add: check_single_condition_def cond_holds_def Let_def val_fits_def)
  next
    case RHS_COL
    then have w: "cd_op c \<noteq> OP_IN" "cm_type ?rm = cm_type ?lm" "cm_len ?rm = cm_len ?lm" using wf by (simp_all add: cond_wf_def Let_def)
    have rc: "col_clean ?rm rec" using clean RHS_COL by (simp add: cond_clean_def)
    obtain r where r: "build_value (cm_type ?rm) (cm_offset ?rm) rec (cm_len ?rm) = Inr r" "v_type r = cm_type ?rm"
      "value_rank (nat (cm_len ?rm)) r = cell_rank ?rm rec" "v_type r = TYPE_FLOAT \<longrightarrow> \<not> f32_nan (float_val r)"
      "v_type r = TYPE_STRING \<longrightarrow> v_str_len r = cm_len ?rm" "v_type r \<noteq> TYPE_NULL"
      by (rule build_value_rank [OF rc])
    have "check_condition c l r = Inr (op_sem (cd_op c) (value_rank ?n l) (value_rank ?n r))"
      by (rule check_condition_rank) (use l r w n in auto)
    then show ?thesis using RHS_COL l r w by (simp add: check_single_condition_def cond_holds_def Let_def)
  next
    case RHS_SET
    then have w: "cd_op c = OP_IN" "list_all (val_fits ?lm OP_IN) (cd_rhs_set c)" "sorted_wrt (<) (map (value_rank ?n) (cd_rhs_set c))"
      using wf by (simp_all add: cond_wf_def Let_def)
    have "vset_find l (cd_rhs_set c) = Inr (list_ex (\<lambda>v. value_rank ?n v = value_rank ?n l) (cd_rhs_set c))"
      by (rule vset_find_rank) (use l w n in \<open>auto simp: val_fits_def list_all_iff\<close>)
    moreover have "cd_rhs_set c \<noteq> [] \<Longrightarrow> v_type l = v_type (hd (cd_rhs_set c))"
      using w(2) l(2) by (cases "cd_rhs_set c") (auto simp: val_fits_def)
    ultimately show ?thesis using RHS_SET l(1,3) w(1) by (auto simp: check_single_condition_def cond_holds_def check_condition_def Let_def)
  next
    case RHS_SELECT
    then show ?thesis using wf by (simp add: cond_wf_def)
  qed
qed

lemma check_conditions_hold:
  "\<forall>c\<in>set cs. cond_wf c \<and> cond_clean c rec \<Longrightarrow> check_conditions cs rec = Inr (\<forall>c\<in>set cs. cond_holds c rec)"
  by (induction cs) (simp_all add: check_single_holds)

section \<open>Properties\<close>

lemma replicate_small: "replicate 2 x = [x, x]" "replicate 3 x = [x, x, x]" "replicate 4 x = [x, x, x, x]"
  by (simp_all add: numeral_eq_Suc)

text \<open>A table of an \<^verbatim>\<open>INT\<close>, a \<^verbatim>\<open>CHAR(4)\<close> and a \<^verbatim>\<open>FLOAT\<close> column, and a record of it.\<close>

definition sample_col :: "string \<Rightarrow> col_type \<Rightarrow> int \<Rightarrow> int \<Rightarrow> col_meta" where
  "sample_col n t len off = \<lparr>cm_tab_name = ''t'', cm_name = n, cm_alias = [], cm_type = t, cm_len = len, cm_offset = off,
     cm_index = False, cm_aggr = NO_AGGR\<rparr>"

definition sample_tab_col :: "string \<Rightarrow> tab_col" where
  "sample_tab_col n = \<lparr>tc_tab_name = ''t'', tc_col_name = n, tc_alias = [], tc_aggr = NO_AGGR\<rparr>"

definition sample_cond :: "col_meta \<Rightarrow> comp_op \<Rightarrow> sql_value \<Rightarrow> condition" where
  "sample_cond c p v = \<lparr>cd_lhs_col = sample_tab_col (cm_name c), cd_op = p, cd_is_rhs_val = True, cd_is_rhs_select = False,
     cd_rhs_col = sample_tab_col [], cd_rhs_val = v, cd_rhs_set = [], cd_rhs_type = RHS_VALUE, cd_lhs_match = c, cd_rhs_match = c\<rparr>"

definition sample_record :: bytes where
  "sample_record = [5, 0, 0, 0, 97, 98, 0, 0, 0, 0, 0, 64]"

text \<open>
  C18. Testing a record against a list of conditions gives the conjunction of what the conditions
  say about its columns: integers by value, strings lexicographically up to the column length,
  floats by value, in the order the indexes use. The test is short-circuit and never throws, for
  literals of the column's type, columns of equal type and length, and stored records. For strings
  compared with a literal by greater, less-or-equal or IN it is required that \<^verbatim>\<open>str_len\<close> of the literal is the column
  length; the code leaves that field unassigned, and \<open>char_greater_unassigned\<close> shows the effect.
\<close>

theorem conditions_correct:
  assumes "\<forall>c\<in>set cs. cond_wf c \<and> cond_clean c rec"
  shows "check_conditions cs rec = Inr (\<forall>c\<in>set cs. cond_holds c rec)"
  using assms by (rule check_conditions_hold)

theorem conditions_correct_witness:
  "check_conditions [sample_cond (sample_col ''a'' TYPE_INT 4 0) OP_LT (set_int 7 fresh_value),
      sample_cond (sample_col ''b'' TYPE_STRING 4 4) OP_GE (set_str [97, 98] fresh_value)] sample_record = Inr True"
proof -
  let ?cs = "[sample_cond (sample_col ''a'' TYPE_INT 4 0) OP_LT (set_int 7 fresh_value),
      sample_cond (sample_col ''b'' TYPE_STRING 4 4) OP_GE (set_str [97, 98] fresh_value)]"
  have "\<forall>c\<in>set ?cs. cond_wf c \<and> cond_clean c sample_record"
    by (simp add: sample_cond_def sample_col_def cond_wf_def cond_clean_def val_fits_def col_clean_def set_int_def set_str_def
        sample_record_def cell_def mem_read_def zero_padded_def)
  moreover have "\<forall>c\<in>set ?cs. cond_holds c sample_record"
    by (simp add: sample_cond_def sample_col_def cond_holds_def cell_rank_def cell_def value_rank.simps set_int_def set_str_def
        int_val_def sample_record_def mem_read_def get_int_def dec_int_def wrap32_def Let_def replicate_small)
  ultimately show ?thesis using conditions_correct [of ?cs sample_record] by simp
qed

text \<open>
  Comparing a \<^verbatim>\<open>CHAR\<close> column by \<^verbatim>\<open>>\<close> with a literal reads the literal's \<^verbatim>\<open>str_len\<close>, which nothing
  assigns: when the indeterminate value is 0, no record satisfies the condition, whatever it holds.
\<close>

theorem char_greater_unassigned:
  assumes "cd_op c = OP_GT" and "cd_rhs_type c = RHS_VALUE" and "v_type (cd_rhs_val c) = TYPE_STRING" and "v_str_len (cd_rhs_val c) = 0"
    and "cm_type (cd_lhs_match c) = TYPE_STRING" and "0 \<in> set (drop (nat (cm_offset (cd_lhs_match c))) rec)"
  shows "check_single_condition c rec = Inr False"
  using assms
  by (simp add: check_single_condition_def build_value_def check_condition_def value_greater_def value_less_def set_str_def strncmp_def Let_def)

theorem char_greater_unassigned_witness:
  "check_single_condition (sample_cond (sample_col ''b'' TYPE_STRING 4 4) OP_GT (set_str [97] fresh_value)) sample_record = Inr False \<and>
   cell_rank (sample_col ''b'' TYPE_STRING 4 4) sample_record > value_rank 4 (set_str [97] fresh_value)"
proof
  show "check_single_condition (sample_cond (sample_col ''b'' TYPE_STRING 4 4) OP_GT (set_str [97] fresh_value)) sample_record = Inr False"
    by (rule char_greater_unassigned) (simp_all add: sample_cond_def sample_col_def set_str_def fresh_value_def sample_record_def)
  show "cell_rank (sample_col ''b'' TYPE_STRING 4 4) sample_record > value_rank 4 (set_str [97] fresh_value)"
    by (simp add: sample_col_def cell_rank_def cell_def value_rank.simps set_str_def sample_record_def mem_read_def replicate_small)
qed

text \<open>
  A comparison between an \<^verbatim>\<open>INT\<close> and a \<^verbatim>\<open>FLOAT\<close> column passes the semantic analysis and fails on
  every record: the conversion is made for literals only.
\<close>

theorem mixed_columns_throw:
  assumes "cd_rhs_type c = RHS_COL" and "cm_type (cd_lhs_match c) = TYPE_INT" and "cm_type (cd_rhs_match c) = TYPE_FLOAT" and "cd_op c \<noteq> OP_IN"
  shows "\<exists>l r. check_single_condition c rec = Inl (IncompatibleTypeError l r)"
  using assms
  by (cases "cd_op c")
    (simp_all add: check_single_condition_def build_value_def check_condition_def value_eq_def value_ne_def value_less_def value_greater_def
      value_le_def value_ge_def type_error_def Let_def)

theorem mixed_columns_throw_witness:
  "\<exists>l r. check_single_condition ((sample_cond (sample_col ''a'' TYPE_INT 4 0) OP_EQ fresh_value)
     \<lparr>cd_rhs_type := RHS_COL, cd_rhs_match := sample_col ''c'' TYPE_FLOAT 4 8\<rparr>) sample_record = Inl (IncompatibleTypeError l r)"
  by (rule mixed_columns_throw) (simp_all add: sample_cond_def sample_col_def)

end
