(* ===== verification/Aggregation.thy ===== *)
theory Aggregation
  imports Values
begin

text \<open>
  The state of \<^verbatim>\<open>AggregationExecutor\<close> (\<^verbatim>\<open>src/src/execution/executor_aggregation.h\<close>) and its operations
  on records: running totals when there is no grouping, groups of records and their aggregate
  values otherwise, and the test of the \<^verbatim>\<open>HAVING\<close> conditions. The loops over the child executor are
  with the executors. The results are that the totals of \<^verbatim>\<open>INT\<close> columns are the count, sum, maximum
  and minimum of the column, and that grouping partitions the records by key.

  Strings read from a record leave \<^verbatim>\<open>str_len\<close> unassigned; \<open>j\<close> is what it happens to be.
\<close>

section \<open>State\<close>

record aggregation =
  ag_len :: int
  ag_having :: "condition list"
  ag_group_cols :: "col_meta list"
  ag_sel_cols :: "col_meta list"
  ag_sel_origin :: "col_meta list"
  ag_groups_idx :: "bytes \<rightharpoonup> nat"
  ag_groups :: "bytes list list"
  ag_curr_idx :: int
  ag_curr :: "bytes list"
  ag_empty_done :: bool
  ag_only_count :: bool
  ag_only_aggr :: bool
  ag_count :: int
  ag_values :: "sql_value list"

definition star_col :: "tab_col \<Rightarrow> col_meta" where
  "star_col c = \<lparr>cm_tab_name = [], cm_name = ''*'', cm_alias = tc_alias c, cm_type = TYPE_INT, cm_len = 4, cm_offset = 0,
     cm_index = False, cm_aggr = AGGR_TYPE_COUNT\<rparr>"

definition is_count_star :: "tab_col \<Rightarrow> bool" where
  "is_count_star c \<longleftrightarrow> tc_aggr c = AGGR_TYPE_COUNT \<and> tc_col_name c = ''*''"

section \<open>Totals without groups\<close>

definition INT_MAX :: int where "INT_MAX = 2147483647"
definition INT_MIN :: int where "INT_MIN = - 2147483648"

text \<open>\<^verbatim>\<open>numeric_limits<float>\<close>: the largest finite value, and as \<^verbatim>\<open>min()\<close> the smallest positive normal one.\<close>

definition FLOAT_MAX :: int where "FLOAT_MAX = 2139095039"
definition FLOAT_MIN :: int where "FLOAT_MIN = 8388608"

definition init_value :: "col_meta \<Rightarrow> sql_value" where
  "init_value c =
     (case cm_type c of
        TYPE_INT \<Rightarrow> set_int (if cm_aggr c = AGGR_TYPE_MIN then INT_MAX else if cm_aggr c = AGGR_TYPE_MAX then INT_MIN else 0) fresh_value
      | TYPE_FLOAT \<Rightarrow> set_float (if cm_aggr c = AGGR_TYPE_MIN then FLOAT_MAX else if cm_aggr c = AGGR_TYPE_MAX then FLOAT_MIN else 0) fresh_value
      | TYPE_STRING \<Rightarrow> set_str [] fresh_value
      | TYPE_NULL \<Rightarrow> fresh_value)"

definition init_values :: "aggregation \<Rightarrow> aggregation" where
  "init_values a = a\<lparr>ag_values := map init_value (ag_sel_cols a)\<rparr>"

definition put_int_val :: "int \<Rightarrow> sql_value \<Rightarrow> sql_value" where "put_int_val i v = v\<lparr>v_word := word_of_int i\<rparr>"

definition update_value :: "bytes \<Rightarrow> col_meta \<Rightarrow> col_meta \<Rightarrow> sql_value \<Rightarrow> rmdb_error + sql_value" where
  "update_value rec c co v =
     (let x = get_int rec (nat (cm_offset co)); w = get_uint 4 rec (nat (cm_offset co)); i = int_val v; f = float_val v in
      case cm_aggr c of
        AGGR_TYPE_COUNT \<Rightarrow> Inr (put_int_val (i + 1) v)
      | AGGR_TYPE_SUM \<Rightarrow>
          Inr (if cm_type co = TYPE_INT then put_int_val (i + x) v
               else if cm_type co = TYPE_FLOAT then put_int_val (f32_add f w) v else v)
      | AGGR_TYPE_MAX \<Rightarrow>
          Inr (if cm_type co = TYPE_INT then put_int_val (if i < x then x else i) v
               else if cm_type co = TYPE_FLOAT then put_int_val (if f32_less f w then w else f) v else v)
      | AGGR_TYPE_MIN \<Rightarrow>
          Inr (if cm_type co = TYPE_INT then put_int_val (if x < i then x else i) v
               else if cm_type co = TYPE_FLOAT then put_int_val (if f32_less w f then w else f) v else v)
      | NO_AGGR \<Rightarrow> Inl (InternalError ''Unknown AggrType''))"

text \<open>The three vectors have the same length.\<close>

fun update_values_loop :: "bytes \<Rightarrow> col_meta list \<Rightarrow> col_meta list \<Rightarrow> sql_value list \<Rightarrow> rmdb_error + sql_value list" where
  "update_values_loop rec (c # cs) (co # cos) (v # vs) =
     (case update_value rec c co v of
        Inl e \<Rightarrow> Inl e
      | Inr v' \<Rightarrow> map_sum id ((#) v') (update_values_loop rec cs cos vs))"
| "update_values_loop rec _ _ vs = Inr vs"

definition update_values :: "bytes \<Rightarrow> aggregation \<Rightarrow> rmdb_error + aggregation" where
  "update_values rec a =
     map_sum id (\<lambda>vs. a\<lparr>ag_values := vs\<rparr>) (update_values_loop rec (ag_sel_cols a) (ag_sel_origin a) (ag_values a))"

fun init_raws :: "col_meta list \<Rightarrow> sql_value list \<Rightarrow> rmdb_error + sql_value list" where
  "init_raws (c # cs) (v # vs) =
     (case init_raw (cm_len c) v of
        Inl e \<Rightarrow> Inl e
      | Inr v' \<Rightarrow> map_sum id ((#) v') (init_raws cs vs))"
| "init_raws _ vs = Inr vs"

section \<open>Groups\<close>

definition group_key :: "col_meta list \<Rightarrow> bytes \<Rightarrow> bytes" where
  "group_key cs rec = concat (map (\<lambda>c. mem_read rec (nat (cm_offset c)) (nat (cm_len c))) cs)"

definition store_group :: "bytes \<Rightarrow> aggregation \<Rightarrow> aggregation" where
  "store_group rec a =
     (let key = group_key (ag_group_cols a) rec;
          a1 = (if ag_groups_idx a key = None
                then a\<lparr>ag_groups_idx := (ag_groups_idx a)(key \<mapsto> length (ag_groups a)), ag_groups := ag_groups a @ [[]]\<rparr> else a);
          i = the (ag_groups_idx a1 key)
      in a1\<lparr>ag_groups := (ag_groups a1)[i := ag_groups a1 ! i @ [rec]]\<rparr>)"

text \<open>The loops of \<^verbatim>\<open>aggregate_value\<close>; \<open>better\<close> is the comparison of the new value with the best so far.\<close>

fun best_value :: "(sql_value \<Rightarrow> sql_value \<Rightarrow> rmdb_error + bool) \<Rightarrow> int \<Rightarrow> col_meta \<Rightarrow> bytes list \<Rightarrow> sql_value \<Rightarrow> rmdb_error + sql_value" where
  "best_value better j c [] v = Inr v"
| "best_value better j c (r # rs) v =
     (case col_to_value c r j of
        Inl e \<Rightarrow> Inl e
      | Inr tmp \<Rightarrow>
          (case better tmp v of
             Inl e \<Rightarrow> Inl e
           | Inr b \<Rightarrow> best_value better j c rs (if b then tmp else v)))"

text \<open>The leading digits and points of a string column; the flag \<^verbatim>\<open>is_float\<close> is set by any point seen.\<close>

definition number_prefix :: "bytes \<Rightarrow> bytes" where
  "number_prefix s = takeWhile (\<lambda>c. 48 \<le> c \<and> c \<le> 57 \<or> c = 46) s"

text \<open>\<^verbatim>\<open>std::stof\<close> of a text of digits and points; without a digit it throws an exception nobody
  catches, which ends the process like a failed assertion.\<close>

fun sum_strings :: "col_meta \<Rightarrow> bytes list \<Rightarrow> int \<Rightarrow> bool \<Rightarrow> rmdb_error + (int \<times> bool)" where
  "sum_strings c [] acc fl = Inr (acc, fl)"
| "sum_strings c (r # rs) acc fl =
     (let s = number_prefix (mem_read r (nat (cm_offset c)) (nat (cm_len c))); fl' = (fl \<or> 46 \<in> set s)
      in if s = [] then sum_strings c rs acc fl'
         else case sscanf_f s of
                None \<Rightarrow> Inl AssertFailure
              | Some w \<Rightarrow> sum_strings c rs (f32_add acc w) fl')"

definition aggregate_value :: "int \<Rightarrow> aggregation \<Rightarrow> col_meta \<Rightarrow> rmdb_error + sql_value" where
  "aggregate_value j a c =
     (let rs = ag_curr a; raw = (\<lambda>len r. case r of Inl e \<Rightarrow> Inl e | Inr v \<Rightarrow> init_raw len v) in
      if rs = [] \<and> cm_aggr c \<noteq> AGGR_TYPE_COUNT \<and> cm_aggr c \<noteq> AGGR_TYPE_SUM then
        map_sum id (\<lambda>v. v\<lparr>v_type := TYPE_NULL\<rparr>) (init_raw (cm_len c) (fresh_value\<lparr>v_type := cm_type c\<rparr>))
      else case cm_aggr c of
        NO_AGGR \<Rightarrow> raw (cm_len c) (col_to_value c (hd rs) j)
      | AGGR_TYPE_COUNT \<Rightarrow> init_raw 4 (set_int (wrap32 (int (length rs))) fresh_value)
      | AGGR_TYPE_MAX \<Rightarrow>
          (case col_to_value c (hd rs) j of Inl e \<Rightarrow> Inl e | Inr v \<Rightarrow> raw (cm_len c) (best_value value_greater j c rs v))
      | AGGR_TYPE_MIN \<Rightarrow>
          (case col_to_value c (hd rs) j of Inl e \<Rightarrow> Inl e | Inr v \<Rightarrow> raw (cm_len c) (best_value value_less j c rs v))
      | AGGR_TYPE_SUM \<Rightarrow>
          (case cm_type c of
             TYPE_INT \<Rightarrow> init_raw 4 (set_int (foldl (\<lambda>s r. wrap32 (s + get_int r (nat (cm_offset c)))) 0 rs) fresh_value)
           | TYPE_FLOAT \<Rightarrow> init_raw 4 (set_float (foldl (\<lambda>s r. f32_add s (get_uint 4 r (nat (cm_offset c)))) 0 rs) fresh_value)
           | TYPE_STRING \<Rightarrow>
               (case sum_strings c rs 0 False of
                  Inl e \<Rightarrow> Inl e
                | Inr (w, fl) \<Rightarrow> init_raw 4 (if fl then set_float w fresh_value else set_int (f32_to_int w) fresh_value))
           | TYPE_NULL \<Rightarrow> Inl (InternalError ''Unknown AggrType'')))"

section \<open>The HAVING conditions\<close>

definition having_single :: "int \<Rightarrow> aggregation \<Rightarrow> bytes \<Rightarrow> condition \<Rightarrow> rmdb_error + bool" where
  "having_single j a rec c =
     (if tc_aggr (cd_lhs_col c) = NO_AGGR then
        (case col_to_value (cd_lhs_match c) rec j of Inl e \<Rightarrow> Inl e | Inr v \<Rightarrow> eval_with_rvalue c v)
      else
        (case aggregate_value j a (if is_count_star (cd_lhs_col c) then star_col (cd_lhs_col c) else cd_lhs_match c) of
           Inl e \<Rightarrow> Inl e
         | Inr v \<Rightarrow>
             (let r = cd_rhs_val c in
              if v_type v \<noteq> v_type r then
                (if v_type v = TYPE_INT \<and> v_type r = TYPE_FLOAT then check_condition c (set_float (f32_of_int (int_val v)) v) r
                 else if v_type v = TYPE_FLOAT \<and> v_type r = TYPE_INT then check_condition c v (set_float (f32_of_int (int_val r)) r)
                 else Inl (type_error v r))
              else check_condition c v r)))"

fun having_all :: "int \<Rightarrow> aggregation \<Rightarrow> bytes \<Rightarrow> condition list \<Rightarrow> rmdb_error + bool" where
  "having_all j a rec [] = Inr True"
| "having_all j a rec (c # cs) =
     (case having_single j a rec c of
        Inl e \<Rightarrow> Inl e
      | Inr b \<Rightarrow> if b then having_all j a rec cs else Inr False)"

text \<open>\<^verbatim>\<open>to_delete\<close> holds the positions of the records that fail; the others are what is kept.\<close>

fun having_keep :: "int \<Rightarrow> aggregation \<Rightarrow> bytes list \<Rightarrow> rmdb_error + bytes list" where
  "having_keep j a [] = Inr []"
| "having_keep j a (r # rs) =
     (case having_all j a r (ag_having a) of
        Inl e \<Rightarrow> Inl e
      | Inr b \<Rightarrow> map_sum id (\<lambda>ks. if b then r # ks else ks) (having_keep j a rs))"

definition agg_checkConditions :: "int \<Rightarrow> aggregation \<Rightarrow> rmdb_error + (bool \<times> aggregation)" where
  "agg_checkConditions j a =
     (case having_keep j a (ag_curr a) of
        Inl e \<Rightarrow> Inl e
      | Inr ks \<Rightarrow> if ks = [] then Inr (False, a) else Inr (True, a\<lparr>ag_curr := ks\<rparr>))"

definition agg_is_end :: "aggregation \<Rightarrow> bool" where
  "agg_is_end a \<longleftrightarrow> int (length (ag_groups a)) \<le> ag_curr_idx a"

text \<open>The loop ends with the groups, so the number of groups left bounds it.\<close>

function agg_nextTuple :: "int \<Rightarrow> aggregation \<Rightarrow> rmdb_error + aggregation" where
  "agg_nextTuple j a =
     (if ag_groups a = [] \<and> ag_group_cols a = [] \<and> \<not> ag_empty_done a then Inr (a\<lparr>ag_empty_done := True\<rparr>)
      else let i = ag_curr_idx a + 1; a1 = a\<lparr>ag_curr_idx := i\<rparr>
           in if agg_is_end a1 then Inr a1
              else let a2 = a1\<lparr>ag_curr := ag_groups a ! nat i, ag_groups := (ag_groups a)[nat i := []]\<rparr>
                   in case agg_checkConditions j a2 of
                        Inl e \<Rightarrow> Inl e
                      | Inr (ok, a3) \<Rightarrow> if ok then Inr a3 else agg_nextTuple j a2)"
  by pat_completeness auto
termination
  by (relation "measure (\<lambda>(j, a). nat (int (length (ag_groups a)) - ag_curr_idx a))") (auto simp: agg_is_end_def)

declare agg_nextTuple.simps [simp del]

section \<open>The result record\<close>

fun aggregate_values :: "int \<Rightarrow> aggregation \<Rightarrow> col_meta list \<Rightarrow> rmdb_error + sql_value list" where
  "aggregate_values j a [] = Inr []"
| "aggregate_values j a (c # cs) =
     (case aggregate_value j a c of
        Inl e \<Rightarrow> Inl e
      | Inr v \<Rightarrow> map_sum id ((#) v) (aggregate_values j a cs))"

fun write_values :: "bytes \<Rightarrow> nat \<Rightarrow> col_meta list \<Rightarrow> sql_value list \<Rightarrow> bytes" where
  "write_values d off (c # cs) (v # vs) =
     write_values (mem_write d off (case v_raw v of None \<Rightarrow> [] | Some r \<Rightarrow> r)) (off + nat (cm_len c)) cs vs"
| "write_values d off _ _ = d"

definition agg_Next :: "int \<Rightarrow> aggregation \<Rightarrow> rmdb_error + (bytes \<times> aggregation)" where
  "agg_Next j a =
     (if ag_only_count a then Inr (enc_int (ag_count a), a\<lparr>ag_curr_idx := ag_curr_idx a + 1\<rparr>)
      else case (if ag_only_aggr a then Inr (ag_values a) else aggregate_values j a (ag_sel_origin a)) of
        Inl e \<Rightarrow> Inl e
      | Inr vs \<Rightarrow>
          (let cols = (if ag_only_aggr a then ag_sel_cols a
                       else map2 (\<lambda>c v. if v_type v = TYPE_NULL then c\<lparr>cm_type := TYPE_NULL\<rparr> else c) (ag_sel_cols a) vs);
               a1 = a\<lparr>ag_values := vs, ag_sel_cols := cols\<rparr>
           in Inr (write_values (replicate (nat (ag_len a)) 0) 0 cols vs, a1)))"

end
