(* ===== verification/Executors.thy ===== *)
theory Executors
  imports Tab_Reads Aggregation
begin

text \<open>
  The query executors (\<^verbatim>\<open>src/src/execution/executor_*.h\<close>): an operator tree whose nodes deliver records
  one at a time through \<^verbatim>\<open>beginTuple\<close>, \<^verbatim>\<open>nextTuple\<close>, \<^verbatim>\<open>is_end\<close> and \<^verbatim>\<open>Next\<close>. A node is a value of the
  datatype \<open>executor\<close>, its private fields a record; an operation returns the node in its new state
  and works on the system state of the transaction layer. \<open>t\<close> is the transaction of the context.

  The operations take fuel, for the loops over their input and the depth of the tree; running out
  of it is \<open>None\<close>. \<open>j\<close> is the indeterminate \<^verbatim>\<open>str_len\<close> of values that do not assign it.
\<close>

section \<open>Executors\<close>

record seq_scan =
  ss_tab :: string
  ss_fed_conds :: "condition list"
  ss_cols :: "col_meta list"
  ss_len :: int
  ss_rid :: rid
  ss_scan :: "rid option"

record col_range =
  cr_lower :: "sql_value option"
  cr_upper :: "sql_value option"
  cr_equal :: "(sql_value \<times> nat) option"

record index_scan =
  is_tab :: string
  is_fed_conds :: "condition list"
  is_cols :: "col_meta list"
  is_len :: int
  is_index_col_names :: "string list"
  is_meta :: index_meta
  is_rid :: rid
  is_scan :: "ix_scan option"
  is_equal_num :: nat
  is_ranges :: "col_range list"

record projection =
  pj_cols :: "col_meta list"
  pj_len :: int
  pj_sel_idxs :: "nat list"
  pj_sel_all :: bool

record nested_loop_join =
  nj_len :: int
  nj_cols :: "col_meta list"
  nj_conds :: "condition list"
  nj_isend :: bool

datatype executor =
    SeqScanExecutor seq_scan
  | IndexScanExecutor index_scan
  | ProjectionExecutor executor projection
  | NestedLoopJoinExecutor executor executor nested_loop_join
  | AggregationExecutor executor aggregation

primrec ex_cols :: "executor \<Rightarrow> col_meta list" where
  "ex_cols (SeqScanExecutor x) = ss_cols x"
| "ex_cols (IndexScanExecutor x) = is_cols x"
| "ex_cols (ProjectionExecutor p x) = pj_cols x"
| "ex_cols (NestedLoopJoinExecutor l r x) = nj_cols x"
| "ex_cols (AggregationExecutor p x) = ag_sel_cols x"

text \<open>\<^verbatim>\<open>AggregationExecutor\<close> does not override \<^verbatim>\<open>tupleLen\<close>.\<close>

primrec ex_len :: "executor \<Rightarrow> int" where
  "ex_len (SeqScanExecutor x) = ss_len x"
| "ex_len (IndexScanExecutor x) = is_len x"
| "ex_len (ProjectionExecutor p x) = pj_len x"
| "ex_len (NestedLoopJoinExecutor l r x) = nj_len x"
| "ex_len (AggregationExecutor p x) = 0"

text \<open>\<^verbatim>\<open>get_col\<close> returns an iterator: the position of the first match.\<close>

fun find_pos :: "('a \<Rightarrow> bool) \<Rightarrow> 'a list \<Rightarrow> nat option" where
  "find_pos P [] = None"
| "find_pos P (x # xs) = (if P x then Some 0 else map_option Suc (find_pos P xs))"

definition ex_get_col :: "col_meta list \<Rightarrow> tab_col \<Rightarrow> bool \<Rightarrow> rmdb_error + nat" where
  "ex_get_col cs c aggr =
     (case find_pos (\<lambda>m. cm_tab_name m = tc_tab_name c \<and> cm_name m = tc_col_name c \<and> (aggr \<longrightarrow> cm_aggr m = tc_aggr c)) cs of
        None \<Rightarrow> Inl (ColumnNotFoundError (tc_tab_name c @ ''.'' @ tc_col_name c))
      | Some i \<Rightarrow> Inr i)"

section \<open>Scanning a table\<close>

definition tm_fuel :: "'a tmm" where "tm_fuel = (\<lambda>s. None)"

text \<open>The loop of \<^verbatim>\<open>beginTuple\<close> and \<^verbatim>\<open>nextTuple\<close>: on to the first record that satisfies the conditions.\<close>

fun seq_seek :: "nat \<Rightarrow> txn_id \<Rightarrow> string \<Rightarrow> condition list \<Rightarrow> rid \<Rightarrow> rid tmm" where
  "seq_seek 0 t n cs r = tm_fuel"
| "seq_seek (Suc k) t n cs r =
     (if rm_scan_is_end r then tm_ret r
      else tm_bind (get_record_locked t n r) (\<lambda>rec.
           tm_bind (tm_lift (check_conditions cs rec)) (\<lambda>b.
             if b then tm_ret r else tm_bind (scan_next n r) (seq_seek k t n cs))))"

definition seq_at :: "seq_scan \<Rightarrow> rid \<Rightarrow> seq_scan" where
  "seq_at x r = x\<lparr>ss_scan := Some r, ss_rid := r\<rparr>"

definition seq_begin :: "nat \<Rightarrow> txn_id \<Rightarrow> seq_scan \<Rightarrow> seq_scan tmm" where
  "seq_begin k t x =
     tm_bind (scan_new (ss_tab x)) (\<lambda>r.
     tm_bind (seq_seek k t (ss_tab x) (ss_fed_conds x) r) (\<lambda>r'. tm_ret (seq_at x r')))"

definition seq_next :: "nat \<Rightarrow> txn_id \<Rightarrow> seq_scan \<Rightarrow> seq_scan tmm" where
  "seq_next k t x =
     (case ss_scan x of
        None \<Rightarrow> tm_throw TmCrash
      | Some r \<Rightarrow>
          tm_bind (scan_next (ss_tab x) r) (\<lambda>r.
          tm_bind (seq_seek k t (ss_tab x) (ss_fed_conds x) r) (\<lambda>r'. tm_ret (seq_at x r'))))"

section \<open>Scanning an index\<close>

text \<open>
  The bytes of a value in a column of the key. A string is copied over the cleared column without
  a test of its length, so a longer one runs into the next columns.
\<close>

definition put_key_col :: "bytes \<Rightarrow> nat \<Rightarrow> col_meta \<Rightarrow> sql_value \<Rightarrow> bytes" where
  "put_key_col key off c v =
     (case cm_type c of
        TYPE_INT \<Rightarrow> mem_write key off (enc_int (int_val v))
      | TYPE_FLOAT \<Rightarrow> mem_write key off (enc_int (float_val v))
      | TYPE_STRING \<Rightarrow> mem_write (mem_write key off (replicate (nat (cm_len c)) 0)) off (v_str v)
      | TYPE_NULL \<Rightarrow> key)"

fun build_equal_key :: "(col_meta \<times> col_range) list \<Rightarrow> bytes \<Rightarrow> nat \<Rightarrow> rmdb_error + (bytes \<times> nat)" where
  "build_equal_key [] key off = Inr (key, off)"
| "build_equal_key ((c, r) # xs) key off =
     (case cr_equal r of
        None \<Rightarrow> Inr (key, off)
      | Some (v, _) \<Rightarrow>
          (case value_cast (cm_type c) v of
             Inl e \<Rightarrow> Inl e
           | Inr v' \<Rightarrow> build_equal_key xs (put_key_col key off c v') (off + nat (cm_len c))))"

fun build_lower_key :: "col_meta list \<Rightarrow> bytes \<Rightarrow> nat \<Rightarrow> bytes" where
  "build_lower_key [] key off = key"
| "build_lower_key (c # cs) key off =
     build_lower_key cs
       (case cm_type c of
          TYPE_INT \<Rightarrow> mem_write key off (enc_int INT_MIN)
        | TYPE_FLOAT \<Rightarrow> mem_write key off (enc_int FLOAT_MIN)
        | TYPE_STRING \<Rightarrow> mem_write key off (replicate (nat (cm_len c)) 0)
        | TYPE_NULL \<Rightarrow> key) (off + nat (cm_len c))"

fun build_upper_key :: "col_meta list \<Rightarrow> bytes \<Rightarrow> nat \<Rightarrow> bytes" where
  "build_upper_key [] key off = key"
| "build_upper_key (c # cs) key off =
     build_upper_key cs
       (case cm_type c of
          TYPE_INT \<Rightarrow> mem_write key off (enc_int INT_MAX)
        | TYPE_FLOAT \<Rightarrow> mem_write key off (enc_int FLOAT_MAX)
        | TYPE_STRING \<Rightarrow> mem_write key off (replicate (nat (cm_len c)) 255)
        | TYPE_NULL \<Rightarrow> key) (off + nat (cm_len c))"

fun build_range_key :: "(col_range \<Rightarrow> sql_value option) \<Rightarrow> (col_meta \<times> col_range) list \<Rightarrow> bytes \<Rightarrow> nat \<Rightarrow> rmdb_error + bytes" where
  "build_range_key bound [] key off = Inr key"
| "build_range_key bound ((c, r) # xs) key off =
     (case bound r of
        None \<Rightarrow> Inr key
      | Some v \<Rightarrow>
          (case value_cast (cm_type c) v of
             Inl e \<Rightarrow> Inl e
           | Inr v' \<Rightarrow> build_range_key bound xs (put_key_col key off c v') (off + nat (cm_len c))))"

text \<open>The lower key of a scan, then the upper key in the same buffer. The buffer \<open>key0\<close> is not cleared.\<close>

definition scan_lower_key :: "bytes \<Rightarrow> index_scan \<Rightarrow> rmdb_error + (bytes \<times> nat)" where
  "scan_lower_key key0 x =
     (let cols = take (nat (im_col_num (is_meta x))) (im_cols (is_meta x)); m = is_equal_num x; xs = zip cols (is_ranges x) in
      case build_equal_key (take m xs) key0 0 of
        Inl e \<Rightarrow> Inl e
      | Inr (key, off) \<Rightarrow>
          map_sum id (\<lambda>lo. (lo, off)) (build_range_key cr_lower (drop m xs) (build_lower_key (drop m cols) key off) off))"

definition scan_upper_key :: "bytes \<Rightarrow> nat \<Rightarrow> index_scan \<Rightarrow> rmdb_error + bytes" where
  "scan_upper_key key off x =
     (let cols = take (nat (im_col_num (is_meta x))) (im_cols (is_meta x)); m = is_equal_num x; xs = zip cols (is_ranges x) in
      build_range_key cr_upper (drop m xs) (build_upper_key (drop m cols) key off) off)"

text \<open>The loop of \<^verbatim>\<open>beginTuple\<close> and \<^verbatim>\<open>nextTuple\<close>; \<open>rd\<close> is the member \<^verbatim>\<open>rid_\<close>, which keeps the last position seen.\<close>

fun ix_seek :: "nat \<Rightarrow> txn_id \<Rightarrow> string \<Rightarrow> string \<Rightarrow> condition list \<Rightarrow> ix_scan \<Rightarrow> rid \<Rightarrow> (ix_scan \<times> rid) tmm" where
  "ix_seek 0 t ixn n cs c rd = tm_fuel"
| "ix_seek (Suc k) t ixn n cs c rd =
     (if ix_scan_is_end c then tm_ret (c, rd)
      else tm_bind (on_index ixn (ix_scan_rid c)) (\<lambda>r.
           tm_bind (get_record_locked t n r) (\<lambda>rec.
           tm_bind (tm_lift (check_conditions cs rec)) (\<lambda>b.
             if b then tm_ret (c, r)
             else tm_bind (on_index ixn (ix_scan_next c)) (\<lambda>c'. ix_seek k t ixn n cs c' r)))))"

definition is_at :: "index_scan \<Rightarrow> ix_scan \<times> rid \<Rightarrow> index_scan" where
  "is_at x p = x\<lparr>is_scan := Some (fst p), is_rid := snd p\<rparr>"

definition is_index_name :: "index_scan \<Rightarrow> string" where
  "is_index_name x = get_index_name (is_tab x) (is_index_col_names x)"

definition is_begin :: "nat \<Rightarrow> bytes \<Rightarrow> txn_id \<Rightarrow> index_scan \<Rightarrow> index_scan tmm" where
  "is_begin k key0 t x =
     tm_bind (on_index (is_index_name x) (ix_ret ())) (\<lambda>_.
     tm_bind (tm_lift (scan_lower_key key0 x)) (\<lambda>(lo, off).
     tm_bind (on_index (is_index_name x) (ix_lower_bound k lo)) (\<lambda>lower.
     tm_bind (tm_lift (scan_upper_key lo off x)) (\<lambda>hi.
     tm_bind (on_index (is_index_name x) (ix_upper_bound k hi)) (\<lambda>upper.
     tm_bind (ix_seek k t (is_index_name x) (is_tab x) (is_fed_conds x) \<lparr>sc_iid = lower, sc_end = upper\<rparr> (is_rid x)) (\<lambda>p.
       tm_ret (is_at x p)))))))"

definition is_next :: "nat \<Rightarrow> txn_id \<Rightarrow> index_scan \<Rightarrow> index_scan tmm" where
  "is_next k t x =
     (case is_scan x of
        None \<Rightarrow> tm_throw TmCrash
      | Some c \<Rightarrow>
          tm_bind (on_index (is_index_name x) (ix_scan_next c)) (\<lambda>c'.
          tm_bind (ix_seek k t (is_index_name x) (is_tab x) (is_fed_conds x) c' (is_rid x)) (\<lambda>p. tm_ret (is_at x p))))"

section \<open>Projection and join\<close>

fun copy_cols :: "col_meta list \<Rightarrow> nat list \<Rightarrow> col_meta list \<Rightarrow> bytes \<Rightarrow> nat \<Rightarrow> bytes \<Rightarrow> bytes" where
  "copy_cols prev (i # is) (c # cs) rec off d =
     copy_cols prev is cs rec (off + nat (cm_len c)) (mem_write d off (mem_read rec (nat (cm_offset (prev ! i))) (nat (cm_len c))))"
| "copy_cols prev _ _ rec off d = d"

definition project :: "col_meta list \<Rightarrow> projection \<Rightarrow> bytes \<Rightarrow> bytes" where
  "project prev x rec =
     (if pj_sel_all x then rec else copy_cols prev (pj_sel_idxs x) (pj_cols x) rec 0 (replicate (nat (pj_len x)) 0))"

text \<open>A record of the left and one of the right child, one after the other.\<close>

definition join_record :: "executor \<Rightarrow> executor \<Rightarrow> bytes \<Rightarrow> bytes \<Rightarrow> bytes" where
  "join_record l r a b = mem_read a 0 (nat (ex_len l)) @ mem_read b 0 (nat (ex_len r))"

section \<open>The operator tree\<close>

text \<open>A scan that has not begun has a null \<^verbatim>\<open>scan_\<close>.\<close>

primrec ex_is_end :: "executor \<Rightarrow> bool tmm" where
  "ex_is_end (SeqScanExecutor x) = (case ss_scan x of None \<Rightarrow> tm_throw TmCrash | Some r \<Rightarrow> tm_ret (rm_scan_is_end r))"
| "ex_is_end (IndexScanExecutor x) = (case is_scan x of None \<Rightarrow> tm_throw TmCrash | Some c \<Rightarrow> tm_ret (ix_scan_is_end c))"
| "ex_is_end (ProjectionExecutor p x) = ex_is_end p"
| "ex_is_end (NestedLoopJoinExecutor l r x) = tm_ret (nj_isend x)"
| "ex_is_end (AggregationExecutor p x) = tm_ret (agg_is_end x)"

primrec ex_Next :: "int \<Rightarrow> txn_id \<Rightarrow> executor \<Rightarrow> (bytes \<times> executor) tmm" where
  "ex_Next j t (SeqScanExecutor x) = tm_bind (get_record_locked t (ss_tab x) (ss_rid x)) (\<lambda>b. tm_ret (b, SeqScanExecutor x))"
| "ex_Next j t (IndexScanExecutor x) = tm_bind (get_record_locked t (is_tab x) (is_rid x)) (\<lambda>b. tm_ret (b, IndexScanExecutor x))"
| "ex_Next j t (ProjectionExecutor p x) =
     tm_bind (ex_Next j t p) (\<lambda>(b, p'). tm_ret (project (ex_cols p') x b, ProjectionExecutor p' x))"
| "ex_Next j t (NestedLoopJoinExecutor l r x) =
     tm_bind (ex_Next j t l) (\<lambda>(a, l'). tm_bind (ex_Next j t r) (\<lambda>(b, r').
       tm_ret (join_record l' r' a b, NestedLoopJoinExecutor l' r' x)))"
| "ex_Next j t (AggregationExecutor p x) = tm_bind (tm_lift (agg_Next j x)) (\<lambda>(b, x'). tm_ret (b, AggregationExecutor p x'))"

text \<open>
  \<^verbatim>\<open>get_count\<close>: the number of records without looking at them, or -1. The class of a join inherits
  the -1 of \<^verbatim>\<open>AbstractExecutor\<close>, and so does the aggregation.
\<close>

primrec ex_get_count :: "txn_id \<Rightarrow> executor \<Rightarrow> int tmm" where
  "ex_get_count t (SeqScanExecutor x) = (if ss_fed_conds x \<noteq> [] then tm_ret (- 1) else get_record_count_locked t (ss_tab x))"
| "ex_get_count t (IndexScanExecutor x) = (if is_fed_conds x \<noteq> [] then tm_ret (- 1) else get_record_count_locked t (is_tab x))"
| "ex_get_count t (ProjectionExecutor p x) = ex_get_count t p"
| "ex_get_count t (NestedLoopJoinExecutor l r x) = tm_ret (- 1)"
| "ex_get_count t (AggregationExecutor p x) = tm_ret (- 1)"

text \<open>
  The inner loop of a join: through the right child until a pair satisfies the conditions. The
  children's operations are arguments; the result tells whether a pair was found.
\<close>

fun join_inner :: "nat \<Rightarrow> (executor \<Rightarrow> (bytes \<times> executor) tmm) \<Rightarrow> (executor \<Rightarrow> executor tmm) \<Rightarrow> condition list \<Rightarrow>
    executor \<Rightarrow> executor \<Rightarrow> (bool \<times> executor \<times> executor) tmm" where
  "join_inner 0 nx adv cs l r = tm_fuel"
| "join_inner (Suc k) nx adv cs l r =
     tm_bind (ex_is_end r) (\<lambda>e.
       if e then tm_ret (False, l, r)
       else tm_bind (nx l) (\<lambda>(a, l). tm_bind (nx r) (\<lambda>(b, r).
            tm_bind (tm_lift (check_conditions cs (join_record l r a b))) (\<lambda>ok.
              if ok then tm_ret (True, l, r)
              else tm_bind (adv r) (\<lambda>r. join_inner k nx adv cs l r)))))"

text \<open>The outer loops of \<^verbatim>\<open>beginTuple\<close> and \<^verbatim>\<open>nextTuple\<close>; the flag is the new \<^verbatim>\<open>isend\<close>.\<close>

fun join_begin_loop :: "nat \<Rightarrow> (executor \<Rightarrow> (bytes \<times> executor) tmm) \<Rightarrow> (executor \<Rightarrow> executor tmm) \<Rightarrow> (executor \<Rightarrow> executor tmm) \<Rightarrow>
    condition list \<Rightarrow> executor \<Rightarrow> executor \<Rightarrow> (bool \<times> executor \<times> executor) tmm" where
  "join_begin_loop 0 nx bg adv cs l r = tm_fuel"
| "join_begin_loop (Suc k) nx bg adv cs l r =
     tm_bind (ex_is_end l) (\<lambda>e.
       if e then tm_ret (True, l, r)
       else tm_bind (bg r) (\<lambda>r. tm_bind (join_inner (Suc k) nx adv cs l r) (\<lambda>(found, l, r).
              if found then tm_ret (False, l, r)
              else tm_bind (adv l) (\<lambda>l. join_begin_loop k nx bg adv cs l r))))"

fun join_next_loop :: "nat \<Rightarrow> (executor \<Rightarrow> (bytes \<times> executor) tmm) \<Rightarrow> (executor \<Rightarrow> executor tmm) \<Rightarrow> (executor \<Rightarrow> executor tmm) \<Rightarrow>
    condition list \<Rightarrow> executor \<Rightarrow> executor \<Rightarrow> (bool \<times> executor \<times> executor) tmm" where
  "join_next_loop 0 nx bg adv cs l r = tm_fuel"
| "join_next_loop (Suc k) nx bg adv cs l r =
     tm_bind (ex_is_end l) (\<lambda>e.
       if e then tm_ret (True, l, r)
       else tm_bind (join_inner (Suc k) nx adv cs l r) (\<lambda>(found, l, r).
              if found then tm_ret (False, l, r)
              else tm_bind (adv l) (\<lambda>l. tm_bind (bg r) (\<lambda>r. join_next_loop k nx bg adv cs l r))))"

text \<open>
  The loop every client runs over an executor, \<^verbatim>\<open>for (e->beginTuple(); !e->is_end(); e->nextTuple())\<close>,
  after \<^verbatim>\<open>beginTuple\<close>: \<open>body\<close> works on the executor and an accumulator.
\<close>

fun drain :: "nat \<Rightarrow> ('e \<Rightarrow> bool tmm) \<Rightarrow> ('e \<Rightarrow> 'e tmm) \<Rightarrow> ('e \<Rightarrow> 'a \<Rightarrow> ('e \<times> 'a) tmm) \<Rightarrow> 'e \<Rightarrow> 'a \<Rightarrow> ('e \<times> 'a) tmm" where
  "drain 0 isend adv body e acc = tm_fuel"
| "drain (Suc k) isend adv body e acc =
     tm_bind (isend e) (\<lambda>b.
       if b then tm_ret (e, acc)
       else tm_bind (body e acc) (\<lambda>(e, acc). tm_bind (adv e) (\<lambda>e. drain k isend adv body e acc)))"

text \<open>The bodies of the two loops of \<^verbatim>\<open>AggregationExecutor::beginTuple\<close>.\<close>

definition agg_body :: "int \<Rightarrow> txn_id \<Rightarrow> executor \<Rightarrow> aggregation \<Rightarrow> (executor \<times> aggregation) tmm" where
  "agg_body j t p x =
     tm_bind (ex_Next j t p) (\<lambda>(b, p').
       if ag_group_cols x = [] then tm_bind (tm_lift (update_values b x)) (\<lambda>x'. tm_ret (p', x'))
       else tm_ret (p', store_group b x))"

definition agg_finish :: "int \<Rightarrow> aggregation \<Rightarrow> rmdb_error + aggregation" where
  "agg_finish j x =
     (case (if ag_group_cols x = [] then map_sum id (\<lambda>vs. x\<lparr>ag_values := vs\<rparr>) (init_raws (ag_sel_cols x) (ag_values x)) else Inr x) of
        Inl e \<Rightarrow> Inl e
      | Inr x \<Rightarrow> agg_nextTuple j x)"

fun ex_begin :: "nat \<Rightarrow> int \<Rightarrow> bytes \<Rightarrow> txn_id \<Rightarrow> executor \<Rightarrow> executor tmm"
  and ex_next :: "nat \<Rightarrow> int \<Rightarrow> bytes \<Rightarrow> txn_id \<Rightarrow> executor \<Rightarrow> executor tmm" where
  "ex_begin 0 j key0 t e = tm_fuel"
| "ex_begin (Suc k) j key0 t (SeqScanExecutor x) = tm_bind (seq_begin k t x) (\<lambda>x. tm_ret (SeqScanExecutor x))"
| "ex_begin (Suc k) j key0 t (IndexScanExecutor x) = tm_bind (is_begin k key0 t x) (\<lambda>x. tm_ret (IndexScanExecutor x))"
| "ex_begin (Suc k) j key0 t (ProjectionExecutor p x) = tm_bind (ex_begin k j key0 t p) (\<lambda>p. tm_ret (ProjectionExecutor p x))"
| "ex_begin (Suc k) j key0 t (NestedLoopJoinExecutor l r x) =
     tm_bind (ex_begin k j key0 t l) (\<lambda>l.
     tm_bind (join_begin_loop k (ex_Next j t) (\<lambda>e. ex_begin k j key0 t e) (\<lambda>e. ex_next k j key0 t e) (nj_conds x) l r) (\<lambda>(e, l, r).
       tm_ret (NestedLoopJoinExecutor l r (x\<lparr>nj_isend := e\<rparr>))))"
| "ex_begin (Suc k) j key0 t (AggregationExecutor p x) =
     tm_bind (if ag_only_count x then ex_get_count t p else tm_ret (ag_count x)) (\<lambda>c.
       let x1 = x\<lparr>ag_count := c\<rparr> in
       if c \<noteq> - 1 then tm_ret (AggregationExecutor p x1)
       else let x2 = x1\<lparr>ag_only_count := False\<rparr>; x3 = (if ag_group_cols x2 = [] then init_values x2 else x2)
            in tm_bind (ex_begin k j key0 t p) (\<lambda>p.
               tm_bind (drain k ex_is_end (\<lambda>e. ex_next k j key0 t e) (agg_body j t) p x3) (\<lambda>(p, x4).
               tm_bind (tm_lift (agg_finish j x4)) (\<lambda>x5. tm_ret (AggregationExecutor p x5)))))"
| "ex_next 0 j key0 t e = tm_fuel"
| "ex_next (Suc k) j key0 t (SeqScanExecutor x) = tm_bind (seq_next k t x) (\<lambda>x. tm_ret (SeqScanExecutor x))"
| "ex_next (Suc k) j key0 t (IndexScanExecutor x) = tm_bind (is_next k t x) (\<lambda>x. tm_ret (IndexScanExecutor x))"
| "ex_next (Suc k) j key0 t (ProjectionExecutor p x) = tm_bind (ex_next k j key0 t p) (\<lambda>p. tm_ret (ProjectionExecutor p x))"
| "ex_next (Suc k) j key0 t (NestedLoopJoinExecutor l r x) =
     tm_bind (ex_next k j key0 t r) (\<lambda>r.
     tm_bind (join_next_loop k (ex_Next j t) (\<lambda>e. ex_begin k j key0 t e) (\<lambda>e. ex_next k j key0 t e) (nj_conds x) l r) (\<lambda>(e, l, r).
       tm_ret (NestedLoopJoinExecutor l r (x\<lparr>nj_isend := nj_isend x \<or> e\<rparr>))))"
| "ex_next (Suc k) j key0 t (AggregationExecutor p x) =
     tm_bind (tm_lift (agg_nextTuple j x)) (\<lambda>x. tm_ret (AggregationExecutor p x))"

text \<open>The records an executor delivers, and the identifiers under which it finds them (\<^verbatim>\<open>rid()\<close>).\<close>

primrec ex_rid :: "executor \<Rightarrow> rid" where
  "ex_rid (SeqScanExecutor x) = ss_rid x"
| "ex_rid (IndexScanExecutor x) = is_rid x"
| "ex_rid (ProjectionExecutor p x) = mk_rid 0 0"
| "ex_rid (NestedLoopJoinExecutor l r x) = mk_rid 0 0"
| "ex_rid (AggregationExecutor p x) = mk_rid 0 0"

definition run_select :: "nat \<Rightarrow> int \<Rightarrow> bytes \<Rightarrow> txn_id \<Rightarrow> executor \<Rightarrow> bytes list tmm" where
  "run_select k j key0 t e =
     tm_bind (ex_begin k j key0 t e) (\<lambda>e.
     tm_bind (drain k ex_is_end (ex_next k j key0 t)
       (\<lambda>e acc. tm_bind (ex_Next j t e) (\<lambda>(b, e). tm_ret (e, acc @ [b]))) e []) (\<lambda>(e, rows). tm_ret rows))"

definition collect_rids :: "nat \<Rightarrow> int \<Rightarrow> bytes \<Rightarrow> txn_id \<Rightarrow> executor \<Rightarrow> rid list tmm" where
  "collect_rids k j key0 t e =
     tm_bind (ex_begin k j key0 t e) (\<lambda>e.
     tm_bind (drain k ex_is_end (ex_next k j key0 t) (\<lambda>e acc. tm_ret (e, acc @ [ex_rid e])) e []) (\<lambda>(e, rids). tm_ret rids))"

end
