(* ===== verification/Portal.thy ===== *)
theory Portal
  imports Executors
begin

text \<open>
  From a plan to an operator tree (\<^verbatim>\<open>src/src/portal.h\<close> and the constructors of the executors): columns are
  looked up, literals are converted to the type of their column, subqueries are run and replaced by
  their values, and the columns of projections and joins get their new offsets.

  The results: a column of a projection or of a join reads from the new record what its original
  reads from the record it comes from.
\<close>

section \<open>Conditions\<close>

text \<open>The value of the first column of a subquery's record, written into \<open>v\<close>.\<close>

definition sub_value :: "col_meta \<Rightarrow> bytes \<Rightarrow> sql_value \<Rightarrow> sql_value" where
  "sub_value c rec v =
     (case cm_type c of
        TYPE_INT \<Rightarrow> set_int (get_int rec 0) v
      | TYPE_FLOAT \<Rightarrow> set_float (get_uint 4 rec 0) v
      | TYPE_STRING \<Rightarrow> set_str (mem_read rec 0 (nat (cm_len c))) v
      | TYPE_NULL \<Rightarrow> v)"

definition only_col :: "executor \<Rightarrow> col_meta tmm" where
  "only_col e = (case ex_cols e of [c] \<Rightarrow> tm_ret c | _ \<Rightarrow> tm_throw (TmError AssertFailure))"

text \<open>A condition comes with the root of its subquery, if it has one; a missing root is a null pointer.\<close>

definition execute_sub_query :: "nat \<Rightarrow> int \<Rightarrow> bytes \<Rightarrow> txn_id \<Rightarrow> condition \<times> executor option \<Rightarrow> condition tmm" where
  "execute_sub_query k j key0 t = (\<lambda>(c, root).
     if \<not> cd_is_rhs_select c then tm_ret c
     else case root of
       None \<Rightarrow> tm_throw TmCrash
     | Some e \<Rightarrow>
         if cd_op c \<noteq> OP_IN then
           tm_bind (ex_begin k j key0 t e) (\<lambda>e.
           tm_bind (ex_Next j t e) (\<lambda>(rec, e).
           tm_bind (ex_next k j key0 t e) (\<lambda>e.
           tm_bind (ex_is_end e) (\<lambda>b.
             if \<not> b then tm_throw (TmError (InternalError ''Subquery returns more than one row''))
             else tm_bind (only_col e) (\<lambda>m.
               tm_ret (c\<lparr>cd_rhs_val := sub_value m rec (cd_rhs_val c), cd_is_rhs_select := False, cd_is_rhs_val := True, cd_rhs_type := RHS_VALUE\<rparr>))))))
         else
           tm_bind (ex_begin k j key0 t e) (\<lambda>e.
           tm_bind (drain k ex_is_end (ex_next k j key0 t) (\<lambda>e vs.
             tm_bind (ex_Next j t e) (\<lambda>(rec, e).
             tm_bind (only_col e) (\<lambda>m.
             tm_bind (tm_lift (vset_insert (sub_value m rec fresh_value) vs)) (\<lambda>vs. tm_ret (e, vs))))) e (cd_rhs_set c)) (\<lambda>(e, vs).
             tm_ret (c\<lparr>cd_rhs_set := vs, cd_rhs_type := RHS_SET\<rparr>))))"

text \<open>The columns a condition compares, and the conversion of its literal.\<close>

definition match_cond :: "col_meta list \<Rightarrow> condition \<Rightarrow> rmdb_error + condition" where
  "match_cond cs c =
     (case ex_get_col cs (cd_lhs_col c) False of
        Inl e \<Rightarrow> Inl e
      | Inr i \<Rightarrow>
          (let c1 = c\<lparr>cd_lhs_match := cs ! i\<rparr> in
           case cd_rhs_type c of
             RHS_COL \<Rightarrow> map_sum id (\<lambda>i. c1\<lparr>cd_rhs_match := cs ! i\<rparr>) (ex_get_col cs (cd_rhs_col c) False)
           | RHS_VALUE \<Rightarrow> map_sum id (\<lambda>v. c1\<lparr>cd_rhs_val := v\<rparr>) (value_cast (cm_type (cs ! i)) (cd_rhs_val c))
           | _ \<Rightarrow> Inr c1))"

fun feed_conds :: "('c \<Rightarrow> condition tmm) \<Rightarrow> col_meta list \<Rightarrow> 'c list \<Rightarrow> condition list tmm" where
  "feed_conds sub cs [] = tm_ret []"
| "feed_conds sub cs (c # conds) =
     tm_bind (sub c) (\<lambda>c.
     tm_bind (tm_lift (match_cond cs c)) (\<lambda>c.
     tm_bind (feed_conds sub cs conds) (\<lambda>fed. tm_ret (c # fed))))"

section \<open>Constructors\<close>

text \<open>The metadata and the open file of a table.\<close>

definition open_tab :: "string \<Rightarrow> tab_meta tmm" where
  "open_tab n =
     (\<lambda>s. tm_bind (tm_lift (get_table (sys_meta s) n)) (\<lambda>tab s.
       if fhs (sys_db s) n = None then Some (Inl TmOutOfRange, s) else Some (Inr tab, s)) s)"

definition tab_len :: "col_meta list \<Rightarrow> int" where
  "tab_len cs = cm_offset (last cs) + cm_len (last cs)"

definition new_seq_scan :: "nat \<Rightarrow> int \<Rightarrow> bytes \<Rightarrow> txn_id \<Rightarrow> string \<Rightarrow> (condition \<times> executor option) list \<Rightarrow> executor tmm" where
  "new_seq_scan k j key0 t n conds =
     tm_bind (open_tab n) (\<lambda>tab.
     tm_bind (feed_conds (execute_sub_query k j key0 t) (tm_cols tab) conds) (\<lambda>fed.
       tm_ret (SeqScanExecutor \<lparr>ss_tab = n, ss_fed_conds = fed, ss_cols = tm_cols tab, ss_len = tab_len (tm_cols tab),
         ss_rid = mk_rid 0 0, ss_scan = None\<rparr>)))"

definition swap_op :: "comp_op \<Rightarrow> comp_op option" where
  "swap_op p = (case p of OP_EQ \<Rightarrow> Some OP_EQ | OP_NE \<Rightarrow> Some OP_NE | OP_LT \<Rightarrow> Some OP_GT | OP_GT \<Rightarrow> Some OP_LT
     | OP_LE \<Rightarrow> Some OP_GE | OP_GE \<Rightarrow> Some OP_LE | OP_IN \<Rightarrow> None)"

text \<open>The column of the scanned table to the left. An assertion fails when neither side is of the table.\<close>

definition orient_cond :: "string \<Rightarrow> condition \<Rightarrow> tm_error + condition" where
  "orient_cond n c =
     (if tc_tab_name (cd_lhs_col c) = n then Inr c
      else if cd_is_rhs_val c \<or> tc_tab_name (cd_rhs_col c) \<noteq> n then Inl (TmError AssertFailure)
      else case swap_op (cd_op c) of
             None \<Rightarrow> Inl TmOutOfRange
           | Some p \<Rightarrow> Inr (c\<lparr>cd_lhs_col := cd_rhs_col c, cd_rhs_col := cd_lhs_col c, cd_op := p\<rparr>))"

definition no_range :: col_range where
  "no_range = \<lparr>cr_lower = None, cr_upper = None, cr_equal = None\<rparr>"

text \<open>The last of several columns of the same name counts (\<^verbatim>\<open>col_name_to_index\<close>); \<open>i\<close> is the number of the condition.\<close>

definition last_pos :: "col_meta list \<Rightarrow> string \<Rightarrow> nat option" where
  "last_pos cs n = map_option (\<lambda>p. length cs - 1 - p) (find_pos (\<lambda>c. cm_name c = n) (rev cs))"

definition add_range :: "col_meta list \<Rightarrow> nat \<Rightarrow> condition \<Rightarrow> col_range list \<Rightarrow> col_range list" where
  "add_range cs i c rs =
     (case last_pos cs (tc_col_name (cd_lhs_col c)) of
        None \<Rightarrow> rs
      | Some p \<Rightarrow>
          if \<not> cd_is_rhs_val c then rs
          else let r = rs ! p; v = cd_rhs_val c in
            rs[p := (if cd_op c \<in> {OP_GT, OP_GE} then r\<lparr>cr_lower := Some v\<rparr>
                     else if cd_op c \<in> {OP_LT, OP_LE} then r\<lparr>cr_upper := Some v\<rparr>
                     else if cd_op c = OP_EQ then r\<lparr>cr_equal := Some (v, i)\<rparr> else r)])"

fun index_ranges :: "string \<Rightarrow> col_meta list \<Rightarrow> nat \<Rightarrow> (condition \<times> 'p) list \<Rightarrow> col_range list \<Rightarrow> tm_error + ((condition \<times> 'p) list \<times> col_range list)" where
  "index_ranges n cs i [] rs = Inr ([], rs)"
| "index_ranges n cs i ((c, p) # conds) rs =
     (case orient_cond n c of
        Inl e \<Rightarrow> Inl e
      | Inr c \<Rightarrow> map_sum id (\<lambda>(conds, rs). ((c, p) # conds, rs)) (index_ranges n cs (Suc i) conds (add_range cs i c rs)))"

text \<open>The leading columns with an equality make the key; their conditions are not tested again.\<close>

definition equal_prefix :: "col_range list \<Rightarrow> nat list" where
  "equal_prefix rs = map (\<lambda>r. snd (the (cr_equal r))) (takeWhile (\<lambda>r. cr_equal r \<noteq> None) rs)"

definition unused_conds :: "nat list \<Rightarrow> 'c list \<Rightarrow> 'c list" where
  "unused_conds is conds = map snd (filter (\<lambda>(i, c). i \<notin> set is) (enumerate 0 conds))"

definition new_index_scan :: "nat \<Rightarrow> int \<Rightarrow> bytes \<Rightarrow> txn_id \<Rightarrow> string \<Rightarrow> (condition \<times> executor option) list \<Rightarrow> string list \<Rightarrow> executor tmm" where
  "new_index_scan k j key0 t n conds ixns =
     tm_bind (\<lambda>s. tm_lift (get_table (sys_meta s) n) s) (\<lambda>tab.
     tm_bind (tm_lift (get_index_meta tab ixns)) (\<lambda>i.
     tm_bind (open_tab n) (\<lambda>_.
       let ix = tm_indexes tab ! i; cs = take (nat (im_col_num ix)) (im_cols ix) in
       case index_ranges n cs 0 conds (replicate (nat (im_col_num ix)) no_range) of
         Inl e \<Rightarrow> tm_throw e
       | Inr (conds, rs) \<Rightarrow>
           tm_bind (feed_conds (execute_sub_query k j key0 t) (tm_cols tab) (unused_conds (equal_prefix rs) conds)) (\<lambda>fed.
             tm_ret (IndexScanExecutor \<lparr>is_tab = n, is_fed_conds = fed, is_cols = tm_cols tab, is_len = tab_len (tm_cols tab),
               is_index_col_names = ixns, is_meta = ix, is_rid = mk_rid 0 0, is_scan = None, is_equal_num = length (equal_prefix rs), is_ranges = rs\<rparr>)))))"

fun sel_positions :: "col_meta list \<Rightarrow> bool \<Rightarrow> tab_col list \<Rightarrow> rmdb_error + nat list" where
  "sel_positions prev aggr [] = Inr []"
| "sel_positions prev aggr (c # cs) =
     (case ex_get_col prev c aggr of
        Inl e \<Rightarrow> Inl e
      | Inr i \<Rightarrow> map_sum id ((#) i) (sel_positions prev aggr cs))"

text \<open>The columns one after the other from \<open>off\<close> on.\<close>

fun place_cols :: "int \<Rightarrow> col_meta list \<Rightarrow> col_meta list" where
  "place_cols off [] = []"
| "place_cols off (c # cs) = c\<lparr>cm_offset := off\<rparr> # place_cols (off + cm_len c) cs"

definition new_projection :: "executor \<Rightarrow> tab_col list \<Rightarrow> rmdb_error + executor" where
  "new_projection p sel =
     (case sel_positions (ex_cols p) True sel of
        Inl e \<Rightarrow> Inl e
      | Inr is \<Rightarrow>
          (let cs = map (\<lambda>i. ex_cols p ! i) is in
           Inr (ProjectionExecutor p \<lparr>pj_cols = place_cols 0 cs, pj_len = sum_list (map cm_len cs), pj_sel_idxs = is,
             pj_sel_all = (length sel = length (ex_cols p) \<and> is = [0..<length is])\<rparr>)))"

definition shift_col :: "int \<Rightarrow> col_meta \<Rightarrow> col_meta" where
  "shift_col n c = c\<lparr>cm_offset := cm_offset c + n\<rparr>"

definition join_cols :: "executor \<Rightarrow> executor \<Rightarrow> col_meta list" where
  "join_cols l r = ex_cols l @ map (shift_col (ex_len l)) (ex_cols r)"

definition new_join :: "executor \<Rightarrow> executor \<Rightarrow> condition list \<Rightarrow> executor tmm" where
  "new_join l r conds =
     tm_bind (feed_conds tm_ret (join_cols l r) conds) (\<lambda>fed.
       tm_ret (NestedLoopJoinExecutor l r \<lparr>nj_len = ex_len l + ex_len r, nj_cols = join_cols l r, nj_conds = fed, nj_isend = False\<rparr>))"

text \<open>The original and the result column of a selected column.\<close>

definition agg_origin :: "col_meta list \<Rightarrow> tab_col \<Rightarrow> rmdb_error + col_meta" where
  "agg_origin prev c =
     (if is_count_star c then Inr (star_col c)
      else map_sum id (\<lambda>i. (prev ! i)\<lparr>cm_aggr := tc_aggr c\<rparr>) (ex_get_col prev c False))"

definition agg_result :: "col_meta \<Rightarrow> col_meta" where
  "agg_result c =
     (if cm_aggr c = AGGR_TYPE_COUNT \<or> cm_aggr c = AGGR_TYPE_SUM \<and> cm_type c = TYPE_STRING then c\<lparr>cm_type := TYPE_INT, cm_len := 4\<rparr> else c)"

fun map_err :: "('a \<Rightarrow> rmdb_error + 'b) \<Rightarrow> 'a list \<Rightarrow> rmdb_error + 'b list" where
  "map_err f [] = Inr []"
| "map_err f (x # xs) = (case f x of Inl e \<Rightarrow> Inl e | Inr y \<Rightarrow> map_sum id ((#) y) (map_err f xs))"

fun having_conds :: "(condition \<times> executor option \<Rightarrow> condition tmm) \<Rightarrow> col_meta list \<Rightarrow> (condition \<times> executor option) list \<Rightarrow> condition list tmm" where
  "having_conds sub cs [] = tm_ret []"
| "having_conds sub cs (c # conds) =
     tm_bind (sub c) (\<lambda>c.
     tm_bind (if is_count_star (cd_lhs_col c) then tm_ret c
              else tm_bind (tm_lift (ex_get_col cs (cd_lhs_col c) True)) (\<lambda>i. tm_ret (c\<lparr>cd_lhs_match := cs ! i\<rparr>))) (\<lambda>c.
     tm_bind (having_conds sub cs conds) (\<lambda>fed. tm_ret (c # fed))))"

definition new_aggregation :: "nat \<Rightarrow> int \<Rightarrow> bytes \<Rightarrow> txn_id \<Rightarrow> executor \<Rightarrow> tab_col list \<Rightarrow> tab_col list \<Rightarrow> (condition \<times> executor option) list \<Rightarrow> executor tmm" where
  "new_aggregation k j key0 t p sel grp having =
     tm_bind (tm_lift (sel_positions (ex_cols p) False grp)) (\<lambda>gs.
     tm_bind (tm_lift (map_err (agg_origin (ex_cols p)) sel)) (\<lambda>orig.
     tm_bind (having_conds (execute_sub_query k j key0 t) orig having) (\<lambda>hv.
       let cols = map agg_result orig in
       tm_ret (AggregationExecutor p \<lparr>ag_len = sum_list (map cm_len cols), ag_having = hv, ag_group_cols = map (\<lambda>i. ex_cols p ! i) gs,
         ag_sel_cols = place_cols 0 cols, ag_sel_origin = orig, ag_groups_idx = Map.empty, ag_groups = [], ag_curr_idx = - 1, ag_curr = [],
         ag_empty_done = False, ag_only_count = (case sel of [c] \<Rightarrow> is_count_star c | _ \<Rightarrow> False),
         ag_only_aggr = (list_all (\<lambda>c. is_count_star c \<or> tc_aggr c \<noteq> NO_AGGR) sel \<and> grp = []), ag_count = - 1, ag_values = []\<rparr>))))"

section \<open>Plans\<close>

datatype scan_tag = T_SeqScan | T_IndexScan

text \<open>A plan whose conditions carry the projection plan of their subquery.\<close>

datatype plan =
    ScanPlan scan_tag string "(condition \<times> plan option) list" "string list"
  | JoinPlan plan plan "condition list"
  | ProjectionPlan plan "tab_col list"
  | AggregationPlan plan "tab_col list" "tab_col list" "(condition \<times> plan option) list"

fun start_sub_plans :: "(plan \<Rightarrow> executor tmm) \<Rightarrow> (condition \<times> plan option) list \<Rightarrow> (condition \<times> executor option) list tmm" where
  "start_sub_plans conv [] = tm_ret []"
| "start_sub_plans conv ((c, p) # conds) =
     tm_bind (if \<not> cd_is_rhs_select c then tm_ret None
              else case p of
                     None \<Rightarrow> tm_throw (TmError (InternalError ''Unexpected field type''))
                   | Some q \<Rightarrow> tm_bind (conv q) (\<lambda>e. tm_ret (Some e))) (\<lambda>e.
     tm_bind (start_sub_plans conv conds) (\<lambda>es. tm_ret ((c, e) # es)))"

fun convert_plan_executor :: "nat \<Rightarrow> int \<Rightarrow> bytes \<Rightarrow> txn_id \<Rightarrow> plan \<Rightarrow> executor tmm" where
  "convert_plan_executor 0 j key0 t p = tm_fuel"
| "convert_plan_executor (Suc k) j key0 t (ProjectionPlan p sel) =
     tm_bind (convert_plan_executor k j key0 t p) (\<lambda>e. tm_lift (new_projection e sel))"
| "convert_plan_executor (Suc k) j key0 t (ScanPlan tag n conds ixns) =
     tm_bind (start_sub_plans (convert_plan_executor k j key0 t) conds) (\<lambda>conds.
       if tag = T_SeqScan then new_seq_scan k j key0 t n conds else new_index_scan k j key0 t n conds ixns)"
| "convert_plan_executor (Suc k) j key0 t (JoinPlan l r conds) =
     tm_bind (convert_plan_executor k j key0 t l) (\<lambda>l.
     tm_bind (convert_plan_executor k j key0 t r) (\<lambda>r. new_join l r conds))"
| "convert_plan_executor (Suc k) j key0 t (AggregationPlan p sel grp having) =
     tm_bind (start_sub_plans (convert_plan_executor k j key0 t) having) (\<lambda>having.
     tm_bind (convert_plan_executor k j key0 t p) (\<lambda>e. new_aggregation k j key0 t e sel grp having))"

text \<open>A SELECT: \<^verbatim>\<open>start\<close> on its projection plan and the loop of \<^verbatim>\<open>select_from\<close>, whose records it prints.\<close>

definition portal_select :: "nat \<Rightarrow> int \<Rightarrow> bytes \<Rightarrow> txn_id \<Rightarrow> plan \<Rightarrow> bytes list tmm" where
  "portal_select k j key0 t p = tm_bind (convert_plan_executor k j key0 t p) (run_select k j key0 t)"

section \<open>Columns of projections and joins\<close>

lemma map_sum_Inr_iff: "map_sum id f x = Inr y \<longleftrightarrow> (\<exists>z. x = Inr z \<and> y = f z)"
  by (cases x) auto

lemma find_pos_Some: "find_pos P xs = Some i \<Longrightarrow> i < length xs \<and> P (xs ! i)"
  by (induction xs arbitrary: i) (auto split: if_splits)

lemma sel_positions_bound:
  assumes "sel_positions prev aggr sel = Inr is"
  shows "length is = length sel \<and> (\<forall>i\<in>set is. i < length prev)"
  using assms
  by (induction sel arbitrary: "is") (auto simp: map_sum_Inr_iff ex_get_col_def dest: find_pos_Some split: sum.splits option.splits)

lemma length_place [simp]: "length (place_cols off cs) = length cs"
  by (induction cs arbitrary: off) simp_all

lemma nth_place: "i < length cs \<Longrightarrow> place_cols off cs ! i = (cs ! i)\<lparr>cm_offset := off + sum_list (map cm_len (take i cs))\<rparr>"
proof (induction cs arbitrary: off i)
  case (Cons c cs)
  then show ?case by (cases i) simp_all
qed simp

lemma sum_lens_nonneg: "\<forall>c\<in>set cs. 0 \<le> cm_len c \<Longrightarrow> 0 \<le> sum_list (map cm_len cs)"
  by (induction cs) simp_all

text \<open>Copying columns: the record before \<open>off\<close> stays as it is, behind it the columns follow each other.\<close>

definition col_bytes :: "bytes \<Rightarrow> col_meta \<Rightarrow> bytes" where
  "col_bytes rec c = mem_read rec (nat (cm_offset c)) (nat (cm_len c))"

lemma length_col_bytes: "nat (cm_offset c) + nat (cm_len c) \<le> length rec \<Longrightarrow> length (col_bytes rec c) = nat (cm_len c)"
  by (simp add: col_bytes_def mem_read_def)

lemma copy_cols_concat:
  assumes "\<forall>i\<in>set is. 0 \<le> cm_offset (prev ! i) \<and> 0 \<le> cm_len (prev ! i) \<and> nat (cm_offset (prev ! i)) + nat (cm_len (prev ! i)) \<le> length rec"
    and "length d = off + nat (sum_list (map (\<lambda>i. cm_len (prev ! i)) is))"
  shows "copy_cols prev is (place_cols o0 (map (\<lambda>i. prev ! i) is)) rec off d = take off d @ concat (map (\<lambda>i. col_bytes rec (prev ! i)) is)"
  using assms
proof (induction "is" arbitrary: off d o0)
  case (Cons i "is")
  let ?n = "nat (cm_len (prev ! i))" and ?b = "col_bytes rec (prev ! i)"
  have n: "0 \<le> cm_len (prev ! i)" "0 \<le> sum_list (map (\<lambda>i. cm_len (prev ! i)) is)" using Cons.prems(1) sum_lens_nonneg [of "map (\<lambda>i. prev ! i) is"]
    by (auto simp: comp_def)
  have b: "length ?b = ?n" using Cons.prems(1) by (simp add: length_col_bytes)
  have d: "length d = off + ?n + nat (sum_list (map (\<lambda>i. cm_len (prev ! i)) is))" using Cons.prems(2) n by simp
  let ?d = "mem_write d off ?b"
  have "length ?d = length d" "take (off + ?n) ?d = take off d @ ?b" using b d by (simp_all add: mem_write_def)
  then show ?case using Cons.IH [of ?d "off + ?n"] Cons.prems(1) d by (simp add: col_bytes_def)
qed simp

lemma concat_part:
  "k < length is \<Longrightarrow> length (f (is ! k)) = m \<Longrightarrow> length (concat (map f (take k is))) = off \<Longrightarrow> mem_read (concat (map f is)) off m = f (is ! k)"
  by (subst id_take_nth_drop [of k "is"]) (simp_all add: mem_read_def)

text \<open>A record long enough for the columns.\<close>

definition cols_in :: "col_meta list \<Rightarrow> bytes \<Rightarrow> bool" where
  "cols_in cs rec \<longleftrightarrow> (\<forall>c\<in>set cs. 0 \<le> cm_offset c \<and> 0 \<le> cm_len c \<and> nat (cm_offset c) + nat (cm_len c) \<le> length rec)"

text \<open>A scan of a table of two \<^verbatim>\<open>INT\<close> columns.\<close>

definition sample_scan :: "condition list \<Rightarrow> executor" where
  "sample_scan cs = SeqScanExecutor \<lparr>ss_tab = ''t'', ss_fed_conds = cs, ss_cols = [demo_col ''a'' 0, demo_col ''b'' 4], ss_len = 8,
     ss_rid = mk_rid 0 0, ss_scan = None\<rparr>"

text \<open>
  C38. Every column of a projection reads from the new record exactly what the selected column reads
  from the record below, with type, length and names unchanged, and the new records have the
  projection's length; when all columns are selected in order, the record is passed on as it is.
\<close>

theorem projection_columns:
  assumes "new_projection p sel = Inr (ProjectionExecutor p x)" and "cols_in (ex_cols p) rec"
    and "pj_sel_all x \<longrightarrow> place_cols 0 (ex_cols p) = ex_cols p \<and> int (length rec) = sum_list (map cm_len (ex_cols p))"
  shows "length (pj_cols x) = length sel \<and> int (length (project (ex_cols p) x rec)) = pj_len x \<and>
    (\<forall>k<length sel. \<exists>i. ex_get_col (ex_cols p) (sel ! k) True = Inr i \<and>
       cell (pj_cols x ! k) (project (ex_cols p) x rec) = cell (ex_cols p ! i) rec \<and>
       (pj_cols x ! k)\<lparr>cm_offset := cm_offset (ex_cols p ! i)\<rparr> = ex_cols p ! i)"
proof -
  let ?P = "ex_cols p"
  obtain "is" where i: "sel_positions ?P True sel = Inr is" using assms(1) by (auto simp: new_projection_def split: sum.splits)
  let ?cs = "map (\<lambda>i. ?P ! i) is"
  have x: "x = \<lparr>pj_cols = place_cols 0 ?cs, pj_len = sum_list (map cm_len ?cs), pj_sel_idxs = is,
      pj_sel_all = (length sel = length ?P \<and> is = [0..<length is])\<rparr>"
    using assms(1) by (simp add: new_projection_def i Let_def)
  note b = sel_positions_bound [OF i]
  have pos: "ex_get_col ?P (sel ! k) True = Inr (is ! k)" if "k < length sel" for k
    using i that
  proof (induction sel arbitrary: k "is")
    case (Cons c sel)
    then show ?case by (cases k) (auto simp: map_sum_Inr_iff split: sum.splits)
  qed simp
  have fit: "\<forall>i\<in>set is. 0 \<le> cm_offset (?P ! i) \<and> 0 \<le> cm_len (?P ! i) \<and> nat (cm_offset (?P ! i)) + nat (cm_len (?P ! i)) \<le> length rec"
    using assms(2) b nth_mem by (fastforce simp: cols_in_def)
  have nn: "0 \<le> sum_list (map cm_len (take k ?cs))" for k
    by (rule sum_lens_nonneg) (use fit in \<open>fastforce dest: in_set_takeD\<close>)
  have len: "length (col_bytes rec (?P ! i)) = nat (cm_len (?P ! i))" if "i \<in> set is" for i
    using fit that by (simp add: length_col_bytes)
  have lens: "int (length (concat (map (\<lambda>i. col_bytes rec (?P ! i)) js))) = sum_list (map cm_len (map (\<lambda>i. ?P ! i) js))" if "set js \<subseteq> set is" for js
    using that fit len by (induction js) auto
  show ?thesis
  proof (cases "pj_sel_all x")
    case True
    then have "is = [0..<length ?P]" using b by (simp add: x)
    then have e: "?cs = ?P" by (simp add: map_nth)
    have e2: "pj_cols x = ?P" "pj_len x = int (length rec)" using assms(3) True by (simp_all add: x e)
    have "?P ! (is ! k) = ?P ! k" if "k < length sel" for k using that b arg_cong [OF e, of "\<lambda>l. l ! k"] by simp
    then show ?thesis using pos b True e2 arg_cong [OF e, of length] by (auto simp: project_def)
  next
    case False
    let ?rec = "project ?P x rec"
    have rec: "?rec = concat (map (\<lambda>i. col_bytes rec (?P ! i)) is)"
      using copy_cols_concat [OF fit, of "replicate (nat (pj_len x)) 0" 0 0] False by (auto simp: project_def x comp_def)
    have "cell (pj_cols x ! k) ?rec = cell (?P ! (is ! k)) rec \<and> (pj_cols x ! k)\<lparr>cm_offset := cm_offset (?P ! (is ! k))\<rparr> = ?P ! (is ! k)"
      if k: "k < length sel" for k
    proof
      have kl: "k < length is" using k b by simp
      have n: "pj_cols x ! k = (?P ! (is ! k))\<lparr>cm_offset := sum_list (map cm_len (take k ?cs))\<rparr>" using kl by (simp add: x nth_place)
      have "int (length (concat (map (\<lambda>i. col_bytes rec (?P ! i)) (take k is)))) = sum_list (map cm_len (take k ?cs))"
        using lens [OF set_take_subset, of k] by (simp add: take_map)
      then have "length (concat (map (\<lambda>i. col_bytes rec (?P ! i)) (take k is))) = nat (sum_list (map cm_len (take k ?cs)))" by linarith
      then show "cell (pj_cols x ! k) ?rec = cell (?P ! (is ! k)) rec"
        using concat_part [where f = "\<lambda>i. col_bytes rec (?P ! i)", OF kl len [OF nth_mem [OF kl]]] by (simp add: cell_def n rec col_bytes_def)
      show "(pj_cols x ! k)\<lparr>cm_offset := cm_offset (?P ! (is ! k))\<rparr> = ?P ! (is ! k)" by (simp add: n)
    qed
    moreover have "int (length ?rec) = pj_len x" "length (pj_cols x) = length sel" using lens [OF order_refl] b unfolding rec by (simp_all add: x)
    ultimately show ?thesis using pos by auto
  qed
qed

theorem projection_columns_witness:
  "\<exists>x. new_projection (sample_scan []) [sample_tab_col ''b''] = Inr (ProjectionExecutor (sample_scan []) x) \<and>
     cell (pj_cols x ! 0) (project (ex_cols (sample_scan [])) x [1, 0, 0, 0, 2, 0, 0, 0]) = [2, 0, 0, 0]"
proof -
  let ?e = "sample_scan []"
  let ?x = "\<lparr>pj_cols = [demo_col ''b'' 0], pj_len = 4, pj_sel_idxs = [1], pj_sel_all = False\<rparr>"
  have e: "new_projection ?e [sample_tab_col ''b''] = Inr (ProjectionExecutor ?e ?x)" "ex_get_col (ex_cols ?e) (sample_tab_col ''b'') True = Inr 1"
    by (simp_all add: new_projection_def sample_scan_def ex_get_col_def sample_tab_col_def demo_col_def)
  have "cols_in (ex_cols ?e) [1, 0, 0, 0, 2, 0, 0, 0]" by (simp add: cols_in_def sample_scan_def demo_col_def)
  from projection_columns [OF e(1) this] e show ?thesis by (auto simp: sample_scan_def demo_col_def cell_def mem_read_def)
qed

text \<open>
  In a record of a join every column of the left child reads what it reads from the left record, and
  every column of the right child, moved behind the left record, what it reads from the right one.
\<close>

theorem join_columns:
  assumes "int (length a) = ex_len l" and "int (length b) = ex_len r" and "cols_in (ex_cols l) a" and "cols_in (ex_cols r) b"
  shows "(\<forall>k<length (ex_cols l). cell (join_cols l r ! k) (join_record l r a b) = cell (ex_cols l ! k) a) \<and>
    (\<forall>k<length (ex_cols r). cell (join_cols l r ! (length (ex_cols l) + k)) (join_record l r a b) = cell (ex_cols r ! k) b) \<and>
    int (length (join_record l r a b)) = ex_len l + ex_len r"
proof (intro conjI allI impI)
  have n: "nat (ex_len l) = length a" "nat (ex_len r) = length b" using assms(1,2) by simp_all
  have j: "join_record l r a b = a @ b" by (simp add: join_record_def mem_read_def n)
  show "int (length (join_record l r a b)) = ex_len l + ex_len r" using assms(1,2) by (simp add: j)
  fix k
  show "cell (join_cols l r ! k) (join_record l r a b) = cell (ex_cols l ! k) a" if "k < length (ex_cols l)"
  proof -
    have "nat (cm_offset (ex_cols l ! k)) + nat (cm_len (ex_cols l ! k)) \<le> length a" using assms(3) nth_mem [OF that] by (simp add: cols_in_def)
    then show ?thesis using that by (simp add: join_cols_def nth_append cell_def j mem_read_def)
  qed
  show "cell (join_cols l r ! (length (ex_cols l) + k)) (join_record l r a b) = cell (ex_cols r ! k) b" if "k < length (ex_cols r)"
  proof -
    have "0 \<le> cm_offset (ex_cols r ! k)" using assms(4) nth_mem [OF that] by (simp add: cols_in_def)
    then have "nat (cm_offset (ex_cols r ! k) + ex_len l) = length a + nat (cm_offset (ex_cols r ! k))" using assms(1) by simp
    then show ?thesis using that by (simp add: join_cols_def nth_append cell_def j mem_read_def shift_col_def)
  qed
qed

theorem join_columns_witness:
  "cell (join_cols (sample_scan []) (sample_scan []) ! 3) (join_record (sample_scan []) (sample_scan []) [1, 0, 0, 0, 2, 0, 0, 0] [3, 0, 0, 0, 4, 0, 0, 0]) = [4, 0, 0, 0]"
proof -
  let ?e = "sample_scan []"
  have c: "cols_in (ex_cols ?e) [a, 0, 0, 0, b, 0, 0, 0]" "ex_len ?e = 8" "ex_cols ?e = [demo_col ''a'' 0, demo_col ''b'' 4]" for a b
    by (simp_all add: cols_in_def sample_scan_def demo_col_def)
  from join_columns [of "[1, 0, 0, 0, 2, 0, 0, 0]" ?e "[3, 0, 0, 0, 4, 0, 0, 0]" ?e] c
  have "\<forall>k<2. cell (join_cols ?e ?e ! (2 + k)) (join_record ?e ?e [1, 0, 0, 0, 2, 0, 0, 0] [3, 0, 0, 0, 4, 0, 0, 0]) = cell (ex_cols ?e ! k) [3, 0, 0, 0, 4, 0, 0, 0]" by simp
  from this [rule_format, of 1] show ?thesis by (simp add: c(3) demo_col_def cell_def mem_read_def)
qed

end
