(* ===== verification/Query_Correct.thy ===== *)
theory Query_Correct
  imports Portal
begin

text \<open>
  What a query returns. \<open>ex_rows s e\<close> is the meaning of an operator tree over the tables of a state, as
  a list of records: the records of a table that satisfy the conditions of its scan, in the order
  of their positions; the projections of the child's records; the pairs of a join that satisfy its
  conditions, left child first. The executors deliver exactly this list, read only, and end.

  The contract of an executor towards its clients is the locale \<open>tuple_source\<close>: an executor is at a
  list of records still to come, and the loop every client runs visits them in order.
\<close>

section \<open>Computations that end\<close>

text \<open>With enough fuel, for the loop at hand and for what it calls, the result is the same.\<close>

definition ends :: "(nat \<Rightarrow> nat \<Rightarrow> 'a tmm) \<Rightarrow> tm_sys \<Rightarrow> ('a \<Rightarrow> tm_sys \<Rightarrow> bool) \<Rightarrow> bool" where
  "ends f s Q \<longleftrightarrow> (\<exists>x s' k. Q x s' \<and> (\<forall>m\<ge>k. \<forall>n\<ge>k. f m n s = Some (Inr x, s')))"

lemma endsI: "Q x s' \<Longrightarrow> (\<And>m n. k \<le> m \<Longrightarrow> k \<le> n \<Longrightarrow> f m n s = Some (Inr x, s')) \<Longrightarrow> ends f s Q"
  unfolding ends_def by blast

lemma endsE:
  assumes "ends f s Q"
  obtains x s' k where "Q x s'" "\<And>m n. k \<le> m \<Longrightarrow> k \<le> n \<Longrightarrow> f m n s = Some (Inr x, s')"
  using assms unfolding ends_def by meson

lemma ends_ret [intro!]: "Q x s \<Longrightarrow> ends (\<lambda>m n. tm_ret x) s Q"
  by (rule endsI) (auto simp: tm_ret_def)

lemma ends_Some: "f s = Some (Inr x, s') \<Longrightarrow> Q x s' \<Longrightarrow> ends (\<lambda>m n. f) s Q"
  by (rule endsI [where x = x and s' = s'])

text \<open>The first steps of a computation.\<close>

lemma ends_cong: "ends g s1 Q \<Longrightarrow> (\<And>m n. f m n s = g m n s1) \<Longrightarrow> ends f s Q"
  by (simp add: ends_def)

lemma ends_bind_Some: "f s = Some (Inr x, s1) \<Longrightarrow> ends (\<lambda>m n. g m n x) s1 Q \<Longrightarrow> ends (\<lambda>m n. tm_bind f (g m n)) s Q"
  by (erule ends_cong) simp

lemma ends_bind:
  assumes "ends f s R" "\<And>x s'. R x s' \<Longrightarrow> ends (\<lambda>m n. g m n x) s' Q"
  shows "ends (\<lambda>m n. tm_bind (f m n) (g m n)) s Q"
proof -
  obtain x s1 k where f: "R x s1" "\<And>m n. k \<le> m \<Longrightarrow> k \<le> n \<Longrightarrow> f m n s = Some (Inr x, s1)" using assms(1) by (rule endsE) blast
  obtain y s2 l where g: "Q y s2" "\<And>m n. l \<le> m \<Longrightarrow> l \<le> n \<Longrightarrow> g m n x s1 = Some (Inr y, s2)"
    using assms(2) [OF f(1)] by (rule endsE) blast
  show ?thesis by (rule endsI [of Q y s2 "max k l"]) (use f g in auto)
qed

lemma ends_Suc: "ends (\<lambda>m n. f (Suc m) n) s Q \<Longrightarrow> ends f s Q"
proof -
  assume "ends (\<lambda>m n. f (Suc m) n) s Q"
  then obtain x s' k where e: "Q x s'" "\<And>m n. k \<le> m \<Longrightarrow> k \<le> n \<Longrightarrow> f (Suc m) n s = Some (Inr x, s')" by (rule endsE) blast
  show ?thesis
  proof (rule endsI [where Q = Q and x = x and s' = s' and k = "Suc k", OF e(1)])
    fix m n assume "Suc k \<le> m" "Suc k \<le> n"
    then show "f m n s = Some (Inr x, s')" using e(2) [of "m - 1" n] by (cases m) simp_all
  qed
qed

lemma ends_Suc2: "ends (\<lambda>m n. f (Suc n)) s Q \<Longrightarrow> ends (\<lambda>m n. f n) s Q"
proof -
  assume "ends (\<lambda>m n. f (Suc n)) s Q"
  then obtain x s' k where e: "Q x s'" "\<And>n. k \<le> n \<Longrightarrow> f (Suc n) s = Some (Inr x, s')" unfolding ends_def by meson
  show ?thesis
  proof (rule endsI [where Q = Q and x = x and s' = s' and k = "Suc k", OF e(1)])
    fix m n :: nat assume "Suc k \<le> n"
    then show "f n s = Some (Inr x, s')" using e(2) [of "n - 1"] by (cases n) simp_all
  qed
qed

text \<open>One fuel for both.\<close>

lemma ends_same: "ends f s Q \<Longrightarrow> ends (\<lambda>m n. f n n) s Q"
  unfolding ends_def by meson

lemma ends_mono: "ends f s Q \<Longrightarrow> (\<And>x s'. Q x s' \<Longrightarrow> R x s') \<Longrightarrow> ends f s R"
  unfolding ends_def by blast

lemma endsD:
  assumes "ends (\<lambda>m n. f n) s Q"
  obtains x s' k where "Q x s'" "\<And>n. k \<le> n \<Longrightarrow> f n s = Some (Inr x, s')"
  using assms unfolding ends_def by meson

section \<open>Clients of an executor\<close>

fun foldE :: "('b \<Rightarrow> 'a \<Rightarrow> rmdb_error + 'a) \<Rightarrow> 'b list \<Rightarrow> 'a \<Rightarrow> rmdb_error + 'a" where
  "foldE g [] acc = Inr acc"
| "foldE g (b # bs) acc = (case g b acc of Inl e \<Rightarrow> Inl e | Inr acc' \<Rightarrow> foldE g bs acc')"

lemma drain_go:
  "isend e s = Some (Inr False, s) \<Longrightarrow> body e acc s = Some (Inr (e', acc'), s1) \<Longrightarrow>
   drain (Suc m) isend adv body e acc s = tm_bind (adv e') (\<lambda>e. drain m isend adv body e acc') s1"
  by (simp add: tm_bind_def)

locale tuple_source =
  fixes bg :: "nat \<Rightarrow> 'e \<Rightarrow> 'e tmm"
    and adv :: "nat \<Rightarrow> 'e \<Rightarrow> 'e tmm"
    and isend :: "'e \<Rightarrow> bool tmm"
    and nx :: "'e \<Rightarrow> ('b \<times> 'e) tmm"
    and ready :: "tm_sys \<Rightarrow> 'e \<Rightarrow> 'b list \<Rightarrow> bool"
    and pos :: "tm_sys \<Rightarrow> 'e \<Rightarrow> 'b list \<Rightarrow> bool"
    and rd :: "tm_sys \<Rightarrow> tm_sys \<Rightarrow> bool"
  assumes rd_trans: "rd s s1 \<Longrightarrow> rd s1 s2 \<Longrightarrow> rd s s2"
    and rd_refl: "pos s e bs \<Longrightarrow> rd s s"
    and begin_pos: "ready s e bs \<Longrightarrow> ends (\<lambda>m n. bg n e) s (\<lambda>e' s'. rd s s' \<and> pos s' e' bs)"
    and next_pos: "pos s e (b # bs) \<Longrightarrow> ends (\<lambda>m n. adv n e) s (\<lambda>e' s'. rd s s' \<and> pos s' e' bs)"
    and end_pos: "pos s e bs \<Longrightarrow> isend e s = Some (Inr (bs = []), s)"
    and Next_pos: "pos s e (b # bs) \<Longrightarrow> \<exists>s'. nx e s = Some (Inr (b, e), s') \<and> rd s s' \<and> pos s' e (b # bs)"
begin

text \<open>A loop whose body works on the record at hand is a fold over the records to come.\<close>

lemma drain_fold:
  assumes "pos s e bs" "foldE g bs acc = Inr acc'"
  shows "ends (\<lambda>m n. drain m isend (adv n) (\<lambda>e acc. tm_bind (nx e) (\<lambda>(b, e). tm_bind (tm_lift (g b acc)) (\<lambda>acc. tm_ret (e, acc)))) e acc) s
    (\<lambda>r s'. rd s s' \<and> snd r = acc')"
  using assms
proof (induction bs arbitrary: s e acc)
  case Nil
  then show ?case
    by (intro endsI [where k = 1 and x = "(e, acc)" and s' = s])
      (auto simp: rd_refl end_pos tm_bind_def tm_ret_def Suc_le_eq gr0_conv_Suc)
next
  case (Cons b bs)
  obtain a1 where a1: "g b acc = Inr a1" "foldE g bs a1 = Inr acc'" using Cons.prems(2) by (auto split: sum.splits)
  obtain s1 where s1: "nx e s = Some (Inr (b, e), s1)" "rd s s1" "pos s1 e (b # bs)" using Next_pos [OF Cons.prems(1)] by blast
  let ?body = "\<lambda>e acc. tm_bind (nx e) (\<lambda>(b, e). tm_bind (tm_lift (g b acc)) (\<lambda>acc. tm_ret (e, acc)))"
  have body: "?body e acc s = Some (Inr (e, a1), s1)" using s1(1) a1(1) by (simp add: tm_bind_def tm_lift_def tm_ret_def)
  have "ends (\<lambda>m n. tm_bind (adv n e) (\<lambda>e. drain m isend (adv n) ?body e a1)) s1 (\<lambda>r s'. rd s s' \<and> snd r = acc')"
  proof (rule ends_bind [OF next_pos [OF s1(3)]])
    fix e2 s2 assume "rd s1 s2 \<and> pos s2 e2 bs"
    then have "ends (\<lambda>m n. drain m isend (adv n) ?body e2 a1) s2 (\<lambda>r s'. rd s2 s' \<and> snd r = acc')" and "rd s s2"
      using Cons.IH a1(2) rd_trans [OF s1(2)] by blast+
    then show "ends (\<lambda>m n. drain m isend (adv n) ?body e2 a1) s2 (\<lambda>r s'. rd s s' \<and> snd r = acc')"
      by (elim ends_mono) (blast intro: rd_trans)
  qed
  moreover have "drain (Suc m) isend (adv n) ?body e acc s = tm_bind (adv n e) (\<lambda>e. drain m isend (adv n) ?body e a1) s1" for m n
    by (rule drain_go [where body = ?body, OF _ body]) (use end_pos [OF Cons.prems(1)] in simp)
  ultimately have "ends (\<lambda>m n. drain (Suc m) isend (adv n) ?body e acc) s (\<lambda>r s'. rd s s' \<and> snd r = acc')"
    by (rule ends_cong)
  then show ?case by (rule ends_Suc)
qed

end

section \<open>The meaning of an operator tree\<close>

definition conds_hold :: "condition list \<Rightarrow> bytes \<Rightarrow> bool" where
  "conds_hold cs b \<longleftrightarrow> list_all (\<lambda>c. cond_holds c b) cs"

definition join_rows :: "(bytes \<Rightarrow> bytes \<Rightarrow> bytes) \<Rightarrow> bytes list \<Rightarrow> bytes list \<Rightarrow> bytes list" where
  "join_rows f as bs = concat (map (\<lambda>a. map (f a) bs) as)"

text \<open>Index scans and aggregations are treated by themselves.\<close>

primrec ex_rows :: "tm_sys \<Rightarrow> executor \<Rightarrow> bytes list" where
  "ex_rows s (SeqScanExecutor x) = filter (conds_hold (ss_fed_conds x)) (db_rows (sys_db s) (ss_tab x))"
| "ex_rows s (IndexScanExecutor x) = []"
| "ex_rows s (ProjectionExecutor p x) = map (project (ex_cols p) x) (ex_rows s p)"
| "ex_rows s (NestedLoopJoinExecutor l r x) = filter (conds_hold (nj_conds x)) (join_rows (join_record l r) (ex_rows s l) (ex_rows s r))"
| "ex_rows s (AggregationExecutor p x) = []"

text \<open>The conditions of a node can be tested on the records that reach it, and the tables may be read.\<close>

definition conds_clean :: "condition list \<Rightarrow> bytes list \<Rightarrow> bool" where
  "conds_clean cs bs \<longleftrightarrow> list_all cond_wf cs \<and> list_all (\<lambda>b. list_all (\<lambda>c. cond_clean c b) cs) bs"

primrec ex_wf :: "tm_sys \<Rightarrow> txn_id \<Rightarrow> executor \<Rightarrow> bool" where
  "ex_wf s t (SeqScanExecutor x) \<longleftrightarrow> can_read s t (ss_tab x) \<and> conds_clean (ss_fed_conds x) (db_rows (sys_db s) (ss_tab x))"
| "ex_wf s t (IndexScanExecutor x) \<longleftrightarrow> False"
| "ex_wf s t (ProjectionExecutor p x) \<longleftrightarrow> ex_wf s t p"
| "ex_wf s t (NestedLoopJoinExecutor l r x) \<longleftrightarrow> ex_wf s t l \<and> ex_wf s t r \<and>
     conds_clean (nj_conds x) (join_rows (join_record l r) (ex_rows s l) (ex_rows s r))"
| "ex_wf s t (AggregationExecutor p x) \<longleftrightarrow> False"

text \<open>An executor without its position.\<close>

primrec ex_static :: "executor \<Rightarrow> executor" where
  "ex_static (SeqScanExecutor x) = SeqScanExecutor (x\<lparr>ss_rid := mk_rid 0 0, ss_scan := None\<rparr>)"
| "ex_static (IndexScanExecutor x) = IndexScanExecutor (x\<lparr>is_rid := mk_rid 0 0, is_scan := None\<rparr>)"
| "ex_static (ProjectionExecutor p x) = ProjectionExecutor (ex_static p) x"
| "ex_static (NestedLoopJoinExecutor l r x) = NestedLoopJoinExecutor (ex_static l) (ex_static r) (x\<lparr>nj_isend := False\<rparr>)"
| "ex_static (AggregationExecutor p x) = AggregationExecutor (ex_static p) x"

text \<open>The records still to come at a position.\<close>

abbreviation tab_rec :: "tm_sys \<Rightarrow> string \<Rightarrow> rid \<Rightarrow> bytes" where
  "tab_rec s n r \<equiv> the (db_tab (sys_db s) n r)"

definition seq_pos :: "tm_sys \<Rightarrow> seq_scan \<Rightarrow> rid list \<Rightarrow> bool" where
  "seq_pos s x rs \<longleftrightarrow> ss_scan x = Some (ss_rid x) \<and> scan_pos s (ss_tab x) (ss_rid x) rs \<and> set rs \<subseteq> dom (db_tab (sys_db s) (ss_tab x)) \<and>
     (rs \<noteq> [] \<longrightarrow> conds_hold (ss_fed_conds x) (tab_rec s (ss_tab x) (hd rs)))"

primrec at_pos :: "tm_sys \<Rightarrow> executor \<Rightarrow> bytes list \<Rightarrow> bool" where
  "at_pos s (SeqScanExecutor x) = (\<lambda>rows. \<exists>rs. seq_pos s x rs \<and> rows = filter (conds_hold (ss_fed_conds x)) (map (tab_rec s (ss_tab x)) rs))"
| "at_pos s (IndexScanExecutor x) = (\<lambda>rows. False)"
| "at_pos s (ProjectionExecutor p x) = (\<lambda>rows. \<exists>bs. at_pos s p bs \<and> set bs \<subseteq> set (ex_rows s p) \<and> rows = map (project (ex_cols p) x) bs)"
| "at_pos s (NestedLoopJoinExecutor l r x) = (\<lambda>rows.
     if nj_isend x then rows = []
     else \<exists>a as b bs. at_pos s l (a # as) \<and> at_pos s r (b # bs) \<and> set (a # as) \<subseteq> set (ex_rows s l) \<and> set (b # bs) \<subseteq> set (ex_rows s r) \<and>
       conds_hold (nj_conds x) (join_record l r a b) \<and>
       rows = filter (conds_hold (nj_conds x)) (map (join_record l r a) (b # bs) @ join_rows (join_record l r) as (ex_rows s r)))"
| "at_pos s (AggregationExecutor p x) = (\<lambda>rows. False)"

lemma ex_static_props:
  assumes "ex_static e' = ex_static e"
  shows "ex_cols e' = ex_cols e" "ex_len e' = ex_len e" "ex_rows s e' = ex_rows s e" "ex_wf s t e' = ex_wf s t e"
proof -
  have c: "ex_cols (ex_static e) = ex_cols e" "ex_len (ex_static e) = ex_len e" for e by (cases e; simp)+
  have j: "join_record (ex_static l) (ex_static r) = join_record l r" for l r
    by (simp add: join_record_def c fun_eq_iff)
  have r: "ex_rows s (ex_static e) = ex_rows s e" for e by (induction e) (simp_all add: c j)
  have w: "ex_wf s t (ex_static e) = ex_wf s t e" for e by (induction e) (simp_all add: r j)
  show "ex_cols e' = ex_cols e" "ex_len e' = ex_len e" "ex_rows s e' = ex_rows s e" "ex_wf s t e' = ex_wf s t e"
    using c(1) [of e] c(1) [of e'] c(2) [of e] c(2) [of e'] r [of e] r [of e'] w [of e] w [of e'] by (simp_all add: assms)
qed

lemma join_record_static: "ex_static l' = ex_static l \<Longrightarrow> ex_static r' = ex_static r \<Longrightarrow> join_record l' r' = join_record l r"
  using ex_static_props(2) [of l' l] ex_static_props(2) [of r' r] by (simp add: join_record_def fun_eq_iff)

lemma ex_rows_reads:
  assumes "sys_reads t s s'"
  shows "ex_rows s' e = ex_rows s e"
  using sys_readsD(5) [OF assms] by (induction e) simp_all

lemma ex_wf_reads:
  assumes "sys_reads t s s'" "ex_wf s t e"
  shows "ex_wf s' t e"
  using assms(2) sys_readsD(5,6) [OF assms(1)] ex_rows_reads [OF assms(1)] by (induction e) simp_all

lemma seq_pos_reads: "sys_reads t s s' \<Longrightarrow> seq_pos s x rs \<Longrightarrow> seq_pos s' x rs"
  using sys_readsD(3) [of t s s'] scan_pos_reads [of s "ss_tab x" "ss_rid x" rs t s'] by (simp add: seq_pos_def)

lemma at_pos_reads:
  assumes "sys_reads t s s'" "at_pos s e bs"
  shows "at_pos s' e bs"
  using assms(2)
proof (induction e arbitrary: bs)
  case (SeqScanExecutor x)
  then show ?case using sys_readsD(3) [OF assms(1)] seq_pos_reads [OF assms(1)] by auto
next
  case (NestedLoopJoinExecutor l r x)
  show ?case
  proof (cases "nj_isend x")
    case False
    obtain a as b bs' where "at_pos s l (a # as)" "at_pos s r (b # bs')" "set (a # as) \<subseteq> set (ex_rows s l)" "set (b # bs') \<subseteq> set (ex_rows s r)"
      "conds_hold (nj_conds x) (join_record l r a b)"
      "bs = filter (conds_hold (nj_conds x)) (map (join_record l r a) (b # bs') @ join_rows (join_record l r) as (ex_rows s r))"
      using NestedLoopJoinExecutor.prems False by auto
    then show ?thesis unfolding at_pos.simps ex_rows_reads [OF assms(1)]
      using NestedLoopJoinExecutor.IH False by (simp only: if_False) blast
  qed (use NestedLoopJoinExecutor.prems in simp)
next
  case (ProjectionExecutor p x)
  then show ?case using ex_rows_reads [OF assms(1), of p] by auto
qed auto

lemma check_clean: "conds_clean cs bs \<Longrightarrow> b \<in> set bs \<Longrightarrow> check_conditions cs b = Inr (conds_hold cs b)"
  using check_conditions_hold [of cs b] by (simp add: conds_clean_def conds_hold_def list_all_iff)

section \<open>Table scans\<close>

lemma dropWhile_filter: "filter P (dropWhile (\<lambda>x. \<not> P x) xs) = filter P xs"
  by (induction xs) auto

lemma seq_seek_pos:
  assumes "db_inv (sys_db s)" "can_read s t n" "scan_pos s n r rs" "set rs \<subseteq> dom (db_tab (sys_db s) n)"
    "conds_clean cs (map (tab_rec s n) rs)"
  shows "ends (\<lambda>m k. seq_seek m t n cs r) s
    (\<lambda>r' s'. sys_reads t s s' \<and> scan_pos s' n r' (dropWhile (\<lambda>x. \<not> conds_hold cs (tab_rec s n x)) rs))"
  using assms
proof (induction rs arbitrary: s r)
  case Nil
  have "seq_seek m t n cs r s = Some (Inr r, s)" if "1 \<le> m" for m
    using that Nil.prems(3) by (cases m) (simp_all add: scan_pos_def tm_ret_def)
  then show ?case by (intro endsI [where k = 1 and x = r and s' = s]) (use Nil.prems sys_reads_refl in auto)
next
  case (Cons x rs)
  have x: "r = x" "\<not> rm_scan_is_end r" using Cons.prems(3) by (auto simp: scan_pos_def)
  obtain b where b: "db_tab (sys_db s) n x = Some b" using Cons.prems(4) by auto
  obtain s1 where s1: "get_record_locked t n x s = Some (Inr b, s1)" "sys_reads t s s1"
    by (rule get_record_reads [OF Cons.prems(1,2) b])
  note r1 = sys_readsD [OF s1(2)]
  have chk: "check_conditions cs b = Inr (conds_hold cs b)"
    by (rule check_clean [OF Cons.prems(5)]) (simp add: b)
  show ?case
  proof (cases "conds_hold cs b")
    case True
    have "seq_seek m t n cs r s = Some (Inr r, s1)" if "1 \<le> m" for m
      using that x s1(1) chk True by (cases m) (simp_all add: tm_bind_def tm_lift_def tm_ret_def)
    moreover have "scan_pos s1 n r (x # rs)" by (rule scan_pos_reads [OF Cons.prems(3) s1(2)])
    ultimately show ?thesis
      by (intro endsI [where k = 1 and x = r and s' = s1]) (use s1(2) True b in auto)
  next
    case False
    obtain r' s2 where s2: "scan_next n r s1 = Some (Inr r', s2)" "sys_reads t s1 s2" "scan_pos s2 n r' rs"
      by (rule scan_next_reads [OF r1(1) scan_pos_reads [OF Cons.prems(3) s1(2)]])
    have s02: "sys_reads t s s2" by (rule sys_reads_trans [OF s1(2) s2(2)])
    note r2 = sys_readsD [OF s02]
    have IH: "ends (\<lambda>m k. seq_seek m t n cs r') s2
      (\<lambda>r' s'. sys_reads t s2 s' \<and> scan_pos s' n r' (dropWhile (\<lambda>x. \<not> conds_hold cs (tab_rec s2 n x)) rs))"
      by (rule Cons.IH) (use r2 s2(3) Cons.prems in \<open>auto simp: conds_clean_def\<close>)
    have e: "seq_seek (Suc m) t n cs r s = seq_seek m t n cs r' s2" for m
      using x s1(1) chk False s2(1) by (simp add: tm_bind_def tm_lift_def)
    have "ends (\<lambda>m k. seq_seek m t n cs r') s2
      (\<lambda>r' s'. sys_reads t s s' \<and> scan_pos s' n r' (dropWhile (\<lambda>x. \<not> conds_hold cs (tab_rec s n x)) (x # rs)))"
      using IH by (rule ends_mono) (use sys_reads_trans [OF s02] False b in \<open>auto simp: r2(3)\<close>)
    then have "ends (\<lambda>m k. seq_seek (Suc m) t n cs r) s
      (\<lambda>r' s'. sys_reads t s s' \<and> scan_pos s' n r' (dropWhile (\<lambda>x. \<not> conds_hold cs (tab_rec s n x)) (x # rs)))"
      by (rule ends_cong) (rule e)
    then show ?thesis by (rule ends_Suc)
  qed
qed

text \<open>Where the loop stops the executor is at the rest of the records.\<close>

lemma seq_seek_at:
  assumes "db_inv (sys_db s)" "can_read s t (ss_tab x)" "scan_pos s (ss_tab x) r rs" "set rs \<subseteq> dom (db_tab (sys_db s) (ss_tab x))"
    "conds_clean (ss_fed_conds x) (map (tab_rec s (ss_tab x)) rs)"
  shows "ends (\<lambda>m k. tm_bind (seq_seek k t (ss_tab x) (ss_fed_conds x) r) (\<lambda>r'. tm_ret (seq_at x r'))) s
    (\<lambda>x' s'. sys_reads t s s' \<and> (\<exists>r. x' = seq_at x r) \<and>
       at_pos s' (SeqScanExecutor x') (filter (conds_hold (ss_fed_conds x)) (map (tab_rec s (ss_tab x)) rs)))"
proof (rule ends_bind [OF ends_same [OF seq_seek_pos [OF assms]]])
  let ?P = "\<lambda>y. conds_hold (ss_fed_conds x) (tab_rec s (ss_tab x) y)"
  let ?rs = "dropWhile (\<lambda>y. \<not> ?P y) rs"
  fix r' s' assume p: "sys_reads t s s' \<and> scan_pos s' (ss_tab x) r' ?rs"
  note d = sys_readsD(3) [of t s s'] p
  have "set ?rs \<subseteq> dom (db_tab (sys_db s) (ss_tab x))" using assms(4) set_dropWhileD by fastforce
  moreover have "?rs \<noteq> [] \<longrightarrow> ?P (hd ?rs)" using hd_dropWhile [of "\<lambda>y. \<not> ?P y" rs] by blast
  ultimately have "seq_pos s' (seq_at x r') ?rs" using d by (simp add: seq_pos_def seq_at_def)
  moreover have "filter (conds_hold (ss_fed_conds x)) (map (tab_rec s (ss_tab x)) ?rs) = filter (conds_hold (ss_fed_conds x)) (map (tab_rec s (ss_tab x)) rs)"
    using dropWhile_filter [of ?P rs] by (simp add: filter_map o_def)
  ultimately have "at_pos s' (SeqScanExecutor (seq_at x r')) (filter (conds_hold (ss_fed_conds x)) (map (tab_rec s (ss_tab x)) rs))"
    using d by (auto simp: seq_at_def intro!: exI [of _ ?rs])
  with p show "ends (\<lambda>m k. tm_ret (seq_at x r')) s' (\<lambda>x' s'. sys_reads t s s' \<and> (\<exists>r. x' = seq_at x r) \<and>
       at_pos s' (SeqScanExecutor x') (filter (conds_hold (ss_fed_conds x)) (map (tab_rec s (ss_tab x)) rs)))" by blast
qed

section \<open>The current record\<close>

lemma seq_pos_end: "seq_pos s x rs \<Longrightarrow> rm_scan_is_end (ss_rid x) \<longleftrightarrow> rs = []"
  by (cases rs) (auto simp: seq_pos_def scan_pos_def)

lemma at_pos_end: "at_pos s e bs \<Longrightarrow> ex_is_end e s = Some (Inr (bs = []), s)"
proof (induction e arbitrary: bs)
  case (SeqScanExecutor x)
  then obtain rs where rs: "seq_pos s x rs" "bs = filter (conds_hold (ss_fed_conds x)) (map (tab_rec s (ss_tab x)) rs)" by auto
  then have "bs = [] \<longleftrightarrow> rs = []" by (cases rs) (auto simp: seq_pos_def)
  then show ?case using rs(1) seq_pos_end [OF rs(1)] by (simp add: seq_pos_def tm_ret_def)
next
  case (NestedLoopJoinExecutor l r x)
  then show ?case by (auto simp: tm_ret_def split: if_splits)
qed auto

lemma at_pos_Next:
  assumes "db_inv (sys_db s)" "ex_wf s t e" "at_pos s e (b # bs)"
  shows "\<exists>s'. ex_Next j t e s = Some (Inr (b, e), s') \<and> sys_reads t s s'"
  using assms
proof (induction e arbitrary: s b bs)
  case (SeqScanExecutor x)
  then obtain rs where rs: "seq_pos s x rs" "b # bs = filter (conds_hold (ss_fed_conds x)) (map (tab_rec s (ss_tab x)) rs)" by auto
  then obtain r rs' where r: "rs = r # rs'" by (cases rs) auto
  have b: "b = tab_rec s (ss_tab x) r" "db_tab (sys_db s) (ss_tab x) r = Some b" "ss_rid x = r"
    using rs r by (auto simp: seq_pos_def scan_pos_def)
  have "can_read s t (ss_tab x)" using SeqScanExecutor.prems(2) by simp
  then obtain s' where "get_record_locked t (ss_tab x) r s = Some (Inr b, s')" "sys_reads t s s'"
    by (rule get_record_reads [OF SeqScanExecutor.prems(1) _ b(2)])
  then show ?case using b(3) by (simp add: tm_bind_def tm_ret_def)
next
  case (ProjectionExecutor p x)
  then obtain c cs where c: "at_pos s p (c # cs)" "b = project (ex_cols p) x c" by (auto simp: map_eq_Cons_conv)
  then obtain s' where "ex_Next j t p s = Some (Inr (c, p), s')" "sys_reads t s s'"
    using ProjectionExecutor.IH ProjectionExecutor.prems by (metis ex_wf.simps(3))
  then show ?case using c(2) by (simp add: tm_bind_def tm_ret_def)
next
  case (NestedLoopJoinExecutor l r x)
  obtain a as c cs where p: "at_pos s l (a # as)" "at_pos s r (c # cs)" "conds_hold (nj_conds x) (join_record l r a c)"
    "b # bs = filter (conds_hold (nj_conds x)) (map (join_record l r a) (c # cs) @ join_rows (join_record l r) as (ex_rows s r))"
    using NestedLoopJoinExecutor.prems(3) by (auto split: if_splits)
  then have b: "b = join_record l r a c" by simp
  have w: "ex_wf s t l" "ex_wf s t r" using NestedLoopJoinExecutor.prems(2) by simp_all
  obtain s1 where s1: "ex_Next j t l s = Some (Inr (a, l), s1)" "sys_reads t s s1" using NestedLoopJoinExecutor.IH(1) [OF NestedLoopJoinExecutor.prems(1) w(1) p(1)] by blast
  obtain s2 where s2: "ex_Next j t r s1 = Some (Inr (c, r), s2)" "sys_reads t s1 s2"
    using NestedLoopJoinExecutor.IH(2) [OF sys_readsD(1) [OF s1(2)] ex_wf_reads [OF s1(2) w(2)] at_pos_reads [OF s1(2) p(2)]] by blast
  show ?case using s1(1) s2(1) b sys_reads_trans [OF s1(2) s2(2)] by (simp add: tm_bind_def tm_ret_def)
qed auto

section \<open>The contract of an executor\<close>

definition ex_at :: "txn_id \<Rightarrow> tm_sys \<Rightarrow> executor \<Rightarrow> bytes list \<Rightarrow> bool" where
  "ex_at t s e bs \<longleftrightarrow> db_inv (sys_db s) \<and> ex_wf s t e \<and> at_pos s e bs \<and> set bs \<subseteq> set (ex_rows s e)"

definition ex_ready :: "txn_id \<Rightarrow> tm_sys \<Rightarrow> executor \<Rightarrow> bytes list \<Rightarrow> bool" where
  "ex_ready t s e bs \<longleftrightarrow> db_inv (sys_db s) \<and> ex_wf s t e \<and> bs = ex_rows s e"

definition ex_moves :: "txn_id \<Rightarrow> executor \<Rightarrow> bytes list \<Rightarrow> tm_sys \<Rightarrow> executor \<Rightarrow> tm_sys \<Rightarrow> bool" where
  "ex_moves t e bs s e' s' \<longleftrightarrow> sys_reads t s s' \<and> ex_static e' = ex_static e \<and> ex_at t s' e' bs"

text \<open>The contract for all executors that differ from \<open>e0\<close> in their position only.\<close>

definition ex_contract :: "int \<Rightarrow> bytes \<Rightarrow> txn_id \<Rightarrow> executor \<Rightarrow> bool" where
  "ex_contract j key0 t e0 \<longleftrightarrow> (\<forall>e s. ex_static e = ex_static e0 \<longrightarrow>
     (\<forall>bs. ex_ready t s e bs \<longrightarrow> ends (\<lambda>m n. ex_begin n j key0 t e) s (ex_moves t e bs s)) \<and>
     (\<forall>b bs. ex_at t s e (b # bs) \<longrightarrow> ends (\<lambda>m n. ex_next n j key0 t e) s (ex_moves t e bs s)))"

lemma ex_at_reads: "ex_at t s e bs \<Longrightarrow> sys_reads t s s' \<Longrightarrow> ex_at t s' e bs"
  using sys_readsD(1) ex_wf_reads at_pos_reads ex_rows_reads by (auto simp: ex_at_def)

lemma ex_movesI:
  assumes "db_inv (sys_db s)" "ex_wf s t e" "sys_reads t s s'" "ex_static e' = ex_static e" "at_pos s' e' bs" "set bs \<subseteq> set (ex_rows s e)"
  shows "ex_moves t e bs s e' s'"
  using assms sys_readsD(1) [OF assms(3)] ex_wf_reads [OF assms(3,2)] ex_rows_reads [OF assms(3)] ex_static_props(3,4) [OF assms(4)]
  by (simp add: ex_moves_def ex_at_def)

lemma seq_static: "ex_static e = ex_static (SeqScanExecutor x) \<Longrightarrow> \<exists>y. e = SeqScanExecutor y"
  "ex_static e = ex_static (ProjectionExecutor p z) \<Longrightarrow> \<exists>q. e = ProjectionExecutor q z \<and> ex_static q = ex_static p"
  "ex_static e = ex_static (NestedLoopJoinExecutor l r w) \<Longrightarrow> \<exists>l' r' w'. e = NestedLoopJoinExecutor l' r' w' \<and> ex_static l' = ex_static l \<and> ex_static r' = ex_static r"
  by (cases e; simp)+

lemma ends_bind_ret: "ends f s (\<lambda>x s'. Q (g x) s') \<Longrightarrow> ends (\<lambda>m n. tm_bind (f m n) (\<lambda>x. tm_ret (g x))) s Q"
  by (erule ends_bind) blast

lemma seq_contract: "ex_contract j key0 t (SeqScanExecutor x0)"
  unfolding ex_contract_def
proof (intro allI impI conjI)
  fix e s bs assume e: "ex_static e = ex_static (SeqScanExecutor x0)" and r: "ex_ready t s e bs"
  obtain x where x: "e = SeqScanExecutor x" using seq_static(1) [OF e] by blast
  have i: "db_inv (sys_db s)" "can_read s t (ss_tab x)" "conds_clean (ss_fed_conds x) (db_rows (sys_db s) (ss_tab x))" "ex_wf s t e"
    "bs = filter (conds_hold (ss_fed_conds x)) (db_rows (sys_db s) (ss_tab x))" "bs = ex_rows s e"
    using r by (simp_all add: ex_ready_def x)
  obtain h where h: "fhs (sys_db s) (ss_tab x) = Some h" using i(2) by (auto simp: can_read_def)
  obtain r0 s1 where s1: "scan_new (ss_tab x) s = Some (Inr r0, s1)" "sys_reads t s s1" "scan_pos s1 (ss_tab x) r0 (db_rids (sys_db s) (ss_tab x))"
    by (rule scan_new_reads [OF i(1) h])
  note d = sys_readsD [OF s1(2)]
  have c: "conds_clean (ss_fed_conds x) (map (tab_rec s1 (ss_tab x)) (db_rids (sys_db s) (ss_tab x)))" using i(3) by (simp add: db_rows_def d(3))
  have dm: "set (db_rids (sys_db s) (ss_tab x)) \<subseteq> dom (db_tab (sys_db s1) (ss_tab x))" using db_rids_tab [OF i(1)] by (simp add: d(3))
  note sk = seq_seek_at [OF d(1) d(6) [OF i(2)] s1(3) dm c]
  have bs: "filter (conds_hold (ss_fed_conds x)) (map (tab_rec s1 (ss_tab x)) (db_rids (sys_db s) (ss_tab x))) = bs"
    using i(5) by (simp add: db_rows_def d(3))
  have "ends (\<lambda>m n. seq_begin n t x) s (\<lambda>y s'. ex_moves t e bs s (SeqScanExecutor y) s')"
    unfolding seq_begin_def
  proof (rule ends_bind_Some)
    show "scan_new (ss_tab x) s = Some (Inr r0, s1)" by (rule s1(1))
    show "ends (\<lambda>m n. tm_bind (seq_seek n t (ss_tab x) (ss_fed_conds x) r0) (\<lambda>r'. tm_ret (seq_at x r'))) s1 (\<lambda>y s'. ex_moves t e bs s (SeqScanExecutor y) s')"
      using sk by (rule ends_mono) (use i(6) bs in \<open>auto simp: x seq_at_def intro!: ex_movesI i(1) i(4) [unfolded x] sys_reads_trans [OF s1(2)]\<close>)
  qed
  then have "ends (\<lambda>m n. ex_begin (Suc n) j key0 t e) s (ex_moves t e bs s)" unfolding x ex_begin.simps by (rule ends_bind_ret)
  then show "ends (\<lambda>m n. ex_begin n j key0 t e) s (ex_moves t e bs s)" by (rule ends_Suc2)
next
  fix e s b bs assume e: "ex_static e = ex_static (SeqScanExecutor x0)" and r: "ex_at t s e (b # bs)"
  obtain x where x: "e = SeqScanExecutor x" using seq_static(1) [OF e] by blast
  have i: "db_inv (sys_db s)" "can_read s t (ss_tab x)" "conds_clean (ss_fed_conds x) (db_rows (sys_db s) (ss_tab x))" "ex_wf s t e" "set (b # bs) \<subseteq> set (ex_rows s e)"
    using r by (simp_all add: ex_at_def x)
  obtain rs where rs: "seq_pos s x rs" "b # bs = filter (conds_hold (ss_fed_conds x)) (map (tab_rec s (ss_tab x)) rs)" using r by (auto simp: ex_at_def x)
  then obtain r1 rs' where r1: "rs = r1 # rs'" by (cases rs) auto
  have bs: "bs = filter (conds_hold (ss_fed_conds x)) (map (tab_rec s (ss_tab x)) rs')" using rs r1 by (simp add: seq_pos_def)
  have p: "ss_scan x = Some (ss_rid x)" "scan_pos s (ss_tab x) (ss_rid x) (r1 # rs')" "set rs' \<subseteq> dom (db_tab (sys_db s) (ss_tab x))"
    using rs(1) r1 by (simp_all add: seq_pos_def)
  obtain r2 s1 where s1: "scan_next (ss_tab x) (ss_rid x) s = Some (Inr r2, s1)" "sys_reads t s s1" "scan_pos s1 (ss_tab x) r2 rs'"
    by (rule scan_next_reads [OF i(1) p(2)])
  note d = sys_readsD [OF s1(2)]
  have sub: "set rs' \<subseteq> set (db_rids (sys_db s) (ss_tab x))" using p(3) db_rids_tab [OF i(1)] by simp
  have c: "conds_clean (ss_fed_conds x) (map (tab_rec s1 (ss_tab x)) rs')"
    using i(3) sub by (auto simp: conds_clean_def list_all_iff db_rows_def d(3))
  have dm: "set rs' \<subseteq> dom (db_tab (sys_db s1) (ss_tab x))" using p(3) by (simp add: d(3))
  note sk = seq_seek_at [OF d(1) d(6) [OF i(2)] s1(3) dm c, unfolded d(3), folded bs]
  have "ends (\<lambda>m n. seq_next n t x) s (\<lambda>y s'. ex_moves t e bs s (SeqScanExecutor y) s')"
    unfolding seq_next_def p(1) option.case
  proof (rule ends_bind_Some)
    show "scan_next (ss_tab x) (ss_rid x) s = Some (Inr r2, s1)" by (rule s1(1))
    show "ends (\<lambda>m n. tm_bind (seq_seek n t (ss_tab x) (ss_fed_conds x) r2) (\<lambda>r'. tm_ret (seq_at x r'))) s1 (\<lambda>y s'. ex_moves t e bs s (SeqScanExecutor y) s')"
      using sk by (rule ends_mono) (use i(5) in \<open>auto simp: x seq_at_def intro!: ex_movesI i(1) i(4) [unfolded x] sys_reads_trans [OF s1(2)]\<close>)
  qed
  then have "ends (\<lambda>m n. ex_next (Suc n) j key0 t e) s (ex_moves t e bs s)" unfolding x ex_next.simps by (rule ends_bind_ret)
  then show "ends (\<lambda>m n. ex_next n j key0 t e) s (ex_moves t e bs s)" by (rule ends_Suc2)
qed

lemma ex_contractD:
  assumes "ex_contract j key0 t e0" "ex_static e = ex_static e0"
  shows "ex_ready t s e bs \<Longrightarrow> ends (\<lambda>m n. ex_begin n j key0 t e) s (ex_moves t e bs s)"
    "ex_at t s e (b # bs) \<Longrightarrow> ends (\<lambda>m n. ex_next n j key0 t e) s (ex_moves t e bs s)"
  using assms unfolding ex_contract_def by blast+

lemma ex_movesD:
  assumes "ex_moves t e bs s e' s'"
  shows "sys_reads t s s'" "ex_static e' = ex_static e" "ex_at t s' e' bs" "ex_rows s' e' = ex_rows s e"
  using assms ex_rows_reads [of t s s'] ex_static_props(3) [of e' e] by (auto simp: ex_moves_def)

lemma projection_moves:
  assumes "ex_moves t p bs s p' s'" "ex_at t s' p' bs"
  shows "ex_moves t (ProjectionExecutor p x) (map (project (ex_cols p) x) bs) s (ProjectionExecutor p' x) s'"
  using assms ex_static_props(1) [OF ex_movesD(2) [OF assms(1)]] by (auto simp: ex_moves_def ex_at_def)

lemma projection_contract:
  assumes p0: "ex_contract j key0 t p0"
  shows "ex_contract j key0 t (ProjectionExecutor p0 x)"
  unfolding ex_contract_def
proof (intro allI impI conjI)
  fix e s bs assume e: "ex_static e = ex_static (ProjectionExecutor p0 x)" and r: "ex_ready t s e bs"
  obtain p where p: "e = ProjectionExecutor p x" "ex_static p = ex_static p0" using seq_static(2) [OF e] by blast
  have rp: "ex_ready t s p (ex_rows s p)" "bs = map (project (ex_cols p) x) (ex_rows s p)" using r by (simp_all add: ex_ready_def p)
  have "ends (\<lambda>m n. ex_begin n j key0 t p) s (\<lambda>p' s'. ex_moves t e bs s (ProjectionExecutor p' x) s')"
    using ex_contractD(1) [OF p0 p(2) rp(1)]
    by (rule ends_mono) (use projection_moves rp(2) ex_movesD(3) in \<open>auto simp: p(1)\<close>)
  then have "ends (\<lambda>m n. ex_begin (Suc n) j key0 t e) s (ex_moves t e bs s)" unfolding p(1) ex_begin.simps by (rule ends_bind_ret)
  then show "ends (\<lambda>m n. ex_begin n j key0 t e) s (ex_moves t e bs s)" by (rule ends_Suc2)
next
  fix e s b bs assume e: "ex_static e = ex_static (ProjectionExecutor p0 x)" and r: "ex_at t s e (b # bs)"
  obtain p where p: "e = ProjectionExecutor p x" "ex_static p = ex_static p0" using seq_static(2) [OF e] by blast
  obtain c cs where c: "at_pos s p (c # cs)" "bs = map (project (ex_cols p) x) cs" "set (c # cs) \<subseteq> set (ex_rows s p)"
    using r by (auto simp: ex_at_def p map_eq_Cons_conv)
  then have rp: "ex_at t s p (c # cs)" using r by (simp add: ex_at_def p)
  have "ends (\<lambda>m n. ex_next n j key0 t p) s (\<lambda>p' s'. ex_moves t e bs s (ProjectionExecutor p' x) s')"
    using ex_contractD(2) [OF p0 p(2) rp]
    by (rule ends_mono) (use projection_moves c(2) ex_movesD(3) in \<open>auto simp: p(1)\<close>)
  then have "ends (\<lambda>m n. ex_next (Suc n) j key0 t e) s (ex_moves t e bs s)" unfolding p(1) ex_next.simps by (rule ends_bind_ret)
  then show "ends (\<lambda>m n. ex_next n j key0 t e) s (ex_moves t e bs s)" by (rule ends_Suc2)
qed

section \<open>The nested loop\<close>

lemma join_inner_pos:
  assumes "ex_contract j key0 t r0" "ex_static r = ex_static r0" "ex_at t s l (a # as)" "ex_at t s r bs"
    "conds_clean cs (map (join_record l r a) bs)"
  defines "P \<equiv> \<lambda>b. conds_hold cs (join_record l r a b)"
  shows "ends (\<lambda>m n. join_inner m (ex_Next j t) (\<lambda>e. ex_next n j key0 t e) cs l r) s
    (\<lambda>(found, l', r') s'. l' = l \<and> (found \<longleftrightarrow> (\<exists>b\<in>set bs. P b)) \<and> ex_moves t r (dropWhile (\<lambda>b. \<not> P b) bs) s r' s')"
  using assms(2-5) unfolding P_def
proof (induction bs arbitrary: s r)
  case Nil
  have e: "ex_is_end r s = Some (Inr True, s)" using at_pos_end [of s r "[]"] Nil.prems(3) by (simp add: ex_at_def)
  have m: "ex_moves t r [] s r s" using Nil.prems(3) sys_reads_refl by (auto simp: ex_moves_def ex_at_def)
  have "join_inner m (ex_Next j t) (\<lambda>e. ex_next n j key0 t e) cs l r s = Some (Inr (False, l, r), s)" if "1 \<le> m" for m n
    using that e by (cases m) (simp_all add: tm_bind_def tm_ret_def)
  then show ?case by (intro endsI [where k = 1 and x = "(False, l, r)" and s' = s]) (use m in auto)
next
  case (Cons b bs)
  have e: "ex_is_end r s = Some (Inr False, s)" using at_pos_end [of s r "b # bs"] Cons.prems(3) by (simp add: ex_at_def)
  obtain s1 where s1: "ex_Next j t l s = Some (Inr (a, l), s1)" "sys_reads t s s1"
    using at_pos_Next [of s t l a as j] Cons.prems(2) by (auto simp: ex_at_def)
  have r1: "ex_at t s1 r (b # bs)" by (rule ex_at_reads [OF Cons.prems(3) s1(2)])
  obtain s2 where s2: "ex_Next j t r s1 = Some (Inr (b, r), s2)" "sys_reads t s1 s2"
    using at_pos_Next [of s1 t r b bs j] r1 by (auto simp: ex_at_def)
  have rd: "sys_reads t s s2" by (rule sys_reads_trans [OF s1(2) s2(2)])
  have chk: "check_conditions cs (join_record l r a b) = Inr (conds_hold cs (join_record l r a b))"
    by (rule check_clean [OF Cons.prems(4)]) simp
  show ?case
  proof (cases "conds_hold cs (join_record l r a b)")
    case True
    have "join_inner m (ex_Next j t) (\<lambda>e. ex_next n j key0 t e) cs l r s = Some (Inr (True, l, r), s2)" if "1 \<le> m" for m n
      using that e s1(1) s2(1) chk True by (cases m) (simp_all add: tm_bind_def tm_ret_def tm_lift_def)
    moreover have "ex_moves t r (b # bs) s r s2" using rd ex_at_reads [OF Cons.prems(3) rd] by (simp add: ex_moves_def)
    ultimately show ?thesis by (intro endsI [where k = 1 and x = "(True, l, r)" and s' = s2]) (use True in auto)
  next
    case False
    let ?Q = "\<lambda>bs r s (found, l', r') s'. l' = l \<and> (found \<longleftrightarrow> (\<exists>b\<in>set bs. conds_hold cs (join_record l r a b))) \<and>
      ex_moves t r (dropWhile (\<lambda>b. \<not> conds_hold cs (join_record l r a b)) bs) s r' s'"
    have "ends (\<lambda>m n. tm_bind (ex_next n j key0 t r) (\<lambda>r. join_inner m (ex_Next j t) (\<lambda>e. ex_next n j key0 t e) cs l r)) s2 (?Q (b # bs) r s)"
    proof (rule ends_bind [OF ex_contractD(2) [OF assms(1) Cons.prems(1) ex_at_reads [OF Cons.prems(3) rd]]])
      fix r' s3 assume mv: "ex_moves t r bs s2 r' s3"
      note d = ex_movesD [OF mv]
      have st: "ex_static r' = ex_static r0" using d(2) Cons.prems(1) by simp
      have jr: "join_record l r' = join_record l r" by (rule join_record_static [OF refl d(2)])
      have rd3: "sys_reads t s s3" by (rule sys_reads_trans [OF rd d(1)])
      have "ends (\<lambda>m n. join_inner m (ex_Next j t) (\<lambda>e. ex_next n j key0 t e) cs l r') s3 (?Q bs r' s3)"
        by (rule Cons.IH [OF st ex_at_reads [OF Cons.prems(2) rd3] d(3)]) (use Cons.prems(4) in \<open>simp add: jr conds_clean_def\<close>)
      then show "ends (\<lambda>m n. join_inner m (ex_Next j t) (\<lambda>e. ex_next n j key0 t e) cs l r') s3 (?Q (b # bs) r s)"
        by (rule ends_mono) (use False jr sys_reads_trans [OF rd3] d(2) in \<open>auto simp: ex_moves_def\<close>)
    qed
    then have "ends (\<lambda>m n. join_inner (Suc m) (ex_Next j t) (\<lambda>e. ex_next n j key0 t e) cs l r) s (?Q (b # bs) r s)"
      by (rule ends_cong) (use e s1(1) s2(1) chk False in \<open>simp add: tm_bind_def tm_lift_def\<close>)
    then show ?thesis by (rule ends_Suc)
  qed
qed

lemma ends_Suc_same: "ends f s Q \<Longrightarrow> ends (\<lambda>m n. f (Suc m) n) s Q"
  unfolding ends_def by (meson le_SucI)

lemma filter_map_drop: "filter P (map f bs) = filter P (map f (dropWhile (\<lambda>b. \<not> P (f b)) bs))"
  by (induction bs) simp_all

lemma dropWhile_found:
  assumes "\<exists>b\<in>set bs. P b"
  obtains b bs' where "dropWhile (\<lambda>b. \<not> P b) bs = b # bs'" "P b"
proof -
  have "\<exists>b bs'. dropWhile (\<lambda>b. \<not> P b) bs = b # bs' \<and> P b" using assms by (induction bs) auto
  then show thesis using that by blast
qed

lemma join_moves:
  assumes "db_inv (sys_db s)" "ex_wf s t (NestedLoopJoinExecutor l r x)" "sys_reads t s s'" "ex_static l' = ex_static l" "ex_static r' = ex_static r"
    "at_pos s' (NestedLoopJoinExecutor l' r' (x\<lparr>nj_isend := e\<rparr>)) rows" "set rows \<subseteq> set (ex_rows s (NestedLoopJoinExecutor l r x))"
  shows "ex_moves t (NestedLoopJoinExecutor l r x) rows s (NestedLoopJoinExecutor l' r' (x\<lparr>nj_isend := e\<rparr>)) s'"
  by (rule ex_movesI [OF assms(1,2,3) _ assms(6,7)]) (simp add: assms(4,5))

text \<open>The records still to come when the left child is at \<open>as\<close> and the right child at \<open>bs\<close>.\<close>

definition join_todo :: "tm_sys \<Rightarrow> executor \<Rightarrow> executor \<Rightarrow> nested_loop_join \<Rightarrow> bytes list \<Rightarrow> bytes list \<Rightarrow> bytes list" where
  "join_todo s l r x as bs =
     (case as of [] \<Rightarrow> []
      | a # as \<Rightarrow> filter (conds_hold (nj_conds x)) (map (join_record l r a) bs @ join_rows (join_record l r) as (ex_rows s r)))"

lemma join_todo_rows: "set as \<subseteq> set (ex_rows s l) \<Longrightarrow> set bs \<subseteq> set (ex_rows s r) \<Longrightarrow>
    set (join_todo s l r x as bs) \<subseteq> set (ex_rows s (NestedLoopJoinExecutor l r x))"
  by (cases as) (auto simp: join_todo_def join_rows_def)

lemma join_todo_full: "join_todo s l r x as (ex_rows s r) = filter (conds_hold (nj_conds x)) (join_rows (join_record l r) as (ex_rows s r))"
  by (cases as) (simp_all add: join_todo_def join_rows_def)

lemma join_step:
  assumes r0: "ex_contract j key0 t r0" "ex_static r = ex_static r0" and l: "ex_at t s l (a # as)" and r: "ex_at t s r bs"
    and w: "ex_wf s t (NestedLoopJoinExecutor l r x)"
  shows "ends (\<lambda>m n. join_inner (Suc m) (ex_Next j t) (\<lambda>e. ex_next n j key0 t e) (nj_conds x) l r) s
    (\<lambda>(found, l', r') s'. l' = l \<and> sys_reads t s s' \<and> ex_static r' = ex_static r \<and>
       (if found then ex_moves t (NestedLoopJoinExecutor l r x) (join_todo s l r x (a # as) bs) s (NestedLoopJoinExecutor l r' (x\<lparr>nj_isend := False\<rparr>)) s'
        else filter (conds_hold (nj_conds x)) (map (join_record l r a) bs) = []))"
proof -
  let ?P = "conds_hold (nj_conds x)"
  have sub: "set (a # as) \<subseteq> set (ex_rows s l)" "set bs \<subseteq> set (ex_rows s r)" using l r by (simp_all add: ex_at_def)
  have cl: "conds_clean (nj_conds x) (map (join_record l r a) bs)"
    using w sub by (auto simp: conds_clean_def list_all_iff join_rows_def)
  have db: "db_inv (sys_db s)" using l by (simp add: ex_at_def)
  show ?thesis
  proof (rule ends_mono [OF ends_Suc_same [OF join_inner_pos [OF r0 l r cl]]])
    fix y s' assume "(case y of (found, l', r') \<Rightarrow> \<lambda>s'. l' = l \<and> (found \<longleftrightarrow> (\<exists>b\<in>set bs. ?P (join_record l r a b))) \<and>
      ex_moves t r (dropWhile (\<lambda>b. \<not> ?P (join_record l r a b)) bs) s r' s') s'"
    then obtain r' where y: "y = (\<exists>b\<in>set bs. ?P (join_record l r a b), l, r')"
      and mv: "ex_moves t r (dropWhile (\<lambda>b. \<not> ?P (join_record l r a b)) bs) s r' s'" by (cases y) auto
    note d = ex_movesD [OF mv]
    have jr: "join_record l r' = join_record l r" by (rule join_record_static [OF refl d(2)])
    have rw: "ex_rows s' r' = ex_rows s r" by (rule d(4))
    have l': "at_pos s' l (a # as)" "set (a # as) \<subseteq> set (ex_rows s' l)" using ex_at_reads [OF l d(1)] by (simp_all add: ex_at_def)
    have "ex_moves t (NestedLoopJoinExecutor l r x) (join_todo s l r x (a # as) bs) s (NestedLoopJoinExecutor l r' (x\<lparr>nj_isend := False\<rparr>)) s'"
      if ex: "\<exists>b\<in>set bs. ?P (join_record l r a b)"
    proof -
      obtain b bs' where b: "dropWhile (\<lambda>b. \<not> ?P (join_record l r a b)) bs = b # bs'" "?P (join_record l r a b)"
        by (rule dropWhile_found [OF ex])
      have "at_pos s' r' (b # bs')" "set (b # bs') \<subseteq> set (ex_rows s' r')" using d(3) b(1) by (simp_all add: ex_at_def)
      moreover have "join_todo s l r x (a # as) bs = filter ?P (map (join_record l r a) (b # bs') @ join_rows (join_record l r) as (ex_rows s r))"
        using filter_map_drop [of ?P "join_record l r a" bs] by (simp add: join_todo_def b(1))
      ultimately have "at_pos s' (NestedLoopJoinExecutor l r' (x\<lparr>nj_isend := False\<rparr>)) (join_todo s l r x (a # as) bs)"
        unfolding at_pos.simps jr rw using l' b(2) by (simp del: list.set filter.simps map_append filter_append) blast
      then show ?thesis by (rule join_moves [OF db w d(1) refl d(2) _ join_todo_rows [OF sub]])
    qed
    then show "(case y of (found, l', r') \<Rightarrow> \<lambda>s'. l' = l \<and> sys_reads t s s' \<and> ex_static r' = ex_static r \<and>
       (if found then ex_moves t (NestedLoopJoinExecutor l r x) (join_todo s l r x (a # as) bs) s (NestedLoopJoinExecutor l r' (x\<lparr>nj_isend := False\<rparr>)) s'
        else filter ?P (map (join_record l r a) bs) = [])) s'"
      using d(1,2) by (simp add: y filter_empty_conv)
  qed
qed

lemma join_end_moves:
  assumes "ex_at t s l []" "ex_wf s t (NestedLoopJoinExecutor l r x)"
  shows "ex_is_end l s = Some (Inr True, s)"
    "ex_moves t (NestedLoopJoinExecutor l r x) [] s (NestedLoopJoinExecutor l r (x\<lparr>nj_isend := True\<rparr>)) s"
proof -
  show "ex_is_end l s = Some (Inr True, s)" using at_pos_end [of s l "[]"] assms(1) by (simp add: ex_at_def)
  have db: "db_inv (sys_db s)" using assms(1) by (simp add: ex_at_def)
  show "ex_moves t (NestedLoopJoinExecutor l r x) [] s (NestedLoopJoinExecutor l r (x\<lparr>nj_isend := True\<rparr>)) s"
    by (rule join_moves [OF db assms(2) sys_reads_refl [OF db] refl refl]) simp_all
qed

text \<open>A move of the children carries over from one state of the join to another.\<close>

lemma join_wf_reads:
  assumes "ex_wf s t (NestedLoopJoinExecutor l r x)" "sys_reads t s s'" "ex_static l' = ex_static l" "ex_static r' = ex_static r"
  shows "ex_wf s' t (NestedLoopJoinExecutor l' r' x)" "join_todo s' l' r' x as bs = join_todo s l r x as bs"
proof -
  have "ex_static (NestedLoopJoinExecutor l' r' x) = ex_static (NestedLoopJoinExecutor l r x)" using assms(3,4) by simp
  then show "ex_wf s' t (NestedLoopJoinExecutor l' r' x)" using ex_static_props(4) ex_wf_reads [OF assms(2,1)] by blast
  show "join_todo s' l' r' x as bs = join_todo s l r x as bs"
    using join_record_static [OF assms(3,4)] ex_static_props(3) [OF assms(4)] ex_rows_reads [OF assms(2)]
    by (cases as) (simp_all add: join_todo_def)
qed

lemma join_moves_trans:
  assumes "ex_moves t (NestedLoopJoinExecutor l1 r1 x) bs s1 (NestedLoopJoinExecutor l2 r2 (x\<lparr>nj_isend := e\<rparr>)) s2"
    "sys_reads t s s1" "ex_static l1 = ex_static l" "ex_static r1 = ex_static r"
  shows "ex_moves t (NestedLoopJoinExecutor l r x) bs s (NestedLoopJoinExecutor l2 r2 (x\<lparr>nj_isend := e\<rparr>)) s2"
  using assms sys_reads_trans by (auto simp: ex_moves_def)

definition join_post :: "txn_id \<Rightarrow> executor \<Rightarrow> executor \<Rightarrow> nested_loop_join \<Rightarrow> bytes list \<Rightarrow> tm_sys \<Rightarrow> bool \<times> executor \<times> executor \<Rightarrow> tm_sys \<Rightarrow> bool" where
  "join_post t l r x rows s = (\<lambda>(e, l', r') s'.
     ex_moves t (NestedLoopJoinExecutor l r x) rows s (NestedLoopJoinExecutor l' r' (x\<lparr>nj_isend := e\<rparr>)) s')"

lemma join_found:
  assumes "(case y of (found, l', r') \<Rightarrow> \<lambda>s'. l' = l \<and> sys_reads t s s' \<and> ex_static r' = ex_static r \<and> (if found then A r' s' else B)) s'"
    "\<And>r'. A r' s' \<Longrightarrow> Q (False, l, r') s'"
    "\<And>r'. sys_reads t s s' \<Longrightarrow> ex_static r' = ex_static r \<Longrightarrow> B \<Longrightarrow> ends (\<lambda>m n. f m n l r') s' Q"
  shows "ends (\<lambda>m n. case y of (found, l, r) \<Rightarrow> if found then tm_ret (False, l, r) else f m n l r) s' Q"
proof -
  obtain found r' where y: "y = (found, l, r')" using assms(1) by (cases y) auto
  show ?thesis using assms by (cases found) (auto simp: y)
qed

lemma join_next_pos:
  assumes l0: "ex_contract j key0 t l0" and r0: "ex_contract j key0 t r0"
    and "ex_static l = ex_static l0" "ex_static r = ex_static r0" "ex_at t s l as" "ex_at t s r bs" "ex_wf s t (NestedLoopJoinExecutor l r x)"
  shows "ends (\<lambda>m n. join_next_loop m (ex_Next j t) (\<lambda>e. ex_begin n j key0 t e) (\<lambda>e. ex_next n j key0 t e) (nj_conds x) l r) s
    (join_post t l r x (join_todo s l r x as bs) s)"
  using assms(3-)
proof (induction as arbitrary: s l r bs)
  case Nil
  note d = join_end_moves [OF Nil.prems(3,5)]
  have "join_next_loop m (ex_Next j t) (\<lambda>e. ex_begin n j key0 t e) (\<lambda>e. ex_next n j key0 t e) (nj_conds x) l r s = Some (Inr (True, l, r), s)"
    if "1 \<le> m" for m n using that d(1) by (cases m) (simp_all add: tm_bind_def tm_ret_def)
  then show ?case by (intro endsI [where k = 1 and x = "(True, l, r)" and s' = s]) (use d(2) in \<open>auto simp: join_post_def join_todo_def\<close>)
next
  case (Cons a as)
  let ?todo = "join_todo s l r x (a # as) bs"
  let ?loop = "\<lambda>m n l r. join_next_loop m (ex_Next j t) (\<lambda>e. ex_begin n j key0 t e) (\<lambda>e. ex_next n j key0 t e) (nj_conds x) l r"
  have e: "ex_is_end l s = Some (Inr False, s)" using at_pos_end [of s l "a # as"] Cons.prems(3) by (simp add: ex_at_def)
  have rest: "ends (\<lambda>m n. tm_bind (ex_next n j key0 t l) (\<lambda>l. tm_bind (ex_begin n j key0 t r1) (\<lambda>r. ?loop m n l r))) s1 (join_post t l r x ?todo s)"
    if "sys_reads t s s1" "ex_static r1 = ex_static r" "filter (conds_hold (nj_conds x)) (map (join_record l r a) bs) = []" for r1 s1
  proof (rule ends_bind [OF ex_contractD(2) [OF l0 Cons.prems(1) ex_at_reads [OF Cons.prems(3) that(1)]]])
    fix l2 s2 assume "ex_moves t l as s1 l2 s2"
    note d2 = ex_movesD [OF this]
    have rd2: "sys_reads t s s2" by (rule sys_reads_trans [OF that(1) d2(1)])
    have rdy: "ex_ready t s2 r1 (ex_rows s r)"
      using Cons.prems(4) sys_readsD(1) [OF rd2] ex_wf_reads [OF rd2] ex_static_props(3,4) [OF that(2)] ex_rows_reads [OF rd2]
      by (simp add: ex_ready_def ex_at_def)
    have st1: "ex_static r1 = ex_static r0" using that(2) Cons.prems(2) by simp
    show "ends (\<lambda>m n. tm_bind (ex_begin n j key0 t r1) (\<lambda>r. ?loop m n l2 r)) s2 (join_post t l r x ?todo s)"
    proof (rule ends_bind [OF ex_contractD(1) [OF r0 st1 rdy]])
      fix r3 s3 assume "ex_moves t r1 (ex_rows s r) s2 r3 s3"
      note d3 = ex_movesD [OF this]
      have rd3: "sys_reads t s s3" by (rule sys_reads_trans [OF rd2 d3(1)])
      have st: "ex_static l2 = ex_static l" "ex_static r3 = ex_static r" "ex_static l2 = ex_static l0" "ex_static r3 = ex_static r0"
        using d2(2) d3(2) that(2) Cons.prems(1,2) by simp_all
      note w = join_wf_reads [OF Cons.prems(5) rd3 st(1,2)]
      have "join_todo s3 l2 r3 x as (ex_rows s r) = ?todo" unfolding w(2) join_todo_full using that(3) by (simp add: join_todo_def)
      then have "ends (\<lambda>m n. ?loop m n l2 r3) s3 (join_post t l2 r3 x ?todo s3)"
        using Cons.IH [OF st(3,4) ex_at_reads [OF d2(3) d3(1)] d3(3) w(1)] by simp
      then show "ends (\<lambda>m n. ?loop m n l2 r3) s3 (join_post t l r x ?todo s)"
        by (rule ends_mono) (use join_moves_trans [OF _ rd3 st(1,2)] in \<open>auto simp: join_post_def\<close>)
    qed
  qed
  have "ends (\<lambda>m n. tm_bind (join_inner (Suc m) (ex_Next j t) (\<lambda>e. ex_next n j key0 t e) (nj_conds x) l r) (\<lambda>(found, l, r).
      if found then tm_ret (False, l, r) else tm_bind (ex_next n j key0 t l) (\<lambda>l. tm_bind (ex_begin n j key0 t r) (\<lambda>r. ?loop m n l r)))) s
      (join_post t l r x ?todo s)"
    by (rule ends_bind [OF join_step [OF r0 Cons.prems(2-5)]], erule join_found) (use rest in \<open>simp_all add: join_post_def\<close>)
  then have "ends (\<lambda>m n. ?loop (Suc m) n l r) s (join_post t l r x ?todo s)"
    by (rule ends_cong) (use e in \<open>simp add: tm_bind_def\<close>)
  then show ?case by (rule ends_Suc)
qed

lemma join_begin_pos:
  assumes l0: "ex_contract j key0 t l0" and r0: "ex_contract j key0 t r0"
    and "ex_static l = ex_static l0" "ex_static r = ex_static r0" "ex_at t s l as" "ex_wf s t (NestedLoopJoinExecutor l r x)"
  shows "ends (\<lambda>m n. join_begin_loop m (ex_Next j t) (\<lambda>e. ex_begin n j key0 t e) (\<lambda>e. ex_next n j key0 t e) (nj_conds x) l r) s
    (join_post t l r x (join_todo s l r x as (ex_rows s r)) s)"
  using assms(3-)
proof (induction as arbitrary: s l r)
  case Nil
  note d = join_end_moves [OF Nil.prems(3,4)]
  have "join_begin_loop m (ex_Next j t) (\<lambda>e. ex_begin n j key0 t e) (\<lambda>e. ex_next n j key0 t e) (nj_conds x) l r s = Some (Inr (True, l, r), s)"
    if "1 \<le> m" for m n using that d(1) by (cases m) (simp_all add: tm_bind_def tm_ret_def)
  then show ?case by (intro endsI [where k = 1 and x = "(True, l, r)" and s' = s]) (use d(2) in \<open>auto simp: join_post_def join_todo_def\<close>)
next
  case (Cons a as)
  let ?R = "ex_rows s r"
  let ?todo = "join_todo s l r x (a # as) ?R"
  let ?loop = "\<lambda>m n l r. join_begin_loop m (ex_Next j t) (\<lambda>e. ex_begin n j key0 t e) (\<lambda>e. ex_next n j key0 t e) (nj_conds x) l r"
  have e: "ex_is_end l s = Some (Inr False, s)" using at_pos_end [of s l "a # as"] Cons.prems(3) by (simp add: ex_at_def)
  have rdy: "ex_ready t s r ?R" using Cons.prems(3,4) by (simp add: ex_ready_def ex_at_def)
  have "ends (\<lambda>m n. tm_bind (ex_begin n j key0 t r) (\<lambda>r. tm_bind (join_inner (Suc m) (ex_Next j t) (\<lambda>e. ex_next n j key0 t e) (nj_conds x) l r) (\<lambda>(found, l, r).
      if found then tm_ret (False, l, r) else tm_bind (ex_next n j key0 t l) (\<lambda>l. ?loop m n l r)))) s (join_post t l r x ?todo s)"
  proof (rule ends_bind [OF ex_contractD(1) [OF r0 Cons.prems(2) rdy]])
    fix r1 s1 assume "ex_moves t r ?R s r1 s1"
    note d1 = ex_movesD [OF this]
    have st1: "ex_static r1 = ex_static r0" using d1(2) Cons.prems(2) by simp
    note w1 = join_wf_reads [OF Cons.prems(4) d1(1) refl d1(2)]
    have rest: "ends (\<lambda>m n. tm_bind (ex_next n j key0 t l) (\<lambda>l. ?loop m n l r2)) s2 (join_post t l r x ?todo s)"
      if "sys_reads t s1 s2" "ex_static r2 = ex_static r1" "filter (conds_hold (nj_conds x)) (map (join_record l r1 a) ?R) = []" for r2 s2
    proof -
      have rd2: "sys_reads t s s2" by (rule sys_reads_trans [OF d1(1) that(1)])
      show ?thesis
      proof (rule ends_bind [OF ex_contractD(2) [OF l0 Cons.prems(1) ex_at_reads [OF Cons.prems(3) rd2]]])
        fix l3 s3 assume "ex_moves t l as s2 l3 s3"
        note d3 = ex_movesD [OF this]
        have rd3: "sys_reads t s s3" by (rule sys_reads_trans [OF rd2 d3(1)])
        have st: "ex_static l3 = ex_static l" "ex_static r2 = ex_static r" "ex_static l3 = ex_static l0" "ex_static r2 = ex_static r0"
          using d3(2) d1(2) that(2) Cons.prems(1,2) by simp_all
        note w = join_wf_reads [OF Cons.prems(4) rd3 st(1,2)]
        have "ex_rows s3 r2 = ?R" using ex_rows_reads [OF rd3] ex_static_props(3) [OF st(2)] by simp
        then have "join_todo s3 l3 r2 x as (ex_rows s3 r2) = ?todo"
          unfolding w(2) using that(3) join_record_static [OF refl d1(2)] by (simp add: join_todo_full join_rows_def)
        then have "ends (\<lambda>m n. ?loop m n l3 r2) s3 (join_post t l3 r2 x ?todo s3)" using Cons.IH [OF st(3,4) d3(3) w(1)] by simp
        then show "ends (\<lambda>m n. ?loop m n l3 r2) s3 (join_post t l r x ?todo s)"
          by (rule ends_mono) (use join_moves_trans [OF _ rd3 st(1,2)] in \<open>auto simp: join_post_def\<close>)
      qed
    qed
    show "ends (\<lambda>m n. tm_bind (join_inner (Suc m) (ex_Next j t) (\<lambda>e. ex_next n j key0 t e) (nj_conds x) l r1) (\<lambda>(found, l, r).
      if found then tm_ret (False, l, r) else tm_bind (ex_next n j key0 t l) (\<lambda>l. ?loop m n l r))) s1 (join_post t l r x ?todo s)"
      by (rule ends_bind [OF join_step [OF r0 st1 ex_at_reads [OF Cons.prems(3) d1(1)] d1(3) w1(1)]], erule join_found)
        (use rest join_moves_trans [OF _ d1(1) refl d1(2)] w1(2) in \<open>simp_all add: join_post_def\<close>)
  qed
  then have "ends (\<lambda>m n. ?loop (Suc m) n l r) s (join_post t l r x ?todo s)"
    by (rule ends_cong) (use e in \<open>simp add: tm_bind_def\<close>)
  then show ?case by (rule ends_Suc)
qed

lemma join_contract:
  assumes l0: "ex_contract j key0 t l0" and r0: "ex_contract j key0 t r0"
  shows "ex_contract j key0 t (NestedLoopJoinExecutor l0 r0 x0)"
  unfolding ex_contract_def
proof (intro allI impI conjI)
  fix e s bs assume e: "ex_static e = ex_static (NestedLoopJoinExecutor l0 r0 x0)" and rd: "ex_ready t s e bs"
  obtain l r x where x: "e = NestedLoopJoinExecutor l r x" "ex_static l = ex_static l0" "ex_static r = ex_static r0" using seq_static(3) [OF e] by blast
  have i: "db_inv (sys_db s)" "ex_wf s t (NestedLoopJoinExecutor l r x)" "bs = ex_rows s e" "ex_ready t s l (ex_rows s l)"
    using rd by (simp_all add: ex_ready_def x(1))
  have bs: "join_todo s l r x (ex_rows s l) (ex_rows s r) = bs" by (simp add: join_todo_full i(3) x(1))
  have "ends (\<lambda>m n. tm_bind (ex_begin n j key0 t l) (\<lambda>l. tm_bind (join_begin_loop n (ex_Next j t) (\<lambda>e. ex_begin n j key0 t e)
      (\<lambda>e. ex_next n j key0 t e) (nj_conds x) l r) (\<lambda>(e, l, r). tm_ret (NestedLoopJoinExecutor l r (x\<lparr>nj_isend := e\<rparr>))))) s (ex_moves t e bs s)"
  proof (rule ends_bind [OF ex_contractD(1) [OF l0 x(2) i(4)]])
    fix l1 s1 assume "ex_moves t l (ex_rows s l) s l1 s1"
    note d = ex_movesD [OF this]
    have st: "ex_static l1 = ex_static l0" using d(2) x(2) by simp
    note w = join_wf_reads [OF i(2) d(1,2) refl]
    have "ends (\<lambda>m n. join_begin_loop n (ex_Next j t) (\<lambda>e. ex_begin n j key0 t e) (\<lambda>e. ex_next n j key0 t e) (nj_conds x) l1 r) s1 (join_post t l1 r x bs s1)"
      using ends_same [OF join_begin_pos [OF l0 r0 st x(3) d(3) w(1)]] by (simp add: w(2) ex_rows_reads [OF d(1)] bs)
    then show "ends (\<lambda>m n. tm_bind (join_begin_loop n (ex_Next j t) (\<lambda>e. ex_begin n j key0 t e) (\<lambda>e. ex_next n j key0 t e) (nj_conds x) l1 r)
        (\<lambda>(e, l, r). tm_ret (NestedLoopJoinExecutor l r (x\<lparr>nj_isend := e\<rparr>)))) s1 (ex_moves t e bs s)"
      by (rule ends_bind) (use join_moves_trans [OF _ d(1,2) refl] x(1) in \<open>auto simp: join_post_def\<close>)
  qed
  then have "ends (\<lambda>m n. ex_begin (Suc n) j key0 t e) s (ex_moves t e bs s)" unfolding x(1) ex_begin.simps .
  then show "ends (\<lambda>m n. ex_begin n j key0 t e) s (ex_moves t e bs s)" by (rule ends_Suc2)
next
  fix e s b bs assume e: "ex_static e = ex_static (NestedLoopJoinExecutor l0 r0 x0)" and at: "ex_at t s e (b # bs)"
  obtain l r x where x: "e = NestedLoopJoinExecutor l r x" "ex_static l = ex_static l0" "ex_static r = ex_static r0" using seq_static(3) [OF e] by blast
  have i: "db_inv (sys_db s)" "ex_wf s t (NestedLoopJoinExecutor l r x)" "at_pos s (NestedLoopJoinExecutor l r x) (b # bs)" "\<not> nj_isend x"
    using at by (auto simp: ex_at_def x(1) split: if_splits)
  obtain a as c cs where p: "at_pos s l (a # as)" "at_pos s r (c # cs)" "set (a # as) \<subseteq> set (ex_rows s l)" "set (c # cs) \<subseteq> set (ex_rows s r)"
    "bs = join_todo s l r x (a # as) cs" using i(3,4) by (auto simp: join_todo_def)
  have lr: "ex_at t s l (a # as)" "ex_at t s r (c # cs)" using p i(1,2) by (simp_all add: ex_at_def)
  have "ends (\<lambda>m n. tm_bind (ex_next n j key0 t r) (\<lambda>r. tm_bind (join_next_loop n (ex_Next j t) (\<lambda>e. ex_begin n j key0 t e)
      (\<lambda>e. ex_next n j key0 t e) (nj_conds x) l r) (\<lambda>(e, l, r). tm_ret (NestedLoopJoinExecutor l r (x\<lparr>nj_isend := nj_isend x \<or> e\<rparr>))))) s (ex_moves t e bs s)"
  proof (rule ends_bind [OF ex_contractD(2) [OF r0 x(3) lr(2)]])
    fix r1 s1 assume "ex_moves t r cs s r1 s1"
    note d = ex_movesD [OF this]
    have st: "ex_static r1 = ex_static r0" using d(2) x(3) by simp
    note w = join_wf_reads [OF i(2) d(1) refl d(2)]
    have "ends (\<lambda>m n. join_next_loop n (ex_Next j t) (\<lambda>e. ex_begin n j key0 t e) (\<lambda>e. ex_next n j key0 t e) (nj_conds x) l r1) s1 (join_post t l r1 x bs s1)"
      using ends_same [OF join_next_pos [OF l0 r0 x(2) st ex_at_reads [OF lr(1) d(1)] d(3) w(1)]] by (simp add: w(2) p(5))
    then show "ends (\<lambda>m n. tm_bind (join_next_loop n (ex_Next j t) (\<lambda>e. ex_begin n j key0 t e) (\<lambda>e. ex_next n j key0 t e) (nj_conds x) l r1)
        (\<lambda>(e, l, r). tm_ret (NestedLoopJoinExecutor l r (x\<lparr>nj_isend := nj_isend x \<or> e\<rparr>)))) s1 (ex_moves t e bs s)"
      by (rule ends_bind) (use join_moves_trans [OF _ d(1) refl d(2)] x(1) i(4) in \<open>auto simp: join_post_def\<close>)
  qed
  then have "ends (\<lambda>m n. ex_next (Suc n) j key0 t e) s (ex_moves t e bs s)" unfolding x(1) ex_next.simps .
  then show "ends (\<lambda>m n. ex_next n j key0 t e) s (ex_moves t e bs s)" by (rule ends_Suc2)
qed

lemma ex_contract_all: "ex_contract j key0 t e"
proof (induction e)
  case (IndexScanExecutor x)
  have "\<not> ex_wf s t e" if "ex_static e = ex_static (IndexScanExecutor x)" for s e using that by (cases e) simp_all
  then show ?case by (simp add: ex_contract_def ex_ready_def ex_at_def)
next
  case (AggregationExecutor p x)
  have "\<not> ex_wf s t e" if "ex_static e = ex_static (AggregationExecutor p x)" for s e using that by (cases e) simp_all
  then show ?case by (simp add: ex_contract_def ex_ready_def ex_at_def)
qed (rule seq_contract projection_contract join_contract; assumption)+

interpretation ex: tuple_source "\<lambda>k. ex_begin k j key0 t" "\<lambda>k. ex_next k j key0 t" ex_is_end "ex_Next j t" "ex_ready t" "ex_at t" "sys_reads t"
  for j key0 t
proof unfold_locales
  fix s e bs assume "ex_ready t s e bs"
  then show "ends (\<lambda>m n. ex_begin n j key0 t e) s (\<lambda>e' s'. sys_reads t s s' \<and> ex_at t s' e' bs)"
    by (rule ends_mono [OF ex_contractD(1) [OF ex_contract_all refl]]) (simp add: ex_moves_def)
next
  fix s e b bs assume "ex_at t s e (b # bs)"
  then show "ends (\<lambda>m n. ex_next n j key0 t e) s (\<lambda>e' s'. sys_reads t s s' \<and> ex_at t s' e' bs)"
    by (rule ends_mono [OF ex_contractD(2) [OF ex_contract_all refl]]) (simp add: ex_moves_def)
next
  fix s e b bs assume at: "ex_at t s e (b # bs)"
  then obtain s' where "ex_Next j t e s = Some (Inr (b, e), s')" "sys_reads t s s'" using at_pos_Next [of s t e b bs j] by (auto simp: ex_at_def)
  then show "\<exists>s'. ex_Next j t e s = Some (Inr (b, e), s') \<and> sys_reads t s s' \<and> ex_at t s' e (b # bs)" using ex_at_reads [OF at] by blast
qed (auto simp: ex_at_def sys_reads_refl at_pos_end intro: sys_reads_trans)

lemma foldE_append: "foldE (\<lambda>b acc. Inr (acc @ [b])) bs acc = Inr (acc @ bs)"
  by (induction bs arbitrary: acc) simp_all

lemma tm_bind_lift_Inr [simp]: "tm_bind (tm_lift (Inr x)) f = f x"
  by (simp add: tm_bind_def tm_lift_def tm_ret_def fun_eq_iff)

text \<open>C2. A SELECT over sequential scans, projections and nested loop joins, on tables the transaction can read and with conditions whose comparisons are defined on the records, ends and delivers exactly the records the operator tree stands for: for a scan the records of the table that satisfy its conditions, in the order of their positions, for a projection the projections of its child's records, for a join the pairs that satisfy its conditions with the left record running slower. It changes no table.\<close>

theorem select_correct:
  assumes "db_inv (sys_db s)" "ex_wf s t e"
  shows "\<exists>s' k0. sys_reads t s s' \<and> (\<forall>k\<ge>k0. run_select k j key0 t e s = Some (Inr (ex_rows s e), s'))"
proof -
  have rdy: "ex_ready t s e (ex_rows s e)" using assms by (simp add: ex_ready_def)
  let ?dr = "\<lambda>m n e. drain m ex_is_end (ex_next n j key0 t) (\<lambda>e acc. tm_bind (ex_Next j t e) (\<lambda>(b, e). tm_ret (e, acc @ [b]))) e []"
  have "ends (\<lambda>m n. tm_bind (ex_begin n j key0 t e) (\<lambda>e. tm_bind (?dr n n e) (\<lambda>(e, rows). tm_ret rows))) s
      (\<lambda>rows s'. rows = ex_rows s e \<and> sys_reads t s s')"
  proof (rule ends_bind [OF ex.begin_pos [OF rdy]], elim conjE)
    fix e1 s1 assume rd: "sys_reads t s s1" and at: "ex_at t s1 e1 (ex_rows s e)"
    have "ends (\<lambda>m n. ?dr n n e1) s1 (\<lambda>r s'. sys_reads t s1 s' \<and> snd r = ex_rows s e)"
      using ends_same [OF ex.drain_fold [OF at, where g = "\<lambda>b acc. Inr (acc @ [b])" and acc = "[]"]] by (simp add: foldE_append)
    then show "ends (\<lambda>m n. tm_bind (?dr n n e1) (\<lambda>(e, rows). tm_ret rows)) s1 (\<lambda>rows s'. rows = ex_rows s e \<and> sys_reads t s s')"
      by (rule ends_bind) (auto intro: sys_reads_trans [OF rd])
  qed
  then have "ends (\<lambda>m n. run_select n j key0 t e) s (\<lambda>rows s'. rows = ex_rows s e \<and> sys_reads t s s')" by (simp add: run_select_def)
  then show ?thesis by (rule endsD) blast
qed

text \<open>A system whose table holds one record.\<close>

lemma one_record_sys:
  obtains s where "db_inv (sys_db s)" "can_read s 1 ''t''" "db_rows (sys_db s) ''t'' = [replicate 8 7]"
proof -
  obtain r h p where i: "rm_inv h p" "rm_room p" "rm_contents h p = [r \<mapsto> replicate 8 7]" by (rule sample_inserted) blast
  let ?db = "\<lparr>fhs = [''t'' \<mapsto> h], pool = p\<rparr>"
  let ?s = "txn_sys ?db []"
  have inv: "db_inv (sys_db ?s)" using i(1,2) by (auto simp: db_inv_def txn_sys_def)
  have "set (rm_rids h p) = {r}" using set_rm_rids [OF i(1)] i(3) by auto
  moreover have "distinct (rm_rids h p)" by (rule distinct_rm_rids)
  ultimately have "rm_rids h p = [r]"
    by (cases "rm_rids h p"; cases "tl (rm_rids h p)") auto
  then have "db_rows (sys_db ?s) ''t'' = [replicate 8 7]" by (simp add: db_rows_def db_rids_def db_tab_def txn_sys_def i(3))
  moreover have "can_read ?s 1 ''t''"
    by (simp add: can_read_def may_read_def txn_sys_def lm_init_def get_lock_request_queue_def lock_compatible_def lock_matrix_def)
  ultimately show ?thesis using that inv by blast
qed

theorem select_correct_witness:
  "\<exists>s s' k0. db_rows (sys_db s) ''t'' = [replicate 8 7] \<and>
     (\<forall>k\<ge>k0. run_select k 0 [] 1
       (NestedLoopJoinExecutor (sample_scan [sample_cond (demo_col ''a'' 0) OP_GT (set_int 7 fresh_value)]) (sample_scan [])
         \<lparr>nj_len = 16, nj_cols = [], nj_conds = [], nj_isend = False\<rparr>) s = Some (Inr [replicate 16 7], s'))"
proof -
  obtain s where s: "db_inv (sys_db s)" "can_read s 1 ''t''" "db_rows (sys_db s) ''t'' = [replicate 8 7]" by (rule one_record_sys)
  let ?c = "sample_cond (demo_col ''a'' 0) OP_GT (set_int 7 fresh_value)"
  let ?e = "NestedLoopJoinExecutor (sample_scan [?c]) (sample_scan []) \<lparr>nj_len = 16, nj_cols = [], nj_conds = [], nj_isend = False\<rparr>"
  have h: "conds_hold [?c] (replicate 8 7)" "conds_clean [?c] [replicate 8 7]"
    by (simp_all add: conds_hold_def conds_clean_def sample_cond_def demo_col_def cond_holds_def cell_rank_def cell_def value_rank.simps set_int_def
        int_val_def mem_read_def get_int_def dec_int_def wrap32_def Let_def replicate_small cond_wf_def cond_clean_def val_fits_def col_clean_def)
  have "ex_rows s ?e = [replicate 16 7]"
    using h(1) s(3) replicate_add [of 8 8 "7 :: byte"]
    by (simp add: sample_scan_def join_rows_def join_record_def mem_read_def conds_hold_def [of "[]"])
  moreover have "ex_wf s 1 ?e" using h(2) s by (simp add: sample_scan_def conds_clean_def list_all_iff)
  ultimately show ?thesis using select_correct [OF s(1), of 1 ?e 0 "[]"] s(3) by metis
qed

end
