(* ===== verification/Agg_Correct.thy ===== *)
theory Agg_Correct
  imports Query_Correct
begin

text \<open>
  What an aggregation returns. Over \<^verbatim>\<open>INT\<close> columns the running totals are the count, the sum with
  wrap-around, the maximum and the minimum of the column over the child's records, whatever operator
  tree the child is; grouping partitions the records by their key, in the order in which the keys
  first appear.
\<close>

section \<open>Totals\<close>

definition col_int :: "col_meta \<Rightarrow> bytes \<Rightarrow> int" where
  "col_int co r = get_int r (nat (cm_offset co))"

definition agg_spec :: "col_meta \<Rightarrow> bytes list \<Rightarrow> int" where
  "agg_spec co rs =
     (case cm_aggr co of
        NO_AGGR \<Rightarrow> col_int co (hd rs)
      | AGGR_TYPE_COUNT \<Rightarrow> wrap32 (int (length rs))
      | AGGR_TYPE_SUM \<Rightarrow> wrap32 (sum_list (map (col_int co) rs))
      | AGGR_TYPE_MAX \<Rightarrow> if rs = [] then INT_MIN else Max (col_int co ` set rs)
      | AGGR_TYPE_MIN \<Rightarrow> if rs = [] then INT_MAX else Min (col_int co ` set rs))"

text \<open>The columns considered: counts of any column, other aggregates of \<^verbatim>\<open>INT\<close> columns.\<close>

definition agg_ok :: "col_meta \<Rightarrow> bool" where
  "agg_ok co \<longleftrightarrow> cm_aggr co \<noteq> NO_AGGR \<and> (cm_aggr co = AGGR_TYPE_COUNT \<or> cm_type co = TYPE_INT \<and> cm_len co = 4)"

definition total_init :: "col_meta \<Rightarrow> int" where
  "total_init co = (if cm_aggr co = AGGR_TYPE_MIN then INT_MAX else if cm_aggr co = AGGR_TYPE_MAX then INT_MIN else 0)"

definition total_step :: "col_meta \<Rightarrow> int \<Rightarrow> bytes \<Rightarrow> int" where
  "total_step co i r =
     (case cm_aggr co of
        AGGR_TYPE_COUNT \<Rightarrow> wrap32 (i + 1)
      | AGGR_TYPE_SUM \<Rightarrow> wrap32 (i + col_int co r)
      | AGGR_TYPE_MAX \<Rightarrow> max i (col_int co r)
      | AGGR_TYPE_MIN \<Rightarrow> min i (col_int co r)
      | NO_AGGR \<Rightarrow> i)"

abbreviation total :: "col_meta \<Rightarrow> bytes list \<Rightarrow> int" where
  "total co rs \<equiv> foldl (total_step co) (total_init co) rs"

lemma wrap32_add: "wrap32 (wrap32 a + b) = wrap32 (a + b)" "wrap32 (b + wrap32 a) = wrap32 (b + a)"
  by (simp_all add: wrap32_def mod_simps algebra_simps)

lemma total_spec:
  assumes "agg_ok co"
  shows "total co rs = agg_spec co rs"
proof (induction rs rule: rev_induct)
  case Nil
  then show ?case using assms by (simp add: agg_ok_def agg_spec_def total_init_def wrap32_def split: aggregation_type.splits)
next
  case (snoc r rs)
  have r: "INT_MIN \<le> col_int co r" "col_int co r \<le> INT_MAX"
    using get_int_range [of r "nat (cm_offset co)"] by (auto simp: col_int_def int_range_def INT_MIN_def INT_MAX_def)
  then show ?case
    using assms snoc
    by (auto simp: agg_ok_def agg_spec_def total_step_def wrap32_add add.commute max.commute min.commute max_def min_def split: aggregation_type.splits)
qed

lemma total_range: "int_range (total co rs)"
proof (induction rs rule: rev_induct)
  case (snoc r rs)
  then show ?case using get_int_range [of r "nat (cm_offset co)"]
    by (auto simp: total_step_def col_int_def max_def min_def split: aggregation_type.splits)
qed (simp add: total_init_def INT_MAX_def INT_MIN_def int_range_def)

text \<open>The result columns of the original ones \<open>cos\<close>.\<close>

abbreviation agg_cols :: "int \<Rightarrow> col_meta list \<Rightarrow> col_meta list" where
  "agg_cols off cos \<equiv> place_cols off (map agg_result cos)"

lemma agg_result_ok: "agg_ok co \<Longrightarrow> cm_type (agg_result co) = TYPE_INT \<and> cm_len (agg_result co) = 4 \<and> cm_aggr (agg_result co) = cm_aggr co"
  by (auto simp: agg_ok_def agg_result_def)

lemma init_totals:
  "list_all agg_ok cos \<Longrightarrow> map init_value (agg_cols off cos) = map (\<lambda>co. set_int (total_init co) fresh_value) cos"
  by (induction cos arbitrary: off) (simp_all add: init_value_def total_init_def agg_result_ok)

lemma put_int_set: "put_int_val i (set_int k v) = set_int i v" "set_int (wrap32 i) v = set_int i v"
proof -
  show "put_int_val i (set_int k v) = set_int i v" by (simp add: put_int_val_def set_int_def)
  have "(word_of_int (wrap32 i) :: 32 word) = word_of_int i"
    unfolding word_of_int_eq_iff by (simp add: take_bit_eq_mod wrap32_def mod_simps)
  then show "set_int (wrap32 i) v = set_int i v" by (simp add: set_int_def)
qed

lemma update_totals:
  assumes "list_all agg_ok cos" "\<forall>co\<in>set cos. int_range (f co)"
  shows "update_values_loop r (agg_cols off cos) cos (map (\<lambda>co. set_int (f co) fresh_value) cos) =
    Inr (map (\<lambda>co. set_int (total_step co (f co) r) fresh_value) cos)"
  using assms
proof (induction cos arbitrary: off)
  case (Cons co cos)
  have "update_value r ((agg_result co)\<lparr>cm_offset := off\<rparr>) co (set_int (f co) fresh_value) = Inr (set_int (total_step co (f co) r) fresh_value)"
    using Cons.prems agg_result_ok [of co]
    by (auto simp: update_value_def Let_def put_int_set total_step_def agg_ok_def col_int_def max_def min_def split: aggregation_type.splits)
  then show ?case using Cons by simp
qed simp

lemma raw_totals:
  assumes "list_all agg_ok cos" "\<forall>co\<in>set cos. int_range (f co)"
  shows "init_raws (agg_cols off cos) (map (\<lambda>co. set_int (f co) fresh_value) cos) =
    Inr (map (\<lambda>co. (set_int (f co) fresh_value)\<lparr>v_raw := Some (enc_int (f co))\<rparr>) cos)"
  using assms
proof (induction cos arbitrary: off)
  case (Cons co cos)
  have "init_raw 4 (set_int (f co) fresh_value) = Inr ((set_int (f co) fresh_value)\<lparr>v_raw := Some (enc_int (f co))\<rparr>)"
    using Cons.prems by (simp add: init_raw_def) (simp add: set_int_def fresh_value_def)
  then show ?case using Cons agg_result_ok [of co] by simp
qed simp

lemma write_ints:
  assumes "\<forall>c\<in>set cols. cm_len c = 4" "length vs = length cols" "length d = off + 4 * length cols" "\<forall>v\<in>set vs. v_raw v = Some (enc_int (g v))"
  shows "write_values d off cols vs = take off d @ concat (map (\<lambda>v. enc_int (g v)) vs)"
  using assms
proof (induction cols arbitrary: vs d off)
  case (Cons c cols)
  obtain v vs' where vs: "vs = v # vs'" using Cons.prems(2) by (cases vs) auto
  let ?d = "mem_write d off (enc_int (g v))"
  have "length ?d = length d" "take (off + 4) ?d = take off d @ enc_int (g v)" using Cons.prems(3) by (simp_all add: mem_write_def)
  then show ?case using Cons.IH [of vs' ?d "off + 4"] Cons.prems by (simp add: vs)
qed simp

section \<open>Collecting the child's records\<close>

definition agg_add :: "bytes \<Rightarrow> aggregation \<Rightarrow> rmdb_error + aggregation" where
  "agg_add b x = (if ag_group_cols x = [] then update_values b x else Inr (store_group b x))"

lemma agg_body_add: "agg_body j t p x = tm_bind (ex_Next j t p) (\<lambda>(b, p). tm_bind (tm_lift (agg_add b x)) (\<lambda>x. tm_ret (p, x)))"
  by (cases "ag_group_cols x = []") (simp_all add: agg_body_def agg_add_def)

text \<open>Counting without looking: the number of records of the table, or no answer.\<close>

lemma count_reads:
  assumes "db_inv (sys_db s)" "ex_wf s t p"
  shows "\<exists>c s'. ex_get_count t p s = Some (Inr c, s') \<and> sys_reads t s s' \<and> (c = - 1 \<or> c = int (length (ex_rows s p)))"
  using assms(2)
proof (induction p)
  case (SeqScanExecutor x)
  show ?case
  proof (cases "ss_fed_conds x = []")
    case True
    let ?n = "ss_tab x"
    obtain h where h: "fhs (sys_db s) ?n = Some h" "may_read (sys_locks s) t (rm_fd h)" using SeqScanExecutor by (auto simp: can_read_def)
    obtain lm where lm: "lock_shared_on_table (sys_locks s) t (rm_fd h) = (LockTrue, lm)" "\<And>fd. may_read (sys_locks s) t fd \<Longrightarrow> may_read lm t fd"
      by (rule may_read_lock [OF h(2)]) blast
    let ?s = "s\<lparr>sys_db := sys_db s, sys_locks := lm\<rparr>"
    have rd: "sys_reads t s ?s" by (rule sys_reads_db [OF db_reads_refl [OF assms(1)] lm(2)])
    have i: "rm_inv h (pool (sys_db s))" "rm_room (pool (sys_db s))" using assms(1) h by (auto simp: db_inv_def)
    obtain q where q: "rm_get_record_count h (pool (sys_db s)) = (Inr (int (length (rm_rids h (pool (sys_db s))))), q)" "same_file h (pool (sys_db s)) q"
      using rm_count_loop_ok [OF i, of 1 0] by (auto simp: rm_rids_def rm_get_record_count_def RM_FIRST_RECORD_PAGE_def)
    obtain s' where s': "on_scan ?n rm_get_record_count ?s = Some (Inr (int (length (rm_rids h (pool (sys_db s))))), s')" "sys_reads t ?s s'"
      by (rule on_scan_ok [where s = ?s and op = rm_get_record_count and n = ?n and h = h and t = t]) (use assms(1) h(1) q in auto)
    have "filter (conds_hold []) bs = bs" for bs by (simp add: conds_hold_def)
    moreover have "length (db_rows (sys_db s) ?n) = length (rm_rids h (pool (sys_db s)))" by (simp add: db_rows_def db_rids_def h(1))
    ultimately show ?thesis
      using sys_reads_trans [OF rd s'(2)] s'(1) True h(1) lm(1) by (simp add: get_record_count_locked_def with_lock_def)
  next
    case False
    then show ?thesis using sys_reads_refl [OF assms(1)] by (simp add: tm_ret_def)
  qed
qed (use sys_reads_refl [OF assms(1)] in \<open>simp_all add: tm_ret_def\<close>)

lemma agg_begin_rows:
  assumes inv: "db_inv (sys_db s)" and wf: "ex_wf s t p"
    and fold: "foldE agg_add (ex_rows s p) (if ag_group_cols x = [] then init_values x else x) = Inr x4" and fin: "agg_finish j x4 = Inr x5"
  shows "ends (\<lambda>m n. tm_bind (ex_begin n j key0 t p) (\<lambda>p.
      tm_bind (drain n ex_is_end (\<lambda>e. ex_next n j key0 t e) (agg_body j t) p (if ag_group_cols x = [] then init_values x else x)) (\<lambda>(p, x4).
      tm_bind (tm_lift (agg_finish j x4)) (\<lambda>x5. tm_ret (AggregationExecutor p x5))))) s
    (\<lambda>e s'. sys_reads t s s' \<and> (\<exists>p'. e = AggregationExecutor p' x5))"
proof -
  have rdy: "ex_ready t s p (ex_rows s p)" using inv wf by (simp add: ex_ready_def)
  show ?thesis
  proof (rule ends_bind [OF ex.begin_pos [OF rdy]], elim conjE)
    fix p1 s1 assume rd: "sys_reads t s s1" and at: "ex_at t s1 p1 (ex_rows s p)"
    let ?dr = "\<lambda>n. drain n ex_is_end (\<lambda>e. ex_next n j key0 t e) (agg_body j t) p1 (if ag_group_cols x = [] then init_values x else x)"
    have "ends (\<lambda>m n. ?dr n) s1 (\<lambda>r s'. sys_reads t s1 s' \<and> snd r = x4)"
      using ends_same [OF ex.drain_fold [OF at fold, of j key0]] by (simp only: agg_body_add [abs_def])
    then show "ends (\<lambda>m n. tm_bind (?dr n) (\<lambda>(p, x4). tm_bind (tm_lift (agg_finish j x4)) (\<lambda>x5. tm_ret (AggregationExecutor p x5)))) s1
        (\<lambda>e s'. sys_reads t s s' \<and> (\<exists>p'. e = AggregationExecutor p' x5))"
      by (rule ends_bind) (use sys_reads_trans [OF rd] in \<open>auto simp: fin\<close>)
  qed
qed

text \<open>The loop of the client, once the aggregation has begun.\<close>

abbreviation agg_drain :: "nat \<Rightarrow> int \<Rightarrow> bytes \<Rightarrow> txn_id \<Rightarrow> executor \<Rightarrow> bytes list \<Rightarrow> (executor \<times> bytes list) tmm" where
  "agg_drain n j key0 t e acc \<equiv>
     drain n ex_is_end (ex_next n j key0 t) (\<lambda>e acc. tm_bind (ex_Next j t e) (\<lambda>(b, e). tm_ret (e, acc @ [b]))) e acc"

lemma agg_drain_one:
  assumes "\<not> agg_is_end x" "agg_Next j x = Inr (row, x1)" "agg_nextTuple j x1 = Inr x2" "agg_is_end x2"
  shows "ends (\<lambda>m n. agg_drain n j key0 t (AggregationExecutor p x) []) s (\<lambda>r s'. s' = s \<and> snd r = [row])"
proof (rule endsI [where k = 2 and x = "(AggregationExecutor p x2, [row])" and s' = s])
  fix m n :: nat assume "2 \<le> n"
  then obtain k where n: "n = Suc (Suc k)" by (metis add_2_eq_Suc le_Suc_ex)
  show "agg_drain n j key0 t (AggregationExecutor p x) [] s = Some (Inr (AggregationExecutor p x2, [row]), s)"
    using assms by (simp add: n tm_bind_def tm_ret_def)
qed simp

lemma run_select_one:
  assumes "ends (\<lambda>m n. ex_begin n j key0 t e) s (\<lambda>e' s'. sys_reads t s s' \<and> (\<exists>p'. e' = AggregationExecutor p' x))"
    "\<not> agg_is_end x" "agg_Next j x = Inr (row, x1)" "agg_nextTuple j x1 = Inr x2" "agg_is_end x2"
  shows "\<exists>s' k0. sys_reads t s s' \<and> (\<forall>k\<ge>k0. run_select k j key0 t e s = Some (Inr [row], s'))"
proof -
  have "ends (\<lambda>m n. run_select n j key0 t e) s (\<lambda>rows s'. rows = [row] \<and> sys_reads t s s')"
    unfolding run_select_def
  proof (rule ends_bind [OF assms(1)], elim conjE exE)
    fix e' s' p' assume rd: "sys_reads t s s'" and e': "e' = AggregationExecutor p' x"
    show "ends (\<lambda>m n. tm_bind (agg_drain n j key0 t e' []) (\<lambda>(e, rows). tm_ret rows)) s' (\<lambda>rows s'. rows = [row] \<and> sys_reads t s s')"
      unfolding e' by (rule ends_bind [OF agg_drain_one [OF assms(2-5)]]) (use rd in auto)
  qed
  then show ?thesis by (rule endsD) blast
qed

lemma foldE_totals:
  assumes "list_all agg_ok cos" "ag_group_cols x = []" "ag_sel_origin x = cos" "ag_sel_cols x = agg_cols 0 cos"
  shows "foldE agg_add rs (x\<lparr>ag_values := map (\<lambda>co. set_int (total co rs0) fresh_value) cos\<rparr>) =
    Inr (x\<lparr>ag_values := map (\<lambda>co. set_int (total co (rs0 @ rs)) fresh_value) cos\<rparr>)"
proof (induction rs arbitrary: rs0)
  case (Cons r rs)
  have "agg_add r (x\<lparr>ag_values := map (\<lambda>co. set_int (total co rs0) fresh_value) cos\<rparr>) =
      Inr (x\<lparr>ag_values := map (\<lambda>co. set_int (total co (rs0 @ [r])) fresh_value) cos\<rparr>)"
    using update_totals [OF assms(1), of "\<lambda>co. total co rs0" r 0] total_range assms(2-4) by (simp add: agg_add_def update_values_def)
  then show ?case using Cons.IH [of "rs0 @ [r]"] by simp
qed simp

lemma totals_end:
  assumes cos: "list_all agg_ok cos" and x: "ag_group_cols x = []" "ag_sel_cols x = agg_cols 0 cos" "ag_groups x = []" "ag_curr_idx x = - 1"
    "\<not> ag_empty_done x" "\<not> ag_only_count x" "ag_only_aggr x" "ag_len x = 4 * int (length cos)"
  obtains x5 x1 x2 where "agg_finish j (x\<lparr>ag_values := map (\<lambda>co. set_int (total co rs) fresh_value) cos\<rparr>) = Inr x5" "\<not> agg_is_end x5"
    "agg_Next j x5 = Inr (concat (map (\<lambda>co. enc_int (agg_spec co rs)) cos), x1)" "agg_nextTuple j x1 = Inr x2" "agg_is_end x2"
proof -
  let ?vs = "map (\<lambda>co. (set_int (total co rs) fresh_value)\<lparr>v_raw := Some (enc_int (total co rs))\<rparr>) cos"
  let ?x5 = "x\<lparr>ag_values := ?vs, ag_empty_done := True\<rparr>"
  have f: "agg_finish j (x\<lparr>ag_values := map (\<lambda>co. set_int (total co rs) fresh_value) cos\<rparr>) = Inr ?x5"
    using raw_totals [OF cos, of "\<lambda>co. total co rs" 0] total_range x by (simp add: agg_finish_def agg_nextTuple.simps [of j "_\<lparr>ag_values := _\<rparr>"])
  have l: "\<forall>c\<in>set (agg_cols off cos). cm_len c = 4" for off using cos agg_result_ok by (induction cos arbitrary: off) auto
  have iv: "int_val (v\<lparr>v_raw := r\<rparr>) = int_val v" for v r by (simp add: int_val_def)
  have "write_values (replicate (nat (ag_len x)) 0) 0 (agg_cols 0 cos) ?vs = take 0 (replicate (nat (ag_len x)) 0) @ concat (map (\<lambda>v. enc_int (int_val v)) ?vs)"
    by (rule write_ints [OF l]) (use total_range x(8) in \<open>auto simp: iv nat_mult_distrib\<close>)
  moreover have m: "map (\<lambda>v. enc_int (int_val v)) ?vs = map (\<lambda>co. enc_int (agg_spec co rs)) cos"
    using cos total_spec total_range by (auto simp: list_all_iff iv simp flip: total_spec)
  ultimately have n: "agg_Next j ?x5 = Inr (concat (map (\<lambda>co. enc_int (agg_spec co rs)) cos), ?x5)"
    using x by (simp add: agg_Next_def Let_def del: map_map)
  have "agg_nextTuple j ?x5 = Inr (?x5\<lparr>ag_curr_idx := 0\<rparr>)" using x by (subst agg_nextTuple.simps) (simp add: agg_is_end_def Let_def)
  then show ?thesis using that [OF f _ n] x by (simp add: agg_is_end_def)
qed

lemma map_err_star: "map_err f [c] = Inr cs \<Longrightarrow> \<exists>y. f c = Inr y \<and> cs = [y]"
  by (auto split: sum.splits)

lemma le_enc_cong: "x mod 256 ^ n = y mod 256 ^ n \<Longrightarrow> le_enc n x = le_enc n y"
proof (induction n arbitrary: x y)
  case (Suc n)
  have z: "z mod 256 ^ Suc n = 256 * (z div 256 mod 256 ^ n) + z mod 256" for z :: int
    using zmod_zmult2_eq [of "256 ^ n" z 256] by simp
  have e: "256 * (x div 256 mod 256 ^ n) + x mod 256 = 256 * (y div 256 mod 256 ^ n) + y mod 256" using Suc.prems unfolding z .
  have b: "0 \<le> x mod 256" "x mod 256 < 256" "0 \<le> y mod 256" "y mod 256 < 256" by simp_all
  have k: "a = c" if "256 * a + b = 256 * c + d" "0 \<le> b" "b < 256" "0 \<le> d" "d < 256" for a b c d :: int using that by linarith
  have d: "x div 256 mod 256 ^ n = y div 256 mod 256 ^ n" by (rule k [OF e b])
  then have "x mod 256 = y mod 256" using e by simp
  then have "(word_of_int x :: byte) = word_of_int y" by (simp add: word_of_int_eq_iff take_bit_eq_mod)
  then show ?case using Suc.IH [OF d] by simp
qed simp

lemma enc_wrap32: "enc_int (wrap32 i) = enc_int i"
  unfolding enc_int_def by (rule le_enc_cong) (simp add: wrap32_def mod_simps)

text \<open>
  C19. An aggregation without groups returns one record with, for every selected column, the count of the
  child's records or the wrapped sum, maximum or minimum of the column over them, whether it counts
  by the table's page headers or by reading records. It ends and changes no table.
\<close>

theorem aggregate_correct:
  assumes "db_inv (sys_db s)" and "ex_wf s t p" and "new_aggregation m j key0 t p sel [] [] s = Some (Inr (AggregationExecutor p x), s)"
    and "list_all agg_ok (ag_sel_origin x)"
  shows "\<exists>s' k0. sys_reads t s s' \<and> (\<forall>k\<ge>k0. run_select k j key0 t (AggregationExecutor p x) s =
    Some (Inr [concat (map (\<lambda>co. enc_int (agg_spec co (ex_rows s p))) (ag_sel_origin x))], s'))"
proof -
  define cos where "cos = ag_sel_origin x"
  let ?rs = "ex_rows s p"
  let ?row = "concat (map (\<lambda>co. enc_int (agg_spec co ?rs)) cos)"
  have co: "map_err (agg_origin (ex_cols p)) sel = Inr cos" and ok: "list_all agg_ok cos"
    using assms(3,4) by (auto simp: new_aggregation_def tm_bind_def tm_lift_def tm_ret_def Let_def cos_def split: sum.splits option.splits)
  have x: "x = \<lparr>ag_len = sum_list (map cm_len (map agg_result cos)), ag_having = [], ag_group_cols = [], ag_sel_cols = agg_cols 0 cos, ag_sel_origin = cos,
      ag_groups_idx = Map.empty, ag_groups = [], ag_curr_idx = - 1, ag_curr = [], ag_empty_done = False,
      ag_only_count = (case sel of [c] \<Rightarrow> is_count_star c | _ \<Rightarrow> False),
      ag_only_aggr = list_all (\<lambda>c. is_count_star c \<or> tc_aggr c \<noteq> NO_AGGR) sel, ag_count = - 1, ag_values = []\<rparr>"
    using assms(3) co by (simp add: new_aggregation_def Let_def tm_ret_def)
  have aggr: "list_all (\<lambda>c. is_count_star c \<or> tc_aggr c \<noteq> NO_AGGR) sel"
    using co ok
    by (induction sel arbitrary: cos) (auto simp: map_sum_Inr_iff agg_origin_def agg_ok_def split: sum.splits if_splits)
  have len: "sum_list (map cm_len (map agg_result cos)) = 4 * int (length cos)" using ok agg_result_ok by (induction cos) auto
  let ?x2 = "x\<lparr>ag_only_count := False\<rparr>"
  obtain x5 x6 x7 where e: "agg_finish j (?x2\<lparr>ag_values := map (\<lambda>co. set_int (total co ?rs) fresh_value) cos\<rparr>) = Inr x5" "\<not> agg_is_end x5"
    "agg_Next j x5 = Inr (?row, x6)" "agg_nextTuple j x6 = Inr x7" "agg_is_end x7"
    by (rule totals_end [OF ok, of ?x2 j ?rs]) (use aggr len in \<open>simp_all add: x\<close>)
  have fold: "foldE agg_add ?rs (init_values ?x2) = Inr (?x2\<lparr>ag_values := map (\<lambda>co. set_int (total co ?rs) fresh_value) cos\<rparr>)"
    using foldE_totals [OF ok, of ?x2 ?rs "[]"] init_totals [OF ok, of 0] by (simp add: x init_values_def)
  have slow: "ends (\<lambda>m n. ex_begin (Suc n) j key0 t (AggregationExecutor p x)) s (\<lambda>e' s'. sys_reads t s s' \<and> (\<exists>p'. e' = AggregationExecutor p' x5))"
    if c: "(if ag_only_count x then ex_get_count t p else tm_ret (ag_count x)) s = Some (Inr (- 1), s1)" "sys_reads t s s1" for s1
  proof -
    have "ex_rows s1 p = ?rs" "db_inv (sys_db s1)" "ex_wf s1 t p"
      using ex_rows_reads [OF c(2)] sys_readsD(1) [OF c(2)] ex_wf_reads [OF c(2) assms(2)] by simp_all
    with agg_begin_rows [of s1 t p ?x2 _ j x5 key0] fold e(1)
    have b: "ends (\<lambda>m n. tm_bind (ex_begin n j key0 t p) (\<lambda>p.
        tm_bind (drain n ex_is_end (\<lambda>e. ex_next n j key0 t e) (agg_body j t) p (init_values ?x2)) (\<lambda>(p, x4).
        tm_bind (tm_lift (agg_finish j x4)) (\<lambda>x5. tm_ret (AggregationExecutor p x5))))) s1
        (\<lambda>e s'. sys_reads t s1 s' \<and> (\<exists>p'. e = AggregationExecutor p' x5))" by (simp add: x)
    have x1: "x\<lparr>ag_count := - 1\<rparr> = x" "ag_group_cols ?x2 = []" by (simp_all add: x)
    have step: "tm_bind (if ag_only_count x then ex_get_count t p else tm_ret (ag_count x)) f s = f (- 1) s1" for f :: "int \<Rightarrow> executor tmm"
      using c(1) by (rule tm_bind_simps(2))
    have "ends (\<lambda>m n. ex_begin (Suc n) j key0 t (AggregationExecutor p x)) s (\<lambda>e s'. sys_reads t s1 s' \<and> (\<exists>p'. e = AggregationExecutor p' x5))"
      using b by (rule ends_cong) (simp only: ex_begin.simps step Let_def x1 simp_thms if_False if_True)
    then show ?thesis by (rule ends_mono) (use sys_reads_trans [OF c(2)] in blast)
  qed
  show ?thesis unfolding cos_def [symmetric]
  proof (cases "ag_only_count x")
    case False
    have "(if ag_only_count x then ex_get_count t p else tm_ret (ag_count x)) s = Some (Inr (- 1), s)" using False by (simp add: x tm_ret_def)
    then show "\<exists>s' k0. sys_reads t s s' \<and> (\<forall>k\<ge>k0. run_select k j key0 t (AggregationExecutor p x) s = Some (Inr [?row], s'))"
      by (rule run_select_one [OF ends_Suc2 [OF slow] e(2-5)]) (rule sys_reads_refl [OF assms(1)])
  next
    case True
    obtain c s1 where c: "ex_get_count t p s = Some (Inr c, s1)" "sys_reads t s s1" "c = - 1 \<or> c = int (length ?rs)" using count_reads [OF assms(1,2)] by blast
    show "\<exists>s' k0. sys_reads t s s' \<and> (\<forall>k\<ge>k0. run_select k j key0 t (AggregationExecutor p x) s = Some (Inr [?row], s'))"
    proof (cases "c = - 1")
      case True
      then show ?thesis by (intro run_select_one [OF ends_Suc2 [OF slow] e(2-5)]) (use c \<open>ag_only_count x\<close> in simp_all)
    next
      case False
      obtain sc where sc: "sel = [sc]" "is_count_star sc" using True by (auto simp: x split: list.splits)
      then have "cos = [star_col sc]" using co by (simp add: agg_origin_def)
      then have row: "?row = enc_int (int (length ?rs))" by (simp add: agg_spec_def star_col_def enc_wrap32)
      let ?x1 = "x\<lparr>ag_count := c\<rparr>"
      have "ends (\<lambda>m n. ex_begin (Suc n) j key0 t (AggregationExecutor p x)) s (\<lambda>e' s'. sys_reads t s s' \<and> (\<exists>p'. e' = AggregationExecutor p' ?x1))"
        by (rule endsI [where k = 0 and x = "AggregationExecutor p ?x1" and s' = s1]) (use c False True in \<open>simp_all add: tm_bind_def tm_ret_def Let_def\<close>)
      moreover have "agg_Next j ?x1 = Inr (enc_int (int (length ?rs)), ?x1\<lparr>ag_curr_idx := 0\<rparr>)" "\<not> agg_is_end ?x1"
        using c(3) False True by (simp_all add: agg_is_end_def agg_Next_def x)
      moreover have "agg_nextTuple j (?x1\<lparr>ag_curr_idx := 0\<rparr>) = Inr (?x1\<lparr>ag_curr_idx := 0, ag_empty_done := True\<rparr>)"
        by (subst agg_nextTuple.simps) (simp add: x)
      ultimately show ?thesis unfolding row by (intro run_select_one [OF ends_Suc2]) (simp_all add: agg_is_end_def, simp add: x)
    qed
  qed
qed

theorem aggregate_correct_witness:
  "\<exists>s x s' k0. db_rows (sys_db s) ''t'' = [replicate 8 7] \<and>
     new_aggregation 0 0 [] 1 (sample_scan []) [(sample_tab_col ''b'')\<lparr>tc_aggr := AGGR_TYPE_MAX\<rparr>, (sample_tab_col ''*'')\<lparr>tc_aggr := AGGR_TYPE_COUNT\<rparr>] [] [] s
       = Some (Inr (AggregationExecutor (sample_scan []) x), s) \<and>
     (\<forall>k\<ge>k0. run_select k 0 [] 1 (AggregationExecutor (sample_scan []) x) s = Some (Inr [[7, 7, 7, 7, 1, 0, 0, 0]], s'))"
proof -
  obtain s where s: "db_inv (sys_db s)" "can_read s 1 ''t''" "db_rows (sys_db s) ''t'' = [replicate 8 7]" by (rule one_record_sys)
  let ?e = "sample_scan []" and ?sel = "[(sample_tab_col ''b'')\<lparr>tc_aggr := AGGR_TYPE_MAX\<rparr>, (sample_tab_col ''*'')\<lparr>tc_aggr := AGGR_TYPE_COUNT\<rparr>]"
  let ?cos = "[(demo_col ''b'' 4)\<lparr>cm_aggr := AGGR_TYPE_MAX\<rparr>, star_col ((sample_tab_col ''*'')\<lparr>tc_aggr := AGGR_TYPE_COUNT\<rparr>)]"
  obtain x where x: "new_aggregation 0 0 [] 1 ?e ?sel [] [] s = Some (Inr (AggregationExecutor ?e x), s)" "ag_sel_origin x = ?cos"
    by (simp add: new_aggregation_def tm_ret_def Let_def agg_origin_def is_count_star_def sample_tab_col_def ex_get_col_def sample_scan_def demo_col_def
        tm_bind_def tm_lift_def)
  have wf: "ex_wf s 1 ?e" and rows: "ex_rows s ?e = [replicate 8 7]"
    using s(2,3) by (simp_all add: sample_scan_def conds_clean_def conds_hold_def list_all_iff)
  have ok: "list_all agg_ok (ag_sel_origin x)" by (simp add: x(2) agg_ok_def demo_col_def star_col_def)
  have "concat (map (\<lambda>co. enc_int (agg_spec co [replicate 8 7])) ?cos) = [7, 7, 7, 7, 1, 0, 0, 0]" by code_simp
  with aggregate_correct [OF s(1) wf x(1) ok] x s(3) rows show ?thesis by metis
qed

section \<open>Groups\<close>

text \<open>The keys of the records in the order of their first appearance, and the groups.\<close>

fun first_keys :: "('a \<Rightarrow> 'k) \<Rightarrow> 'a list \<Rightarrow> 'k list" where
  "first_keys f [] = []"
| "first_keys f (r # rs) = f r # filter (\<lambda>k. k \<noteq> f r) (first_keys f rs)"

definition groups_of :: "('a \<Rightarrow> 'k) \<Rightarrow> 'a list \<Rightarrow> 'a list list" where
  "groups_of f rs = map (\<lambda>k. filter (\<lambda>r. f r = k) rs) (first_keys f rs)"

lemma first_keys_set [simp]: "set (first_keys f rs) = f ` set rs"
  by (induction rs) auto

lemma first_keys_distinct: "distinct (first_keys f rs)"
  by (induction rs) simp_all

lemma first_keys_snoc: "first_keys f (rs @ [r]) = first_keys f rs @ (if f r \<in> f ` set rs then [] else [f r])"
  by (induction rs) auto

text \<open>The map from keys to positions that goes with the groups.\<close>

definition groups_ok :: "col_meta list \<Rightarrow> bytes list \<Rightarrow> aggregation \<Rightarrow> bool" where
  "groups_ok gc rs x \<longleftrightarrow> ag_groups x = groups_of (group_key gc) rs \<and>
     (\<forall>k. ag_groups_idx x k = find_pos (\<lambda>k'. k' = k) (first_keys (group_key gc) rs))"

lemma find_pos_append: "find_pos P (xs @ ys) = (case find_pos P xs of Some i \<Rightarrow> Some i | None \<Rightarrow> map_option ((+) (length xs)) (find_pos P ys))"
  by (induction xs; cases "find_pos P ys") (auto split: option.splits)

lemma find_pos_None: "find_pos P xs = None \<longleftrightarrow> (\<forall>x\<in>set xs. \<not> P x)"
  by (induction xs) auto

lemma store_group_ok:
  assumes "groups_ok (ag_group_cols x) rs x"
  shows "groups_ok (ag_group_cols x) (rs @ [r]) (store_group r x)"
proof -
  let ?f = "group_key (ag_group_cols x)"
  let ?ks = "first_keys ?f rs" and ?k = "?f r"
  have g: "ag_groups x = map (\<lambda>k. filter (\<lambda>r. ?f r = k) rs) ?ks" "\<And>k. ag_groups_idx x k = find_pos (\<lambda>k'. k' = k) ?ks"
    using assms by (simp_all add: groups_ok_def groups_of_def)
  show ?thesis
  proof (cases "find_pos (\<lambda>k'. k' = ?k) ?ks")
    case None
    then have new: "?k \<notin> ?f ` set rs" by (auto simp: find_pos_None)
    then have e: "filter (\<lambda>r. ?f r = ?k) rs = []" by (metis (mono_tags, lifting) filter_False image_eqI)
    have m: "map (\<lambda>k. filter (\<lambda>r. ?f r = k) (rs @ [r])) ?ks = map (\<lambda>k. filter (\<lambda>r. ?f r = k) rs) ?ks" using new by auto
    have "groups_of ?f (rs @ [r]) = map (\<lambda>k. filter (\<lambda>r. ?f r = k) rs) ?ks @ [[r]]"
      unfolding groups_of_def first_keys_snoc map_append m using new e by simp
    moreover have "ag_groups (store_group r x) = map (\<lambda>k. filter (\<lambda>r. ?f r = k) rs) ?ks @ [[r]]"
      using None by (simp add: store_group_def Let_def g nth_append) (simp add: list_update_append)
    moreover have "ag_groups_idx (store_group r x) k = find_pos (\<lambda>k'. k' = k) (first_keys ?f (rs @ [r]))" for k
      using None new by (auto simp: store_group_def Let_def g first_keys_snoc find_pos_append split: option.splits)
    ultimately show ?thesis by (simp add: groups_ok_def)
  next
    case (Some i)
    have i: "i < length ?ks" "?ks ! i = ?k" using find_pos_Some [OF Some] by simp_all
    then have old: "?k \<in> ?f ` set rs" using nth_mem [OF i(1)] by simp
    have "(map (\<lambda>k. filter (\<lambda>r. ?f r = k) rs) ?ks)[i := filter (\<lambda>r. ?f r = ?k) rs @ [r]] = map (\<lambda>k. filter (\<lambda>r. ?f r = k) (rs @ [r])) ?ks"
      by (rule nth_equalityI) (use i first_keys_distinct [of ?f rs] in \<open>auto simp: nth_list_update nth_eq_iff_index_eq\<close>)
    then show ?thesis using Some i old by (simp add: groups_ok_def groups_of_def store_group_def Let_def g first_keys_snoc)
  qed
qed

lemma foldE_groups:
  assumes "ag_group_cols x = gc" "gc \<noteq> []" "groups_ok gc rs0 x"
  shows "\<exists>gi gs. foldE agg_add rs x = Inr (x\<lparr>ag_groups_idx := gi, ag_groups := gs\<rparr>) \<and> gs = groups_of (group_key gc) (rs0 @ rs)"
  using assms
proof (induction rs arbitrary: x rs0)
  case Nil
  have "x = x\<lparr>ag_groups_idx := ag_groups_idx x, ag_groups := ag_groups x\<rparr>" by simp
  moreover have "ag_groups x = groups_of (group_key gc) (rs0 @ [])" using Nil.prems(3) by (simp add: groups_ok_def)
  ultimately show ?case by (metis foldE.simps(1))
next
  case (Cons r rs)
  obtain gi gs where st: "store_group r x = x\<lparr>ag_groups_idx := gi, ag_groups := gs\<rparr>"
    by (rule that [of "ag_groups (store_group r x)" "ag_groups_idx (store_group r x)"]) (simp add: store_group_def Let_def)
  have "groups_ok gc (rs0 @ [r]) (store_group r x)" using store_group_ok Cons.prems by blast
  moreover have "ag_group_cols (store_group r x) = gc" using Cons.prems(1) by (simp add: st)
  ultimately obtain gi' gs' where "foldE agg_add rs (store_group r x) = Inr ((store_group r x)\<lparr>ag_groups_idx := gi', ag_groups := gs'\<rparr>)"
    "gs' = groups_of (group_key gc) (rs0 @ r # rs)" using Cons.IH [of "store_group r x" "rs0 @ [r]"] Cons.prems(2) by auto
  moreover have "agg_add r x = Inr (store_group r x)" using Cons.prems(1,2) by (simp add: agg_add_def)
  ultimately show ?case by (auto simp: st)
qed

lemma groups_nonempty: "g \<in> set (groups_of f rs) \<Longrightarrow> g \<noteq> []"
  by (auto simp: groups_of_def filter_empty_conv)

section \<open>The value of a group\<close>

definition grp_ok :: "col_meta \<Rightarrow> bool" where
  "grp_ok co \<longleftrightarrow> cm_aggr co = AGGR_TYPE_COUNT \<or> cm_type co = TYPE_INT \<and> cm_len co = 4"

lemma col_int_range: "int_range (col_int co r)"
  by (simp add: col_int_def get_int_range)

lemma agg_spec_range: "rs \<noteq> [] \<Longrightarrow> int_range (agg_spec co rs)"
proof -
  assume "rs \<noteq> []"
  then have "Max (col_int co ` set rs) \<in> col_int co ` set rs" "Min (col_int co ` set rs) \<in> col_int co ` set rs"
    by (auto intro!: Max_in Min_in)
  then obtain a b where "Max (col_int co ` set rs) = col_int co a" "Min (col_int co ` set rs) = col_int co b" by blast
  then show ?thesis using col_int_range [of co] \<open>rs \<noteq> []\<close> by (auto simp: agg_spec_def split: aggregation_type.splits)
qed

lemma foldl_max: "foldl max i xs = Max (insert i (set xs))" "foldl min i xs = Min (insert i (set xs))" for i :: int
proof -
  have "(\<lambda>x s. max s x) = (max :: int \<Rightarrow> int \<Rightarrow> int)" "(\<lambda>x s. min s x) = (min :: int \<Rightarrow> int \<Rightarrow> int)"
    by (simp_all add: fun_eq_iff max.commute min.commute)
  then show "foldl max i xs = Max (insert i (set xs))" "foldl min i xs = Min (insert i (set xs))"
    using Max.set_eq_fold [of i xs] Min.set_eq_fold [of i xs] by (simp_all add: foldl_conv_fold)
qed

lemma best_int:
  assumes "cm_type c = TYPE_INT" "int_range i"
  shows "best_value value_greater j c rs (set_int i fresh_value) = Inr (set_int (foldl max i (map (col_int c) rs)) fresh_value)"
    "best_value value_less j c rs (set_int i fresh_value) = Inr (set_int (foldl min i (map (col_int c) rs)) fresh_value)"
  using assms(2)
proof (induction rs arbitrary: i)
  case (Cons r rs)
  have c: "col_to_value c r j = Inr (set_int (col_int c r) fresh_value)" by (simp add: col_to_value_def assms(1) col_int_def)
  have m: "max i (col_int c r) = (if i < col_int c r then col_int c r else i)" "min i (col_int c r) = (if col_int c r < i then col_int c r else i)" by auto
  { case 1
    then show ?case using Cons.IH(1) [of i] Cons.IH(1) [OF col_int_range, of c r] col_int_range [of c r]
      by (simp add: c value_greater_def value_less_def m) }
  { case 2
    then show ?case using Cons.IH(2) [of i] Cons.IH(2) [OF col_int_range, of c r] col_int_range [of c r]
      by (simp add: c value_less_def m) }
qed simp_all

lemma sum_int: "foldl (\<lambda>s r. wrap32 (s + get_int r (nat (cm_offset c)))) (wrap32 i) rs = wrap32 (i + sum_list (map (col_int c) rs))"
  by (induction rs arbitrary: i) (simp_all add: wrap32_add col_int_def algebra_simps flip: col_int_def)

lemma raw_int: "int_range i \<Longrightarrow> init_raw 4 (set_int i fresh_value) = Inr ((set_int i fresh_value)\<lparr>v_raw := Some (enc_int i)\<rparr>)"
  by (simp add: init_raw_def) (simp add: set_int_def fresh_value_def)

lemma aggregate_value_spec:
  assumes "grp_ok co" "ag_curr a \<noteq> []"
  shows "aggregate_value j a co = Inr ((set_int (agg_spec co (ag_curr a)) fresh_value)\<lparr>v_raw := Some (enc_int (agg_spec co (ag_curr a)))\<rparr>)"
proof -
  let ?rs = "ag_curr a"
  obtain r rs where rs: "?rs = r # rs" using assms(2) by (cases ?rs) auto
  have c: "cm_type co = TYPE_INT \<Longrightarrow> col_to_value co (hd ?rs) j = Inr (set_int (col_int co (hd ?rs)) fresh_value)" by (simp add: col_to_value_def col_int_def)
  have m: "foldl max (col_int co (hd ?rs)) (map (col_int co) ?rs) = Max (col_int co ` set ?rs)"
    "foldl min (col_int co (hd ?rs)) (map (col_int co) ?rs) = Min (col_int co ` set ?rs)"
    unfolding foldl_max by (simp_all add: rs insert_absorb)
  have s: "foldl (\<lambda>s r. wrap32 (s + get_int r (nat (cm_offset co)))) 0 ?rs = wrap32 (sum_list (map (col_int co) ?rs))"
    using sum_int [of co 0 ?rs] by (simp add: wrap32_def)
  show ?thesis
    using assms raw_int [OF agg_spec_range [OF assms(2)], of co] c best_int [of co "col_int co (hd ?rs)" j ?rs] col_int_range
    by (cases "cm_aggr co") (auto simp: grp_ok_def aggregate_value_def agg_spec_def Let_def m s)
qed

lemma aggregate_values_spec:
  "list_all grp_ok cos \<Longrightarrow> ag_curr a \<noteq> [] \<Longrightarrow> aggregate_values j a cos =
     Inr (map (\<lambda>co. (set_int (agg_spec co (ag_curr a)) fresh_value)\<lparr>v_raw := Some (enc_int (agg_spec co (ag_curr a)))\<rparr>) cos)"
  by (induction cos) (simp_all add: aggregate_value_spec)

section \<open>The records of the groups\<close>

definition group_row :: "col_meta list \<Rightarrow> bytes list \<Rightarrow> bytes" where
  "group_row cos g = concat (map (\<lambda>co. enc_int (agg_spec co g)) cos)"

text \<open>The state with \<open>i\<close> groups taken out, the last of them the current one.\<close>

definition grp_at :: "aggregation \<Rightarrow> bytes list list \<Rightarrow> nat \<Rightarrow> bytes list \<Rightarrow> sql_value list \<Rightarrow> aggregation" where
  "grp_at x gs i g vs = x\<lparr>ag_groups := replicate i [] @ drop i gs, ag_curr_idx := int i - 1, ag_curr := g, ag_values := vs\<rparr>"

lemma having_none: "ag_having a = [] \<Longrightarrow> having_keep j a rs = Inr rs"
  by (induction rs) simp_all

lemma grp_next:
  assumes "ag_group_cols x \<noteq> []" "ag_having x = []" "\<forall>g\<in>set gs. g \<noteq> []" "i \<le> length gs"
  shows "agg_nextTuple j (grp_at x gs i g vs) =
    Inr (if i < length gs then grp_at x gs (Suc i) (gs ! i) vs else (grp_at x gs i g vs)\<lparr>ag_curr_idx := int i\<rparr>)"
proof (cases "i < length gs")
  case True
  have d: "drop i gs = gs ! i # drop (Suc i) gs" using True by (simp add: Cons_nth_drop_Suc)
  have u: "(replicate i [] @ drop i gs)[i := []] = replicate (Suc i) [] @ drop (Suc i) gs" "(replicate i [] @ drop i gs) ! i = gs ! i"
    unfolding d by (simp_all add: list_update_append nth_append replicate_append_same)
  have "gs ! i \<noteq> []" using assms(3) True by simp
  then show ?thesis using True assms(1,2) u
    by (subst agg_nextTuple.simps) (simp add: grp_at_def Let_def agg_is_end_def agg_checkConditions_def having_none)
next
  case False
  then have "i = length gs" using assms(4) by simp
  then show ?thesis using assms(1) by (subst agg_nextTuple.simps) (simp add: grp_at_def Let_def agg_is_end_def)
qed

lemma grp_Next:
  assumes "list_all grp_ok cos" "ag_sel_origin x = cos" "ag_sel_cols x = agg_cols 0 cos" "\<not> ag_only_count x" "\<not> ag_only_aggr x"
    "ag_len x = 4 * int (length cos)" "g \<noteq> []"
  shows "\<exists>vs'. agg_Next j (grp_at x gs i g vs) = Inr (group_row cos g, grp_at x gs i g vs')"
proof -
  let ?vs = "map (\<lambda>co. (set_int (agg_spec co g) fresh_value)\<lparr>v_raw := Some (enc_int (agg_spec co g))\<rparr>) cos"
  have v: "aggregate_values j (grp_at x gs i g vs) cos = Inr ?vs" using aggregate_values_spec [OF assms(1), of "grp_at x gs i g vs" j] assms(7) by (simp add: grp_at_def)
  have iv: "int_val (v\<lparr>v_raw := r\<rparr>) = int_val v" for v r by (simp add: int_val_def)
  have ty: "map2 (\<lambda>c v. if v_type v = TYPE_NULL then c\<lparr>cm_type := TYPE_NULL\<rparr> else c) (agg_cols off cs) (map (\<lambda>co. (set_int (agg_spec co g) fresh_value)\<lparr>v_raw := Some (enc_int (agg_spec co g))\<rparr>) cs) = agg_cols off cs" for off cs
    by (induction cs arbitrary: off) (simp_all add: set_int_def)
  have l: "\<forall>c\<in>set (agg_cols off cos). cm_len c = 4" for off
    using assms(1) by (induction cos arbitrary: off) (auto simp: grp_ok_def agg_result_def)
  have "write_values (replicate (nat (ag_len x)) 0) 0 (agg_cols 0 cos) ?vs = take 0 (replicate (nat (ag_len x)) 0) @ concat (map (\<lambda>v. enc_int (int_val v)) ?vs)"
    by (rule write_ints [OF l]) (use agg_spec_range [OF assms(7)] assms(6) in \<open>auto simp: iv nat_mult_distrib\<close>)
  also have "\<dots> = group_row cos g" using agg_spec_range [OF assms(7)] by (simp add: group_row_def iv comp_def)
  finally have "agg_Next j (grp_at x gs i g vs) = Inr (group_row cos g, grp_at x gs i g ?vs)"
    using v ty [of 0 cos] assms(2-5) by (cases x) (simp add: agg_Next_def Let_def grp_at_def)
  then show ?thesis by blast
qed

lemma grp_drain:
  assumes x: "list_all grp_ok cos" "ag_sel_origin x = cos" "ag_sel_cols x = agg_cols 0 cos" "\<not> ag_only_count x" "\<not> ag_only_aggr x" "ag_len x = 4 * int (length cos)"
    "ag_group_cols x \<noteq> []" "ag_having x = []" "\<forall>g\<in>set gs. g \<noteq> []"
    and "agg_nextTuple j (grp_at x gs i g vs) = Inr y" "i + d = length gs" "d < m"
  shows "\<exists>e'. drain m ex_is_end (ex_next (Suc n) j key0 t) (\<lambda>e acc. tm_bind (ex_Next j t e) (\<lambda>(b, e). tm_ret (e, acc @ [b]))) (AggregationExecutor p y) acc s =
    Some (Inr (e', acc @ map (group_row cos) (drop i gs)), s)"
  using assms(10-)
proof (induction d arbitrary: i g vs y acc m)
  case 0
  then obtain m' where m: "m = Suc m'" by (cases m) auto
  have "agg_is_end y" using 0 grp_next [OF x(7-9), of i j g vs] by (auto simp: agg_is_end_def grp_at_def)
  then show ?case using 0(2) by (simp add: m tm_bind_def tm_ret_def)
next
  case (Suc d)
  then obtain m' where m: "m = Suc m'" "d < m'" by (cases m) auto
  have i: "i < length gs" using Suc.prems(2) by simp
  have y: "y = grp_at x gs (Suc i) (gs ! i) vs" using Suc.prems(1) i grp_next [OF x(7-9), of i j g vs] by simp
  have ne: "\<not> agg_is_end y" using i by (simp add: y agg_is_end_def grp_at_def)
  obtain vs' where N: "agg_Next j y = Inr (group_row cos (gs ! i), grp_at x gs (Suc i) (gs ! i) vs')"
    using grp_Next [OF x(1-6), of "gs ! i" j gs "Suc i" vs] x(9) i by (auto simp: y)
  obtain y' where y': "agg_nextTuple j (grp_at x gs (Suc i) (gs ! i) vs') = Inr y'" using grp_next [OF x(7-9), of "Suc i" j] i by simp
  from Suc.IH [OF y' _ m(2), of "acc @ [group_row cos (gs ! i)]"] Suc.prems(2) y' ne N show ?case
    by (simp add: m(1) tm_bind_def tm_ret_def Cons_nth_drop_Suc [OF i, symmetric])
qed

text \<open>
  C20. An aggregation with groups and without HAVING returns one record for every distinct key of the
  grouping columns, in the order in which the keys first appear among the child's records: for every
  selected column the value of the first record, the count, or the wrapped sum, the maximum or the
  minimum over the records with that key. It ends and changes no table. Sums and extrema are of INT
  columns, and the select list is not a single \<^verbatim>\<open>COUNT(*)\<close>, for which the code counts all records at once.
\<close>

theorem group_by_correct:
  assumes "db_inv (sys_db s)" and "ex_wf s t p" and "new_aggregation m j key0 t p sel grp [] s = Some (Inr (AggregationExecutor p x), s)"
    and "grp \<noteq> []" and "\<not> ag_only_count x" and "list_all grp_ok (ag_sel_origin x)"
  shows "\<exists>s' k0. sys_reads t s s' \<and> (\<forall>k\<ge>k0. run_select k j key0 t (AggregationExecutor p x) s =
    Some (Inr (map (group_row (ag_sel_origin x)) (groups_of (group_key (ag_group_cols x)) (ex_rows s p))), s'))"
proof -
  define cos where "cos = ag_sel_origin x"
  define gc where "gc = ag_group_cols x"
  let ?gs = "groups_of (group_key gc) (ex_rows s p)"
  let ?rows = "map (group_row cos) ?gs"
  obtain "is" where co: "map_err (agg_origin (ex_cols p)) sel = Inr cos" "sel_positions (ex_cols p) False grp = Inr is"
    using assms(3) by (auto simp: new_aggregation_def tm_bind_def tm_lift_def tm_ret_def Let_def cos_def split: sum.splits option.splits)
  have x: "x = \<lparr>ag_len = sum_list (map cm_len (map agg_result cos)), ag_having = [], ag_group_cols = gc, ag_sel_cols = agg_cols 0 cos, ag_sel_origin = cos,
      ag_groups_idx = Map.empty, ag_groups = [], ag_curr_idx = - 1, ag_curr = [], ag_empty_done = False,
      ag_only_count = False, ag_only_aggr = False, ag_count = - 1, ag_values = []\<rparr>"
    using assms(3-5) co by (auto simp: new_aggregation_def Let_def tm_ret_def gc_def)
  have gc: "gc \<noteq> []" using sel_positions_bound [OF co(2)] assms(3,4) co by (auto simp: new_aggregation_def Let_def tm_ret_def gc_def)
  have ok: "list_all grp_ok cos" using assms(6) by (simp add: cos_def)
  have len: "sum_list (map cm_len (map agg_result cos)) = 4 * int (length cos)" using ok by (induction cos) (auto simp: grp_ok_def agg_result_def)
  obtain gi where fold: "foldE agg_add (ex_rows s p) x = Inr (x\<lparr>ag_groups_idx := gi, ag_groups := ?gs\<rparr>)"
    using foldE_groups [of x gc "[]" "ex_rows s p"] gc by (auto simp: x groups_ok_def groups_of_def)
  let ?x4 = "x\<lparr>ag_groups_idx := gi\<rparr>"
  have at: "x\<lparr>ag_groups_idx := gi, ag_groups := ?gs\<rparr> = grp_at ?x4 ?gs 0 [] []" by (simp add: grp_at_def x)
  have ne: "\<forall>g\<in>set ?gs. g \<noteq> []" using groups_nonempty by blast
  obtain y where y: "agg_nextTuple j (grp_at ?x4 ?gs 0 [] []) = Inr y" using grp_next [of ?x4 ?gs 0 j "[]" "[]"] ne gc by (auto simp: x)
  have fin: "agg_finish j (x\<lparr>ag_groups_idx := gi, ag_groups := ?gs\<rparr>) = Inr y" using y gc unfolding at by (simp add: agg_finish_def grp_at_def x)
  have "ends (\<lambda>m n. tm_bind (ex_begin n j key0 t p) (\<lambda>p. tm_bind (drain n ex_is_end (\<lambda>e. ex_next n j key0 t e) (agg_body j t) p x) (\<lambda>(p, x4).
      tm_bind (tm_lift (agg_finish j x4)) (\<lambda>x5. tm_ret (AggregationExecutor p x5))))) s (\<lambda>e s'. sys_reads t s s' \<and> (\<exists>p'. e = AggregationExecutor p' y))"
    using agg_begin_rows [OF assms(1,2), of x "x\<lparr>ag_groups_idx := gi, ag_groups := ?gs\<rparr>" j y key0] fold fin gc by (simp add: gc_def)
  then have "ends (\<lambda>m n. ex_begin (Suc n) j key0 t (AggregationExecutor p x)) s (\<lambda>e s'. sys_reads t s s' \<and> (\<exists>p'. e = AggregationExecutor p' y))"
    by (rule ends_cong) (use gc in \<open>simp add: x Let_def\<close>)
  then have b: "ends (\<lambda>m n. ex_begin n j key0 t (AggregationExecutor p x)) s (\<lambda>e s'. sys_reads t s s' \<and> (\<exists>p'. e = AggregationExecutor p' y))"
    by (rule ends_Suc2)
  have dr: "\<exists>e'. agg_drain k j key0 t (AggregationExecutor p' y) [] s' = Some (Inr (e', ?rows), s')" if k: "Suc (length ?gs) \<le> k" for k p' s'
  proof -
    obtain k' where "k = Suc k'" using k by (cases k) auto
    then show ?thesis
      using grp_drain [OF ok, of ?x4 ?gs j 0 "[]" "[]" y "length ?gs" k k' key0 t p' "[]" s'] len gc ne y k by (simp add: x)
  qed
  obtain p' s' k0 where p': "sys_reads t s s'" "\<And>n. k0 \<le> n \<Longrightarrow> ex_begin n j key0 t (AggregationExecutor p x) s = Some (Inr (AggregationExecutor p' y), s')"
    using b by (rule endsD) blast
  have "run_select k j key0 t (AggregationExecutor p x) s = Some (Inr ?rows, s')" if "max k0 (Suc (length ?gs)) \<le> k" for k
    using p'(2) [of k] dr [of k p' s'] that by (auto simp: run_select_def tm_ret_def)
  then show ?thesis using p'(1) unfolding cos_def gc_def by blast
qed

theorem group_by_correct_witness:
  "\<exists>s x s' k0. db_rows (sys_db s) ''t'' = [replicate 8 7] \<and>
     new_aggregation 0 0 [] 1 (sample_scan []) [sample_tab_col ''a'', (sample_tab_col ''b'')\<lparr>tc_aggr := AGGR_TYPE_SUM\<rparr>] [sample_tab_col ''a''] [] s
       = Some (Inr (AggregationExecutor (sample_scan []) x), s) \<and>
     (\<forall>k\<ge>k0. run_select k 0 [] 1 (AggregationExecutor (sample_scan []) x) s = Some (Inr [replicate 8 7], s'))"
proof -
  obtain s where s: "db_inv (sys_db s)" "can_read s 1 ''t''" "db_rows (sys_db s) ''t'' = [replicate 8 7]" by (rule one_record_sys)
  let ?e = "sample_scan []" and ?sel = "[sample_tab_col ''a'', (sample_tab_col ''b'')\<lparr>tc_aggr := AGGR_TYPE_SUM\<rparr>]" and ?grp = "[sample_tab_col ''a'']"
  let ?cos = "[demo_col ''a'' 0, (demo_col ''b'' 4)\<lparr>cm_aggr := AGGR_TYPE_SUM\<rparr>]"
  obtain x where x: "new_aggregation 0 0 [] 1 ?e ?sel ?grp [] s = Some (Inr (AggregationExecutor ?e x), s)" "ag_sel_origin x = ?cos" "\<not> ag_only_count x"
    by (simp add: new_aggregation_def tm_ret_def Let_def agg_origin_def is_count_star_def sample_tab_col_def ex_get_col_def sample_scan_def demo_col_def
        tm_bind_def tm_lift_def)
  have wf: "ex_wf s 1 ?e" and rows: "ex_rows s ?e = [replicate 8 7]"
    using s(2,3) by (simp_all add: sample_scan_def conds_clean_def conds_hold_def list_all_iff)
  have ok: "list_all grp_ok (ag_sel_origin x)" by (simp add: x(2) grp_ok_def demo_col_def)
  have "group_row ?cos [replicate 8 7] = replicate 8 7" by code_simp
  then have "map (group_row (ag_sel_origin x)) (groups_of (group_key (ag_group_cols x)) (ex_rows s ?e)) = [replicate 8 7]"
    by (simp add: rows groups_of_def x(2))
  then obtain s' k0 where "\<forall>k\<ge>k0. run_select k 0 [] 1 (AggregationExecutor ?e x) s = Some (Inr [replicate 8 7], s')"
    using group_by_correct [OF s(1) wf x(1) _ x(3) ok] by auto
  then show ?thesis using s(3) x(1) by blast
qed

text \<open>
  \<^verbatim>\<open>SELECT COUNT(*) FROM t GROUP BY\<close> any columns, without a condition, ignores the grouping: it returns the
  number of records of the table as a single record, whatever the groups are.
\<close>

theorem count_ignores_groups:
  assumes "db_inv (sys_db s)" and "can_read s t (ss_tab y)" and "ss_fed_conds y = []" and "is_count_star c"
    and "new_aggregation m j key0 t (SeqScanExecutor y) [c] grp [] s = Some (Inr (AggregationExecutor (SeqScanExecutor y) x), s)"
  shows "\<exists>s' k0. \<forall>k\<ge>k0. run_select k j key0 t (AggregationExecutor (SeqScanExecutor y) x) s =
    Some (Inr [enc_int (int (length (db_rows (sys_db s) (ss_tab y))))], s')"
proof -
  let ?p = "SeqScanExecutor y" and ?n = "length (db_rows (sys_db s) (ss_tab y))"
  have wf: "ex_wf s t ?p" and rows: "length (ex_rows s ?p) = ?n" using assms(2,3) by (simp_all add: conds_clean_def conds_hold_def list_all_iff)
  obtain c' s1 where c': "ex_get_count t ?p s = Some (Inr c', s1)" "sys_reads t s s1" "c' = - 1 \<or> c' = int ?n" using count_reads [OF assms(1) wf] rows by auto
  have n1: "c' \<noteq> - 1"
  proof
    assume "c' = - 1"
    obtain h where h: "fhs (sys_db s) (ss_tab y) = Some h" "rm_inv h (pool (sys_db s))" "rm_room (pool (sys_db s))"
      using assms(1,2) by (auto simp: can_read_def db_inv_def)
    obtain q where "rm_get_record_count h (pool (sys_db s)) = (Inr (int (length (rm_rids h (pool (sys_db s))))), q)"
      using rm_count_loop_ok [OF h(2,3), of 1 0] by (auto simp: rm_rids_def rm_get_record_count_def RM_FIRST_RECORD_PAGE_def)
    then show False using c'(1) \<open>c' = - 1\<close> assms(3) h(1)
      by (auto simp: get_record_count_locked_def with_lock_def on_scan_def on_db_def on_table_def tm_lift_def split: prod.splits lock_outcome.splits)
  qed
  have x: "ag_only_count x" "ag_groups x = []" "ag_curr_idx x = - 1"
    using assms(4,5) by (auto simp: new_aggregation_def tm_bind_def tm_lift_def tm_ret_def Let_def split: sum.splits option.splits)
  let ?x1 = "x\<lparr>ag_count := int ?n\<rparr>"
  have "ends (\<lambda>m n. ex_begin (Suc n) j key0 t (AggregationExecutor ?p x)) s (\<lambda>e' s'. sys_reads t s s' \<and> (\<exists>p'. e' = AggregationExecutor p' ?x1))"
    by (rule endsI [where k = 0 and x = "AggregationExecutor ?p ?x1" and s' = s1])
      (use c' n1 x(1) in \<open>simp_all add: tm_bind_def tm_ret_def Let_def del: ex_get_count.simps\<close>)
  moreover have "agg_Next j ?x1 = Inr (enc_int (int ?n), ?x1\<lparr>ag_curr_idx := 0\<rparr>)" "\<not> agg_is_end ?x1"
    using x by (simp_all add: agg_is_end_def agg_Next_def)
  moreover have "\<exists>x2. agg_nextTuple j (?x1\<lparr>ag_curr_idx := 0\<rparr>) = Inr x2 \<and> agg_is_end x2"
    using x by (subst agg_nextTuple.simps) (auto simp: Let_def agg_is_end_def)
  ultimately show ?thesis using run_select_one [OF ends_Suc2] by blast
qed

theorem count_ignores_groups_witness:
  "\<exists>s x s' k0. db_rows (sys_db s) ''t'' = [replicate 8 7] \<and>
     new_aggregation 0 0 [] 1 (sample_scan []) [(sample_tab_col ''*'')\<lparr>tc_aggr := AGGR_TYPE_COUNT\<rparr>] [sample_tab_col ''a''] [] s
       = Some (Inr (AggregationExecutor (sample_scan []) x), s) \<and>
     (\<forall>k\<ge>k0. run_select k 0 [] 1 (AggregationExecutor (sample_scan []) x) s = Some (Inr [[1, 0, 0, 0]], s'))"
proof -
  obtain s where s: "db_inv (sys_db s)" "can_read s 1 ''t''" "db_rows (sys_db s) ''t'' = [replicate 8 7]" by (rule one_record_sys)
  let ?c = "(sample_tab_col ''*'')\<lparr>tc_aggr := AGGR_TYPE_COUNT\<rparr>"
  obtain y where y: "sample_scan [] = SeqScanExecutor y" "ss_fed_conds y = []" "ss_tab y = ''t''" by (simp add: sample_scan_def)
  obtain x where x: "new_aggregation 0 0 [] 1 (sample_scan []) [?c] [sample_tab_col ''a''] [] s = Some (Inr (AggregationExecutor (sample_scan []) x), s)"
    by (simp add: new_aggregation_def tm_ret_def Let_def agg_origin_def is_count_star_def sample_tab_col_def ex_get_col_def sample_scan_def demo_col_def
        tm_bind_def tm_lift_def)
  have "enc_int 1 = [1, 0, 0, 0]" by code_simp
  moreover have "is_count_star ?c" by (simp add: is_count_star_def sample_tab_col_def)
  ultimately obtain s' k0 where "\<forall>k\<ge>k0. run_select k 0 [] 1 (AggregationExecutor (sample_scan []) x) s = Some (Inr [[1, 0, 0, 0]], s')"
    using count_ignores_groups [OF s(1), of 1 y ?c 0 0 "[]" "[sample_tab_col ''a'']" x] s(2,3) x y by auto
  then show ?thesis using s(3) x by blast
qed

end
