(* ===== verification/Dml.thy ===== *)
theory Dml
  imports Query_Correct
begin

text \<open>
  Statements that change tables (\<^verbatim>\<open>executor_insert.h\<close>, \<^verbatim>\<open>executor_delete.h\<close>, \<^verbatim>\<open>executor_update.h\<close> under
  \<^verbatim>\<open>src/src/execution/\<close>): for every record the log record, the change of the table under the exclusive
  table lock, the write record for a rollback, and the changes of the indexes.

  The bytes of a new record buffer are indeterminate until they are written; \<open>rec0\<close> is what they happen
  to be. Index operations take fuel \<open>k\<close>.
\<close>

section \<open>Records from values\<close>

definition types_match :: "col_type \<Rightarrow> col_type \<Rightarrow> bool" where
  "types_match c v \<longleftrightarrow> c = v \<or> c = TYPE_INT \<and> v = TYPE_FLOAT \<or> c = TYPE_FLOAT \<and> v = TYPE_INT"

definition column_value :: "col_meta \<Rightarrow> sql_value \<Rightarrow> rmdb_error + sql_value" where
  "column_value c v =
     (if \<not> types_match (cm_type c) (v_type v) then Inl (IncompatibleTypeError (coltype2str (cm_type c)) (coltype2str (v_type v)))
      else init_raw (cm_len c) (snd (try_cast_to (cm_type c) v)))"

text \<open>\<^verbatim>\<open>memcpy\<close> of the raw bytes of a value to its column.\<close>

definition put_col :: "bytes \<Rightarrow> col_meta \<Rightarrow> sql_value \<Rightarrow> bytes" where
  "put_col rec c v = mem_write rec (nat (cm_offset c)) (take (nat (cm_len c)) (the (v_raw v)))"

fun fill_record :: "col_meta list \<Rightarrow> sql_value list \<Rightarrow> bytes \<Rightarrow> rmdb_error + bytes" where
  "fill_record (c # cs) (v # vs) rec =
     (case column_value c v of
        Inl e \<Rightarrow> Inl e
      | Inr v' \<Rightarrow> fill_record cs vs (put_col rec c v'))"
| "fill_record _ _ rec = Inr rec"

section \<open>Changing a record of a table\<close>

definition get_free_record :: "string \<Rightarrow> rid tmm" where
  "get_free_record n = on_db (\<lambda>db. on_table db n rm_get_free_record)"

definition insert_locked :: "txn_id \<Rightarrow> string \<Rightarrow> rid \<Rightarrow> bytes \<Rightarrow> unit tmm" where
  "insert_locked t n r b = with_lock lock_exclusive_on_table t n (on_db (\<lambda>db. db_insert_at db n r b))"

definition delete_locked :: "txn_id \<Rightarrow> string \<Rightarrow> rid \<Rightarrow> unit tmm" where
  "delete_locked t n r = with_lock lock_exclusive_on_table t n (on_db (\<lambda>db. db_delete db n r))"

definition update_locked :: "txn_id \<Rightarrow> string \<Rightarrow> rid \<Rightarrow> bytes \<Rightarrow> unit tmm" where
  "update_locked t n r b = with_lock lock_exclusive_on_table t n (on_db (\<lambda>db. db_update db n r b))"

definition add_write :: "txn_id \<Rightarrow> write_record \<Rightarrow> unit tmm" where
  "add_write t w = upd_txn t (\<lambda>x. append_write_record x w)"

text \<open>Deleting the key of a record from an index.\<close>

definition drop_key :: "nat \<Rightarrow> string \<Rightarrow> bytes \<Rightarrow> index_meta \<Rightarrow> unit tmm" where
  "drop_key k n rec ix = tm_bind (on_index (get_index_name_cols n (im_cols ix)) (delete_entry k (index_key ix rec) None)) (\<lambda>_. tm_ret ())"

section \<open>INSERT\<close>

text \<open>The loop over the indexes; \<open>done\<close> are those that have the key already.\<close>

fun insert_keys :: "nat \<Rightarrow> txn_id \<Rightarrow> string \<Rightarrow> bytes \<Rightarrow> rid \<Rightarrow> index_meta list \<Rightarrow> index_meta list \<Rightarrow> unit tmm" where
  "insert_keys k t n rec r done [] = tm_ret ()"
| "insert_keys k t n rec r done (ix # ixs) =
     tm_bind (on_index (get_index_name_cols n (im_cols ix)) (insert_entry k (index_key ix rec) r)) (\<lambda>(p, success).
       if success then insert_keys k t n rec r (done @ [ix]) ixs
       else tm_bind (delete_locked t n r) (\<lambda>_.
            tm_bind (tm_each done (drop_key k n rec)) (\<lambda>_. tm_throw (TmError IndexDuplicateKeyError))))"

definition insert_row :: "nat \<Rightarrow> txn_id \<Rightarrow> string \<Rightarrow> tab_meta \<Rightarrow> bytes \<Rightarrow> unit tmm" where
  "insert_row k t n tab rec =
     tm_bind (get_free_record n) (\<lambda>r.
     tm_bind (log_txn t (new_insert_log t rec r n)) (\<lambda>_.
     tm_bind (insert_locked t n r rec) (\<lambda>_.
     tm_bind (add_write t (insert_write_record n r)) (\<lambda>_.
       insert_keys k t n rec r [] (tm_indexes tab)))))"

fun insert_rows :: "nat \<Rightarrow> txn_id \<Rightarrow> string \<Rightarrow> tab_meta \<Rightarrow> bytes \<Rightarrow> sql_value list list \<Rightarrow> unit tmm" where
  "insert_rows k t n tab rec [] = tm_ret ()"
| "insert_rows k t n tab rec (vs # vss) =
     tm_bind (tm_lift (fill_record (tm_cols tab) vs rec)) (\<lambda>rec.
     tm_bind (insert_row k t n tab rec) (\<lambda>_. insert_rows k t n tab rec vss))"

text \<open>The constructor, then \<^verbatim>\<open>Next\<close>.\<close>

definition run_insert :: "nat \<Rightarrow> txn_id \<Rightarrow> bytes \<Rightarrow> string \<Rightarrow> sql_value list list \<Rightarrow> unit tmm" where
  "run_insert k t rec0 n vss =
     (\<lambda>s. tm_bind (tm_lift (get_table (sys_meta s) n)) (\<lambda>tab.
          tm_bind (if list_all (\<lambda>vs. length vs = length (tm_cols tab)) vss then tm_ret () else tm_throw (TmError InvalidValueCountError)) (\<lambda>_.
          tm_bind (open_tab n) (\<lambda>_.
          tm_bind (tm_lift (get_col_total_len tab)) (\<lambda>_. insert_rows k t n tab rec0 vss)))) s)"

section \<open>DELETE\<close>

definition delete_row :: "nat \<Rightarrow> txn_id \<Rightarrow> string \<Rightarrow> tab_meta \<Rightarrow> rid \<Rightarrow> unit tmm" where
  "delete_row k t n tab r =
     tm_bind (get_record_locked t n r) (\<lambda>rec.
     tm_bind (log_txn t (new_delete_log t rec r n)) (\<lambda>_.
     tm_bind (delete_locked t n r) (\<lambda>_.
     tm_bind (add_write t (value_write_record DELETE_TUPLE n r rec)) (\<lambda>_.
       tm_each (tm_indexes tab) (drop_key k n rec)))))"

definition run_delete :: "nat \<Rightarrow> txn_id \<Rightarrow> string \<Rightarrow> rid list \<Rightarrow> unit tmm" where
  "run_delete k t n rs =
     tm_bind (open_tab n) (\<lambda>tab.
     tm_bind (tm_lift (get_col_total_len tab)) (\<lambda>_. tm_each rs (delete_row k t n tab)))"

section \<open>UPDATE\<close>

text \<open>The columns a statement sets, with the values converted.\<close>

fun set_values :: "col_meta list \<Rightarrow> set_clause list \<Rightarrow> rmdb_error + (col_meta \<times> sql_value) list" where
  "set_values cs [] = Inr []"
| "set_values cs (c # cls) =
     (case ex_get_col cs (sc_lhs c) False of
        Inl e \<Rightarrow> Inl e
      | Inr i \<Rightarrow>
          (case (if cm_type (cs ! i) \<noteq> v_type (sc_rhs c) then value_cast (cm_type (cs ! i)) (sc_rhs c) else Inr (sc_rhs c)) of
             Inl e \<Rightarrow> Inl e
           | Inr v \<Rightarrow>
               (case init_raw (cm_len (cs ! i)) v of
                  Inl e \<Rightarrow> Inl e
                | Inr v \<Rightarrow> map_sum id ((#) (cs ! i, v)) (set_values cs cls))))"

text \<open>An index is listed once for every one of its columns that is set.\<close>

definition update_indexes :: "index_meta list \<Rightarrow> set_clause list \<Rightarrow> index_meta list" where
  "update_indexes ixs cls =
     concat (map (\<lambda>ix. map (\<lambda>_. ix) (filter (\<lambda>c. list_ex (\<lambda>cl. tc_col_name (sc_lhs cl) = cm_name c) cls) (im_cols ix))) ixs)"

definition set_cols :: "(col_meta \<times> sql_value) list \<Rightarrow> bytes \<Rightarrow> bytes" where
  "set_cols cvs rec = fold (\<lambda>(c, v) rec. put_col rec c v) cvs rec"

definition move_key :: "nat \<Rightarrow> txn_id \<Rightarrow> string \<Rightarrow> rid \<Rightarrow> bytes \<Rightarrow> bytes \<Rightarrow> index_meta \<Rightarrow> unit tmm" where
  "move_key k t n r old new ix =
     tm_bind (on_index (get_index_name_cols n (im_cols ix)) (insert_entry k (index_key ix new) r)) (\<lambda>(p, success).
       if success then drop_key k n old ix else tm_throw (TmAbort t UPGRADE_CONFLICT))"

definition update_row :: "nat \<Rightarrow> txn_id \<Rightarrow> string \<Rightarrow> (col_meta \<times> sql_value) list \<Rightarrow> index_meta list \<Rightarrow> rid \<Rightarrow> unit tmm" where
  "update_row k t n cvs ixs r =
     tm_bind (get_record_locked t n r) (\<lambda>rec.
       let new = set_cols cvs rec in
       tm_bind (log_txn t (new_update_log t rec new r n)) (\<lambda>_.
       tm_bind (update_locked t n r new) (\<lambda>_.
       tm_bind (add_write t (value_write_record UPDATE_TUPLE n r rec)) (\<lambda>_.
         tm_each ixs (move_key k t n r rec new)))))"

definition run_update :: "nat \<Rightarrow> txn_id \<Rightarrow> string \<Rightarrow> set_clause list \<Rightarrow> rid list \<Rightarrow> unit tmm" where
  "run_update k t n cls rs =
     tm_bind (open_tab n) (\<lambda>tab.
     tm_bind (tm_lift (set_values (tm_cols tab) cls)) (\<lambda>cvs.
     tm_bind (tm_lift (get_col_total_len tab)) (\<lambda>_.
       tm_each rs (update_row k t n cvs (update_indexes (tm_indexes tab) cls)))))"

text \<open>\<^verbatim>\<open>Portal::start\<close> collects the identifiers first and \<^verbatim>\<open>run\<close> executes the statement.\<close>

definition portal_delete :: "nat \<Rightarrow> int \<Rightarrow> bytes \<Rightarrow> txn_id \<Rightarrow> string \<Rightarrow> plan \<Rightarrow> unit tmm" where
  "portal_delete k j key0 t n p =
     tm_bind (convert_plan_executor k j key0 t p) (\<lambda>scan.
     tm_bind (collect_rids k j key0 t scan) (\<lambda>rs. run_delete k t n rs))"

definition portal_update :: "nat \<Rightarrow> int \<Rightarrow> bytes \<Rightarrow> txn_id \<Rightarrow> string \<Rightarrow> plan \<Rightarrow> set_clause list \<Rightarrow> unit tmm" where
  "portal_update k j key0 t n p cls =
     tm_bind (convert_plan_executor k j key0 t p) (\<lambda>scan.
     tm_bind (collect_rids k j key0 t scan) (\<lambda>rs. run_update k t n cls rs))"

section \<open>Inserted records are well typed\<close>

text \<open>The bytes of a column that hold a value of the column's type.\<close>

definition typed_cell :: "col_meta \<Rightarrow> sql_value \<Rightarrow> bytes \<Rightarrow> bool" where
  "typed_cell c v b \<longleftrightarrow> length b = nat (cm_len c) \<and> v_type v = cm_type c \<and>
     (case cm_type c of
        TYPE_INT \<Rightarrow> cm_len c = 4 \<and> get_int b 0 = int_val v
      | TYPE_FLOAT \<Rightarrow> cm_len c = 4 \<and> get_uint 4 b 0 = float_val v
      | TYPE_STRING \<Rightarrow> length (v_str v) \<le> nat (cm_len c) \<and> b = v_str v @ replicate (nat (cm_len c) - length (v_str v)) 0
      | TYPE_NULL \<Rightarrow> False)"

lemma try_cast_type: "types_match c (v_type v) \<Longrightarrow> v_type (snd (try_cast_to c v)) = c"
  by (auto simp: types_match_def try_cast_to_def int2float_def float2int_def set_int_def set_float_def)

lemma column_value_typed:
  assumes "column_value c v = Inr v'" "cm_type c \<noteq> TYPE_NULL" "0 \<le> cm_len c"
  obtains b where "v_raw v' = Some b" "typed_cell c v' b"
proof -
  let ?v = "snd (try_cast_to (cm_type c) v)"
  have m: "types_match (cm_type c) (v_type v)" and i: "init_raw (cm_len c) ?v = Inr v'" using assms(1) by (auto simp: column_value_def split: if_splits)
  have ty: "v_type ?v = cm_type c" by (rule try_cast_type [OF m])
  have w: "int_val (x\<lparr>v_raw := r\<rparr>) = int_val x" "float_val (x\<lparr>v_raw := r\<rparr>) = float_val x" for x r by (simp_all add: int_val_def float_val_def)
  have "int_range (int_val x)" for x using sint_ge [of "v_word x"] sint_lt [of "v_word x"] by (simp add: int_val_def int_range_def)
  moreover have "0 \<le> float_val x" "float_val x < 2 ^ 32" for x using uint_lt2p [of "v_word x"] by (simp_all add: float_val_def)
  ultimately have e: "get_int (enc_int (int_val x)) 0 = int_val x" "get_uint 4 (enc_int (float_val x)) 0 = float_val x" for x
    using get_int_head [of "int_val x" "[]"] by (simp_all add: get_uint_def mem_read_def enc_int_def le_dec_enc_small wrap32_id)
  show ?thesis
    using i ty assms(2,3)
    by (cases "cm_type c") (auto simp: init_raw_def typed_cell_def w e split: if_splits intro!: that)
qed

lemma fill_record_cells:
  assumes "fill_record cs vs rec = Inr rec'" "length vs = length cs" "place_cols (int off) cs = cs"
    "\<forall>c\<in>set cs. 0 \<le> cm_len c \<and> cm_type c \<noteq> TYPE_NULL" "int off + sum_list (map cm_len cs) \<le> int (length rec)"
  shows "length rec' = length rec \<and> take off rec' = take off rec \<and>
    (\<forall>i<length cs. \<exists>v. column_value (cs ! i) (vs ! i) = Inr v \<and> typed_cell (cs ! i) v (cell (cs ! i) rec'))"
  using assms
proof (induction cs arbitrary: vs rec off)
  case (Cons c cs)
  obtain v vs' where vs: "vs = v # vs'" using Cons.prems(2) by (cases vs) auto
  obtain v' where v': "column_value c v = Inr v'" "fill_record cs vs' (put_col rec c v') = Inr rec'"
    using Cons.prems(1) by (auto simp: vs split: sum.splits)
  have c: "cm_offset c = int off" "0 \<le> cm_len c" "cm_type c \<noteq> TYPE_NULL" "place_cols (int off + cm_len c) cs = cs"
    using Cons.prems(3,4) by (auto simp: col_meta.equality dest: arg_cong [where f = cm_offset])
  obtain b where b: "v_raw v' = Some b" "typed_cell c v' b" by (rule column_value_typed [OF v'(1) c(3,2)])
  have lb: "length b = nat (cm_len c)" using b(2) by (simp add: typed_cell_def)
  let ?n = "off + nat (cm_len c)"
  have nn: "0 \<le> sum_list (map cm_len cs)" by (rule sum_lens_nonneg) (use Cons.prems(4) in simp)
  have fit: "?n \<le> length rec" using Cons.prems(5) c(2) nn by simp
  have p: "length (put_col rec c v') = length rec" "take ?n (put_col rec c v') = take off rec @ b"
    using fit lb by (simp_all add: put_col_def c(1) b(1) mem_write_def)
  have ih: "length rec' = length rec \<and> take ?n rec' = take off rec @ b \<and>
    (\<forall>i<length cs. \<exists>v. column_value (cs ! i) (vs' ! i) = Inr v \<and> typed_cell (cs ! i) v (cell (cs ! i) rec'))"
    using Cons.IH [OF v'(2), of ?n] Cons.prems(2,4,5) c(2,4) p by (simp add: vs)
  then have "take off (take ?n rec') = take off rec" using fit by simp
  then have "take off rec' = take off rec" by (simp add: min_def)
  moreover have "cell c rec' = b"
  proof -
    have "cell c rec' = drop off (take ?n rec')" by (simp add: cell_def mem_read_def c(1) drop_take)
    then show ?thesis using ih fit by simp
  qed
  ultimately show ?case using ih v'(1) b(2) by (auto simp: vs nth_Cons split: nat.splits)
qed simp

text \<open>
  C17. The record INSERT builds from a list of values that it accepts is well typed, whatever the buffer
  held before: every column holds the value given for it, converted to the column's type, an
  integer or a float in four bytes and a string with zeros up to the column's length, and the
  columns fill the record. The columns follow each other, as \<^verbatim>\<open>create_table\<close> lays them out.
\<close>

theorem insert_record_typed:
  assumes "fill_record cs vs rec0 = Inr rec" and "length vs = length cs" and "place_cols 0 cs = cs"
    and "\<forall>c\<in>set cs. 0 \<le> cm_len c \<and> cm_type c \<noteq> TYPE_NULL" and "int (length rec0) = sum_list (map cm_len cs)"
  shows "length rec = length rec0 \<and>
    (\<forall>i<length cs. \<exists>v. column_value (cs ! i) (vs ! i) = Inr v \<and> typed_cell (cs ! i) v (cell (cs ! i) rec))"
  using fill_record_cells [OF assms(1,2), of 0] assms(3-5) by simp

theorem insert_record_typed_witness:
  "\<exists>rec v. fill_record [demo_col ''a'' 0, demo_col ''b'' 4] [set_int 5 fresh_value, set_int (- 1) fresh_value] (replicate 8 9) = Inr rec \<and>
     typed_cell (demo_col ''b'' 4) v (cell (demo_col ''b'' 4) rec) \<and> int_val v = - 1"
proof -
  let ?cs = "[demo_col ''a'' 0, demo_col ''b'' 4]" and ?vs = "[set_int 5 fresh_value, set_int (- 1) fresh_value]"
  obtain rec where r: "fill_record ?cs ?vs (replicate 8 9) = Inr rec"
    by (simp add: column_value_def types_match_def demo_col_def set_int_def fresh_value_def try_cast_to_def init_raw_def)
  have "\<forall>i<length ?cs. \<exists>v. column_value (?cs ! i) (?vs ! i) = Inr v \<and> typed_cell (?cs ! i) v (cell (?cs ! i) rec)"
    using insert_record_typed [OF r] by (simp add: demo_col_def)
  then have "1 < length ?cs \<Longrightarrow> \<exists>v. column_value (?cs ! 1) (?vs ! 1) = Inr v \<and> typed_cell (?cs ! 1) v (cell (?cs ! 1) rec)" by blast
  then obtain v where v: "column_value (?cs ! 1) (?vs ! 1) = Inr v" "typed_cell (?cs ! 1) v (cell (?cs ! 1) rec)" by auto
  have "int_val v = - 1"
    using v(1) by (simp add: column_value_def types_match_def demo_col_def try_cast_to_def init_raw_def set_int_def fresh_value_def split: if_splits)
      (auto simp: int_val_def)
  then show ?thesis using r v(2) by auto
qed

end
