(* ===== verification/Dml_Correct.thy ===== *)
theory Dml_Correct
  imports Dml Recovery_Correct
begin

text \<open>
  What a statement does to the system: the table changes by exactly the rows of the statement, the log
  and the write set get a record for each of them in order, and the indexes of the table agree with it
  again: an index maps a key to a position exactly when the table has a record with that key there.
\<close>

section \<open>Locks\<close>

definition lock_held :: "lock_manager \<Rightarrow> txn_id \<Rightarrow> int \<Rightarrow> bool" where
  "lock_held lm t fd \<longleftrightarrow> lock_shared_on_table lm t fd = (LockTrue, lm) \<and> lock_exclusive_on_table lm t fd = (LockTrue, lm)"

text \<open>The lock manager grants the transaction the exclusive lock, at once or after the shared one.\<close>

definition grants_x :: "lock_manager \<Rightarrow> txn_id \<Rightarrow> int \<Rightarrow> bool" where
  "grants_x lm t fd \<longleftrightarrow> (\<exists>lm'. lock_exclusive_on_table lm t fd = (LockTrue, lm') \<and> lock_held lm' t fd)"

definition grants :: "lock_manager \<Rightarrow> txn_id \<Rightarrow> int \<Rightarrow> bool" where
  "grants lm t fd \<longleftrightarrow> (\<exists>lm'. lock_shared_on_table lm t fd = (LockTrue, lm') \<and> grants_x lm' t fd)"

lemma lock_held_grants: "lock_held lm t fd \<Longrightarrow> grants lm t fd" "lock_held lm t fd \<Longrightarrow> grants_x lm t fd"
  by (auto simp: grants_def grants_x_def lock_held_def)

text \<open>A table nobody has locked.\<close>

lemma grants_init: "grants lm_init t fd"
  by (simp add: grants_def grants_x_def lock_held_def lock_shared_on_table_def lock_exclusive_on_table_def request_lock_def
      check_and_execute_lock_def upgrade_lock_on_table_def lm_init_def get_lock_request_queue_def lock_compatible_def lock_matrix_def
      add_lock_set_def put_queue_def new_lock_request_def check_wait_die_def Let_def less_eq_group_lock_mode_def)

section \<open>Changing one row\<close>

definition dml_base :: "nat \<Rightarrow> nat \<Rightarrow> txn_id \<Rightarrow> tm_sys \<Rightarrow> bool" where
  "dml_base ino m t s \<longleftrightarrow> db_ok (sys_db s) \<and> sys_log_ok ino m s \<and> (\<exists>x. txn_map s t = Some x \<and> int_range (tx_prev_lsn x))"

abbreviation write_set :: "tm_sys \<Rightarrow> txn_id \<Rightarrow> write_record list" where
  "write_set s t \<equiv> tx_write_set (the (txn_map s t))"

definition tab_fd :: "tm_sys \<Rightarrow> string \<Rightarrow> int option" where
  "tab_fd s n = map_option rm_fd (fhs (sys_db s) n)"

lemma on_table_fd:
  assumes "\<And>h. fhs db n = Some h \<Longrightarrow> rm_fd (fst (snd (op (h, pool db)))) = rm_fd h"
  shows "map_option rm_fd (fhs (snd (on_table db n op)) m) = map_option rm_fd (fhs db m)"
  using assms by (auto simp: on_table_def split: option.splits prod.splits)

lemma rm_ops_fd:
  "rm_fd (fst (snd (rm_insert_record_at (h, s) r b))) = rm_fd h" "rm_fd (fst (snd (rm_delete_record (h, s) r))) = rm_fd h"
  "rm_fd (fst (snd (rm_update_record (h, s) r b))) = rm_fd h"
  by (auto simp: rm_insert_record_at_def rm_delete_record_def rm_update_record_def rm_release_page_handle_def Let_def split: prod.splits sum.splits)

lemma redo_op_fd: "map_option rm_fd (fhs (snd (rdb.redo_op p db)) m) = map_option rm_fd (fhs db m)"
  by (cases p) (simp_all add: db_insert_at_def db_delete_def db_update_def on_table_fd rm_ops_fd)

lemma redo_op_file:
  assumes "db_ok db" "log_apart ino (disk (pool db))"
  shows "keeps_file ino (disk (pool db)) (disk (pool (snd (rdb.redo_op p db))))"
  using db_ops_file [OF assms] by (cases p) simp_all

text \<open>Reading a record changes the pool only.\<close>

lemma rm_get_record_base:
  assumes b: "rm_base h s" and c: "rm_contents h s r = Some v" and room: "rm_room s"
  obtains c s' where "rm_get_record h s r = (Inr v, s')" "pool_step h s (page_no r) c s'" "rm_page_ok (rm_hdr h) c" "rm_view h s (page_no r) = Some c"
proof -
  have p: "page_range h (page_no r)" "slot_ok (rm_hdr h) (slot_no r)" using c by (auto simp: rm_contents_def split: if_splits)
  note d = rm_baseD [OF b]
  obtain x where x: "rm_view h s (page_no r) = Some x" "rm_page_ok (rm_hdr h) x" using d(7) [OF p(1)] by blast
  have v: "v = get_slot (rm_hdr h) x (slot_no r)" using c p x(1) by (auto simp: rm_contents_def split: if_splits)
  obtain f s1 s2 where r: "bpm_fetch_page s (rm_pid h (page_no r)) = (Inr (Some f), s1)" "bpm_ok s1" "page_table s1 (rm_pid h (page_no r)) = Some f"
    "pg_data (frame s1 f) = x" "bpm_unpin_page s1 (rm_pid h (page_no r)) False = (True, s2)" "bp.same_use s s2"
    "bpm_view s \<subseteq>\<^sub>m bpm_view s2" "\<And>q. page_table s2 q \<noteq> None \<Longrightarrow> q = rm_pid h (page_no r) \<or> page_table s q \<noteq> None"
    by (rule bp.read_client [OF d(1) x(1) [unfolded rm_view_def] d(6) [OF p(1)] room [unfolded rm_room_def]]) blast
  have nx: "fd2pageno (disk s2) = fd2pageno (disk s)"
    using bpm_fetch_keeps(4) [OF d(1) d(6) [OF p(1)] r(1) bpm_okD(1) [OF r(2)]] bpm_unpin_next [of s1 "rm_pid h (page_no r)" False] r(5) by simp
  have "pool_step h s (page_no r) x s2"
    using r(6-8) nx x(1) map_leD [OF r(7)] by (auto simp: pool_step_def rm_view_def)
  moreover have "rm_get_record h s r = (Inr v, s2)"
    using rm_fetch_ok [OF r(1)] r(4,5) held_id(1) [OF r(2,3)] by (simp add: rm_get_record_def v)
  ultimately show ?thesis using that x by blast
qed

lemma get_record_row:
  assumes base: "dml_base ino m t s" and fd: "tab_fd s n = Some fd" and gr: "grants (sys_locks s) t fd" and b: "db_tab (sys_db s) n r = Some b"
  obtains s' where "get_record_locked t n r s = Some (Inr b, s')" "dml_base ino m t s'" "tab_fd s' = tab_fd s" "grants_x (sys_locks s') t fd"
    "db_tab (sys_db s') = db_tab (sys_db s)" "db_fits (sys_db s') = db_fits (sys_db s)" "sys_ihs s' = sys_ihs s" "sys_meta s' = sys_meta s"
    "txn_map s' = txn_map s" "sys_log s' = sys_log s" "sys_log_contents s' = sys_log_contents s"
proof -
  let ?db = "sys_db s"
  obtain h where h: "fhs ?db n = Some h" "rm_fd h = fd" using fd by (auto simp: tab_fd_def)
  have ok: "db_ok ?db" and lg: "sys_log_ok ino m s" using base by (simp_all add: dml_base_def)
  have rb: "rm_base h (pool ?db)" "rm_room (pool ?db)" using ok h(1) by (auto simp: db_ok_def)
  obtain lm where lm: "lock_shared_on_table (sys_locks s) t fd = (LockTrue, lm)" "grants_x lm t fd" using gr by (auto simp: grants_def)
  have cont: "rm_contents h (pool ?db) r = Some b" using b h(1) by (simp add: db_tab_def)
  obtain c p where g: "rm_get_record h (pool ?db) r = (Inr b, p)" "pool_step h (pool ?db) (page_no r) c p" "rm_page_ok (rm_hdr h) c"
    "rm_view h (pool ?db) (page_no r) = Some c"
    by (rule rm_get_record_base [OF rb(1) cont rb(2)])
  have pr: "page_range h (page_no r)" using cont by (auto simp: rm_contents_def split: if_splits)
  have same: "rm_view h p q = rm_view h (pool ?db) q" if "page_range h q" for q
    using pool_step_changed [OF rb(1) pr g(2)] that g(2,4) by (cases "q = page_no r") (auto simp: page_changed_def pool_step_def)
  have t: "rm_contents h p = rm_contents h (pool ?db)" by (rule ext) (use same in \<open>auto simp: rm_contents_def\<close>)
  let ?op = "\<lambda>st. (Inr (), (fst st, snd (rm_get_record (fst st) (snd st) r)))"
  obtain db' where db': "on_table ?db n ?op = (Inr (), db')" "db_ok db'" "db_tab db' = (db_tab ?db)(n := rm_contents h (pool ?db))" "db_fits db' = db_fits ?db"
    using on_table_step [OF ok h(1) _ pr g(2,3), of ?op "first_free_page_no (rm_hdr h)"] g(1) t by auto
  have e: "on_table ?db n (\<lambda>(h, p). case rm_get_record h p r of (res, p') \<Rightarrow> (res, (h, p'))) = (Inr b, db')"
    using db'(1) h(1) g(1) by (simp add: on_table_def)
  have tab: "db_tab db' = db_tab ?db" using db'(3) h(1) by (auto simp: db_tab_def fun_eq_iff)
  have pool': "pool db' = p" "fhs db' = fhs ?db" using db'(1) h(1) g(1) by (auto simp: on_table_def fun_upd_idem)
  let ?s = "s\<lparr>sys_locks := lm, sys_db := db'\<rparr>"
  have k: "keeps_file ino (disk (pool ?db)) (disk p)"
    using rm_ops_file(4) [of "pool ?db" ino h r] rm_baseD(1) [OF rb(1)] lg g(1) by (simp add: sys_log_ok_def)
  note l = undo_keeps_log [OF _ _ k]
  have lg': "sys_log_ok ino m ?s" "sys_log_contents ?s = sys_log_contents s"
    using lg l log_apart_keeps [OF _ k] keeps_file_fields(5) [OF k] by (simp_all add: sys_log_ok_def pool')
  show ?thesis
  proof (rule that [of ?s])
    show "get_record_locked t n r s = Some (Inr b, ?s)" using h lm(1) e by (simp add: get_record_locked_def on_db_def tm_lift_def)
    show "dml_base ino m t ?s" using base db'(2) lg'(1) by (simp add: dml_base_def)
    show "tab_fd ?s = tab_fd s" by (simp add: tab_fd_def pool' fun_eq_iff)
  qed (use lm(2) tab db'(4) lg'(2) in simp_all)
qed

lemma chained_ok: "log_ok r \<Longrightarrow> int_range (tx_prev_lsn x) \<Longrightarrow> log_ok (chained x r)"
  by (cases r) (auto simp: log_ok_def base_ok_def chained_def)

lemma log_row_chained: "log_row (with_lsn l (chained x r)) = log_row r"
  by (cases r) (simp_all add: with_lsn_def chained_def)

lemma change_row:
  assumes base: "dml_base ino m t s" and fd: "tab_fd s n = Some fd" and gr: "grants_x (sys_locks s) t fd"
    and fit: "rdb.op_fits (sys_db s) p" and lr: "log_ok lr" "length (log_bytes lr) \<le> LOG_BUFFER_SIZE" "length (log_bytes lr) \<le> m"
  obtains s' lr' where
    "\<And>rest :: 'a tmm. tm_bind (log_txn t lr) (\<lambda>_. tm_bind (with_lock lock_exclusive_on_table t n (on_db (rdb.redo_op p))) (\<lambda>_.
       tm_bind (add_write t (write_of p)) (\<lambda>_. rest))) s = rest s'"
    "dml_base ino (m - length (log_bytes lr)) t s'" "tab_fd s' = tab_fd s" "lock_held (sys_locks s') t fd"
    "db_tab (sys_db s') = redo_row p (db_tab (sys_db s))" "db_fits (sys_db s') = db_fits (sys_db s)" "sys_ihs s' = sys_ihs s" "sys_meta s' = sys_meta s"
    "write_set s' t = write_set s t @ [write_of p]" "sys_log_contents s' = sys_log_contents s @ log_bytes lr'" "log_row lr' = log_row lr"
proof -
  have ok: "db_ok (sys_db s)" and lg: "sys_log_ok ino m s" using base by (simp_all add: dml_base_def)
  obtain x where x: "txn_map s t = Some x" "int_range (tx_prev_lsn x)" using base by (auto simp: dml_base_def)
  let ?n = "length (log_bytes lr)" and ?lr = "with_lsn (global_lsn (sys_log s)) (chained x lr)" and ?x1 = "x\<lparr>tx_prev_lsn := global_lsn (sys_log s)\<rparr>"
  have lgn: "sys_log_ok ino ?n s" using lg lr(3) by (simp add: sys_log_ok_def)
  obtain g d where l: "log_txn t lr s = Some (Inr (), s\<lparr>sys_log := g, sys_db := with_disk (sys_db s) d, txn_map := (txn_map s)(t \<mapsto> ?x1)\<rparr>)"
    "db_ok (with_disk (sys_db s) d)" "db_tab (with_disk (sys_db s) d) = db_tab (sys_db s)" "db_fits (with_disk (sys_db s) d) = db_fits (sys_db s)"
    "lgm_inv g d" "log_apart ino d" "log_contents g d = sys_log_contents s @ log_bytes ?lr" "max_bytes (os d) = max_bytes (os (disk (pool (sys_db s))))"
    by (rule log_txn_ok [OF x(1) ok chained_ok [OF lr(1) x(2)] refl lr(2) lgn])
  let ?db1 = "with_disk (sys_db s) d"
  have fit1: "rdb.op_fits ?db1 p" using fit rdb.op_fits_cong [OF l(4)] by simp
  obtain db2 where u: "rdb.redo_op p ?db1 = (Inr (), db2)" "db_ok db2" "db_tab db2 = redo_row p (db_tab ?db1)" "db_fits db2 = db_fits ?db1"
    by (rule rdb.redo_op_row [OF l(2) fit1])
  have k: "keeps_file ino d (disk (pool db2))" using redo_op_file [OF l(2), of ino p] l(6) u(1) by simp
  have fds: "map_option rm_fd (fhs db2 m) = map_option rm_fd (fhs (sys_db s) m)" for m using redo_op_fd [of p ?db1 m] u(1) by simp
  obtain lm where lm: "lock_exclusive_on_table (sys_locks s) t fd = (LockTrue, lm)" "lock_held lm t fd" using gr by (auto simp: grants_x_def)
  obtain h where h: "fhs (sys_db s) n = Some h" "rm_fd h = fd" using fd by (auto simp: tab_fd_def)
  let ?s2 = "s\<lparr>sys_log := g, sys_db := db2, sys_locks := lm, txn_map := (txn_map s)(t \<mapsto> append_write_record ?x1 (write_of p))\<rparr>"
  note kl = undo_keeps_log [OF l(5,6) k]
  have lsn: "int_range (global_lsn (sys_log s))" using lg by (simp add: sys_log_ok_def lgm_inv_def)
  have w: "with_lock lock_exclusive_on_table t n (on_db (rdb.redo_op p)) (s\<lparr>sys_log := g, sys_db := ?db1, txn_map := (txn_map s)(t \<mapsto> ?x1)\<rparr>) =
      Some (Inr (), s\<lparr>sys_log := g, sys_db := db2, sys_locks := lm, txn_map := (txn_map s)(t \<mapsto> ?x1)\<rparr>)"
    using h lm(1) u(1) by (simp add: with_lock_def on_db_def tm_lift_def)
  have a: "add_write t (write_of p) (s\<lparr>sys_log := g, sys_db := db2, sys_locks := lm, txn_map := (txn_map s)(t \<mapsto> ?x1)\<rparr>) = Some (Inr (), ?s2)"
    by (simp add: add_write_def upd_txn_simp)
  show ?thesis
  proof (rule that [of ?s2 ?lr])
    show "tm_bind (log_txn t lr) (\<lambda>_. tm_bind (with_lock lock_exclusive_on_table t n (on_db (rdb.redo_op p))) (\<lambda>_.
       tm_bind (add_write t (write_of p)) (\<lambda>_. rest))) s = rest ?s2" for rest :: "'a tmm"
      by (simp add: l(1) w a)
    show "dml_base ino (m - ?n) t ?s2"
      using u(2) kl log_apart_keeps [OF l(6) k] keeps_file_fields(5) [OF k] l(7,8) lg lr(3) lsn
      by (simp add: dml_base_def sys_log_ok_def append_write_record_def) (simp add: with_lsn_def chained_def)
    show "tab_fd ?s2 = tab_fd s" by (simp add: tab_fd_def fds fun_eq_iff)
    show "sys_log_contents ?s2 = sys_log_contents s @ log_bytes ?lr" using kl l(7) by simp
  qed (use lm(2) u l log_row_chained x(1) in \<open>simp_all add: append_write_record_def\<close>)
qed

section \<open>Indexes that agree with the table\<close>

abbreviation ix_name :: "string \<Rightarrow> index_meta \<Rightarrow> string" where
  "ix_name n ix \<equiv> get_index_name_cols n (im_cols ix)"

text \<open>An index holds a key with a position exactly when the table has a record with that key there; fuel \<open>k\<close> is enough for its tree.\<close>

definition ix_agrees :: "nat \<Rightarrow> (string \<rightharpoonup> ix_handle) \<Rightarrow> string \<Rightarrow> (rid \<rightharpoonup> bytes) \<Rightarrow> index_meta \<Rightarrow> bool" where
  "ix_agrees k ihs n T ix \<longleftrightarrow> (\<exists>ih h d M. ihs (ix_name n ix) = Some ih \<and> ix_holds h ih d M \<and> d < k \<and>
     (\<forall>r b. T r = Some b \<longrightarrow> length (index_key ix b) = klen h) \<and>
     (\<forall>key r. M key = Some r \<longleftrightarrow> (\<exists>b. T r = Some b \<and> index_key ix b = key)))"

lemma ix_agrees_other: "m \<noteq> ix_name n ix \<Longrightarrow> ix_agrees k (ihs(m \<mapsto> ih)) n T ix = ix_agrees k ihs n T ix"
  by (simp add: ix_agrees_def)

lemma drop_key_agrees:
  assumes a: "ix_agrees k (sys_ihs s) n T ix" and b: "T r = Some b" and left: "\<exists>r'. r' \<noteq> r \<and> T r' \<noteq> None"
  obtains ih where "drop_key k n b ix s = Some (Inr (), s\<lparr>sys_ihs := (sys_ihs s)(ix_name n ix \<mapsto> ih)\<rparr>)"
    "ix_agrees k ((sys_ihs s)(ix_name n ix \<mapsto> ih)) n (T(r := None)) ix"
proof -
  obtain ih h d M where i: "sys_ihs s (ix_name n ix) = Some ih" "ix_holds h ih d M" "d < k" "\<And>r b. T r = Some b \<Longrightarrow> length (index_key ix b) = klen h"
    and M: "\<And>key r. M key = Some r \<longleftrightarrow> (\<exists>b. T r = Some b \<and> index_key ix b = key)"
    using a by (auto simp: ix_agrees_def)
  let ?key = "index_key ix b"
  have rm: "map_remove ?key None M = M(?key := None)" by (simp add: map_remove_def)
  have mk: "M ?key = Some r" using M b by blast
  obtain r' b' where r': "r' \<noteq> r" "T r' = Some b'" using left by auto
  have "M (index_key ix b') = Some r'" using M r'(2) by blast
  then have "(M(?key := None)) (index_key ix b') = Some r'" using mk r'(1) by auto
  then have ne: "map_remove ?key None M \<noteq> Map.empty" unfolding rm by (metis option.distinct(1))
  obtain ih' d' where e: "delete_entry k ?key None ih = Some (Inr True, ih')" "ix_holds h ih' d' (M(?key := None))" "d' \<le> d"
    using delete_entry_holds [OF i(2) i(4) [OF b] i(3) ne] rm by auto
  have m': "(M(?key := None)) key = Some q \<longleftrightarrow> (\<exists>c. (T(r := None)) q = Some c \<and> index_key ix c = key)" for key q
    using M [of key q] mk b by auto
  have l': "length (index_key ix c) = klen h" if "(T(r := None)) q = Some c" for q c using i(4) that by (auto split: if_splits)
  have "ix_agrees k ((sys_ihs s)(ix_name n ix \<mapsto> ih')) n (T(r := None)) ix"
    unfolding ix_agrees_def using e(2,3) i(3) l' m' by (intro exI [of _ ih'] exI [of _ h] exI [of _ d'] exI [of _ "M(?key := None)"]) simp
  moreover have "drop_key k n b ix s = Some (Inr (), s\<lparr>sys_ihs := (sys_ihs s)(ix_name n ix \<mapsto> ih')\<rparr>)"
    by (simp add: drop_key_def on_index_def i(1) e(1) tm_bind_def tm_lift_def tm_ret_def)
  ultimately show ?thesis using that by blast
qed

lemma drop_keys_agree:
  assumes "\<And>ix. ix \<in> set ixs \<Longrightarrow> ix_agrees k (sys_ihs s) n T ix" "distinct (map (ix_name n) ixs)" "T r = Some b"
    "ixs \<noteq> [] \<Longrightarrow> \<exists>r'. r' \<noteq> r \<and> T r' \<noteq> None"
  shows "\<exists>ihs. tm_each ixs (drop_key k n b) s = Some (Inr (), s\<lparr>sys_ihs := ihs\<rparr>) \<and> (\<forall>ix\<in>set ixs. ix_agrees k ihs n (T(r := None)) ix) \<and>
    (\<forall>m. m \<notin> ix_name n ` set ixs \<longrightarrow> ihs m = sys_ihs s m)"
  using assms
proof (induction ixs arbitrary: s)
  case Nil
  have "s\<lparr>sys_ihs := sys_ihs s\<rparr> = s" by simp
  then show ?case by (intro exI [of _ "sys_ihs s"]) (simp add: tm_ret_def)
next
  case (Cons ix ixs)
  have left: "\<exists>r'. r' \<noteq> r \<and> T r' \<noteq> None" using Cons.prems(4) by simp
  obtain ih where d: "drop_key k n b ix s = Some (Inr (), s\<lparr>sys_ihs := (sys_ihs s)(ix_name n ix \<mapsto> ih)\<rparr>)" (is "_ = Some (_, ?s)")
    "ix_agrees k ((sys_ihs s)(ix_name n ix \<mapsto> ih)) n (T(r := None)) ix"
    by (rule drop_key_agrees [OF Cons.prems(1) [of ix] Cons.prems(3) left]) auto
  have o: "ix_agrees k (sys_ihs ?s) n T ix'" if i: "ix' \<in> set ixs" for ix'
  proof -
    have "ix_name n ix \<noteq> ix_name n ix'" using Cons.prems(2) image_eqI [OF refl i, of "ix_name n"] by auto
    then show ?thesis using Cons.prems(1) i by (simp add: ix_agrees_other)
  qed
  obtain ihs where e: "tm_each ixs (drop_key k n b) ?s = Some (Inr (), ?s\<lparr>sys_ihs := ihs\<rparr>)" "\<forall>ix\<in>set ixs. ix_agrees k ihs n (T(r := None)) ix"
    "\<forall>m. m \<notin> ix_name n ` set ixs \<longrightarrow> ihs m = sys_ihs ?s m"
    using Cons.IH [of ?s, OF o _ Cons.prems(3) left] Cons.prems(2) unfolding list.map distinct.simps by blast
  have "ix_name n ix \<notin> ix_name n ` set ixs" using Cons.prems(2) by simp
  then have "ix_agrees k ihs n (T(r := None)) ix" using d(2) e(3) by (simp add: ix_agrees_def)
  then have "\<forall>ix\<in>set (ix # ixs). ix_agrees k ihs n (T(r := None)) ix" using e(2) by (simp del: fun_upd_apply)
  moreover have "\<forall>m. m \<notin> ix_name n ` set (ix # ixs) \<longrightarrow> ihs m = sys_ihs s m" using e(3) by simp
  moreover have "tm_each (ix # ixs) (drop_key k n b) s = Some (Inr (), s\<lparr>sys_ihs := ihs\<rparr>)" using d(1) e(1) by simp
  ultimately show ?case by blast
qed

section \<open>DELETE\<close>

definition ixs_agree :: "nat \<Rightarrow> tm_sys \<Rightarrow> string \<Rightarrow> tab_meta \<Rightarrow> bool" where
  "ixs_agree k s n tab \<longleftrightarrow> list_all (ix_agrees k (sys_ihs s) n (db_tab (sys_db s) n)) (tm_indexes tab)"

abbreviation log_size :: "log_record \<Rightarrow> nat" where
  "log_size r \<equiv> length (log_bytes r)"

definition log_fits :: "log_record \<Rightarrow> bool" where
  "log_fits r \<longleftrightarrow> log_ok r \<and> log_size r \<le> LOG_BUFFER_SIZE"

lemma db_tab_fits:
  assumes "db_ok db" "db_tab db n r = Some b"
  shows "db_fits db n r (length b)"
proof -
  obtain h where h: "fhs db n = Some h" "rm_contents h (pool db) r = Some b" using assms(2) by (auto simp: db_tab_def split: option.splits)
  have p: "page_range h (page_no r)" "slot_ok (rm_hdr h) (slot_no r)" using h(2) by (auto simp: rm_contents_def split: if_splits)
  have "rm_base h (pool db)" using assms(1) h(1) by (auto simp: db_ok_def)
  note d = rm_baseD [OF this]
  obtain x where x: "rm_view h (pool db) (page_no r) = Some x" "rm_page_ok (rm_hdr h) x" using d(7) [OF p(1)] by blast
  have "b = get_slot (rm_hdr h) x (slot_no r)" using h(2) p x(1) by (auto simp: rm_contents_def split: if_splits)
  then have "length b = nat (record_size (rm_hdr h))" using get_slot_length [OF d(2) p(2)] x(2) by (simp add: rm_page_ok_def)
  then show ?thesis using h(1) p by (simp add: db_fits_def)
qed

lemma delete_row_ok:
  assumes base: "dml_base ino m t s" and fd: "tab_fd s n = Some fd" and gr: "grants (sys_locks s) t fd" and b: "db_tab (sys_db s) n r = Some b"
    and lr: "log_fits (new_delete_log t b r n)" "log_size (new_delete_log t b r n) \<le> m"
    and ix: "ixs_agree k s n tab" "distinct (map (ix_name n) (tm_indexes tab))" "tm_indexes tab \<noteq> [] \<Longrightarrow> \<exists>r'. r' \<noteq> r \<and> db_tab (sys_db s) n r' \<noteq> None"
  obtains s' lr where "delete_row k t n tab r s = Some (Inr (), s')" "dml_base ino (m - log_size (new_delete_log t b r n)) t s'"
    "tab_fd s' = tab_fd s" "lock_held (sys_locks s') t fd"
    "db_tab (sys_db s') = (db_tab (sys_db s))(n := (db_tab (sys_db s) n)(r := None))" "sys_meta s' = sys_meta s" "ixs_agree k s' n tab"
    "\<And>i. i \<notin> ix_name n ` set (tm_indexes tab) \<Longrightarrow> sys_ihs s' i = sys_ihs s i"
    "write_set s' t = write_set s t @ [value_write_record DELETE_TUPLE n r b]" "sys_log_contents s' = sys_log_contents s @ log_bytes lr"
    "log_row lr = [RowDelete n r b]"
proof -
  obtain s1 where s1: "get_record_locked t n r s = Some (Inr b, s1)" "dml_base ino m t s1" "tab_fd s1 = tab_fd s" "grants_x (sys_locks s1) t fd"
    "db_tab (sys_db s1) = db_tab (sys_db s)" "db_fits (sys_db s1) = db_fits (sys_db s)" "sys_ihs s1 = sys_ihs s" "sys_meta s1 = sys_meta s"
    "txn_map s1 = txn_map s" "sys_log s1 = sys_log s" "sys_log_contents s1 = sys_log_contents s"
    by (rule get_record_row [OF base fd gr b])
  let ?p = "RowDelete n r b" and ?lr = "new_delete_log t b r n" and ?T = "db_tab (sys_db s) n"
  have fit: "rdb.op_fits (sys_db s1) ?p" using db_tab_fits [OF _ b] base s1(6) by (simp add: dml_base_def)
  obtain s2 lr where s2: "\<And>rest :: unit tmm. tm_bind (log_txn t ?lr) (\<lambda>_. tm_bind (with_lock lock_exclusive_on_table t n (on_db (rdb.redo_op ?p))) (\<lambda>_.
       tm_bind (add_write t (write_of ?p)) (\<lambda>_. rest))) s1 = rest s2"
    "dml_base ino (m - log_size ?lr) t s2" "tab_fd s2 = tab_fd s1" "lock_held (sys_locks s2) t fd"
    "db_tab (sys_db s2) = redo_row ?p (db_tab (sys_db s1))" "db_fits (sys_db s2) = db_fits (sys_db s1)" "sys_ihs s2 = sys_ihs s1" "sys_meta s2 = sys_meta s1"
    "write_set s2 t = write_set s1 t @ [write_of ?p]" "sys_log_contents s2 = sys_log_contents s1 @ log_bytes lr" "log_row lr = log_row ?lr"
    by (rule change_row [OF s1(2) _ s1(4) fit, where lr = ?lr]) (use lr fd s1(3) in \<open>auto simp: log_fits_def\<close>)
  have a: "\<And>ix. ix \<in> set (tm_indexes tab) \<Longrightarrow> ix_agrees k (sys_ihs s2) n ?T ix"
    using ix(1) s1(7) s2(7) by (simp add: ixs_agree_def list_all_iff)
  obtain ihs where d: "tm_each (tm_indexes tab) (drop_key k n b) s2 = Some (Inr (), s2\<lparr>sys_ihs := ihs\<rparr>)"
    "\<forall>ix\<in>set (tm_indexes tab). ix_agrees k ihs n (?T(r := None)) ix" "\<forall>m. m \<notin> ix_name n ` set (tm_indexes tab) \<longrightarrow> ihs m = sys_ihs s2 m"
    using drop_keys_agree [OF a ix(2) b ix(3)] by blast
  let ?s = "s2\<lparr>sys_ihs := ihs\<rparr>"
  have tab: "db_tab (sys_db ?s) = (db_tab (sys_db s))(n := ?T(r := None))"
    using s2(5) s1(5) by (simp add: redo_row_def on_cell_apply fun_eq_iff)
  have op: "rdb.redo_op ?p = (\<lambda>db. db_delete db n r)" by (simp add: fun_eq_iff)
  show ?thesis
  proof (rule that [of ?s lr])
    show "delete_row k t n tab r s = Some (Inr (), ?s)"
      using s1(1) s2(1) [of "tm_each (tm_indexes tab) (drop_key k n b)"] d(1) by (simp add: op) (simp add: delete_row_def delete_locked_def)
    show "dml_base ino (m - log_size ?lr) t ?s" using s2(2) by (simp add: dml_base_def sys_log_ok_def)
    show "tab_fd ?s = tab_fd s" using s2(3) s1(3) by (simp add: tab_fd_def fun_eq_iff)
    show "ixs_agree k ?s n tab" using d(2) tab by (simp add: ixs_agree_def list_all_iff)
    show "sys_ihs ?s i = sys_ihs s i" if "i \<notin> ix_name n ` set (tm_indexes tab)" for i using d(3) that s1(7) s2(7) by simp
    show "log_row lr = [?p]" using s2(11) by (simp add: new_delete_log_def)
  qed (use tab s1 s2 in simp_all)
qed

text \<open>The change of the row at a position.\<close>

abbreviation deletion :: "string \<Rightarrow> (rid \<rightharpoonup> bytes) \<Rightarrow> rid \<Rightarrow> row_op" where
  "deletion n T r \<equiv> RowDelete n r (the (T r))"

abbreviation deletion_log :: "txn_id \<Rightarrow> string \<Rightarrow> (rid \<rightharpoonup> bytes) \<Rightarrow> rid \<Rightarrow> log_record" where
  "deletion_log t n T r \<equiv> new_delete_log t (the (T r)) r n"

lemma delete_rows_ok:
  assumes "dml_base ino m t s" "tab_fd s n = Some fd" "grants (sys_locks s) t fd" "db_tab (sys_db s) n = T"
    "ixs_agree k s n tab" "distinct (map (ix_name n) (tm_indexes tab))" "distinct rs"
    "\<forall>r\<in>set rs. T r \<noteq> None \<and> log_fits (deletion_log t n T r)" "sum_list (map (\<lambda>r. log_size (deletion_log t n T r)) rs) \<le> m"
    "tm_indexes tab \<noteq> [] \<Longrightarrow> \<exists>r. T r \<noteq> None \<and> r \<notin> set rs"
  shows "\<exists>s' lrs. tm_each rs (delete_row k t n tab) s = Some (Inr (), s') \<and> db_ok (sys_db s') \<and>
    db_tab (sys_db s') = (db_tab (sys_db s))(n := T |` (- set rs)) \<and> ixs_agree k s' n tab \<and>
    (\<forall>i. i \<notin> ix_name n ` set (tm_indexes tab) \<longrightarrow> sys_ihs s' i = sys_ihs s i) \<and>
    write_set s' t = write_set s t @ map (write_of \<circ> deletion n T) rs \<and>
    sys_log_contents s' = sys_log_contents s @ concat (map log_bytes lrs) \<and> log_rows lrs = map (deletion n T) rs"
  using assms
proof (induction rs arbitrary: s m T)
  case Nil
  then show ?case by (intro exI [of _ s] exI [of _ "[]"]) (simp add: tm_ret_def dml_base_def fun_upd_idem)
next
  case (Cons r rs)
  obtain b where b: "T r = Some b" and lf: "log_fits (deletion_log t n T r)" using Cons.prems(8) by auto
  let ?lr = "deletion_log t n T r" and ?T = "T(r := None)"
  obtain s1 lr where s1: "delete_row k t n tab r s = Some (Inr (), s1)" "dml_base ino (m - log_size ?lr) t s1"
    "tab_fd s1 = tab_fd s" "lock_held (sys_locks s1) t fd" "db_tab (sys_db s1) = (db_tab (sys_db s))(n := ?T)" "sys_meta s1 = sys_meta s" "ixs_agree k s1 n tab"
    "\<And>i. i \<notin> ix_name n ` set (tm_indexes tab) \<Longrightarrow> sys_ihs s1 i = sys_ihs s i"
    "write_set s1 t = write_set s t @ [value_write_record DELETE_TUPLE n r b]" "sys_log_contents s1 = sys_log_contents s @ log_bytes lr"
    "log_row lr = [RowDelete n r b]"
    by (rule delete_row_ok [OF Cons.prems(1-3) _ _ _ Cons.prems(5,6), of r b]) (use b lf Cons.prems(4,9,10) in auto)
  have keep: "deletion n ?T q = deletion n T q" "deletion_log t n ?T q = deletion_log t n T q" if "q \<in> set rs" for q
    using Cons.prems(7) that by auto
  have r: "r \<notin> set rs" "distinct rs" using Cons.prems(7) by simp_all
  have len: "sum_list (map (\<lambda>r. log_size (deletion_log t n ?T r)) rs) = sum_list (map (\<lambda>r. log_size (deletion_log t n T r)) rs)"
    by (rule arg_cong [of _ _ sum_list], rule map_cong [OF refl]) (use keep(2) in simp)
  have "\<exists>s' lrs. tm_each rs (delete_row k t n tab) s1 = Some (Inr (), s') \<and> db_ok (sys_db s') \<and>
    db_tab (sys_db s') = (db_tab (sys_db s1))(n := ?T |` (- set rs)) \<and> ixs_agree k s' n tab \<and>
    (\<forall>i. i \<notin> ix_name n ` set (tm_indexes tab) \<longrightarrow> sys_ihs s' i = sys_ihs s1 i) \<and>
    write_set s' t = write_set s1 t @ map (write_of \<circ> deletion n ?T) rs \<and>
    sys_log_contents s' = sys_log_contents s1 @ concat (map log_bytes lrs) \<and> log_rows lrs = map (deletion n ?T) rs"
  proof (rule Cons.IH [OF s1(2) _ lock_held_grants(1) [OF s1(4)] _ s1(7) Cons.prems(6) r(2)])
    show "tab_fd s1 n = Some fd" using s1(3) Cons.prems(2) by simp
    show "\<forall>q\<in>set rs. ?T q \<noteq> None \<and> log_fits (deletion_log t n ?T q)" using Cons.prems(8) keep r(1) by auto
    show "sum_list (map (\<lambda>r. log_size (deletion_log t n ?T r)) rs) \<le> m - log_size ?lr" using Cons.prems(9) len by simp
    show "\<exists>q. ?T q \<noteq> None \<and> q \<notin> set rs" if "tm_indexes tab \<noteq> []" using Cons.prems(10) [OF that] by auto
  qed (use s1(5) in simp)
  then obtain s' lrs where e: "tm_each rs (delete_row k t n tab) s1 = Some (Inr (), s')" "db_ok (sys_db s')"
    "db_tab (sys_db s') = (db_tab (sys_db s1))(n := ?T |` (- set rs))" "ixs_agree k s' n tab"
    "\<forall>i. i \<notin> ix_name n ` set (tm_indexes tab) \<longrightarrow> sys_ihs s' i = sys_ihs s1 i"
    "write_set s' t = write_set s1 t @ map (write_of \<circ> deletion n ?T) rs"
    "sys_log_contents s' = sys_log_contents s1 @ concat (map log_bytes lrs)" "log_rows lrs = map (deletion n ?T) rs" by blast
  have m: "map (write_of \<circ> deletion n ?T) rs = map (write_of \<circ> deletion n T) rs" "map (deletion n ?T) rs = map (deletion n T) rs"
    using keep(1) by (simp_all cong: map_cong)
  have res: "?T |` (- set rs) = T |` (- set (r # rs))" by (auto simp: restrict_map_def fun_eq_iff)
  show ?case
  proof (intro exI conjI)
    show "tm_each (r # rs) (delete_row k t n tab) s = Some (Inr (), s')" using s1(1) e(1) by simp
    show "db_tab (sys_db s') = (db_tab (sys_db s))(n := T |` (- set (r # rs)))" unfolding res [symmetric] e(3) s1(5) by simp
    show "\<forall>i. i \<notin> ix_name n ` set (tm_indexes tab) \<longrightarrow> sys_ihs s' i = sys_ihs s i" using e(5) s1(8) by simp
    show "write_set s' t = write_set s t @ map (write_of \<circ> deletion n T) (r # rs)" using e(6) s1(9) b m by simp
    show "sys_log_contents s' = sys_log_contents s @ concat (map log_bytes (lr # lrs))" using e(7) s1(10) by simp
    show "log_rows (lr # lrs) = map (deletion n T) (r # rs)" using e(8) s1(11) b m by simp
  qed (use e in blast)+
qed

text \<open>
  C8. DELETE executes completely when the transaction gets the locks and the log has room: it removes
  exactly the given rows from the table and leaves all other tables alone, every index of the table
  agrees with the table again, and the write set and the log get one record for each row in
  order, with the bytes the row had, from which a rollback and a recovery put it back. A table
  with indexes has to keep a row.
\<close>

theorem delete_correct:
  assumes "dml_base ino m t s" and "tab_fd s n = Some fd" and "grants (sys_locks s) t fd" and "db_tab (sys_db s) n = T"
    and "get_table (sys_meta s) n = Inr tab" and "tm_cols tab \<noteq> []" and "ixs_agree k s n tab" and "distinct (map (ix_name n) (tm_indexes tab))"
    and "distinct rs" and "\<forall>r\<in>set rs. T r \<noteq> None \<and> log_fits (deletion_log t n T r)"
    and "sum_list (map (\<lambda>r. log_size (deletion_log t n T r)) rs) \<le> m" and "tm_indexes tab \<noteq> [] \<Longrightarrow> \<exists>r. T r \<noteq> None \<and> r \<notin> set rs"
  shows "\<exists>s' lrs. run_delete k t n rs s = Some (Inr (), s') \<and> db_ok (sys_db s') \<and>
    db_tab (sys_db s') = (db_tab (sys_db s))(n := T |` (- set rs)) \<and> ixs_agree k s' n tab \<and>
    (\<forall>i. i \<notin> ix_name n ` set (tm_indexes tab) \<longrightarrow> sys_ihs s' i = sys_ihs s i) \<and>
    write_set s' t = write_set s t @ map (write_of \<circ> deletion n T) rs \<and>
    sys_log_contents s' = sys_log_contents s @ concat (map log_bytes lrs) \<and> log_rows lrs = map (deletion n T) rs"
proof -
  obtain h where h: "fhs (sys_db s) n = Some h" using assms(2) by (auto simp: tab_fd_def)
  have "run_delete k t n rs s = tm_each rs (delete_row k t n tab) s"
    using assms(5,6) h by (simp add: run_delete_def open_tab_def tm_bind_def tm_lift_def get_col_total_len_def)
  then show ?thesis using delete_rows_ok [OF assms(1-4,7-12)] by simp
qed

text \<open>Databases that come from the empty sample table by insertions.\<close>

definition txn_like :: "rm_db \<Rightarrow> bool" where
  "txn_like db \<longleftrightarrow> db_ok db \<and> keeps_file 4 (disk (pool txn_db)) (disk (pool db)) \<and> (\<forall>n. map_option rm_fd (fhs db n) = map_option rm_fd (fhs txn_db n)) \<and>
     db_fits db = db_fits txn_db"

lemma txn_like_insert:
  assumes "txn_like db" "db_fits txn_db n r (length b)"
  obtains db1 where "txn_like db1" "db_tab db1 = redo_row (RowInsert n r b) (db_tab db)"
proof -
  let ?p = "RowInsert n r b"
  have l: "db_ok db" "keeps_file 4 (disk (pool txn_db)) (disk (pool db))" "\<And>n. map_option rm_fd (fhs db n) = map_option rm_fd (fhs txn_db n)" "db_fits db = db_fits txn_db"
    using assms(1) by (simp_all add: txn_like_def)
  have fit: "rdb.op_fits db ?p" using assms(2) l(4) by simp
  obtain db1 where i: "rdb.redo_op ?p db = (Inr (), db1)" "db_ok db1" "db_tab db1 = redo_row ?p (db_tab db)" "db_fits db1 = db_fits db"
    by (rule rdb.redo_op_row [OF l(1) fit])
  have "log_apart 4 (disk (pool db))" using log_apart_keeps [OF txn_log_apart(1) l(2)] by blast
  then have "keeps_file 4 (disk (pool db)) (disk (pool db1))" using redo_op_file [OF l(1), of 4 ?p] i(1) by simp
  then have "txn_like db1" using i l redo_op_fd [of ?p db] keeps_file_trans [OF l(2)] by (simp add: txn_like_def)
  then show ?thesis using that i(3) by blast
qed

lemma txn_like_base:
  assumes "txn_like db"
  shows "db_ok db" "tab_fd (txn_sys db []) ''t'' = Some 3" "dml_base 4 1000 1 (txn_sys db [])"
proof -
  have l: "db_ok db" "keeps_file 4 (disk (pool txn_db)) (disk (pool db))" "map_option rm_fd (fhs db ''t'') = Some 3"
    using assms by (simp_all add: txn_like_def) (simp add: txn_db_def txn_file_def)
  note a = log_apart_keeps [OF txn_log_apart(1) l(2)]
  have m: "max_bytes (os (disk (pool db))) = 10000000" "log_file (disk (pool db)) = []"
    using keeps_file_fields(5) [OF l(2)] a txn_log_apart(2) by (simp_all add: txn_db_def bpm_new_def txn_disk_def)
  have "sys_log_ok 4 1000 (txn_sys db [])"
    using a m log_apart_ready [of 4 "disk (pool db)"] by (simp add: sys_log_ok_def txn_sys_def lgm_inv_def lgm_new_def log_contents_def)
  then show "dml_base 4 1000 1 (txn_sys db [])"
    using l(1) by (simp add: dml_base_def) (simp add: txn_sys_def new_transaction_def INVALID_LSN_def)
  show "db_ok db" "tab_fd (txn_sys db []) ''t'' = Some 3" using l by (simp_all add: tab_fd_def txn_sys_def)
qed

lemma txn_slots: "db_fits txn_db ''t'' (mk_rid 1 0) 8" "db_fits txn_db ''t'' (mk_rid 1 1) 8"
proof -
  have "1 < rm_records_per_page 8" by (simp add: rm_records_per_page_def) code_simp
  then show "db_fits txn_db ''t'' (mk_rid 1 0) 8" "db_fits txn_db ''t'' (mk_rid 1 1) 8"
    by (simp_all add: db_fits_def txn_db_def txn_file_def sample_hdr_def page_range_def slot_ok_def)
qed

lemma txn_two_rows:
  obtains db db1 where "txn_like db" "txn_like db1" "db_tab db = (\<lambda>_ _. None)(''t'' := [mk_rid 1 0 \<mapsto> replicate 8 7])"
    "db_tab db1 = (\<lambda>_ _. None)(''t'' := [mk_rid 1 0 \<mapsto> replicate 8 7, mk_rid 1 1 \<mapsto> replicate 8 9])"
proof -
  have "txn_like txn_db" using txn_db_ok(1) by (simp add: txn_like_def)
  then obtain db where db: "txn_like db" "db_tab db = redo_row (RowInsert ''t'' (mk_rid 1 0) (replicate 8 7)) (db_tab txn_db)"
    by (rule txn_like_insert) (use txn_slots in auto)
  obtain db1 where db1: "txn_like db1" "db_tab db1 = redo_row (RowInsert ''t'' (mk_rid 1 1) (replicate 8 9)) (db_tab db)"
    by (rule txn_like_insert [OF db(1)]) (use txn_slots in auto)
  show ?thesis by (rule that [OF db(1) db1(1)]) (use db(2) db1(2) txn_db_ok(2) in \<open>auto simp: redo_row_def on_cell_apply fun_eq_iff\<close>)
qed

lemma txn_one_row:
  obtains db where "db_ok db" "db_tab db = (\<lambda>_ _. None)(''t'' := [mk_rid 1 0 \<mapsto> replicate 8 7])" "tab_fd (txn_sys db []) ''t'' = Some 3"
    "dml_base 4 1000 1 (txn_sys db [])"
  by (rule txn_two_rows) (use that txn_like_base in blast)

section \<open>The keys of a new row\<close>

text \<open>The index has room for another key, and the key has its length.\<close>

definition ix_takes :: "nat \<Rightarrow> (string \<rightharpoonup> ix_handle) \<Rightarrow> string \<Rightarrow> bytes \<Rightarrow> index_meta \<Rightarrow> bool" where
  "ix_takes k ihs n b ix \<longleftrightarrow> (\<exists>ih. ihs (ix_name n ix) = Some ih \<and> ih_next ih + int k < 2 ^ 31 - 2 \<and> length (index_key ix b) = klen (ih_hdr ih))"

definition has_key :: "(rid \<rightharpoonup> bytes) \<Rightarrow> index_meta \<Rightarrow> bytes \<Rightarrow> bool" where
  "has_key T ix key \<longleftrightarrow> (\<exists>r b. T r = Some b \<and> index_key ix b = key)"

lemma ix_takes_other: "m \<noteq> ix_name n ix \<Longrightarrow> ix_takes k (ihs(m \<mapsto> ih)) n b ix = ix_takes k ihs n b ix"
  by (simp add: ix_takes_def)

lemma ix_agrees_mono: "ix_agrees k ihs n T ix \<Longrightarrow> k \<le> k' \<Longrightarrow> ix_agrees k' ihs n T ix"
  unfolding ix_agrees_def by (meson less_le_trans)

lemma insert_key_agrees:
  assumes a: "ix_agrees k (sys_ihs s) n T ix" and room: "ix_takes k (sys_ihs s) n b ix"
    and r: "T r = None \<or> has_key T ix (index_key ix b)" "rid_ok r"
  obtains ih p where
    "on_index (ix_name n ix) (insert_entry (Suc k) (index_key ix b) r) s =
       Some (Inr (p, \<not> has_key T ix (index_key ix b)), s\<lparr>sys_ihs := (sys_ihs s)(ix_name n ix \<mapsto> ih)\<rparr>)"
    "ix_agrees (Suc k) ((sys_ihs s)(ix_name n ix \<mapsto> ih)) n (if has_key T ix (index_key ix b) then T else T(r \<mapsto> b)) ix"
proof -
  obtain ih h d M where i: "sys_ihs s (ix_name n ix) = Some ih" "ix_holds h ih d M" "d < k" "\<And>r b. T r = Some b \<Longrightarrow> length (index_key ix b) = klen h"
    and M: "\<And>key r. M key = Some r \<longleftrightarrow> (\<exists>b. T r = Some b \<and> index_key ix b = key)"
    using a by (auto simp: ix_agrees_def)
  let ?key = "index_key ix b"
  have l: "length ?key = klen h" using room i(1,2) by (auto simp: ix_takes_def ix_holds_def dest!: ix_invD(2) simp: geo_def)
  have nx: "ih_next ih + int d < 2 ^ 31 - 2" using room i(1,3) by (auto simp: ix_takes_def)
  have dom: "?key \<in> dom M \<longleftrightarrow> has_key T ix ?key" using M by (auto simp: has_key_def)
  obtain p ih' d' where e: "insert_entry (Suc k) ?key r ih = Some (Inr (p, ?key \<notin> dom M), ih')" "ix_holds h ih' d' (if ?key \<in> dom M then M else M(?key \<mapsto> r))"
    "d' \<le> Suc d"
    using insert_entry_holds [OF i(2) l r(2) _ nx, of "Suc k"] i(3) by auto
  let ?T = "if has_key T ix ?key then T else T(r \<mapsto> b)" and ?M = "if ?key \<in> dom M then M else M(?key \<mapsto> r)"
  have m': "?M key = Some q \<longleftrightarrow> (\<exists>c. ?T q = Some c \<and> index_key ix c = key)" for key q
    using M [of key q] r(1) dom by (auto simp: has_key_def)
  have l': "length (index_key ix c) = klen h" if "?T q = Some c" for q c using i(4) l that by (auto split: if_splits)
  have "ix_agrees (Suc k) ((sys_ihs s)(ix_name n ix \<mapsto> ih')) n ?T ix"
    unfolding ix_agrees_def using e(2,3) i(3) l' m' by (intro exI [of _ ih'] exI [of _ h] exI [of _ d'] exI [of _ ?M]) simp
  moreover have "on_index (ix_name n ix) (insert_entry (Suc k) ?key r) s =
      Some (Inr (p, \<not> has_key T ix ?key), s\<lparr>sys_ihs := (sys_ihs s)(ix_name n ix \<mapsto> ih')\<rparr>)"
    by (simp add: on_index_def i(1) e(1) tm_lift_def dom)
  ultimately show ?thesis using that by blast
qed

lemma delete_locked_ok:
  assumes ok: "db_ok (sys_db s)" and fd: "tab_fd s n = Some fd" and lk: "lock_held (sys_locks s) t fd" and b: "db_tab (sys_db s) n r = Some b"
  obtains db where "\<forall>ihs. delete_locked t n r (s\<lparr>sys_ihs := ihs\<rparr>) = Some (Inr (), s\<lparr>sys_ihs := ihs, sys_db := db\<rparr>)" "db_ok db"
    "db_tab db = (db_tab (sys_db s))(n := (db_tab (sys_db s) n)(r := None))"
proof -
  have fit: "rdb.op_fits (sys_db s) (RowDelete n r b)" using db_tab_fits [OF ok b] by simp
  obtain db where u: "rdb.redo_op (RowDelete n r b) (sys_db s) = (Inr (), db)" "db_ok db" "db_tab db = redo_row (RowDelete n r b) (db_tab (sys_db s))"
    by (rule rdb.redo_op_row [OF ok fit])
  have "delete_locked t n r (s\<lparr>sys_ihs := ihs\<rparr>) = Some (Inr (), s\<lparr>sys_ihs := ihs, sys_db := db\<rparr>)" for ihs
    using u(1) fd lk by (auto simp: delete_locked_def with_lock_def on_db_def tm_lift_def tab_fd_def lock_held_def)
  moreover have "db_tab db = (db_tab (sys_db s))(n := (db_tab (sys_db s) n)(r := None))"
    using u(3) by (simp add: redo_row_def on_cell_apply fun_eq_iff)
  ultimately show ?thesis using that u(2) by blast
qed

abbreviation new_key :: "(rid \<rightharpoonup> bytes) \<Rightarrow> bytes \<Rightarrow> index_meta \<Rightarrow> bool" where
  "new_key T b ix \<equiv> \<not> has_key T ix (index_key ix b)"

lemma insert_keys_ok:
  assumes "\<forall>ix\<in>set old. ix_agrees (Suc k) (sys_ihs s) n (T(r \<mapsto> b)) ix" "\<forall>ix\<in>set ixs. ix_agrees k (sys_ihs s) n T ix \<and> ix_takes k (sys_ihs s) n b ix"
    "distinct (map (ix_name n) (old @ ixs))" "T r = None" "rid_ok r"
    and del: "\<And>ihs. delete_locked t n r (s\<lparr>sys_ihs := ihs\<rparr>) = Some (Inr (), s\<lparr>sys_ihs := ihs, sys_db := db\<rparr>)"
  shows "\<exists>ihs. insert_keys (Suc k) t n b r old ixs s =
      (if list_all (new_key T b) ixs then Some (Inr (), s\<lparr>sys_ihs := ihs\<rparr>)
       else Some (Inl (TmError IndexDuplicateKeyError), s\<lparr>sys_ihs := ihs, sys_db := db\<rparr>)) \<and>
    (\<forall>ix\<in>set (old @ ixs). ix_agrees (Suc k) ihs n (if list_all (new_key T b) ixs then T(r \<mapsto> b) else T) ix)"
  using assms
proof (induction ixs arbitrary: s old)
  case Nil
  have "s\<lparr>sys_ihs := sys_ihs s\<rparr> = s" by simp
  then show ?case using Nil.prems(1) by (intro exI [of _ "sys_ihs s"]) (simp add: tm_ret_def del: fun_upd_apply)
next
  case (Cons ix ixs)
  have ix: "ix_agrees k (sys_ihs s) n T ix" "ix_takes k (sys_ihs s) n b ix" using Cons.prems(2) by simp_all
  obtain ih p where i: "on_index (ix_name n ix) (insert_entry (Suc k) (index_key ix b) r) s =
       Some (Inr (p, new_key T b ix), s\<lparr>sys_ihs := (sys_ihs s)(ix_name n ix \<mapsto> ih)\<rparr>)" (is "_ = Some (_, ?s)")
    "ix_agrees (Suc k) ((sys_ihs s)(ix_name n ix \<mapsto> ih)) n (if has_key T ix (index_key ix b) then T else T(r \<mapsto> b)) ix"
    by (rule insert_key_agrees [OF ix disjI1 [OF Cons.prems(4)] Cons.prems(5)])
  have ne: "ix_name n ix \<noteq> ix_name n ix'" if "ix' \<in> set old \<union> set ixs" for ix'
    using Cons.prems(3) that image_eqI [OF refl, of ix' _ "ix_name n"] by auto
  have old: "\<forall>ix'\<in>set old. ix_agrees (Suc k) (sys_ihs ?s) n (T(r \<mapsto> b)) ix'"
    using Cons.prems(1) ne by (simp add: ix_agrees_other del: fun_upd_apply)
  have new: "\<forall>ix'\<in>set ixs. ix_agrees k (sys_ihs ?s) n T ix' \<and> ix_takes k (sys_ihs ?s) n b ix'"
    using Cons.prems(2) ne by (simp add: ix_agrees_other ix_takes_other)
  show ?case
  proof (cases "new_key T b ix")
    case True
    have d: "distinct (map (ix_name n) ((old @ [ix]) @ ixs))" using Cons.prems(3) by simp
    have a: "\<forall>ix'\<in>set (old @ [ix]). ix_agrees (Suc k) (sys_ihs ?s) n (T(r \<mapsto> b)) ix'" using old i(2) True by (simp del: fun_upd_apply)
    have dl: "\<And>ihs. delete_locked t n r (?s\<lparr>sys_ihs := ihs\<rparr>) = Some (Inr (), ?s\<lparr>sys_ihs := ihs, sys_db := db\<rparr>)" using Cons.prems(6) by simp
    have "insert_keys (Suc k) t n b r old (ix # ixs) s = insert_keys (Suc k) t n b r (old @ [ix]) ixs ?s" using i(1) True by simp
    moreover have "list_all (new_key T b) (ix # ixs) = list_all (new_key T b) ixs" "set (old @ ix # ixs) = set ((old @ [ix]) @ ixs)" using True by simp_all
    moreover have "?s\<lparr>sys_ihs := ihs\<rparr> = s\<lparr>sys_ihs := ihs\<rparr>" for ihs by simp
    ultimately show ?thesis using Cons.IH [OF a new d Cons.prems(4,5) dl] by (simp only:)
  next
    case False
    let ?s2 = "?s\<lparr>sys_db := db\<rparr>"
    have dl: "delete_locked t n r ?s = Some (Inr (), ?s2)" by (rule Cons.prems(6))
    obtain r' b' where "T r' = Some b'" using False by (auto simp: has_key_def)
    then have left: "\<exists>r'. r' \<noteq> r \<and> (T(r \<mapsto> b)) r' \<noteq> None" using Cons.prems(4) by (intro exI [of _ r']) auto
    have o2: "\<And>ix. ix \<in> set old \<Longrightarrow> ix_agrees (Suc k) (sys_ihs ?s2) n (T(r \<mapsto> b)) ix" using old by (simp del: fun_upd_apply)
    have dist: "distinct (map (ix_name n) old)" and rb: "(T(r \<mapsto> b)) r = Some b" using Cons.prems(3) by simp_all
    obtain ihs where e: "tm_each old (drop_key (Suc k) n b) ?s2 = Some (Inr (), ?s2\<lparr>sys_ihs := ihs\<rparr>)"
      "\<forall>ix\<in>set old. ix_agrees (Suc k) ihs n ((T(r \<mapsto> b))(r := None)) ix" "\<forall>m. m \<notin> ix_name n ` set old \<longrightarrow> ihs m = sys_ihs ?s2 m"
      using drop_keys_agree [OF o2 dist rb left] by blast
    have undone: "(T(r \<mapsto> b))(r := None) = T" using Cons.prems(4) by auto
    have "ix_agrees (Suc k) ihs n T ix'" if q: "ix' \<in> set (ix # ixs)" for ix'
    proof -
      have "ix_name n ix' \<notin> ix_name n ` set old" using Cons.prems(3) q by auto
      then have "ihs (ix_name n ix') = sys_ihs ?s (ix_name n ix')" using e(3) by simp
      moreover have "ix_agrees (Suc k) (sys_ihs ?s) n T ix'"
        using q new i(2) False ix_agrees_mono [of k "sys_ihs ?s" n T ix' "Suc k"] by (cases "ix' = ix") auto
      ultimately show ?thesis by (simp add: ix_agrees_def)
    qed
    then have "\<forall>ix'\<in>set (old @ ix # ixs). ix_agrees (Suc k) ihs n T ix'" using e(2) unfolding undone by auto
    moreover have "insert_keys (Suc k) t n b r old (ix # ixs) s = Some (Inl (TmError IndexDuplicateKeyError), s\<lparr>sys_ihs := ihs, sys_db := db\<rparr>)"
      using i(1) False dl e(1) by (simp add: tm_throw_def)
    ultimately show ?thesis using False by auto
  qed
qed

text \<open>
  C10. After INSERT has stored a row it adds the row's key to every index, all or nothing: when no row
  has a key of the new row, all indexes agree with the table with the new row; otherwise, whichever
  index finds the duplicate, the statement throws and leaves the table without the row and every
  index in agreement with it.
\<close>

theorem insert_keys_atomic:
  assumes "db_ok (sys_db s)" and "tab_fd s n = Some fd" and "lock_held (sys_locks s) t fd" and "db_tab (sys_db s) n = T(r \<mapsto> b)"
    and "T r = None" and "rid_ok r" and "distinct (map (ix_name n) ixs)" and "list_all (ix_agrees k (sys_ihs s) n T) ixs"
    and "list_all (ix_takes k (sys_ihs s) n b) ixs"
  shows "\<exists>s'. insert_keys (Suc k) t n b r [] ixs s =
      Some (if list_all (new_key T b) ixs then Inr () else Inl (TmError IndexDuplicateKeyError), s') \<and> db_ok (sys_db s') \<and>
    (let T' = if list_all (new_key T b) ixs then T(r \<mapsto> b) else T
     in db_tab (sys_db s') = (db_tab (sys_db s))(n := T') \<and> list_all (ix_agrees (Suc k) (sys_ihs s') n T') ixs)"
proof -
  have r: "db_tab (sys_db s) n r = Some b" using assms(4) by simp
  obtain db where d: "\<forall>ihs. delete_locked t n r (s\<lparr>sys_ihs := ihs\<rparr>) = Some (Inr (), s\<lparr>sys_ihs := ihs, sys_db := db\<rparr>)" "db_ok db"
    "db_tab db = (db_tab (sys_db s))(n := (db_tab (sys_db s) n)(r := None))"
    by (rule delete_locked_ok [OF assms(1-3) r])
  have t: "db_tab db = (db_tab (sys_db s))(n := T)" using d(3) assms(4,5) by (auto simp: fun_eq_iff)
  have ixs: "\<forall>ix\<in>set ixs. ix_agrees k (sys_ihs s) n T ix \<and> ix_takes k (sys_ihs s) n b ix" using assms(8,9) by (simp add: list_all_iff)
  obtain ihs where e: "insert_keys (Suc k) t n b r [] ixs s =
      (if list_all (new_key T b) ixs then Some (Inr (), s\<lparr>sys_ihs := ihs\<rparr>)
       else Some (Inl (TmError IndexDuplicateKeyError), s\<lparr>sys_ihs := ihs, sys_db := db\<rparr>))"
    "\<forall>ix\<in>set ixs. ix_agrees (Suc k) ihs n (if list_all (new_key T b) ixs then T(r \<mapsto> b) else T) ix"
    using insert_keys_ok [of "[]", OF _ ixs _ assms(5,6) d(1) [rule_format]] assms(7) by auto
  show ?thesis
  proof (cases "list_all (new_key T b) ixs")
    case True
    show ?thesis unfolding if_P [OF True] Let_def
      using e [unfolded if_P [OF True]] assms(1,4) by (intro exI [of _ "s\<lparr>sys_ihs := ihs\<rparr>"]) (simp add: list_all_iff fun_upd_idem)
  next
    case False
    show ?thesis unfolding if_not_P [OF False] Let_def
      using e [unfolded if_not_P [OF False]] d(2) t by (intro exI [of _ "s\<lparr>sys_ihs := ihs, sys_db := db\<rparr>"]) (simp add: list_all_iff)
  qed
qed

theorem insert_keys_atomic_witness:
  "\<exists>db lm s' ix. ix = \<lparr>im_tab_name = ''t'', im_col_tot_len = 4, im_col_num = 1, im_cols = [demo_col ''a'' 0]\<rparr> \<and>
     insert_keys 2 1 ''t'' (replicate 8 7) (mk_rid 1 0) [] [ix] ((txn_sys db [])\<lparr>sys_locks := lm, sys_ihs := [ix_name ''t'' ix \<mapsto> sample_index]\<rparr>) =
       Some (Inr (), s') \<and> ix_agrees 2 (sys_ihs s') ''t'' [mk_rid 1 0 \<mapsto> replicate 8 7] ix"
proof -
  obtain db where db: "db_ok db" "db_tab db = (\<lambda>_ _. None)(''t'' := [mk_rid 1 0 \<mapsto> replicate 8 7])" "tab_fd (txn_sys db []) ''t'' = Some 3"
    "dml_base 4 1000 1 (txn_sys db [])" by (rule txn_one_row)
  obtain lm where lm: "lock_held lm 1 3" using grants_init [of 1 3] by (auto simp: grants_def grants_x_def)
  let ?ix = "\<lparr>im_tab_name = ''t'', im_col_tot_len = 4, im_col_num = 1, im_cols = [demo_col ''a'' 0]\<rparr>" and ?b = "replicate 8 (7 :: 8 word)"
  let ?s = "(txn_sys db [])\<lparr>sys_locks := lm, sys_ihs := [ix_name ''t'' ?ix \<mapsto> sample_index]\<rparr>"
  have key: "length (index_key ?ix ?b) = 4" by (simp add: index_key_def demo_col_def mem_read_def)
  have hdr: "klen sample_nd_hdr = 4" using sample_keys(1) [of 0] by simp
  have s: "db_ok (sys_db ?s)" "tab_fd ?s ''t'' = Some 3" "lock_held (sys_locks ?s) 1 3" "db_tab (sys_db ?s) ''t'' = Map.empty(mk_rid 1 0 \<mapsto> ?b)"
    using db lm by (simp_all add: tab_fd_def txn_sys_def)
  have a: "list_all (ix_agrees 1 (sys_ihs ?s) ''t'' Map.empty) [?ix]"
    using sample_index_holds by (auto simp: ix_agrees_def)
  have tk: "list_all (ix_takes 1 (sys_ihs ?s) ''t'' ?b) [?ix]"
    using key hdr sample_keys(5) by (simp add: ix_takes_def) (simp add: sample_index_def)
  have new: "list_all (new_key Map.empty ?b) [?ix]" by (simp add: has_key_def)
  have pre: "Map.empty (mk_rid 1 0) = (None :: bytes option)" "rid_ok (mk_rid 1 0)" "distinct (map (ix_name ''t'') [?ix])"
    by (simp_all add: rid_ok_def int_range_def)
  obtain s' where "insert_keys (Suc 1) 1 ''t'' ?b (mk_rid 1 0) [] [?ix] ?s = Some (Inr (), s')"
    "ix_agrees (Suc 1) (sys_ihs s') ''t'' [mk_rid 1 0 \<mapsto> ?b] ?ix"
    using insert_keys_atomic [of ?s "''t''" 3 1 Map.empty "mk_rid 1 0" ?b "[?ix]" 1, OF s pre a tk]
    unfolding if_P [OF new] Let_def unfolding list.pred_inject by blast
  then show ?thesis by (auto simp: numeral_2_eq_2)
qed

section \<open>Setting columns of a record\<close>

text \<open>The columns of a table follow each other and have different names; its indexes are on its columns.\<close>

definition layout_ok :: "tab_meta \<Rightarrow> bool" where
  "layout_ok tab \<longleftrightarrow> place_cols 0 (tm_cols tab) = tm_cols tab \<and> list_all (\<lambda>c. 0 \<le> cm_len c) (tm_cols tab) \<and>
     distinct (map cm_name (tm_cols tab)) \<and> list_all (\<lambda>ix. set (im_cols ix) \<subseteq> set (tm_cols tab)) (tm_indexes tab)"

abbreviation row_len :: "col_meta list \<Rightarrow> nat" where
  "row_len cs \<equiv> nat (sum_list (map cm_len cs))"

lemma layout_offset:
  assumes "place_cols 0 cs = cs" "i < length cs"
  shows "cm_offset (cs ! i) = sum_list (map cm_len (take i cs))"
  using nth_place [OF assms(2), of 0] assms(1) by (metis add_0 col_meta.select_convs(6) col_meta.surjective col_meta.update_convs(6))

lemma sum_take_mono:
  assumes "list_all (\<lambda>c. 0 \<le> cm_len c) cs" "i \<le> j"
  shows "sum_list (map cm_len (take i cs)) \<le> sum_list (map cm_len (take j cs))" (is "?l \<le> _")
proof -
  have "take j cs = take i cs @ drop i (take j cs)" using assms(2) append_take_drop_id [of i "take j cs"] by (simp add: min_def)
  moreover have "0 \<le> sum_list (map cm_len (drop i (take j cs)))"
    by (rule sum_lens_nonneg) (use assms(1) in \<open>auto simp: list_all_iff dest!: in_set_dropD in_set_takeD\<close>)
  ultimately show ?thesis by (metis add_increasing2 map_append order_refl sum_list.append)
qed

lemma layout_next:
  assumes "place_cols 0 cs = cs" "list_all (\<lambda>c. 0 \<le> cm_len c) cs" "i < j" "j \<le> length cs"
  shows "cm_offset (cs ! i) + cm_len (cs ! i) \<le> sum_list (map cm_len (take j cs))" "0 \<le> cm_offset (cs ! i)"
proof -
  have "cm_offset (cs ! i) + cm_len (cs ! i) = sum_list (map cm_len (take (Suc i) cs))"
    using layout_offset [OF assms(1), of i] assms(3,4) by (simp add: take_Suc_conv_app_nth)
  then show "cm_offset (cs ! i) + cm_len (cs ! i) \<le> sum_list (map cm_len (take j cs))" using sum_take_mono [OF assms(2), of "Suc i" j] assms(3) by simp
  show "0 \<le> cm_offset (cs ! i)" using layout_offset [OF assms(1), of i] sum_take_mono [OF assms(2), of 0 i] assms(3,4) by simp
qed

lemma layout_cols:
  assumes "place_cols 0 cs = cs" "list_all (\<lambda>c. 0 \<le> cm_len c) cs" "c \<in> set cs"
  shows "nat (cm_offset c) + nat (cm_len c) \<le> row_len cs"
    and "d \<in> set cs \<Longrightarrow> c \<noteq> d \<Longrightarrow> nat (cm_offset c) + nat (cm_len c) \<le> nat (cm_offset d) \<or> nat (cm_offset d) + nat (cm_len d) \<le> nat (cm_offset c)"
proof -
  have len: "0 \<le> cm_len x" if "x \<in> set cs" for x using assms(2) that by (simp add: list_all_iff)
  obtain i where i: "i < length cs" "cs ! i = c" using assms(3) by (auto simp: in_set_conv_nth)
  show "nat (cm_offset c) + nat (cm_len c) \<le> row_len cs"
    using layout_next [OF assms(1,2), of i "length cs"] i len [OF assms(3)] by simp
  assume d: "d \<in> set cs" "c \<noteq> d"
  obtain j where j: "j < length cs" "cs ! j = d" using d(1) by (auto simp: in_set_conv_nth)
  have "i \<noteq> j" using i j d(2) by auto
  then show "nat (cm_offset c) + nat (cm_len c) \<le> nat (cm_offset d) \<or> nat (cm_offset d) + nat (cm_len d) \<le> nat (cm_offset c)"
    using layout_next [OF assms(1,2), of i j] layout_next [OF assms(1,2), of j i] layout_offset [OF assms(1)] i j len [OF assms(3)] len [OF d(1)]
    by (auto simp: nat_add_distrib [symmetric] nat_le_eq_zle neq_iff)
qed

lemma init_raw_length: "init_raw len v = Inr v' \<Longrightarrow> \<exists>b. v_raw v' = Some b \<and> length b = nat len"
  by (auto simp: init_raw_def split: if_splits col_type.splits)

text \<open>Every assignment is to a column the statement names, with as many bytes as the column has.\<close>

definition assigns :: "col_meta list \<Rightarrow> set_clause list \<Rightarrow> col_meta \<times> sql_value \<Rightarrow> bool" where
  "assigns cs cls cv \<longleftrightarrow> fst cv \<in> set cs \<and> list_ex (\<lambda>cl. tc_col_name (sc_lhs cl) = cm_name (fst cv)) cls \<and>
     (\<exists>b. v_raw (snd cv) = Some b \<and> length b = nat (cm_len (fst cv)))"

lemma set_values_assigns: "set_values cs cls = Inr cvs \<Longrightarrow> \<forall>cv\<in>set cvs. assigns cs cls cv"
proof (induction cls arbitrary: cvs)
  case (Cons cl cls)
  obtain i v v' cvs' where e: "ex_get_col cs (sc_lhs cl) False = Inr i" "init_raw (cm_len (cs ! i)) v = Inr v'" "set_values cs cls = Inr cvs'" "cvs = (cs ! i, v') # cvs'"
    using Cons.prems by (auto split: sum.splits simp: map_sum_def)
  have i: "i < length cs" "cm_name (cs ! i) = tc_col_name (sc_lhs cl)"
    using e(1) by (auto simp: ex_get_col_def split: option.splits dest!: find_pos_Some)
  have "assigns cs (cl # cls) (cs ! i, v')" using i init_raw_length [OF e(2)] by (simp add: assigns_def)
  moreover have "assigns cs (cl # cls) cv" if "cv \<in> set cvs'" for cv using Cons.IH [OF e(3)] that by (auto simp: assigns_def)
  ultimately show ?case using e(4) by auto
qed simp

lemma put_col_cells:
  assumes "place_cols 0 cs = cs" "list_all (\<lambda>c. 0 \<le> cm_len c) cs" "c \<in> set cs" "v_raw v = Some x" "length x = nat (cm_len c)" "length b = row_len cs"
  shows "length (put_col b c v) = row_len cs" "d \<in> set cs \<Longrightarrow> cell d (put_col b c v) = (if d = c then x else cell d b)"
proof -
  have l: "nat (cm_offset c) + nat (cm_len c) \<le> length b" using layout_cols(1) [OF assms(1-3)] assms(6) by simp
  have e: "put_col b c v = mem_write b (nat (cm_offset c)) x" using assms(4,5) by (simp add: put_col_def)
  show "length (put_col b c v) = row_len cs" using l assms(5,6) by (simp add: e length_mem_write)
  assume d: "d \<in> set cs"
  have k: "nat (cm_offset d) + nat (cm_len d) \<le> length b" using layout_cols(1) [OF assms(1,2) d] assms(6) by simp
  show "cell d (put_col b c v) = (if d = c then x else cell d b)"
  proof (cases "d = c")
    case True
    then show ?thesis using l assms(5) by (simp add: e cell_def mem_simps)
  next
    case False
    then show ?thesis using l k layout_cols(2) [OF assms(1-3) d] assms(5) by (simp add: e cell_def) (auto simp: mem_read_write_before mem_read_write_after)
  qed
qed

text \<open>The last assignment to a column counts; other columns keep their bytes.\<close>

lemma set_cols_cells:
  assumes "place_cols 0 cs = cs" "list_all (\<lambda>c. 0 \<le> cm_len c) cs" "\<forall>cv\<in>set cvs. assigns cs cls cv" "length b = row_len cs"
  shows "length (set_cols cvs b) = row_len cs \<and>
    (\<forall>d\<in>set cs. cell d (set_cols cvs b) = (case map_of (rev cvs) d of None \<Rightarrow> cell d b | Some v \<Rightarrow> the (v_raw v)))"
  using assms(3)
proof (induction cvs rule: rev_induct)
  case (snoc cv cvs)
  obtain c v where cv: "cv = (c, v)" by (cases cv)
  have a: "assigns cs cls (c, v)" using snoc.prems cv by simp
  obtain x where x: "v_raw v = Some x" "length x = nat (cm_len c)" "c \<in> set cs" using a by (auto simp: assigns_def)
  have ih: "length (set_cols cvs b) = row_len cs" "\<forall>d\<in>set cs. cell d (set_cols cvs b) = (case map_of (rev cvs) d of None \<Rightarrow> cell d b | Some v \<Rightarrow> the (v_raw v))"
    using snoc by simp_all
  have e: "set_cols (cvs @ [cv]) b = put_col (set_cols cvs b) c v" by (simp add: set_cols_def cv)
  show ?case using put_col_cells [OF assms(1,2) x(3,1,2) ih(1)] ih(2) x(1) by (simp only: e) (simp add: cv)
qed (simp add: set_cols_def assms(4))

lemma set_cols_key:
  assumes lay: "layout_ok tab" and sv: "set_values (tm_cols tab) cls = Inr cvs" and ui: "update_indexes (tm_indexes tab) cls = []"
    and ix: "ix \<in> set (tm_indexes tab)" and b: "length b = row_len (tm_cols tab)"
  shows "index_key ix (set_cols cvs b) = index_key ix b"
proof -
  let ?cs = "tm_cols tab"
  have l: "place_cols 0 ?cs = ?cs" "list_all (\<lambda>c. 0 \<le> cm_len c) ?cs" using lay by (simp_all add: layout_ok_def)
  have a: "\<forall>cv\<in>set cvs. assigns ?cs cls cv" by (rule set_values_assigns [OF sv])
  have "cell d (set_cols cvs b) = cell d b" if d: "d \<in> set (im_cols ix)" for d
  proof -
    have "\<not> list_ex (\<lambda>cl. tc_col_name (sc_lhs cl) = cm_name d) cls" using ui ix d by (auto simp: update_indexes_def filter_empty_conv)
    then have "map_of (rev cvs) d = None" using a by (auto simp: map_of_eq_None_iff assigns_def)
    moreover have "d \<in> set ?cs" using lay ix d by (auto simp: layout_ok_def list_all_iff)
    ultimately show ?thesis using set_cols_cells [OF l a b] by simp
  qed
  then have "map (\<lambda>d. mem_read (set_cols cvs b) (nat (cm_offset d)) (nat (cm_len d))) (take (nat (im_col_num ix)) (im_cols ix)) =
      map (\<lambda>d. mem_read b (nat (cm_offset d)) (nat (cm_len d))) (take (nat (im_col_num ix)) (im_cols ix))"
    by (intro map_cong refl) (auto simp: cell_def dest: in_set_takeD)
  then show ?thesis unfolding index_key_def by (rule arg_cong)
qed

section \<open>UPDATE\<close>

lemma update_row_ok:
  assumes base: "dml_base ino m t s" and fd: "tab_fd s n = Some fd" and gr: "grants (sys_locks s) t fd" and b: "db_tab (sys_db s) n r = Some b"
    and len: "length (set_cols cvs b) = length b"
    and lr: "log_fits (new_update_log t b (set_cols cvs b) r n)" "log_size (new_update_log t b (set_cols cvs b) r n) \<le> m"
  obtains s' lr where "\<forall>ixs. update_row k t n cvs ixs r s = tm_each ixs (move_key k t n r b (set_cols cvs b)) s'" "dml_base ino (m - log_size (new_update_log t b (set_cols cvs b) r n)) t s'"
    "tab_fd s' = tab_fd s" "lock_held (sys_locks s') t fd"
    "db_tab (sys_db s') = (db_tab (sys_db s))(n := (db_tab (sys_db s) n)(r \<mapsto> set_cols cvs b))" "sys_meta s' = sys_meta s" "sys_ihs s' = sys_ihs s"
    "write_set s' t = write_set s t @ [value_write_record UPDATE_TUPLE n r b]" "sys_log_contents s' = sys_log_contents s @ log_bytes lr"
    "log_row lr = [RowUpdate n r b (set_cols cvs b)]"
proof -
  obtain s1 where s1: "get_record_locked t n r s = Some (Inr b, s1)" "dml_base ino m t s1" "tab_fd s1 = tab_fd s" "grants_x (sys_locks s1) t fd"
    "db_tab (sys_db s1) = db_tab (sys_db s)" "db_fits (sys_db s1) = db_fits (sys_db s)" "sys_ihs s1 = sys_ihs s" "sys_meta s1 = sys_meta s"
    "txn_map s1 = txn_map s" "sys_log s1 = sys_log s" "sys_log_contents s1 = sys_log_contents s"
    by (rule get_record_row [OF base fd gr b])
  let ?c = "set_cols cvs b"
  let ?p = "RowUpdate n r b ?c" and ?lr = "new_update_log t b ?c r n"
  have fit: "rdb.op_fits (sys_db s1) ?p" using db_tab_fits [OF _ b] base s1(6) len by (simp add: dml_base_def)
  obtain s2 lr where s2: "\<And>rest :: unit tmm. tm_bind (log_txn t ?lr) (\<lambda>_. tm_bind (with_lock lock_exclusive_on_table t n (on_db (rdb.redo_op ?p))) (\<lambda>_.
       tm_bind (add_write t (write_of ?p)) (\<lambda>_. rest))) s1 = rest s2"
    "dml_base ino (m - log_size ?lr) t s2" "tab_fd s2 = tab_fd s1" "lock_held (sys_locks s2) t fd"
    "db_tab (sys_db s2) = redo_row ?p (db_tab (sys_db s1))" "db_fits (sys_db s2) = db_fits (sys_db s1)" "sys_ihs s2 = sys_ihs s1" "sys_meta s2 = sys_meta s1"
    "write_set s2 t = write_set s1 t @ [write_of ?p]" "sys_log_contents s2 = sys_log_contents s1 @ log_bytes lr" "log_row lr = log_row ?lr"
    by (rule change_row [OF s1(2) _ s1(4) fit, where lr = ?lr]) (use lr fd s1(3) in \<open>auto simp: log_fits_def\<close>)
  have op: "rdb.redo_op ?p = (\<lambda>db. db_update db n r ?c)" by (simp add: fun_eq_iff)
  show ?thesis
  proof (rule that [of s2 lr])
    show "\<forall>ixs. update_row k t n cvs ixs r s = tm_each ixs (move_key k t n r b ?c) s2"
      using s1(1) s2(1) by (simp add: op) (simp add: update_row_def update_locked_def Let_def)
    show "db_tab (sys_db s2) = (db_tab (sys_db s))(n := (db_tab (sys_db s) n)(r \<mapsto> ?c))"
      using s2(5) s1(5) b by (simp add: redo_row_def on_cell_apply fun_eq_iff)
    show "log_row lr = [?p]" using s2(11) by (simp add: new_update_log_def)
  qed (use s1 s2 in simp_all)
qed

abbreviation change :: "string \<Rightarrow> (rid \<rightharpoonup> bytes) \<Rightarrow> (bytes \<Rightarrow> bytes) \<Rightarrow> rid \<Rightarrow> row_op" where
  "change n T f r \<equiv> RowUpdate n r (the (T r)) (f (the (T r)))"

abbreviation change_log :: "txn_id \<Rightarrow> string \<Rightarrow> (rid \<rightharpoonup> bytes) \<Rightarrow> (bytes \<Rightarrow> bytes) \<Rightarrow> rid \<Rightarrow> log_record" where
  "change_log t n T f r \<equiv> new_update_log t (the (T r)) (f (the (T r))) r n"

definition change_rows :: "(bytes \<Rightarrow> bytes) \<Rightarrow> rid set \<Rightarrow> (rid \<rightharpoonup> bytes) \<Rightarrow> rid \<rightharpoonup> bytes" where
  "change_rows f R T r = (if r \<in> R then map_option f (T r) else T r)"

lemma update_rows_ok:
  assumes "dml_base ino m t s" "tab_fd s n = Some fd" "grants (sys_locks s) t fd" "db_tab (sys_db s) n = T" "distinct rs"
    "\<forall>r\<in>set rs. T r \<noteq> None \<and> length (set_cols cvs (the (T r))) = length (the (T r)) \<and> log_fits (change_log t n T (set_cols cvs) r)"
    "sum_list (map (\<lambda>r. log_size (change_log t n T (set_cols cvs) r)) rs) \<le> m"
  shows "\<exists>s' lrs. tm_each rs (update_row k t n cvs []) s = Some (Inr (), s') \<and> db_ok (sys_db s') \<and>
    db_tab (sys_db s') = (db_tab (sys_db s))(n := change_rows (set_cols cvs) (set rs) T) \<and> sys_ihs s' = sys_ihs s \<and>
    write_set s' t = write_set s t @ map (write_of \<circ> change n T (set_cols cvs)) rs \<and>
    sys_log_contents s' = sys_log_contents s @ concat (map log_bytes lrs) \<and> log_rows lrs = map (change n T (set_cols cvs)) rs"
  using assms
proof (induction rs arbitrary: s m T)
  case Nil
  have "change_rows (set_cols cvs) {} T = db_tab (sys_db s) n" using Nil.prems(4) by (simp add: change_rows_def fun_eq_iff)
  then show ?case using Nil.prems(1) by (intro exI [of _ s] exI [of _ "[]"]) (simp add: tm_ret_def dml_base_def fun_upd_idem)
next
  case (Cons r rs)
  let ?f = "set_cols cvs"
  obtain b where b: "T r = Some b" and lf: "log_fits (change_log t n T ?f r)" and len: "length (?f b) = length b" using Cons.prems(6) by auto
  let ?lr = "change_log t n T ?f r" and ?T = "T(r \<mapsto> ?f b)"
  obtain s1 lr where s1: "\<forall>ixs. update_row k t n cvs ixs r s = tm_each ixs (move_key k t n r b (?f b)) s1" "dml_base ino (m - log_size ?lr) t s1"
    "tab_fd s1 = tab_fd s" "lock_held (sys_locks s1) t fd" "db_tab (sys_db s1) = (db_tab (sys_db s))(n := ?T)" "sys_meta s1 = sys_meta s" "sys_ihs s1 = sys_ihs s"
    "write_set s1 t = write_set s t @ [value_write_record UPDATE_TUPLE n r b]" "sys_log_contents s1 = sys_log_contents s @ log_bytes lr"
    "log_row lr = [RowUpdate n r b (?f b)]"
    by (rule update_row_ok [OF Cons.prems(1-3) _ len, of r]) (use b lf Cons.prems(4,7) in auto)
  have r: "r \<notin> set rs" "distinct rs" using Cons.prems(5) by simp_all
  have keep: "?T q = T q" if "q \<in> set rs" for q using r(1) that by auto
  have len: "sum_list (map (\<lambda>r. log_size (change_log t n ?T ?f r)) rs) = sum_list (map (\<lambda>r. log_size (change_log t n T ?f r)) rs)"
    by (rule arg_cong [of _ _ sum_list], rule map_cong [OF refl]) (simp only: keep)
  have "\<exists>s' lrs. tm_each rs (update_row k t n cvs []) s1 = Some (Inr (), s') \<and> db_ok (sys_db s') \<and>
    db_tab (sys_db s') = (db_tab (sys_db s1))(n := change_rows ?f (set rs) ?T) \<and> sys_ihs s' = sys_ihs s1 \<and>
    write_set s' t = write_set s1 t @ map (write_of \<circ> change n ?T ?f) rs \<and>
    sys_log_contents s' = sys_log_contents s1 @ concat (map log_bytes lrs) \<and> log_rows lrs = map (change n ?T ?f) rs"
  proof (rule Cons.IH [OF s1(2) _ lock_held_grants(1) [OF s1(4)] _ r(2)])
    show "tab_fd s1 n = Some fd" using s1(3) Cons.prems(2) by simp
    show "\<forall>q\<in>set rs. ?T q \<noteq> None \<and> length (?f (the (?T q))) = length (the (?T q)) \<and> log_fits (change_log t n ?T ?f q)"
      using Cons.prems(6) keep by simp
    show "sum_list (map (\<lambda>r. log_size (change_log t n ?T ?f r)) rs) \<le> m - log_size ?lr" using Cons.prems(7) len by simp
  qed (use s1(5) in simp)
  then obtain s' lrs where e: "tm_each rs (update_row k t n cvs []) s1 = Some (Inr (), s')" "db_ok (sys_db s')"
    "db_tab (sys_db s') = (db_tab (sys_db s1))(n := change_rows ?f (set rs) ?T)" "sys_ihs s' = sys_ihs s1"
    "write_set s' t = write_set s1 t @ map (write_of \<circ> change n ?T ?f) rs"
    "sys_log_contents s' = sys_log_contents s1 @ concat (map log_bytes lrs)" "log_rows lrs = map (change n ?T ?f) rs" by blast
  have m: "map (write_of \<circ> change n ?T ?f) rs = map (write_of \<circ> change n T ?f) rs" "map (change n ?T ?f) rs = map (change n T ?f) rs"
    by (rule map_cong [OF refl], simp only: o_apply keep)+
  have res: "change_rows ?f (set rs) ?T = change_rows ?f (set (r # rs)) T" using b r(1) by (auto simp: change_rows_def fun_eq_iff)
  show ?case
  proof (intro exI conjI)
    show "tm_each (r # rs) (update_row k t n cvs []) s = Some (Inr (), s')" using s1(1) e(1) by (simp add: tm_bind_def tm_ret_def)
    show "db_tab (sys_db s') = (db_tab (sys_db s))(n := change_rows ?f (set (r # rs)) T)" unfolding res [symmetric] e(3) s1(5) by simp
    show "sys_ihs s' = sys_ihs s" using e(4) s1(7) by simp
    show "write_set s' t = write_set s t @ map (write_of \<circ> change n T ?f) (r # rs)" using e(5) s1(8) b unfolding m by simp
    show "sys_log_contents s' = sys_log_contents s @ concat (map log_bytes (lr # lrs))" using e(6) s1(9) by simp
    show "log_rows (lr # lrs) = map (change n T ?f) (r # rs)" using e(7) s1(10) b unfolding m by simp
  qed (use e in blast)+
qed

lemma change_rows_agree:
  assumes a: "ix_agrees k ihs n T ix" and key: "\<And>r b. T r = Some b \<Longrightarrow> index_key ix (f b) = index_key ix b"
  shows "ix_agrees k ihs n (change_rows f R T) ix"
proof -
  have eq: "(\<exists>b. change_rows f R T r = Some b \<and> index_key ix b = key) \<longleftrightarrow> (\<exists>b. T r = Some b \<and> index_key ix b = key)" for r key
    using key [of r] by (cases "T r") (auto simp: change_rows_def)
  have len: "(\<forall>r b. change_rows f R T r = Some b \<longrightarrow> length (index_key ix b) = l) \<longleftrightarrow> (\<forall>r b. T r = Some b \<longrightarrow> length (index_key ix b) = l)" for l
    using eq by metis
  show ?thesis using a unfolding ix_agrees_def eq len .
qed

text \<open>
  C9. UPDATE of columns that no index has executes completely when the transaction gets the locks and
  the log has room: in exactly the given rows every column named by the statement holds the value
  assigned to it last, converted to the column's type, and every other column its old bytes; other rows
  and tables stay as they are, every index still agrees with the table, and the write set and the
  log get one record for each row in order, with the old and the new bytes.
\<close>

theorem update_correct:
  assumes "dml_base ino m t s" and "tab_fd s n = Some fd" and "grants (sys_locks s) t fd" and "db_tab (sys_db s) n = T"
    and "get_table (sys_meta s) n = Inr tab" and "tm_cols tab \<noteq> []" and "layout_ok tab" and "ixs_agree k s n tab"
    and "set_values (tm_cols tab) cls = Inr cvs" and "update_indexes (tm_indexes tab) cls = []" and "\<forall>b\<in>ran T. length b = row_len (tm_cols tab)"
    and "distinct rs" and "\<forall>r\<in>set rs. T r \<noteq> None \<and> log_fits (change_log t n T (set_cols cvs) r)"
    and "sum_list (map (\<lambda>r. log_size (change_log t n T (set_cols cvs) r)) rs) \<le> m"
  shows "\<exists>s' lrs. run_update k t n cls rs s = Some (Inr (), s') \<and> db_ok (sys_db s') \<and>
    db_tab (sys_db s') = (db_tab (sys_db s))(n := change_rows (set_cols cvs) (set rs) T) \<and>
    (\<forall>b\<in>ran T. \<forall>d\<in>set (tm_cols tab). cell d (set_cols cvs b) = (case map_of (rev cvs) d of None \<Rightarrow> cell d b | Some v \<Rightarrow> the (v_raw v))) \<and>
    ixs_agree k s' n tab \<and> sys_ihs s' = sys_ihs s \<and> write_set s' t = write_set s t @ map (write_of \<circ> change n T (set_cols cvs)) rs \<and>
    sys_log_contents s' = sys_log_contents s @ concat (map log_bytes lrs) \<and> log_rows lrs = map (change n T (set_cols cvs)) rs"
proof -
  let ?cs = "tm_cols tab"
  have l: "place_cols 0 ?cs = ?cs" "list_all (\<lambda>c. 0 \<le> cm_len c) ?cs" using assms(7) by (simp_all add: layout_ok_def)
  have len: "length b = row_len ?cs" if "T r = Some b" for r b using assms(11) that by (auto simp: ran_def)
  note cells = set_cols_cells [OF l set_values_assigns [OF assms(9)]]
  have fit: "\<forall>r\<in>set rs. T r \<noteq> None \<and> length (set_cols cvs (the (T r))) = length (the (T r)) \<and> log_fits (change_log t n T (set_cols cvs) r)"
    using assms(13) cells len by auto
  obtain h where h: "fhs (sys_db s) n = Some h" using assms(2) by (auto simp: tab_fd_def)
  have run: "run_update k t n cls rs s = tm_each rs (update_row k t n cvs []) s"
    using assms(5,6,9,10) h by (simp add: run_update_def open_tab_def tm_bind_def tm_lift_def get_col_total_len_def)
  obtain s' lrs where u: "tm_each rs (update_row k t n cvs []) s = Some (Inr (), s')" "db_ok (sys_db s')"
    "db_tab (sys_db s') = (db_tab (sys_db s))(n := change_rows (set_cols cvs) (set rs) T)" "sys_ihs s' = sys_ihs s"
    "write_set s' t = write_set s t @ map (write_of \<circ> change n T (set_cols cvs)) rs"
    "sys_log_contents s' = sys_log_contents s @ concat (map log_bytes lrs)" "log_rows lrs = map (change n T (set_cols cvs)) rs"
    using update_rows_ok [OF assms(1-4,12) fit assms(14), of k] by blast
  have "ix_agrees k (sys_ihs s) n (change_rows (set_cols cvs) (set rs) T) ix" if ix: "ix \<in> set (tm_indexes tab)" for ix
    by (rule change_rows_agree) (use assms(4,8) ix len set_cols_key [OF assms(7,9,10) ix] in \<open>auto simp: ixs_agree_def list_all_iff\<close>)
  then have "ixs_agree k s' n tab" using u(3,4) by (simp add: ixs_agree_def list_all_iff)
  then show ?thesis unfolding run using u cells assms(11) by blast
qed

theorem update_correct_witness:
  "\<exists>db s'. db_tab db ''t'' = [mk_rid 1 0 \<mapsto> replicate 8 7] \<and>
     run_update 0 1 ''t'' [\<lparr>sc_lhs = \<lparr>tc_tab_name = ''t'', tc_col_name = ''b'', tc_alias = [], tc_aggr = NO_AGGR\<rparr>, sc_rhs = set_int 5 fresh_value\<rparr>] [mk_rid 1 0] (txn_sys db []) = Some (Inr (), s') \<and>
     db_tab (sys_db s') ''t'' = [mk_rid 1 0 \<mapsto> [7, 7, 7, 7, 5, 0, 0, 0]]"
proof -
  obtain db where db: "db_ok db" "db_tab db = (\<lambda>_ _. None)(''t'' := [mk_rid 1 0 \<mapsto> replicate 8 7])" "tab_fd (txn_sys db []) ''t'' = Some 3"
    "dml_base 4 1000 1 (txn_sys db [])" by (rule txn_one_row)
  let ?s = "txn_sys db []" and ?T = "[mk_rid 1 0 \<mapsto> replicate 8 7]" and ?b = "[7, 7, 7, 7, 5, 0, 0, 0] :: bytes"
    and ?cls = "[\<lparr>sc_lhs = \<lparr>tc_tab_name = ''t'', tc_col_name = ''b'', tc_alias = [], tc_aggr = NO_AGGR\<rparr>, sc_rhs = set_int 5 fresh_value\<rparr>]"
    and ?cvs = "[(demo_col ''b'' 4, (set_int 5 fresh_value)\<lparr>v_raw := Some (enc_int 5)\<rparr>)]"
  have e5: "enc_int 5 = [5, 0, 0, 0]" by code_simp
  have f: "set_cols ?cvs (replicate 8 7) = ?b" by (simp add: set_cols_def put_col_def demo_col_def e5 mem_write_def eval_nat_numeral)
  have sv: "set_values (tm_cols txn_tab) ?cls = Inr ?cvs"
    by (simp add: txn_tab_def ex_get_col_def demo_col_def set_int_def fresh_value_def init_raw_def int_val_def)
  have lr: "log_fits (new_update_log 1 (replicate 8 7) ?b (mk_rid 1 0) ''t'')" "log_size (new_update_log 1 (replicate 8 7) ?b (mk_rid 1 0) ''t'') \<le> 100"
    by (simp_all add: log_fits_def log_ok_def new_update_log_def new_base_def base_ok_def log_offsets INVALID_LSN_def int_range_def LOG_BUFFER_SIZE_def PAGE_SIZE_def)
  have s: "get_table (sys_meta ?s) ''t'' = Inr txn_tab" "sys_locks ?s = lm_init" "db_tab (sys_db ?s) ''t'' = ?T" "grants (sys_locks ?s) 1 3"
    using db(2) grants_init by (simp_all add: txn_sys_def get_table_def txn_tab_def)
  have tab: "tm_cols txn_tab \<noteq> []" "layout_ok txn_tab" "ixs_agree 0 ?s ''t'' txn_tab" "update_indexes (tm_indexes txn_tab) ?cls = []"
    "\<forall>b\<in>ran ?T. length b = row_len (tm_cols txn_tab)"
    by (simp_all add: layout_ok_def ixs_agree_def update_indexes_def) (simp_all add: txn_tab_def demo_col_def)
  obtain s' where "run_update 0 1 ''t'' ?cls [mk_rid 1 0] ?s = Some (Inr (), s')"
    "db_tab (sys_db s') = (db_tab (sys_db ?s))(''t'' := change_rows (set_cols ?cvs) (set [mk_rid 1 0]) ?T)"
    using update_correct [OF db(4,3) s(4,3,1) tab(1,2,3) sv tab(4,5), of "[mk_rid 1 0]"] lr f by auto
  then show ?thesis using db(2) f by (intro exI [of _ db] exI [of _ s']) (simp add: change_rows_def fun_eq_iff)
qed

lemma update_row_same_key:
  assumes "dml_base ino m t s" and "tab_fd s n = Some fd" and "grants (sys_locks s) t fd" and "db_tab (sys_db s) n = T" and "T r = Some b"
    and "length (set_cols cvs b) = length b" and "log_fits (change_log t n T (set_cols cvs) r)" and "log_size (change_log t n T (set_cols cvs) r) \<le> m"
    and "ix_agrees k (sys_ihs s) n T ix" and "ix_takes k (sys_ihs s) n (set_cols cvs b) ix" and "rid_ok r" and "index_key ix (set_cols cvs b) = index_key ix b"
  shows "\<exists>s' lr. update_row (Suc k) t n cvs (ix # ixs) r s = Some (Inl (TmAbort t UPGRADE_CONFLICT), s') \<and>
    db_tab (sys_db s') = (db_tab (sys_db s))(n := T(r \<mapsto> set_cols cvs b)) \<and> write_set s' t = write_set s t @ [write_of (change n T (set_cols cvs) r)] \<and>
    sys_log_contents s' = sys_log_contents s @ log_bytes lr \<and> log_row lr = [change n T (set_cols cvs) r]"
proof -
  let ?c = "set_cols cvs b"
  have b: "db_tab (sys_db s) n r = Some b" using assms(4,5) by simp
  obtain s1 lr where s1: "\<forall>ixs. update_row (Suc k) t n cvs ixs r s = tm_each ixs (move_key (Suc k) t n r b ?c) s1" "dml_base ino (m - log_size (new_update_log t b ?c r n)) t s1"
    "tab_fd s1 = tab_fd s" "lock_held (sys_locks s1) t fd" "db_tab (sys_db s1) = (db_tab (sys_db s))(n := (db_tab (sys_db s) n)(r \<mapsto> ?c))"
    "sys_meta s1 = sys_meta s" "sys_ihs s1 = sys_ihs s"
    "write_set s1 t = write_set s t @ [value_write_record UPDATE_TUPLE n r b]" "sys_log_contents s1 = sys_log_contents s @ log_bytes lr"
    "log_row lr = [RowUpdate n r b ?c]"
    by (rule update_row_ok [OF assms(1-3) b assms(6)]) (use assms(5,7,8) in auto)
  have has: "has_key T ix (index_key ix ?c)" using assms(5,12) by (auto simp: has_key_def)
  obtain ih p where i: "on_index (ix_name n ix) (insert_entry (Suc k) (index_key ix ?c) r) s1 =
       Some (Inr (p, \<not> has_key T ix (index_key ix ?c)), s1\<lparr>sys_ihs := (sys_ihs s1)(ix_name n ix \<mapsto> ih)\<rparr>)"
    by (rule insert_key_agrees [OF _ _ disjI2 [OF has] assms(11), of k s1 n]) (use assms(9,10) s1(7) in simp_all)
  let ?s = "s1\<lparr>sys_ihs := (sys_ihs s1)(ix_name n ix \<mapsto> ih)\<rparr>"
  have "tm_each (ix # ixs) (move_key (Suc k) t n r b ?c) s1 = Some (Inl (TmAbort t UPGRADE_CONFLICT), ?s)"
    using i has by (simp add: move_key_def tm_bind_def tm_throw_def)
  moreover have "sys_log_contents ?s = sys_log_contents s1" by simp
  ultimately show ?thesis using s1(1,5,8,9,10) assms(4,5) by (intro exI [of _ ?s] exI [of _ lr]) auto
qed

text \<open>
  C39. UPDATE that sets a column of an index without changing the key aborts: when the first index with
  a column of the SET list (\<open>update_indexes\<close>) agrees with the table and the first row to change has the same
  key afterwards, the index reports the row's own key as a duplicate, and the statement throws
  \<^verbatim>\<open>TransactionAbortException\<close>, after the row has been changed and the change has been added to the write
  set and to the log; the other rows are not reached.
\<close>

theorem update_same_key_aborts:
  assumes "dml_base ino m t s" and "tab_fd s n = Some fd" and "grants (sys_locks s) t fd" and "db_tab (sys_db s) n = T" and "T r = Some b"
    and "get_table (sys_meta s) n = Inr tab" and "tm_cols tab \<noteq> []" and "set_values (tm_cols tab) cls = Inr cvs" and "update_indexes (tm_indexes tab) cls = ix # ixs"
    and "length (set_cols cvs b) = length b" and "log_fits (change_log t n T (set_cols cvs) r)" and "log_size (change_log t n T (set_cols cvs) r) \<le> m"
    and "ix_agrees k (sys_ihs s) n T ix" and "ix_takes k (sys_ihs s) n (set_cols cvs b) ix" and "rid_ok r" and "index_key ix (set_cols cvs b) = index_key ix b"
  shows "\<exists>s' lr. run_update (Suc k) t n cls (r # rs) s = Some (Inl (TmAbort t UPGRADE_CONFLICT), s') \<and>
    db_tab (sys_db s') = (db_tab (sys_db s))(n := T(r \<mapsto> set_cols cvs b)) \<and> write_set s' t = write_set s t @ [write_of (change n T (set_cols cvs) r)] \<and>
    sys_log_contents s' = sys_log_contents s @ log_bytes lr \<and> log_row lr = [change n T (set_cols cvs) r]"
proof -
  obtain h where h: "fhs (sys_db s) n = Some h" using assms(2) by (auto simp: tab_fd_def)
  have "run_update (Suc k) t n cls (r # rs) s = tm_each (r # rs) (update_row (Suc k) t n cvs (ix # ixs)) s"
    using assms(6-9) h by (simp add: run_update_def open_tab_def tm_bind_def tm_lift_def get_col_total_len_def)
  then show ?thesis using update_row_same_key [OF assms(1-5,10-16), of ixs] by (auto simp: tm_bind_def)
qed

text \<open>An index on the first column, with the key of one row.\<close>

definition index_on_a :: index_meta where
  "index_on_a = \<lparr>im_tab_name = ''t'', im_col_tot_len = 4, im_col_num = 1, im_cols = [demo_col ''a'' 0]\<rparr>"

lemma one_key_index:
  obtains ih where "ix_agrees 2 [ix_name ''t'' index_on_a \<mapsto> ih] ''t'' [mk_rid 1 0 \<mapsto> replicate 8 7] index_on_a"
    "ix_takes 2 [ix_name ''t'' index_on_a \<mapsto> ih] ''t'' (replicate 8 7) index_on_a"
proof -
  let ?b = "replicate 8 (7 :: 8 word)"
  let ?key = "index_key index_on_a ?b"
  have key: "length ?key = 4" by (simp add: index_key_def index_on_a_def demo_col_def mem_read_def)
  have hdr: "klen sample_nd_hdr = 4" using sample_keys(1) [of 0] by simp
  have r: "rid_ok (mk_rid 1 0)" by (simp add: rid_ok_def int_range_def)
  obtain ih d where e: "ix_holds sample_nd_hdr ih d [?key \<mapsto> mk_rid 1 0]" "d \<le> 1" "ih_next ih \<le> 5"
    using insert_entry_holds [OF sample_index_holds _ r, of ?key 1] key hdr sample_keys(5) by auto
  have "klen (ih_hdr ih) = 4" using e(1) hdr by (auto simp: ix_holds_def geo_def dest!: ix_invD(2))
  then have "ix_takes 2 [ix_name ''t'' index_on_a \<mapsto> ih] ''t'' ?b index_on_a" using key e(3) by (simp add: ix_takes_def)
  moreover have "ix_agrees 2 [ix_name ''t'' index_on_a \<mapsto> ih] ''t'' [mk_rid 1 0 \<mapsto> ?b] index_on_a"
    unfolding ix_agrees_def using e(1,2) key hdr by (intro exI [of _ ih] exI [of _ sample_nd_hdr] exI [of _ d] exI [of _ "[?key \<mapsto> mk_rid 1 0]"]) auto
  ultimately show ?thesis using that by blast
qed

definition indexed_tab :: tab_meta where
  "indexed_tab = txn_tab\<lparr>tm_indexes := [index_on_a]\<rparr>"

definition indexed_sys :: "rm_db \<Rightarrow> ix_handle \<Rightarrow> tm_sys" where
  "indexed_sys db ih = (txn_sys db [])\<lparr>sys_meta := \<lparr>db_name = ''d'', db_tabs = [(''t'', indexed_tab)]\<rparr>, sys_ihs := [ix_name ''t'' index_on_a \<mapsto> ih]\<rparr>"

lemma indexed_sys_facts:
  assumes "txn_like db"
  shows "dml_base 4 1000 1 (indexed_sys db ih)" "tab_fd (indexed_sys db ih) ''t'' = Some 3" "grants (sys_locks (indexed_sys db ih)) 1 3"
    "get_table (sys_meta (indexed_sys db ih)) ''t'' = Inr indexed_tab" "sys_db (indexed_sys db ih) = db" "write_set (indexed_sys db ih) 1 = []"
    "sys_ihs (indexed_sys db ih) = [ix_name ''t'' index_on_a \<mapsto> ih]"
  using txn_like_base [OF assms] grants_init
  by (simp_all add: indexed_sys_def indexed_tab_def dml_base_def sys_log_ok_def tab_fd_def) (simp_all add: txn_sys_def txn_tab_def get_table_def)

lemma indexed_tab_facts: "tm_cols indexed_tab \<noteq> []" "tm_indexes indexed_tab = [index_on_a]"
  by (simp_all add: indexed_tab_def txn_tab_def)

lemma two_key_index:
  obtains ih where "ix_agrees 3 [ix_name ''t'' index_on_a \<mapsto> ih] ''t'' [mk_rid 1 0 \<mapsto> replicate 8 7, mk_rid 1 1 \<mapsto> replicate 8 9] index_on_a"
proof -
  let ?T = "[mk_rid 1 0 \<mapsto> replicate 8 (7 :: 8 word)]" and ?b = "replicate 8 (9 :: 8 word)"
  obtain ih where ih: "ix_agrees 2 [ix_name ''t'' index_on_a \<mapsto> ih] ''t'' ?T index_on_a"
    "ix_takes 2 [ix_name ''t'' index_on_a \<mapsto> ih] ''t'' (replicate 8 7) index_on_a" by (rule one_key_index)
  let ?s = "(txn_sys txn_db [])\<lparr>sys_ihs := [ix_name ''t'' index_on_a \<mapsto> ih]\<rparr>"
  have key: "index_key index_on_a (replicate 8 x) = replicate 4 x" for x :: "8 word"
    by (simp add: index_key_def index_on_a_def demo_col_def mem_read_def)
  have has: "\<not> has_key ?T index_on_a (index_key index_on_a ?b)" by (auto simp: has_key_def key)
  have ne: "?T (mk_rid 1 1) = None" by simp
  have r: "rid_ok (mk_rid 1 1)" by (simp add: rid_ok_def int_range_def)
  have tk: "ix_takes 2 (sys_ihs ?s) ''t'' ?b index_on_a" using ih(2) by (auto simp: ix_takes_def key)
  have ag: "ix_agrees 2 (sys_ihs ?s) ''t'' ?T index_on_a" using ih(1) by (simp del: fun_upd_apply)
  obtain ih' where "ix_agrees (Suc 2) ((sys_ihs ?s)(ix_name ''t'' index_on_a \<mapsto> ih')) ''t'' (if has_key ?T index_on_a (index_key index_on_a ?b) then ?T else ?T(mk_rid 1 1 \<mapsto> ?b)) index_on_a"
    by (rule insert_key_agrees [OF ag tk disjI1 [OF ne] r])
  then show ?thesis using that has by (simp add: eval_nat_numeral del: fun_upd_apply)
qed

theorem update_same_key_aborts_witness:
  "\<exists>s s'. db_tab (sys_db s) ''t'' = [mk_rid 1 0 \<mapsto> replicate 8 7] \<and>
     run_update 3 1 ''t'' [\<lparr>sc_lhs = \<lparr>tc_tab_name = ''t'', tc_col_name = ''a'', tc_alias = [], tc_aggr = NO_AGGR\<rparr>, sc_rhs = set_int 117901063 fresh_value\<rparr>] [mk_rid 1 0] s =
       Some (Inl (TmAbort 1 UPGRADE_CONFLICT), s')"
proof -
  obtain db where db: "txn_like db" "db_tab db = (\<lambda>_ _. None)(''t'' := [mk_rid 1 0 \<mapsto> replicate 8 7])" by (rule txn_two_rows)
  obtain ih where ih: "ix_agrees 2 [ix_name ''t'' index_on_a \<mapsto> ih] ''t'' [mk_rid 1 0 \<mapsto> replicate 8 7] index_on_a"
    "ix_takes 2 [ix_name ''t'' index_on_a \<mapsto> ih] ''t'' (replicate 8 7) index_on_a" by (rule one_key_index)
  note f = indexed_sys_facts [OF db(1), of ih]
  let ?s = "indexed_sys db ih" and ?T = "[mk_rid 1 0 \<mapsto> replicate 8 (7 :: 8 word)]"
    and ?cls = "[\<lparr>sc_lhs = \<lparr>tc_tab_name = ''t'', tc_col_name = ''a'', tc_alias = [], tc_aggr = NO_AGGR\<rparr>, sc_rhs = set_int 117901063 fresh_value\<rparr>]"
    and ?cvs = "[(demo_col ''a'' 0, (set_int 117901063 fresh_value)\<lparr>v_raw := Some (enc_int 117901063)\<rparr>)]"
  have e7: "enc_int 117901063 = [7, 7, 7, 7]" by code_simp
  have c: "set_cols ?cvs (replicate 8 7) = replicate 8 7" by (simp add: set_cols_def put_col_def demo_col_def e7 mem_write_def eval_nat_numeral)
  have sv: "set_values (tm_cols indexed_tab) ?cls = Inr ?cvs"
    by (simp add: indexed_tab_def txn_tab_def ex_get_col_def demo_col_def set_int_def fresh_value_def init_raw_def int_val_def)
  have ui: "update_indexes (tm_indexes indexed_tab) ?cls = [index_on_a]"
    by (simp add: update_indexes_def indexed_tab_def index_on_a_def demo_col_def)
  have lr: "log_fits (new_update_log 1 (replicate 8 7) (replicate 8 7) (mk_rid 1 0) ''t'')" "log_size (new_update_log 1 (replicate 8 7) (replicate 8 7) (mk_rid 1 0) ''t'') \<le> 1000"
    by (simp_all add: log_fits_def log_ok_def new_update_log_def new_base_def base_ok_def log_offsets INVALID_LSN_def int_range_def LOG_BUFFER_SIZE_def PAGE_SIZE_def)
  have T: "db_tab (sys_db ?s) ''t'' = ?T" "?T (mk_rid 1 0) = Some (replicate 8 7)" using db(2) f(5) by simp_all
  have a: "ix_agrees 2 (sys_ihs ?s) ''t'' ?T index_on_a" "ix_takes 2 (sys_ihs ?s) ''t'' (set_cols ?cvs (replicate 8 7)) index_on_a"
    using ih c f(7) by (simp_all del: fun_upd_apply)
  have "rid_ok (mk_rid 1 0)" by (simp add: rid_ok_def int_range_def)
  then have "\<exists>s'. run_update (Suc 2) 1 ''t'' ?cls [mk_rid 1 0] ?s = Some (Inl (TmAbort 1 UPGRADE_CONFLICT), s')"
    using update_same_key_aborts [OF f(1-3) T f(4) indexed_tab_facts(1) sv ui _ _ _ a, of "[]"] lr c by auto
  then show ?thesis using T(1) by (metis eval_nat_numeral(3))
qed

text \<open>DELETE of one of two rows of a table with an index.\<close>

theorem delete_correct_witness:
  "\<exists>s s'. db_tab (sys_db s) ''t'' = [mk_rid 1 0 \<mapsto> replicate 8 7, mk_rid 1 1 \<mapsto> replicate 8 9] \<and> run_delete 3 1 ''t'' [mk_rid 1 0] s = Some (Inr (), s') \<and>
     db_tab (sys_db s') ''t'' = [mk_rid 1 1 \<mapsto> replicate 8 9] \<and> ix_agrees 3 (sys_ihs s') ''t'' [mk_rid 1 1 \<mapsto> replicate 8 9] index_on_a \<and>
     write_set s' 1 = [value_write_record DELETE_TUPLE ''t'' (mk_rid 1 0) (replicate 8 7)]"
proof -
  let ?T = "[mk_rid 1 0 \<mapsto> replicate 8 7, mk_rid 1 1 \<mapsto> replicate 8 (9 :: 8 word)]" and ?lr = "new_delete_log 1 (replicate 8 7) (mk_rid 1 0) ''t''"
  obtain db where db: "txn_like db" "db_tab db = (\<lambda>_ _. None)(''t'' := ?T)" by (rule txn_two_rows)
  obtain ih where ih: "ix_agrees 3 [ix_name ''t'' index_on_a \<mapsto> ih] ''t'' ?T index_on_a" by (rule two_key_index)
  note f = indexed_sys_facts [OF db(1), of ih]
  let ?s = "indexed_sys db ih"
  have lr: "log_fits ?lr" "log_size ?lr = 49"
    by (simp_all add: log_fits_def log_ok_def new_delete_log_def new_base_def base_ok_def log_offsets INVALID_LSN_def int_range_def LOG_BUFFER_SIZE_def PAGE_SIZE_def)
  have T: "db_tab (sys_db ?s) ''t'' = ?T" using db(2) f(5) by simp
  have ag: "ixs_agree 3 ?s ''t'' indexed_tab" using ih T f(7) indexed_tab_facts(2) by (simp add: ixs_agree_def del: fun_upd_apply)
  have ne: "mk_rid 1 0 \<noteq> mk_rid 1 1" by simp
  have left: "\<exists>r. ?T r \<noteq> None \<and> r \<notin> set [mk_rid 1 0]" using ne by (intro exI [of _ "mk_rid 1 1"]) simp
  obtain s' lrs where s': "run_delete 3 1 ''t'' [mk_rid 1 0] ?s = Some (Inr (), s')" "db_tab (sys_db s') = (db_tab (sys_db ?s))(''t'' := ?T |` (- set [mk_rid 1 0]))"
    "ixs_agree 3 s' ''t'' indexed_tab" "write_set s' 1 = write_set ?s 1 @ map (write_of \<circ> deletion ''t'' ?T) [mk_rid 1 0]"
    using delete_correct [OF f(1-3) T f(4) indexed_tab_facts(1) ag, of "[mk_rid 1 0]"] left lr indexed_tab_facts(2) ne by auto
  have R: "?T |` (- set [mk_rid 1 0]) = [mk_rid 1 1 \<mapsto> replicate 8 9]" using ne by (auto simp: restrict_map_def fun_eq_iff)
  have "ix_agrees 3 (sys_ihs s') ''t'' [mk_rid 1 1 \<mapsto> replicate 8 9] index_on_a" using s'(2,3) R indexed_tab_facts(2) by (simp add: ixs_agree_def)
  then show ?thesis using s' R T f(6) ne by (intro exI [of _ ?s] exI [of _ s']) simp
qed

end
