(* ===== verification/Restart.thy ===== *)
theory Restart
  imports Dml_Correct
begin

text \<open>
  The end of restart recovery: \<^verbatim>\<open>undo\<close> drops and builds anew every index of every table
  (\<^verbatim>\<open>src/src/recovery/log_recovery.cpp\<close>) with \<^verbatim>\<open>drop_index\<close> and \<^verbatim>\<open>create_index\<close> of the system manager
  (\<^verbatim>\<open>src/src/system/sm_manager.cpp\<close>), and the whole of recovery as \<^verbatim>\<open>main\<close> runs it before the server
  accepts clients.

  \<^verbatim>\<open>create_index\<close> fills the index by a scan of the table and deletes every row whose key the index
  has already, so that recovery keeps the committed rows only of tables without indexes or without
  duplicate keys. The log is read through a disk manager of its own, \<open>d\<close>; \<^verbatim>\<open>flush_meta\<close>, which
  writes the catalogue to its file, is left out. \<open>tabs\<close> and \<open>porder\<close> are the iteration orders of
  \<^verbatim>\<open>fhs_\<close> and of the page table of the pool.
\<close>

section \<open>Creating an index\<close>

definition on_disk_mgr :: "(disk_manager \<Rightarrow> ('a, disk_manager) outcome) \<Rightarrow> 'a tmm" where
  "on_disk_mgr op = on_db (\<lambda>db. case op (disk (pool db)) of (r, d) \<Rightarrow> (r, db\<lparr>pool := (pool db)\<lparr>disk := d\<rparr>\<rparr>))"

definition on_pool :: "(bpm \<Rightarrow> ('a, bpm) outcome) \<Rightarrow> 'a tmm" where
  "on_pool op = on_db (\<lambda>db. case op (pool db) of (r, p) \<Rightarrow> (r, db\<lparr>pool := p\<rparr>))"

definition set_tab :: "string \<Rightarrow> tab_meta \<Rightarrow> unit tmm" where
  "set_tab n tab s = Some (Inr (), s\<lparr>sys_meta := SetTabMeta (sys_meta s) n tab\<rparr>)"

text \<open>\<^verbatim>\<open>ihs_.emplace\<close> of an opened index: a handle under that name is kept.\<close>

definition emplace_handle :: "string \<Rightarrow> int \<Rightarrow> ix_file_hdr \<Rightarrow> unit tmm" where
  "emplace_handle name fd h s =
     Some (Inr (), if sys_ihs s name = None then s\<lparr>sys_ihs := (sys_ihs s)(name \<mapsto> opened_index (disk (pool (sys_db s))) fd h)\<rparr> else s)"

text \<open>\<^verbatim>\<open>get_record\<close> and \<^verbatim>\<open>delete_record\<close> without a context take no lock.\<close>

definition get_record_plain :: "string \<Rightarrow> rid \<Rightarrow> bytes tmm" where
  "get_record_plain n r = on_scan n (\<lambda>h p. rm_get_record h p r)"

text \<open>The scan that inserts the keys of all rows; a row whose key is there already is deleted.\<close>

fun index_fill :: "nat \<Rightarrow> nat \<Rightarrow> string \<Rightarrow> index_meta \<Rightarrow> rid \<Rightarrow> unit tmm" where
  "index_fill k 0 n ix r = (\<lambda>s. None)"
| "index_fill k (Suc j) n ix r =
     (if rm_scan_is_end r then tm_ret ()
      else tm_bind (get_record_plain n r) (\<lambda>rec.
           tm_bind (on_index (get_index_name_cols n (im_cols ix)) (insert_entry k (index_key ix rec) r)) (\<lambda>(p, success).
           tm_bind (if success then tm_ret () else on_db (\<lambda>db. db_delete db n r)) (\<lambda>_.
           tm_bind (scan_next n r) (\<lambda>r'. index_fill k j n ix r')))))"

definition sm_create_index :: "nat \<Rightarrow> nat \<Rightarrow> string \<Rightarrow> string list \<Rightarrow> unit tmm" where
  "sm_create_index k j n cs =
     (\<lambda>s. tm_bind (tm_lift (get_table (sys_meta s) n)) (\<lambda>tab.
          tm_bind (tm_lift (map_err (get_col tab) cs)) (\<lambda>cols.
            let ix = \<lparr>im_tab_name = n, im_col_tot_len = sum_list (map cm_len cols), im_col_num = int (length cols), im_cols = cols\<rparr> in
            tm_bind (on_disk_mgr (\<lambda>d. ix_create_index d n cols)) (\<lambda>_.
            tm_bind (set_tab n (tab\<lparr>tm_indexes := tm_indexes tab @ [ix]\<rparr>)) (\<lambda>_.
            tm_bind (on_disk_mgr (\<lambda>d. ix_open_index d n cs)) (\<lambda>(fd, h).
            tm_bind (emplace_handle (get_index_name n cs) fd h) (\<lambda>_.
            tm_bind (scan_new n) (\<lambda>r.
            tm_bind (tm_lift (get_col_total_len tab)) (\<lambda>_. index_fill k j n ix r)))))))) s)"

section \<open>Dropping an index\<close>

definition set_handle :: "string \<Rightarrow> ix_handle option \<Rightarrow> unit tmm" where
  "set_handle name x s = Some (Inr (), s\<lparr>sys_ihs := (sys_ihs s)(name := x)\<rparr>)"

definition assert_unpinned :: "ix_handle \<Rightarrow> unit tmm" where
  "assert_unpinned ih = (if list_all (\<lambda>p. ih_pins ih p = 0) [INVALID_PAGE_ID..ih_next ih - 1] then tm_ret () else tm_throw (TmError AssertFailure))"

text \<open>
  \<^verbatim>\<open>drop_index\<close> by column names and by columns. \<^verbatim>\<open>clear_pages\<close> takes the pages of the index out of the pool and fails
  when one is pinned, which the assertion that follows turns into the end of the process; the pages
  of an index are those of its handle, including the one that \<open>INVALID_PAGE_ID\<close> names.
\<close>

definition sm_drop_index :: "(bpm \<Rightarrow> page_id list) \<Rightarrow> string \<Rightarrow> string list \<Rightarrow> unit tmm" where
  "sm_drop_index porder n cs =
     (\<lambda>s. case sys_ihs s (get_index_name n cs) of
            None \<Rightarrow> Some (Inl (TmError (IndexNotFoundError n cs)), s)
          | Some ih \<Rightarrow>
              tm_bind (tm_lift (get_table (sys_meta s) n)) (\<lambda>tab.
              tm_bind (tm_lift (get_index_meta tab cs)) (\<lambda>i.
              tm_bind (set_tab n (tab\<lparr>tm_indexes := take i (tm_indexes tab) @ drop (Suc i) (tm_indexes tab)\<rparr>)) (\<lambda>_.
              tm_bind (on_pool (\<lambda>p. ix_close_index p (ih_fd ih) (ih_hdr ih) (porder p))) (\<lambda>_.
              tm_bind (assert_unpinned ih) (\<lambda>_.
              tm_bind (on_disk_mgr (\<lambda>d. ix_destroy_index d n cs)) (\<lambda>_.
                set_handle (get_index_name n cs) None)))))) s)"

definition sm_drop_index_cols :: "(bpm \<Rightarrow> page_id list) \<Rightarrow> string \<Rightarrow> col_meta list \<Rightarrow> unit tmm" where
  "sm_drop_index_cols porder n cols =
     (\<lambda>s. case sys_ihs s (get_index_name_cols n cols) of
            None \<Rightarrow> Some (Inl (TmError (IndexNotFoundError n (map cm_name cols))), s)
          | Some ih \<Rightarrow>
              tm_bind (tm_lift (get_table (sys_meta s) n)) (\<lambda>tab.
              tm_bind (tm_lift (get_index_meta_cols tab cols)) (\<lambda>i.
              tm_bind (set_tab n (tab\<lparr>tm_indexes := take i (tm_indexes tab) @ drop (Suc i) (tm_indexes tab)\<rparr>)) (\<lambda>_.
              tm_bind (on_pool (\<lambda>p. ix_close_index p (ih_fd ih) (ih_hdr ih) (porder p))) (\<lambda>_.
              tm_bind (assert_unpinned ih) (\<lambda>_.
              tm_bind (on_disk_mgr (\<lambda>d. ix_destroy_index_cols d n cols)) (\<lambda>_.
                set_handle (get_index_name_cols n cols) None)))))) s)"

section \<open>Recovery\<close>

definition rebuild_index :: "nat \<Rightarrow> nat \<Rightarrow> (bpm \<Rightarrow> page_id list) \<Rightarrow> string \<Rightarrow> index_meta \<Rightarrow> unit tmm" where
  "rebuild_index k j porder n ix =
     tm_bind (sm_drop_index_cols porder n (im_cols ix)) (\<lambda>_. sm_create_index k j n (map cm_name (im_cols ix)))"

definition rebuild_table :: "nat \<Rightarrow> nat \<Rightarrow> (bpm \<Rightarrow> page_id list) \<Rightarrow> string \<Rightarrow> unit tmm" where
  "rebuild_table k j porder n =
     (\<lambda>s. tm_bind (tm_lift (get_table (sys_meta s) n)) (\<lambda>tab. tm_each (tm_indexes tab) (rebuild_index k j porder n)) s)"

definition roll_back_sys :: "nat \<Rightarrow> recovery \<Rightarrow> unit tmm" where
  "roll_back_sys k rv s =
     (case rv_roll_back k rv (sys_db s) of None \<Rightarrow> None | Some (r, db) \<Rightarrow> tm_lift r (s\<lparr>sys_db := db\<rparr>))"

definition rv_undo :: "nat \<Rightarrow> nat \<Rightarrow> (bpm \<Rightarrow> page_id list) \<Rightarrow> string list \<Rightarrow> recovery \<Rightarrow> unit tmm" where
  "rv_undo k j porder tabs rv =
     tm_bind (roll_back_sys k rv) (\<lambda>_.
       if rv_rebuilds rv then tm_each tabs (rebuild_table k j porder) else tm_ret ())"

text \<open>What \<^verbatim>\<open>main\<close> does between opening the database and accepting clients.\<close>

definition recover :: "nat \<Rightarrow> nat \<Rightarrow> (recovery \<Rightarrow> page_id list) \<Rightarrow> (bpm \<Rightarrow> page_id list) \<Rightarrow> string list \<Rightarrow> disk_manager \<Rightarrow> unit tmm" where
  "recover k j ord porder tabs d s =
     (case rv_analyze k rv_new d (fhs (sys_db s)) of
        None \<Rightarrow> None
      | Some (r, d') \<Rightarrow>
          tm_bind (tm_lift r) (\<lambda>rv.
          tm_bind (on_db (rv_redo rv (ord rv))) (\<lambda>_. rv_undo k j porder tabs rv)) s)"

section \<open>Recovery of tables without indexes\<close>

lemma rebuild_no_indexes:
  assumes "no_indexes (sys_meta s) n"
  shows "rebuild_table k j porder n s = Some (Inr (), s)"
  using assms by (auto simp: no_indexes_def rebuild_table_def tm_bind_def tm_lift_def tm_ret_def)

lemma rebuild_tables_no_indexes:
  assumes "\<forall>n\<in>set tabs. no_indexes (sys_meta s) n"
  shows "tm_each tabs (rebuild_table k j porder) s = Some (Inr (), s)"
  using assms by (induction tabs) (simp_all add: tm_ret_def rebuild_no_indexes)

text \<open>The rows are those \<open>recover_rows\<close> computes.\<close>

lemma recover_of_rows:
  assumes "recover_rows k ord d (sys_db s) = Some (Inr rv, (db', d'))" "\<forall>n\<in>set tabs. no_indexes (sys_meta s) n"
  shows "recover k j ord porder tabs d s = Some (Inr (), s\<lparr>sys_db := db'\<rparr>)"
proof -
  have "rv_undo k j porder tabs rv s1 = Some (Inr (), s1\<lparr>sys_db := db'\<rparr>)"
    if "rv_roll_back k rv (sys_db s1) = Some (Inr (), db')" "sys_meta s1 = sys_meta s" for s1
    using that rebuild_tables_no_indexes [of tabs "s1\<lparr>sys_db := db'\<rparr>" k j porder] assms(2)
    by (simp add: rv_undo_def roll_back_sys_def tm_bind_def tm_lift_def tm_ret_def)
  then show ?thesis
    using assms(1) by (auto simp: recover_rows_def recover_def tm_bind_def tm_lift_def on_db_def split: option.splits sum.splits prod.splits)
qed

lemma recover_stops:
  assumes "recover_rows k ord d (sys_db s) = Some (Inl e, (db', d'))"
  shows "recover k j ord porder tabs d s = Some (Inl (TmError e), s\<lparr>sys_db := db'\<rparr>)"
  using assms
  by (auto simp: recover_rows_def recover_def tm_bind_def tm_lift_def on_db_def rv_undo_def roll_back_sys_def split: option.splits sum.splits prod.splits)

text \<open>
  C1. Restart recovery restores exactly the committed state of tables without indexes. The log from the
  checkpoint on holds the records of interleaved transactions with increasing LSNs, which write
  each row under an exclusive lock; the tables are at some point of the history that the log records,
  which can be a different one for each row. Analysis, redo in any order of the pages, undo and the
  rebuilding of the indexes, of which there are none, then end without an error, and every table holds
  exactly the changes of the transactions with a commit record.
\<close>

theorem recovery_restores_committed:
  assumes "dm_get_restart_log d = (Inr (int off), d1)" and "log_holds d1 off rs" and "log_wf rs" and "isolated rs"
    and "history T (log_rows rs)" and "db_ok (sys_db s)" and "tables_open (sys_db s) rs" and "reached T (log_rows rs) (db_tab (sys_db s))"
    and "visits_all ord" and "length rs < k" and "\<forall>n\<in>set tabs. no_indexes (sys_meta s) n"
  shows "\<exists>s'. recover k j ord porder tabs d s = Some (Inr (), s') \<and> db_ok (sys_db s') \<and> db_tab (sys_db s') = committed_tables T rs"
proof -
  obtain rv db' d' where "recover_rows k ord d (sys_db s) = Some (Inr rv, (db', d'))" "db_ok db'" "db_tab db' = committed_tables T rs"
    using recover_rows_committed [OF assms(1-10)] by blast
  then show ?thesis using recover_of_rows [OF _ assms(11), of k ord d rv db' d' j porder] by (intro exI [of _ "s\<lparr>sys_db := db'\<rparr>"]) simp
qed

theorem recovery_restores_committed_witness:
  "\<exists>r h p s'. rm_contents h p r = Some (replicate 8 7) \<and>
     recover 6 6 sample_order (\<lambda>_. []) [''t''] (sample_crash_disk (concat (map log_bytes (sample_log r)))) (txn_sys (sample_db h p) []) = Some (Inr (), s') \<and>
     db_tab (sys_db s') ''t'' r = Some (replicate 8 9)"
proof -
  obtain r h p where i: "rm_inv h p" "rm_room p" "rm_contents h p = [r \<mapsto> replicate 8 7]" "record_size (rm_hdr h) = 8"
    by (rule sample_inserted)
  note c = sample_crash_conditions [OF i]
  let ?rs = "sample_log r" and ?db = "sample_db h p"
  let ?s = "txn_sys ?db []"
  obtain d1 where d1: "dm_get_restart_log (sample_crash_disk (concat (map log_bytes ?rs))) = (Inr (int 0), d1)"
    "log_ready d1" "log_file d1 = concat (map log_bytes ?rs)" by (rule sample_crash_start)
  have holds: "log_holds d1 0 ?rs" using d1 sample_log_ok [OF c(3,4)] by (simp add: log_holds_def sample_log_len)
  have hist: "history (db_tab ?db) (log_rows ?rs)"
    unfolding sample_log_rows by (simp add: sample_db_tab i(3) redo_row_def on_cell_def)
  have rch: "reached (db_tab ?db) (log_rows ?rs) (db_tab ?db)"
    unfolding reached_def by (intro allI exI [of _ 0]) simp
  have db: "sys_db ?s = ?db" "\<forall>n\<in>set [''t'']. no_indexes (sys_meta ?s) n"
    by (simp_all add: txn_sys_def no_indexes_def get_table_def txn_tab_def)
  have "length ?rs < 6" by (simp add: sample_log_def)
  with recovery_restores_committed [OF d1(1) holds sample_log_wf sample_log_isolated hist, of ?s sample_order 6 "[''t'']" 6 "\<lambda>_. []"]
  obtain s' where "recover 6 6 sample_order (\<lambda>_. []) [''t''] (sample_crash_disk (concat (map log_bytes ?rs))) ?s = Some (Inr (), s')"
    "db_tab (sys_db s') = committed_tables (db_tab ?db) ?rs"
    using c(1,5) rch sample_visits db by auto
  moreover have "committed_tables (db_tab ?db) ?rs ''t'' r = Some (replicate 8 9)"
    unfolding committed_tables_def sample_log_committed
    by (simp add: sample_log_def sample_entry_def redo_row_def on_cell_def sample_db_tab i(3))
  ultimately show ?thesis using i(3) by (intro exI [of _ r] exI [of _ h] exI [of _ p] exI [of _ s']) simp
qed

text \<open>
  A checkpoint record in the part of the log that is read makes analysis fail with
  \<^verbatim>\<open>TableNotFoundError\<close>, before any page is touched, so the server does not start: the second
  loop of \<^verbatim>\<open>analyze\<close> looks up the table with the empty name for it, and there is none. The LSNs of the
  log increase, so that the record is not dropped for one with the same LSN. The code writes the
  record and then the position behind it to the restart file; a crash between the two writes leaves
  such a log.
\<close>

theorem checkpoint_record_blocks_restart:
  assumes "dm_get_restart_log d = (Inr (int off), d1)" and "log_holds d1 off rs" and "sorted_wrt (<) (map lsn_of rs)"
    and "StaticCKPTLogRecord b \<in> set rs" and "fhs (sys_db s) [] = None" and "length rs < k"
  shows "\<exists>n. recover k j ord porder tabs d s = Some (Inl (TmError (TableNotFoundError n)), s) \<and> fhs (sys_db s) n = None"
proof -
  obtain n d' where "recover_rows k ord d (sys_db s) = Some (Inl (TableNotFoundError n), (sys_db s, d'))" "fhs (sys_db s) n = None"
    using checkpoint_record_stops [OF assms] by blast
  moreover have "s\<lparr>sys_db := sys_db s\<rparr> = s" by simp
  ultimately show ?thesis using recover_stops by metis
qed

theorem checkpoint_record_blocks_restart_witness:
  "\<exists>n. recover 2 1 sample_order (\<lambda>_. []) [] (sample_crash_disk (log_bytes (StaticCKPTLogRecord (sample_entry STATIC_CHECKPOINT 7 20 (- 1) (- 1)))))
     (txn_sys txn_db []) = Some (Inl (TmError (TableNotFoundError n)), txn_sys txn_db [])"
proof -
  let ?b = "sample_entry STATIC_CHECKPOINT 7 20 (- 1) (- 1)"
  obtain d1 where d1: "dm_get_restart_log (sample_crash_disk (log_bytes (StaticCKPTLogRecord ?b))) = (Inr (int 0), d1)"
    "log_ready d1" "log_file d1 = log_bytes (StaticCKPTLogRecord ?b)" by (rule sample_crash_start)
  have "log_ok (StaticCKPTLogRecord ?b)" by (simp add: log_ok_def base_ok_def sample_entry_def int_range_def)
  then have holds: "log_holds d1 0 [StaticCKPTLogRecord ?b]" using d1 by (simp add: log_holds_def LOG_BUFFER_SIZE_def PAGE_SIZE_def)
  have none: "fhs (sys_db (txn_sys txn_db [])) [] = None" by (simp add: txn_sys_def txn_db_def)
  show ?thesis
    using checkpoint_record_blocks_restart [OF d1(1) holds _ _ none, of ?b 2 1 sample_order "\<lambda>_. []" "[]"] by auto
qed

section \<open>Filling an index\<close>

text \<open>The height of a tree is logarithmic in the number of its pairs.\<close>

lemma kids_count:
  assumes "kids_ok h F B cs" "\<And>lo hi t. t \<in> snd ` set cs \<Longrightarrow> F lo hi t \<Longrightarrow> w \<le> length (entries t)"
  shows "length cs * w \<le> length (concat (map (\<lambda>kt. entries (snd kt)) cs))"
  using assms
proof (induction cs)
  case (Cons c cs)
  have "w \<le> length (entries (snd c))" using Cons.prems(1) by (intro Cons.prems(2)) auto
  moreover have "length cs * w \<le> length (concat (map (\<lambda>kt. entries (snd kt)) cs))"
    by (rule Cons.IH) (use Cons.prems in auto)
  ultimately show ?case by simp
qed simp

lemma bt_ok_count:
  "bt_ok h n mn lo hi t \<Longrightarrow> 2 \<le> mn \<Longrightarrow> 2 \<le> minsz h \<Longrightarrow> 2 ^ Suc n \<le> length (entries t)"
proof (induction h n mn lo hi t rule: bt_ok.induct)
  case (2 h n mn lo hi p cs)
  have "length cs * 2 ^ Suc n \<le> length (concat (map (\<lambda>kt. entries (snd kt)) cs))"
    by (rule kids_count [of h "bt_ok h n (minsz h)" hi]) (use 2 in auto)
  moreover have "2 * 2 ^ Suc n \<le> length cs * (2 ^ Suc n :: nat)" using 2 by (intro mult_right_mono) (auto simp: fits_def)
  ultimately show ?case by (simp only: entries.simps power_Suc)
qed (auto simp: fits_def)

lemma ix_height:
  assumes "ix_holds h s n m"
  shows "2 ^ n \<le> Suc (card (dom m))"
proof (cases n)
  case (Suc k)
  obtain t where t: "ix_inv h n t s" "bt_map t = m" using assms by (auto simp: ix_holds_def)
  note i = ix_invD [OF t(1)]
  have "2 \<le> minsz h" using i(1) by (auto simp: hdr_ok_def minsz_def)
  then have c: "2 ^ n \<le> length (entries t)" using bt_ok_count [OF i(5)] by (simp add: root_min_def Suc)
  have "sorted_wrt (<) (map (\<lambda>kv. krank h (fst kv)) (entries t))" using bt_ok_entries [OF i(5)] by (simp add: leaf_ok_def)
  then have "distinct (map (krank h) (map fst (entries t)))" by (simp add: strict_sorted_iff comp_def)
  then have "distinct (map fst (entries t))" unfolding distinct_map [of "krank h"] by blast
  then have "card (dom m) = length (entries t)"
    using distinct_card [of "map fst (entries t)"] t(2) [symmetric] by (simp add: bt_map_def dom_map_of_conv_image_fst)
  then show ?thesis using c by simp
qed simp

lemma on_scan_fields: "on_scan n op s = Some (r, s') \<Longrightarrow> sys_ihs s' = sys_ihs s \<and> sys_meta s' = sys_meta s"
  by (auto simp: on_scan_def on_db_def tm_lift_def split: prod.splits)

lemma get_record_plain_reads:
  assumes inv: "db_inv (sys_db s)" and b: "db_tab (sys_db s) n r = Some b"
  obtains s' where "get_record_plain n r s = Some (Inr b, s')" "sys_reads t s s'"
proof -
  obtain h where h: "fhs (sys_db s) n = Some h" "rm_contents h (pool (sys_db s)) r = Some b"
    using b by (auto simp: db_tab_def split: option.splits)
  have i: "rm_inv h (pool (sys_db s))" "rm_room (pool (sys_db s))" using inv h(1) by (auto simp: db_inv_def)
  obtain p where p: "rm_get_record h (pool (sys_db s)) r = (Inr b, p)" "same_file h (pool (sys_db s)) p"
    by (rule get_record_same_file [OF i h(2)])
  show ?thesis
    by (rule on_scan_ok [where op = "\<lambda>h p. rm_get_record h p r", OF inv h(1) p]) (use that in \<open>auto simp: get_record_plain_def\<close>)
qed

lemma index_fill_ok:
  assumes "db_inv (sys_db s)" "scan_pos s n r rs" "distinct rs" "db_tab (sys_db s) n = T" "set rs \<subseteq> dom T"
    and "sys_ihs s (ix_name n ix) = Some ih" "ix_holds h ih d M" "finite (dom M)"
    and "\<And>key q. M key = Some q \<longleftrightarrow> (\<exists>b. T q = Some b \<and> index_key ix b = key \<and> q \<notin> set rs)"
    and T: "\<And>q b. T q = Some b \<Longrightarrow> length (index_key ix b) = klen h \<and> rid_ok q"
    and inj: "\<And>q q' b b'. T q = Some b \<Longrightarrow> T q' = Some b' \<Longrightarrow> index_key ix b = index_key ix b' \<Longrightarrow> q = q'"
    and "card (dom M) + length rs < 2 ^ 30" "ih_next ih + 32 * int (length rs) < 2 ^ 31 - 64" "length rs < j" "31 < k"
  shows "\<exists>s'. index_fill k j n ix r s = Some (Inr (), s') \<and> db_inv (sys_db s') \<and> db_tab (sys_db s') = db_tab (sys_db s) \<and>
    sys_meta s' = sys_meta s \<and> ix_agrees 31 (sys_ihs s') n T ix \<and> (\<forall>m. m \<noteq> ix_name n ix \<longrightarrow> sys_ihs s' m = sys_ihs s m)"
  using assms(1-9,12-14)
proof (induction rs arbitrary: s r ih d M j)
  case Nil
  obtain j' where j: "j = Suc j'" using Nil.prems(12) by (cases j) auto
  have "2 ^ d \<le> Suc (card (dom M))" by (rule ix_height [OF Nil.prems(7)])
  then have "(2 :: nat) ^ d < 2 ^ 31" using Nil.prems(10) by simp
  then have "d < 31" by (rule power_less_imp_less_exp [of "2 :: nat", rotated]) simp
  then have "ix_agrees 31 (sys_ihs s) n T ix"
    unfolding ix_agrees_def using Nil.prems(6,7,9) T by (intro exI [of _ ih] exI [of _ h] exI [of _ d] exI [of _ M]) auto
  then show ?case using Nil.prems(1,2) by (auto simp: j scan_pos_def tm_ret_def)
next
  case (Cons x rs)
  obtain j' where j: "j = Suc j'" using Cons.prems(12) by (cases j) auto
  have x: "r = x" "\<not> rm_scan_is_end x" using Cons.prems(2) by (auto simp: scan_pos_def)
  obtain b where b: "T x = Some b" using Cons.prems(5) by auto
  let ?key = "index_key ix b"
  obtain s1 where s1: "get_record_plain n x s = Some (Inr b, s1)" "sys_reads t s s1"
    by (rule get_record_plain_reads [OF Cons.prems(1)]) (use Cons.prems(4) b in auto)
  have f1: "sys_ihs s1 = sys_ihs s" "sys_meta s1 = sys_meta s" using on_scan_fields [OF s1(1) [unfolded get_record_plain_def]] by simp_all
  have "2 ^ d \<le> Suc (card (dom M))" by (rule ix_height [OF Cons.prems(7)])
  then have "(2 :: nat) ^ d < 2 ^ 30" using Cons.prems(10) by simp
  then have d: "d < 30" by (rule power_less_imp_less_exp [of "2 :: nat", rotated]) simp
  have new: "?key \<notin> dom M" using Cons.prems(9) inj [OF b] by fastforce
  obtain p ih' d' where e: "insert_entry k ?key x ih = Some (Inr (p, True), ih')" "ix_holds h ih' d' (M(?key \<mapsto> x))" "ih_next ih' \<le> ih_next ih + int d + 2"
    using insert_entry_holds [OF Cons.prems(7), of ?key x k] T [OF b] d assms(15) Cons.prems(11) new by auto
  let ?s2 = "s1\<lparr>sys_ihs := (sys_ihs s1)(ix_name n ix \<mapsto> ih')\<rparr>"
  have oi: "on_index (ix_name n ix) (insert_entry k ?key x) s1 = Some (Inr (p, True), ?s2)"
    using e(1) Cons.prems(6) f1(1) by (simp add: on_index_def tm_lift_def)
  have pos: "scan_pos ?s2 n x (x # rs)" using scan_pos_reads [OF Cons.prems(2) s1(2)] x(1) by (simp add: scan_pos_def)
  have inv2: "db_inv (sys_db ?s2)" using sys_readsD(1) [OF s1(2)] by simp
  obtain r' s3 where s3: "scan_next n x ?s2 = Some (Inr r', s3)" "sys_reads t ?s2 s3" "scan_pos s3 n r' rs"
    by (rule scan_next_reads [OF inv2 pos])
  have f3: "sys_ihs s3 = (sys_ihs s)(ix_name n ix \<mapsto> ih')" "sys_meta s3 = sys_meta s"
    using on_scan_fields [OF s3(1) [unfolded scan_next_def]] f1 by simp_all
  have h3: "sys_ihs s3 (ix_name n ix) = Some ih'" using f3(1) by simp
  have tab: "db_tab (sys_db s3) = db_tab (sys_db s)" using sys_readsD(3) [OF s3(2)] sys_readsD(3) [OF s1(2)] by simp
  have M': "(M(?key \<mapsto> x)) key = Some q \<longleftrightarrow> (\<exists>b. T q = Some b \<and> index_key ix b = key \<and> q \<notin> set rs)" for key q
    using Cons.prems(9) [of key q] new b inj [OF b, of q] Cons.prems(3) by auto
  have c: "card (dom (M(?key \<mapsto> x))) = Suc (card (dom M))" using new Cons.prems(8) by simp
  obtain s' where s': "index_fill k j' n ix r' s3 = Some (Inr (), s')" "db_inv (sys_db s')" "db_tab (sys_db s') = db_tab (sys_db s3)"
    "sys_meta s' = sys_meta s3" "ix_agrees 31 (sys_ihs s') n T ix" "\<forall>m. m \<noteq> ix_name n ix \<longrightarrow> sys_ihs s' m = sys_ihs s3 m"
    using Cons.IH [OF sys_readsD(1) [OF s3(2)] s3(3) _ _ _ h3 e(2) _ M', of j'] Cons.prems(3,4,5,8,10,11,12) tab f3(1) c e(3) d
    by (auto simp: j simp del: fun_upd_apply)
  have "index_fill k j n ix r s = index_fill k j' n ix r' s3"
    using s1(1) oi s3(1) x by (simp add: j)
  then show ?case using s' tab f3 by (intro exI [of _ s']) simp
qed

lemma db_rid_ok:
  assumes "db_inv db" "db_tab db n r \<noteq> None"
  shows "rid_ok r"
proof -
  obtain h where h: "fhs db n = Some h" "rm_inv h (pool db)" "page_range h (page_no r)" "slot_ok (rm_hdr h) (slot_no r)"
    using assms by (auto simp: db_tab_def db_inv_def rm_contents_def split: option.splits if_splits)
  show ?thesis using rid_range [OF rm_inv_base [THEN iffD1, THEN conjunct1, OF h(2)] h(3,4)] by (simp add: rid_ok_def)
qed

text \<open>
  C15. The scan of \<^verbatim>\<open>create_index\<close> fills an empty index completely: when no two rows of the table have
  the same key, it ends, the table is as before, and the index maps a key to a position exactly when
  the table has a row with that key there. The tree is at most 30 levels high, so that fuel 32 is
  enough for the operations of the index; page numbers are used up by at most 32 for each row.
\<close>

theorem index_fill_complete:
  assumes "db_inv (sys_db s)" and "fhs (sys_db s) n = Some f" and "db_tab (sys_db s) n = T"
    and "sys_ihs s (ix_name n ix) = Some ih" and "ix_holds h ih 0 Map.empty" and "\<forall>q b. T q = Some b \<longrightarrow> length (index_key ix b) = klen h"
    and "\<forall>q q' b b'. T q = Some b \<and> T q' = Some b' \<and> index_key ix b = index_key ix b' \<longrightarrow> q = q'"
    and "card (dom T) < 2 ^ 25" and "ih_next ih \<le> 3" and "card (dom T) < j" and "31 < k"
  shows "\<exists>s'. tm_bind (scan_new n) (index_fill k j n ix) s = Some (Inr (), s') \<and> db_inv (sys_db s') \<and> db_tab (sys_db s') = db_tab (sys_db s) \<and>
    sys_meta s' = sys_meta s \<and> ix_agrees 31 (sys_ihs s') n T ix \<and> (\<forall>m. m \<noteq> ix_name n ix \<longrightarrow> sys_ihs s' m = sys_ihs s m)"
proof -
  let ?rs = "db_rids (sys_db s) n"
  obtain r s1 where s1: "scan_new n s = Some (Inr r, s1)" "sys_reads t s s1" "scan_pos s1 n r ?rs"
    by (rule scan_new_reads [OF assms(1,2)])
  have f1: "sys_ihs s1 = sys_ihs s" "sys_meta s1 = sys_meta s" using on_scan_fields [OF s1(1) [unfolded scan_new_def]] by simp_all
  note d = sys_readsD [OF s1(2)]
  have rs: "distinct ?rs" "set ?rs = dom T" using db_rids_tab [OF assms(1), of n] assms(2,3) distinct_rm_rids by (simp_all add: db_rids_def)
  then have len: "length ?rs = card (dom T)" using distinct_card by fastforce
  have ok: "length (index_key ix b) = klen h \<and> rid_ok q" if "T q = Some b" for q b
    using assms(6) that db_rid_ok [OF assms(1), of n q] assms(3) by auto
  have "\<exists>s'. index_fill k j n ix r s1 = Some (Inr (), s') \<and> db_inv (sys_db s') \<and> db_tab (sys_db s') = db_tab (sys_db s1) \<and>
    sys_meta s' = sys_meta s1 \<and> ix_agrees 31 (sys_ihs s') n T ix \<and> (\<forall>m. m \<noteq> ix_name n ix \<longrightarrow> sys_ihs s' m = sys_ihs s1 m)"
    by (rule index_fill_ok [OF d(1) s1(3) rs(1) _ _ _ assms(5)]) (use assms(3,4,7-11) rs d(3) f1(1) len ok in auto)
  then show ?thesis using s1(1) d(3) f1 by auto
qed

theorem index_fill_complete_witness:
  "\<exists>s s'. db_rows (sys_db s) ''t'' = [replicate 8 7] \<and> tm_bind (scan_new ''t'') (index_fill 32 2 ''t'' index_on_a) s = Some (Inr (), s') \<and>
     ix_agrees 31 (sys_ihs s') ''t'' (db_tab (sys_db s) ''t'') index_on_a"
proof -
  obtain s where s: "db_inv (sys_db s)" "can_read s 1 ''t''" "db_rows (sys_db s) ''t'' = [replicate 8 7]" by (rule one_record_sys)
  obtain f where f: "fhs (sys_db s) ''t'' = Some f" using s(2) by (auto simp: can_read_def)
  let ?T = "db_tab (sys_db s) ''t''" and ?s = "s\<lparr>sys_ihs := [ix_name ''t'' index_on_a \<mapsto> sample_index]\<rparr>"
  obtain r where r: "db_rids (sys_db s) ''t'' = [r]" "the (?T r) = replicate 8 7" using s(3) by (auto simp: db_rows_def)
  then have dom: "dom ?T = {r}" using db_rids_tab [OF s(1), of "''t''"] by simp
  have T: "q = r \<and> b = replicate 8 7" if "?T q = Some b" for q b
  proof -
    have "q = r" using dom that by blast
    then show ?thesis using that r(2) by simp
  qed
  have key: "length (index_key index_on_a (replicate 8 7)) = klen sample_nd_hdr"
    using sample_keys(1) [of 0] by (simp add: index_key_def index_on_a_def demo_col_def mem_read_def)
  have lens: "\<forall>q b. ?T q = Some b \<longrightarrow> length (index_key index_on_a b) = klen sample_nd_hdr" using T key by metis
  have uniq: "\<forall>q q' b b'. ?T q = Some b \<and> ?T q' = Some b' \<and> index_key index_on_a b = index_key index_on_a b' \<longrightarrow> q = q'" using T by metis
  have "\<exists>s'. tm_bind (scan_new ''t'') (index_fill 32 2 ''t'' index_on_a) ?s = Some (Inr (), s') \<and> ix_agrees 31 (sys_ihs s') ''t'' ?T index_on_a"
    using index_fill_complete [of ?s "''t''" f ?T index_on_a sample_index sample_nd_hdr 2 32] s(1) f sample_index_holds lens uniq dom sample_keys(5) by auto
  then obtain s' where "tm_bind (scan_new ''t'') (index_fill 32 2 ''t'' index_on_a) ?s = Some (Inr (), s')" "ix_agrees 31 (sys_ihs s') ''t'' ?T index_on_a" by blast
  then show ?thesis using s(3) by (intro exI [of _ ?s] exI [of _ s']) simp
qed

end
