(* ===== verification/Planner.thy ===== *)
theory Planner
  imports Portal "HOL-Library.Multiset"
begin

text \<open>
  The planner (\<^verbatim>\<open>src/src/optimizer/planner.cpp\<close>): conditions on one table go to the scan of that
  table, with an index where one matches, and the join tree is built along the conditions between
  tables.

  A condition carries the plan of its subquery. A join with a null child, which the code builds when
  a condition names a table the query does not have, crashes as soon as its executor is made and
  is \<open>TmCrash\<close> here. \<^verbatim>\<open>RMDBError\<close> with a message is \<open>InternalError\<close> with that message: both are reported
  alike. The tag of a join is not part of its plan, since nothing reads it; queries with ORDER BY are
  left out, with the sort plan.
\<close>

type_synonym pcond = "condition \<times> plan option"

abbreviation lhs_tab :: "condition \<Rightarrow> string" where "lhs_tab c \<equiv> tc_tab_name (cd_lhs_col c)"
abbreviation rhs_tab :: "condition \<Rightarrow> string" where "rhs_tab c \<equiv> tc_tab_name (cd_rhs_col c)"

section \<open>Scans\<close>

definition get_index_cols :: "db_meta \<Rightarrow> string \<Rightarrow> pcond list \<Rightarrow> rmdb_error + string list option" where
  "get_index_cols db n conds =
     map_sum id (\<lambda>tab. modify_and_check_index tab
       (map (\<lambda>c. tc_col_name (cd_lhs_col (fst c))) (filter (\<lambda>c. cd_is_rhs_val (fst c) \<and> lhs_tab (fst c) = n) conds))) (get_table db n)"

definition pops :: "string \<Rightarrow> condition \<Rightarrow> bool" where
  "pops n c \<longleftrightarrow> n = lhs_tab c \<and> cd_rhs_type c \<noteq> RHS_COL \<or> lhs_tab c = rhs_tab c"

definition pop_conds :: "pcond list \<Rightarrow> string \<Rightarrow> pcond list \<times> pcond list" where
  "pop_conds conds n = (filter (\<lambda>c. pops n (fst c)) conds, filter (\<lambda>c. \<not> pops n (fst c)) conds)"

definition scan_plan :: "db_meta \<Rightarrow> string \<Rightarrow> pcond list \<Rightarrow> tm_error + plan" where
  "scan_plan db n conds =
     (case get_index_cols db n conds of
        Inl e \<Rightarrow> Inl (TmError e)
      | Inr None \<Rightarrow> Inr (ScanPlan T_SeqScan n conds [])
      | Inr (Some ixns) \<Rightarrow> Inr (ScanPlan T_IndexScan n conds ixns))"

text \<open>The scans of the tables, and the conditions that are left.\<close>

fun scan_plans :: "db_meta \<Rightarrow> string list \<Rightarrow> pcond list \<Rightarrow> tm_error + (plan list \<times> pcond list)" where
  "scan_plans db [] conds = Inr ([], conds)"
| "scan_plans db (n # ns) conds =
     (case pop_conds conds n of (cs, rest) \<Rightarrow>
        (case scan_plan db n cs of
           Inl e \<Rightarrow> Inl e
         | Inr p \<Rightarrow> map_sum id (\<lambda>(ps, rest). (p # ps, rest)) (scan_plans db ns rest)))"

section \<open>Joins\<close>

definition swap_cond :: "condition \<Rightarrow> tm_error + condition" where
  "swap_cond c =
     (case swap_op (cd_op c) of
        None \<Rightarrow> Inl TmOutOfRange
      | Some p \<Rightarrow> Inr (c\<lparr>cd_lhs_col := cd_rhs_col c, cd_rhs_col := cd_lhs_col c, cd_op := p\<rparr>))"

text \<open>\<^verbatim>\<open>push_conds\<close> returns 1 or 2 when the plan has the left or the right table of the condition, and 3 when it took the condition.\<close>

fun push_conds :: "condition \<Rightarrow> plan \<Rightarrow> tm_error + (nat \<times> plan)" where
  "push_conds c (ScanPlan tag n cs ixns) =
     Inr (if n = lhs_tab c then 1 else if n = rhs_tab c then 2 else 0, ScanPlan tag n cs ixns)"
| "push_conds c (JoinPlan l r cs) =
     (case push_conds c l of
        Inl e \<Rightarrow> Inl e
      | Inr (a, l') \<Rightarrow>
          if a = 3 then Inr (3, JoinPlan l' r cs)
          else case push_conds c r of
                 Inl e \<Rightarrow> Inl e
               | Inr (b, r') \<Rightarrow>
                   if b = 3 then Inr (3, JoinPlan l' r' cs)
                   else if a = 0 \<or> b = 0 then Inr (a + b, JoinPlan l' r' cs)
                   else map_sum id (\<lambda>c'. (3, JoinPlan l' r' (cs @ [c']))) (if a = 2 then swap_cond c else Inr c))"
| "push_conds c p = Inr (0, p)"

fun plan_tab :: "plan \<Rightarrow> string" where
  "plan_tab (ScanPlan tag n cs ixns) = n"
| "plan_tab p = []"

text \<open>The tree built so far, the tables whose scans are in it (\<^verbatim>\<open>scantbl\<close>) and \<^verbatim>\<open>joined_tables\<close>.\<close>

record join_state =
  js_scanned :: "nat set"
  js_joined :: "string list"

definition pop_scan :: "plan list \<Rightarrow> string \<Rightarrow> join_state \<Rightarrow> plan option \<times> join_state" where
  "pop_scan scans n st =
     (case find_pos (\<lambda>p. plan_tab p = n) scans of
        None \<Rightarrow> (None, st)
      | Some i \<Rightarrow> (Some (scans ! i), st\<lparr>js_scanned := insert i (js_scanned st), js_joined := js_joined st @ [n]\<rparr>))"

definition join_plan :: "plan option \<Rightarrow> plan option \<Rightarrow> condition list \<Rightarrow> tm_error + plan" where
  "join_plan l r cs = (case (l, r) of (Some l, Some r) \<Rightarrow> Inr (JoinPlan l r cs) | _ \<Rightarrow> Inl TmCrash)"

definition first_join :: "bool \<Rightarrow> bool \<Rightarrow> plan list \<Rightarrow> condition \<Rightarrow> join_state \<Rightarrow> tm_error + (plan \<times> join_state)" where
  "first_join nl sm scans c st =
     (let (l, st) = pop_scan scans (lhs_tab c) st; (r, st) = pop_scan scans (rhs_tab c) st
      in if \<not> nl \<and> \<not> sm then Inl (TmError (InternalError ''No join executor selected!''))
         else map_sum id (\<lambda>p. (p, st)) (join_plan l r [c]))"

definition join_step :: "plan list \<Rightarrow> condition \<Rightarrow> plan \<times> join_state \<Rightarrow> tm_error + (plan \<times> join_state)" where
  "join_step scans c = (\<lambda>(p, st).
     let (l, st) = (if lhs_tab c \<in> set (js_joined st) then (None, st) else pop_scan scans (lhs_tab c) st);
         rev = (rhs_tab c \<notin> set (js_joined st));
         (r, st) = (if rev then pop_scan scans (rhs_tab c) st else (None, st))
     in if l \<noteq> None \<and> r \<noteq> None then
          (case join_plan l r [c] of Inl e \<Rightarrow> Inl e | Inr q \<Rightarrow> Inr (JoinPlan q p [], st))
        else if l \<noteq> None \<or> r \<noteq> None then
          (case (if rev then swap_cond c else Inr c) of
             Inl e \<Rightarrow> Inl e
           | Inr c' \<Rightarrow> map_sum id (\<lambda>q. (q, st)) (join_plan (if rev then r else l) (Some p) [c']))
        else map_sum id (\<lambda>(k, q). (q, st)) (push_conds c p))"

fun join_steps :: "plan list \<Rightarrow> condition list \<Rightarrow> plan \<times> join_state \<Rightarrow> tm_error + (plan \<times> join_state)" where
  "join_steps scans [] x = Inr x"
| "join_steps scans (c # cs) x = (case join_step scans c x of Inl e \<Rightarrow> Inl e | Inr y \<Rightarrow> join_steps scans cs y)"

text \<open>The tables without a condition between tables.\<close>

definition join_rest :: "plan list \<Rightarrow> plan \<times> join_state \<Rightarrow> plan" where
  "join_rest scans = (\<lambda>(p, st).
     fold (\<lambda>i q. if i \<in> js_scanned st then q else JoinPlan (scans ! i) q []) [0..<length scans] p)"

definition make_one_rel :: "bool \<Rightarrow> bool \<Rightarrow> db_meta \<Rightarrow> string list \<Rightarrow> pcond list \<Rightarrow> condition list \<Rightarrow> tm_error + plan" where
  "make_one_rel nl sm db tables conds on_conds =
     (case scan_plans db tables conds of
        Inl e \<Rightarrow> Inl e
      | Inr (scans, rest) \<Rightarrow>
          if length tables = 1 then Inr (hd scans)
          else case map fst rest @ on_conds of
                 [] \<Rightarrow> if scans = [] then Inl TmCrash
                       else Inr (join_rest scans (hd scans, \<lparr>js_scanned = {0}, js_joined = []\<rparr>))
               | c # cs \<Rightarrow>
                   (case first_join nl sm scans c \<lparr>js_scanned = {}, js_joined = replicate (length tables) []\<rparr> of
                      Inl e \<Rightarrow> Inl e
                    | Inr x \<Rightarrow> map_sum id (join_rest scans) (join_steps scans cs x)))"

text \<open>The whole plan of a query without ORDER BY.\<close>

record query =
  qr_tables :: "string list"
  qr_conds :: "pcond list"
  qr_on_conds :: "condition list"
  qr_cols :: "tab_col list"
  qr_has_aggr :: bool
  qr_group_cols :: "tab_col list"
  qr_having :: "pcond list"

definition generate_aggregation_group_plan :: "query \<Rightarrow> plan \<Rightarrow> plan" where
  "generate_aggregation_group_plan q p =
     (if \<not> qr_has_aggr q \<and> qr_group_cols q = [] then p else AggregationPlan p (qr_cols q) (qr_group_cols q) (qr_having q))"

definition generate_select_plan :: "bool \<Rightarrow> bool \<Rightarrow> db_meta \<Rightarrow> query \<Rightarrow> tm_error + plan" where
  "generate_select_plan nl sm db q =
     map_sum id (\<lambda>p. ProjectionPlan (generate_aggregation_group_plan q p) (qr_cols q))
       (make_one_rel nl sm db (qr_tables q) (qr_conds q) (qr_on_conds q))"

section \<open>What a plan has\<close>

fun plan_leaves :: "plan \<Rightarrow> plan list" where
  "plan_leaves (JoinPlan l r cs) = plan_leaves l @ plan_leaves r"
| "plan_leaves p = [p]"

abbreviation plan_tabs :: "plan \<Rightarrow> string list" where "plan_tabs p \<equiv> map plan_tab (plan_leaves p)"

fun plan_joins :: "plan \<Rightarrow> condition list" where
  "plan_joins (JoinPlan l r cs) = plan_joins l @ plan_joins r @ cs"
| "plan_joins p = []"

fun is_scan_plan :: "plan \<Rightarrow> bool" where
  "is_scan_plan (ScanPlan tag n cs ixns) = True"
| "is_scan_plan p = False"

text \<open>A tree of scans in which every condition of a join has its left column in the left and its right column in the right subtree.\<close>

fun placed :: "plan \<Rightarrow> bool" where
  "placed (JoinPlan l r cs) \<longleftrightarrow> placed l \<and> placed r \<and> list_all (\<lambda>c. lhs_tab c \<in> set (plan_tabs l) \<and> rhs_tab c \<in> set (plan_tabs r)) cs"
| "placed p \<longleftrightarrow> is_scan_plan p"

text \<open>
  A condition between tables may be turned round, with the operator that has the same meaning for the
  exchanged sides; \<open>norm_cond\<close> has the smaller table to the left.
\<close>

fun mirror_op :: "comp_op \<Rightarrow> comp_op" where
  "mirror_op OP_LT = OP_GT"
| "mirror_op OP_GT = OP_LT"
| "mirror_op OP_LE = OP_GE"
| "mirror_op OP_GE = OP_LE"
| "mirror_op p = p"

lemma mirror_op_sem: "op_sem (mirror_op p) x y \<longleftrightarrow> op_sem p y x"
  by (cases p) auto

definition flip_cond :: "condition \<Rightarrow> condition" where
  "flip_cond c = c\<lparr>cd_lhs_col := cd_rhs_col c, cd_rhs_col := cd_lhs_col c, cd_op := mirror_op (cd_op c)\<rparr>"

definition norm_cond :: "condition \<Rightarrow> condition" where
  "norm_cond c = (if lhs_tab c < rhs_tab c then c else flip_cond c)"

definition between :: "string set \<Rightarrow> condition \<Rightarrow> bool" where
  "between ts c \<longleftrightarrow> cd_rhs_type c = RHS_COL \<and> lhs_tab c \<noteq> rhs_tab c \<and> lhs_tab c \<in> ts \<and> rhs_tab c \<in> ts \<and> cd_op c \<noteq> OP_IN"

lemma flip_tabs [simp]: "lhs_tab (flip_cond c) = rhs_tab c" "rhs_tab (flip_cond c) = lhs_tab c"
  by (simp_all add: flip_cond_def)

lemma swap_cond_flip: "cd_op c \<noteq> OP_IN \<Longrightarrow> swap_cond c = Inr (flip_cond c)"
  by (cases "cd_op c") (simp_all add: swap_cond_def flip_cond_def swap_op_def)

lemma flip_flip: "cd_op c \<noteq> OP_IN \<Longrightarrow> flip_cond (flip_cond c) = c"
  by (cases "cd_op c") (simp_all add: flip_cond_def)

lemma norm_flip: "lhs_tab c \<noteq> rhs_tab c \<Longrightarrow> cd_op c \<noteq> OP_IN \<Longrightarrow> norm_cond (flip_cond c) = norm_cond c"
  by (auto simp: norm_cond_def flip_flip)

lemma push_conds_ok:
  assumes "placed p" "distinct (plan_tabs p)" "lhs_tab c \<noteq> rhs_tab c" "cd_op c \<noteq> OP_IN"
  shows "\<exists>a q. push_conds c p = Inr (a, q) \<and> plan_leaves q = plan_leaves p \<and> placed q \<and>
    (if lhs_tab c \<in> set (plan_tabs p) \<and> rhs_tab c \<in> set (plan_tabs p)
     then a = 3 \<and> image_mset norm_cond (mset (plan_joins q)) = image_mset norm_cond (mset (plan_joins p)) + {#norm_cond c#}
     else q = p \<and> a = (if lhs_tab c \<in> set (plan_tabs p) then 1 else if rhs_tab c \<in> set (plan_tabs p) then 2 else 0))"
  using assms
proof (induction p)
  case (JoinPlan l r cs)
  have pl: "placed l" "placed r" and cs: "list_all (\<lambda>c. lhs_tab c \<in> set (plan_tabs l) \<and> rhs_tab c \<in> set (plan_tabs r)) cs" using JoinPlan.prems(1) by simp_all
  have d: "distinct (plan_tabs l)" "distinct (plan_tabs r)" "set (plan_tabs l) \<inter> set (plan_tabs r) = {}" using JoinPlan.prems(2) by auto
  obtain a l' where l: "push_conds c l = Inr (a, l')" "plan_leaves l' = plan_leaves l" "placed l'" and la:
    "if lhs_tab c \<in> set (plan_tabs l) \<and> rhs_tab c \<in> set (plan_tabs l)
     then a = 3 \<and> image_mset norm_cond (mset (plan_joins l')) = image_mset norm_cond (mset (plan_joins l)) + {#norm_cond c#}
     else l' = l \<and> a = (if lhs_tab c \<in> set (plan_tabs l) then 1 else if rhs_tab c \<in> set (plan_tabs l) then 2 else 0)"
    using JoinPlan.IH(1) [OF pl(1) d(1) JoinPlan.prems(3,4)] by blast
  obtain b r' where r: "push_conds c r = Inr (b, r')" "plan_leaves r' = plan_leaves r" "placed r'" and rb:
    "if lhs_tab c \<in> set (plan_tabs r) \<and> rhs_tab c \<in> set (plan_tabs r)
     then b = 3 \<and> image_mset norm_cond (mset (plan_joins r')) = image_mset norm_cond (mset (plan_joins r)) + {#norm_cond c#}
     else r' = r \<and> b = (if lhs_tab c \<in> set (plan_tabs r) then 1 else if rhs_tab c \<in> set (plan_tabs r) then 2 else 0)"
    using JoinPlan.IH(2) [OF pl(2) d(2) JoinPlan.prems(3,4)] by blast
  have n: "norm_cond (flip_cond c) = norm_cond c" "swap_cond c = Inr (flip_cond c)" using norm_flip swap_cond_flip JoinPlan.prems(3,4) by auto
  consider (left) "lhs_tab c \<in> set (plan_tabs l)" "rhs_tab c \<in> set (plan_tabs l)" | (right) "lhs_tab c \<in> set (plan_tabs r)" "rhs_tab c \<in> set (plan_tabs r)"
    | (here) "lhs_tab c \<in> set (plan_tabs l)" "rhs_tab c \<in> set (plan_tabs r)" | (cross) "rhs_tab c \<in> set (plan_tabs l)" "lhs_tab c \<in> set (plan_tabs r)"
    | (none) "\<not> (lhs_tab c \<in> set (plan_tabs (JoinPlan l r cs)) \<and> rhs_tab c \<in> set (plan_tabs (JoinPlan l r cs)))" by auto
  then show ?case
  proof cases
    case left
    then show ?thesis using l la cs pl(2) by (simp add: add_ac)
  next
    case right
    then have "lhs_tab c \<notin> set (plan_tabs l)" "rhs_tab c \<notin> set (plan_tabs l)" using d(3) by auto
    then show ?thesis using l la r rb right cs by (simp add: add_ac)
  next
    case here
    then have "rhs_tab c \<notin> set (plan_tabs l)" "lhs_tab c \<notin> set (plan_tabs r)" using d(3) by auto
    then show ?thesis using l la r rb here cs by (simp add: add_ac)
  next
    case cross
    then have "lhs_tab c \<notin> set (plan_tabs l)" "rhs_tab c \<notin> set (plan_tabs r)" using d(3) by auto
    then show ?thesis using l la r rb cross cs n by (simp add: add_ac)
  next
    case none
    then have "l' = l" "r' = r" "a = 0 \<or> b = 0" "a \<noteq> 3" "b \<noteq> 3" using la rb d(3) by (auto split: if_splits)
    then show ?thesis using none l(1) r(1) la rb pl cs d(3) by (auto split: if_splits)
  qed
qed auto

section \<open>Building the tree\<close>

text \<open>The scans are those of the tables, in order.\<close>

definition scans_of :: "string list \<Rightarrow> plan list \<Rightarrow> bool" where
  "scans_of ts scans \<longleftrightarrow> map plan_tab scans = ts \<and> list_all is_scan_plan scans \<and> distinct ts \<and> [] \<notin> set ts"

definition tree_inv :: "plan list \<Rightarrow> plan \<times> join_state \<Rightarrow> bool" where
  "tree_inv scans = (\<lambda>(p, st). placed p \<and> js_scanned st \<subseteq> {..<length scans} \<and> mset (plan_leaves p) = image_mset ((!) scans) (mset_set (js_scanned st)) \<and>
     (\<forall>n. n \<noteq> [] \<longrightarrow> (n \<in> set (js_joined st) \<longleftrightarrow> n \<in> set (plan_tabs p))))"

lemma is_scan_leaf: "is_scan_plan p \<Longrightarrow> plan_leaves p = [p] \<and> placed p \<and> plan_joins p = []"
  by (cases p) auto

lemma tree_tabs:
  assumes "scans_of ts scans" "tree_inv scans (p, st)"
  shows "distinct (plan_tabs p)" "i < length scans \<Longrightarrow> ts ! i \<in> set (plan_tabs p) \<longleftrightarrow> i \<in> js_scanned st"
proof -
  let ?I = "js_scanned st"
  have s: "map plan_tab scans = ts" "distinct ts" "?I \<subseteq> {..<length scans}" using assms by (auto simp: scans_of_def tree_inv_def)
  have nth: "plan_tab (scans ! i) = ts ! i" if "i < length scans" for i using s(1) that nth_map by fastforce
  have fin: "finite ?I" using s(3) finite_subset by blast
  have "mset (plan_tabs p) = image_mset plan_tab (mset (plan_leaves p))" by simp
  also have "\<dots> = image_mset ((!) ts) (mset_set ?I)"
  proof -
    have "mset (plan_leaves p) = image_mset ((!) scans) (mset_set ?I)" using assms(2) by (simp add: tree_inv_def)
    then have "image_mset plan_tab (mset (plan_leaves p)) = image_mset (\<lambda>i. plan_tab (scans ! i)) (mset_set ?I)" by (simp add: image_mset.compositionality comp_def)
    also have "\<dots> = image_mset ((!) ts) (mset_set ?I)" by (rule image_mset_cong) (use nth s(3) fin in auto)
    finally show ?thesis .
  qed
  finally have m: "mset (plan_tabs p) = image_mset ((!) ts) (mset_set ?I)" .
  have len: "length ts = length scans" using s(1) by auto
  have inj: "inj_on ((!) ts) ?I" using s(2,3) len by (auto intro!: inj_on_nth)
  have "mset (plan_tabs p) = mset_set ((!) ts ` ?I)" using m inj by (simp add: image_mset_mset_set)
  then have "mset (plan_tabs p) = mset (sorted_list_of_set ((!) ts ` ?I))" by (metis mset_sorted_list_of_multiset sorted_list_of_mset_set)
  then show "distinct (plan_tabs p)" by (metis mset_eq_imp_distinct_iff distinct_sorted_list_of_set)
  have "set (plan_tabs p) = (!) ts ` ?I" using m fin by (metis finite_set_mset_mset_set set_image_mset set_mset_mset)
  then show "ts ! i \<in> set (plan_tabs p) \<longleftrightarrow> i \<in> ?I" if "i < length scans" for i
    using inj s(2,3) len that by (auto simp: nth_eq_iff_index_eq subset_iff)
qed

lemma pop_scan_ok:
  assumes "scans_of ts scans" "n \<in> set ts"
  obtains i where "i < length scans" "ts ! i = n" "is_scan_plan (scans ! i)" "plan_tab (scans ! i) = n"
    "pop_scan scans n st = (Some (scans ! i), st\<lparr>js_scanned := insert i (js_scanned st), js_joined := js_joined st @ [n]\<rparr>)"
proof -
  have s: "map plan_tab scans = ts" "list_all is_scan_plan scans" using assms(1) by (simp_all add: scans_of_def)
  have "find_pos (\<lambda>p. plan_tab p = n) scans \<noteq> None"
  proof
    assume none: "find_pos (\<lambda>p. plan_tab p = n) scans = None"
    have f: "find_pos P xs = None \<Longrightarrow> \<forall>x\<in>set xs. \<not> P x" for P and xs :: "plan list" by (induction xs) (auto split: if_splits)
    show False using f [OF none] assms(2) s(1) by auto
  qed
  then obtain i where i: "find_pos (\<lambda>p. plan_tab p = n) scans = Some i" by blast
  then have "i < length scans" "plan_tab (scans ! i) = n" using find_pos_Some by auto
  then show ?thesis using that [of i] i s by (auto simp: pop_scan_def list_all_length)
qed

abbreviation norm_joins :: "plan \<Rightarrow> condition multiset" where
  "norm_joins p \<equiv> image_mset norm_cond (mset (plan_joins p))"

text \<open>A scan that is not in the tree yet.\<close>

lemma new_leaf:
  assumes "scans_of ts scans" "js_scanned st \<subseteq> {..<length scans}" "i < length scans" "i \<notin> js_scanned st"
  shows "image_mset ((!) scans) (mset_set (insert i (js_scanned st))) = add_mset (scans ! i) (image_mset ((!) scans) (mset_set (js_scanned st)))"
  using assms(2,4) finite_subset [OF assms(2)] by simp

lemma tree_scanned: "tree_inv scans (p, st) \<Longrightarrow> js_scanned st \<subseteq> {..<length scans}"
  by (simp add: tree_inv_def)

lemma first_join_ok:
  assumes "scans_of ts scans" "between (set ts) c" "nl \<or> sm"
  shows "\<exists>x. first_join nl sm scans c \<lparr>js_scanned = {}, js_joined = replicate k []\<rparr> = Inr x \<and> tree_inv scans x \<and> norm_joins (fst x) = {#norm_cond c#}"
proof -
  let ?st = "\<lparr>js_scanned = {}, js_joined = replicate k []\<rparr>"
  have b: "lhs_tab c \<in> set ts" "rhs_tab c \<in> set ts" "lhs_tab c \<noteq> rhs_tab c" using assms(2) by (simp_all add: between_def)
  obtain i where i: "i < length scans" "ts ! i = lhs_tab c" "is_scan_plan (scans ! i)" "plan_tab (scans ! i) = lhs_tab c"
    "pop_scan scans (lhs_tab c) ?st = (Some (scans ! i), ?st\<lparr>js_scanned := insert i (js_scanned ?st), js_joined := js_joined ?st @ [lhs_tab c]\<rparr>)"
    by (rule pop_scan_ok [OF assms(1) b(1)])
  let ?st1 = "?st\<lparr>js_scanned := insert i (js_scanned ?st), js_joined := js_joined ?st @ [lhs_tab c]\<rparr>"
  obtain j where j: "j < length scans" "ts ! j = rhs_tab c" "is_scan_plan (scans ! j)" "plan_tab (scans ! j) = rhs_tab c"
    "pop_scan scans (rhs_tab c) ?st1 = (Some (scans ! j), ?st1\<lparr>js_scanned := insert j (js_scanned ?st1), js_joined := js_joined ?st1 @ [rhs_tab c]\<rparr>)"
    by (rule pop_scan_ok [OF assms(1) b(2)])
  have ne: "i \<noteq> j" using i(2) j(2) b(3) by auto
  note l = is_scan_leaf [OF i(3)] is_scan_leaf [OF j(3)]
  show ?thesis
    using assms(3) i j ne l by (auto simp: first_join_def join_plan_def Let_def tree_inv_def)
qed

lemma join_step_ok:
  assumes s: "scans_of ts scans" and inv: "tree_inv scans (p, st)" and c: "between (set ts) c"
  shows "\<exists>x. join_step scans c (p, st) = Inr x \<and> tree_inv scans x \<and> norm_joins (fst x) = add_mset (norm_cond c) (norm_joins p)"
proof -
  have b: "lhs_tab c \<in> set ts" "rhs_tab c \<in> set ts" "lhs_tab c \<noteq> rhs_tab c" "cd_op c \<noteq> OP_IN" "lhs_tab c \<noteq> []" "rhs_tab c \<noteq> []"
    using c s by (auto simp: between_def scans_of_def)
  have n: "norm_cond (flip_cond c) = norm_cond c" "swap_cond c = Inr (flip_cond c)" using norm_flip swap_cond_flip b(3,4) by auto
  obtain i where i: "i < length scans" "ts ! i = lhs_tab c" "is_scan_plan (scans ! i)" "plan_tab (scans ! i) = lhs_tab c"
    "pop_scan scans (lhs_tab c) st = (Some (scans ! i), st\<lparr>js_scanned := insert i (js_scanned st), js_joined := js_joined st @ [lhs_tab c]\<rparr>)"
    by (rule pop_scan_ok [OF s b(1)])
  have pop_r: "\<exists>j. j < length scans \<and> ts ! j = rhs_tab c \<and> is_scan_plan (scans ! j) \<and> plan_tab (scans ! j) = rhs_tab c \<and>
    pop_scan scans (rhs_tab c) st' = (Some (scans ! j), st'\<lparr>js_scanned := insert j (js_scanned st'), js_joined := js_joined st' @ [rhs_tab c]\<rparr>)" for st'
    by (rule pop_scan_ok [OF s b(2), of st']) blast
  have j: "lhs_tab c \<in> set (js_joined st) \<longleftrightarrow> lhs_tab c \<in> set (plan_tabs p)" "rhs_tab c \<in> set (js_joined st) \<longleftrightarrow> rhs_tab c \<in> set (plan_tabs p)"
    using inv b(5,6) by (simp_all add: tree_inv_def)
  note t = tree_tabs [OF s inv] and sc = tree_scanned [OF inv] and li = is_scan_leaf [OF i(3)]
  have pl: "placed p" "mset (plan_leaves p) = image_mset ((!) scans) (mset_set (js_scanned st))" using inv by (simp_all add: tree_inv_def)
  show ?thesis
  proof (cases "lhs_tab c \<in> set (plan_tabs p)")
    case False
    have ni: "i \<notin> js_scanned st" using t(2) [OF i(1)] i(2) False by simp
    let ?st1 = "st\<lparr>js_scanned := insert i (js_scanned st), js_joined := js_joined st @ [lhs_tab c]\<rparr>"
    show ?thesis
    proof (cases "rhs_tab c \<in> set (plan_tabs p)")
      case True
      have "join_step scans c (p, st) = Inr (JoinPlan (scans ! i) p [c], ?st1)"
        using False True j i(5) by (simp add: join_step_def join_plan_def Let_def)
      moreover have "tree_inv scans (JoinPlan (scans ! i) p [c], ?st1)"
        using inv True i(1,4) li sc new_leaf [OF s sc i(1) ni] by (auto simp: tree_inv_def)
      ultimately show ?thesis using li by simp
    next
      case right: False
      obtain m where m: "m < length scans" "ts ! m = rhs_tab c" "is_scan_plan (scans ! m)" "plan_tab (scans ! m) = rhs_tab c"
        "pop_scan scans (rhs_tab c) ?st1 = (Some (scans ! m), ?st1\<lparr>js_scanned := insert m (js_scanned ?st1), js_joined := js_joined ?st1 @ [rhs_tab c]\<rparr>)" (is "_ = (_, ?st2)")
        using pop_r [of ?st1] by blast
      have nm: "m \<notin> insert i (js_scanned st)" using t(2) [OF m(1)] m(2) right b(3) i(2) by auto
      note lm = is_scan_leaf [OF m(3)]
      have sc1: "js_scanned ?st1 \<subseteq> {..<length scans}" using sc i(1) by simp
      have "join_step scans c (p, st) = Inr (JoinPlan (JoinPlan (scans ! i) (scans ! m) [c]) p [], ?st2)"
        using False right b(3) j i(5) m(5) by (simp add: join_step_def join_plan_def Let_def)
      moreover have "tree_inv scans (JoinPlan (JoinPlan (scans ! i) (scans ! m) [c]) p [], ?st2)"
        using inv i(1,4) m(1,4) li lm sc new_leaf [OF s sc i(1) ni] new_leaf [OF s sc1 m(1)] nm by (auto simp: tree_inv_def)
      ultimately show ?thesis using li lm by simp
    qed
  next
    case left: True
    show ?thesis
    proof (cases "rhs_tab c \<in> set (plan_tabs p)")
      case True
      obtain a q where q: "push_conds c p = Inr (a, q)" "plan_leaves q = plan_leaves p" "placed q" "norm_joins q = norm_joins p + {#norm_cond c#}"
        using push_conds_ok [OF pl(1) t(1) b(3,4)] left True by auto
      have "join_step scans c (p, st) = Inr (q, st)" using left True j q(1) by (simp add: join_step_def Let_def)
      moreover have "tree_inv scans (q, st)" using inv q(2,3) by (simp add: tree_inv_def)
      ultimately show ?thesis using q(4) by simp
    next
      case False
      obtain m where m: "m < length scans" "ts ! m = rhs_tab c" "is_scan_plan (scans ! m)" "plan_tab (scans ! m) = rhs_tab c"
        "pop_scan scans (rhs_tab c) st = (Some (scans ! m), st\<lparr>js_scanned := insert m (js_scanned st), js_joined := js_joined st @ [rhs_tab c]\<rparr>)" (is "_ = (_, ?st2)")
        using pop_r [of st] by blast
      have nm: "m \<notin> js_scanned st" using t(2) [OF m(1)] m(2) False by simp
      note lm = is_scan_leaf [OF m(3)]
      have "join_step scans c (p, st) = Inr (JoinPlan (scans ! m) p [flip_cond c], ?st2)"
        using False left j m(5) n(2) by (simp add: join_step_def join_plan_def Let_def)
      moreover have "tree_inv scans (JoinPlan (scans ! m) p [flip_cond c], ?st2)"
        using inv left m(1,4) lm sc new_leaf [OF s sc m(1) nm] by (auto simp: tree_inv_def)
      ultimately show ?thesis using lm n(1) by simp
    qed
  qed
qed

lemma join_steps_ok:
  assumes "scans_of ts scans" "tree_inv scans x" "\<forall>c\<in>set cs. between (set ts) c"
  shows "\<exists>y. join_steps scans cs x = Inr y \<and> tree_inv scans y \<and> norm_joins (fst y) = norm_joins (fst x) + image_mset norm_cond (mset cs)"
  using assms(2,3)
proof (induction cs arbitrary: x)
  case (Cons c cs)
  obtain p st where x: "x = (p, st)" by (cases x)
  obtain y where y: "join_step scans c x = Inr y" "tree_inv scans y" "norm_joins (fst y) = add_mset (norm_cond c) (norm_joins (fst x))"
    using join_step_ok [OF assms(1), of p st c] Cons.prems x by auto
  then show ?case using Cons.IH [OF y(2)] Cons.prems(2) by auto
qed simp

lemma join_rest_ok:
  assumes "scans_of ts scans" "tree_inv scans (p, st)"
  shows "placed (join_rest scans (p, st)) \<and> mset (plan_leaves (join_rest scans (p, st))) = mset scans \<and> plan_joins (join_rest scans (p, st)) = plan_joins p"
proof -
  let ?I = "js_scanned st" and ?f = "\<lambda>i q. if i \<in> js_scanned st then q else JoinPlan (scans ! i) q []"
  have sc: "list_all is_scan_plan scans" and I: "?I \<subseteq> {..<length scans}" and pl: "placed p" "mset (plan_leaves p) = image_mset ((!) scans) (mset_set ?I)"
    using assms by (auto simp: scans_of_def tree_inv_def)
  have step: "k \<le> length scans \<Longrightarrow> placed (fold ?f [0..<k] p) \<and> plan_joins (fold ?f [0..<k] p) = plan_joins p \<and>
    mset (plan_leaves (fold ?f [0..<k] p)) = mset (plan_leaves p) + image_mset ((!) scans) (mset_set ({..<k} - ?I))" for k
  proof (induction k)
    case (Suc k)
    have l: "plan_leaves (scans ! k) = [scans ! k] \<and> placed (scans ! k) \<and> plan_joins (scans ! k) = []"
      using is_scan_leaf sc Suc.prems by (simp add: list_all_length)
    have "{..<Suc k} - ?I = (if k \<in> ?I then {..<k} - ?I else insert k ({..<k} - ?I))" by (auto simp: less_Suc_eq)
    then show ?case using Suc l by simp
  qed (use pl(1) in simp)
  have part: "mset_set ?I + mset_set ({..<length scans} - ?I) = mset_set {..<length scans}"
    using I finite_subset [OF I] by (subst mset_set_Union [symmetric]) (auto simp: Un_absorb1)
  have "mset scans = image_mset ((!) scans) (mset_set {..<length scans})"
    by (metis map_nth mset_map mset_upt lessThan_atLeast0)
  then show ?thesis using step [of "length scans"] pl(2) part by (simp add: join_rest_def flip: image_mset_union)
qed

text \<open>The conditions on one table.\<close>

definition on_tab :: "string \<Rightarrow> condition \<Rightarrow> bool" where
  "on_tab n c \<longleftrightarrow> lhs_tab c = n \<and> cd_rhs_type c \<noteq> RHS_COL \<and> rhs_tab c \<noteq> n"

fun leaf_conds :: "plan \<Rightarrow> pcond list" where
  "leaf_conds (ScanPlan tag n cs ixns) = cs"
| "leaf_conds p = []"

lemma scan_plan_ok:
  assumes "is_table db n"
  obtains p where "scan_plan db n cs = Inr p" "is_scan_plan p" "plan_tab p = n" "leaf_conds p = cs"
proof -
  obtain tab where "get_table db n = Inr tab" using assms by (auto simp: is_table_def get_table_def split: option.splits)
  then obtain o' where "get_index_cols db n cs = Inr o'" by (auto simp: get_index_cols_def)
  then show ?thesis by (cases o') (auto simp: scan_plan_def intro!: that)
qed

lemma scan_plans_ok:
  assumes "\<forall>n\<in>set ts. is_table db n" "distinct ts" "\<forall>c\<in>set cs. between T (fst c) \<or> (\<exists>n\<in>set ts. on_tab n (fst c))"
  shows "\<exists>scans. scan_plans db ts cs = Inr (scans, filter (between T \<circ> fst) cs) \<and> list_all is_scan_plan scans \<and>
    map (\<lambda>p. (plan_tab p, leaf_conds p)) scans = map (\<lambda>n. (n, filter (on_tab n \<circ> fst) cs)) ts"
  using assms
proof (induction ts arbitrary: cs)
  case Nil
  then have "filter (between T \<circ> fst) cs = cs" by (auto simp: filter_id_conv)
  then show ?case by (simp add: comp_def)
next
  case (Cons n ts)
  have pop: "pops n (fst c) \<longleftrightarrow> on_tab n (fst c)" "\<not> (between T (fst c) \<and> on_tab m (fst c))" if "c \<in> set cs" for c m
  proof -
    have "between T (fst c) \<or> (\<exists>n\<in>set (n # ts). on_tab n (fst c))" using Cons.prems(3) that by blast
    then show "pops n (fst c) \<longleftrightarrow> on_tab n (fst c)" by (auto simp: pops_def between_def on_tab_def)
    show "\<not> (between T (fst c) \<and> on_tab m (fst c))" by (simp add: between_def on_tab_def)
  qed
  have p1: "filter (\<lambda>c. pops n (fst c)) cs = filter (on_tab n \<circ> fst) cs" using pop(1) by (intro filter_cong) auto
  let ?rest = "filter (\<lambda>c. \<not> pops n (fst c)) cs"
  obtain p where p: "scan_plan db n (filter (on_tab n \<circ> fst) cs) = Inr p" "is_scan_plan p" "plan_tab p = n" "leaf_conds p = filter (on_tab n \<circ> fst) cs"
    using Cons.prems(1) scan_plan_ok [of db n "filter (on_tab n \<circ> fst) cs"] by auto
  have rest: "\<forall>c\<in>set ?rest. between T (fst c) \<or> (\<exists>n\<in>set ts. on_tab n (fst c))" using Cons.prems(3) pop(1) by auto
  obtain scans where s: "scan_plans db ts ?rest = Inr (scans, filter (between T \<circ> fst) ?rest)" "list_all is_scan_plan scans"
    "map (\<lambda>p. (plan_tab p, leaf_conds p)) scans = map (\<lambda>m. (m, filter (on_tab m \<circ> fst) ?rest)) ts"
    using Cons.IH [OF _ _ rest] Cons.prems(1,2) by auto
  have b: "filter (between T \<circ> fst) ?rest = filter (between T \<circ> fst) cs" unfolding filter_filter using pop by (intro filter_cong) auto
  have m: "filter (on_tab m \<circ> fst) ?rest = filter (on_tab m \<circ> fst) cs" if "m \<in> set ts" for m
    unfolding filter_filter using pop(1) that Cons.prems(2) by (intro filter_cong) (auto simp: on_tab_def)
  have "scan_plans db (n # ts) cs = Inr (p # scans, filter (between T \<circ> fst) cs)" using s(1) b p(1) p1 by (simp add: pop_conds_def)
  moreover have "map (\<lambda>m. (m, filter (on_tab m \<circ> fst) ?rest)) ts = map (\<lambda>m. (m, filter (on_tab m \<circ> fst) cs)) ts" using m by simp
  ultimately show ?case using s(2,3) p(2-4) by (intro exI [of _ "p # scans"]) (simp add: comp_def)
qed

lemma placed_scan: "is_scan_plan p \<Longrightarrow> tree_inv (p # scans) (p, \<lparr>js_scanned = {0}, js_joined = ns\<rparr>) \<longleftrightarrow>
    (\<forall>n. n \<noteq> [] \<longrightarrow> (n \<in> set ns \<longleftrightarrow> n = plan_tab p))"
  using is_scan_leaf [of p] by (auto simp: tree_inv_def)

lemma join_rest_joined: "join_rest scans (p, st\<lparr>js_joined := ns\<rparr>) = join_rest scans (p, st)"
  by (simp add: join_rest_def)

lemma make_one_rel_complete:
  assumes "distinct ts" and "ts \<noteq> []" and "[] \<notin> set ts" and "\<forall>n\<in>set ts. is_table db n" and "nl \<or> sm"
    and "\<forall>c\<in>set cs. between (set ts) (fst c) \<or> (\<exists>n\<in>set ts. on_tab n (fst c))" and "\<forall>c\<in>set ons. between (set ts) c"
  shows "\<exists>p. make_one_rel nl sm db ts cs ons = Inr p \<and> placed p \<and>
    mset (map (\<lambda>q. (plan_tab q, leaf_conds q)) (plan_leaves p)) = mset (map (\<lambda>n. (n, filter (on_tab n \<circ> fst) cs)) ts) \<and>
    image_mset norm_cond (mset (plan_joins p)) = image_mset norm_cond (mset (filter (between (set ts)) (map fst cs) @ ons))"
proof -
  let ?rest = "filter (between (set ts) \<circ> fst) cs"
  let ?jc = "map fst ?rest @ ons"
  obtain scans where s: "scan_plans db ts cs = Inr (scans, ?rest)" "list_all is_scan_plan scans"
    "map (\<lambda>p. (plan_tab p, leaf_conds p)) scans = map (\<lambda>n. (n, filter (on_tab n \<circ> fst) cs)) ts"
    using scan_plans_ok [OF assms(4,1,6)] by blast
  have tabs: "map plan_tab scans = ts" using arg_cong [OF s(3), of "map fst"] by (simp add: comp_def)
  have so: "scans_of ts scans" using tabs s(2) assms(1,3) by (simp add: scans_of_def)
  have len: "length scans = length ts" using tabs by auto
  have jc: "\<forall>c\<in>set ?jc. between (set ts) c" using assms(7) by auto
  have sel: "map fst ?rest = filter (between (set ts)) (map fst cs)" by (simp add: filter_map)
  have conc: "placed p \<and> mset (plan_leaves p) = mset scans \<and> norm_joins p = image_mset norm_cond (mset ?jc) \<Longrightarrow> make_one_rel nl sm db ts cs ons = Inr p \<Longrightarrow> ?thesis" for p
  proof -
    assume p: "placed p \<and> mset (plan_leaves p) = mset scans \<and> norm_joins p = image_mset norm_cond (mset ?jc)" and m: "make_one_rel nl sm db ts cs ons = Inr p"
    have "mset (map (\<lambda>q. (plan_tab q, leaf_conds q)) (plan_leaves p)) = mset (map (\<lambda>q. (plan_tab q, leaf_conds q)) scans)" using p by (simp only: mset_map)
    then show ?thesis using p m s(3) sel by (intro exI [of _ p]) simp
  qed
  obtain p0 ps where ps: "scans = p0 # ps" using len assms(2) by (cases scans) auto
  have p0: "is_scan_plan p0" using s(2) ps by simp
  show ?thesis
  proof (cases "length ts = 1")
    case True
    then have one: "scans = [p0]" using ps len by (cases ps) auto
    have "set ts = {plan_tab p0}" using tabs one by auto
    then have "\<not> between (set ts) c" for c by (auto simp: between_def)
    then have "?jc = []" using jc by (metis list.set_intros(1) neq_Nil_conv)
    then have "placed p0 \<and> mset (plan_leaves p0) = mset scans \<and> norm_joins p0 = image_mset norm_cond (mset ?jc)" using one is_scan_leaf [OF p0] by simp
    moreover have "make_one_rel nl sm db ts cs ons = Inr p0" using s(1) True one by (simp add: make_one_rel_def)
    ultimately show ?thesis by (rule conc)
  next
    case False
    show ?thesis
    proof (cases ?jc)
      case Nil
      let ?st = "\<lparr>js_scanned = {0}, js_joined = [plan_tab p0]\<rparr>"
      have "tree_inv scans (p0, ?st)" using placed_scan [OF p0, of ps "[plan_tab p0]"] ps by simp
      note r = join_rest_ok [OF so this]
      have "make_one_rel nl sm db ts cs ons = Inr (join_rest scans (p0, ?st))"
        using s(1) False Nil ps join_rest_joined [of scans p0 "[]" ?st] by (simp add: make_one_rel_def)
      then show ?thesis using r Nil is_scan_leaf [OF p0] by (intro conc) auto
    next
      case (Cons c cs')
      obtain x where x: "first_join nl sm scans c \<lparr>js_scanned = {}, js_joined = replicate (length ts) []\<rparr> = Inr x" "tree_inv scans x" "norm_joins (fst x) = {#norm_cond c#}"
        using first_join_ok [OF so _ assms(5), of c "length ts"] jc Cons by auto
      obtain y where y: "join_steps scans cs' x = Inr y" "tree_inv scans y" "norm_joins (fst y) = norm_joins (fst x) + image_mset norm_cond (mset cs')"
        using join_steps_ok [OF so x(2), of cs'] jc Cons by auto
      obtain p st where p: "y = (p, st)" by (cases y)
      have r: "placed (join_rest scans y) \<and> mset (plan_leaves (join_rest scans y)) = mset scans \<and> plan_joins (join_rest scans y) = plan_joins p"
        using join_rest_ok [OF so, of p st] y(2) p by simp
      have "make_one_rel nl sm db ts cs ons = Inr (join_rest scans y)"
        using s(1) False Cons x(1) y(1) by (simp add: make_one_rel_def)
      then show ?thesis using r y(3) x(3) p Cons by (intro conc) auto
    qed
  qed
qed

text \<open>
  C21. The planner builds a complete plan of a query over different tables of the catalogue whose
  conditions compare a column of one table with a value, a set or a subquery, or columns of two different
  tables, and whose ON conditions compare columns of two different tables: it scans every table once, the scan has exactly the
  conditions on its table, in their order, every condition between tables is in exactly one join, as
  it was or turned round, and it is in a join that has the table of the left column on its left
  and the other on its right, where its columns are found.
\<close>

theorem planner_complete:
  assumes "distinct ts" and "ts \<noteq> []" and "[] \<notin> set ts" and "\<forall>n\<in>set ts. is_table db n" and "nl \<or> sm"
    and "\<forall>c\<in>set cs. between (set ts) (fst c) \<or> (\<exists>n\<in>set ts. on_tab n (fst c))" and "\<forall>c\<in>set ons. between (set ts) c"
  shows "\<exists>p. make_one_rel nl sm db ts cs ons = Inr p \<and> placed p \<and>
    mset (map (\<lambda>q. (plan_tab q, leaf_conds q)) (plan_leaves p)) = mset (map (\<lambda>n. (n, filter (on_tab n \<circ> fst) cs)) ts) \<and>
    image_mset norm_cond (mset (plan_joins p)) = image_mset norm_cond (mset (filter (between (set ts)) (map fst cs) @ ons))"
  by (rule make_one_rel_complete [OF assms])

theorem planner_complete_witness:
  "\<exists>p db c. db = \<lparr>db_name = ''d'', db_tabs = [(''r'', \<lparr>tm_name = ''r'', tm_cols = [demo_col ''a'' 0], tm_indexes = []\<rparr>), (''t'', \<lparr>tm_name = ''t'', tm_cols = [demo_col ''b'' 0], tm_indexes = []\<rparr>)]\<rparr> \<and>
     lhs_tab c = ''t'' \<and> rhs_tab c = ''r'' \<and> make_one_rel True False db [''r'', ''t''] [(c, None)] [] = Inr p \<and> placed p \<and> image_mset norm_cond (mset (plan_joins p)) = {#norm_cond c#}"
proof -
  let ?db = "\<lparr>db_name = ''d'', db_tabs = [(''r'', \<lparr>tm_name = ''r'', tm_cols = [demo_col ''a'' 0], tm_indexes = []\<rparr>), (''t'', \<lparr>tm_name = ''t'', tm_cols = [demo_col ''b'' 0], tm_indexes = []\<rparr>)]\<rparr>"
    and ?c = "(sample_cond (demo_col ''b'' 0) OP_LT fresh_value)\<lparr>cd_lhs_col := \<lparr>tc_tab_name = ''t'', tc_col_name = ''b'', tc_alias = [], tc_aggr = NO_AGGR\<rparr>,
      cd_rhs_col := \<lparr>tc_tab_name = ''r'', tc_col_name = ''a'', tc_alias = [], tc_aggr = NO_AGGR\<rparr>, cd_rhs_type := RHS_COL\<rparr>"
  have c: "between (set [''r'', ''t'']) ?c" by (simp add: between_def sample_cond_def)
  obtain p where "make_one_rel True False ?db [''r'', ''t''] [(?c, None)] [] = Inr p" "placed p" "image_mset norm_cond (mset (plan_joins p)) = {#norm_cond ?c#}"
    using planner_complete [of "[''r'', ''t'']" ?db True False "[(?c, None)]" "[]"] c by (auto simp: is_table_def)
  moreover have "lhs_tab ?c = ''t''" "rhs_tab ?c = ''r''" by simp_all
  ultimately show ?thesis by blast
qed

text \<open>
  A condition between two columns of the same table is given to the scan of the first table of the
  query, whatever that is: when it is another table, the query fails with \<^verbatim>\<open>ColumnNotFoundError\<close>
  although the columns exist.
\<close>

theorem same_table_condition_fails:
  assumes "get_table (sys_meta s) n = Inr tab" and "tm_indexes tab = []" and "list_all (\<lambda>m. cm_tab_name m = n) (tm_cols tab)" and "fhs (sys_db s) n \<noteq> None"
    and "cd_rhs_type c = RHS_COL" and "lhs_tab c = rhs_tab c" and "lhs_tab c \<noteq> n" and "\<not> cd_is_rhs_select c"
  shows "pop_conds [(c, None)] n = ([(c, None)], []) \<and> scan_plan (sys_meta s) n [(c, None)] = Inr (ScanPlan T_SeqScan n [(c, None)] []) \<and>
    convert_plan_executor (Suc k) j key0 t (ScanPlan T_SeqScan n [(c, None)] []) s =
      Some (Inl (TmError (ColumnNotFoundError (lhs_tab c @ ''.'' @ tc_col_name (cd_lhs_col c)))), s)"
proof -
  have none: "list_all (\<lambda>x. \<not> P x) xs \<Longrightarrow> find_pos P xs = None" for P and xs :: "col_meta list" by (induction xs) auto
  have "list_all (\<lambda>m. \<not> (cm_tab_name m = lhs_tab c \<and> cm_name m = tc_col_name (cd_lhs_col c))) (tm_cols tab)"
    using assms(3,7) by (auto simp: list_all_iff)
  from none [OF this] have "ex_get_col (tm_cols tab) (cd_lhs_col c) False = Inl (ColumnNotFoundError (lhs_tab c @ ''.'' @ tc_col_name (cd_lhs_col c)))"
    by (simp add: ex_get_col_def)
  moreover have "modify_and_check_index tab [] = None" using assms(2) by (simp add: modify_and_check_index_def)
  ultimately show ?thesis
    using assms by (auto simp: pop_conds_def pops_def scan_plan_def get_index_cols_def new_seq_scan_def open_tab_def tm_bind_def tm_lift_def tm_ret_def
        execute_sub_query_def match_cond_def split: option.splits)
qed

theorem same_table_condition_fails_witness:
  "\<exists>c s. lhs_tab c = ''u'' \<and> rhs_tab c = ''u'' \<and> s = txn_sys txn_db [] \<and>
     convert_plan_executor 1 0 [] 1 (ScanPlan T_SeqScan ''t'' [(c, None)] []) s = Some (Inl (TmError (ColumnNotFoundError ''u.x'')), s)"
proof -
  let ?c = "(sample_cond (demo_col ''b'' 0) OP_LT fresh_value)\<lparr>cd_lhs_col := \<lparr>tc_tab_name = ''u'', tc_col_name = ''x'', tc_alias = [], tc_aggr = NO_AGGR\<rparr>,
      cd_rhs_col := \<lparr>tc_tab_name = ''u'', tc_col_name = ''y'', tc_alias = [], tc_aggr = NO_AGGR\<rparr>, cd_rhs_type := RHS_COL\<rparr>" and ?s = "txn_sys txn_db []"
  have s: "get_table (sys_meta ?s) ''t'' = Inr txn_tab" "tm_indexes txn_tab = []" "list_all (\<lambda>m. cm_tab_name m = ''t'') (tm_cols txn_tab)" "fhs (sys_db ?s) ''t'' \<noteq> None"
    by (simp_all add: txn_sys_def get_table_def txn_tab_def demo_col_def txn_db_def)
  have "convert_plan_executor (Suc 0) 0 [] 1 (ScanPlan T_SeqScan ''t'' [(?c, None)] []) ?s = Some (Inl (TmError (ColumnNotFoundError ''u.x'')), ?s)"
    using same_table_condition_fails [OF s, of ?c 0 0 "[]" 1] by (simp add: sample_cond_def)
  moreover have "lhs_tab ?c = ''u''" "rhs_tab ?c = ''u''" by simp_all
  ultimately show ?thesis unfolding One_nat_def by blast
qed

end
