(* ===== verification/Analyze.thy ===== *)
theory Analyze
  imports Planner
begin

text \<open>
  Semantic analysis (\<^verbatim>\<open>src/src/analyze/analyze.cpp\<close>) of the syntax trees of \<^verbatim>\<open>src/src/parser/ast.h\<close>, and
  the planning of a query with its subqueries (\<^verbatim>\<open>src/src/optimizer/optimizer.h\<close>).

  \<open>j\<close> is what the unassigned \<^verbatim>\<open>str_len\<close> of a literal happens to be. \<^verbatim>\<open>do_analyze\<close> moves the tables out of
  the tree: a second analysis of the same subquery finds none, which the flag \<open>mv\<close> (moved) tells. ORDER
  BY is left out, with the sort plan.
\<close>

section \<open>Syntax trees\<close>

datatype sv_value = IntLit int | FloatLit int | StringLit bytes | BoolLit bool

datatype sv_comp_op = SV_OP_EQ | SV_OP_NE | SV_OP_LT | SV_OP_GT | SV_OP_LE | SV_OP_GE | SV_OP_IN

datatype ast_rhs = RhsValue sv_value | RhsCol tab_col | SubQueryStmt select_stmt | ValueList "sv_value list"
  and binary_expr = BinaryExpr tab_col sv_comp_op ast_rhs
  and select_stmt = SelectStmt "tab_col list" "string list" "binary_expr list" "binary_expr list" "(tab_col list \<times> binary_expr list) option"

text \<open>\<^verbatim>\<open>Query\<close>, its conditions with the queries of their subqueries.\<close>

datatype aquery = AQuery
  (aq_tables: "string list") (aq_conds: "(condition \<times> aquery option) list") (aq_on: "(condition \<times> aquery option) list")
  (aq_cols: "tab_col list") (aq_has_aggr: bool) (aq_group: "tab_col list") (aq_having: "(condition \<times> aquery option) list")

type_synonym acond = "condition \<times> aquery option"

section \<open>Columns and types\<close>

fun convert_sv_value :: "int \<Rightarrow> sv_value \<Rightarrow> rmdb_error + sql_value" where
  "convert_sv_value j (IntLit i) = Inr (set_int i (fresh_value\<lparr>v_str_len := j\<rparr>))"
| "convert_sv_value j (FloatLit w) = Inr (set_float w (fresh_value\<lparr>v_str_len := j\<rparr>))"
| "convert_sv_value j (StringLit s) = Inr (set_str s (fresh_value\<lparr>v_str_len := j\<rparr>))"
| "convert_sv_value j (BoolLit b) = Inl (InternalError ''Unexpected sv value type'')"

fun convert_sv_comp_op :: "sv_comp_op \<Rightarrow> comp_op" where
  "convert_sv_comp_op SV_OP_EQ = OP_EQ"
| "convert_sv_comp_op SV_OP_NE = OP_NE"
| "convert_sv_comp_op SV_OP_LT = OP_LT"
| "convert_sv_comp_op SV_OP_GT = OP_GT"
| "convert_sv_comp_op SV_OP_LE = OP_LE"
| "convert_sv_comp_op SV_OP_GE = OP_GE"
| "convert_sv_comp_op SV_OP_IN = OP_IN"

definition value_type_match :: "col_type \<Rightarrow> col_type \<Rightarrow> bool" where
  "value_type_match a b \<longleftrightarrow> a = b \<or> a = TYPE_INT \<and> b = TYPE_FLOAT \<or> a = TYPE_FLOAT \<and> b = TYPE_INT"

text \<open>The table of an unqualified column.\<close>

fun find_tab :: "string \<Rightarrow> col_meta list \<Rightarrow> string \<Rightarrow> rmdb_error + string" where
  "find_tab c [] n = Inr n"
| "find_tab c (m # ms) n =
     (if cm_name m = c then if n \<noteq> [] then Inl (AmbiguousColumnError c) else find_tab c ms (cm_tab_name m)
      else find_tab c ms n)"

definition check_column :: "col_meta list \<Rightarrow> tab_col \<Rightarrow> rmdb_error + tab_col" where
  "check_column all c =
     (if tc_tab_name c \<noteq> [] then Inr c
      else case find_tab (tc_col_name c) all [] of
             Inl e \<Rightarrow> Inl e
           | Inr n \<Rightarrow>
               if n \<noteq> [] then Inr (c\<lparr>tc_tab_name := n\<rparr>)
               else if is_count_star c then Inr c else Inl (ColumnNotFoundError (tc_col_name c)))"

definition get_all_cols :: "db_meta \<Rightarrow> string list \<Rightarrow> rmdb_error + col_meta list" where
  "get_all_cols db ts = map_sum id concat (map_err (\<lambda>n. map_sum id tm_cols (get_table db n)) ts)"

definition catalogue_col :: "db_meta \<Rightarrow> tab_col \<Rightarrow> rmdb_error + col_meta" where
  "catalogue_col db c = (case get_table db (tc_tab_name c) of Inl e \<Rightarrow> Inl e | Inr tab \<Rightarrow> get_col tab (tc_col_name c))"

section \<open>Conditions\<close>

text \<open>A new condition: empty names; its other members are assigned before they are read.\<close>

definition new_cond :: condition where
  "new_cond = (let c = \<lparr>tc_tab_name = [], tc_col_name = [], tc_alias = [], tc_aggr = NO_AGGR\<rparr>; m = star_col c in
     \<lparr>cd_lhs_col = c, cd_op = OP_EQ, cd_is_rhs_val = False, cd_is_rhs_select = False, cd_rhs_col = c, cd_rhs_val = fresh_value,
      cd_rhs_set = [], cd_rhs_type = RHS_VALUE, cd_lhs_match = m, cd_rhs_match = m\<rparr>)"

definition type_check :: "col_type \<Rightarrow> col_type \<Rightarrow> 'a \<Rightarrow> rmdb_error + 'a" where
  "type_check a b x = (if value_type_match a b then Inr x else Inl (IncompatibleTypeError (coltype2str a) (coltype2str b)))"

fun check_count :: "db_meta \<Rightarrow> condition \<Rightarrow> rmdb_error + condition" where
  "check_count db c =
     (if cd_is_rhs_val c then
        (case init_raw 4 (cd_rhs_val c) of
           Inl e \<Rightarrow> Inl e
         | Inr v \<Rightarrow> type_check TYPE_INT (v_type v) (c\<lparr>cd_rhs_val := v\<rparr>))
      else case catalogue_col db (cd_rhs_col c) of
             Inl e \<Rightarrow> Inl e
           | Inr m \<Rightarrow> type_check TYPE_INT (cm_type m) c)"

fun check_plain :: "db_meta \<Rightarrow> acond \<Rightarrow> rmdb_error + condition" where
  "check_plain db (c, q) =
     (case catalogue_col db (cd_lhs_col c) of
        Inl e \<Rightarrow> Inl e
      | Inr l \<Rightarrow>
          (case cd_rhs_type c of
             RHS_VALUE \<Rightarrow>
               (case init_raw (cm_len l) (cd_rhs_val c) of
                  Inl e \<Rightarrow> Inl e
                | Inr v \<Rightarrow> type_check (cm_type l) (v_type v) (c\<lparr>cd_rhs_val := v\<rparr>))
           | RHS_COL \<Rightarrow>
               (case catalogue_col db (cd_rhs_col c) of
                  Inl e \<Rightarrow> Inl e
                | Inr r \<Rightarrow> type_check (cm_type l) (cm_type r) c)
           | RHS_SELECT \<Rightarrow>
               if aq_group (the q) \<noteq> [] \<or> length (aq_cols (the q)) > 1 then Inl (AmbiguousColumnError ''subquery must return only one column'')
               else Inr c
           | RHS_SET \<Rightarrow> Inr c))"

definition check_cond :: "db_meta \<Rightarrow> col_meta list \<Rightarrow> bool \<Rightarrow> acond \<Rightarrow> rmdb_error + acond" where
  "check_cond db all having = (\<lambda>(c, q).
     if \<not> having \<and> tc_aggr (cd_lhs_col c) \<noteq> NO_AGGR \<or> cd_rhs_type c = RHS_COL \<and> tc_aggr (cd_rhs_col c) \<noteq> NO_AGGR then
       Inl (AmbiguousColumnError ''aggregate functions are not allowed in WHERE clause'')
     else case check_column all (cd_lhs_col c) of
       Inl e \<Rightarrow> Inl e
     | Inr l \<Rightarrow>
         (case (if cd_rhs_type c = RHS_COL then check_column all (cd_rhs_col c) else Inr (cd_rhs_col c)) of
            Inl e \<Rightarrow> Inl e
          | Inr r \<Rightarrow>
              let c = c\<lparr>cd_lhs_col := l, cd_rhs_col := r\<rparr>
              in map_sum id (\<lambda>c. (c, q)) (if is_count_star l then check_count db c else check_plain db (c, q))))"

definition check_clause :: "db_meta \<Rightarrow> string list \<Rightarrow> acond list \<Rightarrow> bool \<Rightarrow> rmdb_error + acond list" where
  "check_clause db ts conds having =
     (case get_all_cols db ts of Inl e \<Rightarrow> Inl e | Inr all \<Rightarrow> map_err (check_cond db all having) conds)"

fun insert_values :: "int \<Rightarrow> sv_value list \<Rightarrow> sql_value list \<Rightarrow> rmdb_error + sql_value list" where
  "insert_values j [] s = Inr s"
| "insert_values j (v # vs) s =
     (case convert_sv_value j v of
        Inl e \<Rightarrow> Inl e
      | Inr x \<Rightarrow> (case vset_insert x s of Inl e \<Rightarrow> Inl e | Inr s \<Rightarrow> insert_values j vs s))"

section \<open>Queries\<close>

text \<open>The test of the selected columns against the groups.\<close>

definition select_list_ok :: "tab_col list \<Rightarrow> tab_col list option \<Rightarrow> bool \<times> string" where
  "select_list_ok cols grp =
     (if cols = [] then (True, [])
      else if grp = Some [] then (False, ''must have group by clause when using aggregate function'')
      else if grp = None \<and> list_ex (\<lambda>c. tc_aggr c \<noteq> NO_AGGR) cols \<and> list_ex (\<lambda>c. tc_aggr c = NO_AGGR) cols
           then (False, ''SELECT list contains both an aggregated and a non-aggregated column without GROUP BY clause'')
      else (True, []))"

definition in_group :: "tab_col list \<Rightarrow> tab_col \<Rightarrow> bool" where
  "in_group grp c \<longleftrightarrow> tc_aggr c \<noteq> NO_AGGR \<or> list_ex (\<lambda>g. tc_col_name c = tc_col_name g \<and> tc_tab_name c = tc_tab_name g) grp"

definition star_cols :: "col_meta list \<Rightarrow> tab_col list" where
  "star_cols all = map (\<lambda>m. \<lparr>tc_tab_name = cm_tab_name m, tc_col_name = cm_name m, tc_alias = cm_alias m, tc_aggr = NO_AGGR\<rparr>) all"

definition err_bind :: "rmdb_error + 'a \<Rightarrow> ('a \<Rightarrow> rmdb_error + 'b) \<Rightarrow> rmdb_error + 'b" where
  "err_bind r f = (case r of Inl e \<Rightarrow> Inl e | Inr x \<Rightarrow> f x)"

text \<open>
  The statement from its conditions as \<^verbatim>\<open>get_clause\<close> gives them. The conditions of HAVING are processed
  once for each of them, from the second time on with the tables of subqueries moved out (\<open>h2\<close>).
\<close>

definition analyze_having :: "db_meta \<Rightarrow> string list \<Rightarrow> nat \<Rightarrow> rmdb_error + acond list \<Rightarrow> rmdb_error + acond list \<Rightarrow> rmdb_error + acond list" where
  "analyze_having db ts k h1 h2 =
     (if k = 0 then Inr []
      else err_bind h1 (\<lambda>h. err_bind (check_clause db ts h True) (\<lambda>h.
        if k = 1 then Inr h else err_bind h2 (\<lambda>h. check_clause db ts h True))))"

definition analyze_group :: "col_meta list \<Rightarrow> tab_col list \<Rightarrow> tab_col list \<Rightarrow> rmdb_error + tab_col list" where
  "analyze_group all sel grp =
     err_bind (map_err (check_column all) grp) (\<lambda>gs.
       if list_all (in_group gs) sel then Inr gs
       else Inl (AmbiguousColumnError ''SELECT list contains non-aggregated column that is not in GROUP BY clause''))"

definition analyze_select :: "db_meta \<Rightarrow> string list \<Rightarrow> tab_col list \<Rightarrow> (tab_col list \<times> (rmdb_error + acond list)) option \<Rightarrow>
    rmdb_error + acond list \<Rightarrow> rmdb_error + acond list \<Rightarrow> rmdb_error + aquery" where
  "analyze_select db ts cols grp ons conds =
     (case find (\<lambda>n. \<not> is_table db n) ts of
        Some n \<Rightarrow> Inl (TableNotFoundError n)
      | None \<Rightarrow>
          if \<not> fst (select_list_ok cols (map_option fst grp)) then Inl (AmbiguousColumnError (snd (select_list_ok cols (map_option fst grp))))
          else err_bind (get_all_cols db ts) (\<lambda>all.
               err_bind (if cols = [] then Inr (star_cols all) else map_err (check_column all) cols) (\<lambda>sel.
               err_bind (case grp of None \<Rightarrow> Inr [] | Some (g, h) \<Rightarrow> h) (\<lambda>having.
               err_bind (case grp of None \<Rightarrow> Inr [] | Some (g, h) \<Rightarrow> analyze_group all sel g) (\<lambda>gs.
               err_bind (err_bind ons (\<lambda>cs. check_clause db ts cs False)) (\<lambda>ons.
               err_bind (err_bind conds (\<lambda>cs. check_clause db ts cs False)) (\<lambda>conds.
                 Inr (AQuery ts conds ons sel (list_ex (\<lambda>c. tc_aggr c \<noteq> NO_AGGR) cols) gs having))))))))"

fun an_rhs :: "int \<Rightarrow> db_meta \<Rightarrow> bool \<Rightarrow> ast_rhs \<Rightarrow> condition \<Rightarrow> rmdb_error + acond"
  and an_cond :: "int \<Rightarrow> db_meta \<Rightarrow> bool \<Rightarrow> binary_expr \<Rightarrow> rmdb_error + acond"
  and get_clause :: "int \<Rightarrow> db_meta \<Rightarrow> bool \<Rightarrow> binary_expr list \<Rightarrow> rmdb_error + acond list"
  and do_analyze :: "int \<Rightarrow> db_meta \<Rightarrow> bool \<Rightarrow> select_stmt \<Rightarrow> rmdb_error + aquery" where
  "an_rhs j db mv (RhsValue v) c =
     map_sum id (\<lambda>v. (c\<lparr>cd_is_rhs_val := True, cd_is_rhs_select := False, cd_rhs_type := RHS_VALUE, cd_rhs_val := v\<rparr>, None)) (convert_sv_value j v)"
| "an_rhs j db mv (RhsCol r) c =
     Inr (c\<lparr>cd_is_rhs_val := False, cd_is_rhs_select := False, cd_rhs_col := r, cd_rhs_type := RHS_COL\<rparr>, None)"
| "an_rhs j db mv (SubQueryStmt sub) c =
     map_sum id (\<lambda>q. (c\<lparr>cd_is_rhs_val := False, cd_is_rhs_select := True, cd_rhs_type := RHS_SELECT\<rparr>, Some q)) (do_analyze j db mv sub)"
| "an_rhs j db mv (ValueList vs) c =
     map_sum id (\<lambda>s. (c\<lparr>cd_is_rhs_val := False, cd_is_rhs_select := False, cd_rhs_set := s, cd_rhs_type := RHS_SET\<rparr>, None)) (insert_values j vs [])"
| "an_cond j db mv (BinaryExpr l p r) = an_rhs j db mv r (new_cond\<lparr>cd_lhs_col := l, cd_op := convert_sv_comp_op p\<rparr>)"
| "get_clause j db mv [] = Inr []"
| "get_clause j db mv (e # es) = (case an_cond j db mv e of Inl er \<Rightarrow> Inl er | Inr c \<Rightarrow> map_sum id ((#) c) (get_clause j db mv es))"
| "do_analyze j db mv (SelectStmt cols tabs ons conds None) =
     (let ts = (if mv then [] else tabs) in analyze_select db ts cols None (get_clause j db mv ons) (get_clause j db mv conds))"
| "do_analyze j db mv (SelectStmt cols tabs ons conds (Some (gcols, hconds))) =
     (let ts = (if mv then [] else tabs) in
      analyze_select db ts cols (Some (gcols, analyze_having db ts (length hconds) (get_clause j db mv hconds) (get_clause j db True hconds)))
        (get_clause j db mv ons) (get_clause j db mv conds))"

section \<open>Statements that change tables\<close>

datatype dml_stmt =
    InsertStmt string "sv_value list list"
  | DeleteStmt string "binary_expr list"
  | UpdateStmt string "(string \<times> sv_value) list" "binary_expr list"

definition analyze_where :: "int \<Rightarrow> db_meta \<Rightarrow> string \<Rightarrow> binary_expr list \<Rightarrow> rmdb_error + acond list" where
  "analyze_where j db n conds = err_bind (get_clause j db False conds) (\<lambda>cs. check_clause db [n] cs False)"

definition analyze_sets :: "int \<Rightarrow> string \<Rightarrow> (string \<times> sv_value) list \<Rightarrow> rmdb_error + set_clause list" where
  "analyze_sets j n = map_err (\<lambda>(c, v). map_sum id (\<lambda>x. \<lparr>sc_lhs = \<lparr>tc_tab_name = n, tc_col_name = c, tc_alias = [], tc_aggr = NO_AGGR\<rparr>, sc_rhs = x\<rparr>) (convert_sv_value j v))"

definition analyze_values :: "int \<Rightarrow> sv_value list list \<Rightarrow> rmdb_error + sql_value list list" where
  "analyze_values j = map_err (map_err (convert_sv_value j))"

section \<open>Planning with subqueries\<close>

text \<open>
  \<^verbatim>\<open>Optimizer::plan_query\<close> on a query: first the subqueries in WHERE and HAVING. The subqueries of ON get
  no plan, and the conditions of a join carry none.
\<close>

fun plan_query :: "bool \<Rightarrow> bool \<Rightarrow> db_meta \<Rightarrow> aquery \<Rightarrow> tm_error + plan"
  and plan_conds :: "bool \<Rightarrow> bool \<Rightarrow> db_meta \<Rightarrow> acond list \<Rightarrow> tm_error + pcond list"
  and plan_cond :: "bool \<Rightarrow> bool \<Rightarrow> db_meta \<Rightarrow> acond \<Rightarrow> tm_error + pcond" where
  "plan_query nl sm db (AQuery ts conds ons cols aggr grp having) =
     (case plan_conds nl sm db conds of
        Inl e \<Rightarrow> Inl e
      | Inr cs \<Rightarrow>
          (case plan_conds nl sm db having of
             Inl e \<Rightarrow> Inl e
           | Inr hs \<Rightarrow>
               generate_select_plan nl sm db \<lparr>qr_tables = ts, qr_conds = cs, qr_on_conds = map fst ons, qr_cols = cols,
                 qr_has_aggr = aggr, qr_group_cols = grp, qr_having = hs\<rparr>))"
| "plan_conds nl sm db [] = Inr []"
| "plan_conds nl sm db (c # cs) = (case plan_cond nl sm db c of Inl e \<Rightarrow> Inl e | Inr c \<Rightarrow> map_sum id ((#) c) (plan_conds nl sm db cs))"
| "plan_cond nl sm db (c, None) = Inr (c, None)"
| "plan_cond nl sm db (c, Some q) = map_sum id (\<lambda>p. (c, Some p)) (plan_query nl sm db q)"

section \<open>Unqualified columns\<close>

text \<open>Tables have names, and the columns of a table carry its name.\<close>

definition cat_ok :: "db_meta \<Rightarrow> bool" where
  "cat_ok db \<longleftrightarrow> list_all (\<lambda>(n, tab). n \<noteq> [] \<and> list_all (\<lambda>m. cm_tab_name m = n) (tm_cols tab)) (db_tabs db)"

lemma err_bind_Inr [simp]: "err_bind r f = Inr y \<longleftrightarrow> (\<exists>x. r = Inr x \<and> f x = Inr y)"
  by (auto simp: err_bind_def split: sum.splits)

lemma map_sum_Inr [simp]: "map_sum id f r = Inr y \<longleftrightarrow> (\<exists>x. r = Inr x \<and> y = f x)"
  by (cases r) auto

lemma map_err_Inr: "map_err f xs = Inr ys \<longleftrightarrow> list_all2 (\<lambda>x y. f x = Inr y) xs ys"
proof (induction xs arbitrary: ys)
  case (Cons x xs)
  then show ?case by (cases ys) (auto split: sum.splits)
qed auto

lemma map_err_all: "map_err f xs = Inr ys \<Longrightarrow> (\<And>x y. x \<in> set xs \<Longrightarrow> f x = Inr y \<Longrightarrow> P y) \<Longrightarrow> list_all P ys"
  unfolding map_err_Inr by (induction rule: list_all2_induct) auto

lemma get_table_cols: "cat_ok db \<Longrightarrow> get_table db n = Inr tab \<Longrightarrow> n \<noteq> [] \<and> list_all (\<lambda>m. cm_tab_name m = n) (tm_cols tab)"
  by (auto simp: cat_ok_def get_table_def list_all_iff split: option.splits dest!: map_of_SomeD)

text \<open>The columns a query can name without their table.\<close>

lemma get_all_cols_in:
  assumes "cat_ok db" and "get_all_cols db ts = Inr all" and "m \<in> set all"
  shows "cm_tab_name m \<in> set ts \<and> cm_tab_name m \<noteq> []"
proof -
  obtain css where css: "list_all2 (\<lambda>n cs. map_sum id tm_cols (get_table db n) = Inr cs) ts css" "all = concat css"
    using assms(2) by (auto simp: get_all_cols_def map_err_Inr)
  from css(1) have "\<forall>cs\<in>set css. \<forall>m\<in>set cs. cm_tab_name m \<in> set ts \<and> cm_tab_name m \<noteq> []"
    using get_table_cols [OF assms(1)] by (induction rule: list_all2_induct) (fastforce simp: list_all_iff)+
  then show ?thesis using assms(3) css(2) by auto
qed

lemma find_tab_found: "n \<noteq> [] \<Longrightarrow> find_tab c ms n = (if filter (\<lambda>m. cm_name m = c) ms = [] then Inr n else Inl (AmbiguousColumnError c))"
  by (induction ms) auto

lemma find_tab_search:
  "list_all (\<lambda>m. cm_tab_name m \<noteq> []) ms \<Longrightarrow> find_tab c ms [] =
     (case filter (\<lambda>m. cm_name m = c) ms of [] \<Rightarrow> Inr [] | [m] \<Rightarrow> Inr (cm_tab_name m) | _ \<Rightarrow> Inl (AmbiguousColumnError c))"
  by (induction ms) (auto simp: find_tab_found split: list.splits)

lemma check_column_cases:
  assumes "cat_ok db" and "get_all_cols db ts = Inr all" and "tc_tab_name c = []"
  shows "check_column all c =
    (case filter (\<lambda>m. cm_name m = tc_col_name c) all of
       [] \<Rightarrow> if is_count_star c then Inr c else Inl (ColumnNotFoundError (tc_col_name c))
     | [m] \<Rightarrow> Inr (c\<lparr>tc_tab_name := cm_tab_name m\<rparr>)
     | _ \<Rightarrow> Inl (AmbiguousColumnError (tc_col_name c)))"
    and "filter (\<lambda>m. cm_name m = tc_col_name c) all = [m] \<Longrightarrow> cm_tab_name m \<in> set ts"
proof -
  have ne: "list_all (\<lambda>m. cm_tab_name m \<noteq> []) all" using get_all_cols_in [OF assms(1,2)] by (simp add: list_all_iff)
  have m: "m \<in> set all" if "filter (\<lambda>m. cm_name m = tc_col_name c) all = [m]" for m
    using arg_cong [OF that, of set] by auto
  show "filter (\<lambda>m. cm_name m = tc_col_name c) all = [m] \<Longrightarrow> cm_tab_name m \<in> set ts"
    using get_all_cols_in [OF assms(1,2) m] by simp
  show "check_column all c =
    (case filter (\<lambda>m. cm_name m = tc_col_name c) all of
       [] \<Rightarrow> if is_count_star c then Inr c else Inl (ColumnNotFoundError (tc_col_name c))
     | [m] \<Rightarrow> Inr (c\<lparr>tc_tab_name := cm_tab_name m\<rparr>)
     | _ \<Rightarrow> Inl (AmbiguousColumnError (tc_col_name c)))"
    using assms(3) ne m find_tab_search [OF ne, of "tc_col_name c"]
    by (auto simp: check_column_def list_all_iff split: list.splits)
qed

text \<open>
  C40. A column written without its table is resolved against the columns of all tables of the statement: the only
  column of that name gives its table; two of them make the name ambiguous; without any the column does
  not exist, \<^verbatim>\<open>COUNT(*)\<close> apart, which stays without a table.
\<close>

theorem check_column_resolves:
  assumes "cat_ok db" and "get_all_cols db ts = Inr all" and "tc_tab_name c = []"
  shows "check_column all c =
    (case filter (\<lambda>m. cm_name m = tc_col_name c) all of
       [] \<Rightarrow> if is_count_star c then Inr c else Inl (ColumnNotFoundError (tc_col_name c))
     | [m] \<Rightarrow> Inr (c\<lparr>tc_tab_name := cm_tab_name m\<rparr>)
     | _ \<Rightarrow> Inl (AmbiguousColumnError (tc_col_name c)))"
  by (rule check_column_cases(1) [OF assms])

lemma check_column_in:
  assumes "cat_ok db" and "get_all_cols db ts = Inr all" and "check_column all c = Inr c'"
  shows "tc_tab_name c' = tc_tab_name c \<and> (tc_tab_name c \<noteq> [] \<or> is_count_star c) \<or> tc_tab_name c = [] \<and> tc_tab_name c' \<in> set ts"
proof (cases "tc_tab_name c = []")
  case True
  show ?thesis using assms(3) check_column_cases [OF assms(1,2) True] True by (auto split: list.splits if_splits)
next
  case False
  then show ?thesis using assms(3) by (auto simp: check_column_def)
qed

lemma check_column_keeps: "check_column all c = Inr c' \<Longrightarrow> \<exists>n. c' = c\<lparr>tc_tab_name := n\<rparr>"
  by (cases c) (auto simp: check_column_def split: sum.splits if_splits)

section \<open>Checked conditions\<close>

text \<open>
  What the executors need of a condition: its columns are in the catalogue, the types of both sides can be compared and a
  value has the bytes of the column; \<^verbatim>\<open>COUNT(*)\<close> counts as an INT column. Of a subquery the analysis checks that it has at most
  one column and no groups, not the type of that column; the values of an IN list are not checked.
\<close>

definition cond_typed :: "db_meta \<Rightarrow> acond \<Rightarrow> bool" where
  "cond_typed db = (\<lambda>(c, q).
     if is_count_star (cd_lhs_col c) then
       if cd_is_rhs_val c then value_type_match TYPE_INT (v_type (cd_rhs_val c)) \<and> map_option length (v_raw (cd_rhs_val c)) = Some 4
       else (case catalogue_col db (cd_rhs_col c) of Inl e \<Rightarrow> False | Inr r \<Rightarrow> value_type_match TYPE_INT (cm_type r))
     else (case catalogue_col db (cd_lhs_col c) of
        Inl e \<Rightarrow> False
      | Inr l \<Rightarrow>
          (case cd_rhs_type c of
             RHS_VALUE \<Rightarrow> value_type_match (cm_type l) (v_type (cd_rhs_val c)) \<and> map_option length (v_raw (cd_rhs_val c)) = Some (nat (cm_len l))
           | RHS_COL \<Rightarrow> (case catalogue_col db (cd_rhs_col c) of Inl e \<Rightarrow> False | Inr r \<Rightarrow> value_type_match (cm_type l) (cm_type r))
           | RHS_SELECT \<Rightarrow> length (aq_cols (the q)) \<le> 1 \<and> aq_group (the q) = []
           | RHS_SET \<Rightarrow> True)))"

lemma init_raw_len: "init_raw n v = Inr v' \<Longrightarrow> v_type v' = v_type v \<and> map_option length (v_raw v') = Some (nat n)"
  by (auto simp: init_raw_def split: col_type.splits if_splits)

lemma type_check_Inr [simp]: "type_check a b x = Inr y \<longleftrightarrow> value_type_match a b \<and> y = x"
  by (auto simp: type_check_def)

lemma catalogue_col_lhs [simp]: "catalogue_col db (cd_lhs_col (c\<lparr>cd_rhs_val := v\<rparr>)) = catalogue_col db (cd_lhs_col c)"
  by simp

lemma check_plain_typed: "check_plain db (c, q) = Inr c' \<Longrightarrow> \<not> is_count_star (cd_lhs_col c) \<Longrightarrow> cond_typed db (c', q)"
  by (auto simp: cond_typed_def dest!: init_raw_len split: sum.splits cond_rhs_type.splits if_splits)

lemma check_count_typed: "check_count db c = Inr c' \<Longrightarrow> is_count_star (cd_lhs_col c) \<Longrightarrow> cond_typed db (c', q)"
  by (auto simp: cond_typed_def dest!: init_raw_len split: sum.splits if_splits)

lemma check_cond_Inr:
  assumes "check_cond db all having (c, q) = Inr (c', q')"
  obtains l r where "check_column all (cd_lhs_col c) = Inr l" "if cd_rhs_type c = RHS_COL then check_column all (cd_rhs_col c) = Inr r else r = cd_rhs_col c" "q' = q"
    "having \<or> tc_aggr (cd_lhs_col c) = NO_AGGR"
    "(if is_count_star l then check_count db (c\<lparr>cd_lhs_col := l, cd_rhs_col := r\<rparr>) else check_plain db (c\<lparr>cd_lhs_col := l, cd_rhs_col := r\<rparr>, q)) = Inr c'"
proof -
  let ?r = "if cd_rhs_type c = RHS_COL then check_column all (cd_rhs_col c) else Inr (cd_rhs_col c)"
  obtain l where l: "check_column all (cd_lhs_col c) = Inr l" using assms by (auto simp: check_cond_def split: sum.splits if_splits)
  obtain r where r: "?r = Inr r" using assms l by (cases ?r) (simp_all add: check_cond_def split: if_splits)
  have "map_sum id (\<lambda>c. (c, q)) (if is_count_star l then check_count db (c\<lparr>cd_lhs_col := l, cd_rhs_col := r\<rparr>) else check_plain db (c\<lparr>cd_lhs_col := l, cd_rhs_col := r\<rparr>, q)) = Inr (c', q')"
    using assms unfolding check_cond_def prod.case l r sum.case Let_def by (simp only: split: if_splits) auto
  moreover have "having \<or> tc_aggr (cd_lhs_col c) = NO_AGGR" using assms by (auto simp: check_cond_def split: if_splits)
  ultimately show ?thesis using l r by (intro that [of l r]) (auto simp del: check_plain.simps check_count.simps split: if_splits)
qed

lemma check_cond_typed: "check_cond db all having (c, q) = Inr (c', q') \<Longrightarrow> cond_typed db (c', q')"
proof (erule check_cond_Inr)
  fix l r
  assume "q' = q" and "(if is_count_star l then check_count db (c\<lparr>cd_lhs_col := l, cd_rhs_col := r\<rparr>) else check_plain db (c\<lparr>cd_lhs_col := l, cd_rhs_col := r\<rparr>, q)) = Inr c'"
  then show ?thesis using check_count_typed [of db "c\<lparr>cd_lhs_col := l, cd_rhs_col := r\<rparr>"] check_plain_typed
    by (simp del: check_plain.simps check_count.simps split: if_splits)
qed

lemma check_clause_typed: "check_clause db ts conds having = Inr conds' \<Longrightarrow> list_all (cond_typed db) conds'"
  by (auto simp: check_clause_def split: sum.splits elim!: map_err_all dest!: check_cond_typed)

section \<open>From the statement to the plan\<close>

text \<open>Conditions written without tables, and what they are after the check.\<close>

fun plain_expr :: "binary_expr \<Rightarrow> bool" where
  "plain_expr (BinaryExpr l p r) \<longleftrightarrow> tc_tab_name l = [] \<and> (case r of RhsCol t \<Rightarrow> tc_tab_name t = [] \<and> p \<noteq> SV_OP_IN | _ \<Rightarrow> True)"

fun col_expr :: "binary_expr \<Rightarrow> bool" where
  "col_expr (BinaryExpr l p (RhsCol t)) \<longleftrightarrow> True"
| "col_expr (BinaryExpr l p r) \<longleftrightarrow> False"

definition plain_cond :: "condition \<Rightarrow> bool" where
  "plain_cond c \<longleftrightarrow> lhs_tab c = [] \<and> rhs_tab c = [] \<and> (cd_rhs_type c = RHS_COL \<longrightarrow> cd_op c \<noteq> OP_IN)"

definition cond_in :: "string set \<Rightarrow> condition \<Rightarrow> bool" where
  "cond_in ts c \<longleftrightarrow> lhs_tab c \<in> ts \<and> (if cd_rhs_type c = RHS_COL then rhs_tab c \<in> ts \<and> cd_op c \<noteq> OP_IN else rhs_tab c = [])"

lemma convert_op_IN [simp]: "convert_sv_comp_op p = OP_IN \<longleftrightarrow> p = SV_OP_IN"
  by (cases p) auto

lemma an_cond_plain: "an_cond j db mv e = Inr x \<Longrightarrow> plain_expr e \<Longrightarrow> plain_cond (fst x)"
  by (cases e; rename_tac l p r; case_tac r) (auto simp: plain_cond_def new_cond_def Let_def)

lemma an_cond_col: "an_cond j db mv e = Inr x \<Longrightarrow> col_expr e \<Longrightarrow> cd_rhs_type (fst x) = RHS_COL"
  by (cases e; rename_tac l p r; case_tac r) auto

lemma get_clause_map: "get_clause j db mv es = map_err (an_cond j db mv) es"
  by (induction es) (auto split: sum.splits)

lemma check_count_val: "check_count db c = Inr c' \<Longrightarrow> \<exists>v. c' = c\<lparr>cd_rhs_val := v\<rparr>"
  by (cases c) (auto split: sum.splits if_splits)

lemma check_plain_val: "check_plain db (c, q) = Inr c' \<Longrightarrow> \<exists>v. c' = c\<lparr>cd_rhs_val := v\<rparr>"
  by (cases c) (auto split: sum.splits cond_rhs_type.splits if_splits)

lemma check_cond_in:
  assumes "cat_ok db" and "get_all_cols db ts = Inr all" and "check_cond db all False (c, q) = Inr (c', q')" and "plain_cond c"
  shows "cond_in (set ts) c' \<and> cd_rhs_type c' = cd_rhs_type c"
  using assms(3)
proof (rule check_cond_Inr)
  fix l r
  assume l: "check_column all (cd_lhs_col c) = Inr l" and r: "if cd_rhs_type c = RHS_COL then check_column all (cd_rhs_col c) = Inr r else r = cd_rhs_col c"
    and a: "False \<or> tc_aggr (cd_lhs_col c) = NO_AGGR"
    and x: "(if is_count_star l then check_count db (c\<lparr>cd_lhs_col := l, cd_rhs_col := r\<rparr>) else check_plain db (c\<lparr>cd_lhs_col := l, cd_rhs_col := r\<rparr>, q)) = Inr c'"
  have "\<not> is_count_star (cd_lhs_col c)" using a by (simp add: is_count_star_def)
  then have lt: "tc_tab_name l \<in> set ts" using check_column_in [OF assms(1,2) l] assms(4) by (auto simp: plain_cond_def)
  obtain v where c': "c' = c\<lparr>cd_lhs_col := l, cd_rhs_col := r, cd_rhs_val := v\<rparr>"
    using x check_count_val [of db "c\<lparr>cd_lhs_col := l, cd_rhs_col := r\<rparr>" c'] check_plain_val [of db "c\<lparr>cd_lhs_col := l, cd_rhs_col := r\<rparr>" q c']
    by (auto simp del: check_plain.simps check_count.simps split: if_splits)
  have "\<not> is_count_star (cd_rhs_col c)" if "cd_rhs_type c = RHS_COL"
    using assms(3) that by (auto simp: check_cond_def is_count_star_def split: if_splits)
  then have "cd_rhs_type c = RHS_COL \<longrightarrow> tc_tab_name r \<in> set ts"
    using r check_column_in [OF assms(1,2), of "cd_rhs_col c" r] assms(4) by (auto simp: plain_cond_def)
  then show ?thesis using lt c' r assms(4) by (auto simp: cond_in_def plain_cond_def)
qed

lemma clause_in:
  assumes "cat_ok db" and "get_clause j db mv es = Inr cs" and "check_clause db ts cs False = Inr cs'" and "list_all plain_expr es"
  shows "list_all (\<lambda>c. cond_in (set ts) (fst c) \<and> (list_all col_expr es \<longrightarrow> cd_rhs_type (fst c) = RHS_COL)) cs'"
proof -
  obtain all where all: "get_all_cols db ts = Inr all" "map_err (check_cond db all False) cs = Inr cs'"
    using assms(3) by (auto simp: check_clause_def split: sum.splits)
  have cs: "list_all (\<lambda>c. plain_cond (fst c) \<and> (list_all col_expr es \<longrightarrow> cd_rhs_type (fst c) = RHS_COL)) cs"
    using assms(2,4) unfolding get_clause_map by (elim map_err_all) (auto simp: list_all_iff dest: an_cond_plain an_cond_col)
  show ?thesis using cs check_cond_in [OF assms(1) all(1)] by (intro map_err_all [OF all(2)]) (fastforce simp: list_all_iff)
qed

lemma plan_conds_fst: "plan_conds nl sm db cs = Inr ps \<Longrightarrow> map fst ps = map fst cs"
proof (induction cs arbitrary: ps)
  case (Cons c cs)
  have "plan_cond nl sm db c = Inr x \<Longrightarrow> fst x = fst c" for x by (cases c; cases "snd c") auto
  then show ?case using Cons by (auto split: sum.splits)
qed simp

lemma do_analyze_Inr:
  assumes "do_analyze j db mv (SelectStmt cols tabs ons conds grp) = Inr q"
  obtains os cs where "get_clause j db mv ons = Inr os" "get_clause j db mv conds = Inr cs" "aq_tables q = (if mv then [] else tabs)"
    "list_all (is_table db) (aq_tables q)" "check_clause db (aq_tables q) os False = Inr (aq_on q)" "check_clause db (aq_tables q) cs False = Inr (aq_conds q)"
  using assms by (cases grp) (auto simp: analyze_select_def Let_def find_None_iff list_all_iff split: option.splits if_splits)

lemma having_typed: "analyze_having db ts k h1 h2 = Inr h \<Longrightarrow> list_all (cond_typed db) h"
  by (auto simp: analyze_having_def split: if_splits intro: check_clause_typed)

text \<open>
  C22. A query that the analysis accepts is well formed: its tables exist; in every condition of WHERE, ON and HAVING
  the columns are in the catalogue, the types of the two sides can be compared where the right side is a value or a
  column (\<^verbatim>\<open>COUNT(*)\<close> counts as an INT), a value has been given as many bytes as the column has, and a subquery has at most one
  column and no groups, its type being left unchecked; and with GROUP BY every selected column is aggregated or one of the groups.
\<close>

theorem analyze_sound:
  assumes "do_analyze j db mv (SelectStmt cols tabs ons conds grp) = Inr q"
  shows "list_all (is_table db) (aq_tables q) \<and> list_all (cond_typed db) (aq_conds q @ aq_on q @ aq_having q) \<and>
    (grp \<noteq> None \<longrightarrow> list_all (in_group (aq_group q)) (aq_cols q))"
proof -
  obtain os cs where "list_all (is_table db) (aq_tables q)" "check_clause db (aq_tables q) os False = Inr (aq_on q)"
    "check_clause db (aq_tables q) cs False = Inr (aq_conds q)" using do_analyze_Inr [OF assms] .
  moreover have "list_all (cond_typed db) (aq_having q) \<and> (grp \<noteq> None \<longrightarrow> list_all (in_group (aq_group q)) (aq_cols q))"
    using assms by (cases grp) (auto simp: analyze_select_def analyze_group_def Let_def split: option.splits if_splits dest!: having_typed)
  ultimately show ?thesis by (auto dest: check_clause_typed)
qed

text \<open>
  C16. From the statement to its plan: a query over different tables whose conditions are written without tables and compare
  no two columns of one table, whose ON conditions compare columns, and whose subqueries can be planned, is planned once it is accepted: the plan is a
  projection (of an aggregation, where there is one) over a tree that scans each table of FROM once with the conditions on it and joins
  the scans, each condition between tables in one join that has its columns, and the conditions are the analysed ones.
\<close>

theorem query_planned:
  assumes "do_analyze j db False (SelectStmt cols tabs ons conds grp) = Inr q" and "cat_ok db" and "distinct tabs" and "tabs \<noteq> []" and "nl \<or> sm"
    and "list_all plain_expr conds" and "list_all plain_expr ons" and "list_all col_expr ons"
    and "list_all (\<lambda>c. lhs_tab (fst c) \<noteq> rhs_tab (fst c)) (aq_conds q @ aq_on q)"
    and "plan_conds nl sm db (aq_conds q) = Inr cs" and "plan_conds nl sm db (aq_having q) = Inr hs"
  shows "\<exists>p. plan_query nl sm db q =
      Inr (ProjectionPlan (if aq_has_aggr q \<or> aq_group q \<noteq> [] then AggregationPlan p (aq_cols q) (aq_group q) hs else p) (aq_cols q)) \<and> placed p \<and>
    mset (map (\<lambda>s. (plan_tab s, map fst (leaf_conds s))) (plan_leaves p)) = mset (map (\<lambda>n. (n, filter (on_tab n) (map fst (aq_conds q)))) tabs) \<and>
    image_mset norm_cond (mset (plan_joins p)) = image_mset norm_cond (mset (filter (between (set tabs)) (map fst (aq_conds q)) @ map fst (aq_on q)))"
proof -
  obtain os cs0 where an: "get_clause j db False ons = Inr os" "get_clause j db False conds = Inr cs0" "aq_tables q = tabs"
    "list_all (is_table db) tabs" "check_clause db tabs os False = Inr (aq_on q)" "check_clause db tabs cs0 False = Inr (aq_conds q)"
    using do_analyze_Inr [OF assms(1)] by (metis (full_types))
  have tab: "n \<noteq> []" if "n \<in> set tabs" for n
    using that an(4) get_table_cols [OF assms(2), of n] by (auto simp: list_all_iff is_table_def get_table_def)
  have fst_cs: "map fst cs = map fst (aq_conds q)" by (rule plan_conds_fst [OF assms(10)])
  have wh: "between (set tabs) c \<or> (\<exists>n\<in>set tabs. on_tab n c)" if "c \<in> set (map fst (aq_conds q))" for c
    using that clause_in [OF assms(2) an(2,6) assms(6)] assms(9) tab by (fastforce simp: list_all_iff cond_in_def between_def on_tab_def split: if_splits)
  have on: "\<forall>c\<in>set (map fst (aq_on q)). between (set tabs) c"
    using clause_in [OF assms(2) an(1,5) assms(7)] assms(8,9) by (auto simp: list_all_iff cond_in_def between_def)
  have ex: "\<forall>c\<in>set cs. between (set tabs) (fst c) \<or> (\<exists>n\<in>set tabs. on_tab n (fst c))" using wh arg_cong [OF fst_cs, of set] by (metis image_eqI set_map)
  have sel: "map fst (filter (P \<circ> fst) cs) = filter P (map fst (aq_conds q))" for P using fst_cs by (simp add: filter_map flip: fst_cs)
  obtain p where p: "make_one_rel nl sm db tabs cs (map fst (aq_on q)) = Inr p" "placed p"
    "mset (map (\<lambda>s. (plan_tab s, leaf_conds s)) (plan_leaves p)) = mset (map (\<lambda>n. (n, filter (on_tab n \<circ> fst) cs)) tabs)"
    "image_mset norm_cond (mset (plan_joins p)) = image_mset norm_cond (mset (filter (between (set tabs)) (map fst cs) @ map fst (aq_on q)))"
    using make_one_rel_complete [OF assms(3,4) _ _ assms(5) ex on, of db] tab an(4) by (auto simp: list_all_iff)
  have "mset (map (\<lambda>s. (plan_tab s, map fst (leaf_conds s))) (plan_leaves p)) = image_mset (map_prod id (map fst)) (mset (map (\<lambda>s. (plan_tab s, leaf_conds s)) (plan_leaves p)))"
    by (simp add: multiset.map_comp comp_def)
  also have "\<dots> = mset (map (\<lambda>n. (n, filter (on_tab n) (map fst (aq_conds q)))) tabs)"
    unfolding p(3) by (simp add: multiset.map_comp comp_def sel [unfolded comp_def])
  finally show ?thesis using p an(3) assms(10,11) fst_cs
    by (intro exI [of _ p]) (cases q, simp add: generate_select_plan_def generate_aggregation_group_plan_def)
qed

section \<open>Sample query\<close>

text \<open>\<^verbatim>\<open>select * from r, t where a < b and a = 5;\<close>\<close>

definition two_tabs :: db_meta where
  "two_tabs = \<lparr>db_name = ''d'', db_tabs =
     [(''r'', \<lparr>tm_name = ''r'', tm_cols = [(demo_col ''a'' 0)\<lparr>cm_tab_name := ''r''\<rparr>], tm_indexes = []\<rparr>),
      (''t'', \<lparr>tm_name = ''t'', tm_cols = [(demo_col ''b'' 0)\<lparr>cm_tab_name := ''t''\<rparr>], tm_indexes = []\<rparr>)]\<rparr>"

definition named_col :: "string \<Rightarrow> tab_col" where
  "named_col c = \<lparr>tc_tab_name = [], tc_col_name = c, tc_alias = [], tc_aggr = NO_AGGR\<rparr>"

definition join_stmt :: select_stmt where
  "join_stmt = SelectStmt [] [''r'', ''t''] [] [BinaryExpr (named_col ''a'') SV_OP_LT (RhsCol (named_col ''b'')), BinaryExpr (named_col ''a'') SV_OP_EQ (RhsValue (IntLit 5))] None"

lemma two_tabs_ok [simp]: "cat_ok two_tabs" by (simp add: cat_ok_def two_tabs_def)

lemma two_tabs_cols:
  "get_all_cols two_tabs [''r'', ''t''] = Inr [(demo_col ''a'' 0)\<lparr>cm_tab_name := ''r''\<rparr>, (demo_col ''b'' 0)\<lparr>cm_tab_name := ''t''\<rparr>]"
  by (simp add: get_all_cols_def get_table_def two_tabs_def)

lemma join_stmt_analyzed:
  "\<exists>q c v. do_analyze 0 two_tabs False join_stmt = Inr q \<and> aq_conds q = [(c, None), (v, None)] \<and> aq_on q = [] \<and> aq_having q = [] \<and> \<not> aq_has_aggr q \<and> aq_group q = [] \<and>
     lhs_tab c = ''r'' \<and> rhs_tab c = ''t'' \<and> cd_rhs_type c = RHS_COL \<and> cd_op c = OP_LT \<and> lhs_tab v = ''r'' \<and> rhs_tab v = [] \<and> cd_rhs_type v = RHS_VALUE"
  by (simp add: join_stmt_def analyze_select_def get_table_def is_table_def two_tabs_def Let_def check_clause_def check_cond_def check_column_def
      get_all_cols_def select_list_ok_def named_col_def err_bind_def new_cond_def demo_col_def is_count_star_def catalogue_col_def get_col_def
      type_check_def value_type_match_def init_raw_def fresh_value_def set_int_def star_cols_def)

theorem check_column_resolves_witness:
  "\<exists>all. get_all_cols two_tabs [''r'', ''t''] = Inr all \<and> check_column all (named_col ''b'') = Inr ((named_col ''b'')\<lparr>tc_tab_name := ''t''\<rparr>) \<and>
     check_column all (named_col ''c'') = Inl (ColumnNotFoundError ''c'') \<and> check_column (all @ all) (named_col ''b'') = Inl (AmbiguousColumnError ''b'')"
proof -
  note r = check_column_resolves [OF two_tabs_ok]
  have "get_all_cols two_tabs ([''r'', ''t''] @ [''r'', ''t'']) = Inr ([(demo_col ''a'' 0)\<lparr>cm_tab_name := ''r''\<rparr>, (demo_col ''b'' 0)\<lparr>cm_tab_name := ''t''\<rparr>] @ [(demo_col ''a'' 0)\<lparr>cm_tab_name := ''r''\<rparr>, (demo_col ''b'' 0)\<lparr>cm_tab_name := ''t''\<rparr>])"
    by (simp add: get_all_cols_def get_table_def two_tabs_def)
  from r [OF this, of "named_col ''b''"] r [OF two_tabs_cols, of "named_col ''b''"] r [OF two_tabs_cols, of "named_col ''c''"]
  show ?thesis using two_tabs_cols by (simp add: named_col_def demo_col_def is_count_star_def)
qed

theorem analyze_sound_witness:
  "\<exists>q. do_analyze 0 two_tabs False join_stmt = Inr q \<and> list_all (is_table two_tabs) (aq_tables q) \<and> list_all (cond_typed two_tabs) (aq_conds q) \<and> length (aq_conds q) = 2"
proof -
  obtain q where q: "do_analyze 0 two_tabs False join_stmt = Inr q" "length (aq_conds q) = 2" using join_stmt_analyzed by auto
  from analyze_sound [OF q(1) [unfolded join_stmt_def]] show ?thesis using q by auto
qed

theorem query_planned_witness:
  "\<exists>p q c v. do_analyze 0 two_tabs False join_stmt = Inr q \<and> aq_conds q = [(c, None), (v, None)] \<and>
     plan_query True False two_tabs q = Inr (ProjectionPlan p (aq_cols q)) \<and> placed p \<and>
     mset (map (\<lambda>s. (plan_tab s, map fst (leaf_conds s))) (plan_leaves p)) = {#(''r'', [v]), (''t'', [])#} \<and> image_mset norm_cond (mset (plan_joins p)) = {#norm_cond c#}"
proof -
  obtain q c v where q: "do_analyze 0 two_tabs False join_stmt = Inr q" "aq_conds q = [(c, None), (v, None)]" "aq_on q = []" "aq_having q = []" "\<not> aq_has_aggr q" "aq_group q = []"
    and c: "lhs_tab c = ''r''" "rhs_tab c = ''t''" "cd_rhs_type c = RHS_COL" "cd_op c = OP_LT" "lhs_tab v = ''r''" "rhs_tab v = []" "cd_rhs_type v = RHS_VALUE"
    using join_stmt_analyzed by blast
  note p = query_planned [OF q(1) [unfolded join_stmt_def] two_tabs_ok, of True False "[(c, None), (v, None)]" "[]"]
  show ?thesis using p q c by (auto simp: named_col_def between_def on_tab_def)
qed

end
