(* ===== verification/Spec2Isabelle.thy ===== *)
theory Spec2Isabelle
  imports Rm_Manager Lock_Service Recovery_Correct Txn_Manager Ix_Range Agg_Correct Restart Analyze
begin

text \<open>
  RMDB is a relational database server in C++ (\<^verbatim>\<open>src/src/\<close>). This development models its storage,
  transaction and execution layers function by function and proves what each layer promises to
  the ones above. It is read bottom-up; each theory opens with a note on what it holds.

  \<^bold>\<open>The program and the theories.\<close> A statement that reaches the server is parsed, analysed and
  planned; from the syntax tree on it is modelled here.

  \<^item> \<open>Rmdb_Prelude\<close>: \<^verbatim>\<open>common/config.h\<close>, \<^verbatim>\<open>defs.h\<close>, \<^verbatim>\<open>errors.h\<close>. Constants, record identifiers, the
    exceptions as the datatype \<open>rmdb_error\<close>, byte buffers with \<^verbatim>\<open>memcpy\<close>-style accesses and
    little-endian integers. Throwing is the left branch of \<open>outcome\<close>, and the state is returned on
    both branches, since a throw does not undo assignments.
  \<^item> \<open>Lru_Replacer\<close>: \<^verbatim>\<open>replacer/lru_replacer.cpp\<close>. The list with node identities and the hash of
    iterators; the abstract class is the locale \<open>replacer\<close>.
  \<^item> \<open>Disk_Manager\<close>: \<^verbatim>\<open>storage/disk_manager.cpp\<close> over the POSIX calls it makes.
  \<^item> \<open>Buffer_Pool\<close>, \<open>Page_Store\<close>, \<open>Pool_Client\<close>: \<^verbatim>\<open>storage/buffer_pool_manager.cpp\<close>. The operations on
    frames, and the locale \<open>page_store\<close>: what fetching, changing and unpinning a page do to the
    pages a client sees.
  \<^item> \<open>Bitmap\<close>, \<open>Rm_File\<close>, \<open>Rm_Page\<close>, \<open>Rm_Table\<close>, \<open>Rm_Scan\<close>, \<open>Rm_Store\<close>, \<open>Rm_Manager\<close>, \<open>Rm_Database\<close>:
    \<^verbatim>\<open>record/\<close>. Slotted pages on bytes, the file handle, scans, file creation, and the files of all
    tables. The locales \<open>table_store\<close> and \<open>row_db\<close> are the contracts of one table and of all
    tables.
  \<^item> \<open>Lock_Manager\<close>, \<open>Lock_Service\<close>: \<^verbatim>\<open>transaction/concurrency/lock_manager.cpp\<close>. Lock calls as atomic
    functions on request queues, blocked calls as a result, an \<open>inductive\<close> transition system of all
    interleavings, and the locale \<open>lock_service\<close> with the view of two-phase locking.
  \<^item> \<open>Log_Record\<close>, \<open>Log_Manager\<close>, \<open>Log_Pool\<close>: \<^verbatim>\<open>recovery/log_manager.{h,cpp}\<close>. The record classes and
    their bytes, the log buffer, and that log and pages do not disturb each other on the disk
    manager they share.
  \<^item> \<open>Row_History\<close>, \<open>Log_Recovery\<close>, \<open>Recovery_Correct\<close>: \<^verbatim>\<open>recovery/log_recovery.cpp\<close>. Analysis, redo and
    undo of the rows, measured against histories of row changes.
  \<^item> \<open>Ix_Defs\<close>, \<open>Ix_Node\<close>, \<open>Ix_Tree\<close>, \<open>Ix_Manager\<close>: \<^verbatim>\<open>index/\<close>. Key order, file header, one node on the
    bytes of its page, the tree operations and scans, index files.
  \<^item> \<open>Bt_Model\<close>, \<open>Bt_Pages\<close>, \<open>Bt_Edits\<close>, \<open>Bt_Insert\<close>, \<open>Bt_Entry\<close>, \<open>Bt_Siblings\<close>, \<open>Bt_Delete\<close>: the proof that the
    operations of \<open>Ix_Tree\<close> work on B+ trees. The first two have the tree as a datatype with its
    order and fill invariant and the relation between a tree and the pages that hold it; the
    others follow the operations, from the edit of a page to insertion with splits and deletion
    with redistribution and merging.
  \<^item> \<open>Ix_Index\<close>, \<open>Ix_Range\<close>: the contract of an open index. \<open>ix_holds h s n m\<close> says that the pages form
    a tree of height \<open>n\<close> for the finite map \<open>m\<close>; the locale \<open>index_service\<close> is what its clients rely
    on; a position of a scan stands for the number of pairs before it.
  \<^item> \<open>Sm_Meta\<close>: \<^verbatim>\<open>system/sm_meta.h\<close>. The catalogue, its text form, and the choice of an index.
  \<^item> \<open>Txn_Manager\<close>: \<^verbatim>\<open>transaction/transaction_manager.cpp\<close>, \<^verbatim>\<open>transaction.h\<close>. Beginning, committing
    and aborting over tables, indexes, log and locks in one system state.
  \<^item> \<open>Float32\<close>, \<open>Values\<close>: \<^verbatim>\<open>common/common.h\<close>, \<^verbatim>\<open>execution/condition_check.cpp\<close>. Floats by their bits,
    values with their conversions and comparisons, conditions on a record.
  \<^item> \<open>Tab_Reads\<close>, \<open>Executors\<close>, \<open>Aggregation\<close>, \<open>Portal\<close>: \<^verbatim>\<open>execution/executor_*.h\<close>, \<^verbatim>\<open>portal.h\<close>. Reading tables
    under locks; scans, joins, projections and aggregations as a datatype of iterators, one
    function for each of \<^verbatim>\<open>beginTuple\<close>, \<^verbatim>\<open>nextTuple\<close>, \<^verbatim>\<open>is_end\<close> and \<^verbatim>\<open>Next\<close>; their constructors, subqueries
    included; building the executors of a plan.
  \<^item> \<open>Query_Correct\<close>, \<open>Agg_Correct\<close>: what queries return. The locale \<open>tuple_source\<close> is the contract of an
    iterator, and \<open>ex_rows\<close> the relational meaning of a tree of executors.
  \<^item> \<open>Dml\<close>, \<open>Dml_Correct\<close>: \<^verbatim>\<open>executor_insert.h\<close>, \<^verbatim>\<open>executor_delete.h\<close>, \<^verbatim>\<open>executor_update.h\<close>. Statements that
    change tables, over log, locks, write set and indexes.
  \<^item> \<open>Restart\<close>: \<^verbatim>\<open>recovery/log_recovery.cpp\<close>, \<^verbatim>\<open>create_index\<close> and \<^verbatim>\<open>drop_index\<close> of \<^verbatim>\<open>system/sm_manager.cpp\<close>, \<^verbatim>\<open>rmdb.cpp\<close>. The
    rebuilding of the indexes at the end of undo, and recovery as a whole.
  \<^item> \<open>Analyze\<close>: \<^verbatim>\<open>analyze/analyze.cpp\<close>, \<^verbatim>\<open>parser/ast.h\<close>, \<^verbatim>\<open>optimizer/optimizer.h\<close>. Syntax trees, the resolution of columns,
    type checks, GROUP BY and HAVING, subqueries, and their plans.
  \<^item> \<open>Planner\<close>: \<^verbatim>\<open>optimizer/planner.cpp\<close>. Conditions to scans, the choice of scan, the join tree.

  \<^bold>\<open>What the theorems show.\<close>

  \<^item> Storage: the replacer refines a least-recently-used list; the disk manager keeps its tables
    inverse and pages read back as written, with the exact range of page numbers for which this
    holds; the pool presents every page as last stored, whatever is evicted, and a pinned page stays.
  \<^item> Records: the page layout fits; insertion, deletion and update refine a finite map from record
    identifiers to records and undo each other; a scan visits every record once and ends.
  \<^item> Locks: shared and exclusive table locks exclude each other over all interleavings and a
    locked table is isolated; no request is lost; the wait-die rule. Two runs show an intention
    lock granted against the mode matrix and an upgrade that stays blocked, with the transaction
    that waits for it, as long as no other transaction asks for the table.
  \<^item> Log and recovery: records read back; the log is an append-only sequence; recovery ends with
    exactly the committed changes, from any state of the pages a crash may leave, for tables
    without indexes and logs with increasing LSNs, isolated writes and no earlier rollback. Theorems
    show what reused LSNs, an earlier rollback and a checkpoint record do. Rebuilding an index reads
    every row of the table; when their keys differ, the index ends in agreement with the table, and
    otherwise the code deletes the later of two rows with one key.
  \<^item> Index: binary searches equal the linear definition of the bounds. An open index is a finite
    map: insertion adds the pair unless the key is there, deletion removes it as long as a pair is
    left, lookup finds what the map has, a range scan yields the pairs of the range in key order,
    and sequences of operations refine sequences on the map. A search ends with fuel above the
    height of the tree. Two theorems show where this stops: deleting the last pair leaves an
    index on which the next operation fails, and a scan with contradictory bounds throws.
  \<^item> Catalogue and transactions: \<^verbatim>\<open>db.meta\<close> reads back; the index chosen has the longest restricted
    prefix; a rollback restores the tables the transaction found; commit leaves the whole log,
    its own record included, in the log file.
  \<^item> Queries: conditions are decided by the order of integers, floats and padded strings; a tree
    of sequential scans, joins and projections returns exactly the records of its relational
    meaning, in order, and changes nothing; projections and joins put every column where its
    description says; aggregations return the counts, sums and extrema of all records or of each
    group. Strings compared with \<^verbatim>\<open>>\<close> depend on an unassigned length.
  \<^item> Statements: an inserted record is well typed; adding the keys of a row to the indexes is all or
    nothing; DELETE and UPDATE change exactly their rows, keep the indexes in agreement with the
    table (\<open>ix_agrees\<close>) and record every change for rollback and recovery. DELETE from a table with
    indexes has to leave a row. UPDATE that sets a column of an index to the value it has aborts.
  \<^item> Analysis and planning: an unqualified column is resolved to the only column of its name; an
    accepted query is well formed; for conditions on one table by value or between two tables the planner scans every table once with its conditions and
    puts every condition between tables into one join whose sides have its columns; together they
    take a query from its syntax tree to such a plan.

  \<^bold>\<open>Atomicity.\<close> The pool latch, the queue latch of a lock and the log latch make each operation one
  step; the lock manager's steps are interleaved explicitly. Orders the code leaves open
  (iteration over \<^verbatim>\<open>unordered_map\<close> and \<^verbatim>\<open>unordered_set\<close>) are arguments, and the theorems hold for
  all of them.

  \<^bold>\<open>Integers.\<close> \<^verbatim>\<open>int\<close> arithmetic wraps where it can overflow: page addresses, LSNs, transaction
  numbers. Sizes bounded by a page are unbounded numbers, with the bound a lemma.

  \<^bold>\<open>Fuel.\<close> Four groups of loops follow data read from files and take fuel: the scan over a table,
  reading and chaining back the log, walking and rebalancing the tree, and the loops of executors
  over their input. Running out of fuel is \<open>None\<close>. The theorems give a fuel that suffices: one round
  more than there are records, the length of the log, one more than the height of the tree, and
  for executors a number from which on every fuel gives the result.

  \<^bold>\<open>Bounds of the index theorems.\<close> Page numbers stay in the range of an \<^verbatim>\<open>int\<close>; keys have no \<^verbatim>\<open>FLOAT\<close>
  column, since there equal values can have different bytes; a node holds at least six pairs,
  which a created index guarantees.

  \<^bold>\<open>Not modelled.\<close> Directory operations (shell commands); printing; the parser, which is generated;
  sockets and threads of the server and the client; DDL statements other than CREATE and DROP INDEX;
  ORDER BY with its sort plan and executor, a stub in the source; writing the catalogue to its file
  (\<^verbatim>\<open>flush_meta\<close>). The theorems on queries are about sequential scans:
  index scans are defined, not proved. The theorem on the rollback of a transaction is on tables
  without indexes, and the choice of a free slot by INSERT is covered by the theorem on one table.

  \<^bold>\<open>Simplifications.\<close> The pages of an open index are kept in its handle and not in the frames of the
  shared pool: a fetch of an index page finds a frame, and index pages never displace pages of
  tables. Recovery reads the log through a disk manager value of its own. Opening an existing file
  succeeds. \<open>bpm_delete_page\<close> uses the frame number that the source reads through an iterator it
  has just erased.
\<close>

end
